(* ===== verification/Share_Prelude.thy ===== *)
theory Share_Prelude
  imports Main "HOL-Library.Word"
begin

text \<open>
  Shared ground of the development: the machine types of the C sources, the
  faults a C program can run into, a sequencing operator for computations that
  may fault, the memory primitives of the C library the sources use, and the
  generic lemmas on lists and words the components rest on.

  A C function that may read or write out of range, dereference a null pointer,
  overflow a signed integer, free memory it does not own, spin for ever or call
  the system in a way its standard leaves undefined is
  modelled as a function into \<open>fault + 'a\<close>: \<open>Inl\<close> carries the fault and \<open>Inr\<close>
  the result.  Error codes the code returns itself (\<open>SHERR_xxx\<close>) are ordinary
  integers inside the result.  A pointer that may be \<open>NULL\<close> is an \<open>option\<close>.
\<close>

unbundle bit_operations_syntax

named_theorems run_simps \<open>rewriting of computations that may fault\<close>
named_theorems mem_simps \<open>rewriting of the memory primitives\<close>
named_theorems const_simps \<open>the numeric constants of the headers\<close>

section \<open>Machine types\<close>

type_synonym byte = "8 word"
type_synonym u16 = "16 word"
type_synonym u32 = "32 word"
type_synonym u64 = "64 word"
type_synonym 'a ptr = "'a option"

section \<open>Faults and sequencing\<close>

datatype fault =
    NullDeref
  | OutOfBounds
  | IntOverflow
  | BadFree
  | Diverge
  | Undefined

definition run_bind :: "fault + 'a \<Rightarrow> ('a \<Rightarrow> fault + 'b) \<Rightarrow> fault + 'b" where
  "run_bind m f = (case m of Inl e \<Rightarrow> Inl e | Inr x \<Rightarrow> f x)"

lemma run_bind_Inr [simp, run_simps]: "run_bind (Inr x) f = f x"
  by (simp add: run_bind_def)

lemma run_bind_Inl [simp, run_simps]: "run_bind (Inl e) f = Inl e"
  by (simp add: run_bind_def)

lemma run_bind_eq_Inr: "run_bind m f = Inr y \<longleftrightarrow> (\<exists>x. m = Inr x \<and> f x = Inr y)"
  by (cases m) auto

lemma run_bind_eq_Inl:
  "run_bind m f = Inl e \<longleftrightarrow> m = Inl e \<or> (\<exists>x. m = Inr x \<and> f x = Inl e)"
  by (cases m) auto

lemma run_bind_cong [fundef_cong]:
  "\<lbrakk>m = m'; \<And>x. m' = Inr x \<Longrightarrow> f x = f' x\<rbrakk> \<Longrightarrow> run_bind m f = run_bind m' f'"
  by (cases m') auto

lemma run_bind_assoc: "run_bind (run_bind m f) g = run_bind m (\<lambda>x. run_bind (f x) g)"
  by (cases m) auto

section \<open>C integers\<close>

text \<open>Conversion of a \<open>size_t\<close> to \<open>int\<close>, the product of two \<open>int\<close>s (overflow is
  undefined in C) and the conversion of an \<open>int\<close> back to \<open>size_t\<close>.\<close>

definition int_of_size :: "nat \<Rightarrow> int" where
  "int_of_size n = signed_take_bit 31 (int n)"

definition int_mul :: "int \<Rightarrow> int \<Rightarrow> fault + int" where
  "int_mul a b =
     (if - (2 ^ 31) \<le> a * b \<and> a * b < 2 ^ 31 then Inr (a * b) else Inl IntOverflow)"

definition size_of_int :: "int \<Rightarrow> nat" where
  "size_of_int i = nat (i mod 2 ^ 64)"

text \<open>Division of \<open>int\<close>s, which rounds towards zero.\<close>

definition int_quot :: "int \<Rightarrow> int \<Rightarrow> int" where
  "int_quot a b = sgn a * sgn b * (\<bar>a\<bar> div \<bar>b\<bar>)"

definition int_add :: "int \<Rightarrow> int \<Rightarrow> fault + int" where
  "int_add a b =
     (if - (2 ^ 31) \<le> a + b \<and> a + b < 2 ^ 31 then Inr (a + b) else Inl IntOverflow)"

lemma int_quot_nonneg [simp]: "0 \<le> a \<Longrightarrow> 0 < b \<Longrightarrow> int_quot a b = a div b"
  by (cases "a = 0") (simp_all add: int_quot_def)

lemma int_of_size_small [simp]: "n < 2 ^ 31 \<Longrightarrow> int_of_size n = int n"
  by (simp add: int_of_size_def signed_take_bit_int_eq_self)

lemma size_of_int_of_nat [simp]: "n < 2 ^ 64 \<Longrightarrow> size_of_int (int n) = n"
  by (simp add: size_of_int_def nat_mod_distrib flip: of_nat_power)

section \<open>Memory primitives\<close>

text \<open>
  A block of memory is its list of bytes.  \<open>mem_read\<close> and \<open>mem_write\<close> are the
  two sides of \<open>memcpy\<close>, \<open>mem_fill\<close> is \<open>memset\<close>; each faults when the range
  leaves the block.  \<open>c_strlen\<close> scans for the terminating NUL and faults when
  there is none.
\<close>

definition mem_read :: "byte list \<Rightarrow> nat \<Rightarrow> nat \<Rightarrow> fault + byte list" where
  "mem_read m k n = (if k + n \<le> length m then Inr (take n (drop k m)) else Inl OutOfBounds)"

definition mem_write :: "byte list \<Rightarrow> nat \<Rightarrow> byte list \<Rightarrow> fault + byte list" where
  "mem_write m k bs =
     (if k + length bs \<le> length m then Inr (take k m @ bs @ drop (k + length bs) m)
      else Inl OutOfBounds)"

definition mem_fill :: "byte list \<Rightarrow> nat \<Rightarrow> nat \<Rightarrow> byte \<Rightarrow> fault + byte list" where
  "mem_fill m k n b = mem_write m k (replicate n b)"

definition mem_get :: "byte list \<Rightarrow> nat \<Rightarrow> fault + byte" where
  "mem_get m i = (if i < length m then Inr (m ! i) else Inl OutOfBounds)"

text \<open>Appending through a moving pointer into a block of \<open>cap\<close> bytes.\<close>

definition mem_put :: "nat \<Rightarrow> byte list \<Rightarrow> byte list \<Rightarrow> fault + byte list" where
  "mem_put cap out bs = (if length out + length bs \<le> cap then Inr (out @ bs) else Inl OutOfBounds)"

definition c_strlen :: "byte list \<Rightarrow> fault + nat" where
  "c_strlen m = (if 0 \<in> set m then Inr (length (takeWhile (\<lambda>b. b \<noteq> 0) m)) else Inl OutOfBounds)"

lemma mem_read_ok [mem_simps]:
  "k + n \<le> length m \<Longrightarrow> mem_read m k n = Inr (take n (drop k m))"
  by (simp add: mem_read_def)

lemma mem_write_ok [mem_simps]:
  "k + length bs \<le> length m \<Longrightarrow>
     mem_write m k bs = Inr (take k m @ bs @ drop (k + length bs) m)"
  by (simp add: mem_write_def)

lemma mem_fill_ok [mem_simps]:
  "k + n \<le> length m \<Longrightarrow>
     mem_fill m k n b = Inr (take k m @ replicate n b @ drop (k + n) m)"
  by (simp add: mem_fill_def mem_write_ok)

lemma mem_get_ok [mem_simps]: "i < length m \<Longrightarrow> mem_get m i = Inr (m ! i)"
  by (simp add: mem_get_def)

lemma mem_put_ok [mem_simps]: "length out + length bs \<le> cap \<Longrightarrow> mem_put cap out bs = Inr (out @ bs)"
  by (simp add: mem_put_def)

lemma mem_write_length: "mem_write m k bs = Inr m' \<Longrightarrow> length m' = length m"
  by (auto simp: mem_write_def split: if_splits)

lemma mem_fill_length: "mem_fill m k n b = Inr m' \<Longrightarrow> length m' = length m"
  by (auto simp: mem_fill_def dest: mem_write_length)

lemma mem_read_write_same:
  "mem_write m k bs = Inr m' \<Longrightarrow> mem_read m' k (length bs) = Inr bs"
  by (auto simp: mem_write_def mem_read_def split: if_splits)

text \<open>The allocator's answers are inputs of the model: whether a request of \<open>n\<close>
  bytes is met, and what the bytes of freshly extended memory hold.\<close>

record libc =
  calloc_ok :: "nat \<Rightarrow> bool"
  realloc_ok :: "nat \<Rightarrow> bool"
  fresh :: "nat \<Rightarrow> byte"

definition libc_total :: "libc \<Rightarrow> bool" where
  "libc_total c \<longleftrightarrow> (\<forall>n. calloc_ok c n \<and> realloc_ok c n)"

lemma libc_totalD [simp]:
  "libc_total c \<Longrightarrow> calloc_ok c n" "libc_total c \<Longrightarrow> realloc_ok c n"
  by (auto simp: libc_total_def)

section \<open>Little-endian byte order\<close>

text \<open>The bytes of an integer in memory, least significant first, and back.\<close>

fun le_bytes :: "nat \<Rightarrow> 'a::len word \<Rightarrow> byte list" where
  "le_bytes 0 w = []"
| "le_bytes (Suc n) w = ucast w # le_bytes n (drop_bit 8 w)"

fun le_val :: "byte list \<Rightarrow> 'a::len word" where
  "le_val [] = 0"
| "le_val (b # bs) = ucast b OR push_bit 8 (le_val bs)"

lemma length_le_bytes [simp]: "length (le_bytes n w) = n"
  by (induction n arbitrary: w) auto

lemma le_val_le_bytes: "le_val (le_bytes n w) = take_bit (8 * n) w"
proof (induction n arbitrary: w)
  case 0
  then show ?case by simp
next
  case (Suc n)
  show ?case
    by (rule bit_word_eqI) (auto simp: Suc bit_simps not_less)
qed

lemma le_val_le_bytes_id [simp]:
  "LENGTH('a) \<le> 8 * n \<Longrightarrow> le_val (le_bytes n (w :: 'a::len word)) = w"
  by (simp add: le_val_le_bytes take_bit_word_eq_self)

lemma le_bytes_inj:
  assumes "LENGTH('a) \<le> 8 * n" and "le_bytes n (v :: 'a::len word) = le_bytes n w"
  shows "v = w"
  by (metis assms le_val_le_bytes_id)

lemma le_val_bits: "\<not> bit (le_val bs :: 'a::len word) n" if "8 * length bs \<le> n"
  using that
proof (induction bs arbitrary: n)
  case Nil
  then show ?case by simp
next
  case (Cons b bs)
  have "\<not> bit b n" using Cons.prems bit_imp_le_length [of b n] by auto
  moreover have "\<not> bit (le_val bs :: 'a word) (n - 8)"
    using Cons.prems by (intro Cons.IH) simp
  ultimately show ?case by (simp add: bit_simps)
qed

lemma le_bytes_le_val [simp]:
  "8 * length bs \<le> LENGTH('a) \<Longrightarrow> le_bytes (length bs) (le_val bs :: 'a::len word) = bs"
proof (induction bs)
  case Nil
  then show ?case by simp
next
  case (Cons b bs)
  let ?w = "ucast b OR push_bit 8 (le_val bs) :: 'a word"
  have "ucast ?w = b"
    using Cons.prems by (intro bit_word_eqI) (auto simp: bit_simps)
  moreover have "drop_bit 8 ?w = le_val bs"
  proof (rule bit_word_eqI)
    fix n assume "n < LENGTH('a)"
    show "bit (drop_bit 8 ?w) n = bit (le_val bs :: 'a word) n"
    proof (cases "8 * length bs \<le> n")
      case True
      then show ?thesis
        by (auto simp: bit_simps le_val_bits dest: bit_imp_le_length)
    next
      case False
      then show ?thesis
        using Cons.prems by (auto simp: bit_simps dest: bit_imp_le_length)
    qed
  qed
  ultimately show ?case using Cons by simp
qed

lemma le_val_inj:
  assumes "length xs = length ys" "8 * length xs \<le> LENGTH('a)"
    and "(le_val xs :: 'a::len word) = le_val ys"
  shows "xs = ys"
  by (metis assms le_bytes_le_val)

section \<open>Byte order of the network\<close>

text \<open>\<open>htons\<close>, \<open>htonl\<close> on a little-endian host, and the \<open>htonll\<close> macro of \<^verbatim>\<open>shmem.h\<close>.\<close>

definition htons :: "u16 \<Rightarrow> u16" where
  "htons x = le_val (rev (le_bytes 2 x))"

definition htonl :: "u32 \<Rightarrow> u32" where
  "htonl x = le_val (rev (le_bytes 4 x))"

definition htonll :: "u64 \<Rightarrow> u64" where
  "htonll x = push_bit 32 (ucast (htonl (ucast (x AND 0xFFFFFFFF)))) OR
              ucast (htonl (ucast (drop_bit 32 x)))"

lemma htons_htons [simp]: "htons (htons x) = x"
  using le_bytes_le_val [where 'a = 16, of "rev (le_bytes 2 x)"] by (simp add: htons_def)

lemma htonl_htonl [simp]: "htonl (htonl x) = x"
  using le_bytes_le_val [where 'a = 32, of "rev (le_bytes 4 x)"] by (simp add: htonl_def)

lemma and_low32: "(x :: u64) AND 0xFFFFFFFF = take_bit 32 x"
proof -
  have "(0xFFFFFFFF :: u64) = mask 32" by (simp add: mask_eq_exp_minus_1)
  then show ?thesis by (simp add: take_bit_eq_mask)
qed

lemma htonll_htonll [simp]: "htonll (htonll x) = x"
proof -
  let ?h = "htonl (ucast (drop_bit 32 x))" and ?l = "htonl (ucast (take_bit 32 x))"
  have hi: "ucast (drop_bit 32 (htonll x)) = ?l"
    unfolding htonll_def and_low32
    by (intro bit_word_eqI) (auto simp: bit_simps dest: bit_imp_le_length)
  have lo: "ucast (take_bit 32 (htonll x)) = ?h"
    unfolding htonll_def and_low32 by (intro bit_word_eqI) (auto simp: bit_simps)
  have "htonll (htonll x) = push_bit 32 (ucast (htonl ?h)) OR ucast (htonl ?l)"
    unfolding htonll_def [of "htonll x"] and_low32 hi lo ..
  also have "\<dots> = x"
    unfolding htonl_htonl
    by (intro bit_word_eqI) (auto simp: bit_simps not_le dest: bit_imp_le_length)
  finally show ?thesis .
qed

lemma htonll_inj: "htonll x = htonll y \<longleftrightarrow> x = y"
  by (metis htonll_htonll)

lemma unat_ucast_u32_u64 [simp]: "unat (ucast (w :: u32) :: u64) = unat w"
proof -
  have "unat w < 2 ^ LENGTH(32)" by (rule unsigned_less)
  then have "unat w < 2 ^ 64" by simp
  then show ?thesis by (simp add: unsigned_ucast_eq take_bit_nat_eq_self)
qed

lemma ucast_ucast_u32 [simp]: "ucast (ucast (w :: u32) :: u64) = w"
  by (intro bit_word_eqI) (auto simp: bit_simps)

text \<open>Byte facts are settled bit by bit.\<close>

lemma le_bytes_split: "le_bytes (m + n) w = le_bytes m w @ le_bytes n (drop_bit (8 * m) w)"
  by (induction m arbitrary: w) (simp_all add: ac_simps)

lemma le_bytes_4: "le_bytes 4 w = map (\<lambda>i. ucast (drop_bit (8 * i) w)) [0, 1, 2, 3]"
  by (simp add: numeral_eq_Suc)

lemma le_bytes_low: "le_bytes 4 (ucast (x :: u64) :: u32) = le_bytes 4 x"
  unfolding le_bytes_4 list.map list.inject
  by (intro conjI bit_word_eqI) (auto simp: bit_simps)

lemma le_val_append: "le_val (xs @ ys) = (le_val xs OR push_bit (8 * length xs) (le_val ys) :: 'a::len word)"
  by (induction xs) (simp_all add: push_bit_or or.assoc)

lemma le_val_ucast: "8 * length bs \<le> LENGTH('a) \<Longrightarrow> ucast (le_val bs :: 'a::len word) = (le_val bs :: 'b::len word)"
proof (induction bs)
  case (Cons b bs)
  have "n < LENGTH('a)" if "bit (le_val bs :: 'a word) (n - 8)" "8 \<le> n" for n
  proof -
    have "\<not> 8 * length bs \<le> n - 8" using le_val_bits that(1) by blast
    then show ?thesis using Cons.prems that(2) by simp
  qed
  then have "ucast (ucast b OR push_bit 8 (le_val bs) :: 'a word) = (ucast b OR push_bit 8 (ucast (le_val bs :: 'a word)) :: 'b word)"
    using Cons.prems
    by (intro bit_word_eqI) (auto simp: bit_simps le_val_bits dest: bit_imp_le_length)
  then show ?case using Cons by simp
qed simp

lemma htonll_rev: "htonll x = le_val (rev (le_bytes 8 x))"
proof -
  have "le_bytes 8 x = le_bytes 4 x @ le_bytes 4 (drop_bit 32 x)" using le_bytes_split [of 4 4 x] by simp
  moreover have "le_bytes 4 (ucast (x AND 0xFFFFFFFF) :: u32) = le_bytes 4 x"
  proof -
    have "(ucast (x AND 0xFFFFFFFF) :: u32) = ucast x"
      unfolding and_low32 by (intro bit_word_eqI) (auto simp: bit_simps)
    then show ?thesis by (simp only: le_bytes_low)
  qed
  ultimately show ?thesis
    unfolding htonll_def htonl_def by (simp add: le_val_ucast le_val_append le_bytes_low or.commute)
qed

lemma le_bytes_htonll: "le_bytes 8 (htonll x) = rev (le_bytes 8 x)"
  using le_bytes_le_val [where 'a = 64, of "rev (le_bytes 8 x)"] by (simp add: htonll_rev)

lemma byte_eqI:
  assumes "\<And>n. n \<in> {0, 1, 2, 3, 4, 5, 6, 7} \<Longrightarrow> bit (x :: byte) n = bit y n"
  shows "x = y"
  by (rule bit_word_eqI) (use assms in \<open>force simp: numeral_eq_Suc less_Suc_eq\<close>)

section \<open>Fixed-width records in a byte string\<close>

lemma length_concat_chunks:
  "(\<And>x. x \<in> set xs \<Longrightarrow> length (f x) = k) \<Longrightarrow> length (concat (map f xs)) = k * length xs"
  by (induction xs) auto

lemma take_drop_chunk:
  assumes "\<And>x. x \<in> set xs \<Longrightarrow> length (f x) = k" and "i < length xs"
  shows "take k (drop (k * i) (concat (map f xs))) = f (xs ! i)"
  using assms
proof (induction xs arbitrary: i)
  case Nil
  then show ?case by simp
next
  case (Cons x xs)
  then show ?case by (cases i) auto
qed

lemma map_chunks_id:
  assumes "\<And>x. x \<in> set xs \<Longrightarrow> length (f x) = k" and "\<And>x. x \<in> set xs \<Longrightarrow> g (f x) = x"
    and "n = length xs"
  shows "map (\<lambda>i. g (take k (drop (k * i) (concat (map f xs))))) [0..<n] = xs"
proof (rule nth_equalityI)
  fix i assume "i < length (map (\<lambda>i. g (take k (drop (k * i) (concat (map f xs))))) [0..<n])"
  then have "i < length xs" using assms(3) by simp
  then show "map (\<lambda>i. g (take k (drop (k * i) (concat (map f xs))))) [0..<n] ! i = xs ! i"
    using take_drop_chunk [of xs f k i] assms by (simp add: nth_mem)
qed (simp add: assms(3))

lemma concat_chunks_inj:
  assumes "\<And>x. length (f x) = k" and "inj f" and "length xs = length ys"
    and "concat (map f xs) = concat (map f ys)"
  shows "xs = ys"
  using assms(3,4)
proof (induction xs ys rule: list_induct2)
  case Nil
  then show ?case by simp
next
  case (Cons x xs y ys)
  then have "f x = f y" "concat (map f xs) = concat (map f ys)" by (simp_all add: assms(1))
  with Cons assms(2) show ?case by (auto dest: injD)
qed

section \<open>Error codes (sherr.h)\<close>

definition SHERR_NOENT :: int where "SHERR_NOENT = -2"
definition SHERR_NOMEM :: int where "SHERR_NOMEM = -12"
definition SHERR_INVAL :: int where "SHERR_INVAL = -22"
definition SHERR_OPNOTSUPP :: int where "SHERR_OPNOTSUPP = -95"
definition SHERR_NOBUFS :: int where "SHERR_NOBUFS = -105"

lemmas sherr_defs [const_simps] =
  SHERR_NOENT_def SHERR_NOMEM_def SHERR_INVAL_def SHERR_OPNOTSUPP_def SHERR_NOBUFS_def

section \<open>Interface of a byte sink\<close>

text \<open>
  What a component that serialises into a growing buffer relies on: appending a
  segment succeeds below the sink's limit, keeps the sink usable and appends
  exactly the bytes given.  \<open>cat_all\<close> is the client's loop over its segments.
\<close>

fun cat_all :: "('b \<Rightarrow> byte list \<Rightarrow> fault + 'b) \<Rightarrow> 'b \<Rightarrow> byte list list \<Rightarrow> fault + 'b" where
  "cat_all cat b [] = Inr b"
| "cat_all cat b (x # xs) = run_bind (cat b x) (\<lambda>b'. cat_all cat b' xs)"

lemma cat_all_append:
  "cat_all cat b (xs @ ys) = run_bind (cat_all cat b xs) (\<lambda>b'. cat_all cat b' ys)"
  by (induction xs arbitrary: b) (auto simp: run_bind_assoc)

locale byte_sink =
  fixes cat :: "'b \<Rightarrow> byte list \<Rightarrow> fault + 'b"
    and inv :: "'b \<Rightarrow> bool"
    and content :: "'b \<Rightarrow> byte list"
    and limit :: nat
  assumes sink_cat: "\<lbrakk>inv b; length (content b) + length bs + 1 < limit\<rbrakk> \<Longrightarrow>
    \<exists>b'. cat b bs = Inr b' \<and> inv b' \<and> content b' = content b @ bs"
begin

lemma sink_cat_all:
  assumes "inv b" and "length (content b) + length (concat xs) + 1 < limit"
  shows "\<exists>b'. cat_all cat b xs = Inr b' \<and> inv b' \<and> content b' = content b @ concat xs"
  using assms
proof (induction xs arbitrary: b)
  case Nil
  then show ?case by simp
next
  case (Cons x xs)
  have "length (content b) + length x + 1 < limit"
    using Cons.prems(2) by simp
  from sink_cat [OF Cons.prems(1) this] obtain b1 where
    b1: "cat b x = Inr b1" "inv b1" "content b1 = content b @ x" by blast
  then have "length (content b1) + length (concat xs) + 1 < limit"
    using Cons.prems(2) by simp
  from Cons.IH [OF b1(2) this] b1 show ?case by auto
qed

lemma sink_segmentation:
  assumes "inv b" and "length (content b) + length (concat xs) + 1 < limit"
    and "concat xs = concat ys"
  shows "\<exists>b1 b2. cat_all cat b xs = Inr b1 \<and> cat_all cat b ys = Inr b2 \<and> content b1 = content b2"
  using sink_cat_all [OF assms(1), of xs] sink_cat_all [OF assms(1), of ys] assms(2,3) by auto

end

section \<open>Interface of a keyed table\<close>

text \<open>
  What a component that keeps its objects in a table relies on: a lookup returns
  what the table holds, a store changes the table at that key only.
\<close>

locale key_table =
  fixes inv :: "'t \<Rightarrow> bool"
    and valid :: "'k \<Rightarrow> bool"
    and lookup :: "'t \<Rightarrow> 'k \<Rightarrow> fault + 'v option"
    and store :: "'t \<Rightarrow> 'k \<Rightarrow> 'a \<Rightarrow> fault + 't"
    and val :: "'a \<Rightarrow> 'v"
    and abs :: "'t \<Rightarrow> 'k \<Rightarrow> 'v option"
  assumes lookup_abs: "\<lbrakk>inv t; valid k\<rbrakk> \<Longrightarrow> lookup t k = Inr (abs t k)"
    and store_abs: "\<lbrakk>inv t; valid k\<rbrakk> \<Longrightarrow>
      \<exists>t'. store t k a = Inr t' \<and> inv t' \<and> abs t' = (abs t)(k \<mapsto> val a)"
begin

lemma lookup_store:
  assumes "inv t" "valid k" "valid k'" "store t k a = Inr t'"
  shows "lookup t' k' = (if k' = k then Inr (Some (val a)) else lookup t k')"
  using store_abs [OF assms(1,2), of a] assms by (auto simp: lookup_abs)

lemma lookup_fresh:
  assumes "inv t" "valid k" "lookup t k = Inr None"
  shows "\<exists>t'. store t k a = Inr t' \<and> inv t' \<and> dom (abs t') = insert k (dom (abs t)) \<and>
    (\<forall>k'. k' \<noteq> k \<longrightarrow> abs t' k' = abs t k') \<and> lookup t' k = Inr (Some (val a))"
  using store_abs [OF assms(1,2), of a] assms by (auto simp: lookup_abs)

end

end
