(* ===== verification/Share_Crc.thy ===== *)
theory Share_Crc
  imports Share_Prelude
begin

text \<open>
  The 64-bit data checksum \<open>shcrc\<close> of \<^verbatim>\<open>share-lib/share.c\<close>, its text form
  \<open>shcrcstr\<close> (base 64 over the alphabet \<open>_crc_str_map\<close>, least significant digit
  first) and the parser \<open>shcrcgen\<close>.
\<close>

section \<open>The checksum\<close>

function shcrc_loop :: "byte list \<Rightarrow> u32 \<Rightarrow> u64 \<Rightarrow> u32 \<Rightarrow> u64 \<Rightarrow> u32 \<times> u64 \<times> u32 \<times> u64" where
  "shcrc_loop [] a b c d = (a, b, c, d)"
| "shcrc_loop (x # xs) a b c d =
     (let a' = a + le_val (take 4 (x # xs));
          b' = b + ucast a';
          c' = (c + ucast x) mod 65521;
          d' = (d + ucast c') mod 65521
      in shcrc_loop (drop 4 (x # xs)) a' b' c' d')"
  by pat_completeness auto
termination
  by (relation "measure (\<lambda>(xs, a, b, c, d). length xs)") auto

definition shcrc_mix :: "u32 \<times> u64 \<times> u32 \<times> u64 \<Rightarrow> u64" where
  "shcrc_mix s =
     (case s of (a, b, c, d) \<Rightarrow> (push_bit 16 d OR ucast c) + (push_bit 32 b OR ucast a))"

definition shcrc :: "byte list ptr \<Rightarrow> u64" where
  "shcrc data =
     htonll (shcrc_mix (case data of None \<Rightarrow> (1, 0, 1, 0) | Some bs \<Rightarrow> shcrc_loop bs 1 0 1 0))"

definition shcrc32 :: "byte list ptr \<Rightarrow> u32" where
  "shcrc32 data = ucast (shcrc data AND 0xFFFFFFFF)"

section \<open>The text form\<close>

definition crc_str_map :: string where
  "crc_str_map = ''-ABCDEFGHIJKLMNOPQRSTUVWXYZabcdefghijklmnopqrstuvwxyz0123456789+''"

function shcrcstr_loop :: "u64 \<Rightarrow> nat \<Rightarrow> string" where
  "shcrcstr_loop tcrc n =
     (if tcrc \<noteq> 0 \<and> n < 65
      then crc_str_map ! unat (tcrc mod 64) # shcrcstr_loop (drop_bit 6 tcrc) (n + 1)
      else [])"
  by pat_completeness auto
termination
  by (relation "measure (\<lambda>(t, n). 65 - n)") auto

declare shcrcstr_loop.simps [simp del]

definition shcrcstr :: "u64 \<Rightarrow> string" where
  "shcrcstr crc = shcrcstr_loop crc 0"

fun stridx_loop :: "string \<Rightarrow> char \<Rightarrow> nat \<Rightarrow> int" where
  "stridx_loop [] ch i = -1"
| "stridx_loop (x # xs) ch i = (if x = ch then int i else stridx_loop xs ch (i + 1))"

definition stridx :: "string ptr \<Rightarrow> char \<Rightarrow> int" where
  "stridx str ch = (case str of None \<Rightarrow> -1 | Some s \<Rightarrow> stridx_loop s ch 0)"

text \<open>The loop runs from the last character to the first: its list argument is the
  reversed string.\<close>

fun shcrcgen_loop :: "u64 \<Rightarrow> string \<Rightarrow> u64" where
  "shcrcgen_loop crc [] = crc"
| "shcrcgen_loop crc (ch # rest) =
     (let idx = stridx (Some crc_str_map) ch in
      if idx = -1 then 0
      else (let crc' = crc + word_of_int idx in
            if rest \<noteq> [] then shcrcgen_loop (push_bit 6 crc') rest else crc'))"

definition shcrcgen :: "string \<Rightarrow> u64" where
  "shcrcgen str = shcrcgen_loop 0 (rev str)"

section \<open>Digits\<close>

lemma length_crc_str_map: "length crc_str_map = 64"
  by (simp add: crc_str_map_def)

lemma distinct_crc_str_map: "distinct crc_str_map"
  by (simp add: crc_str_map_def)

lemma stridx_loop_nth:
  "distinct xs \<Longrightarrow> k < length xs \<Longrightarrow> stridx_loop xs (xs ! k) i = int (i + k)"
proof (induction xs arbitrary: k i)
  case Nil
  then show ?case by simp
next
  case (Cons x xs)
  then show ?case by (cases k) (auto simp: nth_mem)
qed

lemma stridx_nth [simp]: "k < 64 \<Longrightarrow> stridx (Some crc_str_map) (crc_str_map ! k) = int k"
  using stridx_loop_nth [OF distinct_crc_str_map, of k 0]
  by (simp add: stridx_def length_crc_str_map)

definition crc_digit :: "char \<Rightarrow> u64" where
  "crc_digit ch = word_of_int (stridx (Some crc_str_map) ch)"

text \<open>Horner evaluation, the value of a digit string.\<close>

fun crc_val :: "string \<Rightarrow> u64" where
  "crc_val [] = 0"
| "crc_val (ch # rest) = crc_digit ch + push_bit 6 (crc_val rest)"

lemma crc_val_append:
  "crc_val (xs @ ys) = crc_val xs + push_bit (6 * length xs) (crc_val ys)"
proof (induction xs)
  case Nil
  then show ?case by simp
next
  case (Cons x xs)
  have "push_bit 6 (crc_val xs + push_bit (6 * length xs) (crc_val ys)) =
    push_bit 6 (crc_val xs) + push_bit (6 + 6 * length xs) (crc_val ys)"
    by (simp add: push_bit_add [symmetric] push_bit_push_bit push_bit_add)
  with Cons show ?case by (simp add: algebra_simps)
qed

definition crc_chars :: "string \<Rightarrow> bool" where
  "crc_chars s \<longleftrightarrow> (\<forall>ch \<in> set s. stridx (Some crc_str_map) ch \<noteq> -1)"

lemma shcrcgen_loop_val:
  "crc_chars ys \<Longrightarrow> ys \<noteq> [] \<Longrightarrow>
     shcrcgen_loop crc ys = crc_val (rev ys) + push_bit (6 * (length ys - 1)) crc"
proof (induction ys arbitrary: crc)
  case Nil
  then show ?case by simp
next
  case (Cons y ys)
  show ?case
  proof (cases ys)
    case Nil
    with Cons.prems show ?thesis
      by (simp add: crc_chars_def crc_digit_def Let_def)
  next
    case (Cons z zs)
    then have ne: "ys \<noteq> []" by simp
    have chars: "crc_chars ys" "stridx (Some crc_str_map) y \<noteq> -1"
      using Cons.prems by (auto simp: crc_chars_def)
    have "shcrcgen_loop crc (y # ys) = shcrcgen_loop (push_bit 6 (crc + crc_digit y)) ys"
      using chars(2) ne by (simp add: crc_digit_def Let_def)
    also have "\<dots> = crc_val (rev ys) +
        push_bit (6 * (length ys - 1)) (push_bit 6 (crc + crc_digit y))"
      by (rule Cons.IH [OF chars(1) ne])
    also have "push_bit (6 * (length ys - 1)) (push_bit 6 (crc + crc_digit y)) =
        push_bit (6 * length ys) (crc_digit y) + push_bit (6 * length ys) crc"
      using Cons by (simp add: push_bit_push_bit push_bit_add ac_simps)
    finally show ?thesis
      using ne by (simp add: crc_val_append algebra_simps)
  qed
qed

lemma shcrcgen_val: "crc_chars s \<Longrightarrow> shcrcgen s = crc_val s"
proof (cases "s = []")
  case True
  then show ?thesis by (simp add: shcrcgen_def)
next
  case False
  moreover assume "crc_chars s"
  then have "crc_chars (rev s)" by (simp add: crc_chars_def)
  ultimately show ?thesis
    using shcrcgen_loop_val [of "rev s" 0] by (simp add: shcrcgen_def)
qed

lemma unat_mod64: "unat (t mod 64 :: u64) = unat t mod 64"
  by (simp add: unat_mod_distrib)

lemma unat_shift6: "unat (drop_bit 6 t :: u64) = unat t div 64"
  by (subst unat_drop_bit_eq) (simp add: drop_bit_eq_div)

lemma crc_digit_nth: "k < 64 \<Longrightarrow> crc_digit (crc_str_map ! k) = of_nat k"
  by (simp add: crc_digit_def)

lemma base64_split: "(t :: u64) mod 64 + push_bit 6 (drop_bit 6 t) = t"
  using bits_ident [of 6 t] by (simp add: take_bit_eq_mod ac_simps)

lemma shcrcstr_loop_chars: "crc_chars (shcrcstr_loop t n)"
proof (induction t n rule: shcrcstr_loop.induct)
  case (1 t n)
  have "stridx (Some crc_str_map) (crc_str_map ! unat (t mod 64)) = int (unat (t mod 64))"
    by (rule stridx_nth) (simp add: unat_mod64)
  then have "stridx (Some crc_str_map) (crc_str_map ! unat (t mod 64)) \<noteq> -1" by linarith
  with 1 show ?case
    by (subst shcrcstr_loop.simps) (auto simp: crc_chars_def)
qed

lemma shcrcstr_loop_val: "unat t < 64 ^ (65 - n) \<Longrightarrow> crc_val (shcrcstr_loop t n) = t"
proof (induction t n rule: shcrcstr_loop.induct)
  case (1 t n)
  show ?case
  proof (cases "t \<noteq> 0 \<and> n < 65")
    case True
    then have "n < 65" by simp
    then have "65 - n = Suc (65 - (n + 1))" by arith
    with "1.prems" have "unat (drop_bit 6 t) < 64 ^ (65 - (n + 1))"
      by (simp add: unat_shift6 less_mult_imp_div_less mult.commute)
    with "1.IH" True have "crc_val (shcrcstr_loop (drop_bit 6 t) (n + 1)) = drop_bit 6 t"
      by simp
    moreover have "crc_digit (crc_str_map ! unat (t mod 64)) = t mod 64"
      using crc_digit_nth [of "unat (t mod 64)"] by (simp add: unat_mod64 [THEN ord_eq_less_trans])
    ultimately show ?thesis
      using True by (subst shcrcstr_loop.simps) (simp add: base64_split)
  next
    case False
    with "1.prems" have "t = 0" by (cases "n < 65") (auto simp: unat_eq_zero)
    then show ?thesis by (subst shcrcstr_loop.simps) simp
  qed
qed

lemma shcrcstr_chars: "crc_chars (shcrcstr crc)"
  by (simp add: shcrcstr_def shcrcstr_loop_chars)

lemma shcrcstr_val: "crc_val (shcrcstr crc) = crc"
proof -
  have "unat crc < 2 ^ LENGTH(64)" by (rule unsigned_less)
  also have "\<dots> \<le> (64 :: nat) ^ (65 - 0)" by simp
  finally show ?thesis unfolding shcrcstr_def by (rule shcrcstr_loop_val)
qed

lemma shcrcstr_loop_length: "unat t < 64 ^ k \<Longrightarrow> length (shcrcstr_loop t n) \<le> k"
proof (induction t n arbitrary: k rule: shcrcstr_loop.induct)
  case (1 t n)
  show ?case
  proof (cases "t \<noteq> 0 \<and> n < 65")
    case True
    with "1.prems" obtain j where k: "k = Suc j" by (cases k) (auto simp: unat_eq_zero)
    with "1.prems" have "unat (drop_bit 6 t) < 64 ^ j"
      by (simp add: unat_shift6 less_mult_imp_div_less mult.commute)
    with "1.IH" True k show ?thesis by (subst shcrcstr_loop.simps) simp
  next
    case False
    then show ?thesis by (subst shcrcstr_loop.simps) auto
  qed
qed

section \<open>Error detection\<close>

lemma shcrc_loop_append:
  "length xs mod 4 = 0 \<Longrightarrow>
     shcrc_loop (xs @ ys) a b c d =
       (case shcrc_loop xs a b c d of (a', b', c', d') \<Rightarrow> shcrc_loop ys a' b' c' d')"
proof (induction xs a b c d rule: shcrc_loop.induct)
  case (1 a b c d)
  then show ?case by simp
next
  case (2 x xs a b c d)
  then have len: "4 \<le> length (x # xs)" by (cases "length (x # xs) < 4") auto
  then have mod: "length (drop 4 (x # xs)) mod 4 = 0" 
    using 2(2) le_mod_geq [OF len] by (simp only: length_drop)
  show ?case
    using 2(1) [OF refl refl refl refl mod] len by (simp add: Let_def)
qed

text \<open>Only \<open>a\<close> and \<open>b\<close> depend on the bytes that are not at a multiple of four, and a
  difference in \<open>a\<close> is carried to the end.\<close>

lemma shcrc_loop_shift:
  "\<exists>b''. shcrc_loop xs (a + e) b' c d =
     (case shcrc_loop xs a b c d of (p, q, r, s) \<Rightarrow> (p + e, b'', r, s))"
proof (induction xs a b c d arbitrary: b' rule: shcrc_loop.induct)
  case (1 a b c d)
  then show ?case by simp
next
  case (2 x xs a b c d)
  have "a + e + le_val (take 4 (x # xs)) = a + le_val (take 4 (x # xs)) + e"
    by (simp add: ac_simps)
  then show ?case
    unfolding shcrc_loop.simps Let_def by (simp only:) (rule 2 [OF refl refl refl refl])
qed

lemma take_bit_add_take_bit:
  "m \<le> n \<Longrightarrow> take_bit m (take_bit n x + take_bit n y) = take_bit m (x + y :: int)"
  by (metis min.absorb1 take_bit_add take_bit_take_bit)

lemma ucast_add_u64_u32: "(ucast (x + y :: u64) :: u32) = ucast x + ucast y"
  by transfer (simp add: take_bit_add_take_bit)

lemma shcrc_mix_low: "(ucast (shcrc_mix (a, b, c, d)) :: u32) = ucast (push_bit 16 d OR ucast c) + a"
proof -
  have "(ucast (push_bit 32 b OR ucast a :: u64) :: u32) = a"
    by (intro bit_word_eqI) (auto simp: bit_simps)
  then show ?thesis by (simp add: shcrc_mix_def ucast_add_u64_u32)
qed

section \<open>Properties\<close>

text \<open>Parsing the printed form of any 64-bit checksum gives the checksum back.\<close>

theorem shcrcgen_shcrcstr: "shcrcgen (shcrcstr crc) = crc"
  by (simp add: shcrcgen_val shcrcstr_chars shcrcstr_val)

text \<open>Two data segments that differ only inside one aligned four-byte group, and
  agree on the first byte of that group, never have the same checksum: every
  such corruption is detected.\<close>

theorem shcrc_detects_word_change:
  assumes "length p mod 4 = 0" and "length w = 4" and "length w' = 4"
    and "hd w = hd w'" and "w \<noteq> w'"
  shows "shcrc (Some (p @ w @ s)) \<noteq> shcrc (Some (p @ w' @ s))"
proof -
  obtain a b c d where p: "shcrc_loop p 1 0 1 0 = (a, b, c, d)" by (metis prod_cases4)
  have step: "shcrc_loop (v @ s) a b c d =
      shcrc_loop s (a + le_val v) (b + ucast (a + le_val v)) ((c + ucast (hd v)) mod 65521)
        ((d + ucast ((c + ucast (hd v)) mod 65521)) mod 65521)" if "length v = 4" for v
    using that by (cases v) (auto simp: Let_def)
  have ne: "(le_val w :: u32) \<noteq> le_val w'"
    using le_val_inj [where 'a = 32, of w w'] assms by auto
  define e where "e = (le_val w' :: u32) - le_val w"
  obtain p' q r t where run: "shcrc_loop (w @ s) a b c d = (p', q, r, t)" by (metis prod_cases4)
  have "a + le_val w' = a + le_val w + e" by (simp add: e_def)
  then obtain q' where run': "shcrc_loop (w' @ s) a b c d = (p' + e, q', r, t)"
    using shcrc_loop_shift [where xs = s and a = "a + le_val w" and e = e
        and b' = "b + ucast (a + le_val w + e)" and b = "b + ucast (a + le_val w)"
        and c = "(c + ucast (hd w')) mod 65521"
        and d = "(d + ucast ((c + ucast (hd w')) mod 65521)) mod 65521"] run assms(2-4)
    by (auto simp: step)
  have mixes: "shcrc (Some (p @ v)) = htonll (shcrc_mix (shcrc_loop v a b c d))" for v
    by (simp add: shcrc_def shcrc_loop_append [OF assms(1)] p)
  have "(ucast (shcrc_mix (p', q, r, t)) :: u32) \<noteq> ucast (shcrc_mix (p' + e, q', r, t))"
    using ne by (simp add: shcrc_mix_low e_def)
  then show ?thesis
    unfolding mixes run run' by (metis htonll_inj)
qed

theorem shcrc_detects_word_change_witness:
  "shcrc (Some ([] @ [1, 2, 3, 4] @ [5])) \<noteq> shcrc (Some ([] @ [1, 2, 9, 4] @ [5]))"
  by (rule shcrc_detects_word_change) simp_all

end
