(* ===== verification/Share_Vectors.thy ===== *)
theory Share_Vectors
  imports Share_Crc
begin

text \<open>
  Concrete values the unit tests of the sources expect, evaluated on the model.
\<close>

text \<open>\<open>_TEST(shcrc)\<close>: 256 bytes \<open>a\<close>.\<close>

lemma shcrc_test_vector: "shcrc (Some (replicate 256 97)) = 9399264675955488567"
  by code_simp

end
