(* ===== verification/Share_Buf.thy ===== *)
theory Share_Buf
  imports Share_Prelude
begin

text \<open>
  The dynamic memory buffer of \<^verbatim>\<open>share-lib/mem/shmem_buf.c\<close> (struct \<^verbatim>\<open>shbuf_t\<close> of
  \<^verbatim>\<open>shmem.h\<close>): growth, concatenation, trimming, truncation, positioning,
  searching, comparison, memory maps and disposal.  The data pointer is a block
  of bytes or \<open>NULL\<close>; the allocator's answers come from the record \<open>libc\<close>.
  The abstract value of a buffer is the list of its first \<open>data_of\<close> bytes
  (\<open>shbuf_content\<close>).
\<close>

section \<open>Data\<close>

record shbuf =
  buf_data :: "byte list ptr"
  data_of :: nat
  data_max :: nat
  data_pos :: nat
  buf_flags :: u32
  buf_fd :: int

definition SHBUF_PREALLOC :: u32 where "SHBUF_PREALLOC = 1"
definition SHBUF_FMAP :: u32 where "SHBUF_FMAP = 2"

lemmas shbuf_flag_defs [const_simps] = SHBUF_PREALLOC_def SHBUF_FMAP_def

definition shbuf_init :: shbuf where
  "shbuf_init = \<lparr>buf_data = None, data_of = 0, data_max = 0, data_pos = 0,
     buf_flags = 0, buf_fd = 0\<rparr>"

definition shbuf_map :: "byte list \<Rightarrow> shbuf" where
  "shbuf_map d = shbuf_init\<lparr>buf_data := Some d, data_of := length d, data_max := length d,
     buf_flags := buf_flags shbuf_init OR SHBUF_PREALLOC\<rparr>"

definition ashbuf_map :: "byte list \<Rightarrow> shbuf" where
  "ashbuf_map d = shbuf_init\<lparr>buf_data := Some d, data_of := length d, data_max := length d\<rparr>"

section \<open>Growth\<close>

definition shbuf_realloc :: "libc \<Rightarrow> shbuf \<Rightarrow> nat \<Rightarrow> fault + byte list ptr" where
  "shbuf_realloc c buf need =
     (case buf_data buf of
        None \<Rightarrow> Inr (if calloc_ok c need then Some (replicate need 0) else None)
      | Some d \<Rightarrow>
          if realloc_ok c need
          then Inr (Some (take need d @ map (fresh c) [length d..<need]))
          else if calloc_ok c need
          then run_bind (mem_read d 0 (data_max buf))
                 (\<lambda>old. run_bind (mem_write (replicate need 0) 0 old) (\<lambda>d'. Inr (Some d')))
          else Inr None)"

definition shbuf_grow :: "libc \<Rightarrow> shbuf \<Rightarrow> nat \<Rightarrow> fault + (int \<times> shbuf)" where
  "shbuf_grow c buf data_len =
     run_bind (int_mul (int_of_size ((data_len + 1) div 8192 + 1)) 8192)
       (\<lambda>blk. let need = size_of_int blk in
          if need \<le> data_max buf then Inr (0, buf)
          else if buf_flags buf AND SHBUF_FMAP \<noteq> 0 then Inr (SHERR_OPNOTSUPP, buf)
          else run_bind (shbuf_realloc c buf need)
                 (\<lambda>nd. case nd of
                    None \<Rightarrow> Inr (SHERR_NOBUFS,
                                 buf\<lparr>buf_data := None, data_max := 0, data_of := 0\<rparr>)
                  | Some d \<Rightarrow> Inr (0, buf\<lparr>buf_data := Some d, data_max := need\<rparr>)))"

section \<open>Reading and writing the content\<close>

definition shbuf_cat :: "libc \<Rightarrow> shbuf ptr \<Rightarrow> byte list \<Rightarrow> fault + shbuf ptr" where
  "shbuf_cat c bufp bs =
     (case bufp of
        None \<Rightarrow> Inr None
      | Some buf \<Rightarrow>
          run_bind (shbuf_grow c buf (data_of buf + length bs + 1))
            (\<lambda>(err, b). case buf_data b of
                None \<Rightarrow> Inl NullDeref
              | Some d \<Rightarrow>
                  run_bind (mem_write d (data_of b) bs)
                    (\<lambda>d'. Inr (Some (b\<lparr>buf_data := Some d',
                                        data_of := data_of b + length bs\<rparr>)))))"

definition shbuf_catstr :: "libc \<Rightarrow> shbuf ptr \<Rightarrow> byte list \<Rightarrow> fault + shbuf ptr" where
  "shbuf_catstr c bufp str = run_bind (c_strlen str) (\<lambda>n. shbuf_cat c bufp (take n str))"

definition shbuf_size :: "shbuf ptr \<Rightarrow> nat" where
  "shbuf_size bufp = (case bufp of None \<Rightarrow> 0 | Some buf \<Rightarrow> data_of buf)"

definition shbuf_data :: "shbuf ptr \<Rightarrow> byte list ptr" where
  "shbuf_data bufp = (case bufp of None \<Rightarrow> None | Some buf \<Rightarrow> buf_data buf)"

definition shbuf_memcpy :: "shbuf ptr \<Rightarrow> byte list \<Rightarrow> nat \<Rightarrow> fault + byte list" where
  "shbuf_memcpy bufp dst data_len =
     (let n = min data_len (shbuf_size bufp) in
      case shbuf_data bufp of
        None \<Rightarrow> if n = 0 then Inr dst else Inl NullDeref
      | Some d \<Rightarrow> run_bind (mem_read d 0 n) (\<lambda>bs. mem_write dst 0 bs))"

function shbuf_idx_loop :: "byte list \<Rightarrow> nat \<Rightarrow> byte \<Rightarrow> nat \<Rightarrow> fault + nat" where
  "shbuf_idx_loop d n ch i =
     (if i < n then
        (if length d \<le> i then Inl OutOfBounds
         else if d ! i = ch then Inr i
         else if i + 1 = 2 ^ 31 then Inl IntOverflow
         else shbuf_idx_loop d n ch (i + 1))
      else Inr (2 ^ 64 - 1))"
  by pat_completeness auto
termination
  by (relation "measure (\<lambda>(d, n, ch, i). n - i)") auto

declare shbuf_idx_loop.simps [simp del]

definition shbuf_idx :: "shbuf \<Rightarrow> byte \<Rightarrow> fault + nat" where
  "shbuf_idx buf ch =
     (case buf_data buf of
        None \<Rightarrow> if data_of buf = 0 then Inr (2 ^ 64 - 1) else Inl NullDeref
      | Some d \<Rightarrow> shbuf_idx_loop d (data_of buf) ch 0)"

definition shbuf_trim :: "shbuf ptr \<Rightarrow> nat \<Rightarrow> fault + shbuf ptr" where
  "shbuf_trim bufp len0 =
     (case bufp of
        None \<Rightarrow> Inr None
      | Some buf \<Rightarrow>
         (case buf_data buf of
            None \<Rightarrow> Inr bufp
          | Some d \<Rightarrow>
             (let len = min len0 (data_of buf) in
              if len = 0 then Inr bufp
              else if data_of buf = len
              then run_bind (mem_fill d 0 len 0)
                     (\<lambda>d'. Inr (Some (buf\<lparr>buf_data := Some d', data_of := 0\<rparr>)))
              else (let nlen = data_of buf - len in
                run_bind (mem_read d len nlen)
                  (\<lambda>keep. run_bind (mem_write d 0 keep)
                    (\<lambda>d1. run_bind (mem_fill d1 nlen (data_max buf - nlen) 0)
                      (\<lambda>d2. Inr (Some (buf\<lparr>buf_data := Some d2, data_of := nlen\<rparr>)))))))))"

definition shbuf_clear :: "shbuf ptr \<Rightarrow> fault + shbuf ptr" where
  "shbuf_clear bufp =
     (case bufp of None \<Rightarrow> Inr None | Some buf \<Rightarrow> shbuf_trim bufp (data_of buf))"

definition shbuf_truncate :: "shbuf ptr \<Rightarrow> nat \<Rightarrow> fault + shbuf ptr" where
  "shbuf_truncate bufp len0 =
     (case bufp of
        None \<Rightarrow> Inr None
      | Some buf \<Rightarrow>
         (case buf_data buf of
            None \<Rightarrow> Inr bufp
          | Some d \<Rightarrow>
             (let len = min len0 (data_of buf) in
              if len = 0 then Inr bufp
              else if data_of buf = len then Inr bufp
              else run_bind (mem_fill d len (data_of buf - len) 0)
                     (\<lambda>d'. Inr (Some (buf\<lparr>buf_data := Some d', data_of := len\<rparr>))))))"

definition shbuf_append :: "libc \<Rightarrow> shbuf ptr \<Rightarrow> shbuf ptr \<Rightarrow> fault + shbuf ptr" where
  "shbuf_append c from_buff to_buff =
     (if from_buff = None \<or> to_buff = None then Inr to_buff
      else case shbuf_data from_buff of
          None \<Rightarrow> if shbuf_size from_buff = 0 then shbuf_cat c to_buff [] else Inl NullDeref
        | Some d \<Rightarrow> run_bind (mem_read d 0 (shbuf_size from_buff)) (\<lambda>bs. shbuf_cat c to_buff bs))"

definition shbuf_clone :: "libc \<Rightarrow> shbuf ptr \<Rightarrow> fault + shbuf ptr" where
  "shbuf_clone c buff = shbuf_append c buff (Some shbuf_init)"

function shbuf_padd_loop :: "libc \<Rightarrow> shbuf ptr \<Rightarrow> nat \<Rightarrow> nat \<Rightarrow> fault + shbuf ptr" where
  "shbuf_padd_loop c bufp k len =
     (if k < len
      then run_bind (shbuf_cat c bufp [0]) (\<lambda>b. shbuf_padd_loop c b (k + 1) len)
      else Inr bufp)"
  by pat_completeness auto
termination
  by (relation "measure (\<lambda>(c, b, k, len). len - k)") auto

declare shbuf_padd_loop.simps [simp del]

definition shbuf_padd :: "libc \<Rightarrow> shbuf ptr \<Rightarrow> nat \<Rightarrow> fault + shbuf ptr" where
  "shbuf_padd c bufp len = shbuf_padd_loop c bufp (shbuf_size bufp) len"

definition shbuf_cmp :: "shbuf ptr \<Rightarrow> shbuf ptr \<Rightarrow> fault + bool" where
  "shbuf_cmp buff cmp_buff =
     (if shbuf_size buff \<noteq> shbuf_size cmp_buff then Inr False
      else case (shbuf_data buff, shbuf_data cmp_buff) of
          (Some d, Some e) \<Rightarrow>
             run_bind (mem_read d 0 (shbuf_size buff))
               (\<lambda>x. run_bind (mem_read e 0 (shbuf_size buff)) (\<lambda>y. Inr (x = y)))
        | _ \<Rightarrow> if shbuf_size buff = 0 then Inr True else Inl NullDeref)"

section \<open>Position\<close>

definition shbuf_pos :: "shbuf \<Rightarrow> nat" where
  "shbuf_pos buff = data_pos buff"

definition shbuf_pos_set :: "shbuf \<Rightarrow> nat \<Rightarrow> shbuf" where
  "shbuf_pos_set buff pos = buff\<lparr>data_pos := min (data_of buff) pos\<rparr>"

definition shbuf_pos_incr :: "shbuf \<Rightarrow> nat \<Rightarrow> shbuf" where
  "shbuf_pos_incr buff pos = shbuf_pos_set buff (shbuf_pos buff + pos)"

section \<open>Memory maps\<close>

text \<open>
  The operating system's side of \<open>shbuf_growmap\<close>: the page size, the outcome of
  a \<open>write\<close> at a file offset (bytes written, or the \<open>errno\<close> of a failure) and
  whether \<open>mmap\<close> succeeds.  The file behind the descriptor is its list of bytes.
\<close>

record mmapenv =
  page_size :: nat
  write_at :: "nat \<Rightarrow> int + nat"
  mmap_ok :: "nat \<Rightarrow> bool"

function growmap_fill :: "mmapenv \<Rightarrow> byte list \<Rightarrow> nat \<Rightarrow> fault + (int \<times> byte list)" where
  "growmap_fill m file newlen =
     (if length file < newlen then
        (case write_at m (length file) of
           Inl errno \<Rightarrow> Inr (- errno, file)
         | Inr w_len \<Rightarrow>
             if w_len = 0 then Inl Diverge
             else growmap_fill m (file @ replicate w_len 0) newlen)
      else Inr (0, file))"
  by pat_completeness auto
termination
  by (relation "measure (\<lambda>(m, file, n). n - length file)") auto

declare growmap_fill.simps [simp del]

definition shbuf_growmap ::
    "mmapenv \<Rightarrow> byte list \<Rightarrow> shbuf \<Rightarrow> nat \<Rightarrow> fault + (int \<times> shbuf \<times> byte list)" where
  "shbuf_growmap m file buf data_len =
     (let map_len = (case buf_data buf of None \<Rightarrow> 0 | Some _ \<Rightarrow> data_max buf) in
      if data_len \<le> map_len then Inr (0, buf, file)
      else
       (let b0 = buf\<lparr>buf_data := None, data_max := 0,
                      data_of := (if buf_fd buf > 0 then 0 else data_of buf)\<rparr> in
        if buf_fd buf > 0 then
          (let map_newlen = (max data_len (page_size m) div page_size m) * page_size m in
           run_bind (growmap_fill m file map_newlen)
             (\<lambda>(err, file').
               if err \<noteq> 0 then Inr (err, b0, file')
               else if \<not> mmap_ok m map_newlen then Inr (SHERR_NOBUFS, b0, file')
               else Inr (0, b0\<lparr>buf_data := Some (take map_newlen file'), data_max := map_newlen,
                               data_of := map_newlen,
                               buf_flags := buf_flags buf OR SHBUF_FMAP\<rparr>, file')))
        else
          (let map_newlen = (data_len div page_size m + 1) * page_size m in
           if \<not> mmap_ok m map_newlen then Inr (SHERR_NOBUFS, b0, file)
           else run_bind
                  (case buf_data buf of
                     None \<Rightarrow> Inr (replicate map_newlen 0)
                   | Some d \<Rightarrow> run_bind (mem_read d 0 map_len)
                                 (\<lambda>old. mem_write (replicate map_newlen 0) 0 old))
                  (\<lambda>d'. Inr (0, b0\<lparr>buf_data := Some d', data_max := map_newlen,
                                    buf_flags := buf_flags buf OR SHBUF_FMAP\<rparr>, file)))))"

section \<open>Disposal\<close>

text \<open>What disposing of a buffer does to the resources it holds.\<close>

datatype release = Munmap nat | Close int | FreeData | FreeBuf

definition shbuf_dealloc :: "shbuf \<Rightarrow> release list" where
  "shbuf_dealloc buf =
     (if buf_flags buf AND SHBUF_FMAP \<noteq> 0
      then Munmap (data_max buf) # (if buf_fd buf > 0 then [Close (buf_fd buf)] else [])
      else if buf_data buf \<noteq> None then [FreeData] else []) @ [FreeBuf]"

definition shbuf_free :: "shbuf ptr \<Rightarrow> release list" where
  "shbuf_free bufp =
     (case bufp of
        None \<Rightarrow> []
      | Some buf \<Rightarrow>
          shbuf_dealloc
            (if buf_flags buf AND SHBUF_PREALLOC \<noteq> 0 then buf\<lparr>buf_data := None\<rparr> else buf))"

definition shbuf_unmap :: "shbuf ptr \<Rightarrow> byte list ptr \<times> release list" where
  "shbuf_unmap bufp = (shbuf_data bufp, case bufp of None \<Rightarrow> [] | Some _ \<Rightarrow> [FreeBuf])"

section \<open>Abstraction and invariant\<close>

definition shbuf_inv :: "shbuf \<Rightarrow> bool" where
  "shbuf_inv buf \<longleftrightarrow>
     (case buf_data buf of
        None \<Rightarrow> data_max buf = 0 \<and> data_of buf = 0
      | Some d \<Rightarrow> length d = data_max buf \<and> data_of buf \<le> data_max buf)"

definition shbuf_content :: "shbuf \<Rightarrow> byte list" where
  "shbuf_content buf = (case buf_data buf of None \<Rightarrow> [] | Some d \<Rightarrow> take (data_of buf) d)"

definition shbuf_growable :: "shbuf \<Rightarrow> bool" where
  "shbuf_growable buf \<longleftrightarrow> buf_flags buf AND SHBUF_FMAP = 0"

definition shbuf_need :: "nat \<Rightarrow> nat" where
  "shbuf_need n = ((n + 1) div 8192 + 1) * 8192"

text \<open>The largest request for which the block count times 8192 still fits an \<open>int\<close>.\<close>

definition SHBUF_LIMIT :: nat where
  "SHBUF_LIMIT = 2 ^ 31 - 8194"

lemma shbuf_inv_init [simp]: "shbuf_inv shbuf_init"
  by (simp add: shbuf_inv_def shbuf_init_def)

lemma shbuf_content_init [simp]: "shbuf_content shbuf_init = []"
  by (simp add: shbuf_content_def shbuf_init_def)

lemma shbuf_growable_init [simp]: "shbuf_growable shbuf_init"
  by (simp add: shbuf_growable_def shbuf_init_def)

lemma shbuf_inv_map: "shbuf_inv (shbuf_map d)" "shbuf_content (shbuf_map d) = d"
  by (simp_all add: shbuf_inv_def shbuf_map_def shbuf_init_def shbuf_content_def)

lemma length_shbuf_content: "shbuf_inv buf \<Longrightarrow> length (shbuf_content buf) = data_of buf"
  by (auto simp: shbuf_inv_def shbuf_content_def split: option.splits)

lemma shbuf_inv_cases:
  assumes "shbuf_inv buf"
  obtains "buf_data buf = None" "data_max buf = 0" "data_of buf = 0"
  | d where "buf_data buf = Some d" "length d = data_max buf" "data_of buf \<le> data_max buf"
  using assms by (auto simp: shbuf_inv_def split: option.splits)

lemma shbuf_need_gt: "n + 1 < shbuf_need n"
  using dividend_less_div_times [of 8192 "n + 1"] by (simp add: shbuf_need_def)

lemma shbuf_need_le: "shbuf_need n \<le> n + 8193"
  using div_times_less_eq_dividend [of "n + 1" 8192] by (simp add: shbuf_need_def)

lemma shbuf_need_int:
  assumes "n < SHBUF_LIMIT"
  shows "int_mul (int_of_size ((n + 1) div 8192 + 1)) 8192 = Inr (int (shbuf_need n))"
    and "size_of_int (int (shbuf_need n)) = shbuf_need n"
proof -
  have le: "shbuf_need n < 2 ^ 31"
    using shbuf_need_le [of n] assms by (simp add: SHBUF_LIMIT_def)
  then have "(n + 1) div 8192 + 1 < 2 ^ 31"
    by (simp add: shbuf_need_def)
  then have conv: "int_of_size ((n + 1) div 8192 + 1) = int ((n + 1) div 8192 + 1)"
    by (rule int_of_size_small)
  have prod: "int ((n + 1) div 8192 + 1) * 8192 = int (shbuf_need n)"
    by (simp add: shbuf_need_def)
  have "int (shbuf_need n) < 2 ^ 31"
    using le by simp
  then show "int_mul (int_of_size ((n + 1) div 8192 + 1)) 8192 = Inr (int (shbuf_need n))"
    unfolding conv int_mul_def prod by simp
  show "size_of_int (int (shbuf_need n)) = shbuf_need n"
    using le by (intro size_of_int_of_nat) simp
qed

text \<open>One step of growth, with the integer arithmetic resolved.\<close>

lemma shbuf_grow_unfold:
  assumes "n < SHBUF_LIMIT"
  shows "shbuf_grow c buf n =
     (if shbuf_need n \<le> data_max buf then Inr (0, buf)
      else if buf_flags buf AND SHBUF_FMAP \<noteq> 0 then Inr (SHERR_OPNOTSUPP, buf)
      else run_bind (shbuf_realloc c buf (shbuf_need n))
             (\<lambda>nd. case nd of
                None \<Rightarrow> Inr (SHERR_NOBUFS, buf\<lparr>buf_data := None, data_max := 0, data_of := 0\<rparr>)
              | Some d \<Rightarrow> Inr (0, buf\<lparr>buf_data := Some d, data_max := shbuf_need n\<rparr>)))"
  unfolding shbuf_grow_def shbuf_need_int(1) [OF assms] run_bind_Inr Let_def
    shbuf_need_int(2) [OF assms] ..

text \<open>Reallocation keeps every old byte and fails only when the allocator does.\<close>

lemma shbuf_realloc_cases:
  assumes "shbuf_inv buf" and "data_max buf < need"
  shows "shbuf_realloc c buf need = Inr None \<and> \<not> libc_total c \<or>
    (\<exists>d. shbuf_realloc c buf need = Inr (Some d) \<and> length d = need \<and>
         take (data_of buf) d = shbuf_content buf)"
  using assms(1)
proof (cases rule: shbuf_inv_cases)
  case 1
  then show ?thesis
    by (cases "calloc_ok c need") (auto simp: shbuf_realloc_def shbuf_content_def)
next
  case (2 d)
  consider "realloc_ok c need" | "\<not> realloc_ok c need" "calloc_ok c need"
    | "\<not> realloc_ok c need" "\<not> calloc_ok c need" by blast
  then show ?thesis
  proof cases
    case 1
    with 2 assms(2) show ?thesis by (simp add: shbuf_realloc_def shbuf_content_def)
  next
    case 2
    with \<open>buf_data buf = Some d\<close> \<open>length d = data_max buf\<close> \<open>data_of buf \<le> data_max buf\<close> assms(2)
    show ?thesis by (simp add: shbuf_realloc_def shbuf_content_def mem_simps)
  next
    case 3
    with 2 show ?thesis by (auto simp: shbuf_realloc_def)
  qed
qed

lemma shbuf_grow_ok:
  assumes "shbuf_inv buf" "shbuf_growable buf" "libc_total c" "n < SHBUF_LIMIT"
  obtains buf' d where "shbuf_grow c buf n = Inr (0, buf')" "buf_data buf' = Some d"
    "length d = data_max buf'" "n < data_max buf'" "data_of buf' = data_of buf"
    "take (data_of buf) d = shbuf_content buf" "buf_flags buf' = buf_flags buf"
    "data_pos buf' = data_pos buf"
proof (cases "shbuf_need n \<le> data_max buf")
  case True
  with shbuf_need_gt [of n] have "data_max buf \<noteq> 0" "n < data_max buf" by linarith+
  with assms(1) True show thesis
    by (cases rule: shbuf_inv_cases)
      (auto intro!: that [of buf] simp: shbuf_grow_unfold assms(4) shbuf_content_def)
next
  case False
  then have "data_max buf < shbuf_need n" by simp
  from shbuf_realloc_cases [OF assms(1) this, of c] assms(3) obtain d where
    "shbuf_realloc c buf (shbuf_need n) = Inr (Some d)" "length d = shbuf_need n"
    "take (data_of buf) d = shbuf_content buf" by blast
  with False assms shbuf_need_gt [of n] show thesis
    by (intro that [of "buf\<lparr>buf_data := Some d, data_max := shbuf_need n\<rparr>" d])
      (simp_all add: shbuf_grow_unfold shbuf_growable_def)
qed

section \<open>Contracts of the operations\<close>

text \<open>The buffers a client may append to, and their content, seen through the pointer.\<close>

definition shbuf_ok :: "libc \<Rightarrow> shbuf ptr \<Rightarrow> bool" where
  "shbuf_ok c bufp \<longleftrightarrow>
     libc_total c \<and> (case bufp of None \<Rightarrow> False | Some buf \<Rightarrow> shbuf_inv buf \<and> shbuf_growable buf)"

definition shbuf_bytes :: "shbuf ptr \<Rightarrow> byte list" where
  "shbuf_bytes bufp = (case bufp of None \<Rightarrow> [] | Some buf \<Rightarrow> shbuf_content buf)"

lemma shbuf_cat_ok:
  assumes "shbuf_ok c bufp" and "length (shbuf_bytes bufp) + length bs + 1 < SHBUF_LIMIT"
  shows "\<exists>bufp'. shbuf_cat c bufp bs = Inr bufp' \<and> shbuf_ok c bufp' \<and>
           shbuf_bytes bufp' = shbuf_bytes bufp @ bs"
proof -
  from assms(1) obtain buf where buf: "bufp = Some buf" "shbuf_inv buf" "shbuf_growable buf"
    and c: "libc_total c"
    by (auto simp: shbuf_ok_def split: option.splits)
  have len: "data_of buf + length bs + 1 < SHBUF_LIMIT"
    using assms(2) buf by (simp add: shbuf_bytes_def length_shbuf_content)
  from shbuf_grow_ok [OF buf(2,3) c len] obtain b' d where b':
    "shbuf_grow c buf (data_of buf + length bs + 1) = Inr (0, b')" "buf_data b' = Some d"
    "length d = data_max b'" "data_of buf + length bs + 1 < data_max b'" "data_of b' = data_of buf"
    "take (data_of buf) d = shbuf_content buf" "buf_flags b' = buf_flags buf"
    by metis
  let ?r = "b'\<lparr>buf_data := Some (take (data_of buf) d @ bs @ drop (data_of buf + length bs) d),
              data_of := data_of buf + length bs\<rparr>"
  have "shbuf_cat c bufp bs = Inr (Some ?r)"
    using b' buf(1) by (simp add: shbuf_cat_def mem_simps)
  moreover have "shbuf_ok c (Some ?r)"
    using b' buf(3) c length_shbuf_content [OF buf(2)] by (simp add: shbuf_ok_def shbuf_inv_def shbuf_growable_def)
  moreover have "shbuf_bytes (Some ?r) = shbuf_bytes bufp @ bs"
    using b' buf(1) length_shbuf_content [OF buf(2)]
    by (simp add: shbuf_bytes_def shbuf_content_def [of "b'\<lparr>buf_data := _, data_of := _\<rparr>"])
  ultimately show ?thesis by blast
qed

interpretation shb: byte_sink "shbuf_cat c" "shbuf_ok c" shbuf_bytes SHBUF_LIMIT for c
  by unfold_locales (rule shbuf_cat_ok)

text \<open>Every way \<open>shbuf_cat\<close> can go wrong: a mapped buffer that is full, or an
  allocator that refuses both the extension and the fresh block.\<close>

definition shbuf_alloc_fails :: "libc \<Rightarrow> shbuf \<Rightarrow> nat \<Rightarrow> bool" where
  "shbuf_alloc_fails c buf need \<longleftrightarrow>
     \<not> calloc_ok c need \<and> (buf_data buf \<noteq> None \<longrightarrow> \<not> realloc_ok c need)"

lemma shbuf_realloc_None:
  assumes "shbuf_inv buf" and "data_max buf < need"
  shows "shbuf_realloc c buf need = Inr None \<longleftrightarrow> shbuf_alloc_fails c buf need"
  using assms(1) assms(2)
  by (cases rule: shbuf_inv_cases)
    (auto simp: shbuf_realloc_def shbuf_alloc_fails_def mem_simps)

text \<open>Growth never faults on a well-formed buffer: it succeeds, refuses a mapped
  buffer, or empties the buffer when the allocator fails.\<close>

lemma shbuf_grow_total:
  assumes "shbuf_inv buf" and "n < SHBUF_LIMIT"
  shows "\<exists>err buf'. shbuf_grow c buf n = Inr (err, buf') \<and> shbuf_inv buf' \<and>
    (err = 0 \<longrightarrow> n + 1 < data_max buf' \<and> shbuf_content buf' = shbuf_content buf) \<and>
    (err \<noteq> 0 \<longrightarrow> err = SHERR_OPNOTSUPP \<and> buf' = buf \<or>
                err = SHERR_NOBUFS \<and> shbuf_content buf' = [] \<and> data_max buf' = 0)"
proof (cases "shbuf_need n \<le> data_max buf")
  case True
  with assms shbuf_need_gt [of n] show ?thesis
    by (simp add: shbuf_grow_unfold)
next
  case False
  then have lt: "data_max buf < shbuf_need n" by simp
  show ?thesis
  proof (cases "buf_flags buf AND SHBUF_FMAP = 0")
    case False
    with assms lt show ?thesis
      by (simp add: shbuf_grow_unfold const_simps)
  next
    case True
    have dm: "data_of buf \<le> data_max buf"
      using assms(1) by (cases rule: shbuf_inv_cases) auto
    from shbuf_realloc_cases [OF assms(1) lt, of c] True lt assms shbuf_need_gt [of n] dm
    show ?thesis
      by (auto simp: shbuf_grow_unfold const_simps shbuf_inv_def
          shbuf_content_def [of "buf\<lparr>buf_data := _, data_max := _\<rparr>"]
          shbuf_content_def [of "buf\<lparr>buf_data := _, data_max := _, data_of := _\<rparr>"])
  qed
qed

lemma shbuf_trim_ok:
  assumes "shbuf_inv buf"
  shows "\<exists>buf'. shbuf_trim (Some buf) len = Inr (Some buf') \<and> shbuf_inv buf' \<and>
    shbuf_content buf' = drop len (shbuf_content buf) \<and> buf_flags buf' = buf_flags buf \<and>
    data_max buf' = data_max buf"
  using assms
proof (cases rule: shbuf_inv_cases)
  case 1
  with assms show ?thesis by (simp add: shbuf_trim_def shbuf_content_def)
next
  case (2 d)
  consider "len = 0 \<or> data_of buf = 0" | "data_of buf \<le> len" "data_of buf \<noteq> 0"
    | "0 < len" "len < data_of buf" by linarith
  then show ?thesis
  proof cases
    case 1
    with 2 assms show ?thesis by (auto simp: shbuf_trim_def shbuf_content_def)
  next
    case 2
    with \<open>buf_data buf = Some d\<close> \<open>length d = data_max buf\<close> \<open>data_of buf \<le> data_max buf\<close>
    show ?thesis by (simp add: shbuf_trim_def shbuf_content_def shbuf_inv_def mem_simps Let_def)
  next
    case 3
    let ?n = "data_of buf - len"
    let ?d = "take ?n (drop len d) @ replicate (data_max buf - ?n) 0"
    have "min ?n (data_max buf - len) = ?n" using 2 by simp
    then have "mem_write d 0 (take ?n (drop len d)) = Inr (take ?n (drop len d) @ drop ?n d)"
      and "mem_fill (take ?n (drop len d) @ drop ?n d) ?n (data_max buf - ?n) 0 = Inr ?d"
      using 2 3 by (auto simp: mem_write_def mem_fill_def)
    with 2 3
    have "shbuf_trim (Some buf) len = Inr (Some (buf\<lparr>buf_data := Some ?d, data_of := ?n\<rparr>))"
      by (simp add: shbuf_trim_def mem_read_ok Let_def min_def)
    with 2 3 show ?thesis
      by (simp add: shbuf_content_def shbuf_inv_def drop_take)
  qed
qed

lemma shbuf_clear_ok:
  assumes "shbuf_inv buf"
  shows "\<exists>buf'. shbuf_clear (Some buf) = Inr (Some buf') \<and> shbuf_inv buf' \<and>
    shbuf_content buf' = [] \<and> buf_flags buf' = buf_flags buf"
  using shbuf_trim_ok [OF assms, of "data_of buf"] length_shbuf_content [OF assms]
  by (auto simp: shbuf_clear_def)

lemma shbuf_truncate_ok:
  assumes "shbuf_inv buf"
  shows "\<exists>buf'. shbuf_truncate (Some buf) len = Inr (Some buf') \<and> shbuf_inv buf' \<and>
    shbuf_content buf' = (if len = 0 then shbuf_content buf else take len (shbuf_content buf)) \<and>
    buf_flags buf' = buf_flags buf"
  using assms
proof (cases rule: shbuf_inv_cases)
  case 1
  with assms show ?thesis by (simp add: shbuf_truncate_def shbuf_content_def)
next
  case (2 d)
  consider "len = 0 \<or> data_of buf \<le> len" | "0 < len" "len < data_of buf" by linarith
  then show ?thesis
  proof cases
    case 1
    with 2 assms show ?thesis by (auto simp: shbuf_truncate_def shbuf_content_def min_def Let_def)
  next
    case 3: 2
    with 2 show ?thesis
      by (simp add: shbuf_truncate_def shbuf_content_def shbuf_inv_def mem_simps Let_def min_def)
  qed
qed

lemma shbuf_padd_loop_ok:
  assumes "shbuf_ok c bufp" and "k = length (shbuf_bytes bufp)" and "len + 1 < SHBUF_LIMIT"
  shows "\<exists>bufp'. shbuf_padd_loop c bufp k len = Inr bufp' \<and> shbuf_ok c bufp' \<and>
    shbuf_bytes bufp' = shbuf_bytes bufp @ replicate (len - k) 0"
  using assms
proof (induction "len - k" arbitrary: k bufp)
  case 0
  then show ?case by (simp add: shbuf_padd_loop.simps)
next
  case (Suc n)
  then have k: "k < len" and n: "n = len - (k + 1)" by linarith+
  have "length (shbuf_bytes bufp) + length [0 :: byte] + 1 < SHBUF_LIMIT"
    using Suc.prems k by simp
  from shbuf_cat_ok [OF Suc.prems(1) this] obtain b1 where b1:
    "shbuf_cat c bufp [0] = Inr b1" "shbuf_ok c b1" "shbuf_bytes b1 = shbuf_bytes bufp @ [0]"
    by blast
  have "k + 1 = length (shbuf_bytes b1)" using b1 Suc.prems(2) by simp
  from Suc.hyps(1) [OF n b1(2) this Suc.prems(3)] obtain b2 where
    "shbuf_padd_loop c b1 (k + 1) len = Inr b2" "shbuf_ok c b2"
    "shbuf_bytes b2 = shbuf_bytes b1 @ replicate (len - (k + 1)) 0" by blast
  moreover have "len - k = Suc (len - (k + 1))" using k by simp
  ultimately show ?case
    using b1 k by (simp add: shbuf_padd_loop.simps [of c bufp k])
qed

lemma shbuf_append_ok:
  assumes "shbuf_inv src" and "shbuf_ok c dst"
    and "length (shbuf_content src) + length (shbuf_bytes dst) + 1 < SHBUF_LIMIT"
  shows "\<exists>dst'. shbuf_append c (Some src) dst = Inr dst' \<and> shbuf_ok c dst' \<and>
    shbuf_bytes dst' = shbuf_bytes dst @ shbuf_content src"
proof -
  have "dst \<noteq> None" using assms(2) by (auto simp: shbuf_ok_def split: option.splits)
  then have "shbuf_append c (Some src) dst = shbuf_cat c dst (shbuf_content src)"
    by (cases rule: shbuf_inv_cases [OF assms(1)])
      (auto simp: shbuf_append_def shbuf_data_def shbuf_size_def shbuf_content_def mem_simps)
  with shbuf_cat_ok [OF assms(2), of "shbuf_content src"] assms(3) show ?thesis
    by (simp add: add.commute)
qed

lemma shbuf_cmp_ok:
  assumes "shbuf_inv a" and "shbuf_inv b"
  shows "shbuf_cmp (Some a) (Some b) = Inr (shbuf_content a = shbuf_content b)"
proof -
  note len = length_shbuf_content [OF assms(1)] length_shbuf_content [OF assms(2)]
  show ?thesis
  proof (cases "data_of a = data_of b")
    case False
    then have "shbuf_content a \<noteq> shbuf_content b" using len by metis
    with False show ?thesis by (simp add: shbuf_cmp_def shbuf_size_def)
  next
    case True
    from assms(1) show ?thesis
    proof (cases rule: shbuf_inv_cases)
      case 1
      with True len show ?thesis
        by (simp add: shbuf_cmp_def shbuf_size_def shbuf_data_def)
    next
      case (2 d)
      from assms(2) show ?thesis
        by (cases rule: shbuf_inv_cases)
          (use 2 True len in \<open>auto simp: shbuf_cmp_def shbuf_size_def shbuf_data_def mem_simps
            shbuf_content_def\<close>)
    qed
  qed
qed

text \<open>The search loop finds the first occurrence, or returns the \<open>size_t\<close> value of -1.\<close>

lemma shbuf_idx_loop_ok:
  assumes "n \<le> length d" and "n < 2 ^ 31"
  shows "\<exists>r. shbuf_idx_loop d n ch i = Inr r \<and>
    (i \<le> r \<and> r < n \<and> d ! r = ch \<and> (\<forall>j. i \<le> j \<and> j < r \<longrightarrow> d ! j \<noteq> ch) \<or>
     r = 2 ^ 64 - 1 \<and> (\<forall>j. i \<le> j \<and> j < n \<longrightarrow> d ! j \<noteq> ch))"
  using assms
proof (induction d n ch i rule: shbuf_idx_loop.induct)
  case (1 d n ch i)
  show ?case
  proof (cases "i < n \<and> d ! i \<noteq> ch")
    case True
    have guards: "\<not> length d \<le> i" "i + 1 \<noteq> 2 ^ 31" using True "1.prems" by auto
    with True "1.IH" "1.prems" obtain r where r: "shbuf_idx_loop d n ch (i + 1) = Inr r"
      "i + 1 \<le> r \<and> r < n \<and> d ! r = ch \<and> (\<forall>j. i + 1 \<le> j \<and> j < r \<longrightarrow> d ! j \<noteq> ch) \<or>
       r = 2 ^ 64 - 1 \<and> (\<forall>j. i + 1 \<le> j \<and> j < n \<longrightarrow> d ! j \<noteq> ch)" by blast
    have res: "shbuf_idx_loop d n ch i = Inr r"
      using True guards r(1) by (simp add: shbuf_idx_loop.simps [of d n ch i])
    have ext: "\<forall>j. i \<le> j \<and> j < m \<longrightarrow> d ! j \<noteq> ch"
      if "\<forall>j. i + 1 \<le> j \<and> j < m \<longrightarrow> d ! j \<noteq> ch" for m
      using that True by (metis Suc_eq_plus1 Suc_leI le_neq_implies_less)
    from r(2) show ?thesis
    proof
      assume found: "i + 1 \<le> r \<and> r < n \<and> d ! r = ch \<and>
        (\<forall>j. i + 1 \<le> j \<and> j < r \<longrightarrow> d ! j \<noteq> ch)"
      then have "i \<le> r" by linarith
      with found ext [of r] res show ?thesis by blast
    next
      assume "r = 2 ^ 64 - 1 \<and> (\<forall>j. i + 1 \<le> j \<and> j < n \<longrightarrow> d ! j \<noteq> ch)"
      with ext [of n] res show ?thesis by blast
    qed
  next
    case False
    with "1.prems" show ?thesis by (subst shbuf_idx_loop.simps) auto
  qed
qed

section \<open>Sequences of operations against a list of bytes\<close>

datatype bufop = OpCat "byte list" | OpTrim nat | OpTruncate nat | OpClear | OpPadd nat

fun bufop_exec :: "libc \<Rightarrow> bufop \<Rightarrow> shbuf ptr \<Rightarrow> fault + shbuf ptr" where
  "bufop_exec c (OpCat bs) b = shbuf_cat c b bs"
| "bufop_exec c (OpTrim n) b = shbuf_trim b n"
| "bufop_exec c (OpTruncate n) b = shbuf_truncate b n"
| "bufop_exec c OpClear b = shbuf_clear b"
| "bufop_exec c (OpPadd n) b = shbuf_padd c b n"

fun bufop_run :: "libc \<Rightarrow> bufop list \<Rightarrow> shbuf ptr \<Rightarrow> fault + shbuf ptr" where
  "bufop_run c [] b = Inr b"
| "bufop_run c (x # xs) b = run_bind (bufop_exec c x b) (bufop_run c xs)"

fun bufop_spec :: "bufop \<Rightarrow> byte list \<Rightarrow> byte list" where
  "bufop_spec (OpCat bs) l = l @ bs"
| "bufop_spec (OpTrim n) l = drop n l"
| "bufop_spec (OpTruncate n) l = (if n = 0 then l else take n l)"
| "bufop_spec OpClear l = []"
| "bufop_spec (OpPadd n) l = l @ replicate (n - length l) 0"

fun bufop_fits :: "bufop list \<Rightarrow> byte list \<Rightarrow> bool" where
  "bufop_fits [] l = True"
| "bufop_fits (x # xs) l \<longleftrightarrow>
     length (bufop_spec x l) + 1 < SHBUF_LIMIT \<and> bufop_fits xs (bufop_spec x l)"

lemma shbuf_okE:
  assumes "shbuf_ok c bufp"
  obtains buf where "bufp = Some buf" "shbuf_inv buf" "shbuf_growable buf" "libc_total c"
  using assms by (auto simp: shbuf_ok_def split: option.splits)

lemma bufop_exec_ok:
  assumes "shbuf_ok c b" and "length (bufop_spec x (shbuf_bytes b)) + 1 < SHBUF_LIMIT"
  shows "\<exists>b'. bufop_exec c x b = Inr b' \<and> shbuf_ok c b' \<and>
    shbuf_bytes b' = bufop_spec x (shbuf_bytes b)"
proof -
  from assms(1) obtain buf where buf: "b = Some buf" "shbuf_inv buf" "shbuf_growable buf"
    "libc_total c" by (rule shbuf_okE)
  note len = length_shbuf_content [OF buf(2)]
  show ?thesis
  proof (cases x)
    case (OpCat bs)
    with assms shbuf_cat_ok show ?thesis by simp
  next
    case (OpTrim n)
    with shbuf_trim_ok [OF buf(2), of n] buf show ?thesis
      by (auto simp: shbuf_ok_def shbuf_bytes_def shbuf_growable_def)
  next
    case (OpTruncate n)
    with shbuf_truncate_ok [OF buf(2), of n] buf show ?thesis
      by (auto simp: shbuf_ok_def shbuf_bytes_def shbuf_growable_def)
  next
    case OpClear
    with shbuf_clear_ok [OF buf(2)] buf show ?thesis
      by (auto simp: shbuf_ok_def shbuf_bytes_def shbuf_growable_def)
  next
    case (OpPadd n)
    have "n + 1 < SHBUF_LIMIT" using assms(2) OpPadd by simp
    with shbuf_padd_loop_ok [OF assms(1) refl] show ?thesis
      using OpPadd buf len by (simp add: shbuf_padd_def shbuf_size_def shbuf_bytes_def)
  qed
qed

lemma bufop_run_ok:
  assumes "shbuf_ok c b" and "bufop_fits xs (shbuf_bytes b)"
  shows "\<exists>b'. bufop_run c xs b = Inr b' \<and> shbuf_ok c b' \<and>
    shbuf_bytes b' = fold bufop_spec xs (shbuf_bytes b)"
  using assms
proof (induction xs arbitrary: b)
  case Nil
  then show ?case by simp
next
  case (Cons x xs)
  from bufop_exec_ok [OF Cons.prems(1)] Cons.prems(2) obtain b1 where
    "bufop_exec c x b = Inr b1" "shbuf_ok c b1" "shbuf_bytes b1 = bufop_spec x (shbuf_bytes b)"
    by auto
  moreover from this Cons.IH [of b1] Cons.prems(2) obtain b2 where
    "bufop_run c xs b1 = Inr b2" "shbuf_ok c b2" "shbuf_bytes b2 = fold bufop_spec xs (shbuf_bytes b1)"
    by auto
  ultimately show ?case by auto
qed

lemma growmap_fill_ok:
  assumes "\<forall>k. \<exists>w. write_at m k = Inr w \<and> 0 < w"
  shows "\<exists>k. growmap_fill m file n = Inr (0, file @ replicate k 0) \<and> n \<le> length file + k"
  using assms
proof (induction m "file" n rule: growmap_fill.induct)
  case (1 m "file" newlen)
  show ?case
  proof (cases "length file < newlen")
    case True
    obtain w where w: "write_at m (length file) = Inr w" "0 < w"
      using "1.prems" by blast
    from "1.IH" [OF True w(1)] w(2) "1.prems" obtain k where
      "growmap_fill m (file @ replicate w 0) newlen =
         Inr (0, (file @ replicate w 0) @ replicate k 0)"
      "newlen \<le> length (file @ replicate w 0) + k" by auto
    with True w show ?thesis
      by (subst growmap_fill.simps) (auto intro!: exI [of _ "w + k"] simp: replicate_add)
  next
    case False
    then show ?thesis by (subst growmap_fill.simps) (auto intro: exI [of _ 0])
  qed
qed

section \<open>Properties\<close>

text \<open>C2: Any sequence of appends, trims, truncations, clears and pads on a fresh buffer
  runs without a fault and leaves exactly the bytes the same sequence leaves on
  a plain list, as long as no intermediate content reaches the size limit of
  the \<open>int\<close> block count.  (Truncation to length 0 keeps the content.)\<close>

theorem shbuf_ops_refine_list:
  assumes "libc_total c" and "bufop_fits xs []"
  shows "\<exists>buf. bufop_run c xs (Some shbuf_init) = Inr (Some buf) \<and> shbuf_inv buf \<and>
    shbuf_content buf = fold bufop_spec xs []"
proof -
  have "shbuf_ok c (Some shbuf_init)" using assms(1) by (simp add: shbuf_ok_def)
  from bufop_run_ok [OF this, of xs] assms(2) obtain b where
    b: "bufop_run c xs (Some shbuf_init) = Inr b" "shbuf_ok c b"
      "shbuf_bytes b = fold bufop_spec xs []"
    by (auto simp: shbuf_bytes_def)
  from b(2) obtain buf where "b = Some buf" "shbuf_inv buf" by (rule shbuf_okE)
  with b show ?thesis by (simp add: shbuf_bytes_def)
qed

definition libc_all :: libc where
  "libc_all = \<lparr>calloc_ok = (\<lambda>_. True), realloc_ok = (\<lambda>_. True), fresh = (\<lambda>_. 255)\<rparr>"

lemma libc_total_all [simp]: "libc_total libc_all"
  by (simp add: libc_total_def libc_all_def)

theorem shbuf_ops_refine_list_witness:
  "\<exists>buf. bufop_run libc_all [OpCat [1, 2, 3], OpTrim 1, OpPadd 4, OpTruncate 3]
           (Some shbuf_init) = Inr (Some buf) \<and> shbuf_inv buf \<and> shbuf_content buf = [2, 3, 0]"
proof -
  let ?xs = "[OpCat [1, 2, 3], OpTrim 1, OpPadd 4, OpTruncate 3]"
  have "bufop_fits ?xs []" by (simp add: SHBUF_LIMIT_def)
  moreover have "fold bufop_spec ?xs [] = [2, 3, 0]" by code_simp
  ultimately show ?thesis
    using shbuf_ops_refine_list [of libc_all ?xs] by simp
qed

text \<open>\<open>shbuf_cat\<close> ignores the error of \<open>shbuf_grow\<close>.  On a well-formed buffer it
  faults (a write past the block, or through a null pointer) exactly when more
  room is needed and either the buffer is a memory map without room for the
  bytes, or the allocator refuses the request.\<close>

theorem shbuf_cat_fault_iff:
  assumes "shbuf_inv buf" and "data_of buf + length bs + 1 < SHBUF_LIMIT"
  shows "(\<exists>e. shbuf_cat c (Some buf) bs = Inl e) \<longleftrightarrow>
    data_max buf < shbuf_need (data_of buf + length bs + 1) \<and>
    (if buf_flags buf AND SHBUF_FMAP \<noteq> 0
     then buf_data buf = None \<or> data_max buf < data_of buf + length bs
     else shbuf_alloc_fails c buf (shbuf_need (data_of buf + length bs + 1)))"
    (is "_ \<longleftrightarrow> data_max buf < ?need \<and> _")
proof (cases "data_max buf < ?need")
  case False
  with shbuf_need_gt [of "data_of buf + length bs + 1"] have room: "data_of buf + length bs < data_max buf"
    by linarith
  from assms(1) False room assms(2) show ?thesis
    by (cases rule: shbuf_inv_cases) (auto simp: shbuf_cat_def shbuf_grow_unfold mem_simps)
next
  case True
  show ?thesis
  proof (cases "buf_flags buf AND SHBUF_FMAP = 0")
    case False
    from assms(1) False True assms(2) show ?thesis
      by (cases rule: shbuf_inv_cases)
        (auto simp: shbuf_cat_def shbuf_grow_unfold mem_write_def not_le)
  next
    case fmap: True
    have dm: "data_of buf + length bs < ?need"
      using shbuf_need_gt [of "data_of buf + length bs + 1"] by linarith
    from shbuf_realloc_cases [OF assms(1) True, of c] shbuf_realloc_None [OF assms(1) True, of c]
      fmap True assms(2) dm
    show ?thesis
      by (auto simp: shbuf_cat_def shbuf_grow_unfold mem_write_def not_less)
  qed
qed

theorem shbuf_cat_fault_iff_witness:
  "\<exists>e. shbuf_cat libc_all (Some (shbuf_init\<lparr>buf_data := Some [7], data_max := 1, buf_flags := 2\<rparr>))
         [1, 2] = Inl e"
proof -
  let ?b = "shbuf_init\<lparr>buf_data := Some [7], data_max := 1, buf_flags := 2\<rparr>"
  have "shbuf_inv ?b" and "data_of ?b + length [1, 2 :: byte] + 1 < SHBUF_LIMIT"
    by (simp_all add: shbuf_inv_def shbuf_init_def SHBUF_LIMIT_def)
  from shbuf_cat_fault_iff [OF this, of libc_all] show ?thesis
    by (simp add: shbuf_init_def shbuf_need_def const_simps)
qed

text \<open>Growing a file mapping extends the file with zero bytes to a whole number of
  pages and maps its beginning; the mapped length rounds the request down, so
  the buffer reaches the requested size only when that size is within one page
  or a multiple of the page size.\<close>

theorem shbuf_growmap_file_bound:
  assumes "0 < page_size m" and "0 < buf_fd buf"
    and "(if buf_data buf = None then 0 else data_max buf) < len"
    and "\<forall>k. \<exists>w. write_at m k = Inr w \<and> 0 < w" and "\<forall>k. mmap_ok m k"
  shows "\<exists>buf' k. shbuf_growmap m file buf len = Inr (0, buf', file @ replicate k 0) \<and>
    shbuf_inv buf' \<and> page_size m dvd data_max buf' \<and>
    shbuf_content buf' = take (data_max buf') (file @ replicate k 0) \<and>
    (len \<le> data_max buf' \<longleftrightarrow> len \<le> page_size m \<or> page_size m dvd len)"
proof -
  let ?n = "max len (page_size m) div page_size m * page_size m"
  obtain k where k: "growmap_fill m file ?n = Inr (0, file @ replicate k 0)"
    "?n \<le> length file + k"
    using growmap_fill_ok [OF assms(4)] by blast
  let ?b = "buf\<lparr>buf_data := Some (take ?n (file @ replicate k 0)), data_max := ?n, data_of := ?n,
    buf_flags := buf_flags buf OR SHBUF_FMAP\<rparr>"
  have "shbuf_growmap m file buf len = Inr (0, ?b, file @ replicate k 0)"
    using assms(2,3,5) k(1) by (auto simp: shbuf_growmap_def Let_def split: option.splits)
  moreover have "shbuf_inv ?b" "shbuf_content ?b = take (data_max ?b) (file @ replicate k 0)"
    using k(2) by (simp_all add: shbuf_inv_def shbuf_content_def)
  moreover have "len \<le> ?n \<longleftrightarrow> len \<le> page_size m \<or> page_size m dvd len"
  proof (cases "len \<le> page_size m")
    case True
    then have "?n = page_size m" using assms(1) by (simp add: max_def)
    with True show ?thesis by simp
  next
    case False
    then have "?n = len div page_size m * page_size m" by (simp add: max_def)
    moreover have "len \<le> len div page_size m * page_size m \<longleftrightarrow> page_size m dvd len"
      using div_times_less_eq_dividend [of len "page_size m"]
      by (metis dvd_div_mult_self dvd_triv_right le_antisym order_refl)
    ultimately show ?thesis using False by simp
  qed
  ultimately show ?thesis by (intro exI [of _ ?b] exI [of _ k]) simp
qed

theorem shbuf_growmap_file_bound_witness:
  "\<exists>buf' k. shbuf_growmap \<lparr>page_size = 4, write_at = (\<lambda>_. Inr 4), mmap_ok = (\<lambda>_. True)\<rparr>
      [1, 2] (shbuf_init\<lparr>buf_fd := 3\<rparr>) 6 = Inr (0, buf', [1, 2] @ replicate k 0) \<and>
    \<not> 6 \<le> data_max buf'"
proof -
  let ?m = "\<lparr>page_size = 4, write_at = (\<lambda>_. Inr 4), mmap_ok = (\<lambda>_. True)\<rparr>"
  have "0 < page_size ?m" "0 < buf_fd (shbuf_init\<lparr>buf_fd := 3\<rparr>)"
    "(if buf_data (shbuf_init\<lparr>buf_fd := 3\<rparr>) = None then 0
      else data_max (shbuf_init\<lparr>buf_fd := 3\<rparr>)) < 6"
    "\<forall>k. \<exists>w. write_at ?m k = Inr w \<and> 0 < w" "\<forall>k. mmap_ok ?m k"
    by (simp_all add: shbuf_init_def)
  from shbuf_growmap_file_bound [OF this, of "[1, 2]"] show ?thesis by auto
qed

end
