(* ===== verification/Share_Sha_Block.thy ===== *)
theory Share_Sha_Block
  imports Share_Prelude
begin

text \<open>
  The buffering of the secure hash functions of \<^verbatim>\<open>share-lib/mem/shmem_alg_sha.c\<close>.
  The source has three copies of it, for SHA-1 and SHA-224/256 on 32-bit words and for
  SHA-384/512 on 64-bit words; here the word width is a type parameter and the function that
  processes a block is an argument.  The block is filled byte by byte, the length is counted in
  a pair of words with an overflow check, the message is padded in one or two blocks, and the
  digest is read off the intermediate hash.

  The locale \<open>block_hash\<close> states what the copies have in common and proves once that writing a
  message in any pieces and reading the result computes the hash of the standard: the padded
  message cut into blocks, with the compression function folded over them.
\<close>

section \<open>State\<close>

record 'w sha_context =
  sx_hash :: "'w list"
  sx_high :: 'w
  sx_low :: 'w
  sx_index :: nat
  sx_block :: "byte list"
  sx_computed :: bool
  sx_corrupted :: int

text \<open>The bytes of a word, most significant first.\<close>

definition be_bytes :: "nat \<Rightarrow> 'w::len word \<Rightarrow> byte list" where
  "be_bytes n w = map (\<lambda>i. ucast (drop_bit (8 * (n - 1 - i)) w)) [0..<n]"

section \<open>Input\<close>

text \<open>The macro \<open>AddLength(context, 8)\<close>: the high word is incremented when the low word wraps, and
  the context is corrupted when the high word wraps, too.\<close>

definition add_length :: "'w::len word sha_context \<Rightarrow> 'w word sha_context" where
  "add_length ctx =
     (let low = sx_low ctx + 8;
          carry = low < sx_low ctx;
          high = (if carry then sx_high ctx + 1 else sx_high ctx)
      in ctx\<lparr>sx_low := low, sx_high := high,
             sx_corrupted := (if carry \<and> high = 0 then SHERR_INVAL else sx_corrupted ctx)\<rparr>)"

definition sha_put :: "'w::len word sha_context \<Rightarrow> byte \<Rightarrow> fault + 'w word sha_context" where
  "sha_put ctx b =
     (if sx_index ctx < length (sx_block ctx)
      then Inr (ctx\<lparr>sx_block := (sx_block ctx)[sx_index ctx := b], sx_index := sx_index ctx + 1\<rparr>)
      else Inl OutOfBounds)"

text \<open>One round of the loop of the \<open>write\<close> functions.\<close>

definition sha_input ::
    "nat \<Rightarrow> ('w::len word sha_context \<Rightarrow> 'w word sha_context) \<Rightarrow> byte \<Rightarrow> 'w word sha_context \<Rightarrow> fault + 'w word sha_context" where
  "sha_input B process b ctx =
     run_bind (sha_put ctx b) (\<lambda>c0.
       let c1 = add_length c0
       in Inr (if sx_corrupted c1 = 0 \<and> sx_index c1 = B then process c1 else c1))"

fun sha_inputs ::
    "nat \<Rightarrow> ('w::len word sha_context \<Rightarrow> 'w word sha_context) \<Rightarrow> byte list \<Rightarrow> 'w word sha_context \<Rightarrow> fault + 'w word sha_context" where
  "sha_inputs B process [] ctx = Inr ctx"
| "sha_inputs B process (b # bs) ctx =
     run_bind (sha_input B process b ctx) (\<lambda>c. sha_inputs B process bs c)"

definition sha_write ::
    "nat \<Rightarrow> ('w::len word sha_context \<Rightarrow> 'w word sha_context) \<Rightarrow> 'w word sha_context \<Rightarrow> byte list ptr \<Rightarrow> nat \<Rightarrow>
      fault + (int \<times> 'w word sha_context)" where
  "sha_write B process ctx message_array len =
     (if len = 0 then Inr (0, ctx)
      else (case message_array of
          None \<Rightarrow> Inr (SHERR_INVAL, ctx)
        | Some d \<Rightarrow>
            if sx_computed ctx then Inr (SHERR_INVAL, ctx\<lparr>sx_corrupted := SHERR_INVAL\<rparr>)
            else if sx_corrupted ctx \<noteq> 0 then Inr (sx_corrupted ctx, ctx)
            else run_bind (mem_read d 0 len) (\<lambda>bs.
                 run_bind (sha_inputs B process bs ctx) (\<lambda>c. Inr (sx_corrupted c, c)))))"

section \<open>Padding and result\<close>

text \<open>The loop \<open>while (Message_Block_Index < n) Message_Block[Message_Block_Index++] = 0\<close>.\<close>

definition zero_fill :: "nat \<Rightarrow> 'w::len word sha_context \<Rightarrow> 'w word sha_context" where
  "zero_fill n ctx =
     ctx\<lparr>sx_block := foldl (\<lambda>m i. m[i := 0]) (sx_block ctx) [sx_index ctx..<n],
         sx_index := max (sx_index ctx) n\<rparr>"

text \<open>\<open>PadMessage\<close>: \<open>n\<close> is the size of a length word in bytes.\<close>

definition sha_pad_message ::
    "nat \<Rightarrow> nat \<Rightarrow> ('w::len word sha_context \<Rightarrow> 'w word sha_context) \<Rightarrow> 'w word sha_context \<Rightarrow> byte \<Rightarrow>
      fault + 'w word sha_context" where
  "sha_pad_message B n process ctx pad =
     run_bind (sha_put ctx pad) (\<lambda>c0.
       let c1 = (if B - 2 * n \<le> sx_index ctx then process (zero_fill B c0) else c0);
           c2 = zero_fill (B - 2 * n) c1
       in Inr (process (c2\<lparr>sx_block := take (B - 2 * n) (sx_block c2) @
                              be_bytes n (sx_high c2) @ be_bytes n (sx_low c2)\<rparr>)))"

definition sha_finalize ::
    "nat \<Rightarrow> ('w::len word sha_context \<Rightarrow> byte \<Rightarrow> fault + 'w word sha_context) \<Rightarrow> 'w word sha_context \<Rightarrow> byte \<Rightarrow>
      fault + 'w word sha_context" where
  "sha_finalize B pad_message ctx pad =
     run_bind (pad_message ctx pad) (\<lambda>c.
       Inr (c\<lparr>sx_block := replicate B 0, sx_high := 0, sx_low := 0, sx_computed := True\<rparr>))"

text \<open>Byte \<open>i\<close> of the digest comes from word \<open>i / n\<close>.  The flag \<open>md\<close> says that the caller's digest
  pointer is not \<open>NULL\<close>; the digest written through it is the second part of the result.\<close>

definition sha_digest :: "nat \<Rightarrow> 'w::len word list \<Rightarrow> nat \<Rightarrow> byte list" where
  "sha_digest n hash hsize = map (\<lambda>i. ucast (drop_bit (8 * (n - 1 - i mod n)) (hash ! (i div n)))) [0..<hsize]"

definition sha_result ::
    "nat \<Rightarrow> ('w::len word sha_context \<Rightarrow> byte \<Rightarrow> fault + 'w word sha_context) \<Rightarrow> 'w word sha_context \<Rightarrow> bool \<Rightarrow> nat \<Rightarrow>
      fault + (int \<times> byte list \<times> 'w word sha_context)" where
  "sha_result n finalize ctx md hsize =
     (if \<not> md then Inr (SHERR_INVAL, [], ctx)
      else if sx_corrupted ctx \<noteq> 0 then Inr (sx_corrupted ctx, [], ctx)
      else run_bind (if sx_computed ctx then Inr ctx else finalize ctx 0x80) (\<lambda>c.
             Inr (0, sha_digest n (sx_hash c) hsize, c)))"

section \<open>The hash of the standard\<close>

text \<open>The number as \<open>n\<close> bytes, most significant first; the padding of FIPS 180 section 5.1: a one
  bit, the least number of zeros, the length of the message in bits; and the iteration of
  section 6 over the blocks.\<close>

definition be_nat :: "nat \<Rightarrow> nat \<Rightarrow> byte list" where
  "be_nat n x = map (\<lambda>i. word_of_nat (x div 256 ^ (n - 1 - i))) [0..<n]"

definition fips_pad :: "nat \<Rightarrow> nat \<Rightarrow> byte list \<Rightarrow> byte list" where
  "fips_pad B n msg =
     msg @ [0x80] @ replicate ((B - (length msg + 1 + 2 * n) mod B) mod B) 0 @
     be_nat (2 * n) (8 * length msg)"

function chunks :: "nat \<Rightarrow> 'a list \<Rightarrow> 'a list list" where
  "chunks B xs = (if xs = [] \<or> B = 0 then [] else take B xs # chunks B (drop B xs))"
  by pat_completeness auto
termination
  by (relation "measure (\<lambda>(B, xs). length xs)") auto

declare chunks.simps [simp del]

definition fips_hash :: "nat \<Rightarrow> nat \<Rightarrow> ('h \<Rightarrow> byte list \<Rightarrow> 'h) \<Rightarrow> 'h \<Rightarrow> byte list \<Rightarrow> 'h" where
  "fips_hash B n compress h0 msg = foldl compress h0 (chunks B (fips_pad B n msg))"

section \<open>Lemmas on blocks and lengths\<close>

lemma length_be_bytes [simp]: "length (be_bytes n w) = n"
  by (simp add: be_bytes_def)

lemma length_be_nat [simp]: "length (be_nat n x) = n"
  by (simp add: be_nat_def)

lemma chunks_simps [simp]:
  "chunks B [] = []"
  "0 < B \<Longrightarrow> length b = B \<Longrightarrow> chunks B (b @ xs) = b # chunks B xs"
  by (auto simp: chunks.simps [of B "[]"] chunks.simps [of B "b @ xs"])

lemma chunks_one: "0 < B \<Longrightarrow> length b = B \<Longrightarrow> chunks B b = [b]"
  using chunks_simps(2) [of B b "[]"] by simp

lemma chunks_concat:
  "0 < B \<Longrightarrow> \<forall>b \<in> set bs. length b = B \<Longrightarrow> chunks B (concat bs @ xs) = bs @ chunks B xs"
  by (induction bs) auto

lemma zero_loop:
  "i \<le> k \<Longrightarrow> k \<le> length m \<Longrightarrow>
     foldl (\<lambda>m i. m[i := 0]) m [i..<k] = take i m @ replicate (k - i) 0 @ drop k m"
proof (induction "k - i" arbitrary: i m)
  case 0
  then show ?case by simp
next
  case (Suc d)
  have d: "d = k - Suc i" and i: "i < k" using Suc(2) by simp_all
  have "foldl (\<lambda>m i. m[i := 0]) m [i..<k] = foldl (\<lambda>m i. m[i := 0]) (m[i := 0]) [Suc i..<k]"
    using i by (simp add: upt_conv_Cons)
  also have "\<dots> = take (Suc i) (m[i := 0]) @ replicate (k - Suc i) 0 @ drop k (m[i := 0])"
    using Suc.prems i by (intro Suc(1) [OF d]) simp_all
  also have "\<dots> = take i m @ replicate (k - i) 0 @ drop k m"
    using i Suc.prems by (simp add: take_Suc_conv_app_nth Suc_diff_Suc flip: replicate_Suc)
  finally show ?case .
qed

lemma zero_fill_simps [simp]:
  "sx_hash (zero_fill k ctx) = sx_hash ctx" "sx_high (zero_fill k ctx) = sx_high ctx"
  "sx_low (zero_fill k ctx) = sx_low ctx" "sx_index (zero_fill k ctx) = max (sx_index ctx) k"
  "sx_computed (zero_fill k ctx) = sx_computed ctx" "sx_corrupted (zero_fill k ctx) = sx_corrupted ctx"
  by (simp_all add: zero_fill_def)

lemma zero_fill_block:
  "sx_index ctx \<le> k \<Longrightarrow> k \<le> length (sx_block ctx) \<Longrightarrow>
     sx_block (zero_fill k ctx) = take (sx_index ctx) (sx_block ctx) @
       replicate (k - sx_index ctx) 0 @ drop k (sx_block ctx)"
  by (simp add: zero_fill_def zero_loop)

lemma add_length_simps [simp]:
  "sx_hash (add_length ctx) = sx_hash ctx" "sx_index (add_length ctx) = sx_index ctx"
  "sx_block (add_length ctx) = sx_block ctx" "sx_computed (add_length ctx) = sx_computed ctx"
  by (simp_all add: add_length_def Let_def)

text \<open>The number of bits a context has counted.\<close>

definition sx_count :: "'w::len word sha_context \<Rightarrow> nat" where
  "sx_count ctx = unat (sx_high ctx) * 2 ^ LENGTH('w) + unat (sx_low ctx)"

lemma add_length_count:
  fixes ctx :: "'w::len word sha_context"
  assumes "8 \<le> LENGTH('w)" "sx_count ctx + 8 < 2 ^ (2 * LENGTH('w))"
  shows "sx_count (add_length ctx) = sx_count ctx + 8 \<and>
    sx_corrupted (add_length ctx) = sx_corrupted ctx"
proof -
  define W :: nat where "W = 2 ^ LENGTH('w)"
  define l where "l = unat (sx_low ctx)"
  define h where "h = unat (sx_high ctx)"
  have "(2 :: nat) ^ 8 \<le> W" unfolding W_def using assms(1) by (intro power_increasing) simp_all
  then have W: "256 \<le> W" by simp
  have l: "l < W" and h: "h < W" by (simp_all add: W_def l_def h_def)
  have u8: "unat (8 :: 'w word) = 8"
    using W by (simp add: unsigned_numeral take_bit_nat_eq_self W_def)
  have low: "unat (sx_low ctx + 8) = (l + 8) mod W"
    unfolding unat_word_ariths u8 by (simp add: l_def W_def)
  have high: "unat (sx_high ctx + 1) = (h + 1) mod W" by (simp add: unat_word_ariths h_def W_def)
  have cnt: "h * W + l + 8 < W * W"
    using assms(2) by (simp add: sx_count_def mult_2 power_add W_def l_def h_def)
  show ?thesis
  proof (cases "l + 8 < W")
    case True
    then have "\<not> sx_low ctx + 8 < sx_low ctx" using low by (simp add: word_less_nat_alt l_def)
    then show ?thesis
      using True low by (simp add: add_length_def sx_count_def W_def l_def)
  next
    case False
    have m: "(l + 8) mod W = l + 8 - W" using False l W by (simp add: mod_if)
    then have c: "sx_low ctx + 8 < sx_low ctx" using low False W l by (simp add: word_less_nat_alt l_def)
    have "h + 1 < W"
    proof (rule ccontr)
      assume "\<not> h + 1 < W"
      then have "h + 1 = W" using h by simp
      then have "W * W = h * W + W" by (metis add.commute mult_Suc Suc_eq_plus1)
      with cnt False show False by simp
    qed
    then have hm: "unat (sx_high ctx + 1) = h + 1" using high by simp
    then have "sx_high ctx + 1 \<noteq> 0" by force
    moreover have "(h + 1) * W + (l + 8 - W) = h * W + l + 8" using False by (simp add: algebra_simps)
    ultimately show ?thesis
      using c m hm low by (simp add: add_length_def sx_count_def W_def l_def h_def Let_def)
  qed
qed

section \<open>Streaming computes the hash of the standard\<close>

text \<open>A context that has consumed the message \<open>msg\<close>: full blocks are folded into the hash, the rest
  is in the block, the counter holds the length in bits.\<close>

definition sha_state ::
    "nat \<Rightarrow> ('w::len word list \<Rightarrow> byte list \<Rightarrow> 'w word list) \<Rightarrow> 'w word list \<Rightarrow> byte list \<Rightarrow>
      'w word sha_context \<Rightarrow> bool" where
  "sha_state B compress h0 msg ctx \<longleftrightarrow>
     \<not> sx_computed ctx \<and> sx_corrupted ctx = 0 \<and> length (sx_block ctx) = B \<and> sx_index ctx < B \<and>
     sx_count ctx = 8 * length msg \<and>
     (\<exists>bs. (\<forall>b \<in> set bs. length b = B) \<and> msg = concat bs @ take (sx_index ctx) (sx_block ctx) \<and>
        sx_hash ctx = foldl compress h0 bs)"

lemma unat_drop_bit_div: "unat (drop_bit k w) = unat w div 2 ^ k"
  by (subst unsigned_drop_bit_eq) (simp add: drop_bit_eq_div take_bit_nat_eq_self)

lemma be_bytes_nat: "be_bytes n w = be_nat n (unat w)"
proof -
  have "(ucast (drop_bit (8 * k) w) :: byte) = word_of_nat (unat w div 256 ^ k)" for k
  proof -
    have "unat (drop_bit (8 * k) w) = unat w div 256 ^ k"
      by (simp add: unat_drop_bit_div power_mult)
    then show ?thesis by (metis of_nat_unat)
  qed
  then show ?thesis by (simp add: be_bytes_def be_nat_def)
qed

lemma be_nat_append:
  assumes "y < 256 ^ n"
  shows "be_nat (m + n) (x * 256 ^ n + y) = be_nat m x @ be_nat n y"
proof (rule nth_equalityI)
  fix i assume "i < length (be_nat (m + n) (x * 256 ^ n + y))"
  then have i: "i < m + n" by simp
  show "be_nat (m + n) (x * 256 ^ n + y) ! i = (be_nat m x @ be_nat n y) ! i"
  proof (cases "i < m")
    case True
    then have "m + n - 1 - i = n + (m - 1 - i)" by simp
    moreover have "(x * 256 ^ n + y) div 256 ^ (n + (m - 1 - i)) = x div 256 ^ (m - 1 - i)"
      using assms by (simp add: power_add div_mult2_eq)
    ultimately show ?thesis using True i by (simp add: be_nat_def nth_append)
  next
    case False
    define j where "j = n - 1 - (i - m)"
    have j: "m + n - 1 - i = j" "j < n" using False i by (auto simp: j_def)
    have "x * 256 ^ n = x * 256 ^ (n - j) * 256 ^ j" using j(2) by (simp flip: power_add)
    then have "(x * 256 ^ n + y) div 256 ^ j = (y + x * 256 ^ (n - j) * 256 ^ j) div 256 ^ j"
      by (simp only: add.commute)
    also have "\<dots> = x * 256 ^ (n - j) + y div 256 ^ j" by (subst div_mult_self1) simp_all
    finally have "(x * 256 ^ n + y) div 256 ^ j = x * 256 ^ (n - j) + y div 256 ^ j" .
    moreover have "(256 :: byte) ^ (n - j) = 0"
    proof -
      have "(256 :: byte) = 0" by simp
      then show ?thesis using j(2) by (simp only: zero_power zero_less_diff)
    qed
    ultimately have "word_of_nat ((x * 256 ^ n + y) div 256 ^ j) = (word_of_nat (y div 256 ^ j) :: byte)"
      by simp
    moreover have "i - m < n" "n - 1 - (i - m) = j" using False i by (auto simp: j_def)
    ultimately show ?thesis
      using False i j(1) by (simp add: be_nat_def nth_append)
  qed
qed simp

lemma be_bytes_count:
  fixes h l :: "'w::len word"
  assumes "LENGTH('w) = 8 * n"
  shows "be_bytes n h @ be_bytes n l = be_nat (2 * n) (unat h * 2 ^ LENGTH('w) + unat l)"
proof -
  have p: "(2 :: nat) ^ LENGTH('w) = 256 ^ n" using assms by (simp add: power_mult)
  have "unat l < 256 ^ n" unfolding p [symmetric] by (rule unsigned_less)
  then show ?thesis by (simp add: be_bytes_nat p mult_2 be_nat_append)
qed

locale block_hash =
  fixes B n :: nat
    and compress :: "'w::len word list \<Rightarrow> byte list \<Rightarrow> 'w word list"
    and process :: "'w word sha_context \<Rightarrow> 'w word sha_context"
  assumes width: "LENGTH('w) = 8 * n"
    and fits: "2 * n < B"
    and process_block: "length (sx_block ctx) = B \<Longrightarrow>
      process ctx = ctx\<lparr>sx_hash := compress (sx_hash ctx) (sx_block ctx), sx_index := 0\<rparr>"
begin

lemma input_ok:
  assumes st: "sha_state B compress h0 msg ctx" and len: "8 * length msg + 8 < 2 ^ (2 * LENGTH('w))"
  shows "\<exists>c. sha_input B process b ctx = Inr c \<and> sha_state B compress h0 (msg @ [b]) c"
proof -
  let ?blk = "(sx_block ctx)[sx_index ctx := b]"
  let ?c0 = "ctx\<lparr>sx_block := ?blk, sx_index := sx_index ctx + 1\<rparr>"
  let ?c1 = "add_length ?c0"
  obtain bs where bs: "\<forall>b \<in> set bs. length b = B" "msg = concat bs @ take (sx_index ctx) (sx_block ctx)"
    "sx_hash ctx = foldl compress h0 bs" using st by (auto simp: sha_state_def)
  have ix: "sx_index ctx < B" "length (sx_block ctx) = B" "sx_corrupted ctx = 0" "\<not> sx_computed ctx"
    "sx_count ctx = 8 * length msg" using st by (auto simp: sha_state_def)
  have n: "8 \<le> LENGTH('w)" using width len_gt_0 [where 'a = 'w] by (cases n) simp_all
  have "sx_count ?c0 = sx_count ctx" by (simp add: sx_count_def)
  then have cnt: "sx_count ?c1 = 8 * length (msg @ [b])" "sx_corrupted ?c1 = 0"
    using add_length_count [OF n, of ?c0] len ix by simp_all
  have tk: "take (Suc (sx_index ctx)) ?blk = take (sx_index ctx) (sx_block ctx) @ [b]"
    using ix by (simp add: take_Suc_conv_app_nth)
  have inp: "sha_input B process b ctx = Inr (if sx_index ctx + 1 = B then process ?c1 else ?c1)"
    using ix cnt by (simp add: sha_input_def sha_put_def)
  show ?thesis
  proof (cases "sx_index ctx + 1 = B")
    case True
    have "take (Suc (sx_index ctx)) ?blk = ?blk" using True ix by simp
    then have "msg @ [b] = concat (bs @ [?blk])" using bs(2) tk by simp
    moreover have "\<forall>b \<in> set (bs @ [?blk]). length b = B" using bs(1) ix by simp
    ultimately have "\<exists>bs'. (\<forall>b \<in> set bs'. length b = B) \<and> msg @ [b] = concat bs' \<and>
        compress (sx_hash ctx) ?blk = foldl compress h0 bs'"
      using bs(3) by (intro exI [of _ "bs @ [?blk]"]) simp
    moreover have "process ?c1 = ?c1\<lparr>sx_hash := compress (sx_hash ctx) ?blk, sx_index := 0\<rparr>"
      using ix by (subst process_block) simp_all
    ultimately show ?thesis
      using inp True cnt ix fits by (auto simp: sha_state_def sx_count_def)
  next
    case False
    then have "sx_index ctx + 1 < B" using ix by simp
    then show ?thesis
      using inp False cnt ix bs tk by (auto simp: sha_state_def)
  qed
qed

lemma inputs_ok:
  assumes "sha_state B compress h0 msg ctx" "8 * length (msg @ bs) < 2 ^ (2 * LENGTH('w))"
  shows "\<exists>c. sha_inputs B process bs ctx = Inr c \<and> sha_state B compress h0 (msg @ bs) c"
  using assms
proof (induction bs arbitrary: msg ctx)
  case Nil
  then show ?case by simp
next
  case (Cons b bs)
  obtain c where "sha_input B process b ctx = Inr c" "sha_state B compress h0 (msg @ [b]) c"
    using input_ok [OF Cons.prems(1), of b] Cons.prems(2) by auto
  with Cons.IH [of "msg @ [b]" c] Cons.prems(2) show ?case by simp
qed

lemma write_ok:
  assumes "sha_state B compress h0 msg ctx" "8 * (length msg + len) < 2 ^ (2 * LENGTH('w))"
    and "len \<le> length d"
  shows "\<exists>c. sha_write B process ctx (Some d) len = Inr (0, c) \<and>
    sha_state B compress h0 (msg @ take len d) c"
proof (cases "len = 0")
  case True
  then show ?thesis using assms(1) by (simp add: sha_write_def)
next
  case False
  have "8 * length (msg @ take len d) < 2 ^ (2 * LENGTH('w))" using assms by simp
  then obtain c where c: "sha_inputs B process (take len d) ctx = Inr c"
    "sha_state B compress h0 (msg @ take len d) c" using inputs_ok [OF assms(1)] by blast
  then have "sha_write B process ctx (Some d) len = Inr (0, c)"
    using assms False by (simp add: sha_write_def sha_state_def mem_simps)
  with c(2) show ?thesis by blast
qed

lemma pad_blocks:
  assumes "length p < B" "\<forall>b \<in> set bs. length b = B"
  shows "fips_hash B n compress h0 (concat bs @ p) =
    (let len = be_nat (2 * n) (8 * length (concat bs @ p)) in
     if B - 2 * n \<le> length p
     then compress (compress (foldl compress h0 bs) (p @ [0x80] @ replicate (B - length p - 1) 0))
            (replicate (B - 2 * n) 0 @ len)
     else compress (foldl compress h0 bs) (p @ [0x80] @ replicate (B - 2 * n - length p - 1) 0 @ len))"
proof -
  let ?l = "length (concat bs @ p)" and ?len = "be_nat (2 * n) (8 * length (concat bs @ p))"
  let ?k = "(B - (?l + 1 + 2 * n) mod B) mod B"
  have "length (concat bs) = B * length bs"
    using assms(2) by (induction bs) simp_all
  then have m: "(?l + 1 + 2 * n) mod B = (length p + 1 + 2 * n) mod B"
    by (metis add.assoc length_append mod_mult_self4)
  have B: "0 < B" using fits by simp
  have pad: "chunks B (fips_pad B n (concat bs @ p)) = bs @ chunks B (p @ [0x80] @ replicate ?k 0 @ ?len)"
    using assms(2) B by (simp add: fips_pad_def chunks_concat)
  show ?thesis
  proof (cases "B - 2 * n \<le> length p")
    case True
    have "(length p + 1 + 2 * n) mod B = length p + 1 + 2 * n - B"
      using True fits assms(1) by (subst mod_if) (simp add: mod_if)
    then have k: "?k = (B - length p - 1) + (B - 2 * n)"
      unfolding m using True fits assms(1) by (simp add: mod_if)
    have "chunks B (p @ [0x80] @ replicate ?k 0 @ ?len) =
        [p @ [0x80] @ replicate (B - length p - 1) 0, replicate (B - 2 * n) 0 @ ?len]"
    proof -
      have "p @ [0x80] @ replicate ?k 0 @ ?len =
          (p @ [0x80] @ replicate (B - length p - 1) 0) @ (replicate (B - 2 * n) 0 @ ?len)"
        unfolding k by (simp add: replicate_add)
      then show ?thesis
        using B assms(1) fits by (simp only:) (subst chunks_simps; simp add: chunks_one)
    qed
    then show ?thesis using True by (simp add: fips_hash_def pad Let_def)
  next
    case False
    then have k: "?k = B - 2 * n - length p - 1"
      unfolding m using fits by (cases "length p + 1 + 2 * n = B") (simp_all add: mod_if, linarith)
    have "chunks B (p @ [0x80] @ replicate ?k 0 @ ?len) =
        [p @ [0x80] @ replicate (B - 2 * n - length p - 1) 0 @ ?len]"
      unfolding k using B False fits by (intro chunks_one) simp_all
    then show ?thesis using False by (simp add: fips_hash_def pad Let_def)
  qed
qed

text \<open>Processing the block that ends with the length.\<close>

lemma last_block:
  assumes "length (sx_block c) = B" "length len = 2 * n"
  shows "sx_hash (process (c\<lparr>sx_block := take (B - 2 * n) (sx_block c) @ len\<rparr>)) =
      compress (sx_hash c) (take (B - 2 * n) (sx_block c) @ len)"
    "sx_corrupted (process (c\<lparr>sx_block := take (B - 2 * n) (sx_block c) @ len\<rparr>)) = sx_corrupted c"
  using assms fits by (simp_all add: process_block)

lemma pad_ok:
  assumes "sha_state B compress h0 msg ctx"
  shows "\<exists>c. sha_pad_message B n process ctx 0x80 = Inr c \<and> sx_corrupted c = 0 \<and>
    sx_hash c = fips_hash B n compress h0 msg"
proof -
  let ?p = "take (sx_index ctx) (sx_block ctx)"
  obtain bs where bs: "\<forall>b \<in> set bs. length b = B" "msg = concat bs @ ?p"
    "sx_hash ctx = foldl compress h0 bs" using assms by (auto simp: sha_state_def)
  have ix: "sx_index ctx < B" "length (sx_block ctx) = B" "sx_corrupted ctx = 0"
    "sx_count ctx = 8 * length msg" using assms by (auto simp: sha_state_def)
  have lp: "length ?p = sx_index ctx" "length ?p < B" using ix by simp_all
  let ?blk = "(sx_block ctx)[sx_index ctx := 0x80]"
  let ?c0 = "ctx\<lparr>sx_block := ?blk, sx_index := Suc (sx_index ctx)\<rparr>"
  have tk: "take (Suc (sx_index ctx)) ?blk = ?p @ [0x80]"
    using ix by (simp add: take_Suc_conv_app_nth)
  have len: "be_bytes n (sx_high ctx) @ be_bytes n (sx_low ctx) = be_nat (2 * n) (8 * length msg)"
    using be_bytes_count [OF width] ix(4) by (simp add: sx_count_def)
  note ref = pad_blocks [OF lp(2) bs(1), of h0, folded bs(2), unfolded lp(1)]
  show ?thesis
  proof (cases "B - 2 * n \<le> sx_index ctx")
    case True
    let ?full = "?p @ [0x80] @ replicate (B - sx_index ctx - 1) 0"
    have full: "sx_block (zero_fill B ?c0) = ?full"
      using ix by (subst zero_fill_block) (simp_all add: tk)
    define c1 where "c1 = process (zero_fill B ?c0)"
    have pr: "c1 = (zero_fill B ?c0)\<lparr>sx_hash := compress (sx_hash ctx) ?full, sx_index := 0\<rparr>"
      unfolding c1_def using ix full by (subst process_block) simp_all
    have c1: "sx_high c1 = sx_high ctx" "sx_low c1 = sx_low ctx" by (simp_all add: pr)
    define c2 where "c2 = zero_fill (B - 2 * n) c1"
    have "sx_block c2 = replicate (B - 2 * n) 0 @ drop (B - 2 * n) ?full"
      unfolding c2_def using ix full pr by (subst zero_fill_block) simp_all
    then have blk: "take (B - 2 * n) (sx_block c2) = replicate (B - 2 * n) 0" "length (sx_block c2) = B"
      using ix fits by simp_all
    have c2: "sx_hash c2 = compress (sx_hash ctx) ?full" "sx_high c2 = sx_high ctx" "sx_low c2 = sx_low ctx"
      "sx_corrupted c2 = 0" by (simp_all add: c2_def pr ix)
    have "sha_pad_message B n process ctx 0x80 =
        Inr (process (c2\<lparr>sx_block := take (B - 2 * n) (sx_block c2) @ be_nat (2 * n) (8 * length msg)\<rparr>))"
      using True ix unfolding sha_pad_message_def sha_put_def
      by (simp add: Let_def c1 len flip: c1_def c2_def)
    then show ?thesis using last_block [OF blk(2)] c2 blk ref True bs(3) by (simp add: Let_def)
  next
    case False
    define c2 where "c2 = zero_fill (B - 2 * n) ?c0"
    have "sx_block c2 = (?p @ [0x80] @ replicate (B - 2 * n - sx_index ctx - 1) 0) @ drop (B - 2 * n) ?blk"
      unfolding c2_def using ix False by (subst zero_fill_block) (simp_all add: tk)
    moreover have "length (?p @ [0x80] @ replicate (B - 2 * n - sx_index ctx - 1) 0) = B - 2 * n"
      using ix False fits by simp
    ultimately have blk: "take (B - 2 * n) (sx_block c2) = ?p @ [0x80] @ replicate (B - 2 * n - sx_index ctx - 1) 0"
      "length (sx_block c2) = B" using ix False fits by (simp_all only: take_append length_append) simp_all
    have c2: "sx_hash c2 = sx_hash ctx" "sx_high c2 = sx_high ctx" "sx_low c2 = sx_low ctx"
      "sx_corrupted c2 = 0" by (simp_all add: c2_def ix)
    have "sha_pad_message B n process ctx 0x80 =
        Inr (process (c2\<lparr>sx_block := take (B - 2 * n) (sx_block c2) @ be_nat (2 * n) (8 * length msg)\<rparr>))"
      using False ix by (simp add: sha_pad_message_def sha_put_def c2_def len Let_def)
    then show ?thesis using last_block [OF blk(2)] c2 blk ref False bs(3) by (simp add: Let_def)
  qed
qed

text \<open>The result is the digest of the standard; a second call returns it again.\<close>

lemma result_ok:
  assumes "sha_state B compress h0 msg ctx" and "fin = sha_finalize B (sha_pad_message B n process)"
  shows "\<exists>c. sha_result n fin ctx True hsize =
      Inr (0, sha_digest n (fips_hash B n compress h0 msg) hsize, c) \<and>
    sha_result n fin c True hsize = Inr (0, sha_digest n (fips_hash B n compress h0 msg) hsize, c)"
proof -
  obtain c where "sha_pad_message B n process ctx 0x80 = Inr c" "sx_corrupted c = 0"
    "sx_hash c = fips_hash B n compress h0 msg" using pad_ok [OF assms(1)] by blast
  then show ?thesis using assms by (auto simp: sha_result_def sha_finalize_def sha_state_def)
qed

end

end
