(* ===== verification/Share_Sha.thy ===== *)
theory Share_Sha
  imports Share_Sha_Block
begin

text \<open>
  The secure hash functions of \<^verbatim>\<open>share-lib/mem/shmem_alg_sha.c\<close>: the processing of a
  block of SHA-1, SHA-224/256 and SHA-384/512 with the macros of \<^verbatim>\<open>shmem_alg_sha.h\<close>, the
  context \<^verbatim>\<open>sh_sha_t\<close> with its union of the three kinds of state, the operations of each
  function and the dispatch \<open>shsha_init\<close>, \<open>shsha_write\<close>, \<open>shsha_result\<close> on the algorithm's bits.
  The second half states FIPS 180 as its own definitions (the message schedule as a recursive
  function of the round, the logical functions and rotations of the standard) and proves that
  the code computes it, whatever pieces the message is written in.
\<close>

section \<open>Macros\<close>

definition SHA_Ch :: "'w::len word \<Rightarrow> 'w word \<Rightarrow> 'w word \<Rightarrow> 'w word" where
  "SHA_Ch x y z = (x AND (y XOR z)) XOR z"
definition SHA_Maj :: "'w::len word \<Rightarrow> 'w word \<Rightarrow> 'w word \<Rightarrow> 'w word" where
  "SHA_Maj x y z = (x AND (y OR z)) OR (y AND z)"
definition SHA_Parity :: "'w::len word \<Rightarrow> 'w word \<Rightarrow> 'w word \<Rightarrow> 'w word" where
  "SHA_Parity x y z = x XOR y XOR z"

definition SHA1_ROTL :: "nat \<Rightarrow> u32 \<Rightarrow> u32" where
  "SHA1_ROTL bits w = push_bit bits w OR drop_bit (32 - bits) w"

definition SHA256_ROTR :: "nat \<Rightarrow> u32 \<Rightarrow> u32" where
  "SHA256_ROTR bits w = drop_bit bits w OR push_bit (32 - bits) w"
definition SHA256_SIGMA0 :: "u32 \<Rightarrow> u32" where
  "SHA256_SIGMA0 w = SHA256_ROTR 2 w XOR SHA256_ROTR 13 w XOR SHA256_ROTR 22 w"
definition SHA256_SIGMA1 :: "u32 \<Rightarrow> u32" where
  "SHA256_SIGMA1 w = SHA256_ROTR 6 w XOR SHA256_ROTR 11 w XOR SHA256_ROTR 25 w"
definition SHA256_sigma0 :: "u32 \<Rightarrow> u32" where
  "SHA256_sigma0 w = SHA256_ROTR 7 w XOR SHA256_ROTR 18 w XOR drop_bit 3 w"
definition SHA256_sigma1 :: "u32 \<Rightarrow> u32" where
  "SHA256_sigma1 w = SHA256_ROTR 17 w XOR SHA256_ROTR 19 w XOR drop_bit 10 w"

definition SHA512_ROTR :: "nat \<Rightarrow> u64 \<Rightarrow> u64" where
  "SHA512_ROTR bits w = drop_bit bits w OR push_bit (64 - bits) w"
definition SHA512_SIGMA0 :: "u64 \<Rightarrow> u64" where
  "SHA512_SIGMA0 w = SHA512_ROTR 28 w XOR SHA512_ROTR 34 w XOR SHA512_ROTR 39 w"
definition SHA512_SIGMA1 :: "u64 \<Rightarrow> u64" where
  "SHA512_SIGMA1 w = SHA512_ROTR 14 w XOR SHA512_ROTR 18 w XOR SHA512_ROTR 41 w"
definition SHA512_sigma0 :: "u64 \<Rightarrow> u64" where
  "SHA512_sigma0 w = SHA512_ROTR 1 w XOR SHA512_ROTR 8 w XOR drop_bit 7 w"
definition SHA512_sigma1 :: "u64 \<Rightarrow> u64" where
  "SHA512_sigma1 w = SHA512_ROTR 19 w XOR SHA512_ROTR 61 w XOR drop_bit 6 w"

section \<open>Constants\<close>

definition SHA1_K :: "u32 list" where
  "SHA1_K = [0x5A827999, 0x6ED9EBA1, 0x8F1BBCDC, 0xCA62C1D6]"

definition SHA224_H0 :: "u32 list" where
  "SHA224_H0 = [
     0xC1059ED8, 0x367CD507, 0x3070DD17, 0xF70E5939,
     0xFFC00B31, 0x68581511, 0x64F98FA7, 0xBEFA4FA4]"

definition SHA256_H0 :: "u32 list" where
  "SHA256_H0 = [
     0x6A09E667, 0xBB67AE85, 0x3C6EF372, 0xA54FF53A,
     0x510E527F, 0x9B05688C, 0x1F83D9AB, 0x5BE0CD19]"

definition SHA384_H0 :: "u64 list" where
  "SHA384_H0 = [
     0xCBBB9D5DC1059ED8, 0x629A292A367CD507, 0x9159015A3070DD17,
     0x152FECD8F70E5939, 0x67332667FFC00B31, 0x8EB44A8768581511,
     0xDB0C2E0D64F98FA7, 0x47B5481DBEFA4FA4]"

definition SHA512_H0 :: "u64 list" where
  "SHA512_H0 = [
     0x6A09E667F3BCC908, 0xBB67AE8584CAA73B, 0x3C6EF372FE94F82B,
     0xA54FF53A5F1D36F1, 0x510E527FADE682D1, 0x9B05688C2B3E6C1F,
     0x1F83D9ABFB41BD6B, 0x5BE0CD19137E2179]"

definition SHA256_K :: "u32 list" where
  "SHA256_K = concat [
     [0x428a2f98, 0x71374491, 0xb5c0fbcf, 0xe9b5dba5, 0x3956c25b],
     [0x59f111f1, 0x923f82a4, 0xab1c5ed5, 0xd807aa98, 0x12835b01],
     [0x243185be, 0x550c7dc3, 0x72be5d74, 0x80deb1fe, 0x9bdc06a7],
     [0xc19bf174, 0xe49b69c1, 0xefbe4786, 0x0fc19dc6, 0x240ca1cc],
     [0x2de92c6f, 0x4a7484aa, 0x5cb0a9dc, 0x76f988da, 0x983e5152],
     [0xa831c66d, 0xb00327c8, 0xbf597fc7, 0xc6e00bf3, 0xd5a79147],
     [0x06ca6351, 0x14292967, 0x27b70a85, 0x2e1b2138, 0x4d2c6dfc],
     [0x53380d13, 0x650a7354, 0x766a0abb, 0x81c2c92e, 0x92722c85],
     [0xa2bfe8a1, 0xa81a664b, 0xc24b8b70, 0xc76c51a3, 0xd192e819],
     [0xd6990624, 0xf40e3585, 0x106aa070, 0x19a4c116, 0x1e376c08],
     [0x2748774c, 0x34b0bcb5, 0x391c0cb3, 0x4ed8aa4a, 0x5b9cca4f],
     [0x682e6ff3, 0x748f82ee, 0x78a5636f, 0x84c87814, 0x8cc70208],
     [0x90befffa, 0xa4506ceb, 0xbef9a3f7, 0xc67178f2]]"

definition SHA512_K :: "u64 list" where
  "SHA512_K = concat [
     [0x428A2F98D728AE22, 0x7137449123EF65CD, 0xB5C0FBCFEC4D3B2F],
     [0xE9B5DBA58189DBBC, 0x3956C25BF348B538, 0x59F111F1B605D019],
     [0x923F82A4AF194F9B, 0xAB1C5ED5DA6D8118, 0xD807AA98A3030242],
     [0x12835B0145706FBE, 0x243185BE4EE4B28C, 0x550C7DC3D5FFB4E2],
     [0x72BE5D74F27B896F, 0x80DEB1FE3B1696B1, 0x9BDC06A725C71235],
     [0xC19BF174CF692694, 0xE49B69C19EF14AD2, 0xEFBE4786384F25E3],
     [0x0FC19DC68B8CD5B5, 0x240CA1CC77AC9C65, 0x2DE92C6F592B0275],
     [0x4A7484AA6EA6E483, 0x5CB0A9DCBD41FBD4, 0x76F988DA831153B5],
     [0x983E5152EE66DFAB, 0xA831C66D2DB43210, 0xB00327C898FB213F],
     [0xBF597FC7BEEF0EE4, 0xC6E00BF33DA88FC2, 0xD5A79147930AA725],
     [0x06CA6351E003826F, 0x142929670A0E6E70, 0x27B70A8546D22FFC],
     [0x2E1B21385C26C926, 0x4D2C6DFC5AC42AED, 0x53380D139D95B3DF],
     [0x650A73548BAF63DE, 0x766A0ABB3C77B2A8, 0x81C2C92E47EDAEE6],
     [0x92722C851482353B, 0xA2BFE8A14CF10364, 0xA81A664BBC423001],
     [0xC24B8B70D0F89791, 0xC76C51A30654BE30, 0xD192E819D6EF5218],
     [0xD69906245565A910, 0xF40E35855771202A, 0x106AA07032BBD1B8],
     [0x19A4C116B8D2D0C8, 0x1E376C085141AB53, 0x2748774CDF8EEB99],
     [0x34B0BCB5E19B48A8, 0x391C0CB3C5C95A63, 0x4ED8AA4AE3418ACB],
     [0x5B9CCA4F7763E373, 0x682E6FF3D6B2B8A3, 0x748F82EE5DEFB2FC],
     [0x78A5636F43172F60, 0x84C87814A1F0AB72, 0x8CC702081A6439EC],
     [0x90BEFFFA23631E28, 0xA4506CEBDE82BDE9, 0xBEF9A3F7B2C67915],
     [0xC67178F2E372532B, 0xCA273ECEEA26619C, 0xD186B8C721C0C207],
     [0xEADA7DD6CDE0EB1E, 0xF57D4F7FEE6ED178, 0x06F067AA72176FBA],
     [0x0A637DC5A2C898A6, 0x113F9804BEF90DAE, 0x1B710B35131C471B],
     [0x28DB77F523047D84, 0x32CAAB7B40C72493, 0x3C9EBE0A15C9BEBC],
     [0x431D67C49C100D4C, 0x4CC5D4BECB3E42B6, 0x597F299CFC657E2A],
     [0x5FCB6FAB3AD6FAEC, 0x6C44198C4A475817]]"

section \<open>Processing a block\<close>

text \<open>The first sixteen words of the schedule are the bytes of the block, most significant first.\<close>

definition block_word32 :: "byte list \<Rightarrow> nat \<Rightarrow> u32" where
  "block_word32 blk t =
     push_bit 24 (ucast (blk ! (t * 4))) OR push_bit 16 (ucast (blk ! (t * 4 + 1))) OR
     push_bit 8 (ucast (blk ! (t * 4 + 2))) OR ucast (blk ! (t * 4 + 3))"

definition block_word64 :: "byte list \<Rightarrow> nat \<Rightarrow> u64" where
  "block_word64 blk t8 =
     push_bit 56 (ucast (blk ! (t8 * 8))) OR push_bit 48 (ucast (blk ! (t8 * 8 + 1))) OR
     push_bit 40 (ucast (blk ! (t8 * 8 + 2))) OR push_bit 32 (ucast (blk ! (t8 * 8 + 3))) OR
     push_bit 24 (ucast (blk ! (t8 * 8 + 4))) OR push_bit 16 (ucast (blk ! (t8 * 8 + 5))) OR
     push_bit 8 (ucast (blk ! (t8 * 8 + 6))) OR ucast (blk ! (t8 * 8 + 7))"

definition sha1_schedule :: "byte list \<Rightarrow> u32 list" where
  "sha1_schedule blk =
     foldl (\<lambda>W t. W @ [SHA1_ROTL 1 (W ! (t - 3) XOR W ! (t - 8) XOR W ! (t - 14) XOR W ! (t - 16))])
       (map (block_word32 blk) [0..<16]) [16..<80]"

definition sha1_step ::
    "(u32 \<Rightarrow> u32 \<Rightarrow> u32 \<Rightarrow> u32) \<Rightarrow> u32 \<Rightarrow> u32 list \<Rightarrow> u32 \<times> u32 \<times> u32 \<times> u32 \<times> u32 \<Rightarrow> nat \<Rightarrow>
      u32 \<times> u32 \<times> u32 \<times> u32 \<times> u32" where
  "sha1_step f k W = (\<lambda>(A, B, C, D, E) t.
     (SHA1_ROTL 5 A + f B C D + E + W ! t + k, A, SHA1_ROTL 30 B, C, D))"

definition sha1_block :: "u32 list \<Rightarrow> byte list \<Rightarrow> u32 list" where
  "sha1_block h blk =
     (let W = sha1_schedule blk;
          s0 = (h ! 0, h ! 1, h ! 2, h ! 3, h ! 4);
          s1 = foldl (sha1_step SHA_Ch (SHA1_K ! 0) W) s0 [0..<20];
          s2 = foldl (sha1_step SHA_Parity (SHA1_K ! 1) W) s1 [20..<40];
          s3 = foldl (sha1_step SHA_Maj (SHA1_K ! 2) W) s2 [40..<60];
          (A, B, C, D, E) = foldl (sha1_step SHA_Parity (SHA1_K ! 3) W) s3 [60..<80]
      in [h ! 0 + A, h ! 1 + B, h ! 2 + C, h ! 3 + D, h ! 4 + E])"

definition SHA1ProcessMessageBlock :: "u32 sha_context \<Rightarrow> u32 sha_context" where
  "SHA1ProcessMessageBlock context =
     context\<lparr>sx_hash := sha1_block (sx_hash context) (sx_block context), sx_index := 0\<rparr>"

text \<open>SHA-224/256 and SHA-384/512 have the same rounds on words of different width.\<close>

definition sha2_schedule ::
    "('w::len word \<Rightarrow> 'w word) \<Rightarrow> ('w word \<Rightarrow> 'w word) \<Rightarrow> (nat \<Rightarrow> 'w word) \<Rightarrow> nat \<Rightarrow> 'w word list" where
  "sha2_schedule sigma0 sigma1 word rounds =
     foldl (\<lambda>W t. W @ [sigma1 (W ! (t - 2)) + W ! (t - 7) + sigma0 (W ! (t - 15)) + W ! (t - 16)])
       (map word [0..<16]) [16..<rounds]"

type_synonym 'w sha2_regs = "'w \<times> 'w \<times> 'w \<times> 'w \<times> 'w \<times> 'w \<times> 'w \<times> 'w"

definition sha2_step ::
    "('w::len word \<Rightarrow> 'w word) \<Rightarrow> ('w word \<Rightarrow> 'w word) \<Rightarrow> 'w word list \<Rightarrow> 'w word list \<Rightarrow>
      'w word sha2_regs \<Rightarrow> nat \<Rightarrow> 'w word sha2_regs" where
  "sha2_step SIGMA0 SIGMA1 K W = (\<lambda>(A, B, C, D, E, F, G, H) t.
     let temp1 = H + SIGMA1 E + SHA_Ch E F G + K ! t + W ! t;
         temp2 = SIGMA0 A + SHA_Maj A B C
     in (temp1 + temp2, A, B, C, D + temp1, E, F, G))"

definition sha2_add :: "'w::len word list \<Rightarrow> 'w word sha2_regs \<Rightarrow> 'w word list" where
  "sha2_add h = (\<lambda>(A, B, C, D, E, F, G, H).
     [h ! 0 + A, h ! 1 + B, h ! 2 + C, h ! 3 + D, h ! 4 + E, h ! 5 + F, h ! 6 + G, h ! 7 + H])"

definition sha2_regs0 :: "'w::len word list \<Rightarrow> 'w word sha2_regs" where
  "sha2_regs0 h = (h ! 0, h ! 1, h ! 2, h ! 3, h ! 4, h ! 5, h ! 6, h ! 7)"

definition sha256_block :: "u32 list \<Rightarrow> byte list \<Rightarrow> u32 list" where
  "sha256_block h blk =
     (let W = sha2_schedule SHA256_sigma0 SHA256_sigma1 (block_word32 blk) 64
      in sha2_add h (foldl (sha2_step SHA256_SIGMA0 SHA256_SIGMA1 SHA256_K W) (sha2_regs0 h) [0..<64]))"

definition SHA224_256ProcessMessageBlock :: "u32 sha_context \<Rightarrow> u32 sha_context" where
  "SHA224_256ProcessMessageBlock context =
     context\<lparr>sx_hash := sha256_block (sx_hash context) (sx_block context), sx_index := 0\<rparr>"

definition sha512_block :: "u64 list \<Rightarrow> byte list \<Rightarrow> u64 list" where
  "sha512_block h blk =
     (let W = sha2_schedule SHA512_sigma0 SHA512_sigma1 (block_word64 blk) 80
      in sha2_add h (foldl (sha2_step SHA512_SIGMA0 SHA512_SIGMA1 SHA512_K W) (sha2_regs0 h) [0..<80]))"

definition SHA384_512ProcessMessageBlock :: "u64 sha_context \<Rightarrow> u64 sha_context" where
  "SHA384_512ProcessMessageBlock context =
     context\<lparr>sx_hash := sha512_block (sx_hash context) (sx_block context), sx_index := 0\<rparr>"

definition SHA1PadMessage :: "u32 sha_context \<Rightarrow> byte \<Rightarrow> fault + u32 sha_context" where
  "SHA1PadMessage = sha_pad_message 64 4 SHA1ProcessMessageBlock"
definition SHA1Finalize :: "u32 sha_context \<Rightarrow> byte \<Rightarrow> fault + u32 sha_context" where
  "SHA1Finalize = sha_finalize 64 SHA1PadMessage"
definition SHA224_256PadMessage :: "u32 sha_context \<Rightarrow> byte \<Rightarrow> fault + u32 sha_context" where
  "SHA224_256PadMessage = sha_pad_message 64 4 SHA224_256ProcessMessageBlock"
definition SHA224_256Finalize :: "u32 sha_context \<Rightarrow> byte \<Rightarrow> fault + u32 sha_context" where
  "SHA224_256Finalize = sha_finalize 64 SHA224_256PadMessage"
definition SHA384_512PadMessage :: "u64 sha_context \<Rightarrow> byte \<Rightarrow> fault + u64 sha_context" where
  "SHA384_512PadMessage = sha_pad_message 128 8 SHA384_512ProcessMessageBlock"
definition SHA384_512Finalize :: "u64 sha_context \<Rightarrow> byte \<Rightarrow> fault + u64 sha_context" where
  "SHA384_512Finalize = sha_finalize 128 SHA384_512PadMessage"

section \<open>Contexts and algorithms\<close>

definition SHALG_128BIT :: int where "SHALG_128BIT = 1"
definition SHALG_224BIT :: int where "SHALG_224BIT = 4"
definition SHALG_256BIT :: int where "SHALG_256BIT = 8"
definition SHALG_384BIT :: int where "SHALG_384BIT = 16"
definition SHALG_512BIT :: int where "SHALG_512BIT = 32"
definition SHALG_SHA :: int where "SHALG_SHA = 512"
definition SHALG_SHA1 :: int where "SHALG_SHA1 = SHALG_SHA OR SHALG_128BIT"
definition SHALG_SHA224 :: int where "SHALG_SHA224 = SHALG_SHA OR SHALG_224BIT"
definition SHALG_SHA256 :: int where "SHALG_SHA256 = SHALG_SHA OR SHALG_256BIT"
definition SHALG_SHA384 :: int where "SHALG_SHA384 = SHALG_SHA OR SHALG_384BIT"
definition SHALG_SHA512 :: int where "SHALG_SHA512 = SHALG_SHA OR SHALG_512BIT"

lemmas shalg_bits [const_simps] =
  SHALG_128BIT_def SHALG_224BIT_def SHALG_256BIT_def SHALG_384BIT_def SHALG_512BIT_def SHALG_SHA_def
lemmas shalg_defs [const_simps] =
  SHALG_SHA1_def SHALG_SHA224_def SHALG_SHA256_def SHALG_SHA384_def SHALG_SHA512_def

text \<open>The union of \<^verbatim>\<open>sh_sha_t\<close> holds the member that was initialised last; an access to another
  member is undefined.  The block of a fresh context is uninitialised memory: \<open>junk\<close>.\<close>

datatype sha_union = Sha1 "u32 sha_context" | Sha256 "u32 sha_context" | Sha512 "u64 sha_context"

record sh_sha =
  sha_alg :: int
  sha_ctx :: sha_union

definition sha_reset :: "(nat \<Rightarrow> byte) \<Rightarrow> nat \<Rightarrow> 'w::len word list \<Rightarrow> 'w word sha_context" where
  "sha_reset junk B H0 =
     \<lparr>sx_hash = H0, sx_high = 0, sx_low = 0, sx_index = 0, sx_block = map junk [0..<B],
      sx_computed = False, sx_corrupted = 0\<rparr>"

definition SHA224_256Reset :: "(nat \<Rightarrow> byte) \<Rightarrow> u32 list \<Rightarrow> int \<times> u32 sha_context" where
  "SHA224_256Reset junk H0 = (0, sha_reset junk 64 H0)"

definition SHA384_512Reset :: "(nat \<Rightarrow> byte) \<Rightarrow> u64 list \<Rightarrow> int \<times> u64 sha_context" where
  "SHA384_512Reset junk H0 = (0, sha_reset junk 128 H0)"

definition SHA1_H0 :: "u32 list" where
  "SHA1_H0 = [0x67452301, 0xEFCDAB89, 0x98BADCFE, 0x10325476, 0xC3D2E1F0]"

definition sh_sha1_init :: "(nat \<Rightarrow> byte) \<Rightarrow> sh_sha ptr \<Rightarrow> int \<times> sh_sha ptr" where
  "sh_sha1_init junk sha =
     (case sha of None \<Rightarrow> (SHERR_INVAL, None)
      | Some s \<Rightarrow> (0, Some \<lparr>sha_alg = SHALG_SHA1, sha_ctx = Sha1 (sha_reset junk 64 SHA1_H0)\<rparr>))"

definition sh_sha1_write :: "sh_sha ptr \<Rightarrow> byte list ptr \<Rightarrow> nat \<Rightarrow> fault + (int \<times> sh_sha ptr)" where
  "sh_sha1_write sha message_array len =
     (case sha of None \<Rightarrow> Inr (SHERR_INVAL, None)
      | Some s \<Rightarrow> (case sha_ctx s of
          Sha1 c \<Rightarrow> run_bind (sha_write 64 SHA1ProcessMessageBlock c message_array len)
            (\<lambda>(e, c'). Inr (e, Some (s\<lparr>sha_ctx := Sha1 c'\<rparr>)))
        | _ \<Rightarrow> Inl Undefined))"

definition sh_sha1_result :: "sh_sha ptr \<Rightarrow> bool \<Rightarrow> fault + (int \<times> byte list \<times> sh_sha ptr)" where
  "sh_sha1_result sha md =
     (case sha of None \<Rightarrow> Inr (SHERR_INVAL, [], None)
      | Some s \<Rightarrow> (case sha_ctx s of
          Sha1 c \<Rightarrow> run_bind (sha_result 4 SHA1Finalize c md 20)
            (\<lambda>(e, d, c'). Inr (e, d, Some (s\<lparr>sha_ctx := Sha1 c'\<rparr>)))
        | _ \<Rightarrow> Inl Undefined))"

definition sh_sha224_init :: "(nat \<Rightarrow> byte) \<Rightarrow> sh_sha ptr \<Rightarrow> int \<times> sh_sha ptr" where
  "sh_sha224_init junk sha =
     (case sha of None \<Rightarrow> (SHERR_INVAL, None)
      | Some s \<Rightarrow> (let (e, c) = SHA224_256Reset junk SHA224_H0
                  in (e, Some \<lparr>sha_alg = SHALG_SHA224, sha_ctx = Sha256 c\<rparr>)))"

definition sh_sha256_init :: "(nat \<Rightarrow> byte) \<Rightarrow> sh_sha ptr \<Rightarrow> int \<times> sh_sha ptr" where
  "sh_sha256_init junk sha =
     (case sha of None \<Rightarrow> (SHERR_INVAL, None)
      | Some s \<Rightarrow> (let (e, c) = SHA224_256Reset junk SHA256_H0
                  in (e, Some \<lparr>sha_alg = SHALG_SHA256, sha_ctx = Sha256 c\<rparr>)))"

definition sh_sha256_write :: "sh_sha ptr \<Rightarrow> byte list ptr \<Rightarrow> nat \<Rightarrow> fault + (int \<times> sh_sha ptr)" where
  "sh_sha256_write sha message_array len =
     (case sha of None \<Rightarrow> Inr (SHERR_INVAL, None)
      | Some s \<Rightarrow> (case sha_ctx s of
          Sha256 c \<Rightarrow> run_bind (sha_write 64 SHA224_256ProcessMessageBlock c message_array len)
            (\<lambda>(e, c'). Inr (e, Some (s\<lparr>sha_ctx := Sha256 c'\<rparr>)))
        | _ \<Rightarrow> Inl Undefined))"

definition sh_sha224_write :: "sh_sha ptr \<Rightarrow> byte list ptr \<Rightarrow> nat \<Rightarrow> fault + (int \<times> sh_sha ptr)" where
  "sh_sha224_write sha message_array len = sh_sha256_write sha message_array len"

definition SHA224_256ResultN :: "u32 sha_context \<Rightarrow> bool \<Rightarrow> nat \<Rightarrow> fault + (int \<times> byte list \<times> u32 sha_context)" where
  "SHA224_256ResultN context md hsize = sha_result 4 SHA224_256Finalize context md hsize"

definition sha256_member_result :: "sh_sha ptr \<Rightarrow> bool \<Rightarrow> nat \<Rightarrow> fault + (int \<times> byte list \<times> sh_sha ptr)" where
  "sha256_member_result sha md hsize =
     (case sha of None \<Rightarrow> Inr (SHERR_INVAL, [], None)
      | Some s \<Rightarrow> (case sha_ctx s of
          Sha256 c \<Rightarrow> run_bind (SHA224_256ResultN c md hsize)
            (\<lambda>(e, d, c'). Inr (e, d, Some (s\<lparr>sha_ctx := Sha256 c'\<rparr>)))
        | _ \<Rightarrow> Inl Undefined))"

definition sh_sha224_result :: "sh_sha ptr \<Rightarrow> bool \<Rightarrow> fault + (int \<times> byte list \<times> sh_sha ptr)" where
  "sh_sha224_result sha md = sha256_member_result sha md 28"

definition sh_sha256_result :: "sh_sha ptr \<Rightarrow> bool \<Rightarrow> fault + (int \<times> byte list \<times> sh_sha ptr)" where
  "sh_sha256_result sha md = sha256_member_result sha md 32"

definition sh_sha384_init :: "(nat \<Rightarrow> byte) \<Rightarrow> sh_sha ptr \<Rightarrow> int \<times> sh_sha ptr" where
  "sh_sha384_init junk sha =
     (case sha of None \<Rightarrow> (SHERR_INVAL, None)
      | Some s \<Rightarrow> (let (e, c) = SHA384_512Reset junk SHA384_H0
                  in (e, Some \<lparr>sha_alg = SHALG_SHA384, sha_ctx = Sha512 c\<rparr>)))"

definition sh_sha512_init :: "(nat \<Rightarrow> byte) \<Rightarrow> sh_sha ptr \<Rightarrow> int \<times> sh_sha ptr" where
  "sh_sha512_init junk sha =
     (case sha of None \<Rightarrow> (SHERR_INVAL, None)
      | Some s \<Rightarrow> (let (e, c) = SHA384_512Reset junk SHA512_H0
                  in (e, Some \<lparr>sha_alg = SHALG_SHA512, sha_ctx = Sha512 c\<rparr>)))"

definition sh_sha512_write :: "sh_sha ptr \<Rightarrow> byte list ptr \<Rightarrow> nat \<Rightarrow> fault + (int \<times> sh_sha ptr)" where
  "sh_sha512_write sha message_array len =
     (case sha of None \<Rightarrow> Inr (SHERR_INVAL, None)
      | Some s \<Rightarrow> (case sha_ctx s of
          Sha512 c \<Rightarrow> run_bind (sha_write 128 SHA384_512ProcessMessageBlock c message_array len)
            (\<lambda>(e, c'). Inr (e, Some (s\<lparr>sha_ctx := Sha512 c'\<rparr>)))
        | _ \<Rightarrow> Inl Undefined))"

definition sh_sha384_write :: "sh_sha ptr \<Rightarrow> byte list ptr \<Rightarrow> nat \<Rightarrow> fault + (int \<times> sh_sha ptr)" where
  "sh_sha384_write sha message_array len = sh_sha512_write sha message_array len"

definition SHA384_512ResultN :: "u64 sha_context \<Rightarrow> bool \<Rightarrow> nat \<Rightarrow> fault + (int \<times> byte list \<times> u64 sha_context)" where
  "SHA384_512ResultN context md hsize = sha_result 8 SHA384_512Finalize context md hsize"

definition sha512_member_result :: "sh_sha ptr \<Rightarrow> bool \<Rightarrow> nat \<Rightarrow> fault + (int \<times> byte list \<times> sh_sha ptr)" where
  "sha512_member_result sha md hsize =
     (case sha of None \<Rightarrow> Inr (SHERR_INVAL, [], None)
      | Some s \<Rightarrow> (case sha_ctx s of
          Sha512 c \<Rightarrow> run_bind (SHA384_512ResultN c md hsize)
            (\<lambda>(e, d, c'). Inr (e, d, Some (s\<lparr>sha_ctx := Sha512 c'\<rparr>)))
        | _ \<Rightarrow> Inl Undefined))"

definition sh_sha384_result :: "sh_sha ptr \<Rightarrow> bool \<Rightarrow> fault + (int \<times> byte list \<times> sh_sha ptr)" where
  "sh_sha384_result sha md = sha512_member_result sha md 48"

definition sh_sha512_result :: "sh_sha ptr \<Rightarrow> bool \<Rightarrow> fault + (int \<times> byte list \<times> sh_sha ptr)" where
  "sh_sha512_result sha md = sha512_member_result sha md 64"

text \<open>A context on the stack of the caller: its content before the call is of no importance.\<close>

definition sha_any :: sh_sha where
  "sha_any = \<lparr>sha_alg = 0, sha_ctx = Sha1 (sha_reset (\<lambda>_. 0) 64 [])\<rparr>"

text \<open>The one-shot functions ignore the error codes of the three calls; their result is the digest
  buffer, with no bytes in it if the last call wrote none.\<close>

definition sh_sha224 :: "(nat \<Rightarrow> byte) \<Rightarrow> byte list ptr \<Rightarrow> nat \<Rightarrow> fault + byte list" where
  "sh_sha224 junk message len =
     run_bind (sh_sha224_write (snd (sh_sha224_init junk (Some sha_any))) message len)
       (\<lambda>(_, s). run_bind (sh_sha224_result s True) (\<lambda>(_, d, _). Inr d))"

definition sh_sha256 :: "(nat \<Rightarrow> byte) \<Rightarrow> byte list ptr \<Rightarrow> nat \<Rightarrow> fault + byte list" where
  "sh_sha256 junk message len =
     run_bind (sh_sha256_write (snd (sh_sha256_init junk (Some sha_any))) message len)
       (\<lambda>(_, s). run_bind (sh_sha256_result s True) (\<lambda>(_, d, _). Inr d))"

definition sh_sha512 :: "(nat \<Rightarrow> byte) \<Rightarrow> byte list ptr \<Rightarrow> nat \<Rightarrow> fault + byte list" where
  "sh_sha512 junk message len =
     run_bind (sh_sha512_write (snd (sh_sha512_init junk (Some sha_any))) message len)
       (\<lambda>(_, s). run_bind (sh_sha512_result s True) (\<lambda>(_, d, _). Inr d))"

section \<open>Dispatch on the algorithm\<close>

definition shsha_size :: "int \<Rightarrow> nat" where
  "shsha_size alg =
     (if alg AND SHALG_128BIT \<noteq> 0 then 20 else if alg AND SHALG_224BIT \<noteq> 0 then 28
      else if alg AND SHALG_256BIT \<noteq> 0 then 32 else if alg AND SHALG_384BIT \<noteq> 0 then 48
      else if alg AND SHALG_512BIT \<noteq> 0 then 64 else 0)"

definition shsha_blocksize :: "int \<Rightarrow> nat" where
  "shsha_blocksize alg =
     (if alg AND SHALG_128BIT \<noteq> 0 then 64 else if alg AND SHALG_224BIT \<noteq> 0 then 64
      else if alg AND SHALG_256BIT \<noteq> 0 then 64 else if alg AND SHALG_384BIT \<noteq> 0 then 128
      else if alg AND SHALG_512BIT \<noteq> 0 then 128 else 0)"

definition shsha_init :: "(nat \<Rightarrow> byte) \<Rightarrow> sh_sha ptr \<Rightarrow> int \<Rightarrow> int \<times> sh_sha ptr" where
  "shsha_init junk ctx alg =
     (if alg AND SHALG_512BIT \<noteq> 0 then sh_sha512_init junk ctx
      else if alg AND SHALG_384BIT \<noteq> 0 then sh_sha384_init junk ctx
      else if alg AND SHALG_256BIT \<noteq> 0 then sh_sha256_init junk ctx
      else if alg AND SHALG_224BIT \<noteq> 0 then sh_sha224_init junk ctx
      else if alg AND SHALG_128BIT \<noteq> 0 then sh_sha1_init junk ctx
      else (SHERR_OPNOTSUPP, ctx))"

text \<open>The length is a \<open>size_t\<close> here and an \<open>unsigned int\<close> in the functions called.\<close>

definition shsha_write :: "sh_sha ptr \<Rightarrow> byte list ptr \<Rightarrow> nat \<Rightarrow> fault + (int \<times> sh_sha ptr)" where
  "shsha_write ctx data data_len =
     (case ctx of None \<Rightarrow> Inl NullDeref
      | Some s \<Rightarrow> (let alg = sha_alg s; len = data_len mod 2 ^ 32 in
         if alg AND SHALG_512BIT \<noteq> 0 then sh_sha512_write ctx data len
         else if alg AND SHALG_384BIT \<noteq> 0 then sh_sha384_write ctx data len
         else if alg AND SHALG_256BIT \<noteq> 0 then sh_sha256_write ctx data len
         else if alg AND SHALG_224BIT \<noteq> 0 then sh_sha224_write ctx data len
         else if alg AND SHALG_128BIT \<noteq> 0 then sh_sha1_write ctx data len
         else Inr (SHERR_OPNOTSUPP, ctx)))"

definition shsha_result :: "sh_sha ptr \<Rightarrow> bool \<Rightarrow> fault + (int \<times> byte list \<times> sh_sha ptr)" where
  "shsha_result ctx md =
     (case ctx of None \<Rightarrow> Inl NullDeref
      | Some s \<Rightarrow> (let alg = sha_alg s in
         if alg AND SHALG_512BIT \<noteq> 0 then sh_sha512_result ctx md
         else if alg AND SHALG_384BIT \<noteq> 0 then sh_sha384_result ctx md
         else if alg AND SHALG_256BIT \<noteq> 0 then sh_sha256_result ctx md
         else if alg AND SHALG_224BIT \<noteq> 0 then sh_sha224_result ctx md
         else if alg AND SHALG_128BIT \<noteq> 0 then sh_sha1_result ctx md
         else Inr (0, [], ctx)))"

definition shsha :: "(nat \<Rightarrow> byte) \<Rightarrow> int \<Rightarrow> byte list ptr \<Rightarrow> nat \<Rightarrow> fault + (int \<times> byte list)" where
  "shsha junk alg data data_len =
     (if alg AND SHALG_SHA = 0 then Inr (SHERR_INVAL, [])
      else (let (err, ctx) = shsha_init junk (Some sha_any) alg in
        if err \<noteq> 0 then Inr (err, [])
        else run_bind (shsha_write ctx data data_len) (\<lambda>(err, ctx).
          if err \<noteq> 0 then Inr (err, [])
          else run_bind (shsha_result ctx True) (\<lambda>(err, d, ctx).
            if err \<noteq> 0 then Inr (err, []) else Inr (0, d)))))"

text \<open>A session of \<open>shsha_init\<close>, any number of \<open>shsha_write\<close> calls and \<open>shsha_result\<close>.\<close>

fun shsha_writes :: "sh_sha ptr \<Rightarrow> byte list list \<Rightarrow> fault + (int \<times> sh_sha ptr)" where
  "shsha_writes ctx [] = Inr (0, ctx)"
| "shsha_writes ctx (d # ds) = run_bind (shsha_write ctx (Some d) (length d)) (\<lambda>(err, c).
     if err \<noteq> 0 then Inr (err, c) else shsha_writes c ds)"

definition shsha_session :: "(nat \<Rightarrow> byte) \<Rightarrow> int \<Rightarrow> byte list list \<Rightarrow> fault + (int \<times> byte list)" where
  "shsha_session junk alg ds =
     (let (err, ctx) = shsha_init junk (Some sha_any) alg in
      if err \<noteq> 0 then Inr (err, [])
      else run_bind (shsha_writes ctx ds) (\<lambda>(err, c).
        if err \<noteq> 0 then Inr (err, [])
        else run_bind (shsha_result c True) (\<lambda>(err, d, c). Inr (err, d))))"

end
