(* ===== verification/Share_Sha_Fips.thy ===== *)
theory Share_Sha_Fips
  imports Share_Sha
begin

text \<open>
  The secure hash standard FIPS 180 as definitions of its own, and the proof that the functions of
  \<^verbatim>\<open>share-lib/mem/shmem_alg_sha.c\<close> compute it for every message, in whatever pieces it
  is written.  The message schedule is a recursive function of the round, rotations are those of
  the word library, the logical functions are written as in the standard.  The locale
  \<open>block_hash\<close> is interpreted on the three block functions.
\<close>

section \<open>The standard\<close>

definition fips_ch :: "'w::len word \<Rightarrow> 'w word \<Rightarrow> 'w word \<Rightarrow> 'w word" where
  "fips_ch x y z = (x AND y) XOR (NOT x AND z)"
definition fips_maj :: "'w::len word \<Rightarrow> 'w word \<Rightarrow> 'w word \<Rightarrow> 'w word" where
  "fips_maj x y z = (x AND y) XOR (x AND z) XOR (y AND z)"

definition fips_word :: "nat \<Rightarrow> byte list \<Rightarrow> nat \<Rightarrow> 'w::len word" where
  "fips_word n blk t = le_val (rev (map (\<lambda>i. blk ! (t * n + i)) [0..<n]))"

fun fips_w1 :: "byte list \<Rightarrow> nat \<Rightarrow> u32" where
  "fips_w1 blk t =
     (if t < 16 then fips_word 4 blk t
      else word_rotl 1 (fips_w1 blk (t - 3) XOR fips_w1 blk (t - 8) XOR fips_w1 blk (t - 14) XOR fips_w1 blk (t - 16)))"

definition fips_f1 :: "nat \<Rightarrow> u32 \<Rightarrow> u32 \<Rightarrow> u32 \<Rightarrow> u32" where
  "fips_f1 t x y z =
     (if t < 20 then fips_ch x y z else if t < 40 then x XOR y XOR z
      else if t < 60 then fips_maj x y z else x XOR y XOR z)"

definition fips_k1 :: "nat \<Rightarrow> u32" where
  "fips_k1 t = SHA1_K ! (t div 20)"

definition fips_sha1 :: "u32 list \<Rightarrow> byte list \<Rightarrow> u32 list" where
  "fips_sha1 h blk =
     (case foldl (\<lambda>(a, b, c, d, e) t.
          (word_rotl 5 a + fips_f1 t b c d + e + fips_k1 t + fips_w1 blk t, a, word_rotl 30 b, c, d))
        (h ! 0, h ! 1, h ! 2, h ! 3, h ! 4) [0..<80]
      of (a, b, c, d, e) \<Rightarrow> [a + h ! 0, b + h ! 1, c + h ! 2, d + h ! 3, e + h ! 4])"

text \<open>SHA-2: the rotation counts of \<open>\<Sigma>0\<close>, \<open>\<Sigma>1\<close>, \<open>\<sigma>0\<close>, \<open>\<sigma>1\<close> are parameters.\<close>

definition fips_SIGMA :: "nat \<times> nat \<times> nat \<Rightarrow> 'w::len word \<Rightarrow> 'w word" where
  "fips_SIGMA r x = (case r of (i, j, k) \<Rightarrow> word_rotr i x XOR word_rotr j x XOR word_rotr k x)"
definition fips_sigma :: "nat \<times> nat \<times> nat \<Rightarrow> 'w::len word \<Rightarrow> 'w word" where
  "fips_sigma r x = (case r of (i, j, k) \<Rightarrow> word_rotr i x XOR word_rotr j x XOR drop_bit k x)"

fun fips_w2 :: "nat \<times> nat \<times> nat \<Rightarrow> nat \<times> nat \<times> nat \<Rightarrow> (nat \<Rightarrow> 'w::len word) \<Rightarrow> nat \<Rightarrow> 'w word" where
  "fips_w2 r0 r1 m t =
     (if t < 16 then m t
      else fips_sigma r1 (fips_w2 r0 r1 m (t - 2)) + fips_w2 r0 r1 m (t - 7) +
           fips_sigma r0 (fips_w2 r0 r1 m (t - 15)) + fips_w2 r0 r1 m (t - 16))"

declare fips_w1.simps [simp del] fips_w2.simps [simp del]

definition fips_sha2 ::
    "nat \<times> nat \<times> nat \<Rightarrow> nat \<times> nat \<times> nat \<Rightarrow> 'w::len word list \<Rightarrow> (nat \<Rightarrow> 'w word) \<Rightarrow> nat \<Rightarrow> 'w word list \<Rightarrow> 'w word list" where
  "fips_sha2 R0 R1 ks w rounds hs =
     (case foldl (\<lambda>(a, b, c, d, e, f, g, h) t.
          let t1 = h + fips_SIGMA R1 e + fips_ch e f g + ks ! t + w t;
              t2 = fips_SIGMA R0 a + fips_maj a b c
          in (t1 + t2, a, b, c, d + t1, e, f, g))
        (hs ! 0, hs ! 1, hs ! 2, hs ! 3, hs ! 4, hs ! 5, hs ! 6, hs ! 7) [0..<rounds]
      of (a, b, c, d, e, f, g, h) \<Rightarrow>
        [hs ! 0 + a, hs ! 1 + b, hs ! 2 + c, hs ! 3 + d, hs ! 4 + e, hs ! 5 + f, hs ! 6 + g, hs ! 7 + h])"

definition fips_sha256 :: "u32 list \<Rightarrow> byte list \<Rightarrow> u32 list" where
  "fips_sha256 hs blk =
     fips_sha2 (2, 13, 22) (6, 11, 25) SHA256_K (fips_w2 (7, 18, 3) (17, 19, 10) (fips_word 4 blk)) 64 hs"

definition fips_sha512 :: "u64 list \<Rightarrow> byte list \<Rightarrow> u64 list" where
  "fips_sha512 hs blk =
     fips_sha2 (28, 34, 39) (14, 18, 41) SHA512_K (fips_w2 (1, 8, 7) (19, 61, 6) (fips_word 8 blk)) 80 hs"

text \<open>The digest is the leftmost bytes of the final hash value.\<close>

definition fips_digest :: "nat \<Rightarrow> nat \<Rightarrow> 'w::len word list \<Rightarrow> byte list" where
  "fips_digest n len hs = take len (concat (map (\<lambda>w. be_nat n (unat w)) hs))"

definition fips180 :: "int \<Rightarrow> byte list \<Rightarrow> byte list" where
  "fips180 alg msg =
     (if alg = SHALG_SHA1 then fips_digest 4 20 (fips_hash 64 4 fips_sha1 SHA1_H0 msg)
      else if alg = SHALG_SHA224 then fips_digest 4 28 (fips_hash 64 4 fips_sha256 SHA224_H0 msg)
      else if alg = SHALG_SHA256 then fips_digest 4 32 (fips_hash 64 4 fips_sha256 SHA256_H0 msg)
      else if alg = SHALG_SHA384 then fips_digest 8 48 (fips_hash 128 8 fips_sha512 SHA384_H0 msg)
      else fips_digest 8 64 (fips_hash 128 8 fips_sha512 SHA512_H0 msg))"

section \<open>Block functions\<close>

lemma SHA_logic: "SHA_Ch x y z = fips_ch x y z" "SHA_Maj x y z = fips_maj x y z"
  by (rule bit_word_eqI; auto simp: SHA_Ch_def fips_ch_def SHA_Maj_def fips_maj_def bit_simps)+

lemma rotr_shifts:
  fixes w :: "'w::len word"
  assumes "0 < k" "k < LENGTH('w)"
  shows "drop_bit k w OR push_bit (LENGTH('w) - k) w = word_rotr k w"
proof (rule bit_word_eqI)
  fix i assume i: "i < LENGTH('w)"
  show "bit (drop_bit k w OR push_bit (LENGTH('w) - k) w) i = bit (word_rotr k w) i"
  proof (cases "i + k < LENGTH('w)")
    case True
    then show ?thesis using assms i by (auto simp: bit_simps add.commute)
  next
    case False
    then have "(i + k) mod LENGTH('w) = i + k - LENGTH('w)" using i assms by (simp add: mod_if)
    moreover have "\<not> bit w (k + i)" using False by (auto dest: bit_imp_le_length simp: add.commute)
    moreover have "i - (LENGTH('w) - k) = i + k - LENGTH('w)" using False assms by simp
    ultimately show ?thesis using assms i False by (auto simp: bit_simps)
  qed
qed

lemma rotl_shifts:
  fixes w :: "'w::len word"
  assumes "0 < k" "k < LENGTH('w)"
  shows "push_bit k w OR drop_bit (LENGTH('w) - k) w = word_rotl k w"
proof -
  have "word_rotl k w = word_rotr (LENGTH('w) - k) w"
    using assms by (intro bit_word_eqI) (simp add: bit_simps)
  then show ?thesis using rotr_shifts [of "LENGTH('w) - k" w] assms by (simp add: or.commute)
qed

lemma SHA_rot:
  "0 < k \<Longrightarrow> k < 32 \<Longrightarrow> SHA1_ROTL k v = word_rotl k v"
  "0 < k \<Longrightarrow> k < 32 \<Longrightarrow> SHA256_ROTR k v = word_rotr k v"
  "0 < k \<Longrightarrow> k < 64 \<Longrightarrow> SHA512_ROTR k w = word_rotr k w"
  using rotl_shifts [of k v] rotr_shifts [of k v] rotr_shifts [of k w]
  by (simp_all add: SHA1_ROTL_def SHA256_ROTR_def SHA512_ROTR_def)

lemma SHA_sigmas:
  "SHA256_SIGMA0 = fips_SIGMA (2, 13, 22)" "SHA256_SIGMA1 = fips_SIGMA (6, 11, 25)"
  "SHA256_sigma0 = fips_sigma (7, 18, 3)" "SHA256_sigma1 = fips_sigma (17, 19, 10)"
  "SHA512_SIGMA0 = fips_SIGMA (28, 34, 39)" "SHA512_SIGMA1 = fips_SIGMA (14, 18, 41)"
  "SHA512_sigma0 = fips_sigma (1, 8, 7)" "SHA512_sigma1 = fips_sigma (19, 61, 6)"
  by (rule ext; simp add: SHA256_SIGMA0_def SHA256_SIGMA1_def SHA256_sigma0_def SHA256_sigma1_def
      SHA512_SIGMA0_def SHA512_SIGMA1_def SHA512_sigma0_def SHA512_sigma1_def SHA_rot
      fips_SIGMA_def fips_sigma_def)+

lemma block_words: "block_word32 = fips_word 4" "block_word64 = fips_word 8"
proof -
  have "[0..<4] = [0, 1, 2, 3 :: nat]" "[0..<8] = [0, 1, 2, 3, 4, 5, 6, 7 :: nat]"
    by (simp_all add: upt_rec)
  then have "block_word32 blk t = fips_word 4 blk t" "block_word64 blk t = fips_word 8 blk t" for blk t
    by (simp_all add: block_word32_def block_word64_def fips_word_def push_bit_or or.assoc or.left_commute or.commute)
  then show "block_word32 = fips_word 4" "block_word64 = fips_word 8" by (simp_all add: fun_eq_iff)
qed

text \<open>A table extended entry by entry is the table of the recursive function.\<close>

lemma schedule_foldl:
  assumes "m \<le> N" "\<And>t. m \<le> t \<Longrightarrow> t < N \<Longrightarrow> F (map g [0..<t]) t = g t"
  shows "foldl (\<lambda>W t. W @ [F W t]) (map g [0..<m]) [m..<N] = map g [0..<N]"
  using assms
proof (induction N rule: dec_induct)
  case base
  then show ?case by simp
next
  case (step N)
  then show ?case by simp
qed

lemma sha1_schedule_fips: "sha1_schedule blk = map (fips_w1 blk) [0..<80]"
proof -
  have "map (block_word32 blk) [0..<16] = map (fips_w1 blk) [0..<16]"
    by (simp add: block_words fips_w1.simps)
  then show ?thesis
    unfolding sha1_schedule_def
    by (simp only:, intro schedule_foldl) (simp_all add: SHA_rot fips_w1.simps [of blk])
qed

lemma sha2_schedule_fips:
  "sha2_schedule (fips_sigma r0) (fips_sigma r1) m N = map (fips_w2 r0 r1 m) [0..<N]" if "16 \<le> N"
proof -
  have "map m [0..<16] = map (fips_w2 r0 r1 m) [0..<16]" by (simp add: fips_w2.simps)
  then show ?thesis
    unfolding sha2_schedule_def
    using that by (simp only:, intro schedule_foldl) (simp_all add: fips_w2.simps [of r0 r1 m])
qed

lemma sha1_loop:
  assumes "\<And>t b c d. m \<le> t \<Longrightarrow> t < k \<Longrightarrow> f b c d = fips_f1 t b c d \<and> K = fips_k1 t" "k \<le> 80"
    and "W = map (fips_w1 blk) [0..<80]"
  shows "foldl (sha1_step f K W) s [m..<k] =
    foldl (\<lambda>(a, b, c, d, e) t.
      (word_rotl 5 a + fips_f1 t b c d + e + fips_k1 t + fips_w1 blk t, a, word_rotl 30 b, c, d)) s [m..<k]"
proof (rule foldl_cong [OF refl refl])
  fix s t assume t: "t \<in> set [m..<k]"
  then have "W ! t = fips_w1 blk t" using assms(2,3) by simp
  with t show "sha1_step f K W s t = (case s of (a, b, c, d, e) \<Rightarrow> \<lambda>t.
      (word_rotl 5 a + fips_f1 t b c d + e + fips_k1 t + fips_w1 blk t, a, word_rotl 30 b, c, d)) t"
    using assms(1) by (auto simp: sha1_step_def SHA_rot add_ac split: prod.splits)
qed

lemma sha1_block_fips: "sha1_block = fips_sha1"
proof (intro ext)
  fix h blk
  have up: "[0..<80] = [0..<20] @ [20..<40] @ [40..<60] @ [60..<80 :: nat]"
    using upt_add_eq_append [of 0 20 60] upt_add_eq_append [of 20 40 40] upt_add_eq_append [of 40 60 20] by simp
  have k: "t div 20 = m" if "m * 20 \<le> t" "t < m * 20 + 20" for m t :: nat
    using that by (intro div_nat_eqI) simp_all
  define W where "W = map (fips_w1 blk) [0..<80]"
  have "sha1_block h blk = (let s = foldl (\<lambda>(a, b, c, d, e) t.
          (word_rotl 5 a + fips_f1 t b c d + e + fips_k1 t + fips_w1 blk t, a, word_rotl 30 b, c, d))
        (h ! 0, h ! 1, h ! 2, h ! 3, h ! 4) ([0..<20] @ [20..<40] @ [40..<60] @ [60..<80])
      in case s of (a, b, c, d, e) \<Rightarrow> [h ! 0 + a, h ! 1 + b, h ! 2 + c, h ! 3 + d, h ! 4 + e])"
    unfolding sha1_block_def sha1_schedule_fips foldl_append Let_def W_def [symmetric]
    using k [of 0] k [of 1] k [of 2] k [of 3]
    by (subst (1 2 3 4) sha1_loop [OF _ _ W_def])
      (simp_all only: fips_f1_def fips_k1_def SHA_logic SHA_Parity_def, simp_all)
  then show "sha1_block h blk = fips_sha1 h blk"
    unfolding up [symmetric] Let_def by (simp only: fips_sha1_def add.commute)
qed

lemma sha2_block_fips:
  assumes "16 \<le> N"
  shows "sha2_add h (foldl (sha2_step (fips_SIGMA R0) (fips_SIGMA R1) K (map (fips_w2 r0 r1 m) [0..<N])) (sha2_regs0 h) [0..<N]) =
    fips_sha2 R0 R1 K (fips_w2 r0 r1 m) N h"
proof -
  have "foldl (sha2_step (fips_SIGMA R0) (fips_SIGMA R1) K (map (fips_w2 r0 r1 m) [0..<N])) s [0..<N] =
    foldl (\<lambda>(a, b, c, d, e, f, g, h) t.
          let t1 = h + fips_SIGMA R1 e + fips_ch e f g + K ! t + fips_w2 r0 r1 m t;
              t2 = fips_SIGMA R0 a + fips_maj a b c
          in (t1 + t2, a, b, c, d + t1, e, f, g)) s [0..<N]" for s
    by (rule foldl_cong [OF refl refl]) (auto simp: sha2_step_def SHA_logic split: prod.splits)
  then show ?thesis by (simp only: fips_sha2_def sha2_add_def sha2_regs0_def)
qed

lemma sha256_block_fips: "sha256_block = fips_sha256"
  unfolding sha256_block_def fips_sha256_def SHA_sigmas block_words fun_eq_iff Let_def
  by (simp only: sha2_schedule_fips sha2_block_fips numeral_le_iff semiring_norm simp_thms)

lemma sha512_block_fips: "sha512_block = fips_sha512"
  unfolding sha512_block_def fips_sha512_def SHA_sigmas block_words fun_eq_iff Let_def
  by (simp only: sha2_schedule_fips sha2_block_fips numeral_le_iff semiring_norm simp_thms)

section \<open>Digests\<close>

lemma nth_concat_chunks:
  "\<lbrakk>\<And>x. length (f x) = n; i < n * length xs\<rbrakk> \<Longrightarrow> concat (map f xs) ! i = f (xs ! (i div n)) ! (i mod n)"
proof (induction xs arbitrary: i)
  case Nil
  then show ?case by simp
next
  case (Cons x xs)
  have n: "0 < n" using Cons.prems(2) by (cases n) auto
  show ?case
  proof (cases "i < n")
    case True
    then show ?thesis using Cons.prems(1) by (simp add: nth_append)
  next
    case False
    then have "i div n = Suc ((i - n) div n)" "i mod n = (i - n) mod n"
      using n by (simp_all add: le_div_geq le_mod_geq)
    then show ?thesis
      using False Cons.IH [OF Cons.prems(1), of "i - n"] Cons.prems by (simp add: nth_append)
  qed
qed

lemma sha_digest_fips:
  fixes hs :: "'w::len word list"
  assumes "len \<le> n * length hs"
  shows "sha_digest n hs len = fips_digest n len hs"
proof (rule nth_equalityI)
  have l: "length (concat (map (\<lambda>w. be_nat n (unat w)) hs)) = n * length hs"
    by (rule length_concat_chunks) simp
  then show "length (sha_digest n hs len) = length (fips_digest n len hs)"
    using assms by (simp add: sha_digest_def fips_digest_def)
  fix i assume "i < length (sha_digest n hs len)"
  then have i: "i < len" by (simp add: sha_digest_def)
  then have "0 < n" using assms by (cases n) auto
  then have m: "i mod n < n" by simp
  have "fips_digest n len hs ! i = be_bytes n (hs ! (i div n)) ! (i mod n)"
    using i assms nth_concat_chunks [of "be_bytes n :: 'w word \<Rightarrow> byte list" n i hs]
    by (simp add: fips_digest_def flip: be_bytes_nat)
  also have "\<dots> = sha_digest n hs len ! i"
    using m i by (simp add: be_bytes_def sha_digest_def)
  finally show "sha_digest n hs len ! i = fips_digest n len hs ! i" by simp
qed

lemma foldl_length: "(\<And>h b. length (f h b) = k) \<Longrightarrow> length h0 = k \<Longrightarrow> length (foldl f h0 bs) = k"
  by (induction bs arbitrary: h0) auto

lemma fips_hash_lengths:
  "length (fips_hash B n fips_sha1 SHA1_H0 msg) = 5"
  "length (fips_hash B n fips_sha256 SHA224_H0 msg) = 8"
  "length (fips_hash B n fips_sha256 SHA256_H0 msg) = 8"
  "length (fips_hash B n fips_sha512 SHA384_H0 msg) = 8"
  "length (fips_hash B n fips_sha512 SHA512_H0 msg) = 8"
  unfolding fips_hash_def
  by (rule foldl_length; simp add: fips_sha1_def fips_sha256_def fips_sha512_def fips_sha2_def
      SHA1_H0_def SHA224_H0_def SHA256_H0_def SHA384_H0_def SHA512_H0_def split: prod.splits)+

section \<open>Sessions\<close>

interpretation sha1: block_hash 64 4 fips_sha1 SHA1ProcessMessageBlock
  by unfold_locales (simp_all add: SHA1ProcessMessageBlock_def sha1_block_fips)

interpretation sha256: block_hash 64 4 fips_sha256 SHA224_256ProcessMessageBlock
  by unfold_locales (simp_all add: SHA224_256ProcessMessageBlock_def sha256_block_fips)

interpretation sha512: block_hash 128 8 fips_sha512 SHA384_512ProcessMessageBlock
  by unfold_locales (simp_all add: SHA384_512ProcessMessageBlock_def sha512_block_fips)

text \<open>A context of algorithm \<open>alg\<close> that has consumed the message \<open>msg\<close>.\<close>

definition shalgs :: "int set" where
  "shalgs = {SHALG_SHA1, SHALG_SHA224, SHALG_SHA256, SHALG_SHA384, SHALG_SHA512}"

definition sha_holds :: "int \<Rightarrow> byte list \<Rightarrow> sh_sha \<Rightarrow> bool" where
  "sha_holds alg msg s \<longleftrightarrow> sha_alg s = alg \<and>
     (case sha_ctx s of
        Sha1 c \<Rightarrow> alg = SHALG_SHA1 \<and> sha_state 64 fips_sha1 SHA1_H0 msg c
      | Sha256 c \<Rightarrow> alg = SHALG_SHA224 \<and> sha_state 64 fips_sha256 SHA224_H0 msg c \<or>
          alg = SHALG_SHA256 \<and> sha_state 64 fips_sha256 SHA256_H0 msg c
      | Sha512 c \<Rightarrow> alg = SHALG_SHA384 \<and> sha_state 128 fips_sha512 SHA384_H0 msg c \<or>
          alg = SHALG_SHA512 \<and> sha_state 128 fips_sha512 SHA512_H0 msg c)"

lemma sha_reset_state: "0 < B \<Longrightarrow> sha_state B compress H0 [] (sha_reset junk B H0)"
  by (auto simp: sha_state_def sha_reset_def sx_count_def intro!: exI [of _ "[]"])

lemma sha_init_holds:
  assumes "alg \<in> shalgs"
  shows "\<exists>s. shsha_init junk (Some x) alg = (0, Some s) \<and> sha_holds alg [] s"
  using assms unfolding shalgs_def
  by (auto simp: shsha_init_def const_simps sh_sha1_init_def sh_sha224_init_def sh_sha256_init_def
      sh_sha384_init_def sh_sha512_init_def SHA224_256Reset_def SHA384_512Reset_def sha_holds_def sha_reset_state)

lemma sha_holdsE:
  assumes "sha_holds alg msg s"
  obtains (s1) c where "s = \<lparr>sha_alg = SHALG_SHA1, sha_ctx = Sha1 c\<rparr>" "alg = SHALG_SHA1"
      "sha_state 64 fips_sha1 SHA1_H0 msg c"
  | (s224) c where "s = \<lparr>sha_alg = SHALG_SHA224, sha_ctx = Sha256 c\<rparr>" "alg = SHALG_SHA224"
      "sha_state 64 fips_sha256 SHA224_H0 msg c"
  | (s256) c where "s = \<lparr>sha_alg = SHALG_SHA256, sha_ctx = Sha256 c\<rparr>" "alg = SHALG_SHA256"
      "sha_state 64 fips_sha256 SHA256_H0 msg c"
  | (s384) c where "s = \<lparr>sha_alg = SHALG_SHA384, sha_ctx = Sha512 c\<rparr>" "alg = SHALG_SHA384"
      "sha_state 128 fips_sha512 SHA384_H0 msg c"
  | (s512) c where "s = \<lparr>sha_alg = SHALG_SHA512, sha_ctx = Sha512 c\<rparr>" "alg = SHALG_SHA512"
      "sha_state 128 fips_sha512 SHA512_H0 msg c"
  using assms unfolding sha_holds_def by (cases s; cases "sha_ctx s") auto

lemmas shsha_defs = shsha_write_def shsha_result_def sh_sha1_write_def sh_sha224_write_def sh_sha256_write_def
  sh_sha384_write_def sh_sha512_write_def sh_sha1_result_def sh_sha224_result_def sh_sha256_result_def
  sh_sha384_result_def sh_sha512_result_def sha256_member_result_def sha512_member_result_def
  SHA224_256ResultN_def SHA384_512ResultN_def

lemmas sha_finals = SHA1Finalize_def [unfolded SHA1PadMessage_def]
  SHA224_256Finalize_def [unfolded SHA224_256PadMessage_def] SHA384_512Finalize_def [unfolded SHA384_512PadMessage_def]

lemma sha_write_holds:
  assumes "sha_holds alg msg s" "len \<le> length d" "len < 2 ^ 32" "length msg + len < 2 ^ 61"
  shows "\<exists>s'. shsha_write (Some s) (Some d) len = Inr (0, Some s') \<and> sha_holds alg (msg @ take len d) s'"
proof -
  have l32: "8 * (length msg + len) < 2 ^ (2 * LENGTH(32))" and l64: "8 * (length msg + len) < 2 ^ (2 * LENGTH(64))"
    using assms(4) by simp_all
  have m: "len mod 2 ^ 32 = len" using assms(3) by simp
  from assms(1) show ?thesis
  proof (cases rule: sha_holdsE)
    case (s1 c)
    then show ?thesis using sha1.write_ok [OF s1(3) l32 assms(2)] m
      by (auto simp: shsha_defs const_simps sha_holds_def)
  next
    case (s224 c)
    then show ?thesis using sha256.write_ok [OF s224(3) l32 assms(2)] m
      by (auto simp: shsha_defs const_simps sha_holds_def)
  next
    case (s256 c)
    then show ?thesis using sha256.write_ok [OF s256(3) l32 assms(2)] m
      by (auto simp: shsha_defs const_simps sha_holds_def)
  next
    case (s384 c)
    then show ?thesis using sha512.write_ok [OF s384(3) l64 assms(2)] m
      by (auto simp: shsha_defs const_simps sha_holds_def)
  next
    case (s512 c)
    then show ?thesis using sha512.write_ok [OF s512(3) l64 assms(2)] m
      by (auto simp: shsha_defs const_simps sha_holds_def)
  qed
qed

lemma sha_result_holds:
  assumes "sha_holds alg msg s"
  shows "\<exists>s'. shsha_result (Some s) True = Inr (0, fips180 alg msg, Some s')"
  using assms
proof (cases rule: sha_holdsE)
  case (s1 c)
  then show ?thesis using sha1.result_ok [OF s1(3) sha_finals(1), of 20]
    by (auto simp: shsha_defs const_simps fips180_def sha_digest_fips fips_hash_lengths)
next
  case (s224 c)
  then show ?thesis using sha256.result_ok [OF s224(3) sha_finals(2), of 28]
    by (auto simp: shsha_defs const_simps fips180_def sha_digest_fips fips_hash_lengths)
next
  case (s256 c)
  then show ?thesis using sha256.result_ok [OF s256(3) sha_finals(2), of 32]
    by (auto simp: shsha_defs const_simps fips180_def sha_digest_fips fips_hash_lengths)
next
  case (s384 c)
  then show ?thesis using sha512.result_ok [OF s384(3) sha_finals(3), of 48]
    by (auto simp: shsha_defs const_simps fips180_def sha_digest_fips fips_hash_lengths)
next
  case (s512 c)
  then show ?thesis using sha512.result_ok [OF s512(3) sha_finals(3), of 64]
    by (auto simp: shsha_defs const_simps fips180_def sha_digest_fips fips_hash_lengths)
qed

lemma sha_writes_holds:
  assumes "sha_holds alg msg s" "\<forall>d \<in> set ds. length d < 2 ^ 32" "length msg + length (concat ds) < 2 ^ 61"
  shows "\<exists>s'. shsha_writes (Some s) ds = Inr (0, Some s') \<and> sha_holds alg (msg @ concat ds) s'"
  using assms
proof (induction ds arbitrary: msg s)
  case Nil
  then show ?case by simp
next
  case (Cons d ds)
  obtain s1 where "shsha_write (Some s) (Some d) (length d) = Inr (0, Some s1)" "sha_holds alg (msg @ d) s1"
    using sha_write_holds [OF Cons.prems(1) le_refl, of d] Cons.prems(2,3) by auto
  then show ?case using Cons.IH [of "msg @ d" s1] Cons.prems(2,3) by auto
qed

lemma sh_sha256_ok:
  assumes "len \<le> length d" "len < 2 ^ 61"
  shows "sh_sha256 junk (Some d) len = Inr (fips180 SHALG_SHA256 (take len d))"
proof -
  have "sha_state 64 fips_sha256 SHA256_H0 [] (sha_reset junk 64 SHA256_H0)" by (simp add: sha_reset_state)
  then obtain c where c: "sha_write 64 SHA224_256ProcessMessageBlock (sha_reset junk 64 SHA256_H0) (Some d) len = Inr (0, c)"
    "sha_state 64 fips_sha256 SHA256_H0 (take len d) c"
    using sha256.write_ok [of SHA256_H0 "[]" "sha_reset junk 64 SHA256_H0" len d] assms by auto
  then show ?thesis
    using sha256.result_ok [OF c(2) sha_finals(2), of 32]
    by (auto simp: sh_sha256_def sh_sha256_init_def SHA224_256Reset_def shsha_defs const_simps fips180_def
        sha_digest_fips fips_hash_lengths)
qed

text \<open>C4: For each of the five algorithms, a session of \<open>shsha_init\<close>, writes of any pieces and
  \<open>shsha_result\<close> returns the digest FIPS 180 defines for the concatenation of the pieces.\<close>

theorem shsha_session_fips:
  assumes "alg \<in> shalgs" "\<forall>d \<in> set ds. length d < 2 ^ 32" "length (concat ds) < 2 ^ 61"
  shows "shsha_session junk alg ds = Inr (0, fips180 alg (concat ds))"
proof -
  obtain s where s: "shsha_init junk (Some sha_any) alg = (0, Some s)" "sha_holds alg [] s"
    using sha_init_holds [OF assms(1)] by blast
  obtain s1 where s1: "shsha_writes (Some s) ds = Inr (0, Some s1)" "sha_holds alg (concat ds) s1"
    using sha_writes_holds [OF s(2) assms(2)] assms(3) by auto
  show ?thesis using s(1) s1(1) sha_result_holds [OF s1(2)] by (auto simp: shsha_session_def)
qed

theorem shsha_session_fips_witness:
  "shsha_session (\<lambda>_. 7) SHALG_SHA256 [[97], [98, 99]] = Inr (0, fips180 SHALG_SHA256 [97, 98, 99])"
  using shsha_session_fips [of SHALG_SHA256 "[[97], [98, 99]]" "\<lambda>_. 7"] by (simp add: shalgs_def)

end
