(* ===== verification/Share_Key.thy ===== *)
theory Share_Key
  imports Share_Crc Share_Sha_Fips
begin

text \<open>
  The 224-bit share key of \<^verbatim>\<open>share-lib/mem/shmem_key.c\<close> (struct \<^verbatim>\<open>shkey_t\<close> of
  \<^verbatim>\<open>shmem.h\<close>): derivation from binary data, comparison, the two text forms and
  their parsers, certificates and the exclusive-or of keys.  The hash is the
  \<open>sh_sha256\<close> of \<open>Share_Sha\<close>.
\<close>

section \<open>Data\<close>

record shkey =
  key_alg :: u16
  key_crc :: u16
  key_code :: "u32 list"

definition SHKEY_WORDS :: nat where "SHKEY_WORDS = 7"

definition shkey_blank :: shkey where
  "shkey_blank = \<lparr>key_alg = 0, key_crc = 0, key_code = replicate SHKEY_WORDS 0\<rparr>"

definition shkey_wf :: "shkey \<Rightarrow> bool" where
  "shkey_wf k \<longleftrightarrow> length (key_code k) = SHKEY_WORDS"

text \<open>The 32 bytes of the struct in memory.\<close>

definition key_bytes :: "shkey \<Rightarrow> byte list" where
  "key_bytes k = le_bytes 2 (key_alg k) @ le_bytes 2 (key_crc k) @
     concat (map (le_bytes 4) (key_code k))"

section \<open>Derivation\<close>

text \<open>What a call of \<open>sh_sha256\<close> leaves in the digest buffer; the size becomes an
  \<open>unsigned int\<close> on the way.  The digest does not depend on what the context on the stack held, and is
  that of FIPS 180 when the size fits.\<close>

definition sha256_hash :: "byte list \<Rightarrow> byte list" where
  "sha256_hash bs = (case sh_sha256 (\<lambda>_. 0) (Some bs) (length bs mod 2 ^ 32) of Inl _ \<Rightarrow> [] | Inr d \<Rightarrow> d)"

lemma sha256_hash_call:
  assumes "length bs < 2 ^ 32"
  shows "sh_sha256 junk (Some bs) (length bs) = Inr (sha256_hash bs)"
    and "sha256_hash bs = fips180 SHALG_SHA256 bs"
  using sh_sha256_ok [OF le_refl, of bs] assms by (simp_all add: sha256_hash_def)

definition memxor :: "byte list \<Rightarrow> byte list \<Rightarrow> nat \<Rightarrow> fault + byte list" where
  "memxor dest src n =
     run_bind (mem_read dest 0 n) (\<lambda>d. run_bind (mem_read src 0 n)
       (\<lambda>s. mem_write dest 0 (map2 (XOR) d s)))"

definition shkey_bin_r :: "byte list \<Rightarrow> shkey" where
  "shkey_bin_r bs =
     (let step = length bs div SHKEY_WORDS in
      shkey_blank\<lparr>key_code := map (\<lambda>i.
        let ofs = step * i;
            len = min (length bs - ofs) (step + 8);
            hash = sha256_hash (take len (drop ofs bs))
        in shcrc32 (Some (hash @ replicate (64 - length hash) 0))) [0..<SHKEY_WORDS]\<rparr>)"

definition shkey_bin :: "byte list ptr \<Rightarrow> shkey" where
  "shkey_bin data =
     (case data of None \<Rightarrow> shkey_blank
      | Some bs \<Rightarrow> if bs = [] then shkey_blank else shkey_bin_r bs)"

text \<open>The variants \<open>ashkey_xxx\<close> write the static key \<open>_shmem_key\<close>, whose old value is
  their first argument.\<close>

definition ashkey_bin :: "shkey \<Rightarrow> byte list ptr \<Rightarrow> shkey" where
  "ashkey_bin shmem_key data =
     (case data of None \<Rightarrow> shmem_key
      | Some bs \<Rightarrow> if bs = [] then shmem_key else shkey_bin_r bs)"

definition shkey_str :: "byte list ptr \<Rightarrow> shkey" where
  "shkey_str kvalue = (case kvalue of None \<Rightarrow> shkey_bin None | Some s \<Rightarrow> shkey_bin (Some s))"

definition ashkey_str :: "byte list ptr \<Rightarrow> shkey" where
  "ashkey_str name =
     (case name of None \<Rightarrow> shkey_blank
      | Some s \<Rightarrow> if length s \<noteq> 0 then shkey_bin_r s else shkey_blank)"

definition shkey_num :: "u64 \<Rightarrow> shkey" where
  "shkey_num kvalue = shkey_bin_r (le_bytes 8 kvalue)"

definition shkey_num64 :: "u64 \<Rightarrow> shkey" where
  "shkey_num64 kvalue = shkey_bin_r (le_bytes 8 kvalue)"

definition ashkey_num :: "u64 \<Rightarrow> shkey" where
  "ashkey_num num =
     (let buf = le_bytes 8 num @ replicate 248 0 in
      shkey_bin_r (takeWhile (\<lambda>b. b \<noteq> 0) buf))"

text \<open>The argument of \<open>shrand\<close> is the buffer it has filled, from \<^verbatim>\<open>/dev/urandom\<close> or from \<open>rand\<close>; a caller
  with several calls has one buffer for each.\<close>

definition shrand :: "byte list \<Rightarrow> u64" where
  "shrand buf = shcrc (Some buf)"

definition shkey_uniq :: "(nat \<Rightarrow> byte list) \<Rightarrow> shkey" where
  "shkey_uniq entropy =
     shkey_blank\<lparr>key_code := map (\<lambda>i. htonl (ucast (shrand (entropy i)))) [0..<SHKEY_WORDS]\<rparr>"

section \<open>Comparison and copies\<close>

definition shkey_alg :: "shkey ptr \<Rightarrow> int" where
  "shkey_alg key = (case key of None \<Rightarrow> SHERR_INVAL | Some k \<Rightarrow> uint (htons (key_alg k)))"

definition shkey_alg_set :: "shkey ptr \<Rightarrow> int \<Rightarrow> shkey ptr" where
  "shkey_alg_set key alg =
     (case key of None \<Rightarrow> None | Some k \<Rightarrow> Some (k\<lparr>key_alg := htons (word_of_int alg)\<rparr>))"

definition shkey_cmp :: "shkey ptr \<Rightarrow> shkey ptr \<Rightarrow> bool" where
  "shkey_cmp key_1 key_2 =
     (case (key_1, key_2) of
        (Some k1, Some k2) \<Rightarrow>
          if shkey_alg key_1 \<noteq> shkey_alg key_2 then False
          else if key_crc k1 \<noteq> key_crc k2 then False
          else list_all (\<lambda>i. key_code k1 ! i = key_code k2 ! i) [0..<SHKEY_WORDS]
      | _ \<Rightarrow> False)"

text \<open>The copy goes into a block of \<open>sizeof(shkey_t)\<close> bytes that is not tested against \<open>NULL\<close>.\<close>

definition SHKEY_SIZE :: nat where "SHKEY_SIZE = 32"

definition shkey_clone :: "libc \<Rightarrow> shkey ptr \<Rightarrow> fault + shkey ptr" where
  "shkey_clone c key =
     (case key of None \<Rightarrow> Inr None
      | Some k \<Rightarrow> if calloc_ok c SHKEY_SIZE then Inr (Some k) else Inl NullDeref)"

definition shkey_crc :: "shkey ptr \<Rightarrow> u64" where
  "shkey_crc key = (case key of None \<Rightarrow> 0 | Some k \<Rightarrow> shcrc (Some (key_bytes k)))"

definition shkey_xor :: "shkey \<Rightarrow> shkey \<Rightarrow> shkey" where
  "shkey_xor key1 key2 =
     shkey_blank\<lparr>key_code :=
       map (\<lambda>i. key_code key1 ! i XOR key_code key2 ! i) [0..<SHKEY_WORDS]\<rparr>"

section \<open>Text forms\<close>

text \<open>\<open>%6.6s\<close>: at most six characters, right-justified in six.\<close>

definition fmt_6_6s :: "string \<Rightarrow> string" where
  "fmt_6_6s s = (let t = take 6 s in replicate (6 - length t) CHR '' '' @ t)"

definition shkey_print :: "shkey ptr \<Rightarrow> string" where
  "shkey_print key =
     (case key of None \<Rightarrow> []
      | Some k \<Rightarrow> map (\<lambda>ch. if ch = CHR '' '' then CHR ''.'' else ch)
          (concat (map (\<lambda>w. fmt_6_6s (shcrcstr (ucast w))) (key_code k))))"

definition shkey_gen :: "string ptr \<Rightarrow> shkey ptr" where
  "shkey_gen str =
     (case str of None \<Rightarrow> None
      | Some s \<Rightarrow>
          if length s \<noteq> 42 then None
          else Some (shkey_blank\<lparr>key_code := map (\<lambda>i.
             ucast (shcrcgen (dropWhile (\<lambda>ch. ch = CHR ''.'') (take 6 (drop (6 * i) s)))))
             [0..<SHKEY_WORDS]\<rparr>))"

text \<open>\<open>%-p.px\<close>: hexadecimal digits, at least \<open>p\<close> of them.\<close>

definition hex_map :: string where "hex_map = ''0123456789abcdef''"

fun hex_nat :: "nat \<Rightarrow> string" where
  "hex_nat n = (if n = 0 then [] else hex_nat (n div 16) @ [hex_map ! (n mod 16)])"

declare hex_nat.simps [simp del]

definition fmt_hex :: "nat \<Rightarrow> u32 \<Rightarrow> string" where
  "fmt_hex p w = (let s = hex_nat (unat w) in replicate (p - length s) CHR ''0'' @ s)"

definition SHALG_ECDSA160R :: int where
  "SHALG_ECDSA160R = 2 ^ 11 + 2 ^ 1 + 2 ^ 15"

definition shkey_hex :: "shkey ptr \<Rightarrow> string" where
  "shkey_hex key =
     (case key of None \<Rightarrow> []
      | Some k \<Rightarrow> concat (map (\<lambda>i.
          if shkey_alg key = SHALG_ECDSA160R \<and> i = 6 then []
          else if shkey_alg key = SHALG_ECDSA160R \<and> i = 5 then fmt_hex 2 (key_code k ! i)
          else fmt_hex 8 (key_code k ! i)) [0..<SHKEY_WORDS]))"

text \<open>The C library's \<open>strtoll(s, NULL, 16)\<close>.\<close>

definition hex_digit :: "char \<Rightarrow> int option" where
  "hex_digit ch =
     (let c = int (of_char ch) in
      if 48 \<le> c \<and> c \<le> 57 then Some (c - 48)
      else if 97 \<le> c \<and> c \<le> 102 then Some (c - 87)
      else if 65 \<le> c \<and> c \<le> 70 then Some (c - 55) else None)"

definition c_isspace :: "char \<Rightarrow> bool" where
  "c_isspace ch \<longleftrightarrow> ch = CHR '' '' \<or> (9 \<le> (of_char ch :: nat) \<and> (of_char ch :: nat) \<le> 13)"

fun hex_prefix :: "string \<Rightarrow> string" where
  "hex_prefix (z # x # h # rest) =
     (if z = CHR ''0'' \<and> (x = CHR ''x'' \<or> x = CHR ''X'') \<and> hex_digit h \<noteq> None
      then h # rest else z # x # h # rest)"
| "hex_prefix s = s"

definition hex_number :: "string \<Rightarrow> int" where
  "hex_number s =
     foldl (\<lambda>v ch. 16 * v + the (hex_digit ch)) 0
       (takeWhile (\<lambda>ch. hex_digit ch \<noteq> None) (hex_prefix s))"

fun hex_signed :: "string \<Rightarrow> int" where
  "hex_signed [] = hex_number []"
| "hex_signed (ch # rest) =
     (if ch = CHR ''-'' then - hex_number rest
      else if ch = CHR ''+'' then hex_number rest
      else hex_number (ch # rest))"

definition c_strtoll16 :: "string \<Rightarrow> int" where
  "c_strtoll16 s = hex_signed (dropWhile c_isspace s)"

definition shkey_hexgen :: "string ptr \<Rightarrow> shkey ptr" where
  "shkey_hexgen hex_str =
     (case hex_str of None \<Rightarrow> None
      | Some s \<Rightarrow>
          if length s \<noteq> 56 then None
          else Some (shkey_blank\<lparr>key_code := map (\<lambda>i.
             word_of_int (c_strtoll16 (take 8 (drop (8 * i) s)))) [0..<SHKEY_WORDS]\<rparr>))"

section \<open>Certificates\<close>

fun swap_words :: "byte list \<Rightarrow> byte list" where
  "swap_words (a # b # c # d # rest) = d # c # b # a # swap_words rest"
| "swap_words bs = bs"

definition shkey_cert ::
    "shkey ptr \<Rightarrow> u64 \<Rightarrow> u64 \<Rightarrow> shkey ptr" where
  "shkey_cert key crc stamp =
     (case key of None \<Rightarrow> None
      | Some k \<Rightarrow>
         (let shabuf = le_bytes 8 crc @ le_bytes 8 stamp @ key_bytes k @ replicate 16 64;
              hash = sha256_hash (swap_words shabuf)
          in Some (shkey_bin (Some (hash @ replicate (64 - length hash) 0)))))"

definition shkey_verify ::
    "shkey ptr \<Rightarrow> u64 \<Rightarrow> shkey ptr \<Rightarrow> u64 \<Rightarrow> int" where
  "shkey_verify sig crc key stamp =
     (if shkey_cmp (shkey_cert key crc stamp) sig then 0 else SHERR_INVAL)"

section \<open>Well-formedness and equality\<close>

lemma shkey_wf_simps [simp]:
  "shkey_wf shkey_blank" "shkey_wf (k\<lparr>key_alg := a\<rparr>) = shkey_wf k"
  "shkey_wf (k\<lparr>key_crc := c\<rparr>) = shkey_wf k"
  by (simp_all add: shkey_wf_def shkey_blank_def)

lemma shkey_wf_derived [simp]:
  "shkey_wf (shkey_bin_r bs)" "shkey_wf (shkey_bin d)" "shkey_wf (shkey_num n)"
  "shkey_wf (shkey_xor k1 k2)" "shkey_wf (shkey_uniq r)"
  by (simp_all add: shkey_wf_def shkey_bin_r_def shkey_bin_def shkey_num_def shkey_xor_def
      shkey_uniq_def shkey_blank_def Let_def split: option.split)

lemma length_key_bytes [simp]: "shkey_wf k \<Longrightarrow> length (key_bytes k) = 32"
  by (simp add: key_bytes_def shkey_wf_def SHKEY_WORDS_def length_concat_chunks [where k = 4])

lemma inj_le_bytes: "LENGTH('a) \<le> 8 * n \<Longrightarrow> inj (le_bytes n :: 'a::len word \<Rightarrow> byte list)"
  by (auto intro!: injI dest: le_bytes_inj)

lemma key_bytes_inj:
  assumes "shkey_wf k1" "shkey_wf k2"
  shows "key_bytes k1 = key_bytes k2 \<longleftrightarrow> k1 = k2"
proof
  assume eq: "key_bytes k1 = key_bytes k2"
  then have "le_bytes 2 (key_alg k1) = le_bytes 2 (key_alg k2)"
    and "le_bytes 2 (key_crc k1) = le_bytes 2 (key_crc k2)"
    and code: "concat (map (le_bytes 4) (key_code k1)) = concat (map (le_bytes 4) (key_code k2))"
    by (simp_all add: key_bytes_def)
  then have "key_alg k1 = key_alg k2" "key_crc k1 = key_crc k2"
    using le_bytes_inj [where 'a = 16 and n = 2] by simp_all
  moreover have "key_code k1 = key_code k2"
    using assms code concat_chunks_inj [OF _ inj_le_bytes [where 'a = 32 and n = 4], of 4]
    by (simp add: shkey_wf_def)
  ultimately show "k1 = k2" by simp
qed simp

lemma shkey_alg_eq: "shkey_alg (Some a) = shkey_alg (Some b) \<longleftrightarrow> key_alg a = key_alg b"
  by (metis htons_htons option.case(2) shkey_alg_def unsigned_word_eqI)

lemma shkey_cmp_iff:
  assumes "shkey_wf k1" "shkey_wf k2"
  shows "shkey_cmp (Some k1) (Some k2) \<longleftrightarrow> k1 = k2"
proof -
  have "list_all (\<lambda>i. key_code k1 ! i = key_code k2 ! i) [0..<SHKEY_WORDS] \<longleftrightarrow>
      key_code k1 = key_code k2"
    using assms by (auto simp: shkey_wf_def list_all_iff list_eq_iff_nth_eq)
  then show ?thesis
    by (auto simp: shkey_cmp_def shkey_alg_eq)
qed

section \<open>Printing and parsing\<close>

lemma crc_map_no_pad: "CHR ''.'' \<notin> set crc_str_map" "CHR '' '' \<notin> set crc_str_map"
  by (simp_all add: crc_str_map_def)

lemma stridx_loop_notin: "ch \<notin> set xs \<Longrightarrow> stridx_loop xs ch i = -1"
  by (induction xs arbitrary: i) auto

lemma crc_chars_pad:
  assumes "crc_chars s"
  shows "CHR ''.'' \<notin> set s" and "CHR '' '' \<notin> set s"
proof -
  have "stridx (Some crc_str_map) CHR ''.'' = -1" "stridx (Some crc_str_map) CHR '' '' = -1"
    by (simp_all add: stridx_def stridx_loop_notin crc_map_no_pad)
  with assms show "CHR ''.'' \<notin> set s" "CHR '' '' \<notin> set s"
    by (auto simp: crc_chars_def)
qed

lemma shcrcstr_u32_length: "length (shcrcstr (ucast (w :: u32))) \<le> 6"
proof -
  have "unat (ucast w :: u64) < 2 ^ LENGTH(32)"
    unfolding unat_ucast_u32_u64 by (rule unsigned_less)
  also have "\<dots> \<le> (64 :: nat) ^ 6" by simp
  finally show ?thesis unfolding shcrcstr_def by (rule shcrcstr_loop_length)
qed

text \<open>One printed word: dots, then the digits.\<close>

definition dotted :: "u32 \<Rightarrow> string" where
  "dotted w = (let s = shcrcstr (ucast w) in replicate (6 - length s) CHR ''.'' @ s)"

lemma dotted_fmt:
  "map (\<lambda>ch. if ch = CHR '' '' then CHR ''.'' else ch) (fmt_6_6s (shcrcstr (ucast w))) = dotted w"
  using shcrcstr_u32_length [of w] crc_chars_pad [OF shcrcstr_chars, of "ucast w"]
  by (auto simp: fmt_6_6s_def dotted_def Let_def intro!: map_idI)

lemma length_dotted: "length (dotted w) = 6"
  using shcrcstr_u32_length [of w] by (simp add: dotted_def Let_def)

lemma dropWhile_dots:
  "CHR ''.'' \<notin> set s \<Longrightarrow> dropWhile (\<lambda>ch. ch = CHR ''.'') (replicate n CHR ''.'' @ s) = s"
  by (induction n) (auto simp: dropWhile_eq_self_iff dest: hd_in_set)

lemma parse_dotted:
  "ucast (shcrcgen (dropWhile (\<lambda>ch. ch = CHR ''.'') (dotted w))) = w"
proof -
  have "dropWhile (\<lambda>ch. ch = CHR ''.'') (dotted w) = shcrcstr (ucast w)"
    unfolding dotted_def Let_def
    by (rule dropWhile_dots) (rule crc_chars_pad(1) [OF shcrcstr_chars])
  then show ?thesis
    by (simp add: shcrcgen_val shcrcstr_chars shcrcstr_val)
qed

lemma shkey_print_dotted: "shkey_print (Some k) = concat (map dotted (key_code k))"
  by (simp add: shkey_print_def map_concat dotted_fmt comp_def)

section \<open>Hexadecimal form\<close>

lemma length_hex_map: "length hex_map = 16"
  by (simp add: hex_map_def)

lemma hex_digit_map: "k < 16 \<Longrightarrow> hex_digit (hex_map ! k) = Some (int k)"
proof -
  assume "k < 16"
  then have "k = 0 \<or> k = 1 \<or> k = 2 \<or> k = 3 \<or> k = 4 \<or> k = 5 \<or> k = 6 \<or> k = 7 \<or>
    k = 8 \<or> k = 9 \<or> k = 10 \<or> k = 11 \<or> k = 12 \<or> k = 13 \<or> k = 14 \<or> k = 15" by arith
  then show ?thesis by (auto simp: hex_digit_def hex_map_def)
qed

definition hex_string :: "string \<Rightarrow> bool" where
  "hex_string s \<longleftrightarrow> (\<forall>ch \<in> set s. ch \<in> set hex_map)"

lemma hex_string_append [simp]: "hex_string (s @ t) \<longleftrightarrow> hex_string s \<and> hex_string t"
  by (auto simp: hex_string_def)

lemma hex_string_hex_nat: "hex_string (hex_nat n)"
proof (induction n rule: hex_nat.induct)
  case (1 n)
  have "hex_map ! (n mod 16) \<in> set hex_map"
    by (rule nth_mem) (simp add: length_hex_map)
  with 1 show ?case by (subst hex_nat.simps) (auto simp: hex_string_def)
qed

lemma hex_map_char:
  assumes "ch \<in> set hex_map"
  shows "hex_digit ch \<noteq> None" "\<not> c_isspace ch" "ch \<noteq> CHR ''-''" "ch \<noteq> CHR ''+''"
    "ch \<noteq> CHR ''x''" "ch \<noteq> CHR ''X''"
  using assms by (auto simp: hex_map_def hex_digit_def c_isspace_def)

definition hex_eval :: "string \<Rightarrow> int" where
  "hex_eval s = foldl (\<lambda>v ch. 16 * v + the (hex_digit ch)) 0 s"

lemma hex_prefix_string: "hex_string s \<Longrightarrow> hex_prefix s = s"
  by (induction s rule: hex_prefix.induct) (auto simp: hex_string_def dest: hex_map_char)

lemma strtoll_hex:
  assumes "hex_string s"
  shows "c_strtoll16 s = hex_eval s"
proof -
  have all: "\<forall>ch \<in> set s. hex_digit ch \<noteq> None \<and> \<not> c_isspace ch \<and> ch \<noteq> CHR ''-'' \<and> ch \<noteq> CHR ''+''"
    using assms hex_map_char by (auto simp: hex_string_def)
  then have "dropWhile c_isspace s = s" by (cases s) auto
  moreover have "hex_signed s = hex_number s" using all by (cases s) auto
  moreover have take: "takeWhile (\<lambda>ch. hex_digit ch \<noteq> None) s = s"
    using all by (simp only: takeWhile_eq_all_conv) blast
  ultimately show ?thesis
    unfolding c_strtoll16_def hex_number_def hex_eval_def hex_prefix_string [OF assms] take by simp
qed

lemma hex_eval_snoc: "hex_eval (s @ [ch]) = 16 * hex_eval s + the (hex_digit ch)"
  by (simp add: hex_eval_def)

lemma hex_eval_hex_nat: "hex_eval (hex_nat n) = int n"
proof (induction n rule: hex_nat.induct)
  case (1 n)
  show ?case
  proof (cases "n = 0")
    case True
    then show ?thesis by (simp add: hex_nat.simps hex_eval_def)
  next
    case False
    then have "hex_eval (hex_nat n) = 16 * int (n div 16) + int (n mod 16)"
      using 1 by (subst hex_nat.simps) (simp add: hex_eval_snoc hex_digit_map)
    then show ?thesis by (simp add: zdiv_int zmod_int)
  qed
qed

lemma hex_eval_zeros: "hex_eval (replicate m CHR ''0'' @ s) = hex_eval s"
  by (induction m) (simp_all add: hex_eval_def hex_digit_def)

lemma length_hex_nat: "n < 16 ^ k \<Longrightarrow> length (hex_nat n) \<le> k"
proof (induction n arbitrary: k rule: hex_nat.induct)
  case (1 n)
  show ?case
  proof (cases "n = 0")
    case True
    then show ?thesis by (simp add: hex_nat.simps)
  next
    case False
    with "1.prems" obtain j where k: "k = Suc j" by (cases k) auto
    with "1.prems" have "n div 16 < 16 ^ j"
      by (simp add: less_mult_imp_div_less mult.commute)
    with 1 False k show ?thesis by (subst hex_nat.simps) simp
  qed
qed

lemma length_fmt_hex8: "length (fmt_hex 8 w) = 8"
proof -
  have "unat w < 2 ^ LENGTH(32)" by (rule unsigned_less)
  also have "\<dots> \<le> (16 :: nat) ^ 8" by simp
  finally have "length (hex_nat (unat w)) \<le> 8" by (rule length_hex_nat)
  then show ?thesis by (simp add: fmt_hex_def Let_def)
qed

lemma parse_fmt_hex8: "word_of_int (c_strtoll16 (fmt_hex 8 w)) = w"
proof -
  have "hex_string (replicate n CHR ''0'')" for n
    by (simp add: hex_string_def hex_map_def)
  then have "hex_string (fmt_hex 8 w)"
    by (simp add: fmt_hex_def Let_def hex_string_hex_nat)
  then show ?thesis
    by (simp add: strtoll_hex fmt_hex_def Let_def hex_eval_zeros hex_eval_hex_nat)
qed

lemma shkey_hex_words:
  assumes "shkey_wf k" and "shkey_alg (Some k) \<noteq> SHALG_ECDSA160R"
  shows "shkey_hex (Some k) = concat (map (fmt_hex 8) (key_code k))"
proof -
  have "map (\<lambda>i. fmt_hex 8 (key_code k ! i)) [0..<SHKEY_WORDS] = map (fmt_hex 8) (key_code k)"
    using assms(1) by (auto simp: shkey_wf_def intro: nth_equalityI)
  with assms(2) show ?thesis by (simp add: shkey_hex_def)
qed

section \<open>Properties\<close>

text \<open>C19: Parsing the printed form of a key gives a key with the same code words (the
  algorithm and checksum fields are not printed and come back as zero); the
  printed form always has the 42 characters the parser insists on.\<close>

theorem shkey_gen_print:
  assumes "shkey_wf k"
  shows "length (shkey_print (Some k)) = 42 \<and>
    shkey_gen (Some (shkey_print (Some k))) = Some (k\<lparr>key_alg := 0, key_crc := 0\<rparr>)"
proof (rule conjI)
  show len: "length (shkey_print (Some k)) = 42"
    using assms length_concat_chunks [of "key_code k" dotted 6]
    by (simp add: shkey_print_dotted length_dotted shkey_wf_def SHKEY_WORDS_def)
  show "shkey_gen (Some (shkey_print (Some k))) = Some (k\<lparr>key_alg := 0, key_crc := 0\<rparr>)"
    using assms len map_chunks_id [of "key_code k" dotted 6
        "\<lambda>s. ucast (shcrcgen (dropWhile (\<lambda>ch. ch = CHR ''.'') s))" SHKEY_WORDS]
    by (simp add: shkey_gen_def shkey_print_dotted length_dotted parse_dotted shkey_wf_def
        shkey_blank_def)
qed

theorem shkey_gen_print_witness:
  "shkey_gen (Some (shkey_print (Some \<lparr>key_alg = 0, key_crc = 0, key_code = [0, 1, 64, 4095, 123456, 0x80000000, 0xFFFFFFFF]\<rparr>))) =
     Some \<lparr>key_alg = 0, key_crc = 0, key_code = [0, 1, 64, 4095, 123456, 0x80000000, 0xFFFFFFFF]\<rparr>"
  using shkey_gen_print [of "\<lparr>key_alg = 0, key_crc = 0, key_code = [0, 1, 64, 4095, 123456, 0x80000000, 0xFFFFFFFF]\<rparr>"]
  by (simp add: shkey_wf_def SHKEY_WORDS_def)

text \<open>The hexadecimal form of a key that is not of the 160-bit ECDSA kind parses back
  to its code words.\<close>

theorem shkey_hexgen_hex:
  assumes "shkey_wf k" and "shkey_alg (Some k) \<noteq> SHALG_ECDSA160R"
  shows "shkey_hexgen (Some (shkey_hex (Some k))) = Some (k\<lparr>key_alg := 0, key_crc := 0\<rparr>)"
proof -
  have "length (shkey_hex (Some k)) = 56"
    using assms length_concat_chunks [of "key_code k" "fmt_hex 8" 8]
    by (simp add: shkey_hex_words length_fmt_hex8 shkey_wf_def SHKEY_WORDS_def)
  with assms map_chunks_id [of "key_code k" "fmt_hex 8" 8 "\<lambda>s. word_of_int (c_strtoll16 s)" SHKEY_WORDS]
  show ?thesis
    by (simp add: shkey_hexgen_def shkey_hex_words length_fmt_hex8 parse_fmt_hex8 shkey_wf_def
        shkey_blank_def)
qed

theorem shkey_hexgen_hex_witness:
  "shkey_hexgen (Some (shkey_hex (Some shkey_blank))) = Some shkey_blank"
proof -
  have "shkey_alg (Some shkey_blank) \<noteq> SHALG_ECDSA160R"
    by (simp add: shkey_alg_def shkey_blank_def SHALG_ECDSA160R_def htons_def numeral_2_eq_2)
  from shkey_hexgen_hex [OF _ this] show ?thesis by (simp add: shkey_blank_def shkey_wf_def)
qed

text \<open>The field-by-field comparison \<open>shkey_cmp\<close> and the byte comparison of the whole
  struct (the \<open>memcmp\<close> of the hash map) agree, and both mean equality.\<close>

theorem shkey_cmp_memcmp:
  assumes "shkey_wf k1" "shkey_wf k2"
  shows "(shkey_cmp (Some k1) (Some k2) \<longleftrightarrow> key_bytes k1 = key_bytes k2) \<and>
    (shkey_cmp (Some k1) (Some k2) \<longleftrightarrow> k1 = k2)"
  using assms by (simp add: shkey_cmp_iff key_bytes_inj)

theorem shkey_cmp_memcmp_witness:
  "\<not> shkey_cmp (Some shkey_blank) (Some (shkey_blank\<lparr>key_crc := 1\<rparr>))"
proof -
  have "shkey_blank \<noteq> shkey_blank\<lparr>key_crc := 1\<rparr>" by (simp add: shkey_blank_def)
  with shkey_cmp_memcmp [of shkey_blank "shkey_blank\<lparr>key_crc := 1\<rparr>"] show ?thesis by auto
qed

text \<open>\<open>ashkey_num\<close> measures its binary buffer with \<open>strlen\<close>: the key depends only on the
  bytes before the first zero byte, so all numbers whose lowest byte is zero
  (0, 256, 512, \<open>\<dots>\<close>) share one key, unlike \<open>shkey_num\<close>, which hashes all eight bytes.\<close>

theorem ashkey_num_collides:
  assumes "ucast m = (0 :: byte)" and "ucast n = (0 :: byte)"
  shows "ashkey_num m = ashkey_num n"
  using assms by (simp add: ashkey_num_def numeral_eq_Suc)

theorem ashkey_num_collides_witness: "ashkey_num 0 = ashkey_num 256"
  by (rule ashkey_num_collides) simp_all

text \<open>A certificate verifies against exactly the key, checksum and time stamp it was
  issued for, up to the equality of the derived keys; without a key nothing verifies.\<close>

theorem shkey_verify_iff:
  assumes "shkey_wf s"
  shows "(shkey_verify (Some s) crc (Some k) stamp = 0 \<longleftrightarrow>
      shkey_cert (Some k) crc stamp = Some s) \<and>
    shkey_verify (Some s) crc None stamp = SHERR_INVAL \<and>
    shkey_verify None crc key stamp = SHERR_INVAL"
proof -
  obtain c where c: "shkey_cert (Some k) crc stamp = Some c" "shkey_wf c"
    by (simp add: shkey_cert_def Let_def)
  with assms have "shkey_verify (Some s) crc (Some k) stamp = 0 \<longleftrightarrow>
      shkey_cert (Some k) crc stamp = Some s"
    by (simp add: shkey_verify_def shkey_cmp_iff const_simps)
  then show ?thesis
    by (simp add: shkey_verify_def shkey_cmp_def shkey_cert_def split: option.split)
qed

theorem shkey_verify_iff_witness:
  "shkey_verify (shkey_cert (Some shkey_blank) 1 0) 1 (Some shkey_blank) 0 = 0"
proof -
  obtain c where c: "shkey_cert (Some shkey_blank) 1 0 = Some c" "shkey_wf c"
    by (simp add: shkey_cert_def Let_def)
  then show ?thesis using shkey_verify_iff [OF c(2), of 1 shkey_blank 0] by simp
qed

end
