(* ===== verification/Share_Map.thy ===== *)
theory Share_Map
  imports Share_Buf Share_Key
begin

text \<open>
  The hash map of \<^verbatim>\<open>share-lib/mem/shmem_map.c\<close>: lookup, insertion with table
  growth, removal into the recycle list, iteration, and the flat serialised
  form (\<open>shmap_print\<close>, \<open>shmap_load\<close>).

  A bucket's linked list of entries is a list.  A stored value is either the
  caller's own pointer (\<open>Ref\<close>, an address) or a block the map allocated
  (\<open>Own\<close>); what the caller's memory holds is an argument of the operations that
  read it, so that the aliasing between a map and its caller stays visible.
\<close>

section \<open>Data\<close>

datatype mval = Ref nat | Own "byte list"

record entry =
  ent_hash :: u32
  ent_key :: "shkey ptr"
  ent_val :: "mval ptr"
  ent_sz :: nat
  ent_flag :: u32

record shmap =
  map_array :: "entry list list"
  map_count :: u32
  map_max :: u32
  map_free :: "entry list"

definition SHMAP_ALLOC :: u32 where "SHMAP_ALLOC = 1"
definition SHMAP_STRING :: u32 where "SHMAP_STRING = 2 ^ 10"
definition SHMAP_BINARY :: u32 where "SHMAP_BINARY = 2 ^ 13"
definition INITIAL_MAX :: u32 where "INITIAL_MAX = 15"

text \<open>The sizes of \<open>shmap_t\<close>, \<open>shmap_entry_t\<close> and a pointer.\<close>

definition SHMAP_SIZE :: nat where "SHMAP_SIZE = 64"
definition SHMAP_ENTRY_SIZE :: nat where "SHMAP_ENTRY_SIZE = 48"
definition PTR_SIZE :: nat where "PTR_SIZE = 8"

text \<open>The bucket array; the empty list is the \<open>NULL\<close> pointer of a request that is not met
  (an allocated array has at least one bucket).  \<open>shmap_init\<close> writes through the pointer to
  the new map without testing it.\<close>

definition alloc_array :: "libc \<Rightarrow> u32 \<Rightarrow> entry list list" where
  "alloc_array c mx =
     (if calloc_ok c ((unat mx + 1) * PTR_SIZE) then replicate (unat mx + 1) [] else [])"

definition shmap_init :: "libc \<Rightarrow> fault + shmap" where
  "shmap_init c =
     (if \<not> calloc_ok c SHMAP_SIZE then Inl NullDeref
      else Inr \<lparr>map_array = alloc_array c INITIAL_MAX, map_count = 0, map_max = INITIAL_MAX,
                map_free = []\<rparr>)"

section \<open>Hashing and lookup\<close>

definition shmap_hash_num :: "byte list \<Rightarrow> u32" where
  "shmap_hash_num key = foldl (\<lambda>hash p. hash * 33 + ucast p) 0 key"

fun chain_find :: "u32 \<Rightarrow> shkey \<Rightarrow> entry list \<Rightarrow> nat" where
  "chain_find hash key [] = 0"
| "chain_find hash key (he # rest) =
     (if ent_hash he = hash \<and> map_option key_bytes (ent_key he) = Some (key_bytes key) then 0
      else Suc (chain_find hash key rest))"

text \<open>The scan of \<open>find_entry\<close>.  The result is the place the returned pointer designates:
  bucket and position in the chain; the position equals the chain's length when the pointer
  holds \<open>NULL\<close>.  With no value given, \<open>find_entry\<close> is this scan (\<open>find_entry_null\<close>).\<close>

definition find_scan :: "shmap \<Rightarrow> shkey ptr \<Rightarrow> fault + (nat \<times> nat) ptr" where
  "find_scan ht key =
     (case key of None \<Rightarrow> Inr None
      | Some k \<Rightarrow>
         (let hash = shmap_hash_num (key_bytes k);
              i = unat (hash AND map_max ht)
          in if map_array ht = [] then Inl NullDeref
             else if length (map_array ht) \<le> i then Inl OutOfBounds
             else Inr (Some (i, chain_find hash k (map_array ht ! i)))))"

text \<open>A missing key with a value gets a new entry: a recycled one, or a block that is written
  to without testing the pointer, as the copy of the key is.\<close>

definition find_entry :: "libc \<Rightarrow> shmap \<Rightarrow> shkey ptr \<Rightarrow> mval ptr \<Rightarrow> fault + (shmap \<times> nat \<times> nat) ptr" where
  "find_entry c ht key val =
     run_bind (find_scan ht key) (\<lambda>hep. case hep of None \<Rightarrow> Inr None
       | Some (i, j) \<Rightarrow>
           (let chain = map_array ht ! i in
            if j < length chain \<or> val = None then Inr (Some (ht, i, j))
            else if map_free ht = [] \<and> \<not> calloc_ok c SHMAP_ENTRY_SIZE then Inl NullDeref
            else run_bind (shkey_clone c key) (\<lambda>kp.
              (let he = \<lparr>ent_hash = shmap_hash_num (key_bytes (the key)), ent_key = kp, ent_val = val,
                         ent_sz = 0, ent_flag = 0\<rparr>
               in Inr (Some (ht\<lparr>map_array := (map_array ht)[i := chain @ [he]],
                                map_free := tl (map_free ht),
                                map_count := map_count ht + 1\<rparr>, i, j))))))"

definition shmap_get_ent :: "shmap ptr \<Rightarrow> shkey ptr \<Rightarrow> fault + (mval ptr \<times> u32)" where
  "shmap_get_ent htp key =
     (case htp of None \<Rightarrow> Inr (None, 0)
      | Some ht \<Rightarrow>
         run_bind (find_scan ht key) (\<lambda>hep. case hep of
            None \<Rightarrow> Inl NullDeref
          | Some (i, j) \<Rightarrow>
              if j < length (map_array ht ! i)
              then Inr (ent_val (map_array ht ! i ! j), ent_flag (map_array ht ! i ! j))
              else Inr (None, 0)))"

definition shmap_get :: "shmap ptr \<Rightarrow> shkey ptr \<Rightarrow> fault + mval ptr" where
  "shmap_get htp key = run_bind (shmap_get_ent htp key) (\<lambda>(v, fl). Inr v)"

definition shmap_get_ptr :: "shmap ptr \<Rightarrow> shkey ptr \<Rightarrow> fault + mval ptr" where
  "shmap_get_ptr h key = shmap_get h key"

definition shmap_get_str :: "shmap ptr \<Rightarrow> shkey ptr \<Rightarrow> fault + mval ptr" where
  "shmap_get_str h key = shmap_get h key"

definition shmap_get_void :: "shmap ptr \<Rightarrow> shkey ptr \<Rightarrow> fault + mval ptr" where
  "shmap_get_void h key = shmap_get h key"

section \<open>Iteration\<close>

record shmap_index =
  idx_this :: "entry ptr"
  idx_next :: "entry list"
  idx_index :: nat

function shmap_seek :: "shmap \<Rightarrow> entry list \<Rightarrow> nat \<Rightarrow> fault + shmap_index ptr" where
  "shmap_seek ht [] index =
     (if unat (map_max ht) < index then Inr None
      else if map_array ht = [] then Inl NullDeref
      else if length (map_array ht) \<le> index then Inl OutOfBounds
      else shmap_seek ht (map_array ht ! index) (index + 1))"
| "shmap_seek ht (e # es) index =
     Inr (Some \<lparr>idx_this = Some e, idx_next = es, idx_index = index\<rparr>)"
  by pat_completeness auto
termination
  by (relation "measures [\<lambda>(ht, es, index). unat (map_max ht) + 1 - index]") auto

definition shmap_next :: "shmap \<Rightarrow> shmap_index \<Rightarrow> fault + shmap_index ptr" where
  "shmap_next ht hi = shmap_seek ht (idx_next hi) (idx_index hi)"

definition shmap_first :: "shmap ptr \<Rightarrow> fault + shmap_index ptr" where
  "shmap_first htp =
     (case htp of None \<Rightarrow> Inr None
      | Some ht \<Rightarrow> shmap_next ht \<lparr>idx_this = None, idx_next = [], idx_index = 0\<rparr>)"

lemma shmap_seek_measure:
  "shmap_seek ht es index = Inr (Some hi) \<Longrightarrow>
     (idx_index hi = index \<and> length (idx_next hi) < length es) \<or>
     (index < idx_index hi \<and> idx_index hi \<le> unat (map_max ht) + 1)"
  by (induction ht es index rule: shmap_seek.induct) (auto split: if_splits)

text \<open>The loop \<open>for (hi = shmap_first(ht); hi; hi = shmap_next(hi))\<close>, as the list of the
  entries it visits.\<close>

function shmap_walk :: "shmap \<Rightarrow> shmap_index ptr \<Rightarrow> fault + entry list" where
  "shmap_walk ht None = Inr []"
| "shmap_walk ht (Some hi) =
     run_bind (shmap_next ht hi)
       (\<lambda>hi'. run_bind (shmap_walk ht hi')
          (\<lambda>es. Inr ((case idx_this hi of None \<Rightarrow> [] | Some e \<Rightarrow> [e]) @ es)))"
  by pat_completeness auto
termination
proof (relation "inv_image (less_than <*lex*> (less_than <*lex*> less_than))
    (\<lambda>(ht, hi). case hi of None \<Rightarrow> (0 :: nat, 0 :: nat, 0 :: nat)
      | Some h \<Rightarrow> (unat (map_max ht) + 2 - idx_index h, length (idx_next h), 1))")
  fix ht hi x
  assume "shmap_next ht hi = Inr x"
  then show "((ht, x), (ht, Some hi)) \<in> inv_image (less_than <*lex*> (less_than <*lex*> less_than))
    (\<lambda>(ht, hi). case hi of None \<Rightarrow> (0 :: nat, 0 :: nat, 0 :: nat)
      | Some h \<Rightarrow> (unat (map_max ht) + 2 - idx_index h, length (idx_next h), 1))"
    by (cases x) (auto simp: shmap_next_def dest!: shmap_seek_measure)
qed auto

definition shmap_entries :: "shmap \<Rightarrow> fault + entry list" where
  "shmap_entries ht = run_bind (shmap_first (Some ht)) (shmap_walk ht)"

definition shmap_self :: "shmap_index \<Rightarrow> (shkey ptr \<times> mval ptr \<times> nat \<times> u32) ptr" where
  "shmap_self hi = map_option (\<lambda>e. (ent_key e, ent_val e, ent_sz e, ent_flag e)) (idx_this hi)"

definition shmap_get_ptr_list :: "libc \<Rightarrow> shmap ptr \<Rightarrow> fault + mval list ptr" where
  "shmap_get_ptr_list c htp =
     (case htp of None \<Rightarrow> Inr None
      | Some ht \<Rightarrow>
        if \<not> calloc_ok c (unat (map_count ht + 1) * PTR_SIZE) then Inr None
        else run_bind (shmap_entries ht)
          (\<lambda>es. Inr (Some (List.map_filter
             (\<lambda>e. if ent_flag e AND SHMAP_BINARY = 0 then None else ent_val e) es))))"

section \<open>Growth, insertion and removal\<close>

definition expand_link :: "u32 \<Rightarrow> entry \<Rightarrow> entry list list \<Rightarrow> entry list list" where
  "expand_link new_max e new_array =
     (let i = unat (ent_hash e AND new_max) in new_array[i := e # new_array ! i])"

definition expand_array :: "libc \<Rightarrow> shmap \<Rightarrow> fault + shmap" where
  "expand_array c ht =
     (let new_max = map_max ht * 2; new_array = alloc_array c new_max in
      run_bind (shmap_entries ht)
        (\<lambda>es. if new_array = [] \<and> es \<noteq> [] then Inl NullDeref
              else Inr (ht\<lparr>map_array := fold (expand_link new_max) es new_array,
                           map_max := new_max\<rparr>)))"

text \<open>\<open>free\<close> of a stored value: freeing the caller's pointer is a fault.\<close>

definition free_val :: "mval ptr \<Rightarrow> fault + unit" where
  "free_val v = (case v of Some (Ref _) \<Rightarrow> Inl BadFree | _ \<Rightarrow> Inr ())"

definition free_ent :: "entry \<Rightarrow> fault + unit" where
  "free_ent e = (if ent_flag e AND SHMAP_ALLOC \<noteq> 0 then free_val (ent_val e) else Inr ())"

definition shmap_delete_at :: "shmap \<Rightarrow> nat \<Rightarrow> nat \<Rightarrow> fault + shmap" where
  "shmap_delete_at ht i j =
     (let chain = map_array ht ! i; old = chain ! j in
      run_bind (free_ent old)
        (\<lambda>_. Inr (ht\<lparr>map_array := (map_array ht)[i := take j chain @ drop (j + 1) chain],
                     map_free := old\<lparr>ent_key := None, ent_val := None, ent_flag := 0, ent_sz := 0\<rparr>
                                   # map_free ht,
                     map_count := map_count ht - 1\<rparr>)))"

definition shmap_replace_at :: "libc \<Rightarrow> shmap \<Rightarrow> nat \<Rightarrow> nat \<Rightarrow> u32 \<Rightarrow> mval \<Rightarrow> nat \<Rightarrow> fault + shmap" where
  "shmap_replace_at c ht i j map_flag data val_size =
     (let chain = map_array ht ! i; cur = chain ! j in
      run_bind (free_ent cur)
        (\<lambda>_. let ht' = ht\<lparr>map_array := (map_array ht)[i := chain[j :=
                   cur\<lparr>ent_flag := map_flag, ent_val := Some data, ent_sz := val_size\<rparr>]]\<rparr>
             in if map_max ht' < map_count ht' then expand_array c ht' else Inr ht'))"

definition shmap_copy_in :: "(nat \<Rightarrow> byte list) \<Rightarrow> u32 \<Rightarrow> nat ptr \<Rightarrow> nat \<Rightarrow> fault + mval ptr" where
  "shmap_copy_in mem map_flag val val_size =
     (if map_flag AND SHMAP_ALLOC \<noteq> 0
      then (case val of None \<Rightarrow> Inl NullDeref
            | Some a \<Rightarrow> run_bind (mem_read (mem a) 0 val_size) (\<lambda>bs. Inr (Some (Own bs))))
      else Inr (map_option Ref val))"

definition shmap_set_ent ::
    "libc \<Rightarrow> (nat \<Rightarrow> byte list) \<Rightarrow> shmap ptr \<Rightarrow> shkey ptr \<Rightarrow> u32 \<Rightarrow> nat ptr \<Rightarrow> nat \<Rightarrow>
      fault + (int \<times> shmap ptr)" where
  "shmap_set_ent c mem htp key flag0 val size0 =
     (case (htp, key) of
        (Some ht, Some k) \<Rightarrow>
          (let flag1 = (if val = None then 0 else flag0);
               val_size = (if val = None then 0 else size0);
               map_flag = (if val_size = 0 then flag1 OR NOT SHMAP_ALLOC else flag1)
           in if map_flag AND SHMAP_ALLOC \<noteq> 0 \<and> \<not> calloc_ok c val_size
              then Inr (SHERR_NOMEM, htp)
              else run_bind (shmap_copy_in mem map_flag val val_size)
                (\<lambda>data. run_bind (find_entry c ht key data) (\<lambda>hep. case hep of
                    None \<Rightarrow> Inr (SHERR_INVAL, htp)
                  | Some (h1, i, j) \<Rightarrow>
                      if j < length (map_array h1 ! i)
                      then (case data of
                              None \<Rightarrow> run_bind (shmap_delete_at h1 i j) (\<lambda>h. Inr (0, Some h))
                            | Some d \<Rightarrow> run_bind (shmap_replace_at c h1 i j map_flag d val_size)
                                          (\<lambda>h. Inr (0, Some h)))
                      else Inr (0, Some h1))))
      | _ \<Rightarrow> Inr (SHERR_INVAL, htp))"

definition shmap_set ::
    "libc \<Rightarrow> (nat \<Rightarrow> byte list) \<Rightarrow> shmap ptr \<Rightarrow> shkey ptr \<Rightarrow> nat ptr \<Rightarrow> fault + shmap ptr" where
  "shmap_set c mem htp key val = run_bind (shmap_set_ent c mem htp key 0 val 0) (\<lambda>(e, h). Inr h)"

definition shmap_unset ::
    "libc \<Rightarrow> (nat \<Rightarrow> byte list) \<Rightarrow> shmap ptr \<Rightarrow> shkey ptr \<Rightarrow> fault + shmap ptr" where
  "shmap_unset c mem htp name = shmap_set c mem htp name None"

definition shmap_set_astr ::
    "libc \<Rightarrow> (nat \<Rightarrow> byte list) \<Rightarrow> shmap ptr \<Rightarrow> shkey ptr \<Rightarrow> nat ptr \<Rightarrow> fault + shmap ptr" where
  "shmap_set_astr c mem htp key val =
     (if htp = None \<or> key = None then Inr htp
      else case val of None \<Rightarrow> shmap_set c mem htp key None
        | Some a \<Rightarrow> run_bind (c_strlen (mem a)) (\<lambda>n.
            run_bind (shmap_set_ent c mem htp key (SHMAP_STRING OR SHMAP_ALLOC) val (n + 1))
              (\<lambda>(e, h). Inr h)))"

definition shmap_set_str ::
    "libc \<Rightarrow> (nat \<Rightarrow> byte list) \<Rightarrow> shmap ptr \<Rightarrow> shkey ptr \<Rightarrow> nat ptr \<Rightarrow> fault + shmap ptr" where
  "shmap_set_str c mem htp key val =
     (if htp = None then Inr htp
      else case val of None \<Rightarrow> shmap_set c mem htp key None
        | Some a \<Rightarrow> run_bind (c_strlen (mem a)) (\<lambda>n.
            run_bind (shmap_set_ent c mem htp key SHMAP_STRING val (n + 1)) (\<lambda>(e, h). Inr h)))"

definition shmap_set_ptr ::
    "libc \<Rightarrow> (nat \<Rightarrow> byte list) \<Rightarrow> shmap ptr \<Rightarrow> shkey ptr \<Rightarrow> nat ptr \<Rightarrow> fault + shmap ptr" where
  "shmap_set_ptr c mem htp key val =
     (if htp = None then Inr htp
      else run_bind (shmap_set_ent c mem htp key SHMAP_BINARY val 0) (\<lambda>(e, h). Inr h))"

definition shmap_set_bin ::
    "libc \<Rightarrow> (nat \<Rightarrow> byte list) \<Rightarrow> shmap ptr \<Rightarrow> shkey ptr \<Rightarrow> nat ptr \<Rightarrow> nat \<Rightarrow> fault + shmap ptr" where
  "shmap_set_bin c mem htp key val n =
     (if htp = None then Inr htp
      else run_bind (shmap_set_ent c mem htp key SHMAP_BINARY val n) (\<lambda>(e, h). Inr h))"

definition shmap_set_abin ::
    "libc \<Rightarrow> (nat \<Rightarrow> byte list) \<Rightarrow> shmap ptr \<Rightarrow> shkey ptr \<Rightarrow> nat ptr \<Rightarrow> nat \<Rightarrow> fault + shmap ptr" where
  "shmap_set_abin c mem htp key val n =
     (if htp = None then Inr htp
      else run_bind (shmap_set_ent c mem htp key (SHMAP_BINARY OR SHMAP_ALLOC) val n)
             (\<lambda>(e, h). Inr h))"

definition shmap_set_void ::
    "libc \<Rightarrow> (nat \<Rightarrow> byte list) \<Rightarrow> shmap ptr \<Rightarrow> shkey ptr \<Rightarrow> nat ptr \<Rightarrow> nat \<Rightarrow> fault + shmap ptr" where
  "shmap_set_void c mem htp key val n = shmap_set_abin c mem htp key val n"

definition shmap_count :: "shmap ptr \<Rightarrow> u32" where
  "shmap_count htp = (case htp of None \<Rightarrow> 0 | Some ht \<Rightarrow> map_count ht)"







section \<open>Invariant and abstraction\<close>

definition val_ok :: "entry \<Rightarrow> bool" where
  "val_ok e \<longleftrightarrow>
     (case ent_val e of None \<Rightarrow> False
      | Some (Ref a) \<Rightarrow> ent_flag e AND SHMAP_ALLOC = 0
      | Some (Own bs) \<Rightarrow> ent_flag e AND SHMAP_ALLOC \<noteq> 0 \<and> length bs = ent_sz e)"

definition ent_ok :: "u32 \<Rightarrow> nat \<Rightarrow> entry \<Rightarrow> bool" where
  "ent_ok mx i e \<longleftrightarrow>
     (case ent_key e of None \<Rightarrow> False
      | Some k \<Rightarrow> shkey_wf k \<and> ent_hash e = shmap_hash_num (key_bytes k)) \<and>
     unat (ent_hash e AND mx) = i \<and> val_ok e"

definition chain_ok :: "u32 \<Rightarrow> nat \<Rightarrow> entry list \<Rightarrow> bool" where
  "chain_ok mx i es \<longleftrightarrow> list_all (ent_ok mx i) es \<and> distinct (map ent_key es)"

definition shmap_inv :: "shmap \<Rightarrow> bool" where
  "shmap_inv ht \<longleftrightarrow>
     length (map_array ht) = unat (map_max ht) + 1 \<and>
     (\<forall>i < length (map_array ht). chain_ok (map_max ht) i (map_array ht ! i)) \<and>
     map_count ht = of_nat (sum_list (map length (map_array ht)))"

type_synonym mdata = "mval ptr \<times> nat \<times> u32"

definition ent_data :: "entry \<Rightarrow> mdata" where
  "ent_data e = (ent_val e, ent_sz e, ent_flag e)"

definition chain_lookup :: "entry list \<Rightarrow> shkey \<Rightarrow> mdata option" where
  "chain_lookup es k = map_option ent_data (find (\<lambda>e. ent_key e = Some k) es)"

definition shmap_abs :: "shmap \<Rightarrow> shkey \<Rightarrow> mdata option" where
  "shmap_abs ht = chain_lookup (concat (map_array ht))"

abbreviation bucket_of :: "shmap \<Rightarrow> shkey \<Rightarrow> nat" where
  "bucket_of ht k \<equiv> unat (shmap_hash_num (key_bytes k) AND map_max ht)"

subsection \<open>Chains\<close>

lemma chain_lookup_simps [simp]:
  "chain_lookup [] k = None"
  "chain_lookup (e # es) k = (if ent_key e = Some k then Some (ent_data e) else chain_lookup es k)"
  by (simp_all add: chain_lookup_def)

lemma chain_lookup_append:
  "chain_lookup (xs @ ys) k = (case chain_lookup xs k of None \<Rightarrow> chain_lookup ys k | Some d \<Rightarrow> Some d)"
  by (induction xs) auto

lemma chain_lookup_None: "chain_lookup es k = None \<longleftrightarrow> Some k \<notin> ent_key ` set es"
  by (induction es) auto

lemma chain_lookup_Some:
  "distinct (map ent_key es) \<Longrightarrow>
     chain_lookup es k = Some d \<longleftrightarrow> (\<exists>e \<in> set es. ent_key e = Some k \<and> ent_data e = d)"
  by (induction es) (auto simp: image_iff)

lemma chain_find_ok:
  assumes "chain_ok mx i es" and "shkey_wf k"
  shows "chain_find (shmap_hash_num (key_bytes k)) k es =
    length (takeWhile (\<lambda>e. ent_key e \<noteq> Some k) es)"
  using assms(1)
proof (induction es)
  case Nil
  then show ?case by simp
next
  case (Cons e es)
  then obtain k' where k': "ent_key e = Some k'" "shkey_wf k'"
    "ent_hash e = shmap_hash_num (key_bytes k')"
    by (auto simp: chain_ok_def ent_ok_def split: option.splits)
  have "chain_ok mx i es" using Cons.prems by (simp add: chain_ok_def)
  with Cons.IH k' show ?case
    by (auto simp: key_bytes_inj [OF k'(2) assms(2)])
qed

lemma chain_find_nth:
  assumes "chain_ok mx i es" "shkey_wf k"
    and "chain_find (shmap_hash_num (key_bytes k)) k es < length es"
  shows "ent_key (es ! chain_find (shmap_hash_num (key_bytes k)) k es) = Some k"
  using assms(3) nth_length_takeWhile [of "\<lambda>e. ent_key e \<noteq> Some k" es]
  unfolding chain_find_ok [OF assms(1,2)] by simp

lemma chain_find_less:
  assumes "chain_ok mx i es" "shkey_wf k"
  shows "chain_find (shmap_hash_num (key_bytes k)) k es < length es \<longleftrightarrow>
    Some k \<in> ent_key ` set es"
proof -
  have "length (takeWhile (\<lambda>e. ent_key e \<noteq> Some k) es) < length es \<longleftrightarrow>
      takeWhile (\<lambda>e. ent_key e \<noteq> Some k) es \<noteq> es"
    by (metis length_takeWhile_le nat_less_le takeWhile_eq_take take_all)
  then show ?thesis
    unfolding chain_find_ok [OF assms] takeWhile_eq_all_conv by force
qed

lemma chain_lookup_nth:
  "distinct (map ent_key es) \<Longrightarrow> j < length es \<Longrightarrow> ent_key (es ! j) = Some k \<Longrightarrow>
     chain_lookup es k = Some (ent_data (es ! j))"
  by (auto simp: chain_lookup_Some)

lemma chain_lookup_update:
  assumes "distinct (map ent_key es)" "j < length es" "ent_key (es ! j) = Some k0"
    "ent_key e = Some k0"
  shows "chain_lookup (es[j := e]) = (chain_lookup es)(k0 \<mapsto> ent_data e)"
  using assms
proof (induction es arbitrary: j)
  case Nil
  then show ?case by simp
next
  case (Cons x es)
  show ?case
  proof (cases j)
    case 0
    with Cons.prems show ?thesis by (auto simp: fun_eq_iff)
  next
    case (Suc m)
    with Cons.prems have "ent_key x \<noteq> Some k0" by (metis distinct.simps(2) length_map list.simps(9)
      nth_Cons_Suc nth_map nth_mem Suc_less_eq length_Cons)
    moreover have "chain_lookup (es[m := e]) = (chain_lookup es)(k0 \<mapsto> ent_data e)"
      using Suc Cons.prems by (intro Cons.IH) auto
    ultimately show ?thesis using Suc by (auto simp: fun_eq_iff)
  qed
qed

lemma chain_lookup_delete:
  assumes "distinct (map ent_key es)" "j < length es" "ent_key (es ! j) = Some k0"
  shows "chain_lookup (take j es @ drop (j + 1) es) = (chain_lookup es)(k0 := None)"
  using assms
proof (induction es arbitrary: j)
  case Nil
  then show ?case by simp
next
  case (Cons x es)
  show ?case
  proof (cases j)
    case 0
    with Cons.prems have "chain_lookup es k0 = None" by (auto simp: chain_lookup_None)
    with 0 Cons.prems show ?thesis by (auto simp: fun_eq_iff)
  next
    case (Suc m)
    with Cons.prems have "ent_key x \<noteq> Some k0" by (metis distinct.simps(2) length_map list.simps(9)
      nth_Cons_Suc nth_map nth_mem Suc_less_eq length_Cons)
    moreover have "chain_lookup (take m es @ drop (m + 1) es) = (chain_lookup es)(k0 := None)"
      using Suc Cons.prems by (intro Cons.IH) auto
    ultimately show ?thesis using Suc by (auto simp: fun_eq_iff)
  qed
qed

lemma chain_ok_snoc:
  "chain_ok mx i es \<Longrightarrow> ent_ok mx i e \<Longrightarrow> ent_key e \<notin> ent_key ` set es \<Longrightarrow> chain_ok mx i (es @ [e])"
  by (auto simp: chain_ok_def)

lemma chain_ok_update:
  assumes "chain_ok mx i es" "j < length es" "ent_key e = ent_key (es ! j)" "ent_ok mx i e"
  shows "chain_ok mx i (es[j := e])"
proof -
  have "map ent_key (es[j := e]) = map ent_key es"
    using assms(2,3) by (simp add: map_update list_update_same_conv)
  moreover have "list_all (ent_ok mx i) (es[j := e])"
    using assms(1,4) by (auto simp: chain_ok_def list_all_iff dest!: set_update_subset_insert [THEN subsetD])
  ultimately show ?thesis using assms(1) by (simp add: chain_ok_def)
qed

lemma chain_ok_delete:
  assumes "chain_ok mx i es"
  shows "chain_ok mx i (take j es @ drop (j + 1) es)"
proof -
  let ?ks = "map ent_key es"
  have d: "distinct ?ks" using assms by (simp add: chain_ok_def)
  then have "distinct (take j ?ks @ drop (j + 1) ?ks)"
    using set_take_disj_set_drop_if_distinct [OF d, of j "j + 1"] by simp
  then have "distinct (map ent_key (take j es @ drop (j + 1) es))"
    by (simp only: map_append take_map drop_map)
  with assms show ?thesis
    by (auto simp: chain_ok_def list_all_iff dest: in_set_takeD in_set_dropD)
qed

subsection \<open>The whole table\<close>

lemma hash_index_less: "length (map_array ht) = unat (map_max ht) + 1 \<Longrightarrow>
    unat (h AND map_max ht) < length (map_array ht)"
  using word_and_le1 [of h "map_max ht"] by (simp add: word_le_nat_alt)

lemma shmap_inv_chain: "shmap_inv ht \<Longrightarrow> i < length (map_array ht) \<Longrightarrow>
    chain_ok (map_max ht) i (map_array ht ! i)"
  by (simp add: shmap_inv_def)

lemma bucket_less [simp]: "shmap_inv ht \<Longrightarrow> bucket_of ht k < length (map_array ht)"
  using hash_index_less [of ht] unfolding shmap_inv_def by blast

lemma chain_lookup_concat:
  "i < length xss \<Longrightarrow> (\<And>j. j < length xss \<Longrightarrow> j \<noteq> i \<Longrightarrow> chain_lookup (xss ! j) k = None) \<Longrightarrow>
     chain_lookup (concat xss) k = chain_lookup (xss ! i) k"
proof (induction xss arbitrary: i)
  case Nil
  then show ?case by simp
next
  case (Cons xs xss)
  show ?case
  proof (cases i)
    case 0
    have "chain_lookup (xss ! j) k = None" if "j < length xss" for j
      using Cons.prems(2) [of "Suc j"] that 0 by simp
    then have "chain_lookup (concat xss) k = None"
      by (force simp: chain_lookup_None in_set_conv_nth)
    with 0 show ?thesis by (simp add: chain_lookup_append split: option.split)
  next
    case (Suc m)
    have "chain_lookup (concat xss) k = chain_lookup (xss ! m) k"
    proof (rule Cons.IH)
      show "m < length xss" using Cons.prems(1) Suc by simp
      show "chain_lookup (xss ! j) k = None" if "j < length xss" "j \<noteq> m" for j
        using Cons.prems(2) [of "Suc j"] that Suc by simp
    qed
    moreover have "chain_lookup xs k = None"
      using Cons.prems(2) [of 0] Suc by simp
    ultimately show ?thesis using Suc by (simp add: chain_lookup_append)
  qed
qed

lemma chain_other_bucket:
  assumes "chain_ok mx i es" and "i \<noteq> unat (shmap_hash_num (key_bytes k) AND mx)"
  shows "chain_lookup es k = None"
  using assms by (force simp: chain_lookup_None chain_ok_def list_all_iff ent_ok_def split: option.splits)

lemma shmap_abs_bucket:
  assumes "shmap_inv ht"
  shows "shmap_abs ht k = chain_lookup (map_array ht ! bucket_of ht k) k"
  unfolding shmap_abs_def
proof (rule chain_lookup_concat)
  show "bucket_of ht k < length (map_array ht)" using assms by simp
  show "chain_lookup (map_array ht ! j) k = None"
    if "j < length (map_array ht)" "j \<noteq> bucket_of ht k" for j
    using chain_other_bucket [OF shmap_inv_chain [OF assms that(1)] that(2)] .
qed

lemma shmap_abs_wf: "shmap_inv ht \<Longrightarrow> shmap_abs ht k = Some d \<Longrightarrow> shkey_wf k"
  unfolding shmap_abs_bucket
  using shmap_inv_chain [of ht "bucket_of ht k"]
  by (auto simp: chain_lookup_Some chain_ok_def list_all_iff ent_ok_def split: option.splits)

lemma sum_lengths_update:
  "i < length xss \<Longrightarrow>
     sum_list (map length (xss[i := ys])) + length (xss ! i) = sum_list (map length xss) + length ys"
  by (induction xss arbitrary: i) (auto split: nat.split simp: nth_Cons)

text \<open>Replacing one bucket by another well-formed one.\<close>

lemma shmap_inv_update:
  assumes "shmap_inv ht" "i < length (map_array ht)" "chain_ok (map_max ht) i es"
    and "map_max ht' = map_max ht" "map_array ht' = (map_array ht)[i := es]"
    and "map_count ht' + of_nat (length (map_array ht ! i)) = map_count ht + of_nat (length es)"
  shows "shmap_inv ht'"
proof -
  have "of_nat (sum_list (map length (map_array ht'))) + of_nat (length (map_array ht ! i)) =
      (of_nat (sum_list (map length (map_array ht))) + of_nat (length es) :: u32)"
    using sum_lengths_update [OF assms(2), of es] unfolding assms(5) by (metis of_nat_add)
  moreover have "map_count ht = of_nat (sum_list (map length (map_array ht)))"
    using assms(1) by (simp only: shmap_inv_def)
  ultimately have "map_count ht' = of_nat (sum_list (map length (map_array ht')))"
    using assms(6) by (metis add_right_cancel)
  moreover have "chain_ok (map_max ht) j ((map_array ht)[i := es] ! j)" if "j < length (map_array ht)" for j
    using assms(3) shmap_inv_chain [OF assms(1) that] that by (cases "j = i") auto
  ultimately show ?thesis
    using assms(1,4,5) by (simp add: shmap_inv_def)
qed

lemma shmap_abs_update:
  assumes "shmap_inv ht" "shmap_inv ht'" "map_max ht' = map_max ht"
    and "map_array ht' = (map_array ht)[bucket_of ht k0 := es]"
    and "chain_lookup es = (chain_lookup (map_array ht ! bucket_of ht k0))(k0 := v)"
  shows "shmap_abs ht' = (shmap_abs ht)(k0 := v)"
proof
  fix k
  show "shmap_abs ht' k = ((shmap_abs ht)(k0 := v)) k"
    using assms bucket_less [OF assms(1), of k0]
    by (cases "bucket_of ht k = bucket_of ht k0")
      (auto simp: shmap_abs_bucket [OF assms(1)] shmap_abs_bucket [OF assms(2)])
qed

subsection \<open>Iteration visits every entry once\<close>

lemma shmap_seek_walk:
  assumes "length (map_array ht) = unat (map_max ht) + 1" "index \<le> unat (map_max ht) + 1"
  shows "run_bind (shmap_seek ht es index) (shmap_walk ht) =
    Inr (es @ concat (drop index (map_array ht)))"
  using assms(2)
proof (induction "length es + length (concat (drop index (map_array ht))) +
    (unat (map_max ht) + 1 - index)" arbitrary: es index rule: less_induct)
  case less
  show ?case
  proof (cases es)
    case (Cons e es')
    have "run_bind (shmap_seek ht es' index) (shmap_walk ht) =
        Inr (es' @ concat (drop index (map_array ht)))"
      using Cons less.prems by (intro less.hyps) simp_all
    then show ?thesis
      using Cons by (auto simp: shmap_next_def run_bind_eq_Inr)
  next
    case Nil
    show ?thesis
    proof (cases "unat (map_max ht) < index")
      case True
      with Nil less.prems assms(1) show ?thesis by simp
    next
      case False
      then have lt: "index < length (map_array ht)" using assms(1) by simp
      then have drop: "drop index (map_array ht) = map_array ht ! index # drop (index + 1) (map_array ht)"
        by (simp add: Cons_nth_drop_Suc)
      have "run_bind (shmap_seek ht (map_array ht ! index) (index + 1)) (shmap_walk ht) =
          Inr (map_array ht ! index @ concat (drop (index + 1) (map_array ht)))"
      proof (rule less.hyps)
        show "length (map_array ht ! index) + length (concat (drop (index + 1) (map_array ht))) +
            (unat (map_max ht) + 1 - (index + 1))
          < length es + length (concat (drop index (map_array ht))) + (unat (map_max ht) + 1 - index)"
          unfolding drop using Nil False by simp
        show "index + 1 \<le> unat (map_max ht) + 1" using False by simp
      qed
      moreover have "map_array ht \<noteq> []" using lt by auto
      ultimately show ?thesis using Nil False lt drop by simp
    qed
  qed
qed

lemma shmap_entries_concat:
  "length (map_array ht) = unat (map_max ht) + 1 \<Longrightarrow> shmap_entries ht = Inr (concat (map_array ht))"
  using shmap_seek_walk [of ht 0 "[]"]
  by (simp add: shmap_entries_def shmap_first_def shmap_next_def)

subsection \<open>Growing the table\<close>

lemma chain_lookup_set_eq:
  assumes "distinct (map ent_key xs)" "distinct (map ent_key ys)" "set xs = set ys"
  shows "chain_lookup xs = chain_lookup ys"
proof
  fix k
  have "chain_lookup xs k = Some d \<longleftrightarrow> chain_lookup ys k = Some d" for d
    by (simp add: chain_lookup_Some assms)
  then show "chain_lookup xs k = chain_lookup ys k"
    by (metis option.exhaust)
qed

lemma distinct_concat_nth:
  assumes "\<And>i. i < length xss \<Longrightarrow> distinct (map f (xss ! i))"
    and "\<And>i j x y. i < length xss \<Longrightarrow> j < length xss \<Longrightarrow> x \<in> set (xss ! i) \<Longrightarrow> y \<in> set (xss ! j) \<Longrightarrow>
      f x = f y \<Longrightarrow> i = j"
  shows "distinct (map f (concat xss))"
  using assms
proof (induction xss)
  case Nil
  then show ?case by simp
next
  case (Cons xs xss)
  have 1: "distinct (map f (concat xss))"
  proof (rule Cons.IH)
    show "distinct (map f (xss ! i))" if "i < length xss" for i
      using Cons.prems(1) [of "Suc i"] that by simp
    show "i = j" if "i < length xss" "j < length xss" "x \<in> set (xss ! i)" "y \<in> set (xss ! j)" "f x = f y"
      for i j x y
      using Cons.prems(2) [of "Suc i" "Suc j" x y] that by simp
  qed
  have "f x \<noteq> f y" if "x \<in> set xs" "y \<in> set ys" "ys \<in> set xss" for x y ys
  proof -
    obtain j where "j < length xss" "xss ! j = ys"
      using \<open>ys \<in> set xss\<close> unfolding in_set_conv_nth by blast
    then show ?thesis using Cons.prems(2) [of 0 "Suc j" x y] that by auto
  qed
  then have "f ` set xs \<inter> f ` set (concat xss) = {}" by fastforce
  with 1 Cons.prems(1) [of 0] show ?case by simp
qed

lemma shmap_inv_entry:
  "shmap_inv ht \<Longrightarrow> e \<in> set (concat (map_array ht)) \<Longrightarrow>
     ent_ok (map_max ht) (unat (ent_hash e AND map_max ht)) e"
proof -
  assume inv: "shmap_inv ht" and "e \<in> set (concat (map_array ht))"
  then obtain es where "es \<in> set (map_array ht)" and e: "e \<in> set es" by auto
  then obtain i where i: "i < length (map_array ht)" "map_array ht ! i = es"
    unfolding in_set_conv_nth by blast
  have "ent_ok (map_max ht) i e"
    using shmap_inv_chain [OF inv i(1)] e i(2) by (simp add: chain_ok_def list_all_iff)
  then show ?thesis by (simp add: ent_ok_def)
qed

lemma ent_ok_key_index:
  "ent_ok mx i x \<Longrightarrow> ent_ok mx j y \<Longrightarrow> ent_key x = ent_key y \<Longrightarrow> i = j"
  by (auto simp: ent_ok_def split: option.splits)

lemma shmap_inv_distinct:
  assumes "shmap_inv ht"
  shows "distinct (map ent_key (concat (map_array ht)))"
proof (rule distinct_concat_nth)
  show "distinct (map ent_key (map_array ht ! i))" if "i < length (map_array ht)" for i
    using shmap_inv_chain [OF assms that] by (simp add: chain_ok_def)
  show "i = j" if "i < length (map_array ht)" "j < length (map_array ht)"
    "x \<in> set (map_array ht ! i)" "y \<in> set (map_array ht ! j)" "ent_key x = ent_key y" for i j x y
    using shmap_inv_chain [OF assms that(1)] shmap_inv_chain [OF assms that(2)] that(3-5)
    by (auto simp: chain_ok_def list_all_iff intro: ent_ok_key_index)
qed

lemma expand_fold_nth:
  "i < length arr \<Longrightarrow> fold (expand_link m) es arr ! i =
     rev (filter (\<lambda>e. unat (ent_hash e AND m) = i) es) @ arr ! i"
proof (induction es arbitrary: arr)
  case Nil
  then show ?case by simp
next
  case (Cons e es)
  then show ?case
    by (simp add: expand_link_def Let_def nth_list_update)
qed

lemma expand_fold_length [simp]: "length (fold (expand_link m) es arr) = length arr"
  by (induction es arbitrary: arr) (simp_all add: expand_link_def Let_def)

lemma expand_fold_total:
  "length arr = unat m + 1 \<Longrightarrow>
     sum_list (map length (fold (expand_link m) es arr)) = sum_list (map length arr) + length es"
proof (induction es arbitrary: arr)
  case Nil
  then show ?case by simp
next
  case (Cons e es)
  let ?i = "unat (ent_hash e AND m)"
  have "?i < length arr"
    using word_and_le1 [of "ent_hash e" m] Cons.prems by (simp add: word_le_nat_alt)
  then have "sum_list (map length (expand_link m e arr)) = sum_list (map length arr) + 1"
    using sum_lengths_update [of ?i arr "e # arr ! ?i"] by (simp add: expand_link_def Let_def)
  then show ?case
    using Cons.IH [of "expand_link m e arr"] Cons.prems by (simp add: expand_link_def Let_def)
qed

lemma ent_ok_rehash: "ent_ok mx i e \<Longrightarrow> ent_ok mx' (unat (ent_hash e AND mx')) e"
  by (auto simp: ent_ok_def)

lemma distinct_map_rev_filter: "distinct (map f es) \<Longrightarrow> distinct (map f (rev (filter P es)))"
  by (induction es) auto

text \<open>The requests a map makes for its own blocks are met.\<close>

definition map_libc :: "libc \<Rightarrow> bool" where
  "map_libc c \<longleftrightarrow> calloc_ok c SHMAP_SIZE \<and> calloc_ok c SHMAP_ENTRY_SIZE \<and> calloc_ok c SHKEY_SIZE \<and>
     (\<forall>mx :: u32. calloc_ok c ((unat mx + 1) * PTR_SIZE))"

lemma map_libc_total [simp]: "libc_total c \<Longrightarrow> map_libc c"
  by (simp add: map_libc_def)

lemma alloc_array_ok: "map_libc c \<Longrightarrow> alloc_array c mx = replicate (unat mx + 1) []"
  by (simp add: alloc_array_def map_libc_def)

lemma shkey_clone_ok [simp]: "map_libc c \<Longrightarrow> shkey_clone c (Some k) = Inr (Some k)"
  by (simp add: shkey_clone_def map_libc_def)

lemma expand_array_ok:
  assumes "shmap_inv ht" "map_libc c"
  shows "\<exists>ht'. expand_array c ht = Inr ht' \<and> shmap_inv ht' \<and> shmap_abs ht' = shmap_abs ht \<and>
    map_count ht' = map_count ht \<and> map_free ht' = map_free ht \<and> map_max ht' = map_max ht * 2"
proof -
  let ?m = "map_max ht * 2" and ?es = "concat (map_array ht)"
  let ?arr = "fold (expand_link ?m) ?es (alloc_array c ?m)"
  note arr = alloc_array_ok [OF assms(2), of ?m]
  let ?ht' = "ht\<lparr>map_array := ?arr, map_max := ?m\<rparr>"
  have len: "length ?arr = unat ?m + 1" by (simp add: arr)
  have nth: "?arr ! i = rev (filter (\<lambda>e. unat (ent_hash e AND ?m) = i) ?es)" if "i < length ?arr" for i
    using that by (simp add: expand_fold_nth arr del: replicate_Suc)
  have dk: "distinct (map ent_key ?es)" by (rule shmap_inv_distinct [OF assms(1)])
  have "chain_ok ?m i (?arr ! i)" if "i < length ?arr" for i
    unfolding nth [OF that] chain_ok_def
    using distinct_map_rev_filter [OF dk] ent_ok_rehash [OF shmap_inv_entry [OF assms(1)], of _ ?m]
    by (auto simp: list_all_iff)
  moreover have "map_count ht = of_nat (sum_list (map length ?arr))"
    using assms(1) by (simp add: shmap_inv_def expand_fold_total arr sum_list_replicate length_concat)
  ultimately have inv: "shmap_inv ?ht'" using len by (simp add: shmap_inv_def)
  have "set (concat ?arr) = set ?es"
  proof -
    have "set (concat ?arr) = (\<Union>i < length ?arr. set (?arr ! i))"
      by (auto simp: set_conv_nth [of ?arr] Bex_def)
    also have "\<dots> = {e \<in> set ?es. unat (ent_hash e AND ?m) < length ?arr}"
      by (auto simp: nth simp del: expand_fold_length)
    also have "\<dots> = set ?es"
      using hash_index_less [of ?ht'] len by auto
    finally show ?thesis .
  qed
  then have "shmap_abs ?ht' = shmap_abs ht"
    unfolding shmap_abs_def using chain_lookup_set_eq [OF shmap_inv_distinct [OF inv] dk] by simp
  moreover have "expand_array c ht = Inr ?ht'"
    using assms(1) by (simp add: expand_array_def Let_def shmap_entries_concat shmap_inv_def arr)
  ultimately show ?thesis using inv by auto
qed

subsection \<open>Lookup and update of one key\<close>

lemma find_entry_null:
  "find_entry c ht key None = run_bind (find_scan ht key) (\<lambda>p. Inr (map_option (\<lambda>(i, j). (ht, i, j)) p))"
  by (cases "find_scan ht key") (auto simp: find_entry_def split: option.split)

lemma find_scan_ok:
  assumes "shmap_inv ht"
  shows "find_scan ht (Some k) = Inr (Some (bucket_of ht k,
    chain_find (shmap_hash_num (key_bytes k)) k (map_array ht ! bucket_of ht k)))"
  using bucket_less [OF assms, of k] by (auto simp: find_scan_def Let_def)

lemma find_scan_present:
  assumes "shmap_inv ht" "shkey_wf k" "shmap_abs ht k = Some d"
  obtains j where "find_scan ht (Some k) = Inr (Some (bucket_of ht k, j))"
    "j < length (map_array ht ! bucket_of ht k)"
    "ent_key (map_array ht ! bucket_of ht k ! j) = Some k"
    "ent_data (map_array ht ! bucket_of ht k ! j) = d"
proof -
  let ?es = "map_array ht ! bucket_of ht k"
  let ?j = "chain_find (shmap_hash_num (key_bytes k)) k ?es"
  have ch: "chain_ok (map_max ht) (bucket_of ht k) ?es"
    by (rule shmap_inv_chain [OF assms(1) bucket_less [OF assms(1)]])
  have lk: "chain_lookup ?es k = Some d" using assms(3) unfolding shmap_abs_bucket [OF assms(1)] .
  then have "\<not> chain_lookup ?es k = None" by simp
  then have j: "?j < length ?es"
    unfolding chain_lookup_None chain_find_less [OF ch assms(2)] by simp
  note key = chain_find_nth [OF ch assms(2) j]
  have "ent_data (?es ! ?j) = d"
    using chain_lookup_nth [OF _ j key] ch lk by (simp add: chain_ok_def)
  with that j key find_scan_ok [OF assms(1)] show thesis by blast
qed

lemma find_entry_present:
  assumes "shmap_inv ht" "shkey_wf k" "shmap_abs ht k = Some d"
  obtains j where "find_entry c ht (Some k) v = Inr (Some (ht, bucket_of ht k, j))"
    "j < length (map_array ht ! bucket_of ht k)"
    "ent_key (map_array ht ! bucket_of ht k ! j) = Some k"
proof -
  obtain j where j: "find_scan ht (Some k) = Inr (Some (bucket_of ht k, j))"
    "j < length (map_array ht ! bucket_of ht k)"
    "ent_key (map_array ht ! bucket_of ht k ! j) = Some k"
    using find_scan_present [OF assms] by blast
  then have "find_entry c ht (Some k) v = Inr (Some (ht, bucket_of ht k, j))" by (simp add: find_entry_def)
  with j(2,3) that show thesis by blast
qed

lemma absent_chain:
  assumes "shmap_inv ht" "shkey_wf k" "shmap_abs ht k = None"
  shows "Some k \<notin> ent_key ` set (map_array ht ! bucket_of ht k)"
    and "chain_find (shmap_hash_num (key_bytes k)) k (map_array ht ! bucket_of ht k) =
      length (map_array ht ! bucket_of ht k)"
proof -
  let ?es = "map_array ht ! bucket_of ht k"
  show n: "Some k \<notin> ent_key ` set ?es"
    using assms(3) unfolding shmap_abs_bucket [OF assms(1)] chain_lookup_None .
  have ch: "chain_ok (map_max ht) (bucket_of ht k) ?es"
    by (rule shmap_inv_chain [OF assms(1) bucket_less [OF assms(1)]])
  have "takeWhile (\<lambda>e. ent_key e \<noteq> Some k) ?es = ?es"
    using n by (force simp: takeWhile_eq_all_conv)
  then show "chain_find (shmap_hash_num (key_bytes k)) k ?es = length ?es"
    unfolding chain_find_ok [OF ch assms(2)] by (rule arg_cong)
qed

lemma find_scan_absent:
  assumes "shmap_inv ht" "shkey_wf k" "shmap_abs ht k = None"
  shows "find_scan ht (Some k) = Inr (Some (bucket_of ht k, length (map_array ht ! bucket_of ht k)))"
  using absent_chain(2) [OF assms] by (simp add: find_scan_ok [OF assms(1)])

lemma find_entry_absent:
  assumes "shmap_inv ht" "shkey_wf k" "shmap_abs ht k = None"
  shows "find_entry c ht (Some k) None =
    Inr (Some (ht, bucket_of ht k, length (map_array ht ! bucket_of ht k)))"
  by (simp add: find_entry_null find_scan_absent [OF assms])

lemma shmap_get_ent_abs:
  assumes "shmap_inv ht" "shkey_wf k"
  shows "shmap_get_ent (Some ht) (Some k) =
    Inr (case shmap_abs ht k of None \<Rightarrow> (None, 0) | Some (v, n, fl) \<Rightarrow> (v, fl))"
proof (cases "shmap_abs ht k")
  case None
  with find_scan_absent [OF assms] show ?thesis by (simp add: shmap_get_ent_def)
next
  case (Some d)
  obtain j where "find_scan ht (Some k) = Inr (Some (bucket_of ht k, j))"
    "j < length (map_array ht ! bucket_of ht k)"
    "ent_data (map_array ht ! bucket_of ht k ! j) = d"
    using find_scan_present [OF assms Some] by blast
  with Some show ?thesis by (auto simp: shmap_get_ent_def ent_data_def)
qed

lemma ent_ok_free: "ent_ok mx i e \<Longrightarrow> free_ent e = Inr ()"
  by (auto simp: ent_ok_def val_ok_def free_ent_def free_val_def split: option.splits mval.splits)

lemma maybe_expand_ok:
  assumes "shmap_inv h" "map_libc c"
  shows "\<exists>h'. (if map_max h < map_count h then expand_array c h else Inr h) = Inr h' \<and> shmap_inv h' \<and>
    shmap_abs h' = shmap_abs h \<and> map_count h' = map_count h"
  using expand_array_ok [OF assms] assms by auto

text \<open>What \<open>shmap_set_ent\<close> keeps of a value given at address \<open>a\<close>.\<close>

definition stored_flag :: "u32 \<Rightarrow> nat \<Rightarrow> u32" where
  "stored_flag fl n = (if n = 0 then fl OR NOT SHMAP_ALLOC else fl)"

definition stored_val :: "(nat \<Rightarrow> byte list) \<Rightarrow> u32 \<Rightarrow> nat \<Rightarrow> nat \<Rightarrow> mval" where
  "stored_val mem fl a n =
     (if stored_flag fl n AND SHMAP_ALLOC \<noteq> 0 then Own (take n (mem a)) else Ref a)"

definition set_ok :: "libc \<Rightarrow> (nat \<Rightarrow> byte list) \<Rightarrow> u32 \<Rightarrow> nat \<Rightarrow> nat \<Rightarrow> bool" where
  "set_ok c mem fl a n \<longleftrightarrow>
     (stored_flag fl n AND SHMAP_ALLOC \<noteq> 0 \<longrightarrow> calloc_ok c n \<and> n \<le> length (mem a))"

lemma replace_present:
  assumes inv: "shmap_inv ht" and wf: "shkey_wf k" and d: "shmap_abs ht k = Some d"
    and c: "map_libc c" and ok: "\<And>e. val_ok (e\<lparr>ent_flag := fl, ent_val := Some v, ent_sz := n\<rparr>)"
  shows "\<exists>h1 i j h'. find_entry c ht (Some k) (Some v) = Inr (Some (h1, i, j)) \<and> j < length (map_array h1 ! i) \<and>
    shmap_replace_at c h1 i j fl v n = Inr h' \<and> shmap_inv h' \<and>
    shmap_abs h' = (shmap_abs ht)(k \<mapsto> (Some v, n, fl)) \<and> map_count h' = map_count ht"
proof -
  let ?i = "bucket_of ht k"
  let ?es = "map_array ht ! ?i"
  obtain j where j: "find_entry c ht (Some k) (Some v) = Inr (Some (ht, ?i, j))" "j < length ?es"
    "ent_key (?es ! j) = Some k" using find_entry_present [OF inv wf d] by blast
  let ?e = "(?es ! j)\<lparr>ent_flag := fl, ent_val := Some v, ent_sz := n\<rparr>"
  let ?h = "ht\<lparr>map_array := (map_array ht)[?i := ?es[j := ?e]]\<rparr>"
  have il: "?i < length (map_array ht)" using inv by (rule bucket_less)
  have ch: "chain_ok (map_max ht) ?i ?es" using shmap_inv_chain [OF inv il] .
  then have eok: "ent_ok (map_max ht) ?i (?es ! j)"
    using j(2) by (simp add: chain_ok_def list_all_length)
  then have "ent_ok (map_max ht) ?i ?e" using ok by (simp add: ent_ok_def split: option.splits)
  then have ch': "chain_ok (map_max ht) ?i (?es[j := ?e])"
    using ch j(2) by (intro chain_ok_update) simp_all
  have inv': "shmap_inv ?h"
    by (rule shmap_inv_update [OF inv il ch']) simp_all
  have "shmap_abs ?h = (shmap_abs ht)(k \<mapsto> (Some v, n, fl))"
    using chain_lookup_update [OF _ j(2,3), of ?e] ch j(3)
    by (intro shmap_abs_update [OF inv inv', where es = "?es[j := ?e]"])
      (simp_all add: chain_ok_def ent_data_def)
  then show ?thesis
    using maybe_expand_ok [OF inv' c] j ent_ok_free [OF eok]
    by (auto simp: shmap_replace_at_def Let_def simp del: bucket_less split: if_splits)
qed

lemma replace_absent:
  assumes inv: "shmap_inv ht" and wf: "shkey_wf k" and d: "shmap_abs ht k = None"
    and c: "map_libc c" and ok: "\<And>e. val_ok (e\<lparr>ent_flag := fl, ent_val := Some v, ent_sz := n\<rparr>)"
  shows "\<exists>h1 i j h'. find_entry c ht (Some k) (Some v) = Inr (Some (h1, i, j)) \<and> j < length (map_array h1 ! i) \<and>
    shmap_replace_at c h1 i j fl v n = Inr h' \<and> shmap_inv h' \<and>
    shmap_abs h' = (shmap_abs ht)(k \<mapsto> (Some v, n, fl)) \<and> map_count h' = map_count ht + 1"
proof -
  let ?i = "bucket_of ht k"
  let ?es = "map_array ht ! ?i"
  let ?new = "\<lparr>ent_hash = shmap_hash_num (key_bytes k), ent_key = Some k, ent_val = Some v,
              ent_sz = 0, ent_flag = 0\<rparr>"
  let ?e = "?new\<lparr>ent_flag := fl, ent_val := Some v, ent_sz := n\<rparr>"
  let ?hn = "ht\<lparr>map_array := (map_array ht)[?i := ?es @ [?new]], map_free := tl (map_free ht),
              map_count := map_count ht + 1\<rparr>"
  let ?h = "?hn\<lparr>map_array := (map_array ht)[?i := ?es @ [?e]]\<rparr>"
  have il: "?i < length (map_array ht)" using inv by (rule bucket_less)
  have f: "find_entry c ht (Some k) (Some v) = Inr (Some (?hn, ?i, length ?es))"
    using c by (simp add: find_entry_def find_scan_absent [OF inv wf d] Let_def map_libc_def shkey_clone_def)
  have key: "ent_key ?e = Some k" by simp
  have "ent_ok (map_max ht) ?i ?e" using ok [of ?new] wf key by (simp add: ent_ok_def)
  then have ch': "chain_ok (map_max ht) ?i (?es @ [?e])"
    using shmap_inv_chain [OF inv il] absent_chain(1) [OF inv wf d] key by (intro chain_ok_snoc) simp_all
  have inv': "shmap_inv ?h"
    by (rule shmap_inv_update [OF inv il ch']) simp_all
  have "chain_lookup (?es @ [?e]) = (chain_lookup ?es)(k \<mapsto> (Some v, n, fl))"
    using absent_chain(1) [OF inv wf d] key unfolding chain_lookup_None [symmetric]
    by (auto simp: fun_eq_iff chain_lookup_append ent_data_def split: option.split)
  then have "shmap_abs ?h = (shmap_abs ht)(k \<mapsto> (Some v, n, fl))"
    by (intro shmap_abs_update [OF inv inv', where es = "?es @ [?e]"]) simp_all
  then show ?thesis
    using maybe_expand_ok [OF inv' c] f il
    by (auto simp: shmap_replace_at_def Let_def free_ent_def simp del: bucket_less split: if_splits)
qed

lemma delete_present:
  assumes inv: "shmap_inv ht" and wf: "shkey_wf k" and d: "shmap_abs ht k = Some d"
  shows "\<exists>j h'. find_entry c ht (Some k) None = Inr (Some (ht, bucket_of ht k, j)) \<and>
    j < length (map_array ht ! bucket_of ht k) \<and>
    shmap_delete_at ht (bucket_of ht k) j = Inr h' \<and> shmap_inv h' \<and>
    shmap_abs h' = (shmap_abs ht)(k := None) \<and> map_count h' = map_count ht - 1"
proof -
  let ?i = "bucket_of ht k"
  let ?es = "map_array ht ! ?i"
  obtain j where j: "find_entry c ht (Some k) None = Inr (Some (ht, ?i, j))" "j < length ?es"
    "ent_key (?es ! j) = Some k" using find_entry_present [OF inv wf d] by blast
  let ?ds = "take j ?es @ drop (j + 1) ?es"
  let ?old = "(?es ! j)\<lparr>ent_key := None, ent_val := None, ent_flag := 0, ent_sz := 0\<rparr>"
  let ?h = "ht\<lparr>map_array := (map_array ht)[?i := ?ds], map_free := ?old # map_free ht,
              map_count := map_count ht - 1\<rparr>"
  have il: "?i < length (map_array ht)" using inv by (rule bucket_less)
  have ch: "chain_ok (map_max ht) ?i ?es" using shmap_inv_chain [OF inv il] .
  then have free: "free_ent (?es ! j) = Inr ()"
    using j(2) by (intro ent_ok_free [of "map_max ht" ?i]) (simp add: chain_ok_def list_all_length)
  obtain m where m: "length ?es = Suc m" using j(2) by (cases "length ?es") auto
  with j(2) have dm: "length ?ds = m" by simp
  have inv': "shmap_inv ?h"
  proof (rule shmap_inv_update [OF inv il chain_ok_delete [OF ch, of j]])
    show "map_count ?h + of_nat (length ?es) = map_count ht + of_nat (length ?ds)"
      unfolding m dm by simp
  qed simp_all
  have "shmap_abs ?h = (shmap_abs ht)(k := None)"
    using chain_lookup_delete [OF _ j(2,3)] ch
    by (intro shmap_abs_update [OF inv inv', where es = ?ds]) (simp_all add: chain_ok_def)
  with j(1,2) free inv' show ?thesis by (simp add: shmap_delete_at_def Let_def)
qed

lemma stored_val_ok:
  "set_ok c mem fl a n \<Longrightarrow>
     val_ok (e\<lparr>ent_flag := stored_flag fl n, ent_val := Some (stored_val mem fl a n), ent_sz := n\<rparr>)"
  by (auto simp: val_ok_def stored_val_def set_ok_def)

lemma copy_in_stored:
  "set_ok c mem fl a n \<Longrightarrow>
     shmap_copy_in mem (stored_flag fl n) (Some a) n = Inr (Some (stored_val mem fl a n))"
  by (auto simp: shmap_copy_in_def stored_val_def set_ok_def mem_simps)

lemma shmap_set_ent_ok:
  assumes "shmap_inv ht" "shkey_wf k" "set_ok c mem fl a n" "map_libc c"
  shows "\<exists>ht'. shmap_set_ent c mem (Some ht) (Some k) fl (Some a) n = Inr (0, Some ht') \<and> shmap_inv ht' \<and>
    shmap_abs ht' = (shmap_abs ht)(k \<mapsto> (Some (stored_val mem fl a n), n, stored_flag fl n)) \<and>
    map_count ht' = map_count ht + (if k \<in> dom (shmap_abs ht) then 0 else 1)"
proof -
  let ?v = "stored_val mem fl a n" and ?f = "stored_flag fl n"
  have "\<exists>h1 i j h'. find_entry c ht (Some k) (Some ?v) = Inr (Some (h1, i, j)) \<and> j < length (map_array h1 ! i) \<and>
    shmap_replace_at c h1 i j ?f ?v n = Inr h' \<and> shmap_inv h' \<and>
    shmap_abs h' = (shmap_abs ht)(k \<mapsto> (Some ?v, n, ?f)) \<and>
    map_count h' = map_count ht + (if k \<in> dom (shmap_abs ht) then 0 else 1)"
    using replace_absent [OF assms(1,2) _ assms(4) stored_val_ok [OF assms(3)]]
      replace_present [OF assms(1,2) _ assms(4) stored_val_ok [OF assms(3)]]
    by (cases "shmap_abs ht k") (simp_all add: domIff)
  then obtain h1 i j h' where h: "find_entry c ht (Some k) (Some ?v) = Inr (Some (h1, i, j))"
    "j < length (map_array h1 ! i)" "shmap_replace_at c h1 i j ?f ?v n = Inr h'" "shmap_inv h'"
    "shmap_abs h' = (shmap_abs ht)(k \<mapsto> (Some ?v, n, ?f))"
    "map_count h' = map_count ht + (if k \<in> dom (shmap_abs ht) then 0 else 1)" by blast
  have "shmap_set_ent c mem (Some ht) (Some k) fl (Some a) n = Inr (0, Some h')"
    using h(1-3) copy_in_stored [OF assms(3)] assms(3)
    by (auto simp: shmap_set_ent_def Let_def stored_flag_def set_ok_def split: if_splits)
  with h(4-6) show ?thesis by blast
qed

lemma shmap_unset_ok:
  assumes "shmap_inv ht" "shkey_wf k"
  shows "\<exists>ht'. shmap_set_ent c mem (Some ht) (Some k) fl None n = Inr (0, Some ht') \<and> shmap_inv ht' \<and>
    shmap_abs ht' = (shmap_abs ht)(k := None) \<and>
    map_count ht' = map_count ht - (if k \<in> dom (shmap_abs ht) then 1 else 0)"
proof (cases "shmap_abs ht k")
  case None
  then have "(shmap_abs ht)(k := None) = shmap_abs ht" by auto
  with None find_entry_absent [OF assms None] assms(1) show ?thesis
    by (auto simp: shmap_set_ent_def Let_def shmap_copy_in_def SHMAP_ALLOC_def domIff)
next
  case (Some d)
  from delete_present [OF assms Some, of c] obtain j h' where
    "find_entry c ht (Some k) None = Inr (Some (ht, bucket_of ht k, j))"
    "j < length (map_array ht ! bucket_of ht k)"
    "shmap_delete_at ht (bucket_of ht k) j = Inr h'" "shmap_inv h'"
    "shmap_abs h' = (shmap_abs ht)(k := None)" "map_count h' = map_count ht - 1" by blast
  with Some show ?thesis
    by (auto simp: shmap_set_ent_def Let_def shmap_copy_in_def SHMAP_ALLOC_def)
qed

subsection \<open>Counting, removal of the whole table\<close>

text \<open>The map \<open>shmap_init\<close> returns when its two requests are met.\<close>

definition shmap_empty :: shmap where
  "shmap_empty = \<lparr>map_array = replicate (unat INITIAL_MAX + 1) [], map_count = 0, map_max = INITIAL_MAX,
     map_free = []\<rparr>"

lemma shmap_init_ok: "map_libc c \<Longrightarrow> shmap_init c = Inr shmap_empty"
  by (simp add: shmap_init_def shmap_empty_def alloc_array_ok) (simp add: map_libc_def)

lemma shmap_empty_inv: "shmap_inv shmap_empty" "shmap_abs shmap_empty = Map.empty"
proof -
  have "concat (map_array shmap_empty) = []" by (simp add: shmap_empty_def del: replicate_Suc)
  then show "shmap_abs shmap_empty = Map.empty"
    unfolding shmap_abs_def by (simp only: fun_eq_iff chain_lookup_simps simp_thms)
  show "shmap_inv shmap_empty"
    by (auto simp: shmap_inv_def shmap_empty_def chain_ok_def sum_list_replicate simp del: replicate_Suc)
qed

lemma shmap_abs_dom: "dom (shmap_abs ht) = {k. Some k \<in> ent_key ` set (concat (map_array ht))}"
  unfolding shmap_abs_def dom_def chain_lookup_None not_not ..

lemma shmap_keys_dom:
  assumes "shmap_inv ht"
  shows "ent_key ` set (concat (map_array ht)) = Some ` dom (shmap_abs ht)"
  using shmap_inv_entry [OF assms] unfolding shmap_abs_dom
  by (force simp: ent_ok_def image_iff split: option.splits simp del: set_concat)

lemma shmap_inv_card:
  assumes "shmap_inv ht"
  shows "map_count ht = of_nat (card (dom (shmap_abs ht)))"
proof -
  let ?es = "concat (map_array ht)"
  have "Some ` dom (shmap_abs ht) = ent_key ` set ?es"
    using shmap_keys_dom [OF assms] by simp
  then have "card (dom (shmap_abs ht)) = card (ent_key ` set ?es)"
    by (metis card_image inj_Some)
  also have "\<dots> = length ?es"
    using distinct_card [OF shmap_inv_distinct [OF assms]] by simp
  finally show ?thesis using assms by (simp add: shmap_inv_def length_concat)
qed




section \<open>The table as a map from keys\<close>

definition put_ptr :: "libc \<Rightarrow> (nat \<Rightarrow> byte list) \<Rightarrow> shmap \<Rightarrow> shkey \<Rightarrow> nat \<Rightarrow> fault + shmap" where
  "put_ptr c mem ht k a =
     run_bind (shmap_set_ptr c mem (Some ht) (Some k) (Some a))
       (\<lambda>h. case h of None \<Rightarrow> Inl NullDeref | Some h' \<Rightarrow> Inr h')"

definition table_abs :: "shmap \<Rightarrow> shkey \<Rightarrow> mval option" where
  "table_abs ht k = Option.bind (shmap_abs ht k) fst"

lemma shmap_get_table: "shmap_inv ht \<Longrightarrow> shkey_wf k \<Longrightarrow> shmap_get (Some ht) (Some k) = Inr (table_abs ht k)"
  by (auto simp: shmap_get_def shmap_get_ent_abs table_abs_def split: option.split)

lemma set_ok_ptr [simp]: "set_ok c mem SHMAP_BINARY a 0"
  by (simp add: set_ok_def stored_flag_def SHMAP_BINARY_def SHMAP_ALLOC_def)

lemma stored_val_ptr [simp]: "stored_val mem SHMAP_BINARY a 0 = Ref a"
  by (simp add: stored_val_def stored_flag_def SHMAP_BINARY_def SHMAP_ALLOC_def)

interpretation ptab: key_table "\<lambda>ht. map_libc c \<and> shmap_inv ht" shkey_wf
  "\<lambda>ht k. shmap_get_ptr (Some ht) (Some k)" "put_ptr c mem" Ref table_abs for c mem
proof unfold_locales
  show "shmap_get_ptr (Some ht) (Some k) = Inr (table_abs ht k)"
    if "map_libc c \<and> shmap_inv ht" "shkey_wf k" for ht k
    using shmap_get_table [of ht k] that by (simp add: shmap_get_ptr_def)
  show "\<exists>t'. put_ptr c mem t k a = Inr t' \<and> (map_libc c \<and> shmap_inv t') \<and>
      table_abs t' = (table_abs t)(k \<mapsto> Ref a)"
    if "map_libc c \<and> shmap_inv t" "shkey_wf k" for t k a
    using shmap_set_ent_ok [OF _ _ set_ok_ptr, of t k c mem a] that
    by (auto simp: put_ptr_def shmap_set_ptr_def table_abs_def fun_eq_iff)
qed

subsection \<open>Sequences of operations\<close>

datatype mapop =
    MSet shkey u32 nat nat
  | MUnset shkey

fun mapop_run :: "libc \<Rightarrow> (nat \<Rightarrow> byte list) \<Rightarrow> mapop \<Rightarrow> shmap ptr \<Rightarrow> fault + shmap ptr" where
  "mapop_run c mem (MSet k fl a n) htp =
     run_bind (shmap_set_ent c mem htp (Some k) fl (Some a) n) (\<lambda>(e, h). Inr h)"
| "mapop_run c mem (MUnset k) htp = shmap_unset c mem htp (Some k)"

fun mapops_run :: "libc \<Rightarrow> (nat \<Rightarrow> byte list) \<Rightarrow> mapop list \<Rightarrow> shmap ptr \<Rightarrow> fault + shmap ptr" where
  "mapops_run c mem [] htp = Inr htp"
| "mapops_run c mem (p # ps) htp = run_bind (mapop_run c mem p htp) (mapops_run c mem ps)"

text \<open>What an operation does to the finite map; the copy of a value for which there is no
  memory is refused and changes nothing.\<close>

fun mapop_spec ::
    "libc \<Rightarrow> (nat \<Rightarrow> byte list) \<Rightarrow> mapop \<Rightarrow> (shkey \<Rightarrow> mdata option) \<Rightarrow> shkey \<Rightarrow> mdata option" where
  "mapop_spec c mem (MSet k fl a n) m =
     (if stored_flag fl n AND SHMAP_ALLOC \<noteq> 0 \<and> \<not> calloc_ok c n then m
      else m(k \<mapsto> (Some (stored_val mem fl a n), n, stored_flag fl n)))"
| "mapop_spec c mem (MUnset k) m = m(k := None)"

fun mapop_ok :: "libc \<Rightarrow> (nat \<Rightarrow> byte list) \<Rightarrow> mapop \<Rightarrow> bool" where
  "mapop_ok c mem (MSet k fl a n) \<longleftrightarrow>
     shkey_wf k \<and> (stored_flag fl n AND SHMAP_ALLOC \<noteq> 0 \<and> calloc_ok c n \<longrightarrow> n \<le> length (mem a))"
| "mapop_ok c mem (MUnset k) \<longleftrightarrow> shkey_wf k"

lemma mapop_refine:
  assumes "shmap_inv ht" "mapop_ok c mem p" "map_libc c"
  shows "\<exists>ht'. mapop_run c mem p (Some ht) = Inr (Some ht') \<and> shmap_inv ht' \<and>
    shmap_abs ht' = mapop_spec c mem p (shmap_abs ht)"
proof (cases p)
  case (MSet k fl a n)
  show ?thesis
  proof (cases "stored_flag fl n AND SHMAP_ALLOC \<noteq> 0 \<and> \<not> calloc_ok c n")
    case True
    then have "shmap_set_ent c mem (Some ht) (Some k) fl (Some a) n = Inr (SHERR_NOMEM, Some ht)"
      by (simp add: shmap_set_ent_def Let_def stored_flag_def)
    with True MSet assms(1) show ?thesis by simp
  next
    case False
    with MSet assms(2) have "set_ok c mem fl a n" "shkey_wf k" by (auto simp: set_ok_def)
    with shmap_set_ent_ok [OF assms(1) _ _ assms(3), of k mem fl a n] False MSet show ?thesis by auto
  qed
next
  case (MUnset k)
  then show ?thesis
    using shmap_unset_ok [OF assms(1), of k c mem 0 0] assms(2) by (auto simp: shmap_unset_def shmap_set_def)
qed

lemma mapops_refine:
  "shmap_inv ht \<Longrightarrow> list_all (mapop_ok c mem) ps \<Longrightarrow> map_libc c \<Longrightarrow>
     \<exists>ht'. mapops_run c mem ps (Some ht) = Inr (Some ht') \<and> shmap_inv ht' \<and>
       shmap_abs ht' = fold (mapop_spec c mem) ps (shmap_abs ht)"
proof (induction ps arbitrary: ht)
  case Nil
  then show ?case by simp
next
  case (Cons p ps)
  from mapop_refine [of ht c mem p] Cons.prems obtain h1 where
    "mapop_run c mem p (Some ht) = Inr (Some h1)" "shmap_inv h1"
    "shmap_abs h1 = mapop_spec c mem p (shmap_abs ht)" by auto
  with Cons.prems Cons.IH [of h1] show ?case by auto
qed

text \<open>C1: When the requests a map makes for its own blocks (the map, its bucket arrays, entries
  and copies of keys) are met, \<open>shmap_init\<close> returns a map on which every sequence of insertions,
  replacements and removals runs to the end without a fault (no value is freed that the map
  does not own), and afterwards \<open>shmap_get_ent\<close> and \<open>shmap_count\<close> answer as the finite map from
  keys to values that the operations describe, whatever growth of the bucket table happened on
  the way.  A value whose copy finds no memory is refused and leaves the map as it was.\<close>

theorem shmap_ops_refine_map:
  assumes "map_libc c" "list_all (mapop_ok c mem) ps"
  shows "\<exists>h0 ht. shmap_init c = Inr h0 \<and> mapops_run c mem ps (Some h0) = Inr (Some ht) \<and>
    (\<forall>k. shkey_wf k \<longrightarrow> shmap_get_ent (Some ht) (Some k) =
       Inr (case fold (mapop_spec c mem) ps Map.empty k of
              None \<Rightarrow> (None, 0) | Some (v, n, fl) \<Rightarrow> (v, fl))) \<and>
    shmap_count (Some ht) = of_nat (card (dom (fold (mapop_spec c mem) ps Map.empty)))"
proof -
  obtain ht where "mapops_run c mem ps (Some shmap_empty) = Inr (Some ht)" "shmap_inv ht"
    "shmap_abs ht = fold (mapop_spec c mem) ps Map.empty"
    using mapops_refine [OF shmap_empty_inv(1) assms(2,1)] by (auto simp: shmap_empty_inv(2))
  then show ?thesis
    by (intro exI [of _ shmap_empty] exI [of _ ht])
      (auto simp: shmap_init_ok [OF assms(1)] shmap_get_ent_abs shmap_count_def shmap_inv_card)
qed

text \<open>An allocator that meets no request of exactly 2 bytes.\<close>

definition libc_no2 :: libc where
  "libc_no2 = \<lparr>calloc_ok = (\<lambda>n. n \<noteq> 2), realloc_ok = (\<lambda>_. True), fresh = (\<lambda>_. 255)\<rparr>"

lemma map_libc_no2: "map_libc libc_no2"
  by (simp add: map_libc_def libc_no2_def SHMAP_SIZE_def SHMAP_ENTRY_SIZE_def SHKEY_SIZE_def PTR_SIZE_def)

theorem shmap_ops_refine_map_witness:
  "\<exists>h0 ht. shmap_init libc_no2 = Inr h0 \<and>
    mapops_run libc_no2 (\<lambda>a. [1, 2, 3]) [MSet shkey_blank 1 7 3, MSet (shkey_blank\<lparr>key_crc := 5\<rparr>) 0 8 0,
      MSet shkey_blank 1 7 2, MUnset (shkey_blank\<lparr>key_crc := 5\<rparr>)] (Some h0) = Inr (Some ht) \<and>
    shmap_get_ent (Some ht) (Some shkey_blank) = Inr (Some (Own [1, 2, 3]), 1) \<and>
    shmap_get_ent (Some ht) (Some (shkey_blank\<lparr>key_crc := 5\<rparr>)) = Inr (None, 0) \<and>
    shmap_count (Some ht) = 1"
proof -
  let ?k = "shkey_blank\<lparr>key_crc := 5\<rparr>" and ?mem = "\<lambda>a. [1, 2, 3] :: byte list"
  let ?ps = "[MSet shkey_blank 1 7 3, MSet ?k 0 8 0, MSet shkey_blank 1 7 2, MUnset ?k]"
  have ok: "list_all (mapop_ok libc_no2 ?mem) ?ps"
    by (simp add: shkey_wf_def shkey_blank_def libc_no2_def stored_flag_def SHMAP_ALLOC_def)
  have ne: "shkey_blank \<noteq> ?k" by (simp add: shkey_blank_def)
  have m: "fold (mapop_spec libc_no2 ?mem) ?ps Map.empty = [shkey_blank \<mapsto> (Some (Own [1, 2, 3]), 3, 1)]"
    using ne by (auto simp: stored_val_def stored_flag_def SHMAP_ALLOC_def libc_no2_def)
  have "shkey_wf shkey_blank" "shkey_wf ?k" by (simp_all add: shkey_wf_def shkey_blank_def)
  with shmap_ops_refine_map [OF map_libc_no2 ok] ne show ?thesis unfolding m by auto
qed

text \<open>A small map used by the witnesses below: it owns the value of one key, refers to the
  caller's memory for another, and keeps one recycled entry.\<close>

abbreviation map_key :: "u16 \<Rightarrow> shkey" where
  "map_key n \<equiv> shkey_blank\<lparr>key_crc := n\<rparr>"

definition map_two :: shmap where
  "map_two = (case mapops_run libc_all (\<lambda>a. [1, 2, 3])
       [MSet shkey_blank 1 7 2, MSet (map_key 5) 0 8 2, MSet (map_key 6) 0 9 2, MUnset (map_key 6)]
       (Some shmap_empty) of
     Inr (Some h) \<Rightarrow> h | _ \<Rightarrow> shmap_empty)"

lemma map_two_facts:
  "shmap_inv map_two"
  "shmap_abs map_two = [shkey_blank \<mapsto> (Some (Own [1, 2]), 2, 1), map_key 5 \<mapsto> (Some (Ref 8), 2, 0)]"
proof -
  let ?mem = "\<lambda>a :: nat. [1, 2, 3] :: byte list"
  let ?ps = "[MSet shkey_blank 1 7 2, MSet (map_key 5) 0 8 2, MSet (map_key 6) 0 9 2, MUnset (map_key 6)]"
  have "list_all (mapop_ok libc_all ?mem) ?ps"
    by (simp add: shkey_wf_def shkey_blank_def libc_all_def stored_flag_def SHMAP_ALLOC_def)
  moreover have "map_libc libc_all" by (simp add: map_libc_def libc_all_def)
  ultimately obtain ht where ht: "mapops_run libc_all ?mem ?ps (Some shmap_empty) = Inr (Some ht)"
    "shmap_inv ht" "shmap_abs ht = fold (mapop_spec libc_all ?mem) ?ps Map.empty"
    using mapops_refine [OF shmap_empty_inv(1)] unfolding shmap_empty_inv(2) by blast
  then have eq: "map_two = ht" by (simp add: map_two_def del: mapops_run.simps)
  show "shmap_inv map_two" using ht(2) unfolding eq .
  have "map_key 6 \<noteq> shkey_blank" "map_key 6 \<noteq> map_key 5" by (simp_all add: shkey_blank_def)
  then show "shmap_abs map_two = [shkey_blank \<mapsto> (Some (Own [1, 2]), 2, 1), map_key 5 \<mapsto> (Some (Ref 8), 2, 0)]"
    unfolding eq ht(3)
    by (auto simp: stored_val_def stored_flag_def SHMAP_ALLOC_def libc_all_def)
qed

text \<open>Iterating with \<open>shmap_first\<close> and \<open>shmap_next\<close> over a well-formed map ends and visits
  each live key exactly once, with the data a lookup of that key returns.\<close>

theorem shmap_iteration_exact:
  assumes "shmap_inv ht"
  shows "\<exists>es. shmap_entries ht = Inr es \<and> distinct (map ent_key es) \<and>
    ent_key ` set es = Some ` dom (shmap_abs ht) \<and>
    (\<forall>e k. e \<in> set es \<longrightarrow> ent_key e = Some k \<longrightarrow> shmap_abs ht k = Some (ent_data e))"
proof -
  let ?es = "concat (map_array ht)"
  have d: "distinct (map ent_key ?es)" using shmap_inv_distinct [OF assms] .
  have "shmap_entries ht = Inr ?es"
    using assms by (intro shmap_entries_concat) (simp add: shmap_inv_def)
  moreover have "ent_key ` set ?es = Some ` dom (shmap_abs ht)"
    by (rule shmap_keys_dom [OF assms])
  moreover have "\<forall>e k. e \<in> set ?es \<longrightarrow> ent_key e = Some k \<longrightarrow> shmap_abs ht k = Some (ent_data e)"
    unfolding shmap_abs_def using chain_lookup_Some [OF d] by blast
  ultimately show ?thesis using d by blast
qed

theorem shmap_iteration_exact_witness:
  "\<exists>es. shmap_entries map_two = Inr es \<and> distinct (map ent_key es) \<and>
     ent_key ` set es = {Some shkey_blank, Some (map_key 5)}"
  using shmap_iteration_exact [OF map_two_facts(1)] by (auto simp: map_two_facts(2))





text \<open>Growing the table doubles the bucket mask and loses nothing: every key keeps its value,
  the count and the recycle list are unchanged and the table is well formed again.\<close>

theorem expand_array_preserves:
  assumes "shmap_inv ht" "map_libc c"
  shows "\<exists>ht'. expand_array c ht = Inr ht' \<and> shmap_inv ht' \<and> map_max ht' = map_max ht * 2 \<and>
    shmap_abs ht' = shmap_abs ht \<and> map_count ht' = map_count ht \<and> map_free ht' = map_free ht"
  using expand_array_ok [OF assms] by blast

theorem expand_array_preserves_witness:
  "\<exists>ht'. expand_array libc_no2 map_two = Inr ht' \<and> map_max ht' = map_max map_two * 2 \<and>
     shmap_abs ht' (map_key 5) = Some (Some (Ref 8), 2, 0)"
  using expand_array_preserves [OF map_two_facts(1) map_libc_no2] by (auto simp: map_two_facts(2))

text \<open>What the unchecked allocations cost: with no memory for the entry or for the copy of the
  key, inserting a new key dereferences a null pointer, and so does the growth of a table that
  holds an entry when there is no memory for the larger array.\<close>

theorem shmap_insert_nomem:
  assumes "shmap_inv ht" "shkey_wf k" "shmap_abs ht k = None"
    and "map_free ht = [] \<and> \<not> calloc_ok c SHMAP_ENTRY_SIZE \<or> \<not> calloc_ok c SHKEY_SIZE"
  shows "shmap_set_ent c mem (Some ht) (Some k) 0 (Some a) n = Inl NullDeref"
proof -
  have "find_entry c ht (Some k) (Some (Ref a)) = Inl NullDeref"
    using assms(4) by (auto simp: find_entry_def find_scan_absent [OF assms(1-3)] shkey_clone_def Let_def)
  then show ?thesis
    by (auto simp: shmap_set_ent_def Let_def shmap_copy_in_def SHMAP_ALLOC_def)
qed

theorem expand_array_nomem:
  assumes "shmap_inv ht" "shmap_abs ht k = Some d" "\<not> calloc_ok c ((unat (map_max ht * 2) + 1) * PTR_SIZE)"
  shows "expand_array c ht = Inl NullDeref"
proof -
  have "concat (map_array ht) \<noteq> []"
    using assms(2) unfolding shmap_abs_def by (metis chain_lookup_simps(1) option.distinct(1))
  then show ?thesis
    using assms(1,3) shmap_entries_concat [of ht]
    by (simp add: expand_array_def Let_def alloc_array_def shmap_inv_def)
qed

end
