(* ===== verification/Share_Map_Io.thy ===== *)
theory Share_Map_Io
  imports Share_Map
begin

text \<open>
  The flat form of a hash map (\<open>shmap_print\<close> and \<open>shmap_load\<close> of
  \<^verbatim>\<open>share-lib/mem/shmem_map.c\<close>): one record per entry, a 72-byte header
  (struct \<^verbatim>\<open>shmap_value_t\<close>) and the value.  Writing goes through the buffer
  component, reading through \<open>shmap_set_ent\<close>.
\<close>

section \<open>Records\<close>

definition SHMEM32_MAGIC :: u32 where "SHMEM32_MAGIC = 0x22888822"

record shmap_value =
  mv_magic :: u32
  mv_crc :: u32
  mv_stamp :: u32
  mv_pf :: u32
  mv_name :: shkey
  mv_sz :: u64

definition SHMAP_VALUE_SIZE :: nat where "SHMAP_VALUE_SIZE = 72"

definition value_bytes :: "shmap_value \<Rightarrow> byte list" where
  "value_bytes v = le_bytes 4 (mv_magic v) @ le_bytes 4 (mv_crc v) @ le_bytes 4 (mv_stamp v) @
     le_bytes 4 (mv_pf v) @ key_bytes (mv_name v) @ le_bytes 8 (mv_sz v) @ replicate 16 0"

definition key_of_bytes :: "byte list \<Rightarrow> shkey" where
  "key_of_bytes bs = \<lparr>key_alg = le_val (take 2 bs), key_crc = le_val (take 2 (drop 2 bs)),
     key_code = map (\<lambda>i. le_val (take 4 (drop (4 * i) (drop 4 bs)))) [0..<SHKEY_WORDS]\<rparr>"

definition value_of_bytes :: "byte list \<Rightarrow> shmap_value" where
  "value_of_bytes bs = \<lparr>mv_magic = le_val (take 4 bs), mv_crc = le_val (take 4 (drop 4 bs)),
     mv_stamp = le_val (take 4 (drop 8 bs)), mv_pf = le_val (take 4 (drop 12 bs)),
     mv_name = key_of_bytes (take 32 (drop 16 bs)), mv_sz = le_val (take 8 (drop 48 bs))\<rparr>"

section \<open>Writing\<close>

definition val_mem :: "(nat \<Rightarrow> byte list) \<Rightarrow> mval \<Rightarrow> byte list" where
  "val_mem mem v = (case v of Ref a \<Rightarrow> mem a | Own bs \<Rightarrow> bs)"

text \<open>One round of the printing loop; \<open>now\<close> is the clock read for this record.\<close>

definition print_entry ::
    "libc \<Rightarrow> (nat \<Rightarrow> byte list) \<Rightarrow> u64 \<Rightarrow> entry \<Rightarrow> shbuf ptr \<Rightarrow> fault + shbuf ptr" where
  "print_entry c mem now e b =
     (case ent_val e of
        None \<Rightarrow> Inr b
      | Some val \<Rightarrow>
          if ent_sz e = 0 then Inr b
          else (case ent_key e of
              None \<Rightarrow> Inl NullDeref
            | Some key \<Rightarrow>
                run_bind (mem_read (val_mem mem val) 0 (ent_sz e))
                  (\<lambda>bs. run_bind (shbuf_cat c b (value_bytes
                       \<lparr>mv_magic = SHMEM32_MAGIC, mv_crc = ucast (shcrc (Some bs)), mv_stamp = ucast now,
                        mv_pf = ent_flag e AND NOT SHMAP_ALLOC, mv_name = key,
                        mv_sz = of_nat (ent_sz e)\<rparr>))
                    (\<lambda>b1. shbuf_cat c b1 bs))))"

fun print_loop ::
    "libc \<Rightarrow> (nat \<Rightarrow> byte list) \<Rightarrow> (nat \<Rightarrow> u64) \<Rightarrow> nat \<Rightarrow> entry list \<Rightarrow> shbuf ptr \<Rightarrow> fault + shbuf ptr" where
  "print_loop c mem clock i [] b = Inr b"
| "print_loop c mem clock i (e # es) b =
     run_bind (print_entry c mem (clock i) e b) (print_loop c mem clock (i + 1) es)"

definition shmap_print ::
    "libc \<Rightarrow> (nat \<Rightarrow> byte list) \<Rightarrow> (nat \<Rightarrow> u64) \<Rightarrow> shmap ptr \<Rightarrow> shbuf ptr \<Rightarrow> fault + shbuf ptr" where
  "shmap_print c mem clock htp b =
     (case (htp, b) of
        (Some ht, Some _) \<Rightarrow> run_bind (shmap_entries ht) (\<lambda>es. print_loop c mem clock 0 es b)
      | _ \<Rightarrow> Inr b)"

section \<open>Reading\<close>

text \<open>One record at offset \<open>k\<close> whose header ends at \<open>h\<close>: the next offset and the map.  The
  data handed to \<open>shmap_set_ent\<close> is a pointer into the buffer; its result is ignored.\<close>

definition load_record ::
    "libc \<Rightarrow> byte list \<Rightarrow> nat \<Rightarrow> nat \<Rightarrow> shmap ptr \<Rightarrow> fault + (nat \<times> shmap ptr)" where
  "load_record c d k h htp =
     run_bind (mem_read d k SHMAP_VALUE_SIZE)
       (\<lambda>bs. let hdr = value_of_bytes bs; sz = unat (mv_sz hdr) in
          if mv_magic hdr \<noteq> SHMEM32_MAGIC then Inr (h, htp)
          else if sz = 0 then Inr (h, htp)
          else run_bind (shmap_set_ent c (\<lambda>_. drop h d) htp (Some (mv_name hdr))
                           (mv_pf hdr OR SHMAP_ALLOC) (Some h) sz)
                 (\<lambda>(e, htp'). Inr ((h + sz) mod 2 ^ 64, htp')))"

partial_function (option) shmap_load_loop ::
    "libc \<Rightarrow> byte list \<Rightarrow> nat \<Rightarrow> nat \<Rightarrow> shmap ptr \<Rightarrow> (fault + shmap ptr) option" where
  [code]: "shmap_load_loop c d b_len b_of htp =
     (if b_of < b_len
      then let h = (b_of + SHMAP_VALUE_SIZE) mod 2 ^ 64 in
           if b_len < h then Some (Inr htp)
           else (case load_record c d b_of h htp of
                   Inl e \<Rightarrow> Some (Inl e)
                 | Inr r \<Rightarrow> shmap_load_loop c d b_len (fst r) (snd r))
      else Some (Inr htp))"

definition shmap_load :: "libc \<Rightarrow> shmap ptr \<Rightarrow> shbuf ptr \<Rightarrow> (fault + shmap ptr) option" where
  "shmap_load c htp buff =
     (case shbuf_data buff of
        None \<Rightarrow> if 0 < shbuf_size buff then Some (Inl NullDeref) else Some (Inr htp)
      | Some d \<Rightarrow> shmap_load_loop c d (shbuf_size buff) 0 htp)"

section \<open>Records round trip\<close>

lemma key_of_key_bytes [simp]: "shkey_wf k \<Longrightarrow> key_of_bytes (key_bytes k) = k"
proof -
  assume "shkey_wf k"
  then have "SHKEY_WORDS = length (key_code k)" by (simp add: shkey_wf_def)
  then have "map (\<lambda>i. le_val (take 4 (drop (4 * i) (concat (map (le_bytes 4) (key_code k)))))) [0..<SHKEY_WORDS]
      = key_code k"
    by (intro map_chunks_id) simp_all
  then show ?thesis by (simp add: key_of_bytes_def key_bytes_def)
qed

lemma length_value_bytes [simp]: "shkey_wf (mv_name v) \<Longrightarrow> length (value_bytes v) = SHMAP_VALUE_SIZE"
  by (simp add: value_bytes_def SHMAP_VALUE_SIZE_def)

lemma value_of_value_bytes [simp]: "shkey_wf (mv_name v) \<Longrightarrow> value_of_bytes (value_bytes v) = v"
  by (simp add: value_of_bytes_def value_bytes_def)

text \<open>An entry that reaches the flat form, its record, and what loading it stores.\<close>

definition printed :: "entry \<Rightarrow> bool" where
  "printed e \<longleftrightarrow> ent_val e \<noteq> None \<and> ent_sz e \<noteq> 0"

definition ent_bytes :: "(nat \<Rightarrow> byte list) \<Rightarrow> entry \<Rightarrow> byte list" where
  "ent_bytes mem e = (case ent_val e of None \<Rightarrow> [] | Some v \<Rightarrow> take (ent_sz e) (val_mem mem v))"

definition ent_readable :: "(nat \<Rightarrow> byte list) \<Rightarrow> entry \<Rightarrow> bool" where
  "ent_readable mem e \<longleftrightarrow>
     (case ent_val e of Some v \<Rightarrow> ent_sz e \<le> length (val_mem mem v) | None \<Rightarrow> False) \<and>
     (case ent_key e of Some k \<Rightarrow> shkey_wf k | None \<Rightarrow> False)"

definition ent_value :: "(nat \<Rightarrow> byte list) \<Rightarrow> u64 \<Rightarrow> entry \<Rightarrow> shmap_value" where
  "ent_value mem now e = \<lparr>mv_magic = SHMEM32_MAGIC, mv_crc = ucast (shcrc (Some (ent_bytes mem e))),
     mv_stamp = ucast now, mv_pf = ent_flag e AND NOT SHMAP_ALLOC, mv_name = the (ent_key e),
     mv_sz = of_nat (ent_sz e)\<rparr>"

fun records :: "(nat \<Rightarrow> byte list) \<Rightarrow> (nat \<Rightarrow> u64) \<Rightarrow> nat \<Rightarrow> entry list \<Rightarrow> byte list" where
  "records mem clock i [] = []"
| "records mem clock i (e # es) =
     (if printed e then value_bytes (ent_value mem (clock i) e) @ ent_bytes mem e else []) @
     records mem clock (i + 1) es"

lemma print_entry_ok:
  assumes "shbuf_ok c b" "ent_readable mem e"
    and "length (shbuf_bytes b) + length (records mem (\<lambda>_. now) i [e]) + 1 < SHBUF_LIMIT"
  shows "\<exists>b'. print_entry c mem now e b = Inr b' \<and> shbuf_ok c b' \<and>
    shbuf_bytes b' = shbuf_bytes b @ records mem (\<lambda>_. now) i [e]"
proof (cases "printed e")
  case False
  with assms show ?thesis by (auto simp: print_entry_def printed_def split: option.splits)
next
  case True
  let ?h = "value_bytes (ent_value mem now e)" and ?d = "ent_bytes mem e"
  from assms(2) True obtain v k where vk: "ent_val e = Some v" "ent_key e = Some k"
    "ent_sz e \<le> length (val_mem mem v)" "ent_sz e \<noteq> 0"
    by (auto simp: ent_readable_def printed_def split: option.splits)
  have "length (shbuf_bytes b) + length (concat [?h, ?d]) + 1 < SHBUF_LIMIT"
    using assms(3) True by simp
  from shb.sink_cat_all [OF assms(1) this] show ?thesis
    using vk True
    by (auto simp: print_entry_def mem_simps ent_bytes_def ent_value_def run_bind_eq_Inr)
qed

lemma print_loop_ok:
  assumes "shbuf_ok c b" "list_all (ent_readable mem) es"
    and "length (shbuf_bytes b) + length (records mem clock i es) + 1 < SHBUF_LIMIT"
  shows "\<exists>b'. print_loop c mem clock i es b = Inr b' \<and> shbuf_ok c b' \<and>
    shbuf_bytes b' = shbuf_bytes b @ records mem clock i es"
  using assms
proof (induction es arbitrary: b i)
  case Nil
  then show ?case by simp
next
  case (Cons e es)
  obtain b1 where b1: "print_entry c mem (clock i) e b = Inr b1" "shbuf_ok c b1"
    "shbuf_bytes b1 = shbuf_bytes b @ records mem (\<lambda>_. clock i) i [e]"
    using print_entry_ok [OF Cons.prems(1), of mem e "clock i" i] Cons.prems(2,3) by auto
  moreover have "length (shbuf_bytes b1) + length (records mem clock (i + 1) es) + 1 < SHBUF_LIMIT"
    using Cons.prems(3) unfolding b1(3) by (simp split: if_splits)
  ultimately show ?case
    using Cons.IH [OF b1(2), of "i + 1"] Cons.prems(2) by auto
qed

subsection \<open>Loading what was printed\<close>

definition load_data :: "(nat \<Rightarrow> byte list) \<Rightarrow> entry \<Rightarrow> mdata" where
  "load_data mem e = (Some (Own (ent_bytes mem e)), ent_sz e, ent_flag e OR SHMAP_ALLOC)"

definition load_spec :: "(nat \<Rightarrow> byte list) \<Rightarrow> entry \<Rightarrow> (shkey \<Rightarrow> mdata option) \<Rightarrow> shkey \<Rightarrow> mdata option" where
  "load_spec mem e m = (if printed e then m(the (ent_key e) \<mapsto> load_data mem e) else m)"

lemma flag_alloc: "((fl :: u32) AND NOT SHMAP_ALLOC) OR SHMAP_ALLOC = fl OR SHMAP_ALLOC"
  by (rule bit_word_eqI) (auto simp: bit_simps SHMAP_ALLOC_def)

lemma flag_alloc_set: "(fl OR SHMAP_ALLOC) AND SHMAP_ALLOC \<noteq> 0"
proof -
  have "(fl OR SHMAP_ALLOC) AND SHMAP_ALLOC = SHMAP_ALLOC"
    by (rule bit_word_eqI) (auto simp: bit_simps)
  then show ?thesis by (simp add: SHMAP_ALLOC_def)
qed

lemma load_record_ok:
  assumes "libc_total c" "shmap_inv ht" "printed e" "ent_readable mem e" "ent_sz e < 2 ^ 64"
    and "drop k d = value_bytes (ent_value mem now e) @ ent_bytes mem e @ rest"
    and "k + SHMAP_VALUE_SIZE + ent_sz e < 2 ^ 64"
  shows "\<exists>ht'. load_record c d k (k + SHMAP_VALUE_SIZE) (Some ht) =
      Inr (k + SHMAP_VALUE_SIZE + ent_sz e, Some ht') \<and> shmap_inv ht' \<and>
    shmap_abs ht' = load_spec mem e (shmap_abs ht)"
proof -
  let ?v = "ent_value mem now e" and ?h = "k + SHMAP_VALUE_SIZE" and ?n = "ent_sz e"
  let ?fl = "ent_flag e OR SHMAP_ALLOC"
  obtain v key where vk: "ent_val e = Some v" "ent_key e = Some key" "?n \<le> length (val_mem mem v)"
    "?n \<noteq> 0" "shkey_wf key"
    using assms(3,4) by (auto simp: ent_readable_def printed_def split: option.splits)
  have wf: "shkey_wf (mv_name ?v)" using vk by (simp add: ent_value_def)
  have len: "length (ent_bytes mem e) = ?n" using vk by (simp add: ent_bytes_def)
  have dl: "length (drop k d) = SHMAP_VALUE_SIZE + ?n + length rest"
    unfolding assms(6) using wf len by simp
  have rd: "mem_read d k SHMAP_VALUE_SIZE = Inr (value_bytes ?v)"
    unfolding mem_read_def assms(6) using dl wf by (simp add: SHMAP_VALUE_SIZE_def)
  have "drop ?h d = drop SHMAP_VALUE_SIZE (drop k d)" by (simp add: add.commute)
  then have dh: "drop ?h d = ent_bytes mem e @ rest" unfolding assms(6) using wf by simp
  have sz: "unat (mv_sz ?v) = ?n"
    using assms(5) by (simp add: ent_value_def unsigned_of_nat take_bit_nat_eq_self)
  have ok: "set_ok c (\<lambda>_. drop ?h d) ?fl ?h ?n"
    using assms(1) len unfolding dh by (simp add: set_ok_def)
  have sf: "stored_flag ?fl ?n = ?fl" using vk(4) by (simp add: stored_flag_def)
  then have sv: "stored_val (\<lambda>_. drop ?h d) ?fl ?h ?n = Own (ent_bytes mem e)"
    using flag_alloc_set len unfolding dh by (simp add: stored_val_def)
  have nf: "mv_name ?v = key" "mv_pf ?v OR SHMAP_ALLOC = ?fl" "mv_magic ?v = SHMEM32_MAGIC"
    using vk by (simp_all add: ent_value_def flag_alloc)
  obtain ht' where "shmap_set_ent c (\<lambda>_. drop ?h d) (Some ht) (Some key) ?fl (Some ?h) ?n = Inr (0, Some ht')"
    "shmap_inv ht'" "shmap_abs ht' = (shmap_abs ht)(key \<mapsto> load_data mem e)"
    using shmap_set_ent_ok [OF assms(2) vk(5) ok map_libc_total [OF assms(1)]] unfolding sf sv load_data_def by blast
  then show ?thesis
    using assms(3,7) vk(2,4) nf
    by (intro exI [of _ ht']) (simp add: load_record_def rd value_of_value_bytes [OF wf] sz Let_def load_spec_def)
qed

lemma load_loop_ok:
  assumes "libc_total c" "shmap_inv ht" "list_all (ent_readable mem) es" "n < 2 ^ 64" "k \<le> n" "n \<le> length d"
    and "take (n - k) (drop k d) = records mem clock i es"
  shows "\<exists>ht'. shmap_load_loop c d n k (Some ht) = Some (Inr (Some ht')) \<and> shmap_inv ht' \<and>
    shmap_abs ht' = fold (load_spec mem) es (shmap_abs ht)"
  using assms(2-)
proof (induction es arbitrary: ht k i)
  case Nil
  then have "n = k" by auto
  with Nil show ?case by (subst shmap_load_loop.simps) simp
next
  case (Cons e es)
  show ?case
  proof (cases "printed e")
    case False
    with Cons.prems Cons.IH [of ht k "i + 1"] show ?thesis by (simp add: load_spec_def)
  next
    case True
    let ?h = "value_bytes (ent_value mem (clock i) e)"
    let ?rest = "records mem clock (i + 1) es @ drop n d"
    have wf: "shkey_wf (mv_name (ent_value mem (clock i) e))"
      using Cons.prems(2) by (auto simp: ent_readable_def ent_value_def split: option.splits)
    have len: "length (ent_bytes mem e) = ent_sz e"
      using Cons.prems(2) by (auto simp: ent_readable_def ent_bytes_def split: option.splits)
    have "drop k d = take (n - k) (drop k d) @ drop n d"
      using Cons.prems(4,5) by (metis append_take_drop_id drop_drop le_add_diff_inverse2)
    then have dk: "drop k d = ?h @ ent_bytes mem e @ ?rest"
      unfolding Cons.prems(6) using True by simp
    have "n - k = length (records mem clock i (e # es))"
      using Cons.prems(4,5) unfolding Cons.prems(6) [symmetric] by simp
    then have nk: "n = k + SHMAP_VALUE_SIZE + ent_sz e + length (records mem clock (i + 1) es)"
      using True wf len Cons.prems(4) by simp
    let ?k = "k + SHMAP_VALUE_SIZE + ent_sz e"
    obtain ht1 where ht1: "load_record c d k (k + SHMAP_VALUE_SIZE) (Some ht) = Inr (?k, Some ht1)"
      "shmap_inv ht1" "shmap_abs ht1 = load_spec mem e (shmap_abs ht)"
      using load_record_ok [OF assms(1) Cons.prems(1) True _ _ dk] Cons.prems(2,3) nk by auto
    have "take (n - ?k) (drop ?k d) = records mem clock (i + 1) es"
    proof -
      have "drop ?k d = drop (SHMAP_VALUE_SIZE + ent_sz e) (drop k d)" by (simp add: ac_simps)
      also have "\<dots> = ?rest" unfolding dk using wf len by simp
      finally show ?thesis using nk by simp
    qed
    then obtain ht2 where ht2: "shmap_load_loop c d n ?k (Some ht1) = Some (Inr (Some ht2))"
      "shmap_inv ht2" "shmap_abs ht2 = fold (load_spec mem) es (shmap_abs ht1)"
      using Cons.IH [OF ht1(2), of ?k "i + 1"] Cons.prems nk by auto
    have "k < n" "\<not> n < k + SHMAP_VALUE_SIZE" "(k + SHMAP_VALUE_SIZE) mod 2 ^ 64 = k + SHMAP_VALUE_SIZE"
      using nk Cons.prems(3) by (simp_all add: SHMAP_VALUE_SIZE_def)
    then have "shmap_load_loop c d n k (Some ht) = Some (Inr (Some ht2))"
      using ht1(1) ht2(1) by (subst shmap_load_loop.simps) (simp add: Let_def)
    with ht2 ht1(3) show ?thesis by auto
  qed
qed

lemma shmap_load_bytes:
  assumes "libc_total c" "shbuf_ok c b" "shbuf_bytes b = records mem clock 0 es"
    and "list_all (ent_readable mem) es" "length (records mem clock 0 es) < 2 ^ 64"
  shows "\<exists>ht'. shmap_load c (Some shmap_empty) b = Some (Inr (Some ht')) \<and> shmap_inv ht' \<and>
    shmap_abs ht' = fold (load_spec mem) es Map.empty"
proof -
  from assms(2) obtain buf where buf: "b = Some buf" "shbuf_inv buf"
    by (auto simp: shbuf_ok_def split: option.splits)
  show ?thesis
  proof (cases "buf_data buf")
    case None
    then have "records mem clock 0 es = []" "data_of buf = 0"
      using assms(3) buf by (simp_all add: shbuf_bytes_def shbuf_content_def shbuf_inv_def)
    then have "shmap_load_loop c [] 0 0 (Some shmap_empty) = Some (Inr (Some shmap_empty))"
      and "fold (load_spec mem) es Map.empty = Map.empty"
      using load_loop_ok [OF assms(1) shmap_empty_inv(1) assms(4), of 0 0 "[]" clock 0]
      by (simp_all add: shmap_load_loop.simps shmap_empty_inv(2))
    with None buf \<open>data_of buf = 0\<close> show ?thesis
      using shmap_empty_inv by (simp add: shmap_load_def shbuf_data_def shbuf_size_def)
  next
    case (Some d)
    then have t: "take (data_of buf) d = records mem clock 0 es" "data_of buf \<le> length d"
      using assms(3) buf by (auto simp: shbuf_bytes_def shbuf_content_def shbuf_inv_def)
    then have "length (records mem clock 0 es) = data_of buf" by (metis length_take min.absorb2)
    with t assms(5) show ?thesis
      using load_loop_ok [OF assms(1) shmap_empty_inv(1) assms(4), of "data_of buf" 0 d clock 0] Some buf
      by (simp add: shmap_load_def shbuf_data_def shbuf_size_def shmap_empty_inv(2))
  qed
qed

lemma fold_load_spec:
  assumes "distinct (map ent_key es)" "\<And>e. e \<in> set es \<Longrightarrow> ent_key e \<noteq> None"
  shows "fold (load_spec mem) es m k =
    (case find (\<lambda>e. ent_key e = Some k) es of
       None \<Rightarrow> m k | Some e \<Rightarrow> if printed e then Some (load_data mem e) else m k)"
  using assms
proof (induction es arbitrary: m)
  case Nil
  then show ?case by simp
next
  case (Cons e es)
  show ?case
  proof (cases "ent_key e = Some k")
    case True
    then have "find (\<lambda>e. ent_key e = Some k) es = None"
      using Cons.prems(1) by (force simp: find_None_iff)
    with True Cons show ?thesis by (auto simp: load_spec_def)
  next
    case False
    moreover have "load_spec mem e m k = m k"
      using False Cons.prems(2) [of e] by (auto simp: load_spec_def)
    ultimately show ?thesis using Cons by (simp split: option.split)
  qed
qed

definition flat_size :: "shmap \<Rightarrow> nat" where
  "flat_size ht = sum_list (map (\<lambda>e. if ent_sz e = 0 then 0 else SHMAP_VALUE_SIZE + ent_sz e)
     (concat (map_array ht)))"

lemma length_records:
  "list_all (ent_readable mem) es \<Longrightarrow> length (records mem clock i es) =
     sum_list (map (\<lambda>e. if ent_sz e = 0 then 0 else SHMAP_VALUE_SIZE + ent_sz e) es)"
  by (induction es arbitrary: i)
    (auto simp: ent_readable_def printed_def ent_bytes_def ent_value_def split: option.splits)

lemma shmap_readable:
  assumes "shmap_inv ht"
    and "\<And>k a n fl. shmap_abs ht k = Some (Some (Ref a), n, fl) \<Longrightarrow> n \<le> length (mem a)"
  shows "list_all (ent_readable mem) (concat (map_array ht))"
  unfolding list_all_iff
proof
  fix e assume e: "e \<in> set (concat (map_array ht))"
  from shmap_inv_entry [OF assms(1) e] obtain k v where kv: "ent_key e = Some k" "shkey_wf k"
    "ent_val e = Some v" "val_ok e"
    by (auto simp: ent_ok_def val_ok_def split: option.splits)
  have "shmap_abs ht k = Some (ent_data e)"
    unfolding shmap_abs_def using chain_lookup_Some [OF shmap_inv_distinct [OF assms(1)]] e kv(1) by blast
  with kv assms(2) show "ent_readable mem e"
    by (cases v) (auto simp: ent_readable_def val_mem_def ent_data_def val_ok_def)
qed

text \<open>C3: Printing a well-formed map into a fresh buffer and loading the bytes into the map
  \<open>shmap_init\<close> returns succeeds, and the loaded map holds under every key the bytes of the value it had, its size
  and its flags with the ownership bit set; entries of size zero (plain pointers) are dropped.\<close>

theorem shmap_print_load:
  assumes "libc_total c" "shmap_inv ht" "flat_size ht + 1 < SHBUF_LIMIT"
    and "\<And>k a n fl. shmap_abs ht k = Some (Some (Ref a), n, fl) \<Longrightarrow> n \<le> length (mem a)"
  shows "\<exists>b h0 ht2. shmap_print c mem clock (Some ht) (Some shbuf_init) = Inr b \<and>
    shmap_init c = Inr h0 \<and> shmap_load c (Some h0) b = Some (Inr (Some ht2)) \<and> shmap_inv ht2 \<and>
    (\<forall>k. shmap_abs ht2 k = Option.bind (shmap_abs ht k)
       (\<lambda>(v, n, fl). if n = 0 then None
          else Some (Some (Own (take n (val_mem mem (the v)))), n, fl OR SHMAP_ALLOC)))"
proof -
  let ?es = "concat (map_array ht)"
  have rd: "list_all (ent_readable mem) ?es" by (rule shmap_readable [OF assms(2,4)])
  have len: "length (records mem clock 0 ?es) = flat_size ht"
    unfolding flat_size_def by (rule length_records [OF rd])
  have "shbuf_ok c (Some shbuf_init)" "shbuf_bytes (Some shbuf_init) = []"
    using assms(1) by (simp_all add: shbuf_ok_def shbuf_bytes_def shbuf_growable_def shbuf_init_def
      shbuf_content_def shbuf_inv_def)
  then obtain b where b: "print_loop c mem clock 0 ?es (Some shbuf_init) = Inr b" "shbuf_ok c b"
    "shbuf_bytes b = records mem clock 0 ?es"
    using print_loop_ok [of c "Some shbuf_init" mem ?es clock 0] rd assms(3) len by auto
  have ent: "shmap_entries ht = Inr ?es"
    using assms(2) by (intro shmap_entries_concat) (simp add: shmap_inv_def)
  have "\<exists>ht2. shmap_load c (Some shmap_empty) b = Some (Inr (Some ht2)) \<and> shmap_inv ht2 \<and>
      shmap_abs ht2 = fold (load_spec mem) ?es Map.empty"
    using shmap_load_bytes [OF assms(1) b(2,3) rd] assms(3) len by (simp add: SHBUF_LIMIT_def)
  then obtain ht2 where ht2: "shmap_load c (Some shmap_empty) b = Some (Inr (Some ht2))" "shmap_inv ht2"
    "shmap_abs ht2 = fold (load_spec mem) ?es Map.empty" by blast
  have keys: "ent_key e \<noteq> None" if "e \<in> set ?es" for e
    using shmap_inv_entry [OF assms(2) that] by (auto simp: ent_ok_def split: option.splits)
  have spec: "fold (load_spec mem) ?es Map.empty k =
      (case find (\<lambda>e. ent_key e = Some k) ?es of
         None \<Rightarrow> None | Some e \<Rightarrow> if printed e then Some (load_data mem e) else None)" for k
    using keys by (intro fold_load_spec shmap_inv_distinct [OF assms(2)])
  have "shmap_abs ht2 k = Option.bind (shmap_abs ht k)
       (\<lambda>(v, n, fl). if n = 0 then None
          else Some (Some (Own (take n (val_mem mem (the v)))), n, fl OR SHMAP_ALLOC))" for k
  proof (cases "find (\<lambda>e. ent_key e = Some k) ?es")
    case None
    then show ?thesis unfolding ht2(3) spec by (simp add: shmap_abs_def chain_lookup_def)
  next
    case (Some e)
    then have "e \<in> set ?es" by (auto simp: find_Some_iff in_set_conv_nth simp del: set_concat)
    then have "ent_readable mem e" using rd by (simp add: list_all_iff del: set_concat)
    with Some show ?thesis unfolding ht2(3) spec
      by (auto simp: shmap_abs_def chain_lookup_def ent_data_def load_data_def printed_def ent_bytes_def
          ent_readable_def split: option.splits)
  qed
  with b(1) ent ht2(1,2) shmap_init_ok [OF map_libc_total [OF assms(1)]] show ?thesis
    by (auto simp: shmap_print_def)
qed

theorem shmap_print_load_witness:
  "\<exists>b h0 ht2. shmap_print libc_all (\<lambda>_. [4, 5]) (\<lambda>_. 0) (Some map_two) (Some shbuf_init) = Inr b \<and>
     shmap_init libc_all = Inr h0 \<and> shmap_load libc_all (Some h0) b = Some (Inr (Some ht2)) \<and>
     shmap_abs ht2 = [shkey_blank \<mapsto> (Some (Own [1, 2]), 2, 1), map_key 5 \<mapsto> (Some (Own [4, 5]), 2, 1)]"
proof -
  have "flat_size map_two = 148" by code_simp
  then have "flat_size map_two + 1 < SHBUF_LIMIT" by (simp add: SHBUF_LIMIT_def)
  moreover have "n \<le> length [4, 5]" if "shmap_abs map_two k = Some (Some (Ref a), n, fl)" for k a n fl
    using that by (simp add: map_two_facts(2) split: if_splits)
  ultimately obtain b h0 ht2 where r:
    "shmap_print libc_all (\<lambda>_. [4, 5]) (\<lambda>_. 0) (Some map_two) (Some shbuf_init) = Inr b"
    "shmap_init libc_all = Inr h0" "shmap_load libc_all (Some h0) b = Some (Inr (Some ht2))"
    "\<forall>k. shmap_abs ht2 k = Option.bind (shmap_abs map_two k)
       (\<lambda>(v, n, fl). if n = 0 then None
          else Some (Some (Own (take n (val_mem (\<lambda>_. [4, 5]) (the v)))), n, fl OR SHMAP_ALLOC))"
    using shmap_print_load [OF libc_total_all map_two_facts(1), of "\<lambda>_. [4, 5]" "\<lambda>_. 0"] by blast
  have "shmap_abs ht2 = [shkey_blank \<mapsto> (Some (Own [1, 2]), 2, 1), map_key 5 \<mapsto> (Some (Own [4, 5]), 2, 1)]"
    using r(4) by (auto simp: map_two_facts(2) val_mem_def SHMAP_ALLOC_def)
  with r(1-3) show ?thesis by blast
qed

section \<open>Records with a forged size\<close>

text \<open>A header whose size field brings the 64-bit offset back to where it was.\<close>

lemma load_loop_diverges:
  assumes "load_record c d 0 SHMAP_VALUE_SIZE htp = Inr (0, htp)" "SHMAP_VALUE_SIZE \<le> b_len"
  shows "shmap_load_loop c d b_len 0 htp = None"
proof (rule ccontr)
  assume "shmap_load_loop c d b_len 0 htp \<noteq> None"
  then obtain r where r: "shmap_load_loop c d b_len 0 htp = Some r" by blast
  have "0 = (0 :: nat) \<longrightarrow> load_record c d 0 SHMAP_VALUE_SIZE htp = Inr (0, htp) \<longrightarrow>
      \<not> SHMAP_VALUE_SIZE \<le> b_len"
    by (rule shmap_load_loop.raw_induct [where P = "\<lambda>c d n k h r. k = 0 \<longrightarrow>
        load_record c d 0 SHMAP_VALUE_SIZE h = Inr (0, h) \<longrightarrow> \<not> SHMAP_VALUE_SIZE \<le> n", OF _ r])
      (auto simp: Let_def SHMAP_VALUE_SIZE_def split: if_splits)
  with assms show False by simp
qed

text \<open>\<open>shmap_load\<close> trusts the size field of a record.  On a buffer that starts with a header of
  the right magic number: a size of \<open>2^64 - 72\<close>, for which no allocation succeeds, brings the
  offset back to the record itself and the loop never ends; a size that can be allocated but
  exceeds what the buffer holds after the header is read past the end of the buffer.\<close>

theorem shmap_load_forged_size:
  assumes "buf_data b = Some (value_bytes v @ rest)" "shkey_wf (mv_name v)" "mv_magic v = SHMEM32_MAGIC"
    and "SHMAP_VALUE_SIZE \<le> data_of b"
  shows "(mv_sz v = - 72 \<and> \<not> calloc_ok c (2 ^ 64 - 72) \<longrightarrow> shmap_load c (Some ht) (Some b) = None) \<and>
    (length rest < unat (mv_sz v) \<and> calloc_ok c (unat (mv_sz v)) \<longrightarrow>
       shmap_load c (Some ht) (Some b) = Some (Inl OutOfBounds))"
proof (intro conjI impI)
  let ?d = "value_bytes v @ rest"
  have rd: "mem_read ?d 0 SHMAP_VALUE_SIZE = Inr (value_bytes v)"
    using assms(2) by (simp add: mem_read_def)
  { assume h: "mv_sz v = - 72 \<and> \<not> calloc_ok c (2 ^ 64 - 72)"
    have sz: "unat (mv_sz v) = 2 ^ 64 - 72" using h by simp
    have "(SHMAP_VALUE_SIZE + (2 ^ 64 - 72)) mod 2 ^ 64 = 0" by (simp add: SHMAP_VALUE_SIZE_def)
    then have "load_record c ?d 0 SHMAP_VALUE_SIZE (Some ht) = Inr (0, Some ht)"
      using assms(2,3) h flag_alloc_set [of "mv_pf v"]
      by (simp add: load_record_def rd Let_def sz shmap_set_ent_def)
    from load_loop_diverges [OF this assms(4)] show "shmap_load c (Some ht) (Some b) = None"
      using assms(1) by (simp add: shmap_load_def shbuf_data_def shbuf_size_def) }
  { assume h: "length rest < unat (mv_sz v) \<and> calloc_ok c (unat (mv_sz v))"
    then have "load_record c ?d 0 SHMAP_VALUE_SIZE (Some ht) = Inl OutOfBounds"
      using assms(2,3) flag_alloc_set [of "mv_pf v"]
      by (simp add: load_record_def rd Let_def shmap_set_ent_def shmap_copy_in_def mem_read_def)
    then show "shmap_load c (Some ht) (Some b) = Some (Inl OutOfBounds)"
      using assms(1,4)
      by (simp add: shmap_load_def shbuf_data_def shbuf_size_def shmap_load_loop.simps Let_def
          SHMAP_VALUE_SIZE_def) }
qed

theorem shmap_load_forged_size_witness:
  "shmap_load \<lparr>calloc_ok = (\<lambda>n. n < 1000), realloc_ok = (\<lambda>n. n < 1000), fresh = (\<lambda>_. 0)\<rparr> (Some shmap_empty)
     (Some (shbuf_init\<lparr>buf_data := Some (value_bytes \<lparr>mv_magic = SHMEM32_MAGIC, mv_crc = 0, mv_stamp = 0,
        mv_pf = 0, mv_name = shkey_blank, mv_sz = - 72\<rparr> @ []), data_of := 72, data_max := 72\<rparr>)) = None"
  by (rule shmap_load_forged_size [where
        v = "\<lparr>mv_magic = SHMEM32_MAGIC, mv_crc = 0, mv_stamp = 0, mv_pf = 0, mv_name = shkey_blank,
             mv_sz = - 72\<rparr>" and rest = "[]", THEN conjunct1, THEN mp])
    (simp_all add: shkey_wf_def shkey_blank_def SHMAP_VALUE_SIZE_def)

end
