(* ===== verification/Share_Pool.thy ===== *)
theory Share_Pool
  imports Share_Buf
begin

text \<open>
  The buffer pool of \<^verbatim>\<open>share-lib/mem/shmem_pool.c\<close>: a growing array of buffer
  pointers handed out in turn (\<open>shpool_get\<close>) or taken out and given back
  (\<open>shpool_pull\<close>, \<open>shpool_push\<close>).

  Buffers live in a heap and are named by their address, so that two places that
  hold the same pointer share the buffer.  The counter \<open>_shpool_index\<close> is global
  to the library and is part of the memory.
\<close>

section \<open>Data\<close>

record shpool =
  pl_pool :: "nat ptr list ptr"
  pl_max :: nat

record poolmem =
  pm_heap :: "shbuf list"
  pm_index :: u32

definition shpool_init :: shpool where
  "shpool_init = \<lparr>pl_pool = None, pl_max = 0\<rparr>"

section \<open>Operations\<close>

text \<open>\<open>realloc\<close> keeps the first \<open>max\<close> slots; slots a longer block adds are unspecified.\<close>

definition shalloc_pool_incr :: "poolmem \<Rightarrow> shpool \<Rightarrow> nat ptr \<Rightarrow> poolmem \<times> shpool" where
  "shalloc_pool_incr m pool buff =
     (let (m1, b) = (case buff of
            None \<Rightarrow> (m\<lparr>pm_heap := pm_heap m @ [shbuf_init]\<rparr>, length (pm_heap m))
          | Some a \<Rightarrow> (m, a))
      in case pl_pool pool of
           None \<Rightarrow> (m1, \<lparr>pl_pool = Some [Some b], pl_max = 1\<rparr>)
         | Some arr \<Rightarrow>
             (m1, \<lparr>pl_pool = Some (take (pl_max pool) (arr @ replicate (pl_max pool) None) @ [Some b]),
                   pl_max = pl_max pool + 1\<rparr>))"

definition shpool_size :: "shpool \<Rightarrow> nat" where
  "shpool_size pool = pl_max pool"

definition pool_slot :: "shpool \<Rightarrow> nat \<Rightarrow> fault + nat ptr" where
  "pool_slot pool i =
     (case pl_pool pool of
        None \<Rightarrow> Inl NullDeref
      | Some arr \<Rightarrow> if i < length arr then Inr (arr ! i) else Inl OutOfBounds)"

definition shpool_get :: "poolmem \<Rightarrow> shpool \<Rightarrow> fault + (nat ptr \<times> nat \<times> poolmem \<times> shpool)" where
  "shpool_get m pool =
     (let (m1, p1) = (if pl_max pool < 2 then shalloc_pool_incr m pool None else (m, pool));
          idx = unat (pm_index m1) mod pl_max p1;
          m2 = m1\<lparr>pm_index := pm_index m1 + 1\<rparr>
      in run_bind (pool_slot p1 idx) (\<lambda>b. Inr (b, idx, m2, p1)))"

definition shpool_grow :: "poolmem \<Rightarrow> shpool \<Rightarrow> poolmem \<times> shpool" where
  "shpool_grow m pool = shalloc_pool_incr m pool None"

definition shpool_get_index :: "shpool \<Rightarrow> int \<Rightarrow> fault + nat ptr" where
  "shpool_get_index pool index =
     (if index < 0 \<or> int (pl_max pool) \<le> index then Inr None
      else pool_slot pool (nat index mod pl_max pool))"

definition shpool_put :: "poolmem \<Rightarrow> shpool \<Rightarrow> nat ptr \<Rightarrow> poolmem \<times> shpool" where
  "shpool_put m pool buff = shalloc_pool_incr m pool buff"

fun shpool_free_loop :: "poolmem \<Rightarrow> shpool \<Rightarrow> nat list \<Rightarrow> fault + release list" where
  "shpool_free_loop m pool [] = Inr []"
| "shpool_free_loop m pool (i # is) =
     run_bind (pool_slot pool i)
       (\<lambda>b. run_bind (case b of None \<Rightarrow> Inr []
                     | Some a \<Rightarrow> if a < length (pm_heap m) then Inr (shbuf_free (Some (pm_heap m ! a)))
                                 else Inl OutOfBounds)
          (\<lambda>r. run_bind (shpool_free_loop m pool is) (\<lambda>rs. Inr (r @ rs))))"

definition shpool_free :: "poolmem \<Rightarrow> shpool ptr \<Rightarrow> fault + release list" where
  "shpool_free m poolp =
     (case poolp of None \<Rightarrow> Inr [] | Some pool \<Rightarrow> shpool_free_loop m pool [0..<pl_max pool])"

text \<open>The inner and the outer loop of \<open>_shpool_compact\<close>; \<open>n\<close> is \<open>pool->max\<close>.\<close>

function compact_find :: "nat ptr list \<Rightarrow> nat \<Rightarrow> nat \<Rightarrow> fault + nat ptr" where
  "compact_find arr n j =
     (if j < n then
        (if length arr \<le> j then Inl OutOfBounds
         else if arr ! j \<noteq> None then Inr (Some j)
         else compact_find arr n (j + 1))
      else Inr None)"
  by pat_completeness auto
termination
  by (relation "measure (\<lambda>(arr, n, j). n - j)") auto

function compact_loop :: "nat ptr list \<Rightarrow> nat \<Rightarrow> nat \<Rightarrow> nat \<Rightarrow> fault + (nat ptr list \<times> nat)" where
  "compact_loop arr n mx i =
     (if i < n then
        (if length arr \<le> i then Inl OutOfBounds
         else if arr ! i \<noteq> None then compact_loop arr n (i + 1) (i + 1)
         else run_bind (compact_find arr n (i + 1))
                (\<lambda>r. case r of
                     None \<Rightarrow> compact_loop arr n mx (i + 1)
                   | Some j \<Rightarrow> compact_loop (arr[i := arr ! j, j := None]) n mx (i + 1)))
      else Inr (arr, mx))"
  by pat_completeness auto
termination
  by (relation "measure (\<lambda>(arr, n, mx, i). n - i)") auto

declare compact_find.simps [simp del] compact_loop.simps [simp del]

definition shpool_compact :: "shpool ptr \<Rightarrow> fault + shpool ptr" where
  "shpool_compact poolp =
     (case poolp of
        None \<Rightarrow> Inr None
      | Some pool \<Rightarrow>
          (case pl_pool pool of
             None \<Rightarrow> if pl_max pool = 0 then Inr (Some pool) else Inl NullDeref
           | Some arr \<Rightarrow>
               run_bind (compact_loop arr (pl_max pool) 0 0)
                 (\<lambda>(arr', mx). Inr (Some \<lparr>pl_pool = Some arr', pl_max = mx\<rparr>))))"

definition shpool_pull :: "poolmem \<Rightarrow> shpool \<Rightarrow> fault + (nat ptr \<times> poolmem \<times> shpool)" where
  "shpool_pull m pool =
     (let (m1, p1) = (if pl_max pool < 2 then shalloc_pool_incr m pool None else (m, pool));
          idx = unat (pm_index m1) mod pl_max p1;
          m2 = m1\<lparr>pm_index := pm_index m1 + 1\<rparr>
      in run_bind (pool_slot p1 idx)
           (\<lambda>b. run_bind (shpool_compact (Some (p1\<lparr>pl_pool := map_option (\<lambda>arr. arr[idx := None]) (pl_pool p1)\<rparr>)))
              (\<lambda>r. case r of None \<Rightarrow> Inl NullDeref | Some p2 \<Rightarrow> Inr (b, m2, p2))))"

definition shpool_push :: "poolmem \<Rightarrow> shpool \<Rightarrow> nat ptr \<Rightarrow> fault + (poolmem \<times> shpool)" where
  "shpool_push m pool buff =
     run_bind (case buff of
          None \<Rightarrow> Inr m
        | Some a \<Rightarrow>
            if a < length (pm_heap m) then
              run_bind (shbuf_clear (Some (pm_heap m ! a)))
                (\<lambda>r. Inr (m\<lparr>pm_heap := (pm_heap m)[a := (case r of None \<Rightarrow> pm_heap m ! a | Some b \<Rightarrow> b)]\<rparr>))
            else Inl OutOfBounds)
       (\<lambda>m1. Inr (shpool_put m1 pool buff))"

section \<open>Invariant\<close>

text \<open>The buffers a pool holds, in order, and what makes a pool well formed: the first \<open>max\<close>
  slots exist and hold pointers to buffers of the heap.\<close>

definition pool_live :: "shpool \<Rightarrow> nat list" where
  "pool_live pool = (case pl_pool pool of None \<Rightarrow> [] | Some arr \<Rightarrow> map the (take (pl_max pool) arr))"

definition pool_inv :: "poolmem \<Rightarrow> shpool \<Rightarrow> bool" where
  "pool_inv m pool \<longleftrightarrow>
     (case pl_pool pool of
        None \<Rightarrow> pl_max pool = 0
      | Some arr \<Rightarrow> pl_max pool \<le> length arr \<and>
          (\<forall>i < pl_max pool. arr ! i \<noteq> None \<and> the (arr ! i) < length (pm_heap m)))"

lemma pool_live_length: "pool_inv m pool \<Longrightarrow> length (pool_live pool) = pl_max pool"
  by (auto simp: pool_inv_def pool_live_def split: option.splits)

lemma pool_live_nth: "pool_inv m pool \<Longrightarrow> i < pl_max pool \<Longrightarrow> pool_slot pool i = Inr (Some (pool_live pool ! i))"
  by (auto simp: pool_inv_def pool_live_def pool_slot_def split: option.splits)

lemma pool_init_inv [simp]: "pool_inv m shpool_init" "pool_live shpool_init = []"
  by (simp_all add: pool_inv_def pool_live_def shpool_init_def)

lemma pool_incr_ok:
  assumes "pool_inv m pool" "case buff of None \<Rightarrow> True | Some a \<Rightarrow> a < length (pm_heap m)"
    and "shalloc_pool_incr m pool buff = (m', p')"
  shows "pool_inv m' p'" "pl_max p' = pl_max pool + 1"
    "pool_live p' = pool_live pool @ [case buff of None \<Rightarrow> length (pm_heap m) | Some a \<Rightarrow> a]"
    "pm_heap m' = pm_heap m @ (case buff of None \<Rightarrow> [shbuf_init] | Some a \<Rightarrow> [])" "pm_index m' = pm_index m"
proof -
  show "pl_max p' = pl_max pool + 1" "pm_heap m' = pm_heap m @ (case buff of None \<Rightarrow> [shbuf_init] | Some a \<Rightarrow> [])"
    "pm_index m' = pm_index m"
    using assms by (auto simp: shalloc_pool_incr_def pool_inv_def split: option.splits)
  show "pool_live p' = pool_live pool @ [case buff of None \<Rightarrow> length (pm_heap m) | Some a \<Rightarrow> a]"
    using assms by (auto simp: shalloc_pool_incr_def pool_inv_def pool_live_def split: option.splits)
  show "pool_inv m' p'"
  proof (cases "pl_pool pool")
    case None
    with assms show ?thesis by (cases buff) (auto simp: shalloc_pool_incr_def pool_inv_def)
  next
    case (Some arr)
    let ?b = "case buff of None \<Rightarrow> length (pm_heap m) | Some a \<Rightarrow> a"
    have n: "pl_max pool \<le> length arr"
      and live: "\<And>i. i < pl_max pool \<Longrightarrow> arr ! i \<noteq> None \<and> the (arr ! i) < length (pm_heap m)"
      using assms(1) Some by (auto simp: pool_inv_def)
    have p': "p' = \<lparr>pl_pool = Some (take (pl_max pool) arr @ [Some ?b]), pl_max = pl_max pool + 1\<rparr>"
      and h: "length (pm_heap m) \<le> length (pm_heap m')" "?b < length (pm_heap m')"
      using assms n Some by (cases buff; simp add: shalloc_pool_incr_def; force)+
    have "(take (pl_max pool) arr @ [Some ?b]) ! i \<noteq> None \<and>
        the ((take (pl_max pool) arr @ [Some ?b]) ! i) < length (pm_heap m')" if "i < pl_max pool + 1" for i
      using that live [of i] n h by (cases "i < pl_max pool") (auto simp: nth_append)
    then show ?thesis unfolding p' pool_inv_def using n by simp
  qed
qed

section \<open>Compaction\<close>

lemma compact_find_next:
  "n \<le> length arr \<Longrightarrow> (j < n \<Longrightarrow> arr ! j \<noteq> None) \<Longrightarrow>
     compact_find arr n j = Inr (if j < n then Some j else None)"
  by (subst compact_find.simps) simp

lemma compact_prefix:
  assumes "k \<le> n" "n \<le> length arr" "\<And>i. i < k \<Longrightarrow> arr ! i \<noteq> None" "i \<le> k"
  shows "compact_loop arr n i i = compact_loop arr n k k"
  using assms(4)
proof (induction "k - i" arbitrary: i)
  case 0
  then show ?case by simp
next
  case (Suc d)
  then have i: "i < k" by simp
  have "compact_loop arr n i i = compact_loop arr n (i + 1) (i + 1)"
    using assms(1,2) assms(3) [OF i] i by (subst compact_loop.simps) simp
  moreover have "compact_loop arr n (i + 1) (i + 1) = compact_loop arr n k k"
    using Suc.hyps(2) i by (intro Suc.hyps(1)) simp_all
  ultimately show ?case by simp
qed

text \<open>Behind a hole the outer loop only ever sees empty slots, so the new size stays at the hole.\<close>

lemma compact_hole:
  assumes "n \<le> length arr" "arr ! i = None \<or> n \<le> i" "\<And>j. i < j \<Longrightarrow> j < n \<Longrightarrow> arr ! j \<noteq> None" "mx \<le> i"
  shows "\<exists>arr'. compact_loop arr n mx i = Inr (arr', mx) \<and> length arr' = length arr \<and>
    take mx arr' = take mx arr"
  using assms
proof (induction "n - i" arbitrary: arr i)
  case 0
  then show ?case by (subst compact_loop.simps) simp
next
  case (Suc d)
  then have i: "i < n" "arr ! i = None" by auto
  show ?case
  proof (cases "i + 1 < n")
    case False
    then have "compact_loop arr n mx i = compact_loop arr n mx (i + 1)"
      using i Suc.prems(1) by (subst compact_loop.simps) (simp add: compact_find_next)
    also have "\<dots> = Inr (arr, mx)" using False by (subst compact_loop.simps) simp
    finally show ?thesis by simp
  next
    case True
    let ?a = "arr[i := arr ! (i + 1), i + 1 := None]"
    have "compact_find arr n (i + 1) = Inr (Some (i + 1))"
      using True Suc.prems(1,3) by (simp add: compact_find_next)
    then have step: "compact_loop arr n mx i = compact_loop ?a n mx (i + 1)"
      using i Suc.prems(1) by (subst compact_loop.simps) simp
    have "\<exists>arr'. compact_loop ?a n mx (i + 1) = Inr (arr', mx) \<and> length arr' = length ?a \<and>
        take mx arr' = take mx ?a"
    proof (rule Suc.hyps(1))
      show "d = n - (i + 1)" using Suc.hyps(2) by simp
      show "n \<le> length ?a" using Suc.prems(1) by simp
      show "?a ! (i + 1) = None \<or> n \<le> i + 1" using True Suc.prems(1) by simp
      show "?a ! j \<noteq> None" if "i + 1 < j" "j < n" for j using that Suc.prems(3) [of j] by simp
      show "mx \<le> i + 1" using Suc.prems(4) by simp
    qed
    then show ?thesis unfolding step using Suc.prems(4) by simp
  qed
qed

lemma pull_compact:
  assumes "pool_inv m pool" "idx < pl_max pool" "pl_pool pool = Some arr"
  shows "\<exists>p2. shpool_compact (Some (pool\<lparr>pl_pool := Some (arr[idx := None])\<rparr>)) = Inr (Some p2) \<and>
    pool_inv m p2 \<and> pool_live p2 = take idx (pool_live pool)"
proof -
  let ?a = "arr[idx := None]" and ?n = "pl_max pool"
  have n: "?n \<le> length arr" and live: "\<And>i. i < ?n \<Longrightarrow> arr ! i \<noteq> None \<and> the (arr ! i) < length (pm_heap m)"
    using assms by (auto simp: pool_inv_def)
  have "compact_loop ?a ?n 0 0 = compact_loop ?a ?n idx idx"
    using n live assms(2) by (intro compact_prefix) auto
  moreover obtain arr' where arr': "compact_loop ?a ?n idx idx = Inr (arr', idx)" "length arr' = length arr"
    "take idx arr' = take idx arr"
    using compact_hole [of ?n ?a idx idx] n live assms(2) by auto
  moreover have "arr' ! i = arr ! i" if "i < idx" for i
    using arr'(3) that by (metis nth_take)
  ultimately show ?thesis
    using n live assms(2,3)
    by (auto simp: shpool_compact_def pool_inv_def pool_live_def take_map min_def)
qed

section \<open>Handing out buffers\<close>

fun shpool_gets :: "poolmem \<Rightarrow> shpool \<Rightarrow> nat \<Rightarrow> fault + nat ptr list" where
  "shpool_gets m pool 0 = Inr []"
| "shpool_gets m pool (Suc k) =
     run_bind (shpool_get m pool)
       (\<lambda>(b, idx, m', pool'). run_bind (shpool_gets m' pool' k) (\<lambda>bs. Inr (b # bs)))"

lemma shpool_get_ok:
  assumes "pool_inv m pool" "2 \<le> pl_max pool"
  shows "shpool_get m pool =
    (let idx = unat (pm_index m) mod pl_max pool
     in Inr (Some (pool_live pool ! idx), idx, m\<lparr>pm_index := pm_index m + 1\<rparr>, pool))"
  using assms pool_live_nth [OF assms(1), of "unat (pm_index m) mod pl_max pool"]
  by (simp add: shpool_get_def Let_def)

lemma pool_inv_index [simp]: "pool_inv (m\<lparr>pm_index := i\<rparr>) pool = pool_inv m pool"
  by (simp add: pool_inv_def split: option.split)

lemma shpool_gets_ok:
  assumes "pool_inv m pool" "2 \<le> pl_max pool" "unat (pm_index m) + k \<le> 2 ^ 32"
  shows "shpool_gets m pool k =
    Inr (map (\<lambda>j. Some (pool_live pool ! ((unat (pm_index m) + j) mod pl_max pool))) [0..<k])"
  using assms
proof (induction k arbitrary: m)
  case 0
  then show ?case by simp
next
  case (Suc k)
  let ?f = "\<lambda>j. Some (pool_live pool ! (j mod pl_max pool))" and ?u = "unat (pm_index m)"
  have ih: "shpool_gets (m\<lparr>pm_index := pm_index m + 1\<rparr>) pool k = Inr (map (\<lambda>j. ?f (?u + 1 + j)) [0..<k])"
  proof (cases k)
    case 0
    then show ?thesis by simp
  next
    case (Suc k')
    then have "?u + 1 < 2 ^ 32" using Suc.prems(3) \<open>k = Suc k'\<close> by simp
    then have "unat (pm_index m + 1) = ?u + 1"
      by (simp add: unat_word_ariths)
    then show ?thesis using Suc.IH [of "m\<lparr>pm_index := pm_index m + 1\<rparr>"] Suc.prems by simp
  qed
  have "map (\<lambda>j. ?f (?u + j)) [0..<Suc k] = ?f ?u # map (\<lambda>j. ?f (?u + 1 + j)) [0..<k]"
    by (simp add: upt_conv_Cons map_Suc_upt [symmetric] o_def del: upt_Suc)
  with ih Suc.prems show ?case by (simp add: shpool_get_ok Let_def)
qed

text \<open>As long as the global counter does not wrap, as many consecutive \<open>shpool_get\<close> calls as
  the pool has buffers hand out every buffer exactly once, in rotation from the counter's
  position.\<close>

theorem shpool_get_rotation:
  assumes "pool_inv m pool" "2 \<le> pl_max pool" "unat (pm_index m) + pl_max pool \<le> 2 ^ 32"
  shows "shpool_gets m pool (pl_max pool) =
    Inr (map Some (rotate (unat (pm_index m) mod pl_max pool) (pool_live pool)))"
proof -
  let ?l = "pool_live pool" and ?u = "unat (pm_index m)"
  have "map (\<lambda>j. Some (?l ! ((?u + j) mod pl_max pool))) [0..<pl_max pool] =
      map Some (rotate (?u mod pl_max pool) ?l)"
  proof (rule nth_equalityI)
    fix i assume "i < length (map (\<lambda>j. Some (?l ! ((?u + j) mod pl_max pool))) [0..<pl_max pool])"
    then show "map (\<lambda>j. Some (?l ! ((?u + j) mod pl_max pool))) [0..<pl_max pool] ! i =
        map Some (rotate (?u mod pl_max pool) ?l) ! i"
      using pool_live_length [OF assms(1)] by (simp add: nth_rotate mod_simps add.commute)
  qed (simp add: pool_live_length [OF assms(1)])
  with shpool_gets_ok [OF assms] show ?thesis by simp
qed

definition pool_three :: shpool where
  "pool_three = \<lparr>pl_pool = Some [Some 0, Some 1, Some 2], pl_max = 3\<rparr>"

definition pool_heap3 :: poolmem where
  "pool_heap3 = \<lparr>pm_heap = [shbuf_init, shbuf_init, shbuf_init], pm_index = 4\<rparr>"

lemma pool_three_inv: "pool_inv pool_heap3 pool_three"
  by (auto simp: pool_inv_def pool_three_def pool_heap3_def less_Suc_eq numeral_3_eq_3)

theorem shpool_get_rotation_witness:
  "shpool_gets pool_heap3 pool_three 3 = Inr [Some 1, Some 2, Some 0]"
  using shpool_get_rotation [OF pool_three_inv]
  by (simp add: pool_three_def pool_heap3_def pool_live_def)

text \<open>C40: \<open>shpool_pull\<close> returns the buffer the counter points at, but the compaction that follows
  records the position of the hole as the new size: of the remaining buffers the pool keeps
  only those in front of the one taken, and all behind it are lost to the pool.\<close>

theorem shpool_pull_keeps_prefix:
  assumes "pool_inv m pool" "2 \<le> pl_max pool" "idx = unat (pm_index m) mod pl_max pool"
  shows "\<exists>p'. shpool_pull m pool =
      Inr (Some (pool_live pool ! idx), m\<lparr>pm_index := pm_index m + 1\<rparr>, p') \<and>
    pool_inv m p' \<and> pool_live p' = take idx (pool_live pool)"
proof -
  have idx: "idx < pl_max pool" using assms(2,3) by simp
  obtain arr where arr: "pl_pool pool = Some arr"
    using assms(1,2) by (auto simp: pool_inv_def split: option.splits)
  from pull_compact [OF assms(1) idx arr] show ?thesis
    using pool_live_nth [OF assms(1) idx] assms(2,3) arr by (auto simp: shpool_pull_def Let_def)
qed

theorem shpool_pull_keeps_prefix_witness:
  "\<exists>m' p'. shpool_pull pool_heap3 pool_three = Inr (Some 1, m', p') \<and> pool_live p' = [0]"
  using shpool_pull_keeps_prefix [OF pool_three_inv]
  by (auto simp: pool_three_def pool_heap3_def pool_live_def)

text \<open>Retiring a buffer into the pool empties it, appends it behind the buffers already there
  and touches no other buffer; the pool stays well formed.\<close>

theorem shpool_push_ok:
  assumes "pool_inv m pool" "a < length (pm_heap m)" "shbuf_inv (pm_heap m ! a)"
  shows "\<exists>m' p'. shpool_push m pool (Some a) = Inr (m', p') \<and> pool_inv m' p' \<and>
    pool_live p' = pool_live pool @ [a] \<and> shbuf_content (pm_heap m' ! a) = [] \<and>
    (\<forall>b. b \<noteq> a \<longrightarrow> pm_heap m' ! b = pm_heap m ! b)"
proof -
  obtain buf where buf: "shbuf_clear (Some (pm_heap m ! a)) = Inr (Some buf)" "shbuf_content buf = []"
    using shbuf_clear_ok [OF assms(3)] by blast
  let ?m = "m\<lparr>pm_heap := (pm_heap m)[a := buf]\<rparr>"
  obtain m' p' where mp: "shpool_put ?m pool (Some a) = (m', p')" by fastforce
  have "pool_inv ?m pool" using assms(1) by (simp add: pool_inv_def split: option.splits)
  from pool_incr_ok [OF this, of "Some a" m' p'] mp assms(2)
  have "pool_inv m' p'" "pool_live p' = pool_live pool @ [a]" "pm_heap m' = (pm_heap m)[a := buf]"
    by (simp_all add: shpool_put_def)
  with buf mp assms(2) show ?thesis by (auto simp: shpool_push_def)
qed

theorem shpool_push_ok_witness:
  "\<exists>m' p'. shpool_push pool_heap3 shpool_init (Some 2) = Inr (m', p') \<and> pool_live p' = [2] \<and>
     shbuf_content (pm_heap m' ! 2) = []"
  using shpool_push_ok [of pool_heap3 shpool_init 2] by (auto simp: pool_heap3_def)

end
