(* ===== verification/Share_Lock.thy ===== *)
theory Share_Lock
  imports Share_Map
begin

text \<open>
  The named locks of \<^verbatim>\<open>share-lib/mem/shmem_lock.c\<close>: a process-wide hash map from
  keys to lock objects, opened and closed by threads.  Both builds are modelled:
  with POSIX mutexes (\<open>USE_LIBPTHREAD\<close>, the flag \<open>mt\<close> below) and without.

  The lock objects live in a heap and the map stores their addresses.  A call
  that has to wait for a mutex is the value \<open>None\<close>.  \<open>Share_Lock_Race\<close>
  splits \<open>shlock_open\<close> and \<open>shlock_close\<close> into the accesses other threads can
  interleave with.
\<close>

section \<open>Data\<close>

text \<open>A POSIX mutex: whether it was initialised as recursive, its owner and how often the
  owner locked it.\<close>

record mutex =
  mx_rec :: bool
  mx_owner :: "u32 option"
  mx_depth :: nat

record shlock =
  lk_ref :: u32
  lk_tid :: u32
  lk_mutex :: mutex

record lockst =
  ls_map :: shmap
  ls_heap :: "shlock list"

definition SHLK_PRIVATE :: u32 where "SHLK_PRIVATE = 0x80"

definition SHLOCK_SIZE :: nat where "SHLOCK_SIZE = 88"

text \<open>The process-wide table is created by the first call: \<open>None\<close> is the state before it.\<close>

definition get_shlock_map :: "libc \<Rightarrow> lockst ptr \<Rightarrow> fault + lockst" where
  "get_shlock_map c stp =
     (case stp of Some st \<Rightarrow> Inr st
      | None \<Rightarrow> run_bind (shmap_init c) (\<lambda>mp. Inr \<lparr>ls_map = mp, ls_heap = []\<rparr>))"

definition is_private :: "u32 \<Rightarrow> bool" where
  "is_private flags \<longleftrightarrow> flags AND SHLK_PRIVATE \<noteq> 0"

definition shlock_new :: "u32 \<Rightarrow> shlock" where
  "shlock_new flags = \<lparr>lk_ref = 0, lk_tid = 0,
     lk_mutex = \<lparr>mx_rec = (\<not> is_private flags), mx_owner = None, mx_depth = 0\<rparr>\<rparr>"

section \<open>POSIX mutexes\<close>

definition mutex_trylock :: "mutex \<Rightarrow> u32 \<Rightarrow> mutex option" where
  "mutex_trylock mx tid =
     (case mx_owner mx of
        None \<Rightarrow> Some (mx\<lparr>mx_owner := Some tid, mx_depth := 1\<rparr>)
      | Some t \<Rightarrow> if t = tid \<and> mx_rec mx then Some (mx\<lparr>mx_depth := mx_depth mx + 1\<rparr>) else None)"

definition mutex_unlock :: "mutex \<Rightarrow> u32 \<Rightarrow> fault + (int \<times> mutex)" where
  "mutex_unlock mx tid =
     (if mx_owner mx = Some tid
      then Inr (0, if mx_depth mx \<le> 1 then mx\<lparr>mx_owner := None, mx_depth := 0\<rparr>
                   else mx\<lparr>mx_depth := mx_depth mx - 1\<rparr>)
      else if mx_rec mx then Inr (1, mx) else Inl Undefined)"

section \<open>Opening and closing\<close>

text \<open>The part \<open>shlock_open\<close> and \<open>shlock_tryopen\<close> share: find the lock of the key, or allocate
  and store a new one (the flag says which); \<open>None\<close> is the failed allocation.\<close>

definition lock_find ::
    "libc \<Rightarrow> (nat \<Rightarrow> byte list) \<Rightarrow> lockst \<Rightarrow> shkey ptr \<Rightarrow> u32 \<Rightarrow> fault + (nat \<times> bool \<times> lockst) ptr" where
  "lock_find c mem st key flags =
     run_bind (shmap_get_ptr (Some (ls_map st)) key)
       (\<lambda>r. case r of
          Some (Ref a) \<Rightarrow> if a < length (ls_heap st) then Inr (Some (a, False, st)) else Inl OutOfBounds
        | Some (Own _) \<Rightarrow> Inl OutOfBounds
        | None \<Rightarrow>
            if \<not> calloc_ok c SHLOCK_SIZE then Inr None
            else run_bind (shmap_set_ptr c mem (Some (ls_map st)) key (Some (length (ls_heap st))))
                   (\<lambda>h. case h of None \<Rightarrow> Inl NullDeref
                      | Some mp \<Rightarrow> Inr (Some (length (ls_heap st), True,
                          \<lparr>ls_map = mp, ls_heap = ls_heap st @ [shlock_new flags]\<rparr>))))"

definition lock_set :: "lockst \<Rightarrow> nat \<Rightarrow> shlock \<Rightarrow> lockst" where
  "lock_set st a lk = st\<lparr>ls_heap := (ls_heap st)[a := lk]\<rparr>"

definition lock_take :: "lockst \<Rightarrow> nat \<Rightarrow> u32 \<Rightarrow> lockst" where
  "lock_take st a tid =
     lock_set st a ((ls_heap st ! a)\<lparr>lk_tid := tid, lk_ref := lk_ref (ls_heap st ! a) + 1\<rparr>)"

definition shlock_open ::
    "bool \<Rightarrow> libc \<Rightarrow> (nat \<Rightarrow> byte list) \<Rightarrow> u32 \<Rightarrow> lockst ptr \<Rightarrow> shkey ptr \<Rightarrow> u32 \<Rightarrow>
      (fault + (nat ptr \<times> lockst)) option" where
  "shlock_open mt c mem tid stp key flags =
     (case run_bind (get_shlock_map c stp)
             (\<lambda>st. run_bind (lock_find c mem st key flags) (\<lambda>r. Inr (st, r))) of
        Inl e \<Rightarrow> Some (Inl e)
      | Inr (st, None) \<Rightarrow> Some (Inr (None, st))
      | Inr (st, Some (a, created, st1)) \<Rightarrow>
          (let lk = ls_heap st1 ! a in
           if mt
           then (case mutex_trylock (lk_mutex lk) tid of
                   None \<Rightarrow> None
                 | Some mx \<Rightarrow> Some (Inr (Some a, lock_take (lock_set st1 a (lk\<lparr>lk_mutex := mx\<rparr>)) a tid)))
           else if lk_ref lk \<noteq> 0 \<and> is_private flags then Some (Inr (None, st1))
           else if lk_ref lk \<noteq> 0 \<and> tid \<noteq> lk_tid lk then Some (Inr (None, st1))
           else Some (Inr (Some a, lock_take st1 a tid))))"

definition shlock_tryopen ::
    "bool \<Rightarrow> libc \<Rightarrow> (nat \<Rightarrow> byte list) \<Rightarrow> u32 \<Rightarrow> lockst ptr \<Rightarrow> shkey ptr \<Rightarrow> u32 \<Rightarrow>
      fault + (int \<times> nat ptr \<times> lockst)" where
  "shlock_tryopen mt c mem tid stp key flags =
     run_bind (get_shlock_map c stp) (\<lambda>st. run_bind (lock_find c mem st key flags)
       (\<lambda>r. case r of
          None \<Rightarrow> Inr (- 1, None, st)
        | Some (a, created, st1) \<Rightarrow>
            (let lk = ls_heap st1 ! a in
             if \<not> created \<and> lk_ref lk \<noteq> 0 \<and> is_private flags then Inr (1, None, st1)
             else if \<not> created \<and> lk_ref lk \<noteq> 0 \<and> tid \<noteq> lk_tid lk then Inr (1, None, st1)
             else if (lk_ref lk = 0 \<or> lk_tid lk \<noteq> tid) \<and> mt
             then (case mutex_trylock (lk_mutex lk) tid of
                     None \<Rightarrow> Inr (1, None, st1)
                   | Some mx \<Rightarrow> Inr (0, Some a, lock_take (lock_set st1 a (lk\<lparr>lk_mutex := mx\<rparr>)) a tid))
             else Inr (0, Some a, lock_take st1 a tid))))"

definition lock_drop :: "shlock \<Rightarrow> shlock" where
  "lock_drop lk =
     (let ref = lk_ref lk - 1 in lk\<lparr>lk_ref := ref, lk_tid := (if ref = 0 then 0 else lk_tid lk)\<rparr>)"

definition shlock_close :: "bool \<Rightarrow> libc \<Rightarrow> u32 \<Rightarrow> lockst ptr \<Rightarrow> shkey ptr \<Rightarrow> fault + (int \<times> lockst)" where
  "shlock_close mt c tid stp key =
     run_bind (get_shlock_map c stp) (\<lambda>st. run_bind (shmap_get_ptr (Some (ls_map st)) key)
       (\<lambda>r. case r of
          None \<Rightarrow> Inr (0, st)
        | Some (Own _) \<Rightarrow> Inl OutOfBounds
        | Some (Ref a) \<Rightarrow>
            if length (ls_heap st) \<le> a then Inl OutOfBounds
            else (let lk = ls_heap st ! a in
              if lk_ref lk = 0 then Inr (0, st)
              else if tid \<noteq> lk_tid lk then Inr (0, st)
              else if mt
              then run_bind (mutex_unlock (lk_mutex lk) tid)
                     (\<lambda>(err, mx). if err \<noteq> 0 then Inr (- 1, st)
                        else Inr (0, lock_set st a (lock_drop (lk\<lparr>lk_mutex := mx\<rparr>))))
              else Inr (0, lock_set st a (lock_drop lk)))))"

section \<open>What the lock table promises\<close>

text \<open>Abstractly a table of locks maps the keys that are held to their holder and nesting
  depth.\<close>

type_synonym lspec = "shkey \<Rightarrow> (u32 \<times> nat) option"

datatype lockop =
    LOpen u32 shkey u32
  | LTry u32 shkey u32
  | LClose u32 shkey

definition acquire_spec :: "u32 \<Rightarrow> shkey \<Rightarrow> u32 \<Rightarrow> lspec \<Rightarrow> bool \<times> lspec" where
  "acquire_spec tid k flags m =
     (case m k of
        None \<Rightarrow> (True, m(k \<mapsto> (tid, 1)))
      | Some (t, n) \<Rightarrow> if is_private flags \<or> t \<noteq> tid then (False, m) else (True, m(k \<mapsto> (tid, n + 1))))"

fun lockop_spec :: "lockop \<Rightarrow> lspec \<Rightarrow> bool \<times> lspec" where
  "lockop_spec (LOpen tid k flags) m = acquire_spec tid k flags m"
| "lockop_spec (LTry tid k flags) m = acquire_spec tid k flags m"
| "lockop_spec (LClose tid k) m =
     (True, case m k of None \<Rightarrow> m
        | Some (t, n) \<Rightarrow> if t \<noteq> tid then m else if n = 1 then m(k := None) else m(k \<mapsto> (t, n - 1)))"

fun lockop_exec :: "libc \<Rightarrow> (nat \<Rightarrow> byte list) \<Rightarrow> lockop \<Rightarrow> lockst ptr \<Rightarrow> fault + (bool \<times> lockst)" where
  "lockop_exec c mem (LOpen tid k flags) st =
     (case shlock_open False c mem tid st (Some k) flags of
        None \<Rightarrow> Inl Diverge
      | Some r \<Rightarrow> run_bind r (\<lambda>(p, st'). Inr (p \<noteq> None, st')))"
| "lockop_exec c mem (LTry tid k flags) st =
     run_bind (shlock_tryopen False c mem tid st (Some k) flags) (\<lambda>(e, p, st'). Inr (e = 0, st'))"
| "lockop_exec c mem (LClose tid k) st =
     run_bind (shlock_close False c tid st (Some k)) (\<lambda>(e, st'). Inr (e = 0, st'))"

fun lockops_exec :: "libc \<Rightarrow> (nat \<Rightarrow> byte list) \<Rightarrow> lockop list \<Rightarrow> lockst ptr \<Rightarrow> fault + (bool list \<times> lockst ptr)" where
  "lockops_exec c mem [] st = Inr ([], st)"
| "lockops_exec c mem (p # ps) st =
     run_bind (lockop_exec c mem p st)
       (\<lambda>(b, st1). run_bind (lockops_exec c mem ps (Some st1)) (\<lambda>(bs, st2). Inr (b # bs, st2)))"

fun lockops_spec :: "lockop list \<Rightarrow> lspec \<Rightarrow> bool list \<times> lspec" where
  "lockops_spec [] m = ([], m)"
| "lockops_spec (p # ps) m =
     (let (b, m1) = lockop_spec p m; (bs, m2) = lockops_spec ps m1 in (b # bs, m2))"

fun lockop_wf :: "lockop \<Rightarrow> bool" where
  "lockop_wf (LOpen tid k flags) \<longleftrightarrow> shkey_wf k"
| "lockop_wf (LTry tid k flags) \<longleftrightarrow> shkey_wf k"
| "lockop_wf (LClose tid k) \<longleftrightarrow> shkey_wf k"

section \<open>Invariant\<close>

definition lock_inv :: "lockst \<Rightarrow> bool" where
  "lock_inv st \<longleftrightarrow> shmap_inv (ls_map st) \<and>
     (\<forall>k v. table_abs (ls_map st) k = Some v \<longrightarrow> (\<exists>a < length (ls_heap st). v = Ref a)) \<and>
     (\<forall>k k' v. table_abs (ls_map st) k = Some v \<longrightarrow> table_abs (ls_map st) k' = Some v \<longrightarrow> k = k')"

definition held :: "shlock \<Rightarrow> (u32 \<times> nat) option" where
  "held lk = (if lk_ref lk = 0 then None else Some (lk_tid lk, unat (lk_ref lk)))"

definition lock_abs :: "lockst \<Rightarrow> lspec" where
  "lock_abs st k =
     (case table_abs (ls_map st) k of
        Some (Ref a) \<Rightarrow> held (ls_heap st ! a)
      | _ \<Rightarrow> None)"

text \<open>The state before the first call holds nothing; the first call starts from an empty table.\<close>

definition proc_abs :: "lockst ptr \<Rightarrow> lspec" where
  "proc_abs stp = (case stp of None \<Rightarrow> Map.empty | Some st \<Rightarrow> lock_abs st)"

definition lockst_init :: lockst where
  "lockst_init = \<lparr>ls_map = shmap_empty, ls_heap = []\<rparr>"

lemma get_shlock_map_simps [simp]:
  "get_shlock_map c (Some st) = Inr st"
  "map_libc c \<Longrightarrow> get_shlock_map c None = Inr lockst_init"
  by (simp_all add: get_shlock_map_def lockst_init_def shmap_init_ok)

definition refs_below :: "nat \<Rightarrow> lockst \<Rightarrow> bool" where
  "refs_below n st \<longleftrightarrow> (\<forall>lk \<in> set (ls_heap st). unat (lk_ref lk) \<le> n)"

lemma lock_inv_init: "lock_inv lockst_init" "lock_abs lockst_init = Map.empty" "refs_below 0 lockst_init"
  by (auto simp: lock_inv_def lockst_init_def lock_abs_def table_abs_def shmap_empty_inv refs_below_def)

lemma lock_abs_at: "table_abs (ls_map st) k = Some (Ref a) \<Longrightarrow> lock_abs st k = held (ls_heap st ! a)"
  by (simp add: lock_abs_def)

lemma lock_set_ok:
  assumes "lock_inv st" "table_abs (ls_map st) k = Some (Ref a)"
  shows "lock_inv (lock_set st a lk)" "lock_abs (lock_set st a lk) = (lock_abs st)(k := held lk)"
proof -
  have a: "a < length (ls_heap st)" using assms by (auto simp: lock_inv_def)
  show "lock_inv (lock_set st a lk)" using assms(1) by (simp add: lock_inv_def lock_set_def)
  have "(ls_heap st)[a := lk] ! b = ls_heap st ! b"
    if "table_abs (ls_map st) k' = Some (Ref b)" "k' \<noteq> k" for k' b
    using assms that by (intro nth_list_update_neq) (auto simp: lock_inv_def)
  with a assms(2) show "lock_abs (lock_set st a lk) = (lock_abs st)(k := held lk)"
    by (auto simp: lock_abs_def lock_set_def fun_eq_iff split: option.split mval.split)
qed

lemma refs_below_set:
  "refs_below n st \<Longrightarrow> n \<le> m \<Longrightarrow> unat (lk_ref lk) \<le> m \<Longrightarrow> refs_below m (lock_set st a lk)"
  by (auto simp: refs_below_def lock_set_def dest!: set_update_subset_insert [THEN subsetD])

lemma lock_lookup:
  "shmap_inv mp \<Longrightarrow> shkey_wf k \<Longrightarrow> shmap_get_ptr (Some mp) (Some k) = Inr (table_abs mp k)"
  by (simp add: shmap_get_ptr_def shmap_get_table)

lemma shmap_set_ptr_put:
  "put_ptr c mem ht k a = Inr ht' \<Longrightarrow> shmap_set_ptr c mem (Some ht) (Some k) (Some a) = Inr (Some ht')"
  by (auto simp: put_ptr_def run_bind_eq_Inr split: option.splits)

text \<open>The requests for a lock and for the table's own blocks are met.\<close>

definition lock_libc :: "libc \<Rightarrow> bool" where
  "lock_libc c \<longleftrightarrow> map_libc c \<and> calloc_ok c SHLOCK_SIZE"

lemma lock_libcD [simp]: "lock_libc c \<Longrightarrow> map_libc c" "lock_libc c \<Longrightarrow> calloc_ok c SHLOCK_SIZE"
  by (simp_all add: lock_libc_def)

lemma lock_find_ok:
  assumes "lock_inv st" "shkey_wf k" "lock_libc c" "refs_below n st"
  shows "\<exists>a created st1. lock_find c mem st (Some k) flags = Inr (Some (a, created, st1)) \<and> lock_inv st1 \<and>
    lock_abs st1 = lock_abs st \<and> table_abs (ls_map st1) k = Some (Ref a) \<and> a < length (ls_heap st1) \<and>
    (created \<longrightarrow> lk_ref (ls_heap st1 ! a) = 0) \<and> refs_below n st1"
proof (cases "table_abs (ls_map st) k")
  case (Some v)
  then obtain a where "v = Ref a" "a < length (ls_heap st)" using assms(1) by (auto simp: lock_inv_def)
  with Some assms show ?thesis
    by (auto simp: lock_find_def lock_lookup lock_inv_def)
next
  case None
  let ?a = "length (ls_heap st)"
  have inv: "shmap_inv (ls_map st)" using assms(1) by (simp add: lock_inv_def)
  have get: "shmap_get_ptr (Some (ls_map st)) (Some k) = Inr None"
    using None lock_lookup [OF inv assms(2)] by simp
  obtain mp where mp: "put_ptr c mem (ls_map st) k ?a = Inr mp" "shmap_inv mp"
    "table_abs mp = (table_abs (ls_map st))(k \<mapsto> Ref ?a)"
    using ptab.store_abs [OF conjI [OF lock_libcD(1) [OF assms(3)] inv] assms(2)] by blast
  let ?st = "\<lparr>ls_map = mp, ls_heap = ls_heap st @ [shlock_new flags]\<rparr>"
  have val: "\<exists>b < ?a. v = Ref b" if "table_abs (ls_map st) k' = Some v" for k' v
    using assms(1) that by (auto simp: lock_inv_def)
  have "lock_find c mem st (Some k) flags = Inr (Some (?a, True, ?st))"
    using get assms(3) shmap_set_ptr_put [OF mp(1)] by (simp add: lock_find_def)
  moreover have "lock_inv ?st"
    using mp(2) assms(1) val unfolding lock_inv_def
    by (auto simp: mp(3) less_Suc_eq split: if_splits)
  moreover have "lock_abs ?st = lock_abs st"
    using None val
    by (auto simp: lock_abs_def mp(3) fun_eq_iff held_def shlock_new_def nth_append
        split: option.split mval.split)
  ultimately show ?thesis
    using assms(4) mp(3) by (auto simp: refs_below_def shlock_new_def)
qed

lemma lock_take_ok:
  assumes "lock_inv st" "table_abs (ls_map st) k = Some (Ref a)" "a < length (ls_heap st)" "refs_below n st"
    "n + 1 < 2 ^ 32"
  shows "lock_inv (lock_take st a tid)" "refs_below (n + 1) (lock_take st a tid)"
    "lock_abs (lock_take st a tid) = (lock_abs st)(k \<mapsto> (tid, unat (lk_ref (ls_heap st ! a)) + 1))"
proof -
  let ?lk = "ls_heap st ! a"
  have r: "unat (lk_ref ?lk) \<le> n" using assms(3,4) by (simp add: refs_below_def)
  then have u: "unat (lk_ref ?lk + 1) = unat (lk_ref ?lk) + 1"
    using assms(5) by (simp add: unat_word_ariths)
  then have nz: "lk_ref ?lk + 1 \<noteq> 0" by (metis add_is_0 unat_0 zero_neq_one)
  show "lock_inv (lock_take st a tid)" unfolding lock_take_def by (rule lock_set_ok [OF assms(1,2)])
  show "refs_below (n + 1) (lock_take st a tid)"
    unfolding lock_take_def using r by (intro refs_below_set [OF assms(4)]) (simp_all add: u)
  show "lock_abs (lock_take st a tid) = (lock_abs st)(k \<mapsto> (tid, unat (lk_ref ?lk) + 1))"
    unfolding lock_take_def lock_set_ok(2) [OF assms(1,2)] by (simp add: held_def nz u)
qed

lemma lock_drop_held:
  assumes "lk_ref lk \<noteq> 0"
  shows "held (lock_drop lk) = (if unat (lk_ref lk) = 1 then None else Some (lk_tid lk, unat (lk_ref lk) - 1))"
    "unat (lk_ref (lock_drop lk)) = unat (lk_ref lk) - 1"
proof -
  have pos: "0 < unat (lk_ref lk)" using assms by (simp add: unat_gt_0)
  show u: "unat (lk_ref (lock_drop lk)) = unat (lk_ref lk) - 1"
    using assms by (simp add: lock_drop_def Let_def unat_minus_one)
  have "lk_ref lk - 1 = 0 \<longleftrightarrow> unat (lk_ref lk) = 1"
    using pos u by (auto simp: lock_drop_def Let_def unat_eq_0 [symmetric])
  with u show "held (lock_drop lk) = (if unat (lk_ref lk) = 1 then None else Some (lk_tid lk, unat (lk_ref lk) - 1))"
    by (simp add: held_def lock_drop_def Let_def)
qed

lemma acquire_refine:
  assumes "lock_inv st" "shkey_wf k" "lock_libc c" "refs_below n st" "n + 1 < 2 ^ 32"
    and "p = LOpen tid k flags \<or> p = LTry tid k flags"
  shows "\<exists>b st'. lockop_exec c mem p (Some st) = Inr (b, st') \<and> lock_inv st' \<and> refs_below (n + 1) st' \<and>
    lockop_spec p (lock_abs st) = (b, lock_abs st')"
proof -
  obtain a created st1 where f: "lock_find c mem st (Some k) flags = Inr (Some (a, created, st1))"
    "lock_inv st1" "lock_abs st1 = lock_abs st" "table_abs (ls_map st1) k = Some (Ref a)"
    "a < length (ls_heap st1)" "created \<longrightarrow> lk_ref (ls_heap st1 ! a) = 0" "refs_below n st1"
    using lock_find_ok [OF assms(1-4)] by blast
  note t = lock_take_ok [OF f(2,4,5,7) assms(5), of tid]
  let ?lk = "ls_heap st1 ! a"
  have ab: "lock_abs st k = held ?lk" using lock_abs_at [OF f(4)] f(3) by simp
  have rb: "refs_below (n + 1) st1" using f(7) by (auto simp: refs_below_def)
  show ?thesis
  proof (cases "lk_ref ?lk = 0")
    case True
    then have "lock_abs st k = None" using ab by (simp add: held_def)
    with True f(1) t f(3) assms(6) show ?thesis
      by (auto simp: shlock_open_def shlock_tryopen_def acquire_spec_def Let_def)
  next
    case False
    then have hd: "lock_abs st k = Some (lk_tid ?lk, unat (lk_ref ?lk))" using ab by (simp add: held_def)
    have cr: "\<not> created" using f(6) False by simp
    show ?thesis
    proof (cases "is_private flags \<or> lk_tid ?lk \<noteq> tid")
      case True
      with False cr f(1,2,3) hd rb assms(6) show ?thesis
        by (auto simp: shlock_open_def shlock_tryopen_def acquire_spec_def Let_def)
    next
      case own: False
      with False cr f(1,3) hd t assms(6) show ?thesis
        by (auto simp: shlock_open_def shlock_tryopen_def acquire_spec_def Let_def)
    qed
  qed
qed

lemma close_refine:
  assumes "lock_inv st" "shkey_wf k" "refs_below n st"
  shows "\<exists>b st'. lockop_exec c mem (LClose tid k) (Some st) = Inr (b, st') \<and> lock_inv st' \<and> refs_below n st' \<and>
    lockop_spec (LClose tid k) (lock_abs st) = (b, lock_abs st')"
proof (cases "table_abs (ls_map st) k")
  case None
  have "shmap_get_ptr (Some (ls_map st)) (Some k) = Inr None"
    using None assms lock_lookup [of "ls_map st" k] by (simp add: lock_inv_def)
  with None assms show ?thesis by (auto simp: shlock_close_def lock_abs_def)
next
  case (Some v)
  then obtain a where a: "table_abs (ls_map st) k = Some (Ref a)" "a < length (ls_heap st)"
    using assms(1) by (auto simp: lock_inv_def)
  then have get: "shmap_get_ptr (Some (ls_map st)) (Some k) = Inr (Some (Ref a))"
    using assms lock_lookup [of "ls_map st" k] by (simp add: lock_inv_def)
  let ?lk = "ls_heap st ! a"
  have ab: "lock_abs st k = held ?lk" by (rule lock_abs_at [OF a(1)])
  show ?thesis
  proof (cases "lk_ref ?lk = 0 \<or> tid \<noteq> lk_tid ?lk")
    case True
    with get a(2) ab assms show ?thesis by (auto simp: shlock_close_def Let_def held_def)
  next
    case False
    then have nz: "lk_ref ?lk \<noteq> 0" "lk_tid ?lk = tid" by auto
    have "refs_below n (lock_set st a (lock_drop ?lk))"
      using assms(3) a(2) by (intro refs_below_set [OF assms(3)])
        (auto simp: lock_drop_held(2) [OF nz(1)] refs_below_def intro: le_trans [OF diff_le_self])
    moreover have "lock_abs st k = Some (tid, unat (lk_ref ?lk))" using ab nz by (simp add: held_def)
    ultimately show ?thesis
      using nz get a(2) lock_set_ok [OF assms(1) a(1), of "lock_drop ?lk"]
      unfolding lock_drop_held(1) [OF nz(1)] by (auto simp: shlock_close_def Let_def)
  qed
qed

lemma lockops_refine:
  assumes "lock_libc c" "list_all lockop_wf ps" "lock_inv st" "refs_below n st"
    "n + length ps < 2 ^ 32"
  shows "\<exists>bs st'. lockops_exec c mem ps (Some st) = Inr (bs, Some st') \<and> lock_inv st' \<and>
    lockops_spec ps (lock_abs st) = (bs, lock_abs st')"
  using assms(2-)
proof (induction ps arbitrary: st n)
  case Nil
  then show ?case by simp
next
  case (Cons p ps)
  have "\<exists>b st1. lockop_exec c mem p (Some st) = Inr (b, st1) \<and> lock_inv st1 \<and> refs_below (n + 1) st1 \<and>
      lockop_spec p (lock_abs st) = (b, lock_abs st1)"
  proof (cases p)
    case (LClose tid k)
    have "shkey_wf k" using Cons.prems(1) LClose by simp
    from close_refine [OF Cons.prems(2) this Cons.prems(3), of c mem tid] LClose show ?thesis
      by (fastforce simp: refs_below_def)
  next
    case (LOpen tid k flags)
    then show ?thesis
      using Cons.prems by (intro acquire_refine [where k = k, OF _ _ assms(1)]) simp_all
  next
    case (LTry tid k flags)
    then show ?thesis
      using Cons.prems by (intro acquire_refine [where k = k, OF _ _ assms(1)]) simp_all
  qed
  then obtain b st1 where st1: "lockop_exec c mem p (Some st) = Inr (b, st1)" "lock_inv st1" "refs_below (n + 1) st1"
    "lockop_spec p (lock_abs st) = (b, lock_abs st1)" by blast
  have "\<exists>bs st'. lockops_exec c mem ps (Some st1) = Inr (bs, Some st') \<and> lock_inv st' \<and>
      lockops_spec ps (lock_abs st1) = (bs, lock_abs st')"
    using Cons.prems by (intro Cons.IH [OF _ st1(2,3)]) simp_all
  with st1 show ?case by auto
qed

lemma lockop_exec_first: "map_libc c \<Longrightarrow> lockop_exec c mem p None = lockop_exec c mem p (Some lockst_init)"
  by (cases p) (simp_all add: shlock_open_def shlock_tryopen_def shlock_close_def)

text \<open>C20: In the build without POSIX mutexes, and while memory for locks and table entries is
  found, any sequence of \<open>shlock_open\<close>, \<open>shlock_tryopen\<close> and
  \<open>shlock_close\<close> calls by any threads grants and refuses locks exactly as the abstract table
  does: a free lock is granted, the holder may nest it unless it asks for private access,
  any other thread is refused, and a lock is released by as many closes of its holder as it
  was opened.  In particular \<open>shlock_open\<close> of a lock another thread holds fails; it does not
  wait.\<close>

theorem shlock_ops_refine_spec:
  assumes "lock_libc c" "list_all lockop_wf ps" "length ps < 2 ^ 32"
  shows "\<exists>bs stp. lockops_exec c mem ps None = Inr (bs, stp) \<and>
    lockops_spec ps Map.empty = (bs, proc_abs stp)"
proof (cases ps)
  case Nil
  then show ?thesis by (simp add: proc_abs_def)
next
  case (Cons p qs)
  then have "lockops_exec c mem ps None = lockops_exec c mem ps (Some lockst_init)"
    using lockop_exec_first [of c mem p] assms(1) by simp
  then show ?thesis
    using lockops_refine [OF assms(1,2) lock_inv_init(1,3), of mem] assms(3)
    by (auto simp: lock_inv_init(2) proc_abs_def)
qed

theorem shlock_ops_refine_spec_witness:
  "\<exists>stp. lockops_exec libc_all (\<lambda>_. []) [LOpen 7 shkey_blank 0, LTry 7 shkey_blank 0, LOpen 8 shkey_blank 0,
      LClose 7 shkey_blank, LClose 8 shkey_blank, LClose 7 shkey_blank, LOpen 8 shkey_blank 0] None =
    Inr ([True, True, False, True, True, True, True], stp) \<and> proc_abs stp = [shkey_blank \<mapsto> (8, 1)]"
proof -
  let ?ps = "[LOpen 7 shkey_blank 0, LTry 7 shkey_blank 0, LOpen 8 shkey_blank 0,
      LClose 7 shkey_blank, LClose 8 shkey_blank, LClose 7 shkey_blank, LOpen 8 shkey_blank 0]"
  have "list_all lockop_wf ?ps" "lock_libc libc_all"
    by (simp_all add: shkey_wf_def shkey_blank_def libc_all_def lock_libc_def map_libc_def)
  then obtain bs stp where r: "lockops_exec libc_all (\<lambda>_. []) ?ps None = Inr (bs, stp)"
    "lockops_spec ?ps Map.empty = (bs, proc_abs stp)"
    using shlock_ops_refine_spec [of libc_all ?ps "\<lambda>_. []"] by auto
  moreover have "lockops_spec ?ps Map.empty = ([True, True, False, True, True, True, True], [shkey_blank \<mapsto> (8, 1)])"
    by (simp add: acquire_spec_def is_private_def fun_upd_twist)
  ultimately show ?thesis by auto
qed

section \<open>Re-entrance through shlock_tryopen\<close>

lemma lock_find_init:
  assumes "shkey_wf k" "lock_libc c"
  obtains mp where "lock_find c mem lockst_init (Some k) flags =
      Inr (Some (0, True, \<lparr>ls_map = mp, ls_heap = [shlock_new flags]\<rparr>))"
    "shmap_inv mp" "table_abs mp k = Some (Ref 0)"
proof -
  have init: "shmap_get_ptr (Some shmap_empty) (Some k) = Inr None"
    using lock_lookup [OF shmap_empty_inv(1) assms(1)] by (simp add: table_abs_def shmap_empty_inv(2))
  obtain mp where "put_ptr c mem shmap_empty k 0 = Inr mp" "shmap_inv mp" "table_abs mp k = Some (Ref 0)"
    using ptab.store_abs [OF conjI [OF lock_libcD(1) [OF assms(2)] shmap_empty_inv(1)] assms(1), of mem 0] by auto
  with init assms(2) shmap_set_ptr_put [of c mem shmap_empty k 0 mp] that show thesis
    by (simp add: lock_find_def lockst_init_def)
qed

lemma lock_find_old:
  "shmap_inv mp \<Longrightarrow> shkey_wf k \<Longrightarrow> table_abs mp k = Some (Ref a) \<Longrightarrow> a < length hp \<Longrightarrow>
     lock_find c mem \<lparr>ls_map = mp, ls_heap = hp\<rparr> (Some k) flags =
       Inr (Some (a, False, \<lparr>ls_map = mp, ls_heap = hp\<rparr>))"
  by (simp add: lock_find_def lock_lookup)

text \<open>In the build with POSIX mutexes a nested \<open>shlock_tryopen\<close> counts the reference but does
  not lock the mutex again, while every \<open>shlock_close\<close> unlocks it: after two \<open>tryopen\<close> and one
  \<open>close\<close> thread \<open>t1\<close> still holds the lock by the library's own count, yet another thread's
  \<open>shlock_open\<close> is granted it.\<close>

theorem shlock_tryopen_reentry_unsafe:
  assumes "shkey_wf k" "lock_libc c" "t1 \<noteq> t2" "\<not> is_private fl"
  shows "\<exists>a st1 st2 st3 st4.
    shlock_tryopen True c mem t1 None (Some k) fl = Inr (0, Some a, st1) \<and>
    shlock_tryopen True c mem t1 (Some st1) (Some k) fl = Inr (0, Some a, st2) \<and>
    shlock_close True c t1 (Some st2) (Some k) = Inr (0, st3) \<and>
    held (ls_heap st3 ! a) = Some (t1, 1) \<and>
    shlock_open True c mem t2 (Some st3) (Some k) fl = Some (Inr (Some a, st4))"
proof -
  obtain mp where mp: "lock_find c mem lockst_init (Some k) fl =
      Inr (Some (0, True, \<lparr>ls_map = mp, ls_heap = [shlock_new fl]\<rparr>))"
    "shmap_inv mp" "table_abs mp k = Some (Ref 0)"
    using lock_find_init [OF assms(1,2)] by blast
  have get: "shmap_get_ptr (Some mp) (Some k) = Inr (Some (Ref 0))"
    using lock_lookup [OF mp(2) assms(1)] mp(3) by simp
  note find = lock_find_old [OF mp(2) assms(1) mp(3)]
  let ?s = "\<lambda>lk. \<lparr>ls_map = mp, ls_heap = [lk]\<rparr>"
  let ?own = "\<lparr>mx_rec = True, mx_owner = Some t1, mx_depth = 1\<rparr>"
  have 1: "shlock_tryopen True c mem t1 None (Some k) fl =
      Inr (0, Some 0, ?s \<lparr>lk_ref = 1, lk_tid = t1, lk_mutex = ?own\<rparr>)"
    using mp(1) assms(2,4)
    by (simp add: shlock_tryopen_def Let_def shlock_new_def mutex_trylock_def lock_take_def lock_set_def)
  have 2: "shlock_tryopen True c mem t1 (Some (?s \<lparr>lk_ref = 1, lk_tid = t1, lk_mutex = ?own\<rparr>)) (Some k) fl =
      Inr (0, Some 0, ?s \<lparr>lk_ref = 2, lk_tid = t1, lk_mutex = ?own\<rparr>)"
    using find assms(4) by (simp add: shlock_tryopen_def Let_def lock_take_def lock_set_def)
  have 3: "shlock_close True c t1 (Some (?s \<lparr>lk_ref = 2, lk_tid = t1, lk_mutex = ?own\<rparr>)) (Some k) =
      Inr (0, ?s \<lparr>lk_ref = 1, lk_tid = t1, lk_mutex = \<lparr>mx_rec = True, mx_owner = None, mx_depth = 0\<rparr>\<rparr>)"
    using get by (simp add: shlock_close_def Let_def mutex_unlock_def lock_set_def lock_drop_def)
  have "\<exists>st4. shlock_open True c mem t2
      (Some (?s \<lparr>lk_ref = 1, lk_tid = t1, lk_mutex = \<lparr>mx_rec = True, mx_owner = None, mx_depth = 0\<rparr>\<rparr>)) (Some k) fl =
      Some (Inr (Some 0, st4))"
    using find by (simp add: shlock_open_def Let_def mutex_trylock_def)
  with 1 2 3 show ?thesis by (fastforce simp: held_def)
qed

theorem shlock_tryopen_reentry_unsafe_witness:
  "\<exists>a st1 st2 st3 st4.
    shlock_tryopen True libc_all (\<lambda>_. []) 7 None (Some shkey_blank) 0 = Inr (0, Some a, st1) \<and>
    shlock_tryopen True libc_all (\<lambda>_. []) 7 (Some st1) (Some shkey_blank) 0 = Inr (0, Some a, st2) \<and>
    shlock_close True libc_all 7 (Some st2) (Some shkey_blank) = Inr (0, st3) \<and> held (ls_heap st3 ! a) = Some (7, 1) \<and>
    shlock_open True libc_all (\<lambda>_. []) 8 (Some st3) (Some shkey_blank) 0 = Some (Inr (Some a, st4))"
  by (rule shlock_tryopen_reentry_unsafe)
    (simp_all add: shkey_wf_def shkey_blank_def libc_all_def is_private_def lock_libc_def map_libc_def)

end
