(* ===== verification/Share_Lock_Race.thy ===== *)
theory Share_Lock_Race
  imports Share_Lock
begin

text \<open>
  The accesses of \<open>shlock_open\<close> and \<open>shlock_close\<close> (build with POSIX mutexes) to the
  lock of one key, at the granularity at which threads interleave: the lookup in
  the table, the allocation of a missing lock, the store of its address, the
  initialisation of its mutex, and every load and store of its fields.  One call
  of a map operation is one access here; what happens when two threads are inside
  the map at once is left out.  A thread is outside the two functions (\<open>Out\<close>) or
  in front of one of their accesses; the call a thread outside makes next is an
  input of the step.
\<close>

section \<open>Steps\<close>

datatype pc =
    Out
  | OpenGet u32 | OpenAlloc u32 | OpenSet u32 nat | OpenInit u32 nat
  | OpenLock nat | OpenTid nat | OpenRef nat | OpenInc nat u32
  | CloseGet | CloseRef nat | CloseTid nat | CloseUnlock nat | CloseDec nat | CloseSub nat u32
  | CloseTest nat | CloseClear nat

datatype call = CallOpen u32 | CallClose

text \<open>A lock in the heap, and whether its mutex has been initialised.\<close>

record cell =
  c_lk :: shlock
  c_ready :: bool

record world =
  w_heap :: "cell list"
  w_ent :: "nat option"
  w_pc :: "u32 \<Rightarrow> pc"

definition goto_pc :: "world \<Rightarrow> u32 \<Rightarrow> pc \<Rightarrow> world" where
  "goto_pc w t p = w\<lparr>w_pc := (w_pc w)(t := p)\<rparr>"

definition put_lk :: "world \<Rightarrow> nat \<Rightarrow> shlock \<Rightarrow> world" where
  "put_lk w n lk = w\<lparr>w_heap := (w_heap w)[n := (w_heap w ! n)\<lparr>c_lk := lk\<rparr>]\<rparr>"

text \<open>The accesses of \<open>shlock_open\<close>.  \<open>calloc\<close> clears the lock; using a mutex that is not
  initialised is undefined, and \<open>None\<close> is a thread that has to wait.\<close>

definition lock_blank :: shlock where
  "lock_blank = \<lparr>lk_ref = 0, lk_tid = 0, lk_mutex = \<lparr>mx_rec = False, mx_owner = None, mx_depth = 0\<rparr>\<rparr>"

fun open_step :: "libc \<Rightarrow> u32 \<Rightarrow> world \<Rightarrow> pc \<Rightarrow> (fault + world) option" where
  "open_step c t w (OpenGet flags) =
     Some (Inr (goto_pc w t (case w_ent w of None \<Rightarrow> OpenAlloc flags | Some n \<Rightarrow> OpenLock n)))"
| "open_step c t w (OpenAlloc flags) =
     (if \<not> calloc_ok c SHLOCK_SIZE then Some (Inr (goto_pc w t Out))
      else Some (Inr (goto_pc (w\<lparr>w_heap := w_heap w @ [\<lparr>c_lk = lock_blank, c_ready = False\<rparr>]\<rparr>) t
                        (OpenSet flags (length (w_heap w))))))"
| "open_step c t w (OpenSet flags n) = Some (Inr (goto_pc (w\<lparr>w_ent := Some n\<rparr>) t (OpenInit flags n)))"
| "open_step c t w (OpenInit flags n) =
     (let lk = c_lk (w_heap w ! n) in
      Some (Inr (goto_pc (w\<lparr>w_heap := (w_heap w)[n := \<lparr>c_lk = lk\<lparr>lk_mutex := lk_mutex (shlock_new flags)\<rparr>,
                                                      c_ready = True\<rparr>]\<rparr>) t (OpenLock n))))"
| "open_step c t w (OpenLock n) =
     (let lk = c_lk (w_heap w ! n) in
      if \<not> c_ready (w_heap w ! n) then Some (Inl Undefined)
      else map_option (\<lambda>mx. Inr (goto_pc (put_lk w n (lk\<lparr>lk_mutex := mx\<rparr>)) t (OpenTid n)))
             (mutex_trylock (lk_mutex lk) t))"
| "open_step c t w (OpenTid n) =
     Some (Inr (goto_pc (put_lk w n ((c_lk (w_heap w ! n))\<lparr>lk_tid := t\<rparr>)) t (OpenRef n)))"
| "open_step c t w (OpenRef n) = Some (Inr (goto_pc w t (OpenInc n (lk_ref (c_lk (w_heap w ! n))))))"
| "open_step c t w (OpenInc n r) =
     Some (Inr (goto_pc (put_lk w n ((c_lk (w_heap w ! n))\<lparr>lk_ref := r + 1\<rparr>)) t Out))"
| "open_step c t w _ = None"

text \<open>The accesses of \<open>shlock_close\<close>.\<close>

fun close_step :: "u32 \<Rightarrow> world \<Rightarrow> pc \<Rightarrow> (fault + world) option" where
  "close_step t w CloseGet =
     Some (Inr (goto_pc w t (case w_ent w of None \<Rightarrow> Out | Some n \<Rightarrow> CloseRef n)))"
| "close_step t w (CloseRef n) =
     Some (Inr (goto_pc w t (if lk_ref (c_lk (w_heap w ! n)) = 0 then Out else CloseTid n)))"
| "close_step t w (CloseTid n) =
     Some (Inr (goto_pc w t (if t \<noteq> lk_tid (c_lk (w_heap w ! n)) then Out else CloseUnlock n)))"
| "close_step t w (CloseUnlock n) =
     (let lk = c_lk (w_heap w ! n) in
      if \<not> c_ready (w_heap w ! n) then Some (Inl Undefined)
      else case mutex_unlock (lk_mutex lk) t of
             Inl e \<Rightarrow> Some (Inl e)
           | Inr (err, mx) \<Rightarrow>
               if err \<noteq> 0 then Some (Inr (goto_pc w t Out))
               else Some (Inr (goto_pc (put_lk w n (lk\<lparr>lk_mutex := mx\<rparr>)) t (CloseDec n))))"
| "close_step t w (CloseDec n) = Some (Inr (goto_pc w t (CloseSub n (lk_ref (c_lk (w_heap w ! n))))))"
| "close_step t w (CloseSub n r) =
     Some (Inr (goto_pc (put_lk w n ((c_lk (w_heap w ! n))\<lparr>lk_ref := r - 1\<rparr>)) t (CloseTest n)))"
| "close_step t w (CloseTest n) =
     Some (Inr (goto_pc w t (if lk_ref (c_lk (w_heap w ! n)) = 0 then CloseClear n else Out)))"
| "close_step t w (CloseClear n) =
     Some (Inr (goto_pc (put_lk w n ((c_lk (w_heap w ! n))\<lparr>lk_tid := 0\<rparr>)) t Out))"
| "close_step t w _ = None"

definition in_open :: "pc \<Rightarrow> bool" where
  "in_open p = (case p of OpenGet _ \<Rightarrow> True | OpenAlloc _ \<Rightarrow> True | OpenSet _ _ \<Rightarrow> True
     | OpenInit _ _ \<Rightarrow> True | OpenLock _ \<Rightarrow> True | OpenTid _ \<Rightarrow> True | OpenRef _ \<Rightarrow> True
     | OpenInc _ _ \<Rightarrow> True | _ \<Rightarrow> False)"

definition lnext :: "libc \<Rightarrow> call \<Rightarrow> u32 \<Rightarrow> world \<Rightarrow> (fault + world) option" where
  "lnext c cl t w =
     (case w_pc w t of
        Out \<Rightarrow> Some (Inr (goto_pc w t (case cl of CallOpen flags \<Rightarrow> OpenGet flags | CallClose \<Rightarrow> CloseGet)))
      | p \<Rightarrow> if in_open p then open_step c t w p else close_step t w p)"

inductive lreach :: "libc \<Rightarrow> world \<Rightarrow> world \<Rightarrow> bool" for c w0 where
  init: "lreach c w0 w0"
| step: "lreach c w0 w \<Longrightarrow> lnext c cl t w = Some (Inr w') \<Longrightarrow> lreach c w0 w'"

fun lrun :: "libc \<Rightarrow> (call \<times> u32) list \<Rightarrow> world \<Rightarrow> (fault + world) option" where
  "lrun c [] w = Some (Inr w)"
| "lrun c ((cl, t) # xs) w =
     (case lnext c cl t w of None \<Rightarrow> None | Some (Inl e) \<Rightarrow> Some (Inl e) | Some (Inr w') \<Rightarrow> lrun c xs w')"

lemma lrun_reach: "lreach c w0 w \<Longrightarrow> lrun c xs w = Some (Inr w') \<Longrightarrow> lreach c w0 w'"
proof (induction xs arbitrary: w)
  case (Cons x xs)
  obtain cl t where "x = (cl, t)" by fastforce
  with Cons show ?case by (auto split: option.splits sum.splits dest: lreach.step)
qed simp

lemmas step_simps = lnext_def goto_pc_def put_lk_def in_open_def Let_def

text \<open>No lock exists for the key, and no thread is in the library.\<close>

definition world_init :: world where
  "world_init = \<lparr>w_heap = [], w_ent = None, w_pc = (\<lambda>_. Out)\<rparr>"

section \<open>A lock that exists\<close>

text \<open>A thread that neither creates a lock nor uses another one than number \<open>m\<close>.\<close>

fun pc_on :: "nat \<Rightarrow> pc \<Rightarrow> bool" where
  "pc_on m (OpenAlloc _) = False"
| "pc_on m (OpenSet _ _) = False"
| "pc_on m (OpenInit _ _) = False"
| "pc_on m (OpenLock n) = (n = m)"
| "pc_on m (OpenTid n) = (n = m)"
| "pc_on m (OpenRef n) = (n = m)"
| "pc_on m (OpenInc n _) = (n = m)"
| "pc_on m (CloseRef n) = (n = m)"
| "pc_on m (CloseTid n) = (n = m)"
| "pc_on m (CloseUnlock n) = (n = m)"
| "pc_on m (CloseDec n) = (n = m)"
| "pc_on m (CloseSub n _) = (n = m)"
| "pc_on m (CloseTest n) = (n = m)"
| "pc_on m (CloseClear n) = (n = m)"
| "pc_on m _ = True"

definition settled :: "nat \<Rightarrow> world \<Rightarrow> bool" where
  "settled m w \<longleftrightarrow> w_ent w = Some m \<and> (\<forall>t. pc_on m (w_pc w t))"

lemma settled_goto: "settled m w \<Longrightarrow> pc_on m p \<Longrightarrow> settled m (goto_pc w t p)"
  by (simp add: settled_def goto_pc_def)

lemma settled_put: "settled m (put_lk w n lk) = settled m w"
  by (simp add: settled_def put_lk_def)

lemma put_lk_other: "n \<noteq> m \<Longrightarrow> w_heap (put_lk w m lk) ! n = w_heap w ! n"
  by (simp add: put_lk_def)

lemma goto_heap [simp]: "w_heap (goto_pc w t p) = w_heap w"
  by (simp add: goto_pc_def)

text \<open>Once the table has a lock for the key and no thread is creating one, every thread uses that
  lock and no other is touched.\<close>

lemma settled_step:
  assumes "settled m w" "lnext c cl t w = Some (Inr w')"
  shows "settled m w' \<and> (\<forall>n. n \<noteq> m \<longrightarrow> w_heap w' ! n = w_heap w ! n)"
proof -
  have on: "pc_on m (w_pc w t)" and ent: "w_ent w = Some m" using assms(1) by (auto simp: settled_def)
  show ?thesis
    using assms(2) on
    by (cases "w_pc w t")
      (auto simp: lnext_def in_open_def Let_def ent settled_put put_lk_other assms(1)
        intro!: settled_goto split: call.splits if_splits sum.splits)
qed

lemma settled_reach:
  assumes "lreach c w w'" "settled m w"
  shows "settled m w' \<and> (\<forall>n. n \<noteq> m \<longrightarrow> w_heap w' ! n = w_heap w ! n)"
  using assms(1)
proof (induction rule: lreach.induct)
  case init
  then show ?case using assms(2) by simp
next
  case (step w' cl t w'')
  with settled_step [of m w' c cl t w''] show ?case by simp
qed

section \<open>Two threads creating the lock of one key\<close>

text \<open>Both threads look the key up before either stores a lock under it.\<close>

definition create_schedule :: "u32 \<Rightarrow> u32 \<Rightarrow> u32 \<Rightarrow> u32 \<Rightarrow> (call \<times> u32) list" where
  "create_schedule t1 f1 t2 f2 =
     replicate 2 (CallOpen f1, t1) @ replicate 2 (CallOpen f2, t2) @
     replicate 7 (CallOpen f1, t1) @ replicate 7 (CallOpen f2, t2)"

definition locked_cell :: "u32 \<Rightarrow> u32 \<Rightarrow> cell" where
  "locked_cell t flags = \<lparr>c_lk = \<lparr>lk_ref = 1, lk_tid = t,
     lk_mutex = \<lparr>mx_rec = (\<not> is_private flags), mx_owner = Some t, mx_depth = 1\<rparr>\<rparr>, c_ready = True\<rparr>"

lemma create_schedule_run:
  assumes "t1 \<noteq> t2" "calloc_ok c SHLOCK_SIZE"
  shows "lrun c (create_schedule t1 f1 t2 f2) world_init =
    Some (Inr \<lparr>w_heap = [locked_cell t1 f1, locked_cell t2 f2], w_ent = Some 1, w_pc = (\<lambda>_. Out)\<rparr>)"
  using assms
  by (simp add: create_schedule_def numeral_eq_Suc step_simps world_init_def shlock_new_def lock_blank_def
      mutex_trylock_def locked_cell_def fun_upd_idem fun_upd_twist)

text \<open>C36: \<open>shlock_open\<close> looks a key up, creates a missing lock and stores it without
  synchronisation.  Two threads that look up before either stores both succeed: each holds a
  lock of its own for the same key (so the lock excludes nobody), the table keeps only the
  second, and whatever calls and interleavings follow, the first thread's lock is never
  touched again: no \<open>shlock_close\<close> of that key ever releases it.\<close>

theorem shlock_create_race:
  assumes "t1 \<noteq> t2" "calloc_ok c SHLOCK_SIZE"
  shows "\<exists>w. lreach c world_init w \<and> (\<forall>t. w_pc w t = Out) \<and> w_ent w = Some 1 \<and>
    held (c_lk (w_heap w ! 0)) = Some (t1, 1) \<and> mx_owner (lk_mutex (c_lk (w_heap w ! 0))) = Some t1 \<and>
    held (c_lk (w_heap w ! 1)) = Some (t2, 1) \<and> mx_owner (lk_mutex (c_lk (w_heap w ! 1))) = Some t2 \<and>
    (\<forall>w'. lreach c w w' \<longrightarrow> w_ent w' = Some 1 \<and> w_heap w' ! 0 = w_heap w ! 0)"
proof -
  let ?w = "\<lparr>w_heap = [locked_cell t1 0, locked_cell t2 0], w_ent = Some 1, w_pc = (\<lambda>_. Out)\<rparr>"
  have "lreach c world_init ?w"
    using create_schedule_run [OF assms, of 0 0] by (rule lrun_reach [OF lreach.init])
  moreover have "settled 1 ?w" by (simp add: settled_def)
  then have "w_ent w' = Some 1 \<and> w_heap w' ! 0 = w_heap ?w ! 0" if "lreach c ?w w'" for w'
    using settled_reach [OF that] by (simp add: settled_def)
  ultimately show ?thesis
    by (intro exI [of _ ?w]) (simp add: locked_cell_def held_def)
qed

theorem shlock_create_race_witness:
  "\<exists>w. lreach libc_all world_init w \<and> w_ent w = Some 1 \<and>
    mx_owner (lk_mutex (c_lk (w_heap w ! 0))) = Some 7 \<and> mx_owner (lk_mutex (c_lk (w_heap w ! 1))) = Some 8 \<and>
    (\<forall>w'. lreach libc_all w w' \<longrightarrow> w_heap w' ! 0 = w_heap w ! 0)"
  using shlock_create_race [of 7 8 libc_all] by (auto simp: libc_all_def)

section \<open>Exclusion on an existing lock\<close>

text \<open>The lock of the key exists, its mutex is initialised and recursive, and the threads that are
  between acquiring the mutex and having recorded themselves own it.\<close>

fun recording :: "pc \<Rightarrow> bool" where
  "recording (OpenTid _) = True"
| "recording (OpenRef _) = True"
| "recording (OpenInc _ _) = True"
| "recording _ = False"

definition world_inv :: "nat \<Rightarrow> world \<Rightarrow> bool" where
  "world_inv m w \<longleftrightarrow> settled m w \<and> m < length (w_heap w) \<and> c_ready (w_heap w ! m) \<and>
     mx_rec (lk_mutex (c_lk (w_heap w ! m))) \<and>
     (\<forall>t. recording (w_pc w t) \<longrightarrow> mx_owner (lk_mutex (c_lk (w_heap w ! m))) = Some t)"

lemma trylock_owner: "mutex_trylock mx t = Some mx' \<Longrightarrow>
    mx_owner mx' = Some t \<and> mx_rec mx' = mx_rec mx \<and> (mx_owner mx = None \<or> mx_owner mx = Some t)"
  by (auto simp: mutex_trylock_def split: option.splits if_splits)

lemma unlock_owner: "mutex_unlock mx t = Inr (0, mx') \<Longrightarrow> mx_owner mx = Some t \<and> mx_rec mx' = mx_rec mx"
  by (auto simp: mutex_unlock_def split: if_splits)

lemma unlock_recursive: "mx_rec mx \<Longrightarrow> \<exists>err mx'. mutex_unlock mx t = Inr (err, mx')"
  by (simp add: mutex_unlock_def)

lemma world_inv_goto:
  "world_inv m w \<Longrightarrow> pc_on m p \<Longrightarrow>
     (recording p \<Longrightarrow> mx_owner (lk_mutex (c_lk (w_heap w ! m))) = Some t) \<Longrightarrow> world_inv m (goto_pc w t p)"
  by (simp add: world_inv_def settled_goto) (simp add: goto_pc_def)

lemma put_lk_same [simp]: "m < length (w_heap w) \<Longrightarrow> w_heap (put_lk w m lk) ! m = (w_heap w ! m)\<lparr>c_lk := lk\<rparr>"
  by (simp add: put_lk_def)

lemma world_inv_put:
  assumes "world_inv m w" "mx_rec (lk_mutex lk)"
    and "\<And>u. recording (w_pc w u) \<Longrightarrow> mx_owner (lk_mutex lk) = Some u"
  shows "world_inv m (put_lk w m lk)"
  using assms by (simp add: world_inv_def settled_put) (simp add: put_lk_def)

lemma world_inv_owner:
  "world_inv m w \<Longrightarrow> recording (w_pc w t) \<Longrightarrow> mx_owner (lk_mutex (c_lk (w_heap w ! m))) = Some t"
  by (simp add: world_inv_def)

lemma world_inv_acquire:
  assumes "world_inv m w" "mutex_trylock (lk_mutex (c_lk (w_heap w ! m))) t = Some mx"
  shows "world_inv m (goto_pc (put_lk w m ((c_lk (w_heap w ! m))\<lparr>lk_mutex := mx\<rparr>)) t (OpenTid m))"
proof (intro world_inv_goto world_inv_put [OF assms(1)])
  note o = trylock_owner [OF assms(2)]
  show "mx_rec (lk_mutex ((c_lk (w_heap w ! m))\<lparr>lk_mutex := mx\<rparr>))"
    using o assms(1) by (simp add: world_inv_def)
  show "mx_owner (lk_mutex ((c_lk (w_heap w ! m))\<lparr>lk_mutex := mx\<rparr>)) = Some u" if "recording (w_pc w u)" for u
    using o world_inv_owner [OF assms(1) that] by auto
  show "mx_owner (lk_mutex (c_lk (w_heap (put_lk w m ((c_lk (w_heap w ! m))\<lparr>lk_mutex := mx\<rparr>)) ! m))) = Some t"
    using o assms(1) by (simp add: world_inv_def)
qed simp

lemma world_inv_release:
  assumes "world_inv m w" "mutex_unlock (lk_mutex (c_lk (w_heap w ! m))) t = Inr (0, mx)" "\<not> recording (w_pc w t)"
  shows "world_inv m (goto_pc (put_lk w m ((c_lk (w_heap w ! m))\<lparr>lk_mutex := mx\<rparr>)) t (CloseDec m))"
proof (intro world_inv_goto world_inv_put [OF assms(1)])
  note o = unlock_owner [OF assms(2)]
  show "mx_rec (lk_mutex ((c_lk (w_heap w ! m))\<lparr>lk_mutex := mx\<rparr>))"
    using o assms(1) by (simp add: world_inv_def)
  show "mx_owner (lk_mutex ((c_lk (w_heap w ! m))\<lparr>lk_mutex := mx\<rparr>)) = Some u" if "recording (w_pc w u)" for u
    using o world_inv_owner [OF assms(1) that] assms(3) that by auto
qed simp_all

lemma world_inv_store:
  "world_inv m w \<Longrightarrow> lk_mutex lk = lk_mutex (c_lk (w_heap w ! m)) \<Longrightarrow> world_inv m (put_lk w m lk)"
  by (rule world_inv_put) (simp_all add: world_inv_def)

text \<open>On an existing lock no step is undefined, and the invariant is kept.\<close>

lemma world_inv_step:
  assumes "world_inv m w" "lnext c cl t w = Some r"
  shows "\<exists>w'. r = Inr w' \<and> world_inv m w'"
proof -
  have on: "pc_on m (w_pc w t)" and ent: "w_ent w = Some m" and rdy: "c_ready (w_heap w ! m)"
    and len: "m < length (w_heap w)" and rec: "mx_rec (lk_mutex (c_lk (w_heap w ! m)))"
    using assms(1) by (auto simp: world_inv_def settled_def)
  show ?thesis
  proof (cases "w_pc w t")
    case (CloseUnlock n)
    then have n: "n = m" using on by simp
    obtain err mx where u: "mutex_unlock (lk_mutex (c_lk (w_heap w ! m))) t = Inr (err, mx)"
      using unlock_recursive [OF rec] by blast
    show ?thesis
    proof (cases "err = 0")
      case True
      then show ?thesis
        using assms(2) CloseUnlock n u rdy world_inv_release [OF assms(1), of t mx]
        by (auto simp: lnext_def in_open_def Let_def)
    next
      case False
      then show ?thesis
        using assms(2) CloseUnlock n u rdy world_inv_goto [OF assms(1), of Out t]
        by (auto simp: lnext_def in_open_def Let_def)
    qed
  next
    case (OpenLock n)
    with assms on rdy show ?thesis by (auto simp: lnext_def in_open_def Let_def intro: world_inv_acquire)
  qed (use assms on len ent world_inv_owner [OF assms(1), of t] in
      \<open>auto simp: lnext_def in_open_def intro!: world_inv_goto world_inv_store split: call.splits\<close>)
qed

lemma world_inv_reach: "lreach c w w' \<Longrightarrow> world_inv m w \<Longrightarrow> world_inv m w'"
proof (induction rule: lreach.induct)
  case (step w' cl t w'')
  then show ?case using world_inv_step [of m w' c cl t "Inr w''"] by auto
qed

text \<open>A lock that exists (with a recursive mutex) when the threads start: however they interleave,
  no access is undefined, all use that lock, and at most one thread at a time is between
  acquiring the mutex in \<open>shlock_open\<close> and having recorded itself in the lock.\<close>

theorem shlock_open_exclusive:
  assumes "world_inv m w" "lreach c w w'"
  shows "lnext c cl t w' \<noteq> Some (Inl e) \<and> w_ent w' = Some m \<and>
    (recording (w_pc w' t1) \<longrightarrow> recording (w_pc w' t2) \<longrightarrow>
       t1 = t2 \<and> mx_owner (lk_mutex (c_lk (w_heap w' ! m))) = Some t1)"
proof -
  note inv = world_inv_reach [OF assms(2,1)]
  have "t1 = t2" if "recording (w_pc w' t1)" "recording (w_pc w' t2)"
    using world_inv_owner [OF inv that(1)] world_inv_owner [OF inv that(2)] by simp
  moreover have "lnext c cl t w' \<noteq> Some (Inl e)"
    using world_inv_step [OF inv, of c cl t "Inl e"] by auto
  ultimately show ?thesis
    using inv world_inv_owner [OF inv, of t1] by (auto simp: world_inv_def settled_def)
qed

section \<open>Closing after the mutex is released\<close>

text \<open>The interleaving: the first thread opens and closes; between its test of the reference
  count and its clearing of the thread number the second thread opens.\<close>

definition race_schedule :: "u32 \<Rightarrow> u32 \<Rightarrow> (call \<times> u32) list" where
  "race_schedule t1 t2 =
     replicate 9 (CallOpen 0, t1) @ replicate 8 (CallClose, t1) @ replicate 6 (CallOpen 0, t2) @ [(CallClose, t1)]"

text \<open>\<open>shlock_close\<close> updates the lock after unlocking the mutex.  Under some interleaving of two
  threads a finished \<open>shlock_open\<close> of \<open>t2\<close> ends with \<open>t2\<close> owning the mutex but the recorded thread
  cleared by \<open>t1\<close>; in that state a complete \<open>shlock_close\<close> of \<open>t2\<close> changes nothing, and every
  other thread that opens the lock waits.\<close>

theorem shlock_close_race:
  assumes "t1 \<noteq> t2" "t2 \<noteq> 0" "calloc_ok c SHLOCK_SIZE"
  shows "\<exists>w. lreach c world_init w \<and> (\<forall>t. w_pc w t = Out) \<and> w_ent w = Some 0 \<and>
    mx_owner (lk_mutex (c_lk (w_heap w ! 0))) = Some t2 \<and> lk_ref (c_lk (w_heap w ! 0)) = 1 \<and>
    lk_tid (c_lk (w_heap w ! 0)) = 0 \<and> lrun c (replicate 4 (CallClose, t2)) w = Some (Inr w) \<and>
    (\<forall>t. t \<noteq> t2 \<longrightarrow> lrun c (replicate 3 (CallOpen 0, t)) w = None)"
proof -
  let ?c = "\<lparr>c_lk = \<lparr>lk_ref = 1, lk_tid = 0, lk_mutex = \<lparr>mx_rec = True, mx_owner = Some t2, mx_depth = 1\<rparr>\<rparr>,
    c_ready = True\<rparr>"
  let ?w = "\<lparr>w_heap = [?c], w_ent = Some 0, w_pc = \<lambda>_. Out\<rparr>"
  have "lrun c (race_schedule t1 t2) world_init = Some (Inr ?w)"
    using assms
    by (simp add: race_schedule_def numeral_eq_Suc step_simps world_init_def shlock_new_def lock_blank_def
        mutex_trylock_def mutex_unlock_def is_private_def fun_upd_idem fun_upd_twist)
  then have "lreach c world_init ?w" by (rule lrun_reach [OF lreach.init])
  moreover have "lrun c (replicate 4 (CallClose, t2)) ?w = Some (Inr ?w)"
    using assms by (simp add: numeral_eq_Suc step_simps fun_upd_idem)
  moreover have "lrun c (replicate 3 (CallOpen 0, t)) ?w = None" if "t \<noteq> t2" for t
    using that by (simp add: numeral_eq_Suc step_simps mutex_trylock_def)
  ultimately show ?thesis by (intro exI [of _ ?w]) simp
qed

end
