(* ===== verification/Share_Base64.thy ===== *)
theory Share_Base64
  imports Share_Prelude
begin

text \<open>
  The base64 codec of \<^verbatim>\<open>share-lib/mem/shmem_base64.c\<close>.  The routines walk C
  pointers through their input and an allocated output block; both are bounded
  here.  \<open>b64_spec\<close> is the reference encoding, one recursion over groups of three
  bytes.
\<close>

section \<open>Tables\<close>

definition shbase64_decode_table :: "byte list" where
  "shbase64_decode_table =
    [64, 64, 64, 64, 64, 64, 64, 64, 64, 64, 64, 64, 64, 64, 64, 64,
     64, 64, 64, 64, 64, 64, 64, 64, 64, 64, 64, 64, 64, 64, 64, 64,
     64, 64, 64, 64, 64, 64, 64, 64, 64, 64, 64, 62, 64, 64, 64, 63,
     52, 53, 54, 55, 56, 57, 58, 59, 60, 61, 64, 64, 64, 64, 64, 64,
     64, 0, 1, 2, 3, 4, 5, 6, 7, 8, 9, 10, 11, 12, 13, 14,
     15, 16, 17, 18, 19, 20, 21, 22, 23, 24, 25, 64, 64, 64, 64, 64,
     64, 26, 27, 28, 29, 30, 31, 32, 33, 34, 35, 36, 37, 38, 39, 40,
     41, 42, 43, 44, 45, 46, 47, 48, 49, 50, 51, 64, 64, 64, 64, 64,
     64, 64, 64, 64, 64, 64, 64, 64, 64, 64, 64, 64, 64, 64, 64, 64,
     64, 64, 64, 64, 64, 64, 64, 64, 64, 64, 64, 64, 64, 64, 64, 64,
     64, 64, 64, 64, 64, 64, 64, 64, 64, 64, 64, 64, 64, 64, 64, 64,
     64, 64, 64, 64, 64, 64, 64, 64, 64, 64, 64, 64, 64, 64, 64, 64,
     64, 64, 64, 64, 64, 64, 64, 64, 64, 64, 64, 64, 64, 64, 64, 64,
     64, 64, 64, 64, 64, 64, 64, 64, 64, 64, 64, 64, 64, 64, 64, 64,
     64, 64, 64, 64, 64, 64, 64, 64, 64, 64, 64, 64, 64, 64, 64, 64,
     64, 64, 64, 64, 64, 64, 64, 64, 64, 64, 64, 64, 64, 64, 64, 64]"

definition shbase64_encode_table :: "byte list" where
  "shbase64_encode_table =
     map of_char ''ABCDEFGHIJKLMNOPQRSTUVWXYZabcdefghijklmnopqrstuvwxyz0123456789+/''"

definition dec64 :: "byte \<Rightarrow> byte" where
  "dec64 b = shbase64_decode_table ! unat b"

definition enc64 :: "byte \<Rightarrow> byte" where
  "enc64 x = shbase64_encode_table ! unat x"

definition pad64 :: byte where "pad64 = 61"

section \<open>Lengths\<close>

text \<open>The scan \<open>while (table[*(bufin++)] <= 63)\<close>: how many characters of the alphabet come first.\<close>

definition scan64 :: "byte list \<Rightarrow> fault + nat" where
  "scan64 m = (if \<exists>b \<in> set m. 63 < dec64 b then Inr (length (takeWhile (\<lambda>b. dec64 b \<le> 63) m))
               else Inl OutOfBounds)"

text \<open>The count goes into an \<open>int\<close>, and the number of decoded bytes \<open>((nprbytes + 3) / 4) * 3\<close> is computed
  there.\<close>

definition decoded64 :: "int \<Rightarrow> fault + int" where
  "decoded64 nprbytes = run_bind (int_add nprbytes 3) (\<lambda>a. int_mul (int_quot a 4) 3)"

definition shbase64_decode_len :: "byte list \<Rightarrow> fault + int" where
  "shbase64_decode_len m =
     run_bind (scan64 m) (\<lambda>n. run_bind (decoded64 (int_of_size n)) (\<lambda>nbytesdecoded. int_add nbytesdecoded 1))"

definition shbase64_encode_len :: "int \<Rightarrow> fault + int" where
  "shbase64_encode_len len =
     run_bind (int_add len 2) (\<lambda>a. run_bind (int_mul (int_quot a 3) 4) (\<lambda>b. int_add b 1))"

section \<open>Decoding\<close>

definition dec_first :: "byte \<Rightarrow> byte \<Rightarrow> byte" where
  "dec_first a b = push_bit 2 (dec64 a) OR drop_bit 4 (dec64 b)"

definition dec_second :: "byte \<Rightarrow> byte \<Rightarrow> byte" where
  "dec_second b c = push_bit 4 (dec64 b) OR drop_bit 2 (dec64 c)"

definition dec_third :: "byte \<Rightarrow> byte \<Rightarrow> byte" where
  "dec_third c d = push_bit 6 (dec64 c) OR dec64 d"

text \<open>The main loop: input offset, characters left, output so far.\<close>

function dec64_loop :: "nat \<Rightarrow> byte list \<Rightarrow> nat \<Rightarrow> int \<Rightarrow> byte list \<Rightarrow> fault + (nat \<times> int \<times> byte list)" where
  "dec64_loop cap m k nprbytes out =
     (if 4 < nprbytes then
        run_bind (mem_get m k) (\<lambda>a. run_bind (mem_get m (k + 1)) (\<lambda>b.
          run_bind (mem_get m (k + 2)) (\<lambda>c. run_bind (mem_get m (k + 3)) (\<lambda>d.
            run_bind (mem_put cap out [dec_first a b, dec_second b c, dec_third c d])
              (\<lambda>out'. dec64_loop cap m (k + 4) (nprbytes - 4) out')))))
      else Inr (k, nprbytes, out))"
  by pat_completeness auto
termination
  by (relation "measure (\<lambda>(cap, m, k, n, out). nat n)") auto

declare dec64_loop.simps [simp del]

text \<open>One of the three conditional bytes of the last group.\<close>

definition dec64_last ::
    "nat \<Rightarrow> byte list \<Rightarrow> (byte \<Rightarrow> byte \<Rightarrow> byte) \<Rightarrow> nat \<Rightarrow> bool \<Rightarrow> byte list \<Rightarrow> fault + byte list" where
  "dec64_last cap m f k present out =
     (if present
      then run_bind (mem_get m k) (\<lambda>x. run_bind (mem_get m (k + 1)) (\<lambda>y. mem_put cap out [f x y]))
      else Inr out)"

text \<open>What follows the loop: the last group and the terminating NUL.\<close>

definition dec64_finish :: "nat \<Rightarrow> byte list \<Rightarrow> nat \<times> int \<times> byte list \<Rightarrow> fault + (int \<times> byte list)" where
  "dec64_finish cap m = (\<lambda>(k, n, out0).
     run_bind (dec64_last cap m dec_first k (1 < n) out0) (\<lambda>out1.
     run_bind (dec64_last cap m dec_second (k + 1) (2 < n) out1) (\<lambda>out2.
     run_bind (dec64_last cap m dec_third (k + 2) (3 < n) out2) (\<lambda>out3.
     run_bind (mem_put cap out3 [0]) (\<lambda>out4. Inr (n, out4))))))"

definition shbase64_decode :: "libc \<Rightarrow> byte list \<Rightarrow> fault + (int \<times> (byte list \<times> nat) ptr)" where
  "shbase64_decode c m =
     run_bind (shbase64_decode_len m)
       (\<lambda>len. let cap = (size_of_int len + 1) mod 2 ^ 64 in
         if \<not> calloc_ok c cap then Inr (SHERR_NOMEM, None)
         else run_bind (scan64 m)
           (\<lambda>k. let nprbytes = int_of_size k in run_bind (decoded64 nprbytes)
             (\<lambda>nbytesdecoded. run_bind (dec64_loop cap m 0 nprbytes [])
               (\<lambda>st. run_bind (dec64_finish cap m st)
                 (\<lambda>(n, out). run_bind (int_add 4 (- n))
                   (\<lambda>d. run_bind (int_add nbytesdecoded (- (d AND 3)))
                     (\<lambda>total. Inr (0, Some (out @ replicate (cap - length out) 0, size_of_int total)))))))))"

section \<open>Encoding\<close>

definition six_a :: "byte \<Rightarrow> byte" where "six_a a = drop_bit 2 a AND 0x3F"
definition six_b :: "byte \<Rightarrow> byte \<Rightarrow> byte" where
  "six_b a b = push_bit 4 (a AND 0x3) OR drop_bit 4 (b AND 0xF0)"
definition six_c :: "byte \<Rightarrow> byte \<Rightarrow> byte" where
  "six_c b c = push_bit 2 (b AND 0xF) OR drop_bit 6 (c AND 0xC0)"
definition six_d :: "byte \<Rightarrow> byte" where "six_d c = c AND 0x3F"
definition six_b_last :: "byte \<Rightarrow> byte" where "six_b_last a = push_bit 4 (a AND 0x3)"
definition six_c_last :: "byte \<Rightarrow> byte" where "six_c_last b = push_bit 2 (b AND 0xF)"

lemmas six_defs = six_a_def six_b_def six_c_def six_d_def six_b_last_def six_c_last_def

definition enc_group :: "byte \<Rightarrow> byte \<Rightarrow> byte \<Rightarrow> byte list" where
  "enc_group a b c =
     [enc64 (six_a a), enc64 (six_b a b), enc64 (six_c b c), enc64 (six_d c)]"

text \<open>The loop \<open>for (i = 0; i < data_len - 2; i += 3)\<close>: the bound is computed in \<open>size_t\<close>, the
  counter is an \<open>int\<close>.\<close>

function enc64_loop :: "nat \<Rightarrow> byte list \<Rightarrow> nat \<Rightarrow> nat \<Rightarrow> byte list \<Rightarrow> fault + (nat \<times> byte list)" where
  "enc64_loop cap d data_len i out =
     (if i < (data_len + (2 ^ 64 - 2)) mod 2 ^ 64 then
        run_bind (mem_get d i) (\<lambda>a. run_bind (mem_get d (i + 1)) (\<lambda>b. run_bind (mem_get d (i + 2)) (\<lambda>c.
          run_bind (mem_put cap out (enc_group a b c))
            (\<lambda>out'. if 2 ^ 31 \<le> i + 3 then Inl IntOverflow
                    else enc64_loop cap d data_len (i + 3) out'))))
      else Inr (i, out))"
  by pat_completeness auto
termination
  by (relation "measure (\<lambda>(cap, d, n, i, out). 2 ^ 31 - i)") auto

declare enc64_loop.simps [simp del]

definition shbase64_encode :: "libc \<Rightarrow> byte list \<Rightarrow> nat \<Rightarrow> bool \<Rightarrow> fault + (int \<times> byte list ptr)" where
  "shbase64_encode c d data_len wanted =
     (if \<not> wanted then Inr (SHERR_INVAL, None)
      else run_bind (shbase64_encode_len (int_of_size data_len))
       (\<lambda>len. let cap = (size_of_int len + 1) mod 2 ^ 64 in
         if \<not> calloc_ok c cap then Inr (SHERR_NOMEM, None)
         else run_bind (enc64_loop cap d data_len 0 [])
           (\<lambda>(i, out).
             run_bind
               (if i < data_len then
                  run_bind (mem_get d i) (\<lambda>a.
                    if i = data_len - 1
                    then mem_put cap out [enc64 (six_a a), enc64 (six_b_last a),
                                          pad64, pad64]
                    else run_bind (mem_get d (i + 1)) (\<lambda>b.
                      mem_put cap out [enc64 (six_a a),
                        enc64 (six_b a b),
                        enc64 (six_c_last b), pad64]))
                else Inr out)
               (\<lambda>enc. Inr (0, Some (enc @ replicate (cap - length enc) 0))))))"

section \<open>The reference encoding\<close>

fun b64_spec :: "byte list \<Rightarrow> byte list" where
  "b64_spec (a # b # c # r) = enc_group a b c @ b64_spec r"
| "b64_spec [a, b] = [enc64 (six_a a),
     enc64 (six_b a b), enc64 (six_c_last b), pad64]"
| "b64_spec [a] = [enc64 (six_a a), enc64 (six_b_last a), pad64, pad64]"
| "b64_spec [] = []"

section \<open>Tables and bits\<close>

lemma dec_enc_table: "list_all (\<lambda>i. dec64 (enc64 (word_of_nat i)) = word_of_nat i) [0..<64]"
  by code_simp

lemma dec_enc: "x < 64 \<Longrightarrow> dec64 (enc64 x) = x"
proof -
  assume "x < 64"
  then have "unat x < 64" by (simp add: word_less_nat_alt)
  then have "unat x \<in> set [0..<64]" by simp
  with dec_enc_table have "dec64 (enc64 (word_of_nat (unat x))) = word_of_nat (unat x)"
    unfolding list_all_iff by blast
  then show ?thesis by simp
qed

lemma dec64_stop [simp]: "dec64 0 = 64" "dec64 pad64 = 64"
  by code_simp+

lemma and63_less: "(x :: byte) AND 0x3F < 64"
  using word_and_le1 [of x "0x3F"] by (simp add: word_le_nat_alt word_less_nat_alt)

lemma six_bits [simp]:
  "six_a a < 64" "six_b a b < 64" "six_c b c < 64" "six_d c < 64" "six_b_last a < 64" "six_c_last b < 64"
proof -
  have eq: "x = x AND 0x3F \<Longrightarrow> x < 64" for x :: byte using and63_less [of x] by simp
  show "six_a a < 64" "six_d c < 64" by (simp_all add: six_defs and63_less)
  show "six_b a b < 64" unfolding six_defs by (rule eq, rule byte_eqI) (auto simp: bit_simps)
  show "six_c b c < 64" unfolding six_defs by (rule eq, rule byte_eqI) (auto simp: bit_simps)
  show "six_b_last a < 64" unfolding six_defs by (rule eq, rule byte_eqI) (auto simp: bit_simps)
  show "six_c_last b < 64" unfolding six_defs by (rule eq, rule byte_eqI) (auto simp: bit_simps)
qed

lemma dec_group [simp]:
  "dec_first (enc64 (six_a a)) (enc64 (six_b a b)) = a" (is ?A)
  "dec_second (enc64 (six_b a b)) (enc64 (six_c b c)) = b" (is ?B)
  "dec_third (enc64 (six_c b c)) (enc64 (six_d c)) = c" (is ?C)
  "dec_first (enc64 (six_a a)) (enc64 (six_b_last a)) = a" (is ?D)
  "dec_second (enc64 (six_b a b)) (enc64 (six_c_last b)) = b" (is ?E)
proof -
  note defs = dec_first_def dec_second_def dec_third_def six_bits [THEN dec_enc]
  show ?A unfolding defs unfolding six_defs
    by (rule byte_eqI, auto simp: bit_simps, (simp_all add: numeral_eq_Suc)?)
  show ?B unfolding defs unfolding six_defs
    by (rule byte_eqI, auto simp: bit_simps, (simp_all add: numeral_eq_Suc)?)
  show ?C unfolding defs unfolding six_defs
    by (rule byte_eqI, auto simp: bit_simps, (simp_all add: numeral_eq_Suc)?)
  show ?D unfolding defs unfolding six_defs
    by (rule byte_eqI, auto simp: bit_simps, (simp_all add: numeral_eq_Suc)?)
  show ?E unfolding defs unfolding six_defs
    by (rule byte_eqI, auto simp: bit_simps, (simp_all add: numeral_eq_Suc)?)
qed

section \<open>Decoding inverts the reference encoding\<close>

text \<open>The characters of an encoding without its padding.\<close>

fun b64_chars :: "byte list \<Rightarrow> byte list" where
  "b64_chars (a # b # c # r) = enc_group a b c @ b64_chars r"
| "b64_chars [a, b] = [enc64 (six_a a),
     enc64 (six_b a b), enc64 (six_c_last b)]"
| "b64_chars [a] = [enc64 (six_a a), enc64 (six_b_last a)]"
| "b64_chars [] = []"

lemma b64_spec_chars: "\<exists>k. b64_spec xs = b64_chars xs @ replicate k pad64"
proof (induction xs rule: b64_spec.induct)
  case (2 a b)
  have "b64_spec [a, b] = b64_chars [a, b] @ replicate 1 pad64" by simp
  then show ?case by blast
next
  case (3 a)
  have "b64_spec [a] = b64_chars [a] @ replicate 2 pad64" by (simp add: numeral_2_eq_2)
  then show ?case by blast
qed auto

lemma less64_le63: "(x :: byte) < 64 \<Longrightarrow> x \<le> 63"
  by (simp add: word_le_nat_alt word_less_nat_alt)

lemma b64_chars_alphabet: "b \<in> set (b64_chars xs) \<Longrightarrow> dec64 b \<le> 63"
  by (induction xs rule: b64_chars.induct)
    (auto simp: enc_group_def dec_enc less64_le63)

lemma scan64_spec: "scan64 (b64_spec xs @ 0 # rest) = Inr (length (b64_chars xs))"
proof -
  obtain k where k: "b64_spec xs = b64_chars xs @ replicate k pad64" using b64_spec_chars by blast
  have "takeWhile (\<lambda>b. dec64 b \<le> 63) (b64_chars xs @ replicate k pad64 @ 0 # rest) = b64_chars xs"
    using b64_chars_alphabet [of _ xs] by (cases k) simp_all
  then show ?thesis unfolding scan64_def k by simp
qed

lemma b64_chars_nil [simp]: "b64_chars xs = [] \<longleftrightarrow> xs = []"
  by (cases xs rule: b64_chars.cases) (auto simp: enc_group_def)

lemma nth_drop_at: "drop k m = xs @ ys \<Longrightarrow> i < length xs \<Longrightarrow> k + i < length m \<and> m ! (k + i) = xs ! i"
proof -
  assume eq: "drop k m = xs @ ys" and i: "i < length xs"
  have "length xs \<le> length m - k" using arg_cong [OF eq, of length] by simp
  with i have "k + i < length m" by simp
  moreover have "drop k m ! i = xs ! i" using eq i by (simp add: nth_append)
  ultimately show ?thesis by simp
qed

lemma mem_get_at: "drop k m = xs @ ys \<Longrightarrow> i < length xs \<Longrightarrow> mem_get m (k + i) = Inr (xs ! i)"
  using nth_drop_at [of k m xs ys i] by (simp add: mem_get_def)

lemma mem_get_group:
  assumes "drop k m = enc_group a b c @ ys"
  shows "mem_get m k = Inr (enc_group a b c ! 0)" "mem_get m (k + 1) = Inr (enc_group a b c ! 1)"
    "mem_get m (k + 2) = Inr (enc_group a b c ! 2)" "mem_get m (k + 3) = Inr (enc_group a b c ! 3)"
    "mem_get m (k + 2 + 1) = Inr (enc_group a b c ! 3)" "mem_get m (k + 1 + 1) = Inr (enc_group a b c ! 2)"
  using mem_get_at [OF assms, of 0] mem_get_at [OF assms, of 1] mem_get_at [OF assms, of 2]
    mem_get_at [OF assms, of 3] by (simp_all add: enc_group_def numeral_3_eq_3)

lemma dec64_ok:
  assumes "drop k m = b64_chars xs @ ys" "length out + length xs + 1 \<le> cap"
  shows "\<exists>n'. run_bind (dec64_loop cap m k (int (length (b64_chars xs))) out) (dec64_finish cap m) =
      Inr (n', out @ xs @ [0]) \<and> 0 \<le> n' \<and> n' \<le> 4 \<and>
    int ((length (b64_chars xs) + 3) div 4 * 3) = int (length xs) + ((4 - n') AND 3)"
  using assms
proof (induction xs arbitrary: k out rule: b64_chars.induct)
  case (1 a b c r)
  have g: "drop k m = enc_group a b c @ b64_chars r @ ys" using 1(2) by simp
  note get = mem_get_group [OF g]
  show ?case
  proof (cases "r = []")
    case True
    have "length (b64_chars (a # b # c # r)) = 4" using True by (simp add: enc_group_def)
    then show ?thesis
      using True get 1(3)
      by (subst dec64_loop.simps) (simp add: dec64_finish_def dec64_last_def mem_simps enc_group_def)
  next
    case False
    let ?n = "length (b64_chars r)"
    have n: "length (b64_chars (a # b # c # r)) = ?n + 4" "0 < ?n"
      using False by (simp_all add: enc_group_def)
    have "drop (k + 4) m = drop 4 (drop k m)" by (simp add: add.commute)
    also have "\<dots> = b64_chars r @ ys" unfolding g by (simp add: enc_group_def)
    finally obtain n' where n': "run_bind (dec64_loop cap m (k + 4) (int ?n) (out @ [a, b, c])) (dec64_finish cap m) =
        Inr (n', (out @ [a, b, c]) @ r @ [0])" "0 \<le> n'" "n' \<le> 4"
      "int ((?n + 3) div 4 * 3) = int (length r) + ((4 - n') AND 3)"
      using 1(1) [of "k + 4" "out @ [a, b, c]"] 1(3) by auto
    have "dec64_loop cap m k (int (?n + 4)) out = dec64_loop cap m (k + 4) (int ?n) (out @ [a, b, c])"
      using get n(2) 1(3) by (subst dec64_loop.simps) (simp add: mem_simps enc_group_def)
    with n'(1) have "run_bind (dec64_loop cap m k (int (?n + 4)) out) (dec64_finish cap m) =
        Inr (n', out @ (a # b # c # r) @ [0])" by simp
    moreover have "int ((?n + 4 + 3) div 4 * 3) = int (length (a # b # c # r)) + ((4 - n') AND 3)"
      using n'(4) div_add_self2 [of 4 "?n + 3"] by (simp add: add.assoc add.commute [of 4])
    ultimately show ?thesis unfolding n(1) using n'(2,3) by blast
  qed
next
  case (2 a b)
  note get = mem_get_at [OF 2(1), of 0] mem_get_at [OF 2(1), of 1] mem_get_at [OF 2(1), of 2]
  show ?case
    using get 2(2) by (subst dec64_loop.simps) (simp add: dec64_finish_def dec64_last_def mem_simps)
next
  case (3 a)
  note get = mem_get_at [OF 3(1), of 0] mem_get_at [OF 3(1), of 1]
  show ?case
    using get 3(2) by (subst dec64_loop.simps) (simp add: dec64_finish_def dec64_last_def mem_simps)
next
  case 4
  then show ?case
    by (subst dec64_loop.simps) (simp add: dec64_finish_def dec64_last_def mem_simps)
qed

lemma length_b64_chars: "(length (b64_chars xs) + 3) div 4 * 3 \<ge> length xs"
proof (induction xs rule: b64_chars.induct)
  case (1 a b c r)
  then show ?case using div_add_self2 [of 4 "length (b64_chars r) + 3"] by (simp add: enc_group_def ac_simps)
qed simp_all

lemma length_b64_chars_le: "length (b64_chars xs) \<le> 2 * length xs"
  by (induction xs rule: b64_chars.induct) (simp_all add: enc_group_def)

lemma decoded64_ok:
  assumes "n < 2 ^ 31 - 3"
  shows "decoded64 (int_of_size n) = Inr (int ((n + 3) div 4 * 3))"
proof -
  define q where "q = (n + 3) div 4"
  have q: "q * 3 < 2 ^ 31" "n + 3 < 2 ^ 31" using assms by (simp_all add: q_def)
  moreover have "int_quot (int n + 3) 4 = int q" by (simp add: zdiv_int q_def)
  ultimately have "decoded64 (int_of_size n) = Inr (int q * 3)"
    using assms by (simp add: decoded64_def int_add_def int_mul_def)
  then show ?thesis by (simp add: q_def)
qed

text \<open>C21: Decoding the base64 form of fewer than \<open>2^30 - 1\<close> bytes (as a NUL-terminated string) gives
  exactly these bytes, their number, and a NUL behind them, without leaving the input or the output
  block and without overflowing the \<open>int\<close>s in which the lengths are computed.\<close>

theorem shbase64_decode_spec:
  assumes "\<And>n. calloc_ok c n" "length xs < 2 ^ 30 - 1"
  shows "\<exists>junk. shbase64_decode c (b64_spec xs @ 0 # rest) = Inr (0, Some (xs @ 0 # junk, length xs))"
proof -
  let ?m = "b64_spec xs @ 0 # rest" and ?n = "length (b64_chars xs)"
  let ?d = "(?n + 3) div 4 * 3"
  let ?cap = "?d + 2"
  have n: "?n < 2 ^ 31 - 3" using length_b64_chars_le [of xs] assms(2) by simp
  then have d: "?d + 2 < 2 ^ 31" by simp
  have cap: "(size_of_int (int (?d + 1)) + 1) mod 2 ^ 64 = ?cap"
  proof -
    have "?d + 2 < 2 ^ 64" using d by simp
    then show ?thesis by (simp only: size_of_int_of_nat mod_less add.assoc one_add_one)
  qed
  have len: "shbase64_decode_len ?m = Inr (int (?d + 1))"
    using d by (simp add: shbase64_decode_len_def scan64_spec decoded64_ok [OF n] int_add_def)
  obtain k where "b64_spec xs = b64_chars xs @ replicate k pad64" using b64_spec_chars by blast
  then have "drop 0 ?m = b64_chars xs @ (replicate k pad64 @ 0 # rest)" by simp
  from dec64_ok [OF this, of "[]" ?cap] length_b64_chars [of xs]
  obtain n' where r: "run_bind (dec64_loop ?cap ?m 0 (int ?n) []) (dec64_finish ?cap ?m) = Inr (n', xs @ [0])"
    "0 \<le> n'" "n' \<le> 4" "int ?d = int (length xs) + ((4 - n') AND 3)" by auto
  have i: "int_of_size ?n = int ?n" using n by (intro int_of_size_small) simp
  note dn = decoded64_ok [OF n, unfolded i]
  have "int_add 4 (- n') = Inr (4 - n')" "int_add (int ?d) (- ((4 - n') AND 3)) = Inr (int (length xs))"
    using r(2-4) assms(2) by (simp_all add: int_add_def)
  moreover have "size_of_int (int (length xs)) = length xs"
    using assms(2) by (intro size_of_int_of_nat) simp
  ultimately show ?thesis
    using r(1) assms(1) unfolding shbase64_decode_def len run_bind_Inr Let_def cap scan64_spec i dn
    by (auto simp: run_bind_eq_Inr)
qed

theorem shbase64_decode_spec_witness:
  "\<exists>junk. shbase64_decode \<lparr>calloc_ok = (\<lambda>_. True), realloc_ok = (\<lambda>_. True), fresh = (\<lambda>_. 0)\<rparr>
     (b64_spec [1, 2, 3, 4] @ [0]) = Inr (0, Some ([1, 2, 3, 4, 0] @ junk, 4))"
proof -
  have l: "length [1, 2, 3, 4 :: byte] = 4" by simp
  have "length [1, 2, 3, 4 :: byte] < 2 ^ 30 - 1" by simp
  from shbase64_decode_spec [OF _ this, of "\<lparr>calloc_ok = (\<lambda>_. True), realloc_ok = (\<lambda>_. True), fresh = (\<lambda>_. 0)\<rparr>" "[]"]
  show ?thesis unfolding l by simp
qed

section \<open>Encoding computes the reference\<close>

lemma length_b64_spec: "length (b64_spec xs) = 4 * ((length xs + 2) div 3)"
proof (induction xs rule: b64_spec.induct)
  case (1 a b c r)
  then show ?case using div_add_self2 [of 3 "length r + 2"] by (simp add: enc_group_def ac_simps)
qed simp_all

lemma take_drop_three:
  assumes "i + 3 \<le> n" "n \<le> length d"
  shows "take (n - i) (drop i d) = d ! i # d ! (i + 1) # d ! (i + 2) # take (n - (i + 3)) (drop (i + 3) d)"
proof -
  have "drop i d = d ! i # d ! (i + 1) # d ! (i + 2) # drop (i + 3) d"
    using assms by (simp add: Cons_nth_drop_Suc [symmetric] eval_nat_numeral)
  moreover have "n - i = Suc (Suc (Suc (n - (i + 3))))" using assms by simp
  ultimately show ?thesis by simp
qed

lemma enc64_loop_ok:
  assumes "2 \<le> n" "n < 2 ^ 30" "n \<le> length d" "i \<le> n"
    and "length out + length (b64_spec (take (n - i) (drop i d))) \<le> cap"
  shows "\<exists>i' out'. enc64_loop cap d n i out = Inr (i', out') \<and> i' \<le> n \<and> n < i' + 3 \<and>
    out' @ b64_spec (take (n - i') (drop i' d)) = out @ b64_spec (take (n - i) (drop i d))"
  using assms(4,5)
proof (induction "n - i" arbitrary: i out rule: less_induct)
  case less
  have bound: "(n + (2 ^ 64 - 2)) mod 2 ^ 64 = n - 2"
  proof -
    have "n + (2 ^ 64 - 2) = (n - 2) + 2 ^ 64" using assms(1) by simp
    moreover have "n - 2 < 2 ^ 64" using assms(2) by simp
    ultimately show ?thesis by (simp only: mod_add_self2 mod_less)
  qed
  show ?case
  proof (cases "i < n - 2")
    case False
    then show ?thesis
      using less.prems(1) unfolding enc64_loop.simps [of cap d n i] bound by simp
  next
    case True
    then have i3: "i + 3 \<le> n" by simp
    note td = take_drop_three [OF i3 assms(3)]
    let ?g = "enc_group (d ! i) (d ! (i + 1)) (d ! (i + 2))"
    have len: "length (out @ ?g) + length (b64_spec (take (n - (i + 3)) (drop (i + 3) d))) \<le> cap"
      using less.prems(2) unfolding td by simp
    have step: "enc64_loop cap d n i out = enc64_loop cap d n (i + 3) (out @ ?g)"
      using True i3 assms(2,3) len
      unfolding enc64_loop.simps [of cap d n i] bound by (simp add: mem_simps)
    show ?thesis
      unfolding step using less.hyps [of "i + 3" "out @ ?g"] i3 len td by auto
  qed
qed

lemma encode_len_ok:
  assumes "n < 2 ^ 29"
  shows "shbase64_encode_len (int_of_size n) = Inr (int (4 * ((n + 2) div 3) + 1))"
proof -
  have "(n + 2) div 3 < 2 ^ 29" using assms by simp
  then have "int ((n + 2) div 3) * 4 < 2 ^ 31" "int n + 2 < 2 ^ 31" using assms by simp_all
  moreover have "int_quot (int n + 2) 3 = int ((n + 2) div 3)" by (simp add: zdiv_int)
  ultimately show ?thesis
    using assms by (simp add: shbase64_encode_len_def int_add_def int_mul_def)
qed

text \<open>For at least two (and fewer than \<open>2^29\<close>) bytes the optimised encoder computes the
  reference encoding, followed by the NULs of its allocation, and stays inside its buffers.\<close>

theorem shbase64_encode_spec:
  assumes "2 \<le> n" "n < 2 ^ 29" "n \<le> length d" "\<And>k. calloc_ok c k"
  shows "shbase64_encode c d n True = Inr (0, Some (b64_spec (take n d) @ [0, 0]))"
proof -
  let ?len = "4 * ((n + 2) div 3)"
  have len: "length (b64_spec (take n d)) = ?len" using assms(3) by (simp add: length_b64_spec)
  have cap: "(size_of_int (int (?len + 1)) + 1) mod 2 ^ 64 = ?len + 2"
  proof -
    have "?len + 2 < 2 ^ 64" using assms(2) by simp
    then show ?thesis by (simp only: size_of_int_of_nat mod_less add.assoc one_add_one)
  qed
  obtain i out where lo: "enc64_loop (?len + 2) d n 0 [] = Inr (i, out)" "i \<le> n" "n < i + 3"
    "out @ b64_spec (take (n - i) (drop i d)) = b64_spec (take n d)"
    using enc64_loop_ok [of n d 0 "[]" "?len + 2"] assms(1-3) len by auto
  have fit: "length out + length (b64_spec (take (n - i) (drop i d))) = ?len"
    using lo(4) len by (metis length_append)
  consider "i = n" | "i + 1 = n" | "i + 2 = n" using lo(2,3) by linarith
  then have t: "(if i < n then
        run_bind (mem_get d i) (\<lambda>a.
          if i = n - 1
          then mem_put (?len + 2) out [enc64 (six_a a), enc64 (six_b_last a), pad64, pad64]
          else run_bind (mem_get d (i + 1)) (\<lambda>b.
            mem_put (?len + 2) out [enc64 (six_a a), enc64 (six_b a b), enc64 (six_c_last b), pad64]))
      else Inr out) = Inr (b64_spec (take n d))"
  proof cases
    case 1
    then show ?thesis using lo(4) fit by (simp add: numeral_2_eq_2)
  next
    case 2
    then have td: "take (n - i) (drop i d) = [d ! i]"
      using assms(3) by (auto simp: take_Suc_conv_app_nth Cons_nth_drop_Suc [symmetric])
    show ?thesis
      using 2 lo(4) fit assms(3) unfolding td by (auto simp: mem_simps numeral_2_eq_2)
  next
    case 3
    then have td: "take (n - i) (drop i d) = [d ! i, d ! (i + 1)]"
      using assms(3) by (auto simp: take_Suc_conv_app_nth Cons_nth_drop_Suc [symmetric] numeral_2_eq_2)
    show ?thesis
      using 3 lo(4) fit assms(3) unfolding td by (auto simp: mem_simps numeral_2_eq_2)
  qed
  have r: "replicate (?len + 2 - length (b64_spec (take n d))) (0 :: byte) = [0, 0]"
    unfolding len by (simp add: numeral_2_eq_2)
  show ?thesis
    unfolding shbase64_encode_def encode_len_ok [OF assms(2)] run_bind_Inr Let_def cap lo(1)
      case_prod_conv t r using assms(4) by simp
qed

theorem shbase64_encode_spec_witness:
  "shbase64_encode \<lparr>calloc_ok = (\<lambda>_. True), realloc_ok = (\<lambda>_. True), fresh = (\<lambda>_. 0)\<rparr>
     [102, 111, 111, 98] 4 True = Inr (0, Some (map of_char ''Zm9vYg=='' @ [0, 0]))"
proof -
  have "b64_spec (take 4 [102, 111, 111, 98]) = map of_char ''Zm9vYg==''" by code_simp
  then show ?thesis
    using shbase64_encode_spec [of 4 "[102, 111, 111, 98]"
      "\<lparr>calloc_ok = (\<lambda>_. True), realloc_ok = (\<lambda>_. True), fresh = (\<lambda>_. 0)\<rparr>"] by simp
qed

text \<open>The loop bound \<open>data_len - 2\<close> of the encoder wraps for an empty and for a one-byte input:
  whatever the allocator answers (as long as it answers), the encoder then reads beyond its
  input.\<close>

theorem shbase64_encode_short:
  assumes "length d < 2" "\<And>k. calloc_ok c k"
  shows "shbase64_encode c d (length d) True = Inl OutOfBounds"
proof -
  have "enc64_loop cap d (length d) 0 [] = Inl OutOfBounds" for cap
  proof (cases d)
    case Nil
    then show ?thesis by (subst enc64_loop.simps) (simp add: mem_get_def)
  next
    case (Cons x xs)
    with assms(1) have "d = [x]" by (cases xs) simp_all
    then show ?thesis by (subst enc64_loop.simps) (simp add: mem_get_def)
  qed
  then show ?thesis
    using assms encode_len_ok [of "length d"] by (simp add: shbase64_encode_def Let_def)
qed

theorem shbase64_encode_short_witness:
  "shbase64_encode \<lparr>calloc_ok = (\<lambda>_. True), realloc_ok = (\<lambda>_. True), fresh = (\<lambda>_. 0)\<rparr> [65] 1 True =
     Inl OutOfBounds"
  using shbase64_encode_short [of "[65]" "\<lparr>calloc_ok = (\<lambda>_. True), realloc_ok = (\<lambda>_. True), fresh = (\<lambda>_. 0)\<rparr>"]
  by simp

end
