(* ===== verification/Share_Base58.thy ===== *)
theory Share_Base58
  imports Share_Sha_Fips
begin

text \<open>
  The base 58 text form of \<^verbatim>\<open>share-lib/mem/shmem_base58.c\<close>: encoding by long division with a
  moving upper bound, decoding into 32-bit words with carry and overflow checks, the size of a
  decoded text, and the variants with a checksum of two SHA-256 rounds.  A text is its bytes
  without the terminating NUL.
\<close>

section \<open>Tables\<close>

definition b58digits_map :: "int list" where
  "b58digits_map = [
     - 1, - 1, - 1, - 1, - 1, - 1, - 1, - 1, - 1, - 1, - 1, - 1, - 1, - 1, - 1, - 1,
     - 1, - 1, - 1, - 1, - 1, - 1, - 1, - 1, - 1, - 1, - 1, - 1, - 1, - 1, - 1, - 1,
     - 1, - 1, - 1, - 1, - 1, - 1, - 1, - 1, - 1, - 1, - 1, - 1, - 1, - 1, - 1, - 1,
     - 1, 0, 1, 2, 3, 4, 5, 6, 7, 8, - 1, - 1, - 1, - 1, - 1, - 1,
     - 1, 9, 10, 11, 12, 13, 14, 15, 16, - 1, 17, 18, 19, 20, 21, - 1,
     22, 23, 24, 25, 26, 27, 28, 29, 30, 31, 32, - 1, - 1, - 1, - 1, - 1,
     - 1, 33, 34, 35, 36, 37, 38, 39, 40, 41, 42, 43, - 1, 44, 45, 46,
     47, 48, 49, 50, 51, 52, 53, 54, 55, 56, 57, - 1, - 1, - 1, - 1, - 1]"

definition b58digits_ordered :: "byte list" where
  "b58digits_ordered = [
     49, 50, 51, 52, 53, 54, 55, 56, 57, 65, 66, 67, 68, 69, 70, 71, 72, 74, 75, 76,
     77, 78, 80, 81, 82, 83, 84, 85, 86, 87, 88, 89, 90, 97, 98, 99, 100, 101, 102, 103,
     104, 105, 106, 107, 109, 110, 111, 112, 113, 114, 115, 116, 117, 118, 119, 120, 121, 122]"

section \<open>Decoding\<close>

text \<open>The leading zeros: the table has 128 entries and is read before the sign bit is tested.\<close>

fun b58_zeros :: "byte list \<Rightarrow> fault + (nat \<times> byte list)" where
  "b58_zeros [] = Inr (0, [])"
| "b58_zeros (ch # cs) =
     (if 128 \<le> unat ch then Inl OutOfBounds
      else if b58digits_map ! unat ch = 0
      then run_bind (b58_zeros cs) (\<lambda>(zerocount, rest). Inr (zerocount + 1, rest))
      else Inr (0, ch # cs))"

text \<open>One digit: the words are multiplied by 58 from the last to the first.\<close>

fun b58_mul :: "u32 list \<Rightarrow> u32 \<Rightarrow> u32 list \<times> u32" where
  "b58_mul [] c = ([], c)"
| "b58_mul (x # xs) c =
     (let (ys, c') = b58_mul xs c;
          t = ucast x * 58 + ucast c' :: u64
      in (ucast (t AND 0xFFFFFFFF) # ys, ucast (drop_bit 32 (t AND 0x3F00000000))))"

text \<open>The loop over the digits; \<open>None\<close> is the return value \<open>-1\<close>.\<close>

fun b58_decode_loop :: "u32 \<Rightarrow> u32 list \<Rightarrow> byte list \<Rightarrow> fault + u32 list option" where
  "b58_decode_loop zeromask outi [] = Inr (Some outi)"
| "b58_decode_loop zeromask outi (ch # cs) =
     (if ch AND 0x80 \<noteq> 0 then Inr None
      else if b58digits_map ! unat ch = - 1 then Inr None
      else (let (outi', c) = b58_mul outi (word_of_int (b58digits_map ! unat ch)) in
            if c \<noteq> 0 then Inr None
            else (case outi' of
                [] \<Rightarrow> Inl OutOfBounds
              | w # ws \<Rightarrow> if w AND zeromask \<noteq> 0 then Inr None else b58_decode_loop zeromask outi' cs)))"

definition b58_unpack :: "nat \<Rightarrow> u32 list \<Rightarrow> byte list" where
  "b58_unpack bytesleft outi =
     (case outi of [] \<Rightarrow> []
      | w # ws \<Rightarrow>
         if bytesleft = 0 then concat (map (be_bytes 4) outi)
         else (if bytesleft = 3 then [ucast (drop_bit 16 (w AND 0xFF0000))] else []) @
              (if 2 \<le> bytesleft then [ucast (drop_bit 8 (w AND 0xFF00))] else []) @
              [ucast (w AND 0xFF)] @ concat (map (be_bytes 4) ws))"

definition b58_zeromask :: "nat \<Rightarrow> u32" where
  "b58_zeromask bytesleft = (if bytesleft \<noteq> 0 then push_bit (bytesleft * 8) 0xFFFFFFFF else 0)"

text \<open>The common part of \<open>shbase58_decode\<close> and \<open>shbase58_decode_size\<close>: the decoded bytes and the
  number of leading zero digits.\<close>

definition b58_decode_bin :: "nat \<Rightarrow> byte list \<Rightarrow> fault + (byte list \<times> nat) option" where
  "b58_decode_bin binsz b58 =
     run_bind (b58_zeros b58) (\<lambda>(zerocount, rest).
     run_bind (b58_decode_loop (b58_zeromask (binsz mod 4)) (replicate ((binsz + 3) div 4) 0) rest) (\<lambda>r.
       Inr (map_option (\<lambda>outi. (b58_unpack (binsz mod 4) outi, zerocount)) r)))"

definition leading_zeros :: "byte list \<Rightarrow> nat" where
  "leading_zeros bs = length (takeWhile (\<lambda>b. b = 0) bs)"

definition shbase58_decode_size :: "libc \<Rightarrow> byte list \<Rightarrow> nat \<Rightarrow> fault + int" where
  "shbase58_decode_size c b58 max_size =
     run_bind (b58_decode_bin max_size b58) (\<lambda>r.
       case r of None \<Rightarrow> Inr (- 1)
       | Some (bin, zerocount) \<Rightarrow>
           if \<not> calloc_ok c max_size \<and> bin \<noteq> [] then Inl NullDeref
           else Inr (int_of_size (max_size - leading_zeros bin + zerocount)))"

text \<open>The result: the code, the bytes in the caller's buffer and the length returned through
  \<open>data_len\<close>.\<close>

definition shbase58_decode :: "nat \<Rightarrow> byte list \<Rightarrow> fault + (int \<times> byte list \<times> nat)" where
  "shbase58_decode data_len b58 =
     run_bind (b58_decode_bin data_len b58) (\<lambda>r.
       case r of None \<Rightarrow> Inr (- 1, [], data_len)
       | Some (bin, zerocount) \<Rightarrow> Inr (0, bin, data_len - leading_zeros bin + zerocount))"

section \<open>Encoding\<close>

text \<open>The inner loop: the digits of the buffer times 256 plus the carry, down to the index \<open>high\<close> and
  further while there is a carry.  The entries stay below 58, so that they fit their type.\<close>

function enc58_inner :: "nat list \<Rightarrow> int \<Rightarrow> int \<Rightarrow> nat \<Rightarrow> fault + (nat list \<times> int)" where
  "enc58_inner buf high j carry =
     (if high < j \<or> carry \<noteq> 0 then
        (if j < 0 then Inl OutOfBounds
         else (let c = carry + 256 * buf ! nat j
               in enc58_inner (buf[nat j := c mod 58]) high (j - 1) (c div 58)))
      else Inr (buf, j))"
  by pat_completeness auto
termination
  by (relation "measure (\<lambda>(buf, high, j, carry). nat (j + 1))") auto

declare enc58_inner.simps [simp del]

fun enc58_loop :: "nat list \<Rightarrow> int \<Rightarrow> byte list \<Rightarrow> fault + nat list" where
  "enc58_loop buf high [] = Inr buf"
| "enc58_loop buf high (b # bs) =
     run_bind (enc58_inner buf high (int (length buf) - 1) (unat b)) (\<lambda>(buf', j). enc58_loop buf' j bs)"

text \<open>The result: the code, the size returned through \<open>b58sz\<close>, and the bytes written.\<close>

definition shbase58_encode :: "nat \<Rightarrow> byte list \<Rightarrow> fault + (int \<times> nat \<times> byte list)" where
  "shbase58_encode b58sz data =
     (let zcount = leading_zeros data;
          sz = (length data - zcount) * 138 div 100 + 1 in
      run_bind (enc58_loop (replicate sz 0) (int sz - 1) (drop zcount data)) (\<lambda>buf.
        let digits = dropWhile (\<lambda>d. d = 0) buf in
        if b58sz \<le> zcount + length digits then Inr (- 1, zcount + length digits + 1, [])
        else Inr (0, zcount + length digits + 1,
               replicate zcount 49 @ map (\<lambda>d. b58digits_ordered ! d) digits @ [0])))"

section \<open>Texts with a checksum\<close>

definition b58check :: "(nat \<Rightarrow> byte) \<Rightarrow> byte list \<Rightarrow> byte list \<Rightarrow> fault + int" where
  "b58check junk bin base58str =
     (if length bin < 4 then Inr (- 4)
      else run_bind (sh_sha256 junk (Some bin) (length bin - 4)) (\<lambda>h1.
           run_bind (sh_sha256 junk (Some h1) 32) (\<lambda>h2.
             if drop (length bin - 4) bin \<noteq> take 4 h2 then Inr (- 1)
             else (let i = length (takeWhile (\<lambda>(b, ch). b = 0 \<and> ch = 49) (zip bin (base58str @ [0]))) in
                   run_bind (mem_get bin i) (\<lambda>b.
                   run_bind (mem_get (base58str @ [0]) i) (\<lambda>ch.
                     if b = 0 \<or> ch = 49 then Inr (- 3)
                     else run_bind (mem_get bin 0) (\<lambda>b0. Inr (int (unat b0)))))))))"

definition shbase58_encode_check :: "(nat \<Rightarrow> byte) \<Rightarrow> byte list \<Rightarrow> int \<Rightarrow> fault + (int \<times> byte list)" where
  "shbase58_encode_check junk data strsize =
     (if 128 < length data then Inr (0, [])
      else run_bind (sh_sha256 junk (Some data) (length data)) (\<lambda>h1.
           run_bind (sh_sha256 junk (Some h1) 32) (\<lambda>h2.
           run_bind (shbase58_encode (size_of_int strsize) (data @ take 4 h2)) (\<lambda>(err, res, str).
             if err = 0 then Inr (int_of_size res, str) else Inr (0, [])))))"

definition shbase58_decode_check :: "(nat \<Rightarrow> byte) \<Rightarrow> byte list \<Rightarrow> nat \<Rightarrow> fault + (int \<times> byte list)" where
  "shbase58_decode_check junk str datalen =
     (if 128 < datalen then Inr (0, [])
      else run_bind (shbase58_decode (datalen + 4) str) (\<lambda>(err, d, res).
        if err \<noteq> 0 then Inr (0, [])
        else if res \<noteq> datalen + 4 then Inr (0, [])
        else run_bind (b58check junk d str) (\<lambda>r.
          if r < 0 then Inr (0, []) else Inr (int datalen, take datalen d))))"

section \<open>Values of digit lists\<close>

definition digits_val :: "nat \<Rightarrow> nat list \<Rightarrow> nat" where
  "digits_val B ds = foldl (\<lambda>a d. a * B + d) 0 ds"

lemma digits_val_acc: "foldl (\<lambda>a d. a * B + d) x ds = x * B ^ length ds + digits_val B ds"
proof (induction ds arbitrary: x)
  case Nil
  then show ?case by (simp add: digits_val_def)
next
  case (Cons d ds)
  show ?case using Cons [of "x * B + d"] Cons [of d] by (simp add: digits_val_def algebra_simps)
qed

lemma digits_val_Cons [simp]: "digits_val B (d # ds) = d * B ^ length ds + digits_val B ds"
  using digits_val_acc [of B d ds] by (simp add: digits_val_def)

lemma digits_val_append: "digits_val B (xs @ ys) = digits_val B xs * B ^ length ys + digits_val B ys"
  using digits_val_acc [of B "digits_val B xs" ys] by (simp add: digits_val_def)

lemma digits_val_simps [simp]: "digits_val B [] = 0" "digits_val B (xs @ [d]) = digits_val B xs * B + d"
  by (simp_all add: digits_val_append digits_val_def [of B "[]"])

lemma digits_val_less: "\<forall>d \<in> set ds. d < B \<Longrightarrow> digits_val B ds < B ^ length ds"
proof (induction ds)
  case Nil
  then show ?case by simp
next
  case (Cons d ds)
  then have "d * B ^ length ds + digits_val B ds < (d + 1) * B ^ length ds" by simp
  also have "\<dots> \<le> B * B ^ length ds" using Cons.prems by (intro mult_le_mono1) auto
  finally show ?case by simp
qed

lemma digits_val_zeros: "\<forall>d \<in> set ds. d = 0 \<Longrightarrow> digits_val B ds = 0"
  by (induction ds) auto

lemma digits_val_dropWhile: "digits_val B (dropWhile (\<lambda>d. d = 0) ds) = digits_val B ds"
  by (induction ds) auto

lemma digits_val_prefix: "0 < B \<Longrightarrow> digits_val B (take k ds) \<le> digits_val B ds"
proof (induction ds arbitrary: k)
  case Nil
  then show ?case by simp
next
  case (Cons d ds)
  show ?case
  proof (cases k)
    case (Suc n)
    have "d * B ^ length (take n ds) \<le> d * B ^ length ds"
      using Cons.prems by (intro mult_le_mono2 power_increasing) auto
    then show ?thesis using Cons.IH [OF Cons.prems, of n] Suc by (simp only: take_Suc_Cons digits_val_Cons add_mono)
  qed simp
qed

lemma be_nat_bytes: "be_nat (length bs) (digits_val 256 (map unat bs)) = bs"
proof (induction bs rule: rev_induct)
  case Nil
  then show ?case by (simp add: be_nat_def)
next
  case (snoc b bs)
  have "unat b < 256 ^ 1" using unsigned_less [of b] by simp
  moreover have "be_nat 1 (unat b) = [b]" by (simp add: be_nat_def)
  ultimately show ?case
    using snoc be_nat_append [of "unat b" 1 "length bs" "digits_val 256 (map unat bs)"] by simp
qed

section \<open>The encoder computes the digits\<close>

lemma enc58_inner_ok:
  assumes "- 1 \<le> j" "j < int (length buf)" "\<forall>k. int k \<le> high \<longrightarrow> int k \<le> j \<longrightarrow> buf ! k = 0"
    and "digits_val 58 (take (nat (j + 1)) buf) * 256 + carry < 58 ^ nat (j + 1)"
    and "\<forall>d \<in> set buf. d < 58" "- 1 \<le> high"
  shows "\<exists>buf' j'. enc58_inner buf high j carry = Inr (buf', j') \<and> length buf' = length buf \<and> - 1 \<le> j' \<and> j' \<le> j \<and> j' \<le> high \<and>
    digits_val 58 (take (nat (j + 1)) buf') = digits_val 58 (take (nat (j + 1)) buf) * 256 + carry \<and>
    drop (nat (j + 1)) buf' = drop (nat (j + 1)) buf \<and>
    (\<forall>d \<in> set buf'. d < 58) \<and> (\<forall>k. int k \<le> j' \<longrightarrow> buf' ! k = 0)"
  using assms
proof (induction buf high j carry rule: enc58_inner.induct)
  case (1 buf high j carry)
  show ?case
  proof (cases "high < j \<or> carry \<noteq> 0")
    case False
    have "\<forall>d \<in> set (take (nat (j + 1)) buf). d = 0"
      using 1(4) False by (auto simp: in_set_conv_nth)
    then have "digits_val 58 (take (nat (j + 1)) buf) = 0" by (rule digits_val_zeros)
    moreover have "enc58_inner buf high j carry = Inr (buf, j)"
      using False by (subst enc58_inner.simps) simp
    ultimately show ?thesis using False 1(2-) by (intro exI [of _ buf] exI [of _ j]) auto
  next
    case True
    have j: "0 \<le> j"
    proof (rule ccontr)
      assume "\<not> 0 \<le> j"
      then have "j = - 1" using 1(2) by simp
      with 1(5,7) True show False by auto
    qed
    define i where "i = nat j"
    have ji: "j = int i" and i: "i < length buf" using j 1(3) by (simp_all add: i_def)
    define c where "c = carry + 256 * buf ! i"
    let ?buf = "buf[i := c mod 58]"
    have up: "take (Suc i) xs = take i xs @ [xs ! i]" if "i < length xs" for xs :: "nat list"
      using that by (rule take_Suc_conv_app_nth)
    have tk: "take (Suc i) buf = take i buf @ [buf ! i]" "take i ?buf = take i buf" using i up by simp_all
    let ?P = "digits_val 58 (take i buf)"
    have "(?P * 58 + buf ! i) * 256 + carry < 58 ^ Suc i"
      using 1(5) ji tk by (simp add: nat_add_distrib)
    then have "58 * (?P * 256 + c div 58) + c mod 58 < 58 * 58 ^ i" by (simp add: c_def algebra_simps)
    then have lt: "?P * 256 + c div 58 < 58 ^ i" by (metis add_lessD1 nat_mult_less_cancel_disj)
    have set: "\<forall>d \<in> set ?buf. d < 58"
      using 1(6) set_update_subset_insert [of buf i "c mod 58"] by auto
    have nj: "nat (int i - 1 + 1) = i" by simp
    have "\<exists>buf' j'. enc58_inner ?buf high (int i - 1) (c div 58) = Inr (buf', j') \<and> length buf' = length ?buf \<and> - 1 \<le> j' \<and>
        j' \<le> int i - 1 \<and> j' \<le> high \<and>
        digits_val 58 (take (nat (int i - 1 + 1)) buf') = digits_val 58 (take (nat (int i - 1 + 1)) ?buf) * 256 + c div 58 \<and>
        drop (nat (int i - 1 + 1)) buf' = drop (nat (int i - 1 + 1)) ?buf \<and>
        (\<forall>d \<in> set buf'. d < 58) \<and> (\<forall>k. int k \<le> j' \<longrightarrow> buf' ! k = 0)"
    proof -
      have p: "\<not> j < 0" "c = carry + 256 * buf ! nat j" using j by (simp_all add: c_def i_def)
      have q: "- 1 \<le> j - 1" "j - 1 < int (length (buf[nat j := c mod 58]))" using j 1(3) by simp_all
      have z: "\<forall>k. int k \<le> high \<longrightarrow> int k \<le> j - 1 \<longrightarrow> buf[nat j := c mod 58] ! k = 0"
        using 1(4) ji by auto
      have l: "digits_val 58 (take (nat (j - 1 + 1)) (buf[nat j := c mod 58])) * 256 + c div 58 < 58 ^ nat (j - 1 + 1)"
        using lt tk(2) ji by simp
      show ?thesis using 1(1) [OF True p q z l _ 1(7)] set unfolding i_def [symmetric] ji by simp
    qed
    then obtain buf' j' where e: "enc58_inner ?buf high (int i - 1) (c div 58) = Inr (buf', j')"
      "length buf' = length buf" "- 1 \<le> j'" "j' \<le> int i - 1" "j' \<le> high"
      "digits_val 58 (take i buf') = ?P * 256 + c div 58" "drop i buf' = drop i ?buf"
      "\<forall>d \<in> set buf'. d < 58" "\<forall>k. int k \<le> j' \<longrightarrow> buf' ! k = 0"
      using tk(2) unfolding nj by auto
    have last: "buf' ! i = c mod 58" "drop (Suc i) buf' = drop (Suc i) buf"
      using e(2,7) i by (metis Cons_nth_drop_Suc length_list_update list.inject nth_list_update_eq)
        (metis drop_drop drop_update_cancel e(7) i le_add2 lessI plus_1_eq_Suc)
    have "digits_val 58 (take (Suc i) buf') = digits_val 58 (take (Suc i) buf) * 256 + carry"
      using e(2,6) i up [of buf'] tk(1) last(1) by (simp add: c_def algebra_simps)
    moreover have "enc58_inner buf high j carry = enc58_inner ?buf high (int i - 1) (c div 58)"
      using True j by (subst enc58_inner.simps) (simp add: Let_def c_def ji)
    moreover have "nat (j + 1) = Suc i" using ji by simp
    ultimately show ?thesis using e last ji by auto
  qed
qed

lemma enc58_loop_ok:
  assumes "\<forall>d \<in> set buf. d < 58" "\<forall>k. int k \<le> high \<longrightarrow> buf ! k = 0" "- 1 \<le> high" "high < int (length buf)"
    and "digits_val 58 buf * 256 ^ length bs + digits_val 256 (map unat bs) < 58 ^ length buf"
  shows "\<exists>buf'. enc58_loop buf high bs = Inr buf' \<and> length buf' = length buf \<and> (\<forall>d \<in> set buf'. d < 58) \<and>
    digits_val 58 buf' = digits_val 58 buf * 256 ^ length bs + digits_val 256 (map unat bs)"
  using assms
proof (induction bs arbitrary: buf high)
  case Nil
  then show ?case by simp
next
  case (Cons b bs)
  let ?v = "digits_val 58 buf * 256 + unat b" and ?n = "int (length buf) - 1"
  have le: "?v \<le> ?v * 256 ^ length bs" by simp
  have eq: "?v * 256 ^ length bs + digits_val 256 (map unat bs) =
      digits_val 58 buf * 256 ^ length (b # bs) + digits_val 256 (map unat (b # bs))"
    by (simp add: algebra_simps)
  then have "?v < 58 ^ length buf" using le Cons.prems(5) by linarith
  then have "\<exists>buf' j'. enc58_inner buf high ?n (unat b) = Inr (buf', j') \<and> length buf' = length buf \<and> - 1 \<le> j' \<and> j' \<le> ?n \<and>
      j' \<le> high \<and> digits_val 58 buf' = ?v \<and> (\<forall>d \<in> set buf'. d < 58) \<and> (\<forall>k. int k \<le> j' \<longrightarrow> buf' ! k = 0)"
    using enc58_inner_ok [of ?n buf high "unat b"] Cons.prems by auto
  then obtain buf' j' where e: "enc58_inner buf high ?n (unat b) = Inr (buf', j')" "length buf' = length buf"
    "- 1 \<le> j'" "j' \<le> ?n" "digits_val 58 buf' = ?v" "\<forall>d \<in> set buf'. d < 58" "\<forall>k. int k \<le> j' \<longrightarrow> buf' ! k = 0"
    by blast
  have "digits_val 58 buf' * 256 ^ length bs + digits_val 256 (map unat bs) < 58 ^ length buf'"
    using e(2,5) eq Cons.prems(5) by simp
  from Cons.IH [OF e(6,7,3) _ this] show ?case using e eq by simp
qed

text \<open>The buffer is large enough: \<open>log 256 / log 58 < 1.38\<close>.\<close>

lemma enc58_size: "(256 :: nat) ^ m \<le> 58 ^ (m * 138 div 100 + 1)"
proof (rule power_le_imp_le_base)
  define q where "q = m * 138 div 100 + 1"
  have q: "m * 138 \<le> 100 * q" by (simp add: q_def)
  have e: "(a ^ k) ^ Suc 99 = (a ^ 100) ^ k" for a k :: nat
  proof -
    have "Suc 99 = 100" by simp
    then show ?thesis by (metis power_mult mult.commute)
  qed
  have "((256 :: nat) ^ m) ^ Suc 99 = (256 ^ 100) ^ m" by (rule e)
  also have "\<dots> \<le> (58 ^ 138) ^ m" by (rule power_mono) simp_all
  also have "\<dots> = 58 ^ (m * 138)" by (metis power_mult mult.commute)
  also have "\<dots> \<le> 58 ^ (100 * q)" using q by (rule power_increasing) simp
  also have "\<dots> = (58 ^ q) ^ Suc 99" unfolding e by (rule power_mult)
  finally show "((256 :: nat) ^ m) ^ Suc 99 \<le> (58 ^ (m * 138 div 100 + 1)) ^ Suc 99" by (simp only: q_def)
qed simp

lemma byte_less: "unat (b :: byte) < 256"
  using unsigned_less [of b] by simp

lemma leading_zeros_split: "bs = replicate (leading_zeros bs) 0 @ drop (leading_zeros bs) bs"
proof -
  have "takeWhile (\<lambda>b. b = 0) bs = replicate (leading_zeros bs) 0"
    unfolding leading_zeros_def by (rule replicate_eqI) (auto dest: set_takeWhileD)
  then show ?thesis by (metis leading_zeros_def takeWhile_dropWhile_id dropWhile_eq_drop)
qed

lemma digits_val_leading: "digits_val 256 (map unat (drop (leading_zeros bs) bs)) = digits_val 256 (map unat bs)"
proof -
  have "digits_val 256 (map unat bs) =
      digits_val 256 (map unat (replicate (leading_zeros bs) 0 @ drop (leading_zeros bs) bs))"
    using leading_zeros_split [of bs] by simp
  also have "\<dots> = digits_val 256 (map unat (drop (leading_zeros bs) bs))"
    by (simp add: digits_val_append digits_val_zeros)
  finally show ?thesis by simp
qed

text \<open>The text of some bytes: a digit one for every leading zero, then the digits of the value.\<close>

lemma encode58_ok:
  "\<exists>ds. (\<forall>d \<in> set ds. d < 58) \<and> (ds = [] \<or> hd ds \<noteq> 0) \<and> digits_val 58 ds = digits_val 256 (map unat data) \<and>
    length ds \<le> (length data - leading_zeros data) * 138 div 100 + 1 \<and>
    shbase58_encode b58sz data =
      (if b58sz \<le> leading_zeros data + length ds then Inr (- 1, leading_zeros data + length ds + 1, [])
       else Inr (0, leading_zeros data + length ds + 1,
              replicate (leading_zeros data) 49 @ map (\<lambda>d. b58digits_ordered ! d) ds @ [0]))"
proof -
  let ?z = "leading_zeros data"
  let ?rest = "drop ?z data"
  define sz where "sz = (length data - ?z) * 138 div 100 + 1"
  have "digits_val 256 (map unat ?rest) < 256 ^ length (map unat ?rest)"
    by (rule digits_val_less) (auto simp: byte_less)
  also have "\<dots> \<le> 58 ^ sz" using enc58_size [of "length data - ?z"] by (simp add: sz_def)
  finally have lt: "digits_val 256 (map unat ?rest) < 58 ^ sz" .
  have "digits_val 58 (replicate sz 0) = 0" by (rule digits_val_zeros) simp
  then obtain buf where buf: "enc58_loop (replicate sz 0) (int sz - 1) ?rest = Inr buf" "length buf = sz"
    "\<forall>d \<in> set buf. d < 58" "digits_val 58 buf = digits_val 256 (map unat data)"
    using enc58_loop_ok [of "replicate sz 0" "int sz - 1" ?rest] lt by (auto simp: digits_val_leading)
  let ?ds = "dropWhile (\<lambda>d. d = 0) buf"
  have "?ds = [] \<or> hd ?ds \<noteq> 0" using hd_dropWhile [of "\<lambda>d. d = 0" buf] by blast
  moreover have "length ?ds \<le> sz" using buf(2) length_dropWhile_le by metis
  moreover have "\<forall>d \<in> set ?ds. d < 58" using buf(3) by (auto dest: set_dropWhileD)
  moreover have "shbase58_encode b58sz data =
      (if b58sz \<le> ?z + length ?ds then Inr (- 1, ?z + length ?ds + 1, [])
       else Inr (0, ?z + length ?ds + 1, replicate ?z 49 @ map (\<lambda>d. b58digits_ordered ! d) ?ds @ [0]))"
    unfolding shbase58_encode_def Let_def sz_def [symmetric] buf(1) by (simp only: run_bind_Inr)
  moreover have "digits_val 58 ?ds = digits_val 256 (map unat data)"
    using buf(4) by (simp only: digits_val_dropWhile)
  ultimately show ?thesis unfolding sz_def by blast
qed

section \<open>The decoder computes the value\<close>

definition words_val :: "u32 list \<Rightarrow> nat" where
  "words_val ws = digits_val (2 ^ 32) (map unat ws)"

lemma words_val_Cons [simp]: "words_val (w # ws) = unat w * 2 ^ (32 * length ws) + words_val ws"
  by (simp add: words_val_def power_mult)

lemma words_val_Nil [simp]: "words_val [] = 0"
  by (simp add: words_val_def)

lemma b58_word:
  fixes t :: u64
  assumes "unat t < 58 * 2 ^ 32"
  shows "unat (ucast (t AND 0xFFFFFFFF) :: u32) = unat t mod 2 ^ 32"
    "unat (ucast (drop_bit 32 (t AND 0x3F00000000)) :: u32) = unat t div 2 ^ 32"
proof -
  have "(ucast (t AND 0xFFFFFFFF) :: u32) = ucast t"
    unfolding and_low32 by (rule bit_word_eqI) (auto simp: bit_simps)
  then show "unat (ucast (t AND 0xFFFFFFFF) :: u32) = unat t mod 2 ^ 32"
    by (simp add: unsigned_ucast_eq take_bit_eq_mod)
  have m: "(0x3F00000000 :: u64) = push_bit 32 (mask 6)" by (simp add: mask_eq_exp_minus_1 push_bit_eq_mult)
  have "drop_bit 32 (t AND 0x3F00000000) = take_bit 6 (drop_bit 32 t)"
    unfolding m by (rule bit_word_eqI) (auto simp: bit_simps)
  moreover have d: "unat (drop_bit 32 t) = unat t div 2 ^ 32"
    by (rule unat_drop_bit_div)
  moreover have "unat t div 2 ^ 32 < 58" using assms by (simp add: less_mult_imp_div_less)
  ultimately show "unat (ucast (drop_bit 32 (t AND 0x3F00000000)) :: u32) = unat t div 2 ^ 32"
    by (simp add: unsigned_ucast_eq unsigned_take_bit_eq take_bit_nat_eq_self)
qed

lemma b58_mul_ok:
  assumes "unat c \<le> 57"
  shows "case b58_mul xs c of (ys, c') \<Rightarrow> length ys = length xs \<and> unat c' \<le> 57 \<and>
    words_val ys + unat c' * 2 ^ (32 * length xs) = words_val xs * 58 + unat c"
proof (induction xs)
  case Nil
  then show ?case using assms by simp
next
  case (Cons x xs)
  obtain ys c' where r: "b58_mul xs c = (ys, c')" by fastforce
  with Cons have IH: "length ys = length xs" "unat c' \<le> 57"
    "words_val ys + unat c' * 2 ^ (32 * length xs) = words_val xs * 58 + unat c" by simp_all
  let ?t = "ucast x * 58 + ucast c' :: u64"
  have x: "unat x < 2 ^ 32" using unsigned_less [of x] by simp
  have t: "unat ?t = unat x * 58 + unat c'"
    using x IH(2) by (simp add: unat_word_ariths)
  then have lt: "unat ?t < 58 * 2 ^ 32" using x IH(2) by simp
  note w = b58_word [OF lt]
  define P Q :: nat where "P = 2 ^ (32 * length xs)" and "Q = 2 ^ 32"
  define m d where "m = unat ?t mod Q" and "d = unat ?t div Q"
  have "m + d * Q = unat x * 58 + unat c'"
    using t unfolding m_def d_def by (metis mod_div_mult_eq)
  then have "(m + d * Q) * P = (unat x * 58 + unat c') * P" by (simp only:)
  then have "m * P + d * (Q * P) = unat x * P * 58 + unat c' * P" by (simp only: distrib_right distrib_left mult_ac)
  moreover have "2 ^ (32 * length (x # xs)) = Q * P" by (simp add: P_def Q_def power_add)
  moreover have "words_val ys + unat c' * P = words_val xs * 58 + unat c" using IH(3) by (simp only: P_def)
  ultimately have "m * P + words_val ys + d * 2 ^ (32 * length (x # xs)) = (unat x * P + words_val xs) * 58 + unat c"
    by (simp only: distrib_right)
  moreover have "d \<le> 57" using lt by (simp add: d_def Q_def less_mult_imp_div_less flip: less_Suc_eq_le)
  moreover have "unat (ucast (?t AND 0xFFFFFFFF) :: u32) = m"
    "unat (ucast (drop_bit 32 (?t AND 0x3F00000000)) :: u32) = d"
    using w by (simp_all only: m_def d_def Q_def)
  ultimately show ?case
    using r IH(1) by (simp only: b58_mul.simps prod.case Let_def length_Cons words_val_Cons P_def)
qed

lemma b58_tables:
  assumes "d < 58"
  shows "b58digits_map ! unat (b58digits_ordered ! d) = int d" "unat (b58digits_ordered ! d) < 128"
    "b58digits_ordered ! d AND 0x80 = 0"
proof -
  have "list_all (\<lambda>d. b58digits_map ! unat (b58digits_ordered ! d) = int d \<and> unat (b58digits_ordered ! d) < 128 \<and>
      b58digits_ordered ! d AND 0x80 = 0) [0..<58]"
    by code_simp
  then show "b58digits_map ! unat (b58digits_ordered ! d) = int d" "unat (b58digits_ordered ! d) < 128"
    "b58digits_ordered ! d AND 0x80 = 0"
    using assms by (auto simp: list_all_iff)
qed

lemma zeromask_ok:
  assumes "length (w # ws) = (binsz + 3) div 4" "words_val (w # ws) < 2 ^ (8 * binsz)"
  shows "w AND b58_zeromask (binsz mod 4) = 0"
proof (cases "binsz mod 4 = 0")
  case True
  then show ?thesis by (simp add: b58_zeromask_def)
next
  case False
  let ?k = "binsz mod 4 * 8"
  have "binsz = 4 * (binsz div 4) + binsz mod 4" by simp
  moreover have "binsz mod 4 < 4" by simp
  ultimately have "(binsz + 3) div 4 = binsz div 4 + 1" using False by presburger
  then have n: "length ws = binsz div 4" using assms(1) by simp
  have "8 * binsz = 32 * length ws + ?k" using n by presburger
  then have p: "(2 :: nat) ^ (8 * binsz) = 2 ^ ?k * 2 ^ (32 * length ws)" by (simp only: power_add mult.commute)
  have "unat w * 2 ^ (32 * length ws) \<le> words_val (w # ws)" by simp
  also have "\<dots> < 2 ^ ?k * 2 ^ (32 * length ws)" using assms(2) by (simp only: p)
  finally have "unat w < 2 ^ ?k" by simp
  then have "unat (take_bit ?k w) = unat w" by (simp add: unsigned_take_bit_eq take_bit_nat_eq_self)
  then have tb: "take_bit ?k w = w" by (simp add: word_unat_eq_iff)
  have "take_bit ?k w AND push_bit ?k 0xFFFFFFFF = 0"
    by (rule bit_word_eqI) (simp add: bit_simps)
  then show ?thesis using tb False by (simp add: b58_zeromask_def)
qed

lemma b58_decode_loop_ok:
  assumes "\<forall>d \<in> set ds. d < 58" "length outi = (binsz + 3) div 4" "ds \<noteq> [] \<longrightarrow> outi \<noteq> []"
    and "words_val outi * 58 ^ length ds + digits_val 58 ds < 2 ^ (8 * binsz)"
  shows "\<exists>o'. b58_decode_loop (b58_zeromask (binsz mod 4)) outi (map (\<lambda>d. b58digits_ordered ! d) ds) = Inr (Some o') \<and>
    length o' = length outi \<and> words_val o' = words_val outi * 58 ^ length ds + digits_val 58 ds"
  using assms
proof (induction ds arbitrary: outi)
  case Nil
  then show ?case by simp
next
  case (Cons d ds)
  have d: "d < 58" using Cons.prems(1) by simp
  obtain o1 c where r: "b58_mul outi (word_of_int (int d)) = (o1, c)" by fastforce
  have ud: "unat (word_of_int (int d) :: u32) = d" using d by (simp add: unsigned_of_nat take_bit_nat_eq_self)
  have o1: "length o1 = length outi" "words_val o1 + unat c * 2 ^ (32 * length outi) = words_val outi * 58 + d"
    using b58_mul_ok [of "word_of_int (int d)" outi] r d ud by simp_all
  let ?v = "words_val outi * 58 + d"
  have eq: "?v * 58 ^ length ds + digits_val 58 ds = words_val outi * 58 ^ length (d # ds) + digits_val 58 (d # ds)"
    by (simp add: algebra_simps)
  have "?v \<le> ?v * 58 ^ length ds" by simp
  then have lt: "?v < 2 ^ (8 * binsz)" using eq Cons.prems(4) by linarith
  have "8 * binsz \<le> 32 * length outi" using Cons.prems(2) by presburger
  then have "(2 :: nat) ^ (8 * binsz) \<le> 2 ^ (32 * length outi)" by (rule power_increasing) simp
  then have "unat c * 2 ^ (32 * length outi) < 1 * 2 ^ (32 * length outi)" using lt o1(2) by linarith
  then have c: "c = 0" by (simp add: unat_eq_0)
  then have v: "words_val o1 = ?v" using o1(2) by simp
  obtain w ws where o: "o1 = w # ws" using o1(1) Cons.prems(3) by (cases o1) auto
  have "w AND b58_zeromask (binsz mod 4) = 0"
    using zeromask_ok [of w ws binsz] o o1(1) Cons.prems(2) v lt by simp
  then have "b58_decode_loop (b58_zeromask (binsz mod 4)) outi (map (\<lambda>d. b58digits_ordered ! d) (d # ds)) =
      b58_decode_loop (b58_zeromask (binsz mod 4)) o1 (map (\<lambda>d. b58digits_ordered ! d) ds)"
    using b58_tables [OF d] r c o by (simp add: Let_def)
  then show ?case
    using Cons.IH [of o1] Cons.prems(1,2,4) o o1(1) v eq by auto
qed

lemma pow256: "(256 :: nat) ^ (4 * n) = 2 ^ (32 * n)"
  by (simp add: power_mult)

lemma words_val_less: "words_val ws < 256 ^ (4 * length ws)"
proof -
  have "unat w < 2 ^ 32" for w :: u32 using unsigned_less [of w] by simp
  then have "words_val ws < (2 ^ 32) ^ length (map unat ws)"
    unfolding words_val_def by (intro digits_val_less) auto
  then show ?thesis by (simp add: pow256 power_mult)
qed

lemma b58_lead:
  assumes "bl = 1 \<or> bl = 2 \<or> bl = 3"
  shows "(if bl = 3 then [ucast (drop_bit 16 (w AND 0xFF0000))] else []) @
      (if 2 \<le> bl then [ucast (drop_bit 8 (w AND 0xFF00))] else []) @ [ucast (w AND 0xFF)] = be_bytes bl (w :: u32)"
proof -
  have m: "(0xFF0000 :: u32) = push_bit 16 (mask 8)" "(0xFF00 :: u32) = push_bit 8 (mask 8)" "(0xFF :: u32) = mask 8"
    by (simp_all add: mask_eq_exp_minus_1 push_bit_eq_mult)
  have "(ucast (drop_bit 16 (w AND 0xFF0000)) :: byte) = ucast (drop_bit 16 w)"
    "(ucast (drop_bit 8 (w AND 0xFF00)) :: byte) = ucast (drop_bit 8 w)" "(ucast (w AND 0xFF) :: byte) = ucast w"
    unfolding m by (rule bit_word_eqI; auto simp: bit_simps)+
  then show ?thesis using assms by (elim disjE) (simp_all only: be_bytes_def, simp_all add: upt_rec)
qed

lemma concat_be_bytes: "concat (map (be_bytes 4) ws) = be_nat (4 * length ws) (words_val ws)"
proof (induction ws)
  case Nil
  then show ?case by (simp add: be_nat_def)
next
  case (Cons w ws)
  then show ?case
    using be_nat_append [OF words_val_less [of ws], of 4 "unat w"] by (simp add: pow256 be_bytes_nat)
qed

lemma b58_unpack_ok:
  assumes "length outi = (binsz + 3) div 4"
  shows "b58_unpack (binsz mod 4) outi = be_nat binsz (words_val outi)"
proof (cases outi)
  case Nil
  then have "binsz = 0" using assms by simp
  then show ?thesis using Nil by (simp add: b58_unpack_def be_nat_def)
next
  case (Cons w ws)
  show ?thesis
  proof (cases "binsz mod 4 = 0")
    case True
    then have "binsz = 4 * length outi" using assms by presburger
    then show ?thesis using True Cons concat_be_bytes [of outi] by (simp add: b58_unpack_def)
  next
    case False
    let ?bl = "binsz mod 4"
    have n: "binsz = ?bl + 4 * length ws" using assms Cons False by simp presburger
    have "?bl = 1 \<or> ?bl = 2 \<or> ?bl = 3" using False by presburger
    then have "b58_unpack ?bl outi = be_bytes ?bl w @ concat (map (be_bytes 4) ws)"
      using b58_lead [of ?bl w] Cons False unfolding b58_unpack_def by (simp flip: append_assoc)
    also have "\<dots> = be_nat binsz (words_val outi)"
      using be_nat_append [OF words_val_less [of ws], of ?bl "unat w"] Cons
      by (subst (2) n) (simp add: concat_be_bytes be_bytes_nat pow256)
    finally show ?thesis .
  qed
qed

lemma b58_zeros_ok:
  assumes "\<forall>d \<in> set ds. d < 58" "ds = [] \<or> hd ds \<noteq> 0"
  shows "b58_zeros (replicate z 49 @ map (\<lambda>d. b58digits_ordered ! d) ds) =
    Inr (z, map (\<lambda>d. b58digits_ordered ! d) ds)"
proof (induction z)
  case 0
  show ?case
  proof (cases ds)
    case (Cons d ds')
    then show ?thesis using assms b58_tables [of d] by simp
  qed simp
next
  case (Suc z)
  have "b58digits_map ! 49 = 0" by (simp add: b58digits_map_def)
  then show ?case using Suc by simp
qed

text \<open>Decoding the text of some bytes into a buffer of their size.\<close>

lemma b58_decode_bin_ok:
  assumes "\<forall>d \<in> set ds. d < 58" "ds = [] \<or> hd ds \<noteq> 0" "digits_val 58 ds = digits_val 256 (map unat data)"
  shows "b58_decode_bin (length data) (replicate z 49 @ map (\<lambda>d. b58digits_ordered ! d) ds) = Inr (Some (data, z))"
proof -
  let ?n = "(length data + 3) div 4"
  have "digits_val 256 (map unat data) < 256 ^ length (map unat data)"
    by (rule digits_val_less) (auto simp: byte_less)
  then have lt: "digits_val 58 ds < 2 ^ (8 * length data)" using assms(3) by (simp add: power_mult)
  have "words_val (replicate ?n 0) = 0"
    unfolding words_val_def by (rule digits_val_zeros) simp
  moreover have "ds \<noteq> [] \<longrightarrow> replicate ?n (0 :: u32) \<noteq> []"
  proof
    assume "ds \<noteq> []"
    then have "0 < digits_val 58 ds" using assms(2) by (cases ds) simp_all
    then show "replicate ?n (0 :: u32) \<noteq> []" using lt by (cases data) simp_all
  qed
  ultimately obtain o' where "b58_decode_loop (b58_zeromask (length data mod 4)) (replicate ?n 0)
      (map (\<lambda>d. b58digits_ordered ! d) ds) = Inr (Some o')" "length o' = ?n" "words_val o' = digits_val 58 ds"
    using b58_decode_loop_ok [OF assms(1), of "replicate ?n 0" "length data"] lt by auto
  moreover from this have "b58_unpack (length data mod 4) o' = data"
    using b58_unpack_ok [of o' "length data"] be_nat_bytes [of data] assms(3) by simp
  ultimately show ?thesis
    using b58_zeros_ok [OF assms(1,2)] by (simp add: b58_decode_bin_def)
qed

lemma leading_zeros_le: "leading_zeros data \<le> length data"
  by (simp add: leading_zeros_def length_takeWhile_le)

lemma b58_text:
  assumes "length data * 138 div 100 + 1 < b58sz"
  obtains tx where "shbase58_encode b58sz data = Inr (0, length tx + 1, tx @ [0])"
    "b58_decode_bin (length data) tx = Inr (Some (data, leading_zeros data))"
    "\<exists>t. tx = replicate (leading_zeros data) 49 @ t \<and> (t = [] \<or> hd t \<noteq> 49)"
    "length tx < b58sz"
proof -
  obtain ds where ds: "\<forall>d \<in> set ds. d < 58" "ds = [] \<or> hd ds \<noteq> 0"
    "digits_val 58 ds = digits_val 256 (map unat data)"
    "length ds \<le> (length data - leading_zeros data) * 138 div 100 + 1"
    "shbase58_encode b58sz data =
      (if b58sz \<le> leading_zeros data + length ds then Inr (- 1, leading_zeros data + length ds + 1, [])
       else Inr (0, leading_zeros data + length ds + 1,
              replicate (leading_zeros data) 49 @ map (\<lambda>d. b58digits_ordered ! d) ds @ [0]))"
    using encode58_ok [of data b58sz] by blast
  let ?tx = "replicate (leading_zeros data) 49 @ map (\<lambda>d. b58digits_ordered ! d) ds"
  have "leading_zeros data + ((length data - leading_zeros data) * 138 div 100 + 1) \<le> length data * 138 div 100 + 1"
  proof -
    define z r where "z = leading_zeros data" and "r = length data - z"
    have "length data = z + r" using leading_zeros_le [of data] by (simp add: z_def r_def)
    then show ?thesis by (simp add: flip: z_def r_def)
  qed
  then have lt: "leading_zeros data + length ds < b58sz" using ds(4) assms by linarith
  have "ds = [] \<or> b58digits_ordered ! hd ds \<noteq> 49"
  proof (cases ds)
    case (Cons d r)
    have "b58digits_ordered ! d = 49 \<Longrightarrow> d = 0" using b58_tables(1) [of d] ds(1) Cons by (simp add: b58digits_map_def)
    then show ?thesis using ds(2) Cons by auto
  qed simp
  then have "map (\<lambda>d. b58digits_ordered ! d) ds = [] \<or> hd (map (\<lambda>d. b58digits_ordered ! d) ds) \<noteq> 49"
    by (cases ds) simp_all
  then show ?thesis
    using that [of ?tx] ds(5) lt b58_decode_bin_ok [OF ds(1,2,3)] by auto
qed

text \<open>C6: Encoding any bytes in base 58 and decoding the text into a buffer of the same size gives the
  same bytes and the same length (leading zeros included), and the size computed for the text
  is their number.\<close>

theorem shbase58_roundtrip:
  assumes "length data * 138 div 100 + 1 < b58sz" "calloc_ok c (length data)" "length data < 2 ^ 31"
  shows "\<exists>tx. shbase58_encode b58sz data = Inr (0, length tx + 1, tx @ [0]) \<and>
    shbase58_decode (length data) tx = Inr (0, data, length data) \<and>
    shbase58_decode_size c tx (length data) = Inr (int (length data))"
proof -
  obtain tx where t: "shbase58_encode b58sz data = Inr (0, length tx + 1, tx @ [0])"
    "b58_decode_bin (length data) tx = Inr (Some (data, leading_zeros data))"
    using b58_text [OF assms(1)] by blast
  then show ?thesis
    using assms leading_zeros_le [of data]
    by (intro exI [of _ tx]) (simp add: shbase58_decode_def shbase58_decode_size_def)
qed

theorem shbase58_roundtrip_witness:
  "\<exists>tx. shbase58_encode 10 [0, 1, 2] = Inr (0, length tx + 1, tx @ [0]) \<and>
    shbase58_decode 3 tx = Inr (0, [0, 1, 2], 3) \<and>
    shbase58_decode_size \<lparr>calloc_ok = \<lambda>_. True, realloc_ok = \<lambda>_. True, fresh = \<lambda>_. 0\<rparr> tx 3 = Inr 3"
  using shbase58_roundtrip [of "[0, 1, 2]" 10 "\<lparr>calloc_ok = \<lambda>_. True, realloc_ok = \<lambda>_. True, fresh = \<lambda>_. 0\<rparr>"]
  by (simp add: numeral_3_eq_3)

section \<open>Texts with a checksum round trip\<close>

definition check4 :: "byte list \<Rightarrow> byte list" where
  "check4 data = take 4 (fips180 SHALG_SHA256 (fips180 SHALG_SHA256 data))"

lemma length_sha256: "length (fips180 SHALG_SHA256 m) = 32"
proof -
  have "length (concat (map (\<lambda>w. be_nat 4 (unat w)) hs)) = 4 * length hs" for hs :: "u32 list"
    by (rule length_concat_chunks) simp
  then show ?thesis by (simp add: fips180_def const_simps fips_digest_def fips_hash_lengths)
qed

lemma length_check4 [simp]: "length (check4 data) = 4"
  by (simp add: check4_def length_sha256)

lemma zeros_then:
  assumes "\<exists>b \<in> set data. b \<noteq> 0"
  obtains x xs where "data = replicate (leading_zeros data) 0 @ x # xs" "x \<noteq> 0"
proof -
  have ne: "dropWhile (\<lambda>b. b = 0) data \<noteq> []" using assms by (simp add: dropWhile_eq_Nil_conv)
  then have "hd (dropWhile (\<lambda>b. b = 0) data) \<noteq> 0" by (rule hd_dropWhile)
  moreover have "drop (leading_zeros data) data = dropWhile (\<lambda>b. b = 0) data"
    by (simp add: leading_zeros_def dropWhile_eq_drop)
  ultimately show ?thesis
    using that [of "hd (dropWhile (\<lambda>b. b = 0) data)" "tl (dropWhile (\<lambda>b. b = 0) data)"] ne
      leading_zeros_split [of data] by simp
qed

lemma b58check_ok:
  assumes "\<exists>b \<in> set data. b \<noteq> 0" "length data \<le> 128" "str = replicate (leading_zeros (data @ check4 data)) 49 @ t"
    and "t = [] \<or> hd t \<noteq> 49"
  shows "\<exists>r \<ge> 0. b58check junk (data @ check4 data) str = Inr r"
proof -
  let ?bin = "data @ check4 data"
  let ?z = "leading_zeros ?bin"
  obtain x xs where x: "?bin = replicate ?z 0 @ x # xs" "x \<noteq> 0"
    using zeros_then [of ?bin] assms(1) by auto
  obtain y ys where y: "t @ [0] = y # ys" "y \<noteq> 49" using assms(4) by (cases t) auto
  have str: "str @ [0] = replicate ?z 49 @ y # ys" using assms(3) y(1) by simp
  have "takeWhile (\<lambda>(b, ch). b = 0 \<and> ch = 49) (zip ?bin (str @ [0])) = replicate ?z (0, 49)"
    by (subst x(1), subst str) (use x(2) in \<open>simp add: zip_append zip_replicate takeWhile_append\<close>)
  moreover have "mem_get ?bin ?z = Inr x" by (subst x(1)) (simp add: mem_get_def nth_append)
  moreover have "mem_get (str @ [0]) ?z = Inr y" unfolding str by (simp add: mem_get_def nth_append)
  moreover have "mem_get ?bin 0 = Inr (?bin ! 0)" using x(1) by (simp add: mem_get_def)
  moreover have "sh_sha256 junk (Some ?bin) (length data) = Inr (fips180 SHALG_SHA256 data)"
    using sh_sha256_ok [of "length data" ?bin junk] assms(2) by simp
  moreover have "sh_sha256 junk (Some (fips180 SHALG_SHA256 data)) 32 = Inr (fips180 SHALG_SHA256 (fips180 SHALG_SHA256 data))"
    using sh_sha256_ok [of 32 "fips180 SHALG_SHA256 data" junk] by (simp add: length_sha256)
  ultimately show ?thesis using x(2) y(2) by (simp add: b58check_def Let_def flip: check4_def)
qed

text \<open>A text made by \<open>shbase58_encode_check\<close> is accepted by \<open>shbase58_decode_check\<close>, which returns the
  bytes encoded, for every message of at most 128 bytes that are not all zero.\<close>

theorem shbase58_check_roundtrip:
  assumes "\<exists>b \<in> set data. b \<noteq> 0" "length data \<le> 128" "(length data + 4) * 138 div 100 + 1 < strsize" "strsize < 2 ^ 31"
  shows "\<exists>str. shbase58_encode_check junk data (int strsize) = Inr (int (length str) + 1, str @ [0]) \<and>
    shbase58_decode_check junk str (length data) = Inr (int (length data), data)"
proof -
  let ?bin = "data @ check4 data"
  have "length ?bin * 138 div 100 + 1 < strsize" using assms(3) by simp
  then obtain str where t: "shbase58_encode strsize ?bin = Inr (0, length str + 1, str @ [0])"
    "b58_decode_bin (length ?bin) str = Inr (Some (?bin, leading_zeros ?bin))"
    "\<exists>t. str = replicate (leading_zeros ?bin) 49 @ t \<and> (t = [] \<or> hd t \<noteq> 49)" "length str < strsize"
    using b58_text [of ?bin strsize] by blast
  have "sh_sha256 junk (Some data) (length data) = Inr (fips180 SHALG_SHA256 data)"
    using sh_sha256_ok [of "length data" data junk] assms(2) by simp
  moreover have "sh_sha256 junk (Some (fips180 SHALG_SHA256 data)) 32 = Inr (fips180 SHALG_SHA256 (fips180 SHALG_SHA256 data))"
    using sh_sha256_ok [of 32 "fips180 SHALG_SHA256 data" junk] by (simp add: length_sha256)
  ultimately have enc: "shbase58_encode_check junk data (int strsize) = Inr (int (length str) + 1, str @ [0])"
    using assms(2,4) t(1,4) by (simp add: shbase58_encode_check_def flip: check4_def)
  obtain r where "0 \<le> r" "b58check junk ?bin str = Inr r"
    using t(3) b58check_ok [OF assms(1,2)] by blast
  moreover have "shbase58_decode (length data + 4) str = Inr (0, ?bin, length data + 4)"
    using t(2) leading_zeros_le [of ?bin] by (simp add: shbase58_decode_def)
  ultimately show ?thesis
    using enc assms(2) by (intro exI [of _ str]) (simp add: shbase58_decode_check_def)
qed

theorem shbase58_check_roundtrip_witness:
  "\<exists>str. shbase58_encode_check (\<lambda>_. 0) [0, 7] 40 = Inr (int (length str) + 1, str @ [0]) \<and>
    shbase58_decode_check (\<lambda>_. 0) str 2 = Inr (2, [0, 7])"
proof -
  have l: "length [0, 7 :: byte] = 2" by simp
  show ?thesis using shbase58_check_roundtrip [of "[0, 7]" 40 "\<lambda>_. 0"] unfolding l by simp
qed


end
