(* ===== verification/Share_Base32.thy ===== *)
theory Share_Base32
  imports Share_Prelude
begin

text \<open>
  The base 32 text form of \<^verbatim>\<open>share-lib/mem/shmem_base32.c\<close>: the encoder with its output limit,
  the character table, the decoding of a group of eight characters, the collection of a group
  across newlines, and the decoding loop with and without a context.  The outer loop is a
  partial function, since its termination is a theorem about the code and not about its shape.
\<close>

section \<open>Encoding\<close>

definition b32str :: "byte list" where
  "b32str = [65, 66, 67, 68, 69, 70, 71, 72, 73, 74, 75, 76, 77, 78, 79, 80, 81, 82, 83, 84, 85, 86, 87, 88, 89, 90,
     50, 51, 52, 53, 54, 55]"

definition pad32 :: byte where "pad32 = 61"

definition low5 :: "byte \<Rightarrow> byte" where "low5 x = x AND 0x1F"

definition enc32 :: "byte \<Rightarrow> byte" where
  "enc32 x = b32str ! unat (low5 x)"

text \<open>The five-bit groups: the low bits of one byte and the high bits of the next.\<close>

definition quin_a :: "byte \<Rightarrow> byte" where "quin_a a = drop_bit 3 a"
definition quin_ab :: "byte \<Rightarrow> byte \<Rightarrow> byte" where "quin_ab a b = push_bit 2 a + drop_bit 6 b"
definition quin_b :: "byte \<Rightarrow> byte" where "quin_b b = drop_bit 1 b"
definition quin_bc :: "byte \<Rightarrow> byte \<Rightarrow> byte" where "quin_bc b c = push_bit 4 b + drop_bit 4 c"
definition quin_cd :: "byte \<Rightarrow> byte \<Rightarrow> byte" where "quin_cd c d = push_bit 1 c + drop_bit 7 d"
definition quin_d :: "byte \<Rightarrow> byte" where "quin_d d = drop_bit 2 d"
definition quin_de :: "byte \<Rightarrow> byte \<Rightarrow> byte" where "quin_de d e = push_bit 3 d + drop_bit 5 e"

text \<open>The eight characters of one round of the loop, for the bytes that remain; a missing next byte
  counts as zero.\<close>

definition enc32_group :: "byte list \<Rightarrow> byte list" where
  "enc32_group xs =
     (let next = (\<lambda>i. if i < length xs then xs ! i else 0) in
     [enc32 (quin_a (xs ! 0)),
      enc32 (quin_ab (xs ! 0) (next 1)),
      (if 1 < length xs then enc32 (quin_b (xs ! 1)) else pad32),
      (if 1 < length xs then enc32 (quin_bc (xs ! 1) (next 2)) else pad32),
      (if 2 < length xs then enc32 (quin_cd (xs ! 2) (next 3)) else pad32),
      (if 3 < length xs then enc32 (quin_d (xs ! 3)) else pad32),
      (if 3 < length xs then enc32 (quin_de (xs ! 3) (next 4)) else pad32),
      (if 4 < length xs then enc32 (xs ! 4) else pad32)])"

text \<open>The bytes written through \<open>out\<close>: the characters that fit, and a NUL if there is room for it.\<close>

function shbase32_encode :: "byte list \<Rightarrow> nat \<Rightarrow> byte list" where
  "shbase32_encode xs outlen =
     (if xs \<noteq> [] \<and> outlen \<noteq> 0 then
        (if outlen \<le> 8 then take outlen (enc32_group xs)
         else enc32_group xs @ shbase32_encode (drop 5 xs) (outlen - 8))
      else if outlen \<noteq> 0 then [0] else [])"
  by pat_completeness auto
termination
  by (relation "measure (\<lambda>(xs, outlen). outlen)") auto

declare shbase32_encode.simps [simp del]

definition BASE32_LENGTH :: "nat \<Rightarrow> nat" where
  "BASE32_LENGTH inlen = (inlen + 4) div 5 * 8"

definition shbase32_encode_alloc :: "libc \<Rightarrow> byte list \<Rightarrow> nat \<times> byte list ptr" where
  "shbase32_encode_alloc c xs =
     (let inlen = length xs; outlen = (1 + (inlen + 4) mod 2 ^ 64 div 5 * 8) mod 2 ^ 64 in
      if outlen < inlen then (0, None)
      else if \<not> calloc_ok c outlen then (outlen, None)
      else (outlen - 1, Some (shbase32_encode xs outlen)))"

section \<open>The character table\<close>

definition B32 :: "nat \<Rightarrow> int" where
  "B32 ch =
     (if 65 \<le> ch \<and> ch \<le> 90 then int ch - 65 else if 50 \<le> ch \<and> ch \<le> 55 then int ch - 50 + 26 else - 1)"

text \<open>Two entries of the table are not those of their index.\<close>

definition b32 :: "byte \<Rightarrow> int" where
  "b32 ch = B32 (if ch = 64 then 32 else if ch = 164 then 132 else unat ch)"

definition isbase32 :: "byte \<Rightarrow> bool" where
  "isbase32 ch \<longleftrightarrow> 0 \<le> b32 ch"

section \<open>Decoding a group\<close>

definition val32 :: "byte \<Rightarrow> byte" where
  "val32 ch = word_of_int (b32 ch)"

text \<open>The five bytes of a group.\<close>

definition byte_a :: "byte \<Rightarrow> byte \<Rightarrow> byte" where "byte_a v0 v1 = push_bit 3 v0 OR drop_bit 2 v1"
definition byte_b :: "byte \<Rightarrow> byte \<Rightarrow> byte \<Rightarrow> byte" where "byte_b v1 v2 v3 = push_bit 6 v1 OR push_bit 1 v2 OR drop_bit 4 v3"
definition byte_c :: "byte \<Rightarrow> byte \<Rightarrow> byte" where "byte_c v3 v4 = push_bit 4 v3 OR drop_bit 1 v4"
definition byte_d :: "byte \<Rightarrow> byte \<Rightarrow> byte \<Rightarrow> byte" where "byte_d v4 v5 v6 = push_bit 7 v4 OR push_bit 2 v5 OR drop_bit 3 v6"
definition byte_e :: "byte \<Rightarrow> byte \<Rightarrow> byte" where "byte_e v6 v7 = push_bit 5 v6 OR v7"

text \<open>Writing one byte while there is room.\<close>

definition emit :: "nat \<Rightarrow> byte list \<Rightarrow> byte \<Rightarrow> byte list" where
  "emit outleft out b = (if length out < outleft then out @ [b] else out)"

text \<open>The tail of the group, from the third byte on; a group may end in padding after the first,
  second, third and fourth byte.\<close>

definition dec32_tail :: "nat \<Rightarrow> byte list \<Rightarrow> byte list \<Rightarrow> bool \<times> byte list" where
  "dec32_tail outleft c o2 =
     (if c ! 4 = pad32 then (c ! 5 = pad32 \<and> c ! 6 = pad32 \<and> c ! 7 = pad32, o2)
      else if \<not> isbase32 (c ! 4) then (False, o2)
      else (let o3 = emit outleft o2 (byte_c (val32 (c ! 3)) (val32 (c ! 4))) in
        if c ! 5 = pad32 then (c ! 6 = pad32 \<and> c ! 7 = pad32, o3)
        else if \<not> isbase32 (c ! 5) \<or> \<not> isbase32 (c ! 6) then (False, o3)
        else (let o4 = emit outleft o3 (byte_d (val32 (c ! 4)) (val32 (c ! 5)) (val32 (c ! 6))) in
          if c ! 7 = pad32 then (True, o4)
          else if \<not> isbase32 (c ! 7) then (False, o4)
          else (True, emit outleft o4 (byte_e (val32 (c ! 6)) (val32 (c ! 7)))))))"

text \<open>The result is the truth value and the bytes written, also when the group is rejected late.\<close>

definition decode_8 :: "byte list \<Rightarrow> nat \<Rightarrow> nat \<Rightarrow> fault + (bool \<times> byte list)" where
  "decode_8 inp inlen outleft =
     (if inlen < 8 then Inr (False, [])
      else run_bind (mem_read inp 0 8) (\<lambda>c.
        if \<not> isbase32 (c ! 0) \<or> \<not> isbase32 (c ! 1) then Inr (False, [])
        else (let o1 = emit outleft [] (byte_a (val32 (c ! 0)) (val32 (c ! 1))) in
          if c ! 2 = pad32
          then Inr (c ! 3 = pad32 \<and> c ! 4 = pad32 \<and> c ! 5 = pad32 \<and> c ! 6 = pad32 \<and> c ! 7 = pad32, o1)
          else if \<not> isbase32 (c ! 2) \<or> \<not> isbase32 (c ! 3) then Inr (False, o1)
          else Inr (dec32_tail outleft c
                 (emit outleft o1 (byte_b (val32 (c ! 1)) (val32 (c ! 2)) (val32 (c ! 3))))))))"

section \<open>Contexts\<close>

record shbase32_decode_context =
  bc_i :: nat
  bc_buf :: "byte list"

definition shbase32_decode_ctx_init :: "shbase32_decode_context \<Rightarrow> shbase32_decode_context" where
  "shbase32_decode_ctx_init ctx = ctx\<lparr>bc_i := 0\<rparr>"

text \<open>The loop of \<open>get_8\<close> that copies bytes other than newlines.\<close>

fun get_8_copy :: "shbase32_decode_context \<Rightarrow> byte list \<Rightarrow> fault + (shbase32_decode_context \<times> byte list)" where
  "get_8_copy ctx [] = Inr (ctx, [])"
| "get_8_copy ctx (ch # cs) =
     (if ch = 10 then get_8_copy ctx cs
      else if length (bc_buf ctx) \<le> bc_i ctx then Inl OutOfBounds
      else (let ctx' = ctx\<lparr>bc_buf := (bc_buf ctx)[bc_i ctx := ch], bc_i := bc_i ctx + 1\<rparr>
            in if bc_i ctx' = 8 then Inr (ctx', cs) else get_8_copy ctx' cs))"

text \<open>The result: the bytes to decode, how many of them count, the rest of the input, the context.\<close>

definition get_8 ::
    "shbase32_decode_context \<Rightarrow> byte list \<Rightarrow> fault + (byte list \<times> nat \<times> byte list \<times> shbase32_decode_context)" where
  "get_8 ctx inp =
     (let c = (if bc_i ctx = 8 then ctx\<lparr>bc_i := 0\<rparr> else ctx) in
      if bc_i c = 0 \<and> 8 \<le> length inp \<and> 10 \<notin> set (take 8 inp) then Inr (inp, 8, drop 8 inp, c)
      else run_bind (get_8_copy c inp) (\<lambda>(c', rest). Inr (bc_buf c', bc_i c', rest, c')))"

section \<open>The decoding loop\<close>

lemma decode_8_length: "decode_8 inp (length inp) outleft = Inr (True, bs) \<Longrightarrow> 8 \<le> length inp"
  by (simp add: decode_8_def split: if_splits)

text \<open>The inner loop; what a rejected group wrote is taken back.\<close>

function decode_run :: "byte list \<Rightarrow> nat \<Rightarrow> byte list \<Rightarrow> fault + (byte list \<times> byte list)" where
  "decode_run inp cap out =
     (case decode_8 inp (length inp) (cap - length out) of
        Inl e \<Rightarrow> Inl e
      | Inr (ok, bs) \<Rightarrow> if ok then decode_run (drop 8 inp) cap (out @ bs) else Inr (inp, out))"
  by pat_completeness auto
termination
  by (relation "measure (\<lambda>(inp, cap, out). length inp)") (use decode_8_length in fastforce)+

declare decode_run.simps [simp del]

text \<open>The input is the list of the bytes that are left; \<open>cap\<close> is the size of the output buffer.\<close>

partial_function (option) decode_loop ::
    "bool \<Rightarrow> nat \<Rightarrow> nat \<Rightarrow> shbase32_decode_context ptr \<Rightarrow> byte list \<Rightarrow> byte list \<Rightarrow>
      (fault + (bool \<times> byte list \<times> shbase32_decode_context ptr)) option" where
  [code]: "decode_loop flush ctx_i cap ctx inp out =
     (case (if ctx_i = 0 \<and> \<not> flush then decode_run inp cap out else Inr (inp, out)) of
        Inl e \<Rightarrow> Some (Inl e)
      | Inr (inp1, out1) \<Rightarrow>
         if inp1 = [] \<and> \<not> flush then Some (Inr (True, out1, ctx))
         else if inp1 \<noteq> [] \<and> hd inp1 = 10 \<and> ctx \<noteq> None then decode_loop flush ctx_i cap ctx (tl inp1) out1
         else (case (case ctx of None \<Rightarrow> Inr (inp1, length inp1, inp1, None)
                     | Some c \<Rightarrow> run_bind (get_8 c inp1) (\<lambda>(nl, n, rest, c'). Inr (nl, n, rest, Some c'))) of
                 Inl e \<Rightarrow> Some (Inl e)
               | Inr (non_nl, n, inp2, ctx2) \<Rightarrow>
                  if n = 0 \<or> n < 8 \<and> \<not> flush \<and> ctx \<noteq> None then Some (Inr (True, out1, ctx2))
                  else (case decode_8 non_nl n (cap - length out1) of
                          Inl e \<Rightarrow> Some (Inl e)
                        | Inr (ok, bs) \<Rightarrow>
                           if \<not> ok then Some (Inr (False, out1 @ bs, ctx2))
                           else decode_loop flush ctx_i cap ctx2 inp2 (out1 @ bs))))"

definition shbase32_decode_ctx ::
    "shbase32_decode_context ptr \<Rightarrow> byte list \<Rightarrow> nat \<Rightarrow> (fault + (bool \<times> byte list \<times> shbase32_decode_context ptr)) option" where
  "shbase32_decode_ctx ctx inp outlen =
     (case ctx of None \<Rightarrow> decode_loop False 0 outlen None inp []
      | Some c \<Rightarrow> decode_loop (inp = []) (bc_i c) outlen ctx inp [])"

definition shbase32_decode_alloc_ctx ::
    "libc \<Rightarrow> shbase32_decode_context ptr \<Rightarrow> byte list \<Rightarrow> (fault + (bool \<times> byte list ptr)) option" where
  "shbase32_decode_alloc_ctx c ctx inp =
     (let needlen = 5 * (length inp div 8) + 5 in
      if \<not> calloc_ok c needlen then Some (Inr (True, None))
      else map_option (\<lambda>r. run_bind r (\<lambda>(ok, out, ctx'). Inr (ok, if ok then Some out else None)))
             (shbase32_decode_ctx ctx inp needlen))"

definition shbase32_decode :: "byte list \<Rightarrow> nat \<Rightarrow> (fault + (int \<times> byte list)) option" where
  "shbase32_decode inp out_len =
     map_option (\<lambda>r. run_bind r (\<lambda>(ok, out, ctx). Inr (of_bool ok, out))) (shbase32_decode_ctx None inp out_len)"

text \<open>\<open>shbase32_adecode\<close> hands its argument \<open>out\<close>, a pointer to characters, on as the place to store the address of
  the new buffer: the eight bytes at \<open>out\<close> are overwritten by that address.  \<open>room\<close> is how many bytes \<open>out\<close>
  points to; the result is the buffer whose address is stored.\<close>

definition shbase32_adecode :: "libc \<Rightarrow> nat \<Rightarrow> byte list \<Rightarrow> (fault + (int \<times> byte list ptr)) option" where
  "shbase32_adecode c room inp =
     (if room < 8 then Some (Inl OutOfBounds)
      else map_option (\<lambda>r. run_bind r (\<lambda>(ok, out). Inr (of_bool ok, out))) (shbase32_decode_alloc_ctx c None inp))"

section \<open>A group round trip\<close>

lemma b32_table: "list_all (\<lambda>i. b32 (b32str ! i) = int i \<and> b32str ! i \<noteq> pad32) [0..<32]"
  by code_simp

lemma enc32_char [simp]: "isbase32 (enc32 x)" "enc32 x \<noteq> pad32" "val32 (enc32 x) = low5 x"
proof -
  have "low5 x \<le> 0x1F" unfolding low5_def by (rule word_and_le1)
  then have "unat (low5 x) \<in> set [0..<32]" by (simp add: word_le_nat_alt)
  then have t: "b32 (enc32 x) = int (unat (low5 x)) \<and> enc32 x \<noteq> pad32"
    using b32_table unfolding list_all_iff enc32_def by blast
  then show "isbase32 (enc32 x)" "enc32 x \<noteq> pad32" "val32 (enc32 x) = low5 x"
    by (simp_all add: isbase32_def val32_def)
qed

lemma disjoint_sum:
  fixes a b :: byte
  assumes "8 \<le> k + m"
  shows "push_bit k a + drop_bit m b = push_bit k a OR drop_bit m b"
  using assms by (intro disjunctive_add_eq_or bit_word_eqI) (auto simp: bit_simps dest: bit_imp_le_length)

lemma low5_take: "low5 x = take_bit 5 x"
proof -
  have "(0x1F :: byte) = mask 5" by (simp add: mask_eq_exp_minus_1)
  then show ?thesis by (simp only: take_bit_eq_mask low5_def)
qed

lemma b32_bytes [simp]:
  "byte_a (low5 (quin_a a)) (low5 (quin_ab a b)) = a"
  "byte_b (low5 (quin_ab a b)) (low5 (quin_b b)) (low5 (quin_bc b c)) = b"
  "byte_c (low5 (quin_bc b c)) (low5 (quin_cd c d)) = c"
  "byte_d (low5 (quin_cd c d)) (low5 (quin_d d)) (low5 (quin_de d e)) = d"
  "byte_e (low5 (quin_de d e)) (low5 e) = e"
proof -
  have sums: "push_bit 2 x + drop_bit 6 y = push_bit 2 x OR drop_bit 6 y" "push_bit 4 x + drop_bit 4 y = push_bit 4 x OR drop_bit 4 y"
    "push_bit 1 x + drop_bit 7 y = push_bit 1 x OR drop_bit 7 y" "push_bit 3 x + drop_bit 5 y = push_bit 3 x OR drop_bit 5 y"
    for x y :: byte by (rule disjoint_sum, simp)+
  show "byte_a (low5 (quin_a a)) (low5 (quin_ab a b)) = a"
    "byte_b (low5 (quin_ab a b)) (low5 (quin_b b)) (low5 (quin_bc b c)) = b"
    "byte_c (low5 (quin_bc b c)) (low5 (quin_cd c d)) = c"
    "byte_d (low5 (quin_cd c d)) (low5 (quin_d d)) (low5 (quin_de d e)) = d"
    "byte_e (low5 (quin_de d e)) (low5 e) = e"
    unfolding byte_a_def byte_b_def byte_c_def byte_d_def byte_e_def low5_take quin_a_def quin_ab_def quin_b_def
      quin_bc_def quin_cd_def quin_d_def quin_de_def sums
    by (rule byte_eqI; simp only: bit_simps o_apply; auto simp: numeral_eq_Suc dest: bit_imp_le_length)+
qed

lemma length_enc32_group [simp]: "length (enc32_group xs) = 8"
  by (simp add: enc32_group_def Let_def)

lemma read_group: "mem_read (enc32_group xs @ rest) 0 8 = Inr (enc32_group xs)"
  by (simp add: mem_read_def)

lemma pad32_not [simp]: "\<not> isbase32 pad32"
  by code_simp

lemma decode_group:
  assumes "xs \<noteq> []" "min 5 (length xs) \<le> outleft" "8 \<le> inlen"
  shows "decode_8 (enc32_group xs @ rest) inlen outleft = Inr (True, take 5 xs)"
proof -
  have ne: "\<not> inlen < 8" using assms(3) by simp
  note defs = dec32_tail_def emit_def Let_def enc32_group_def
  consider a where "xs = [a]" | a b where "xs = [a, b]" | a b c where "xs = [a, b, c]"
    | a b c d where "xs = [a, b, c, d]" | a b c d e r where "xs = a # b # c # d # e # r"
    using assms(1) by (cases xs rule: remdups_adj.cases; cases "tl (tl xs)" rule: remdups_adj.cases; cases "tl (tl (tl (tl xs)))"; force)
  then show ?thesis
  proof cases
    case (1 a)
    then show ?thesis using assms(2) ne unfolding decode_8_def read_group run_bind_Inr by (simp add: defs)
  next
    case (2 a b)
    then show ?thesis using assms(2) ne unfolding decode_8_def read_group run_bind_Inr by (simp add: defs)
  next
    case (3 a b c)
    then show ?thesis using assms(2) ne unfolding decode_8_def read_group run_bind_Inr by (simp add: defs)
  next
    case (4 a b c d)
    then show ?thesis using assms(2) ne unfolding decode_8_def read_group run_bind_Inr by (simp add: defs)
  next
    case (5 a b c d e r)
    then show ?thesis using assms(2) ne unfolding decode_8_def read_group run_bind_Inr by (simp add: defs)
  qed
qed

section \<open>Termination and memory safety\<close>

text \<open>A context between two calls: the buffer is whole and the index within it.\<close>

definition ctx_ok :: "shbase32_decode_context ptr \<Rightarrow> bool" where
  "ctx_ok ctx = (case ctx of None \<Rightarrow> True | Some c \<Rightarrow> bc_i c \<le> 8 \<and> length (bc_buf c) = 8)"

lemma emit_length: "length out \<le> outleft \<Longrightarrow> length (emit outleft out b) \<le> outleft"
  by (simp add: emit_def)

lemma dec32_tail_length: "length o2 \<le> outleft \<Longrightarrow> length (snd (dec32_tail outleft c o2)) \<le> outleft"
  by (simp add: dec32_tail_def Let_def emit_length)

lemma decode_8_safe:
  assumes "n \<le> length inp"
  obtains ok bs where "decode_8 inp n outleft = Inr (ok, bs)" "length bs \<le> outleft" "ok \<longrightarrow> 8 \<le> n"
proof (cases "n < 8")
  case True
  then show ?thesis using that [of False "[]"] by (simp add: decode_8_def)
next
  case False
  then have r: "mem_read inp 0 8 = Inr (take 8 inp)" using assms by (simp add: mem_read_def)
  show ?thesis
    using that False dec32_tail_length [OF emit_length [OF emit_length [of "[]" outleft]]]
    unfolding decode_8_def r run_bind_Inr Let_def
    by (simp split: if_splits) (metis emit_length le0 list.size(3) prod.collapse)+
qed

lemma decode_run_safe:
  "length out \<le> cap \<Longrightarrow>
     \<exists>inp' out'. decode_run inp cap out = Inr (inp', out') \<and> length out' \<le> cap \<and> length inp' \<le> length inp \<and>
       (\<exists>bs. decode_8 inp' (length inp') (cap - length out') = Inr (False, bs))"
proof (induction inp cap out rule: decode_run.induct)
  case (1 inp cap out)
  obtain ok bs where d: "decode_8 inp (length inp) (cap - length out) = Inr (ok, bs)" "length bs \<le> cap - length out"
    by (rule decode_8_safe [of "length inp" inp "cap - length out"]) auto
  show ?case
  proof (cases ok)
    case True
    then show ?thesis using 1 d unfolding decode_run.simps [of inp] by fastforce
  next
    case False
    then show ?thesis using 1 d unfolding decode_run.simps [of inp] by simp
  qed
qed

lemma get_8_copy_safe:
  "bc_i c < 8 \<Longrightarrow> length (bc_buf c) = 8 \<Longrightarrow>
     \<exists>c' rest. get_8_copy c inp = Inr (c', rest) \<and> bc_i c' \<le> 8 \<and> length (bc_buf c') = 8 \<and>
       length rest \<le> length inp - 1"
proof (induction c inp rule: get_8_copy.induct)
  case (2 c ch cs)
  define c1 where "c1 = c\<lparr>bc_buf := (bc_buf c)[bc_i c := ch], bc_i := bc_i c + 1\<rparr>"
  have c1: "length (bc_buf c1) = 8" "bc_i c1 = bc_i c + 1" using 2(4) by (simp_all add: c1_def)
  consider (nl) "ch = 10" | (full) "ch \<noteq> 10" "bc_i c + 1 = 8" | (more) "ch \<noteq> 10" "bc_i c + 1 < 8" using 2(3) by linarith
  then show ?case
  proof cases
    case nl
    then show ?thesis using 2(1) [OF nl 2(3,4)] by auto
  next
    case full
    then show ?thesis using 2(4) c1 by (simp add: Let_def)
  next
    case more
    then have "\<not> length (bc_buf c) \<le> bc_i c" "bc_i c1 \<noteq> 8" "bc_i c1 < 8" using 2(3,4) c1 by auto
    then have "\<exists>c' rest. get_8_copy c1 cs = Inr (c', rest) \<and> bc_i c' \<le> 8 \<and> length (bc_buf c') = 8 \<and>
       length rest \<le> length cs - 1"
      using 2(2) [OF more(1) _ c1_def _ _ c1(1)] by blast
    then show ?thesis using more 2(3,4) unfolding c1_def by (auto simp: Let_def)
  qed
qed simp

lemma get_8_safe:
  assumes "bc_i c \<le> 8" "length (bc_buf c) = 8"
  shows "\<exists>nl n rest c'. get_8 c inp = Inr (nl, n, rest, c') \<and> n \<le> length nl \<and> ctx_ok (Some c') \<and>
    (inp = [] \<longrightarrow> n < 8 \<and> rest = []) \<and> (inp \<noteq> [] \<longrightarrow> length rest < length inp)"
proof -
  define d where "d = (if bc_i c = 8 then c\<lparr>bc_i := 0\<rparr> else c)"
  have d: "bc_i d < 8" "length (bc_buf d) = 8" using assms by (auto simp: d_def)
  show ?thesis
    using get_8_copy_safe [OF d, of inp] d get_8_copy.simps(1) [of d] unfolding get_8_def d_def [symmetric]
    by (cases inp) (auto simp: ctx_ok_def Let_def)
qed



text \<open>What the two ways to fetch a group give: the memory read is inside its block, a group of eight
  is taken from the input, and without a context it is the group the inner loop has just rejected.\<close>

definition fetch_8 :: "shbase32_decode_context ptr \<Rightarrow> byte list \<Rightarrow>
    fault + (byte list \<times> nat \<times> byte list \<times> shbase32_decode_context ptr)" where
  "fetch_8 ctx inp = (case ctx of None \<Rightarrow> Inr (inp, length inp, inp, None)
     | Some c \<Rightarrow> run_bind (get_8 c inp) (\<lambda>(nl, n, rest, c'). Inr (nl, n, rest, Some c')))"

lemma fetch_8_safe:
  assumes "ctx_ok ctx"
  shows "\<exists>nl n rest ctx'. fetch_8 ctx inp = Inr (nl, n, rest, ctx') \<and> n \<le> length nl \<and> ctx_ok ctx' \<and>
    (ctx' = None \<longleftrightarrow> ctx = None) \<and> (ctx = None \<longrightarrow> nl = inp \<and> n = length inp) \<and>
    (ctx \<noteq> None \<and> 8 \<le> n \<longrightarrow> length rest < length inp)"
proof (cases ctx)
  case None
  then show ?thesis by (simp add: fetch_8_def ctx_ok_def)
next
  case (Some c)
  then have c: "bc_i c \<le> 8" "length (bc_buf c) = 8" using assms by (simp_all add: ctx_ok_def)
  show ?thesis using get_8_safe [OF c, of inp] Some by (cases inp) (auto simp: fetch_8_def)
qed

lemmas decode_loop_step = decode_loop.simps [folded fetch_8_def]

lemma decode_loop_returns:
  "ctx_ok ctx \<Longrightarrow> length out \<le> cap \<Longrightarrow> (ctx = None \<longrightarrow> ctx_i = 0 \<and> \<not> flush) \<Longrightarrow>
     \<exists>ok out' ctx'. decode_loop flush ctx_i cap ctx inp out = Some (Inr (ok, out', ctx')) \<and> length out' \<le> cap \<and> ctx_ok ctx' \<and>
       (ctx' = None \<longleftrightarrow> ctx = None)"
proof (induction "length inp" arbitrary: ctx inp out rule: less_induct)
  case less
  obtain inp1 out1 where r: "(if ctx_i = 0 \<and> \<not> flush then decode_run inp cap out else Inr (inp, out)) = Inr (inp1, out1)"
      "length out1 \<le> cap" "length inp1 \<le> length inp"
      "ctx = None \<longrightarrow> (\<exists>bs. decode_8 inp1 (length inp1) (cap - length out1) = Inr (False, bs))"
    using decode_run_safe [OF less(3), of inp] less(3,4) by (cases "ctx_i = 0 \<and> \<not> flush") auto
  obtain nl n rest ctx2 where f: "fetch_8 ctx inp1 = Inr (nl, n, rest, ctx2)" "n \<le> length nl" "ctx_ok ctx2"
      "ctx2 = None \<longleftrightarrow> ctx = None" "ctx = None \<longrightarrow> nl = inp1 \<and> n = length inp1"
      "ctx \<noteq> None \<and> 8 \<le> n \<longrightarrow> length rest < length inp1"
    using fetch_8_safe [OF less(2), of inp1] by blast
  obtain ok bs where d: "decode_8 nl n (cap - length out1) = Inr (ok, bs)" "length bs \<le> cap - length out1" "ok \<longrightarrow> 8 \<le> n"
    by (rule decode_8_safe [OF f(2)]) auto
  note step = decode_loop_step [of flush ctx_i cap ctx inp out, unfolded r(1) f(1) sum.case prod.case d(1)]
  consider (stop) "inp1 = [] \<and> \<not> flush" | (nl) "inp1 \<noteq> [] \<and> hd inp1 = 10 \<and> ctx \<noteq> None"
    | (few) "\<not> (inp1 = [] \<and> \<not> flush)" "\<not> (inp1 \<noteq> [] \<and> hd inp1 = 10 \<and> ctx \<noteq> None)" "n = 0 \<or> n < 8 \<and> \<not> flush \<and> ctx \<noteq> None"
    | (group) "\<not> (inp1 = [] \<and> \<not> flush)" "\<not> (inp1 \<noteq> [] \<and> hd inp1 = 10 \<and> ctx \<noteq> None)" "\<not> (n = 0 \<or> n < 8 \<and> \<not> flush \<and> ctx \<noteq> None)"
    by blast
  then show ?case
  proof cases
    case stop
    then show ?thesis using step less(2) r(2) by auto
  next
    case nl
    then have "length (tl inp1) < length inp" using r(3) by (cases inp1) auto
    from less(1) [OF this less(2) r(2) less(4)] show ?thesis using step nl by auto
  next
    case few
    show ?thesis
      unfolding step if_not_P [OF few(1)] if_not_P [OF few(2)] if_P [OF few(3)] using f r(2) by blast
  next
    case group
    show ?thesis
    proof (cases ok)
      case True
      then have lt: "length rest < length inp" and cx: "ctx \<noteq> None" using r(3,4) f(5,6) d(1,3) by fastforce+
      have "length (out1 @ bs) \<le> cap" using d(2) r(2) by simp
      from less(1) [OF lt f(3) this] show ?thesis
        unfolding step if_not_P [OF group(1)] if_not_P [OF group(2)] if_not_P [OF group(3)] using True cx f(4) by auto
    next
      case False
      then show ?thesis
        unfolding step if_not_P [OF group(1)] if_not_P [OF group(2)] if_not_P [OF group(3)] using f d(2) r(2) by auto
    qed
  qed
qed

text \<open>C22: Decoding always ends and stays inside its blocks: with no context, or with any context whose
  buffer has its eight bytes and whose index is at most eight, \<open>shbase32_decode_ctx\<close> returns on every
  input and every output size, it writes no more than \<open>outlen\<close> bytes, reads and writes nothing
  outside its buffers, and leaves a context that is good for the next call.\<close>

theorem shbase32_decode_ctx_returns:
  assumes "ctx_ok ctx"
  shows "\<exists>ok out ctx'. shbase32_decode_ctx ctx inp outlen = Some (Inr (ok, out, ctx')) \<and>
    length out \<le> outlen \<and> ctx_ok ctx' \<and> (ctx' = None \<longleftrightarrow> ctx = None)"
proof (cases ctx)
  case None
  then show ?thesis using decode_loop_returns [OF assms, of "[]" outlen 0 False inp]
    by (simp add: shbase32_decode_ctx_def)
next
  case (Some c)
  then show ?thesis using decode_loop_returns [OF assms, of "[]" outlen "bc_i c" "inp = []" inp]
    by (simp add: shbase32_decode_ctx_def)
qed

theorem shbase32_decode_ctx_returns_witness:
  "\<exists>ok out ctx'. shbase32_decode_ctx (Some \<lparr>bc_i = 3, bc_buf = replicate 8 65\<rparr>) [65, 10, 65, 65, 65, 65, 61] 4 =
      Some (Inr (ok, out, ctx')) \<and>
    length out \<le> 4 \<and> ctx_ok ctx' \<and> (ctx' = None \<longleftrightarrow> Some \<lparr>bc_i = 3, bc_buf = replicate 8 65\<rparr> = None)"
  by (rule shbase32_decode_ctx_returns) (simp add: ctx_ok_def)

section \<open>The round trip\<close>

lemma BASE32_LENGTH_drop:
  assumes "xs \<noteq> []"
  shows "BASE32_LENGTH (length xs) = 8 + BASE32_LENGTH (length (drop 5 xs))"
proof (cases "length xs < 5")
  case True
  moreover have "(length xs + 4) div 5 = 1" using True assms by (cases xs) (auto intro: div_nat_eqI)
  ultimately show ?thesis by (simp add: BASE32_LENGTH_def)
next
  case False
  then have "length xs + 4 = (length xs - 5 + 4) + 5" by simp
  then have "(length xs + 4) div 5 = (length xs - 5 + 4) div 5 + 1" by (metis div_add_self2 zero_neq_numeral)
  then show ?thesis by (simp add: BASE32_LENGTH_def)
qed

lemma decode_run_encoded:
  "length (out @ xs) \<le> cap \<Longrightarrow> BASE32_LENGTH (length xs) \<le> n \<Longrightarrow>
     decode_run (take (BASE32_LENGTH (length xs)) (shbase32_encode xs n)) cap out = Inr ([], out @ xs)"
proof (induction xs n arbitrary: out rule: shbase32_encode.induct)
  case (1 xs n)
  show ?case
  proof (cases "xs = []")
    case True
    then show ?thesis by (simp add: BASE32_LENGTH_def decode_run.simps [of "[]"] decode_8_def)
  next
    case False
    define m where "m = BASE32_LENGTH (length (drop 5 xs))"
    have len: "BASE32_LENGTH (length xs) = 8 + m" unfolding m_def by (rule BASE32_LENGTH_drop [OF False])
    have enc: "take (8 + m) (shbase32_encode xs n) = enc32_group xs @ take m (shbase32_encode (drop 5 xs) (n - 8))"
    proof (cases "n \<le> 8")
      case True
      then have "n = 8" "m = 0" using 1(3) len by auto
      then show ?thesis using False by (simp add: shbase32_encode.simps [of xs])
    next
      case n: False
      then show ?thesis using False by (simp add: shbase32_encode.simps [of xs])
    qed
    have grp: "decode_8 (enc32_group xs @ r) (length (enc32_group xs @ r)) (cap - length out) = Inr (True, take 5 xs)" for r
      using 1(2) by (intro decode_group False) auto
    have rest: "decode_run (take m (shbase32_encode (drop 5 xs) (n - 8))) cap (out @ take 5 xs) = Inr ([], out @ xs)"
    proof (cases "n \<le> 8")
      case True
      then have "m = 0" using 1(3) len by simp
      moreover from this have "drop 5 xs = []" by (simp add: m_def BASE32_LENGTH_def)
      ultimately show ?thesis by (simp add: decode_run.simps [of "[]"] decode_8_def)
    next
      case n: False
      have "length ((out @ take 5 xs) @ drop 5 xs) \<le> cap" using 1(2) by simp
      moreover have "BASE32_LENGTH (length (drop 5 xs)) \<le> n - 8" using 1(3) len n by (simp add: m_def)
      ultimately show ?thesis using 1(1) [of "out @ take 5 xs"] False n by (simp add: m_def)
    qed
    show ?thesis
      unfolding len enc decode_run.simps [of "enc32_group xs @ _"] grp using rest by simp
  qed
qed

lemma shbase32_encode_length:
  "length (shbase32_encode xs n) = min n (BASE32_LENGTH (length xs) + 1)"
proof (induction xs n rule: shbase32_encode.induct)
  case (1 xs n)
  show ?case
  proof (cases "xs = [] \<or> n \<le> 8")
    case True
    moreover have "xs \<noteq> [] \<Longrightarrow> 8 \<le> BASE32_LENGTH (length xs)" by (cases xs) (simp_all add: BASE32_LENGTH_def)
    ultimately show ?thesis by (auto simp: shbase32_encode.simps [of xs] BASE32_LENGTH_def)
  next
    case False
    then have "length (shbase32_encode (drop 5 xs) (n - 8)) = min (n - 8) (BASE32_LENGTH (length (drop 5 xs)) + 1)"
      using 1 by auto
    then have "length (shbase32_encode xs n) = 8 + min (n - 8) (BASE32_LENGTH (length (drop 5 xs)) + 1)"
      using False by (simp add: shbase32_encode.simps [of xs])
    moreover have "BASE32_LENGTH (length xs) = 8 + BASE32_LENGTH (length (drop 5 xs))"
      using False BASE32_LENGTH_drop [of xs] by blast
    ultimately show ?thesis using False by linarith
  qed
qed

lemma shbase32_encode_nul:
  "BASE32_LENGTH (length xs) < n \<Longrightarrow>
     shbase32_encode xs n = take (BASE32_LENGTH (length xs)) (shbase32_encode xs n) @ [0]"
proof (induction xs n rule: shbase32_encode.induct)
  case (1 xs n)
  show ?case
  proof (cases "xs = []")
    case True
    then show ?thesis using 1(2) by (simp add: shbase32_encode.simps [of "[]"] BASE32_LENGTH_def)
  next
    case False
    note len = BASE32_LENGTH_drop [OF False]
    have n: "\<not> n \<le> 8" "n \<noteq> 0" "BASE32_LENGTH (length (drop 5 xs)) < n - 8" using 1(2) len by auto
    then have "shbase32_encode (drop 5 xs) (n - 8) =
        take (BASE32_LENGTH (length (drop 5 xs))) (shbase32_encode (drop 5 xs) (n - 8)) @ [0]"
      using 1(1) False by blast
    then show ?thesis using False n(1,2) unfolding len by (simp add: shbase32_encode.simps [of xs])
  qed
qed

lemma shbase32_decode_encoded:
  assumes "BASE32_LENGTH (length xs) \<le> n" "length xs \<le> cap"
  shows "shbase32_decode_ctx None (take (BASE32_LENGTH (length xs)) (shbase32_encode xs n)) cap = Some (Inr (True, xs, None))"
  using decode_run_encoded [of "[]" xs cap n] assms
  by (simp add: shbase32_decode_ctx_def decode_loop.simps)

text \<open>C23: Base 32 round trip: with room for \<open>BASE32_LENGTH (inlen)\<close> characters the encoder writes
  exactly that many, and a terminating NUL when there is room for one more; decoding those characters
  succeeds and gives back the input, whatever bytes it had, both into a buffer of the caller that is
  large enough and into the buffer \<open>shbase32_adecode\<close> allocates; that function needs eight bytes at its
  argument \<open>out\<close>, and overruns a smaller one.\<close>

theorem shbase32_roundtrip:
  assumes "BASE32_LENGTH (length xs) < n" "length xs \<le> out_len" "calloc_ok c (BASE32_LENGTH (length xs) div 8 * 5 + 5)"
  defines "chars \<equiv> take (BASE32_LENGTH (length xs)) (shbase32_encode xs n)"
  shows "shbase32_encode xs n = chars @ [0] \<and> length chars = BASE32_LENGTH (length xs) \<and>
    shbase32_decode chars out_len = Some (Inr (1, xs)) \<and> 
    (\<forall>room. shbase32_adecode c room chars = Some (if room < 8 then Inl OutOfBounds else Inr (1, Some xs)))"
proof -
  have len: "length chars = BASE32_LENGTH (length xs)"
    using assms(1) by (simp add: chars_def shbase32_encode_length)
  have fits: "length xs \<le> 5 * (length chars div 8) + 5" unfolding len BASE32_LENGTH_def by linarith
  have "shbase32_encode xs n = chars @ [0]"
    unfolding chars_def using shbase32_encode_nul [OF assms(1)] .
  moreover have "shbase32_decode chars out_len = Some (Inr (1, xs))"
    using shbase32_decode_encoded [of xs n out_len] assms(1,2) by (simp add: shbase32_decode_def chars_def)
  moreover have "shbase32_adecode c room chars = Some (if room < 8 then Inl OutOfBounds else Inr (1, Some xs))" for room
    using shbase32_decode_encoded [of xs n "5 * (length chars div 8) + 5", folded chars_def] assms(1,3) fits
    by (simp add: shbase32_adecode_def shbase32_decode_alloc_ctx_def len [symmetric] mult.commute)
  ultimately show ?thesis using len by blast
qed

theorem shbase32_roundtrip_witness:
  "shbase32_encode [1, 2] 9 = [65, 69, 66, 65, 61, 61, 61, 61] @ [0] \<and>
   shbase32_decode [65, 69, 66, 65, 61, 61, 61, 61] 2 = Some (Inr (1, [1, 2])) \<and>
   shbase32_adecode \<lparr>calloc_ok = (\<lambda>_. True), realloc_ok = (\<lambda>_. True), fresh = (\<lambda>_. 0)\<rparr> 8 [65, 69, 66, 65, 61, 61, 61, 61] =
     Some (Inr (1, Some [1, 2]))"
proof -
  have l: "BASE32_LENGTH (length [1 :: byte, 2]) = 8" by code_simp
  have t: "take 8 (shbase32_encode [1, 2] 9) = [65, 69, 66, 65, 61, 61, 61, 61]" by code_simp
  show ?thesis
    using shbase32_roundtrip [of "[1, 2]" 9 2 "\<lparr>calloc_ok = (\<lambda>_. True), realloc_ok = (\<lambda>_. True), fresh = (\<lambda>_. 0)\<rparr>"] unfolding l t by simp
qed

end
