(* ===== verification/Share_Tree.thy ===== *)
theory Share_Tree
  imports Share_Prelude "HOL-Library.Tree"
begin

text \<open>
  The binary tree of \<^verbatim>\<open>share-lib/mem/shmem_tree.c\<close>: nodes linked by pointers to their
  root, parent and two children.  Nodes live in a heap; touching an address that
  holds no node (a freed one) is a fault.  The recursive C functions follow
  whatever pointers the nodes hold, so on a cyclic structure they do not return
  (\<open>None\<close>); \<open>tree_at\<close> relates a heap to the tree of addresses it spells out.
\<close>

section \<open>Data\<close>

record node =
  nd_root :: "nat ptr"
  nd_parent :: "nat ptr"
  nd_left :: "nat ptr"
  nd_right :: "nat ptr"
  nd_data :: "nat ptr"
  nd_stamp :: u64
  nd_level :: int
  nd_flags :: u32

record treemem =
  tm_nodes :: "nat \<Rightarrow> node option"
  tm_next :: nat

definition SHTREE_ORDER_PRE :: int where "SHTREE_ORDER_PRE = 1"
definition SHTREE_ORDER_IN :: int where "SHTREE_ORDER_IN = 2"
definition SHTREE_ORDER_POST :: int where "SHTREE_ORDER_POST = 3"
definition SHTREE_DEALLOC :: u32 where "SHTREE_DEALLOC = 2 ^ 12"
definition SHTREE_SIZE :: nat where "SHTREE_SIZE = 56"

definition tm_get :: "treemem \<Rightarrow> nat \<Rightarrow> fault + node" where
  "tm_get m a = (case tm_nodes m a of None \<Rightarrow> Inl OutOfBounds | Some nd \<Rightarrow> Inr nd)"

definition tm_set :: "treemem \<Rightarrow> nat \<Rightarrow> node \<Rightarrow> treemem" where
  "tm_set m a nd = m\<lparr>tm_nodes := (tm_nodes m)(a \<mapsto> nd)\<rparr>"

definition node_zero :: node where
  "node_zero = \<lparr>nd_root = None, nd_parent = None, nd_left = None, nd_right = None, nd_data = None,
     nd_stamp = 0, nd_level = 0, nd_flags = 0\<rparr>"

section \<open>Accessors\<close>

definition shtree_data_set :: "treemem \<Rightarrow> nat \<Rightarrow> nat ptr \<Rightarrow> fault + treemem" where
  "shtree_data_set m a d = run_bind (tm_get m a) (\<lambda>nd. Inr (tm_set m a (nd\<lparr>nd_data := d\<rparr>)))"

definition shtree_data_get :: "treemem \<Rightarrow> nat ptr \<Rightarrow> fault + nat ptr" where
  "shtree_data_get m np = (case np of None \<Rightarrow> Inr None | Some a \<Rightarrow> run_bind (tm_get m a) (\<lambda>nd. Inr (nd_data nd)))"

definition shtree_left :: "treemem \<Rightarrow> nat \<Rightarrow> fault + nat ptr" where
  "shtree_left m a = run_bind (tm_get m a) (\<lambda>nd. Inr (nd_left nd))"

definition shtree_right :: "treemem \<Rightarrow> nat \<Rightarrow> fault + nat ptr" where
  "shtree_right m a = run_bind (tm_get m a) (\<lambda>nd. Inr (nd_right nd))"

definition shtree_leaf :: "treemem \<Rightarrow> nat \<Rightarrow> fault + bool" where
  "shtree_leaf m a = run_bind (tm_get m a) (\<lambda>nd. Inr (nd_left nd = None \<and> nd_right nd = None))"

definition shtree_root :: "treemem \<Rightarrow> nat \<Rightarrow> fault + nat ptr" where
  "shtree_root m a = run_bind (tm_get m a) (\<lambda>nd. Inr (nd_root nd))"

definition shtree_parent :: "treemem \<Rightarrow> nat \<Rightarrow> fault + nat ptr" where
  "shtree_parent m a = run_bind (tm_get m a) (\<lambda>nd. Inr (nd_parent nd))"

definition shtree_flags :: "treemem \<Rightarrow> nat \<Rightarrow> fault + u32" where
  "shtree_flags m a = run_bind (tm_get m a) (\<lambda>nd. Inr (nd_flags nd))"

definition shtree_root_flags :: "treemem \<Rightarrow> nat ptr \<Rightarrow> fault + u32" where
  "shtree_root_flags m np =
     (case np of None \<Rightarrow> Inr 0
      | Some a \<Rightarrow> run_bind (tm_get m a)
          (\<lambda>nd. case nd_root nd of None \<Rightarrow> Inr 0
             | Some r \<Rightarrow> run_bind (tm_get m r) (\<lambda>rd. Inr (nd_flags rd))))"

section \<open>Construction\<close>

text \<open>\<open>shtree_new\<close>; the clock is read once for the parent and once for the node.\<close>

definition shtree_new ::
    "libc \<Rightarrow> u64 \<times> u64 \<Rightarrow> treemem \<Rightarrow> nat ptr \<Rightarrow> nat ptr \<Rightarrow> fault + (nat ptr \<times> treemem)" where
  "shtree_new c now m tree data =
     (if \<not> calloc_ok c SHTREE_SIZE then Inr (None, m)
      else let a = tm_next m; m0 = m\<lparr>tm_next := a + 1\<rparr> in
        (case tree of
           None \<Rightarrow> Inr (Some a, tm_set m0 a (node_zero\<lparr>nd_root := Some a, nd_data := data, nd_stamp := snd now\<rparr>))
         | Some p \<Rightarrow>
             run_bind (tm_get m0 p) (\<lambda>pd. run_bind (int_add (nd_level pd) 1) (\<lambda>lv.
               Inr (Some a, tm_set (tm_set m0 p (pd\<lparr>nd_stamp := fst now\<rparr>)) a
                 (node_zero\<lparr>nd_parent := Some p, nd_root := nd_root pd, nd_level := lv, nd_data := data,
                            nd_stamp := snd now\<rparr>))))))"

definition shtree_init :: "libc \<Rightarrow> u64 \<times> u64 \<Rightarrow> treemem \<Rightarrow> u32 \<Rightarrow> fault + (nat ptr \<times> treemem)" where
  "shtree_init c now m flags =
     run_bind (shtree_new c now m None None)
       (\<lambda>(r, m1). case r of None \<Rightarrow> Inr (None, m1)
          | Some a \<Rightarrow> run_bind (tm_get m1 a) (\<lambda>nd. Inr (Some a, tm_set m1 a (nd\<lparr>nd_flags := flags\<rparr>))))"

section \<open>Disposal\<close>

text \<open>The state of freeing: the heap and the data blocks handed to \<open>free\<close>.\<close>

definition free_self :: "nat \<Rightarrow> treemem \<times> nat list \<Rightarrow> fault + (treemem \<times> nat list)" where
  "free_self a = (\<lambda>(m, fs).
     run_bind (shtree_root_flags m (Some a)) (\<lambda>fl. run_bind (tm_get m a) (\<lambda>nd.
       Inr (m\<lparr>tm_nodes := (tm_nodes m)(a := None)\<rparr>,
            fs @ (if fl AND SHTREE_DEALLOC \<noteq> 0 then (case nd_data nd of None \<Rightarrow> [] | Some d \<Rightarrow> [d]) else [])))))"

partial_function (option) shtree_free_node ::
    "nat \<Rightarrow> treemem \<times> nat list \<Rightarrow> (fault + (treemem \<times> nat list)) option" where
  [code]: "shtree_free_node a st =
     (case tm_get (fst st) a of
        Inl e \<Rightarrow> Some (Inl e)
      | Inr nd \<Rightarrow>
         Option.bind (case nd_left nd of None \<Rightarrow> Some (Inr st) | Some l \<Rightarrow> shtree_free_node l st)
          (\<lambda>r1. case r1 of Inl e \<Rightarrow> Some (Inl e) | Inr st1 \<Rightarrow>
            (case tm_get (fst st1) a of
               Inl e \<Rightarrow> Some (Inl e)
             | Inr nd1 \<Rightarrow>
                Option.bind (case nd_right nd1 of None \<Rightarrow> Some (Inr st1) | Some r \<Rightarrow> shtree_free_node r st1)
                 (\<lambda>r2. case r2 of Inl e \<Rightarrow> Some (Inl e) | Inr st2 \<Rightarrow> Some (free_self a st2)))))"

definition shtree_remove_branch :: "nat \<Rightarrow> treemem \<times> nat list \<Rightarrow> (fault + (treemem \<times> nat list)) option" where
  "shtree_remove_branch a st = shtree_free_node a st"

definition shtree_free :: "treemem \<Rightarrow> nat ptr ptr \<Rightarrow> (fault + (nat ptr ptr \<times> treemem \<times> nat list)) option" where
  "shtree_free m tree_p =
     (case tree_p of
        None \<Rightarrow> Some (Inr (None, m, []))
      | Some None \<Rightarrow> Some (Inr (Some None, m, []))
      | Some (Some a) \<Rightarrow> map_option (\<lambda>r. run_bind r (\<lambda>st. Inr (Some None, st))) (shtree_free_node a (m, [])))"

section \<open>Attaching a node\<close>

definition attach ::
    "(node \<Rightarrow> nat ptr) \<Rightarrow> (nat ptr \<Rightarrow> node \<Rightarrow> node) \<Rightarrow> libc \<Rightarrow> u64 \<times> u64 \<Rightarrow> treemem \<times> nat list \<Rightarrow> nat \<Rightarrow>
      nat ptr \<Rightarrow> (fault + (nat ptr \<times> treemem \<times> nat list)) option" where
  "attach get put c now st tree data =
     (case tm_get (fst st) tree of
        Inl e \<Rightarrow> Some (Inl e)
      | Inr td \<Rightarrow>
         map_option
           (\<lambda>r. run_bind r (\<lambda>(m1, fs). run_bind (shtree_new c now m1 (Some tree) data)
              (\<lambda>(np, m2). case np of
                   None \<Rightarrow> Inr (None, m2, fs)
                 | Some a \<Rightarrow> run_bind (shtree_data_set m2 a data) (\<lambda>m3. run_bind (tm_get m3 tree)
                     (\<lambda>td3. Inr (Some a, tm_set m3 tree (put (Some a) td3), fs))))))
           (case get td of
              None \<Rightarrow> Some (Inr st)
            | Some old \<Rightarrow> map_option (\<lambda>r. run_bind r (\<lambda>(m1, fs). run_bind (tm_get m1 tree)
                (\<lambda>td1. Inr (tm_set m1 tree (put None td1), fs)))) (shtree_remove_branch old st)))"

definition shtree_left_new ::
    "libc \<Rightarrow> u64 \<times> u64 \<Rightarrow> treemem \<times> nat list \<Rightarrow> nat \<Rightarrow> nat ptr \<Rightarrow>
      (fault + (nat ptr \<times> treemem \<times> nat list)) option" where
  "shtree_left_new = attach nd_left (\<lambda>p nd. nd\<lparr>nd_left := p\<rparr>)"

definition shtree_right_new ::
    "libc \<Rightarrow> u64 \<times> u64 \<Rightarrow> treemem \<times> nat list \<Rightarrow> nat \<Rightarrow> nat ptr \<Rightarrow>
      (fault + (nat ptr \<times> treemem \<times> nat list)) option" where
  "shtree_right_new = attach nd_right (\<lambda>p nd. nd\<lparr>nd_right := p\<rparr>)"

section \<open>Traversal\<close>

text \<open>The callback is a function on a state of its own; it does not relink nodes.\<close>

partial_function (option) shtree_traverse_pre ::
    "treemem \<Rightarrow> (nat \<Rightarrow> 's \<Rightarrow> 's) \<Rightarrow> nat ptr \<Rightarrow> 's \<Rightarrow> (fault + 's) option" where
  [code]: "shtree_traverse_pre m proc np s =
     (case np of
        None \<Rightarrow> Some (Inr s)
      | Some a \<Rightarrow>
         (case tm_get m a of
            Inl e \<Rightarrow> Some (Inl e)
          | Inr nd \<Rightarrow>
             Option.bind (shtree_traverse_pre m proc (nd_left nd) (proc a s))
               (\<lambda>r1. case r1 of Inl e \<Rightarrow> Some (Inl e)
                  | Inr s1 \<Rightarrow> shtree_traverse_pre m proc (nd_right nd) s1)))"

definition shtree_traverse_in ::
    "treemem \<Rightarrow> (nat \<Rightarrow> 's \<Rightarrow> 's) \<Rightarrow> nat ptr \<Rightarrow> 's \<Rightarrow> (fault + 's) option" where
  "shtree_traverse_in m proc np s =
     (case np of
        None \<Rightarrow> Some (Inr s)
      | Some a \<Rightarrow>
         (case tm_get m a of
            Inl e \<Rightarrow> Some (Inl e)
          | Inr nd \<Rightarrow>
             Option.bind (shtree_traverse_pre m proc (nd_left nd) s)
               (\<lambda>r1. case r1 of Inl e \<Rightarrow> Some (Inl e)
                  | Inr s1 \<Rightarrow> shtree_traverse_pre m proc (nd_right nd) (proc a s1))))"

definition shtree_traverse_post ::
    "treemem \<Rightarrow> (nat \<Rightarrow> 's \<Rightarrow> 's) \<Rightarrow> nat ptr \<Rightarrow> 's \<Rightarrow> (fault + 's) option" where
  "shtree_traverse_post m proc np s =
     (case np of
        None \<Rightarrow> Some (Inr s)
      | Some a \<Rightarrow>
         (case tm_get m a of
            Inl e \<Rightarrow> Some (Inl e)
          | Inr nd \<Rightarrow>
             Option.bind (shtree_traverse_pre m proc (nd_left nd) s)
               (\<lambda>r1. case r1 of Inl e \<Rightarrow> Some (Inl e)
                  | Inr s1 \<Rightarrow> Option.bind (shtree_traverse_pre m proc (nd_right nd) s1)
                      (\<lambda>r2. case r2 of Inl e \<Rightarrow> Some (Inl e) | Inr s2 \<Rightarrow> Some (Inr (proc a s2))))))"

definition shtree_traverse ::
    "treemem \<Rightarrow> (nat \<Rightarrow> 's \<Rightarrow> 's) \<Rightarrow> nat ptr \<Rightarrow> int \<Rightarrow> 's \<Rightarrow> (fault + 's) option" where
  "shtree_traverse m proc np order s =
     (if order = SHTREE_ORDER_PRE then shtree_traverse_pre m proc np s
      else if order = SHTREE_ORDER_IN then shtree_traverse_in m proc np s
      else if order = SHTREE_ORDER_POST then shtree_traverse_post m proc np s
      else Some (Inr s))"

section \<open>The tree a heap spells out\<close>

fun tree_at :: "treemem \<Rightarrow> nat ptr \<Rightarrow> nat tree \<Rightarrow> bool" where
  "tree_at m np Leaf \<longleftrightarrow> np = None"
| "tree_at m np (Node l a r) \<longleftrightarrow> np = Some a \<and>
     (case tm_nodes m a of None \<Rightarrow> False
      | Some nd \<Rightarrow> tree_at m (nd_left nd) l \<and> tree_at m (nd_right nd) r)"

lemma tree_at_cong:
  "(\<And>a. a \<in> set_tree t \<Longrightarrow> map_option (\<lambda>nd. (nd_left nd, nd_right nd)) (tm_nodes m' a) =
      map_option (\<lambda>nd. (nd_left nd, nd_right nd)) (tm_nodes m a)) \<Longrightarrow>
     tree_at m np t \<Longrightarrow> tree_at m' np t"
proof (induction t arbitrary: np)
  case (Node l a r)
  from Node.prems(2) obtain nd where nd: "np = Some a" "tm_nodes m a = Some nd"
    "tree_at m (nd_left nd) l" "tree_at m (nd_right nd) r" by (auto split: option.splits)
  have "map_option (\<lambda>nd. (nd_left nd, nd_right nd)) (tm_nodes m' a) = Some (nd_left nd, nd_right nd)"
    using Node.prems(1) [of a] nd(2) by simp
  then obtain nd' where nd': "tm_nodes m' a = Some nd'" "nd_left nd' = nd_left nd" "nd_right nd' = nd_right nd"
    by auto
  have "tree_at m' (nd_left nd) l" using Node.IH(1) [OF _ nd(3)] Node.prems(1) by simp
  moreover have "tree_at m' (nd_right nd) r" using Node.IH(2) [OF _ nd(4)] Node.prems(1) by simp
  ultimately show ?case using nd(1) nd' by simp
qed simp

lemma traverse_pre_tree:
  "tree_at m np t \<Longrightarrow> shtree_traverse_pre m proc np s = Some (Inr (fold proc (preorder t) s))"
proof (induction t arbitrary: np s)
  case Leaf
  then show ?case by (simp add: shtree_traverse_pre.simps)
next
  case (Node l a r)
  then show ?case
    by (subst shtree_traverse_pre.simps) (auto simp: tm_get_def split: option.splits)
qed

text \<open>On a well-formed tree every traversal returns.  The pre-order traversal visits the nodes in
  pre-order; the other two orders apply to the top node only, because their subtrees are
  visited by the pre-order routine.\<close>

theorem shtree_traverse_orders:
  assumes "tree_at m (Some a) (Node l a r)"
  shows "shtree_traverse m proc (Some a) SHTREE_ORDER_PRE s = Some (Inr (fold proc (preorder (Node l a r)) s)) \<and>
    shtree_traverse m proc (Some a) SHTREE_ORDER_IN s =
      Some (Inr (fold proc (preorder l @ [a] @ preorder r) s)) \<and>
    shtree_traverse m proc (Some a) SHTREE_ORDER_POST s =
      Some (Inr (fold proc (preorder l @ preorder r @ [a]) s))"
proof (intro conjI)
  obtain nd where nd: "tm_get m a = Inr nd" "tree_at m (nd_left nd) l" "tree_at m (nd_right nd) r"
    using assms by (auto simp: tm_get_def split: option.splits)
  show "shtree_traverse m proc (Some a) SHTREE_ORDER_PRE s = Some (Inr (fold proc (preorder (Node l a r)) s))"
    using traverse_pre_tree [OF assms] by (simp add: shtree_traverse_def)
  show "shtree_traverse m proc (Some a) SHTREE_ORDER_IN s =
      Some (Inr (fold proc (preorder l @ [a] @ preorder r) s))"
    using nd(1)
    by (simp add: traverse_pre_tree [OF nd(2)] traverse_pre_tree [OF nd(3)] shtree_traverse_def shtree_traverse_in_def SHTREE_ORDER_PRE_def SHTREE_ORDER_IN_def)
  show "shtree_traverse m proc (Some a) SHTREE_ORDER_POST s =
      Some (Inr (fold proc (preorder l @ preorder r @ [a]) s))"
    using nd(1)
    by (simp add: traverse_pre_tree [OF nd(2)] traverse_pre_tree [OF nd(3)] shtree_traverse_def shtree_traverse_post_def SHTREE_ORDER_PRE_def SHTREE_ORDER_IN_def
        SHTREE_ORDER_POST_def)
qed

definition heap_demo :: treemem where
  "heap_demo = \<lparr>tm_nodes = [0 \<mapsto> node_zero\<lparr>nd_root := Some 0, nd_left := Some 1, nd_flags := SHTREE_DEALLOC\<rparr>,
     1 \<mapsto> node_zero\<lparr>nd_root := Some 0, nd_parent := Some 0, nd_left := Some 2, nd_data := Some 7\<rparr>,
     2 \<mapsto> node_zero\<lparr>nd_root := Some 0, nd_parent := Some 1\<rparr>], tm_next = 3\<rparr>"

definition tree_demo :: "nat tree" where
  "tree_demo = Node (Node (Node Leaf 2 Leaf) 1 Leaf) 0 Leaf"

lemma tree_demo_at: "tree_at heap_demo (Some 0) tree_demo"
  by (simp add: heap_demo_def tree_demo_def node_zero_def)

theorem shtree_traverse_orders_witness:
  "shtree_traverse heap_demo (\<lambda>a s. s @ [a]) (Some 0) SHTREE_ORDER_IN [] = Some (Inr [1, 2, 0]) \<and>
   inorder tree_demo = [2, 1, 0]"
  using shtree_traverse_orders [OF tree_demo_at [unfolded tree_demo_def], of "\<lambda>a s. s @ [a]" "[]"]
  by (simp add: tree_demo_def)

section \<open>Freeing a subtree\<close>

text \<open>The nodes of \<open>t\<close> all name \<open>root\<close> as their root, whose node carries \<open>flags\<close> and is not freed
  before the others.\<close>

definition rooted :: "treemem \<Rightarrow> nat \<Rightarrow> u32 \<Rightarrow> nat tree \<Rightarrow> bool" where
  "rooted m root flags t \<longleftrightarrow>
     (\<forall>a \<in> set_tree t. \<exists>nd. tm_nodes m a = Some nd \<and> nd_root nd = Some root) \<and>
     (\<exists>rd. tm_nodes m root = Some rd \<and> nd_flags rd = flags)"

definition data_of_node :: "treemem \<Rightarrow> u32 \<Rightarrow> nat \<Rightarrow> nat list" where
  "data_of_node m flags a =
     (if flags AND SHTREE_DEALLOC \<noteq> 0
      then (case tm_nodes m a of None \<Rightarrow> [] | Some nd \<Rightarrow> (case nd_data nd of None \<Rightarrow> [] | Some d \<Rightarrow> [d])) else [])"

definition drop_nodes :: "treemem \<Rightarrow> nat set \<Rightarrow> treemem" where
  "drop_nodes m S = m\<lparr>tm_nodes := (\<lambda>a. if a \<in> S then None else tm_nodes m a)\<rparr>"

lemma drop_nodes_simps [simp]:
  "drop_nodes m {} = m" "tm_nodes (drop_nodes m S) a = (if a \<in> S then None else tm_nodes m a)"
  "tm_next (drop_nodes m S) = tm_next m" "drop_nodes (drop_nodes m S) T = drop_nodes m (S \<union> T)"
  by (auto simp: drop_nodes_def fun_eq_iff)

lemma tree_at_drop: "tree_at m np t \<Longrightarrow> S \<inter> set_tree t = {} \<Longrightarrow> tree_at (drop_nodes m S) np t"
  by (rule tree_at_cong [of t _ m]) auto

lemma rooted_drop: "rooted m root flags t \<Longrightarrow> S \<inter> set_tree t = {} \<Longrightarrow> root \<notin> S \<Longrightarrow>
    rooted (drop_nodes m S) root flags t"
  by (auto simp: rooted_def disjoint_iff)

lemma rooted_sub: "rooted m root flags (Node l a r) \<Longrightarrow> rooted m root flags l \<and> rooted m root flags r"
  by (auto simp: rooted_def)

lemma data_drop: "(\<And>a. a \<in> set xs \<Longrightarrow> a \<notin> S) \<Longrightarrow>
    concat (map (data_of_node (drop_nodes m S) flags) xs) = concat (map (data_of_node m flags) xs)"
  by (rule arg_cong [of _ _ concat], rule map_cong) (auto simp: data_of_node_def)

lemma free_self_ok:
  assumes "tm_nodes m a = Some nd" "nd_root nd = Some root" "tm_nodes m root = Some rd"
  shows "free_self a (m, fs) = Inr (drop_nodes m {a}, fs @ data_of_node m (nd_flags rd) a)"
  using assms
  by (auto simp: free_self_def shtree_root_flags_def tm_get_def data_of_node_def drop_nodes_def fun_upd_def)

lemma free_node_ok:
  assumes "tree_at m (Some a) t" "t \<noteq> Leaf" "distinct (preorder t)" "rooted m root flags t"
    and "root \<in> set_tree t \<Longrightarrow> root = a"
  shows "shtree_free_node a (m, fs) =
    Some (Inr (drop_nodes m (set_tree t), fs @ concat (map (data_of_node m flags) (postorder t))))"
  using assms
proof (induction t arbitrary: a m fs)
  case Leaf
  then show ?case by simp
next
  case (Node l x r)
  obtain nd rd where nd: "x = a" "tm_nodes m a = Some nd" "tree_at m (nd_left nd) l" "tree_at m (nd_right nd) r"
    "nd_root nd = Some root" "tm_nodes m root = Some rd" "nd_flags rd = flags"
    using Node.prems(1,4) by (auto simp: rooted_def split: option.splits)
  have d: "a \<notin> set_tree l" "a \<notin> set_tree r" "set_tree l \<inter> set_tree r = {}" "distinct (preorder l)"
    "distinct (preorder r)" using Node.prems(3) nd(1) by auto
  have root: "root \<notin> set_tree l" "root \<notin> set_tree r" using Node.prems(5) d nd(1) by auto
  let ?m1 = "drop_nodes m (set_tree l)" and ?m2 = "drop_nodes m (set_tree l \<union> set_tree r)"
  let ?dl = "concat (map (data_of_node m flags) (postorder l))"
  let ?dr = "concat (map (data_of_node m flags) (postorder r))"
  have left: "(case nd_left nd of None \<Rightarrow> Some (Inr (m, fs)) | Some b \<Rightarrow> shtree_free_node b (m, fs)) =
      Some (Inr (?m1, fs @ ?dl))"
  proof (cases l)
    case Leaf
    with nd(3) show ?thesis by simp
  next
    case (Node ll b lr)
    then have "nd_left nd = Some b" using nd(3) by simp
    with Node.IH(1) [of m b fs] nd(3) d root rooted_sub [OF Node.prems(4)] Node show ?thesis by simp
  qed
  have right: "(case nd_right nd of None \<Rightarrow> Some (Inr (?m1, fs @ ?dl))
        | Some b \<Rightarrow> shtree_free_node b (?m1, fs @ ?dl)) = Some (Inr (?m2, (fs @ ?dl) @ ?dr))"
  proof (cases r)
    case Leaf
    with nd(4) show ?thesis by simp
  next
    case (Node rl b rr)
    then have b: "nd_right nd = Some b" using nd(4) by simp
    have t: "tree_at ?m1 (Some b) r" using tree_at_drop [OF nd(4)] d(3) b by simp
    have ro: "rooted ?m1 root flags r"
      using rooted_drop [of m root flags r] rooted_sub [OF Node.prems(4)] d(3) root by blast
    have dd: "concat (map (data_of_node ?m1 flags) (postorder r)) = ?dr"
      using d(3) by (intro data_drop) auto
    show ?thesis using Node.IH(2) [OF t _ d(5) ro, of "fs @ ?dl"] Node root(2) b dd by simp
  qed
  have self: "free_self a (?m2, (fs @ ?dl) @ ?dr) =
      Inr (drop_nodes ?m2 {a}, ((fs @ ?dl) @ ?dr) @ data_of_node ?m2 flags a)"
    using free_self_ok [of ?m2 a nd root rd] nd d root by simp
  have "data_of_node ?m2 flags a = data_of_node m flags a" using d by (simp add: data_of_node_def)
  moreover have "drop_nodes ?m2 {a} = drop_nodes m (set_tree (Node l x r))" using nd(1) by (simp add: Un_assoc)
  ultimately show ?case
    using left right self nd(1,2) d(1) by (subst shtree_free_node.simps) (simp add: tm_get_def)
qed

text \<open>C34: Freeing a well-formed tree returns without touching freed memory, removes exactly the
  nodes of the tree from the heap, clears the caller's pointer and frees each node's data
  once, children before parents, if and only if the root carries \<open>SHTREE_DEALLOC\<close>.\<close>

theorem shtree_free_exact:
  assumes "tree_at m (Some a) t" "distinct (preorder t)" "rooted m a flags t"
  shows "shtree_free m (Some (Some a)) = Some (Inr (Some None, drop_nodes m (set_tree t),
    concat (map (data_of_node m flags) (postorder t))))"
  using free_node_ok [OF assms(1) _ assms(2,3), of "[]"] assms(1)
  by (cases t) (simp_all add: shtree_free_def)

theorem shtree_free_exact_witness:
  "shtree_free heap_demo (Some (Some 0)) = Some (Inr (Some None, drop_nodes heap_demo {0, 1, 2}, [7]))"
proof -
  have "distinct (preorder tree_demo)" "rooted heap_demo 0 SHTREE_DEALLOC tree_demo"
    by (simp_all add: tree_demo_def rooted_def heap_demo_def node_zero_def)
  from shtree_free_exact [OF tree_demo_at this] show ?thesis
    by (simp add: tree_demo_def data_of_node_def heap_demo_def node_zero_def SHTREE_DEALLOC_def insert_commute)
qed

lemma concat_shared:
  "x \<in> set xs \<Longrightarrow> y \<in> set xs \<Longrightarrow> x \<noteq> y \<Longrightarrow> d \<in> set (f x) \<Longrightarrow> d \<in> set (f y) \<Longrightarrow> \<not> distinct (concat (map f xs))"
  by (induction xs) auto

text \<open>A block freed twice stands twice in the list: when the root carries \<open>SHTREE_DEALLOC\<close> and two nodes of
  the tree share their data, \<open>shtree_free\<close> frees it twice.\<close>

theorem shtree_free_shared:
  assumes "tree_at m (Some a) t" "distinct (preorder t)" "rooted m a flags t" "flags AND SHTREE_DEALLOC \<noteq> 0"
    and "x \<in> set_tree t" "y \<in> set_tree t" "x \<noteq> y" "data_of_node m flags x = [d]" "data_of_node m flags y = [d]"
  shows "\<exists>m' fs. shtree_free m (Some (Some a)) = Some (Inr (Some None, m', fs)) \<and> \<not> distinct fs"
proof -
  have "\<not> distinct (concat (map (data_of_node m flags) (postorder t)))"
    using assms(5-9) by (intro concat_shared [of x _ y d]) simp_all
  then show ?thesis
    using free_node_ok [OF assms(1) _ assms(2,3), of "[]"] assms(1) by (cases t) (simp_all add: shtree_free_def)
qed

section \<open>Attaching below a node\<close>

lemma left_branch_removed:
  assumes "tree_at m (Some a) (Node l a r)" "distinct (preorder (Node l a r))"
    and "rooted m root flags (Node l a r)" "root \<notin> set_tree l" "tm_nodes m a = Some nd"
  shows "(case nd_left nd of
       None \<Rightarrow> Some (Inr (m, fs))
     | Some old \<Rightarrow> map_option (\<lambda>r. run_bind r (\<lambda>(m1, fs). run_bind (tm_get m1 a)
         (\<lambda>td1. Inr (tm_set m1 a (td1\<lparr>nd_left := None\<rparr>), fs)))) (shtree_remove_branch old (m, fs))) =
    Some (Inr (tm_set (drop_nodes m (set_tree l)) a (nd\<lparr>nd_left := None\<rparr>),
      fs @ concat (map (data_of_node m flags) (postorder l))))"
proof (cases l)
  case Leaf
  then have "nd_left nd = None" using assms(1,5) by simp
  then show ?thesis using Leaf assms(5) by (simp add: tm_set_def fun_upd_idem)
next
  case (Node ll b lr)
  then have b: "nd_left nd = Some b" "tree_at m (Some b) l" using assms(1,5) by auto
  have "shtree_free_node b (m, fs) =
      Some (Inr (drop_nodes m (set_tree l), fs @ concat (map (data_of_node m flags) (postorder l))))"
  proof (rule free_node_ok [OF b(2) _ _ conjunct1 [OF rooted_sub [OF assms(3)]]])
    show "distinct (preorder l)" using assms(2) by simp
    show "root = b" if "root \<in> set_tree l" using assms(4) that by simp
  qed (simp add: Node)
  moreover have "a \<notin> set_tree l" using assms(2) by simp
  ultimately show ?thesis using b(1) assms(5) by (simp add: shtree_remove_branch_def tm_get_def)
qed

text \<open>Attaching a new left child frees the old left subtree (with its data, if the root says
  so), and leaves the node with the new childless node on its left and its right subtree
  untouched; the new node knows its parent, its root and its level.\<close>

theorem shtree_left_new_replaces:
  assumes "tree_at m (Some a) (Node l a r)" "distinct (preorder (Node l a r))"
    and "rooted m root flags (Node l a r)" "root \<notin> set_tree l" "tm_nodes m a = Some nd"
    and "tm_nodes m (tm_next m) = None" "calloc_ok c SHTREE_SIZE" "- (2 ^ 31) \<le> nd_level nd + 1"
    "nd_level nd + 1 < 2 ^ 31"
  shows "\<exists>m' n. shtree_left_new c now (m, fs) a data =
      Some (Inr (Some n, m', fs @ concat (map (data_of_node m flags) (postorder l)))) \<and>
    tree_at m' (Some a) (Node (Node Leaf n Leaf) a r) \<and>
    tm_nodes m' n = Some (node_zero\<lparr>nd_parent := Some a, nd_root := Some root, nd_level := nd_level nd + 1,
      nd_data := data, nd_stamp := snd now\<rparr>)"
proof -
  let ?n = "tm_next m" and ?nd = "nd\<lparr>nd_left := None\<rparr>"
  let ?m1 = "tm_set (drop_nodes m (set_tree l)) a ?nd"
  let ?new = "node_zero\<lparr>nd_parent := Some a, nd_root := nd_root nd, nd_level := nd_level nd + 1,
      nd_data := data, nd_stamp := snd now\<rparr>"
  let ?m3 = "tm_set (tm_set (?m1\<lparr>tm_next := ?n + 1\<rparr>) a (?nd\<lparr>nd_stamp := fst now\<rparr>)) ?n ?new"
  let ?m' = "tm_set ?m3 a (?nd\<lparr>nd_stamp := fst now, nd_left := Some ?n\<rparr>)"
  let ?fs = "fs @ concat (map (data_of_node m flags) (postorder l))"
  have na: "?n \<noteq> a" using assms(5,6) by auto
  have nr: "?n \<notin> set_tree r" using assms(3,6) by (force simp: rooted_def)
  have ra: "a \<notin> set_tree r" "set_tree l \<inter> set_tree r = {}" using assms(2) by auto
  have root: "nd_root nd = Some root" using assms(3,5) by (auto simp: rooted_def)
  have "shtree_new c now ?m1 (Some a) data = Inr (Some ?n, ?m3)"
    using assms(7-9) by (simp add: shtree_new_def Let_def tm_set_def tm_get_def int_add_def)
  moreover have "shtree_data_set ?m3 ?n data = Inr ?m3"
    by (simp add: shtree_data_set_def tm_get_def tm_set_def node_zero_def)
  moreover have "tm_get ?m3 a = Inr (?nd\<lparr>nd_stamp := fst now\<rparr>)" using na by (simp add: tm_get_def tm_set_def)
  ultimately have "shtree_left_new c now (m, fs) a data = Some (Inr (Some ?n, ?m', ?fs))"
    using left_branch_removed [OF assms(1-5), of fs] assms(5)
    by (simp add: shtree_left_new_def attach_def tm_get_def)
  moreover have "tree_at ?m' (nd_right nd) r"
  proof (rule tree_at_cong [of r _ m])
    show "tree_at m (nd_right nd) r" using assms(1,5) by simp
  qed (use nr ra in \<open>auto simp: tm_set_def disjoint_iff\<close>)
  ultimately show ?thesis using na root
    by (intro exI [of _ ?m'] exI [of _ ?n]) (simp add: tm_set_def node_zero_def)
qed

theorem shtree_left_new_replaces_witness:
  "\<exists>m' n. shtree_left_new \<lparr>calloc_ok = (\<lambda>_. True), realloc_ok = (\<lambda>_. True), fresh = (\<lambda>_. 0)\<rparr> (5, 6)
      (heap_demo, []) 0 (Some 9) = Some (Inr (Some n, m', [7])) \<and>
    tree_at m' (Some 0) (Node (Node Leaf n Leaf) 0 Leaf)"
proof -
  let ?c = "\<lparr>calloc_ok = (\<lambda>_. True), realloc_ok = (\<lambda>_. True), fresh = (\<lambda>_. 0)\<rparr>"
  have "distinct (preorder tree_demo)" "rooted heap_demo 0 SHTREE_DEALLOC tree_demo"
    by (simp_all add: tree_demo_def rooted_def heap_demo_def node_zero_def)
  then show ?thesis
    using shtree_left_new_replaces [of heap_demo 0 "Node (Node Leaf 2 Leaf) 1 Leaf" Leaf 0 SHTREE_DEALLOC
        "node_zero\<lparr>nd_root := Some 0, nd_left := Some 1, nd_flags := SHTREE_DEALLOC\<rparr>" ?c "(5, 6)" "[]" "Some 9"]
      tree_demo_at
    by (auto simp: tree_demo_def heap_demo_def node_zero_def data_of_node_def SHTREE_DEALLOC_def)
qed

end
