(* ===== verification/Share_Crc32.thy ===== *)
theory Share_Crc32
  imports Share_Prelude
begin

text \<open>
  The CRC-32 of \<^verbatim>\<open>share-lib/mem/shmem_csum.c\<close> (the build without \<open>BYFOUR\<close>): the
  table-driven checksum with its unrolled loop, and the combination of two
  checksums by powers of matrices over GF(2).  The reference is the shift
  register: eight steps of \<open>crc_bit\<close> per byte.
\<close>

section \<open>The code\<close>

definition crc_table :: "u32 list" where
  "crc_table =
    [0x00000000, 0x77073096, 0xee0e612c, 0x990951ba, 0x076dc419, 0x706af48f,
     0xe963a535, 0x9e6495a3, 0x0edb8832, 0x79dcb8a4, 0xe0d5e91e, 0x97d2d988,
     0x09b64c2b, 0x7eb17cbd, 0xe7b82d07, 0x90bf1d91, 0x1db71064, 0x6ab020f2,
     0xf3b97148, 0x84be41de, 0x1adad47d, 0x6ddde4eb, 0xf4d4b551, 0x83d385c7,
     0x136c9856, 0x646ba8c0, 0xfd62f97a, 0x8a65c9ec, 0x14015c4f, 0x63066cd9,
     0xfa0f3d63, 0x8d080df5, 0x3b6e20c8, 0x4c69105e, 0xd56041e4, 0xa2677172,
     0x3c03e4d1, 0x4b04d447, 0xd20d85fd, 0xa50ab56b, 0x35b5a8fa, 0x42b2986c,
     0xdbbbc9d6, 0xacbcf940, 0x32d86ce3, 0x45df5c75, 0xdcd60dcf, 0xabd13d59,
     0x26d930ac, 0x51de003a, 0xc8d75180, 0xbfd06116, 0x21b4f4b5, 0x56b3c423,
     0xcfba9599, 0xb8bda50f, 0x2802b89e, 0x5f058808, 0xc60cd9b2, 0xb10be924,
     0x2f6f7c87, 0x58684c11, 0xc1611dab, 0xb6662d3d, 0x76dc4190, 0x01db7106,
     0x98d220bc, 0xefd5102a, 0x71b18589, 0x06b6b51f, 0x9fbfe4a5, 0xe8b8d433,
     0x7807c9a2, 0x0f00f934, 0x9609a88e, 0xe10e9818, 0x7f6a0dbb, 0x086d3d2d,
     0x91646c97, 0xe6635c01, 0x6b6b51f4, 0x1c6c6162, 0x856530d8, 0xf262004e,
     0x6c0695ed, 0x1b01a57b, 0x8208f4c1, 0xf50fc457, 0x65b0d9c6, 0x12b7e950,
     0x8bbeb8ea, 0xfcb9887c, 0x62dd1ddf, 0x15da2d49, 0x8cd37cf3, 0xfbd44c65,
     0x4db26158, 0x3ab551ce, 0xa3bc0074, 0xd4bb30e2, 0x4adfa541, 0x3dd895d7,
     0xa4d1c46d, 0xd3d6f4fb, 0x4369e96a, 0x346ed9fc, 0xad678846, 0xda60b8d0,
     0x44042d73, 0x33031de5, 0xaa0a4c5f, 0xdd0d7cc9, 0x5005713c, 0x270241aa,
     0xbe0b1010, 0xc90c2086, 0x5768b525, 0x206f85b3, 0xb966d409, 0xce61e49f,
     0x5edef90e, 0x29d9c998, 0xb0d09822, 0xc7d7a8b4, 0x59b33d17, 0x2eb40d81,
     0xb7bd5c3b, 0xc0ba6cad, 0xedb88320, 0x9abfb3b6, 0x03b6e20c, 0x74b1d29a,
     0xead54739, 0x9dd277af, 0x04db2615, 0x73dc1683, 0xe3630b12, 0x94643b84,
     0x0d6d6a3e, 0x7a6a5aa8, 0xe40ecf0b, 0x9309ff9d, 0x0a00ae27, 0x7d079eb1,
     0xf00f9344, 0x8708a3d2, 0x1e01f268, 0x6906c2fe, 0xf762575d, 0x806567cb,
     0x196c3671, 0x6e6b06e7, 0xfed41b76, 0x89d32be0, 0x10da7a5a, 0x67dd4acc,
     0xf9b9df6f, 0x8ebeeff9, 0x17b7be43, 0x60b08ed5, 0xd6d6a3e8, 0xa1d1937e,
     0x38d8c2c4, 0x4fdff252, 0xd1bb67f1, 0xa6bc5767, 0x3fb506dd, 0x48b2364b,
     0xd80d2bda, 0xaf0a1b4c, 0x36034af6, 0x41047a60, 0xdf60efc3, 0xa867df55,
     0x316e8eef, 0x4669be79, 0xcb61b38c, 0xbc66831a, 0x256fd2a0, 0x5268e236,
     0xcc0c7795, 0xbb0b4703, 0x220216b9, 0x5505262f, 0xc5ba3bbe, 0xb2bd0b28,
     0x2bb45a92, 0x5cb36a04, 0xc2d7ffa7, 0xb5d0cf31, 0x2cd99e8b, 0x5bdeae1d,
     0x9b64c2b0, 0xec63f226, 0x756aa39c, 0x026d930a, 0x9c0906a9, 0xeb0e363f,
     0x72076785, 0x05005713, 0x95bf4a82, 0xe2b87a14, 0x7bb12bae, 0x0cb61b38,
     0x92d28e9b, 0xe5d5be0d, 0x7cdcefb7, 0x0bdbdf21, 0x86d3d2d4, 0xf1d4e242,
     0x68ddb3f8, 0x1fda836e, 0x81be16cd, 0xf6b9265b, 0x6fb077e1, 0x18b74777,
     0x88085ae6, 0xff0f6a70, 0x66063bca, 0x11010b5c, 0x8f659eff, 0xf862ae69,
     0x616bffd3, 0x166ccf45, 0xa00ae278, 0xd70dd2ee, 0x4e048354, 0x3903b3c2,
     0xa7672661, 0xd06016f7, 0x4969474d, 0x3e6e77db, 0xaed16a4a, 0xd9d65adc,
     0x40df0b66, 0x37d83bf0, 0xa9bcae53, 0xdebb9ec5, 0x47b2cf7f, 0x30b5ffe9,
     0xbdbdf21c, 0xcabac28a, 0x53b39330, 0x24b4a3a6, 0xbad03605, 0xcdd70693,
     0x54de5729, 0x23d967bf, 0xb3667a2e, 0xc4614ab8, 0x5d681b02, 0x2a6f2b94,
     0xb40bbe37, 0xc30c8ea1, 0x5a05df1b, 0x2d02ef8d]"

definition crc_do1 :: "u32 \<Rightarrow> byte \<Rightarrow> u32" where
  "crc_do1 crc b = crc_table ! unat ((crc XOR ucast b) AND 0xFF) XOR drop_bit 8 crc"

function crc_do8s :: "u32 \<Rightarrow> byte list \<Rightarrow> u32 \<times> byte list" where
  "crc_do8s crc buf =
     (if 8 \<le> length buf then crc_do8s (foldl crc_do1 crc (take 8 buf)) (drop 8 buf) else (crc, buf))"
  by pat_completeness auto
termination
  by (relation "measure (\<lambda>(crc, buf). length buf)") auto

declare crc_do8s.simps [simp del]

definition shcsum_crc32 :: "u32 \<Rightarrow> byte list ptr \<Rightarrow> nat \<Rightarrow> fault + u32" where
  "shcsum_crc32 crc buf len =
     (case buf of None \<Rightarrow> Inr 0
      | Some d \<Rightarrow> run_bind (mem_read d 0 len)
          (\<lambda>xs. let (c, rest) = crc_do8s (crc XOR 0xFFFFFFFF) xs
                in Inr (foldl crc_do1 c rest XOR 0xFFFFFFFF)))"

definition GF2_DIM :: nat where "GF2_DIM = 32"

lemma unat_drop_bit_less: "vec \<noteq> 0 \<Longrightarrow> unat (drop_bit (Suc 0) vec) < unat (vec :: u64)"
proof -
  assume "vec \<noteq> 0"
  then have "0 < unat vec" by (simp add: unat_gt_0)
  moreover have "unat (drop_bit 1 vec) = unat vec div 2"
    by (simp add: drop_bit_eq_div unat_div)
  ultimately show ?thesis by simp
qed

text \<open>The loop \<open>while (vec)\<close>; the matrix pointer moves along.\<close>

function gf2_loop :: "u64 list \<Rightarrow> u64 \<Rightarrow> u64 \<Rightarrow> fault + u64" where
  "gf2_loop mat vec sm =
     (if vec = 0 then Inr sm
      else if vec AND 1 \<noteq> 0 then
        (case mat of [] \<Rightarrow> Inl OutOfBounds | m # ms \<Rightarrow> gf2_loop ms (drop_bit 1 vec) (sm XOR m))
      else gf2_loop (tl mat) (drop_bit 1 vec) sm)"
  by pat_completeness auto
termination
  by (relation "measure (\<lambda>(mat, vec, sm). unat vec)") (auto simp: unat_drop_bit_less)

declare gf2_loop.simps [simp del]

definition gf2_matrix_times :: "u64 list \<Rightarrow> u64 \<Rightarrow> fault + u64" where
  "gf2_matrix_times mat vec = gf2_loop mat vec 0"

fun gf2_rows :: "u64 list \<Rightarrow> u64 list \<Rightarrow> fault + u64 list" where
  "gf2_rows mat [] = Inr []"
| "gf2_rows mat (v # vs) =
     run_bind (gf2_matrix_times mat v) (\<lambda>x. run_bind (gf2_rows mat vs) (\<lambda>xs. Inr (x # xs)))"

definition gf2_matrix_square :: "u64 list \<Rightarrow> fault + u64 list" where
  "gf2_matrix_square mat = gf2_rows mat (take GF2_DIM mat)"

text \<open>One half of the body of the loop: square the operator and apply it for this bit of the
  length.\<close>

definition combine_half :: "u64 list \<Rightarrow> nat \<Rightarrow> u64 \<Rightarrow> fault + (u64 list \<times> u64)" where
  "combine_half mat len2 crc1 =
     run_bind (gf2_matrix_square mat) (\<lambda>sq.
       if odd len2 then run_bind (gf2_matrix_times sq crc1) (\<lambda>c. Inr (sq, c)) else Inr (sq, crc1))"

function combine_loop :: "u64 list \<Rightarrow> nat \<Rightarrow> u64 \<Rightarrow> fault + u64" where
  "combine_loop oddm len2 crc1 =
     run_bind (combine_half oddm len2 crc1) (\<lambda>(evenm, c1).
       let l1 = len2 div 2 in
       if l1 = 0 then Inr c1
       else run_bind (combine_half evenm l1 c1) (\<lambda>(oddm', c2).
         let l2 = l1 div 2 in
         if l2 = 0 then Inr c2 else combine_loop oddm' l2 c2))"
  by pat_completeness auto
termination
  by (relation "measure (\<lambda>(m, len2, crc). len2)") auto

declare combine_loop.simps [simp del]

definition crc32_combine :: "u64 \<Rightarrow> u64 \<Rightarrow> nat \<Rightarrow> fault + u64" where
  "crc32_combine crc1 crc2 len2 =
     (if len2 = 0 then Inr crc1
      else run_bind (gf2_matrix_square (0xEDB88320 # map (\<lambda>n. push_bit n 1) [0..<31])) (\<lambda>evenm.
        run_bind (gf2_matrix_square evenm) (\<lambda>oddm.
          run_bind (combine_loop oddm len2 crc1) (\<lambda>c. Inr (c XOR crc2)))))"

definition shcsum_crc32_combine :: "u32 \<Rightarrow> u32 \<Rightarrow> nat \<Rightarrow> fault + u32" where
  "shcsum_crc32_combine crc1 crc2 len2 =
     run_bind (crc32_combine (ucast crc1) (ucast crc2) len2) (\<lambda>c. Inr (ucast c))"

section \<open>The shift register\<close>

definition crc_bit :: "u32 \<Rightarrow> u32" where
  "crc_bit c = (if bit c 0 then drop_bit 1 c XOR 0xEDB88320 else drop_bit 1 c)"

definition crc_byte :: "u32 \<Rightarrow> byte \<Rightarrow> u32" where
  "crc_byte c b = (crc_bit ^^ 8) (c XOR ucast b)"

definition crc_spec :: "u32 \<Rightarrow> byte list \<Rightarrow> u32" where
  "crc_spec crc xs = foldl crc_byte (crc XOR 0xFFFFFFFF) xs XOR 0xFFFFFFFF"

lemma crc_bit_xor: "crc_bit (x XOR y) = crc_bit x XOR crc_bit y"
  by (auto simp: crc_bit_def bit_simps drop_bit_xor ac_simps)

lemma crc_bit_pow_xor: "(crc_bit ^^ n) (x XOR y) = (crc_bit ^^ n) x XOR (crc_bit ^^ n) y"
  by (induction n) (simp_all add: crc_bit_xor)

text \<open>All combinations of some words under exclusive or, in counting order: the table follows
  from its entries at the powers of two.\<close>

fun xor_span :: "u32 list \<Rightarrow> u32 list" where
  "xor_span [] = [0]"
| "xor_span (g # gs) = xor_span gs @ map (\<lambda>x. x XOR g) (xor_span gs)"

lemma of_nat_add_power:
  assumes "i < 2 ^ k"
  shows "(word_of_nat (2 ^ k + i) :: u32) = word_of_nat i XOR push_bit k 1"
proof -
  have ti: "take_bit k i = i" using assms by (simp add: take_bit_nat_eq_self)
  have d: "\<not> bit i n \<or> \<not> bit (push_bit k (1 :: nat)) n" for n
    using bit_take_bit_iff [of k i n] ti by (auto simp: bit_push_bit_iff bit_exp_iff)
  then have "i + push_bit k 1 = i OR push_bit k 1" by (rule disjunctive_add)
  moreover have "i OR push_bit k 1 = i XOR push_bit k 1"
    using d by (intro bit_eqI) (auto simp: bit_simps)
  ultimately have "2 ^ k + i = i XOR push_bit k 1" by (simp add: push_bit_eq_mult add.commute)
  then show ?thesis by (simp only: of_nat_xor_eq of_nat_push_bit of_nat_1)
qed

lemma xor_span_table:
  fixes f :: "u32 \<Rightarrow> u32"
  assumes "\<And>x y. f (x XOR y) = f x XOR f y" "f 0 = 0"
  shows "xor_span (map (\<lambda>k. f (push_bit k 1)) (rev [0..<n])) = map (\<lambda>i. f (word_of_nat i)) [0..<2 ^ n]"
proof (induction n)
  case 0
  then show ?case by (simp add: assms(2))
next
  case (Suc n)
  let ?t = "\<lambda>m. map (\<lambda>i. f (word_of_nat i)) [0..<m]"
  have "[0..<m + m] = [0..<m] @ map (\<lambda>i. m + i) [0..<m]" for m
    using upt_add_eq_append [of 0 m m] map_add_upt [of m m] by (simp add: add.commute)
  then have "[0..<2 ^ Suc n] = [0..<2 ^ n] @ map (\<lambda>i. 2 ^ n + i) [0..<2 ^ n]" by (simp only: power_Suc mult_2)
  then have "?t (2 ^ Suc n) = ?t (2 ^ n) @ map (\<lambda>i. f (word_of_nat (2 ^ n + i))) [0..<2 ^ n]" by simp
  also have "map (\<lambda>i. f (word_of_nat (2 ^ n + i))) [0..<2 ^ n] =
      map (\<lambda>x. x XOR f (push_bit n 1)) (?t (2 ^ n))"
    unfolding map_map o_def
    by (rule map_cong [OF refl], simp only: set_upt atLeastLessThan_iff, elim conjE)
      (simp only: of_nat_add_power assms(1))
  finally show ?case using Suc by simp
qed

lemma crc_gens: "map (\<lambda>k. (crc_bit ^^ 8) (push_bit k 1)) (rev [0..<8]) =
    [0xedb88320, 0x76dc4190, 0x3b6e20c8, 0x1db71064, 0x0edb8832, 0x076dc419, 0xee0e612c, 0x77073096]"
  by code_simp

lemma crc_table_span: "crc_table =
    xor_span [0xedb88320, 0x76dc4190, 0x3b6e20c8, 0x1db71064, 0x0edb8832, 0x076dc419, 0xee0e612c, 0x77073096]"
  by code_simp

lemma crc_bit_0 [simp]: "crc_bit 0 = 0" "(crc_bit ^^ n) 0 = 0"
proof -
  show z: "crc_bit 0 = 0" by (simp add: crc_bit_def)
  show "(crc_bit ^^ n) 0 = 0" by (induction n) (simp_all add: z)
qed

lemma crc_table_nth: "i < 256 \<Longrightarrow> crc_table ! i = (crc_bit ^^ 8) (word_of_nat i)"
proof -
  assume i: "i < 256"
  let ?f = "\<lambda>i. (crc_bit ^^ 8) (word_of_nat i)"
  have "crc_table = map ?f [0..<2 ^ 8]"
    unfolding crc_table_span crc_gens [symmetric]
    by (rule xor_span_table) (simp_all only: crc_bit_pow_xor crc_bit_0)
  then have "crc_table ! i = map ?f [0..<2 ^ 8] ! i" by (rule arg_cong)
  also have "\<dots> = ?f (0 + i)" using i by (intro nth_map_upt) simp
  finally show ?thesis by (simp only: add_0)
qed

section \<open>The table-driven checksum computes the shift register\<close>

lemma crc_bit_shift: "\<not> bit c 0 \<Longrightarrow> crc_bit c = drop_bit 1 c"
  by (simp add: crc_bit_def)

lemma crc_bit_pow_shift: "(\<And>k. k < n \<Longrightarrow> \<not> bit c k) \<Longrightarrow> (crc_bit ^^ n) c = drop_bit n c"
proof (induction n)
  case (Suc n)
  then have "(crc_bit ^^ n) c = drop_bit n c" by simp
  moreover have "\<not> bit (drop_bit n c) 0" using Suc.prems [of n] by (simp add: bit_simps)
  ultimately show ?case by (simp add: crc_bit_shift)
qed simp

lemma crc_do1_byte: "crc_do1 c b = crc_byte c b"
proof -
  let ?x = "c XOR ucast b" and ?m = "0xFF :: u32"
  have m: "?m = mask 8" by (simp add: mask_eq_exp_minus_1)
  have split: "?x = (?x AND ?m) XOR (?x AND NOT ?m)"
    by (rule bit_word_eqI) (auto simp: bit_simps)
  have "unat (?x AND ?m) \<le> unat ?m" using word_and_le1 [of ?x ?m] by (simp add: word_le_nat_alt)
  then have "crc_table ! unat (?x AND ?m) = (crc_bit ^^ 8) (?x AND ?m)" by (simp add: crc_table_nth)
  moreover have "(crc_bit ^^ 8) (?x AND NOT ?m) = drop_bit 8 c"
  proof -
    have "(crc_bit ^^ 8) (?x AND NOT ?m) = drop_bit 8 (?x AND NOT ?m)"
      by (rule crc_bit_pow_shift) (simp add: m bit_simps)
    also have "\<dots> = drop_bit 8 c"
      unfolding m by (rule bit_word_eqI) (auto simp: bit_simps dest: bit_imp_le_length)
    finally show ?thesis .
  qed
  ultimately show ?thesis
    unfolding crc_do1_def crc_byte_def by (subst split) (simp only: crc_bit_pow_xor)
qed

lemma crc_do8s_ok:
  "crc_do8s crc buf = (c, rest) \<Longrightarrow> foldl crc_do1 c rest = foldl crc_do1 crc buf"
proof (induction crc buf arbitrary: c rest rule: crc_do8s.induct)
  case (1 crc buf)
  show ?case
  proof (cases "8 \<le> length buf")
    case True
    then have "foldl crc_do1 c rest = foldl crc_do1 (foldl crc_do1 crc (take 8 buf)) (drop 8 buf)"
      using 1 by (simp add: crc_do8s.simps [of crc buf])
    then show ?thesis by (metis append_take_drop_id foldl_append)
  next
    case False
    then show ?thesis using "1.prems" by (simp add: crc_do8s.simps [of crc buf])
  qed
qed

lemma crc32_refines: "shcsum_crc32 crc (Some xs) (length xs) = Inr (crc_spec crc xs)"
proof -
  obtain c rest where r: "crc_do8s (crc XOR 0xFFFFFFFF) xs = (c, rest)" by fastforce
  have "crc_do1 = crc_byte" by (intro ext) (rule crc_do1_byte)
  with crc_do8s_ok [OF r] have "foldl crc_do1 c rest = foldl crc_byte (crc XOR 0xFFFFFFFF) xs" by simp
  with r show ?thesis by (simp add: shcsum_crc32_def mem_read_def crc_spec_def)
qed

text \<open>C33: The table-driven CRC-32 with its loop unrolled by eight computes, for every data, what
  the bitwise shift register with the polynomial \<open>0xEDB88320\<close> computes, and can be continued:
  the checksum of the first piece as start value for the second gives that of the whole.\<close>

theorem shcsum_crc32_spec:
  "shcsum_crc32 crc (Some xs) (length xs) = Inr (crc_spec crc xs) \<and>
   run_bind (shcsum_crc32 crc (Some xs) (length xs)) (\<lambda>v. shcsum_crc32 v (Some ys) (length ys)) =
     shcsum_crc32 crc (Some (xs @ ys)) (length (xs @ ys))"
  by (simp only: crc32_refines run_bind_Inr crc_spec_def foldl_append) (simp add: xor.assoc)

section \<open>Combining two checksums\<close>

text \<open>A matrix stands for a linear map of 32-bit words: its rows are the images of the powers of
  two.\<close>

definition linear32 :: "(u32 \<Rightarrow> u32) \<Rightarrow> bool" where
  "linear32 f \<longleftrightarrow> (\<forall>x y. f (x XOR y) = f x XOR f y)"

definition is_matrix :: "u64 list \<Rightarrow> (u32 \<Rightarrow> u32) \<Rightarrow> bool" where
  "is_matrix mat f \<longleftrightarrow> mat = map (\<lambda>n. ucast (f (push_bit n 1))) [0..<GF2_DIM]"

lemma linear32_zero: "linear32 f \<Longrightarrow> f 0 = 0"
  by (metis linear32_def xor_self_eq)

lemma linear32_comp: "linear32 f \<Longrightarrow> linear32 g \<Longrightarrow> linear32 (f \<circ> g)"
  by (simp add: linear32_def)

lemma linear32_crc: "linear32 (crc_bit ^^ n)"
  by (simp add: linear32_def crc_bit_pow_xor)

text \<open>The bits of a word from position \<open>k\<close> on.\<close>

lemma high_split:
  assumes "k < 32"
  shows "push_bit k (drop_bit k (v :: u32)) =
    (if bit v k then push_bit k 1 else 0) XOR push_bit (Suc k) (drop_bit (Suc k) v)"
proof (rule bit_word_eqI)
  fix n assume "n < LENGTH(32)"
  then show "bit (push_bit k (drop_bit k v)) n =
      bit ((if bit v k then push_bit k 1 else 0) XOR push_bit (Suc k) (drop_bit (Suc k) v)) n"
    by (cases n k rule: linorder_cases)
      (auto simp: bit_simps Suc_le_eq simp del: push_bit_Suc drop_bit_Suc)
qed

lemma gf2_loop_ok:
  assumes "linear32 f" "is_matrix mat f" "k \<le> 32"
  shows "gf2_loop (drop k mat) (drop_bit k (ucast v)) sm =
    Inr (sm XOR ucast (f (push_bit k (drop_bit k (v :: u32)))))"
  using assms(3)
proof (induction "32 - k" arbitrary: k sm)
  case 0
  then have "k = 32" by simp
  moreover have "drop_bit 32 (ucast v :: u64) = 0" "drop_bit 32 v = 0"
    by (rule bit_word_eqI; auto simp: bit_simps dest: bit_imp_le_length)+
  ultimately show ?case using linear32_zero [OF assms(1)] by (simp add: gf2_loop.simps)
next
  case (Suc d)
  then have k: "k < 32" by simp
  let ?v = "ucast v :: u64"
  have len: "length mat = 32" using assms(2) by (simp add: is_matrix_def GF2_DIM_def)
  have row: "mat ! k = ucast (f (push_bit k 1))" using assms(2) k by (simp add: is_matrix_def GF2_DIM_def)
  have dk: "drop k mat = mat ! k # drop (Suc k) mat" using k len by (simp add: Cons_nth_drop_Suc)
  have ih: "gf2_loop (drop (Suc k) mat) (drop_bit (Suc k) ?v) sm' =
      Inr (sm' XOR ucast (f (push_bit (Suc k) (drop_bit (Suc k) v))))" for sm'
    using Suc.hyps(2) k by (intro Suc.hyps(1)) simp_all
  have bit0: "drop_bit k ?v AND 1 \<noteq> 0 \<longleftrightarrow> bit v k"
    using k by (auto simp: and_one_eq mod_2_eq_odd bit_iff_odd_drop_bit [symmetric] bit_simps)
  have step: "drop_bit 1 (drop_bit k ?v) = drop_bit (Suc k) ?v" by simp
  have f: "f (push_bit k (drop_bit k v)) =
      f (if bit v k then push_bit k 1 else 0) XOR f (push_bit (Suc k) (drop_bit (Suc k) v))"
    using assms(1) unfolding linear32_def by (subst high_split [OF k]) blast
  show ?case
  proof (cases "drop_bit k ?v = 0")
    case True
    have "drop_bit k v = 0"
    proof (rule bit_word_eqI)
      fix n assume "n < LENGTH(32)"
      have "\<not> bit (drop_bit k ?v) n" using True by simp
      then show "bit (drop_bit k v) n = bit 0 n" by (auto simp: bit_simps dest: bit_imp_le_length)
    qed
    then show ?thesis using True linear32_zero [OF assms(1)] by (simp add: gf2_loop.simps)
  next
    case False
    show ?thesis
    proof (cases "bit v k")
      case True
      then have "gf2_loop (drop k mat) (drop_bit k ?v) sm =
          gf2_loop (drop (Suc k) mat) (drop_bit (Suc k) ?v) (sm XOR mat ! k)"
        using False bit0 step unfolding dk by (subst gf2_loop.simps) simp
      then show ?thesis unfolding ih f row using True by (simp add: unsigned_xor_eq xor.assoc)
    next
      case no: False
      then have "gf2_loop (drop k mat) (drop_bit k ?v) sm = gf2_loop (drop (Suc k) mat) (drop_bit (Suc k) ?v) sm"
        using False bit0 step unfolding dk by (subst gf2_loop.simps) simp
      then show ?thesis unfolding ih f using no linear32_zero [OF assms(1)] by simp
    qed
  qed
qed

lemma gf2_times_ok:
  "linear32 f \<Longrightarrow> is_matrix mat f \<Longrightarrow> gf2_matrix_times mat (ucast v) = Inr (ucast (f v))"
  using gf2_loop_ok [of f mat 0 v 0] by (simp add: gf2_matrix_times_def)

lemma gf2_square_ok:
  assumes "linear32 f" "is_matrix mat f"
  shows "\<exists>sq. gf2_matrix_square mat = Inr sq \<and> is_matrix sq (f \<circ> f)"
proof -
  have rows: "gf2_rows mat (map (\<lambda>n. ucast (f (push_bit n 1))) ns) =
      Inr (map (\<lambda>n. ucast (f (f (push_bit n 1)))) ns)" for ns
    by (induction ns) (simp_all add: gf2_times_ok [OF assms])
  have "take GF2_DIM mat = map (\<lambda>n. ucast (f (push_bit n 1))) [0..<GF2_DIM]"
    using assms(2) by (simp add: is_matrix_def)
  with rows show ?thesis by (simp add: gf2_matrix_square_def is_matrix_def)
qed

lemma combine_half_ok:
  assumes "linear32 f" "is_matrix mat f"
  shows "\<exists>sq. combine_half mat len2 (ucast c) = Inr (sq, ucast (if odd len2 then (f \<circ> f) c else c)) \<and>
    is_matrix sq (f \<circ> f)"
proof -
  obtain sq where sq: "gf2_matrix_square mat = Inr sq" "is_matrix sq (f \<circ> f)"
    using gf2_square_ok [OF assms] by blast
  have "gf2_matrix_times sq (ucast c) = Inr (ucast ((f \<circ> f) c))"
    by (rule gf2_times_ok [OF linear32_comp [OF assms(1) assms(1)] sq(2)])
  with sq show ?thesis by (simp add: combine_half_def)
qed

lemma funpow_half: "(g ^^ n) c = ((g \<circ> g) ^^ (n div 2)) (if odd n then g c else c)"
proof -
  have sq: "(g \<circ> g) ^^ m = g ^^ (2 * m)" for m
    by (induction m) (simp_all add: o_assoc)
  show ?thesis
  proof (cases "odd n")
    case True
    then obtain m where "n = 2 * m + 1" by (rule oddE)
    then show ?thesis unfolding sq by (simp add: funpow_swap1)
  next
    case False
    then obtain m where "n = 2 * m" by (auto elim: evenE)
    then show ?thesis unfolding sq by simp
  qed
qed

lemma combine_loop_ok:
  assumes "linear32 f" "is_matrix mat f"
  shows "combine_loop mat len2 (ucast c) = Inr (ucast (((f \<circ> f) ^^ len2) c))"
  using assms
proof (induction len2 arbitrary: mat f c rule: less_induct)
  case (less len2)
  let ?g = "f \<circ> f"
  let ?c1 = "if odd len2 then ?g c else c" and ?l1 = "len2 div 2"
  have lg: "linear32 ?g" "linear32 (?g \<circ> ?g)" using less.prems(1) by (simp_all add: linear32_comp)
  obtain evenm where e: "combine_half mat len2 (ucast c) = Inr (evenm, ucast ?c1)" "is_matrix evenm ?g"
    using combine_half_ok [OF less.prems] by blast
  let ?c2 = "if odd ?l1 then (?g \<circ> ?g) ?c1 else ?c1"
  obtain oddm where o: "combine_half evenm ?l1 (ucast ?c1) = Inr (oddm, ucast ?c2)" "is_matrix oddm (?g \<circ> ?g)"
    using combine_half_ok [OF lg(1) e(2)] by blast
  have h: "(?g ^^ len2) c = ((?g \<circ> ?g) ^^ ?l1) ?c1"
    "((?g \<circ> ?g) ^^ ?l1) ?c1 = (((?g \<circ> ?g) \<circ> (?g \<circ> ?g)) ^^ (?l1 div 2)) ?c2"
    by (rule funpow_half)+
  show ?case
  proof (cases "?l1 = 0 \<or> ?l1 div 2 = 0")
    case True
    then show ?thesis unfolding h(1) using e o h(2)
      by (subst combine_loop.simps) (auto simp: Let_def)
  next
    case False
    then have "?l1 div 2 < len2" by (metis div_by_0 div_less_dividend div_le_dividend gr0I le_less_trans
      one_less_numeral_iff semiring_norm(76) div_0)
    then have "combine_loop oddm (?l1 div 2) (ucast ?c2) =
        Inr (ucast ((((?g \<circ> ?g) \<circ> (?g \<circ> ?g)) ^^ (?l1 div 2)) ?c2))"
      by (intro less.IH lg o(2))
    with False e o h show ?thesis by (subst combine_loop.simps) (simp add: Let_def)
  qed
qed

lemma crc_matrix: "is_matrix (0xEDB88320 # map (\<lambda>n. push_bit n 1) [0..<31]) crc_bit"
  by code_simp

lemma crc_foldl_xor:
  "foldl crc_byte (x XOR y) ys = (((crc_bit ^^ 8) ^^ length ys) x) XOR foldl crc_byte y ys"
proof (induction ys arbitrary: x y)
  case (Cons b bs)
  have "crc_byte (x XOR y) b = (crc_bit ^^ 8) x XOR crc_byte y b"
    by (simp only: crc_byte_def xor.assoc crc_bit_pow_xor)
  with Cons show ?case by (simp only: foldl.simps length_Cons funpow_Suc_right o_apply)
qed simp

lemma crc32_combine_zeros:
  "len2 \<noteq> 0 \<Longrightarrow> shcsum_crc32_combine c1 c2 len2 = Inr ((((crc_bit ^^ 8) ^^ len2) c1) XOR c2)"
proof -
  assume n: "len2 \<noteq> 0"
  have l1: "linear32 crc_bit" using linear32_crc [of 1] by simp
  obtain m2 where m2: "gf2_matrix_square (0xEDB88320 # map (\<lambda>n. push_bit n 1) [0..<31]) = Inr m2"
    "is_matrix m2 (crc_bit \<circ> crc_bit)" using gf2_square_ok [OF l1 crc_matrix] by blast
  have l2: "linear32 (crc_bit \<circ> crc_bit)" by (rule linear32_comp [OF l1 l1])
  let ?q = "(crc_bit \<circ> crc_bit) \<circ> (crc_bit \<circ> crc_bit)"
  obtain m4 where m4: "gf2_matrix_square m2 = Inr m4" "is_matrix m4 ?q"
    using gf2_square_ok [OF l2 m2(2)] by blast
  have "?q \<circ> ?q = crc_bit ^^ 8" by (simp add: numeral_eq_Suc o_assoc)
  then have "combine_loop m4 len2 (ucast c1) = Inr (ucast (((crc_bit ^^ 8) ^^ len2) c1))"
    using combine_loop_ok [OF linear32_comp [OF l2 l2] m4(2)] by simp
  with m2(1) m4(1) n show ?thesis
    by (simp add: shcsum_crc32_combine_def crc32_combine_def unsigned_xor_eq)
qed

text \<open>C32: The CRC-32 of a concatenation is what \<open>shcsum_crc32_combine\<close> computes from the checksums
  of the two parts and the length of the second, by repeated squaring of the matrix of one
  zero bit.\<close>

theorem shcsum_crc32_combine_ok:
  "run_bind (shcsum_crc32 0 (Some xs) (length xs)) (\<lambda>c1. run_bind (shcsum_crc32 0 (Some ys) (length ys))
     (\<lambda>c2. shcsum_crc32_combine c1 c2 (length ys))) =
   shcsum_crc32 0 (Some (xs @ ys)) (length (xs @ ys))"
proof (cases "ys = []")
  case True
  then show ?thesis
    using crc32_refines [of 0 "[]"] by (simp add: crc32_refines shcsum_crc32_combine_def crc32_combine_def)
next
  case False
  let ?F = "0xFFFFFFFF :: u32"
  let ?r = "foldl crc_byte ?F xs" and ?s = "foldl crc_byte ?F ys"
  have "foldl crc_byte ?r ys = foldl crc_byte ((?r XOR ?F) XOR ?F) ys" by (simp add: xor.assoc)
  also have "\<dots> = (((crc_bit ^^ 8) ^^ length ys) (?r XOR ?F)) XOR ?s" by (rule crc_foldl_xor)
  finally have "crc_spec 0 (xs @ ys) = (((crc_bit ^^ 8) ^^ length ys) (crc_spec 0 xs)) XOR crc_spec 0 ys"
    by (simp add: crc_spec_def xor.assoc)
  with False show ?thesis by (simp add: crc32_refines crc32_combine_zeros del: length_append)
qed

end
