(* ===== verification/Share_Csum.thy ===== *)
theory Share_Csum
  imports Share_Prelude
begin

text \<open>
  The Adler-32 checksum of \<^verbatim>\<open>share-lib/mem/shmem_csum.c\<close>: the block-wise sums
  with their deferred reductions and the combination of two sums.  The \<open>unsigned long\<close> sums and
  the \<open>uint32_t\<close> sums are natural numbers with the wrap-around written out.
\<close>

section \<open>Adler-32\<close>

definition BASE :: nat where "BASE = 65521"
definition NMAX :: nat where "NMAX = 5552"

text \<open>One \<open>DO1\<close>: \<open>adler\<close> is 32 bits wide, \<open>sum2\<close> 64 bits.\<close>

definition adler_do1 :: "nat \<times> nat \<Rightarrow> byte \<Rightarrow> nat \<times> nat" where
  "adler_do1 = (\<lambda>(adler, sum2) b.
     let a = (adler + unat b) mod 2 ^ 32 in (a, (sum2 + a) mod 2 ^ 64))"

definition adler_run :: "nat \<times> nat \<Rightarrow> byte list \<Rightarrow> nat \<times> nat" where
  "adler_run st xs = foldl adler_do1 st xs"

function adler_blocks :: "nat \<times> nat \<Rightarrow> byte list \<Rightarrow> (nat \<times> nat) \<times> byte list" where
  "adler_blocks st buf =
     (if NMAX \<le> length buf then
        (let (adler, sum2) = adler_run st (take NMAX buf)
         in adler_blocks (adler mod BASE, sum2 mod BASE) (drop NMAX buf))
      else (st, buf))"
  by pat_completeness auto
termination
  by (relation "measure (\<lambda>(st, buf). length buf)") (auto simp: NMAX_def)

declare adler_blocks.simps [simp del]

definition adler_join :: "nat \<Rightarrow> nat \<Rightarrow> u32" where
  "adler_join adler sum2 = ucast (word_of_nat adler OR push_bit 16 (word_of_nat sum2) :: u64)"

definition adler_lo :: "u32 \<Rightarrow> nat" where "adler_lo w = unat (w AND 0xFFFF)"
definition adler_hi :: "u32 \<Rightarrow> nat" where "adler_hi w = unat (drop_bit 16 w AND 0xFFFF)"

definition shcsum_adler32 :: "u32 \<Rightarrow> byte list ptr \<Rightarrow> nat \<Rightarrow> fault + u32" where
  "shcsum_adler32 w buf len =
     (let sum2 = adler_hi w; adler = adler_lo w in
      if len = 1 then
        (case buf of None \<Rightarrow> Inl NullDeref
         | Some d \<Rightarrow> run_bind (mem_get d 0) (\<lambda>b.
             let a1 = (adler + unat b) mod 2 ^ 32;
                 a2 = (if BASE \<le> a1 then a1 - BASE else a1);
                 s1 = (sum2 + a2) mod 2 ^ 64;
                 s2 = (if BASE \<le> s1 then s1 - BASE else s1)
             in Inr (adler_join a2 s2)))
      else
        (case buf of None \<Rightarrow> Inr 1
         | Some d \<Rightarrow> run_bind (mem_read d 0 len) (\<lambda>xs.
             if len < 16 then
               (let (a, s) = adler_run (adler, sum2) xs
                in Inr (adler_join (if BASE \<le> a then a - BASE else a) (s mod BASE)))
             else
               (let ((a, s), rest) = adler_blocks (adler, sum2) xs in
                if rest = [] then Inr (adler_join a s)
                else (let (a', s') = adler_run (a, s) rest in Inr (adler_join (a' mod BASE) (s' mod BASE)))))))"

definition shcsum_adler32_combine :: "u32 \<Rightarrow> u32 \<Rightarrow> nat \<Rightarrow> u32" where
  "shcsum_adler32_combine adler1 adler2 len2 =
     (let rem = len2 mod BASE;
          s1 = adler_lo adler1;
          s2 = (rem * s1) mod BASE;
          sum1 = s1 + adler_lo adler2 + BASE - 1;
          sum2 = s2 + adler_hi adler1 + adler_hi adler2 + BASE - rem;
          sum1a = (if BASE \<le> sum1 then sum1 - BASE else sum1);
          sum1b = (if BASE \<le> sum1a then sum1a - BASE else sum1a);
          sum2a = (if 2 * BASE \<le> sum2 then sum2 - 2 * BASE else sum2);
          sum2b = (if BASE \<le> sum2a then sum2a - BASE else sum2a)
      in adler_join sum1b sum2b)"

subsection \<open>The definition of the checksum\<close>

text \<open>The sum of the bytes, and the sum of all its intermediate values, modulo \<open>BASE\<close>.\<close>

fun adler_sums :: "nat \<Rightarrow> nat \<Rightarrow> byte list \<Rightarrow> nat \<times> nat" where
  "adler_sums a s [] = (a, s)"
| "adler_sums a s (b # bs) = adler_sums (a + unat b) (s + a + unat b) bs"

definition adler_spec :: "nat \<Rightarrow> nat \<Rightarrow> byte list \<Rightarrow> nat \<times> nat" where
  "adler_spec a s xs = (fst (adler_sums a s xs) mod BASE, snd (adler_sums a s xs) mod BASE)"

lemma byte_le: "unat (b :: byte) \<le> 255"
proof -
  have "unat b < 2 ^ LENGTH(8)" by (rule unsigned_less)
  then show ?thesis by simp
qed

lemma adler_sums_append:
  "adler_sums a s (xs @ ys) = (let (a', s') = adler_sums a s xs in adler_sums a' s' ys)"
  by (induction xs arbitrary: a s) auto

text \<open>The growth of the second sum over one more byte.\<close>

lemma adler_growth:
  assumes "u \<le> 255"
  shows "s + a + u + n * (a + u + 255 * n) \<le> s + Suc n * (a + 255 * Suc n)"
proof -
  have "n * (a + u + 255 * n) \<le> n * (a + 255 * Suc n)" using assms by (intro mult_le_mono2) simp
  moreover have "s + a + u \<le> s + (a + 255 * Suc n)" using assms by simp
  ultimately show ?thesis by (simp only: mult_Suc add.assoc [symmetric] add_mono)
qed

lemma adler_sums_bound:
  "fst (adler_sums a s xs) \<le> a + 255 * length xs \<and>
   snd (adler_sums a s xs) \<le> s + length xs * (a + 255 * length xs)"
proof (induction xs arbitrary: a s)
  case (Cons b bs)
  have b: "unat b \<le> 255" by (rule byte_le)
  have "snd (adler_sums a s (b # bs)) \<le> s + length (b # bs) * (a + 255 * length (b # bs))"
    using Cons [of "a + unat b" "s + a + unat b"] adler_growth [OF b, of s a "length bs"]
    unfolding adler_sums.simps length_Cons by (meson le_trans)
  with Cons [of "a + unat b" "s + a + unat b"] b show ?case by simp
qed simp

lemma adler_run_exact:
  assumes "a + 255 * length xs < 2 ^ 32" "s + length xs * (a + 255 * length xs) < 2 ^ 64"
  shows "adler_run (a, s) xs = adler_sums a s xs"
  using assms
proof (induction xs arbitrary: a s)
  case Nil
  then show ?case by (simp add: adler_run_def)
next
  case (Cons b bs)
  have b: "unat b \<le> 255" by (rule byte_le)
  have 2: "s + a + unat b + length bs * (a + unat b + 255 * length bs) < 2 ^ 64"
    using Cons.prems(2) adler_growth [OF b, of s a "length bs"] unfolding length_Cons by (rule le_less_trans [rotated])
  have 1: "a + unat b + 255 * length bs < 2 ^ 32" using Cons.prems(1) b by simp
  have "adler_do1 (a, s) b = (a + unat b, s + a + unat b)"
    using 1 2 by (simp add: adler_do1_def Let_def add.assoc)
  with Cons.IH [OF 1, of "s + a + unat b"] 2 show ?case by (simp add: adler_run_def)
qed

lemma adler_sums_mod:
  "fst (adler_sums (a mod BASE) (s mod BASE) xs) mod BASE = fst (adler_sums a s xs) mod BASE \<and>
   snd (adler_sums (a mod BASE) (s mod BASE) xs) mod BASE = snd (adler_sums a s xs) mod BASE"
proof -
  have "a mod BASE = a' mod BASE \<Longrightarrow> s mod BASE = s' mod BASE \<Longrightarrow>
    fst (adler_sums a s xs) mod BASE = fst (adler_sums a' s' xs) mod BASE \<and>
    snd (adler_sums a s xs) mod BASE = snd (adler_sums a' s' xs) mod BASE" for a' s'
  proof (induction xs arbitrary: a s a' s')
    case (Cons b bs)
    have "(a + unat b) mod BASE = (a' + unat b) mod BASE" by (rule mod_add_cong [OF Cons.prems(1) refl])
    moreover have "(s + a + unat b) mod BASE = (s' + a' + unat b) mod BASE"
      by (rule mod_add_cong [OF mod_add_cong [OF Cons.prems(2,1)] refl])
    ultimately show ?case unfolding adler_sums.simps by (rule Cons.IH)
  qed simp
  from this [of "a mod BASE" "s mod BASE"] show ?thesis by simp
qed

lemma adler_spec_append:
  "adler_spec a s (xs @ ys) = (let (a', s') = adler_spec a s xs in adler_spec a' s' ys)"
  using adler_sums_mod [of "fst (adler_sums a s xs)" "snd (adler_sums a s xs)" ys]
  by (simp add: adler_spec_def adler_sums_append Let_def split_def)

lemma adler_spec_mod: "adler_spec (a mod BASE) (s mod BASE) xs = adler_spec a s xs"
  using adler_sums_mod by (simp add: adler_spec_def)

lemma adler_spec_less: "fst (adler_spec a s xs) < BASE" "snd (adler_spec a s xs) < BASE"
  by (simp_all add: adler_spec_def BASE_def)

text \<open>The bound behind \<open>NMAX\<close>: so many bytes cannot overflow the sums.\<close>

lemma adler_run_block:
  assumes "length xs \<le> NMAX" "a < BASE" "s < BASE"
  shows "adler_run (a, s) xs = adler_sums a s xs"
proof (rule adler_run_exact)
  show 1: "a + 255 * length xs < 2 ^ 32" using assms by (simp add: NMAX_def BASE_def)
  have "length xs * (a + 255 * length xs) \<le> NMAX * (BASE + 255 * NMAX)"
    using assms by (intro mult_le_mono add_mono) simp_all
  then show "s + length xs * (a + 255 * length xs) < 2 ^ 64"
    using assms(3) by (simp add: NMAX_def BASE_def)
qed

lemma adler_blocks_ok:
  assumes "a < BASE" "s < BASE"
  shows "\<exists>a' s' pre rest. adler_blocks (a, s) xs = ((a', s'), rest) \<and> xs = pre @ rest \<and>
    (a', s') = adler_spec a s pre \<and> a' < BASE \<and> s' < BASE \<and> length rest < NMAX"
  using assms
proof (induction "length xs" arbitrary: xs a s rule: less_induct)
  case less
  show ?case
  proof (cases "NMAX \<le> length xs")
    case False
    then have "adler_blocks (a, s) xs = ((a, s), [] @ xs)" by (simp add: adler_blocks.simps)
    then show ?thesis using False less.prems
      by (intro exI [of _ a] exI [of _ s] exI [of _ "[]"] exI [of _ xs]) (simp add: adler_spec_def)
  next
    case True
    obtain a1 s1 where sp: "adler_spec a s (take NMAX xs) = (a1, s1)" by fastforce
    have "a1 < BASE" "s1 < BASE" using adler_spec_less [of a s "take NMAX xs"] sp by simp_all
    moreover have "length (drop NMAX xs) < length xs" using True by (simp add: NMAX_def)
    ultimately obtain a' s' pre rest where ih: "adler_blocks (a1, s1) (drop NMAX xs) = ((a', s'), rest)"
      "drop NMAX xs = pre @ rest" "(a', s') = adler_spec a1 s1 pre" "a' < BASE" "s' < BASE" "length rest < NMAX"
      using less.hyps [of "drop NMAX xs" a1 s1] by blast
    have "adler_blocks (a, s) xs = adler_blocks (a1, s1) (drop NMAX xs)"
      using True sp adler_run_block [of "take NMAX xs" a s] less.prems
      by (subst adler_blocks.simps) (simp add: adler_spec_def split_def)
    moreover have "xs = (take NMAX xs @ pre) @ rest" using ih(2) by (metis append.assoc append_take_drop_id)
    moreover have "(a', s') = adler_spec a s (take NMAX xs @ pre)"
      using ih(3) sp by (simp add: adler_spec_append)
    ultimately show ?thesis using ih(1,4-6) by metis
  qed
qed

lemma ucast_of_nat_u64: "(ucast (word_of_nat n :: u64) :: u32) = word_of_nat n"
  by (rule bit_word_eqI) (auto simp: bit_simps)

lemma adler_join_nat:
  assumes "a < 65536" "s < 65536"
  shows "adler_join a s = word_of_nat (a + 65536 * s)"
proof -
  have ta: "take_bit 16 a = a" using assms(1) by (simp add: take_bit_nat_eq_self)
  have "\<not> bit a n \<or> \<not> bit (push_bit 16 s) n" for n
    using bit_take_bit_iff [of 16 a n] ta by (auto simp: bit_push_bit_iff)
  then have "a + push_bit 16 s = a OR push_bit 16 s" by (rule disjunctive_add)
  then have "a OR push_bit 16 s = a + 65536 * s" by (simp add: push_bit_nat_eq push_bit_eq_mult)
  moreover have "(word_of_nat a OR push_bit 16 (word_of_nat s) :: u64) = word_of_nat (a OR push_bit 16 s)"
    by (simp add: of_nat_or_eq of_nat_push_bit)
  ultimately have "adler_join a s = ucast (word_of_nat (a + 65536 * s) :: u64)"
    by (simp only: adler_join_def)
  then show ?thesis by (simp only: ucast_of_nat_u64)
qed

lemma adler_parts_nat: "adler_lo w = unat w mod 65536" "adler_hi w = unat w div 65536"
proof -
  have m: "(0xFFFF :: u32) = mask 16" by (simp add: mask_eq_exp_minus_1)
  have "unat w < 2 ^ LENGTH(32)" by (rule unsigned_less)
  then have w: "unat w < 2 ^ 32" by simp
  show "adler_lo w = unat w mod 65536"
    unfolding adler_lo_def m take_bit_eq_mask [symmetric] by (simp add: unsigned_take_bit_eq take_bit_nat_def)
  have "adler_hi w = take_bit 16 (unat w div 65536)"
    unfolding adler_hi_def m take_bit_eq_mask [symmetric]
    using w by (simp add: unsigned_take_bit_eq unsigned_drop_bit_eq drop_bit_nat_def take_bit_nat_eq_self)
  moreover have "unat w div 65536 < 2 ^ 16" using w by (simp add: div_less_iff_less_mult)
  ultimately show "adler_hi w = unat w div 65536" by (simp add: take_bit_nat_eq_self)
qed

lemma adler_join_parts:
  assumes "a < 65536" "s < 65536"
  shows "adler_lo (adler_join a s) = a" "adler_hi (adler_join a s) = s"
proof -
  have "a + 65536 * s < 2 ^ 32" using assms by simp
  moreover have "unat (word_of_nat n :: u32) = n" if "n < 2 ^ 32" for n
    using that by (simp add: unsigned_of_nat take_bit_nat_eq_self)
  ultimately have "unat (adler_join a s) = a + 65536 * s"
    unfolding adler_join_nat [OF assms] by blast
  then show "adler_lo (adler_join a s) = a" "adler_hi (adler_join a s) = s"
    using assms by (simp_all add: adler_parts_nat)
qed

definition adler_valid :: "u32 \<Rightarrow> bool" where
  "adler_valid w \<longleftrightarrow> adler_lo w < BASE \<and> adler_hi w < BASE"

lemma adler_join_spec:
  assumes "(a, s) = adler_spec a0 s0 xs"
  shows "adler_lo (adler_join a s) = a" "adler_hi (adler_join a s) = s" "adler_valid (adler_join a s)"
proof -
  have "a < BASE" "s < BASE" using adler_spec_less [of a0 s0 xs] assms by (metis fst_conv snd_conv)+
  then show "adler_lo (adler_join a s) = a" "adler_hi (adler_join a s) = s" "adler_valid (adler_join a s)"
    using adler_join_parts [of a s] by (simp_all add: BASE_def adler_valid_def)
qed

lemma sub_base_mod: "(x :: nat) < 2 * BASE \<Longrightarrow> (if BASE \<le> x then x - BASE else x) = x mod BASE"
  by (simp add: mod_if)

lemma adler32_refines:
  assumes "adler_valid w"
  shows "shcsum_adler32 w (Some xs) (length xs) =
    Inr (let (a, s) = adler_spec (adler_lo w) (adler_hi w) xs in adler_join a s)"
proof -
  let ?a = "adler_lo w" and ?s = "adler_hi w"
  have lim: "?a < BASE" "?s < BASE" using assms by (simp_all add: adler_valid_def)
  consider (one) b where "xs = [b]" | (short) "length xs \<noteq> 1" "length xs < 16" | (long) "16 \<le> length xs"
  proof (cases "length xs = 1")
    case True
    then show thesis using that(1) by (auto simp: length_Suc_conv)
  next
    case False
    then show thesis using that(2,3) by linarith
  qed
  then show ?thesis
  proof cases
    case one
    have b: "unat b \<le> 255" by (rule byte_le)
    let ?a2 = "(?a + unat b) mod BASE"
    have a1: "(?a + unat b) mod 2 ^ 32 = ?a + unat b" and a2: "?a + unat b < 2 * BASE"
      using lim b by (simp_all add: BASE_def)
    have s1: "(?s + ?a2) mod 2 ^ 64 = ?s + ?a2" and s2: "?s + ?a2 < 2 * BASE"
      using lim mod_less_divisor [of BASE "?a + unat b"] by (simp_all add: BASE_def)
    have "(?s + ?a2) mod BASE = (?s + ?a + unat b) mod BASE" by (simp add: mod_simps add.assoc)
    moreover have "length [b] = 1" "mem_get [b] 0 = Inr b" by (simp_all add: mem_get_def)
    then have "shcsum_adler32 w (Some [b]) (length [b]) = Inr (adler_join ?a2 ((?s + ?a2) mod BASE))"
      by (simp only: shcsum_adler32_def Let_def refl if_True option.case run_bind_Inr a1 sub_base_mod [OF a2]
          s1 sub_base_mod [OF s2])
    ultimately show ?thesis unfolding one by (simp add: adler_spec_def)
  next
    case short
    then have run: "adler_run (?a, ?s) xs = adler_sums ?a ?s xs"
      using lim by (intro adler_run_block) (simp_all add: NMAX_def)
    have "fst (adler_sums ?a ?s xs) < 2 * BASE"
      using adler_sums_bound [of ?a ?s xs] short lim by (auto simp: BASE_def)
    note sb = sub_base_mod [OF this]
    show ?thesis using short run sb
      by (auto simp: shcsum_adler32_def Let_def mem_read_def adler_spec_def split_def split: if_splits)
  next
    case long
    obtain a' s' pre rest where bl: "adler_blocks (?a, ?s) xs = ((a', s'), rest)" "xs = pre @ rest"
      "(a', s') = adler_spec ?a ?s pre" "a' < BASE" "s' < BASE" "length rest < NMAX"
      using adler_blocks_ok [OF lim] by blast
    have run: "adler_run (a', s') rest = adler_sums a' s' rest"
      using bl(4-6) by (intro adler_run_block) simp_all
    have "adler_spec ?a ?s xs = adler_spec a' s' rest"
      unfolding bl(2) adler_spec_append bl(3) [symmetric] by simp
    moreover have "adler_spec a' s' [] = (a', s')" using bl(4,5) by (simp add: adler_spec_def)
    ultimately show ?thesis using long bl(1) run
      by (auto simp: shcsum_adler32_def Let_def mem_read_def adler_spec_def split_def)
  qed
qed

text \<open>C35: The block-wise \<open>shcsum_adler32\<close> with its deferred reductions and its fast paths computes
  the Adler-32 checksum as it is defined (the sum of the bytes and the sum of the partial sums
  modulo 65521) and can be continued: summing in two pieces gives the sum of the whole.\<close>

theorem shcsum_adler32_spec:
  assumes "adler_valid w"
  shows "shcsum_adler32 w (Some xs) (length xs) =
      Inr (let (a, s) = adler_spec (adler_lo w) (adler_hi w) xs in adler_join a s) \<and>
    run_bind (shcsum_adler32 w (Some xs) (length xs)) (\<lambda>v. shcsum_adler32 v (Some ys) (length ys)) =
      shcsum_adler32 w (Some (xs @ ys)) (length (xs @ ys))"
proof
  show "shcsum_adler32 w (Some xs) (length xs) =
      Inr (let (a, s) = adler_spec (adler_lo w) (adler_hi w) xs in adler_join a s)"
    by (rule adler32_refines [OF assms])
  obtain a s where sp: "adler_spec (adler_lo w) (adler_hi w) xs = (a, s)" by fastforce
  note j = adler_join_spec [OF sp [symmetric]]
  show "run_bind (shcsum_adler32 w (Some xs) (length xs)) (\<lambda>v. shcsum_adler32 v (Some ys) (length ys)) =
      shcsum_adler32 w (Some (xs @ ys)) (length (xs @ ys))"
    unfolding adler32_refines [OF assms] sp Let_def case_prod_conv run_bind_Inr adler32_refines [OF j(3)] j(1,2)
    by (simp add: adler_spec_append sp)
qed

text \<open>The bytes of the string \<open>Wikipedia\<close>.\<close>

theorem shcsum_adler32_spec_witness:
  "shcsum_adler32 1 (Some [87, 105, 107, 105, 112, 101, 100, 105, 97]) 9 = Inr 0x11E60398"
proof -
  have "adler_valid 1" by (simp add: adler_valid_def adler_parts_nat BASE_def)
  note spec = conjunct1 [OF shcsum_adler32_spec [OF this, of "[87, 105, 107, 105, 112, 101, 100, 105, 97]" "[]"]]
  have "length [87, 105, 107, 105, 112, 101, 100, 105, 97 :: byte] = 9" by simp
  from spec [unfolded this] show ?thesis by (simp add: adler_spec_def adler_parts_nat BASE_def adler_join_nat)
qed

subsection \<open>Combining two sums\<close>

lemma adler_sums_shift:
  "fst (adler_sums a s ys) + 1 = a + fst (adler_sums 1 0 ys) \<and>
   snd (adler_sums a s ys) + length ys = s + length ys * a + snd (adler_sums 1 0 ys)"
proof -
  have "fst (adler_sums (a + c) (s + d) ys) = a + fst (adler_sums c d ys) \<and>
    snd (adler_sums (a + c) (s + d) ys) = s + length ys * a + snd (adler_sums c d ys)" for a s c d
  proof (induction ys arbitrary: a s c d)
    case (Cons b bs)
    have "adler_sums (a + c + unat b) (s + d + (a + c) + unat b) bs =
        adler_sums (a + (c + unat b)) ((s + a) + (d + c + unat b)) bs" by (simp add: ac_simps)
    then show ?case using Cons [of a "c + unat b" "s + a" "d + c + unat b"] by (simp add: algebra_simps)
  qed simp
  from this [of a 0 s 0] this [of 1 0 0 0] show ?thesis by simp
qed

lemma mod_eq_by: "(x :: nat) + m * i = y + m * j \<Longrightarrow> x mod m = y mod m"
  by (metis mod_mult_self2)

lemma sub_twice_mod: "(x :: nat) < 3 * BASE \<Longrightarrow>
    (let y = (if BASE \<le> x then x - BASE else x) in if BASE \<le> y then y - BASE else y) = x mod BASE"
  by (auto simp: Let_def BASE_def mod_if)

lemma sub_double_mod: "(x :: nat) < 4 * BASE \<Longrightarrow>
    (let y = (if 2 * BASE \<le> x then x - 2 * BASE else x) in if BASE \<le> y then y - BASE else y) = x mod BASE"
  by (auto simp: Let_def BASE_def mod_if)

text \<open>The checksum of a concatenation can be computed from the checksums of its two parts and
  the length of the second.\<close>

theorem shcsum_adler32_combine_ok:
  assumes "shcsum_adler32 1 (Some xs) (length xs) = Inr v1" "shcsum_adler32 1 (Some ys) (length ys) = Inr v2"
  shows "shcsum_adler32 1 (Some (xs @ ys)) (length (xs @ ys)) = Inr (shcsum_adler32_combine v1 v2 (length ys))"
proof -
  have one: "adler_valid 1" "adler_lo 1 = 1" "adler_hi 1 = 0" by (simp_all add: adler_valid_def adler_parts_nat BASE_def)
  obtain a1 s1 where p1: "(a1, s1) = adler_spec 1 0 xs" by (metis prod.collapse)
  obtain a2 s2 where p2: "(a2, s2) = adler_spec 1 0 ys" by (metis prod.collapse)
  have v: "v1 = adler_join a1 s1" "v2 = adler_join a2 s2"
    using assms adler32_refines [OF one(1)] p1 p2 by (metis (no_types, lifting) case_prod_conv one(2,3) sum.inject(2))+
  note j1 = adler_join_spec [OF p1] and j2 = adler_join_spec [OF p2]
  have lim: "a1 < BASE" "s1 < BASE" "a2 < BASE" "s2 < BASE"
    using adler_spec_less [of 1 0 xs] adler_spec_less [of 1 0 ys] p1 p2 by (metis fst_conv snd_conv)+
  let ?n = "length ys" and ?r = "length ys mod BASE" and ?S = "adler_sums a1 s1 ys" and ?T = "adler_sums 1 0 ys"
  let ?q = "(?r * a1) mod BASE"
  have r: "?r < BASE" "?q < BASE" by (simp_all add: BASE_def)
  let ?x = "a1 + a2 + BASE - 1" and ?y = "?q + s1 + s2 + BASE - ?r"
  have a2: "a2 = fst ?T mod BASE" and s2: "s2 = snd ?T mod BASE" using p2 by (simp_all add: adler_spec_def)
  have "fst ?S + BASE * 1 = ?x + BASE * (fst ?T div BASE)"
    using adler_sums_shift [of a1 s1 ys] mult_div_mod_eq [of BASE "fst ?T"] r unfolding a2 by linarith
  then have f: "fst ?S mod BASE = ?x mod BASE" by (rule mod_eq_by)
  have n: "?n * a1 = ?r * a1 + BASE * (?n div BASE * a1)"
    by (metis add.commute distrib_right mult.assoc mult_div_mod_eq)
  have "snd ?S + BASE * (?n div BASE + 1) =
      ?y + BASE * (?r * a1 div BASE + ?n div BASE * a1 + snd ?T div BASE)"
    using adler_sums_shift [of a1 s1 ys] n mult_div_mod_eq [of BASE ?n] mult_div_mod_eq [of BASE "?r * a1"]
      mult_div_mod_eq [of BASE "snd ?T"] r unfolding s2 distrib_left by linarith
  then have g: "snd ?S mod BASE = ?y mod BASE" by (rule mod_eq_by)
  have "?x < 3 * BASE" "?y < 4 * BASE" using lim r by linarith+
  then have "shcsum_adler32_combine v1 v2 ?n = adler_join (?x mod BASE) (?y mod BASE)"
    using sub_twice_mod [of ?x] sub_double_mod [of ?y]
    by (simp only: shcsum_adler32_combine_def v j1 j2 Let_def)
  moreover have "adler_spec 1 0 (xs @ ys) = (?x mod BASE, ?y mod BASE)"
    unfolding adler_spec_append p1 [symmetric] using f g by (simp add: adler_spec_def)
  ultimately show ?thesis using adler32_refines [OF one(1), of "xs @ ys"] one by simp
qed

theorem shcsum_adler32_combine_ok_witness:
  "shcsum_adler32 1 (Some ([87, 105, 107] @ [105, 112, 101])) (length ([87, 105, 107] @ [105, 112, 101 :: byte])) =
     Inr (shcsum_adler32_combine 0x245012c 0x283013f 3)"
proof -
  have "adler_valid 1" by (simp add: adler_valid_def adler_parts_nat BASE_def)
  note spec = adler32_refines [OF this]
  have "shcsum_adler32 1 (Some [87, 105, 107]) (length [87, 105, 107 :: byte]) = Inr 0x245012c"
    "shcsum_adler32 1 (Some [105, 112, 101]) (length [105, 112, 101 :: byte]) = Inr 0x283013f"
    unfolding spec by (simp_all add: adler_spec_def adler_parts_nat BASE_def adler_join_nat)
  from shcsum_adler32_combine_ok [OF this] show ?thesis by (simp add: numeral_3_eq_3)
qed

end
