(* ===== verification/Share_Sha_Constants.thy ===== *)
theory Share_Sha_Constants
  imports Share_Sha
begin

text \<open>
  The tables of \<^verbatim>\<open>share-lib/mem/shmem_alg_sha.c\<close> against their definition in FIPS 180: the
  round constants are the first bits of the fractional parts of the cube roots of the first
  primes, the initial hash values those of their square roots, and the constants of SHA-1 the
  square roots of 2, 3, 5 and 10 in units of \<open>2^-30\<close>.
\<close>

definition first_primes :: "nat list" where
  "first_primes = [2, 3, 5, 7, 11, 13, 17, 19, 23, 29, 31, 37, 41, 43, 47, 53, 59, 61, 67, 71, 73, 79, 83, 89, 97,
     101, 103, 107, 109, 113, 127, 131, 137, 139, 149, 151, 157, 163, 167, 173, 179, 181, 191, 193, 197, 199, 211,
     223, 227, 229, 233, 239, 241, 251, 257, 263, 269, 271, 277, 281, 283, 293, 307, 311, 313, 317, 331, 337, 347,
     349, 353, 359, 367, 373, 379, 383, 389, 397, 401, 409]"

definition cbrt_frac :: "nat \<Rightarrow> nat \<Rightarrow> nat \<Rightarrow> bool" where
  "cbrt_frac w p k \<longleftrightarrow> k < 2 ^ w \<and>
     (\<exists>a. (a * 2 ^ w + k) ^ 3 \<le> p * 2 ^ (3 * w) \<and> p * 2 ^ (3 * w) < (a * 2 ^ w + k + 1) ^ 3)"

definition icbrt :: "nat \<Rightarrow> nat" where
  "icbrt p = (if p < 8 then 1 else if p < 27 then 2 else if p < 64 then 3 else if p < 125 then 4
     else if p < 216 then 5 else if p < 343 then 6 else 7)"

definition sqrt_frac :: "nat \<Rightarrow> nat \<Rightarrow> nat \<Rightarrow> bool" where
  "sqrt_frac w p k \<longleftrightarrow> k < 2 ^ w \<and>
     (\<exists>a. (a * 2 ^ w + k) ^ 2 \<le> p * 2 ^ (2 * w) \<and> p * 2 ^ (2 * w) < (a * 2 ^ w + k + 1) ^ 2)"

definition isqrt :: "nat \<Rightarrow> nat" where
  "isqrt p = (if p < 4 then 1 else if p < 9 then 2 else if p < 16 then 3 else if p < 25 then 4
     else if p < 36 then 5 else if p < 49 then 6 else 7)"

lemma cbrt_fracI: "k < 2 ^ w \<and> (icbrt p * 2 ^ w + k) ^ 3 \<le> p * 2 ^ (3 * w) \<and>
    p * 2 ^ (3 * w) < (icbrt p * 2 ^ w + k + 1) ^ 3 \<Longrightarrow> cbrt_frac w p k"
  by (auto simp: cbrt_frac_def)

lemma sqrt_fracI: "k < 2 ^ w \<and> (isqrt p * 2 ^ w + k) ^ 2 \<le> p * 2 ^ (2 * w) \<and>
    p * 2 ^ (2 * w) < (isqrt p * 2 ^ w + k + 1) ^ 2 \<Longrightarrow> sqrt_frac w p k"
  by (auto simp: sqrt_frac_def)

lemma SHA256_K_cbrt: "list_all2 (\<lambda>p k. cbrt_frac 32 p (unat k)) (take 64 first_primes) SHA256_K"
  by (rule list.rel_mono_strong [where R = "\<lambda>p k. unat k < 2 ^ 32 \<and> (icbrt p * 2 ^ 32 + unat k) ^ 3 \<le> p * 2 ^ (3 * 32) \<and>
    p * 2 ^ (3 * 32) < (icbrt p * 2 ^ 32 + unat k + 1) ^ 3", OF _ cbrt_fracI]) (simp_all add: first_primes_def SHA256_K_def icbrt_def)

lemma SHA512_K_cbrt: "list_all2 (\<lambda>p k. cbrt_frac 64 p (unat k)) first_primes SHA512_K" 
  by (rule list.rel_mono_strong [where R = "\<lambda>p k. unat k < 2 ^ 64 \<and> (icbrt p * 2 ^ 64 + unat k) ^ 3 \<le> p * 2 ^ (3 * 64) \<and>
    p * 2 ^ (3 * 64) < (icbrt p * 2 ^ 64 + unat k + 1) ^ 3", OF _ cbrt_fracI]) (simp_all add: first_primes_def SHA512_K_def icbrt_def)

lemma SHA_H0_sqrt:
  "list_all2 (\<lambda>p k. sqrt_frac 32 p (unat k)) (take 8 first_primes) SHA256_H0"
  "list_all2 (\<lambda>p k. sqrt_frac 64 p (unat k)) (take 8 first_primes) SHA512_H0"
  "list_all2 (\<lambda>p k. sqrt_frac 64 p (unat k)) (take 8 (drop 8 first_primes)) SHA384_H0"
  by (simp_all add: first_primes_def SHA256_H0_def SHA512_H0_def SHA384_H0_def sqrt_fracI isqrt_def)

lemma SHA1_H0_bytes:
  "concat (map (\<lambda>w. map (\<lambda>i. unat w div 256 ^ i mod 256) [0..<4]) SHA1_H0) =
     map (\<lambda>i. 16 * (2 * i) + (2 * i + 1)) [0..<8] @ map (\<lambda>i. 16 * (15 - 2 * i) + (14 - 2 * i)) [0..<8] @
     map (\<lambda>i. 16 * (15 - i) + i) [0..<4]"
  by (simp add: SHA1_H0_def upt_rec)

text \<open>C29: Every entry of the tables of round constants and of initial hash values is the one FIPS 180
  derives: fractional parts of cube roots and of square roots of the first primes, for SHA-224
  the second halves of the values of SHA-384, and for SHA-1 the scaled square roots; the initial value
  of SHA-1 is, byte by byte from the low end of each word, the digits 0 to F counted up, then down, and
  then the four pairs F0 E1 D2 C3.\<close>

theorem sha_tables_fips:
  "list_all2 (\<lambda>p k. cbrt_frac 32 p (unat k)) (take 64 first_primes) SHA256_K \<and>
   list_all2 (\<lambda>p k. cbrt_frac 64 p (unat k)) first_primes SHA512_K \<and>
   list_all2 (\<lambda>p k. sqrt_frac 32 p (unat k)) (take 8 first_primes) SHA256_H0 \<and>
   list_all2 (\<lambda>p k. sqrt_frac 64 p (unat k)) (take 8 first_primes) SHA512_H0 \<and>
   list_all2 (\<lambda>p k. sqrt_frac 64 p (unat k)) (take 8 (drop 8 first_primes)) SHA384_H0 \<and>
   SHA224_H0 = map ucast SHA384_H0 \<and>
   list_all2 (\<lambda>p k. unat k ^ 2 \<le> p * 2 ^ 60 \<and> p * 2 ^ 60 < (unat k + 1) ^ 2) [2, 3, 5, 10] SHA1_K \<and>
   concat (map (\<lambda>w. map (\<lambda>i. unat w div 256 ^ i mod 256) [0..<4]) SHA1_H0) =
     map (\<lambda>i. 16 * (2 * i) + (2 * i + 1)) [0..<8] @ map (\<lambda>i. 16 * (15 - 2 * i) + (14 - 2 * i)) [0..<8] @
     map (\<lambda>i. 16 * (15 - i) + i) [0..<4]"
  using SHA256_K_cbrt SHA512_K_cbrt SHA_H0_sqrt SHA1_H0_bytes
  by (simp only: simp_thms) (simp add: SHA384_H0_def SHA224_H0_def SHA1_K_def)

end
