(* ===== verification/Share_Hmac.thy ===== *)
theory Share_Hmac
  imports Share_Sha_Fips
begin

text \<open>
  Keyed hashing of \<^verbatim>\<open>share-lib/mem/shmem_alg_sha.c\<close>: the HMAC context (\<^verbatim>\<open>sh_hmac_t\<close>) with
  \<open>shhmac_init\<close>, \<open>shhmac_write\<close>, \<open>shhmac_result\<close> and \<open>shhmac\<close>, and the key derivation \<open>shhkdf\<close> on top of
  it.  The reference definitions are RFC 2104 and RFC 5869 over any hash function; the
  functions are proved to compute them over FIPS 180.  Lengths are C \<open>int\<close>s, which become a
  \<open>size_t\<close> and then an \<open>unsigned int\<close> on their way to the hash functions.
\<close>

section \<open>State\<close>

record sh_hmac =
  hm_alg :: int
  hm_hashSize :: nat
  hm_blockSize :: nat
  hm_sha :: "sh_sha ptr"
  hm_opad :: "byte list"
  hm_computed :: bool
  hm_corrupted :: int

text \<open>The operator \<open>||\<close> on calls that return an error code: the first failure ends the chain and
  the value is 1, not the code.  The state of a chain is the hash context and the digest buffer.\<close>

type_synonym sha_chain = "sh_sha ptr \<times> byte list"

definition c_or :: "fault + (int \<times> 's) \<Rightarrow> ('s \<Rightarrow> fault + (int \<times> 's)) \<Rightarrow> fault + (int \<times> 's)" where
  "c_or m f = run_bind m (\<lambda>(e, s).
     if e \<noteq> 0 then Inr (1, s) else run_bind (f s) (\<lambda>(e', s'). Inr (if e' \<noteq> 0 then 1 else 0, s')))"

definition do_init :: "(nat \<Rightarrow> byte) \<Rightarrow> int \<Rightarrow> sha_chain \<Rightarrow> fault + (int \<times> sha_chain)" where
  "do_init junk alg = (\<lambda>(s, d). let (e, s') = shsha_init junk s alg in Inr (e, s', d))"

definition do_write :: "byte list ptr \<Rightarrow> nat \<Rightarrow> sha_chain \<Rightarrow> fault + (int \<times> sha_chain)" where
  "do_write m len = (\<lambda>(s, d). run_bind (shsha_write s m len) (\<lambda>(e, s'). Inr (e, s', d)))"

definition do_write_digest :: "nat \<Rightarrow> sha_chain \<Rightarrow> fault + (int \<times> sha_chain)" where
  "do_write_digest len = (\<lambda>(s, d). do_write (Some d) len (s, d))"

definition do_result :: "sha_chain \<Rightarrow> fault + (int \<times> sha_chain)" where
  "do_result = (\<lambda>(s, d). run_bind (shsha_result s True) (\<lambda>(e, d', s'). Inr (e, s', if e = 0 then d' else d)))"

section \<open>HMAC\<close>

text \<open>The key of the pads: a key longer than a block is replaced by its digest.\<close>

definition hmac_key ::
    "(nat \<Rightarrow> byte) \<Rightarrow> int \<Rightarrow> byte list ptr \<Rightarrow> int \<Rightarrow> fault + (int \<times> byte list ptr \<times> int)" where
  "hmac_key junk alg key key_len =
     (if int (shsha_blocksize alg) < key_len
      then run_bind (c_or (c_or (do_init junk alg (Some sha_any, [])) (do_write key (size_of_int key_len))) do_result)
             (\<lambda>(err, s, tempkey). Inr (err, Some tempkey, int (shsha_size alg)))
      else Inr (0, key, key_len))"

text \<open>The two loops that fill a pad with the byte \<open>x\<close>.\<close>

definition hmac_pad :: "byte \<Rightarrow> nat \<Rightarrow> byte list ptr \<Rightarrow> int \<Rightarrow> fault + byte list" where
  "hmac_pad x blocksize key key_len =
     (let n = nat key_len in
      if n = 0 then Inr (replicate blocksize x)
      else (case key of None \<Rightarrow> Inl NullDeref
        | Some k \<Rightarrow> run_bind (mem_read k 0 n) (\<lambda>ks.
            Inr (map (\<lambda>b. b XOR x) ks @ replicate (blocksize - n) x))))"

definition shhmac_init ::
    "(nat \<Rightarrow> byte) \<Rightarrow> sh_hmac ptr \<Rightarrow> int \<Rightarrow> byte list ptr \<Rightarrow> int \<Rightarrow> fault + (int \<times> sh_hmac ptr)" where
  "shhmac_init junk context alg key key_len =
     (case context of None \<Rightarrow> Inr (SHERR_INVAL, None)
      | Some _ \<Rightarrow>
        (let blocksize = shsha_blocksize alg;
             c0 = \<lparr>hm_alg = alg, hm_hashSize = shsha_size alg, hm_blockSize = blocksize, hm_sha = Some sha_any,
                   hm_opad = replicate 128 0, hm_computed = False, hm_corrupted = 0\<rparr> in
         run_bind (hmac_key junk alg key key_len) (\<lambda>(err, k, n).
           if err \<noteq> 0 then Inr (err, Some c0)
           else run_bind (hmac_pad 0x36 blocksize k n) (\<lambda>ipad.
                run_bind (hmac_pad 0x5c blocksize k n) (\<lambda>opad.
                let c1 = c0\<lparr>hm_opad := opad @ drop blocksize (hm_opad c0)\<rparr>;
                    (ret, s) = shsha_init junk (hm_sha c1) alg in
                if ret \<noteq> 0 then Inr (ret, Some (c1\<lparr>hm_sha := s, hm_corrupted := ret\<rparr>))
                else run_bind (shsha_write s (Some ipad) blocksize) (\<lambda>(ret, s).
                  if ret \<noteq> 0 then Inr (ret, Some (c1\<lparr>hm_sha := s, hm_corrupted := ret\<rparr>))
                  else Inr (0, Some (c1\<lparr>hm_sha := s\<rparr>))))))))"

definition shhmac_write :: "sh_hmac ptr \<Rightarrow> byte list ptr \<Rightarrow> int \<Rightarrow> fault + (int \<times> sh_hmac ptr)" where
  "shhmac_write context txt text_len =
     (case context of None \<Rightarrow> Inr (SHERR_INVAL, None)
      | Some c \<Rightarrow>
         if hm_corrupted c \<noteq> 0 then Inr (hm_corrupted c, Some c)
         else if hm_computed c then Inr (SHERR_INVAL, Some (c\<lparr>hm_corrupted := SHERR_INVAL\<rparr>))
         else run_bind (shsha_write (hm_sha c) txt (size_of_int text_len)) (\<lambda>(e, s).
           Inr (e, Some (c\<lparr>hm_sha := s, hm_corrupted := e\<rparr>))))"

definition shhmac_result :: "(nat \<Rightarrow> byte) \<Rightarrow> sh_hmac ptr \<Rightarrow> fault + (int \<times> byte list \<times> sh_hmac ptr)" where
  "shhmac_result junk context =
     (case context of None \<Rightarrow> Inr (SHERR_INVAL, [], None)
      | Some c \<Rightarrow>
         if hm_corrupted c \<noteq> 0 then Inr (hm_corrupted c, [], Some c)
         else if hm_computed c then Inr (SHERR_INVAL, [], Some (c\<lparr>hm_corrupted := SHERR_INVAL\<rparr>))
         else run_bind
           (c_or (c_or (c_or (c_or (do_result (hm_sha c, [])) (do_init junk (hm_alg c)))
              (do_write (Some (hm_opad c)) (hm_blockSize c))) (do_write_digest (hm_hashSize c))) do_result)
           (\<lambda>(ret, s, d). Inr (ret, d, Some (c\<lparr>hm_sha := s, hm_computed := True, hm_corrupted := ret\<rparr>))))"

definition hmac_any :: sh_hmac where
  "hmac_any = \<lparr>hm_alg = 0, hm_hashSize = 0, hm_blockSize = 0, hm_sha = Some sha_any, hm_opad = [],
     hm_computed = False, hm_corrupted = 0\<rparr>"

definition shhmac ::
    "(nat \<Rightarrow> byte) \<Rightarrow> int \<Rightarrow> byte list ptr \<Rightarrow> nat \<Rightarrow> byte list ptr \<Rightarrow> int \<Rightarrow> fault + (int \<times> byte list)" where
  "shhmac junk alg key key_len message_array len =
     run_bind (shhmac_init junk (Some hmac_any) alg key (int_of_size key_len)) (\<lambda>(err, c).
       if err \<noteq> 0 then Inr (err, [])
       else run_bind (shhmac_write c message_array len) (\<lambda>(err, c).
         if err \<noteq> 0 then Inr (err, [])
         else run_bind (shhmac_result junk c) (\<lambda>(err, d, c).
           if err \<noteq> 0 then Inr (err, d) else Inr (0, d))))"

section \<open>HKDF\<close>

text \<open>A missing salt is replaced by zeros of the digest's size.\<close>

definition hkdf_salt :: "int \<Rightarrow> byte list ptr \<Rightarrow> int \<Rightarrow> byte list ptr \<times> int" where
  "hkdf_salt alg salt salt_len =
     (case salt of None \<Rightarrow> (Some (replicate (shsha_size alg) 0), int (shsha_size alg)) | Some _ \<Rightarrow> (salt, salt_len))"

definition shhkdf_extract ::
    "(nat \<Rightarrow> byte) \<Rightarrow> int \<Rightarrow> byte list ptr \<Rightarrow> int \<Rightarrow> byte list ptr \<Rightarrow> int \<Rightarrow> fault + (int \<times> byte list)" where
  "shhkdf_extract junk alg salt salt_len ikm ikm_len =
     (if salt \<noteq> None \<and> salt_len < 0 then Inr (SHERR_INVAL, [])
      else (let (s, n) = hkdf_salt alg salt salt_len
            in shhmac junk alg ikm (size_of_int ikm_len) s n))"

text \<open>The loop of the expansion: \<open>i\<close> is the counter, \<open>T\<close> the previous block, \<open>okm\<close> what has been
  written so far.\<close>

definition expand_step ::
    "(nat \<Rightarrow> byte) \<Rightarrow> int \<Rightarrow> byte list ptr \<Rightarrow> int \<Rightarrow> byte list ptr \<Rightarrow> int \<Rightarrow> byte list \<Rightarrow> int \<Rightarrow> nat \<Rightarrow> fault + (int \<times> byte list)" where
  "expand_step junk alg prk prk_len info info_len T Tlen i =
     run_bind (c_or (c_or (c_or (c_or
         (run_bind (shhmac_init junk (Some hmac_any) alg prk prk_len) (\<lambda>(e, c). Inr (e, c, T)))
         (\<lambda>(c, d). run_bind (shhmac_write c (Some T) Tlen) (\<lambda>(e, c). Inr (e, c, d))))
         (\<lambda>(c, d). run_bind (shhmac_write c info info_len) (\<lambda>(e, c). Inr (e, c, d))))
         (\<lambda>(c, d). run_bind (shhmac_write c (Some [word_of_nat i]) 1) (\<lambda>(e, c). Inr (e, c, d))))
         (\<lambda>(c, d). run_bind (shhmac_result junk c) (\<lambda>(e, d', c). Inr (e, c, if e = 0 then d' else d))))
       (\<lambda>(ret, c, d). Inr (ret, d))"

function expand_loop ::
    "(nat \<Rightarrow> byte) \<Rightarrow> int \<Rightarrow> byte list ptr \<Rightarrow> int \<Rightarrow> byte list ptr \<Rightarrow> int \<Rightarrow> nat \<Rightarrow> nat \<Rightarrow> nat \<Rightarrow> byte list \<Rightarrow> int \<Rightarrow> byte list \<Rightarrow>
      fault + (int \<times> byte list)" where
  "expand_loop junk alg prk prk_len info info_len N okm_len i T Tlen okm =
     (if i \<le> N then
        run_bind (expand_step junk alg prk prk_len info info_len T Tlen i) (\<lambda>(ret, T').
          if ret \<noteq> 0 then Inr (ret, okm)
          else run_bind (mem_read T' 0 (if i \<noteq> N then shsha_size alg else okm_len - length okm)) (\<lambda>bs.
            expand_loop junk alg prk prk_len info info_len N okm_len (i + 1) T' (int (shsha_size alg)) (okm @ bs)))
      else Inr (0, okm))"
  by pat_completeness auto
termination
  by (relation "measure (\<lambda>(junk, alg, prk, prk_len, info, info_len, N, okm_len, i, T, Tlen, okm). Suc N - i)") auto

declare expand_loop.simps [simp del]

definition shhkdf_expand ::
    "(nat \<Rightarrow> byte) \<Rightarrow> int \<Rightarrow> byte list ptr \<Rightarrow> int \<Rightarrow> byte list ptr \<Rightarrow> int \<Rightarrow> bool \<Rightarrow> int \<Rightarrow> fault + (int \<times> byte list)" where
  "shhkdf_expand junk alg prk prk_len info info_len okm okm_len =
     (if info \<noteq> None \<and> info_len < 0 then Inr (SHERR_INVAL, [])
      else if okm_len \<le> 0 then Inr (SHERR_INVAL, [])
      else if \<not> okm then Inr (SHERR_INVAL, [])
      else if prk_len < int (shsha_size alg) then Inr (SHERR_INVAL, [])
      else if shsha_size alg = 0 then Inl Undefined
      else (let (info', info_len') = (case info of None \<Rightarrow> (Some [0], 0) | Some _ \<Rightarrow> (info, info_len));
                n = nat okm_len;
                N = n div shsha_size alg + (if n mod shsha_size alg \<noteq> 0 then 1 else 0) in
            if 255 < N then Inr (SHERR_INVAL, [])
            else expand_loop junk alg prk prk_len info' info_len' N n 1 [] 0 []))"

definition shhkdf ::
    "(nat \<Rightarrow> byte) \<Rightarrow> int \<Rightarrow> byte list ptr \<Rightarrow> int \<Rightarrow> byte list ptr \<Rightarrow> int \<Rightarrow> byte list ptr \<Rightarrow> int \<Rightarrow> bool \<Rightarrow> int \<Rightarrow>
      fault + (int \<times> byte list)" where
  "shhkdf junk alg salt salt_len ikm ikm_len info info_len okm okm_len =
     c_or (shhkdf_extract junk alg salt salt_len ikm ikm_len)
       (\<lambda>prk. shhkdf_expand junk alg (Some prk) (int (shsha_size alg)) info info_len okm okm_len)"

record sh_hkdf =
  hk_alg :: int
  hk_hmac :: "sh_hmac ptr"
  hk_hashSize :: nat
  hk_computed :: bool
  hk_corrupted :: int

text \<open>\<open>shhkdf_init\<close> does not set the two flags of its context.\<close>

definition shhkdf_init ::
    "(nat \<Rightarrow> byte) \<Rightarrow> sh_hkdf ptr \<Rightarrow> int \<Rightarrow> byte list ptr \<Rightarrow> int \<Rightarrow> fault + (int \<times> sh_hkdf ptr)" where
  "shhkdf_init junk context alg salt salt_len =
     (case context of None \<Rightarrow> Inr (SHERR_INVAL, None)
      | Some c \<Rightarrow> (let (s, n) = hkdf_salt alg salt salt_len in
          run_bind (shhmac_init junk (Some hmac_any) alg s n) (\<lambda>(e, h).
            Inr (e, Some (c\<lparr>hk_alg := alg, hk_hashSize := shsha_size alg, hk_hmac := h\<rparr>)))))"

definition shhkdf_write :: "sh_hkdf ptr \<Rightarrow> byte list ptr \<Rightarrow> int \<Rightarrow> fault + (int \<times> sh_hkdf ptr)" where
  "shhkdf_write context ikm ikm_len =
     (case context of None \<Rightarrow> Inr (SHERR_INVAL, None)
      | Some c \<Rightarrow>
         if hk_corrupted c \<noteq> 0 then Inr (hk_corrupted c, Some c)
         else if hk_computed c then Inr (SHERR_INVAL, Some (c\<lparr>hk_corrupted := SHERR_INVAL\<rparr>))
         else run_bind (shhmac_write (hk_hmac c) ikm ikm_len) (\<lambda>(e, h). Inr (e, Some (c\<lparr>hk_hmac := h\<rparr>))))"

definition shhkdf_result ::
    "(nat \<Rightarrow> byte) \<Rightarrow> sh_hkdf ptr \<Rightarrow> byte list ptr \<Rightarrow> int \<Rightarrow> bool \<Rightarrow> int \<Rightarrow> fault + (int \<times> byte list \<times> sh_hkdf ptr)" where
  "shhkdf_result junk context info info_len okm okm_len =
     (case context of None \<Rightarrow> Inr (SHERR_INVAL, [], None)
      | Some c \<Rightarrow>
         if hk_corrupted c \<noteq> 0 then Inr (hk_corrupted c, [], Some c)
         else if hk_computed c then Inr (SHERR_INVAL, [], Some (c\<lparr>hk_corrupted := SHERR_INVAL\<rparr>))
         else if \<not> okm then Inr (SHERR_INVAL, [], Some (c\<lparr>hk_corrupted := SHERR_INVAL\<rparr>))
         else run_bind (c_or
             (run_bind (shhmac_result junk (hk_hmac c)) (\<lambda>(e, prk, h). Inr (e, prk, h)))
             (\<lambda>(prk, h). run_bind (shhkdf_expand junk (hk_alg c) (Some prk) (int (hk_hashSize c)) info info_len okm okm_len)
                (\<lambda>(e, d). Inr (e, d, h))))
           (\<lambda>(ret, d, h). Inr (ret, d, Some (c\<lparr>hk_hmac := h, hk_computed := True, hk_corrupted := ret\<rparr>))))"

section \<open>The standards\<close>

definition hmac_k0 :: "(byte list \<Rightarrow> byte list) \<Rightarrow> nat \<Rightarrow> byte list \<Rightarrow> byte list" where
  "hmac_k0 H B key =
     (let k = (if B < length key then H key else key) in k @ replicate (B - length k) 0)"

definition rfc2104 :: "(byte list \<Rightarrow> byte list) \<Rightarrow> nat \<Rightarrow> byte list \<Rightarrow> byte list \<Rightarrow> byte list" where
  "rfc2104 H B key txt =
     H (map (\<lambda>b. b XOR 0x5c) (hmac_k0 H B key) @ H (map (\<lambda>b. b XOR 0x36) (hmac_k0 H B key) @ txt))"

text \<open>RFC 5869: \<open>T(0)\<close> is empty, \<open>T(i)\<close> is the MAC of \<open>T(i-1)\<close>, the info string and the byte \<open>i\<close>; the
  output keying material is the beginning of \<open>T(1) T(2) \<dots>\<close>.\<close>

fun rfc5869_T :: "(byte list \<Rightarrow> byte list \<Rightarrow> byte list) \<Rightarrow> byte list \<Rightarrow> byte list \<Rightarrow> nat \<Rightarrow> byte list" where
  "rfc5869_T mac prk info 0 = []"
| "rfc5869_T mac prk info (Suc i) = mac prk (rfc5869_T mac prk info i @ info @ [word_of_nat (Suc i)])"

definition rfc5869_expand :: "(byte list \<Rightarrow> byte list \<Rightarrow> byte list) \<Rightarrow> byte list \<Rightarrow> byte list \<Rightarrow> nat \<Rightarrow> byte list" where
  "rfc5869_expand mac prk info len = take len (concat (map (rfc5869_T mac prk info) [1..<Suc len]))"

abbreviation mac_of :: "int \<Rightarrow> byte list \<Rightarrow> byte list \<Rightarrow> byte list" where
  "mac_of alg \<equiv> rfc2104 (fips180 alg) (shsha_blocksize alg)"

section \<open>HMAC computes RFC 2104\<close>

lemma c_or_ok: "m = Inr (0, s) \<Longrightarrow> f s = Inr (0, s') \<Longrightarrow> c_or m f = Inr (0, s')"
  by (simp add: c_or_def)

lemma shalgs_sizes:
  assumes "alg \<in> shalgs"
  shows "length (fips180 alg msg) = shsha_size alg" "shsha_size alg \<le> shsha_blocksize alg"
    "shsha_blocksize alg \<le> 128" "0 < shsha_size alg" "shsha_size alg \<le> 64"
proof -
  have len: "length (fips_digest n len hs) = len" if "len \<le> n * length hs" for n len and hs :: "'w::len word list"
    using that length_concat_chunks [of hs "\<lambda>w. be_nat n (unat w)" n] by (simp add: fips_digest_def)
  show "length (fips180 alg msg) = shsha_size alg" "shsha_size alg \<le> shsha_blocksize alg"
    "shsha_blocksize alg \<le> 128" "0 < shsha_size alg" "shsha_size alg \<le> 64"
    using assms unfolding shalgs_def
    by (auto simp: const_simps shsha_size_def shsha_blocksize_def fips180_def len fips_hash_lengths)
qed

lemma do_result_ok:
  assumes "sha_holds alg msg s"
  shows "\<exists>s'. do_result (Some s, d) = Inr (0, Some s', fips180 alg msg)"
  using sha_result_holds [OF assms] by (auto simp: do_result_def)

lemma do_write_ok:
  assumes "sha_holds alg msg s" "len \<le> length m" "len < 2 ^ 32" "length msg + len < 2 ^ 61"
  shows "\<exists>s'. do_write (Some m) len (Some s, d) = Inr (0, Some s', d) \<and> sha_holds alg (msg @ take len m) s'"
  using sha_write_holds [OF assms] by (auto simp: do_write_def)

lemma do_init_ok:
  assumes "alg \<in> shalgs"
  shows "\<exists>s. do_init junk alg (Some x, d) = Inr (0, Some s, d) \<and> sha_holds alg [] s"
  using sha_init_holds [OF assms, of junk x] by (auto simp: do_init_def)

lemma hmac_key_ok:
  assumes alg: "alg \<in> shalgs" and key: "length key < 2 ^ 31"
  shows "\<exists>k. hmac_key junk alg (Some key) (int (length key)) = Inr (0, Some k, int (length k)) \<and>
    length k \<le> shsha_blocksize alg \<and> hmac_k0 (fips180 alg) (shsha_blocksize alg) key = k @ replicate (shsha_blocksize alg - length k) 0"
proof (cases "shsha_blocksize alg < length key")
  case True
  obtain s where s: "do_init junk alg (Some sha_any, []) = Inr (0, Some s, [])" "sha_holds alg [] s"
    using do_init_ok [OF alg] by blast
  obtain s1 where s1: "do_write (Some key) (length key) (Some s, []) = Inr (0, Some s1, [])" "sha_holds alg key s1"
    using do_write_ok [OF s(2) le_refl, of key "[]"] key by auto
  obtain s2 where "do_result (Some s1, []) = Inr (0, Some s2, fips180 alg key)"
    using do_result_ok [OF s1(2)] by blast
  then have "c_or (c_or (do_init junk alg (Some sha_any, [])) (do_write (Some key) (length key))) do_result =
      Inr (0, Some s2, fips180 alg key)"
    using s(1) s1(1) by (auto intro: c_or_ok)
  then show ?thesis
    using True key shalgs_sizes [OF alg] by (auto simp: hmac_key_def hmac_k0_def)
next
  case False
  then show ?thesis by (simp add: hmac_key_def hmac_k0_def)
qed

lemma hmac_pad_ok:
  "length k \<le> B \<Longrightarrow> hmac_pad x B (Some k) (int (length k)) =
     Inr (map (\<lambda>b. b XOR x) (k @ replicate (B - length k) 0))"
  by (simp add: hmac_pad_def mem_simps Let_def)

text \<open>An HMAC context that has consumed \<open>msg\<close> under the key \<open>key\<close>.\<close>

definition hmac_holds :: "int \<Rightarrow> byte list \<Rightarrow> byte list \<Rightarrow> sh_hmac \<Rightarrow> bool" where
  "hmac_holds alg key msg c \<longleftrightarrow>
     hm_alg c = alg \<and> hm_hashSize c = shsha_size alg \<and> hm_blockSize c = shsha_blocksize alg \<and>
     \<not> hm_computed c \<and> hm_corrupted c = 0 \<and>
     (let k = hmac_k0 (fips180 alg) (shsha_blocksize alg) key in
      shsha_blocksize alg \<le> length (hm_opad c) \<and>
      take (shsha_blocksize alg) (hm_opad c) = map (\<lambda>b. b XOR 0x5c) k \<and>
      (\<exists>s. hm_sha c = Some s \<and> sha_holds alg (map (\<lambda>b. b XOR 0x36) k @ msg) s))"

lemma hmac_init_ok:
  assumes alg: "alg \<in> shalgs" and key: "length key < 2 ^ 31"
  shows "\<exists>c. shhmac_init junk (Some x) alg (Some key) (int (length key)) = Inr (0, Some c) \<and> hmac_holds alg key [] c"
proof -
  let ?B = "shsha_blocksize alg"
  obtain k where k: "hmac_key junk alg (Some key) (int (length key)) = Inr (0, Some k, int (length k))"
    "length k \<le> ?B" "hmac_k0 (fips180 alg) ?B key = k @ replicate (?B - length k) 0"
    using hmac_key_ok [OF assms] by blast
  let ?k = "k @ replicate (?B - length k) 0"
  obtain s where s: "shsha_init junk (Some sha_any) alg = (0, Some s)" "sha_holds alg [] s"
    using sha_init_holds [OF alg] by blast
  have l: "length (map (\<lambda>b. b XOR 0x36) ?k) = ?B" using k(2) by simp
  obtain s1 where s1: "shsha_write (Some s) (Some (map (\<lambda>b. b XOR 0x36) ?k)) ?B = Inr (0, Some s1)"
    "sha_holds alg (map (\<lambda>b. b XOR 0x36) ?k) s1"
    using sha_write_holds [OF s(2), of ?B "map (\<lambda>b. b XOR 0x36) ?k"] l shalgs_sizes [OF alg] by auto
  show ?thesis
    using k s(1) s1 by (simp add: shhmac_init_def hmac_pad_ok hmac_holds_def Let_def)
qed

lemma hmac_write_ok:
  assumes "hmac_holds alg key msg c" "len \<le> length m" "len < 2 ^ 31" "length msg + len < 2 ^ 60" "alg \<in> shalgs"
  shows "\<exists>c'. shhmac_write (Some c) (Some m) (int len) = Inr (0, Some c') \<and> hmac_holds alg key (msg @ take len m) c'"
proof -
  let ?k = "map (\<lambda>b. b XOR 0x36) (hmac_k0 (fips180 alg) (shsha_blocksize alg) key)"
  obtain s where s: "hm_sha c = Some s" "sha_holds alg (?k @ msg) s"
    using assms(1) by (auto simp: hmac_holds_def Let_def)
  have "length ?k \<le> 128"
    using assms(5) shalgs_sizes [OF assms(5)] by (auto simp: hmac_k0_def Let_def)
  then obtain s1 where "shsha_write (Some s) (Some m) len = Inr (0, Some s1)" "sha_holds alg (?k @ msg @ take len m) s1"
    using sha_write_holds [OF s(2) assms(2)] assms(3,4) by auto
  then show ?thesis
    using assms(1,3) s(1) by (auto simp: shhmac_write_def hmac_holds_def Let_def)
qed

lemma hmac_result_ok:
  assumes "hmac_holds alg key msg c" "alg \<in> shalgs"
  shows "\<exists>c'. shhmac_result junk (Some c) = Inr (0, mac_of alg key msg, Some c')"
proof -
  let ?k = "hmac_k0 (fips180 alg) (shsha_blocksize alg) key"
  let ?in = "fips180 alg (map (\<lambda>b. b XOR 0x36) ?k @ msg)"
  note h = assms(1) [unfolded hmac_holds_def Let_def]
  obtain s where s: "hm_sha c = Some s" "sha_holds alg (map (\<lambda>b. b XOR 0x36) ?k @ msg) s" using h by auto
  obtain s1 where s1: "do_result (Some s, []) = Inr (0, Some s1, ?in)" using do_result_ok [OF s(2)] by blast
  obtain s2 where s2: "do_init junk alg (Some s1, ?in) = Inr (0, Some s2, ?in)" "sha_holds alg [] s2"
    using do_init_ok [OF assms(2)] by blast
  obtain s3 where s3: "do_write (Some (hm_opad c)) (shsha_blocksize alg) (Some s2, ?in) = Inr (0, Some s3, ?in)"
    "sha_holds alg (map (\<lambda>b. b XOR 0x5c) ?k) s3"
    using do_write_ok [OF s2(2), of "shsha_blocksize alg" "hm_opad c" ?in] h shalgs_sizes [OF assms(2)] by auto
  have l: "length (map (\<lambda>b. b XOR 0x5c) ?k) \<le> 128" "shsha_size alg \<le> length ?in"
    using shalgs_sizes [OF assms(2)] by (auto simp: hmac_k0_def Let_def)
  obtain s4 where s4: "do_write_digest (shsha_size alg) (Some s3, ?in) = Inr (0, Some s4, ?in)"
    "sha_holds alg (map (\<lambda>b. b XOR 0x5c) ?k @ ?in) s4"
    using do_write_ok [OF s3(2) l(2), of ?in] l(1) shalgs_sizes [OF assms(2)] by (auto simp: do_write_digest_def)
  obtain s5 where s5: "do_result (Some s4, ?in) = Inr (0, Some s5, mac_of alg key msg)"
    using do_result_ok [OF s4(2)] by (auto simp: rfc2104_def)
  have "c_or (c_or (c_or (c_or (do_result (Some s, [])) (do_init junk alg))
              (do_write (Some (hm_opad c)) (shsha_blocksize alg))) (do_write_digest (shsha_size alg))) do_result =
      Inr (0, Some s5, mac_of alg key msg)"
    using s1 s2(1) s3(1) s4(1) s5 by (auto intro!: c_or_ok)
  then show ?thesis using h s(1) by (simp add: shhmac_result_def)
qed

lemma shhmac_ok:
  assumes "alg \<in> shalgs" "length key < 2 ^ 31" "length msg < 2 ^ 31"
  shows "shhmac junk alg (Some key) (length key) (Some msg) (int (length msg)) = Inr (0, mac_of alg key msg)"
proof -
  obtain c where c: "shhmac_init junk (Some hmac_any) alg (Some key) (int (length key)) = Inr (0, Some c)"
    "hmac_holds alg key [] c" using hmac_init_ok [OF assms(1,2)] by blast
  obtain c1 where c1: "shhmac_write (Some c) (Some msg) (int (length msg)) = Inr (0, Some c1)"
    "hmac_holds alg key msg c1" using hmac_write_ok [OF c(2) le_refl, of msg] assms by auto
  show ?thesis
    using c(1) c1(1) hmac_result_ok [OF c1(2) assms(1), of junk] assms(2) by (auto simp: shhmac_def)
qed

text \<open>C5: \<open>shhmac\<close> computes the message authentication code of RFC 2104 over the hash function of
  FIPS 180, for every key (longer ones are hashed first) and every message.\<close>

theorem shhmac_rfc2104:
  assumes "alg \<in> shalgs" "length key < 2 ^ 31" "length msg < 2 ^ 31"
  shows "shhmac junk alg (Some key) (length key) (Some msg) (int (length msg)) =
    Inr (0, rfc2104 (fips180 alg) (shsha_blocksize alg) key msg)"
  by (rule shhmac_ok [OF assms])

theorem shhmac_rfc2104_witness:
  "shhmac (\<lambda>_. 0) SHALG_SHA1 (Some [1, 2, 3]) 3 (Some [97]) 1 =
    Inr (0, rfc2104 (fips180 SHALG_SHA1) 64 [1, 2, 3] [97])"
  using shhmac_rfc2104 [of SHALG_SHA1 "[1, 2, 3]" "[97]" "\<lambda>_. 0"]
  by (simp add: shalgs_def shsha_blocksize_def const_simps numeral_3_eq_3)

section \<open>HKDF\<close>

text \<open>C30: \<open>shhkdf_extract\<close> passes the keying material as the HMAC key and the salt as the message,
  the reverse of RFC 5869 (\<open>PRK = HMAC(salt, IKM)\<close>); the streaming functions \<open>shhkdf_init\<close> and
  \<open>shhkdf_write\<close> key the HMAC with the salt, as the RFC says, so the two interfaces derive the
  pseudo-random key differently.\<close>

theorem shhkdf_extract_swapped:
  assumes "alg \<in> shalgs" "length salt < 2 ^ 31" "length ikm < 2 ^ 31"
    and "hk_corrupted ctx = 0" "\<not> hk_computed ctx"
  shows "shhkdf_extract junk alg (Some salt) (int (length salt)) (Some ikm) (int (length ikm)) =
      Inr (0, rfc2104 (fips180 alg) (shsha_blocksize alg) ikm salt) \<and>
    (\<exists>c1 c2 h. shhkdf_init junk (Some ctx) alg (Some salt) (int (length salt)) = Inr (0, Some c1) \<and>
      shhkdf_write (Some c1) (Some ikm) (int (length ikm)) = Inr (0, Some c2) \<and>
      shhmac_result junk (hk_hmac c2) = Inr (0, rfc2104 (fips180 alg) (shsha_blocksize alg) salt ikm, h))"
proof
  show "shhkdf_extract junk alg (Some salt) (int (length salt)) (Some ikm) (int (length ikm)) =
      Inr (0, rfc2104 (fips180 alg) (shsha_blocksize alg) ikm salt)"
    using shhmac_ok [OF assms(1,3,2)] assms(3) by (simp add: shhkdf_extract_def hkdf_salt_def)
  obtain c where c: "shhmac_init junk (Some hmac_any) alg (Some salt) (int (length salt)) = Inr (0, Some c)"
    "hmac_holds alg salt [] c" using hmac_init_ok [OF assms(1,2)] by blast
  obtain c1 where c1: "shhmac_write (Some c) (Some ikm) (int (length ikm)) = Inr (0, Some c1)"
    "hmac_holds alg salt ikm c1" using hmac_write_ok [OF c(2) le_refl, of ikm] assms by auto
  then show "\<exists>c1 c2 h. shhkdf_init junk (Some ctx) alg (Some salt) (int (length salt)) = Inr (0, Some c1) \<and>
      shhkdf_write (Some c1) (Some ikm) (int (length ikm)) = Inr (0, Some c2) \<and>
      shhmac_result junk (hk_hmac c2) = Inr (0, mac_of alg salt ikm, h)"
    using c(1) hmac_result_ok [OF c1(2) assms(1), of junk] assms(4,5)
    by (auto simp: shhkdf_init_def shhkdf_write_def hkdf_salt_def)
qed

theorem shhkdf_extract_swapped_witness:
  "shhkdf_extract (\<lambda>_. 0) SHALG_SHA256 (Some [1]) 1 (Some [2]) 1 =
    Inr (0, rfc2104 (fips180 SHALG_SHA256) 64 [2] [1])"
  using shhkdf_extract_swapped [of SHALG_SHA256 "[1]" "[2]"
      "\<lparr>hk_alg = 0, hk_hmac = None, hk_hashSize = 0, hk_computed = False, hk_corrupted = 0\<rparr>" "\<lambda>_. 0"]
  by (simp add: shalgs_def shsha_blocksize_def const_simps)

lemma expand_step_ok:
  assumes alg: "alg \<in> shalgs" and "length prk < 2 ^ 31" "length T \<le> 64" "length info < 2 ^ 31"
  shows "expand_step junk alg (Some prk) (int (length prk)) (Some info) (int (length info)) T (int (length T)) i =
    Inr (0, mac_of alg prk (T @ info @ [word_of_nat i]))"
proof -
  obtain c where c: "shhmac_init junk (Some hmac_any) alg (Some prk) (int (length prk)) = Inr (0, Some c)"
    "hmac_holds alg prk [] c" using hmac_init_ok [OF assms(1,2)] by blast
  obtain c1 where c1: "shhmac_write (Some c) (Some T) (int (length T)) = Inr (0, Some c1)"
    "hmac_holds alg prk T c1" using hmac_write_ok [OF c(2) le_refl, of T] assms by auto
  obtain c2 where c2: "shhmac_write (Some c1) (Some info) (int (length info)) = Inr (0, Some c2)"
    "hmac_holds alg prk (T @ info) c2" using hmac_write_ok [OF c1(2) le_refl, of info] assms by auto
  obtain c3 where c3: "shhmac_write (Some c2) (Some [word_of_nat i]) 1 = Inr (0, Some c3)"
    "hmac_holds alg prk (T @ info @ [word_of_nat i]) c3"
    using hmac_write_ok [OF c2(2), of 1 "[word_of_nat i]"] assms by auto
  show ?thesis
    using c(1) c1(1) c2(1) c3(1) hmac_result_ok [OF c3(2) alg, of junk]
    by (auto simp: expand_step_def c_or_def)
qed

lemma length_mac: "alg \<in> shalgs \<Longrightarrow> length (mac_of alg key msg) = shsha_size alg"
  by (simp add: rfc2104_def shalgs_sizes)

lemma length_rfc5869_T:
  "alg \<in> shalgs \<Longrightarrow> length (rfc5869_T (mac_of alg) prk info i) = (if i = 0 then 0 else shsha_size alg)"
  by (cases i) (simp_all add: length_mac)

lemma length_concat_T:
  assumes "alg \<in> shalgs"
  shows "length (concat (map (rfc5869_T (mac_of alg) prk info) [1..<Suc n])) = n * shsha_size alg"
  using assms by (induction n) (simp_all add: length_mac)

lemma expand_loop_done: "N < i \<Longrightarrow> expand_loop junk alg prk pl info il N L i T Tlen okm = Inr (0, okm)"
  by (subst expand_loop.simps) simp

lemma expand_loop_ok:
  assumes alg: "alg \<in> shalgs" and "length prk < 2 ^ 31" "length info < 2 ^ 31"
    and "(N - 1) * shsha_size alg < L" "L \<le> N * shsha_size alg" "1 \<le> i" "i \<le> N"
    and "okm = concat (map (rfc5869_T (mac_of alg) prk info) [1..<i])"
    and "T = rfc5869_T (mac_of alg) prk info (i - 1)"
  shows "expand_loop junk alg (Some prk) (int (length prk)) (Some info) (int (length info)) N L i T (int (length T)) okm =
    Inr (0, take L (concat (map (rfc5869_T (mac_of alg) prk info) [1..<Suc N])))"
  using assms(6-)
proof (induction "N - i" arbitrary: i T okm)
  case 0
  let ?f = "rfc5869_T (mac_of alg) prk info" and ?h = "shsha_size alg"
  have i: "i = N" and N: "N = Suc (N - 1)" using 0 by simp_all
  have okm: "okm = concat (map ?f [1..<N])" using 0 i by simp
  have lo: "length okm = (N - 1) * ?h" using length_concat_T [OF alg, of prk info "N - 1"] N okm by simp
  have T: "length T \<le> 64" using 0(5) shalgs_sizes [OF alg] by (simp add: length_rfc5869_T [OF alg])
  have T': "mac_of alg prk (T @ info @ [word_of_nat i]) = ?f N" using 0(5) i N by (metis rfc5869_T.simps(2))
  have "L - length okm \<le> length (?f N)"
    using assms(5) lo N length_rfc5869_T [OF alg, of prk info N] by (metis (no_types, lifting) Nat.le_diff_conv2
        add.commute assms(4) le_diff_conv less_imp_le_nat mult_Suc nat.simps(3))
  moreover have "take L (concat (map ?f [1..<Suc N])) = okm @ take (L - length okm) (?f N)"
    using okm lo assms(4) N 0(2) i by simp
  ultimately show ?case
    using i N T' expand_step_ok [OF alg assms(2) T assms(3), of junk N]
    by (subst expand_loop.simps) (simp add: mem_simps expand_loop_done)
next
  case (Suc k)
  let ?f = "rfc5869_T (mac_of alg) prk info" and ?h = "shsha_size alg"
  have i: "i < N" using Suc(2) by simp
  have T: "length T \<le> 64" using Suc(6) shalgs_sizes [OF alg] by (simp add: length_rfc5869_T [OF alg])
  have "i = Suc (i - 1)" using Suc(3) by simp
  then have T': "mac_of alg prk (T @ info @ [word_of_nat i]) = ?f i" using Suc(6) by (metis rfc5869_T.simps(2))
  have li: "length (?f i) = ?h" using Suc(3) by (simp add: length_rfc5869_T [OF alg])
  have "expand_loop junk alg (Some prk) (int (length prk)) (Some info) (int (length info)) N L i T (int (length T)) okm =
      expand_loop junk alg (Some prk) (int (length prk)) (Some info) (int (length info)) N L (i + 1) (?f i) (int ?h) (okm @ ?f i)"
    using i li T' expand_step_ok [OF alg assms(2) T assms(3), of junk i]
    by (subst expand_loop.simps) (simp add: mem_simps)
  also have "\<dots> = Inr (0, take L (concat (map ?f [1..<Suc N])))"
  proof -
    have k: "k = N - (i + 1)" using Suc(2) by simp
    have okm: "okm @ ?f i = concat (map ?f [1..<i + 1])" using Suc(3,5) by simp
    show ?thesis using Suc.hyps(1) [OF k _ _ okm refl] i li by simp
  qed
  finally show ?case .
qed

text \<open>C28: \<open>shhkdf_expand\<close> derives exactly the output keying material of RFC 5869, up to 255 blocks of
  the digest's size; longer requests are refused.\<close>

theorem shhkdf_expand_rfc5869:
  assumes "alg \<in> shalgs" "shsha_size alg \<le> length prk" "length prk < 2 ^ 31" "length info < 2 ^ 31" "0 < L"
  shows "shhkdf_expand junk alg (Some prk) (int (length prk)) (Some info) (int (length info)) True (int L) =
    (if L \<le> 255 * shsha_size alg
     then Inr (0, rfc5869_expand (rfc2104 (fips180 alg) (shsha_blocksize alg)) prk info L)
     else Inr (SHERR_INVAL, []))"
proof -
  let ?h = "shsha_size alg" and ?f = "rfc5869_T (mac_of alg) prk info"
  define q r where "q = L div ?h" and "r = L mod ?h"
  define N where "N = q + (if r \<noteq> 0 then 1 else 0)"
  have h: "0 < ?h" using shalgs_sizes [OF assms(1)] by simp
  have "L = q * ?h + r" "r < ?h" using h by (simp_all add: q_def r_def)
  then have N: "(N - 1) * ?h < L" "L \<le> N * ?h" "1 \<le> N"
    using assms(5) h by (cases q; auto simp: N_def)+
  have lim: "255 < N \<longleftrightarrow> \<not> L \<le> 255 * ?h"
    using N by (smt (verit) One_nat_def Suc_le_eq Suc_pred' leD leI le_trans less_Suc_eq_le mult_le_mono1 not_less_eq_eq zero_less_one)
  have "N \<le> L" using N(1,3) h by (cases N) (auto simp: Suc_le_eq elim: order.strict_trans1 [rotated])
  then have "[1..<Suc L] = [1..<Suc N] @ [Suc N..<Suc L]" using N(3) by (metis Suc_le_mono le_SucI le_add_diff_inverse upt_add_eq_append)
  moreover have "L \<le> length (concat (map ?f [1..<Suc N]))" using N(2) by (simp only: length_concat_T [OF assms(1)])
  ultimately have "rfc5869_expand (mac_of alg) prk info L = take L (concat (map ?f [1..<Suc N]))"
    by (simp add: rfc5869_expand_def)
  then have "\<not> 255 < N \<Longrightarrow> expand_loop junk alg (Some prk) (int (length prk)) (Some info) (int (length info)) N L 1 [] 0 [] =
      Inr (0, rfc5869_expand (mac_of alg) prk info L)"
    using expand_loop_ok [OF assms(1,3,4) N(1,2) le_refl N(3) refl refl, of junk] by simp
  moreover have "shhkdf_expand junk alg (Some prk) (int (length prk)) (Some info) (int (length info)) True (int L) =
      (if 255 < N then Inr (SHERR_INVAL, [])
       else expand_loop junk alg (Some prk) (int (length prk)) (Some info) (int (length info)) N L 1 [] 0 [])"
    using assms(2,5) h by (simp add: shhkdf_expand_def Let_def N_def q_def r_def)
  ultimately show ?thesis using lim by simp
qed

theorem shhkdf_expand_rfc5869_witness:
  "shhkdf_expand (\<lambda>_. 0) SHALG_SHA1 (Some (replicate 20 1)) 20 (Some [7]) 1 True 42 =
    Inr (0, rfc5869_expand (rfc2104 (fips180 SHALG_SHA1) 64) (replicate 20 1) [7] 42)"
  using shhkdf_expand_rfc5869 [of SHALG_SHA1 "replicate 20 1" "[7]" 42 "\<lambda>_. 0"]
  by (simp add: shalgs_def shsha_blocksize_def shsha_size_def const_simps)

end
