(* ===== verification/Share_Pin.thy ===== *)
theory Share_Pin
  imports Share_Key Share_Hmac Share_Base32
begin

text \<open>
  The one-time codes of \<^verbatim>\<open>share-lib/mem/shmem_alg_sha.c\<close> (\<open>shsha_2fa\<close> and its relatives), where the
  keyed hash, the base 32 text form and the random numbers of the key component meet: a code for
  a secret and a moment, the check of a code, and the making of a secret.  The clock
  (\<open>time(NULL)\<close>) and the buffers of random bytes are arguments.
\<close>

section \<open>Codes\<close>

definition SECRET_2FA_SIZE :: nat where "SECRET_2FA_SIZE = 10"
definition SHERR_ACCESS :: int where "SHERR_ACCESS = -13"

declare SECRET_2FA_SIZE_def [const_simps] SHERR_ACCESS_def [const_simps]

text \<open>The macro is \<open>pow (10, n - 4)\<close> with a \<open>size_t\<close> in the exponent, converted to \<open>uint32_t\<close>; the
  conversion has no defined result from \<open>10 ^ 10\<close> on.\<close>

definition PIN_2FA_MODULO :: "nat \<Rightarrow> fault + u32" where
  "PIN_2FA_MODULO seclen = (let e = (seclen + (2 ^ 64 - 4)) mod 2 ^ 64 in if e \<le> 9 then Inr (10 ^ e) else Inl Undefined)"

text \<open>The step of the clock; a frequency of zero divides by zero.\<close>

definition time_step :: "int \<Rightarrow> int \<Rightarrow> fault + u64" where
  "time_step now freq = (if freq = 0 then Inl Undefined else Inr (word_of_int (int_quot now freq)))"

text \<open>The common part of the code and of its check: \<open>junk\<close> is what the buffer \<open>hash\<close> held before.\<close>

definition pin_hash :: "(nat \<Rightarrow> byte) \<Rightarrow> int \<Rightarrow> byte list \<Rightarrow> nat \<Rightarrow> u64 \<Rightarrow> fault + u32" where
  "pin_hash junk alg secret secret_len t =
     run_bind (shhmac junk alg (Some secret) secret_len (Some (le_bytes 8 (htonll t))) 8) (\<lambda>(_, digest).
       let hash = digest @ map junk [length digest..<256];
           ofs = unat (hash ! 19 AND 0xF);
           hash32 = htonl (le_val (take 4 (drop ofs hash)))
       in if secret_len \<le> 16 then run_bind (PIN_2FA_MODULO secret_len) (\<lambda>m. Inr (hash32 mod m)) else Inr hash32)"

definition shsha_2fa_bin :: "(nat \<Rightarrow> byte) \<Rightarrow> int \<Rightarrow> int \<Rightarrow> byte list ptr \<Rightarrow> nat \<Rightarrow> int \<Rightarrow> fault + u32" where
  "shsha_2fa_bin junk now alg secret secret_len freq =
     (case secret of None \<Rightarrow> Inr 0
      | Some s \<Rightarrow> run_bind (time_step now freq) (\<lambda>t. pin_hash junk alg s secret_len t))"

text \<open>The sixteen bytes that \<open>shbase32_decode\<close> is given.  A NUL is no character of the alphabet and no
  padding, so that nothing after the first one is read.\<close>

definition str16 :: "byte list \<Rightarrow> fault + byte list" where
  "str16 m = (if 16 \<le> length m \<or> 0 \<in> set m then Inr (take 16 (m @ replicate 16 0)) else Inl OutOfBounds)"

text \<open>The buffer of 128 bytes the secret is decoded into; the result of the decoder is ignored.
  The callers pass the buffer on with the size ten.\<close>

definition secret_buf :: "(nat \<Rightarrow> byte) \<Rightarrow> byte list \<Rightarrow> (fault + byte list) option" where
  "secret_buf junk chars =
     map_option (\<lambda>r. run_bind r (\<lambda>(_, out). Inr (out @ map junk [length out..<128])))
       (shbase32_decode chars SECRET_2FA_SIZE)"

definition shsha_2fa :: "(nat \<Rightarrow> byte) \<Rightarrow> int \<Rightarrow> byte list ptr \<Rightarrow> (fault + u32) option" where
  "shsha_2fa junk now secret_str =
     (case secret_str of None \<Rightarrow> Some (Inr 0)
      | Some m \<Rightarrow>
         (case c_strlen m of Inl e \<Rightarrow> Some (Inl e)
          | Inr n \<Rightarrow> if n \<noteq> 16 then Some (Inr 0)
              else map_option (\<lambda>r. run_bind r (\<lambda>secret.
                     shsha_2fa_bin junk now SHALG_SHA1 (Some (take SECRET_2FA_SIZE secret)) SECRET_2FA_SIZE 30))
                   (secret_buf junk (take 16 m))))"

section \<open>Verification\<close>

text \<open>The loop counts with a 64-bit counter up to and including \<open>t_end\<close>, so that it ends only if
  \<open>t_end\<close> is not the largest number.\<close>

partial_function (option) verify_loop ::
    "(nat \<Rightarrow> byte) \<Rightarrow> int \<Rightarrow> byte list \<Rightarrow> nat \<Rightarrow> u32 \<Rightarrow> u64 \<Rightarrow> u64 \<Rightarrow> (fault + int) option" where
  [code]: "verify_loop junk alg secret secret_len pin t t_end =
     (if t \<le> t_end
      then (case pin_hash junk alg secret secret_len t of
              Inl e \<Rightarrow> Some (Inl e)
            | Inr h \<Rightarrow> if h = pin then Some (Inr 0) else verify_loop junk alg secret secret_len pin (t + 1) t_end)
      else Some (Inr SHERR_ACCESS))"

definition shsha_2fa_bin_verify ::
    "(nat \<Rightarrow> byte) \<Rightarrow> int \<Rightarrow> int \<Rightarrow> byte list ptr \<Rightarrow> nat \<Rightarrow> int \<Rightarrow> u32 \<Rightarrow> (fault + int) option" where
  "shsha_2fa_bin_verify junk now alg secret secret_len freq pin =
     (case secret of None \<Rightarrow> Some (Inr SHERR_INVAL)
      | Some s \<Rightarrow>
         (case time_step now freq of Inl e \<Rightarrow> Some (Inl e)
          | Inr u \<Rightarrow> let t_st = u - 1; t_end = t_st + 2 in verify_loop junk alg s secret_len pin t_st t_end))"

definition shsha_2fa_verify :: "(nat \<Rightarrow> byte) \<Rightarrow> int \<Rightarrow> byte list ptr \<Rightarrow> u32 \<Rightarrow> (fault + int) option" where
  "shsha_2fa_verify junk now secret_str pin =
     (case secret_str of None \<Rightarrow> Some (Inl NullDeref)
      | Some m \<Rightarrow>
         (case str16 m of Inl e \<Rightarrow> Some (Inl e)
          | Inr chars \<Rightarrow>
             (case secret_buf junk chars of None \<Rightarrow> None
              | Some (Inl e) \<Rightarrow> Some (Inl e)
              | Some (Inr secret) \<Rightarrow> shsha_2fa_bin_verify junk now SHALG_SHA1 (Some (take SECRET_2FA_SIZE secret)) SECRET_2FA_SIZE 30 pin)))"

section \<open>Secrets\<close>

text \<open>The loop of \<open>shsha_2fa_secret_bin\<close>, in which \<open>n\<close> is the size already divided by eight.\<close>

fun secret_fill :: "(nat \<Rightarrow> byte list) \<Rightarrow> nat \<Rightarrow> byte list \<Rightarrow> nat list \<Rightarrow> fault + byte list" where
  "secret_fill entropy n secret [] = Inr secret"
| "secret_fill entropy n secret (i # is) =
     (let ofs = i * 8;
          val = shrand (entropy i);
          len = min 8 (size_of_int (int n - int ofs))
      in run_bind (mem_write secret ofs (take len (le_bytes 8 val))) (\<lambda>s. secret_fill entropy n s is))"

definition shsha_2fa_secret_bin :: "(nat \<Rightarrow> byte list) \<Rightarrow> byte list \<Rightarrow> nat \<Rightarrow> fault + byte list" where
  "shsha_2fa_secret_bin entropy secret secret_len =
     run_bind (mem_fill secret 0 secret_len 0) (\<lambda>s.
       let n = secret_len div 8 in secret_fill entropy n s [0..<n])"

text \<open>The result is the static buffer \<open>ret_str\<close> of 64 bytes.\<close>

definition shsha_2fa_secret :: "(nat \<Rightarrow> byte) \<Rightarrow> (nat \<Rightarrow> byte list) \<Rightarrow> fault + byte list" where
  "shsha_2fa_secret junk entropy =
     run_bind (shsha_2fa_secret_bin entropy (map junk [0..<16]) SECRET_2FA_SIZE) (\<lambda>secret.
       mem_write (replicate 64 0) 0 (shbase32_encode (take SECRET_2FA_SIZE secret) 16))"

section \<open>The specification of a code\<close>

text \<open>A code is four bytes of the keyed hash of the big-endian step counter, taken at the place its twentieth
  byte names, modulo a power of ten for short secrets.\<close>

definition otp :: "int \<Rightarrow> byte list \<Rightarrow> u64 \<Rightarrow> u32" where
  "otp alg secret t =
     (let mac = rfc2104 (fips180 alg) (shsha_blocksize alg) secret (rev (le_bytes 8 t));
          code = le_val (rev (take 4 (drop (unat (mac ! 19 AND 0xF)) mac)))
      in if length secret \<le> 16 then code mod 10 ^ (length secret - 4) else code)"



section \<open>Codes and their check\<close>

lemma modulo_ok: "4 \<le> n \<Longrightarrow> n \<le> 13 \<Longrightarrow> PIN_2FA_MODULO n = Inr (10 ^ (n - 4))"
proof -
  assume n: "4 \<le> n" "n \<le> 13"
  then have "n + (2 ^ 64 - 4) = (n - 4) + 2 ^ 64" by simp
  then have "(n + (2 ^ 64 - 4)) mod 2 ^ 64 = n - 4" using n by (simp only: mod_add_self2) simp
  then show ?thesis using n unfolding PIN_2FA_MODULO_def Let_def by simp
qed

text \<open>The sizes for which the code has a defined value.\<close>

definition pin_size :: "nat \<Rightarrow> bool" where
  "pin_size n \<longleftrightarrow> 4 \<le> n \<and> n < 2 ^ 31 \<and> (n \<le> 13 \<or> 16 < n)"

lemma pin_hash_otp:
  assumes "alg \<in> shalgs" "pin_size (length secret)"
  shows "pin_hash junk alg secret (length secret) t = Inr (otp alg secret t)"
proof -
  let ?mac = "mac_of alg secret (rev (le_bytes 8 t))"
  have mac: "shhmac junk alg (Some secret) (length secret) (Some (le_bytes 8 (htonll t))) 8 = Inr (0, ?mac)"
    using shhmac_ok [OF assms(1), of secret "rev (le_bytes 8 t)" junk] assms(2) by (simp add: pin_size_def le_bytes_htonll)
  have len: "20 \<le> length ?mac"
    using assms(1) by (auto simp: length_mac shalgs_def shsha_size_def const_simps)
  define ofs where "ofs = unat (?mac ! 19 AND 0xF)"
  have "?mac ! 19 AND 0xF \<le> 0xF" by (rule word_and_le1)
  then have ofs: "ofs + 4 \<le> length ?mac" using len by (simp add: ofs_def word_le_nat_alt)
  have code: "htonl (le_val (take 4 (drop ofs (?mac @ map junk [length ?mac..<256])))) = le_val (rev (take 4 (drop ofs ?mac)))"
  proof -
    have four: "length (take 4 (drop ofs ?mac)) = 4" using ofs by simp
    have "take 4 (drop ofs (?mac @ map junk [length ?mac..<256])) = take 4 (drop ofs ?mac)" using ofs by simp
    then show ?thesis
      using le_bytes_le_val [where 'a = 32, of "take 4 (drop ofs ?mac)"] four by (simp add: htonl_def)
  qed
  have nth: "(?mac @ map junk [length ?mac..<256]) ! 19 = ?mac ! 19" using len by (simp add: nth_append)
  show ?thesis
    unfolding pin_hash_def mac run_bind_Inr prod.case Let_def nth ofs_def [symmetric] code
    using assms(2) modulo_ok [of "length secret"] by (auto simp: otp_def Let_def ofs_def pin_size_def)
qed

lemma otp_window:
  assumes "alg \<in> shalgs" "pin_size (length secret)" "0 < freq" "freq \<le> now" "now < 2 ^ 63"
  defines "t \<equiv> word_of_int (now div freq) :: u64"
  shows "shsha_2fa_bin junk now alg (Some secret) (length secret) freq = Inr (otp alg secret t) \<and>
    shsha_2fa_bin_verify junk now alg (Some secret) (length secret) freq pin =
      Some (Inr (if pin \<in> otp alg secret ` {t - 1, t, t + 1} then 0 else SHERR_ACCESS))"
proof -
  have step: "time_step now freq = Inr t" using assms(3,4) by (simp add: time_step_def t_def)
  define k where "k = now div freq"
  have k: "1 \<le> k" "k < 2 ^ 63"
    using assms(3-5) div_by_1 zdiv_mono2 [of now 1 freq] by (simp_all add: k_def pos_imp_zdiv_pos_iff int_one_le_iff_zero_less)
  have u: "uint (word_of_int i :: u64) = i" if "0 \<le> i" "i < 2 ^ 64" for i
    using that by (simp add: uint_word_of_int take_bit_int_eq_self)
  have "t = word_of_int k" "t - 1 = word_of_int (k - 1)" "t + 1 = word_of_int (k + 1)" "2 + t = word_of_int (k + 2)"
    by (simp_all add: t_def k_def)
  then have "uint t = k" "uint (t - 1) = k - 1" "uint (t + 1) = k + 1" "uint (2 + t) = k + 2"
    using u [of k] u [of "k - 1"] u [of "k + 1"] u [of "k + 2"] k by (simp_all add: add.commute)
  then have le: "t - 1 \<le> t + 1" "t \<le> t + 1" "\<not> 2 + t \<le> t + 1" by (simp_all add: word_le_def)
  have eq: "t - 1 + 2 = t + 1" "t - 1 + 1 = t" by simp_all
  have loop: "verify_loop junk alg secret (length secret) pin u e =
      (if u \<le> e then if otp alg secret u = pin then Some (Inr 0) else verify_loop junk alg secret (length secret) pin (u + 1) e
       else Some (Inr SHERR_ACCESS))" for u e
    by (subst verify_loop.simps) (simp add: pin_hash_otp [OF assms(1,2)])
  have "verify_loop junk alg secret (length secret) pin (t - 1) (t + 1) =
      Some (Inr (if pin \<in> otp alg secret ` {t - 1, t, t + 1} then 0 else SHERR_ACCESS))"
    using le eq(2) loop [of "t - 1" "t + 1"] loop [of t "t + 1"] loop [of "t + 1" "t + 1"] loop [of "2 + t" "t + 1"]
    by (auto simp: ac_simps)
  then show ?thesis
    by (simp add: shsha_2fa_bin_def shsha_2fa_bin_verify_def step eq pin_hash_otp [OF assms(1,2)] Let_def)
qed

text \<open>C24: A code and its check agree.  With a clock that has reached one step, a secret of a size
  for which the code is defined and any of the hash functions, \<open>shsha_2fa_bin\<close> gives the code of the
  current step, and \<open>shsha_2fa_bin_verify\<close> returns, accepting exactly the codes of the
  previous, the current and the next step.\<close>

theorem shsha_2fa_window:
  assumes "alg \<in> shalgs" "pin_size (length secret)" "0 < freq" "freq \<le> now" "now < 2 ^ 63"
  defines "t \<equiv> word_of_int (now div freq) :: u64"
  shows "shsha_2fa_bin junk now alg (Some secret) (length secret) freq = Inr (otp alg secret t) \<and>
    shsha_2fa_bin_verify junk now alg (Some secret) (length secret) freq pin =
      Some (Inr (if pin \<in> otp alg secret ` {t - 1, t, t + 1} then 0 else SHERR_ACCESS))"
  unfolding t_def by (rule otp_window [OF assms(1-5)])

theorem shsha_2fa_window_witness:
  "shsha_2fa_bin (\<lambda>_. 0) 60 SHALG_SHA1 (Some (replicate 10 7)) 10 30 = Inr (otp SHALG_SHA1 (replicate 10 7) 2) \<and>
   shsha_2fa_bin_verify (\<lambda>_. 0) 60 SHALG_SHA1 (Some (replicate 10 7)) 10 30 (otp SHALG_SHA1 (replicate 10 7) 3) = Some (Inr 0)"
  using shsha_2fa_window [of SHALG_SHA1 "replicate 10 7" 30 60 "\<lambda>_. 0" "otp SHALG_SHA1 (replicate 10 7) 3"]
  by (simp add: shalgs_def pin_size_def)

section \<open>Secrets as text\<close>

text \<open>The text of a secret, in the buffer that \<open>shsha_2fa_secret\<close> returns.\<close>

definition secret_text :: "byte list \<Rightarrow> byte list" where
  "secret_text secret = shbase32_encode secret 16 @ replicate 48 0"

lemma b32str_nonzero: "list_all (\<lambda>i. b32str ! i \<noteq> 0) [0..<32]"
  by code_simp

lemma enc32_nonzero [simp]: "enc32 x \<noteq> 0"
proof -
  have "low5 x \<le> 0x1F" unfolding low5_def by (rule word_and_le1)
  then have "unat (low5 x) \<in> set [0..<32]" by (simp add: word_le_nat_alt)
  then show ?thesis using b32str_nonzero unfolding list_all_iff enc32_def by blast
qed

lemma enc32_group_nonzero: "0 \<notin> set (enc32_group xs)"
  using enc32_nonzero [symmetric] by (auto simp: enc32_group_def Let_def pad32_def simp del: enc32_nonzero)

lemma encode_16:
  assumes "length secret = 10"
  shows "shbase32_encode secret 16 = enc32_group secret @ enc32_group (drop 5 secret)"
proof -
  have "drop 5 secret \<noteq> []" using assms by simp
  then show ?thesis
    using assms by (auto simp: shbase32_encode.simps [of secret] shbase32_encode.simps [of "drop 5 secret"])
qed

lemma secret_text_simps:
  assumes "length secret = 10"
  shows "c_strlen (secret_text secret) = Inr 16" "str16 (secret_text secret) = Inr (take 16 (secret_text secret))"
    "secret_buf junk (take 16 (secret_text secret)) = Some (Inr (secret @ map junk [10..<128]))"
proof -
  let ?e = "shbase32_encode secret 16"
  have e: "length ?e = 16" "\<forall>b \<in> set ?e. b \<noteq> 0" unfolding encode_16 [OF assms] using enc32_group_nonzero by auto
  have t: "take 16 (secret_text secret) = ?e" using e(1) by (simp add: secret_text_def)
  have "takeWhile (\<lambda>b. b \<noteq> 0) (?e @ replicate 48 0) = ?e @ takeWhile (\<lambda>b. b \<noteq> 0) (replicate 48 0)"
    using e(2) by (intro takeWhile_append2) auto
  then show "c_strlen (secret_text secret) = Inr 16" using e(1) by (simp add: c_strlen_def secret_text_def)
  show "str16 (secret_text secret) = Inr (take 16 (secret_text secret))" using e(1) by (simp add: str16_def secret_text_def)
  have "BASE32_LENGTH (length secret) = 16" using assms by (simp add: BASE32_LENGTH_def)
  then show "secret_buf junk (take 16 (secret_text secret)) = Some (Inr (secret @ map junk [10..<128]))"
    using shbase32_decode_encoded [of secret 16 10] assms e(1)
    by (simp add: t secret_buf_def shbase32_decode_def const_simps)
qed

text \<open>From text to acceptance: for every ten-byte secret in the text form that \<open>shsha_2fa_secret\<close>
  gives it, \<open>shsha_2fa\<close> returns a code, and \<open>shsha_2fa_verify\<close> accepts that code as long as its clock
  is at most one step of thirty seconds away, whatever the stack buffers of the two held before.\<close>

theorem shsha_2fa_accepts:
  assumes "length secret = 10" "30 \<le> now" "now < 2 ^ 63" "30 \<le> now'" "now' < 2 ^ 63" "\<bar>now' div 30 - now div 30\<bar> \<le> 1"
  shows "\<exists>pin. shsha_2fa junk now (Some (secret_text secret)) = Some (Inr pin) \<and>
    shsha_2fa_verify junk' now' (Some (secret_text secret)) pin = Some (Inr 0)"
proof -
  let ?t = "word_of_int (now div 30) :: u64" and ?t' = "word_of_int (now' div 30) :: u64"
  have w: "SHALG_SHA1 \<in> shalgs" "pin_size (length secret)" "(0::int) < 30"
    using assms(1) by (simp_all add: shalgs_def pin_size_def)
  have near: "?t \<in> {?t' - 1, ?t', ?t' + 1}"
  proof -
    consider "now div 30 = now' div 30" | "now div 30 = now' div 30 - 1" | "now div 30 = now' div 30 + 1"
      using assms(6) by linarith
    then show ?thesis by cases simp_all
  qed
  have "shsha_2fa junk now (Some (secret_text secret)) = Some (Inr (otp SHALG_SHA1 secret ?t))"
    using otp_window [OF w assms(2,3), of junk] assms(1) by (simp add: shsha_2fa_def secret_text_simps const_simps)
  moreover have "shsha_2fa_verify junk' now' (Some (secret_text secret)) (otp SHALG_SHA1 secret ?t) = Some (Inr 0)"
    using otp_window [OF w assms(4,5), of junk' "otp SHALG_SHA1 secret ?t"] near assms(1)
    by (auto simp: shsha_2fa_verify_def secret_text_simps const_simps)
  ultimately show ?thesis by blast
qed

theorem shsha_2fa_accepts_witness:
  "\<exists>pin. shsha_2fa (\<lambda>_. 0) 59 (Some (secret_text (replicate 10 7))) = Some (Inr pin) \<and>
    shsha_2fa_verify (\<lambda>_. 1) 60 (Some (secret_text (replicate 10 7))) pin = Some (Inr 0)"
  by (rule shsha_2fa_accepts) simp_all

text \<open>C31: The secrets are weak: \<open>shsha_2fa_secret_bin\<close> divides the size by eight before it uses it
  as a size, so that of the ten bytes of a secret only the first is random and the others are
  zero; \<open>shsha_2fa_secret\<close> can return at most 256 different texts.\<close>

theorem shsha_2fa_secret_weak:
  "shsha_2fa_secret junk entropy = Inr (secret_text (ucast (shrand (entropy 0)) # replicate 9 0)) \<and>
   card {m. \<exists>junk entropy. shsha_2fa_secret junk entropy = Inr m} \<le> 256"
proof -
  have bin: "shsha_2fa_secret_bin entropy (map junk [0..<16]) SECRET_2FA_SIZE =
      Inr (ucast (shrand (entropy 0)) # replicate 9 0 @ map junk [10..<16])" for junk entropy
  proof -
    have one: "take (min 8 (size_of_int 1)) (le_bytes 8 v) = [ucast v]" for v :: u64
      by (simp add: size_of_int_def numeral_eq_Suc)
    have fill: "mem_fill (map junk [0..<16]) 0 10 0 = Inr (replicate 10 0 @ map junk [10..<16])"
      by (simp add: mem_fill_def mem_write_ok drop_map)
    show ?thesis
      by (simp add: shsha_2fa_secret_bin_def const_simps fill one mem_write_ok)
  qed
  have eq: "shsha_2fa_secret junk entropy = Inr (secret_text (ucast (shrand (entropy 0)) # replicate 9 0))" for junk entropy
  proof -
    have l: "length (shbase32_encode (ucast (shrand (entropy 0)) # replicate 9 0) 16) = 16"
      using encode_16 [of "ucast (shrand (entropy 0)) # replicate 9 0"] by simp
    show ?thesis
      unfolding shsha_2fa_secret_def bin run_bind_Inr using l by (simp add: const_simps mem_write_ok secret_text_def)
  qed
  have "{m. \<exists>junk entropy. shsha_2fa_secret junk entropy = Inr m} \<subseteq> range (\<lambda>b :: byte. secret_text (b # replicate 9 0))"
    by (auto simp: eq)
  then have "card {m. \<exists>junk entropy. shsha_2fa_secret junk entropy = Inr m} \<le> card (range (\<lambda>b :: byte. secret_text (b # replicate 9 0)))"
    by (intro card_mono) simp_all
  also have "\<dots> \<le> card (UNIV :: byte set)" by (intro card_image_le) simp
  also have "\<dots> = 256" by (simp add: card_word)
  finally show ?thesis using eq by blast
qed

end
