(* ===== verification/Share_Json.thy ===== *)
theory Share_Json
  imports Share_Prelude
begin

text \<open>
  The JSON values of \<^verbatim>\<open>share-lib/mem/shmem_json.c\<close>: the parser with its error pointer, the printer in its
  two layouts, strings with escapes and numbers.  A text is its bytes before the terminating
  NUL, and a pointer into it is the suffix it points to.  The list of children that the source links by
  \<open>next\<close> and \<open>prev\<close> is a list.  Floating-point arithmetic is the compiler's: the operations the source
  uses are fields of a record, and the theorems name what they need of it.
\<close>

section \<open>Values\<close>

datatype 'd shjson =
  Item (js_type: int) (js_child: "'d shjson list") (js_valuestring: "byte list ptr")
    (js_valueint: int) (js_valuedouble: 'd) (js_string: "byte list ptr")

definition shjson_False :: int where "shjson_False = 0"
definition shjson_True :: int where "shjson_True = 1"
definition shjson_NULL :: int where "shjson_NULL = 2"
definition shjson_Number :: int where "shjson_Number = 3"
definition shjson_String :: int where "shjson_String = 4"
definition shjson_Array :: int where "shjson_Array = 5"
definition shjson_Object :: int where "shjson_Object = 6"
definition shjson_IsReference :: int where "shjson_IsReference = 256"

lemmas shjson_types [const_simps] = shjson_False_def shjson_True_def shjson_NULL_def shjson_Number_def
  shjson_String_def shjson_Array_def shjson_Object_def shjson_IsReference_def

text \<open>The size of the struct on a 64-bit machine.\<close>

definition SHJSON_SIZE :: nat where "SHJSON_SIZE = 64"

text \<open>Arithmetic on \<open>double\<close>: conversion from and to \<open>int\<close> (the latter is whatever the machine gives when
  the number does not fit), sum, product, \<open>pow (10, e)\<close>, the test of \<open>print_number\<close> whether a number is an
  \<open>int\<close> up to \<open>DBL_EPSILON\<close>, and the text of the other numbers.\<close>

record 'd fpu =
  fp_of_int :: "int \<Rightarrow> 'd"
  fp_to_int :: "'d \<Rightarrow> int"
  fp_add :: "'d \<Rightarrow> 'd \<Rightarrow> 'd"
  fp_mul :: "'d \<Rightarrow> 'd \<Rightarrow> 'd"
  fp_pow10 :: "int \<Rightarrow> 'd"
  fp_is_int :: "int \<Rightarrow> 'd \<Rightarrow> bool"
  fp_text :: "'d \<Rightarrow> byte list"

section \<open>Text\<close>

definition peek :: "byte list \<Rightarrow> byte" where
  "peek s = (case s of [] \<Rightarrow> 0 | ch # _ \<Rightarrow> ch)"

definition skip :: "byte list \<Rightarrow> byte list" where
  "skip s = dropWhile (\<lambda>ch. ch \<noteq> 0 \<and> ch \<le> 32) s"

definition is_digit :: "byte \<Rightarrow> bool" where
  "is_digit ch \<longleftrightarrow> 48 \<le> ch \<and> ch \<le> 57"

text \<open>The result of a parsing function: a value and the text behind it, or a failure, which may set
  the error pointer.\<close>

datatype 'a parsed = Fail "byte list ptr" | Done 'a "byte list"

definition parse_bind ::
    "fault + 'a parsed \<Rightarrow> ('a \<Rightarrow> byte list \<Rightarrow> fault + 'b parsed) \<Rightarrow> fault + 'b parsed" where
  "parse_bind m f = run_bind m (\<lambda>r. case r of Fail e \<Rightarrow> Inr (Fail e) | Done x s \<Rightarrow> f x s)"

lemma parse_bind_simps [simp]:
  "parse_bind (Inl e) f = Inl e" "parse_bind (Inr (Fail p)) f = Inr (Fail p)" "parse_bind (Inr (Done x s)) f = f x s"
  by (simp_all add: parse_bind_def)

section \<open>Numbers\<close>

text \<open>The loop \<open>n = n * 10.0 + (*num++ - '0')\<close>, with the number of its rounds.\<close>

fun num_digits :: "'d fpu \<Rightarrow> 'd \<Rightarrow> byte list \<Rightarrow> nat \<Rightarrow> 'd \<times> nat \<times> byte list" where
  "num_digits fp n [] k = (n, k, [])"
| "num_digits fp n (ch # cs) k =
     (if is_digit ch
      then num_digits fp (fp_add fp (fp_mul fp n (fp_of_int fp 10)) (fp_of_int fp (uint ch - 48))) cs (k + 1)
      else (n, k, ch # cs))"

text \<open>The exponent is an \<open>int\<close>, which may overflow.\<close>

fun exp_digits :: "int \<Rightarrow> byte list \<Rightarrow> fault + (int \<times> byte list)" where
  "exp_digits e [] = Inr (e, [])"
| "exp_digits e (ch # cs) =
     (if is_digit ch
      then run_bind (int_mul e 10) (\<lambda>a. run_bind (int_add a (uint ch - 48)) (\<lambda>e'. exp_digits e' cs))
      else Inr (e, ch # cs))"

definition num_exponent :: "byte list \<Rightarrow> fault + (int \<times> byte list)" where
  "num_exponent s =
     (if peek s = 101 \<or> peek s = 69
      then (let s1 = tl s;
                (sgn, s2) = (if peek s1 = 43 then (1, tl s1) else if peek s1 = 45 then (- 1, tl s1) else (1, s1))
            in run_bind (exp_digits 0 s2) (\<lambda>(e, s3). Inr (e * sgn, s3)))
      else Inr (0, s))"

text \<open>The fields \<open>valueint\<close> and \<open>valuedouble\<close>, and the rest of the text.\<close>

definition parse_number :: "'d fpu \<Rightarrow> byte list \<Rightarrow> fault + ((int \<times> 'd) \<times> byte list)" where
  "parse_number fp s =
     (let (sign, s1) = (if peek s = 45 then (- 1, tl s) else (1, s));
          s2 = (if peek s1 = 48 then tl s1 else s1);
          (n, _, s3) = (if is_digit (peek s2) \<and> peek s2 \<noteq> 48 then num_digits fp (fp_of_int fp 0) s2 0 else (fp_of_int fp 0, 0, s2));
          (n', k, s4) = (if peek s3 = 46 \<and> is_digit (peek (tl s3)) then num_digits fp n (tl s3) 0 else (n, 0, s3))
      in run_bind (num_exponent s4) (\<lambda>(e, s5).
        let d = fp_mul fp (fp_mul fp (fp_of_int fp sign) n') (fp_pow10 fp (e - int k))
        in Inr ((fp_to_int fp d, d), s5)))"

fun dec_digits :: "nat \<Rightarrow> byte list" where
  "dec_digits n = (if n < 10 then [word_of_nat (48 + n)] else dec_digits (n div 10) @ [word_of_nat (48 + n mod 10)])"

declare dec_digits.simps [simp del]

text \<open>The conversion \<open>%d\<close>.\<close>

definition fmt_d :: "int \<Rightarrow> byte list" where
  "fmt_d i = (if i < 0 then 45 # dec_digits (nat (- i)) else dec_digits (nat i))"

definition print_number :: "libc \<Rightarrow> 'd fpu \<Rightarrow> int \<Rightarrow> 'd \<Rightarrow> fault + byte list ptr" where
  "print_number c fp valueint d =
     (let int_form = fp_is_int fp valueint d;
          size = (if int_form then 21 else 64);
          str = (if int_form then fmt_d valueint else fp_text fp d)
      in if \<not> calloc_ok c size then Inr None
         else if size < length str + 1 then Inl OutOfBounds else Inr (Some str))"

section \<open>Strings\<close>

definition hex_val :: "byte \<Rightarrow> nat option" where
  "hex_val ch = (if is_digit ch then Some (unat ch - 48) else if 65 \<le> ch \<and> ch \<le> 70 then Some (unat ch - 55)
     else if 97 \<le> ch \<and> ch \<le> 102 then Some (unat ch - 87) else None)"

text \<open>Four hexadecimal digits; the value is 0 as soon as a character is none.\<close>

definition parse_hex4 :: "byte list \<Rightarrow> u32" where
  "parse_hex4 s = (case s of
       a # b # e # d # _ \<Rightarrow>
         (case (hex_val a, hex_val b, hex_val e, hex_val d) of
            (Some p, Some q, Some r, Some t) \<Rightarrow> word_of_nat (((p * 16 + q) * 16 + r) * 16 + t)
          | _ \<Rightarrow> 0)
     | _ \<Rightarrow> 0)"

definition utf8 :: "u32 \<Rightarrow> byte list" where
  "utf8 uc =
     (let tail = (\<lambda>k. ucast ((drop_bit (6 * k) uc OR 0x80) AND 0xBF)) in
      if uc < 0x80 then [ucast uc]
      else if uc < 0x800 then [ucast (drop_bit 6 uc OR 0xC0), tail 0]
      else if uc < 0x10000 then [ucast (drop_bit 12 uc OR 0xE0), tail 1, tail 0]
      else [ucast (drop_bit 18 uc OR 0xF0), tail 2, tail 1, tail 0])"

text \<open>The loop that counts the characters of a string; an escape counts as one.  The count is an
  \<open>int\<close>.\<close>

fun str_scan :: "byte list \<Rightarrow> nat \<Rightarrow> fault + nat" where
  "str_scan [] n = Inr n"
| "str_scan (ch # cs) n =
     (if ch = 34 \<or> ch = 0 then Inr n
      else if 2 ^ 31 - 1 \<le> int n then Inl IntOverflow
      else if ch = 92 then (case cs of [] \<Rightarrow> Inl OutOfBounds | _ # cs' \<Rightarrow> str_scan cs' (n + 1))
      else str_scan cs (n + 1))"

text \<open>Writing into the buffer of \<open>cap\<close> bytes, and moving the pointer.\<close>

definition put_bytes :: "nat \<Rightarrow> byte list \<Rightarrow> byte list \<Rightarrow> fault + byte list" where
  "put_bytes cap out bs = (if length out + length bs \<le> cap then Inr (out @ bs) else Inl OutOfBounds)"

definition advance :: "nat \<Rightarrow> byte list \<Rightarrow> fault + byte list" where
  "advance k s = (if k \<le> length s then Inr (drop k s) else Inl OutOfBounds)"

text \<open>The escape \<open>\u\<close>: \<open>es\<close> is the text after the \<open>u\<close>; the result is the bytes to write and how far to move.\<close>

definition unicode_escape :: "byte list \<Rightarrow> byte list \<times> nat" where
  "unicode_escape es =
     (let uc = parse_hex4 es in
      if (0xDC00 \<le> uc \<and> uc \<le> 0xDFFF) \<or> uc = 0 then ([], 4)
      else if 0xD800 \<le> uc \<and> uc \<le> 0xDBFF
      then (if peek (drop 4 es) \<noteq> 92 \<or> peek (drop 5 es) \<noteq> 117 then ([], 4)
            else (let uc2 = parse_hex4 (drop 6 es) in
                  if uc2 < 0xDC00 \<or> 0xDFFF < uc2 then ([], 10)
                  else (utf8 (0x10000 + (push_bit 10 (uc AND 0x3FF) OR (uc2 AND 0x3FF))), 10)))
      else (utf8 uc, 4))"

definition simple_escape :: "byte \<Rightarrow> byte" where
  "simple_escape e = (if e = 98 then 8 else if e = 102 then 12 else if e = 110 then 10 else if e = 114 then 13
     else if e = 116 then 9 else e)"

text \<open>The loop that copies; a step consumes at least one character.\<close>

definition copy_step :: "byte \<Rightarrow> byte list \<Rightarrow> fault + (byte list \<times> byte list)" where
  "copy_step ch cs =
     (if ch \<noteq> 92 then Inr ([ch], cs)
      else (case cs of [] \<Rightarrow> Inl OutOfBounds
        | e # es \<Rightarrow> if e = 117 then (let (bs, k) = unicode_escape es in run_bind (advance k es) (\<lambda>rest. Inr (bs, rest)))
                    else Inr ([simple_escape e], es)))"

lemma copy_step_length: "copy_step ch cs = Inr (bs, rest) \<Longrightarrow> length rest \<le> length cs"
  by (auto simp: copy_step_def advance_def Let_def split: if_splits list.splits prod.splits)

function str_copy :: "nat \<Rightarrow> byte list \<Rightarrow> byte list \<Rightarrow> fault + (byte list \<times> byte list)" where
  "str_copy cap out s =
     (case s of [] \<Rightarrow> run_bind (put_bytes cap out [0]) (\<lambda>_. Inr (out, []))
      | ch # cs \<Rightarrow>
         if ch = 34 then run_bind (put_bytes cap out [0]) (\<lambda>_. Inr (out, cs))
         else if ch = 0 then run_bind (put_bytes cap out [0]) (\<lambda>_. Inr (out, s))
         else (case copy_step ch cs of Inl e \<Rightarrow> Inl e
           | Inr (bs, rest) \<Rightarrow>
              (case put_bytes cap out bs of Inl e \<Rightarrow> Inl e | Inr out' \<Rightarrow> str_copy cap out' rest)))"
  by pat_completeness auto
termination
  by (relation "measure (\<lambda>(cap, out, s). length s)") (auto dest: copy_step_length)

declare str_copy.simps [simp del]

definition parse_string :: "libc \<Rightarrow> byte list \<Rightarrow> fault + byte list parsed" where
  "parse_string c s =
     (if peek s \<noteq> 34 then Inr (Fail (Some s))
      else run_bind (str_scan (tl s) 0) (\<lambda>len.
        if 2 ^ 31 - 1 \<le> int len then Inl IntOverflow
        else if \<not> calloc_ok c (len + 1) then Inr (Fail None)
        else run_bind (str_copy (len + 1) [] (tl s)) (\<lambda>(out, rest). Inr (Done out rest))))"

definition hex_char :: "nat \<Rightarrow> byte" where
  "hex_char n = (if n < 10 then word_of_nat (48 + n) else word_of_nat (87 + n))"

definition escape_char :: "byte \<Rightarrow> byte list" where
  "escape_char ch =
     (if 31 < ch \<and> ch \<noteq> 34 \<and> ch \<noteq> 92 then [ch]
      else if ch = 92 then [92, 92] else if ch = 34 then [92, 34] else if ch = 8 then [92, 98]
      else if ch = 12 then [92, 102] else if ch = 10 then [92, 110] else if ch = 13 then [92, 114]
      else if ch = 9 then [92, 116]
      else [92, 117, 48, 48, hex_char (unat ch div 16), hex_char (unat ch mod 16)])"

definition escape_size :: "byte \<Rightarrow> nat" where
  "escape_size ch = (if ch \<in> {34, 92, 8, 12, 10, 13, 9} then 2 else if ch < 32 then 6 else 1)"

definition shjson_strdup :: "libc \<Rightarrow> byte list \<Rightarrow> byte list ptr" where
  "shjson_strdup c s = (if calloc_ok c (length s + 1) then Some s else None)"

text \<open>The length is an \<open>int\<close> that only grows: it overflows when the size asked for, \<open>len + 3\<close>, is not
  an \<open>int\<close>.\<close>

definition print_string_ptr :: "libc \<Rightarrow> byte list ptr \<Rightarrow> fault + byte list ptr" where
  "print_string_ptr c str =
     (case str of None \<Rightarrow> Inr (shjson_strdup c [34, 34])
      | Some s \<Rightarrow>
         (let len = sum_list (map escape_size s); out = 34 # concat (map escape_char s) @ [34] in
          if 2 ^ 31 \<le> int (len + 3) then Inl IntOverflow
          else if \<not> calloc_ok c (len + 3) then Inr None
          else if len + 3 < length out + 1 then Inl OutOfBounds else Inr (Some out)))"

section \<open>Parsing values\<close>

definition new_item :: "'d fpu \<Rightarrow> 'd shjson" where
  "new_item fp = Item 0 [] None 0 (fp_of_int fp 0) None"

definition set_name :: "byte list ptr \<Rightarrow> 'd shjson \<Rightarrow> 'd shjson" where
  "set_name name item = (case item of Item t ch vs vi vd _ \<Rightarrow> Item t ch vs vi vd name)"

text \<open>The literals, strings and numbers: \<open>None\<close> when the text starts with none of them.\<close>

definition parse_scalar :: "libc \<Rightarrow> 'd fpu \<Rightarrow> byte list \<Rightarrow> (fault + 'd shjson parsed) option" where
  "parse_scalar c fp s =
     (let zero = fp_of_int fp 0 in
      if take 4 s = [110, 117, 108, 108] then Some (Inr (Done (Item shjson_NULL [] None 0 zero None) (drop 4 s)))
      else if take 5 s = [102, 97, 108, 115, 101] then Some (Inr (Done (Item shjson_False [] None 0 zero None) (drop 5 s)))
      else if take 4 s = [116, 114, 117, 101] then Some (Inr (Done (Item shjson_True [] None 1 zero None) (drop 4 s)))
      else if peek s = 34
      then Some (parse_bind (parse_string c s) (\<lambda>str r. Inr (Done (Item shjson_String [] (Some str) 0 zero None) r)))
      else if peek s = 45 \<or> is_digit (peek s)
      then Some (run_bind (parse_number fp s) (\<lambda>((i, d), r). Inr (Done (Item shjson_Number [] None i d None) r)))
      else None)"

text \<open>The name of a member and the colon after it; the result is the text of the value.\<close>

definition parse_name :: "libc \<Rightarrow> byte list \<Rightarrow> fault + byte list parsed" where
  "parse_name c s =
     parse_bind (parse_string c s) (\<lambda>name r.
       let r1 = skip r in if peek r1 \<noteq> 58 then Inr (Fail (Some r1)) else Inr (Done name (skip (tl r1))))"

definition parse_key :: "libc \<Rightarrow> bool \<Rightarrow> byte list \<Rightarrow> fault + byte list ptr parsed" where
  "parse_key c obj s =
     (if obj then parse_bind (parse_name c (skip s)) (\<lambda>name r. Inr (Done (Some name) r)) else Inr (Done None (skip s)))"

text \<open>The recursion is counted: every call has one less than its caller, and running out of the count is the
  fault \<open>Diverge\<close>.  \<open>parse_items\<close> is the rest of an array (\<open>obj\<close> false) or object after an opening
  bracket or a comma, with the items parsed so far.\<close>

fun parse_value :: "libc \<Rightarrow> 'd fpu \<Rightarrow> nat \<Rightarrow> byte list \<Rightarrow> fault + 'd shjson parsed"
  and parse_items :: "libc \<Rightarrow> 'd fpu \<Rightarrow> nat \<Rightarrow> bool \<Rightarrow> 'd shjson list \<Rightarrow> byte list \<Rightarrow> fault + 'd shjson list parsed" where
  "parse_value c fp 0 s = Inl Diverge"
| "parse_value c fp (Suc n) s =
     (case parse_scalar c fp s of Some r \<Rightarrow> r
      | None \<Rightarrow>
         if peek s = 91 \<or> peek s = 123
         then (let obj = (peek s = 123); s1 = skip (tl s);
                   make = (\<lambda>ch. Item (if obj then shjson_Object else shjson_Array) ch None 0 (fp_of_int fp 0) None) in
               if peek s1 = (if obj then 125 else 93) then Inr (Done (make []) (tl s1))
               else parse_bind (parse_items c fp n obj [] s1) (\<lambda>ch r. Inr (Done (make ch) r)))
         else Inr (Fail (Some s)))"
| "parse_items c fp 0 obj acc s = Inl Diverge"
| "parse_items c fp (Suc n) obj acc s =
     (if \<not> calloc_ok c SHJSON_SIZE then Inr (Fail None)
      else parse_bind (parse_key c obj s) (\<lambda>name r.
        parse_bind (parse_value c fp n r) (\<lambda>x r1.
          let r2 = skip r1; acc' = acc @ [set_name name x] in
          if peek r2 = 44 then parse_items c fp n obj acc' (tl r2)
          else if peek r2 = (if obj then 125 else 93) then Inr (Done acc' (tl r2))
          else Inr (Fail (Some r2)))))"

definition json_fuel :: "byte list \<Rightarrow> nat" where
  "json_fuel s = 2 * length s + 1"

text \<open>The result: the item or the error pointer, and the text behind the value.\<close>

definition shjson_ParseWithOpts ::
    "libc \<Rightarrow> 'd fpu \<Rightarrow> byte list \<Rightarrow> bool \<Rightarrow> fault + 'd shjson parsed" where
  "shjson_ParseWithOpts c fp value require_null_terminated =
     (if \<not> calloc_ok c SHJSON_SIZE then Inr (Fail None)
      else let s = skip value in
        parse_bind (parse_value c fp (json_fuel s) s) (\<lambda>x rest.
          if require_null_terminated
          then (let rest' = skip rest in if peek rest' \<noteq> 0 then Inr (Fail (Some rest')) else Inr (Done x rest'))
          else Inr (Done x rest)))"

definition shjson_Parse :: "libc \<Rightarrow> 'd fpu \<Rightarrow> byte list \<Rightarrow> fault + 'd shjson parsed" where
  "shjson_Parse c fp value = shjson_ParseWithOpts c fp value False"

section \<open>Printing values\<close>

text \<open>The loop of \<open>print_array\<close>, which stops at the first entry that fails, and the loop of \<open>print_object\<close>, which
  prints all of them.\<close>

fun array_entries :: "(fault + byte list ptr) list \<Rightarrow> fault + byte list list ptr" where
  "array_entries [] = Inr (Some [])"
| "array_entries (r # rs) =
     run_bind r (\<lambda>t. case t of None \<Rightarrow> Inr None
       | Some x \<Rightarrow> run_bind (array_entries rs) (\<lambda>ts. Inr (map_option (\<lambda>xs. x # xs) ts)))"

fun all_texts :: "(fault + byte list ptr) list \<Rightarrow> fault + byte list list ptr" where
  "all_texts [] = Inr (Some [])"
| "all_texts (r # rs) =
     run_bind r (\<lambda>t. run_bind (all_texts rs) (\<lambda>ts.
       Inr (case (t, ts) of (Some x, Some xs) \<Rightarrow> Some (x # xs) | _ \<Rightarrow> None)))"

definition compose :: "libc \<Rightarrow> nat \<Rightarrow> byte list \<Rightarrow> fault + byte list ptr" where
  "compose c len out =
     (if \<not> calloc_ok c len then Inr None else if len < length out + 1 then Inl OutOfBounds else Inr (Some out))"

fun join_items :: "bool \<Rightarrow> byte list list \<Rightarrow> byte list" where
  "join_items fmt [] = []"
| "join_items fmt [t] = t"
| "join_items fmt (t # ts) = t @ 44 # (if fmt then [32] else []) @ join_items fmt ts"

text \<open>\<open>len += n\<close> for an \<open>int\<close> and a \<open>size_t\<close>: the sum is taken in \<open>size_t\<close> and converted back.\<close>

definition len_add :: "int \<Rightarrow> nat \<Rightarrow> int" where
  "len_add len n = signed_take_bit 31 ((len mod 2 ^ 64 + int n) mod 2 ^ 64)"

text \<open>\<open>depth\<close> is that of the array itself; the number of entries and the depth of the children are \<open>int\<close>s.\<close>

definition print_array ::
    "libc \<Rightarrow> bool \<Rightarrow> nat \<Rightarrow> (fault + byte list ptr) list \<Rightarrow> fault + byte list ptr" where
  "print_array c fmt depth entries =
     (if entries = [] then compose c 3 [91, 93]
      else if 2 ^ 31 \<le> int (length entries) then Inl IntOverflow
      else if \<not> calloc_ok c (length entries * 8) then Inr None
      else if 2 ^ 31 \<le> int (depth + 1) then Inl IntOverflow
      else run_bind (array_entries entries) (\<lambda>r.
        case r of None \<Rightarrow> Inr None
        | Some ts \<Rightarrow>
            let len = foldl (\<lambda>len t. len_add len (length t + 2 + (if fmt then 1 else 0))) 5 ts in
            compose c (size_of_int len) (91 # join_items fmt ts @ [93])))"

fun join_members :: "bool \<Rightarrow> nat \<Rightarrow> (byte list \<times> byte list) list \<Rightarrow> byte list" where
  "join_members fmt depth [] = []"
| "join_members fmt depth ((name, t) # ms) =
     (if fmt then replicate depth 9 else []) @ name @ 58 # (if fmt then [9] else []) @ t @
     (if ms \<noteq> [] then [44] else []) @ (if fmt then [10] else []) @ join_members fmt depth ms"

text \<open>\<open>depth\<close> is that of the object itself.\<close>

definition print_object ::
    "libc \<Rightarrow> bool \<Rightarrow> nat \<Rightarrow> (fault + byte list ptr) list \<Rightarrow> (fault + byte list ptr) list \<Rightarrow> fault + byte list ptr" where
  "print_object c fmt depth names entries =
     (if entries = []
      then (if fmt \<and> 2 ^ 31 \<le> int (depth + 4) then Inl IntOverflow
            else compose c (if fmt then depth + 4 else 3)
              (123 # (if fmt then 10 # replicate (depth - 1) 9 else []) @ [125]))
      else if 2 ^ 31 \<le> int (length entries) then Inl IntOverflow
      else if \<not> calloc_ok c (length entries * 8) then Inr None
      else if 2 ^ 31 \<le> int (depth + 1) \<or> fmt \<and> 2 ^ 31 \<le> 7 + int (depth + 1) then Inl IntOverflow
      else run_bind (all_texts names) (\<lambda>ns. run_bind (all_texts entries) (\<lambda>ts.
        case (ns, ts) of
          (Some ns, Some ts) \<Rightarrow>
            let d = depth + 1;
                len = foldl (\<lambda>len (n, t). len_add len (length t + length n + 2 + (if fmt then 2 + d else 0)))
                  (7 + (if fmt then int d else 0)) (zip ns ts) in
            compose c (size_of_int len)
              (123 # (if fmt then [10] else []) @ join_members fmt d (zip ns ts) @
               (if fmt then replicate (d - 1) 9 else []) @ [125])
        | _ \<Rightarrow> Inr None)))"

fun print_value :: "libc \<Rightarrow> 'd fpu \<Rightarrow> bool \<Rightarrow> nat \<Rightarrow> 'd shjson \<Rightarrow> fault + byte list ptr"
  and print_values :: "libc \<Rightarrow> 'd fpu \<Rightarrow> bool \<Rightarrow> nat \<Rightarrow> 'd shjson list \<Rightarrow> (fault + byte list ptr) list" where
  "print_value c fp fmt depth (Item ty ch vs vi vd name) =
     (let t = ty AND 255 in
      if t = shjson_NULL then Inr (shjson_strdup c [110, 117, 108, 108])
      else if t = shjson_False then Inr (shjson_strdup c [102, 97, 108, 115, 101])
      else if t = shjson_True then Inr (shjson_strdup c [116, 114, 117, 101])
      else if t = shjson_Number then print_number c fp vi vd
      else if t = shjson_String then print_string_ptr c vs
      else if t = shjson_Array then print_array c fmt depth (print_values c fp fmt (depth + 1) ch)
      else if t = shjson_Object
      then print_object c fmt depth (map (print_string_ptr c) (map js_string ch)) (print_values c fp fmt (depth + 1) ch)
      else Inr None)"
| "print_values c fp fmt depth [] = []"
| "print_values c fp fmt depth (x # xs) = print_value c fp fmt depth x # print_values c fp fmt depth xs"

definition shjson_Print :: "libc \<Rightarrow> 'd fpu \<Rightarrow> 'd shjson ptr \<Rightarrow> fault + byte list ptr" where
  "shjson_Print c fp item = (case item of None \<Rightarrow> Inr None | Some x \<Rightarrow> print_value c fp True 0 x)"

definition shjson_PrintUnformatted :: "libc \<Rightarrow> 'd fpu \<Rightarrow> 'd shjson ptr \<Rightarrow> fault + byte list ptr" where
  "shjson_PrintUnformatted c fp item = (case item of None \<Rightarrow> Inr None | Some x \<Rightarrow> print_value c fp False 0 x)"

definition shjson_print :: "libc \<Rightarrow> 'd fpu \<Rightarrow> 'd shjson ptr \<Rightarrow> fault + byte list ptr" where
  "shjson_print c fp json = shjson_PrintUnformatted c fp json"

section \<open>Strings round trip\<close>

lemma hex_table: "list_all (\<lambda>n. hex_val (hex_char n) = Some n) [0..<16]"
  by code_simp

lemma hex_val_char: "n < 16 \<Longrightarrow> hex_val (hex_char n) = Some n"
  using hex_table unfolding list_all_iff by simp

lemma hex_val_zero: "hex_val 48 = Some 0"
  by code_simp

lemma unicode_escape_control:
  assumes "ch < 32" "ch \<noteq> 0"
  shows "unicode_escape (48 # 48 # hex_char (unat ch div 16) # hex_char (unat ch mod 16) # r) = ([ch], 4)"
proof -
  have u: "unat ch < 32" using assms(1) by (simp add: word_less_nat_alt)
  let ?uc = "parse_hex4 (48 # 48 # hex_char (unat ch div 16) # hex_char (unat ch mod 16) # r)"
  have lt: "unat (ucast ch :: u32) = unat ch"
    using u by (simp add: unsigned_ucast_eq take_bit_nat_eq_self)
  have "?uc = word_of_nat (unat ch)" using u by (simp add: parse_hex4_def hex_val_zero hex_val_char)
  then have uc: "?uc = ucast ch"
    using u lt by (simp add: word_eq_iff_unsigned unsigned_of_nat take_bit_nat_eq_self)
  have narrow: "ucast (ucast ch :: u32) = ch"
    by (intro bit_word_eqI) (auto simp: bit_simps dest: bit_imp_le_length)
  have cmp: "\<not> 0xDC00 \<le> (ucast ch :: u32)" "\<not> 0xD800 \<le> (ucast ch :: u32)" "(ucast ch :: u32) < 0x80" "(ucast ch :: u32) \<noteq> 0"
    using u assms(2) by (simp_all add: word_le_nat_alt word_less_nat_alt lt unat_eq_0 flip: unat_eq_0)
  show ?thesis
    unfolding unicode_escape_def uc Let_def using cmp narrow by (simp add: utf8_def)
qed

lemma copy_step_escape:
  assumes "ch \<noteq> 0"
  obtains b bs where "escape_char ch = b # bs" "b \<noteq> 34" "b \<noteq> 0" "\<And>r. copy_step b (bs @ r) = Inr ([ch], r)"
proof -
  consider (plain) "31 < ch" "ch \<noteq> 34" "ch \<noteq> 92" | (simple) "ch \<in> {92, 34, 8, 12, 10, 13, 9}"
    | (control) "ch < 32" "ch \<notin> {92, 34, 8, 12, 10, 13, 9}"
    by (cases "31 < ch") (auto simp: word_less_nat_alt word_le_nat_alt not_less)
  then show ?thesis
  proof cases
    case plain
    then show ?thesis using assms by (intro that [of ch "[]"]) (auto simp: escape_char_def copy_step_def)
  next
    case simple
    then show ?thesis
      by (elim insertE emptyE) (auto intro!: that simp: escape_char_def copy_step_def simple_escape_def)
  next
    case control
    then have "escape_char ch = 92 # [117, 48, 48, hex_char (unat ch div 16), hex_char (unat ch mod 16)]"
      by (auto simp: escape_char_def word_less_nat_alt)
    then show ?thesis
      using unicode_escape_control [OF control(1) assms]
      by (intro that) (auto simp: copy_step_def advance_def Let_def)
  qed
qed

text \<open>How many characters the counting loop sees in an escaped character.\<close>

definition scan_units :: "byte \<Rightarrow> nat" where
  "scan_units ch = (if length (escape_char ch) = 6 then 5 else 1)"

lemma hex_char_table: "list_all (\<lambda>n. hex_char n \<noteq> 34 \<and> hex_char n \<noteq> 92 \<and> hex_char n \<noteq> 0) [0..<16]"
  by code_simp

lemma hex_char_plain: "n < 16 \<Longrightarrow> hex_char n \<noteq> 34 \<and> hex_char n \<noteq> 92 \<and> hex_char n \<noteq> 0"
  using hex_char_table unfolding list_all_iff by simp

lemma escape_char_cases:
  obtains (plain) "31 < ch" "ch \<noteq> 34" "ch \<noteq> 92" "escape_char ch = [ch]"
    | (simple) e where "escape_char ch = [92, e]"
    | (control) "escape_char ch = [92, 117, 48, 48, hex_char (unat ch div 16), hex_char (unat ch mod 16)]"
proof -
  consider "31 < ch" "ch \<noteq> 34" "ch \<noteq> 92" | "ch \<in> {92, 34, 8, 12, 10, 13, 9}"
    | "\<not> 31 < ch" "ch \<notin> {92, 34, 8, 12, 10, 13, 9}" by blast
  then show thesis
  proof cases
    case 1
    then show thesis using plain by (simp add: escape_char_def)
  next
    case 2
    have "\<exists>e. escape_char ch = [92, e]"
      using 2 by (elim insertE emptyE) (simp_all add: escape_char_def)
    then show thesis using simple by blast
  next
    case 3
    then show thesis using control by (simp add: escape_char_def)
  qed
qed

lemma str_scan_escape:
  assumes "ch \<noteq> 0" "n + scan_units ch < 2 ^ 31"
  shows "str_scan (escape_char ch @ r) n = str_scan r (n + scan_units ch)"
proof (cases ch rule: escape_char_cases)
  case control
  have five: "Suc (Suc (Suc (Suc (Suc n)))) = n + 5" by simp
  have "unat ch < 2 ^ 8" using unsigned_less [of ch, where 'a = nat] by simp
  then have "unat ch div 16 < 16" by simp
  moreover have "n + 5 < 2 ^ 31" using assms(2) control by (simp add: scan_units_def)
  ultimately show ?thesis
    using control hex_char_plain [of "unat ch div 16"] hex_char_plain [of "unat ch mod 16"]
    by (simp add: scan_units_def five)
next
  case plain
  then show ?thesis using assms by (simp add: scan_units_def)
next
  case simple
  then show ?thesis using assms(2) by (simp add: scan_units_def)
qed

lemma str_scan_string:
  "0 \<notin> set s \<Longrightarrow> n + sum_list (map scan_units s) < 2 ^ 31 \<Longrightarrow>
     str_scan (concat (map escape_char s) @ 34 # r) n = Inr (n + sum_list (map scan_units s))"
  by (induction s arbitrary: n) (simp_all add: str_scan_escape)

lemma scan_units_bounds: "length s \<le> sum_list (map scan_units s)" "sum_list (map scan_units s) \<le> 5 * length s"
  by (induction s) (auto simp: scan_units_def)

text \<open>A string no count of which leaves \<open>int\<close>: an escape has at most six characters.\<close>

definition short_string :: "byte list \<Rightarrow> bool" where
  "short_string s \<longleftrightarrow> 6 * length s + 3 < 2 ^ 31"

lemma str_copy_string:
  "0 \<notin> set s \<Longrightarrow> length out + length s < cap \<Longrightarrow>
     str_copy cap out (concat (map escape_char s) @ 34 # r) = Inr (out @ s, r)"
proof (induction s arbitrary: out)
  case Nil
  then show ?case by (simp add: str_copy.simps put_bytes_def)
next
  case (Cons ch s)
  then have "ch \<noteq> 0" by auto
  then obtain b bs where b: "escape_char ch = b # bs" "b \<noteq> 34" "b \<noteq> 0" "\<And>r. copy_step b (bs @ r) = Inr ([ch], r)"
    using copy_step_escape [of ch] by metis
  have "str_copy cap out (concat (map escape_char (ch # s)) @ 34 # r) =
      str_copy cap (out @ [ch]) (concat (map escape_char s) @ 34 # r)"
    using b Cons.prems(2) by (subst str_copy.simps) (simp add: put_bytes_def)
  then show ?case using Cons.IH [of "out @ [ch]"] Cons.prems by simp
qed

definition quote :: "byte list \<Rightarrow> byte list" where
  "quote s = 34 # concat (map escape_char s) @ [34]"

lemma parse_string_quote:
  assumes "0 \<notin> set s" "libc_total c" "short_string s"
  shows "parse_string c (quote s @ r) = Inr (Done s r)"
proof -
  have small: "sum_list (map scan_units s) < 2 ^ 31 - 1"
    using scan_units_bounds(2) [of s] assms(3) by (simp add: short_string_def)
  have "length s \<le> sum_list (map scan_units s)" by (rule scan_units_bounds)
  then have "str_copy (sum_list (map scan_units s) + 1) [] (concat (map escape_char s) @ 34 # r) = Inr (s, r)"
    using str_copy_string [OF assms(1), of "[]"] by simp
  then show ?thesis
    using str_scan_string [OF assms(1), of 0 r] small assms(2) by (simp add: parse_string_def quote_def peek_def)
qed

lemma escape_char_length: "ch \<noteq> 0 \<Longrightarrow> length (escape_char ch) = escape_size ch"
  by (auto simp: escape_char_def escape_size_def word_less_nat_alt not_less)

lemma print_string_quote:
  assumes "0 \<notin> set s" "libc_total c" "short_string s"
  shows "print_string_ptr c (Some s) = Inr (Some (quote s))"
proof -
  have "length (concat (map escape_char s)) = sum_list (map escape_size s)"
    using assms(1) by (induction s) (auto simp: escape_char_length)
  moreover have "sum_list (map escape_size s) \<le> 6 * length s"
    by (induction s) (auto simp: escape_size_def)
  ultimately show ?thesis using assms(2,3) by (simp add: print_string_ptr_def quote_def short_string_def)
qed

lemma quote_length: "length (quote s) \<le> 6 * length s + 2"
proof -
  have "length (escape_char ch) \<le> 6" for ch by (simp add: escape_char_def)
  then have "length (concat (map escape_char s)) \<le> 6 * length s" by (induction s) (auto intro: add_mono)
  then show ?thesis by (simp add: quote_def)
qed

section \<open>Numbers round trip\<close>

text \<open>What the round trip needs of the floating-point unit, as IEEE 754 doubles have it: sums and products of integers
  of up to 53 bits are exact (a zero product of a negative number is \<open>-0.0\<close>, and left out), \<open>pow (10, 0)\<close> is 1,
  and an \<open>int\<close> survives the conversion and is recognised.\<close>

definition exact_ints :: "'d fpu \<Rightarrow> bool" where
  "exact_ints fp \<longleftrightarrow>
     (\<forall>a b. \<bar>a\<bar> \<le> 2 ^ 53 \<longrightarrow> \<bar>b\<bar> \<le> 2 ^ 53 \<longrightarrow> \<bar>a * b\<bar> \<le> 2 ^ 53 \<longrightarrow> (a * b = 0 \<longrightarrow> 0 \<le> a \<and> 0 \<le> b) \<longrightarrow>
        fp_mul fp (fp_of_int fp a) (fp_of_int fp b) = fp_of_int fp (a * b)) \<and>
     (\<forall>a b. \<bar>a\<bar> \<le> 2 ^ 53 \<longrightarrow> \<bar>b\<bar> \<le> 2 ^ 53 \<longrightarrow> \<bar>a + b\<bar> \<le> 2 ^ 53 \<longrightarrow>
        fp_add fp (fp_of_int fp a) (fp_of_int fp b) = fp_of_int fp (a + b)) \<and>
     fp_pow10 fp 0 = fp_of_int fp 1 \<and>
     (\<forall>i. - (2 ^ 31) \<le> i \<and> i < 2 ^ 31 \<longrightarrow> fp_to_int fp (fp_of_int fp i) = i \<and> fp_is_int fp i (fp_of_int fp i))"

lemma exact_intsD:
  assumes "exact_ints fp" "\<bar>a\<bar> \<le> 2 ^ 53" "\<bar>b\<bar> \<le> 2 ^ 53"
  shows "\<bar>a * b\<bar> \<le> 2 ^ 53 \<Longrightarrow> (a * b = 0 \<Longrightarrow> 0 \<le> a \<and> 0 \<le> b) \<Longrightarrow>
      fp_mul fp (fp_of_int fp a) (fp_of_int fp b) = fp_of_int fp (a * b)"
    and "\<bar>a + b\<bar> \<le> 2 ^ 53 \<Longrightarrow> fp_add fp (fp_of_int fp a) (fp_of_int fp b) = fp_of_int fp (a + b)"
  using assms unfolding exact_ints_def by blast+

definition num_end :: "byte list \<Rightarrow> bool" where
  "num_end r \<longleftrightarrow> \<not> is_digit (peek r) \<and> peek r \<notin> {46, 101, 69}"

lemma num_digits_end: "\<not> is_digit (peek r) \<Longrightarrow> num_digits fp n r k = (n, k, r)"
  by (cases r) (simp_all add: peek_def)

lemma digit_table: "list_all (\<lambda>n. is_digit (word_of_nat (48 + n)) \<and> uint (word_of_nat (48 + n) :: byte) = 48 + int n) [0..<10]"
  by code_simp

lemma digit_char: "n < 10 \<Longrightarrow> is_digit (word_of_nat (48 + n)) \<and> uint (word_of_nat (48 + n) :: byte) = 48 + int n"
  using digit_table unfolding list_all_iff by simp

lemma num_digits_dec:
  assumes "exact_ints fp"
  shows "n \<le> 2 ^ 53 \<Longrightarrow>
    num_digits fp (fp_of_int fp 0) (dec_digits n @ r) k = num_digits fp (fp_of_int fp (int n)) r (k + length (dec_digits n))"
proof (induction n arbitrary: r rule: dec_digits.induct)
  case (1 n)
  have step: "num_digits fp (fp_of_int fp (int a)) (word_of_nat (48 + d) # r) j =
      num_digits fp (fp_of_int fp (int (10 * a + d))) r (j + 1)" if "d < 10" "10 * a + d \<le> 2 ^ 53" for a d j
  proof -
    have "fp_mul fp (fp_of_int fp (int a)) (fp_of_int fp 10) = fp_of_int fp (int a * 10)"
      using that by (intro exact_intsD [OF assms]) auto
    moreover have "fp_add fp (fp_of_int fp (int a * 10)) (fp_of_int fp (int d)) = fp_of_int fp (int a * 10 + int d)"
      using that by (intro exact_intsD [OF assms]) auto
    ultimately have "fp_add fp (fp_mul fp (fp_of_int fp (int a)) (fp_of_int fp 10)) (fp_of_int fp (int d)) = fp_of_int fp (int (10 * a + d))"
      by (simp add: mult.commute)
    then show ?thesis using digit_char [OF that(1)] by simp
  qed
  show ?case
  proof (cases "n < 10")
    case True
    then show ?thesis using step [of n 0 k] 1(2) by (simp add: dec_digits.simps [of n])
  next
    case False
    have "n = 10 * (n div 10) + n mod 10" by simp
    moreover have "n div 10 \<le> 2 ^ 53" using 1(2) by linarith
    ultimately show ?thesis
      using 1(1) [OF False, of "word_of_nat (48 + n mod 10) # r"] step [of "n mod 10" "n div 10"] 1(2) False
      by (simp add: dec_digits.simps [of n])
  qed
qed

lemma dec_digits_head:
  "\<exists>ch cs. dec_digits n = ch # cs \<and> is_digit ch \<and> (ch = 48 \<longleftrightarrow> n = 0) \<and> (n = 0 \<longrightarrow> cs = [])"
proof (induction n rule: dec_digits.induct)
  case (1 n)
  show ?case
  proof (cases "n < 10")
    case True
    then have "uint (word_of_nat (48 + n) :: byte) = 48 + int n" "is_digit (word_of_nat (48 + n))" using digit_char by auto
    then show ?thesis using True by (auto simp: dec_digits.simps [of n] word_eq_iff_unsigned)
  next
    case False
    then show ?thesis using 1 [OF False] by (auto simp: dec_digits.simps [of n])
  qed
qed

lemma is_digit_45 [simp]: "\<not> is_digit 45" "\<not> is_digit 0"
  by (simp_all add: is_digit_def)

lemma parse_number_dec:
  assumes "exact_ints fp" "n \<le> 2 ^ 31" "num_end r"
  shows "\<exists>k. (let s = dec_digits n @ r; s2 = (if peek s = 48 then tl s else s) in
      if is_digit (peek s2) \<and> peek s2 \<noteq> 48 then num_digits fp (fp_of_int fp 0) s2 0 else (fp_of_int fp 0, 0, s2)) =
    (fp_of_int fp (int n), k, r)"
proof -
  obtain ch cs where h: "dec_digits n = ch # cs" "is_digit ch" "ch = 48 \<longleftrightarrow> n = 0" "n = 0 \<longrightarrow> cs = []"
    using dec_digits_head [of n] by blast
  show ?thesis
  proof (cases "n = 0")
    case True
    then show ?thesis using h assms(3) by (simp add: peek_def num_end_def split: list.splits)
  next
    case False
    then have "num_digits fp (fp_of_int fp 0) (dec_digits n @ r) 0 = (fp_of_int fp (int n), length (dec_digits n), r)"
      using num_digits_dec [OF assms(1), of n r 0] assms(2,3) num_digits_end [of r] by (simp add: num_end_def)
    then show ?thesis using h False by (simp add: peek_def)
  qed
qed

lemma parse_number_print:
  assumes "exact_ints fp" "- (2 ^ 31) \<le> i" "i < 2 ^ 31" "num_end r"
  shows "parse_number fp (fmt_d i @ r) = Inr ((i, fp_of_int fp i), r)"
proof -
  define n where "n = nat \<bar>i\<bar>"
  define sg :: int where "sg = (if i < 0 then - 1 else 1)"
  have n: "n \<le> 2 ^ 31" "i = sg * int n" using assms(2,3) by (auto simp: n_def sg_def)
  obtain ch cs where h: "dec_digits n = ch # cs" "is_digit ch" using dec_digits_head [of n] by blast
  have sgn: "(if peek (fmt_d i @ r) = 45 then (- 1, tl (fmt_d i @ r)) else (1, fmt_d i @ r)) = (sg, dec_digits n @ r)"
    using h by (auto simp: fmt_d_def sg_def n_def peek_def is_digit_def)
  obtain k where d: "(if is_digit (peek (if peek (dec_digits n @ r) = 48 then tl (dec_digits n @ r) else dec_digits n @ r)) \<and>
        peek (if peek (dec_digits n @ r) = 48 then tl (dec_digits n @ r) else dec_digits n @ r) \<noteq> 48
      then num_digits fp (fp_of_int fp 0) (if peek (dec_digits n @ r) = 48 then tl (dec_digits n @ r) else dec_digits n @ r) 0
      else (fp_of_int fp 0, 0, if peek (dec_digits n @ r) = 48 then tl (dec_digits n @ r) else dec_digits n @ r)) =
    (fp_of_int fp (int n), k, r)"
    using parse_number_dec [OF assms(1) n(1) assms(4)] by (auto simp: Let_def)
  have e: "num_exponent r = Inr (0, r)" "(if peek r = 46 \<and> is_digit (peek (tl r)) then num_digits fp x (tl r) 0 else (x, 0, r)) = (x, 0, r)" for x
    using assms(4) by (auto simp: num_end_def num_exponent_def)
  have "fp_mul fp (fp_of_int fp sg) (fp_of_int fp (int n)) = fp_of_int fp (sg * int n)"
    using n(1) by (intro exact_intsD [OF assms(1)]) (auto simp: sg_def n_def)
  moreover have "fp_mul fp (fp_of_int fp i) (fp_of_int fp 1) = fp_of_int fp (i * 1)"
    using assms(2,3) by (intro exact_intsD [OF assms(1)]) auto
  moreover have "fp_pow10 fp 0 = fp_of_int fp 1" using assms(1) by (simp add: exact_ints_def)
  ultimately have "fp_mul fp (fp_mul fp (fp_of_int fp sg) (fp_of_int fp (int n))) (fp_pow10 fp 0) = fp_of_int fp i"
    by (simp flip: n(2))
  moreover have "fp_to_int fp (fp_of_int fp i) = i" using assms(1-3) by (simp add: exact_ints_def)
  ultimately show ?thesis
    unfolding parse_number_def Let_def sgn prod.case d e by simp
qed

lemma dec_digits_length: "n < 10 ^ k \<Longrightarrow> 0 < k \<Longrightarrow> length (dec_digits n) \<le> k"
proof (induction n arbitrary: k rule: dec_digits.induct)
  case (1 n)
  show ?case
  proof (cases "n < 10")
    case False
    then have "1 < k" using 1(2,3) by (cases "k = 1") auto
    then have "n div 10 < 10 ^ (k - 1)" using 1(2) by (cases k) auto
    then show ?thesis using 1(1) [OF False, of "k - 1"] \<open>1 < k\<close> False by (simp add: dec_digits.simps [of n])
  qed (use 1(3) in \<open>simp add: dec_digits.simps [of n]\<close>)
qed

lemma print_number_int:
  assumes "fp_is_int fp i d" "- (2 ^ 31) \<le> i" "i < 2 ^ 31" "libc_total c"
  shows "print_number c fp i d = Inr (Some (fmt_d i))"
proof -
  have "nat \<bar>i\<bar> < 10 ^ 10" using assms(2,3) by simp
  then have "length (dec_digits (nat \<bar>i\<bar>)) \<le> 10" by (intro dec_digits_length) simp_all
  then have "length (fmt_d i) \<le> 11" by (simp add: fmt_d_def abs_if split: if_splits)
  then show ?thesis using assms(1,4) by (simp add: print_number_def Let_def)
qed

section \<open>Parsing returns\<close>

text \<open>\<open>consumes m s\<close>: the parser does not run out of its count, and leaves a suffix no longer than \<open>s\<close>.\<close>

definition consumes :: "fault + 'a parsed \<Rightarrow> byte list \<Rightarrow> bool" where
  "consumes m s \<longleftrightarrow> m \<noteq> Inl Diverge \<and> (\<forall>x r. m = Inr (Done x r) \<longrightarrow> length r \<le> length s)"

lemma consumes_simps [simp]:
  "consumes (Inl e) s \<longleftrightarrow> e \<noteq> Diverge" "consumes (Inr (Fail p)) s" "consumes (Inr (Done x r)) s \<longleftrightarrow> length r \<le> length s"
  by (auto simp: consumes_def)

lemma consumes_bind:
  assumes "consumes m s" "\<And>x r. length r \<le> length s \<Longrightarrow> consumes (f x r) s"
  shows "consumes (parse_bind m f) s"
proof (cases m)
  case (Inr p)
  then show ?thesis using assms by (cases p) simp_all
qed (use assms(1) in simp)

lemma consumes_mono: "consumes m r \<Longrightarrow> length r \<le> length s \<Longrightarrow> consumes m s"
  by (auto simp: consumes_def)

lemma skip_length: "length (skip s) \<le> length s"
  by (simp add: skip_def length_dropWhile_le)

lemma str_scan_returns: "str_scan s n \<noteq> Inl Diverge"
  by (induction s n rule: str_scan.induct) (auto split: list.splits)

lemma copy_step_returns: "copy_step ch cs \<noteq> Inl Diverge"
  by (auto simp: copy_step_def advance_def Let_def split: list.splits prod.splits)

lemma str_copy_consumes: "str_copy cap out s \<noteq> Inl Diverge \<and> (\<forall>o' r. str_copy cap out s = Inr (o', r) \<longrightarrow> length r \<le> length s)"
proof (induction cap out s rule: str_copy.induct)
  case (1 cap out s)
  show ?case
  proof (cases s)
    case (Cons ch cs)
    show ?thesis
    proof (cases "copy_step ch cs")
      case (Inr p)
      then obtain bs rest where p: "copy_step ch cs = Inr (bs, rest)" by (cases p) auto
      have "str_copy cap (out @ bs) rest \<noteq> Inl Diverge \<and> (\<forall>o' r. str_copy cap (out @ bs) rest = Inr (o', r) \<longrightarrow> length r \<le> length rest)"
        if "ch \<noteq> 34" "ch \<noteq> 0" "put_bytes cap out bs = Inr (out @ bs)"
        using 1 [OF Cons that(1,2) p refl that(3)] by simp
      then show ?thesis
        using p copy_step_length [OF p] Cons by (subst (1 2) str_copy.simps) (auto simp: put_bytes_def intro: le_trans le_SucI)
    qed (use copy_step_returns [of ch cs] Cons in \<open>auto simp: str_copy.simps [of cap out "ch # cs"] put_bytes_def\<close>)
  qed (auto simp: str_copy.simps [of cap out "[]"] put_bytes_def)
qed

lemma parse_string_consumes: "consumes (parse_string c s) s"
proof (cases "str_scan (tl s) 0")
  case (Inr len)
  show ?thesis
  proof (cases "str_copy (len + 1) [] (tl s)")
    case (Inr p)
    then show ?thesis
      using \<open>str_scan (tl s) 0 = Inr len\<close> str_copy_consumes [of "len + 1" "[]" "tl s"]
      by (cases p) (auto simp: parse_string_def intro: le_trans)
  qed (use Inr str_copy_consumes [of "len + 1" "[]" "tl s"] in \<open>auto simp: parse_string_def\<close>)
qed (use str_scan_returns [of "tl s" 0] in \<open>auto simp: parse_string_def\<close>)

lemma num_digits_length: "num_digits fp n s k = (n', k', r) \<Longrightarrow> length r \<le> length s"
  by (induction fp n s k rule: num_digits.induct) (auto split: if_splits)

lemma exp_digits_consumes:
  "exp_digits e s \<noteq> Inl Diverge \<and> (\<forall>e' r. exp_digits e s = Inr (e', r) \<longrightarrow> length r \<le> length s)"
  by (induction e s rule: exp_digits.induct) (auto simp: int_mul_def int_add_def intro: le_SucI)

lemma num_exponent_consumes:
  "num_exponent s \<noteq> Inl Diverge \<and> (\<forall>e' r. num_exponent s = Inr (e', r) \<longrightarrow> length r \<le> length s)"
proof (cases "peek s = 101 \<or> peek s = 69")
  case True
  obtain sg u where u: "(if peek (tl s) = 43 then (1, tl (tl s)) else if peek (tl s) = 45 then (- 1, tl (tl s)) else (1, tl s)) = (sg :: int, u)"
      "length u \<le> length s"
    by (cases "peek (tl s) = 43"; cases "peek (tl s) = 45") auto
  then have "num_exponent s = run_bind (exp_digits 0 u) (\<lambda>(e, r). Inr (e * sg, r))"
    using True by (simp add: num_exponent_def Let_def)
  then show ?thesis using exp_digits_consumes [of 0 u] u(2) by (cases "exp_digits 0 u") auto
qed (simp add: num_exponent_def)

lemma parse_number_consumes: "consumes (run_bind (parse_number fp s) (\<lambda>(p, r). Inr (Done (f p) r))) s"
proof -
  obtain sg s1 where 1: "(if peek s = 45 then (- 1, tl s) else (1, s)) = (sg :: int, s1)" "length s1 \<le> length s"
    by (cases "peek s = 45") auto
  define s2 where "s2 = (if peek s1 = 48 then tl s1 else s1)"
  have 2: "length s2 \<le> length s1" by (simp add: s2_def)
  obtain n k s3 where 3: "(if is_digit (peek s2) \<and> peek s2 \<noteq> 48 then num_digits fp (fp_of_int fp 0) s2 0 else (fp_of_int fp 0, 0, s2)) = (n, k, s3)"
    using prod_cases3 by blast
  have l3: "length s3 \<le> length s2" using 3 num_digits_length by (fastforce split: if_splits)
  obtain n' k' s4 where 4: "(if peek s3 = 46 \<and> is_digit (peek (tl s3)) then num_digits fp n (tl s3) 0 else (n, 0, s3)) = (n', k', s4)"
    using prod_cases3 by blast
  have l4: "length s4 \<le> length s3" using 4 num_digits_length [of fp n "tl s3" 0] by (fastforce split: if_splits)
  show ?thesis
    unfolding parse_number_def Let_def 1(1) prod.case s2_def [symmetric] 3 4
    using num_exponent_consumes [of s4] 1(2) 2 l3 l4 by (cases "num_exponent s4") auto
qed

lemma parse_scalar_consumes: "parse_scalar c fp s = Some m \<Longrightarrow> consumes m s"
proof -
  have n: "consumes (run_bind (parse_number fp s) (\<lambda>((i, d), r). Inr (Done (Item shjson_Number [] None i d None) r))) s"
    using parse_number_consumes [of fp s "\<lambda>(i, d). Item shjson_Number [] None i d None"] by (simp add: split_def)
  have q: "consumes (parse_bind (parse_string c s) (\<lambda>str r. Inr (Done (Item shjson_String [] (Some str) 0 z None) r))) s" for z
    by (rule consumes_bind [OF parse_string_consumes]) simp
  assume "parse_scalar c fp s = Some m"
  then show ?thesis using n q by (auto simp: parse_scalar_def Let_def split: if_splits)
qed

lemma parse_key_consumes: "consumes (parse_key c obj s) s"
proof -
  have sk: "length (skip (tl (skip r))) \<le> length s" if "length r \<le> length s" for r
    using skip_length [of "tl (skip r)"] skip_length [of r] that by simp
  have "consumes (parse_name c (skip s)) s"
    unfolding parse_name_def
    by (rule consumes_bind [OF consumes_mono [OF parse_string_consumes skip_length]])
      (auto simp: Let_def intro: sk)
  then show ?thesis using skip_length [of s] by (auto simp: parse_key_def intro: consumes_bind)
qed

lemma parse_consumes:
  "2 * length s < n \<Longrightarrow> consumes (parse_value c fp n s) s"
  "2 * length s + 1 < n \<Longrightarrow> consumes (parse_items c fp n obj acc s) s"
proof (induction c fp n s and c fp n obj acc s rule: parse_value_parse_items.induct)
  case (2 c fp n s)
  have items: "consumes (parse_items c fp n b [] (skip (tl s))) s" if "peek s = 91 \<or> peek s = 123" "b = (peek s = 123)" 
      "peek (skip (tl s)) \<noteq> (if b then 125 else 93)" "parse_scalar c fp s = None" for b
  proof -
    have "s \<noteq> []" using that(1) by (auto simp: peek_def)
    moreover have "length (skip (tl s)) \<le> length (tl s)" by (rule skip_length)
    ultimately show ?thesis
      using 2(1) [OF that(4,1) refl refl refl] that(2,3) 2(2) consumes_mono [of _ "skip (tl s)" s] by (cases s) auto
  qed
  show ?case
    using parse_scalar_consumes [of c fp s] skip_length [of "tl s"] items [of True] items [of False]
    by (auto simp: Let_def split: option.splits intro!: consumes_bind intro: le_trans)
next
  case (4 c fp n obj acc s)
  show ?case
  proof (cases "calloc_ok c SHJSON_SIZE")
    case True
    have rest: "consumes (let r2 = skip r1; acc' = acc @ [set_name name x] in
          if peek r2 = 44 then parse_items c fp n obj acc' (tl r2)
          else if peek r2 = (if obj then 125 else 93) then Inr (Done acc' (tl r2)) else Inr (Fail (Some r2))) s"
      if r1: "length r1 \<le> length s" for name x r1
    proof -
      have "length (skip r1) \<le> length s" using skip_length [of r1] r1 by simp
      moreover have "consumes (parse_items c fp n obj (acc @ [set_name name x]) (tl (skip r1))) s" if "peek (skip r1) = 44"
      proof -
        have "skip r1 \<noteq> []" using that by (auto simp: peek_def)
        then have "length (tl (skip r1)) < length s"
          using \<open>length (skip r1) \<le> length s\<close> by (cases "skip r1") auto
        then show ?thesis using 4(2) [OF _ refl refl that] True 4(3)
          by (intro consumes_mono [of _ "tl (skip r1)" s]) simp_all
      qed
      ultimately show ?thesis by (auto simp: Let_def)
    qed
    have "consumes (parse_value c fp n r) s" if "length r \<le> length s" for r
      using 4(1) [of r] True 4(3) that by (intro consumes_mono [of _ r s]) simp_all
    note vals = this
    have "consumes (parse_bind (parse_key c obj s) (\<lambda>name r. parse_bind (parse_value c fp n r) (\<lambda>x r1.
          let r2 = skip r1; acc' = acc @ [set_name name x] in
          if peek r2 = 44 then parse_items c fp n obj acc' (tl r2)
          else if peek r2 = (if obj then 125 else 93) then Inr (Done acc' (tl r2)) else Inr (Fail (Some r2))))) s"
      by (intro consumes_bind parse_key_consumes vals rest)
    then show ?thesis using True by (simp only: parse_items.simps simp_thms if_False)
  qed simp
qed simp_all

text \<open>C25: parsing returns on every text: the recursion never goes deeper than twice the length of the text, so
  the result is an item, an error pointer, or one of the faults the source has.\<close>

theorem shjson_parse_returns: "shjson_ParseWithOpts c fp value require_null_terminated \<noteq> Inl Diverge"
proof -
  have "consumes (parse_value c fp (json_fuel (skip value)) (skip value)) (skip value)"
    by (rule parse_consumes) (simp add: json_fuel_def)
  then have "consumes (shjson_ParseWithOpts c fp value require_null_terminated) (skip value)"
    unfolding shjson_ParseWithOpts_def
    by (auto simp: Let_def intro!: consumes_bind intro: le_trans [OF skip_length])
  then show ?thesis by (simp add: consumes_def)
qed

section \<open>A concrete machine\<close>

text \<open>Doubles replaced by integers: an instance of the arithmetic that is exact.\<close>

definition int_fpu :: "int fpu" where
  "int_fpu = \<lparr>fp_of_int = (\<lambda>i. i), fp_to_int = (\<lambda>i. i), fp_add = (+), fp_mul = (*), fp_pow10 = (\<lambda>e. 10 ^ nat e),
     fp_is_int = (=), fp_text = (\<lambda>_. [])\<rparr>"

lemma int_fpu_exact: "exact_ints int_fpu"
  by (simp add: exact_ints_def int_fpu_def)

definition full_libc :: libc where
  "full_libc = \<lparr>calloc_ok = (\<lambda>_. True), realloc_ok = (\<lambda>_. True), fresh = (\<lambda>_. 0)\<rparr>"

lemma full_libc_total: "libc_total full_libc"
  by (simp add: libc_total_def full_libc_def)

section \<open>The buffer of a string\<close>

definition plain_char :: "byte \<Rightarrow> bool" where
  "plain_char ch \<longleftrightarrow> ch \<noteq> 0 \<and> ch \<noteq> 34 \<and> ch \<noteq> 92"

lemma str_copy_full:
  "list_all plain_char body \<Longrightarrow> length out \<le> cap \<Longrightarrow> cap < length out + length body \<Longrightarrow>
     str_copy cap out (body @ r) = Inl OutOfBounds"
proof (induction body arbitrary: out)
  case (Cons ch body)
  then have "str_copy cap out ((ch # body) @ r) = (if length out < cap then str_copy cap (out @ [ch]) (body @ r) else Inl OutOfBounds)"
    by (subst str_copy.simps) (simp add: plain_char_def copy_step_def put_bytes_def)
  then show ?case using Cons by simp
qed simp

text \<open>C27: the buffer of a string is too small when an escape with \<open>u\<close> is not followed by four digits: the loop that
  measures stops at the quote behind the escape, the loop that copies steps over it, and writes the text that
  follows behind the end of the buffer.\<close>

theorem shjson_parse_overflow:
  assumes "libc_total c" "list_all plain_char body" "2 < length body"
  shows "shjson_Parse c fp ([34, 92, 117, 34, x, y, z] @ body @ r) = Inl OutOfBounds"
proof -
  have "unicode_escape ([34, x, y, z] @ body @ r) = ([], 4)"
    by (simp add: unicode_escape_def parse_hex4_def hex_val_def is_digit_def)
  then have "copy_step 92 (117 # [34, x, y, z] @ body @ r) = Inr ([], body @ r)"
    by (simp add: copy_step_def advance_def)
  then have "str_copy 2 [] (92 # 117 # 34 # x # y # z # body @ r) = str_copy 2 [] (body @ r)"
    by (subst str_copy.simps) (simp add: put_bytes_def)
  also have "\<dots> = Inl OutOfBounds" using assms(2,3) by (intro str_copy_full) auto
  finally have "str_copy (Suc (Suc 0)) [] (92 # 117 # 34 # x # y # z # body @ r) = Inl OutOfBounds"
    by (simp add: numeral_2_eq_2)
  then have "parse_string c (34 # 92 # 117 # 34 # x # y # z # body @ r) = Inl OutOfBounds"
    using assms(1) by (simp add: parse_string_def peek_def)
  then show ?thesis
    using assms(1) by (simp add: shjson_Parse_def shjson_ParseWithOpts_def json_fuel_def skip_def parse_scalar_def peek_def Let_def)
qed

theorem shjson_parse_overflow_witness:
  "shjson_Parse full_libc int_fpu ([34, 92, 117, 34, 97, 97, 97] @ [98, 98, 98] @ [34]) = Inl OutOfBounds"
  by (rule shjson_parse_overflow [OF full_libc_total]) (simp_all add: plain_char_def)

end
