(* ===== verification/Share_Json_Text.thy ===== *)
theory Share_Json_Text
  imports Share_Json
begin

text \<open>
  Printing and parsing the items of \<open>Share_Json\<close> are inverse: abstract values, the items that stand for them, the
  text \<open>print_value\<close> gives them in either layout, and the proof that \<open>parse_value\<close> reads that text back wherever
  it stands.
\<close>

section \<open>Values round trip\<close>

text \<open>Abstract values: an object has a list of names and a list of values of the same length.\<close>

datatype jval = JNull | JBool bool | JNum int | JStr "byte list" | JArr "jval list" | JObj "byte list list" "jval list"

text \<open>A value whose strings are C strings and whose numbers fit an \<open>int\<close>.\<close>

fun json_ok :: "jval \<Rightarrow> bool" where
  "json_ok (JNum i) \<longleftrightarrow> - (2 ^ 31) \<le> i \<and> i < 2 ^ 31"
| "json_ok (JStr s) \<longleftrightarrow> 0 \<notin> set s"
| "json_ok (JArr vs) \<longleftrightarrow> list_all json_ok vs"
| "json_ok (JObj ns vs) \<longleftrightarrow> length ns = length vs \<and> list_all (\<lambda>n. 0 \<notin> set n) ns \<and> list_all json_ok vs"
| "json_ok _ \<longleftrightarrow> True"

text \<open>An item that stands for a value, also when it was not made by the parser.\<close>

primrec represents :: "jval \<Rightarrow> 'd fpu \<Rightarrow> 'd shjson \<Rightarrow> bool" where
  "represents JNull = (\<lambda>fp x. js_type x AND 255 = shjson_NULL)"
| "represents (JBool b) = (\<lambda>fp x. js_type x AND 255 = (if b then shjson_True else shjson_False))"
| "represents (JNum i) = (\<lambda>fp x. js_type x AND 255 = shjson_Number \<and> js_valueint x = i \<and> fp_is_int fp i (js_valuedouble x))"
| "represents (JStr s) = (\<lambda>fp x. js_type x AND 255 = shjson_String \<and> js_valuestring x = Some s)"
| "represents (JArr vs) = (\<lambda>fp x. js_type x AND 255 = shjson_Array \<and> list_all2 (\<lambda>p y. p fp y) (map represents vs) (js_child x))"
| "represents (JObj ns vs) = (\<lambda>fp x. js_type x AND 255 = shjson_Object \<and> map js_string (js_child x) = map Some ns \<and>
     list_all2 (\<lambda>p y. p fp y) (map represents vs) (js_child x))"

text \<open>The item the parser makes for a value, without a name.\<close>

fun item_of :: "'d fpu \<Rightarrow> jval \<Rightarrow> 'd shjson" where
  "item_of fp JNull = Item shjson_NULL [] None 0 (fp_of_int fp 0) None"
| "item_of fp (JBool b) = Item (if b then shjson_True else shjson_False) [] None (if b then 1 else 0) (fp_of_int fp 0) None"
| "item_of fp (JNum i) = Item shjson_Number [] None i (fp_of_int fp i) None"
| "item_of fp (JStr s) = Item shjson_String [] (Some s) 0 (fp_of_int fp 0) None"
| "item_of fp (JArr vs) = Item shjson_Array (map (item_of fp) vs) None 0 (fp_of_int fp 0) None"
| "item_of fp (JObj ns vs) =
     Item shjson_Object (map2 (\<lambda>n x. set_name (Some n) x) ns (map (item_of fp) vs)) None 0 (fp_of_int fp 0) None"

fun json_text :: "bool \<Rightarrow> nat \<Rightarrow> jval \<Rightarrow> byte list" where
  "json_text fmt d JNull = [110, 117, 108, 108]"
| "json_text fmt d (JBool b) = (if b then [116, 114, 117, 101] else [102, 97, 108, 115, 101])"
| "json_text fmt d (JNum i) = fmt_d i"
| "json_text fmt d (JStr s) = quote s"
| "json_text fmt d (JArr vs) = 91 # join_items fmt (map (json_text fmt (d + 1)) vs) @ [93]"
| "json_text fmt d (JObj ns vs) =
     (if vs = [] then 123 # (if fmt then 10 # replicate (d - 1) 9 else []) @ [125]
      else 123 # (if fmt then [10] else []) @ join_members fmt (d + 1) (zip (map quote ns) (map (json_text fmt (d + 1)) vs)) @
        (if fmt then replicate d 9 else []) @ [125])"

text \<open>A bound on every length the printer and the parser compute for a value at depth \<open>d\<close>, in either
  layout; the lengths are \<open>int\<close>s in the source, and the theorems below ask that the bound is one.\<close>

fun json_bound :: "nat \<Rightarrow> jval \<Rightarrow> nat" where
  "json_bound d JNull = 5"
| "json_bound d (JBool _) = 6"
| "json_bound d (JNum _) = 12"
| "json_bound d (JStr s) = 6 * length s + 3"
| "json_bound d (JArr vs) = d + 6 + sum_list (map (\<lambda>v. json_bound (d + 1) v + 3) vs)"
| "json_bound d (JObj ns vs) =
     d + 9 + sum_list (map (\<lambda>n. 6 * length n + 3) ns) + sum_list (map (\<lambda>v. json_bound (d + 1) v + d + 5) vs)"

lemma json_bound_child:
  "v \<in> set vs \<Longrightarrow> json_bound (Suc d) v \<le> json_bound d (JArr vs)"
  "v \<in> set vs \<Longrightarrow> json_bound (Suc d) v \<le> json_bound d (JObj ns vs)"
  "n \<in> set ns \<Longrightarrow> 6 * length n + 3 \<le> json_bound d (JObj ns vs)"
  using member_le_sum_list [of "json_bound (d + 1) v + 3" "map (\<lambda>v. json_bound (d + 1) v + 3) vs"]
    member_le_sum_list [of "json_bound (d + 1) v + d + 5" "map (\<lambda>v. json_bound (d + 1) v + d + 5) vs"]
    member_le_sum_list [of "6 * length n + 3" "map (\<lambda>n. 6 * length n + 3) ns"]
  by auto

lemma len_add_int: "k + n < 2 ^ 31 \<Longrightarrow> len_add (int k) n = int (k + n)"
  by (simp add: len_add_def signed_take_bit_int_eq_self)

lemma fold_len_add:
  "k + sum_list (map f ts) < 2 ^ 31 \<Longrightarrow> foldl (\<lambda>len t. len_add len (f t)) (int k) ts = int (k + sum_list (map f ts))"
  by (induction ts arbitrary: k) (simp_all add: len_add_int add.assoc del: of_nat_add)

lemma all_texts_ok: "all_texts (map (\<lambda>t. Inr (Some t)) ts) = Inr (Some ts)"
  by (induction ts) simp_all

lemma array_entries_ok: "array_entries (map (\<lambda>t. Inr (Some t)) ts) = Inr (Some ts)"
  by (induction ts) simp_all

lemma join_items_length:
  "ts \<noteq> [] \<Longrightarrow> length (join_items fmt ts) + 2 \<le> sum_list (map (\<lambda>t. length t + 2 + (if fmt then 1 else 0)) ts)"
  by (induction fmt ts rule: join_items.induct) auto

lemma join_members_length:
  "length (join_members fmt d (zip ns ts)) \<le>
     sum_list (map2 (\<lambda>n t. length t + length n + 2 + (if fmt then 2 + d else 0)) ns ts)"
  by (induction ns ts rule: list_induct2') auto

lemma print_values_ok:
  "list_all2 (\<lambda>v x. print_value c fp fmt d x = Inr (Some (f v))) vs xs \<Longrightarrow>
     print_values c fp fmt d xs = map (\<lambda>t. Inr (Some t)) (map f vs)"
  by (induction rule: list_all2_induct) simp_all

lemma print_array_ok:
  assumes "libc_total c" "d + 5 + sum_list (map (\<lambda>t. length t + 3) ts) < 2 ^ 31"
  shows "print_array c fmt d (map (\<lambda>t. Inr (Some t)) ts) = Inr (Some (91 # join_items fmt ts @ [93]))"
proof (cases "ts = []")
  case False
  let ?f = "\<lambda>t :: byte list. length t + 2 + (if fmt then 1 else 0)"
  have "sum_list (map ?f ts) \<le> sum_list (map (\<lambda>t. length t + 3) ts)" by (rule sum_list_mono) simp
  then have le: "5 + sum_list (map ?f ts) < 2 ^ 31" using assms(2) by linarith
  have n: "length ts \<le> sum_list (map (\<lambda>t. length t + 3) ts)" by (induction ts) simp_all
  have fold: "foldl (\<lambda>len t. len_add len (?f t)) 5 ts = int (5 + sum_list (map ?f ts))"
    using fold_len_add [of 5 ?f ts] le by simp
  have "size_of_int (int (5 + sum_list (map ?f ts))) = 5 + sum_list (map ?f ts)"
    using le by (intro size_of_int_of_nat) simp
  with fold False show ?thesis
    using assms n join_items_length [OF False, of fmt]
    by (simp add: print_array_def array_entries_ok compose_def Let_def del: of_nat_add)
qed (use assms(1) in \<open>simp add: print_array_def compose_def\<close>)

lemma print_object_ok:
  assumes "libc_total c" "ts \<noteq> []" "length ns = length ts"
    and "d + 8 + sum_list (map2 (\<lambda>n t. length t + length n + d + 5) ns ts) < 2 ^ 31"
  shows "print_object c fmt d (map (\<lambda>t. Inr (Some t)) ns) (map (\<lambda>t. Inr (Some t)) ts) =
    Inr (Some (123 # (if fmt then [10] else []) @ join_members fmt (d + 1) (zip ns ts) @ (if fmt then replicate d 9 else []) @ [125]))"
proof -
  let ?f = "\<lambda>(n :: byte list, t :: byte list). length t + length n + 2 + (if fmt then 2 + (d + 1) else 0)"
  let ?k = "7 + (if fmt then d + 1 else 0)"
  have "sum_list (map ?f (zip ns ts)) \<le> sum_list (map2 (\<lambda>n t. length t + length n + d + 5) ns ts)"
    by (rule sum_list_mono) auto
  then have le: "?k + sum_list (map ?f (zip ns ts)) < 2 ^ 31" using assms(4) by (simp split: if_splits)
  have n: "length ts \<le> sum_list (map2 (\<lambda>n t. length t + length n + d + 5) ns ts)"
    using assms(3) by (induction ns ts rule: list_induct2) simp_all
  have sz: "size_of_int (int (?k + sum_list (map ?f (zip ns ts)))) = ?k + sum_list (map ?f (zip ns ts))"
    using le by (intro size_of_int_of_nat) simp
  have "length ts < 2 ^ 31" "d + 8 < 2 ^ 31" using n assms(4) by linarith+
  then have ov: "\<not> 2 ^ 31 \<le> int (length ts)" "\<not> 2 ^ 31 \<le> int (d + 1)" "\<not> 2 ^ 31 \<le> 7 + int (d + 1)" by simp_all
  have len: "length (join_members fmt (d + 1) (zip ns ts)) \<le> sum_list (map ?f (zip ns ts))"
    using join_members_length [of fmt "d + 1" ns ts] by (simp add: split_def)
  have sel: "foldl (\<lambda>len (n, t). len_add len (length t + length n + 2 + (if fmt then 2 + (d + 1) else 0)))
      (7 + (if fmt then int (d + 1) else 0)) (zip ns ts) = int (?k + sum_list (map ?f (zip ns ts)))"
  proof -
    have "(\<lambda>len (n, t). len_add len (length t + length n + 2 + (if fmt then 2 + (d + 1) else 0))) = (\<lambda>len p. len_add len (?f p))"
      by (simp only: fun_eq_iff split_def) simp
    moreover have "7 + (if fmt then int (d + 1) else 0) = int ?k" by simp
    ultimately show ?thesis using fold_len_add [OF le] by (simp only:)
  qed
  show ?thesis
    unfolding print_object_def all_texts_ok Let_def run_bind_Inr prod.case option.case sel sz
    using assms(1,2) ov len by (cases fmt) (simp_all add: compose_def)
qed

lemma json_text_length: "json_ok v \<Longrightarrow> length (json_text fmt d v) < json_bound d v"
proof (induction v arbitrary: d)
  case (JArr vs)
  let ?ts = "map (json_text fmt (Suc d)) vs"
  have "sum_list (map (\<lambda>t. length t + 2 + (if fmt then 1 else 0)) ?ts) \<le> sum_list (map (\<lambda>v. json_bound (d + 1) v + 3) vs)"
    unfolding map_map o_def
  proof (rule sum_list_mono)
    fix v assume "v \<in> set vs"
    then have "length (json_text fmt (Suc d) v) < json_bound (Suc d) v" using JArr by (auto simp: list_all_iff)
    then show "length (json_text fmt (Suc d) v) + 2 + (if fmt then 1 else 0) \<le> json_bound (d + 1) v + 3" by (cases fmt) simp_all
  qed
  moreover have "length (join_items fmt ?ts) \<le> sum_list (map (\<lambda>t. length t + 2 + (if fmt then 1 else 0)) ?ts)"
    using join_items_length [of ?ts fmt] by (cases "?ts = []") simp_all
  ultimately show ?case by simp
next
  case (JObj ns vs)
  let ?ts = "map (json_text fmt (Suc d)) vs"
  have eq: "length ns = length vs" using JObj.prems by simp
  have "sum_list (map2 (\<lambda>n t. length t + length n + 2 + (if fmt then 2 + Suc d else 0)) (map quote ns) ?ts) \<le>
      sum_list (map2 (\<lambda>n v. (6 * length n + 3) + (json_bound (d + 1) v + d + 5)) ns vs)"
    unfolding zip_map_map map_map o_def
  proof (rule sum_list_mono)
    fix p assume "p \<in> set (zip ns vs)"
    moreover obtain n v where p: "p = (n, v)" by fastforce
    ultimately have "length (json_text fmt (Suc d) v) < json_bound (Suc d) v"
      using JObj by (auto simp: list_all_iff dest: set_zip_rightD)
    then show "(case case p of (n, v) \<Rightarrow> (quote n, json_text fmt (Suc d) v) of
          (n, t) \<Rightarrow> length t + length n + 2 + (if fmt then 2 + Suc d else 0)) \<le>
        (case p of (n, v) \<Rightarrow> 6 * length n + 3 + (json_bound (d + 1) v + d + 5))"
      using quote_length [of n] by (cases fmt) (simp_all add: p)
  qed
  also have "\<dots> = sum_list (map (\<lambda>n. 6 * length n + 3) ns) + sum_list (map (\<lambda>v. json_bound (d + 1) v + d + 5) vs)"
    using eq by (induction ns vs rule: list_induct2) simp_all
  finally show ?case
    using join_members_length [of fmt "Suc d" "map quote ns" ?ts] by (auto split: if_splits)
next
  case (JNum i)
  then have "length (dec_digits (nat \<bar>i\<bar>)) \<le> 10" by (intro dec_digits_length) auto
  then show ?case by (simp add: fmt_d_def abs_if split: if_splits)
next
  case (JStr s)
  then show ?case using quote_length [of s] by simp
qed auto

lemma object_room:
  assumes "json_ok (JObj ns vs)"
  shows "d + 8 + sum_list (map2 (\<lambda>n t. length t + length n + d + 5) (map quote ns) (map (json_text fmt (Suc d)) vs)) <
    json_bound d (JObj ns vs)"
proof -
  have eq: "length ns = length vs" using assms by simp
  have "sum_list (map2 (\<lambda>n t. length t + length n + d + 5) (map quote ns) (map (json_text fmt (Suc d)) vs)) \<le>
      sum_list (map2 (\<lambda>n v. (6 * length n + 3) + (json_bound (d + 1) v + d + 5)) ns vs)"
    unfolding zip_map_map map_map o_def
  proof (rule sum_list_mono)
    fix p assume "p \<in> set (zip ns vs)"
    moreover obtain n v where p: "p = (n, v)" by fastforce
    ultimately have "length (json_text fmt (Suc d) v) < json_bound (Suc d) v"
      using assms json_text_length [of v] by (auto simp: list_all_iff dest: set_zip_rightD)
    then show "(case case p of (n, v) \<Rightarrow> (quote n, json_text fmt (Suc d) v) of (n, t) \<Rightarrow> length t + length n + d + 5) \<le>
        (case p of (n, v) \<Rightarrow> 6 * length n + 3 + (json_bound (d + 1) v + d + 5))"
      using quote_length [of n] by (simp add: p)
  qed
  also have "\<dots> = sum_list (map (\<lambda>n. 6 * length n + 3) ns) + sum_list (map (\<lambda>v. json_bound (d + 1) v + d + 5) vs)"
    using eq by (induction ns vs rule: list_induct2) simp_all
  finally show ?thesis by simp
qed

lemma print_value_text:
  "represents v fp x \<Longrightarrow> json_ok v \<Longrightarrow> libc_total c \<Longrightarrow> json_bound d v < 2 ^ 31 \<Longrightarrow>
     print_value c fp fmt d x = Inr (Some (json_text fmt d v))"
proof (induction v arbitrary: x d)
  case (JArr vs)
  obtain ty ch vs' vi vd nm where x: "x = Item ty ch vs' vi vd nm" by (cases x)
  have "list_all2 (\<lambda>v x. print_value c fp fmt (Suc d) x = Inr (Some (json_text fmt (Suc d) v))) vs ch"
  proof -
    have "json_bound (Suc d) v < 2 ^ 31" if "v \<in> set vs" for v
      using json_bound_child(1) [OF that, of d] JArr.prems(4) by simp
    then show ?thesis using JArr.prems JArr.IH x by (auto simp: list_all2_conv_all_nth list_all_length)
  qed
  moreover have "print_array c fmt d (map (\<lambda>t. Inr (Some t)) (map (json_text fmt (Suc d)) vs)) =
      Inr (Some (91 # join_items fmt (map (json_text fmt (Suc d)) vs) @ [93]))"
  proof (rule print_array_ok [OF JArr.prems(3)])
    have "sum_list (map (\<lambda>t. length t + 3) (map (json_text fmt (Suc d)) vs)) \<le> sum_list (map (\<lambda>v. json_bound (d + 1) v + 3) vs)"
      unfolding map_map o_def
    proof (rule sum_list_mono)
      fix v assume "v \<in> set vs"
      then show "length (json_text fmt (Suc d) v) + 3 \<le> json_bound (d + 1) v + 3"
        using JArr.prems(2) json_text_length [of v fmt "Suc d"] by (simp add: list_all_iff)
    qed
    then show "d + 5 + sum_list (map (\<lambda>t. length t + 3) (map (json_text fmt (Suc d)) vs)) < 2 ^ 31"
      using JArr.prems(4) by simp
  qed
  ultimately show ?case
    using JArr.prems x by (simp add: print_values_ok const_simps o_def)
next
  case (JObj ns vs)
  obtain ty ch vs' vi vd nm where x: "x = Item ty ch vs' vi vd nm" by (cases x)
  have "list_all2 (\<lambda>v x. print_value c fp fmt (Suc d) x = Inr (Some (json_text fmt (Suc d) v))) vs ch"
  proof -
    have "json_bound (Suc d) v < 2 ^ 31" if "v \<in> set vs" for v
      using json_bound_child(2) [OF that, of d ns] JObj.prems(4) by simp
    then show ?thesis using JObj.prems JObj.IH x by (auto simp: list_all2_conv_all_nth list_all_length)
  qed
  note pv = print_values_ok [OF this]
  have nm: "map (\<lambda>n. print_string_ptr c (Some n)) ns = map (\<lambda>n. Inr (Some (quote n))) ns"
  proof (rule map_cong [OF refl])
    fix n assume n: "n \<in> set ns"
    have "short_string n" using json_bound_child(3) [OF n, of d vs] JObj.prems(4) by (simp add: short_string_def)
    then show "print_string_ptr c (Some n) = Inr (Some (quote n))"
      using JObj.prems n by (intro print_string_quote) (auto simp: list_all_iff)
  qed
  have bound: "d + 8 + sum_list (map2 (\<lambda>n t. length t + length n + d + 5) (map quote ns) (map (json_text fmt (Suc d)) vs)) < 2 ^ 31"
    using object_room [of ns vs d fmt] JObj.prems(2,4) by simp
  have po: "print_object c fmt d (map (\<lambda>n. print_string_ptr c (Some n)) ns) (map (\<lambda>v. Inr (Some (json_text fmt (Suc d) v))) vs) =
      Inr (Some (123 # (if fmt then [10] else []) @ join_members fmt (Suc d) (zip (map quote ns) (map (json_text fmt (Suc d)) vs)) @
        (if fmt then replicate d 9 else []) @ [125]))" if "vs \<noteq> []"
    unfolding nm using JObj.prems that print_object_ok [OF JObj.prems(3) _ _ bound, where fmt = fmt] by (simp add: o_def)
  show ?case
  proof (cases "vs = []")
    case True
    have "d - 1 \<le> d" by simp
    then show ?thesis using True JObj.prems x pv by (simp add: print_object_def compose_def const_simps not_less)
  next
    case False
    then show ?thesis
      using JObj.prems x pv po by (cases fmt) (simp_all add: const_simps o_def)
  qed
next
  case JNull
  then show ?case by (cases x) (simp add: const_simps shjson_strdup_def)
next
  case (JBool b)
  then show ?case by (cases x; cases b) (simp_all add: const_simps shjson_strdup_def)
next
  case (JNum i)
  then show ?case using print_number_int [of fp i "js_valuedouble x" c] by (cases x) (simp add: const_simps)
next
  case (JStr s)
  then show ?case using print_string_quote [of s c] by (cases x) (simp add: const_simps short_string_def)
qed

text \<open>White space, and the first character of a text.\<close>

definition blank :: "byte list \<Rightarrow> bool" where
  "blank w \<longleftrightarrow> (\<forall>ch \<in> set w. ch \<noteq> 0 \<and> ch \<le> 32)"

lemma skip_blank: "blank w \<Longrightarrow> skip (w @ s) = skip s"
  by (induction w) (simp_all add: skip_def blank_def)

lemma skip_visible: "32 < peek s \<Longrightarrow> skip s = s"
  by (cases s) (auto simp: skip_def peek_def dest: leD)

lemma blank_simps [simp]: "blank []" "blank (replicate n 9)" "blank [10]" "blank [32]" "blank [9]" "blank (v @ w) \<longleftrightarrow> blank v \<and> blank w"
  "blank (10 # w) \<longleftrightarrow> blank w"
  by (auto simp: blank_def)

lemma peek_Cons [simp]: "peek (ch # cs) = ch"
  by (simp add: peek_def)

lemma digit_bounds: "is_digit ch \<Longrightarrow> 32 < ch \<and> ch \<notin> {93, 125, 91, 123, 34, 110, 102, 116}"
proof -
  assume "is_digit ch"
  then have u: "48 \<le> unat ch" "unat ch \<le> 57" by (simp_all add: is_digit_def word_le_nat_alt)
  have ne: "ch \<noteq> k" if "57 < unat k \<or> unat k < 48" for k using that u by auto
  have "32 < ch" using u by (simp add: word_less_nat_alt)
  then show ?thesis using ne [of 93] ne [of 125] ne [of 91] ne [of 123] ne [of 34] ne [of 110] ne [of 102] ne [of 116] by simp
qed

lemma fmt_d_head: "\<exists>ch cs. fmt_d i = ch # cs \<and> (ch = 45 \<or> is_digit ch)"
  using dec_digits_head [of "nat i"] by (auto simp: fmt_d_def)

lemma json_text_head: "32 < peek (json_text fmt d v @ r) \<and> peek (json_text fmt d v @ r) \<noteq> 93"
proof (cases v)
  case (JNum i)
  then show ?thesis using fmt_d_head [of i] digit_bounds by (auto simp: )
qed (simp_all add: quote_def)

lemma skip_text: "blank w \<Longrightarrow> skip (w @ json_text fmt d v @ r) = json_text fmt d v @ r"
  using json_text_head skip_visible by (simp add: skip_blank)

lemma skip_quote: "blank w \<Longrightarrow> skip (w @ quote s @ r) = quote s @ r"
  by (simp add: skip_blank skip_visible quote_def)

lemma set_name_item_of [simp]: "set_name None (item_of fp v) = item_of fp v"
  by (cases v) (simp_all add: set_name_def)

text \<open>\<open>reads c fp fmt d v\<close>: the parser reads the text of \<open>v\<close> wherever it stands.\<close>

definition reads :: "libc \<Rightarrow> 'd fpu \<Rightarrow> bool \<Rightarrow> nat \<Rightarrow> jval \<Rightarrow> bool" where
  "reads c fp fmt d v \<longleftrightarrow> (\<forall>n r. num_end r \<longrightarrow> 2 * length (json_text fmt d v) < n \<longrightarrow>
     parse_value c fp n (json_text fmt d v @ r) = Inr (Done (item_of fp v) r))"

lemma parse_elements:
  assumes "libc_total c"
  shows "vs \<noteq> [] \<Longrightarrow> \<forall>v \<in> set vs. reads c fp fmt d v \<Longrightarrow> blank w \<Longrightarrow>
    2 * length (join_items fmt (map (json_text fmt d) vs)) + 1 < n \<Longrightarrow>
    parse_items c fp n False acc (w @ join_items fmt (map (json_text fmt d) vs) @ 93 # r) = Inr (Done (acc @ map (item_of fp) vs) r)"
proof (induction vs arbitrary: n acc w)
  case (Cons v vs)
  obtain m where n: "n = Suc m" using Cons.prems(4) by (cases n) auto
  show ?case
  proof (cases "vs = []")
    case True
    have "parse_value c fp m (json_text fmt d v @ 93 # r) = Inr (Done (item_of fp v) (93 # r))"
      using Cons.prems n True by (simp add: reads_def num_end_def is_digit_def)
    then show ?thesis
      using Cons.prems(3) True assms unfolding n by (simp add: parse_key_def skip_text skip_visible Let_def)
  next
    case False
    then obtain v' vs' where vs: "vs = v' # vs'" by (cases vs) auto
    let ?sp = "if fmt then [32] else []" and ?j = "join_items fmt (map (json_text fmt d) vs)"
    have j: "join_items fmt (map (json_text fmt d) (v # vs)) = json_text fmt d v @ 44 # ?sp @ ?j" by (simp add: vs)
    have "parse_value c fp m (json_text fmt d v @ 44 # ?sp @ ?j @ 93 # r) = Inr (Done (item_of fp v) (44 # ?sp @ ?j @ 93 # r))"
      using Cons.prems n unfolding j by (simp add: reads_def num_end_def is_digit_def)
    moreover have "parse_items c fp m False (acc @ [item_of fp v]) (?sp @ ?j @ 93 # r) = Inr (Done ((acc @ [item_of fp v]) @ map (item_of fp) vs) r)"
      using Cons.prems n False unfolding j by (intro Cons.IH) auto
    ultimately show ?thesis
      using Cons.prems(3) assms unfolding n j by (simp add: parse_key_def skip_text skip_visible Let_def)
  qed
qed simp

lemma parse_members:
  assumes "libc_total c"
  shows "vs \<noteq> [] \<Longrightarrow> length ns = length vs \<Longrightarrow> \<forall>n \<in> set ns. 0 \<notin> set n \<and> short_string n \<Longrightarrow> \<forall>v \<in> set vs. reads c fp fmt d v \<Longrightarrow> blank w \<Longrightarrow>
    2 * length (join_members fmt d (zip (map quote ns) (map (json_text fmt d) vs))) + 1 < n \<Longrightarrow> blank post \<Longrightarrow>
    parse_items c fp n True acc (w @ join_members fmt d (zip (map quote ns) (map (json_text fmt d) vs)) @ post @ 125 # r) =
      Inr (Done (acc @ map2 (\<lambda>n x. set_name (Some n) x) ns (map (item_of fp) vs)) r)"
proof (induction vs arbitrary: n acc w ns)
  case (Cons v vs)
  obtain nm ns' where ns: "ns = nm # ns'" using Cons.prems(2) by (cases ns) auto
  obtain m where n: "n = Suc m" using Cons.prems(6) by (cases n) auto
  let ?tabs = "if fmt then replicate d 9 else []" and ?tab = "if fmt then [9] else []" and ?nl = "if fmt then [10] else []"
    and ?j = "join_members fmt d (zip (map quote ns') (map (json_text fmt d) vs))"
  let ?t = "(if vs = [] then [] else [44]) @ ?nl @ ?j @ post @ 125 # r"
  have j: "w @ join_members fmt d (zip (map quote ns) (map (json_text fmt d) (v # vs))) @ post @ 125 # r =
      (w @ ?tabs) @ quote nm @ 58 # ?tab @ json_text fmt d v @ ?t"
    using Cons.prems(2) by (simp add: ns) (cases vs; cases ns'; simp)
  have key: "parse_key c True ((w @ ?tabs) @ quote nm @ 58 # ?tab @ json_text fmt d v @ ?t) = Inr (Done (Some nm) (json_text fmt d v @ ?t))"
  proof -
    have "skip ((w @ ?tabs) @ quote nm @ 58 # ?tab @ json_text fmt d v @ ?t) = quote nm @ 58 # ?tab @ json_text fmt d v @ ?t"
      by (rule skip_quote) (use Cons.prems(5) in simp)
    moreover have "skip (?tab @ json_text fmt d v @ ?t) = json_text fmt d v @ ?t"
      by (rule skip_text) simp
    ultimately show ?thesis
      using parse_string_quote [of nm c "58 # ?tab @ json_text fmt d v @ ?t"] Cons.prems(3) assms ns
      by (simp add: parse_key_def parse_name_def skip_visible Let_def)
  qed
  have len: "2 * length (json_text fmt d v) < m" "vs \<noteq> [] \<Longrightarrow> 2 * length ?j + 1 < m"
    using Cons.prems(2,6) by (auto simp: n ns)
  have "num_end ?t"
    using Cons.prems(2,7) by (cases vs; cases fmt; cases post) (auto simp: ns num_end_def is_digit_def blank_def word_le_nat_alt)
  then have pv: "parse_value c fp m (json_text fmt d v @ ?t) = Inr (Done (item_of fp v) ?t)"
    using Cons.prems(4) len(1) by (simp add: reads_def)
  show ?case
  proof (cases "vs = []")
    case True
    then have "skip ?t = 125 # r" using Cons.prems(2,7) by (simp add: skip_blank ns skip_visible)
    then show ?thesis unfolding n j using key pv assms True Cons.prems(2) by (simp add: Let_def ns)
  next
    case False
    have "parse_items c fp m True (acc @ [set_name (Some nm) (item_of fp v)]) (?nl @ ?j @ post @ 125 # r) =
        Inr (Done ((acc @ [set_name (Some nm) (item_of fp v)]) @ map2 (\<lambda>n x. set_name (Some n) x) ns' (map (item_of fp) vs)) r)"
      using Cons.prems len(2) False by (intro Cons.IH) (auto simp: ns)
    moreover have "skip ?t = ?t" using False by (simp add: skip_visible)
    ultimately show ?thesis unfolding n j using key pv assms False by (simp add: Let_def ns)
  qed
qed simp

lemma scalar_reads:
  assumes "\<And>r. num_end r \<Longrightarrow> parse_scalar c fp (json_text fmt d v @ r) = Some (Inr (Done (item_of fp v) r))"
  shows "reads c fp fmt d v"
  unfolding reads_def
proof (intro allI impI)
  fix n r assume "num_end r" "2 * length (json_text fmt d v) < n"
  then show "parse_value c fp n (json_text fmt d v @ r) = Inr (Done (item_of fp v) r)"
    using assms by (cases n) simp_all
qed

lemma number_scalar:
  assumes "is_digit (peek s) \<or> peek s = 45"
  shows "parse_scalar c fp s = Some (run_bind (parse_number fp s) (\<lambda>((i, d), r). Inr (Done (Item shjson_Number [] None i d None) r)))"
proof -
  have "peek s \<notin> {34, 110, 102, 116}" using assms digit_bounds [of "peek s"] by auto
  then have "take 4 s \<noteq> [110, 117, 108, 108]" "take 5 s \<noteq> [102, 97, 108, 115, 101]" "take 4 s \<noteq> [116, 114, 117, 101]" "peek s \<noteq> 34"
    by (cases s; auto)+
  then show ?thesis using assms by (auto simp: parse_scalar_def)
qed

lemma parse_scalar_bracket [simp]: "ch = 91 \<or> ch = 123 \<Longrightarrow> parse_scalar c fp (ch # cs) = None"
  by (auto simp: parse_scalar_def is_digit_def Let_def)

lemma join_members_head: "\<exists>w q. join_members fmt d ((n, s) # ms) = w @ n @ q \<and> blank w"
  by (rule exI [of _ "if fmt then replicate d 9 else []"], rule exI, rule conjI, simp only: join_members.simps) simp

lemma parse_value_text:
  assumes "libc_total c" "exact_ints fp"
  shows "json_ok v \<Longrightarrow> json_bound d v < 2 ^ 31 \<Longrightarrow> reads c fp fmt d v"
proof (induction v arbitrary: d)
  case (JNum i)
  obtain ch cs where h: "fmt_d i = ch # cs" "ch = 45 \<or> is_digit ch" using fmt_d_head by blast
  show ?case
  proof (rule scalar_reads)
    fix r assume "num_end r"
    then show "parse_scalar c fp (json_text fmt d (JNum i) @ r) = Some (Inr (Done (item_of fp (JNum i)) r))"
      using number_scalar [of "fmt_d i @ r" c fp] parse_number_print [OF assms(2), of i r] JNum h by auto
  qed
next
  case (JStr s)
  have "parse_scalar c fp (quote s @ r) = Some (Inr (Done (item_of fp (JStr s)) r))" for r
    using parse_string_quote [of s c r] assms(1) JStr by (simp add: parse_scalar_def Let_def quote_def short_string_def)
  then show ?case by (intro scalar_reads) simp
next
  case (JArr vs)
  show ?case
    unfolding reads_def
  proof (intro allI impI)
    fix n r assume "num_end r" and n: "2 * length (json_text fmt d (JArr vs)) < n"
    obtain m where m: "n = Suc m" using n by (cases n) auto
    let ?j = "join_items fmt (map (json_text fmt (Suc d)) vs)"
    have ok: "\<forall>v \<in> set vs. reads c fp fmt (Suc d) v"
    proof
      fix v assume v: "v \<in> set vs"
      then show "reads c fp fmt (Suc d) v"
        using JArr json_bound_child(1) [OF v, of d] by (auto simp: list_all_iff)
    qed
    show "parse_value c fp n (json_text fmt d (JArr vs) @ r) = Inr (Done (item_of fp (JArr vs)) r)"
    proof (cases vs)
      case Nil
      then show ?thesis by (simp add: m Let_def skip_visible)
    next
      case (Cons v vs')
      obtain q where q: "?j = json_text fmt (Suc d) v @ q" using Cons by (cases vs') auto
      have "skip (?j @ 93 # r) = ?j @ 93 # r" "peek (?j @ 93 # r) \<noteq> 93"
        using skip_text [of "[]" fmt "Suc d" v "q @ 93 # r"] json_text_head [of fmt "Suc d" v "q @ 93 # r"] by (simp_all add: q)
      moreover have "parse_items c fp m False [] (?j @ 93 # r) = Inr (Done (map (item_of fp) vs) r)"
        using parse_elements [OF assms(1) _ ok, of "[]" m "[]" r] n Cons by (simp add: m)
      ultimately show ?thesis by (simp add: m Let_def)
    qed
  qed
next
  case (JObj ns vs)
  show ?case
    unfolding reads_def
  proof (intro allI impI)
    fix n r assume "num_end r" and n: "2 * length (json_text fmt d (JObj ns vs)) < n"
    obtain m where m: "n = Suc m" using n by (cases n) auto
    let ?j = "join_members fmt (Suc d) (zip (map quote ns) (map (json_text fmt (Suc d)) vs))"
    let ?nl = "if fmt then [10] else []" and ?post = "if fmt then replicate d 9 else []"
    have ok: "\<forall>v \<in> set vs. reads c fp fmt (Suc d) v" "\<forall>n \<in> set ns. 0 \<notin> set n \<and> short_string n"
    proof (intro ballI)
      fix v assume v: "v \<in> set vs"
      then show "reads c fp fmt (Suc d) v"
        using JObj json_bound_child(2) [OF v, of d ns] by (auto simp: list_all_iff)
    next
      show "\<forall>n \<in> set ns. 0 \<notin> set n \<and> short_string n"
        using JObj.prems json_bound_child(3) [of _ ns d vs] by (fastforce simp: list_all_iff short_string_def)
    qed
    show "parse_value c fp n (json_text fmt d (JObj ns vs) @ r) = Inr (Done (item_of fp (JObj ns vs)) r)"
    proof (cases vs)
      case Nil
      have "skip ((if fmt then 10 # replicate (d - 1) 9 else []) @ 125 # r) = 125 # r"
        by (simp add: skip_blank skip_visible)
      then show ?thesis using JObj.prems Nil by (simp add: m Let_def)
    next
      case (Cons v vs')
      then obtain nm ns' where ns: "ns = nm # ns'" using JObj.prems by (cases ns) auto
      obtain w q where q: "?j = w @ quote nm @ q" "blank w" 
        using join_members_head [of fmt "Suc d" "quote nm" "json_text fmt (Suc d) v"
            "zip (map quote ns') (map (json_text fmt (Suc d)) vs')"] Cons ns
        by (auto simp del: join_members.simps)
      have sk: "skip (?nl @ ?j @ ?post @ 125 # r) = quote nm @ q @ ?post @ 125 # r"
        using skip_quote [of "?nl @ w" nm "q @ ?post @ 125 # r"] q by simp
      have "2 * length ?j + 1 < m" using n Cons by (simp add: m)
      then have "parse_items c fp m True [] (?j @ ?post @ 125 # r) = Inr (Done (map2 (\<lambda>n x. set_name (Some n) x) ns (map (item_of fp) vs)) r)"
        using parse_members [OF assms(1) _ _ ok(2,1), of "[]" m ?post "[]" r] JObj.prems Cons by simp
      moreover have "parse_items c fp m True [] (?j @ ?post @ 125 # r) = parse_items c fp m True [] (quote nm @ q @ ?post @ 125 # r)"
        using skip_quote [of w nm "q @ ?post @ 125 # r"] skip_quote [of "[]" nm "q @ ?post @ 125 # r"] q
        by (cases m) (simp_all add: parse_key_def)
      ultimately have "parse_items c fp m True [] (skip (?nl @ ?j @ ?post @ 125 # r)) =
          Inr (Done (map2 (\<lambda>n x. set_name (Some n) x) ns (map (item_of fp) vs)) r)"
        unfolding sk by simp
      moreover have "peek (skip (?nl @ ?j @ ?post @ 125 # r)) \<noteq> 125" unfolding sk by (simp add: quote_def)
      moreover have "vs \<noteq> []" using Cons by simp
      ultimately show ?thesis by (simp add: m Let_def)
    qed
  qed
qed (rule scalar_reads; simp add: parse_scalar_def Let_def)+

lemma json_reparse:
  assumes "represents v fp x" "json_ok v" "exact_ints fp" "libc_total c" "json_bound 0 v < 2 ^ 31"
  shows "\<exists>s. print_value c fp fmt 0 x = Inr (Some s) \<and> shjson_Parse c fp s = Inr (Done (item_of fp v) [])"
proof -
  have "skip (json_text fmt 0 v) = json_text fmt 0 v" using skip_text [of "[]" fmt 0 v "[]"] by simp
  moreover have "parse_value c fp (json_fuel (json_text fmt 0 v)) (json_text fmt 0 v) = Inr (Done (item_of fp v) [])"
    using parse_value_text [OF assms(4,3,2,5), of fmt, unfolded reads_def, rule_format, of "[]" "json_fuel (json_text fmt 0 v)"]
    by (simp only: json_fuel_def append_Nil2) (simp add: num_end_def peek_def)
  ultimately have "shjson_Parse c fp (json_text fmt 0 v) = Inr (Done (item_of fp v) [])"
    using assms(4) by (simp add: shjson_Parse_def shjson_ParseWithOpts_def)
  then show ?thesis using print_value_text [OF assms(1,2,4,5)] by blast
qed

text \<open>C7: printing an item whose numbers are \<open>int\<close>s and whose strings are C strings, formatted or not, and parsing
  the text gives the item back, as long as no length computed on the way leaves \<open>int\<close>: the value an item stands
  for survives the round trip, also when the item is not one the parser made.\<close>

theorem shjson_roundtrip:
  assumes "represents v fp x" "json_ok v" "exact_ints fp" "libc_total c" "json_bound 0 v < 2 ^ 31"
  shows "\<exists>s. print_value c fp fmt 0 x = Inr (Some s) \<and> shjson_Parse c fp s = Inr (Done (item_of fp v) [])"
  using assms by (rule json_reparse)

theorem shjson_roundtrip_witness:
  "\<exists>s. print_value full_libc int_fpu True 0 (item_of int_fpu (JObj [[97], [98]] [JArr [JNum (- 7), JNull], JStr [34, 10, 1]])) = Inr (Some s) \<and>
     shjson_Parse full_libc int_fpu s = Inr (Done (item_of int_fpu (JObj [[97], [98]] [JArr [JNum (- 7), JNull], JStr [34, 10, 1]])) [])"
  by (rule shjson_roundtrip [OF _ _ int_fpu_exact full_libc_total]) (simp_all add: const_simps int_fpu_def set_name_def)

section \<open>Texts that are too long\<close>

text \<open>The length of a string is counted in an \<open>int\<close>: with memory for all of it, a string of \<open>2^31\<close> characters that
  need no escape overflows the count of the parser and of the printer.\<close>

theorem shjson_string_too_long:
  assumes "list_all plain_char s" "2 ^ 31 - 1 \<le> length s"
  shows "parse_string c (34 # s @ r) = Inl IntOverflow \<and> print_string_ptr c (Some s) = Inl IntOverflow"
proof
  have scan: "str_scan (t @ r) n = Inl IntOverflow \<or> str_scan (t @ r) n = str_scan r (n + length t)"
    if "list_all plain_char t" for t n
    using that
  proof (induction t arbitrary: n)
    case (Cons ch t)
    then show ?case using Cons.IH [of "Suc n"] by (auto simp: plain_char_def)
  qed simp
  have over: "2 ^ 31 - 1 \<le> n + length t \<Longrightarrow> list_all plain_char t \<Longrightarrow> str_scan (t @ r) n = Inl IntOverflow \<or>
      2 ^ 31 - 1 \<le> n + length t \<and> str_scan (t @ r) n = str_scan r (n + length t)" for t n
    using scan [of t n] by blast
  have tail: "2 ^ 31 - 1 \<le> n \<Longrightarrow> str_scan u n = Inl IntOverflow \<or> str_scan u n = Inr n" for u n
    by (cases u) auto
  have "str_scan (s @ r) 0 = Inl IntOverflow \<or> (\<exists>len. 2 ^ 31 - 1 \<le> len \<and> str_scan (s @ r) 0 = Inr len)"
    using over [of 0 s] tail [of "length s" r] assms by auto
  then show "parse_string c (34 # s @ r) = Inl IntOverflow" by (auto simp: parse_string_def)
  have "length s \<le> sum_list (map escape_size s)" by (induction s) (auto simp: escape_size_def)
  then show "print_string_ptr c (Some s) = Inl IntOverflow" using assms(2) by (simp add: print_string_ptr_def Let_def)
qed

end
