(* ===== verification/Share_Json_Tree.thy ===== *)
theory Share_Json_Tree
  imports Share_Json_Text
begin

text \<open>
  The operations on JSON items of \<^verbatim>\<open>share-lib/mem/shmem_json.c\<close>: access, insertion, removal, replacement,
  construction, duplication, the removal of white space from a text, and the calls the library exports.  An
  operation that changes an item returns it; an item that is handed to a tree stands by itself (its
  \<open>next\<close> is \<open>NULL\<close>, as the constructors leave it).  A reference holds the children of the item it refers
  to as they are when it is made.
\<close>

section \<open>The allocation functions\<close>

text \<open>The functions that \<open>shjson_malloc\<close> and \<open>shjson_FreeMem\<close> point to after \<open>shjson_InitHooks\<close>.  The record \<open>libc\<close> of the
  other operations describes whichever function is installed.\<close>

definition shjson_InitHooks :: "'m \<Rightarrow> 'f \<Rightarrow> ('m ptr \<times> 'f ptr) ptr \<Rightarrow> 'm \<times> 'f" where
  "shjson_InitHooks malloc free hooks =
     (case hooks of None \<Rightarrow> (malloc, free)
      | Some (malloc_fn, free_fn) \<Rightarrow>
          (case malloc_fn of None \<Rightarrow> malloc | Some m \<Rightarrow> m, case free_fn of None \<Rightarrow> free | Some f \<Rightarrow> f))"

section \<open>Access\<close>

definition deref :: "'a ptr \<Rightarrow> ('a \<Rightarrow> fault + 'b) \<Rightarrow> fault + 'b" where
  "deref p f = (case p of None \<Rightarrow> Inl NullDeref | Some x \<Rightarrow> f x)"

lemma deref_simps [simp, run_simps]: "deref None f = Inl NullDeref" "deref (Some x) f = f x"
  by (simp_all add: deref_def)

definition set_child :: "'d shjson list \<Rightarrow> 'd shjson \<Rightarrow> 'd shjson" where
  "set_child ch item = (case item of Item t _ vs vi vd nm \<Rightarrow> Item t ch vs vi vd nm)"

lemma set_child_simps [simp]:
  "js_child (set_child ch x) = ch" "js_type (set_child ch x) = js_type x" "js_string (set_child ch x) = js_string x"
  "js_valuestring (set_child ch x) = js_valuestring x" "set_child ch (set_child ch' x) = set_child ch x"
  by (cases x; simp add: set_child_def)+

lemma set_name_simps [simp]:
  "js_string (set_name n x) = n" "js_type (set_name n x) = js_type x" "js_child (set_name n x) = js_child x"
  "js_valuestring (set_name n x) = js_valuestring x" "js_valueint (set_name n x) = js_valueint x"
  "js_valuedouble (set_name n x) = js_valuedouble x"
  by (cases x; simp add: set_name_def)+

text \<open>\<open>tolower\<close> of the C locale.\<close>

definition to_lower :: "byte \<Rightarrow> byte" where
  "to_lower ch = (if 65 \<le> ch \<and> ch \<le> 90 then ch + 32 else ch)"

function casecmp_loop :: "byte list \<Rightarrow> byte list \<Rightarrow> int" where
  "casecmp_loop s1 s2 =
     (if to_lower (peek s1) \<noteq> to_lower (peek s2) then uint (to_lower (peek s1)) - uint (to_lower (peek s2))
      else if peek s1 = 0 then 0 else casecmp_loop (tl s1) (tl s2))"
  by pat_completeness auto
termination
  by (relation "measure (\<lambda>(s1, s2). length s1)") (auto simp: peek_def split: list.splits)

declare casecmp_loop.simps [simp del]

definition shjson_strcasecmp :: "byte list ptr \<Rightarrow> byte list ptr \<Rightarrow> int" where
  "shjson_strcasecmp s1 s2 =
     (case (s1, s2) of (None, None) \<Rightarrow> 0 | (None, Some _) \<Rightarrow> 1 | (Some _, None) \<Rightarrow> 1
      | (Some a, Some b) \<Rightarrow> casecmp_loop a b)"

definition shjson_GetArraySize :: "'d shjson ptr \<Rightarrow> fault + int" where
  "shjson_GetArraySize array = deref array (\<lambda>a. Inr (int (length (js_child a))))"

definition shjson_GetArrayItem :: "'d shjson ptr \<Rightarrow> int \<Rightarrow> fault + 'd shjson ptr" where
  "shjson_GetArrayItem array item =
     deref array (\<lambda>a. Inr (if nat item < length (js_child a) then Some (js_child a ! nat item) else None))"

definition has_name :: "byte list ptr \<Rightarrow> 'd shjson \<Rightarrow> bool" where
  "has_name string x \<longleftrightarrow> shjson_strcasecmp (js_string x) string = 0"

definition shjson_GetObjectItem :: "'d shjson ptr \<Rightarrow> byte list ptr \<Rightarrow> fault + 'd shjson ptr" where
  "shjson_GetObjectItem object string = deref object (\<lambda>a. Inr (find (has_name string) (js_child a)))"

section \<open>Adding items\<close>

definition shjson_AddItemToArray :: "'d shjson ptr \<Rightarrow> 'd shjson ptr \<Rightarrow> fault + 'd shjson ptr" where
  "shjson_AddItemToArray array item =
     deref array (\<lambda>a. Inr (Some (case item of None \<Rightarrow> a | Some x \<Rightarrow> set_child (js_child a @ [x]) a)))"

definition shjson_AddItemToObject ::
    "libc \<Rightarrow> 'd shjson ptr \<Rightarrow> byte list ptr \<Rightarrow> 'd shjson ptr \<Rightarrow> fault + 'd shjson ptr" where
  "shjson_AddItemToObject c object string item =
     (case item of None \<Rightarrow> Inr object
      | Some x \<Rightarrow> deref string (\<lambda>s. shjson_AddItemToArray object (Some (set_name (shjson_strdup c s) x))))"

definition create_reference :: "libc \<Rightarrow> 'd shjson ptr \<Rightarrow> fault + 'd shjson ptr" where
  "create_reference c item =
     (if \<not> calloc_ok c SHJSON_SIZE then Inr None
      else deref item (\<lambda>x. case x of Item t ch vs vi vd _ \<Rightarrow> Inr (Some (Item (t OR shjson_IsReference) ch vs vi vd None))))"

definition shjson_AddItemReferenceToArray :: "libc \<Rightarrow> 'd shjson ptr \<Rightarrow> 'd shjson ptr \<Rightarrow> fault + 'd shjson ptr" where
  "shjson_AddItemReferenceToArray c array item =
     run_bind (create_reference c item) (shjson_AddItemToArray array)"

definition shjson_AddItemReferenceToObject ::
    "libc \<Rightarrow> 'd shjson ptr \<Rightarrow> byte list ptr \<Rightarrow> 'd shjson ptr \<Rightarrow> fault + 'd shjson ptr" where
  "shjson_AddItemReferenceToObject c object string item =
     run_bind (create_reference c item) (shjson_AddItemToObject c object string)"

section \<open>Removing and replacing items\<close>

definition shjson_DetachItemFromArray :: "'d shjson ptr \<Rightarrow> int \<Rightarrow> fault + ('d shjson ptr \<times> 'd shjson ptr)" where
  "shjson_DetachItemFromArray array which =
     deref array (\<lambda>a. let i = nat which; ch = js_child a in
       if i < length ch then Inr (Some (set_child (take i ch @ drop (i + 1) ch) a), Some (ch ! i)) else Inr (Some a, None))"

definition shjson_DeleteItemFromArray :: "'d shjson ptr \<Rightarrow> int \<Rightarrow> fault + 'd shjson ptr" where
  "shjson_DeleteItemFromArray array which = run_bind (shjson_DetachItemFromArray array which) (\<lambda>(a, _). Inr a)"

text \<open>The loop that counts the members before the one with a name.\<close>

definition member_index :: "byte list ptr \<Rightarrow> 'd shjson list \<Rightarrow> nat" where
  "member_index string ch = length (takeWhile (\<lambda>x. \<not> has_name string x) ch)"

definition shjson_DetachItemFromObject ::
    "'d shjson ptr \<Rightarrow> byte list ptr \<Rightarrow> fault + ('d shjson ptr \<times> 'd shjson ptr)" where
  "shjson_DetachItemFromObject object string =
     deref object (\<lambda>a. let i = member_index string (js_child a) in
       if i < length (js_child a) then shjson_DetachItemFromArray object (int i) else Inr (object, None))"

definition shjson_DeleteItemFromObject :: "'d shjson ptr \<Rightarrow> byte list ptr \<Rightarrow> fault + 'd shjson ptr" where
  "shjson_DeleteItemFromObject object string = run_bind (shjson_DetachItemFromObject object string) (\<lambda>(a, _). Inr a)"

definition shjson_ReplaceItemInArray :: "'d shjson ptr \<Rightarrow> int \<Rightarrow> 'd shjson ptr \<Rightarrow> fault + 'd shjson ptr" where
  "shjson_ReplaceItemInArray array which newitem =
     deref array (\<lambda>a. let i = nat which; ch = js_child a in
       if i < length ch then deref newitem (\<lambda>x. Inr (Some (set_child (ch[i := x]) a))) else Inr (Some a))"

definition shjson_ReplaceItemInObject ::
    "libc \<Rightarrow> 'd shjson ptr \<Rightarrow> byte list ptr \<Rightarrow> 'd shjson ptr \<Rightarrow> fault + 'd shjson ptr" where
  "shjson_ReplaceItemInObject c object string newitem =
     deref object (\<lambda>a. let i = member_index string (js_child a) in
       if i < length (js_child a)
       then deref newitem (\<lambda>x. deref string (\<lambda>s.
         shjson_ReplaceItemInArray object (int i) (Some (set_name (shjson_strdup c s) x))))
       else Inr object)"

text \<open>The number of blocks \<open>shjson_Delete\<close> frees, on an item and on a chain.\<close>

fun item_frees :: "'d shjson \<Rightarrow> nat" and shjson_Delete :: "'d shjson list \<Rightarrow> nat" where
  "item_frees (Item t ch vs vi vd nm) =
     (if t AND shjson_IsReference = 0 then shjson_Delete ch + (case vs of None \<Rightarrow> 0 | Some _ \<Rightarrow> 1) else 0) +
     (case nm of None \<Rightarrow> 0 | Some _ \<Rightarrow> 1) + 1"
| "shjson_Delete [] = 0"
| "shjson_Delete (x # xs) = item_frees x + shjson_Delete xs"

definition shjson_free :: "'d shjson ptr ptr \<Rightarrow> 'd shjson ptr ptr" where
  "shjson_free tree_p = (case tree_p of None \<Rightarrow> None | Some _ \<Rightarrow> Some None)"

section \<open>Construction\<close>

definition shjson_New_Item :: "libc \<Rightarrow> 'd fpu \<Rightarrow> 'd shjson ptr" where
  "shjson_New_Item c fp = (if calloc_ok c SHJSON_SIZE then Some (new_item fp) else None)"

definition typed_item :: "libc \<Rightarrow> 'd fpu \<Rightarrow> int \<Rightarrow> 'd shjson ptr" where
  "typed_item c fp ty = map_option (\<lambda>x. case x of Item _ ch vs vi vd nm \<Rightarrow> Item ty ch vs vi vd nm) (shjson_New_Item c fp)"

definition shjson_CreateNull :: "libc \<Rightarrow> 'd fpu \<Rightarrow> 'd shjson ptr" where
  "shjson_CreateNull c fp = typed_item c fp shjson_NULL"

definition shjson_CreateTrue :: "libc \<Rightarrow> 'd fpu \<Rightarrow> 'd shjson ptr" where
  "shjson_CreateTrue c fp = typed_item c fp shjson_True"

definition shjson_CreateFalse :: "libc \<Rightarrow> 'd fpu \<Rightarrow> 'd shjson ptr" where
  "shjson_CreateFalse c fp = typed_item c fp shjson_False"

definition shjson_CreateBool :: "libc \<Rightarrow> 'd fpu \<Rightarrow> int \<Rightarrow> 'd shjson ptr" where
  "shjson_CreateBool c fp b = typed_item c fp (if b \<noteq> 0 then shjson_True else shjson_False)"

definition shjson_CreateNumber :: "libc \<Rightarrow> 'd fpu \<Rightarrow> 'd \<Rightarrow> 'd shjson ptr" where
  "shjson_CreateNumber c fp num =
     map_option (\<lambda>x. case x of Item _ ch vs _ _ nm \<Rightarrow> Item shjson_Number ch vs (fp_to_int fp num) num nm) (shjson_New_Item c fp)"

definition shjson_CreateString :: "libc \<Rightarrow> 'd fpu \<Rightarrow> byte list ptr \<Rightarrow> fault + 'd shjson ptr" where
  "shjson_CreateString c fp string =
     (case shjson_New_Item c fp of None \<Rightarrow> Inr None
      | Some (Item _ ch _ vi vd nm) \<Rightarrow>
          deref string (\<lambda>s. Inr (Some (Item shjson_String ch (shjson_strdup c s) vi vd nm))))"

definition shjson_CreateArray :: "libc \<Rightarrow> 'd fpu \<Rightarrow> 'd shjson ptr" where
  "shjson_CreateArray c fp = typed_item c fp shjson_Array"

definition shjson_CreateObject :: "libc \<Rightarrow> 'd fpu \<Rightarrow> 'd shjson ptr" where
  "shjson_CreateObject c fp = typed_item c fp shjson_Object"

text \<open>The loop of the array constructors: \<open>suffix_object\<close> dereferences both of its arguments, so that only a
  single item may be missing.\<close>

definition link_items :: "'d shjson ptr list \<Rightarrow> fault + 'd shjson list" where
  "link_items ns =
     (case ns of [] \<Rightarrow> Inr [] | [n] \<Rightarrow> Inr (case n of None \<Rightarrow> [] | Some x \<Rightarrow> [x])
      | _ \<Rightarrow> if None \<in> set ns then Inl NullDeref else Inr (map the ns))"

primrec run_map :: "('a \<Rightarrow> fault + 'b) \<Rightarrow> 'a list \<Rightarrow> fault + 'b list" where
  "run_map f [] = Inr []"
| "run_map f (x # xs) = run_bind (f x) (\<lambda>y. run_bind (run_map f xs) (\<lambda>ys. Inr (y # ys)))"

definition create_array ::
    "libc \<Rightarrow> 'd fpu \<Rightarrow> ('a \<Rightarrow> fault + 'd shjson ptr) \<Rightarrow> 'a list \<Rightarrow> int \<Rightarrow> fault + 'd shjson ptr" where
  "create_array c fp create xs count =
     (case shjson_CreateArray c fp of None \<Rightarrow> Inr None
      | Some a \<Rightarrow> if int (length xs) < count then Inl OutOfBounds
          else run_bind (run_map create (take (nat count) xs)) (\<lambda>ns.
            run_bind (link_items ns) (\<lambda>ch. Inr (Some (set_child ch a)))))"

definition shjson_CreateIntArray :: "libc \<Rightarrow> 'd fpu \<Rightarrow> int list \<Rightarrow> int \<Rightarrow> fault + 'd shjson ptr" where
  "shjson_CreateIntArray c fp numbers count =
     create_array c fp (\<lambda>i. Inr (shjson_CreateNumber c fp (fp_of_int fp i))) numbers count"

definition shjson_CreateDoubleArray :: "libc \<Rightarrow> 'd fpu \<Rightarrow> 'd list \<Rightarrow> int \<Rightarrow> fault + 'd shjson ptr" where
  "shjson_CreateDoubleArray c fp numbers count = create_array c fp (\<lambda>d. Inr (shjson_CreateNumber c fp d)) numbers count"

definition shjson_CreateStringArray :: "libc \<Rightarrow> 'd fpu \<Rightarrow> byte list ptr list \<Rightarrow> int \<Rightarrow> fault + 'd shjson ptr" where
  "shjson_CreateStringArray c fp strings count = create_array c fp (shjson_CreateString c fp) strings count"

text \<open>A \<open>float\<close> is the \<open>double\<close> it is converted to.\<close>

definition shjson_CreateFloatArray :: "libc \<Rightarrow> 'd fpu \<Rightarrow> 'd list \<Rightarrow> int \<Rightarrow> fault + 'd shjson ptr" where
  "shjson_CreateFloatArray c fp numbers count = create_array c fp (\<lambda>d. Inr (shjson_CreateNumber c fp d)) numbers count"

section \<open>Duplication\<close>

text \<open>A string that is copied when there is one; \<open>None\<close> when there is no memory for it.\<close>

definition dup_string :: "libc \<Rightarrow> byte list ptr \<Rightarrow> byte list ptr option" where
  "dup_string c p = (case p of None \<Rightarrow> Some None | Some s \<Rightarrow> map_option Some (shjson_strdup c s))"

fun dup_item :: "libc \<Rightarrow> bool \<Rightarrow> 'd shjson \<Rightarrow> 'd shjson ptr" and dup_items :: "libc \<Rightarrow> 'd shjson list \<Rightarrow> 'd shjson list ptr" where
  "dup_item c recurse (Item t ch vs vi vd nm) =
     (if \<not> calloc_ok c SHJSON_SIZE then None
      else case dup_string c vs of None \<Rightarrow> None
      | Some vs' \<Rightarrow>
         (case dup_string c nm of None \<Rightarrow> None
          | Some nm' \<Rightarrow>
             (let make = (\<lambda>ch'. Item (t AND NOT shjson_IsReference) ch' vs' vi vd nm') in
              if \<not> recurse then Some (make []) else map_option make (dup_items c ch))))"
| "dup_items c [] = Some []"
| "dup_items c (x # xs) =
     (case dup_item c True x of None \<Rightarrow> None | Some y \<Rightarrow> map_option (\<lambda>ys. y # ys) (dup_items c xs))"

definition shjson_Duplicate :: "libc \<Rightarrow> 'd shjson ptr \<Rightarrow> bool \<Rightarrow> 'd shjson ptr" where
  "shjson_Duplicate c item recurse = (case item of None \<Rightarrow> None | Some x \<Rightarrow> dup_item c recurse x)"

section \<open>Removing white space\<close>

fun comment_end :: "byte list \<Rightarrow> byte list" where
  "comment_end [] = []"
| "comment_end (ch # cs) = (if ch = 42 \<and> peek cs = 47 then ch # cs else comment_end cs)"

text \<open>The characters of a string after its opening quote, and the text behind it.  When the string does not end,
  the terminating NUL is copied and the text read on behind it.\<close>

fun minify_string :: "byte list \<Rightarrow> fault + (byte list \<times> byte list)" where
  "minify_string [] = Inl OutOfBounds"
| "minify_string (ch # cs) =
     (if ch = 34 then Inr ([34], cs)
      else if ch = 92
      then (case cs of [] \<Rightarrow> Inl OutOfBounds
        | e # es \<Rightarrow> run_bind (minify_string es) (\<lambda>(out, r). Inr (92 # e # out, r)))
      else run_bind (minify_string cs) (\<lambda>(out, r). Inr (ch # out, r)))"

lemma comment_end_length: "length (comment_end s) \<le> length s"
  by (induction s) auto

lemma minify_string_length: "minify_string s = Inr (out, r) \<Longrightarrow> length r < length s"
  by (induction s arbitrary: out rule: minify_string.induct)
    (fastforce simp: run_bind_eq_Inr split: if_splits list.splits)+

text \<open>A step: what is written, and the text that remains.\<close>

definition minify_step :: "byte \<Rightarrow> byte list \<Rightarrow> fault + (byte list \<times> byte list)" where
  "minify_step ch cs =
     (if ch \<in> {32, 9, 13, 10} then Inr ([], cs)
      else if ch = 47 \<and> peek cs = 47 then Inr ([], dropWhile (\<lambda>ch. ch \<noteq> 10) cs)
      else if ch = 47 \<and> peek cs = 42 then run_bind (advance 2 (comment_end cs)) (\<lambda>r. Inr ([], r))
      else if ch = 34 then run_bind (minify_string cs) (\<lambda>(out, r). Inr (34 # out, r))
      else Inr ([ch], cs))"

lemma minify_step_length: "minify_step ch cs = Inr (out, r) \<Longrightarrow> length r \<le> length cs"
  using comment_end_length [of cs]
  by (auto simp: minify_step_def advance_def run_bind_eq_Inr length_dropWhile_le dest!: minify_string_length split: if_splits)

function shjson_Minify :: "byte list \<Rightarrow> fault + byte list" where
  "shjson_Minify json =
     (case json of [] \<Rightarrow> Inr []
      | ch # cs \<Rightarrow> (case minify_step ch cs of Inl e \<Rightarrow> Inl e
          | Inr (out, r) \<Rightarrow> run_bind (shjson_Minify r) (\<lambda>rest. Inr (out @ rest))))"
  by pat_completeness auto
termination
  by (relation "measure length") (auto dest: minify_step_length)

declare shjson_Minify.simps [simp del]

section \<open>The calls of the library\<close>

definition shjson_init :: "libc \<Rightarrow> 'd fpu \<Rightarrow> byte list ptr \<Rightarrow> fault + 'd shjson ptr" where
  "shjson_init c fp json_str =
     (case json_str of None \<Rightarrow> deref (typed_item c fp shjson_Object) (\<lambda>x. Inr (Some x))
      | Some s \<Rightarrow> run_bind (shjson_Parse c fp s) (\<lambda>r. Inr (case r of Fail _ \<Rightarrow> None | Done x _ \<Rightarrow> Some x)))"

text \<open>The last part of the functions that add: the tree and the node they return.\<close>

definition add_node ::
    "libc \<Rightarrow> 'd shjson ptr \<Rightarrow> byte list ptr \<Rightarrow> 'd shjson ptr \<Rightarrow> fault + ('d shjson ptr \<times> 'd shjson ptr)" where
  "add_node c tree name node =
     (case name of None \<Rightarrow> run_bind (shjson_AddItemToArray tree node) (\<lambda>t. Inr (t, node))
      | Some s \<Rightarrow> run_bind (shjson_AddItemToObject c tree name node) (\<lambda>t.
          Inr (t, map_option (set_name (shjson_strdup c s)) node)))"

definition remove_named :: "'d shjson ptr \<Rightarrow> byte list ptr \<Rightarrow> fault + 'd shjson ptr" where
  "remove_named tree name = (case name of None \<Rightarrow> Inr tree | Some _ \<Rightarrow> shjson_DeleteItemFromObject tree name)"

definition shjson_num_add ::
    "libc \<Rightarrow> 'd fpu \<Rightarrow> 'd shjson ptr \<Rightarrow> byte list ptr \<Rightarrow> 'd \<Rightarrow> fault + ('d shjson ptr \<times> 'd shjson ptr)" where
  "shjson_num_add c fp tree name num =
     run_bind (remove_named tree name) (\<lambda>t. add_node c t name (shjson_CreateNumber c fp num))"

definition shjson_null_add ::
    "libc \<Rightarrow> 'd fpu \<Rightarrow> 'd shjson ptr \<Rightarrow> byte list ptr \<Rightarrow> fault + ('d shjson ptr \<times> 'd shjson ptr)" where
  "shjson_null_add c fp tree name =
     run_bind (remove_named tree name) (\<lambda>t. add_node c t name (shjson_CreateNull c fp))"

definition shjson_array_add ::
    "libc \<Rightarrow> 'd fpu \<Rightarrow> 'd shjson ptr \<Rightarrow> byte list ptr \<Rightarrow> fault + ('d shjson ptr \<times> 'd shjson ptr)" where
  "shjson_array_add c fp tree name = add_node c tree name (shjson_CreateArray c fp)"

definition shjson_obj_add ::
    "libc \<Rightarrow> 'd fpu \<Rightarrow> 'd shjson ptr \<Rightarrow> byte list ptr \<Rightarrow> fault + ('d shjson ptr \<times> 'd shjson ptr)" where
  "shjson_obj_add c fp tree name = add_node c tree name (shjson_CreateObject c fp)"

definition shjson_bool_add ::
    "libc \<Rightarrow> 'd fpu \<Rightarrow> 'd shjson ptr \<Rightarrow> byte list ptr \<Rightarrow> int \<Rightarrow> fault + ('d shjson ptr \<times> 'd shjson ptr)" where
  "shjson_bool_add c fp tree name b =
     run_bind (remove_named tree name) (\<lambda>t. add_node c t name (shjson_CreateBool c fp b))"

definition shjson_str_add ::
    "libc \<Rightarrow> 'd fpu \<Rightarrow> 'd shjson ptr \<Rightarrow> byte list ptr \<Rightarrow> byte list ptr \<Rightarrow> fault + ('d shjson ptr \<times> 'd shjson ptr)" where
  "shjson_str_add c fp tree name val =
     (case val of None \<Rightarrow> shjson_null_add c fp tree name
      | Some _ \<Rightarrow> run_bind (remove_named tree name) (\<lambda>t.
          run_bind (shjson_CreateString c fp val) (add_node c t name)))"

text \<open>The item the getters read: a member, or the item itself.\<close>

definition named_item :: "'d shjson ptr \<Rightarrow> byte list ptr \<Rightarrow> fault + 'd shjson ptr" where
  "named_item json name = (case name of None \<Rightarrow> Inr json | Some _ \<Rightarrow> shjson_GetObjectItem json name)"

definition number_value :: "'d fpu \<Rightarrow> 'd shjson \<Rightarrow> 'd" where
  "number_value fp x =
     (if fp_is_int fp (js_valueint x) (js_valuedouble x) then fp_of_int fp (js_valueint x) else js_valuedouble x)"

definition shjson_num :: "'d fpu \<Rightarrow> 'd shjson ptr \<Rightarrow> byte list ptr \<Rightarrow> 'd \<Rightarrow> fault + 'd" where
  "shjson_num fp json name def_d =
     (if json = None then Inr (fp_of_int fp 0)
      else run_bind (named_item json name) (\<lambda>i. Inr (case i of None \<Rightarrow> def_d | Some x \<Rightarrow> number_value fp x)))"

definition shjson_astr :: "'d shjson ptr \<Rightarrow> byte list ptr \<Rightarrow> byte list ptr \<Rightarrow> fault + byte list ptr" where
  "shjson_astr json name def_str =
     (if json = None then Inr None
      else run_bind (named_item json name) (\<lambda>i. Inr (case i of None \<Rightarrow> def_str | Some x \<Rightarrow> js_valuestring x)))"

definition shjson_str :: "libc \<Rightarrow> 'd shjson ptr \<Rightarrow> byte list ptr \<Rightarrow> byte list ptr \<Rightarrow> fault + byte list ptr" where
  "shjson_str c json name def_str =
     run_bind (shjson_astr json name def_str) (\<lambda>s. Inr (case s of None \<Rightarrow> None | Some t \<Rightarrow> shjson_strdup c t))"

definition shjson_obj :: "'d shjson ptr \<Rightarrow> byte list ptr \<Rightarrow> fault + 'd shjson ptr" where
  "shjson_obj json name = (if json = None then Inr None else named_item json name)"

definition shjson_strlen :: "'d shjson ptr \<Rightarrow> byte list ptr \<Rightarrow> fault + nat" where
  "shjson_strlen json name =
     run_bind (shjson_astr json name (Some [])) (\<lambda>s. Inr (case s of None \<Rightarrow> 0 | Some t \<Rightarrow> length t))"

definition array_item :: "'d shjson ptr \<Rightarrow> byte list ptr \<Rightarrow> int \<Rightarrow> fault + 'd shjson ptr" where
  "array_item json name idx =
     run_bind (named_item json name) (\<lambda>i.
       if i = None \<and> name \<noteq> None then Inr None
       else run_bind (shjson_GetArraySize i) (\<lambda>size.
         if idx < 0 \<or> size < idx then Inr None else shjson_GetArrayItem i idx))"

definition shjson_array_astr :: "'d shjson ptr \<Rightarrow> byte list ptr \<Rightarrow> int \<Rightarrow> fault + byte list ptr" where
  "shjson_array_astr json name idx =
     run_bind (array_item json name idx) (\<lambda>i. Inr (case i of None \<Rightarrow> None | Some x \<Rightarrow> js_valuestring x))"

definition shjson_array_str :: "libc \<Rightarrow> 'd shjson ptr \<Rightarrow> byte list ptr \<Rightarrow> int \<Rightarrow> fault + byte list ptr" where
  "shjson_array_str c json name idx =
     run_bind (shjson_array_astr json name idx) (\<lambda>s. Inr (case s of None \<Rightarrow> None | Some t \<Rightarrow> shjson_strdup c t))"

definition shjson_array_num :: "'d fpu \<Rightarrow> 'd shjson ptr \<Rightarrow> byte list ptr \<Rightarrow> int \<Rightarrow> fault + 'd" where
  "shjson_array_num fp json name idx =
     run_bind (array_item json name idx) (\<lambda>i. Inr (case i of None \<Rightarrow> fp_of_int fp 0 | Some x \<Rightarrow> number_value fp x))"

definition shjson_array_count :: "'d shjson ptr \<Rightarrow> byte list ptr \<Rightarrow> fault + int" where
  "shjson_array_count json name =
     run_bind (named_item json name) (\<lambda>i. if i = None \<and> name \<noteq> None then Inr 0 else shjson_GetArraySize i)"

definition shjson_obj_get :: "'d shjson ptr \<Rightarrow> byte list ptr \<Rightarrow> fault + 'd shjson ptr" where
  "shjson_obj_get json name = (if json = None then Inr None else shjson_GetObjectItem json name)"

definition shjson_array_get :: "'d shjson ptr \<Rightarrow> int \<Rightarrow> fault + 'd shjson ptr" where
  "shjson_array_get json idx = (if json = None then Inr None else shjson_GetArrayItem json idx)"

end
