(* ===== verification/Share_Json_Laws.thy ===== *)
theory Share_Json_Laws
  imports Share_Json_Tree
begin

text \<open>
  What the operations on JSON items keep and give: names are compared up to case, an object with distinct names is a
  table for the functions that add and read, duplicates print alike, minified text is the unformatted text, parsed items are
  well formed, and a stored string survives the way through the text.
\<close>

section \<open>Names\<close>

lemma to_lower_zero [simp]: "to_lower ch = 0 \<longleftrightarrow> ch = 0"
proof -
  have "ch + 32 \<noteq> 0" if "65 \<le> ch" "ch \<le> 90"
  proof
    assume "ch + 32 = 0"
    then have "ch = 224" by (simp add: eq_neg_iff_add_eq_0 [symmetric])
    then show False using that by simp
  qed
  then show ?thesis by (auto simp: to_lower_def)
qed

lemma to_lower_0 [simp]: "to_lower 0 = 0"
  by simp

lemma to_lower_idem [simp]: "to_lower (to_lower ch) = to_lower ch"
proof -
  have "\<not> (65 \<le> ch + 32 \<and> ch + 32 \<le> 90)" if "65 \<le> ch" "ch \<le> 90"
  proof -
    have u: "65 \<le> unat ch" "unat ch \<le> 90" using that by (simp_all add: word_le_nat_alt)
    then have "unat (ch + 32) = unat ch + 32" using unat_add_lem [of ch 32] by simp
    then show ?thesis using u by (simp add: word_le_nat_alt)
  qed
  then show ?thesis by (auto simp: to_lower_def)
qed

lemma casecmp_zero:
  "0 \<notin> set a \<Longrightarrow> 0 \<notin> set b \<Longrightarrow> casecmp_loop a b = 0 \<longleftrightarrow> map to_lower a = map to_lower b"
proof (induction a b rule: casecmp_loop.induct)
  case (1 a b)
  have diff: "uint x = uint y \<longleftrightarrow> x = y" for x y :: byte using word_uint_eq_iff [of x y] by simp
  consider (nil) "a = []" "b = []" | (left) y ys where "a = []" "b = y # ys" | (right) x xs where "a = x # xs" "b = []"
    | (cons) x xs y ys where "a = x # xs" "b = y # ys"
    by (cases a; cases b) auto
  then show ?case
  proof cases
    case left
    then have "to_lower y \<noteq> to_lower 0" using 1(3) by (simp add: to_lower_0)
    then show ?thesis using left by (simp add: casecmp_loop.simps peek_def uint_0_iff)
  next
    case right
    then have "to_lower x \<noteq> to_lower 0" using 1(2) by (simp add: to_lower_0)
    then show ?thesis using right by (simp add: casecmp_loop.simps peek_def uint_0_iff)
  next
    case cons
    then show ?thesis using 1 by (subst casecmp_loop.simps) (auto simp: diff)
  qed (simp add: casecmp_loop.simps peek_def)
qed

text \<open>The members of an object: every one has a name, no two names are the same up to case.\<close>

definition c_name :: "byte list ptr \<Rightarrow> bool" where
  "c_name p = (case p of None \<Rightarrow> False | Some s \<Rightarrow> 0 \<notin> set s)"

definition key_of :: "'d shjson \<Rightarrow> byte list" where
  "key_of x = map to_lower (the (js_string x))"

definition members_ok :: "'d shjson \<Rightarrow> bool" where
  "members_ok x \<longleftrightarrow> list_all (\<lambda>m. c_name (js_string m)) (js_child x) \<and> distinct (map key_of (js_child x))"

lemma has_name_iff: "c_name (js_string x) \<Longrightarrow> 0 \<notin> set k \<Longrightarrow> has_name (Some k) x \<longleftrightarrow> key_of x = map to_lower k"
  by (auto simp: has_name_def c_name_def shjson_strcasecmp_def key_of_def casecmp_zero split: option.splits)

lemma first_removed:
  "distinct (map key_of ch) \<Longrightarrow> list_all (\<lambda>m. c_name (js_string m)) ch \<Longrightarrow> 0 \<notin> set k \<Longrightarrow>
     (let i = member_index (Some k) ch in take i ch @ drop (i + 1) ch) = filter (\<lambda>m. \<not> has_name (Some k) m) ch"
proof (induction ch)
  case (Cons m ch)
  show ?case
  proof (cases "has_name (Some k) m")
    case True
    have "\<not> has_name (Some k) m'" if "m' \<in> set ch" for m'
    proof -
      have "key_of m = map to_lower k" "key_of m \<notin> key_of ` set ch" "c_name (js_string m')"
        using Cons.prems True that by (auto simp: has_name_iff list_all_iff)
      then show ?thesis using Cons.prems(3) that by (auto simp: has_name_iff image_iff)
    qed
    then show ?thesis using True by (simp add: member_index_def)
  qed (use Cons in \<open>simp add: member_index_def Let_def\<close>)
qed (simp add: member_index_def)

lemma delete_member:
  assumes "members_ok x" "0 \<notin> set k"
  shows "shjson_DeleteItemFromObject (Some x) (Some k) = Inr (Some (set_child (filter (\<lambda>m. \<not> has_name (Some k) m) (js_child x)) x))"
proof -
  let ?i = "member_index (Some k) (js_child x)"
  have f: "take ?i (js_child x) @ drop (?i + 1) (js_child x) = filter (\<lambda>m. \<not> has_name (Some k) m) (js_child x)"
    using first_removed [of "js_child x" k] assms by (simp add: members_ok_def Let_def)
  show ?thesis
  proof (cases "?i < length (js_child x)")
    case False
    then have "take ?i (js_child x) @ drop (?i + 1) (js_child x) = js_child x" by simp
    then show ?thesis using f False
      by (cases x) (simp add: shjson_DeleteItemFromObject_def shjson_DetachItemFromObject_def set_child_def)
  qed (use f in \<open>simp add: shjson_DeleteItemFromObject_def shjson_DetachItemFromObject_def shjson_DetachItemFromArray_def Let_def\<close>)
qed

text \<open>What the functions that add to an object have in common.\<close>

definition put_member :: "'d shjson \<Rightarrow> byte list \<Rightarrow> 'd shjson \<Rightarrow> 'd shjson" where
  "put_member x k node = set_child (filter (\<lambda>m. \<not> has_name (Some k) m) (js_child x) @ [set_name (Some k) node]) x"

lemma put_member_ok: "members_ok x \<Longrightarrow> 0 \<notin> set k \<Longrightarrow> members_ok (put_member x k node)"
  by (auto simp: members_ok_def put_member_def list_all_iff c_name_def has_name_iff key_of_def distinct_map inj_on_def)

lemma put_member_find:
  assumes "members_ok x" "0 \<notin> set k" "0 \<notin> set k'"
  shows "find (has_name (Some k')) (js_child (put_member x k node)) =
    (if map to_lower k' = map to_lower k then Some (set_name (Some k) node) else find (has_name (Some k')) (js_child x))"
proof -
  have new: "has_name (Some k') (set_name (Some k) node) \<longleftrightarrow> map to_lower k' = map to_lower k"
    using assms by (auto simp: has_name_iff c_name_def key_of_def)
  have find_filter: "find P (filter Q xs @ ys) = (if \<exists>x \<in> set xs. P x then find P xs else find P ys)"
    if "\<And>x. x \<in> set xs \<Longrightarrow> P x \<Longrightarrow> Q x" for P Q :: "'d shjson \<Rightarrow> bool" and xs ys
    using that by (induction xs) auto
  have find_none: "find P (filter Q xs @ ys) = find P ys" if "\<And>x. x \<in> set xs \<Longrightarrow> P x \<Longrightarrow> \<not> Q x" for P Q :: "'d shjson \<Rightarrow> bool" and xs ys
    using that by (induction xs) auto
  have ch: "c_name (js_string m)" if "m \<in> set (js_child x)" for m using assms(1) that by (auto simp: members_ok_def list_all_iff)
  show ?thesis
  proof (cases "map to_lower k' = map to_lower k")
    case True
    then have "find (has_name (Some k')) (js_child (put_member x k node)) = find (has_name (Some k')) [set_name (Some k) node]"
      unfolding put_member_def set_child_simps using ch assms by (intro find_none) (auto simp: has_name_iff)
    then show ?thesis using True new by simp
  next
    case False
    then have "find (has_name (Some k')) (js_child (put_member x k node)) =
        (if \<exists>m \<in> set (js_child x). has_name (Some k') m then find (has_name (Some k')) (js_child x) else find (has_name (Some k')) [set_name (Some k) node])"
      unfolding put_member_def set_child_simps using ch assms by (intro find_filter) (auto simp: has_name_iff)
    moreover have "find (has_name (Some k')) (js_child x) = None" if "\<not> (\<exists>m \<in> set (js_child x). has_name (Some k') m)"
      using that by (auto simp: find_None_iff)
    ultimately show ?thesis using False new by auto
  qed
qed

lemma add_named:
  assumes "libc_total c" "members_ok x" "0 \<notin> set k"
  shows "run_bind (remove_named (Some x) (Some k)) (\<lambda>t. add_node c t (Some k) (Some node)) =
    Inr (Some (put_member x k node), Some (set_name (Some k) node))"
  using assms by (simp add: remove_named_def delete_member add_node_def shjson_AddItemToObject_def shjson_AddItemToArray_def
      shjson_strdup_def put_member_def)

text \<open>The nodes, with memory at hand.\<close>

definition str_node :: "'d fpu \<Rightarrow> byte list \<Rightarrow> 'd shjson" where
  "str_node fp s = Item shjson_String [] (Some s) 0 (fp_of_int fp 0) None"

definition num_node :: "'d fpu \<Rightarrow> 'd \<Rightarrow> 'd shjson" where
  "num_node fp d = Item shjson_Number [] None (fp_to_int fp d) d None"

lemma create_nodes:
  assumes "libc_total c"
  shows "shjson_CreateString c fp (Some s) = Inr (Some (str_node fp s))" "shjson_CreateNumber c fp d = Some (num_node fp d)"
    "typed_item c fp t = Some (Item t [] None 0 (fp_of_int fp 0) None)"
  using assms by (simp_all add: shjson_CreateString_def shjson_CreateNumber_def typed_item_def shjson_New_Item_def new_item_def
      shjson_strdup_def str_node_def num_node_def)

lemma shjson_str_add_put:
  "libc_total c \<Longrightarrow> members_ok x \<Longrightarrow> 0 \<notin> set k \<Longrightarrow>
     shjson_str_add c fp (Some x) (Some k) (Some s) = Inr (Some (put_member x k (str_node fp s)), Some (set_name (Some k) (str_node fp s)))"
  using add_named [of c x k "str_node fp s"] by (simp add: shjson_str_add_def create_nodes)

lemma shjson_num_add_put:
  "libc_total c \<Longrightarrow> members_ok x \<Longrightarrow> 0 \<notin> set k \<Longrightarrow>
     shjson_num_add c fp (Some x) (Some k) d = Inr (Some (put_member x k (num_node fp d)), Some (set_name (Some k) (num_node fp d)))"
  using add_named [of c x k "num_node fp d"] by (simp add: shjson_num_add_def create_nodes)

text \<open>In an object whose names are distinct up to case, \<open>shjson_str_add\<close> stores a string under a name: it is
  read back under every spelling of the name, every other member reads as before, and the names stay distinct.\<close>

theorem shjson_str_add_reads:
  assumes "libc_total c" "members_ok x" "0 \<notin> set name"
  shows "\<exists>x' node. shjson_str_add c fp (Some x) (Some name) (Some val) = Inr (Some x', Some node) \<and> members_ok x' \<and>
    (\<forall>k d. 0 \<notin> set k \<longrightarrow> shjson_astr (Some x') (Some k) d =
       (if map to_lower k = map to_lower name then Inr (Some val) else shjson_astr (Some x) (Some k) d))"
proof -
  have "shjson_astr (Some (put_member x name (str_node fp val))) (Some k) d =
      (if map to_lower k = map to_lower name then Inr (Some val) else shjson_astr (Some x) (Some k) d)" if "0 \<notin> set k" for k d
    using put_member_find [OF assms(2,3) that, of "str_node fp val"]
    by (simp add: shjson_astr_def named_item_def shjson_GetObjectItem_def str_node_def)
  then show ?thesis using shjson_str_add_put [OF assms] put_member_ok [OF assms(2,3)] by blast
qed

theorem shjson_str_add_reads_witness:
  "\<exists>x' node. shjson_str_add full_libc int_fpu (Some (item_of int_fpu (JObj [[97], [98]] [JStr [1], JNum 2]))) (Some [65]) (Some [120]) =
      Inr (Some x', Some node) \<and> members_ok x' \<and>
    (\<forall>k d. 0 \<notin> set k \<longrightarrow> shjson_astr (Some x') (Some k) d =
       (if map to_lower k = map to_lower [65] then Inr (Some [120])
        else shjson_astr (Some (item_of int_fpu (JObj [[97], [98]] [JStr [1], JNum 2]))) (Some k) d))"
  by (rule shjson_str_add_reads [OF full_libc_total])
    (simp_all add: members_ok_def c_name_def key_of_def to_lower_def)

section \<open>An object as a table\<close>

definition lower_name :: "byte list \<Rightarrow> bool" where
  "lower_name k \<longleftrightarrow> 0 \<notin> set k \<and> map to_lower k = k"

definition put_str :: "'d fpu \<Rightarrow> 'd shjson \<Rightarrow> byte list \<Rightarrow> byte list \<Rightarrow> fault + 'd shjson" where
  "put_str fp x k s = run_bind (shjson_str_add full_libc fp (Some x) (Some k) (Some s)) (\<lambda>(x', _). deref x' Inr)"

definition str_table :: "'d shjson \<Rightarrow> byte list \<Rightarrow> byte list option" where
  "str_table x k = (if lower_name k then Option.bind (find (has_name (Some k)) (js_child x)) js_valuestring else None)"

interpretation jstr: key_table members_ok lower_name "\<lambda>x k. shjson_astr (Some x) (Some k) None" "put_str fp" "\<lambda>s. s" str_table for fp
proof unfold_locales
  show "shjson_astr (Some x) (Some k) None = Inr (str_table x k)" if "members_ok x" "lower_name k" for x :: "'a shjson" and k
    using that by (simp add: shjson_astr_def named_item_def shjson_GetObjectItem_def str_table_def split: option.split)
  show "\<exists>x'. put_str fp x k s = Inr x' \<and> members_ok x' \<and> str_table x' = (str_table x)(k \<mapsto> s)"
    if "members_ok x" "lower_name k" for x :: "'a shjson" and k s
  proof (intro exI conjI)
    have k: "0 \<notin> set k" using that(2) by (simp add: lower_name_def)
    show "put_str fp x k s = Inr (put_member x k (str_node fp s))"
      using shjson_str_add_put [OF full_libc_total that(1) k] by (simp add: put_str_def)
    show "members_ok (put_member x k (str_node fp s))" using that(1) k by (rule put_member_ok)
    have "str_table (put_member x k (str_node fp s)) k' = ((str_table x)(k \<mapsto> s)) k'" for k'
      using put_member_find [OF that(1) k, of k' "str_node fp s"] that(2)
      by (auto simp: str_table_def lower_name_def str_node_def)
    then show "str_table (put_member x k (str_node fp s)) = (str_table x)(k \<mapsto> s)" by blast
  qed
qed

section \<open>Duplicates\<close>

text \<open>An item without the mark of a reference, throughout.\<close>

fun unref :: "'d shjson \<Rightarrow> 'd shjson" where
  "unref (Item t ch vs vi vd nm) = Item (t AND NOT shjson_IsReference) (map unref ch) vs vi vd nm"

lemma dup_string_total: "libc_total c \<Longrightarrow> dup_string c p = Some p"
  by (simp add: dup_string_def shjson_strdup_def split: option.split)

lemma dup_total:
  fixes x :: "'d shjson"
  shows "libc_total c \<Longrightarrow> r \<Longrightarrow> dup_item c r x = Some (unref x)"
    and "libc_total c \<Longrightarrow> dup_items c xs = Some (map unref (xs :: 'd shjson list))"
  by (induction c r x and c xs rule: dup_item_dup_items.induct) (simp_all add: dup_string_total)

lemma unref_type: "(t AND NOT shjson_IsReference) AND 255 = t AND 255"
proof -
  have "NOT shjson_IsReference AND 255 = (255 :: int)" by (simp add: shjson_IsReference_def)
  then show ?thesis by (simp add: and.assoc)
qed

lemma js_string_unref [simp]: "js_string (unref x) = js_string x"
  by (cases x) simp

lemma print_values_map: "print_values c fp fmt d xs = map (print_value c fp fmt d) xs"
  by (induction xs) simp_all

lemma print_unref: "print_value c fp fmt d (unref x) = print_value c fp fmt d x"
proof (induction x arbitrary: d)
  case (Item t ch vs vi vd nm)
  then have "print_values c fp fmt (d + 1) (map unref ch) = print_values c fp fmt (d + 1) ch"
    by (simp add: print_values_map)
  then show ?case by (simp add: unref_type o_def Let_def)
qed

text \<open>A recursive duplicate is the item without the marks of references, and prints as the item does.\<close>

theorem shjson_duplicate_prints:
  assumes "libc_total c"
  shows "\<exists>y. shjson_Duplicate c (Some x) True = Some y \<and> y = unref x \<and>
    shjson_Print c' fp (Some y) = shjson_Print c' fp (Some x) \<and>
    shjson_PrintUnformatted c' fp (Some y) = shjson_PrintUnformatted c' fp (Some x)"
  using dup_total(1) [OF assms, of True x] by (simp add: shjson_Duplicate_def shjson_Print_def shjson_PrintUnformatted_def print_unref)

theorem shjson_duplicate_prints_witness:
  "\<exists>y. shjson_Duplicate full_libc (Some (Item 261 [item_of int_fpu JNull] None 0 0 None)) True = Some y \<and>
    y = unref (Item 261 [item_of int_fpu JNull] None 0 0 None) \<and>
    shjson_Print full_libc int_fpu (Some y) = shjson_Print full_libc int_fpu (Some (Item 261 [item_of int_fpu JNull] None 0 0 None)) \<and>
    shjson_PrintUnformatted full_libc int_fpu (Some y) =
      shjson_PrintUnformatted full_libc int_fpu (Some (Item 261 [item_of int_fpu JNull] None 0 0 None))"
  by (rule shjson_duplicate_prints [OF full_libc_total])

section \<open>Minified text\<close>

lemma minify_plain: "ch \<notin> {32, 9, 13, 10, 34, 47} \<Longrightarrow> shjson_Minify (ch # s) = run_bind (shjson_Minify s) (\<lambda>r. Inr (ch # r))"
  by (subst shjson_Minify.simps) (simp add: minify_step_def)

lemma minify_space: "ch \<in> {32, 9, 13, 10} \<Longrightarrow> shjson_Minify (ch # s) = shjson_Minify s"
  by (subst shjson_Minify.simps) (auto simp: minify_step_def run_bind_def split: sum.split)

text \<open>\<open>minifies s t\<close>: wherever \<open>s\<close> stands, it becomes \<open>t\<close>.\<close>

definition minifies :: "byte list \<Rightarrow> byte list \<Rightarrow> bool" where
  "minifies s t \<longleftrightarrow> (\<forall>r. shjson_Minify (s @ r) = run_bind (shjson_Minify r) (\<lambda>u. Inr (t @ u)))"

lemma minifies_append: "minifies s t \<Longrightarrow> minifies s' t' \<Longrightarrow> minifies (s @ s') (t @ t')"
  by (simp add: minifies_def run_bind_assoc)

lemma minifies_simps [simp]: "minifies [] []"
  by (simp add: minifies_def run_bind_def split: sum.split)

lemma minifies_plain: "\<forall>ch \<in> set s. ch \<notin> {32, 9, 13, 10, 34, 47} \<Longrightarrow> minifies s s"
proof (induction s)
  case (Cons ch s)
  then show ?case by (simp add: minifies_def minify_plain run_bind_assoc)
qed simp

lemma minifies_blank: "\<forall>ch \<in> set s. ch \<in> {32, 9, 10} \<Longrightarrow> minifies s []"
proof (induction s)
  case (Cons ch s)
  then have "minifies s []" by simp
  then show ?case using minify_space [of ch] Cons.prems by (auto simp: minifies_def)
qed simp

lemma minify_string_escape:
  "minify_string (escape_char ch @ r) = run_bind (minify_string r) (\<lambda>(out, u). Inr (escape_char ch @ out, u))"
proof -
  have "unat ch < 2 ^ 8" using unsigned_less [of ch, where 'a = nat] by simp
  then have "unat ch div 16 < 16" by simp
  note h = hex_char_plain [OF this] hex_char_plain [of "unat ch mod 16"]
  show ?thesis using h by (cases "minify_string r") (auto simp: escape_char_def split_def)
qed

lemma minify_string_quote: "minify_string (concat (map escape_char s) @ 34 # r) = Inr (concat (map escape_char s) @ [34], r)"
  by (induction s) (simp_all add: minify_string_escape)

lemma minifies_quote: "minifies (quote s) (quote s)"
  unfolding minifies_def
proof
  fix r
  have "minify_step 34 (concat (map escape_char s) @ 34 # r) = Inr (quote s, r)"
    by (simp add: minify_step_def minify_string_quote quote_def)
  then show "shjson_Minify (quote s @ r) = run_bind (shjson_Minify r) (\<lambda>u. Inr (quote s @ u))"
    by (subst shjson_Minify.simps) (simp add: quote_def)
qed

lemma dec_digits_digits: "\<forall>ch \<in> set (dec_digits n). is_digit ch"
proof (induction n rule: dec_digits.induct)
  case (1 n)
  then show ?case using digit_char [of n] digit_char [of "n mod 10"] by (cases "n < 10") (auto simp: dec_digits.simps [of n])
qed

lemma fmt_d_plain: "\<forall>ch \<in> set (fmt_d i). ch \<notin> {32, 9, 13, 10, 34, 47}"
proof -
  have "ch \<notin> {32, 9, 13, 10, 34, 47}" if "is_digit ch" for ch
    using that by (auto simp: is_digit_def)
  then show ?thesis using dec_digits_digits by (auto simp: fmt_d_def)
qed

lemma minifies_items:
  assumes "\<And>v. v \<in> set vs \<Longrightarrow> minifies (f v) (g v)"
  shows "minifies (join_items True (map f vs)) (join_items False (map g vs))"
  using assms
proof (induction vs)
  case (Cons v vs)
  then have "minifies (f v) (g v)" "minifies (join_items True (map f vs)) (join_items False (map g vs))" by simp_all
  moreover have "minifies [44] [44]" "minifies [32] []" by (simp_all add: minifies_plain minifies_blank)
  ultimately have "minifies (f v @ [44] @ [32] @ join_items True (map f vs)) (g v @ [44] @ [] @ join_items False (map g vs))"
    by (intro minifies_append)
  then show ?case using \<open>minifies (f v) (g v)\<close> by (cases vs) simp_all
qed simp

lemma minifies_members:
  assumes "\<And>v. v \<in> set vs \<Longrightarrow> minifies (f v) (g v)"
  shows "minifies (join_members True d (zip (map quote ns) (map f vs))) (join_members False d' (zip (map quote ns) (map g vs)))"
  using assms
proof (induction ns vs rule: list_induct2')
  case (4 n ns v vs)
  let ?c = "if zip ns vs \<noteq> [] then [44] else []"
  have "minifies (f v) (g v)"
      "minifies (join_members True d (zip (map quote ns) (map f vs))) (join_members False d' (zip (map quote ns) (map g vs)))"
    using 4 by simp_all
  moreover have "minifies (replicate d 9) []" "minifies [58] [58]" "minifies [9] []" "minifies ?c ?c" "minifies [10] []"
    by (simp_all add: minifies_plain minifies_blank)
  ultimately have "minifies (replicate d 9 @ quote n @ [58] @ [9] @ f v @ ?c @ [10] @ join_members True d (zip (map quote ns) (map f vs)))
      ([] @ quote n @ [58] @ [] @ g v @ ?c @ [] @ join_members False d' (zip (map quote ns) (map g vs)))"
    by (intro minifies_append minifies_quote)
  then show ?case by (simp add: zip_map_map)
qed simp_all

lemma minifies_text: "json_ok v \<Longrightarrow> minifies (json_text True d v) (json_text False d' v)"
proof (induction v arbitrary: d d')
  case (JArr vs)
  then have "minifies ([91] @ join_items True (map (json_text True (Suc d)) vs) @ [93]) ([91] @ join_items False (map (json_text False (Suc d')) vs) @ [93])"
    by (intro minifies_append minifies_items) (auto simp: minifies_plain list_all_iff)
  then show ?case by simp
next
  case (JObj ns vs)
  have b: "minifies [123] [123]" "minifies [125] [125]" "minifies [10] []" "minifies (replicate n 9) []" for n
    by (simp_all add: minifies_plain minifies_blank)
  have "minifies ([123] @ [10] @ replicate (d - 1) 9 @ [125]) ([123] @ [] @ [] @ [125])"
    by (intro minifies_append b)
  moreover have "minifies ([123] @ [10] @ join_members True (Suc d) (zip (map quote ns) (map (json_text True (Suc d)) vs)) @ replicate d 9 @ [125])
      ([123] @ [] @ join_members False (Suc d') (zip (map quote ns) (map (json_text False (Suc d')) vs)) @ [] @ [125])"
    using JObj by (intro minifies_append minifies_members b) (auto simp: list_all_iff)
  ultimately show ?case by simp
next
  case (JNum i)
  then show ?case using minifies_plain [OF fmt_d_plain] by simp
qed (auto simp: minifies_quote intro!: minifies_plain)

text \<open>C26: removing the white space from the formatted text of an item whose numbers are \<open>int\<close>s gives its
  unformatted text, as long as no length computed on the way leaves \<open>int\<close>.\<close>

theorem shjson_minify_print:
  assumes "represents v fp x" "json_ok v" "libc_total c" "json_bound 0 v < 2 ^ 31"
  shows "\<exists>s t. shjson_Print c fp (Some x) = Inr (Some s) \<and> shjson_PrintUnformatted c fp (Some x) = Inr (Some t) \<and> shjson_Minify s = Inr t"
proof -
  have "shjson_Minify (json_text True 0 v @ []) = run_bind (shjson_Minify []) (\<lambda>u. Inr (json_text False 0 v @ u))"
    using minifies_text [OF assms(2)] unfolding minifies_def by blast
  then show ?thesis
    using print_value_text [OF assms] by (simp add: shjson_Print_def shjson_PrintUnformatted_def shjson_Minify.simps [of "[]"])
qed

theorem shjson_minify_print_witness:
  "\<exists>s t. shjson_Print full_libc int_fpu (Some (item_of int_fpu (JObj [[97]] [JArr [JNum 5, JStr [32]]]))) = Inr (Some s) \<and>
     shjson_PrintUnformatted full_libc int_fpu (Some (item_of int_fpu (JObj [[97]] [JArr [JNum 5, JStr [32]]]))) = Inr (Some t) \<and>
     shjson_Minify s = Inr t"
  by (rule shjson_minify_print [OF _ _ full_libc_total, of "JObj [[97]] [JArr [JNum 5, JStr [32]]]"])
    (simp_all add: const_simps int_fpu_def set_name_def)

section \<open>Well-formed items\<close>

fun js_wf :: "'d shjson \<Rightarrow> bool" where
  "js_wf (Item t ch vs vi vd nm) \<longleftrightarrow>
     t \<in> {shjson_False, shjson_True, shjson_NULL, shjson_Number, shjson_String, shjson_Array, shjson_Object} \<and>
     (ch \<noteq> [] \<longrightarrow> t = shjson_Array \<or> t = shjson_Object) \<and> (vs \<noteq> None \<longleftrightarrow> t = shjson_String) \<and>
     (t = shjson_Array \<longrightarrow> list_all (\<lambda>m. js_string m = None) ch) \<and>
     (t = shjson_Object \<longrightarrow> list_all (\<lambda>m. js_string m \<noteq> None) ch) \<and> list_all js_wf ch"

lemma js_wf_set_name [simp]: "js_wf (set_name n x) = js_wf x"
  by (cases x) (simp add: set_name_def)

lemma parse_bind_Done: "parse_bind m f = Inr (Done x r) \<longleftrightarrow> (\<exists>y s. m = Inr (Done y s) \<and> f y s = Inr (Done x r))"
  by (cases m) (auto simp: parse_bind_def split: parsed.splits)

lemma parse_scalar_typed: "parse_scalar c fp s = Some (Inr (Done x r)) \<Longrightarrow> js_wf x \<and> js_string x = None"
  by (auto simp: parse_scalar_def Let_def const_simps parse_bind_Done run_bind_eq_Inr split: if_splits prod.splits)

lemma parse_key_name: "parse_key c obj s = Inr (Done nm r) \<Longrightarrow> nm \<noteq> None \<longleftrightarrow> obj"
  by (auto simp: parse_key_def parse_bind_Done split: if_splits)

lemma parse_typed:
  fixes x :: "'d shjson"
  shows "parse_value c fp n s = Inr (Done x r) \<Longrightarrow> js_wf x \<and> js_string x = None"
    and "parse_items c fp n obj acc s = Inr (Done xs r) \<Longrightarrow> list_all (\<lambda>m. js_wf m \<and> (js_string m \<noteq> None \<longleftrightarrow> obj)) acc \<Longrightarrow>
      list_all (\<lambda>m :: 'd shjson. js_wf m \<and> (js_string m \<noteq> None \<longleftrightarrow> obj)) xs"
proof (induction c fp n s and c fp n obj acc s arbitrary: x r and xs r rule: parse_value_parse_items.induct)
  case (2 c fp n s)
  show ?case
  proof (cases "parse_scalar c fp s")
    case None
    define obj where "obj = (peek s = 123)"
    have "peek s = 91 \<or> peek s = 123" using 2(2) None by (auto split: if_splits)
    moreover have "list_all (\<lambda>m. js_wf m \<and> (js_string m \<noteq> None \<longleftrightarrow> obj)) ch"
      if "parse_items c fp n obj [] (skip (tl s)) = Inr (Done ch r')" "peek (skip (tl s)) \<noteq> (if obj then 125 else 93)" for ch r'
      using 2(1) [OF None calculation obj_def refl refl that(2,1)] by simp
    ultimately show ?thesis
      using 2(2) None by (auto simp: Let_def parse_bind_Done const_simps list_all_iff obj_def split: if_splits)
  qed (use 2(2) parse_scalar_typed [of c fp s] in auto)
next
  case (4 c fp n obj acc s)
  have ok: "calloc_ok c SHJSON_SIZE" using 4(3) by (auto split: if_splits)
  then have "parse_bind (parse_key c obj s) (\<lambda>nm u. parse_bind (parse_value c fp n u) (\<lambda>y u1.
      let r2 = skip u1; acc' = acc @ [set_name nm y] in
      if peek r2 = 44 then parse_items c fp n obj acc' (tl r2)
      else if peek r2 = (if obj then 125 else 93) then Inr (Done acc' (tl r2))
      else Inr (Fail (Some r2)))) = Inr (Done xs r)"
    using 4(3) by (simp only: parse_items.simps simp_thms if_False)
  then obtain nm u y u1 where m: "parse_key c obj s = Inr (Done nm u)" "parse_value c fp n u = Inr (Done y u1)"
    and k: "(let r2 = skip u1; acc' = acc @ [set_name nm y] in
          if peek r2 = 44 then parse_items c fp n obj acc' (tl r2)
          else if peek r2 = (if obj then 125 else 93) then Inr (Done acc' (tl r2))
          else Inr (Fail (Some r2))) = Inr (Done xs r)"
    unfolding parse_bind_Done by blast
  have acc: "list_all (\<lambda>m. js_wf m \<and> (js_string m \<noteq> None \<longleftrightarrow> obj)) (acc @ [set_name nm y])"
    using 4(1) [OF _ m(2)] ok parse_key_name [OF m(1)] 4(4) by simp
  show ?case
  proof (cases "peek (skip u1) = 44")
    case True
    have "parse_items c fp n obj (acc @ [set_name nm y]) (tl (skip u1)) = Inr (Done xs r)" using k True by (simp add: Let_def)
    then show ?thesis using 4(2) [OF _ refl refl True _ acc] ok by simp
  next
    case False
    then have "xs = acc @ [set_name nm y]" using k by (auto simp: Let_def split: if_splits)
    then show ?thesis using acc by simp
  qed
qed simp_all

text \<open>C18: every item that parsing returns is well formed: its type is one of the seven, only arrays and objects have
  children, exactly the strings have a text, the members of objects have names and the elements of arrays have none.\<close>

theorem shjson_parse_typed:
  assumes "shjson_ParseWithOpts c fp s b = Inr (Done x r)"
  shows "js_wf x \<and> js_string x = None"
  using assms parse_typed(1)
  by (force simp: shjson_ParseWithOpts_def Let_def parse_bind_Done split: if_splits)

theorem shjson_parse_typed_witness:
  "js_wf (item_of int_fpu (JArr [JNum 7, JStr [97]]))"
proof -
  have "shjson_ParseWithOpts full_libc int_fpu [91, 55, 44, 34, 97, 34, 93, 32] True = Inr (Done (item_of int_fpu (JArr [JNum 7, JStr [97]])) [])"
    by code_simp
  from shjson_parse_typed [OF this] show ?thesis by simp
qed

section \<open>From one process to another\<close>

text \<open>The members that stay when a name is stored again.\<close>

definition kept :: "byte list \<Rightarrow> byte list list \<Rightarrow> jval list \<Rightarrow> (byte list \<times> jval) list" where
  "kept k ns vs = filter (\<lambda>(n, v). map to_lower n \<noteq> map to_lower k) (zip ns vs)"

lemma represents_kept:
  "length ns = length vs \<Longrightarrow> list_all2 (\<lambda>p y. p fp y) (map represents vs) ch \<Longrightarrow> map js_string ch = map Some ns \<Longrightarrow>
   list_all (\<lambda>n. 0 \<notin> set n) ns \<Longrightarrow> 0 \<notin> set k \<Longrightarrow>
   map js_string (filter (\<lambda>m. \<not> has_name (Some k) m) ch) = map Some (map fst (kept k ns vs)) \<and>
   list_all2 (\<lambda>p y. p fp y) (map represents (map snd (kept k ns vs))) (filter (\<lambda>m. \<not> has_name (Some k) m) ch)"
proof (induction ns vs arbitrary: ch rule: list_induct2)
  case (Cons n ns v vs)
  then obtain m ch' where m: "ch = m # ch'" "represents v fp m" "js_string m = Some n" by (cases ch) auto
  have "has_name (Some k) m \<longleftrightarrow> map to_lower n = map to_lower k"
    using m Cons.prems by (simp add: has_name_iff c_name_def key_of_def)
  then show ?case using Cons.IH [of ch'] Cons.prems m by (simp add: kept_def)
qed (simp add: kept_def)

lemma represents_put:
  assumes "represents (JObj ns vs) fp x" "json_ok (JObj ns vs)" "0 \<notin> set k"
  shows "represents (JObj (map fst (kept k ns vs) @ [k]) (map snd (kept k ns vs) @ [JStr s])) fp (put_member x k (str_node fp s))"
proof -
  note r = represents_kept [of ns vs fp "js_child x" k]
  have "represents (JStr s) fp (set_name (Some k) (str_node fp s))"
    by (simp add: str_node_def const_simps)
  then show ?thesis using r assms by (auto simp: put_member_def intro!: list_all2_appendI)
qed

lemma members_ok_represents:
  "represents (JObj ns vs) fp x \<Longrightarrow> json_ok (JObj ns vs) \<Longrightarrow> distinct (map (map to_lower) ns) \<Longrightarrow> members_ok x"
proof -
  assume a: "represents (JObj ns vs) fp x" "json_ok (JObj ns vs)" "distinct (map (map to_lower) ns)"
  have "map key_of (js_child x) = map (\<lambda>p. map to_lower (the p)) (map js_string (js_child x))" by (simp add: key_of_def)
  also have "\<dots> = map (\<lambda>p. map to_lower (the p)) (map Some ns)" using a(1) by (simp only: represents.simps)
  finally have "map key_of (js_child x) = map (map to_lower) ns" by (simp add: o_def)
  moreover have "list_all (\<lambda>p. c_name p) (map js_string (js_child x))"
    using a(1,2) by (auto simp: list_all_iff c_name_def)
  ultimately show ?thesis using a(3) by (simp add: members_ok_def list_all_iff)
qed

lemma find_last_member:
  "length ns = length xs \<Longrightarrow> list_all (\<lambda>n. 0 \<notin> set n \<and> map to_lower n \<noteq> map to_lower k) ns \<Longrightarrow> 0 \<notin> set k \<Longrightarrow>
     find (has_name (Some k)) (map2 (\<lambda>n x. set_name (Some n) x) ns xs @ [set_name (Some k) y]) = Some (set_name (Some k) y)"
  by (induction ns xs rule: list_induct2) (simp_all add: has_name_iff c_name_def key_of_def)

lemma kept_sums:
  fixes f :: "byte list \<Rightarrow> nat" and g :: "jval \<Rightarrow> nat"
  assumes "length ns = length vs"
  shows "sum_list (map f (map fst (kept k ns vs))) \<le> sum_list (map f ns)"
    and "sum_list (map g (map snd (kept k ns vs))) \<le> sum_list (map g vs)"
proof -
  let ?P = "\<lambda>(n, v :: jval). map to_lower n \<noteq> map to_lower k"
  have "sum_list (map (f \<circ> fst) (filter ?P (zip ns vs))) \<le> sum_list (map (f \<circ> fst) (zip ns vs))"
    "sum_list (map (g \<circ> snd) (filter ?P (zip ns vs))) \<le> sum_list (map (g \<circ> snd) (zip ns vs))"
    by (rule sum_list_filter_le_nat)+
  then show "sum_list (map f (map fst (kept k ns vs))) \<le> sum_list (map f ns)"
    "sum_list (map g (map snd (kept k ns vs))) \<le> sum_list (map g vs)"
    using assms by (simp_all add: kept_def flip: map_map)
qed

lemma kept_bound:
  assumes "length ns = length vs"
  shows "json_bound d (JObj (map fst (kept k ns vs) @ [k]) (map snd (kept k ns vs) @ [v])) \<le>
    json_bound d (JObj (ns @ [k]) (vs @ [v]))"
  using kept_sums(1) [OF assms, of "\<lambda>n. 6 * length n + 3" k]
    kept_sums(2) [OF assms, of "\<lambda>v. json_bound (d + 1) v + d + 5" k]
  by simp

text \<open>C17: a string stored in an object whose names are distinct up to case and whose numbers are \<open>int\<close>s reaches the
  process that reads the object's text, as long as no length computed on the way leaves \<open>int\<close>: after
  \<open>shjson_str_add\<close>, the printed text parses, and \<open>shjson_astr\<close> finds the string under its name.\<close>

theorem shjson_str_transmit:
  assumes "represents (JObj ns vs) fp x" "json_ok (JObj ns vs)" "distinct (map (map to_lower) ns)"
    and "exact_ints fp" "libc_total c" "0 \<notin> set name" "0 \<notin> set val"
    and "json_bound 0 (JObj (ns @ [name]) (vs @ [JStr val])) < 2 ^ 31"
  shows "\<exists>x' node s y. shjson_str_add c fp (Some x) (Some name) (Some val) = Inr (Some x', Some node) \<and>
    shjson_print c fp (Some x') = Inr (Some s) \<and> shjson_Parse c fp s = Inr (Done y []) \<and>
    shjson_astr (Some y) (Some name) d = Inr (Some val)"
proof -
  let ?ns = "map fst (kept name ns vs)" and ?vs = "map snd (kept name ns vs)"
  let ?v = "JObj (?ns @ [name]) (?vs @ [JStr val])" and ?x = "put_member x name (str_node fp val)"
  have kept: "n \<in> set ns \<and> v \<in> set vs \<and> map to_lower n \<noteq> map to_lower name" if "(n, v) \<in> set (kept name ns vs)" for n v
    using that by (auto simp: kept_def dest: set_zip_leftD set_zip_rightD)
  have ok: "json_ok ?v" using assms(2,6,7) kept by (auto simp: list_all_iff)
  have "shjson_str_add c fp (Some x) (Some name) (Some val) = Inr (Some ?x, Some (set_name (Some name) (str_node fp val)))"
    using shjson_str_add_put [OF assms(5) members_ok_represents [OF assms(1-3)] assms(6)] .
  moreover obtain s where "print_value c fp False 0 ?x = Inr (Some s)" "shjson_Parse c fp s = Inr (Done (item_of fp ?v) [])"
    using json_reparse [OF represents_put [OF assms(1,2,6)] ok assms(4,5)] kept_bound [of ns vs 0 name "JStr val"] assms(2,8)
    by fastforce
  moreover have "find (has_name (Some name)) (js_child (item_of fp ?v)) = Some (set_name (Some name) (item_of fp (JStr val)))"
    using find_last_member [of ?ns "map (item_of fp) ?vs" name "item_of fp (JStr val)"] assms(2,6) kept
    by (fastforce simp: list_all_iff)
  then have "shjson_astr (Some (item_of fp ?v)) (Some name) d = Inr (Some val)"
    by (simp add: shjson_astr_def named_item_def shjson_GetObjectItem_def)
  ultimately show ?thesis
    by (auto simp: shjson_print_def shjson_PrintUnformatted_def)
qed

theorem shjson_str_transmit_witness:
  "\<exists>x' node s y. shjson_str_add full_libc int_fpu (Some (item_of int_fpu (JObj [[97]] [JNull]))) (Some [98]) (Some [34, 9]) = Inr (Some x', Some node) \<and>
    shjson_print full_libc int_fpu (Some x') = Inr (Some s) \<and> shjson_Parse full_libc int_fpu s = Inr (Done y []) \<and>
    shjson_astr (Some y) (Some [98]) None = Inr (Some [34, 9])"
  by (rule shjson_str_transmit [OF _ _ _ int_fpu_exact full_libc_total, of "[[97]]" "[JNull]"])
    (simp_all add: const_simps set_name_def)

end
