(* ===== verification/Share_Mpi.thy ===== *)
theory Share_Mpi
  imports Share_Prelude
begin

text \<open>
  The multi-precision integers of \<^verbatim>\<open>share-lib/mem/shmem_mpi.c\<close>, in the build with 64-bit limbs: the struct, memory, copies,
  bits, shifts and comparison, and the value of a number.  The variables a C function gets by address are
  cells of a store, so that two arguments may be the same cell.  A number has its sign and its limbs, the
  least significant first; \<open>n\<close> is the length of the list, and \<open>p\<close> is \<open>NULL\<close> exactly when it is empty.
\<close>

section \<open>Numbers and the store\<close>

record shmpi =
  mp_s :: int
  mp_p :: "u64 list"

text \<open>The variables: those of the callers, and the local ones of a function.  The first number of a local variable
  is the depth of its function in the call graph: a function calls only functions of smaller depth, so that no two functions
  that are active share a cell.  The cell of a local variable is blank again when its function returns.\<close>

datatype mvar = Arg nat | Loc nat nat

type_synonym mpis = "mvar \<Rightarrow> shmpi"

text \<open>An operation returns its error code, 0 for success, and the store.\<close>

type_synonym mop = "mpis \<Rightarrow> fault + (int \<times> mpis)"

definition MPI_MAX_LIMBS :: nat where "MPI_MAX_LIMBS = 10000"
definition ERR_BAD_INPUT_DATA :: int where "ERR_BAD_INPUT_DATA = - 4"
definition ERR_INVALID_CHARACTER :: int where "ERR_INVALID_CHARACTER = - 6"
definition ERR_BUFFER_TOO_SMALL :: int where "ERR_BUFFER_TOO_SMALL = - 8"
definition ERR_NEGATIVE_VALUE :: int where "ERR_NEGATIVE_VALUE = - 10"
definition ERR_DIVISION_BY_ZERO :: int where "ERR_DIVISION_BY_ZERO = - 12"
definition ERR_NOT_ACCEPTABLE :: int where "ERR_NOT_ACCEPTABLE = - 14"
definition ERR_MALLOC_FAILED :: int where "ERR_MALLOC_FAILED = - 16"

lemmas mpi_consts [const_simps] = MPI_MAX_LIMBS_def ERR_BAD_INPUT_DATA_def ERR_INVALID_CHARACTER_def
  ERR_BUFFER_TOO_SMALL_def ERR_NEGATIVE_VALUE_def ERR_DIVISION_BY_ZERO_def ERR_NOT_ACCEPTABLE_def ERR_MALLOC_FAILED_def

definition mpi_ret :: "int \<Rightarrow> mop" where
  "mpi_ret r h = Inr (r, h)"

text \<open>\<open>MPI_CHK\<close>: the rest is skipped when a call fails.\<close>

definition mpi_chk :: "mop \<Rightarrow> mop \<Rightarrow> mop" where
  "mpi_chk m k h = run_bind (m h) (\<lambda>(ret, h'). if ret \<noteq> 0 then Inr (ret, h') else k h')"

text \<open>The code behind \<open>cleanup\<close>, which runs on every way out.\<close>

definition mpi_cleanup :: "mop \<Rightarrow> (mpis \<Rightarrow> mpis) \<Rightarrow> mop" where
  "mpi_cleanup m f h = run_bind (m h) (\<lambda>(ret, h'). Inr (ret, f h'))"

definition mpi_do :: "(mpis \<Rightarrow> mpis) \<Rightarrow> mop" where
  "mpi_do f h = Inr (0, f h)"

definition mpi_on :: "mvar \<Rightarrow> (shmpi \<Rightarrow> int \<times> shmpi) \<Rightarrow> mop" where
  "mpi_on x f h = (case f (h x) of (ret, X) \<Rightarrow> Inr (ret, h(x := X)))"

section \<open>Memory\<close>

definition shmpi_init :: shmpi where
  "shmpi_init = \<lparr>mp_s = 1, mp_p = []\<rparr>"

definition shmpi_free :: "shmpi \<Rightarrow> shmpi" where
  "shmpi_free X = \<lparr>mp_s = 1, mp_p = []\<rparr>"

definition shmpi_grow :: "libc \<Rightarrow> nat \<Rightarrow> shmpi \<Rightarrow> int \<times> shmpi" where
  "shmpi_grow c nblimbs X =
     (if MPI_MAX_LIMBS < nblimbs then (ERR_MALLOC_FAILED, X)
      else if length (mp_p X) < nblimbs
      then (if \<not> calloc_ok c (nblimbs * 8) then (ERR_MALLOC_FAILED, X)
            else (0, X\<lparr>mp_p := mp_p X @ replicate (nblimbs - length (mp_p X)) 0\<rparr>))
      else (0, X))"

text \<open>The loop from the highest limb down to one that is not zero, and the number of limbs it leaves.\<close>

fun top_loop :: "u64 list \<Rightarrow> nat \<Rightarrow> nat" where
  "top_loop p 0 = 0"
| "top_loop p (Suc i) = (if p ! i \<noteq> 0 then Suc i else top_loop p i)"

definition used_limbs :: "u64 list \<Rightarrow> nat" where
  "used_limbs p = top_loop p (length p)"

definition shmpi_shrink :: "libc \<Rightarrow> nat \<Rightarrow> shmpi \<Rightarrow> int \<times> shmpi" where
  "shmpi_shrink c nblimbs X =
     (if length (mp_p X) \<le> nblimbs then shmpi_grow c nblimbs X
      else let i = max (max 1 (used_limbs (mp_p X))) nblimbs in
        if \<not> calloc_ok c (i * 8) then (ERR_MALLOC_FAILED, X) else (0, X\<lparr>mp_p := take i (mp_p X)\<rparr>))"

definition shmpi_copy :: "libc \<Rightarrow> mvar \<Rightarrow> mvar \<Rightarrow> mop" where
  "shmpi_copy c x y h =
     (if x = y then mpi_ret 0 h
      else if mp_p (h y) = [] then Inr (0, h(x := shmpi_free (h x)))
      else let i = max 1 (used_limbs (mp_p (h y))) in
        mpi_chk (mpi_on x (\<lambda>X. shmpi_grow c i (X\<lparr>mp_s := mp_s (h y)\<rparr>)))
          (mpi_do (\<lambda>h'. h'(x := (h' x)\<lparr>mp_p := take i (mp_p (h y)) @ replicate (length (mp_p (h' x)) - i) 0\<rparr>))) h)"

definition shmpi_swap :: "mvar \<Rightarrow> mvar \<Rightarrow> mpis \<Rightarrow> mpis" where
  "shmpi_swap x y h = h(x := h y, y := h x)"

text \<open>1 for every byte but 0.\<close>

definition as_bit :: "byte \<Rightarrow> byte" where
  "as_bit a = drop_bit 7 (a OR - a)"

definition select :: "byte \<Rightarrow> u64 \<Rightarrow> u64 \<Rightarrow> u64" where
  "select a x y = x * ucast (1 - a) + y * ucast a"

definition select_sign :: "byte \<Rightarrow> int \<Rightarrow> int \<Rightarrow> int" where
  "select_sign a s t = s * (1 - uint a) + t * uint a"

definition shmpi_safe_cond_assign :: "libc \<Rightarrow> mvar \<Rightarrow> mvar \<Rightarrow> byte \<Rightarrow> mop" where
  "shmpi_safe_cond_assign c x y assign h =
     (let a = as_bit assign; n = length (mp_p (h y)) in
      mpi_chk (mpi_on x (shmpi_grow c n))
        (mpi_do (\<lambda>h'. h'(x := (h' x)\<lparr>mp_s := select_sign a (mp_s (h' x)) (mp_s (h' y)),
           mp_p := map2 (select a) (take n (mp_p (h' x))) (mp_p (h' y)) @
             map (\<lambda>l. l * ucast (1 - a)) (drop n (mp_p (h' x)))\<rparr>))) h)"

definition shmpi_safe_cond_swap :: "libc \<Rightarrow> mvar \<Rightarrow> mvar \<Rightarrow> byte \<Rightarrow> mop" where
  "shmpi_safe_cond_swap c x y swap h =
     (if x = y then mpi_ret 0 h
      else let a = as_bit swap in
        mpi_chk (mpi_on x (shmpi_grow c (length (mp_p (h y)))))
          (\<lambda>h1. mpi_chk (mpi_on y (shmpi_grow c (length (mp_p (h1 x)))))
            (mpi_do (\<lambda>h'. h'(x := \<lparr>mp_s = select_sign a (mp_s (h' x)) (mp_s (h' y)), mp_p = map2 (select a) (mp_p (h' x)) (mp_p (h' y))\<rparr>,
               y := \<lparr>mp_s = select_sign a (mp_s (h' y)) (mp_s (h' x)), mp_p = map2 (select a) (mp_p (h' y)) (mp_p (h' x))\<rparr>))) h1) h)"

text \<open>The limb and the sign of a \<open>t_sint\<close>; the negation overflows on the least one.\<close>

definition sint_limb :: "int \<Rightarrow> fault + u64" where
  "sint_limb z = (if z = - (2 ^ 63) then Inl IntOverflow else Inr (word_of_int (if z < 0 then - z else z)))"

definition sint_sign :: "int \<Rightarrow> int" where
  "sint_sign z = (if z < 0 then - 1 else 1)"

definition shmpi_lset :: "libc \<Rightarrow> mvar \<Rightarrow> int \<Rightarrow> mop" where
  "shmpi_lset c x z =
     mpi_chk (mpi_on x (shmpi_grow c 1))
       (\<lambda>h. run_bind (sint_limb z) (\<lambda>l.
         Inr (0, h(x := \<lparr>mp_s = sint_sign z, mp_p = l # replicate (length (mp_p (h x)) - 1) 0\<rparr>))))"

section \<open>Bits\<close>

definition shmpi_get_bit :: "shmpi \<Rightarrow> nat \<Rightarrow> int" where
  "shmpi_get_bit X pos =
     (if length (mp_p X) * 64 \<le> pos then 0 else uint (drop_bit (pos mod 64) (mp_p X ! (pos div 64)) AND 1))"

definition shmpi_set_bit :: "libc \<Rightarrow> mvar \<Rightarrow> nat \<Rightarrow> byte \<Rightarrow> mop" where
  "shmpi_set_bit c x pos val h =
     (let off = pos div 64; idx = pos mod 64;
          put = mpi_do (\<lambda>h'. h'(x := (h' x)\<lparr>mp_p :=
            (mp_p (h' x))[off := (mp_p (h' x) ! off AND NOT (push_bit idx 1)) OR push_bit idx (ucast val)]\<rparr>))
      in if val \<noteq> 0 \<and> val \<noteq> 1 then mpi_ret ERR_BAD_INPUT_DATA h
         else if length (mp_p (h x)) * 64 \<le> pos
         then (if val = 0 then mpi_ret 0 h else mpi_chk (mpi_on x (shmpi_grow c (off + 1))) put h)
         else put h)"

text \<open>The position of the lowest bit that is set in a limb, and in a list of limbs; 0 when there is none.\<close>

definition limb_lsb :: "u64 \<Rightarrow> nat option" where
  "limb_lsb x = find (\<lambda>j. drop_bit j x AND 1 \<noteq> 0) [0..<64]"

fun lsb_loop :: "nat \<Rightarrow> u64 list \<Rightarrow> nat" where
  "lsb_loop count [] = 0"
| "lsb_loop count (x # xs) = (case limb_lsb x of Some j \<Rightarrow> count + j | None \<Rightarrow> lsb_loop (count + 64) xs)"

definition shmpi_lsb :: "shmpi \<Rightarrow> nat" where
  "shmpi_lsb X = lsb_loop 0 (mp_p X)"

text \<open>The loop \<open>for (j = biL; j > 0; j--)\<close> of \<open>shmpi_msb\<close>.\<close>

fun msb_loop :: "u64 \<Rightarrow> nat \<Rightarrow> nat" where
  "msb_loop x 0 = 0"
| "msb_loop x (Suc j) = (if drop_bit j x AND 1 \<noteq> 0 then Suc j else msb_loop x j)"

definition shmpi_msb :: "shmpi \<Rightarrow> nat" where
  "shmpi_msb X =
     (if mp_p X = [] then 0
      else let i = used_limbs (mp_p X) - 1 in i * 64 + msb_loop (mp_p X ! i) 64)"

definition shmpi_size :: "shmpi \<Rightarrow> nat" where
  "shmpi_size X = (shmpi_msb X + 7) div 8"

fun clz_loop :: "u64 \<Rightarrow> u64 \<Rightarrow> nat \<Rightarrow> nat \<Rightarrow> nat" where
  "clz_loop x m j 0 = j"
| "clz_loop x m j (Suc k) = (if x AND m \<noteq> 0 then j else clz_loop x (drop_bit 1 m) (j + 1) k)"

definition clz :: "u64 \<Rightarrow> nat" where
  "clz x = clz_loop x (push_bit 63 1) 0 64"

definition shmpi_bitlen :: "shmpi \<Rightarrow> nat" where
  "shmpi_bitlen X =
     (if mp_p X = [] then 0
      else let i = used_limbs (mp_p X) - 1 in i * 64 + (64 - clz (mp_p X ! i)))"

section \<open>Shifts\<close>

fun shl_loop :: "nat \<Rightarrow> u64 \<Rightarrow> u64 list \<Rightarrow> u64 list" where
  "shl_loop t r0 [] = []"
| "shl_loop t r0 (x # xs) = (push_bit t x OR r0) # shl_loop t (drop_bit (64 - t) x) xs"

definition shmpi_shift_l :: "libc \<Rightarrow> mvar \<Rightarrow> nat \<Rightarrow> mop" where
  "shmpi_shift_l c x count h =
     (let v0 = count div 64; t1 = count mod 64; i = shmpi_msb (h x) + count;
          move = (\<lambda>p. take (length p) (replicate v0 0 @ p));
          shift = (\<lambda>p. take v0 p @ (if 0 < t1 then shl_loop t1 0 (drop v0 p) else drop v0 p))
      in mpi_chk (if length (mp_p (h x)) * 64 < i then mpi_on x (shmpi_grow c ((i + 63) div 64)) else mpi_ret 0)
           (mpi_do (\<lambda>h'. h'(x := (h' x)\<lparr>mp_p := shift (move (mp_p (h' x)))\<rparr>))) h)"

text \<open>The loop runs from the highest limb down; the list is in that order.\<close>

fun shr_loop :: "nat \<Rightarrow> u64 \<Rightarrow> u64 list \<Rightarrow> u64 list" where
  "shr_loop v r0 [] = []"
| "shr_loop v r0 (x # xs) = (drop_bit v x OR r0) # shr_loop v (push_bit (64 - v) x) xs"

definition shmpi_shift_r :: "libc \<Rightarrow> mvar \<Rightarrow> nat \<Rightarrow> mop" where
  "shmpi_shift_r c x count h =
     (let v0 = count div 64; v1 = count mod 64; n = length (mp_p (h x));
          move = (\<lambda>p. drop v0 p @ replicate v0 0);
          shift = (\<lambda>p. if 0 < v1 then rev (shr_loop v1 0 (rev p)) else p)
      in if n < v0 \<or> (v0 = n \<and> 0 < v1) then shmpi_lset c x 0 h
         else mpi_do (\<lambda>h'. h'(x := (h' x)\<lparr>mp_p := shift (move (mp_p (h' x)))\<rparr>)) h)"

section \<open>Comparison\<close>

text \<open>The loop over the limbs, the highest first.\<close>

fun cmp_loop :: "u64 list \<Rightarrow> u64 list \<Rightarrow> int" where
  "cmp_loop (x # xs) (y # ys) = (if y < x then 1 else if x < y then - 1 else cmp_loop xs ys)"
| "cmp_loop _ _ = 0"

definition shmpi_cmp_abs :: "shmpi \<Rightarrow> shmpi \<Rightarrow> int" where
  "shmpi_cmp_abs X Y =
     (let i = used_limbs (mp_p X); j = used_limbs (mp_p Y) in
      if i = 0 \<and> j = 0 then 0 else if j < i then 1 else if i < j then - 1
      else cmp_loop (rev (take i (mp_p X))) (rev (take i (mp_p Y))))"

definition shmpi_cmp_mpi :: "shmpi \<Rightarrow> shmpi \<Rightarrow> int" where
  "shmpi_cmp_mpi X Y =
     (let i = used_limbs (mp_p X); j = used_limbs (mp_p Y) in
      if i = 0 \<and> j = 0 then 0 else if j < i then mp_s X else if i < j then - mp_s Y
      else if 0 < mp_s X \<and> mp_s Y < 0 then 1 else if 0 < mp_s Y \<and> mp_s X < 0 then - 1
      else mp_s X * cmp_loop (rev (take i (mp_p X))) (rev (take i (mp_p Y))))"

text \<open>The number on the stack that the functions with an \<open>int\<close> argument make.\<close>

definition int_mpi :: "int \<Rightarrow> fault + shmpi" where
  "int_mpi z = run_bind (sint_limb z) (\<lambda>l. Inr \<lparr>mp_s = sint_sign z, mp_p = [l]\<rparr>)"

definition shmpi_cmp_int :: "shmpi \<Rightarrow> int \<Rightarrow> fault + int" where
  "shmpi_cmp_int X z = run_bind (int_mpi z) (\<lambda>Y. Inr (shmpi_cmp_mpi X Y))"

section \<open>Values\<close>

definition limb_base :: nat where "limb_base = 2 ^ 64"

lemma limb_base_pos [simp]: "0 < limb_base" "Suc 0 < limb_base" "Suc 0 \<le> limb_base" "limb_base \<noteq> 0"
  by (simp_all add: limb_base_def)

lemma limb_lt: "unat (x :: u64) < limb_base"
  using unsigned_less [of x, where 'a = nat] by (simp add: limb_base_def)

primrec limbs_val :: "u64 list \<Rightarrow> nat" where
  "limbs_val [] = 0"
| "limbs_val (x # xs) = unat x + limb_base * limbs_val xs"

definition mpi_val :: "shmpi \<Rightarrow> int" where
  "mpi_val X = mp_s X * int (limbs_val (mp_p X))"

definition mpi_ok :: "shmpi \<Rightarrow> bool" where
  "mpi_ok X \<longleftrightarrow> (mp_s X = 1 \<or> mp_s X = - 1) \<and> length (mp_p X) \<le> MPI_MAX_LIMBS"

text \<open>A variable that can be overwritten: fresh memory has no sign yet.\<close>

definition mpi_room :: "shmpi \<Rightarrow> bool" where
  "mpi_room X \<longleftrightarrow> length (mp_p X) \<le> MPI_MAX_LIMBS"

lemma mpi_ok_room [simp]: "mpi_ok X \<Longrightarrow> mpi_room X"
  by (simp add: mpi_ok_def mpi_room_def)

lemma limbs_val_append: "limbs_val (xs @ ys) = limbs_val xs + limb_base ^ length xs * limbs_val ys"
  by (induction xs) (simp_all add: algebra_simps)

lemma limbs_val_replicate [simp]: "limbs_val (replicate n 0) = 0"
  by (induction n) simp_all

lemma limbs_val_lt: "limbs_val xs < limb_base ^ length xs"
proof (induction xs)
  case (Cons x xs)
  then have "limb_base * (limbs_val xs + 1) \<le> limb_base * limb_base ^ length xs" by (intro mult_le_mono2) simp
  then show ?case using limb_lt [of x] by simp
qed simp

lemma limbs_val_split: "i \<le> length p \<Longrightarrow> limbs_val p = limbs_val (take i p) + limb_base ^ i * limbs_val (drop i p)"
  using limbs_val_append [of "take i p" "drop i p"] by simp

lemma limbs_val_take_Suc: "i < length p \<Longrightarrow> limbs_val (take (Suc i) p) = limbs_val (take i p) + limb_base ^ i * unat (p ! i)"
  by (simp add: take_Suc_conv_app_nth limbs_val_append)

lemma top_loop_facts:
  "i \<le> length p \<Longrightarrow> top_loop p i \<le> i \<and> limbs_val (take (top_loop p i) p) = limbs_val (take i p) \<and>
     (0 < top_loop p i \<longrightarrow> p ! (top_loop p i - 1) \<noteq> 0)"
  by (induction i) (auto simp: limbs_val_take_Suc)

lemma used_limbs_le: "used_limbs p \<le> length p"
  using top_loop_facts [of "length p" p] by (simp add: used_limbs_def)

lemma limbs_val_used: "limbs_val (take (used_limbs p) p) = limbs_val p"
  using top_loop_facts [of "length p" p] by (simp add: used_limbs_def)

lemma used_limbs_top: "0 < used_limbs p \<Longrightarrow> p ! (used_limbs p - 1) \<noteq> 0"
  using top_loop_facts [of "length p" p] by (simp add: used_limbs_def)

lemma limbs_val_take_top: "0 < i \<Longrightarrow> i \<le> length p \<Longrightarrow> limbs_val (take i p) = limbs_val (take (i - 1) p) + limb_base ^ (i - 1) * unat (p ! (i - 1))"
  using limbs_val_take_Suc [of "i - 1" p] by simp

lemma used_limbs_bound:
  assumes "0 < used_limbs p"
  shows "limb_base ^ (used_limbs p - 1) \<le> limbs_val p"
proof -
  have "limbs_val p = limbs_val (take (used_limbs p - 1) p) + limb_base ^ (used_limbs p - 1) * unat (p ! (used_limbs p - 1))"
    using limbs_val_take_top [OF assms used_limbs_le] limbs_val_used [of p] by simp
  moreover have "0 < unat (p ! (used_limbs p - 1))" using used_limbs_top [OF assms] by (simp add: unat_gt_0)
  ultimately show ?thesis by (simp add: trans_le_add2)
qed

lemma used_limbs_0: "used_limbs p = 0 \<longleftrightarrow> limbs_val p = 0"
proof
  show "used_limbs p = 0 \<Longrightarrow> limbs_val p = 0" using limbs_val_used [of p] by simp
  show "limbs_val p = 0 \<Longrightarrow> used_limbs p = 0" using used_limbs_bound [of p] by (cases "used_limbs p") auto
qed

lemma limbs_val_lt_used: "limbs_val p < limb_base ^ used_limbs p"
  using limbs_val_lt [of "take (used_limbs p) p"] limbs_val_used [of p] used_limbs_le [of p] by simp

lemma used_limbs_less: "used_limbs p < used_limbs q \<Longrightarrow> limbs_val p < limbs_val q"
proof -
  assume a: "used_limbs p < used_limbs q"
  have "limbs_val p < limb_base ^ used_limbs p" by (rule limbs_val_lt_used)
  also have "\<dots> \<le> limb_base ^ (used_limbs q - 1)" using a by (intro power_increasing) simp_all
  also have "\<dots> \<le> limbs_val q" using a by (intro used_limbs_bound) simp
  finally show ?thesis .
qed

lemma used_limbs_le_iff: "limbs_val p < limb_base ^ k \<longleftrightarrow> used_limbs p \<le> k"
proof
  assume a: "limbs_val p < limb_base ^ k"
  have "limb_base ^ (used_limbs p - 1) < limb_base ^ k" if "0 < used_limbs p" using used_limbs_bound [OF that] a by (rule le_less_trans)
  then show "used_limbs p \<le> k" by (cases "used_limbs p") (auto simp: power_strict_increasing_iff Suc_le_eq)
next
  assume "used_limbs p \<le> k"
  then have "limb_base ^ used_limbs p \<le> limb_base ^ k" by (intro power_increasing) simp_all
  with limbs_val_lt_used [of p] show "limbs_val p < limb_base ^ k" by (rule less_le_trans)
qed

lemma limbs_val_take_used: "used_limbs p \<le> i \<Longrightarrow> limbs_val (take i p) = limbs_val p"
proof (cases "i \<le> length p")
  case True
  assume "used_limbs p \<le> i"
  then have "limbs_val p < limb_base ^ i" by (simp add: used_limbs_le_iff)
  moreover have "limbs_val p = limbs_val (take i p) + limb_base ^ i * limbs_val (drop i p)" using True by (rule limbs_val_split)
  ultimately show ?thesis by (cases "limbs_val (drop i p)") auto
qed simp

section \<open>Local variables\<close>

text \<open>A variable that is not local to a function of depth below \<open>k\<close>, and a store where all those are blank.\<close>

definition outer_var :: "nat \<Rightarrow> mvar \<Rightarrow> bool" where
  "outer_var k v = (case v of Arg _ \<Rightarrow> True | Loc j _ \<Rightarrow> k \<le> j)"

definition blank_locals :: "nat \<Rightarrow> mpis \<Rightarrow> bool" where
  "blank_locals k h \<longleftrightarrow> (\<forall>v. \<not> outer_var k v \<longrightarrow> h v = shmpi_init)"

lemma outer_var_simps [simp]: "outer_var k (Arg n)" "outer_var k (Loc j n) \<longleftrightarrow> k \<le> j"
  by (simp_all add: outer_var_def)

lemma outer_var_mono: "outer_var k v \<Longrightarrow> j \<le> k \<Longrightarrow> outer_var j v"
  by (auto simp: outer_var_def split: mvar.splits)

lemma outer_var_neq: "outer_var k v \<Longrightarrow> j < k \<Longrightarrow> v \<noteq> Loc j n"
  by auto

lemma blank_locals_mono: "blank_locals k h \<Longrightarrow> j \<le> k \<Longrightarrow> blank_locals j h"
  by (auto simp: blank_locals_def dest: outer_var_mono)

lemma blank_locals_upd [simp]: "blank_locals k h \<Longrightarrow> outer_var k x \<Longrightarrow> blank_locals k (h(x := X))"
  by (auto simp: blank_locals_def)

lemma blank_local: "blank_locals k h \<Longrightarrow> j < k \<Longrightarrow> h (Loc j n) = shmpi_init"
  by (auto simp: blank_locals_def)

lemma mpi_ok_init [simp]: "mpi_ok shmpi_init" "mp_s shmpi_init = 1" "limbs_val (mp_p shmpi_init) = 0" "mpi_val shmpi_init = 0" "mp_p shmpi_init = []"
  "shmpi_free X = shmpi_init"
  by (simp_all add: mpi_ok_def shmpi_init_def mpi_val_def shmpi_free_def)

section \<open>Growing, copying and setting\<close>

lemma grow_ok:
  assumes "libc_total c" "nblimbs \<le> MPI_MAX_LIMBS"
  shows "shmpi_grow c nblimbs X = (0, X\<lparr>mp_p := mp_p X @ replicate (nblimbs - length (mp_p X)) 0\<rparr>)"
  using assms by (cases X) (simp add: shmpi_grow_def)

lemma mpi_chk_simps [simp, run_simps]:
  "m h = Inr (0, h') \<Longrightarrow> mpi_chk m k h = k h'" "m h = Inl e \<Longrightarrow> mpi_chk m k h = Inl e"
  "m h = Inr (r, h') \<Longrightarrow> r \<noteq> 0 \<Longrightarrow> mpi_chk m k h = Inr (r, h')"
  by (simp_all add: mpi_chk_def)

lemma mpi_simps [simp, run_simps]:
  "mpi_ret r h = Inr (r, h)" "mpi_do f h = Inr (0, f h)" "g (h x) = (r, X) \<Longrightarrow> mpi_on x g h = Inr (r, h(x := X))"
  by (simp_all add: mpi_ret_def mpi_do_def mpi_on_def)

lemma mpi_cleanup_simp [simp, run_simps]: "m h = Inr (r, h') \<Longrightarrow> mpi_cleanup m f h = Inr (r, f h')"
  by (simp add: mpi_cleanup_def)

lemma copy_ok:
  assumes "libc_total c" "mpi_ok (h y)" "mpi_room (h x)"
  obtains X where "shmpi_copy c x y h = Inr (0, h(x := X))" "mpi_val X = mpi_val (h y)" "mpi_ok X"
    "limbs_val (mp_p X) = limbs_val (mp_p (h y))" "mp_p (h y) \<noteq> [] \<longrightarrow> mp_s X = mp_s (h y)"
    "length (mp_p X) \<le> max (length (mp_p (h x))) (max 1 (used_limbs (mp_p (h y))))" "mp_p (h y) \<noteq> [] \<longrightarrow> mp_p X \<noteq> [] \<and> length (mp_p (h x)) \<le> length (mp_p X)"
proof (cases "x = y")
  case True
  then show ?thesis using that [of "h x"] assms by (simp add: shmpi_copy_def)
next
  case False
  let ?Y = "mp_p (h y)" and ?X = "mp_p (h x)"
  show ?thesis
  proof (cases "?Y = []")
    case True
    then show ?thesis using False assms by (intro that [of "shmpi_free (h x)"]) (simp_all add: shmpi_copy_def shmpi_free_def mpi_val_def mpi_ok_def)
  next
    case ne: False
    define i where "i = max 1 (used_limbs ?Y)"
    have i: "i \<le> length ?Y" "used_limbs ?Y \<le> i" "0 < i" using ne used_limbs_le [of ?Y] by (auto simp: i_def Suc_le_eq)
    then have im: "i \<le> MPI_MAX_LIMBS" using assms(2) by (simp add: mpi_ok_def)
    let ?Z = "(h x)\<lparr>mp_s := mp_s (h y), mp_p := take i ?Y @ replicate (max (length ?X) i - i) 0\<rparr>"
    have run: "shmpi_copy c x y h = Inr (0, h(x := ?Z))"
    proof -
      have "shmpi_copy c x y h = mpi_chk (mpi_on x (\<lambda>X. shmpi_grow c i (X\<lparr>mp_s := mp_s (h y)\<rparr>)))
          (mpi_do (\<lambda>h'. h'(x := (h' x)\<lparr>mp_p := take i ?Y @ replicate (length (mp_p (h' x)) - i) 0\<rparr>))) h"
        unfolding i_def shmpi_copy_def Let_def using False ne by (simp only: if_False)
      then show ?thesis using grow_ok [OF assms(1) im] by (simp add: mpi_chk_def mpi_on_def max_def)
    qed
    have "limbs_val (take i ?Y) = limbs_val ?Y" using i(2) by (rule limbs_val_take_used)
    then have v: "limbs_val (mp_p ?Z) = limbs_val ?Y" by (simp add: limbs_val_append)
    have len: "length (mp_p ?Z) = max (length ?X) i" using i by simp
    show ?thesis
    proof (rule that [OF run])
      show "mpi_ok ?Z" using assms(2,3) im len by (simp add: mpi_ok_def mpi_room_def)
      show "length (mp_p ?Z) \<le> max (length ?X) (max 1 (used_limbs ?Y))" unfolding len i_def by simp
      show "?Y \<noteq> [] \<longrightarrow> mp_p ?Z \<noteq> [] \<and> length ?X \<le> length (mp_p ?Z)" unfolding len using i ne by auto
    qed (use v in \<open>simp_all add: mpi_val_def\<close>)
  qed
qed

lemma copy_room:
  assumes "libc_total c" "mpi_ok (h y)" "mpi_room (h x)"
  shows "\<exists>X. shmpi_copy c x y h = Inr (0, h(x := X)) \<and> mpi_val X = mpi_val (h y) \<and> mpi_ok X \<and>
    limbs_val (mp_p X) = limbs_val (mp_p (h y)) \<and> (mp_p (h y) \<noteq> [] \<longrightarrow> mp_s X = mp_s (h y) \<and> mp_p X \<noteq> [] \<and> length (mp_p (h x)) \<le> length (mp_p X)) \<and>
    length (mp_p X) \<le> max (length (mp_p (h x))) (max 1 (used_limbs (mp_p (h y))))"
  by (rule copy_ok [OF assms]) (rule exI, intro conjI impI, assumption+, simp_all)

lemmas copy_ex = copy_room [OF _ _ mpi_ok_room]

lemma skip_copy [simp]: "(if x \<noteq> a then shmpi_copy c x a else mpi_ret 0) = shmpi_copy c x a"
  by (auto simp: shmpi_copy_def)

lemma copy_same [simp]: "shmpi_copy c x x h = Inr (0, h)"
  by (simp add: shmpi_copy_def)

lemma mpi_record [simp]: "(X :: shmpi)\<lparr>mp_s := s, mp_p := p\<rparr> = \<lparr>mp_s = s, mp_p = p\<rparr>"
  by (cases X) simp

lemma sint_limb_ok: "- (2 ^ 63) < z \<Longrightarrow> z < 2 ^ 63 \<Longrightarrow> \<exists>l. sint_limb z = Inr l \<and> int (unat l) = \<bar>z\<bar>"
  by (rule exI [of _ "word_of_int \<bar>z\<bar>"]) (auto simp: sint_limb_def unsigned_of_int take_bit_int_eq_self_iff abs_if)

lemma lset_run:
  assumes "libc_total c" "- (2 ^ 63) < z" "z < 2 ^ 63" "mpi_room (h x)"
  obtains X where "shmpi_lset c x z h = Inr (0, h(x := X))" "mpi_val X = z" "mpi_ok X" "length (mp_p X) = max 1 (length (mp_p (h x)))"
    "mp_s X = sint_sign z" "int (limbs_val (mp_p X)) = \<bar>z\<bar>"
proof -
  obtain l where l: "sint_limb z = Inr l" "int (unat l) = \<bar>z\<bar>" using sint_limb_ok [OF assms(2,3)] by blast
  let ?n = "max 1 (length (mp_p (h x)))"
  let ?X = "\<lparr>mp_s = sint_sign z, mp_p = l # replicate (?n - 1) 0\<rparr>"
  have "shmpi_lset c x z h = Inr (0, h(x := ?X))"
    using l(1) grow_ok [OF assms(1), of 1] by (simp add: shmpi_lset_def MPI_MAX_LIMBS_def mpi_chk_def mpi_on_def max_def)
  moreover have "mpi_val ?X = z" "mpi_ok ?X"
    using l(2) assms(4) by (auto simp: mpi_val_def sint_sign_def mpi_ok_def mpi_room_def MPI_MAX_LIMBS_def)
  ultimately show ?thesis using l(2) by (intro that [of ?X]) auto
qed

lemma lset_room:
  assumes "libc_total c" "- (2 ^ 63) < z" "z < 2 ^ 63" "mpi_room (h x)"
  shows "\<exists>X. shmpi_lset c x z h = Inr (0, h(x := X)) \<and> mpi_val X = z \<and> mpi_ok X \<and> length (mp_p X) = max 1 (length (mp_p (h x))) \<and>
    mp_s X = sint_sign z \<and> limbs_val (mp_p X) = nat \<bar>z\<bar>"
  by (rule lset_run [where h = h and x = x, OF assms]) (rule exI, intro conjI, assumption+, simp)

lemma lset_zero_room:
  assumes "libc_total c" "mpi_room (h x)"
  shows "\<exists>X. shmpi_lset c x 0 h = Inr (0, h(x := X)) \<and> mpi_ok X \<and> limbs_val (mp_p X) = 0 \<and> mpi_val X = 0 \<and> length (mp_p X) = max 1 (length (mp_p (h x)))"
  using lset_room [where h = h and x = x and z = 0, OF assms(1) _ _ assms(2)] by auto

lemmas lset_ok = lset_run [OF _ _ _ mpi_ok_room]
lemmas lset_ex = lset_room [OF _ _ _ mpi_ok_room]
lemmas lset_zero = lset_zero_room [OF _ mpi_ok_room]

end
