(* ===== verification/Share_Mpi_Bits.thy ===== *)
theory Share_Mpi_Bits
  imports Share_Mpi
begin

text \<open>
  Comparison, the number of bits and the shifts of multi-precision integers compute what they say on values.
\<close>

section \<open>Comparison is exact\<close>

lemma limbs_val_rev_Cons: "limbs_val (rev (x # xs)) = limbs_val (rev xs) + limb_base ^ length xs * unat x"
  by (simp add: limbs_val_append)

lemma digit_less:
  fixes a b u v b' :: nat
  assumes "a < b'" "u < v"
  shows "a + b' * u < b + b' * v"
proof -
  have "b' * (u + 1) \<le> b' * v" using assms(2) by (intro mult_le_mono2) simp
  then show ?thesis using assms(1) by simp
qed

definition cmp3 :: "nat \<Rightarrow> nat \<Rightarrow> int" where
  "cmp3 a b = (if b < a then 1 else if a < b then - 1 else 0)"

lemma cmp3_sgn: "cmp3 a b = sgn (int a - int b)"
  by (auto simp: cmp3_def sgn_if)

lemma cmp_loop_val: "length xs = length ys \<Longrightarrow> cmp_loop xs ys = cmp3 (limbs_val (rev xs)) (limbs_val (rev ys))"
proof (induction xs ys rule: list_induct2)
  case (Cons x xs y ys)
  have "limbs_val (rev xs) < limb_base ^ length xs" "limbs_val (rev ys) < limb_base ^ length xs"
    using limbs_val_lt [of "rev xs"] limbs_val_lt [of "rev ys"] Cons by simp_all
  note d = digit_less [OF this(1), of "unat x" "unat y" "limbs_val (rev ys)"] digit_less [OF this(2), of "unat y" "unat x" "limbs_val (rev xs)"]
  show ?case
  proof (cases "unat x" "unat y" rule: linorder_cases)
    case equal
    then have "x = y" by (simp add: word_unat_eq_iff)
    then show ?thesis using Cons by (simp add: limbs_val_append cmp3_def)
  qed (use d Cons.hyps in \<open>simp_all add: limbs_val_append cmp3_def word_less_nat_alt\<close>)
qed (simp add: cmp3_def)

lemma cmp_abs_val: "shmpi_cmp_abs X Y = cmp3 (limbs_val (mp_p X)) (limbs_val (mp_p Y))"
proof -
  let ?i = "used_limbs (mp_p X)" and ?j = "used_limbs (mp_p Y)"
  have "cmp_loop (rev (take ?i (mp_p X))) (rev (take ?i (mp_p Y))) = cmp3 (limbs_val (mp_p X)) (limbs_val (mp_p Y))" if "?i = ?j"
    using cmp_loop_val [of "rev (take ?i (mp_p X))" "rev (take ?i (mp_p Y))"] that used_limbs_le [of "mp_p X"] used_limbs_le [of "mp_p Y"]
      limbs_val_used [of "mp_p X"] limbs_val_used [of "mp_p Y"] by simp
  then show ?thesis
    using used_limbs_less [of "mp_p X" "mp_p Y"] used_limbs_less [of "mp_p Y" "mp_p X"] used_limbs_0 [of "mp_p X"] used_limbs_0 [of "mp_p Y"]
    unfolding shmpi_cmp_abs_def Let_def by (cases ?i ?j rule: linorder_cases) (auto simp: cmp3_def)
qed

lemma cmp_mpi_val:
  assumes "mpi_ok X" "mpi_ok Y"
  shows "shmpi_cmp_mpi X Y = sgn (mpi_val X - mpi_val Y)"
proof -
  let ?x = "limbs_val (mp_p X)" and ?y = "limbs_val (mp_p Y)"
  have s: "mp_s X \<in> {1, - 1}" "mp_s Y \<in> {1, - 1}" using assms by (auto simp: mpi_ok_def)
  have l: "used_limbs (mp_p X) < used_limbs (mp_p Y) \<Longrightarrow> ?x < ?y" "used_limbs (mp_p Y) < used_limbs (mp_p X) \<Longrightarrow> ?y < ?x"
    by (rule used_limbs_less, assumption)+
  have z: "?x = 0 \<longleftrightarrow> ?y = 0" if "used_limbs (mp_p X) = used_limbs (mp_p Y)" using that by (simp flip: used_limbs_0)
  have c: "cmp_loop (rev (take (used_limbs (mp_p X)) (mp_p X))) (rev (take (used_limbs (mp_p X)) (mp_p Y))) = cmp3 ?x ?y"
    if "used_limbs (mp_p X) = used_limbs (mp_p Y)" "used_limbs (mp_p X) \<noteq> 0"
    using that cmp_abs_val [of X Y] by (simp add: shmpi_cmp_abs_def Let_def)
  consider (less) "used_limbs (mp_p X) < used_limbs (mp_p Y)" | (greater) "used_limbs (mp_p Y) < used_limbs (mp_p X)"
    | (zero) "used_limbs (mp_p X) = used_limbs (mp_p Y)" "used_limbs (mp_p X) = 0"
    | (same) "used_limbs (mp_p X) = used_limbs (mp_p Y)" "used_limbs (mp_p X) \<noteq> 0"
    by linarith
  then show ?thesis
  proof cases
    case less
    then show ?thesis using s l(1) unfolding shmpi_cmp_mpi_def mpi_val_def Let_def by (auto simp: sgn_if)
  next
    case greater
    then show ?thesis using s l(2) unfolding shmpi_cmp_mpi_def mpi_val_def Let_def by (auto simp: sgn_if)
  next
    case zero
    then show ?thesis using used_limbs_0 [of "mp_p X"] used_limbs_0 [of "mp_p Y"] by (simp add: shmpi_cmp_mpi_def mpi_val_def)
  next
    case same
    have "?x \<noteq> 0" "?y \<noteq> 0" using same by (simp_all flip: used_limbs_0)
    then show ?thesis using s c [OF same] same unfolding shmpi_cmp_mpi_def mpi_val_def Let_def by (auto simp: cmp3_def sgn_if)
  qed
qed

lemma int_mpi_ok:
  assumes "- (2 ^ 63) < z" "z < 2 ^ 63"
  obtains Y where "int_mpi z = Inr Y" "mpi_ok Y" "mpi_val Y = z" "length (mp_p Y) = 1" "mp_s Y = sint_sign z"
proof -
  obtain l where l: "sint_limb z = Inr l" "int (unat l) = \<bar>z\<bar>" using sint_limb_ok [OF assms] by blast
  then show ?thesis
    by (intro that [of "\<lparr>mp_s = sint_sign z, mp_p = [l]\<rparr>"])
      (auto simp: int_mpi_def mpi_ok_def mpi_val_def sint_sign_def MPI_MAX_LIMBS_def)
qed

lemma cmp_int_val:
  assumes "mpi_ok X" "- (2 ^ 63) < z" "z < 2 ^ 63"
  shows "shmpi_cmp_int X z = Inr (sgn (mpi_val X - z))"
proof -
  obtain Y where "int_mpi z = Inr Y" "mpi_ok Y" "mpi_val Y = z" using int_mpi_ok [OF assms(2,3)] by metis
  then show ?thesis using cmp_mpi_val [OF assms(1)] by (simp add: shmpi_cmp_int_def)
qed

section \<open>Bits and shifts\<close>

lemma limbs_val_take: "limbs_val (take n p) = limbs_val p mod limb_base ^ n"
proof (cases "n \<le> length p")
  case True
  then show ?thesis using limbs_val_split [OF True] limbs_val_lt [of "take n p"] by simp
next
  case False
  then have "limb_base ^ length p \<le> limb_base ^ n" by (intro power_increasing) simp_all
  with limbs_val_lt [of p] have "limbs_val p < limb_base ^ n" by (rule less_le_trans)
  then show ?thesis using False by simp
qed

lemma limb_base_pow: "limb_base ^ n = 2 ^ (64 * n)"
  unfolding limb_base_def by (rule power_mult [symmetric])

lemma drop_bit_and_1: "drop_bit j (x :: u64) AND 1 \<noteq> 0 \<longleftrightarrow> bit x j"
  by (simp add: and_one_eq bit_iff_odd_drop_bit odd_iff_mod_2_eq_one)

lemma msb_loop_facts: "msb_loop x j \<le> j \<and> (\<forall>k. msb_loop x j \<le> k \<longrightarrow> k < j \<longrightarrow> \<not> bit x k) \<and> (0 < msb_loop x j \<longrightarrow> bit x (msb_loop x j - 1))"
  by (induction j) (auto simp: drop_bit_and_1 less_Suc_eq)

lemma unat_less_iff_bits: "unat (x :: u64) < 2 ^ k \<longleftrightarrow> (\<forall>i. k \<le> i \<longrightarrow> \<not> bit x i)"
proof -
  have "unat x < 2 ^ k \<longleftrightarrow> take_bit k (unat x) = unat x" by (simp add: take_bit_nat_eq_self_iff)
  also have "\<dots> \<longleftrightarrow> take_bit k x = x" by (simp add: word_unat_eq_iff unsigned_take_bit_eq)
  also have "\<dots> \<longleftrightarrow> (\<forall>i. k \<le> i \<longrightarrow> \<not> bit x i)" 
  proof
    assume "take_bit k x = x"
    then show "\<forall>i. k \<le> i \<longrightarrow> \<not> bit x i" by (metis bit_take_bit_iff not_less)
  next
    assume "\<forall>i. k \<le> i \<longrightarrow> \<not> bit x i"
    then show "take_bit k x = x" by (intro bit_word_eqI) (auto simp: bit_take_bit_iff not_le [symmetric])
  qed
  finally show ?thesis .
qed

lemma limb_less_iff: "unat (x :: u64) < 2 ^ k \<longleftrightarrow> msb_loop x 64 \<le> k"
proof -
  note f = msb_loop_facts [of x 64]
  have big: "\<not> bit x i" if "64 \<le> i" for i using that by (auto dest: bit_imp_le_length)
  show ?thesis
    unfolding unat_less_iff_bits
  proof
    assume a: "\<forall>i. k \<le> i \<longrightarrow> \<not> bit x i"
    show "msb_loop x 64 \<le> k"
    proof (rule ccontr)
      assume "\<not> msb_loop x 64 \<le> k"
      then have "k \<le> msb_loop x 64 - 1" "0 < msb_loop x 64" by auto
      then show False using f a by blast
    qed
  next
    assume a: "msb_loop x 64 \<le> k"
    show "\<forall>i. k \<le> i \<longrightarrow> \<not> bit x i"
    proof (intro allI impI)
      fix i assume "k \<le> i"
      then show "\<not> bit x i" using f a big [of i] by (cases "64 \<le> i") auto
    qed
  qed
qed

lemma msb_val: "limbs_val (mp_p X) < 2 ^ k \<longleftrightarrow> shmpi_msb X \<le> k"
proof (cases "used_limbs (mp_p X) = 0")
  case True
  then have z: "limbs_val (mp_p X) = 0" by (simp add: used_limbs_0)
  have "shmpi_msb X = 0"
  proof (cases "mp_p X")
    case (Cons x xs)
    then have "unat x < 2 ^ 0" using z by simp
    then show ?thesis using True limb_less_iff [of x 0] Cons by (simp add: shmpi_msb_def)
  qed (simp add: shmpi_msb_def)
  then show ?thesis using z by simp
next
  case False
  define u where "u = used_limbs (mp_p X) - 1"
  let ?x = "mp_p X ! u" and ?lo = "limbs_val (take u (mp_p X))"
  have u: "used_limbs (mp_p X) = Suc u" "u < length (mp_p X)" using False used_limbs_le [of "mp_p X"] by (auto simp: u_def)
  have v: "limbs_val (mp_p X) = ?lo + 2 ^ (64 * u) * unat ?x"
    using limbs_val_used [of "mp_p X"] limbs_val_take_Suc [OF u(2)] by (simp add: u(1) limb_base_pow)
  have lo: "?lo < 2 ^ (64 * u)" using limbs_val_lt [of "take u (mp_p X)"] u(2) by (simp add: limb_base_pow)
  have msb: "shmpi_msb X = 64 * u + msb_loop ?x 64" using u by (auto simp: shmpi_msb_def Let_def)
  have x: "0 < msb_loop ?x 64" using used_limbs_top [of "mp_p X"] u(1) limb_less_iff [of ?x 0] by (auto simp: unat_eq_0)
  show ?thesis
  proof (cases "64 * u \<le> k")
    case True
    then obtain j where k: "k = 64 * u + j" using le_Suc_ex by blast
    have "limbs_val (mp_p X) < 2 ^ k \<longleftrightarrow> unat ?x < 2 ^ j"
    proof
      assume "limbs_val (mp_p X) < 2 ^ k"
      then have "?lo + 2 ^ (64 * u) * unat ?x < 2 ^ (64 * u) * 2 ^ j" unfolding v k by (simp add: power_add)
      then have "2 ^ (64 * u) * unat ?x < 2 ^ (64 * u) * 2 ^ j" by (rule le_less_trans [OF le_add2])
      then show "unat ?x < 2 ^ j" by simp
    next
      assume "unat ?x < 2 ^ j"
      then show "limbs_val (mp_p X) < 2 ^ k" using digit_less [OF lo, of "unat ?x" "2 ^ j" 0] unfolding v k by (simp add: power_add)
    qed
    then show ?thesis using limb_less_iff [of ?x j] by (simp add: msb k)
  next
    case False
    have "(2::nat) ^ k \<le> 2 ^ (64 * u)" using False by (intro power_increasing) simp_all
    also have "\<dots> \<le> limbs_val (mp_p X)" using x limb_less_iff [of ?x 0] unfolding v by (simp add: trans_le_add2)
    finally show ?thesis using False by (simp add: msb)
  qed
qed

lemma unat_drop_div: "unat (drop_bit k (x :: u64)) = unat x div 2 ^ k"
proof -
  have "unat (drop_bit k x) = drop_bit k (unat x)" by (rule unat_drop_bit_eq)
  also have "\<dots> = unat x div 2 ^ k" by (simp only: drop_bit_eq_div)
  finally show ?thesis .
qed

lemma shift_limb:
  assumes "t < 64"
  shows "unat (push_bit t (x :: u64)) + limb_base * unat (drop_bit (64 - t) x) = unat x * 2 ^ t"
proof -
  have p: "unat (push_bit t x) = unat x * 2 ^ t mod 2 ^ 64"
  proof -
    have "unat (push_bit t x) = take_bit 64 (push_bit t (unat x))" by (simp add: unsigned_push_bit_eq)
    also have "\<dots> = unat x * 2 ^ t mod 2 ^ 64" by (simp only: take_bit_eq_mod push_bit_eq_mult)
    finally show ?thesis .
  qed
  have d: "unat (drop_bit (64 - t) x) = unat x div 2 ^ (64 - t)" by (rule unat_drop_div)
  have "unat x * 2 ^ t div 2 ^ 64 = unat x div 2 ^ (64 - t)"
  proof -
    have e: "(2::nat) ^ 64 = 2 ^ (64 - t) * 2 ^ t" using assms by (simp flip: power_add)
    show ?thesis unfolding e by (rule div_mult_mult2) simp
  qed
  then show ?thesis unfolding p d limb_base_def using mult_div_mod_eq [of "2 ^ 64" "unat x * 2 ^ t"] by (metis add.commute)
qed

lemma unat_or_add: "(a :: u64) AND b = 0 \<Longrightarrow> unat (a OR b) = unat a + unat b"
proof -
  assume "a AND b = 0"
  then have "unat a AND unat b = 0" by (simp flip: unsigned_and_eq)
  then show ?thesis by (simp add: unsigned_or_eq flip: disjunctive_add_eq_or)
qed

lemma unat_or_low: "unat (r :: u64) < 2 ^ t \<Longrightarrow> unat (push_bit t x OR r) = unat (push_bit t x) + unat r"
  by (intro unat_or_add bit_word_eqI) (auto simp: bit_simps unat_less_iff_bits)

lemma digit_mod: "a < limb_base \<Longrightarrow> (a + limb_base * n) mod (limb_base * m) = a + limb_base * (n mod m)"
  using mod_mult2_eq [of "a + limb_base * n" limb_base m] by simp

lemma shl_loop_val:
  assumes "0 < t" "t < 64"
  shows "unat r < 2 ^ t \<Longrightarrow> limbs_val (shl_loop t r p) = (limbs_val p * 2 ^ t + unat r) mod limb_base ^ length p"
proof (induction p arbitrary: r)
  case (Cons x xs)
  let ?y = "drop_bit (64 - t) x"
  have d: "unat ?y < 2 ^ t"
    using assms by (auto simp: unat_less_iff_bits bit_simps dest: bit_imp_le_length)
  have y: "unat (push_bit t x OR r) = unat (push_bit t x) + unat r" using Cons.prems by (rule unat_or_low)
  have lt: "unat (push_bit t x) + unat r < limb_base" using limb_lt [of "push_bit t x OR r"] by (simp add: y)
  have e: "limbs_val (x # xs) * 2 ^ t + unat r = unat (push_bit t x) + unat r + limb_base * (limbs_val xs * 2 ^ t + unat ?y)"
    using shift_limb [OF assms(2), of x] by (simp add: algebra_simps)
  show ?case unfolding e using Cons.IH [OF d] y digit_mod [OF lt] by simp
qed simp

lemma length_shl: "length (shl_loop t r p) = length p"
  by (induction p arbitrary: r) simp_all

lemma shift_l_ok:
  assumes "libc_total c" "mpi_ok (h x)" "shmpi_msb (h x) + count \<le> 64 * MPI_MAX_LIMBS"
  obtains X where "shmpi_shift_l c x count h = Inr (0, h(x := X))" "mpi_ok X" "mp_s X = mp_s (h x)"
    "limbs_val (mp_p X) = limbs_val (mp_p (h x)) * 2 ^ count"
    "length (mp_p X) = max (length (mp_p (h x))) (if length (mp_p (h x)) * 64 < shmpi_msb (h x) + count then (shmpi_msb (h x) + count + 63) div 64 else 0)"
proof -
  let ?p = "mp_p (h x)" and ?i = "shmpi_msb (h x) + count"
  define N where "N = max (length ?p) (if length ?p * 64 < ?i then (?i + 63) div 64 else 0)"
  define q where "q = ?p @ replicate (N - length ?p) 0"
  let ?v0 = "count div 64" and ?t1 = "count mod 64"
  define m where "m = take (length q) (replicate ?v0 0 @ q)"
  let ?r = "take ?v0 m @ (if 0 < ?t1 then shl_loop ?t1 0 (drop ?v0 m) else drop ?v0 m)"
  have nm: "N \<le> MPI_MAX_LIMBS" using assms(2,3) by (auto simp: mpi_ok_def N_def)
  have ni: "?i \<le> 64 * N" "length ?p \<le> N" by (auto simp: N_def)
  have lq: "length q = N" using ni by (simp add: q_def)
  have run: "shmpi_shift_l c x count h = Inr (0, h(x := (h x)\<lparr>mp_p := ?r\<rparr>))"
  proof (cases "length ?p * 64 < ?i")
    case True
    then have "(?i + 63) div 64 \<le> MPI_MAX_LIMBS" "length ?p \<le> (?i + 63) div 64" using nm by (simp_all add: N_def)
    with True show ?thesis using grow_ok [OF assms(1)]
      by (simp add: shmpi_shift_l_def Let_def mpi_chk_def mpi_on_def m_def q_def N_def max_def)
  next
    case False
    then show ?thesis by (simp add: shmpi_shift_l_def Let_def mpi_chk_def m_def q_def N_def)
  qed
  have v: "limbs_val ?p * 2 ^ count < limb_base ^ N"
  proof -
    have "limbs_val ?p < 2 ^ shmpi_msb (h x)" using msb_val [of "h x" "shmpi_msb (h x)"] by simp
    then have "limbs_val ?p * 2 ^ count < 2 ^ ?i" by (simp add: power_add)
    also have "\<dots> \<le> 2 ^ (64 * N)" using ni(1) by (intro power_increasing) simp_all
    finally show ?thesis by (simp add: limb_base_pow)
  qed
  have r: "limbs_val ?r = limbs_val ?p * 2 ^ count \<and> length ?r = N"
  proof (cases "?v0 \<le> N")
    case True
    define k where "k = N - ?v0"
    have n: "N = ?v0 + k" using True by (simp add: k_def)
    have m: "m = replicate ?v0 0 @ take k q" unfolding m_def lq n by simp
    have lk: "length (take k q) = k" by (simp add: lq k_def)
    have c: "2 ^ count = limb_base ^ ?v0 * 2 ^ ?t1" unfolding limb_base_pow by (simp flip: power_add)
    have "limb_base ^ ?v0 * (limbs_val ?p * 2 ^ ?t1) < limb_base ^ ?v0 * limb_base ^ k"
      using v unfolding n c by (simp add: power_add algebra_simps)
    then have small: "limbs_val ?p * 2 ^ ?t1 < limb_base ^ k" by simp
    then have "limbs_val ?p < limb_base ^ k" by (rule le_less_trans [rotated]) simp
    then have "limbs_val (take k q) = limbs_val ?p" by (simp add: limbs_val_take q_def limbs_val_append)
    then have "limbs_val (if 0 < ?t1 then shl_loop ?t1 0 (take k q) else take k q) = limbs_val ?p * 2 ^ ?t1"
      using small shl_loop_val [of ?t1 0 "take k q"] lk by simp
    then show ?thesis unfolding m c using lk n by (cases "0 < ?t1") (simp_all add: limbs_val_append length_shl)
  next
    case False
    have "limb_base ^ N < 2 ^ count" unfolding limb_base_pow using False by (intro power_strict_increasing) auto
    with v have "limbs_val ?p * 2 ^ count < 2 ^ count" by (rule less_trans)
    then have "limbs_val ?p = 0" by simp
    moreover have "m = replicate N 0"
    proof -
      have "take a (replicate b 0 @ q) = replicate a 0" if "a < b" for a b using that by simp
      then show ?thesis unfolding m_def lq using False by (simp only: not_le)
    qed
    ultimately show ?thesis using False by simp
  qed
  show ?thesis using run r nm assms(2) by (intro that [of "(h x)\<lparr>mp_p := ?r\<rparr>"]) (auto simp: mpi_ok_def N_def)
qed

lemma length_shr: "length (shr_loop v r p) = length p"
  by (induction p arbitrary: r) simp_all

lemma shr_loop_val:
  assumes "0 < v" "v < 64"
  shows "unat r = q * 2 ^ (64 - v) \<Longrightarrow> q < 2 ^ v \<Longrightarrow>
    limbs_val (rev (shr_loop v r p)) = (q * limb_base ^ length p + limbs_val (rev p)) div 2 ^ v"
proof (induction p arbitrary: r q)
  case (Cons x xs)
  let ?l = "length xs"
  have base: "limb_base = 2 ^ (64 - v) * 2 ^ v" unfolding limb_base_def using assms by (simp flip: power_add)
  have d: "unat (drop_bit v x) = unat x div 2 ^ v" by (rule unat_drop_div)
  have p: "unat (push_bit (64 - v) x) = (unat x mod 2 ^ v) * 2 ^ (64 - v)"
  proof -
    have "unat (push_bit (64 - v) x) = take_bit 64 (push_bit (64 - v) (unat x))" by (simp add: unsigned_push_bit_eq)
    also have "\<dots> = unat x * 2 ^ (64 - v) mod limb_base" by (simp only: take_bit_eq_mod push_bit_eq_mult limb_base_def)
    also have "\<dots> = (unat x mod 2 ^ v) * 2 ^ (64 - v)" unfolding base by (simp add: mult.commute mod_mult_mult1)
    finally show ?thesis .
  qed
  have y: "unat (drop_bit v x OR r) = unat x div 2 ^ v + q * 2 ^ (64 - v)"
  proof -
    have r: "r = push_bit (64 - v) (word_of_nat q)"
    proof -
      have "unat (push_bit (64 - v) (word_of_nat q :: u64)) = take_bit 64 (push_bit (64 - v) (take_bit 64 q))"
        by (simp add: unsigned_push_bit_eq unsigned_of_nat)
      moreover have "q * 2 ^ (64 - v) < limb_base" using limb_lt [of r] Cons.prems(1) by simp
      moreover have "q < limb_base" using Cons.prems(2) by (rule less_le_trans) (use assms in \<open>simp only: limb_base_def, intro power_increasing, simp_all\<close>)
      ultimately show ?thesis
        by (simp add: word_unat_eq_iff Cons.prems(1) push_bit_eq_mult take_bit_nat_eq_self limb_base_def)
    qed
    have "unat (drop_bit v x) < 2 ^ (64 - v)"
      by (auto simp: unat_less_iff_bits bit_simps dest: bit_imp_le_length)
    then have "unat (r OR drop_bit v x) = unat r + unat (drop_bit v x)" unfolding r by (rule unat_or_low)
    then show ?thesis using d Cons.prems(1) by (simp add: or.commute)
  qed
  have "q * limb_base ^ Suc ?l + limbs_val (rev (x # xs)) =
      (unat x mod 2 ^ v) * limb_base ^ ?l + limbs_val (rev xs) + 2 ^ v * (limb_base ^ ?l * (unat x div 2 ^ v + q * 2 ^ (64 - v)))"
  proof -
    have alg: "b * (m + w * d) = m * b + w * (b * d)" for b m w d :: nat by (simp add: algebra_simps)
    have "limb_base ^ ?l * unat x = limb_base ^ ?l * (unat x mod 2 ^ v + 2 ^ v * (unat x div 2 ^ v))" by simp
    then have "limb_base ^ ?l * unat x = (unat x mod 2 ^ v) * limb_base ^ ?l + 2 ^ v * (limb_base ^ ?l * (unat x div 2 ^ v))"
      by (simp only: alg)
    moreover have "q * limb_base ^ Suc ?l = 2 ^ v * (limb_base ^ ?l * (q * 2 ^ (64 - v)))" by (simp add: base)
    ultimately show ?thesis unfolding limbs_val_rev_Cons by (simp add: distrib_left)
  qed
  then have "(q * limb_base ^ length (x # xs) + limbs_val (rev (x # xs))) div 2 ^ v =
      limb_base ^ ?l * (unat x div 2 ^ v + q * 2 ^ (64 - v)) + (unat x mod 2 ^ v * limb_base ^ ?l + limbs_val (rev xs)) div 2 ^ v"
    by simp
  then show ?case using Cons.IH [OF p] y by (simp add: limbs_val_append length_shr)
qed simp

lemma shift_r_ok:
  assumes "libc_total c" "mpi_ok (h x)"
  obtains X where "shmpi_shift_r c x count h = Inr (0, h(x := X))" "mpi_ok X"
    "limbs_val (mp_p X) = limbs_val (mp_p (h x)) div 2 ^ count" "limbs_val (mp_p X) \<noteq> 0 \<Longrightarrow> mp_s X = mp_s (h x)"
    "length (mp_p X) = max (length (mp_p (h x))) (if 0 < count then 1 else 0) \<or> length (mp_p X) = length (mp_p (h x))"
proof (cases "length (mp_p (h x)) < count div 64 \<or> (count div 64 = length (mp_p (h x)) \<and> 0 < count mod 64)")
  case True
  obtain X where X: "shmpi_lset c x 0 h = Inr (0, h(x := X))" "mpi_ok X" "int (limbs_val (mp_p X)) = \<bar>0\<bar>" "length (mp_p X) = max 1 (length (mp_p (h x)))"
    using lset_ok [OF assms(1), of 0 h x] assms(2) by (metis neg_less_0_iff_less zero_less_numeral zero_less_power)
  have "limbs_val (mp_p (h x)) < limb_base ^ length (mp_p (h x))" by (rule limbs_val_lt)
  also have "\<dots> \<le> 2 ^ count" unfolding limb_base_pow using True by (intro power_increasing) auto
  finally have "limbs_val (mp_p (h x)) div 2 ^ count = 0" by simp
  moreover have "0 < count" using True by auto
  ultimately show ?thesis using X True by (intro that [of X]) (auto simp: shmpi_shift_r_def Let_def)
next
  case False
  let ?p = "mp_p (h x)" and ?v0 = "count div 64" and ?v1 = "count mod 64"
  let ?m = "drop ?v0 ?p @ replicate ?v0 0"
  let ?r = "if 0 < ?v1 then rev (shr_loop ?v1 0 (rev ?m)) else ?m"
  have run: "shmpi_shift_r c x count h = Inr (0, h(x := (h x)\<lparr>mp_p := ?r\<rparr>))"
    unfolding shmpi_shift_r_def Let_def using False by (simp only: if_False mpi_simps)
  have v0: "?v0 \<le> length ?p" using False by auto
  have "limbs_val ?p div limb_base ^ ?v0 = limbs_val (drop ?v0 ?p)"
    using limbs_val_split [OF v0] limbs_val_lt [of "take ?v0 ?p"] v0 by simp
  then have m: "limbs_val ?m = limbs_val ?p div limb_base ^ ?v0" by (simp add: limbs_val_append)
  have "limbs_val ?r = limbs_val ?m div 2 ^ ?v1"
    using shr_loop_val [of ?v1 0 0 "rev ?m"] by simp
  then have "limbs_val ?r = limbs_val ?p div 2 ^ count"
  proof -
    have "(2::nat) ^ count = limb_base ^ ?v0 * 2 ^ ?v1" unfolding limb_base_pow by (simp flip: power_add)
    then show ?thesis using \<open>limbs_val ?r = limbs_val ?m div 2 ^ ?v1\<close> m by (simp add: div_mult2_eq)
  qed
  moreover have "length ?r = length ?p" using v0 by (simp add: length_shr)
  ultimately show ?thesis using run assms(2) by (intro that [of "(h x)\<lparr>mp_p := ?r\<rparr>"]) (auto simp: mpi_ok_def)
qed

lemma shift_r_ex:
  assumes "libc_total c" "mpi_ok (h x)" "mp_p (h x) \<noteq> []"
  shows "\<exists>X. shmpi_shift_r c x count h = Inr (0, h(x := X)) \<and> mpi_ok X \<and> limbs_val (mp_p X) = limbs_val (mp_p (h x)) div 2 ^ count \<and>
    (limbs_val (mp_p X) \<noteq> 0 \<longrightarrow> mp_s X = mp_s (h x)) \<and> length (mp_p X) = length (mp_p (h x))"
proof (rule shift_r_ok [where h = h and x = x and count = count, OF assms(1,2)])
  fix X assume X: "shmpi_shift_r c x count h = Inr (0, h(x := X))" "mpi_ok X" "limbs_val (mp_p X) = limbs_val (mp_p (h x)) div 2 ^ count"
    "limbs_val (mp_p X) \<noteq> 0 \<Longrightarrow> mp_s X = mp_s (h x)"
    "length (mp_p X) = max (length (mp_p (h x))) (if 0 < count then 1 else 0) \<or> length (mp_p X) = length (mp_p (h x))"
  have "Suc 0 \<le> length (mp_p (h x))" using assms(3) by (simp add: Suc_le_eq)
  then have "length (mp_p X) = length (mp_p (h x))" using X(5) by (auto simp: max_def)
  then show ?thesis using X(1-4) by blast
qed

end
