(* ===== verification/Share_Mpi_Arith.thy ===== *)
theory Share_Mpi_Arith
  imports Share_Mpi_Bits
begin

text \<open>
  Addition, subtraction and multiplication of multi-precision integers: the loops with their carries, the functions
  with every pattern of arguments that are the same variable, and their values.
\<close>

section \<open>Addition\<close>

text \<open>One limb of the loop \<open>*p += c; c = (*p < c); *p += *o; c += (*p < *o)\<close>.  With \<open>same\<close>, \<open>o\<close> and \<open>p\<close> point to the
  same limb.\<close>

fun add_loop :: "bool \<Rightarrow> u64 \<Rightarrow> u64 list \<Rightarrow> u64 list \<Rightarrow> u64 list \<times> u64" where
  "add_loop same c (q # os) (p # ps) =
     (let p1 = p + c; c1 = of_bool (p1 < c);
          p2 = p1 + (if same then p1 else q);
          c2 = c1 + of_bool (p2 < (if same then p2 else q));
          (ps', c') = add_loop same c2 os ps
      in (p2 # ps', c'))"
| "add_loop same c os ps = (ps, c)"

text \<open>The loop \<open>while (c != 0)\<close> inside the limbs there are, with the carry that is left at their end.\<close>

fun carry_loop :: "u64 \<Rightarrow> u64 list \<Rightarrow> u64 list \<times> u64" where
  "carry_loop c [] = ([], c)"
| "carry_loop c (p # ps) =
     (if c = 0 then (p # ps, 0)
      else let p1 = p + c; (ps', c') = carry_loop (of_bool (p1 < c)) ps in (p1 # ps', c'))"

text \<open>The part of \<open>shmpi_add_abs\<close> behind the copy of the first operand.\<close>

definition add_into :: "libc \<Rightarrow> mvar \<Rightarrow> mvar \<Rightarrow> mop" where
  "add_into c x b h =
     (let j = used_limbs (mp_p (h b)) in
      mpi_chk (mpi_on x (\<lambda>X. shmpi_grow c j (X\<lparr>mp_s := 1\<rparr>))) (\<lambda>h1.
        let P = mp_p (h1 x);
            (lo, c1) = add_loop (b = x) 0 (take j (mp_p (h1 b))) (take j P);
            (hi, c2) = carry_loop c1 (drop j P);
            h2 = h1(x := (h1 x)\<lparr>mp_p := lo @ hi\<rparr>)
        in if c2 = 0 then mpi_ret 0 h2
           else mpi_chk (mpi_on x (shmpi_grow c (length P + 1)))
             (mpi_do (\<lambda>h3. h3(x := (h3 x)\<lparr>mp_p := (mp_p (h3 x))[length P := mp_p (h3 x) ! length P + c2]\<rparr>))) h2) h)"

definition shmpi_add_abs :: "libc \<Rightarrow> mvar \<Rightarrow> mvar \<Rightarrow> mvar \<Rightarrow> mop" where
  "shmpi_add_abs c x a0 b0 =
     (let (a, b) = (if x = b0 then (x, a0) else (a0, b0)) in
      mpi_chk (if x \<noteq> a then shmpi_copy c x a else mpi_ret 0) (add_into c x b))"

section \<open>Subtraction\<close>

fun sub_loop :: "u64 \<Rightarrow> u64 list \<Rightarrow> u64 list \<Rightarrow> u64 list \<times> u64" where
  "sub_loop c (s # ss) (d # ds) =
     (let z = of_bool (d < c); d1 = d - c; c' = of_bool (d1 < s) + z;
          (ds', c'') = sub_loop c' ss ds
      in ((d1 - s) # ds', c''))"
| "sub_loop c ss ds = (ds, c)"

fun borrow_loop :: "u64 \<Rightarrow> u64 list \<Rightarrow> fault + u64 list" where
  "borrow_loop c [] = (if c = 0 then Inr [] else Inl OutOfBounds)"
| "borrow_loop c (d # ds) =
     (if c = 0 then Inr (d # ds)
      else run_bind (borrow_loop (of_bool (d < c)) ds) (\<lambda>ds'. Inr ((d - c) # ds')))"

definition shmpi_sub_hlp :: "nat \<Rightarrow> u64 list \<Rightarrow> u64 list \<Rightarrow> fault + u64 list" where
  "shmpi_sub_hlp n s d =
     (if length s < n \<or> length d < n then Inl OutOfBounds
      else let (lo, c) = sub_loop 0 (take n s) (take n d) in
        run_bind (borrow_loop c (drop n d)) (\<lambda>hi. Inr (lo @ hi)))"

definition shmpi_sub_abs :: "libc \<Rightarrow> mvar \<Rightarrow> mvar \<Rightarrow> mvar \<Rightarrow> mop" where
  "shmpi_sub_abs c x a b h =
     (let TB = Loc 0 0; b' = (if x = b then TB else b) in
      if shmpi_cmp_abs (h a) (h b) < 0 then mpi_ret ERR_NEGATIVE_VALUE h
      else mpi_cleanup
        (mpi_chk (if x = b then shmpi_copy c TB b else mpi_ret 0)
          (mpi_chk (if x \<noteq> a then shmpi_copy c x a else mpi_ret 0) (\<lambda>h1.
            run_bind (shmpi_sub_hlp (used_limbs (mp_p (h1 b'))) (mp_p (h1 b')) (mp_p (h1 x))) (\<lambda>p.
              mpi_ret 0 (h1(x := \<lparr>mp_s = 1, mp_p = p\<rparr>))))))
        (\<lambda>h1. h1(TB := shmpi_free (h1 TB))) (h(TB := shmpi_init)))"

section \<open>Signed addition and subtraction\<close>

definition set_sign :: "mvar \<Rightarrow> int \<Rightarrow> mop" where
  "set_sign x s = mpi_do (\<lambda>h. h(x := (h x)\<lparr>mp_s := s\<rparr>))"

definition shmpi_add_mpi :: "libc \<Rightarrow> mvar \<Rightarrow> mvar \<Rightarrow> mvar \<Rightarrow> mop" where
  "shmpi_add_mpi c x a b h =
     (let s = mp_s (h a) in
      if mp_s (h a) * mp_s (h b) < 0
      then (if 0 \<le> shmpi_cmp_abs (h a) (h b)
            then mpi_chk (shmpi_sub_abs c x a b) (set_sign x s) h
            else mpi_chk (shmpi_sub_abs c x b a) (set_sign x (- s)) h)
      else mpi_chk (shmpi_add_abs c x a b) (set_sign x s) h)"

definition shmpi_sub_mpi :: "libc \<Rightarrow> mvar \<Rightarrow> mvar \<Rightarrow> mvar \<Rightarrow> mop" where
  "shmpi_sub_mpi c x a b h =
     (let s = mp_s (h a) in
      if 0 < mp_s (h a) * mp_s (h b)
      then (if 0 \<le> shmpi_cmp_abs (h a) (h b)
            then mpi_chk (shmpi_sub_abs c x a b) (set_sign x s) h
            else mpi_chk (shmpi_sub_abs c x b a) (set_sign x (- s)) h)
      else mpi_chk (shmpi_add_abs c x a b) (set_sign x s) h)"

text \<open>A call with a number on the stack.\<close>

definition with_local :: "mvar \<Rightarrow> fault + shmpi \<Rightarrow> mop \<Rightarrow> mop" where
  "with_local l Y m h = run_bind Y (\<lambda>Y'. mpi_cleanup m (\<lambda>h'. h'(l := shmpi_init)) (h(l := Y')))"

definition shmpi_add_int :: "libc \<Rightarrow> mvar \<Rightarrow> mvar \<Rightarrow> int \<Rightarrow> mop" where
  "shmpi_add_int c x a b = with_local (Loc 1 0) (int_mpi b) (shmpi_add_mpi c x a (Loc 1 0))"

definition shmpi_sub_int :: "libc \<Rightarrow> mvar \<Rightarrow> mvar \<Rightarrow> int \<Rightarrow> mop" where
  "shmpi_sub_int c x a b = with_local (Loc 1 0) (int_mpi b) (shmpi_sub_mpi c x a (Loc 1 0))"

section \<open>Multiplication\<close>

text \<open>The macro \<open>MULADDC_CORE\<close>: a limb of the product by half limbs.  The result is the new \<open>*d\<close> and the new carry.\<close>

definition muladdc :: "u64 \<Rightarrow> u64 \<Rightarrow> u64 \<Rightarrow> u64 \<Rightarrow> u64 \<times> u64" where
  "muladdc b s c d =
     (let b0 = drop_bit 32 (push_bit 32 b); b1 = drop_bit 32 b;
          s0 = drop_bit 32 (push_bit 32 s); s1 = drop_bit 32 s;
          rx = s0 * b1; r0 = s0 * b0; ry = s1 * b0; r1 = s1 * b1;
          r1 = r1 + drop_bit 32 rx; r1 = r1 + drop_bit 32 ry;
          rx = push_bit 32 rx; ry = push_bit 32 ry;
          r0 = r0 + rx; r1 = r1 + of_bool (r0 < rx);
          r0 = r0 + ry; r1 = r1 + of_bool (r0 < ry);
          r0 = r0 + c; r1 = r1 + of_bool (r0 < c);
          r0 = r0 + d; r1 = r1 + of_bool (r0 < d)
      in (r0, r1))"

text \<open>The loops of \<open>shmpi_mul_hlp\<close>: sixteen, eight or one limb at a time, they do the same for every limb.\<close>

fun mul_loop :: "u64 \<Rightarrow> u64 \<Rightarrow> u64 list \<Rightarrow> u64 list \<Rightarrow> u64 list \<times> u64" where
  "mul_loop b c (s # ss) (d # ds) =
     (let (r0, r1) = muladdc b s c d; (ds', c') = mul_loop b r1 ss ds in (r0 # ds', c'))"
| "mul_loop b c ss ds = (ds, c)"

text \<open>The loop \<open>do { *d += c; c = (*d < c); d++; } while (c != 0)\<close>.\<close>

fun carry_do :: "u64 \<Rightarrow> u64 list \<Rightarrow> fault + u64 list" where
  "carry_do c [] = Inl OutOfBounds"
| "carry_do c (d # ds) =
     (if d + c < c then run_bind (carry_do 1 ds) (\<lambda>ds'. Inr ((d + c) # ds')) else Inr ((d + c) # ds))"

definition shmpi_mul_hlp :: "nat \<Rightarrow> u64 list \<Rightarrow> u64 list \<Rightarrow> u64 \<Rightarrow> fault + u64 list" where
  "shmpi_mul_hlp i s d b =
     (if length s < i \<or> length d < i then Inl OutOfBounds
      else let (lo, c) = mul_loop b 0 (take i s) (take i d) in
        run_bind (carry_do c (drop i d)) (\<lambda>hi. Inr (lo @ hi)))"

fun mul_rows :: "nat \<Rightarrow> u64 list \<Rightarrow> u64 list \<Rightarrow> nat \<Rightarrow> u64 list \<Rightarrow> fault + u64 list" where
  "mul_rows i A B 0 X = Inr X"
| "mul_rows i A B (Suc j) X = run_bind (shmpi_mul_hlp i A (drop j X) (B ! j)) (\<lambda>d. mul_rows i A B j (take j X @ d))"

text \<open>The part of \<open>shmpi_mul_mpi\<close> behind the copies of the operands.\<close>

definition mul_into :: "libc \<Rightarrow> mvar \<Rightarrow> mvar \<Rightarrow> mvar \<Rightarrow> mop" where
  "mul_into c x a b h =
     (let i = used_limbs (mp_p (h a)); j = used_limbs (mp_p (h b)) in
      mpi_chk (mpi_on x (shmpi_grow c (i + j)))
        (mpi_chk (shmpi_lset c x 0) (\<lambda>h1.
          run_bind (mul_rows i (mp_p (h1 a)) (mp_p (h1 b)) j (mp_p (h1 x))) (\<lambda>p.
            mpi_ret 0 (h1(x := \<lparr>mp_s = mp_s (h1 a) * mp_s (h1 b), mp_p = p\<rparr>))))) h)"

definition shmpi_mul_mpi :: "libc \<Rightarrow> mvar \<Rightarrow> mvar \<Rightarrow> mvar \<Rightarrow> mop" where
  "shmpi_mul_mpi c x a b h =
     (let TA = Loc 0 1; TB = Loc 0 2 in
      mpi_cleanup
        (mpi_chk (if x = a then shmpi_copy c TA a else mpi_ret 0)
          (mpi_chk (if x = b then shmpi_copy c TB b else mpi_ret 0)
            (mul_into c x (if x = a then TA else a) (if x = b then TB else b))))
        (\<lambda>h1. h1(TB := shmpi_free (h1 TB), TA := shmpi_free (h1 TA))) (h(TA := shmpi_init, TB := shmpi_init)))"

definition shmpi_mul_int :: "libc \<Rightarrow> mvar \<Rightarrow> mvar \<Rightarrow> int \<Rightarrow> mop" where
  "shmpi_mul_int c x a b = with_local (Loc 1 0) (Inr \<lparr>mp_s = 1, mp_p = [word_of_int b]\<rparr>) (shmpi_mul_mpi c x a (Loc 1 0))"


section \<open>Carries\<close>

lemma word_add_carry: "unat ((a :: u64) + v) + limb_base * of_bool (a + v < v) = unat a + unat v"
proof (cases "unat a + unat v < limb_base")
  case True
  then have "unat (a + v) = unat a + unat v" using unat_add_lem [of a v] by (simp add: limb_base_def)
  then show ?thesis by (simp add: word_less_nat_alt)
next
  case False
  have "unat (a + v) = (unat a + unat v) mod limb_base" by (simp add: unat_word_ariths limb_base_def)
  also have "\<dots> = unat a + unat v - limb_base"
    using False limb_lt [of a] limb_lt [of v] by (simp add: le_mod_geq)
  finally have "unat (a + v) = unat a + unat v - limb_base" .
  moreover have "unat a + unat v - limb_base < unat v" using False limb_lt [of a] by linarith
  ultimately show ?thesis using False by (simp add: word_less_nat_alt)
qed

lemma unat_of_bool [simp]: "unat (of_bool b :: u64) = of_bool b"
  by (cases b) simp_all

lemma add_loop_val:
  "length os = length ps \<Longrightarrow> unat c \<le> 1 \<Longrightarrow> add_loop False c os ps = (qs, c') \<Longrightarrow>
     length qs = length ps \<and> unat c' \<le> 1 \<and>
     limbs_val qs + limb_base ^ length ps * unat c' = limbs_val os + limbs_val ps + unat c"
proof (induction os ps arbitrary: c qs rule: list_induct2)
  case (Cons q os p ps)
  define p1 where "p1 = p + c"
  define c1 :: u64 where "c1 = of_bool (p1 < c)"
  define p2 where "p2 = p1 + q"
  define c2 :: u64 where "c2 = of_bool (p2 < q)"
  obtain rs where rs: "add_loop False (c1 + c2) os ps = (rs, c')" "qs = p2 # rs"
    using Cons.prems(2) by (auto simp: p1_def c1_def p2_def c2_def Let_def split: prod.splits)
  have e1: "unat p1 + limb_base * unat c1 = unat p + unat c" using word_add_carry [of p c] by (simp add: p1_def c1_def)
  have e2: "unat p2 + limb_base * unat c2 = unat p1 + unat q" using word_add_carry [of p1 q] by (simp add: p2_def c2_def)
  have "unat p2 + limb_base * (unat c1 + unat c2) = unat p + unat c + unat q" using e1 e2 by (simp add: algebra_simps)
  moreover have "unat c1 + unat c2 \<le> 1"
  proof (rule ccontr)
    assume "\<not> unat c1 + unat c2 \<le> 1"
    then have "2 * limb_base \<le> limb_base * (unat c1 + unat c2)" by (simp add: mult.commute)
    then show False using calculation limb_lt [of p] limb_lt [of q] Cons.prems(1) by linarith
  qed
  moreover have cc: "unat (c1 + c2) = unat c1 + unat c2"
    using calculation(2) unat_add_lem [of c1 c2] by simp
  ultimately have r: "length rs = length ps" "unat c' \<le> 1"
      "limbs_val rs + limb_base ^ length ps * unat c' = limbs_val os + limbs_val ps + unat (c1 + c2)"
    using Cons.IH [OF _ rs(1)] by auto
  have "limbs_val qs + limb_base ^ length (p # ps) * unat c' = unat p2 + limb_base * (limbs_val rs + limb_base ^ length ps * unat c')"
    by (simp add: rs(2) algebra_simps)
  also have "\<dots> = unat p2 + limb_base * (unat c1 + unat c2) + limb_base * (limbs_val os + limbs_val ps)"
    unfolding r(3) cc by (simp add: algebra_simps)
  finally show ?case
    using r(1,2) \<open>unat p2 + limb_base * (unat c1 + unat c2) = unat p + unat c + unat q\<close> by (simp add: rs(2) algebra_simps)
qed simp

lemma carry_loop_val:
  "unat c \<le> 1 \<Longrightarrow> carry_loop c ps = (qs, c') \<Longrightarrow>
     length qs = length ps \<and> unat c' \<le> 1 \<and> limbs_val qs + limb_base ^ length ps * unat c' = limbs_val ps + unat c"
proof (induction ps arbitrary: c qs)
  case (Cons p ps)
  show ?case
  proof (cases "c = 0")
    case False
    obtain rs where rs: "carry_loop (of_bool (p + c < c)) ps = (rs, c')" "qs = (p + c) # rs"
      using Cons.prems(2) False by (auto simp: Let_def split: prod.splits)
    have "unat (of_bool (p + c < c) :: u64) \<le> 1" by simp
    note IH = Cons.IH [OF this rs(1)]
    have "limbs_val qs + limb_base ^ length (p # ps) * unat c' = unat (p + c) + limb_base * (limbs_val rs + limb_base ^ length ps * unat c')"
      by (simp add: rs(2) algebra_simps)
    also have "\<dots> = unat (p + c) + limb_base * of_bool (p + c < c) + limb_base * limbs_val ps"
      using IH by (simp add: algebra_simps)
    finally show ?thesis using IH word_add_carry [of p c] by (simp add: rs(2))
  qed (use Cons.prems in auto)
qed simp

section \<open>Sums\<close>

lemma add_into_ok:
  assumes "libc_total c" "mpi_ok (h x)" "mpi_ok (h b)" "x \<noteq> b" "length (mp_p (h x)) < MPI_MAX_LIMBS" "length (mp_p (h b)) < MPI_MAX_LIMBS"
  obtains X where "add_into c x b h = Inr (0, h(x := X))" "mp_s X = 1" "mpi_ok X"
    "limbs_val (mp_p X) = limbs_val (mp_p (h x)) + limbs_val (mp_p (h b))"
    "length (mp_p X) \<le> max (length (mp_p (h x))) (max (used_limbs (mp_p (h b))) (used_limbs (mp_p X)))" "length (mp_p (h x)) \<le> length (mp_p X)"
proof -
  define B where "B = mp_p (h b)"
  define j where "j = used_limbs B"
  define P where "P = mp_p (h x) @ replicate (j - length (mp_p (h x))) 0"
  obtain lo c1 where lo: "add_loop False 0 (take j B) (take j P) = (lo, c1)" by fastforce
  obtain hi c2 where hi: "carry_loop c1 (drop j P) = (hi, c2)" by fastforce
  have j: "j \<le> length B" "j \<le> length P" by (simp_all add: j_def used_limbs_le P_def)
  have "length (take j B) = length (take j P)" using j by simp
  from add_loop_val [OF this _ lo] have l: "length lo = j" "unat c1 \<le> 1"
      "limbs_val lo + limb_base ^ j * unat c1 = limbs_val (take j B) + limbs_val (take j P)"
    using j by simp_all
  note h = carry_loop_val [OF l(2) hi]
  have len: "length (lo @ hi) = length P" using l(1) h j by simp
  have lP: "length P = max (length (mp_p (h x))) j" by (simp add: P_def)
  have small: "length P < MPI_MAX_LIMBS" using assms(5,6) j(1) by (simp add: lP B_def)
  have val: "limbs_val (lo @ hi) + limb_base ^ length P * unat c2 = limbs_val (mp_p (h x)) + limbs_val B"
  proof -
    have "limb_base ^ length P = limb_base ^ j * limb_base ^ length (drop j P)" using j by (simp flip: power_add)
    then have "limbs_val (lo @ hi) + limb_base ^ length P * unat c2 = limbs_val lo + limb_base ^ j * (limbs_val hi + limb_base ^ length (drop j P) * unat c2)"
      by (simp add: limbs_val_append l(1) algebra_simps)
    also have "\<dots> = limbs_val (take j B) + (limbs_val (take j P) + limb_base ^ j * limbs_val (drop j P))"
      using h l(3) by (simp add: algebra_simps)
    also have "\<dots> = limbs_val B + limbs_val P"
      using limbs_val_split [OF j(2)] limbs_val_used [of B] by (simp add: j_def)
    finally show ?thesis by (simp add: P_def limbs_val_append)
  qed
  let ?X = "\<lparr>mp_s = 1, mp_p = lo @ hi @ (if c2 = 0 then [] else [c2])\<rparr>"
  have jm: "j \<le> MPI_MAX_LIMBS" using assms(3) j(1) by (simp add: mpi_ok_def B_def)
  have "(lo @ hi @ [0])[length P := ((lo @ hi @ [0]) ! length P) + c2] = lo @ hi @ [c2]"
    using list_update_length [of "lo @ hi" 0 "[]"] nth_append_length [of "lo @ hi" 0 "[]"] unfolding len by simp
  then have run: "add_into c x b h = Inr (0, h(x := ?X))"
    using assms(4) grow_ok [OF assms(1) jm] grow_ok [OF assms(1), of "Suc (length P)"] lo hi small len
    by (simp add: add_into_def Let_def mpi_chk_def mpi_on_def flip: B_def j_def P_def)
  have "limbs_val (mp_p ?X) = limbs_val (mp_p (h x)) + limbs_val B"
  proof -
    have "limbs_val (mp_p ?X) = limbs_val (lo @ hi) + limb_base ^ length (lo @ hi) * unat c2"
      using limbs_val_append [of "lo @ hi" "[c2]"] by simp
    then show ?thesis using val len by simp
  qed
  moreover have "length (mp_p ?X) \<le> max (length (mp_p (h x))) (max (used_limbs B) (used_limbs (mp_p ?X)))"
  proof (cases "c2 = 0")
    case False
    have "limb_base ^ length P * 1 \<le> limb_base ^ length P * unat c2" using False by (intro mult_le_mono2) (simp add: Suc_le_eq unat_gt_0)
    then have "\<not> limbs_val (mp_p ?X) < limb_base ^ length P" using calculation val by linarith
    then have "length P < used_limbs (mp_p ?X)" unfolding used_limbs_le_iff by simp
    then show ?thesis using False len by simp
  qed (use len lP j_def in simp)
  moreover have "mpi_ok ?X" "length (mp_p (h x)) \<le> length (mp_p ?X)" using small len lP by (auto simp: mpi_ok_def)
  ultimately show ?thesis using run by (intro that [of ?X]) (simp_all add: B_def)
qed

text \<open>How long the result of an operation with two operands can be.\<close>

definition len_bound :: "mpis \<Rightarrow> mvar \<Rightarrow> mvar \<Rightarrow> mvar \<Rightarrow> shmpi \<Rightarrow> bool" where
  "len_bound h x a b X \<longleftrightarrow>
     length (mp_p X) \<le> max (max 1 (length (mp_p (h x)))) (max (used_limbs (mp_p (h a))) (max (used_limbs (mp_p (h b))) (used_limbs (mp_p X)))) \<and>
     (mp_p (h a) \<noteq> [] \<and> mp_p (h b) \<noteq> [] \<longrightarrow> length (mp_p (h x)) \<le> length (mp_p X))"

lemma len_bound_sign [simp]: "len_bound h x a b (X\<lparr>mp_s := s\<rparr>) = len_bound h x a b X"
  by (simp add: len_bound_def)

lemma len_bound_commute: "len_bound h x b a X = len_bound h x a b X"
  by (auto simp: len_bound_def max.left_commute)

lemma len_boundD:
  assumes "len_bound h x a b X" "0 < m" "length (mp_p (h x)) \<le> m"
    and "limbs_val (mp_p (h a)) < limb_base ^ m" "limbs_val (mp_p (h b)) < limb_base ^ m" "limbs_val (mp_p X) < limb_base ^ m"
  shows "length (mp_p X) \<le> m"
  using conjunct1 [OF assms(1) [unfolded len_bound_def]] assms(2-) by (simp add: used_limbs_le_iff)

lemma add_abs_ok:
  assumes "libc_total c" "mpi_ok (h x)" "mpi_ok (h a)" "mpi_ok (h b)" "\<not> (x = a \<and> x = b)"
    and "length (mp_p (h x)) < MPI_MAX_LIMBS" "length (mp_p (h a)) < MPI_MAX_LIMBS" "length (mp_p (h b)) < MPI_MAX_LIMBS"
  obtains X where "shmpi_add_abs c x a b h = Inr (0, h(x := X))" "mp_s X = 1" "mpi_ok X"
    "limbs_val (mp_p X) = limbs_val (mp_p (h a)) + limbs_val (mp_p (h b))" "len_bound h x a b X"
proof (cases "x = b")
  case True
  then have "x \<noteq> a" using assms(5) by simp
  then obtain X where "add_into c x a h = Inr (0, h(x := X))" "mp_s X = 1" "mpi_ok X"
      "limbs_val (mp_p X) = limbs_val (mp_p (h x)) + limbs_val (mp_p (h a))"
      "length (mp_p X) \<le> max (length (mp_p (h x))) (max (used_limbs (mp_p (h a))) (used_limbs (mp_p X)))" "length (mp_p (h x)) \<le> length (mp_p X)"
    using add_into_ok [OF assms(1-3) _ assms(6,7)] by metis
  then show ?thesis using True by (intro that [of X]) (auto simp: shmpi_add_abs_def mpi_chk_def len_bound_def)
next
  case False
  obtain X1 where c: "shmpi_copy c x a h = Inr (0, h(x := X1))" "limbs_val (mp_p X1) = limbs_val (mp_p (h a))" "mpi_ok X1"
      "length (mp_p X1) \<le> max (length (mp_p (h x))) (max 1 (used_limbs (mp_p (h a))))" "mp_p (h a) \<noteq> [] \<longrightarrow> length (mp_p (h x)) \<le> length (mp_p X1)"
    using copy_ex [of c h a x] assms(1-3) by blast
  have "length (mp_p X1) < MPI_MAX_LIMBS" using c(4) assms(6,7) used_limbs_le [of "mp_p (h a)"] by (auto simp: MPI_MAX_LIMBS_def)
  then obtain X where "add_into c x b (h(x := X1)) = Inr (0, h(x := X))" "mp_s X = 1" "mpi_ok X"
      "limbs_val (mp_p X) = limbs_val (mp_p X1) + limbs_val (mp_p (h b))"
      "length (mp_p X) \<le> max (length (mp_p X1)) (max (used_limbs (mp_p (h b))) (used_limbs (mp_p X)))" "length (mp_p X1) \<le> length (mp_p X)"
    using add_into_ok [OF assms(1), of "h(x := X1)" x b] c(3) assms(4,8) False by auto
  then show ?thesis using False c by (intro that [of X]) (auto simp: shmpi_add_abs_def mpi_chk_def len_bound_def)
qed

section \<open>Differences\<close>

lemma word_sub_borrow: "unat ((a :: u64) - v) + unat v = unat a + limb_base * of_bool (a < v)"
  using word_add_carry [of "a - v" v] by simp

lemma sub_loop_val:
  "length ss = length ds \<Longrightarrow> unat c \<le> 1 \<Longrightarrow> sub_loop c ss ds = (qs, c') \<Longrightarrow>
     length qs = length ds \<and> unat c' \<le> 1 \<and>
     limbs_val qs + limbs_val ss + unat c = limbs_val ds + limb_base ^ length ds * unat c'"
proof (induction ss ds arbitrary: c qs rule: list_induct2)
  case (Cons s ss d ds)
  define z :: u64 where "z = of_bool (d < c)"
  define d1 where "d1 = d - c"
  define z1 :: u64 where "z1 = of_bool (d1 < s)"
  obtain rs where rs: "sub_loop (z1 + z) ss ds = (rs, c')" "qs = (d1 - s) # rs"
    using Cons.prems(2) by (auto simp: z_def d1_def z1_def Let_def split: prod.splits)
  have e1: "unat d1 + unat c = unat d + limb_base * unat z" using word_sub_borrow [of d c] by (simp add: d1_def z_def)
  have e2: "unat (d1 - s) + unat s = unat d1 + limb_base * unat z1" using word_sub_borrow [of d1 s] by (simp add: z1_def)
  have e: "unat (d1 - s) + unat s + unat c = unat d + limb_base * (unat z1 + unat z)" using e1 e2 by (simp add: algebra_simps)
  moreover have "unat z1 + unat z \<le> 1"
  proof (rule ccontr)
    assume "\<not> unat z1 + unat z \<le> 1"
    then have "2 * limb_base \<le> limb_base * (unat z1 + unat z)" by (simp add: mult.commute)
    then show False using e limb_lt [of "d1 - s"] limb_lt [of s] Cons.prems(1) by linarith
  qed
  moreover have cc: "unat (z1 + z) = unat z1 + unat z"
    using calculation(2) unat_add_lem [of z1 z] by simp
  ultimately have r: "length rs = length ds" "unat c' \<le> 1"
      "limbs_val rs + limbs_val ss + unat (z1 + z) = limbs_val ds + limb_base ^ length ds * unat c'"
    using Cons.IH [OF _ rs(1)] by auto
  have "limbs_val qs + limbs_val (s # ss) + unat c = (unat (d1 - s) + unat s + unat c) + limb_base * (limbs_val rs + limbs_val ss)"
    by (simp add: rs(2) algebra_simps)
  also have "\<dots> = unat d + limb_base * (limbs_val rs + limbs_val ss + unat (z1 + z))"
    unfolding e cc by (simp add: algebra_simps)
  also have "\<dots> = unat d + limb_base * (limbs_val ds + limb_base ^ length ds * unat c')" unfolding r(3) by simp
  finally show ?case using r(1,2) by (simp add: rs(2) algebra_simps)
qed simp

lemma borrow_loop_val:
  "unat c \<le> 1 \<Longrightarrow> unat c \<le> limbs_val ds \<Longrightarrow> \<exists>qs. borrow_loop c ds = Inr qs \<and> length qs = length ds \<and> limbs_val qs + unat c = limbs_val ds"
proof (induction ds arbitrary: c)
  case (Cons d ds)
  show ?case
  proof (cases "c = 0")
    case False
    then have c: "unat c = 1" using Cons.prems(1) by (simp add: unat_eq_0 le_Suc_eq)
    have b: "unat (d - c) + unat c = unat d + limb_base * of_bool (d < c)" by (rule word_sub_borrow)
    have "unat (of_bool (d < c) :: u64) \<le> limbs_val ds"
      using Cons.prems(2) c by (cases "d < c"; cases "limbs_val ds") (auto simp: word_less_nat_alt)
    then obtain qs where qs: "borrow_loop (of_bool (d < c)) ds = Inr qs" "length qs = length ds" "limbs_val qs + of_bool (d < c) = limbs_val ds"
      using Cons.IH [of "of_bool (d < c)"] by (cases "d < c") auto
    have "limbs_val ((d - c) # qs) + unat c = unat d + limb_base * (limbs_val qs + of_bool (d < c))" using b by (simp add: algebra_simps)
    then show ?thesis using False qs by simp
  qed simp
qed (simp add: unat_eq_0)

lemma sub_hlp_ok:
  assumes "n \<le> length s" "n \<le> length d" "limbs_val (take n s) \<le> limbs_val d"
  obtains q where "shmpi_sub_hlp n s d = Inr q" "length q = length d" "limbs_val q + limbs_val (take n s) = limbs_val d"
proof -
  obtain lo c where lo: "sub_loop 0 (take n s) (take n d) = (lo, c)" by fastforce
  have "length (take n s) = length (take n d)" using assms by simp
  from sub_loop_val [OF this _ lo] have l: "length lo = n" "unat c \<le> 1" "limbs_val lo + limbs_val (take n s) = limbs_val (take n d) + limb_base ^ n * unat c"
    using assms(2) by simp_all
  note sp = limbs_val_split [OF assms(2)]
  have "unat c \<le> limbs_val (drop n d)"
  proof (rule ccontr)
    assume "\<not> unat c \<le> limbs_val (drop n d)"
    then have "unat c = 1" "limbs_val (drop n d) = 0" using l(2) by auto
    then show False using l(1,3) sp assms(3) limbs_val_lt [of lo] by simp
  qed
  then obtain hi where hi: "borrow_loop c (drop n d) = Inr hi" "length hi = length (drop n d)" "limbs_val hi + unat c = limbs_val (drop n d)"
    using borrow_loop_val [OF l(2)] by blast
  have "limbs_val (lo @ hi) + limbs_val (take n s) = limbs_val (take n d) + limb_base ^ n * (limbs_val hi + unat c)"
    using l(1,3) by (simp add: limbs_val_append algebra_simps)
  then have "limbs_val (lo @ hi) + limbs_val (take n s) = limbs_val d" using hi(3) sp by simp
  moreover have "shmpi_sub_hlp n s d = Inr (lo @ hi)" using lo hi(1) assms(1,2) by (simp add: shmpi_sub_hlp_def)
  ultimately show ?thesis using l(1) hi(2) assms(2) by (intro that [of "lo @ hi"]) simp_all
qed

lemma sub_abs_ok:
  assumes "libc_total c" "mpi_ok (h x)" "mpi_ok (h a)" "mpi_ok (h b)" "limbs_val (mp_p (h b)) \<le> limbs_val (mp_p (h a))"
    and "blank_locals 1 h" "outer_var 1 x" "outer_var 1 a" "outer_var 1 b"
  obtains X where "shmpi_sub_abs c x a b h = Inr (0, h(x := X))" "mp_s X = 1" "mpi_ok X"
    "limbs_val (mp_p X) = limbs_val (mp_p (h a)) - limbs_val (mp_p (h b))" "len_bound h x a b X"
proof -
  let ?TB = "Loc 0 0"
  let ?b = "if x = b then ?TB else b"
  have tb: "h ?TB = shmpi_init" "x \<noteq> ?TB" "a \<noteq> ?TB" "b \<noteq> ?TB" using assms(6-9) blank_local [of 1 h 0 0] outer_var_neq by auto
  have h0: "h(?TB := shmpi_init) = h" using tb(1) by auto
  obtain B1 where B1: "(if x = b then shmpi_copy c ?TB b else mpi_ret 0) h = Inr (0, h(?TB := B1))" "x = b \<longrightarrow> limbs_val (mp_p B1) = limbs_val (mp_p (h b))"
  proof (cases "x = b")
    case True
    then show ?thesis using copy_ex [of c h b ?TB] assms(1,4) tb(1) that by auto
  next
    case False
    then show ?thesis using that [of shmpi_init] h0 by simp
  qed
  let ?h1 = "h(?TB := B1)"
  obtain X1 where X1: "shmpi_copy c x a ?h1 = Inr (0, ?h1(x := X1))" "limbs_val (mp_p X1) = limbs_val (mp_p (h a))" "mpi_ok X1"
      "length (mp_p X1) \<le> max (length (mp_p (h x))) (max 1 (used_limbs (mp_p (h a))))" "mp_p (h a) \<noteq> [] \<longrightarrow> length (mp_p (h x)) \<le> length (mp_p X1)"
    using copy_ex [of c ?h1 a x] assms(1-3) tb by auto
  let ?h2 = "?h1(x := X1)"
  have vb: "limbs_val (mp_p (?h2 ?b)) = limbs_val (mp_p (h b))" using B1(2) tb by auto
  let ?n = "used_limbs (mp_p (?h2 ?b))"
  have "limbs_val (mp_p (?h2 ?b)) \<le> limbs_val (mp_p X1)" using vb X1(2) assms(5) by simp
  then have "limbs_val (mp_p (?h2 ?b)) < limb_base ^ length (mp_p X1)" using limbs_val_lt [of "mp_p X1"] by (rule le_less_trans)
  then have n: "?n \<le> length (mp_p X1)" by (simp add: used_limbs_le_iff)
  obtain q where q: "shmpi_sub_hlp ?n (mp_p (?h2 ?b)) (mp_p X1) = Inr q" "length q = length (mp_p X1)"
      "limbs_val q + limbs_val (mp_p (h b)) = limbs_val (mp_p (h a))"
    using sub_hlp_ok [OF used_limbs_le n] vb X1(2) assms(5) limbs_val_used [of "mp_p (?h2 ?b)"] by metis
  have "shmpi_cmp_abs (h a) (h b) \<ge> 0" using assms(5) by (simp add: cmp_abs_val cmp3_def)
  then have "shmpi_sub_abs c x a b h = Inr (0, (?h2(x := \<lparr>mp_s = 1, mp_p = q\<rparr>))(?TB := shmpi_init))"
    using B1(1) X1(1) q(1) tb(2) by (simp add: shmpi_sub_abs_def Let_def h0 mpi_chk_def)
  also have "(?h2(x := \<lparr>mp_s = 1, mp_p = q\<rparr>))(?TB := shmpi_init) = h(x := \<lparr>mp_s = 1, mp_p = q\<rparr>)"
    using tb(1,2) by (auto simp: fun_eq_iff)
  finally show ?thesis using q X1(3-5) by (intro that [of "\<lparr>mp_s = 1, mp_p = q\<rparr>"]) (auto simp: mpi_ok_def len_bound_def)
qed

lemma sub_abs_negative:
  "limbs_val (mp_p (h a)) < limbs_val (mp_p (h b)) \<Longrightarrow> shmpi_sub_abs c x a b h = Inr (ERR_NEGATIVE_VALUE, h)"
  by (simp add: shmpi_sub_abs_def cmp_abs_val cmp3_def)

section \<open>Signed sums\<close>

text \<open>The arguments of an operation: numbers with room for a carry, outside the local variables of depth below \<open>k\<close>.\<close>

definition mpi_arg :: "nat \<Rightarrow> mpis \<Rightarrow> mvar \<Rightarrow> bool" where
  "mpi_arg k h x \<longleftrightarrow> mpi_ok (h x) \<and> length (mp_p (h x)) < MPI_MAX_LIMBS \<and> outer_var k x"

text \<open>The branch of the difference, which both signed functions have: \<open>s\<close> is the sign of \<open>A\<close>.\<close>

lemma signed_difference:
  assumes "libc_total c" "blank_locals 1 h" "mpi_arg 1 h x" "mpi_arg 1 h a" "mpi_arg 1 h b"
  shows "\<exists>X. (if 0 \<le> shmpi_cmp_abs (h a) (h b) then mpi_chk (shmpi_sub_abs c x a b) (set_sign x (mp_s (h a))) h
           else mpi_chk (shmpi_sub_abs c x b a) (set_sign x (- mp_s (h a))) h) = Inr (0, h(x := X)) \<and>
         mpi_ok X \<and> mpi_val X = mp_s (h a) * (int (limbs_val (mp_p (h a))) - int (limbs_val (mp_p (h b)))) \<and>
         len_bound h x a b X"
proof (cases "limbs_val (mp_p (h b)) \<le> limbs_val (mp_p (h a))")
  case True
  obtain X where X: "shmpi_sub_abs c x a b h = Inr (0, h(x := X))" "mpi_ok X" "limbs_val (mp_p X) = limbs_val (mp_p (h a)) - limbs_val (mp_p (h b))"
      "len_bound h x a b X"
    using sub_abs_ok [OF assms(1) _ _ _ True assms(2)] assms(3-5) unfolding mpi_arg_def by metis
  then show ?thesis using True assms(4)
    by (intro exI [of _ "X\<lparr>mp_s := mp_s (h a)\<rparr>"]) (auto simp: cmp_abs_val cmp3_def set_sign_def mpi_arg_def mpi_ok_def mpi_val_def)
next
  case False
  then have le: "limbs_val (mp_p (h a)) \<le> limbs_val (mp_p (h b))" by simp
  obtain X where X: "shmpi_sub_abs c x b a h = Inr (0, h(x := X))" "mpi_ok X" "limbs_val (mp_p X) = limbs_val (mp_p (h b)) - limbs_val (mp_p (h a))"
      "len_bound h x b a X"
    using sub_abs_ok [OF assms(1) _ _ _ le assms(2)] assms(3-5) unfolding mpi_arg_def by metis
  then show ?thesis using False le assms(4) len_bound_commute [of h x a b X]
    by (intro exI [of _ "X\<lparr>mp_s := - mp_s (h a)\<rparr>"])
      (auto simp: cmp_abs_val cmp3_def set_sign_def mpi_arg_def mpi_ok_def mpi_val_def of_nat_diff algebra_simps)
qed

lemma signed_total:
  assumes "libc_total c" "mpi_arg 1 h x" "mpi_arg 1 h a" "mpi_arg 1 h b" "\<not> (x = a \<and> x = b)"
  shows "\<exists>X. mpi_chk (shmpi_add_abs c x a b) (set_sign x (mp_s (h a))) h = Inr (0, h(x := X)) \<and>
         mpi_ok X \<and> mpi_val X = mp_s (h a) * (int (limbs_val (mp_p (h a))) + int (limbs_val (mp_p (h b)))) \<and>
         len_bound h x a b X"
proof -
  obtain X where X: "shmpi_add_abs c x a b h = Inr (0, h(x := X))" "mpi_ok X" "limbs_val (mp_p X) = limbs_val (mp_p (h a)) + limbs_val (mp_p (h b))"
      "len_bound h x a b X"
    using add_abs_ok [OF assms(1) _ _ _ assms(5)] assms(2-4) unfolding mpi_arg_def by metis
  then show ?thesis using assms(3)
    by (intro exI [of _ "X\<lparr>mp_s := mp_s (h a)\<rparr>"]) (auto simp: set_sign_def mpi_arg_def mpi_ok_def mpi_val_def)
qed

lemma mpi_arg_sign: "mpi_arg k h x \<Longrightarrow> mp_s (h x) = 1 \<or> mp_s (h x) = - 1"
  by (simp add: mpi_arg_def mpi_ok_def)

lemma add_mpi_ex:
  assumes "libc_total c" "blank_locals 1 h" "mpi_arg 1 h x" "mpi_arg 1 h a" "mpi_arg 1 h b" "\<not> (x = a \<and> x = b)"
  shows "\<exists>X. shmpi_add_mpi c x a b h = Inr (0, h(x := X)) \<and> mpi_ok X \<and> mpi_val X = mpi_val (h a) + mpi_val (h b) \<and>
         len_bound h x a b X"
proof (cases "mp_s (h a) * mp_s (h b) < 0")
  case True
  then have s: "mp_s (h b) = - mp_s (h a)" using mpi_arg_sign [OF assms(4)] mpi_arg_sign [OF assms(5)] by auto
  have run: "shmpi_add_mpi c x a b h = (if 0 \<le> shmpi_cmp_abs (h a) (h b) then mpi_chk (shmpi_sub_abs c x a b) (set_sign x (mp_s (h a))) h
      else mpi_chk (shmpi_sub_abs c x b a) (set_sign x (- mp_s (h a))) h)"
    using True by (simp add: shmpi_add_mpi_def Let_def)
  show ?thesis unfolding run using signed_difference [OF assms(1-5)] by (simp add: mpi_val_def s algebra_simps)
next
  case False
  then have s: "mp_s (h b) = mp_s (h a)" using mpi_arg_sign [OF assms(4)] mpi_arg_sign [OF assms(5)] by auto
  have run: "shmpi_add_mpi c x a b h = mpi_chk (shmpi_add_abs c x a b) (set_sign x (mp_s (h a))) h"
    using False by (simp add: shmpi_add_mpi_def Let_def)
  show ?thesis unfolding run using signed_total [OF assms(1,3-6)] by (simp add: mpi_val_def s algebra_simps)
qed

lemma sub_mpi_ex:
  assumes "libc_total c" "blank_locals 1 h" "mpi_arg 1 h x" "mpi_arg 1 h a" "mpi_arg 1 h b"
  shows "\<exists>X. shmpi_sub_mpi c x a b h = Inr (0, h(x := X)) \<and> mpi_ok X \<and> mpi_val X = mpi_val (h a) - mpi_val (h b) \<and>
         len_bound h x a b X"
proof (cases "0 < mp_s (h a) * mp_s (h b)")
  case True
  then have s: "mp_s (h b) = mp_s (h a)" using mpi_arg_sign [OF assms(4)] mpi_arg_sign [OF assms(5)] by auto
  have run: "shmpi_sub_mpi c x a b h = (if 0 \<le> shmpi_cmp_abs (h a) (h b) then mpi_chk (shmpi_sub_abs c x a b) (set_sign x (mp_s (h a))) h
      else mpi_chk (shmpi_sub_abs c x b a) (set_sign x (- mp_s (h a))) h)"
    using True by (simp add: shmpi_sub_mpi_def Let_def)
  show ?thesis unfolding run using signed_difference [OF assms(1-5)] by (simp add: mpi_val_def s algebra_simps)
next
  case False
  then have s: "mp_s (h b) = - mp_s (h a)" using mpi_arg_sign [OF assms(4)] mpi_arg_sign [OF assms(5)] by auto
  then have "a \<noteq> b" using mpi_arg_sign [OF assms(4)] by auto
  then have d: "\<not> (x = a \<and> x = b)" by auto
  have run: "shmpi_sub_mpi c x a b h = mpi_chk (shmpi_add_abs c x a b) (set_sign x (mp_s (h a))) h"
    using False by (simp add: shmpi_sub_mpi_def Let_def)
  show ?thesis unfolding run using signed_total [OF assms(1,3-5) d] by (simp add: mpi_val_def s algebra_simps)
qed

end
