(* ===== verification/Share_Mpi_Mul.thy ===== *)
theory Share_Mpi_Mul
  imports Share_Mpi_Arith
begin

text \<open>
  The values of products: a limb times a limb by half limbs, a row, all rows, and the functions.
\<close>

section \<open>A limb of a product\<close>

lemma half_limbs: "unat (drop_bit 32 (push_bit 32 (b :: u64))) + 2 ^ 32 * unat (drop_bit 32 b) = unat b"
proof -
  have "unat (push_bit 32 b) = unat b mod 2 ^ 32 * 2 ^ 32"
  proof -
    have "unat (push_bit 32 b) = take_bit 64 (push_bit 32 (unat b))" by (simp add: unsigned_push_bit_eq)
    also have "\<dots> = unat b * 2 ^ 32 mod (2 ^ 32 * 2 ^ 32)" by (simp only: take_bit_eq_mod push_bit_eq_mult flip: power_add) simp
    also have "\<dots> = unat b mod 2 ^ 32 * 2 ^ 32" by (rule mod_mult_mult2)
    finally show ?thesis .
  qed
  then have "unat (drop_bit 32 (push_bit 32 b)) = unat b mod 2 ^ 32" by (simp only: unat_drop_div) simp
  moreover have "unat (drop_bit 32 b) = unat b div 2 ^ 32" by (rule unat_drop_div)
  ultimately show ?thesis by (simp only: mod_mult_div_eq)
qed

lemma half_lt: "unat (drop_bit 32 (b :: u64)) < 2 ^ 32"
  unfolding unat_drop_div using limb_lt [of b] by (intro less_mult_imp_div_less) (simp add: limb_base_def)

lemma unat_add_mod: "unat (a + (b :: u64)) = (unat a + unat b) mod limb_base"
  by (simp add: unat_word_ariths limb_base_def)

lemma square_pred: "0 < n \<Longrightarrow> (n - 1) * (n - 1) + 2 * n = n * n + (1 :: nat)"
  by (cases n) simp_all

lemma half_mult: 
  assumes "unat (a :: u64) < 2 ^ 32" "unat b < 2 ^ 32"
  shows "unat (a * b) = unat a * unat b"
proof -
  have "unat a * unat b < 2 ^ 32 * 2 ^ 32" using assms by (intro mult_strict_mono) simp_all
  then have "unat a * unat b < 2 ^ LENGTH(64)" by simp
  then show ?thesis by (simp only: iffD1 [OF unat_mult_lem])
qed

lemma muladdc_val:
  assumes "muladdc b s c d = (r0, r1)"
  shows "unat r0 + limb_base * unat r1 = unat s * unat b + unat c + unat d"
proof -
  define b0 where "b0 = drop_bit 32 (push_bit 32 b)"
  define b1 where "b1 = drop_bit 32 b"
  define s0 where "s0 = drop_bit 32 (push_bit 32 s)"
  define s1 where "s1 = drop_bit 32 s"
  define rx ry where "rx = s0 * b1" and "ry = s1 * b0"
  define x0 x1 where "x0 = push_bit 32 rx" and "x1 = drop_bit 32 rx"
  define y0 y1 where "y0 = push_bit 32 ry" and "y1 = drop_bit 32 ry"
  define l1 where "l1 = s0 * b0 + x0"
  define l2 where "l2 = l1 + y0"
  define l3 where "l3 = l2 + c"
  define l4 where "l4 = l3 + d"
  define k1 k2 k3 k4 :: u64 where "k1 = of_bool (l1 < x0)" and "k2 = of_bool (l2 < y0)" and "k3 = of_bool (l3 < c)" and "k4 = of_bool (l4 < d)"
  define H where "H = unat (s1 * b1) + unat x1 + unat y1 + unat k1 + unat k2 + unat k3 + unat k4"
  have r: "r0 = l4" "r1 = s1 * b1 + x1 + y1 + k1 + k2 + k3 + k4"
    using assms by (auto simp: muladdc_def Let_def b0_def b1_def s0_def s1_def rx_def ry_def x0_def x1_def y0_def y1_def l1_def l2_def l3_def l4_def k1_def k2_def k3_def k4_def)
  have hs: "unat b = unat b0 + 2 ^ 32 * unat b1" "unat s = unat s0 + 2 ^ 32 * unat s1"
    by (simp_all only: b0_def b1_def s0_def s1_def half_limbs)
  have lt: "unat b0 < 2 ^ 32" "unat b1 < 2 ^ 32" "unat s0 < 2 ^ 32" "unat s1 < 2 ^ 32"
    by (simp_all only: b0_def b1_def s0_def s1_def half_lt)
  have x: "unat x0 + limb_base * unat x1 = unat rx * 2 ^ 32" unfolding x0_def x1_def using shift_limb [of 32 rx] by simp
  have y: "unat y0 + limb_base * unat y1 = unat ry * 2 ^ 32" unfolding y0_def y1_def using shift_limb [of 32 ry] by simp
  have e1: "unat l1 + limb_base * unat k1 = unat (s0 * b0) + unat x0" unfolding l1_def k1_def using word_add_carry [of "s0 * b0" x0] by simp
  have e2: "unat l2 + limb_base * unat k2 = unat l1 + unat y0" unfolding l2_def k2_def using word_add_carry [of l1 y0] by simp
  have e3: "unat l3 + limb_base * unat k3 = unat l2 + unat c" unfolding l3_def k3_def using word_add_carry [of l2 c] by simp
  have e4: "unat l4 + limb_base * unat k4 = unat l3 + unat d" unfolding l4_def k4_def using word_add_carry [of l3 d] by simp
  have base: "limb_base = 2 ^ 32 * 2 ^ 32" by (simp add: limb_base_def)
  have "unat l4 + limb_base * H = unat (s0 * b0) + unat rx * 2 ^ 32 + unat ry * 2 ^ 32 + limb_base * unat (s1 * b1) + unat c + unat d"
    using e1 e2 e3 e4 x y unfolding H_def by (simp only: distrib_left)
  also have "\<dots> = unat s * unat b + unat c + unat d"
    unfolding half_mult [OF lt(3,1)] half_mult [OF lt(4,2)] rx_def ry_def half_mult [OF lt(3,2)] half_mult [OF lt(4,1)] hs base
    by (simp only: algebra_simps)
  finally have tot: "unat l4 + limb_base * H = unat s * unat b + unat c + unat d" .
  have "H < limb_base"
  proof (rule ccontr)
    assume "\<not> H < limb_base"
    then have "limb_base * limb_base \<le> limb_base * H" by simp
    moreover have "unat s * unat b \<le> (limb_base - 1) * (limb_base - 1)"
      using limb_lt [of s] limb_lt [of b] by (intro mult_le_mono) simp_all
    moreover have "(limb_base - 1) * (limb_base - 1) + 2 * limb_base = limb_base * limb_base + 1"
      by (rule square_pred) simp
    ultimately show False using tot limb_lt [of c] limb_lt [of d] by linarith
  qed
  moreover have "unat r1 = H mod limb_base" unfolding r(2) H_def by (simp only: unat_add_mod mod_add_left_eq)
  ultimately have "unat r1 = H" by simp
  then show ?thesis using tot r(1) by simp
qed

section \<open>Products\<close>

lemma mul_loop_val:
  "length ss = length ds \<Longrightarrow> mul_loop b c ss ds = (qs, c') \<Longrightarrow>
     length qs = length ds \<and> limbs_val qs + limb_base ^ length ds * unat c' = limbs_val ss * unat b + limbs_val ds + unat c"
proof (induction ss ds arbitrary: c qs rule: list_induct2)
  case (Cons s ss d ds)
  obtain r0 r1 where r: "muladdc b s c d = (r0, r1)" by fastforce
  obtain rs where rs: "mul_loop b r1 ss ds = (rs, c')" "qs = r0 # rs"
    using Cons.prems r by (auto split: prod.splits)
  note IH = Cons.IH [OF rs(1)]
  have "limbs_val qs + limb_base ^ length (d # ds) * unat c' = unat r0 + limb_base * (limbs_val rs + limb_base ^ length ds * unat c')"
    by (simp add: rs(2) algebra_simps)
  also have "\<dots> = (unat r0 + limb_base * unat r1) + limb_base * (limbs_val ss * unat b + limbs_val ds)"
    using IH by (simp add: algebra_simps)
  finally show ?case using IH unfolding muladdc_val [OF r] by (simp add: rs(2) algebra_simps)
qed simp

lemma carry_do_val:
  "ds \<noteq> [] \<Longrightarrow> limbs_val ds + unat c < limb_base ^ length ds \<Longrightarrow>
     \<exists>qs. carry_do c ds = Inr qs \<and> length qs = length ds \<and> limbs_val qs = limbs_val ds + unat c"
proof (induction ds arbitrary: c)
  case (Cons d ds)
  have e: "unat (d + c) + limb_base * of_bool (d + c < c) = unat d + unat c" by (rule word_add_carry)
  show ?case
  proof (cases "d + c < c")
    case True
    then have "unat d + unat c = unat (d + c) + limb_base" using e by simp
    then have "limb_base * (limbs_val ds + 1) < limb_base * limb_base ^ length ds"
      using Cons.prems(2) by (simp add: algebra_simps)
    then have b: "limbs_val ds + 1 < limb_base ^ length ds" by (simp only: mult_less_cancel1)
    then obtain qs where "carry_do 1 ds = Inr qs" "length qs = length ds" "limbs_val qs = limbs_val ds + 1"
      using Cons.IH [of 1] by (cases ds) auto
    then show ?thesis using True e by (auto simp: algebra_simps)
  qed (use e in auto)
qed simp

lemma mul_hlp_ok:
  assumes "i \<le> length s" "i < length d" "limbs_val d + limbs_val (take i s) * unat b < limb_base ^ length d"
  shows "\<exists>q. shmpi_mul_hlp i s d b = Inr q \<and> length q = length d \<and> limbs_val q = limbs_val d + limbs_val (take i s) * unat b"
proof -
  obtain lo c where lo: "mul_loop b 0 (take i s) (take i d) = (lo, c)" by fastforce
  have "length (take i s) = length (take i d)" using assms by simp
  from mul_loop_val [OF this lo] have l: "length lo = i"
      "limbs_val lo + limb_base ^ i * unat c = limbs_val (take i s) * unat b + limbs_val (take i d)"
    using assms(2) by simp_all
  have sp: "limbs_val d = limbs_val (take i d) + limb_base ^ i * limbs_val (drop i d)" using assms(2) by (simp add: limbs_val_split)
  have tot: "limbs_val lo + limb_base ^ i * (limbs_val (drop i d) + unat c) = limbs_val d + limbs_val (take i s) * unat b"
    using l(2) sp by (simp add: algebra_simps)
  have "limb_base ^ length d = limb_base ^ i * limb_base ^ length (drop i d)" using assms(2) by (simp flip: power_add)
  then have "limb_base ^ i * (limbs_val (drop i d) + unat c) < limb_base ^ i * limb_base ^ length (drop i d)"
    using tot assms(3) by linarith
  then have "limbs_val (drop i d) + unat c < limb_base ^ length (drop i d)" by (simp only: mult_less_cancel1)
  then obtain hi where hi: "carry_do c (drop i d) = Inr hi" "length hi = length (drop i d)" "limbs_val hi = limbs_val (drop i d) + unat c"
    using carry_do_val [of "drop i d" c] assms(2) by auto
  have "shmpi_mul_hlp i s d b = Inr (lo @ hi)" using lo hi(1) assms(1,2) by (simp add: shmpi_mul_hlp_def)
  moreover have "limbs_val (lo @ hi) = limbs_val d + limbs_val (take i s) * unat b"
    using tot hi(3) by (simp add: limbs_val_append l(1))
  ultimately show ?thesis using l(1) hi(2) assms(2) by auto
qed

lemma limbs_val_drop_top: "j < length B \<Longrightarrow> limbs_val (drop j B) = unat (B ! j) + limb_base * limbs_val (drop (Suc j) B)"
  by (simp add: Cons_nth_drop_Suc [symmetric])

lemma mul_rows_ok:
  assumes "i \<le> length A" "limbs_val (take i A) = VA"
  shows "j \<le> length B \<Longrightarrow> i + length B \<le> length X \<Longrightarrow> limbs_val (take j X) = 0 \<Longrightarrow> limbs_val (drop j X) = VA * limbs_val (drop j B) \<Longrightarrow>
    \<exists>q. mul_rows i A B j X = Inr q \<and> length q = length X \<and> limbs_val q = VA * limbs_val B"
proof (induction j arbitrary: X)
  case (Suc j)
  let ?d = "drop j X"
  have jX: "j < length X" using Suc.prems by simp
  have len: "i < length ?d" using Suc.prems(1,2) by (simp add: less_diff_conv)
  have z: "limbs_val (take j X) = 0" "unat (X ! j) = 0"
    using Suc.prems(3) jX by (simp_all add: limbs_val_take_Suc)
  have d: "limbs_val ?d + VA * unat (B ! j) = VA * limbs_val (drop j B)"
    using Suc.prems(1,4) z(2) jX by (simp add: limbs_val_drop_top algebra_simps)
  have "VA * limbs_val (drop j B) < limb_base ^ i * limb_base ^ length (drop j B)"
    using limbs_val_lt [of "take i A"] limbs_val_lt [of "drop j B"] assms by (intro mult_strict_mono) auto
  also have "\<dots> \<le> limb_base ^ length ?d" using Suc.prems(1,2) unfolding power_add [symmetric] by (intro power_increasing) auto
  finally have "limbs_val ?d + limbs_val (take i A) * unat (B ! j) < limb_base ^ length ?d" using d assms(2) by simp
  then obtain q where q: "shmpi_mul_hlp i A ?d (B ! j) = Inr q" "length q = length ?d" "limbs_val q = VA * limbs_val (drop j B)"
    using mul_hlp_ok [of i A ?d "B ! j"] assms len d by auto
  have "\<exists>r. mul_rows i A B j (take j X @ q) = Inr r \<and> length r = length (take j X @ q) \<and> limbs_val r = VA * limbs_val B"
    using Suc.IH [of "take j X @ q"] Suc.prems(1,2) z(1) q(2,3) jX by simp
  then show ?case using q(1,2) jX by simp
qed simp

lemma mul_rows_take: "j \<le> n \<Longrightarrow> mul_rows i A (take n B) j X = mul_rows i A B j X"
  by (induction j arbitrary: X) (auto intro!: arg_cong [where f = "run_bind _"])

text \<open>The copy of an operand that is also the result.\<close>

lemma copy_if_same:
  assumes "libc_total c" "mpi_ok (h a)" "h l = shmpi_init" "x \<noteq> l" "a \<noteq> l"
  shows "\<exists>L. (if x = a then shmpi_copy c l a else mpi_ret 0) h = Inr (0, h(l := L)) \<and> (x \<noteq> a \<longrightarrow> L = shmpi_init) \<and>
    (x = a \<longrightarrow> limbs_val (mp_p L) = limbs_val (mp_p (h a)) \<and> mpi_ok L \<and> mpi_val L = mpi_val (h a))"
proof (cases "x = a")
  case True
  then show ?thesis using copy_ex [of c h a l] assms by auto
next
  case False
  then show ?thesis using assms(3) by (intro exI [of _ shmpi_init]) auto
qed

lemma used_eq: "limbs_val p = limbs_val q \<Longrightarrow> used_limbs p = used_limbs q"
  using used_limbs_less [of p q] used_limbs_less [of q p] by (metis less_irrefl linorder_neqE_nat)

lemma mul_into_ok:
  assumes "libc_total c" "mpi_ok (h x)" "mpi_ok (h a)" "mpi_ok (h b)" "x \<noteq> a" "x \<noteq> b"
    and "used_limbs (mp_p (h a)) + used_limbs (mp_p (h b)) \<le> MPI_MAX_LIMBS"
  shows "\<exists>X. mul_into c x a b h = Inr (0, h(x := X)) \<and> mpi_ok X \<and> mpi_val X = mpi_val (h a) * mpi_val (h b) \<and>
         length (mp_p X) = max 1 (max (length (mp_p (h x))) (used_limbs (mp_p (h a)) + used_limbs (mp_p (h b))))"
proof -
  let ?A = "mp_p (h a)" and ?B = "mp_p (h b)"
  define i where "i = used_limbs ?A"
  define j where "j = used_limbs ?B"
  have m: "i + j \<le> MPI_MAX_LIMBS" using assms(7) by (simp add: i_def j_def)
  define P where "P = mp_p (h x) @ replicate (i + j - length (mp_p (h x))) 0"
  let ?h3 = "h(x := (h x)\<lparr>mp_p := P\<rparr>)"
  have g: "mpi_on x (shmpi_grow c (i + j)) h = Inr (0, ?h3)"
    using grow_ok [OF assms(1) m, of "h x"] by (simp add: mpi_on_def P_def)
  have "mpi_ok (?h3 x)" using assms(2) m by (auto simp: mpi_ok_def P_def)
  then obtain X1 where X1: "shmpi_lset c x 0 ?h3 = Inr (0, ?h3(x := X1))" "length (mp_p X1) = max 1 (length (mp_p (?h3 x)))" "limbs_val (mp_p X1) = 0" "mpi_ok X1"
    using lset_zero [where h = ?h3 and x = x, OF assms(1)] by blast
  have jB: "j \<le> length ?B" "i \<le> length ?A" by (simp_all add: i_def j_def used_limbs_le)
  have "length P \<ge> i + j" by (simp add: P_def)
  then have jX: "i + j \<le> length (mp_p X1)" using X1(2) by simp
  then have z: "limbs_val (take j (mp_p X1)) = 0 \<and> limbs_val (drop j (mp_p X1)) = 0"
    using limbs_val_split [of j "mp_p X1"] X1(3) by simp
  have "\<exists>q. mul_rows i ?A (take j ?B) j (mp_p X1) = Inr q \<and> length q = length (mp_p X1) \<and> limbs_val q = limbs_val (take i ?A) * limbs_val (take j ?B)"
    using jB jX z by (intro mul_rows_ok) simp_all
  then obtain q where q: "mul_rows i ?A ?B j (mp_p X1) = Inr q" "length q = length (mp_p X1)" "limbs_val q = limbs_val ?A * limbs_val ?B"
    using mul_rows_take [of j j i ?A ?B] limbs_val_used [of ?A] limbs_val_used [of ?B] by (auto simp: i_def j_def)
  let ?X = "\<lparr>mp_s = mp_s (h a) * mp_s (h b), mp_p = q\<rparr>"
  have "mul_into c x a b h = Inr (0, h(x := ?X))"
    using g X1(1) q(1) assms(5,6) by (simp add: mul_into_def Let_def mpi_chk_def flip: i_def j_def)
  moreover have "mpi_val ?X = mpi_val (h a) * mpi_val (h b)" using q(3) by (simp add: mpi_val_def algebra_simps)
  moreover have "mpi_ok ?X" using assms(3,4) q(2) X1(4) by (auto simp: mpi_ok_def)
  moreover have "length (mp_p ?X) = max 1 (max (length (mp_p (h x))) (i + j))" using q(2) X1(2) by (simp add: P_def)
  ultimately show ?thesis by (intro exI [of _ ?X]) (simp add: i_def j_def)
qed

lemma mul_mpi_ex:
  assumes "libc_total c" "blank_locals 1 h" "mpi_ok (h x)" "mpi_ok (h a)" "mpi_ok (h b)" "outer_var 1 x" "outer_var 1 a" "outer_var 1 b"
    and "used_limbs (mp_p (h a)) + used_limbs (mp_p (h b)) \<le> MPI_MAX_LIMBS"
  shows "\<exists>X. shmpi_mul_mpi c x a b h = Inr (0, h(x := X)) \<and> mpi_ok X \<and> mpi_val X = mpi_val (h a) * mpi_val (h b) \<and>
         length (mp_p X) = max 1 (max (length (mp_p (h x))) (used_limbs (mp_p (h a)) + used_limbs (mp_p (h b))))"
proof -
  let ?TA = "Loc 0 1" and ?TB = "Loc 0 2"
  let ?a = "if x = a then ?TA else a" and ?b = "if x = b then ?TB else b"
  have l: "h ?TA = shmpi_init" "h ?TB = shmpi_init" using assms(2) by (simp_all add: blank_local)
  have ne: "x \<noteq> ?TA" "x \<noteq> ?TB" "a \<noteq> ?TA" "a \<noteq> ?TB" "b \<noteq> ?TA" "b \<noteq> ?TB" using assms(6-8) by auto
  have h0: "h(?TA := shmpi_init, ?TB := shmpi_init) = h" using l by auto
  obtain A where A: "(if x = a then shmpi_copy c ?TA a else mpi_ret 0) h = Inr (0, h(?TA := A))"
      "x = a \<longrightarrow> limbs_val (mp_p A) = limbs_val (mp_p (h a)) \<and> mpi_ok A \<and> mpi_val A = mpi_val (h a)"
    using copy_if_same [of c h a ?TA x] assms(1,4) l ne by blast
  let ?h1 = "h(?TA := A)"
  have "?h1 b = h b" "?h1 ?TB = shmpi_init" using ne l by auto
  then obtain B where B: "(if x = b then shmpi_copy c ?TB b else mpi_ret 0) ?h1 = Inr (0, ?h1(?TB := B))"
      "x = b \<longrightarrow> limbs_val (mp_p B) = limbs_val (mp_p (h b)) \<and> mpi_ok B \<and> mpi_val B = mpi_val (h b)"
    using copy_if_same [of c ?h1 b ?TB x] assms(1,5) ne by metis
  let ?h2 = "?h1(?TB := B)"
  have va: "limbs_val (mp_p (?h2 ?a)) = limbs_val (mp_p (h a))" "mpi_val (?h2 ?a) = mpi_val (h a)" "mpi_ok (?h2 ?a)" using A(2) ne assms(4) by auto
  have vb: "limbs_val (mp_p (?h2 ?b)) = limbs_val (mp_p (h b))" "mpi_val (?h2 ?b) = mpi_val (h b)" "mpi_ok (?h2 ?b)" using B(2) ne assms(5) by auto
  have hx: "?h2 x = h x" "x \<noteq> ?a" "x \<noteq> ?b" using ne by auto
  note u = used_eq [OF va(1)] used_eq [OF vb(1)]
  obtain X where X: "mul_into c x ?a ?b ?h2 = Inr (0, ?h2(x := X))" "mpi_ok X" "mpi_val X = mpi_val (?h2 ?a) * mpi_val (?h2 ?b)"
      "length (mp_p X) = max 1 (max (length (mp_p (?h2 x))) (used_limbs (mp_p (?h2 ?a)) + used_limbs (mp_p (?h2 ?b))))"
    using mul_into_ok [of c ?h2 x ?a ?b] assms(1,3,9) va(3) vb(3) hx unfolding u by metis
  have "shmpi_mul_mpi c x a b h = Inr (0, (?h2(x := X))(?TB := shmpi_init, ?TA := shmpi_init))"
    unfolding shmpi_mul_mpi_def Let_def h0 using A(1) B(1) X(1) by simp
  also have "(?h2(x := X))(?TB := shmpi_init, ?TA := shmpi_init) = h(x := X)" using ne l by (auto simp: fun_eq_iff)
  finally show ?thesis using X(2-4) unfolding u va(2) vb(2) hx(1) by blast
qed

section \<open>Operands on the stack\<close>

lemma with_local_ok:
  assumes "h l = shmpi_init" "x \<noteq> l" "m (h(l := Y)) = Inr (r, h(l := Y, x := X))"
  shows "with_local l (Inr Y) m h = Inr (r, h(x := X))"
  using assms by (auto simp: with_local_def mpi_cleanup_def fun_eq_iff)

lemma blank_locals_local: "blank_locals (Suc k) h \<Longrightarrow> blank_locals k (h(Loc k n := Y))"
  by (auto simp: blank_locals_mono)

lemma mpi_arg_upd [simp]: "x \<noteq> y \<Longrightarrow> mpi_arg k (h(y := Y)) x = mpi_arg k h x"
  by (simp add: mpi_arg_def)

lemma mpi_arg_mono: "mpi_arg k h x \<Longrightarrow> j \<le> k \<Longrightarrow> mpi_arg j h x"
  by (auto simp: mpi_arg_def outer_var_mono)

lemma int_mpi_arg:
  assumes "- (2 ^ 63) < b" "b < 2 ^ 63"
  obtains Y where "int_mpi b = Inr Y" "mpi_ok Y" "mpi_val Y = b" "length (mp_p Y) = 1" "used_limbs (mp_p Y) \<le> 1"
proof -
  obtain l where l: "sint_limb b = Inr l" "int (unat l) = \<bar>b\<bar>" using sint_limb_ok [OF assms] by blast
  let ?Y = "\<lparr>mp_s = sint_sign b, mp_p = [l]\<rparr>"
  have "mpi_val ?Y = b" using l(2) by (auto simp: mpi_val_def sint_sign_def)
  moreover have "mpi_ok ?Y" by (auto simp: mpi_ok_def sint_sign_def MPI_MAX_LIMBS_def)
  ultimately show ?thesis using l(1) used_limbs_le [of "[l]"] by (intro that [of ?Y]) (simp_all add: int_mpi_def)
qed

text \<open>A call with the number of an \<open>int\<close> on the stack does what the call with a variable of that value does.\<close>

lemma with_int_ex:
  assumes "blank_locals 2 h" "outer_var 2 x" "- (2 ^ 63) < b" "b < 2 ^ 63"
    and m: "\<And>Y h'. h' = h(Loc 1 0 := Y) \<Longrightarrow> mpi_ok Y \<Longrightarrow> mpi_val Y = b \<Longrightarrow> length (mp_p Y) = 1 \<Longrightarrow>
      \<exists>X. m h' = Inr (0, h'(x := X)) \<and> P X"
  shows "\<exists>X. with_local (Loc 1 0) (int_mpi b) m h = Inr (0, h(x := X)) \<and> P X"
proof -
  obtain Y where Y: "int_mpi b = Inr Y" "mpi_ok Y" "mpi_val Y = b" "length (mp_p Y) = 1" using int_mpi_arg [OF assms(3,4)] by metis
  obtain X where "m (h(Loc 1 0 := Y)) = Inr (0, (h(Loc 1 0 := Y))(x := X))" "P X" using m [OF refl Y(2-4)] by blast
  moreover have "h (Loc 1 0) = shmpi_init" "x \<noteq> Loc 1 0" using assms(1,2) by (auto simp: blank_local)
  ultimately show ?thesis unfolding Y(1) using with_local_ok by blast
qed

lemma int_operand:
  assumes "blank_locals 2 h" "mpi_arg 2 h x" "mpi_arg 2 h a" "h' = h(Loc 1 0 := Y)" "mpi_ok Y" "length (mp_p Y) = 1"
  shows "blank_locals 1 h'" "mpi_arg 1 h' x" "mpi_arg 1 h' a" "mpi_arg 1 h' (Loc 1 0)" "h' a = h a" "h' (Loc 1 0) = Y" "\<not> (x = a \<and> x = Loc 1 0)"
  using assms blank_locals_local [of 1 h 0 Y] mpi_arg_mono [of 2 h x 1] mpi_arg_mono [of 2 h a 1]
  by (auto simp: mpi_arg_def MPI_MAX_LIMBS_def numeral_2_eq_2)

lemma add_int_ex:
  assumes "libc_total c" "blank_locals 2 h" "mpi_arg 2 h x" "mpi_arg 2 h a" "- (2 ^ 63) < b" "b < 2 ^ 63"
  shows "\<exists>X. shmpi_add_int c x a b h = Inr (0, h(x := X)) \<and> mpi_ok X \<and> mpi_val X = mpi_val (h a) + b"
  unfolding shmpi_add_int_def
proof (rule with_int_ex [OF assms(2) _ assms(5,6)])
  fix Y h' assume Y: "h' = h(Loc 1 0 := Y)" "mpi_ok Y" "mpi_val Y = b" "length (mp_p Y) = 1"
  note o = int_operand [OF assms(2-4) Y(1,2,4)]
  show "\<exists>X. shmpi_add_mpi c x a (Loc 1 0) h' = Inr (0, h'(x := X)) \<and> mpi_ok X \<and> mpi_val X = mpi_val (h a) + b"
    using add_mpi_ex [OF assms(1) o(1-4,7)] unfolding o(5,6) Y(3) by blast
qed (use assms(3) in \<open>simp add: mpi_arg_def\<close>)

lemma sub_int_ex:
  assumes "libc_total c" "blank_locals 2 h" "mpi_arg 2 h x" "mpi_arg 2 h a" "- (2 ^ 63) < b" "b < 2 ^ 63"
  shows "\<exists>X. shmpi_sub_int c x a b h = Inr (0, h(x := X)) \<and> mpi_ok X \<and> mpi_val X = mpi_val (h a) - b"
  unfolding shmpi_sub_int_def
proof (rule with_int_ex [OF assms(2) _ assms(5,6)])
  fix Y h' assume Y: "h' = h(Loc 1 0 := Y)" "mpi_ok Y" "mpi_val Y = b" "length (mp_p Y) = 1"
  note o = int_operand [OF assms(2-4) Y(1,2,4)]
  show "\<exists>X. shmpi_sub_mpi c x a (Loc 1 0) h' = Inr (0, h'(x := X)) \<and> mpi_ok X \<and> mpi_val X = mpi_val (h a) - b"
    using sub_mpi_ex [OF assms(1) o(1-4)] unfolding o(5,6) Y(3) by blast
qed (use assms(3) in \<open>simp add: mpi_arg_def\<close>)

text \<open>The product takes its \<open>int\<close> for a limb: a negative one is 2 to the 64 more.\<close>

lemma mul_int_ex:
  assumes "libc_total c" "blank_locals 2 h" "mpi_ok (h x)" "mpi_ok (h a)" "outer_var 2 x" "outer_var 2 a" "used_limbs (mp_p (h a)) < MPI_MAX_LIMBS"
  shows "\<exists>X. shmpi_mul_int c x a b h = Inr (0, h(x := X)) \<and> mpi_ok X \<and> mpi_val X = mpi_val (h a) * int (unat (word_of_int b :: u64)) \<and>
         length (mp_p X) \<le> max 1 (max (length (mp_p (h x))) (Suc (used_limbs (mp_p (h a))))) \<and> length (mp_p (h x)) \<le> length (mp_p X)"
proof -
  let ?Y = "\<lparr>mp_s = 1, mp_p = [word_of_int b :: u64]\<rparr>" and ?l = "Loc 1 0"
  let ?h = "h(?l := ?Y)"
  have ne: "x \<noteq> ?l" "a \<noteq> ?l" using assms(5,6) by auto
  have u: "used_limbs [word_of_int b :: u64] \<le> 1" using used_limbs_le [of "[word_of_int b :: u64]"] by simp
  have Y: "mpi_ok ?Y" "mpi_val ?Y = int (unat (word_of_int b :: u64))" by (auto simp: mpi_ok_def MPI_MAX_LIMBS_def mpi_val_def)
  have pre: "blank_locals 1 ?h" "mpi_ok (?h x)" "mpi_ok (?h a)" "mpi_ok (?h ?l)" "outer_var 1 x" "outer_var 1 a" "outer_var 1 ?l"
      "used_limbs (mp_p (?h a)) + used_limbs (mp_p (?h ?l)) \<le> MPI_MAX_LIMBS"
    using assms ne u Y(1) blank_locals_local [of 1 h 0 ?Y] outer_var_mono [of 2 _ 1] by (auto simp: numeral_2_eq_2)
  obtain X where X: "shmpi_mul_mpi c x a ?l ?h = Inr (0, ?h(x := X))" "mpi_ok X" "mpi_val X = mpi_val (?h a) * mpi_val (?h ?l)"
      "length (mp_p X) = max 1 (max (length (mp_p (?h x))) (used_limbs (mp_p (?h a)) + used_limbs (mp_p (?h ?l))))"
    using mul_mpi_ex [where h = ?h and x = x and a = a and b = ?l, OF assms(1) pre] by blast
  have "shmpi_mul_int c x a b h = Inr (0, h(x := X))"
    unfolding shmpi_mul_int_def using assms(2) ne(1) X(1) by (intro with_local_ok) (simp_all add: blank_local)
  then show ?thesis using X(2-4) Y(2) ne u by (intro exI [of _ X]) auto
qed

end
