(* ===== verification/Share_Mpi_Div.thy ===== *)
theory Share_Mpi_Div
  imports Share_Mpi_Mul
begin

text \<open>
  Division of multi-precision integers (HAC 14.20) and the remainders: the loops, the estimate of a digit of the
  quotient with its correction, and the functions.
\<close>

section \<open>Loops and limbs\<close>

text \<open>\<open>while\<close>: it may run forever, and the value is then \<open>None\<close>.\<close>

partial_function (option) mpi_loop :: "(mpis \<Rightarrow> fault + bool) \<Rightarrow> mop \<Rightarrow> mpis \<Rightarrow> (fault + (int \<times> mpis)) option" where
  [code]: "mpi_loop b m h =
     (case b h of Inl e \<Rightarrow> Some (Inl e)
      | Inr go \<Rightarrow> if \<not> go then Some (Inr (0, h))
        else case m h of Inl e \<Rightarrow> Some (Inl e) | Inr (ret, h') \<Rightarrow> if ret \<noteq> 0 then Some (Inr (ret, h')) else mpi_loop b m h')"

definition mpi_while :: "(mpis \<Rightarrow> fault + bool) \<Rightarrow> mop \<Rightarrow> mop" where
  "mpi_while b m h = (case mpi_loop b m h of None \<Rightarrow> Inl Diverge | Some r \<Rightarrow> r)"

fun mpi_seq :: "mop list \<Rightarrow> mop" where
  "mpi_seq [] = mpi_ret 0"
| "mpi_seq (m # ms) = mpi_chk m (mpi_seq ms)"

definition mpi_opt :: "mvar option \<Rightarrow> (mvar \<Rightarrow> mop) \<Rightarrow> mop" where
  "mpi_opt v f = (case v of None \<Rightarrow> mpi_ret 0 | Some x \<Rightarrow> f x)"

definition limb_get :: "mvar \<Rightarrow> nat \<Rightarrow> (u64 \<Rightarrow> mop) \<Rightarrow> mop" where
  "limb_get x i k h = (if i < length (mp_p (h x)) then k (mp_p (h x) ! i) h else Inl OutOfBounds)"

definition limb_upd :: "mvar \<Rightarrow> nat \<Rightarrow> (u64 \<Rightarrow> u64) \<Rightarrow> mop" where
  "limb_upd x i f h =
     (if i < length (mp_p (h x)) then Inr (0, h(x := (h x)\<lparr>mp_p := (mp_p (h x))[i := f (mp_p (h x) ! i)]\<rparr>)) else Inl OutOfBounds)"

abbreviation limb_put :: "mvar \<Rightarrow> nat \<Rightarrow> u64 \<Rightarrow> mop" where
  "limb_put x i v \<equiv> limb_upd x i (\<lambda>_. v)"

section \<open>Division\<close>

abbreviation "DX \<equiv> Loc 2 0"
abbreviation "DY \<equiv> Loc 2 2"
abbreviation "DZ \<equiv> Loc 2 3"
abbreviation "DT1 \<equiv> Loc 2 4"
abbreviation "DT2 \<equiv> Loc 2 5"

text \<open>The quotient of two limbs by one, in 128 bits, cut to a limb.\<close>

definition udbl_quot :: "u64 \<Rightarrow> u64 \<Rightarrow> u64 \<Rightarrow> u64" where
  "udbl_quot x1 x0 y =
     (let r = ((push_bit 64 (ucast x1) OR ucast x0) :: 128 word) div ucast y; m = push_bit 64 1 - 1
      in ucast (if m < r then m else r))"

definition div_guess :: "nat \<Rightarrow> nat \<Rightarrow> mop" where
  "div_guess t i =
     limb_get DX i (\<lambda>x1. limb_get DY t (\<lambda>y.
       if y \<le> x1 then limb_put DZ (i - t - 1) (- 1)
       else limb_get DX (i - 1) (\<lambda>x0. limb_put DZ (i - t - 1) (udbl_quot x1 x0 y))))"

text \<open>The body of the loop that corrects the digit: the two highest limbs of the divisor by the digit, and the three
  highest limbs of what is left.\<close>

definition div_lhs :: "libc \<Rightarrow> nat \<Rightarrow> nat \<Rightarrow> mop" where
  "div_lhs c t i = mpi_seq [
     shmpi_lset c DT1 0,
     if t < 1 then limb_put DT1 0 0 else limb_get DY (t - 1) (limb_put DT1 0),
     limb_get DY t (limb_put DT1 1),
     limb_get DZ (i - t - 1) (\<lambda>z. shmpi_mul_int c DT1 DT1 (sint z))]"

definition div_rhs :: "libc \<Rightarrow> nat \<Rightarrow> mop" where
  "div_rhs c i = mpi_seq [
     shmpi_lset c DT2 0,
     if i < 2 then limb_put DT2 0 0 else limb_get DX (i - 2) (limb_put DT2 0),
     if i < 1 then limb_put DT2 1 0 else limb_get DX (i - 1) (limb_put DT2 1),
     limb_get DX i (limb_put DT2 2)]"

definition div_trial :: "libc \<Rightarrow> nat \<Rightarrow> nat \<Rightarrow> mop" where
  "div_trial c t i = mpi_seq [limb_upd DZ (i - t - 1) (\<lambda>z. z - 1), div_lhs c t i, div_rhs c i]"

definition div_add_back :: "libc \<Rightarrow> nat \<Rightarrow> nat \<Rightarrow> mop" where
  "div_add_back c t i h =
     run_bind (shmpi_cmp_int (h DX) 0) (\<lambda>s.
       if s < 0
       then mpi_seq [shmpi_copy c DT1 DY, shmpi_shift_l c DT1 (64 * (i - t - 1)), shmpi_add_mpi c DX DX DT1,
              limb_upd DZ (i - t - 1) (\<lambda>z. z - 1)] h
       else mpi_ret 0 h)"

definition div_apply :: "libc \<Rightarrow> nat \<Rightarrow> nat \<Rightarrow> mop" where
  "div_apply c t i = mpi_seq [
     limb_get DZ (i - t - 1) (\<lambda>z. shmpi_mul_int c DT1 DY (sint z)),
     shmpi_shift_l c DT1 (64 * (i - t - 1)),
     shmpi_sub_mpi c DX DX DT1,
     div_add_back c t i]"

definition div_digit :: "libc \<Rightarrow> nat \<Rightarrow> nat \<Rightarrow> mop" where
  "div_digit c t i = mpi_seq [
     div_guess t i,
     limb_upd DZ (i - t - 1) (\<lambda>z. z + 1),
     div_trial c t i,
     mpi_while (\<lambda>h. Inr (0 < shmpi_cmp_mpi (h DT1) (h DT2))) (div_trial c t i),
     div_apply c t i]"

text \<open>The loop \<open>for (i = n; i > t; i--)\<close>; the argument is \<open>i - t\<close>.\<close>

fun div_digits :: "libc \<Rightarrow> nat \<Rightarrow> nat \<Rightarrow> mop" where
  "div_digits c t 0 = mpi_ret 0"
| "div_digits c t (Suc d) = mpi_chk (div_digit c t (t + Suc d)) (div_digits c t d)"

definition div_first :: "libc \<Rightarrow> nat \<Rightarrow> mop" where
  "div_first c d = mpi_while (\<lambda>h. Inr (0 \<le> shmpi_cmp_mpi (h DX) (h DY)))
     (mpi_seq [limb_upd DZ d (\<lambda>z. z + 1), shmpi_sub_mpi c DX DX DY])"

definition div_init :: "libc \<Rightarrow> mvar \<Rightarrow> mvar \<Rightarrow> mop" where
  "div_init c a b = mpi_seq [
     shmpi_copy c DX a, shmpi_copy c DY b, set_sign DX 1, set_sign DY 1,
     (\<lambda>h. mpi_on DZ (shmpi_grow c (length (mp_p (h a)) + 2)) h), shmpi_lset c DZ 0,
     mpi_on DT1 (shmpi_grow c 2), mpi_on DT2 (shmpi_grow c 3)]"

definition div_norm :: "libc \<Rightarrow> nat \<Rightarrow> mop" where
  "div_norm c k = (if 0 < k then mpi_seq [shmpi_shift_l c DX k, shmpi_shift_l c DY k] else mpi_ret 0)"

definition div_core :: "libc \<Rightarrow> mop" where
  "div_core c h =
     (let n = length (mp_p (h DX)) - 1; t = length (mp_p (h DY)) - 1 in
      if n < t then Inl IntOverflow
      else mpi_seq [shmpi_shift_l c DY (64 * (n - t)), div_first c (n - t), shmpi_shift_r c DY (64 * (n - t)), div_digits c t (n - t)] h)"

definition div_out :: "libc \<Rightarrow> nat \<Rightarrow> mvar option \<Rightarrow> mvar option \<Rightarrow> mvar \<Rightarrow> mvar \<Rightarrow> mop" where
  "div_out c k q r a b = mpi_seq [
     mpi_opt q (\<lambda>q. mpi_seq [shmpi_copy c q DZ, (\<lambda>h. set_sign q (mp_s (h a) * mp_s (h b)) h)]),
     mpi_opt r (\<lambda>r. mpi_seq [shmpi_shift_r c DX k, (\<lambda>h. set_sign DX (mp_s (h a)) h), shmpi_copy c r DX,
       (\<lambda>h. run_bind (shmpi_cmp_int (h r) 0) (\<lambda>s. if s = 0 then set_sign r 1 h else mpi_ret 0 h))])]"

text \<open>The shift that brings the divisor to 63 bits in its highest limb.\<close>

definition norm_shift :: "shmpi \<Rightarrow> nat" where
  "norm_shift Y = (let k = shmpi_msb Y mod 64 in if k < 63 then 63 - k else 0)"

definition div_blank :: "mpis \<Rightarrow> mpis" where
  "div_blank h = h(DX := shmpi_init, DY := shmpi_init, DZ := shmpi_init, DT1 := shmpi_init, DT2 := shmpi_init)"

definition shmpi_div_mpi :: "libc \<Rightarrow> mvar option \<Rightarrow> mvar option \<Rightarrow> mvar \<Rightarrow> mvar \<Rightarrow> mop" where
  "shmpi_div_mpi c q r a b h =
     run_bind (shmpi_cmp_int (h b) 0) (\<lambda>z.
       if z = 0 then mpi_ret ERR_DIVISION_BY_ZERO h
       else mpi_cleanup
         (\<lambda>h0. if shmpi_cmp_abs (h0 a) (h0 b) < 0
           then mpi_seq [mpi_opt q (\<lambda>q. shmpi_lset c q 0), mpi_opt r (\<lambda>r. shmpi_copy c r a)] h0
           else mpi_chk (div_init c a b) (\<lambda>h1. let k = norm_shift (h1 DY) in
             mpi_seq [div_norm c k, div_core c, div_out c k q r a b] h1) h0)
         div_blank (div_blank h))"

definition shmpi_div_int :: "libc \<Rightarrow> mvar option \<Rightarrow> mvar option \<Rightarrow> mvar \<Rightarrow> int \<Rightarrow> mop" where
  "shmpi_div_int c q r a b = with_local (Loc 3 0) (int_mpi b) (shmpi_div_mpi c q r a (Loc 3 0))"

section \<open>Remainders\<close>

definition shmpi_mod_mpi :: "libc \<Rightarrow> mvar \<Rightarrow> mvar \<Rightarrow> mvar \<Rightarrow> mop" where
  "shmpi_mod_mpi c r a b h =
     run_bind (shmpi_cmp_int (h b) 0) (\<lambda>s.
       if s < 0 then mpi_ret ERR_NEGATIVE_VALUE h
       else mpi_seq [
         shmpi_div_mpi c None (Some r) a b,
         mpi_while (\<lambda>h. run_bind (shmpi_cmp_int (h r) 0) (\<lambda>s. Inr (s < 0))) (shmpi_add_mpi c r r b),
         mpi_while (\<lambda>h. Inr (0 \<le> shmpi_cmp_mpi (h r) (h b))) (shmpi_sub_mpi c r r b)] h)"

text \<open>One limb of the loop of \<open>shmpi_mod_int\<close>, by half limbs.\<close>

definition mod_half :: "u64 \<Rightarrow> u64 \<Rightarrow> u64 \<Rightarrow> u64" where
  "mod_half b y x = (let y = push_bit 32 y OR drop_bit 32 x; z = y div b in y - z * b)"

definition mod_limb :: "u64 \<Rightarrow> u64 \<Rightarrow> u64 \<Rightarrow> u64" where
  "mod_limb b y x = mod_half b (mod_half b y x) (push_bit 32 x)"

text \<open>The error code, and the remainder where there is one.\<close>

definition shmpi_mod_int :: "shmpi \<Rightarrow> int \<Rightarrow> fault + (int \<times> u64 option)" where
  "shmpi_mod_int A b =
     (if b = 0 then Inr (ERR_DIVISION_BY_ZERO, None)
      else if b < 0 then Inr (ERR_NEGATIVE_VALUE, None)
      else if b = 1 then Inr (0, Some 0)
      else if b = 2 then (if mp_p A = [] then Inl NullDeref else Inr (0, Some (mp_p A ! 0 AND 1)))
      else let bw = word_of_int b; y = foldl (mod_limb bw) 0 (rev (mp_p A))
        in Inr (0, Some (if mp_s A < 0 \<and> y \<noteq> 0 then bw - y else y)))"


section \<open>Loops\<close>

lemma mpi_while_unfold: "mpi_while b m h = run_bind (b h) (\<lambda>go. if go then mpi_chk m (mpi_while b m) h else Inr (0, h))"
  by (subst mpi_while_def, subst mpi_loop.simps)
    (auto simp: mpi_while_def mpi_chk_def run_bind_def split: sum.splits prod.splits)

lemma mpi_chk_ret [simp]: "mpi_chk m (mpi_ret 0) = m"
  by (rule ext) (auto simp: mpi_chk_def run_bind_def split: sum.splits)

text \<open>Two stores that differ only in the variables of a set.\<close>

definition frame :: "mvar set \<Rightarrow> mpis \<Rightarrow> mpis \<Rightarrow> bool" where
  "frame V h h' \<longleftrightarrow> (\<forall>v. v \<notin> V \<longrightarrow> h' v = h v)"

lemma frameD: "frame V h h' \<Longrightarrow> v \<notin> V \<Longrightarrow> h' v = h v"
  by (simp add: frame_def)

lemma frame_refl [simp]: "frame V h h"
  by (simp add: frame_def)

lemma frame_trans: "frame V h h' \<Longrightarrow> frame V h' h'' \<Longrightarrow> frame V h h''"
  by (simp add: frame_def)

lemma frame_mono: "frame V h h' \<Longrightarrow> V \<subseteq> W \<Longrightarrow> frame W h h'"
  by (auto simp: frame_def)

lemma frame_upd [simp]: "x \<in> V \<Longrightarrow> frame V h (h'(x := X)) = frame V h h'"
  by (auto simp: frame_def)

lemma frame_blank: "frame V h h' \<Longrightarrow> (\<And>v. v \<in> V \<Longrightarrow> outer_var k v) \<Longrightarrow> blank_locals k h \<Longrightarrow> blank_locals k h'"
  unfolding frame_def blank_locals_def by metis

section \<open>Limbs\<close>

lemma limbs_val_upd: "i < length p \<Longrightarrow> limbs_val (p[i := v]) + limb_base ^ i * unat (p ! i) = limbs_val p + limb_base ^ i * unat v"
proof (induction p arbitrary: i)
  case (Cons x xs)
  show ?case
  proof (cases i)
    case (Suc j)
    have "limb_base * (limbs_val (xs[j := v]) + limb_base ^ j * unat (xs ! j)) = limb_base * (limbs_val xs + limb_base ^ j * unat v)"
      using Cons.IH [of j] Cons.prems Suc by simp
    then show ?thesis using Suc by (simp add: algebra_simps)
  qed simp
qed simp

lemma limbs_val_0: "limbs_val p = 0 \<Longrightarrow> i < length p \<Longrightarrow> p ! i = 0"
proof (induction p arbitrary: i)
  case (Cons x xs)
  then show ?case by (cases i) (auto simp: unat_eq_0)
qed simp

lemma limb_bound:
  assumes "i < length p"
  shows "limb_base ^ i * unat (p ! i) \<le> limbs_val p"
  using limbs_val_upd [OF assms, of 0] by simp

lemma limb_above: "limbs_val p < limb_base ^ k \<Longrightarrow> k \<le> i \<Longrightarrow> i < length p \<Longrightarrow> p ! i = 0"
proof (rule ccontr)
  assume a: "limbs_val p < limb_base ^ k" "k \<le> i" "i < length p" "p ! i \<noteq> 0"
  have "limb_base ^ k \<le> limb_base ^ i" using a(2) by (intro power_increasing) simp_all
  also have "\<dots> \<le> limb_base ^ i * unat (p ! i)" using a(4) by (simp add: unat_gt_0 Suc_le_eq)
  also have "\<dots> \<le> limbs_val p" using a(3) by (rule limb_bound)
  finally show False using a(1) by simp
qed

lemma limbs_top:
  assumes "limbs_val p < limb_base ^ Suc k" "k < length p"
  shows "limbs_val p = unat (p ! k) * limb_base ^ k + limbs_val (take k p)" "limbs_val (take k p) < limb_base ^ k"
proof -
  have "used_limbs p \<le> Suc k" using assms(1) by (simp only: used_limbs_le_iff)
  then have "limbs_val (take (Suc k) p) = limbs_val p" by (rule limbs_val_take_used)
  then show "limbs_val p = unat (p ! k) * limb_base ^ k + limbs_val (take k p)"
    using limbs_val_take_Suc [OF assms(2)] by (simp add: mult.commute)
  show "limbs_val (take k p) < limb_base ^ k" using limbs_val_lt [of "take k p"] assms(2) by simp
qed

lemma limbs_top2:
  assumes "limbs_val p < limb_base ^ Suc (Suc k)" "Suc k < length p"
  shows "limbs_val p = (unat (p ! Suc k) * limb_base + unat (p ! k)) * limb_base ^ k + limbs_val (take k p)" "limbs_val (take k p) < limb_base ^ k"
  using limbs_top(1) [OF assms] limbs_val_take_Suc [of k p] limbs_val_lt [of "take k p"] assms(2) by (simp_all add: algebra_simps)

lemma limbs_top3:
  assumes "limbs_val p < limb_base ^ Suc (Suc (Suc k))" "Suc (Suc k) < length p"
  shows "limbs_val p = (unat (p ! Suc (Suc k)) * limb_base ^ 2 + unat (p ! Suc k) * limb_base + unat (p ! k)) * limb_base ^ k + limbs_val (take k p)"
    "limbs_val (take k p) < limb_base ^ k"
  using limbs_top(1) [OF assms] limbs_val_take_Suc [of "Suc k" p] limbs_val_take_Suc [of k p] limbs_val_lt [of "take k p"] assms(2)
  by (simp_all add: algebra_simps power2_eq_square)

section \<open>The digit\<close>

text \<open>A digit of the quotient is at most what the highest limbs allow, and what they allow is at most one more.\<close>

lemma digit_upper:
  fixes q u v P :: nat
  assumes "q * (u * P + l) \<le> v * P + r" "r < P"
  shows "q * u \<le> v"
proof -
  have "q * u * P \<le> q * (u * P + l)" by (simp add: algebra_simps)
  also have "\<dots> < Suc v * P" using assms by simp
  finally have "q * u < Suc v" by (rule mult_right_less_imp_less) simp
  then show ?thesis by simp
qed

lemma digit_lower:
  fixes z u v P D :: nat
  assumes "z * u \<le> v" "z * l < D" "D = u * P + l" "x = v * P + r"
  shows "z * D < x + D"
proof -
  have "z * D = z * u * P + z * l" using assms(3) by (simp add: algebra_simps)
  also have "\<dots> \<le> v * P + z * l" using assms(1) by simp
  also have "\<dots> < x + D" using assms(2,4) by simp
  finally show ?thesis .
qed

lemma udbl_quot_val:
  assumes "x1 < y"
  shows "unat (udbl_quot x1 x0 y) = (unat x1 * limb_base + unat x0) div unat y" "(unat x1 * limb_base + unat x0) div unat y < limb_base"
proof -
  have lt: "unat x1 < unat y" using assms by (simp add: word_less_nat_alt)
  have q: "(unat x1 * limb_base + unat x0) div unat y < limb_base"
  proof (rule less_mult_imp_div_less)
    have "unat x1 * limb_base + unat x0 < Suc (unat x1) * limb_base" using limb_lt [of x0] by simp
    also have "\<dots> \<le> unat y * limb_base" using lt by (intro mult_le_mono1) simp
    finally show "unat x1 * limb_base + unat x0 < limb_base * unat y" by (simp add: mult.commute)
  qed
  show "(unat x1 * limb_base + unat x0) div unat y < limb_base" by (rule q)
  define n :: "128 word" where "n = push_bit 64 (ucast x1) OR ucast x0"
  have x: "unat (ucast x :: 128 word) = unat x" for x :: u64
    using limb_lt [of x] by (simp add: unsigned_ucast_eq take_bit_nat_eq_self limb_base_def)
  have p: "unat (push_bit 64 (ucast x1) :: 128 word) = unat x1 * limb_base"
  proof -
    have "unat (push_bit 64 (ucast x1) :: 128 word) = take_bit 128 (push_bit 64 (unat (ucast x1 :: 128 word)))"
      by (simp add: unsigned_push_bit_eq)
    also have "\<dots> = unat x1 * limb_base mod (limb_base * limb_base)"
      unfolding x by (simp only: take_bit_eq_mod push_bit_eq_mult limb_base_def flip: power_add) simp
    also have "\<dots> = unat x1 * limb_base" using limb_lt [of x1] by (intro mod_less) simp
    finally show ?thesis .
  qed
  have "unat n = unat (push_bit 64 (ucast x1) :: 128 word) + unat (ucast x0 :: 128 word)"
  proof -
    have "push_bit 64 (ucast x1) AND (ucast x0 :: 128 word) = 0"
      by (rule bit_word_eqI) (auto simp: bit_simps dest: bit_imp_le_length)
    then have "unat (push_bit 64 (ucast x1) :: 128 word) AND unat (ucast x0 :: 128 word) = 0" by (simp flip: unsigned_and_eq)
    then show ?thesis unfolding n_def by (simp add: unsigned_or_eq flip: disjunctive_add_eq_or)
  qed
  then have r: "unat (n div ucast y) = (unat x1 * limb_base + unat x0) div unat y" by (simp only: unat_div x p)
  have m: "unat (push_bit 64 1 - 1 :: 128 word) = limb_base - 1" by (simp add: limb_base_def)
  have "\<not> push_bit 64 1 - 1 < n div ucast y" unfolding word_less_nat_alt m r using q by simp
  then have "udbl_quot x1 x0 y = ucast (n div ucast y)" by (simp only: udbl_quot_def Let_def n_def if_False)
  moreover have "unat (ucast (n div ucast y) :: u64) = unat (n div ucast y) mod limb_base"
    by (simp add: unsigned_ucast_eq take_bit_eq_mod limb_base_def)
  ultimately show "unat (udbl_quot x1 x0 y) = (unat x1 * limb_base + unat x0) div unat y" using q by (simp only: r mod_less)
qed

text \<open>The situation at one digit: \<open>X\<close> is what is left, \<open>Y\<close> the divisor with its highest limb at \<open>t\<close>, and the digit is that
  of \<open>limb_base ^ (d - 1)\<close>.\<close>

definition digit_pre :: "u64 list \<Rightarrow> u64 list \<Rightarrow> nat \<Rightarrow> nat \<Rightarrow> bool" where
  "digit_pre X Y t d \<longleftrightarrow> t + Suc d < length X \<and> t < length Y \<and> limbs_val Y < limb_base ^ Suc t \<and> Y ! t \<noteq> 0 \<and>
     limbs_val X < limbs_val Y * limb_base ^ Suc d"

definition top2 :: "u64 list \<Rightarrow> nat \<Rightarrow> nat" where
  "top2 X i = unat (X ! i) * limb_base + unat (X ! (i - 1))"

definition top3 :: "u64 list \<Rightarrow> nat \<Rightarrow> nat" where
  "top3 X i = unat (X ! i) * limb_base ^ 2 + unat (X ! (i - 1)) * limb_base + (if i < 2 then 0 else unat (X ! (i - 2)))"

definition div2 :: "u64 list \<Rightarrow> nat \<Rightarrow> nat" where
  "div2 Y t = unat (Y ! t) * limb_base + (if t < 1 then 0 else unat (Y ! (t - 1)))"

lemma digit_X:
  assumes "digit_pre X Y t d"
  shows "limbs_val X < limb_base ^ Suc (t + Suc d)" "0 < limbs_val Y" "limbs_val X div (limbs_val Y * limb_base ^ d) < limb_base"
proof -
  have p: "limbs_val X < limbs_val Y * limb_base ^ Suc d" "limbs_val Y < limb_base ^ Suc t" using assms by (auto simp: digit_pre_def)
  note p(1)
  also have "limbs_val Y * limb_base ^ Suc d \<le> limb_base ^ Suc t * limb_base ^ Suc d" using p(2) by (intro mult_le_mono1) simp
  also have "\<dots> = limb_base ^ Suc (t + Suc d)" by (simp flip: power_add)
  finally show "limbs_val X < limb_base ^ Suc (t + Suc d)" .
  show "0 < limbs_val Y" using p(1) by (cases "limbs_val Y") auto
  show "limbs_val X div (limbs_val Y * limb_base ^ d) < limb_base" using p(1) by (intro less_mult_imp_div_less) (simp add: algebra_simps)
qed

lemma digit_top2:
  assumes "digit_pre X Y t d" "q * (limbs_val Y * limb_base ^ d) \<le> limbs_val X"
  shows "q * unat (Y ! t) \<le> top2 X (t + Suc d)"
proof -
  have l: "t < length Y" "limbs_val Y < limb_base ^ Suc t" "Suc (t + d) < length X" using assms(1) by (auto simp: digit_pre_def)
  have D: "limbs_val Y * limb_base ^ d = unat (Y ! t) * limb_base ^ (t + d) + limbs_val (take t Y) * limb_base ^ d"
    unfolding limbs_top(1) [OF l(2,1)] by (simp add: power_add algebra_simps)
  have "limbs_val X < limb_base ^ Suc (Suc (t + d))" using digit_X(1) [OF assms(1)] by simp
  note X = limbs_top2 [OF this l(3)]
  have "q * unat (Y ! t) \<le> unat (X ! Suc (t + d)) * limb_base + unat (X ! (t + d))"
    by (rule digit_upper [OF _ X(2)]) (use assms(2) in \<open>simp only: D X(1)\<close>)
  then show ?thesis by (simp add: top2_def)
qed

lemma digit_split:
  assumes "digit_pre X Y (Suc s) d"
  shows "limbs_val X = top3 X (Suc s + Suc d) * limb_base ^ (s + d) + limbs_val (take (s + d) X)" "limbs_val (take (s + d) X) < limb_base ^ (s + d)"
    "limbs_val Y * limb_base ^ d = div2 Y (Suc s) * limb_base ^ (s + d) + limbs_val (take s Y) * limb_base ^ d" "limbs_val (take s Y) < limb_base ^ s"
proof -
  have l: "Suc s < length Y" "limbs_val Y < limb_base ^ Suc (Suc s)" "Suc (Suc (s + d)) < length X" using assms by (auto simp: digit_pre_def)
  have "limbs_val X < limb_base ^ Suc (Suc (Suc (s + d)))" using digit_X(1) [OF assms] by simp
  note X = limbs_top3 [OF this l(3)]
  note Y = limbs_top2 [OF l(2,1)]
  show "limbs_val X = top3 X (Suc s + Suc d) * limb_base ^ (s + d) + limbs_val (take (s + d) X)" using X(1) by (simp add: top3_def)
  show "limbs_val (take (s + d) X) < limb_base ^ (s + d)" by (rule X(2))
  show "limbs_val Y * limb_base ^ d = div2 Y (Suc s) * limb_base ^ (s + d) + limbs_val (take s Y) * limb_base ^ d"
    unfolding Y(1) by (simp add: div2_def power_add algebra_simps)
  show "limbs_val (take s Y) < limb_base ^ s" by (rule Y(2))
qed

lemma digit_top3:
  assumes "digit_pre X Y t d" "q * (limbs_val Y * limb_base ^ d) \<le> limbs_val X"
  shows "q * div2 Y t \<le> top3 X (t + Suc d)"
proof (cases t)
  case 0
  then have "q * unat (Y ! 0) * limb_base \<le> top2 X (Suc d) * limb_base" using digit_top2 [OF assms] by simp
  also have "\<dots> \<le> top3 X (Suc d)" by (simp add: top2_def top3_def algebra_simps power2_eq_square)
  finally show ?thesis using 0 by (simp add: div2_def algebra_simps)
next
  case (Suc s)
  note sp = digit_split [OF assms(1) [unfolded Suc]]
  show ?thesis unfolding Suc by (rule digit_upper [OF _ sp(2)]) (use assms(2) in \<open>simp only: Suc sp(1,3)\<close>)
qed

lemma digit_one_more:
  assumes "digit_pre X Y t d" "z * div2 Y t \<le> top3 X (t + Suc d)" "z < limb_base"
  shows "z * (limbs_val Y * limb_base ^ d) < limbs_val X + limbs_val Y * limb_base ^ d"
proof (cases t)
  case 0
  have l: "0 < length Y" "limbs_val Y < limb_base ^ Suc 0" "Suc d < length X" using assms(1) 0 by (auto simp: digit_pre_def)
  have Y: "limbs_val Y = unat (Y ! 0)" using limbs_top(1) [OF l(2,1)] by simp
  have "limbs_val X < limb_base ^ Suc (Suc d)" using digit_X(1) [OF assms(1)] 0 by simp
  note X = limbs_top2 [OF this l(3)]
  define x0 where "x0 = (if Suc d < 2 then 0 else unat (X ! (Suc d - 2)))"
  have "x0 < limb_base" using limb_lt [of "X ! (Suc d - 2)"] by (simp add: x0_def)
  moreover have "z * unat (Y ! 0) * limb_base \<le> top2 X (Suc d) * limb_base + x0"
    using assms(2) 0 by (simp add: div2_def top3_def top2_def x0_def algebra_simps power2_eq_square)
  ultimately have "z * unat (Y ! 0) * limb_base < Suc (top2 X (Suc d)) * limb_base" by simp
  then have "z * unat (Y ! 0) < Suc (top2 X (Suc d))" by (simp only: mult_less_cancel2)
  then have "z * unat (Y ! 0) \<le> top2 X (Suc d)" by simp
  then have "z * unat (Y ! 0) * limb_base ^ d \<le> top2 X (Suc d) * limb_base ^ d" by (rule mult_le_mono1)
  also have "\<dots> \<le> limbs_val X" unfolding X(1) by (simp add: top2_def)
  finally have "z * (limbs_val Y * limb_base ^ d) \<le> limbs_val X" unfolding Y by (simp add: mult.assoc)
  moreover have "0 < limbs_val Y * limb_base ^ d" using digit_X(2) [OF assms(1)] by simp
  ultimately show ?thesis by linarith
next
  case (Suc s)
  note sp = digit_split [OF assms(1) [unfolded Suc]]
  have yt: "limb_base ^ Suc s \<le> limbs_val Y"
  proof -
    have l: "Suc s < length Y" "Y ! Suc s \<noteq> 0" using assms(1) Suc by (auto simp: digit_pre_def)
    have "limb_base ^ Suc s * 1 \<le> limb_base ^ Suc s * unat (Y ! Suc s)" using l(2) by (intro mult_le_mono2) (simp add: unat_gt_0 Suc_le_eq)
    also have "\<dots> \<le> limbs_val Y" using l(1) by (rule limb_bound)
    finally show ?thesis by simp
  qed
  have "z * limbs_val (take s Y) < limb_base ^ Suc s" using mult_strict_mono [OF assms(3) sp(4)] by simp
  then have "z * limbs_val (take s Y) < limbs_val Y" using yt by (rule less_le_trans)
  then have "z * (limbs_val (take s Y) * limb_base ^ d) < limbs_val Y * limb_base ^ d" by (simp flip: mult.assoc)
  then show ?thesis using assms(2) unfolding Suc by (intro digit_lower [OF _ _ sp(3) sp(1)]) simp_all
qed

end
