(* ===== verification/Share_Mpi_Digit.thy ===== *)
theory Share_Mpi_Digit
  imports Share_Mpi_Div
begin

text \<open>
  One digit of a division: the estimate, its correction, the subtraction with the addition that may follow, and the loop
  over all digits.
\<close>

section \<open>The correction of a digit\<close>

definition div_inv :: "nat \<Rightarrow> nat \<Rightarrow> mpis \<Rightarrow> bool" where
  "div_inv n t h \<longleftrightarrow> n + 3 < MPI_MAX_LIMBS \<and> t \<le> n \<and> blank_locals 2 h \<and>
     (mpi_ok (h DX) \<and> n < length (mp_p (h DX)) \<and> length (mp_p (h DX)) \<le> n + 3) \<and>
     (mpi_ok (h DY) \<and> mp_s (h DY) = 1 \<and> t < length (mp_p (h DY)) \<and> length (mp_p (h DY)) \<le> n + 3 \<and>
      limbs_val (mp_p (h DY)) < limb_base ^ Suc t \<and> mp_p (h DY) ! t \<noteq> 0) \<and>
     (mpi_ok (h DZ) \<and> mp_s (h DZ) = 1 \<and> n - t < length (mp_p (h DZ))) \<and>
     (mpi_ok (h DT1) \<and> 2 \<le> length (mp_p (h DT1)) \<and> length (mp_p (h DT1)) \<le> n + 3) \<and>
     (mpi_ok (h DT2) \<and> 3 \<le> length (mp_p (h DT2)) \<and> length (mp_p (h DT2)) \<le> n + 3)"

lemma mpi_chk_assoc: "mpi_chk (mpi_chk m k) n = mpi_chk m (mpi_chk k n)"
  by (rule ext) (auto simp: mpi_chk_def run_bind_def split: sum.splits)

lemma mpi_chk_run: "m h = Inr (0, h') \<Longrightarrow> k h' = r \<Longrightarrow> mpi_chk m k h = r"
  by simp

lemma mpi_ret_chk: "mpi_chk (mpi_ret 0) m = m"
  by (rule ext) simp

lemma limbs_two:
  assumes "limbs_val p = 0" "2 \<le> length p"
  shows "limbs_val (p[0 := a, Suc 0 := b]) = unat a + unat b * limb_base"
proof -
  have l: "0 < length p" "1 < length p" using assms(2) by linarith+
  show ?thesis
    using limbs_val_upd [OF l(1), of a] limbs_val_upd [of 1 "p[0 := a]" b] limbs_val_0 [OF assms(1) l(1)] limbs_val_0 [OF assms(1) l(2)] l(2) assms(1)
    by (simp add: mult.commute)
qed

lemma limbs_three:
  assumes "limbs_val p = 0" "3 \<le> length p"
  shows "limbs_val (p[0 := a, Suc 0 := b, 2 := d]) = unat a + unat b * limb_base + unat d * limb_base ^ 2"
  using limbs_val_upd [of 2 "p[0 := a, Suc 0 := b]" d] limbs_two [OF assms(1), of a b] limbs_val_0 [OF assms(1), of 2] assms(2)
  by (simp add: mult.commute)

lemma mpi_ok_limbs: "mpi_ok X \<Longrightarrow> length p = length (mp_p X) \<Longrightarrow> mpi_ok (X\<lparr>mp_p := p\<rparr>)"
  by (simp add: mpi_ok_def)

lemma div_rhs_ok:
  assumes "libc_total c" "div_inv n t h" "0 < i" "i \<le> n"
  shows "\<exists>T. div_rhs c i h = Inr (0, h(DT2 := T)) \<and> mpi_ok T \<and> mpi_val T = int (top3 (mp_p (h DX)) i) \<and> length (mp_p T) = length (mp_p (h DT2))"
proof -
  have iv: "mpi_ok (h DT2)" "3 \<le> length (mp_p (h DT2))" "i < length (mp_p (h DX))" using assms(2,4) by (auto simp: div_inv_def)
  obtain T where T: "shmpi_lset c DT2 0 h = Inr (0, h(DT2 := T))" "mpi_ok T" "limbs_val (mp_p T) = 0" "length (mp_p T) = length (mp_p (h DT2))" "mp_s T = 1"
    using lset_ex [where h = h and x = DT2 and z = 0, OF assms(1) _ _ iv(1)] iv(2) by (auto simp: sint_sign_def)
  let ?X = "mp_p (h DX)"
  define a where "a = (if i < 2 then 0 else ?X ! (i - 2))"
  let ?T = "T\<lparr>mp_p := (mp_p T)[0 := a, Suc 0 := ?X ! (i - 1), 2 := ?X ! i]\<rparr>"
  have "div_rhs c i h = Inr (0, h(DT2 := ?T))"
    using T iv assms(3) by (auto simp: div_rhs_def limb_get_def limb_upd_def mpi_chk_def a_def)
  moreover have "mpi_val ?T = int (top3 ?X i)"
    using limbs_three [OF T(3), of a "?X ! (i - 1)" "?X ! i"] T(4,5) iv(2) by (simp add: mpi_val_def top3_def a_def)
  ultimately show ?thesis using T(2,4) by (intro exI [of _ ?T]) (simp add: mpi_ok_limbs)
qed

lemma div_lhs_ok:
  assumes "libc_total c" "div_inv n t h" "i = t + Suc d" "i \<le> n"
  shows "\<exists>T. div_lhs c t i h = Inr (0, h(DT1 := T)) \<and> mpi_ok T \<and> mpi_val T = int (unat (mp_p (h DZ) ! d) * div2 (mp_p (h DY)) t) \<and>
    2 \<le> length (mp_p T) \<and> length (mp_p T) \<le> n + 3"
proof -
  have iv: "mpi_ok (h DT1)" "2 \<le> length (mp_p (h DT1))" "length (mp_p (h DT1)) \<le> n + 3" "t < length (mp_p (h DY))" "blank_locals 2 h" "n + 3 < MPI_MAX_LIMBS"
      "d < length (mp_p (h DZ))"
    using assms(2-4) by (auto simp: div_inv_def)
  obtain T where T: "shmpi_lset c DT1 0 h = Inr (0, h(DT1 := T))" "mpi_ok T" "limbs_val (mp_p T) = 0" "length (mp_p T) = length (mp_p (h DT1))" "mp_s T = 1"
    using lset_ex [where h = h and x = DT1 and z = 0, OF assms(1) _ _ iv(1)] iv(2) by (auto simp: sint_sign_def)
  let ?Y = "mp_p (h DY)"
  define a where "a = (if t < 1 then 0 else ?Y ! (t - 1))"
  define V where "V = T\<lparr>mp_p := (mp_p T)[0 := a, Suc 0 := ?Y ! t]\<rparr>"
  define h1 where "h1 = h(DT1 := V)"
  define z where "z = mp_p (h DZ) ! d"
  have V: "mpi_ok V" "limbs_val (mp_p V) = div2 ?Y t" "length (mp_p V) = length (mp_p (h DT1))" "mp_s V = 1"
    using T limbs_two [OF T(3), of a "?Y ! t"] iv(2) by (simp_all add: V_def mpi_ok_limbs div2_def a_def)
  have "limbs_val (mp_p V) < limb_base ^ 2"
  proof -
    have "div2 ?Y t = unat a + limb_base * unat (?Y ! t)" by (simp add: div2_def a_def)
    then have "div2 ?Y t < limb_base * limb_base"
      using digit_less [of "unat a" limb_base "unat (?Y ! t)" limb_base 0] limb_lt [of a] limb_lt [of "?Y ! t"] by simp
    then show ?thesis by (simp add: V(2) power2_eq_square)
  qed
  then have u: "used_limbs (mp_p V) \<le> 2" by (simp only: used_limbs_le_iff)
  have h1: "h1 DT1 = V" "blank_locals 2 h1" using iv(5) by (simp_all add: h1_def)
  obtain W where W: "shmpi_mul_int c DT1 DT1 (sint z) h1 = Inr (0, h1(DT1 := W))" "mpi_ok W" "mpi_val W = mpi_val V * int (unat z)"
      "length (mp_p W) \<le> max 1 (max (length (mp_p V)) (Suc (used_limbs (mp_p V))))" "length (mp_p V) \<le> length (mp_p W)"
    using mul_int_ex [of c h1 DT1 DT1 "sint z"] assms(1) h1 V(1) u iv(6) by auto
  have "div_lhs c t i h = Inr (0, h(DT1 := W))"
    using T iv(2,4,7) assms(3) W(1) by (auto simp: div_lhs_def limb_get_def limb_upd_def mpi_chk_def a_def V_def h1_def z_def)
  moreover have "mpi_val W = int (unat z * div2 ?Y t)" using W(3) V(2,4) by (simp add: mpi_val_def)
  moreover have "length (mp_p W) \<le> n + 3" using W(4) u V(3) iv(3) by simp
  ultimately show ?thesis using W(2,5) V(3) iv(2) by (intro exI [of _ W]) (simp add: z_def)
qed

lemma cmp_mpi_less: "mpi_ok X \<Longrightarrow> mpi_ok Y \<Longrightarrow> 0 < shmpi_cmp_mpi X Y \<longleftrightarrow> mpi_val Y < mpi_val X"
  by (simp add: cmp_mpi_val mpi_ok_def cmp3_def)

lemma div_trial_ok:
  assumes "libc_total c" "div_inv n t h" "i = t + Suc d" "i \<le> n" "z = mp_p (h DZ) ! d - 1"
  shows "\<exists>h'. div_trial c t i h = Inr (0, h') \<and> frame {DZ, DT1, DT2} h h' \<and> h' DZ = (h DZ)\<lparr>mp_p := (mp_p (h DZ))[d := z]\<rparr> \<and>
    div_inv n t h' \<and> (0 < shmpi_cmp_mpi (h' DT1) (h' DT2) \<longleftrightarrow> top3 (mp_p (h DX)) i < unat z * div2 (mp_p (h DY)) t)"
proof -
  define h1 where "h1 = h(DZ := (h DZ)\<lparr>mp_p := (mp_p (h DZ))[d := z]\<rparr>)"
  have d: "d < length (mp_p (h DZ))" using assms(2-4) by (auto simp: div_inv_def)
  have i1: "div_inv n t h1" using assms(2) by (simp add: div_inv_def h1_def mpi_ok_limbs)
  have s1: "limb_upd DZ (i - t - 1) (\<lambda>z. z - 1) h = Inr (0, h1)" using d assms(3,5) by (simp add: limb_upd_def h1_def)
  obtain T1 where T1: "div_lhs c t i h1 = Inr (0, h1(DT1 := T1))" "mpi_ok T1" "mpi_val T1 = int (unat (mp_p (h1 DZ) ! d) * div2 (mp_p (h1 DY)) t)"
      "2 \<le> length (mp_p T1)" "length (mp_p T1) \<le> n + 3"
    using div_lhs_ok [OF assms(1) i1 assms(3,4)] by blast
  define h2 where "h2 = h1(DT1 := T1)"
  have i2: "div_inv n t h2" using i1 T1(2,4,5) by (simp add: div_inv_def h2_def)
  have i0: "0 < i" using assms(3) by simp
  obtain T2 where T2: "div_rhs c i h2 = Inr (0, h2(DT2 := T2))" "mpi_ok T2" "mpi_val T2 = int (top3 (mp_p (h2 DX)) i)" "length (mp_p T2) = length (mp_p (h2 DT2))"
    using div_rhs_ok [OF assms(1) i2 i0 assms(4)] by blast
  define h3 where "h3 = h2(DT2 := T2)"
  have "div_inv n t h3" using i2 T2(2,4) by (simp add: div_inv_def h3_def)
  moreover have "div_trial c t i h = Inr (0, h3)" using s1 T1(1) T2(1) by (simp add: div_trial_def mpi_chk_def h2_def h3_def)
  moreover have "frame {DZ, DT1, DT2} h h3" by (simp add: h3_def h2_def h1_def)
  moreover have "h3 DZ = h1 DZ" "h3 DT1 = T1" "h3 DT2 = T2" "h2 DX = h DX" "h1 DY = h DY" by (simp_all add: h3_def h2_def h1_def)
  moreover have "mp_p (h1 DZ) ! d = z" using d by (simp add: h1_def)
  ultimately show ?thesis using T1(2,3) T2(2,3) by (intro exI [of _ h3]) (auto simp: cmp_mpi_less h1_def simp flip: of_nat_mult)
qed

lemma trial_loop:
  assumes "libc_total c" "i = t + Suc d" "i \<le> n"
  defines "m \<equiv> div_trial c t i" and "go \<equiv> \<lambda>h :: mpis. Inr (0 < shmpi_cmp_mpi (h DT1) (h DT2))"
  shows "div_inv n t h \<Longrightarrow> digit_pre (mp_p (h DX)) (mp_p (h DY)) t d \<Longrightarrow> z = mp_p (h DZ) ! d - 1 \<Longrightarrow>
    q = limbs_val (mp_p (h DX)) div (limbs_val (mp_p (h DY)) * limb_base ^ d) \<Longrightarrow> q \<le> unat z \<Longrightarrow>
    \<exists>h' z'. mpi_chk m (mpi_while go m) h = Inr (0, h') \<and> frame {DZ, DT1, DT2} h h' \<and> h' DZ = (h DZ)\<lparr>mp_p := (mp_p (h DZ))[d := z']\<rparr> \<and>
      div_inv n t h' \<and> q \<le> unat z' \<and> unat z' * div2 (mp_p (h DY)) t \<le> top3 (mp_p (h DX)) i"
proof (induction "unat z" arbitrary: z h rule: less_induct)
  case less
  obtain h1 where h1: "m h = Inr (0, h1)" "frame {DZ, DT1, DT2} h h1" "h1 DZ = (h DZ)\<lparr>mp_p := (mp_p (h DZ))[d := z]\<rparr>" "div_inv n t h1"
      "0 < shmpi_cmp_mpi (h1 DT1) (h1 DT2) \<longleftrightarrow> top3 (mp_p (h DX)) i < unat z * div2 (mp_p (h DY)) t"
    using div_trial_ok [OF assms(1) less.prems(1) assms(2,3) less.prems(3)] unfolding m_def by blast
  have eq: "h1 DX = h DX" "h1 DY = h DY" using h1(2) by (simp_all add: frame_def)
  have d: "d < length (mp_p (h DZ))" using less.prems(1) assms(2,3) by (auto simp: div_inv_def)
  show ?case
  proof (cases "top3 (mp_p (h DX)) i < unat z * div2 (mp_p (h DY)) t")
    case True
    have qD: "q * (limbs_val (mp_p (h DY)) * limb_base ^ d) \<le> limbs_val (mp_p (h DX))" using less.prems(4) by (simp add: div_times_less_eq_dividend)
    have "q * div2 (mp_p (h DY)) t \<le> top3 (mp_p (h DX)) i" using digit_top3 [OF less.prems(2) qD] assms(2) by simp
    also note True
    finally have "q * div2 (mp_p (h DY)) t < unat z * div2 (mp_p (h DY)) t" .
    then have qz: "q < unat z" by (simp only: mult_less_cancel2)
    then have z1: "unat (z - 1) = unat z - 1" by (intro unat_minus_one) auto
    then have p: "unat (z - 1) < unat z" "q \<le> unat (z - 1)" using qz by simp_all
    have dp: "digit_pre (mp_p (h1 DX)) (mp_p (h1 DY)) t d" unfolding eq by (rule less.prems(2))
    have qe: "q = limbs_val (mp_p (h1 DX)) div (limbs_val (mp_p (h1 DY)) * limb_base ^ d)" unfolding eq by (rule less.prems(4))
    have zd: "z - 1 = mp_p (h1 DZ) ! d - 1" using d h1(3) by simp
    obtain h2 z' where h2: "mpi_chk m (mpi_while go m) h1 = Inr (0, h2)" "frame {DZ, DT1, DT2} h1 h2"
        "h2 DZ = (h1 DZ)\<lparr>mp_p := (mp_p (h1 DZ))[d := z']\<rparr>" "div_inv n t h2" "q \<le> unat z'" "unat z' * div2 (mp_p (h DY)) t \<le> top3 (mp_p (h DX)) i"
      using less.hyps [OF p(1) h1(4) dp zd qe p(2)] unfolding eq by blast
    have "mpi_chk m (mpi_while go m) h = mpi_while go m h1" using h1(1) by simp
    also have "\<dots> = mpi_chk m (mpi_while go m) h1" using True h1(5) by (subst mpi_while_unfold) (simp add: go_def)
    finally show ?thesis using h2 h1(3) frame_trans [OF h1(2) h2(2)] by auto
  next
    case False
    have "mpi_chk m (mpi_while go m) h = mpi_while go m h1" using h1(1) by simp
    also have "\<dots> = Inr (0, h1)" using False h1(5) by (subst mpi_while_unfold) (simp add: go_def)
    finally show ?thesis using h1 False less.prems(5) by (intro exI [of _ h1] exI [of _ z]) auto
  qed
qed

lemma div_guess_ok:
  assumes "div_inv n t h" "i = t + Suc d" "i \<le> n" "digit_pre (mp_p (h DX)) (mp_p (h DY)) t d"
    and "q = limbs_val (mp_p (h DX)) div (limbs_val (mp_p (h DY)) * limb_base ^ d)"
  shows "\<exists>g. div_guess t i h = Inr (0, h(DZ := (h DZ)\<lparr>mp_p := (mp_p (h DZ))[d := g]\<rparr>)) \<and> q \<le> unat g"
proof -
  let ?X = "mp_p (h DX)" and ?Y = "mp_p (h DY)"
  have l: "i < length ?X" "t < length ?Y" "d < length (mp_p (h DZ))" using assms(1-3) by (auto simp: div_inv_def)
  define g where "g = (if ?Y ! t \<le> ?X ! i then - 1 else udbl_quot (?X ! i) (?X ! (i - 1)) (?Y ! t))"
  have "div_guess t i h = Inr (0, h(DZ := (h DZ)\<lparr>mp_p := (mp_p (h DZ))[d := g]\<rparr>))"
    using l assms(2) by (simp add: div_guess_def limb_get_def limb_upd_def g_def)
  moreover have "q \<le> unat g"
  proof (cases "?Y ! t \<le> ?X ! i")
    case True
    have "unat (- 1 :: u64) = limb_base - 1" by (simp add: unsigned_minus_1_eq_mask mask_eq_exp_minus_1 limb_base_def)
    then show ?thesis using digit_X(3) [OF assms(4)] True by (simp add: g_def assms(5))
  next
    case False
    then have lt: "?X ! i < ?Y ! t" by simp
    have qD: "q * (limbs_val ?Y * limb_base ^ d) \<le> limbs_val ?X" by (simp add: assms(5) div_times_less_eq_dividend)
    have "q * unat (?Y ! t) \<le> top2 ?X i" using digit_top2 [OF assms(4) qD] assms(2) by simp
    moreover have "0 < unat (?Y ! t)" using assms(4) by (simp add: digit_pre_def unat_gt_0)
    ultimately have "q \<le> top2 ?X i div unat (?Y ! t)" by (simp add: less_eq_div_iff_mult_less_eq)
    then show ?thesis using False udbl_quot_val(1) [OF lt] by (simp add: g_def top2_def)
  qed
  ultimately show ?thesis by blast
qed

section \<open>The step with a digit\<close>

lemma limbs_abs: "mpi_ok X \<Longrightarrow> int (limbs_val (mp_p X)) = \<bar>mpi_val X\<bar>"
  by (auto simp: mpi_ok_def mpi_val_def)

lemma shift_limbs_ok:
  assumes "libc_total c" "mpi_ok (h x)" "limbs_val (mp_p (h x)) < limb_base ^ k" "k + d \<le> MPI_MAX_LIMBS"
  shows "\<exists>X. shmpi_shift_l c x (64 * d) h = Inr (0, h(x := X)) \<and> mpi_ok X \<and> mpi_val X = mpi_val (h x) * int (limb_base ^ d) \<and>
    mp_s X = mp_s (h x) \<and> limbs_val (mp_p X) = limbs_val (mp_p (h x)) * limb_base ^ d \<and>
    length (mp_p X) \<le> max (length (mp_p (h x))) (k + d) \<and> length (mp_p (h x)) \<le> length (mp_p X)"
proof -
  have m: "shmpi_msb (h x) \<le> 64 * k" using assms(3) by (simp add: limb_base_pow flip: msb_val)
  then have "shmpi_msb (h x) + 64 * d \<le> 64 * MPI_MAX_LIMBS" using assms(4) by linarith
  then obtain X where X: "shmpi_shift_l c x (64 * d) h = Inr (0, h(x := X))" "mpi_ok X" "mp_s X = mp_s (h x)"
      "limbs_val (mp_p X) = limbs_val (mp_p (h x)) * 2 ^ (64 * d)"
      "length (mp_p X) = max (length (mp_p (h x))) (if length (mp_p (h x)) * 64 < shmpi_msb (h x) + 64 * d then (shmpi_msb (h x) + 64 * d + 63) div 64 else 0)"
    using shift_l_ok [where h = h and x = x, OF assms(1,2)] by metis
  have "(shmpi_msb (h x) + 64 * d + 63) div 64 \<le> k + d" using m by linarith
  then show ?thesis using X by (intro exI [of _ X]) (auto simp: mpi_val_def limb_base_pow)
qed

lemma div_product_ok:
  assumes "libc_total c" "div_inv n t h" "t + Suc d \<le> n" "z = mp_p (h DZ) ! d"
  shows "\<exists>T. mpi_seq [limb_get DZ d (\<lambda>z. shmpi_mul_int c DT1 DY (sint z)), shmpi_shift_l c DT1 (64 * d)] h = Inr (0, h(DT1 := T)) \<and>
    mpi_ok T \<and> mpi_val T = int (unat z * (limbs_val (mp_p (h DY)) * limb_base ^ d)) \<and> 2 \<le> length (mp_p T) \<and> length (mp_p T) \<le> n + 3"
proof -
  have iv: "mpi_ok (h DT1)" "2 \<le> length (mp_p (h DT1))" "length (mp_p (h DT1)) \<le> n + 3" "blank_locals 2 h" "n + 3 < MPI_MAX_LIMBS"
      "d < length (mp_p (h DZ))" "mpi_ok (h DY)" "mp_s (h DY) = 1" "limbs_val (mp_p (h DY)) < limb_base ^ Suc t"
    using assms(2,3) by (auto simp: div_inv_def)
  have u: "used_limbs (mp_p (h DY)) \<le> Suc t" using iv(9) by (simp only: used_limbs_le_iff)
  obtain T where T: "shmpi_mul_int c DT1 DY (sint z) h = Inr (0, h(DT1 := T))" "mpi_ok T" "mpi_val T = mpi_val (h DY) * int (unat z)"
      "length (mp_p T) \<le> max 1 (max (length (mp_p (h DT1))) (Suc (used_limbs (mp_p (h DY)))))" "length (mp_p (h DT1)) \<le> length (mp_p T)"
    using mul_int_ex [of c h DT1 DY "sint z"] assms(1,3) iv u by auto
  have "int (limbs_val (mp_p T)) = int (unat z * limbs_val (mp_p (h DY)))"
    unfolding limbs_abs [OF T(2)] T(3) using iv(8) by (simp add: mpi_val_def abs_mult)
  then have v: "limbs_val (mp_p T) = unat z * limbs_val (mp_p (h DY))" by (simp only: of_nat_eq_iff)
  have "unat z * limbs_val (mp_p (h DY)) < limb_base * limb_base ^ Suc t" using limb_lt [of z] iv(9) by (intro mult_strict_mono) auto
  then have vt: "limbs_val (mp_p ((h(DT1 := T)) DT1)) < limb_base ^ (t + 2)" using v by simp
  have ok: "mpi_ok ((h(DT1 := T)) DT1)" using T(2) by simp
  have le: "t + 2 + d \<le> MPI_MAX_LIMBS" using assms(3) iv(5) by simp
  obtain U where U: "shmpi_shift_l c DT1 (64 * d) (h(DT1 := T)) = Inr (0, (h(DT1 := T))(DT1 := U))" "mpi_ok U"
      "mpi_val U = mpi_val ((h(DT1 := T)) DT1) * int (limb_base ^ d)" "length (mp_p U) \<le> max (length (mp_p ((h(DT1 := T)) DT1))) (t + 2 + d)"
      "length (mp_p ((h(DT1 := T)) DT1)) \<le> length (mp_p U)"
    using shift_limbs_ok [where h = "h(DT1 := T)" and x = DT1, OF assms(1) ok vt le] by blast
  have "mpi_seq [limb_get DZ d (\<lambda>z. shmpi_mul_int c DT1 DY (sint z)), shmpi_shift_l c DT1 (64 * d)] h = Inr (0, h(DT1 := U))"
    using T(1) U(1) iv(6) assms(4) by (simp add: limb_get_def mpi_chk_def)
  moreover have "mpi_val U = int (unat z * (limbs_val (mp_p (h DY)) * limb_base ^ d))" using U(3) T(3) iv(8) by (simp add: mpi_val_def)
  moreover have "length (mp_p U) \<le> n + 3" "2 \<le> length (mp_p U)" using U(4,5) T(4,5) u iv(2,3) assms(3) by auto
  ultimately show ?thesis using U(2) by blast
qed

text \<open>Adding or subtracting the shifted divisor keeps the invariant.\<close>

lemma div_inv_X:
  assumes "div_inv n t h" "len_bound h DX DX DT1 X" "mpi_ok X" "\<bar>mpi_val X\<bar> < int (limb_base ^ (n + 1))"
    and "\<bar>mpi_val (h DX)\<bar> < int (limb_base ^ (n + 1))" "\<bar>mpi_val (h DT1)\<bar> < int (limb_base ^ (n + 1))"
  shows "div_inv n t (h(DX := X))"
proof -
  have iv: "mpi_ok (h DX)" "n < length (mp_p (h DX))" "length (mp_p (h DX)) \<le> n + 3" "mpi_ok (h DT1)" "2 \<le> length (mp_p (h DT1))"
    using assms(1) by (auto simp: div_inv_def)
  have up: "limbs_val (mp_p Y) < limb_base ^ (n + 3)" if "mpi_ok Y" "\<bar>mpi_val Y\<bar> < int (limb_base ^ (n + 1))" for Y
  proof -
    have "int (limbs_val (mp_p Y)) < int (limb_base ^ (n + 1))" unfolding limbs_abs [OF that(1)] by (rule that(2))
    then have "limbs_val (mp_p Y) < limb_base ^ (n + 1)" by (simp only: of_nat_less_iff)
    also have "\<dots> \<le> limb_base ^ (n + 3)" by (intro power_increasing) simp_all
    finally show ?thesis .
  qed
  have "length (mp_p X) \<le> n + 3"
    by (rule len_boundD [OF assms(2)]) (use up [OF iv(1) assms(5)] up [OF iv(4) assms(6)] up [OF assms(3,4)] iv(3) in auto)
  moreover have "length (mp_p (h DX)) \<le> length (mp_p X)" using assms(2) iv(2,5) unfolding len_bound_def by auto
  ultimately show ?thesis using assms(1,3) iv(2) by (simp add: div_inv_def)
qed

lemma div_inv_T1: "div_inv n t h \<Longrightarrow> mpi_ok T \<Longrightarrow> 2 \<le> length (mp_p T) \<Longrightarrow> length (mp_p T) \<le> n + 3 \<Longrightarrow> div_inv n t (h(DT1 := T))"
  by (simp add: div_inv_def)

lemma div_inv_Z: "div_inv n t h \<Longrightarrow> div_inv n t (h(DZ := (h DZ)\<lparr>mp_p := (mp_p (h DZ))[d := z]\<rparr>))"
  by (simp add: div_inv_def mpi_ok_limbs)

lemma div_inv_args:
  assumes "div_inv n t h"
  shows "blank_locals 1 h" "mpi_arg 1 h DX" "mpi_arg 1 h DT1" "mpi_arg 1 h DY"
  using assms blank_locals_mono [of 2 h 1] by (auto simp: div_inv_def mpi_arg_def)

lemma div_shifted_ok:
  assumes "libc_total c" "div_inv n t h" "t + Suc d \<le> n"
  shows "\<exists>U. mpi_chk (shmpi_copy c DT1 DY) (shmpi_shift_l c DT1 (64 * d)) h = Inr (0, h(DT1 := U)) \<and> mpi_ok U \<and>
    mpi_val U = int (limbs_val (mp_p (h DY)) * limb_base ^ d) \<and> div_inv n t (h(DT1 := U))"
proof -
  have iv: "mpi_ok (h DY)" "mpi_ok (h DT1)" "2 \<le> length (mp_p (h DT1))" "length (mp_p (h DT1)) \<le> n + 3"
      "limbs_val (mp_p (h DY)) < limb_base ^ Suc t" "mp_s (h DY) = 1" "n + 3 < MPI_MAX_LIMBS" "mp_p (h DY) \<noteq> []"
    using assms(2,3) by (auto simp: div_inv_def)
  obtain T where T: "shmpi_copy c DT1 DY h = Inr (0, h(DT1 := T))" "mpi_val T = mpi_val (h DY)" "mpi_ok T"
      "length (mp_p T) \<le> max (length (mp_p (h DT1))) (max 1 (used_limbs (mp_p (h DY))))" "length (mp_p (h DT1)) \<le> length (mp_p T)"
      "limbs_val (mp_p T) = limbs_val (mp_p (h DY))"
    using copy_ex [of c h DY DT1] assms(1) iv(1,2,8) by blast
  have u: "used_limbs (mp_p (h DY)) \<le> Suc t" using iv(5) by (simp only: used_limbs_le_iff)
  define h1 where "h1 = h(DT1 := T)"
  have h1: "h1 DT1 = T" by (simp add: h1_def)
  have le: "Suc t + d \<le> MPI_MAX_LIMBS" using assms(3) iv(7) by simp
  have pre: "mpi_ok (h1 DT1)" "limbs_val (mp_p (h1 DT1)) < limb_base ^ Suc t" using T(3,6) iv(5) h1 by simp_all
  obtain U where U: "shmpi_shift_l c DT1 (64 * d) h1 = Inr (0, h1(DT1 := U))" "mpi_ok U"
      "mpi_val U = mpi_val (h1 DT1) * int (limb_base ^ d)" "length (mp_p U) \<le> max (length (mp_p (h1 DT1))) (Suc t + d)"
      "length (mp_p (h1 DT1)) \<le> length (mp_p U)"
    using shift_limbs_ok [where h = h1 and x = DT1, OF assms(1) pre le] by blast
  have "div_inv n t (h(DT1 := U))"
    by (rule div_inv_T1 [OF assms(2) U(2)]) (use U(4,5) T(4,5) u iv(3,4) assms(3) in \<open>auto simp: h1\<close>)
  moreover have "mpi_val U = int (limbs_val (mp_p (h DY)) * limb_base ^ d)" using U(3) T(2) iv(6) by (simp add: h1 mpi_val_def)
  moreover have "mpi_chk (shmpi_copy c DT1 DY) (shmpi_shift_l c DT1 (64 * d)) h = Inr (0, h(DT1 := U))"
    using T(1) U(1) by (simp add: h1_def)
  ultimately show ?thesis using U(2) by blast
qed

lemma div_add_back_ok:
  assumes "libc_total c" "div_inv n t h" "i = t + Suc d" "i \<le> n" "mpi_val (h DX) = int x - int (z * D)" "D = limbs_val (mp_p (h DY)) * limb_base ^ d"
    and "x < limb_base ^ (i + 1)" "q = x div D" "q \<le> z" "z \<le> Suc q" "unat (mp_p (h DZ) ! d) = z" "0 < D"
  shows "\<exists>h'. div_add_back c t i h = Inr (0, h') \<and> frame {DX, DZ, DT1} h h' \<and> div_inv n t h' \<and> mpi_val (h' DX) = int (x mod D) \<and>
    (\<exists>g. h' DZ = (h DZ)\<lparr>mp_p := (mp_p (h DZ))[d := g]\<rparr> \<and> unat g = q)"
proof (cases "int x < int (z * D)")
  case False
  have iv: "mpi_ok (h DX)" "d < length (mp_p (h DZ))" using assms(2-4) by (auto simp: div_inv_def)
  have "z * D \<le> x" using False by (simp only: of_nat_less_iff not_less)
  then have zq: "z = q" using assms(8,9,12) by (metis div_le_mono div_mult_self_is_m le_antisym)
  have run: "div_add_back c t i h = Inr (0, h)"
    using False assms(5) iv(1) by (simp add: div_add_back_def cmp_int_val)
  have "mpi_val (h DX) = int (x mod D)" using assms(5) zq assms(8) by (simp add: minus_div_mult_eq_mod [symmetric] of_nat_diff div_times_less_eq_dividend)
  then show ?thesis using run assms(2,11) zq by (intro exI [of _ h] conjI exI [of _ "mp_p (h DZ) ! d"]) simp_all
next
  case True
  have iv: "mpi_ok (h DX)" "d < length (mp_p (h DZ))" "limbs_val (mp_p (h DY)) < limb_base ^ Suc t"
    using assms(2-4) by (auto simp: div_inv_def)
  have "q * D \<le> x" using assms(8) by (simp add: div_times_less_eq_dividend)
  then have "z \<noteq> q" using True by (auto simp flip: of_nat_mult)
  then have zq: "z = Suc q" using assms(9,10) by simp
  have td: "t + Suc d \<le> n" using assms(3,4) by simp
  obtain U where U: "mpi_chk (shmpi_copy c DT1 DY) (shmpi_shift_l c DT1 (64 * d)) h = Inr (0, h(DT1 := U))" "mpi_val U = int D" "div_inv n t (h(DT1 := U))"
    using div_shifted_ok [OF assms(1,2) td] unfolding assms(6) by blast
  define h2 where "h2 = h(DT1 := U)"
  have i2: "div_inv n t h2" unfolding h2_def by (rule U(3))
  obtain X where X: "shmpi_add_mpi c DX DX DT1 h2 = Inr (0, h2(DX := X))" "mpi_ok X" "mpi_val X = mpi_val (h2 DX) + mpi_val (h2 DT1)" "len_bound h2 DX DX DT1 X"
    using add_mpi_ex [OF assms(1) div_inv_args(1,2,2,3) [OF i2]] by auto
  have "x = q * D + x mod D" using assms(8) by simp
  then have D: "int x = int (q * D) + int (x mod D)" by (metis of_nat_add)
  have vX: "mpi_val X = int (x mod D)" using X(3) U(2) assms(5) D by (simp add: h2_def zq algebra_simps)
  have "D < limb_base ^ Suc t * limb_base ^ d" unfolding assms(6) using iv(3) by simp
  also have "\<dots> = limb_base ^ i" by (simp add: assms(3) flip: power_add)
  also have "\<dots> \<le> limb_base ^ (n + 1)" using assms(4) by (intro power_increasing) simp_all
  finally have DB: "int D < int (limb_base ^ (n + 1))" by (simp only: of_nat_less_iff)
  have m: "int (x mod D) < int D" using assms(12) by (simp only: of_nat_less_iff mod_less_divisor)
  have i3: "div_inv n t (h2(DX := X))"
  proof (rule div_inv_X [OF i2 X(4,2)])
    show "\<bar>mpi_val X\<bar> < int (limb_base ^ (n + 1))" using vX m DB by simp
    have "mpi_val (h2 DX) = int (x mod D) - int D" using assms(5) D by (simp add: h2_def zq algebra_simps)
    then show "\<bar>mpi_val (h2 DX)\<bar> < int (limb_base ^ (n + 1))" using m DB assms(12) by (simp del: of_nat_power)
    show "\<bar>mpi_val (h2 DT1)\<bar> < int (limb_base ^ (n + 1))" using U(2) DB by (simp add: h2_def del: of_nat_power)
  qed
  define g where "g = mp_p (h DZ) ! d - 1"
  have g: "unat g = q" unfolding g_def using assms(11) zq by (subst unat_minus_one) auto
  define h3 where "h3 = h2(DX := X, DZ := (h DZ)\<lparr>mp_p := (mp_p (h DZ))[d := g]\<rparr>)"
  have "div_inv n t h3" using div_inv_Z [OF i3, of d g] by (simp add: h3_def h2_def)
  moreover have "div_add_back c t i h = Inr (0, h3)"
  proof -
    have "div_add_back c t i h = mpi_chk (mpi_chk (shmpi_copy c DT1 DY) (shmpi_shift_l c DT1 (64 * d)))
        (mpi_seq [shmpi_add_mpi c DX DX DT1, limb_upd DZ d (\<lambda>z. z - 1)]) h"
      using True assms(3,5) iv(1) by (simp add: div_add_back_def cmp_int_val mpi_chk_assoc)
    also have "\<dots> = Inr (0, h3)" using U(1) X(1) iv(2) by (simp add: limb_upd_def h2_def h3_def g_def)
    finally show ?thesis .
  qed
  moreover have "frame {DX, DZ, DT1} h h3" by (simp add: h3_def h2_def)
  moreover have "mpi_val (h3 DX) = int (x mod D)" "h3 DZ = (h DZ)\<lparr>mp_p := (mp_p (h DZ))[d := g]\<rparr>" using vX by (simp_all add: h3_def)
  ultimately show ?thesis using g by blast
qed

lemma div_apply_ok:
  assumes "libc_total c" "div_inv n t h" "i = t + Suc d" "i \<le> n" "digit_pre (mp_p (h DX)) (mp_p (h DY)) t d" "0 \<le> mpi_val (h DX)"
    and "x = limbs_val (mp_p (h DX))" "D = limbs_val (mp_p (h DY)) * limb_base ^ d" "q = x div D" "z = unat (mp_p (h DZ) ! d)"
    and "q \<le> z" "z * div2 (mp_p (h DY)) t \<le> top3 (mp_p (h DX)) i"
  shows "\<exists>h'. div_apply c t i h = Inr (0, h') \<and> frame {DX, DZ, DT1} h h' \<and> div_inv n t h' \<and> mpi_val (h' DX) = int (x mod D) \<and>
    (\<exists>g. h' DZ = (h DZ)\<lparr>mp_p := (mp_p (h DZ))[d := g]\<rparr> \<and> unat g = q)"
proof -
  have td: "t + Suc d \<le> n" using assms(3,4) by simp
  have iv: "mpi_ok (h DX)" "limbs_val (mp_p (h DY)) < limb_base ^ Suc t" using assms(2) by (auto simp: div_inv_def)
  have zB: "z < limb_base" using assms(10) by (simp add: limb_lt)
  have D0: "0 < D" using digit_X(2) [OF assms(5)] by (simp add: assms(8))
  have zD: "z * D < x + D" using digit_one_more [OF assms(5) _ zB] assms(12) unfolding assms(3,7,8) by simp
  have "x < Suc q * D" using dividend_less_div_times [OF D0, of x] by (simp add: assms(9))
  then have "z * D < Suc (Suc q) * D" using zD by simp
  then have zq: "z \<le> Suc q" by (simp only: mult_less_cancel2) simp
  obtain T where T: "mpi_seq [limb_get DZ d (\<lambda>z. shmpi_mul_int c DT1 DY (sint z)), shmpi_shift_l c DT1 (64 * d)] h = Inr (0, h(DT1 := T))"
      "mpi_ok T" "mpi_val T = int (z * D)" "2 \<le> length (mp_p T)" "length (mp_p T) \<le> n + 3"
    using div_product_ok [OF assms(1,2) td refl] unfolding assms(8,10) by blast
  define h1 where "h1 = h(DT1 := T)"
  have i1: "div_inv n t h1" unfolding h1_def by (rule div_inv_T1 [OF assms(2) T(2,4,5)])
  obtain X where X: "shmpi_sub_mpi c DX DX DT1 h1 = Inr (0, h1(DX := X))" "mpi_ok X" "mpi_val X = mpi_val (h1 DX) - mpi_val (h1 DT1)" "len_bound h1 DX DX DT1 X"
    using sub_mpi_ex [OF assms(1) div_inv_args(1,2,2,3) [OF i1]] by auto
  have vx: "mpi_val (h DX) = int x" using limbs_abs [OF iv(1)] assms(6,7) by simp
  have vX: "mpi_val X = int x - int (z * D)" using X(3) vx T(3) by (simp add: h1_def)
  have xB: "x < limb_base ^ (i + 1)" using digit_X(1) [OF assms(5)] by (simp add: assms(3,7))
  have up: "int w < int (limb_base ^ (n + 1))" if "w < limb_base ^ (i + 1)" for w
  proof -
    note that also have "limb_base ^ (i + 1) \<le> limb_base ^ (n + 1)" using assms(4) by (intro power_increasing) simp_all
    finally show ?thesis by (simp only: of_nat_less_iff)
  qed
  have "D < limb_base ^ Suc t * limb_base ^ d" unfolding assms(8) using iv(2) by simp
  from mult_strict_mono [OF zB this] have "z * D < limb_base * (limb_base ^ Suc t * limb_base ^ d)" by simp
  also have "\<dots> = limb_base ^ (i + 1)" by (simp add: assms(3) power_add)
  finally have zDB: "z * D < limb_base ^ (i + 1)" .
  have i2: "div_inv n t (h1(DX := X))"
    by (rule div_inv_X [OF i1 X(4,2)]) (use vX vx T(3) up [OF xB] up [OF zDB] in \<open>simp_all add: h1_def del: of_nat_power of_nat_mult\<close>)
  define h2 where "h2 = h1(DX := X)"
  have h2: "mpi_val (h2 DX) = int x - int (z * D)" "D = limbs_val (mp_p (h2 DY)) * limb_base ^ d" "unat (mp_p (h2 DZ) ! d) = z"
    using vX assms(8,10) by (simp_all add: h2_def h1_def)
  obtain h3 where h3: "div_add_back c t i h2 = Inr (0, h3)" "frame {DX, DZ, DT1} h2 h3" "div_inv n t h3" "mpi_val (h3 DX) = int (x mod D)"
      "\<exists>g. h3 DZ = (h2 DZ)\<lparr>mp_p := (mp_p (h2 DZ))[d := g]\<rparr> \<and> unat g = q"
    using div_add_back_ok [OF assms(1) i2 [folded h2_def] assms(3,4) h2(1,2) xB assms(9,11) zq h2(3) D0] by blast
  have "div_apply c t i h = mpi_chk (mpi_seq [limb_get DZ d (\<lambda>z. shmpi_mul_int c DT1 DY (sint z)), shmpi_shift_l c DT1 (64 * d)])
      (mpi_seq [shmpi_sub_mpi c DX DX DT1, div_add_back c t i]) h"
    using assms(3) by (simp add: div_apply_def mpi_chk_assoc mpi_ret_chk)
  also have "\<dots> = Inr (0, h3)" by (rule mpi_chk_run, rule T(1)) (use X(1) h3(1) in \<open>simp add: h1_def h2_def\<close>)
  finally have run: "div_apply c t i h = Inr (0, h3)" .
  have "frame {DX, DZ, DT1} h h2" by (simp add: h2_def h1_def)
  then have "frame {DX, DZ, DT1} h h3" using h3(2) by (rule frame_trans)
  moreover have "h2 DZ = h DZ" by (simp add: h2_def h1_def)
  ultimately show ?thesis using run h3(3-5) by (intro exI [of _ h3]) simp
qed

lemma div_digit_ok:
  assumes "libc_total c" "div_inv n t h" "i = t + Suc d" "i \<le> n" "digit_pre (mp_p (h DX)) (mp_p (h DY)) t d" "0 \<le> mpi_val (h DX)"
    and "x = limbs_val (mp_p (h DX))" "D = limbs_val (mp_p (h DY)) * limb_base ^ d"
  shows "\<exists>h'. div_digit c t i h = Inr (0, h') \<and> frame {DX, DZ, DT1, DT2} h h' \<and> div_inv n t h' \<and> mpi_val (h' DX) = int (x mod D) \<and>
    (\<exists>g. h' DZ = (h DZ)\<lparr>mp_p := (mp_p (h DZ))[d := g]\<rparr> \<and> unat g = x div D)"
proof -
  define q where "q = x div D"
  have dZ: "d < length (mp_p (h DZ))" using assms(2-4) by (auto simp: div_inv_def)
  obtain g where g: "div_guess t i h = Inr (0, h(DZ := (h DZ)\<lparr>mp_p := (mp_p (h DZ))[d := g]\<rparr>))" "q \<le> unat g"
    using div_guess_ok [OF assms(2-5)] unfolding q_def assms(7,8) by blast
  define h1 where "h1 = h(DZ := (h DZ)\<lparr>mp_p := (mp_p (h DZ))[d := g + 1]\<rparr>)"
  have s1: "mpi_seq [div_guess t i, limb_upd DZ (i - t - 1) (\<lambda>z. z + 1)] h = Inr (0, h1)"
    using g(1) dZ assms(3) by (simp add: limb_upd_def h1_def)
  have eq1: "h1 DX = h DX" "h1 DY = h DY" by (simp_all add: h1_def)
  have i1: "div_inv n t h1" unfolding h1_def by (rule div_inv_Z [OF assms(2)])
  have gz: "g = mp_p (h1 DZ) ! d - 1" using dZ by (simp add: h1_def)
  have dp1: "digit_pre (mp_p (h1 DX)) (mp_p (h1 DY)) t d" unfolding eq1 by (rule assms(5))
  have q1: "q = limbs_val (mp_p (h1 DX)) div (limbs_val (mp_p (h1 DY)) * limb_base ^ d)" unfolding eq1 q_def assms(7,8) ..
  obtain h2 z where h2: "mpi_chk (div_trial c t i) (mpi_while (\<lambda>h. Inr (0 < shmpi_cmp_mpi (h DT1) (h DT2))) (div_trial c t i)) h1 = Inr (0, h2)"
      "frame {DZ, DT1, DT2} h1 h2" "h2 DZ = (h1 DZ)\<lparr>mp_p := (mp_p (h1 DZ))[d := z]\<rparr>" "div_inv n t h2" "q \<le> unat z"
      "unat z * div2 (mp_p (h1 DY)) t \<le> top3 (mp_p (h1 DX)) i"
    using trial_loop [OF assms(1,3,4) i1 dp1 gz q1 g(2)] by blast
  have eq2: "h2 DX = h DX" "h2 DY = h DY" using h2(2) eq1 by (simp_all add: frame_def)
  have z: "unat z = unat (mp_p (h2 DZ) ! d)" using h2(3) dZ by (simp add: h1_def)
  have "\<exists>h'. div_apply c t i h2 = Inr (0, h') \<and> frame {DX, DZ, DT1} h2 h' \<and> div_inv n t h' \<and> mpi_val (h' DX) = int (x mod D) \<and>
      (\<exists>g. h' DZ = (h2 DZ)\<lparr>mp_p := (mp_p (h2 DZ))[d := g]\<rparr> \<and> unat g = q)"
    using assms(5-8) h2(5,6) z
    by (intro div_apply_ok [OF assms(1) h2(4) assms(3,4) _ _ _ _ q_def refl]) (simp_all add: eq1 eq2)
  then obtain h3 where h3: "div_apply c t i h2 = Inr (0, h3)" "frame {DX, DZ, DT1} h2 h3" "div_inv n t h3" "mpi_val (h3 DX) = int (x mod D)"
      "\<exists>g. h3 DZ = (h2 DZ)\<lparr>mp_p := (mp_p (h2 DZ))[d := g]\<rparr> \<and> unat g = q" by blast
  have "div_digit c t i h = mpi_chk (mpi_seq [div_guess t i, limb_upd DZ (i - t - 1) (\<lambda>z. z + 1)])
     (mpi_chk (mpi_chk (div_trial c t i) (mpi_while (\<lambda>h. Inr (0 < shmpi_cmp_mpi (h DT1) (h DT2))) (div_trial c t i))) (mpi_seq [div_apply c t i])) h"
    by (simp add: div_digit_def mpi_chk_assoc mpi_ret_chk)
  also have "\<dots> = Inr (0, h3)" by (rule mpi_chk_run, rule s1, rule mpi_chk_run, rule h2(1)) (use h3(1) in simp)
  finally have run: "div_digit c t i h = Inr (0, h3)" .
  have "frame {DX, DZ, DT1, DT2} h h1" by (simp add: h1_def)
  moreover have "frame {DX, DZ, DT1, DT2} h1 h2" using h2(2) by (rule frame_mono) auto
  moreover have "frame {DX, DZ, DT1, DT2} h2 h3" using h3(2) by (rule frame_mono) auto
  ultimately have "frame {DX, DZ, DT1, DT2} h h3" by (blast intro: frame_trans)
  moreover have "h2 DZ = (h DZ)\<lparr>mp_p := (mp_p (h DZ))[d := z]\<rparr>" using h2(3) by (simp add: h1_def)
  ultimately show ?thesis using run h3(3-5) by (intro exI [of _ h3]) (auto simp: q_def)
qed

lemma div_digits_ok:
  assumes "libc_total c"
  shows "div_inv n t h \<Longrightarrow> t + d \<le> n \<Longrightarrow> 0 \<le> mpi_val (h DX) \<Longrightarrow> limbs_val (mp_p (h DX)) < limbs_val (mp_p (h DY)) * limb_base ^ d \<Longrightarrow>
    limbs_val (take d (mp_p (h DZ))) = 0 \<Longrightarrow>
    \<exists>h'. div_digits c t d h = Inr (0, h') \<and> frame {DX, DZ, DT1, DT2} h h' \<and> div_inv n t h' \<and> 0 \<le> mpi_val (h' DX) \<and>
      limbs_val (mp_p (h' DX)) < limbs_val (mp_p (h DY)) \<and>
      limbs_val (mp_p (h' DZ)) * limbs_val (mp_p (h DY)) + limbs_val (mp_p (h' DX)) = limbs_val (mp_p (h DZ)) * limbs_val (mp_p (h DY)) + limbs_val (mp_p (h DX))"
proof (induction d arbitrary: h)
  case 0
  then show ?case by auto
next
  case (Suc d)
  let ?y = "limbs_val (mp_p (h DY))" and ?x = "limbs_val (mp_p (h DX))" and ?Z = "mp_p (h DZ)"
  have iv: "t + Suc d < length (mp_p (h DX))" "t < length (mp_p (h DY))" "?y < limb_base ^ Suc t" "mp_p (h DY) ! t \<noteq> 0" "Suc d < length ?Z"
    using Suc.prems(1,2) by (auto simp: div_inv_def)
  have dp: "digit_pre (mp_p (h DX)) (mp_p (h DY)) t d" using iv Suc.prems(4) by (simp add: digit_pre_def)
  obtain h1 g where h1: "div_digit c t (t + Suc d) h = Inr (0, h1)" "frame {DX, DZ, DT1, DT2} h h1" "div_inv n t h1"
      "mpi_val (h1 DX) = int (?x mod (?y * limb_base ^ d))" "h1 DZ = (h DZ)\<lparr>mp_p := ?Z[d := g]\<rparr>" "unat g = ?x div (?y * limb_base ^ d)"
    using div_digit_ok [OF assms(1) Suc.prems(1) refl Suc.prems(2) dp Suc.prems(3) refl refl] by blast
  have y: "h1 DY = h DY" using h1(2) by (simp add: frame_def)
  have "mpi_ok (h1 DX)" using h1(3) by (simp add: div_inv_def)
  then have x1: "limbs_val (mp_p (h1 DX)) = ?x mod (?y * limb_base ^ d)" using limbs_abs [of "h1 DX"] h1(4) by simp
  have z0: "?Z ! d = 0" "limbs_val (take d ?Z) = 0" using Suc.prems(5) iv(5) by (simp_all add: limbs_val_take_Suc unat_eq_0)
  have zv: "limbs_val (mp_p (h1 DZ)) = limbs_val ?Z + limb_base ^ d * unat g"
    using limbs_val_upd [of d ?Z g] iv(5) z0(1) h1(5) by simp
  have "0 < ?y * limb_base ^ d" using digit_X(2) [OF dp] by simp
  then have pre: "limbs_val (mp_p (h1 DX)) < limbs_val (mp_p (h1 DY)) * limb_base ^ d" unfolding x1 y by simp
  have tz: "limbs_val (take d (mp_p (h1 DZ))) = 0" using z0(2) h1(5) by simp
  obtain h2 where h2: "div_digits c t d h1 = Inr (0, h2)" "frame {DX, DZ, DT1, DT2} h1 h2" "div_inv n t h2" "0 \<le> mpi_val (h2 DX)"
      "limbs_val (mp_p (h2 DX)) < ?y" "limbs_val (mp_p (h2 DZ)) * ?y + limbs_val (mp_p (h2 DX)) = limbs_val (mp_p (h1 DZ)) * ?y + limbs_val (mp_p (h1 DX))"
    using Suc.IH [OF h1(3) _ _ pre tz] Suc.prems(2) h1(4) unfolding y by auto
  have "limbs_val (mp_p (h1 DZ)) * ?y + limbs_val (mp_p (h1 DX)) = limbs_val ?Z * ?y + (?x div (?y * limb_base ^ d) * (?y * limb_base ^ d) + ?x mod (?y * limb_base ^ d))"
    unfolding zv x1 h1(6) by (simp add: algebra_simps)
  then have "limbs_val (mp_p (h1 DZ)) * ?y + limbs_val (mp_p (h1 DX)) = limbs_val ?Z * ?y + ?x" by (simp only: div_mult_mod_eq)
  then show ?case using h1(1) h2 frame_trans [OF h1(2) h2(2)] by (intro exI [of _ h2]) simp
qed

end
