(* ===== verification/Share_Mpi_Quot.thy ===== *)
theory Share_Mpi_Quot
  imports Share_Mpi_Digit "HOL-Library.Signed_Division"
begin

text \<open>
  The quotient and the remainder: the highest digit, the core of the division, what comes before and after it, and the
  functions that divide.
\<close>

section \<open>The highest digit\<close>

definition first_pre :: "nat \<Rightarrow> nat \<Rightarrow> mpis \<Rightarrow> bool" where
  "first_pre n e h \<longleftrightarrow> n + 3 < MPI_MAX_LIMBS \<and> blank_locals 1 h \<and>
     (mpi_ok (h DX) \<and> n < length (mp_p (h DX)) \<and> length (mp_p (h DX)) \<le> n + 3 \<and> 0 \<le> mpi_val (h DX) \<and> limbs_val (mp_p (h DX)) < limb_base ^ (n + 1)) \<and>
     (mpi_ok (h DY) \<and> mp_s (h DY) = 1 \<and> length (mp_p (h DY)) \<le> n + 3 \<and> 0 < limbs_val (mp_p (h DY)) \<and> limbs_val (mp_p (h DY)) < limb_base ^ (n + 1)) \<and>
     (mpi_ok (h DZ) \<and> e < length (mp_p (h DZ)) \<and> unat (mp_p (h DZ) ! e) + limbs_val (mp_p (h DX)) div limbs_val (mp_p (h DY)) < limb_base)"

lemma cmp_mpi_ge: "mpi_ok X \<Longrightarrow> mpi_ok Y \<Longrightarrow> 0 \<le> shmpi_cmp_mpi X Y \<longleftrightarrow> mpi_val Y \<le> mpi_val X"
  by (simp add: cmp_mpi_val sgn_if)

lemma limbs_nonneg: "mpi_ok X \<Longrightarrow> 0 \<le> mpi_val X \<Longrightarrow> mpi_val X = int (limbs_val (mp_p X))"
  using limbs_abs [of X] by simp

lemma first_step:
  assumes "libc_total c" "first_pre n e h" "limbs_val (mp_p (h DY)) \<le> limbs_val (mp_p (h DX))"
  shows "\<exists>h'. mpi_seq [limb_upd DZ e (\<lambda>z. z + 1), shmpi_sub_mpi c DX DX DY] h = Inr (0, h') \<and> frame {DX, DZ} h h' \<and> first_pre n e h' \<and>
    limbs_val (mp_p (h' DX)) = limbs_val (mp_p (h DX)) - limbs_val (mp_p (h DY)) \<and>
    (\<exists>w. h' DZ = (h DZ)\<lparr>mp_p := (mp_p (h DZ))[e := w]\<rparr> \<and> unat w = Suc (unat (mp_p (h DZ) ! e)))"
proof -
  let ?x = "limbs_val (mp_p (h DX))" and ?y = "limbs_val (mp_p (h DY))"
  define w where "w = mp_p (h DZ) ! e + 1"
  define h1 where "h1 = h(DZ := (h DZ)\<lparr>mp_p := (mp_p (h DZ))[e := w]\<rparr>)"
  have fp: "n + 3 < MPI_MAX_LIMBS" "blank_locals 1 h" "mpi_ok (h DX)" "n < length (mp_p (h DX))" "length (mp_p (h DX)) \<le> n + 3" "0 \<le> mpi_val (h DX)"
      "?x < limb_base ^ (n + 1)" "mpi_ok (h DY)" "mp_s (h DY) = 1" "length (mp_p (h DY)) \<le> n + 3" "0 < ?y" "?y < limb_base ^ (n + 1)" "mpi_ok (h DZ)"
      "e < length (mp_p (h DZ))" "unat (mp_p (h DZ) ! e) + ?x div ?y < limb_base"
    using assms(2) by (auto simp: first_pre_def)
  have qx: "?x div ?y = Suc ((?x - ?y) div ?y)" using assms(3) fp(11) by (simp add: le_div_geq)
  have w: "unat w = Suc (unat (mp_p (h DZ) ! e))"
  proof -
    have "unat (mp_p (h DZ) ! e) + 1 < limb_base" using fp(15) qx by simp
    then show ?thesis unfolding w_def unat_add_mod by simp
  qed
  have args: "blank_locals 1 h1" "mpi_arg 1 h1 DX" "mpi_arg 1 h1 DY" using fp(1,2,3,5,8,10) by (simp_all add: h1_def mpi_arg_def)
  obtain X where X: "shmpi_sub_mpi c DX DX DY h1 = Inr (0, h1(DX := X))" "mpi_ok X" "mpi_val X = mpi_val (h1 DX) - mpi_val (h1 DY)" "len_bound h1 DX DX DY X"
    using sub_mpi_ex [OF assms(1) args(1,2,2,3)] by blast
  have vX: "mpi_val X = int (?x - ?y)"
    using X(3) limbs_nonneg [OF fp(3,6)] fp(9) assms(3) by (simp add: h1_def mpi_val_def of_nat_diff)
  then have lX: "limbs_val (mp_p X) = ?x - ?y" using limbs_abs [OF X(2)] by simp
  have up: "v < limb_base ^ (n + 3)" if "v < limb_base ^ (n + 1)" for v
  proof -
    note that also have "limb_base ^ (n + 1) \<le> limb_base ^ (n + 3)" by (intro power_increasing) simp_all
    finally show ?thesis .
  qed
  have xy: "?x - ?y < limb_base ^ (n + 1)" using fp(7) by simp
  have l1: "length (mp_p X) \<le> n + 3"
    by (rule len_boundD [OF X(4)]) (use up [OF fp(7)] up [OF fp(12)] up [OF xy] fp(5) lX in \<open>simp_all add: h1_def\<close>)
  have "mp_p (h DY) \<noteq> []" "mp_p (h DX) \<noteq> []" using fp(4,11) by auto
  then have l2: "n < length (mp_p X)" using X(4) fp(4) by (simp add: len_bound_def h1_def)
  have "first_pre n e (h1(DX := X))"
    using fp w qx X(2) l1 l2 lX xy vX by (simp add: first_pre_def h1_def mpi_ok_limbs)
  moreover have "mpi_seq [limb_upd DZ e (\<lambda>z. z + 1), shmpi_sub_mpi c DX DX DY] h = Inr (0, h1(DX := X))"
    using X(1) fp(14) by (simp add: limb_upd_def h1_def w_def)
  moreover have "frame {DX, DZ} h (h1(DX := X))" by (simp add: h1_def)
  ultimately show ?thesis using lX w by (intro exI [of _ "h1(DX := X)"] conjI exI [of _ w]) (simp_all add: h1_def)
qed

lemma div_first_ok:
  assumes "libc_total c"
  shows "first_pre n e h \<Longrightarrow> limbs_val (mp_p (h DY)) = y * limb_base ^ e \<Longrightarrow>
    \<exists>h'. div_first c e h = Inr (0, h') \<and> frame {DX, DZ} h h' \<and> first_pre n e h' \<and> limbs_val (mp_p (h' DX)) < limbs_val (mp_p (h DY)) \<and>
    (\<exists>w. h' DZ = (h DZ)\<lparr>mp_p := (mp_p (h DZ))[e := w]\<rparr>) \<and>
    limbs_val (mp_p (h' DZ)) * y + limbs_val (mp_p (h' DX)) = limbs_val (mp_p (h DZ)) * y + limbs_val (mp_p (h DX))"
proof (induction "limbs_val (mp_p (h DX))" arbitrary: h rule: less_induct)
  case less
  let ?x = "limbs_val (mp_p (h DX))" and ?y = "limbs_val (mp_p (h DY))" and ?Z = "mp_p (h DZ)"
  let ?m = "mpi_seq [limb_upd DZ e (\<lambda>z. z + 1), shmpi_sub_mpi c DX DX DY]"
  have fp: "mpi_ok (h DX)" "0 \<le> mpi_val (h DX)" "mpi_ok (h DY)" "mp_s (h DY) = 1" "0 < ?y" "e < length ?Z"
    using less.prems(1) by (auto simp: first_pre_def)
  have cond: "0 \<le> shmpi_cmp_mpi (h DX) (h DY) \<longleftrightarrow> ?y \<le> ?x"
    unfolding cmp_mpi_ge [OF fp(1,3)] limbs_nonneg [OF fp(1,2)] using fp(4) by (simp add: mpi_val_def)
  show ?case
  proof (cases "?y \<le> ?x")
    case True
    obtain h1 w where h1: "?m h = Inr (0, h1)" "frame {DX, DZ} h h1" "first_pre n e h1" "limbs_val (mp_p (h1 DX)) = ?x - ?y"
        "h1 DZ = (h DZ)\<lparr>mp_p := ?Z[e := w]\<rparr>" "unat w = Suc (unat (?Z ! e))"
      using first_step [OF assms less.prems(1) True] by blast
    have y1: "h1 DY = h DY" using h1(2) by (simp add: frame_def)
    have "limbs_val (mp_p (h1 DX)) < ?x" using h1(4) True fp(5) by simp
    then obtain h2 v where h2: "div_first c e h1 = Inr (0, h2)" "frame {DX, DZ} h1 h2" "first_pre n e h2" "limbs_val (mp_p (h2 DX)) < ?y"
        "h2 DZ = (h1 DZ)\<lparr>mp_p := (mp_p (h1 DZ))[e := v]\<rparr>"
        "limbs_val (mp_p (h2 DZ)) * y + limbs_val (mp_p (h2 DX)) = limbs_val (mp_p (h1 DZ)) * y + limbs_val (mp_p (h1 DX))"
      using less.hyps [OF _ h1(3)] less.prems(2) unfolding y1 by blast
    have "div_first c e h = div_first c e h1"
      unfolding div_first_def using h1(1) cond True by (subst mpi_while_unfold) simp
    moreover have "limbs_val (mp_p (h1 DZ)) = limbs_val ?Z + limb_base ^ e"
      using limbs_val_upd [OF fp(6), of w] h1(5,6) by simp
    then have "limbs_val (mp_p (h1 DZ)) * y + limbs_val (mp_p (h1 DX)) = limbs_val ?Z * y + ?x"
      using h1(4) True less.prems(2) by (simp add: algebra_simps)
    moreover have "h2 DZ = (h DZ)\<lparr>mp_p := ?Z[e := v]\<rparr>" using h2(5) h1(5) by simp
    ultimately show ?thesis using h2(1,3,4,6) frame_trans [OF h1(2) h2(2)] by auto
  next
    case False
    have "div_first c e h = Inr (0, h)"
      unfolding div_first_def using cond False by (subst mpi_while_unfold) simp
    moreover have "h DZ = (h DZ)\<lparr>mp_p := ?Z[e := ?Z ! e]\<rparr>" by simp
    ultimately show ?thesis using less.prems(1) False by (intro exI [of _ h]) (auto simp del: list_update_id)
  qed
qed

section \<open>The core\<close>

definition core_pre :: "mpis \<Rightarrow> bool" where
  "core_pre h \<longleftrightarrow> blank_locals 2 h \<and> length (mp_p (h DX)) + 2 < MPI_MAX_LIMBS \<and> mp_p (h DX) \<noteq> [] \<and>
     mpi_ok (h DX) \<and> mp_s (h DX) = 1 \<and> mpi_ok (h DY) \<and> mp_s (h DY) = 1 \<and> mp_p (h DY) \<noteq> [] \<and> used_limbs (mp_p (h DY)) = length (mp_p (h DY)) \<and>
     limbs_val (mp_p (h DY)) \<le> limbs_val (mp_p (h DX)) \<and>
     mpi_ok (h DZ) \<and> mp_s (h DZ) = 1 \<and> limbs_val (mp_p (h DZ)) = 0 \<and> length (mp_p (h DX)) \<le> length (mp_p (h DZ)) \<and>
     mpi_ok (h DT1) \<and> length (mp_p (h DT1)) = 2 \<and> mpi_ok (h DT2) \<and> length (mp_p (h DT2)) = 3"

lemma core_dims:
  assumes "core_pre h" "n = length (mp_p (h DX)) - 1" "t = length (mp_p (h DY)) - 1" "e = n - t"
  shows "n + 3 < MPI_MAX_LIMBS" "length (mp_p (h DX)) = Suc n" "Suc n \<le> length (mp_p (h DZ))" "length (mp_p (h DY)) = Suc t"
    "used_limbs (mp_p (h DY)) = Suc t" "limbs_val (mp_p (h DX)) < limb_base ^ (n + 1)" "limbs_val (mp_p (h DY)) < limb_base ^ Suc t"
    "limb_base ^ t \<le> limbs_val (mp_p (h DY))" "t \<le> n" "Suc t + e = n + 1" "0 < limbs_val (mp_p (h DY))"
    "limbs_val (mp_p (h DY)) * limb_base ^ e < limb_base ^ (n + 1)"
    "limbs_val (mp_p (h DX)) div (limbs_val (mp_p (h DY)) * limb_base ^ e) < limb_base"
proof -
  let ?x = "limbs_val (mp_p (h DX))" and ?y = "limbs_val (mp_p (h DY))"
  have cp: "mp_p (h DX) \<noteq> []" "mp_p (h DY) \<noteq> []" "?y \<le> ?x" "length (mp_p (h DX)) + 2 < MPI_MAX_LIMBS"
      "length (mp_p (h DX)) \<le> length (mp_p (h DZ))" "used_limbs (mp_p (h DY)) = length (mp_p (h DY))"
    using assms(1) by (auto simp: core_pre_def)
  show n: "length (mp_p (h DX)) = Suc n" and t: "length (mp_p (h DY)) = Suc t" using cp(1,2) assms(2,3) by simp_all
  show "n + 3 < MPI_MAX_LIMBS" "Suc n \<le> length (mp_p (h DZ))" using cp(4,5) n by simp_all
  show u: "used_limbs (mp_p (h DY)) = Suc t" using cp(6) t by simp
  show xn: "?x < limb_base ^ (n + 1)" using limbs_val_lt [of "mp_p (h DX)"] n by simp
  show yt: "?y < limb_base ^ Suc t" using limbs_val_lt [of "mp_p (h DY)"] t by simp
  show yl: "limb_base ^ t \<le> ?y" using used_limbs_bound [of "mp_p (h DY)"] u by simp
  have "limb_base ^ t < limb_base ^ (n + 1)" using yl cp(3) xn by (blast intro: le_less_trans le_trans)
  then have "t < n + 1" by (rule power_less_imp_less_exp [rotated]) simp
  then show tn: "t \<le> n" by simp
  then show en: "Suc t + e = n + 1" by (simp add: assms(4))
  show "0 < ?y" using yl by (rule less_le_trans [rotated]) simp
  have "?y * limb_base ^ e < limb_base ^ Suc t * limb_base ^ e" using yt by simp
  then show "?y * limb_base ^ e < limb_base ^ (n + 1)" by (simp only: en flip: power_add)
  show "?x div (?y * limb_base ^ e) < limb_base"
  proof (rule less_mult_imp_div_less)
    have "limb_base ^ (n + 1) = limb_base * (limb_base ^ t * limb_base ^ e)" by (simp add: assms(4) tn flip: power_add)
    also have "\<dots> \<le> limb_base * (?y * limb_base ^ e)" using yl by simp
    finally show "?x < limb_base * (?y * limb_base ^ e)" by (rule less_le_trans [OF xn])
  qed
qed

lemma core_first:
  assumes "libc_total c" "core_pre h" "n = length (mp_p (h DX)) - 1" "t = length (mp_p (h DY)) - 1" "e = n - t"
  shows "\<exists>h'. mpi_seq [shmpi_shift_l c DY (64 * e), div_first c e, shmpi_shift_r c DY (64 * e)] h = Inr (0, h') \<and> frame {DX, DY, DZ} h h' \<and>
    div_inv n t h' \<and> 0 \<le> mpi_val (h' DX) \<and> limbs_val (mp_p (h' DX)) < limbs_val (mp_p (h' DY)) * limb_base ^ e \<and> limbs_val (take e (mp_p (h' DZ))) = 0 \<and>
    limbs_val (mp_p (h' DY)) = limbs_val (mp_p (h DY)) \<and>
    limbs_val (mp_p (h' DZ)) * limbs_val (mp_p (h DY)) + limbs_val (mp_p (h' DX)) = limbs_val (mp_p (h DX))"
proof -
  let ?y = "limbs_val (mp_p (h DY))"
  note dim = core_dims [OF assms(2-5)]
  have cp: "blank_locals 2 h" "mpi_ok (h DX)" "mp_s (h DX) = 1" "mpi_ok (h DY)" "mp_s (h DY) = 1" "mpi_ok (h DZ)" "mp_s (h DZ) = 1"
      "limbs_val (mp_p (h DZ)) = 0" "mpi_ok (h DT1)" "length (mp_p (h DT1)) = 2" "mpi_ok (h DT2)" "length (mp_p (h DT2)) = 3"
    using assms(2) by (auto simp: core_pre_def)
  have le: "Suc t + e \<le> MPI_MAX_LIMBS" using dim(10,1) by simp
  obtain Y where Y: "shmpi_shift_l c DY (64 * e) h = Inr (0, h(DY := Y))" "mpi_ok Y" "mp_s Y = mp_s (h DY)" "limbs_val (mp_p Y) = ?y * limb_base ^ e"
      "length (mp_p Y) \<le> max (length (mp_p (h DY))) (Suc t + e)" "length (mp_p (h DY)) \<le> length (mp_p Y)"
    using shift_limbs_ok [where h = h and x = DY, OF assms(1) cp(4) dim(7) le] by blast
  define h1 where "h1 = h(DY := Y)"
  have ez: "e < length (mp_p (h DZ))" using dim(3,9) assms(5) by simp
  have f1: "first_pre n e h1"
    using cp dim Y(2-5) ez limbs_val_0 [OF cp(8) ez] blank_locals_mono [OF cp(1), of 1] by (auto simp: first_pre_def h1_def mpi_val_def)
  obtain h2 w where h2: "div_first c e h1 = Inr (0, h2)" "frame {DX, DZ} h1 h2" "first_pre n e h2" "limbs_val (mp_p (h2 DX)) < limbs_val (mp_p (h1 DY))"
      "h2 DZ = (h1 DZ)\<lparr>mp_p := (mp_p (h1 DZ))[e := w]\<rparr>"
      "limbs_val (mp_p (h2 DZ)) * ?y + limbs_val (mp_p (h2 DX)) = limbs_val (mp_p (h1 DZ)) * ?y + limbs_val (mp_p (h1 DX))"
    using div_first_ok [OF assms(1) f1, of ?y] Y(4) by (auto simp: h1_def)
  have h2Y: "h2 DY = Y" "h2 DT1 = h DT1" "h2 DT2 = h DT2" using h2(2) by (simp_all add: frame_def h1_def)
  have bl: "blank_locals 2 h2" by (rule frame_blank [OF h2(2)]) (use cp(1) in \<open>auto simp: h1_def\<close>)
  have Yp: "mpi_ok (h2 DY)" "mp_p (h2 DY) \<noteq> []" using Y(2,6) dim(4) h2Y(1) by auto
  obtain V where V: "shmpi_shift_r c DY (64 * e) h2 = Inr (0, h2(DY := V))" "mpi_ok V" "limbs_val (mp_p V) = limbs_val (mp_p Y) div 2 ^ (64 * e)"
      "limbs_val (mp_p V) \<noteq> 0 \<longrightarrow> mp_s V = mp_s Y" "length (mp_p V) = length (mp_p Y)"
    using shift_r_ex [where h = h2 and x = DY and count = "64 * e", OF assms(1) Yp] unfolding h2Y by blast
  have vV: "limbs_val (mp_p V) = ?y" unfolding V(3) Y(4) limb_base_pow by simp
  have Vt: "mp_p V ! t \<noteq> 0" using used_limbs_top [of "mp_p V"] used_eq [OF vV] dim(5) by simp
  define h3 where "h3 = h2(DY := V)"
  have "div_inv n t h3"
    using h2(3,5) bl h2Y V(2,4,5) vV Vt Y(3,5,6) cp dim ez by (auto simp: div_inv_def first_pre_def h3_def h1_def mpi_ok_limbs)
  moreover have "mpi_seq [shmpi_shift_l c DY (64 * e), div_first c e, shmpi_shift_r c DY (64 * e)] h = Inr (0, h3)"
    using Y(1) h2(1) V(1) by (simp add: h1_def h3_def)
  moreover have "frame {DX, DY, DZ} h h3" using frame_mono [OF h2(2), of "{DX, DY, DZ}"] by (simp add: h3_def h1_def frame_def)
  moreover have "0 \<le> mpi_val (h3 DX)" using h2(3) by (simp add: first_pre_def h3_def)
  moreover have "limbs_val (take e (mp_p (h3 DZ))) = 0" using h2(5) limbs_val_split [of e "mp_p (h DZ)"] cp(8) ez by (simp add: h3_def h1_def)
  ultimately show ?thesis using vV h2(4,6) Y(4) cp(8) by (intro exI [of _ h3]) (simp add: h3_def h1_def)
qed

lemma div_core_ok:
  assumes "libc_total c" "core_pre h"
  shows "\<exists>h'. div_core c h = Inr (0, h') \<and> frame {DX, DY, DZ, DT1, DT2} h h' \<and> mpi_ok (h' DX) \<and> 0 \<le> mpi_val (h' DX) \<and> mp_p (h' DX) \<noteq> [] \<and>
    mpi_ok (h' DZ) \<and> mp_s (h' DZ) = 1 \<and> mp_p (h' DZ) \<noteq> [] \<and>
    limbs_val (mp_p (h' DZ)) = limbs_val (mp_p (h DX)) div limbs_val (mp_p (h DY)) \<and>
    limbs_val (mp_p (h' DX)) = limbs_val (mp_p (h DX)) mod limbs_val (mp_p (h DY))"
proof -
  let ?x = "limbs_val (mp_p (h DX))" and ?y = "limbs_val (mp_p (h DY))"
  define n where "n = length (mp_p (h DX)) - 1"
  define t where "t = length (mp_p (h DY)) - 1"
  define e where "e = n - t"
  note dim = core_dims [OF assms(2) n_def t_def e_def]
  obtain h1 where h1: "mpi_seq [shmpi_shift_l c DY (64 * e), div_first c e, shmpi_shift_r c DY (64 * e)] h = Inr (0, h1)" "frame {DX, DY, DZ} h h1"
      "div_inv n t h1" "0 \<le> mpi_val (h1 DX)" "limbs_val (mp_p (h1 DX)) < limbs_val (mp_p (h1 DY)) * limb_base ^ e" "limbs_val (take e (mp_p (h1 DZ))) = 0"
      "limbs_val (mp_p (h1 DY)) = ?y" "limbs_val (mp_p (h1 DZ)) * ?y + limbs_val (mp_p (h1 DX)) = ?x"
    using core_first [OF assms n_def t_def e_def] by blast
  have te: "t + e \<le> n" using dim(9) by (simp add: e_def)
  obtain h2 where h2: "div_digits c t e h1 = Inr (0, h2)" "frame {DX, DZ, DT1, DT2} h1 h2" "div_inv n t h2" "0 \<le> mpi_val (h2 DX)"
      "limbs_val (mp_p (h2 DX)) < ?y" "limbs_val (mp_p (h2 DZ)) * ?y + limbs_val (mp_p (h2 DX)) = ?x"
    using div_digits_ok [OF assms(1) h1(3) te h1(4-6)] unfolding h1(7,8) by blast
  have "div_core c h = mpi_chk (mpi_seq [shmpi_shift_l c DY (64 * e), div_first c e, shmpi_shift_r c DY (64 * e)]) (mpi_seq [div_digits c t e]) h"
    unfolding div_core_def Let_def n_def [symmetric] t_def [symmetric] e_def [symmetric] using dim(9) by (simp add: mpi_chk_assoc mpi_ret_chk)
  also have "\<dots> = Inr (0, h2)" by (rule mpi_chk_run, rule h1(1)) (use h2(1) in simp)
  finally have run: "div_core c h = Inr (0, h2)" .
  have "frame {DX, DY, DZ, DT1, DT2} h h1" using h1(2) by (rule frame_mono) auto
  moreover have "frame {DX, DY, DZ, DT1, DT2} h1 h2" using h2(2) by (rule frame_mono) auto
  ultimately have fr: "frame {DX, DY, DZ, DT1, DT2} h h2" by (rule frame_trans)
  have "limbs_val (mp_p (h2 DZ)) = ?x div ?y" "limbs_val (mp_p (h2 DX)) = ?x mod ?y"
    using h2(5) by (simp_all flip: h2(6))
  moreover have "mpi_ok (h2 DX)" "mp_p (h2 DX) \<noteq> []" "mpi_ok (h2 DZ)" "mp_s (h2 DZ) = 1" "mp_p (h2 DZ) \<noteq> []" using h2(3) by (auto simp: div_inv_def)
  ultimately show ?thesis using run fr h2(4) by blast
qed

section \<open>Before and after\<close>

abbreviation "div_locals \<equiv> {DX, DY, DZ, DT1, DT2}"

lemma msb_pos: "0 < limbs_val (mp_p X) \<Longrightarrow> 0 < shmpi_msb X \<and> 2 ^ (shmpi_msb X - 1) \<le> limbs_val (mp_p X)"
  using msb_val [of X 0] msb_val [of X "shmpi_msb X - 1"] by (cases "shmpi_msb X") (auto simp: not_less)

lemma shift_small_ok:
  assumes "libc_total c" "mpi_ok (h x)" "length (mp_p (h x)) < MPI_MAX_LIMBS" "k < 64"
  shows "\<exists>X. shmpi_shift_l c x k h = Inr (0, h(x := X)) \<and> mpi_ok X \<and> mp_s X = mp_s (h x) \<and> limbs_val (mp_p X) = limbs_val (mp_p (h x)) * 2 ^ k \<and>
    length (mp_p (h x)) \<le> length (mp_p X) \<and> length (mp_p X) \<le> Suc (length (mp_p (h x))) \<and>
    (mp_p (h x) \<noteq> [] \<and> used_limbs (mp_p (h x)) = length (mp_p (h x)) \<longrightarrow> used_limbs (mp_p X) = length (mp_p X))"
proof -
  let ?p = "mp_p (h x)" and ?m = "shmpi_msb (h x)"
  have m: "?m \<le> 64 * length ?p" using limbs_val_lt [of ?p] by (simp add: limb_base_pow flip: msb_val)
  then have "?m + k \<le> 64 * MPI_MAX_LIMBS" using assms(3,4) by linarith
  then obtain X where X: "shmpi_shift_l c x k h = Inr (0, h(x := X))" "mpi_ok X" "mp_s X = mp_s (h x)" "limbs_val (mp_p X) = limbs_val ?p * 2 ^ k"
      "length (mp_p X) = max (length ?p) (if length ?p * 64 < ?m + k then (?m + k + 63) div 64 else 0)"
    using shift_l_ok [where h = h and x = x, OF assms(1,2)] by metis
  have l: "(?m + k + 63) div 64 \<le> Suc (length ?p)" using m assms(4) by linarith
  have "used_limbs (mp_p X) = length (mp_p X)" if u: "?p \<noteq> []" "used_limbs ?p = length ?p"
  proof (rule ccontr)
    assume "used_limbs (mp_p X) \<noteq> length (mp_p X)"
    then have "used_limbs (mp_p X) \<le> length (mp_p X) - 1" using used_limbs_le [of "mp_p X"] by simp
    then have lt: "limbs_val ?p * 2 ^ k < limb_base ^ (length (mp_p X) - 1)" unfolding used_limbs_le_iff [symmetric] X(4) .
    have v: "limb_base ^ (length ?p - 1) \<le> limbs_val ?p" using used_limbs_bound [of ?p] u by simp
    then have v0: "0 < limbs_val ?p" by (rule less_le_trans [rotated]) simp
    show False
    proof (cases "length ?p * 64 < ?m + k \<and> length ?p < (?m + k + 63) div 64")
      case True
      then have L: "length (mp_p X) = (?m + k + 63) div 64" using X(5) by simp
      have "(2::nat) ^ (64 * (length (mp_p X) - 1)) \<le> 2 ^ (?m - 1 + k)"
        unfolding L using msb_pos [OF v0] by (intro power_increasing) (linarith, simp)
      also have "\<dots> = 2 ^ (?m - 1) * 2 ^ k" by (simp add: power_add)
      also have "\<dots> \<le> limbs_val ?p * 2 ^ k" using msb_pos [OF v0] by simp
      finally show False using lt by (simp add: limb_base_pow)
    next
      case False
      then have "length (mp_p X) = length ?p" using X(5) by (auto simp: max_def)
      then have "limbs_val ?p * 2 ^ k < limb_base ^ (length ?p - 1)" using lt by simp
      then have "limbs_val ?p * 2 ^ k < limbs_val ?p" using v by (rule less_le_trans)
      then show False by simp
    qed
  qed
  then show ?thesis using X l by (intro exI [of _ X]) (auto simp: max_def)
qed

definition init_post :: "mvar \<Rightarrow> mvar \<Rightarrow> mpis \<Rightarrow> bool" where
  "init_post a b h \<longleftrightarrow> blank_locals 2 h \<and>
     mpi_ok (h DX) \<and> mp_s (h DX) = 1 \<and> limbs_val (mp_p (h DX)) = limbs_val (mp_p (h a)) \<and> mp_p (h DX) \<noteq> [] \<and> length (mp_p (h DX)) \<le> length (mp_p (h a)) \<and>
     mpi_ok (h DY) \<and> mp_s (h DY) = 1 \<and> limbs_val (mp_p (h DY)) = limbs_val (mp_p (h b)) \<and> mp_p (h DY) \<noteq> [] \<and> used_limbs (mp_p (h DY)) = length (mp_p (h DY)) \<and>
     mpi_ok (h DZ) \<and> mp_s (h DZ) = 1 \<and> limbs_val (mp_p (h DZ)) = 0 \<and> length (mp_p (h DZ)) = length (mp_p (h a)) + 2 \<and>
     mpi_ok (h DT1) \<and> length (mp_p (h DT1)) = 2 \<and> mpi_ok (h DT2) \<and> length (mp_p (h DT2)) = 3"

lemma copy_init:
  assumes "libc_total c" "mpi_ok (h a)" "h l = shmpi_init" "limbs_val (mp_p (h a)) \<noteq> 0"
  shows "\<exists>X. shmpi_copy c l a h = Inr (0, h(l := X)) \<and> mpi_ok X \<and> limbs_val (mp_p X) = limbs_val (mp_p (h a)) \<and> mp_p X \<noteq> [] \<and>
    length (mp_p X) = used_limbs (mp_p (h a)) \<and> used_limbs (mp_p X) = length (mp_p X)"
proof -
  have u: "0 < used_limbs (mp_p (h a))" using assms(4) by (simp flip: used_limbs_0)
  obtain X where X: "shmpi_copy c l a h = Inr (0, h(l := X))" "mpi_ok X" "limbs_val (mp_p X) = limbs_val (mp_p (h a))"
      "length (mp_p X) \<le> max (length (mp_p (h l))) (max 1 (used_limbs (mp_p (h a))))"
    using copy_ex [of c h a l] assms(1-3) by auto
  have "used_limbs (mp_p X) = used_limbs (mp_p (h a))" using X(3) by (rule used_eq)
  moreover have "length (mp_p X) \<le> used_limbs (mp_p (h a))" using X(4) u assms(3) by simp
  ultimately have "length (mp_p X) = used_limbs (mp_p (h a))" "used_limbs (mp_p X) = length (mp_p X)" using used_limbs_le [of "mp_p X"] by simp_all
  then show ?thesis using X(1-3) u by auto
qed

lemma div_init_ok:
  assumes "libc_total c" "blank_locals 3 h" "outer_var 3 a" "outer_var 3 b" "mpi_ok (h a)" "mpi_ok (h b)" "length (mp_p (h a)) + 3 < MPI_MAX_LIMBS"
    and "limbs_val (mp_p (h a)) \<noteq> 0" "limbs_val (mp_p (h b)) \<noteq> 0"
  shows "\<exists>h'. div_init c a b h = Inr (0, h') \<and> frame div_locals h h' \<and> init_post a b h'"
proof -
  have bl: "h (Loc 2 j) = shmpi_init" for j using assms(2) by (simp add: blank_local)
  have ne: "a \<noteq> Loc 2 j" "b \<noteq> Loc 2 j" for j using assms(3,4) by auto
  obtain X where X: "shmpi_copy c DX a h = Inr (0, h(DX := X))" "mpi_ok X" "limbs_val (mp_p X) = limbs_val (mp_p (h a))" "mp_p X \<noteq> []"
      "length (mp_p X) = used_limbs (mp_p (h a))"
    using copy_init [of c h a DX] assms(1,5,8) bl by blast
  define h1 where "h1 = h(DX := X)"
  obtain Y where Y: "shmpi_copy c DY b h1 = Inr (0, h1(DY := Y))" "mpi_ok Y" "limbs_val (mp_p Y) = limbs_val (mp_p (h b))" "mp_p Y \<noteq> []"
      "used_limbs (mp_p Y) = length (mp_p Y)"
    using copy_init [of c h1 b DY] assms(1,6,9) bl ne by (auto simp: h1_def)
  define h2 where "h2 = h(DX := X\<lparr>mp_s := 1\<rparr>, DY := Y\<lparr>mp_s := 1\<rparr>, DZ := \<lparr>mp_s = 1, mp_p = replicate (length (mp_p (h a)) + 2) 0\<rparr>)"
  have "mpi_ok (h2 DZ)" using assms(7) by (simp add: h2_def mpi_ok_def)
  then obtain Z where Z: "shmpi_lset c DZ 0 h2 = Inr (0, h2(DZ := Z))" "mpi_ok Z" "limbs_val (mp_p Z) = 0" "length (mp_p Z) = length (mp_p (h a)) + 2" "mp_s Z = 1"
    using lset_ex [where h = h2 and x = DZ and z = 0, OF assms(1)] by (auto simp: h2_def sint_sign_def)
  let ?T = "\<lambda>n. \<lparr>mp_s = 1, mp_p = replicate n 0\<rparr>"
  define h3 where "h3 = h2(DZ := Z, DT1 := ?T 2, DT2 := ?T 3)"
  have g: "shmpi_grow c m shmpi_init = (0, ?T m)" if "m \<le> MPI_MAX_LIMBS" for m using grow_ok [OF assms(1) that] by (simp add: shmpi_init_def)
  have big: "length (mp_p (h a)) + 2 \<le> MPI_MAX_LIMBS" "2 \<le> MPI_MAX_LIMBS" "3 \<le> MPI_MAX_LIMBS" using assms(7) by simp_all
  have "div_init c a b h = Inr (0, h3)"
    using X(1) Y(1) Z(1) g [OF big(1)] g [OF big(2)] g [OF big(3)] bl ne unfolding div_init_def
    by (simp add: mpi_chk_def mpi_on_def set_sign_def h1_def h2_def h3_def fun_upd_twist)
  moreover have "frame div_locals h h3" by (simp add: h3_def h2_def)
  moreover have "init_post a b h3"
    using X(2-5) Y(2-5) Z(2-5) ne used_limbs_le [of "mp_p (h a)"] blank_locals_mono [OF assms(2), of 2] big
    by (auto simp: init_post_def h3_def h2_def mpi_ok_def)
  ultimately show ?thesis by blast
qed

lemma div_norm_ok:
  assumes "libc_total c" "init_post a b h" "length (mp_p (h a)) + 3 < MPI_MAX_LIMBS" "limbs_val (mp_p (h b)) \<le> limbs_val (mp_p (h a))" "k < 64"
    and "outer_var 3 a" "outer_var 3 b"
  shows "\<exists>h'. div_norm c k h = Inr (0, h') \<and> frame div_locals h h' \<and> core_pre h' \<and>
    limbs_val (mp_p (h' DX)) = limbs_val (mp_p (h a)) * 2 ^ k \<and> limbs_val (mp_p (h' DY)) = limbs_val (mp_p (h b)) * 2 ^ k"
proof -
  have ip: "mpi_ok (h DX)" "mpi_ok (h DY)" "length (mp_p (h DX)) \<le> length (mp_p (h a))" "used_limbs (mp_p (h DY)) = length (mp_p (h DY))" "mp_p (h DY) \<noteq> []"
      "limbs_val (mp_p (h DX)) = limbs_val (mp_p (h a))" "limbs_val (mp_p (h DY)) = limbs_val (mp_p (h b))"
    using assms(2) by (auto simp: init_post_def)
  have "length (mp_p (h DY)) \<le> length (mp_p (h DX))"
  proof -
    have "limbs_val (mp_p (h DY)) < limb_base ^ length (mp_p (h DX))" using assms(4) limbs_val_lt [of "mp_p (h DX)"] by (simp add: ip(6,7))
    then show ?thesis using ip(4) by (simp add: used_limbs_le_iff)
  qed
  then have l: "length (mp_p (h DX)) < MPI_MAX_LIMBS" "length (mp_p (h DY)) < MPI_MAX_LIMBS" using ip(3) assms(3) by simp_all
  obtain X where X: "shmpi_shift_l c DX k h = Inr (0, h(DX := X))" "mpi_ok X" "mp_s X = mp_s (h DX)" "limbs_val (mp_p X) = limbs_val (mp_p (h DX)) * 2 ^ k"
      "length (mp_p (h DX)) \<le> length (mp_p X)" "length (mp_p X) \<le> Suc (length (mp_p (h DX)))"
    using shift_small_ok [where h = h and x = DX, OF assms(1) ip(1) l(1) assms(5)] by blast
  define h1 where "h1 = h(DX := X)"
  have h1Y: "h1 DY = h DY" by (simp add: h1_def)
  have "mpi_ok (h1 DY)" "length (mp_p (h1 DY)) < MPI_MAX_LIMBS" using ip(2) l(2) by (simp_all add: h1Y)
  then obtain Y where Y: "shmpi_shift_l c DY k h1 = Inr (0, h1(DY := Y))" "mpi_ok Y" "mp_s Y = mp_s (h DY)" "limbs_val (mp_p Y) = limbs_val (mp_p (h DY)) * 2 ^ k"
      "length (mp_p (h DY)) \<le> length (mp_p Y)" "used_limbs (mp_p Y) = length (mp_p Y)"
    using shift_small_ok [where h = h1 and x = DY, OF assms(1) _ _ assms(5)] ip(4,5) unfolding h1Y by blast
  define h2 where "h2 = (if 0 < k then h1(DY := Y) else h)"
  have "div_norm c k h = Inr (0, h2)" using X(1) Y(1) by (simp add: div_norm_def h1_def h2_def)
  moreover have "frame div_locals h h2" by (simp add: h2_def h1_def)
  moreover have "core_pre h2"
    using assms(2-4) X(2-6) Y(2-6) by (auto simp: core_pre_def init_post_def h2_def h1_def)
  moreover have "limbs_val (mp_p (h2 DX)) = limbs_val (mp_p (h a)) * 2 ^ k" "limbs_val (mp_p (h2 DY)) = limbs_val (mp_p (h b)) * 2 ^ k"
    using X(4) Y(4) ip(6,7) by (simp_all add: h2_def h1_def)
  ultimately show ?thesis by blast
qed

end
