(* ===== verification/Share_Mpi_Mod.thy ===== *)
theory Share_Mpi_Mod
  imports Share_Mpi_Quot
begin

text \<open>
  What the division functions return: the quotient and the remainder with the signs the code gives them, the remainder of
  \<open>shmpi_mod_mpi\<close> between zero and the modulus, and the remainder by an \<open>int\<close>.
\<close>

section \<open>The results\<close>

lemma mpi_opt_simps [simp]: "mpi_opt None f = mpi_ret 0" "mpi_opt (Some x) f = f x"
  by (simp_all add: mpi_opt_def)

lemma cmp_zero: "mpi_ok X \<Longrightarrow> shmpi_cmp_int X 0 = Inr (sgn (mpi_val X))"
  by (simp add: cmp_int_val)

text \<open>A variable that holds a result: its value, and that it is no longer than before or than it needs to be.\<close>

definition result_cell :: "mpis \<Rightarrow> mpis \<Rightarrow> mvar \<Rightarrow> int \<Rightarrow> bool" where
  "result_cell h h' x v \<longleftrightarrow> mpi_ok (h' x) \<and> mpi_val (h' x) = v \<and>
     length (mp_p (h' x)) \<le> max (length (mp_p (h x))) (max 1 (used_limbs (mp_p (h' x))))"

lemma result_cell_cong: "result_cell h h' x v \<Longrightarrow> g x = h x \<Longrightarrow> g' x = h' x \<Longrightarrow> v = w \<Longrightarrow> result_cell g g' x w"
  by (simp add: result_cell_def)

lemma out_quot:
  assumes "libc_total c" "mpi_ok (h DZ)" "mp_s (h DZ) = 1" "mp_p (h DZ) \<noteq> []" "mpi_ok (h a)" "mpi_ok (h b)"
    and "\<forall>x. q = Some x \<longrightarrow> mpi_room (h x) \<and> outer_var 3 x \<and> (x = a \<or> x = b \<longrightarrow> mp_s (h a) = 1 \<and> mp_s (h b) = 1)"
  shows "\<exists>h'. mpi_opt q (\<lambda>q. mpi_seq [shmpi_copy c q DZ, (\<lambda>h. set_sign q (mp_s (h a) * mp_s (h b)) h)]) h = Inr (0, h') \<and>
    frame (set_option q) h h' \<and> mp_s (h' a) = mp_s (h a) \<and>
    (\<forall>x. q = Some x \<longrightarrow> result_cell h h' x (mp_s (h a) * mp_s (h b) * int (limbs_val (mp_p (h DZ)))))"
proof (cases q)
  case (Some x)
  have x: "mpi_room (h x)" "x = a \<or> x = b \<longrightarrow> mp_s (h a) = 1 \<and> mp_s (h b) = 1" using assms(7) Some by auto
  obtain X where X: "shmpi_copy c x DZ h = Inr (0, h(x := X))" "mpi_ok X" "limbs_val (mp_p X) = limbs_val (mp_p (h DZ))" "mp_s X = 1"
      "length (mp_p X) \<le> max (length (mp_p (h x))) (max 1 (used_limbs (mp_p (h DZ))))"
    using copy_room [of c h DZ x] assms(1-4) x(1) by auto
  have s: "mp_s ((h(x := X)) a) = mp_s (h a)" "mp_s ((h(x := X)) b) = mp_s (h b)" using x(2) X(4) by auto
  let ?h = "h(x := X\<lparr>mp_s := mp_s (h a) * mp_s (h b)\<rparr>)"
  have "mpi_seq [shmpi_copy c x DZ, (\<lambda>h. set_sign x (mp_s (h a) * mp_s (h b)) h)] h = Inr (0, ?h)"
    using X(1) s by (simp add: set_sign_def)
  moreover have "mp_s (?h a) = mp_s (h a)" using x(2) by auto
  moreover have "mpi_ok (?h x)" using X(2) assms(5,6) by (auto simp: mpi_ok_def)
  moreover have "used_limbs (mp_p X) = used_limbs (mp_p (h DZ))" using X(3) by (rule used_eq)
  ultimately show ?thesis using Some X(3,5) by (intro exI [of _ ?h]) (auto simp: mpi_val_def result_cell_def)
qed simp

lemma out_rem:
  assumes "libc_total c" "mpi_ok (h DX)" "mp_p (h DX) \<noteq> []" "mpi_ok (h a)" "\<forall>x. r = Some x \<longrightarrow> mpi_room (h x) \<and> outer_var 3 x" "outer_var 3 a"
  shows "\<exists>h'. mpi_opt r (\<lambda>r. mpi_seq [shmpi_shift_r c DX k, (\<lambda>h. set_sign DX (mp_s (h a)) h), shmpi_copy c r DX,
       (\<lambda>h. run_bind (shmpi_cmp_int (h r) 0) (\<lambda>s. if s = 0 then set_sign r 1 h else mpi_ret 0 h))]) h = Inr (0, h') \<and>
    frame (set_option r \<union> {DX}) h h' \<and>
    (\<forall>x. r = Some x \<longrightarrow> result_cell h h' x (mp_s (h a) * int (limbs_val (mp_p (h DX)) div 2 ^ k)) \<and> length (mp_p (h x)) \<le> length (mp_p (h' x)))"
proof (cases r)
  case (Some x)
  have x: "mpi_room (h x)" "x \<noteq> DX" "a \<noteq> DX" using assms(5,6) Some by auto
  obtain V where V: "shmpi_shift_r c DX k h = Inr (0, h(DX := V))" "mpi_ok V" "limbs_val (mp_p V) = limbs_val (mp_p (h DX)) div 2 ^ k" "length (mp_p V) = length (mp_p (h DX))"
    using shift_r_ex [where h = h and x = DX, OF assms(1-3)] by blast
  define W where "W = V\<lparr>mp_s := mp_s (h a)\<rparr>"
  define h1 where "h1 = h(DX := W)"
  have W: "mpi_ok W" "mp_p W \<noteq> []" "mp_s W = mp_s (h a)" "limbs_val (mp_p W) = limbs_val (mp_p (h DX)) div 2 ^ k"
    using V assms(3,4) by (auto simp: W_def mpi_ok_def)
  have h1: "h1 DX = W" "h1 x = h x" using x by (simp_all add: h1_def)
  obtain X where X: "shmpi_copy c x DX h1 = Inr (0, h1(x := X))" "mpi_ok X" "limbs_val (mp_p X) = limbs_val (mp_p W)" "mp_s X = mp_s W" "mp_p X \<noteq> []"
      "length (mp_p X) \<le> max (length (mp_p (h x))) (max 1 (used_limbs (mp_p W)))" "length (mp_p (h x)) \<le> length (mp_p X)"
    using copy_room [of c h1 DX x] assms(1) W(1,2) x(1) unfolding h1 by blast
  define Z where "Z = (if mpi_val X = 0 then X\<lparr>mp_s := 1\<rparr> else X)"
  define h2 where "h2 = h1(x := Z)"
  have "mpi_seq [shmpi_shift_r c DX k, (\<lambda>h. set_sign DX (mp_s (h a)) h), shmpi_copy c x DX,
       (\<lambda>h. run_bind (shmpi_cmp_int (h x) 0) (\<lambda>s. if s = 0 then set_sign x 1 h else mpi_ret 0 h))] h = Inr (0, h2)"
    using V(1) X(1,2) x(3) by (simp add: set_sign_def mpi_chk_def W_def h1_def h2_def Z_def cmp_zero sgn_eq_0_iff)
  moreover have "frame (set_option r \<union> {DX}) h h2" using Some by (simp add: h2_def h1_def)
  moreover have "mpi_ok Z" using X(2) by (auto simp: Z_def mpi_ok_def)
  moreover have "mpi_val Z = mp_s (h a) * int (limbs_val (mp_p (h DX)) div 2 ^ k)" "mp_p Z = mp_p X"
    using X(2,3,4) W(3,4) by (auto simp: Z_def mpi_val_def mpi_ok_def)
  moreover have "used_limbs (mp_p X) = used_limbs (mp_p W)" using X(3) by (rule used_eq)
  ultimately show ?thesis using Some X(5-7) by (intro exI [of _ h2]) (simp add: h2_def result_cell_def)
qed simp

section \<open>The division\<close>

text \<open>The variables of a call: the operands, and where the results go, if anywhere.  The quotient may go to an operand only when both operands
  are positive, because the code takes the signs after it has written the quotient.\<close>

definition div_call :: "nat \<Rightarrow> mvar option \<Rightarrow> mvar option \<Rightarrow> mvar \<Rightarrow> mvar \<Rightarrow> mpis \<Rightarrow> bool" where
  "div_call k q r a b h \<longleftrightarrow> blank_locals k h \<and> outer_var k a \<and> outer_var k b \<and> mpi_ok (h a) \<and> mpi_ok (h b) \<and> length (mp_p (h a)) + 3 < MPI_MAX_LIMBS \<and>
     (\<forall>x. q = Some x \<longrightarrow> mpi_room (h x) \<and> outer_var k x \<and> (x = a \<or> x = b \<longrightarrow> mp_s (h a) = 1 \<and> mp_s (h b) = 1 \<and> r = None)) \<and>
     (\<forall>x. r = Some x \<longrightarrow> mpi_room (h x) \<and> outer_var k x \<and> q \<noteq> Some x)"

lemma div_callD:
  assumes "div_call k q r a b h"
  shows "blank_locals k h" "outer_var k a" "outer_var k b" "mpi_ok (h a)" "mpi_ok (h b)" "length (mp_p (h a)) + 3 < MPI_MAX_LIMBS"
    "q = Some x \<Longrightarrow> mpi_room (h x)" "q = Some x \<Longrightarrow> outer_var k x" "q = Some x \<Longrightarrow> x = a \<or> x = b \<Longrightarrow> mp_s (h a) = 1 \<and> mp_s (h b) = 1 \<and> r = None"
    "r = Some y \<Longrightarrow> mpi_room (h y)" "r = Some y \<Longrightarrow> outer_var k y" "r = Some y \<Longrightarrow> q \<noteq> Some y"
  using assms unfolding div_call_def by blast+

definition div_result :: "mvar option \<Rightarrow> mvar option \<Rightarrow> mvar \<Rightarrow> mvar \<Rightarrow> mpis \<Rightarrow> mpis \<Rightarrow> bool" where
  "div_result q r a b h h' \<longleftrightarrow> frame (set_option q \<union> set_option r) h h' \<and>
     (\<forall>x. q = Some x \<longrightarrow> result_cell h h' x (mpi_val (h a) sdiv mpi_val (h b))) \<and>
     (\<forall>x. r = Some x \<longrightarrow> result_cell h h' x (mpi_val (h a) smod mpi_val (h b)) \<and> (mp_p (h a) \<noteq> [] \<longrightarrow> length (mp_p (h x)) \<le> length (mp_p (h' x))))"

lemma small_quot:
  assumes "libc_total c" "div_call k q r a b h"
  shows "\<exists>h'. mpi_opt q (\<lambda>q. shmpi_lset c q 0) h = Inr (0, h') \<and> frame (set_option q) h h' \<and> (\<forall>x. q = Some x \<longrightarrow> result_cell h h' x 0)"
proof (cases q)
  case (Some x)
  obtain X where "shmpi_lset c x 0 h = Inr (0, h(x := X))" "mpi_ok X" "mpi_val X = 0" "length (mp_p X) = max 1 (length (mp_p (h x)))"
    using lset_zero_room [where h = h and x = x, OF assms(1) div_callD(7) [OF assms(2) Some]] by blast
  then show ?thesis using Some by (intro exI [of _ "h(x := X)"]) (simp add: result_cell_def)
qed simp

lemma small_rem:
  assumes "libc_total c" "mpi_ok (h a)" "r = Some x \<Longrightarrow> mpi_room (h x)" "r = Some x \<or> r = None"
  shows "\<exists>h'. mpi_opt r (\<lambda>r. shmpi_copy c r a) h = Inr (0, h') \<and> frame (set_option r) h h' \<and> (\<forall>x. r = Some x \<longrightarrow> result_cell h h' x (mpi_val (h a)) \<and> (mp_p (h a) \<noteq> [] \<longrightarrow> length (mp_p (h x)) \<le> length (mp_p (h' x))))"
proof (cases r)
  case (Some y)
  obtain X where X: "shmpi_copy c y a h = Inr (0, h(y := X))" "mpi_val X = mpi_val (h a)" "mpi_ok X" "limbs_val (mp_p X) = limbs_val (mp_p (h a))"
      "mp_p (h a) \<noteq> [] \<longrightarrow> length (mp_p (h y)) \<le> length (mp_p X)" "length (mp_p X) \<le> max (length (mp_p (h y))) (max 1 (used_limbs (mp_p (h a))))"
    using copy_room [of c h a y] assms Some by blast
  have "used_limbs (mp_p X) = used_limbs (mp_p (h a))" using X(4) by (rule used_eq)
  then show ?thesis using Some X by (intro exI [of _ "h(y := X)"]) (simp add: result_cell_def)
qed simp

text \<open>The frames and the values of two results, one after the other.\<close>

lemma div_result_intro:
  assumes "div_call k q r a b h" "frame (set_option q) h h1" "frame (set_option r) h1 h2"
    and "\<And>x. q = Some x \<Longrightarrow> result_cell h h1 x (mpi_val (h a) sdiv mpi_val (h b))"
    and "\<And>x. r = Some x \<Longrightarrow> result_cell h1 h2 x (mpi_val (h a) smod mpi_val (h b)) \<and> (mp_p (h a) \<noteq> [] \<longrightarrow> length (mp_p (h1 x)) \<le> length (mp_p (h2 x)))"
  shows "div_result q r a b h h2"
  unfolding div_result_def
proof (intro conjI allI impI)
  show "frame (set_option q \<union> set_option r) h h2"
    using frame_trans [OF frame_mono [OF assms(2), of "set_option q \<union> set_option r"] frame_mono [OF assms(3), of "set_option q \<union> set_option r"]] by simp
next
  fix x assume q: "q = Some x"
  have "x \<notin> set_option r" using div_callD(12) [OF assms(1)] q by fastforce
  then show "result_cell h h2 x (mpi_val (h a) sdiv mpi_val (h b))" using assms(4) [OF q] frameD [OF assms(3)] by (simp add: result_cell_def)
next
  fix x assume r: "r = Some x"
  have "x \<notin> set_option q" using div_callD(12) [OF assms(1) r] by fastforce
  then have "h1 x = h x" using frameD [OF assms(2)] by blast
  then show "result_cell h h2 x (mpi_val (h a) smod mpi_val (h b))" "mp_p (h a) \<noteq> [] \<Longrightarrow> length (mp_p (h x)) \<le> length (mp_p (h2 x))"
    using assms(5) [OF r] by (simp_all add: result_cell_def)
qed

lemma div_small:
  assumes "libc_total c" "div_call 3 q r a b h" "limbs_val (mp_p (h a)) < limbs_val (mp_p (h b))"
  shows "\<exists>h'. mpi_seq [mpi_opt q (\<lambda>q. shmpi_lset c q 0), mpi_opt r (\<lambda>r. shmpi_copy c r a)] h = Inr (0, h') \<and> div_result q r a b h h'"
proof -
  note dc = div_callD [OF assms(2)]
  have "\<bar>mpi_val (h a)\<bar> < \<bar>mpi_val (h b)\<bar>" using assms(3) by (simp add: limbs_abs [OF dc(4), symmetric] limbs_abs [OF dc(5), symmetric])
  then have v: "mpi_val (h a) sdiv mpi_val (h b) = 0" "mpi_val (h a) smod mpi_val (h b) = mpi_val (h a)"
    by (simp_all add: signed_divide_int_def signed_modulo_int_def sgn_mult_abs)
  obtain h1 where h1: "mpi_opt q (\<lambda>q. shmpi_lset c q 0) h = Inr (0, h1)" "frame (set_option q) h h1" "\<forall>x. q = Some x \<longrightarrow> result_cell h h1 x 0"
    using small_quot [OF assms(1,2)] by blast
  have ea: "r = None \<or> h1 a = h a" using frameD [OF h1(2), of a] dc(9) [of a] by (cases "q = Some a") auto
  have "\<exists>h2. mpi_opt r (\<lambda>r. shmpi_copy c r a) h1 = Inr (0, h2) \<and> frame (set_option r) h1 h2 \<and>
      (\<forall>x. r = Some x \<longrightarrow> result_cell h1 h2 x (mpi_val (h a)) \<and> (mp_p (h a) \<noteq> [] \<longrightarrow> length (mp_p (h1 x)) \<le> length (mp_p (h2 x))))"
  proof (cases r)
    case (Some x)
    have "x \<notin> set_option q" using dc(12) [OF Some] by fastforce
    then have "h1 x = h x" using frameD [OF h1(2)] by blast
    then show ?thesis using small_rem [of c h1 a r x] assms(1) ea dc(4) dc(10) [OF Some] Some by auto
  qed simp
  then obtain h2 where h2: "mpi_opt r (\<lambda>r. shmpi_copy c r a) h1 = Inr (0, h2)" "frame (set_option r) h1 h2"
      "\<forall>x. r = Some x \<longrightarrow> result_cell h1 h2 x (mpi_val (h a)) \<and> (mp_p (h a) \<noteq> [] \<longrightarrow> length (mp_p (h1 x)) \<le> length (mp_p (h2 x)))"
    by blast
  have "div_result q r a b h h2" by (rule div_result_intro [OF assms(2) h1(2) h2(2)]) (use h1(3) h2(3) v in simp_all)
  then show ?thesis using h1(1) h2(1) by auto
qed

lemma mpi_val_sgn: "mpi_ok X \<Longrightarrow> limbs_val (mp_p X) \<noteq> 0 \<Longrightarrow> sgn (mpi_val X) = mp_s X"
  by (auto simp: mpi_ok_def mpi_val_def)

lemma sdiv_limbs:
  assumes "mpi_ok A" "mpi_ok B" "limbs_val (mp_p B) \<noteq> 0" "limbs_val (mp_p B) \<le> limbs_val (mp_p A)"
  shows "mpi_val A sdiv mpi_val B = mp_s A * mp_s B * int (limbs_val (mp_p A) div limbs_val (mp_p B))"
    "mpi_val A smod mpi_val B = mp_s A * int (limbs_val (mp_p A) mod limbs_val (mp_p B))"
proof -
  have "limbs_val (mp_p A) \<noteq> 0" using assms(3,4) by simp
  then show "mpi_val A sdiv mpi_val B = mp_s A * mp_s B * int (limbs_val (mp_p A) div limbs_val (mp_p B))"
    "mpi_val A smod mpi_val B = mp_s A * int (limbs_val (mp_p A) mod limbs_val (mp_p B))"
    using assms(3) unfolding signed_divide_int_def signed_modulo_int_def limbs_abs [OF assms(1), symmetric] limbs_abs [OF assms(2), symmetric]
    by (simp_all add: mpi_val_sgn [OF assms(1)] mpi_val_sgn [OF assms(2)] of_nat_div of_nat_mod)
qed

lemma div_blank_id: "blank_locals 3 h \<Longrightarrow> div_blank h = h"
  by (auto simp: div_blank_def blank_local fun_eq_iff)

lemma div_blank_frame: "blank_locals 3 h \<Longrightarrow> frame (V \<union> div_locals) h h' \<Longrightarrow> (\<forall>v\<in>V. outer_var 3 v) \<Longrightarrow> frame V h (div_blank h')"
  by (auto simp: div_blank_def frame_def blank_local)

lemma norm_shift_lt: "norm_shift Y < 64"
  using diff_le_self [of 63 "shmpi_msb Y mod 64"] by (auto simp: norm_shift_def Let_def)

text \<open>From the operands to the quotient and the shifted remainder.\<close>

lemma div_main_ok:
  assumes "libc_total c" "div_call 3 q r a b h" "limbs_val (mp_p (h b)) \<noteq> 0" "limbs_val (mp_p (h b)) \<le> limbs_val (mp_p (h a))"
  shows "\<exists>h' k. (\<forall>f. mpi_chk (div_init c a b) (\<lambda>h1. let k = norm_shift (h1 DY) in mpi_seq [div_norm c k, div_core c, f k] h1) h = f k h') \<and>
    frame div_locals h h' \<and> mpi_ok (h' DX) \<and> mp_p (h' DX) \<noteq> [] \<and> mpi_ok (h' DZ) \<and> mp_s (h' DZ) = 1 \<and> mp_p (h' DZ) \<noteq> [] \<and>
    limbs_val (mp_p (h' DZ)) = limbs_val (mp_p (h a)) div limbs_val (mp_p (h b)) \<and>
    limbs_val (mp_p (h' DX)) div 2 ^ k = limbs_val (mp_p (h a)) mod limbs_val (mp_p (h b))"
proof -
  have dc: "blank_locals 3 h" "outer_var 3 a" "outer_var 3 b" "mpi_ok (h a)" "mpi_ok (h b)" "length (mp_p (h a)) + 3 < MPI_MAX_LIMBS"
    using assms(2) unfolding div_call_def by blast+
  have a0: "limbs_val (mp_p (h a)) \<noteq> 0" using assms(3,4) by simp
  obtain h1 where h1: "div_init c a b h = Inr (0, h1)" "frame div_locals h h1" "init_post a b h1"
    using div_init_ok [OF assms(1) dc(1-6) a0 assms(3)] by blast
  have out: "v \<notin> div_locals" if "outer_var 3 v" for v using that by auto
  have e1: "h1 v = h v" if "outer_var 3 v" for v using frameD [OF h1(2) out [OF that]] .
  define k where "k = norm_shift (h1 DY)"
  have pre: "length (mp_p (h1 a)) + 3 < MPI_MAX_LIMBS" "limbs_val (mp_p (h1 b)) \<le> limbs_val (mp_p (h1 a))" "k < 64"
    using dc(6) assms(4) e1 [OF dc(2)] e1 [OF dc(3)] by (simp_all add: k_def norm_shift_lt)
  obtain h2 where h2: "div_norm c k h1 = Inr (0, h2)" "frame div_locals h1 h2" "core_pre h2"
      "limbs_val (mp_p (h2 DX)) = limbs_val (mp_p (h1 a)) * 2 ^ k" "limbs_val (mp_p (h2 DY)) = limbs_val (mp_p (h1 b)) * 2 ^ k"
    using div_norm_ok [OF assms(1) h1(3) pre dc(2,3)] by blast
  obtain h3 where h3: "div_core c h2 = Inr (0, h3)" "frame div_locals h2 h3" "mpi_ok (h3 DX)" "0 \<le> mpi_val (h3 DX)" "mp_p (h3 DX) \<noteq> []"
      "mpi_ok (h3 DZ)" "mp_s (h3 DZ) = 1" "mp_p (h3 DZ) \<noteq> []"
      "limbs_val (mp_p (h3 DZ)) = limbs_val (mp_p (h2 DX)) div limbs_val (mp_p (h2 DY))" "limbs_val (mp_p (h3 DX)) = limbs_val (mp_p (h2 DX)) mod limbs_val (mp_p (h2 DY))"
    using div_core_ok [OF assms(1) h2(3)] by blast
  have fr3: "frame div_locals h h3" using frame_trans [OF frame_trans [OF h1(2) h2(2)] h3(2)] .
  have vZ: "limbs_val (mp_p (h3 DZ)) = limbs_val (mp_p (h a)) div limbs_val (mp_p (h b))"
    unfolding h3(9) h2(4,5) e1 [OF dc(2)] e1 [OF dc(3)] by simp
  have vX: "limbs_val (mp_p (h3 DX)) div 2 ^ k = limbs_val (mp_p (h a)) mod limbs_val (mp_p (h b))"
    unfolding h3(10) h2(4,5) e1 [OF dc(2)] e1 [OF dc(3)] by (simp add: mod_mult_mult2)
  have run: "mpi_chk (div_init c a b) (\<lambda>h1. let k = norm_shift (h1 DY) in mpi_seq [div_norm c k, div_core c, f k] h1) h = f k h3" for f
    using h1(1) h2(1) h3(1) by (simp flip: k_def)
  show ?thesis by (rule exI [of _ h3], rule exI [of _ k]) (use run fr3 h3 vZ vX in simp)
qed

lemma div_large:
  assumes "libc_total c" "div_call 3 q r a b h" "limbs_val (mp_p (h b)) \<noteq> 0" "limbs_val (mp_p (h b)) \<le> limbs_val (mp_p (h a))"
  shows "\<exists>h'. mpi_chk (div_init c a b) (\<lambda>h1. let k = norm_shift (h1 DY) in mpi_seq [div_norm c k, div_core c, div_out c k q r a b] h1) h = Inr (0, h') \<and>
    div_result q r a b h (div_blank h')"
proof -
  note dc = div_callD [OF assms(2)]
  obtain h3 k where run: "\<forall>f. mpi_chk (div_init c a b) (\<lambda>h1. let k = norm_shift (h1 DY) in mpi_seq [div_norm c k, div_core c, f k] h1) h = f k h3"
      and h3: "frame div_locals h h3" "mpi_ok (h3 DX)" "mp_p (h3 DX) \<noteq> []" "mpi_ok (h3 DZ)" "mp_s (h3 DZ) = 1" "mp_p (h3 DZ) \<noteq> []"
      "limbs_val (mp_p (h3 DZ)) = limbs_val (mp_p (h a)) div limbs_val (mp_p (h b))"
      "limbs_val (mp_p (h3 DX)) div 2 ^ k = limbs_val (mp_p (h a)) mod limbs_val (mp_p (h b))"
    using div_main_ok [OF assms] by blast
  have out: "v \<notin> div_locals" if "outer_var 3 v" for v using that by auto
  have e3: "h3 v = h v" if "outer_var 3 v" for v using frameD [OF h3(1) out [OF that]] .
  have Qp: "mpi_ok (h3 a)" "mpi_ok (h3 b)"
      "\<forall>x. q = Some x \<longrightarrow> mpi_room (h3 x) \<and> outer_var 3 x \<and> (x = a \<or> x = b \<longrightarrow> mp_s (h3 a) = 1 \<and> mp_s (h3 b) = 1)"
    unfolding e3 [OF dc(2)] e3 [OF dc(3)] using dc(4,5,7,8) dc(9) e3 by simp_all
  obtain h4 where h4: "mpi_opt q (\<lambda>q. mpi_seq [shmpi_copy c q DZ, (\<lambda>h. set_sign q (mp_s (h a) * mp_s (h b)) h)]) h3 = Inr (0, h4)"
      "frame (set_option q) h3 h4" "mp_s (h4 a) = mp_s (h3 a)" "\<forall>x. q = Some x \<longrightarrow> result_cell h3 h4 x (mp_s (h3 a) * mp_s (h3 b) * int (limbs_val (mp_p (h3 DZ))))"
    using out_quot [OF assms(1) h3(4-6) Qp] by blast
  have DX4: "h4 DX = h3 DX"
  proof -
    have "DX \<notin> set_option q" using dc(8) [of DX] by auto
    then show ?thesis using frameD [OF h4(2)] by blast
  qed
  have ok4: "mpi_ok (h3 x) \<Longrightarrow> mpi_ok (h4 x)" "mpi_room (h3 x) \<Longrightarrow> mpi_room (h4 x)" for x
    using h4(4) frameD [OF h4(2), of x] by (cases "q = Some x"; auto simp: result_cell_def)+
  have Rp: "mpi_ok (h4 DX)" "mp_p (h4 DX) \<noteq> []" "mpi_ok (h4 a)" "\<forall>x. r = Some x \<longrightarrow> mpi_room (h4 x) \<and> outer_var 3 x"
    unfolding DX4 using h3(2,3) ok4(1) [OF Qp(1)] dc(10,11) e3 ok4 by simp_all
  obtain h5 where h5: "mpi_opt r (\<lambda>r. mpi_seq [shmpi_shift_r c DX k, (\<lambda>h. set_sign DX (mp_s (h a)) h), shmpi_copy c r DX,
       (\<lambda>h. run_bind (shmpi_cmp_int (h r) 0) (\<lambda>s. if s = 0 then set_sign r 1 h else mpi_ret 0 h))]) h4 = Inr (0, h5)"
      "frame (set_option r \<union> {DX}) h4 h5" "\<forall>x. r = Some x \<longrightarrow> result_cell h4 h5 x (mp_s (h4 a) * int (limbs_val (mp_p (h4 DX)) div 2 ^ k)) \<and> length (mp_p (h4 x)) \<le> length (mp_p (h5 x))"
    using out_rem [where h = h4 and a = a and r = r and k = k, OF assms(1) Rp dc(2)] by blast
  have blank: "div_blank g x = g x" if "outer_var 3 x" for g x using that by (auto simp: div_blank_def)
  have "div_result q r a b h (div_blank h5)"
  proof (rule div_result_intro [OF assms(2)])
    have "frame (set_option q \<union> div_locals) h h4"
      by (rule frame_trans [OF frame_mono [OF h3(1)] frame_mono [OF h4(2)]]) auto
    then show "frame (set_option q) h (div_blank h4)" by (rule div_blank_frame [OF dc(1)]) (use dc(8) in auto)
    have "frame (set_option r \<union> div_locals) h4 h5" using h5(2) by (rule frame_mono) auto
    then show "frame (set_option r) (div_blank h4) (div_blank h5)" by (auto simp: div_blank_def frame_def)
  next
    fix x assume q: "q = Some x"
    note x = dc(8) [OF q]
    show "result_cell h (div_blank h4) x (mpi_val (h a) sdiv mpi_val (h b))"
      unfolding sdiv_limbs(1) [OF dc(4,5) assms(3,4)]
      by (rule result_cell_cong [OF h4(4) [rule_format, OF q]]) (simp_all add: e3 x dc(2,3) blank h3(7))
  next
    fix x assume r: "r = Some x"
    note x = dc(11) [OF r]
    note h5x = conjunct1 [OF h5(3) [rule_format, OF r]] conjunct2 [OF h5(3) [rule_format, OF r]]
    have "result_cell (div_blank h4) (div_blank h5) x (mpi_val (h a) smod mpi_val (h b))"
      unfolding sdiv_limbs(2) [OF dc(4,5) assms(3,4)]
      by (rule result_cell_cong [OF h5x(1)]) (simp_all add: x dc(2) blank DX4 h3(8) h4(3) e3)
    then show "result_cell (div_blank h4) (div_blank h5) x (mpi_val (h a) smod mpi_val (h b)) \<and>
        (mp_p (h a) \<noteq> [] \<longrightarrow> length (mp_p (div_blank h4 x)) \<le> length (mp_p (div_blank h5 x)))"
      using h5x(2) by (simp add: blank x)
  qed
  moreover have "div_out c k q r a b h3 = Inr (0, h5)" using h4(1) h5(1) by (simp add: div_out_def)
  ultimately show ?thesis using run [rule_format, of "\<lambda>k. div_out c k q r a b"] by auto
qed

lemma div_mpi_ok:
  assumes "libc_total c" "div_call 3 q r a b h" "mpi_val (h b) \<noteq> 0"
  shows "\<exists>h'. shmpi_div_mpi c q r a b h = Inr (0, h') \<and> div_result q r a b h h'"
proof -
  note dc = div_callD [OF assms(2)]
  have b0: "limbs_val (mp_p (h b)) \<noteq> 0" using assms(3) by (simp add: mpi_val_def)
  have start: "shmpi_cmp_int (h b) 0 = Inr (sgn (mpi_val (h b)))" "sgn (mpi_val (h b)) \<noteq> 0" using dc(5) assms(3) by (simp_all add: cmp_zero sgn_eq_0_iff)
  show ?thesis
  proof (cases "limbs_val (mp_p (h a)) < limbs_val (mp_p (h b))")
    case True
    obtain h' where h': "mpi_seq [mpi_opt q (\<lambda>q. shmpi_lset c q 0), mpi_opt r (\<lambda>r. shmpi_copy c r a)] h = Inr (0, h')" "div_result q r a b h h'"
      using div_small [OF assms(1,2) True] by blast
    have "div_blank h' = h'"
    proof -
      have "frame (set_option q \<union> set_option r) h h'" using h'(2) by (simp add: div_result_def)
      then have "blank_locals 3 h'" by (rule frame_blank [OF _ _ dc(1)]) (use dc(8,11) in auto)
      then show ?thesis by (rule div_blank_id)
    qed
    then have "shmpi_div_mpi c q r a b h = Inr (0, h')"
      using start True h'(1) by (simp add: shmpi_div_mpi_def mpi_cleanup_def div_blank_id [OF dc(1)] cmp_abs_val cmp3_def)
    then show ?thesis using h'(2) by blast
  next
    case False
    then have le: "limbs_val (mp_p (h b)) \<le> limbs_val (mp_p (h a))" by simp
    obtain h' where h': "mpi_chk (div_init c a b) (\<lambda>h1. let k = norm_shift (h1 DY) in mpi_seq [div_norm c k, div_core c, div_out c k q r a b] h1) h = Inr (0, h')"
        "div_result q r a b h (div_blank h')"
      using div_large [OF assms(1,2) b0 le] by blast
    then have "shmpi_div_mpi c q r a b h = Inr (0, div_blank h')"
      using start False by (simp add: shmpi_div_mpi_def mpi_cleanup_def div_blank_id [OF dc(1)] cmp_abs_val cmp3_def)
    then show ?thesis using h'(2) by blast
  qed
qed

lemma div_by_zero: "mpi_ok (h b) \<Longrightarrow> mpi_val (h b) = 0 \<Longrightarrow> shmpi_div_mpi c q r a b h = Inr (ERR_DIVISION_BY_ZERO, h)"
  by (simp add: shmpi_div_mpi_def cmp_zero)

section \<open>Remainders\<close>

lemma frame_one: "frame {x} h h' \<Longrightarrow> h' = h(x := h' x)"
  by (auto simp: frame_def fun_eq_iff)

lemma limbs_lt_of_val: "mpi_ok X \<Longrightarrow> \<bar>mpi_val X\<bar> < int n \<Longrightarrow> limbs_val (mp_p X) < n"
  using limbs_abs [of X] by simp

lemma mod_mpi_ok:
  assumes "libc_total c" "blank_locals 3 h" "outer_var 3 r \<and> length (mp_p (h r)) < MPI_MAX_LIMBS" "mpi_arg 3 h a" "mpi_arg 3 h b" "length (mp_p (h a)) + 3 < MPI_MAX_LIMBS" "r \<noteq> b" "0 < mpi_val (h b)"
  shows "\<exists>R. shmpi_mod_mpi c r a b h = Inr (0, h(r := R)) \<and> mpi_ok R \<and> mpi_val R = mpi_val (h a) mod mpi_val (h b) \<and>
    length (mp_p R) \<le> max (max 1 (length (mp_p (h r)))) (used_limbs (mp_p (h b))) \<and> (mp_p (h a) \<noteq> [] \<longrightarrow> length (mp_p (h r)) \<le> length (mp_p R))"
proof -
  let ?A = "mpi_val (h a)" and ?B = "mpi_val (h b)"
  define m where "m = max (max 1 (length (mp_p (h r)))) (used_limbs (mp_p (h b)))"
  have bok: "mpi_ok (h b)" using assms(5) by (simp add: mpi_arg_def)
  have m: "0 < m" "length (mp_p (h r)) \<le> m" "m < MPI_MAX_LIMBS"
    using assms(3,5) used_limbs_le [of "mp_p (h b)"] by (auto simp: m_def mpi_arg_def MPI_MAX_LIMBS_def)
  have bm: "limbs_val (mp_p (h b)) < limb_base ^ m" by (simp add: used_limbs_le_iff m_def)
  then have "int (limbs_val (mp_p (h b))) < int (limb_base ^ m)" by (simp only: of_nat_less_iff)
  then have Bm: "?B < int (limb_base ^ m)" using limbs_abs [OF bok] assms(8) by linarith
  have lm: "limbs_val (mp_p X) < limb_base ^ m" if "mpi_ok X" "\<bar>mpi_val X\<bar> < ?B" for X
    using that Bm by (intro limbs_lt_of_val) auto
  have "div_call 3 None (Some r) a b h" using assms by (auto simp: div_call_def mpi_arg_def mpi_room_def)
  then obtain h1 where h1: "shmpi_div_mpi c None (Some r) a b h = Inr (0, h1)" "div_result None (Some r) a b h h1"
    using div_mpi_ok [OF assms(1)] assms(8) by fastforce
  define R where "R = h1 r"
  have h1r: "h1 = h(r := R)" using h1(2) by (auto simp: div_result_def R_def intro: frame_one)
  have R: "mpi_ok R" "mpi_val R = ?A smod ?B" "length (mp_p R) \<le> max (length (mp_p (h r))) (max 1 (used_limbs (mp_p R)))"
      "mp_p (h a) \<noteq> [] \<longrightarrow> length (mp_p (h r)) \<le> length (mp_p R)"
    using h1(2) by (auto simp: div_result_def result_cell_def R_def)
  have Rlt: "\<bar>mpi_val R\<bar> < ?B" using assms(8) unfolding R(2) by (simp add: smod_int_alt_def abs_mult sgn_if)
  have Rm: "length (mp_p R) \<le> m" using R(3) lm [OF R(1) Rlt] m(1,2) by (simp add: used_limbs_le_iff)
  have md: "?A mod ?B = (if mpi_val R < 0 then mpi_val R + ?B else mpi_val R)"
  proof -
    have *: "M = (if M - ?B * of_bool P < 0 then M - ?B * of_bool P + ?B else M - ?B * of_bool P)" if "0 \<le> M" "M < ?B" for M P
      using that by (cases P) auto
    show ?thesis unfolding R(2) signed_modulo_int_eq_modulo_int by (rule *) (use assms(8) in simp_all)
  qed
  let ?add = "mpi_while (\<lambda>h. run_bind (shmpi_cmp_int (h r) 0) (\<lambda>s. Inr (s < 0))) (shmpi_add_mpi c r r b)"
  let ?sub = "mpi_while (\<lambda>h. Inr (0 \<le> shmpi_cmp_mpi (h r) (h b))) (shmpi_sub_mpi c r r b)"
  have stop: "?add h2 = Inr (0, h2)" "?sub h2 = Inr (0, h2)" if "mpi_ok (h2 r)" "h2 b = h b" "mpi_val (h2 r) = ?A mod ?B" for h2
  proof -
    have M: "\<not> ?A mod ?B < 0" "\<not> ?B \<le> ?A mod ?B" using assms(8) by (simp_all add: not_less not_le)
    show "?add h2 = Inr (0, h2)" using that(1,3) M(1) by (subst mpi_while_unfold) (simp add: cmp_zero)
    show "?sub h2 = Inr (0, h2)" using that bok M(2) by (subst mpi_while_unfold) (simp add: cmp_mpi_ge)
  qed
  have "\<exists>R'. ?add h1 = Inr (0, h(r := R')) \<and> mpi_ok R' \<and> mpi_val R' = ?A mod ?B \<and> length (mp_p R') \<le> m \<and> (mp_p (h a) \<noteq> [] \<longrightarrow> length (mp_p (h r)) \<le> length (mp_p R'))"
  proof (cases "mpi_val R < 0")
    case True
    have args: "blank_locals 1 h1" "mpi_arg 1 h1 r" "mpi_arg 1 h1 b" "\<not> (r = r \<and> r = b)"
      using assms(2,3,5,7) R(1) Rm m(3) blank_locals_mono [of 3 _ 1] outer_var_mono [of 3 _ 1] by (auto simp: h1r mpi_arg_def)
    obtain X where X: "shmpi_add_mpi c r r b h1 = Inr (0, h1(r := X))" "mpi_ok X" "mpi_val X = mpi_val (h1 r) + mpi_val (h1 b)" "len_bound h1 r r b X"
      using add_mpi_ex [OF assms(1) args(1,2,2,3,4)] by blast
    have vX: "mpi_val X = ?A mod ?B" using X(3) True md assms(7) by (simp add: h1r)
    then have "\<bar>mpi_val X\<bar> < ?B" using assms(8) by simp
    then have "length (mp_p X) \<le> m"
      using X(2) lm [of X] lm [OF R(1) Rlt] bm Rm m(1) assms(7) by (intro len_boundD [OF X(4)]) (simp_all add: h1r)
    moreover have "?add h1 = Inr (0, h(r := X))"
      using True R(1) X(1) stop(1) [of "h(r := X)"] X(2) vX assms(7) by (subst mpi_while_unfold) (simp add: h1r cmp_zero)
    moreover have "mp_p (h a) \<noteq> [] \<longrightarrow> length (mp_p (h r)) \<le> length (mp_p X)"
    proof -
      have "R = h1 r" "h1 b = h b" "mp_p (h b) \<noteq> []" "mp_p R \<noteq> []" using assms(7,8) True by (auto simp: h1r mpi_val_def)
      then show ?thesis using X(4) R(4) by (auto simp: len_bound_def)
    qed
    ultimately show ?thesis using X(2) vX by blast
  next
    case False
    then show ?thesis using stop(1) [of h1] R(1,4) Rm md assms(7) by (intro exI [of _ R]) (simp add: h1r)
  qed
  then obtain R' where R': "?add h1 = Inr (0, h(r := R'))" "mpi_ok R'" "mpi_val R' = ?A mod ?B" "length (mp_p R') \<le> m" "mp_p (h a) \<noteq> [] \<longrightarrow> length (mp_p (h r)) \<le> length (mp_p R')" by blast
  have "shmpi_mod_mpi c r a b h = Inr (0, h(r := R'))"
    using h1(1) R'(1) stop(2) [of "h(r := R')"] R'(2,3) assms(7,8) bok by (simp add: shmpi_mod_mpi_def cmp_zero)
  then show ?thesis using R'(2-5) by (auto simp: m_def)
qed

lemma mod_mpi_negative: "mpi_ok (h b) \<Longrightarrow> mpi_val (h b) < 0 \<Longrightarrow> shmpi_mod_mpi c r a b h = Inr (ERR_NEGATIVE_VALUE, h)"
  by (simp add: shmpi_mod_mpi_def cmp_zero)


section \<open>Division by an int\<close>

text \<open>What the call with the operand on the stack gives, with the operand's value in place of its cell.\<close>

definition div_int_result :: "mvar option \<Rightarrow> mvar option \<Rightarrow> mvar \<Rightarrow> int \<Rightarrow> mpis \<Rightarrow> mpis \<Rightarrow> bool" where
  "div_int_result q r a b h h' \<longleftrightarrow> frame (set_option q \<union> set_option r) h h' \<and>
     (\<forall>x. q = Some x \<longrightarrow> result_cell h h' x (mpi_val (h a) sdiv b)) \<and> (\<forall>x. r = Some x \<longrightarrow> result_cell h h' x (mpi_val (h a) smod b))"

lemma div_int_ok:
  assumes "libc_total c" "blank_locals 4 h" "outer_var 4 a" "mpi_ok (h a)" "length (mp_p (h a)) + 3 < MPI_MAX_LIMBS" "b \<noteq> 0" "- (2 ^ 63) < b" "b < 2 ^ 63"
    and "\<And>x. q = Some x \<Longrightarrow> mpi_room (h x) \<and> outer_var 4 x \<and> (x = a \<longrightarrow> mp_s (h a) = 1 \<and> 0 < b \<and> r = None)"
    and "\<And>x. r = Some x \<Longrightarrow> mpi_room (h x) \<and> outer_var 4 x \<and> q \<noteq> Some x"
  shows "\<exists>h'. shmpi_div_int c q r a b h = Inr (0, h') \<and> div_int_result q r a b h h'"
proof -
  let ?l = "Loc 3 0"
  obtain Y where Y: "int_mpi b = Inr Y" "mpi_ok Y" "mpi_val Y = b" "length (mp_p Y) = 1" using int_mpi_arg [OF assms(7,8)] by metis
  have sY: "0 < b \<Longrightarrow> mp_s Y = 1" using Y(2,3) by (auto simp: mpi_ok_def mpi_val_def)
  define h1 where "h1 = h(?l := Y)"
  have nl: "x \<noteq> ?l" "outer_var 3 x" if "outer_var 4 x" for x using that outer_var_mono [of 4 x 3] by auto
  have e: "h1 x = h x" if "outer_var 4 x" for x using nl(1) [OF that] by (simp add: h1_def)
  have "blank_locals 3 h1" unfolding h1_def using assms(2) by (intro blank_locals_local) simp
  then have "div_call 3 q r a ?l h1"
    unfolding div_call_def using assms(3-5,9,10) Y(2) sY e nl by (auto simp: h1_def)
  then obtain h2 where h2: "shmpi_div_mpi c q r a ?l h1 = Inr (0, h2)" "div_result q r a ?l h1 h2"
    using div_mpi_ok [OF assms(1)] Y(3) assms(6) by (fastforce simp: h1_def)
  define h3 where "h3 = h2(?l := shmpi_init)"
  have run: "shmpi_div_int c q r a b h = Inr (0, h3)"
    using h2(1) by (simp add: shmpi_div_int_def with_local_def Y(1) h1_def h3_def)
  have hl: "h ?l = shmpi_init" using assms(2) by (simp add: blank_local)
  have fr: "frame (set_option q \<union> set_option r) h h3"
    using h2(2) hl by (auto simp: div_result_def frame_def h1_def h3_def)
  have cell: "result_cell h h3 x v" if "outer_var 4 x" "result_cell h1 h2 x v" for x v
    using that e [OF that(1)] nl(1) [OF that(1)] by (simp add: result_cell_def h3_def)
  have "h1 ?l = Y" by (simp add: h1_def)
  then have "div_int_result q r a b h h3"
    using h2(2) fr cell assms(9,10) Y(3) e [OF assms(3)] by (simp add: div_int_result_def div_result_def)
  then show ?thesis using run by blast
qed

section \<open>The remainder by an int\<close>

lemma mod_half_val:
  assumes "0 < unat b" "unat b \<le> 2 ^ 32" "unat y < unat b"
  shows "unat (mod_half b y x) = (unat y * 2 ^ 32 + unat x div 2 ^ 32) mod unat b"
proof -
  have "unat (push_bit 32 y OR drop_bit 32 x) = unat (push_bit 32 y) + unat (drop_bit 32 x)" by (rule unat_or_low) (rule half_lt)
  moreover have "unat (push_bit 32 y) = unat y * 2 ^ 32"
  proof -
    have "drop_bit 32 y = 0" using assms(2,3) by (simp add: word_unat_eq_iff unat_drop_div del: unat_eq_0)
    then show ?thesis using shift_limb [of 32 y] by simp
  qed
  ultimately have "unat (push_bit 32 y OR drop_bit 32 x) = unat y * 2 ^ 32 + unat x div 2 ^ 32" by (simp only: unat_drop_div)
  then show ?thesis by (simp only: mod_half_def Let_def minus_div_mult_eq_mod unat_mod)
qed

lemma low_half: "unat (push_bit 32 (x :: u64)) div 2 ^ 32 = unat x mod 2 ^ 32"
  using half_limbs [of x] unat_drop_div [of 32 x] unat_drop_div [of 32 "push_bit 32 x"] mod_mult_div_eq [of "unat x" "2 ^ 32"]
  by (metis add_right_imp_eq)

lemma mod_mult_add: "(a mod b * c + d) mod b = (a * c + d) mod (b :: nat)"
  by (metis mod_add_left_eq mod_mult_left_eq)

lemma mod_limb_val:
  assumes "0 < unat b" "unat b \<le> 2 ^ 32" "unat y < unat b"
  shows "unat (mod_limb b y x) = (unat y * limb_base + unat x) mod unat b"
proof -
  let ?b = "unat b" and ?h = "unat x div 2 ^ 32" and ?l = "unat x mod 2 ^ 32"
  have y1: "unat (mod_half b y x) = (unat y * 2 ^ 32 + ?h) mod ?b" by (rule mod_half_val [OF assms])
  then have lt: "unat (mod_half b y x) < ?b" using assms(1) by simp
  have "unat (mod_limb b y x) = ((unat y * 2 ^ 32 + ?h) mod ?b * 2 ^ 32 + ?l) mod ?b"
    unfolding mod_limb_def mod_half_val [OF assms(1,2) lt] y1 low_half ..
  also have "\<dots> = ((unat y * 2 ^ 32 + ?h) * 2 ^ 32 + ?l) mod ?b" by (rule mod_mult_add)
  also have "(unat y * 2 ^ 32 + ?h) * 2 ^ 32 + ?l = unat y * limb_base + (?h * 2 ^ 32 + ?l)"
    unfolding limb_base_def by (simp only: distrib_right mult.assoc add.assoc flip: power_add) simp
  also have "?h * 2 ^ 32 + ?l = unat x" by (rule div_mult_mod_eq)
  finally show ?thesis .
qed

lemma mod_limbs_val:
  assumes "0 < unat b" "unat b \<le> 2 ^ 32"
  shows "unat (foldl (mod_limb b) 0 (rev p)) = limbs_val p mod unat b"
proof (induction p)
  case (Cons x xs)
  have "unat (foldl (mod_limb b) 0 (rev xs)) < unat b" using Cons.IH assms(1) by simp
  then have "unat (foldl (mod_limb b) 0 (rev (x # xs))) = (limbs_val xs mod unat b * limb_base + unat x) mod unat b"
    using mod_limb_val [OF assms] Cons.IH by simp
  also have "\<dots> = (limbs_val xs * limb_base + unat x) mod unat b" by (rule mod_mult_add)
  finally show ?case by (simp only: limbs_val.simps add.commute mult.commute)
qed simp

lemma mod_int_ok:
  assumes "mpi_ok A" "0 < b" "b \<le> 2 ^ 32" "b = 2 \<longrightarrow> mp_p A \<noteq> []"
  shows "\<exists>r. shmpi_mod_int A b = Inr (0, Some r) \<and> uint r = mpi_val A mod b"
proof -
  define v where "v = int (limbs_val (mp_p A))"
  have A: "mpi_val A = v \<or> mpi_val A = - v" "mp_s A < 0 \<longleftrightarrow> mp_s A = - 1" "mpi_val A = mp_s A * v" using assms(1) by (auto simp: mpi_ok_def mpi_val_def v_def)
  consider "b = 1" | "b = 2" | "2 < b" using assms(2) by linarith
  then show ?thesis
  proof cases
    case 2
    then obtain x xs where p: "mp_p A = x # xs" using assms(4) by (cases "mp_p A") auto
    define N where "N = 2 ^ 63 * int (limbs_val xs)"
    have "v = uint x + 2 * N" by (simp add: v_def p limb_base_def N_def)
    then have "v mod 2 = uint x mod 2" by simp
    moreover have "uint (x AND 1) = uint x mod 2" by (simp add: and_one_eq uint_mod_distrib)
    moreover have "(- v) mod 2 = v mod 2" by presburger
    ultimately show ?thesis using 2 A(1) p by (auto simp: shmpi_mod_int_def)
  next
    case 3
    define w :: u64 where "w = word_of_int b"
    have w: "int (unat w) = b" using assms(2,3) by (simp add: w_def unsigned_of_int take_bit_int_eq_self)
    define y where "y = foldl (mod_limb w) 0 (rev (mp_p A))"
    have "int (unat w) \<le> int (2 ^ 32)" unfolding w using assms(3) by simp
    then have uw: "0 < unat w" "unat w \<le> 2 ^ 32" using w assms(2) by (linarith, simp only: of_nat_le_iff)
    have y: "uint y = v mod b"
    proof -
      have "uint y = int (unat y)" by simp
      also have "\<dots> = int (limbs_val (mp_p A) mod unat w)" unfolding y_def mod_limbs_val [OF uw] ..
      also have "\<dots> = v mod b" unfolding v_def w [symmetric] by (rule zmod_int)
      finally show ?thesis .
    qed
    have run: "shmpi_mod_int A b = Inr (0, Some (if mp_s A < 0 \<and> y \<noteq> 0 then w - y else y))"
      using 3 by (simp add: shmpi_mod_int_def Let_def y_def w_def)
    have "y < w" using y w pos_mod_bound [of b v] assms(2) by (simp add: word_less_def)
    then have "y \<le> w" by simp
    then have "uint (w - y) = b - v mod b" using y w by (simp add: uint_sub_if' word_le_def)
    moreover have "y = 0 \<longleftrightarrow> v mod b = 0" using y by (simp add: word_uint_eq_iff)
    ultimately have "uint (if mp_s A < 0 \<and> y \<noteq> 0 then w - y else y) = mpi_val A mod b"
      using y A(2,3) assms(1) by (auto simp: zmod_zminus1_eq_if mpi_ok_def)
    then show ?thesis using run by blast
  qed (simp add: shmpi_mod_int_def)
qed

end
