(* ===== verification/Share_Mpi_Mont.thy ===== *)
theory Share_Mpi_Mont
  imports Share_Mpi_Mod
begin

text \<open>
  Montgomery multiplication (HAC 14.36): the inverse of the lowest limb of the modulus, the product with its reduction limb by
  limb, and the value of the result.
\<close>

section \<open>Definitions\<close>

definition mont_step :: "u64 \<Rightarrow> u64 \<Rightarrow> u64" where
  "mont_step m0 x = x * (2 - m0 * x)"

definition shmpi_montg_init :: "shmpi \<Rightarrow> fault + u64" where
  "shmpi_montg_init N =
     (if mp_p N = [] then Inl NullDeref
      else let m0 = mp_p N ! 0; x = m0 + push_bit 1 ((m0 + 2) AND 4)
        in Inr (NOT ((mont_step m0 ^^ 4) x) + 1))"

text \<open>The loop over the limbs of \<open>A\<close>.  The last argument is \<open>T\<close> from the limb \<open>d\<close> points to; the results are the limbs behind \<open>d\<close> and those from \<open>d\<close> on.\<close>

fun mont_loop :: "nat \<Rightarrow> u64 list \<Rightarrow> u64 list \<Rightarrow> u64 \<Rightarrow> u64 list \<Rightarrow> u64 list \<Rightarrow> fault + (u64 list \<times> u64 list)" where
  "mont_loop m B N mm [] d = Inr ([], d)"
| "mont_loop m B N mm (u0 # A) d =
     (if d = [] \<or> B = [] then Inl OutOfBounds
      else let u1 = (d ! 0 + u0 * B ! 0) * mm in
        run_bind (shmpi_mul_hlp m B d u0) (\<lambda>d1.
        run_bind (shmpi_mul_hlp (length N) N d1 u1) (\<lambda>d2.
        if length (tl d2) \<le> length N + 1 then Inl OutOfBounds
        else run_bind (mont_loop m B N mm A ((tl d2)[length N + 1 := 0])) (\<lambda>(lo, hi). Inr (u0 # lo, hi)))))"

definition shmpi_montmul :: "shmpi \<Rightarrow> shmpi \<Rightarrow> shmpi \<Rightarrow> u64 \<Rightarrow> shmpi \<Rightarrow> fault + (shmpi \<times> shmpi)" where
  "shmpi_montmul A B N mm T =
     (let n = length (mp_p N); m = min (length (mp_p B)) n in
      if length (mp_p A) < n + 1 then Inl OutOfBounds
      else run_bind (mont_loop m (mp_p B) (mp_p N) mm (take n (mp_p A)) (replicate (length (mp_p T)) 0)) (\<lambda>(lo, d).
        if length d < n + 1 then Inl OutOfBounds
        else let A1 = A\<lparr>mp_p := take (n + 1) d @ drop (n + 1) (mp_p A)\<rparr>; T1 = T\<lparr>mp_p := lo @ d\<rparr> in
          if 0 \<le> shmpi_cmp_abs A1 N
          then run_bind (shmpi_sub_hlp n (mp_p N) (mp_p A1)) (\<lambda>p. Inr (A1\<lparr>mp_p := p\<rparr>, T1))
          else run_bind (shmpi_sub_hlp n (mp_p A1) (mp_p T1)) (\<lambda>p. Inr (A1, T1\<lparr>mp_p := p\<rparr>))))"

definition shmpi_montred :: "shmpi \<Rightarrow> shmpi \<Rightarrow> u64 \<Rightarrow> shmpi \<Rightarrow> fault + (shmpi \<times> shmpi)" where
  "shmpi_montred A N mm T = shmpi_montmul A \<lparr>mp_s = 1, mp_p = [1]\<rparr> N mm T"

section \<open>The inverse of the lowest limb\<close>

lemma mont_step_err: "1 - m0 * mont_step m0 x = (1 - m0 * x) ^ 2"
  by (simp add: mont_step_def power2_eq_square algebra_simps)

lemma mont_steps:
  assumes "1 - m0 * x = 2 ^ 4 * (y :: u64)"
  shows "m0 * (mont_step m0 ^^ 4) x = 1"
proof -
  have "1 - m0 * (mont_step m0 ^^ j) x = 2 ^ (4 * 2 ^ j) * y ^ (2 ^ j)" for j
  proof (induction j)
    case (Suc j)
    have "1 - m0 * (mont_step m0 ^^ Suc j) x = (1 - m0 * (mont_step m0 ^^ j) x) ^ 2" by (simp add: mont_step_err)
    also have "\<dots> = 2 ^ (4 * 2 ^ Suc j) * y ^ (2 ^ Suc j)" unfolding Suc.IH by (simp add: power_mult_distrib mult.commute flip: power_mult)
    finally show ?case .
  qed (use assms in simp)
  from this [of 4] have "1 - m0 * (mont_step m0 ^^ 4) x = 2 ^ (4 * 2 ^ 4) * y ^ (2 ^ 4)" .
  moreover have z: "(2 :: u64) ^ (4 * 2 ^ 4) = 0" by simp
  ultimately have "1 - m0 * (mont_step m0 ^^ 4) x = 0" unfolding z by simp
  then show ?thesis by simp
qed

lemma mont_start_int:
  assumes "odd (n :: int)"
  shows "\<exists>k. n * (n + 8 * ((n + 2) div 4 mod 2)) = 1 + 16 * k"
proof -
  have "\<exists>a. n = 8 * a + 1 \<or> n = 8 * a + 3 \<or> n = 8 * a + 5 \<or> n = 8 * a + 7" using assms by presburger
  then obtain a where "n = 8 * a + 1 \<or> n = 8 * a + 3 \<or> n = 8 * a + 5 \<or> n = 8 * a + 7" by blast
  then show ?thesis
  proof (elim disjE)
    assume n: "n = 8 * a + 1"
    then have "(n + 2) div 4 mod 2 = 0" by presburger
    then show ?thesis by (intro exI [of _ "4 * a * a + a"]) (simp add: n algebra_simps)
  next
    assume n: "n = 8 * a + 3"
    then have "(n + 2) div 4 mod 2 = 1" by presburger
    then show ?thesis by (intro exI [of _ "4 * a * a + 7 * a + 2"]) (simp add: n algebra_simps)
  next
    assume n: "n = 8 * a + 5"
    then have "(n + 2) div 4 mod 2 = 1" by presburger
    then show ?thesis by (intro exI [of _ "4 * a * a + 9 * a + 4"]) (simp add: n algebra_simps)
  next
    assume n: "n = 8 * a + 7"
    then have "(n + 2) div 4 mod 2 = 0" by presburger
    then show ?thesis by (intro exI [of _ "4 * a * a + 7 * a + 3"]) (simp add: n algebra_simps)
  qed
qed

lemma mont_start_word: "push_bit 1 ((m0 + 2) AND 4) = (of_int (8 * ((uint m0 + 2) div 4 mod 2)) :: u64)"
proof -
  have "bit (m0 + 2 :: u64) 2 \<longleftrightarrow> bit (uint m0 + 2) 2"
  proof -
    have "m0 + 2 = word_of_int (uint m0 + 2)" by simp
    moreover have "bit (word_of_int (uint m0 + 2) :: u64) 2 \<longleftrightarrow> bit (uint m0 + 2) 2" by (simp only: bit_word_of_int_iff) simp
    ultimately show ?thesis by (simp only:)
  qed
  also have "\<dots> \<longleftrightarrow> odd ((uint m0 + 2) div 4)" by (simp add: bit_iff_odd)
  finally have b: "bit (m0 + 2 :: u64) 2 \<longleftrightarrow> odd ((uint m0 + 2) div 4)" .
  have "(m0 + 2) AND 4 = (of_bool (bit (m0 + 2) 2) * 4 :: u64)"
  proof -
    have "x AND 2 ^ k = of_bool (bit x k) * (2 ^ k :: u64)" for x k
      by (rule bit_word_eqI) (auto simp: bit_simps)
    from this [of "m0 + 2" 2] show ?thesis by simp
  qed
  then show ?thesis unfolding b by (cases "odd ((uint m0 + 2) div 4)") (simp_all add: odd_iff_mod_2_eq_one even_iff_mod_2_eq_zero)
qed

lemma montg_init_ok:
  assumes "mp_p N \<noteq> []" "odd (unat (mp_p N ! 0))"
  shows "\<exists>mm. shmpi_montg_init N = Inr mm \<and> mp_p N ! 0 * mm = - 1"
proof -
  define m0 where "m0 = mp_p N ! 0"
  define x where "x = m0 + push_bit 1 ((m0 + 2) AND 4)"
  have "odd (int (unat m0))" using assms(2) unfolding m0_def by presburger
  then have "odd (uint m0)" by simp
  then obtain k where k: "uint m0 * (uint m0 + 8 * ((uint m0 + 2) div 4 mod 2)) = 1 + 16 * k" using mont_start_int by blast
  have "m0 * x = of_int (uint m0 * (uint m0 + 8 * ((uint m0 + 2) div 4 mod 2)))"
    unfolding x_def mont_start_word by simp
  then have "1 - m0 * x = 2 ^ 4 * of_int (- k)" unfolding k by simp
  then have "m0 * (mont_step m0 ^^ 4) x = 1" by (rule mont_steps)
  then have "m0 * (NOT ((mont_step m0 ^^ 4) x) + 1) = - 1" by (simp add: not_eq_complement algebra_simps)
  then show ?thesis using assms(1) by (simp add: shmpi_montg_init_def Let_def m0_def x_def)
qed

section \<open>The product\<close>

lemma limb_base_word [simp]: "(of_nat limb_base :: u64) = 0"
  by (simp add: limb_base_def)

lemma limbs_word: "p \<noteq> [] \<Longrightarrow> (of_nat (limbs_val p) :: u64) = p ! 0"
  by (cases p) simp_all

lemma limbs_head: "limb_base dvd limbs_val p \<Longrightarrow> p \<noteq> [] \<Longrightarrow> limbs_val (tl p) = limbs_val p div limb_base"
proof (cases p)
  case (Cons x xs)
  assume "limb_base dvd limbs_val p"
  then have "limb_base dvd unat x" using Cons by (simp add: dvd_add_left_iff)
  then have "unat x = 0" using limb_lt [of x] by (auto dest: dvd_imp_le)
  then show ?thesis using Cons by simp
qed simp

text \<open>One limb: \<open>(T + u0 * B + u1 * N) / 2 ^ 64\<close> is a whole number, and again below twice the modulus.\<close>

lemma mont_limb:
  assumes "N \<noteq> []" "N ! 0 * mm = - 1" "B \<noteq> []" "m = min (length B) (length N)" "limbs_val (take m B) \<le> limbs_val N"
    and "limbs_val d < 2 * limbs_val N" "length N + 3 \<le> length d" "u1 = (d ! 0 + u0 * B ! 0) * mm"
  shows "\<exists>d1 d2. shmpi_mul_hlp m B d u0 = Inr d1 \<and> shmpi_mul_hlp (length N) N d1 u1 = Inr d2 \<and> length d2 = length d \<and>
    limbs_val (tl d2) * limb_base = limbs_val d + unat u0 * limbs_val (take m B) + unat u1 * limbs_val N \<and> limbs_val (tl d2) < 2 * limbs_val N \<and>
    (tl d2)[length N + 1 := 0] = tl d2"
proof -
  let ?n = "length N" and ?N = "limbs_val N" and ?b = "limbs_val (take m B)"
  have N0: "0 < ?N" using assms(6) by simp
  have u: "unat w * v \<le> (limb_base - 1) * ?N" if "v \<le> ?N" for w :: u64 and v using that limb_lt [of w] by (intro mult_le_mono) simp_all
  have lim: "limbs_val d + unat u0 * ?b + unat u1 * ?N < limb_base * (2 * ?N)"
  proof -
    have "Suc (limb_base - 1) = limb_base" by (simp add: limb_base_def)
    then have "(limb_base - 1) * ?N + ?N = limb_base * ?N" by (metis add.commute mult_Suc)
    moreover have "limb_base * (2 * ?N) = 2 * (limb_base * ?N)" by simp
    ultimately show ?thesis using u [OF assms(5), of u0] u [OF le_refl, of u1] assms(6) by linarith
  qed
  have top: "2 * ?N \<le> limb_base ^ (?n + 1)"
  proof -
    have "2 * ?N \<le> limb_base * limb_base ^ ?n" using limbs_val_lt [of N] by (intro mult_le_mono) (simp_all add: limb_base_def)
    then show ?thesis by simp
  qed
  have big: "limb_base * (2 * ?N) \<le> limb_base ^ length d"
  proof -
    have "limb_base * (2 * ?N) \<le> limb_base * limb_base ^ (?n + 1)" using top by simp
    also have "\<dots> = limb_base ^ (?n + 2)" by simp
    also have "\<dots> \<le> limb_base ^ length d" using assms(7) by (intro power_increasing) simp_all
    finally show ?thesis .
  qed
  have mb: "m \<le> length B" "m < length d" using assms(4,7) by simp_all
  have "limbs_val d + ?b * unat u0 < limb_base ^ length d" using lim big by (simp add: mult.commute)
  then obtain d1 where d1: "shmpi_mul_hlp m B d u0 = Inr d1" "length d1 = length d" "limbs_val d1 = limbs_val d + ?b * unat u0"
    using mul_hlp_ok [of m B d u0] assms(4,7) mb by auto
  have "limbs_val d1 + ?N * unat u1 < limb_base ^ length d1" using lim big d1(2,3) by (simp add: mult.commute)
  then obtain d2 where d2: "shmpi_mul_hlp ?n N d1 u1 = Inr d2" "length d2 = length d" "limbs_val d2 = limbs_val d1 + ?N * unat u1"
    using mul_hlp_ok [of ?n N d1 u1] assms(7) d1(2) by auto
  have ne: "d \<noteq> []" "d2 \<noteq> []" "take m B \<noteq> []" using assms(1,3,4,7) d2(2) by auto
  have tot: "limbs_val d2 = limbs_val d + unat u0 * ?b + unat u1 * ?N" using d2(3) d1(3) by (simp add: mult.commute)
  have "(of_nat (limbs_val d2) :: u64) = 0"
  proof -
    have "(of_nat (limbs_val d2) :: u64) = d ! 0 + u0 * (take m B ! 0) + u1 * N ! 0"
      using limbs_word [OF ne(1)] limbs_word [OF ne(3)] limbs_word [OF assms(1)] unfolding tot of_nat_add of_nat_mult by simp
    also have "\<dots> = (d ! 0 + u0 * B ! 0) * (1 + N ! 0 * mm)" using ne(3) by (simp add: assms(8) algebra_simps)
    finally show ?thesis using assms(2) by simp
  qed
  then have "limb_base dvd limbs_val d2" by (simp add: word_of_nat_eq_0_iff limb_base_def)
  then have dv: "limbs_val (tl d2) * limb_base = limbs_val d2" using ne(2) by (simp add: limbs_head)
  then have lt: "limbs_val (tl d2) < 2 * ?N" using lim tot by (metis mult.commute mult_less_cancel2)
  have "tl d2 ! (?n + 1) = 0" using lt top assms(7) d2(2) by (intro limb_above [of _ "?n + 1"]) auto
  then have "(tl d2)[?n + 1 := 0] = tl d2" by (metis list_update_id)
  then show ?thesis using d1(1) d2(1,2) dv lt tot by auto
qed

lemma mont_loop_ok:
  assumes "N \<noteq> []" "N ! 0 * mm = - 1" "B \<noteq> []" "m = min (length B) (length N)" "limbs_val (take m B) \<le> limbs_val N"
  shows "limbs_val d < 2 * limbs_val N \<Longrightarrow> length N + 2 + length A \<le> length d \<Longrightarrow>
    \<exists>d' k. mont_loop m B N mm A d = Inr (A, d') \<and> length d' + length A = length d \<and> limbs_val d' < 2 * limbs_val N \<and>
      limbs_val d' * limb_base ^ length A = limbs_val d + limbs_val A * limbs_val (take m B) + k * limbs_val N"
proof (induction A arbitrary: d)
  case Nil
  then show ?case by (intro exI [of _ d] exI [of _ 0]) simp
next
  case (Cons u0 A)
  let ?b = "limbs_val (take m B)" and ?N = "limbs_val N"
  define u1 where "u1 = (d ! 0 + u0 * B ! 0) * mm"
  have len: "length N + 3 \<le> length d" using Cons.prems(2) by simp
  obtain d1 d2 where s: "shmpi_mul_hlp m B d u0 = Inr d1" "shmpi_mul_hlp (length N) N d1 u1 = Inr d2" "length d2 = length d"
      "limbs_val (tl d2) * limb_base = limbs_val d + unat u0 * ?b + unat u1 * ?N" "limbs_val (tl d2) < 2 * ?N" "(tl d2)[length N + 1 := 0] = tl d2"
    using mont_limb [OF assms Cons.prems(1) len u1_def] by blast
  have tl: "length N + 2 + length A \<le> length (tl d2)" using Cons.prems(2) s(3) by simp
  obtain d' k where r: "mont_loop m B N mm A (tl d2) = Inr (A, d')" "length d' + length A = length (tl d2)" "limbs_val d' < 2 * ?N"
      "limbs_val d' * limb_base ^ length A = limbs_val (tl d2) + limbs_val A * ?b + k * ?N"
    using Cons.IH [OF s(5) tl] by blast
  have "\<not> length (tl d2) \<le> length N + 1" "d \<noteq> []" using len s(3) by auto
  then have "mont_loop m B N mm (u0 # A) d = Inr (u0 # A, d')"
    using s(1,2,6) r(1) assms(3) by (simp add: Let_def flip: u1_def)
  moreover have "limbs_val d' * limb_base ^ length (u0 # A) = limbs_val d + limbs_val (u0 # A) * ?b + (unat u1 + limb_base * k) * ?N"
  proof -
    have "limbs_val d' * limb_base ^ length (u0 # A) = (limbs_val d' * limb_base ^ length A) * limb_base" by simp
    also have "\<dots> = limbs_val (tl d2) * limb_base + limb_base * limbs_val A * ?b + limb_base * k * ?N"
      unfolding r(4) by (simp add: algebra_simps)
    finally show ?thesis unfolding s(4) by (simp add: algebra_simps)
  qed
  moreover have "length d' + length (u0 # A) = length d" using r(2) s(3) len by simp
  ultimately show ?case using r(3) by blast
qed

lemma limbs_val_append_zero: "limbs_val q = 0 \<Longrightarrow> limbs_val (p @ q) = limbs_val p"
  by (induction p) simp_all

lemma limbs_val_take_all: "limbs_val p < limb_base ^ n \<Longrightarrow> limbs_val (take n p) = limbs_val p"
  by (simp add: limbs_val_take)

lemma limbs_val_drop_small: "limbs_val p < limb_base ^ n \<Longrightarrow> limbs_val (drop n p) = 0"
  using limbs_val_take_all [of p n] limbs_val_split [of n p] by (cases "n \<le> length p") simp_all

lemma mont_room: "2 * limbs_val N \<le> limb_base ^ (length N + 1)"
proof -
  have "2 * limbs_val N \<le> limb_base * limb_base ^ length N" using limbs_val_lt [of N] by (intro mult_le_mono) (simp_all add: limb_base_def)
  then show ?thesis by simp
qed

lemma mont_mod:
  assumes "v * r = (x + k * n :: nat)" "v' = v \<or> v' + n = v"
  shows "(v' * r) mod n = x mod n"
proof -
  have "(v * r) mod n = x mod n" unfolding assms(1) by simp
  moreover have "(v * r) mod n = (v' * r) mod n" if "v' + n = v" unfolding that [symmetric] by (simp add: add_mult_distrib)
  ultimately show ?thesis using assms(2) by auto
qed

definition mont_ready :: "shmpi \<Rightarrow> u64 \<Rightarrow> shmpi \<Rightarrow> bool" where
  "mont_ready N mm T \<longleftrightarrow> mp_p N \<noteq> [] \<and> mp_p N ! 0 * mm = - 1 \<and> 2 * length (mp_p N) + 2 \<le> length (mp_p T)"

text \<open>The product with its reduction: the result stays below the modulus, and is the product divided by \<open>R = limb_base ^ n\<close> modulo \<open>N\<close>.\<close>

lemma montmul_ok:
  assumes "mont_ready N mm T" "mp_p B \<noteq> []" "limbs_val (mp_p B) \<le> limbs_val (mp_p N)"
    and "limbs_val (mp_p A) < limbs_val (mp_p N)" "length (mp_p N) + 1 \<le> length (mp_p A)"
  shows "\<exists>p q. shmpi_montmul A B N mm T = Inr (A\<lparr>mp_p := p\<rparr>, T\<lparr>mp_p := q\<rparr>) \<and> length p = length (mp_p A) \<and> length q = length (mp_p T) \<and>
    limbs_val p < limbs_val (mp_p N) \<and>
    (limbs_val p * limb_base ^ length (mp_p N)) mod limbs_val (mp_p N) = (limbs_val (mp_p A) * limbs_val (mp_p B)) mod limbs_val (mp_p N)"
proof -
  let ?n = "length (mp_p N)" and ?N = "limbs_val (mp_p N)" and ?t = "length (mp_p T)" and ?m = "min (length (mp_p B)) (length (mp_p N))"
  let ?A = "take ?n (mp_p A)"
  have N: "mp_p N \<noteq> []" "mp_p N ! 0 * mm = - 1" "2 * ?n + 2 \<le> ?t" using assms(1) by (simp_all add: mont_ready_def)
  have NB: "?N < limb_base ^ ?n" by (rule limbs_val_lt)
  have b: "limbs_val (take ?m (mp_p B)) = limbs_val (mp_p B)"
    using limbs_val_take_all [of "mp_p B" ?n] NB assms(3) by (cases "length (mp_p B) \<le> ?n") (simp_all add: min_def)
  have a: "limbs_val ?A = limbs_val (mp_p A)" using limbs_val_take_all [of "mp_p A" ?n] NB assms(4) by simp
  have lA: "length ?A = ?n" using assms(5) by simp
  have d0: "limbs_val (replicate ?t 0) < 2 * ?N" "?n + 2 + length ?A \<le> length (replicate ?t (0 :: u64))"
    using assms(4) N(3) lA by simp_all
  have bN: "limbs_val (take ?m (mp_p B)) \<le> ?N" using b assms(3) by simp
  obtain d k where r: "mont_loop ?m (mp_p B) (mp_p N) mm ?A (replicate ?t 0) = Inr (?A, d)" "length d + ?n = ?t" "limbs_val d < 2 * ?N"
      "limbs_val d * limb_base ^ ?n = limbs_val (mp_p A) * limbs_val (mp_p B) + k * ?N"
    using mont_loop_ok [OF N(1,2) assms(2) refl bN d0] unfolding lA a b by auto
  define p0 where "p0 = take (?n + 1) d @ drop (?n + 1) (mp_p A)"
  have ld: "?n + 1 \<le> length d" using r(2) N(3) by simp
  have vA: "limbs_val p0 = limbs_val d" "length p0 = length (mp_p A)"
  proof -
    have "limbs_val (drop (?n + 1) (mp_p A)) = 0"
    proof (rule limbs_val_drop_small)
      show "limbs_val (mp_p A) < limb_base ^ (?n + 1)" using mont_room [of "mp_p N"] assms(4) by simp
    qed
    moreover have "limbs_val (take (?n + 1) d) = limbs_val d" by (rule limbs_val_take_all) (use mont_room [of "mp_p N"] r(3) in simp)
    ultimately show "limbs_val p0 = limbs_val d" unfolding p0_def by (simp only: limbs_val_append_zero)
    show "length p0 = length (mp_p A)" using ld assms(5) by (simp add: p0_def)
  qed
  define A1 where "A1 = A\<lparr>mp_p := p0\<rparr>"
  define T1 where "T1 = T\<lparr>mp_p := ?A @ d\<rparr>"
  have run: "shmpi_montmul A B N mm T =
     (if 0 \<le> shmpi_cmp_abs A1 N then run_bind (shmpi_sub_hlp ?n (mp_p N) (mp_p A1)) (\<lambda>p. Inr (A1\<lparr>mp_p := p\<rparr>, T1))
      else run_bind (shmpi_sub_hlp ?n (mp_p A1) (mp_p T1)) (\<lambda>p. Inr (A1, T1\<lparr>mp_p := p\<rparr>)))"
    using assms(5) r(1) ld unfolding shmpi_montmul_def Let_def A1_def T1_def p0_def by simp
  have len1: "length (mp_p A1) = length (mp_p A)" "length (mp_p T1) = ?t" "limbs_val (mp_p A1) = limbs_val d"
    using vA r(2) lA by (simp_all add: A1_def T1_def)
  show ?thesis
  proof (cases "0 \<le> shmpi_cmp_abs A1 N")
    case True
    then have ge: "?N \<le> limbs_val d" by (simp add: cmp_abs_val len1 cmp3_def split: if_splits)
    have le: "limbs_val (take ?n (mp_p N)) \<le> limbs_val (mp_p A1)" using ge len1 by simp
    have "?n \<le> length (mp_p A1)" using assms(5) len1 by simp
    then obtain q where q: "shmpi_sub_hlp ?n (mp_p N) (mp_p A1) = Inr q" "length q = length (mp_p A)" "limbs_val q + ?N = limbs_val d"
      using sub_hlp_ok [OF le_refl _ le] len1 by auto
    have "(limbs_val q * limb_base ^ ?n) mod ?N = (limbs_val (mp_p A) * limbs_val (mp_p B)) mod ?N"
      using q(3) by (intro mont_mod [OF r(4)]) simp
    then show ?thesis using q r(3) True lA r(2) unfolding run
      by (intro exI [of _ q] exI [of _ "?A @ d"]) (simp add: A1_def T1_def)
  next
    case False
    then have lt: "limbs_val d < ?N" by (simp add: cmp_abs_val len1 cmp3_def split: if_splits)
    have "limbs_val (take ?n (mp_p A1)) \<le> limbs_val (mp_p T1)"
    proof -
      have "limbs_val (take ?n (mp_p A1)) \<le> limbs_val d" using len1(3) by (simp add: limbs_val_take)
      also have "\<dots> \<le> limb_base ^ ?n * limbs_val d" by simp
      also have "\<dots> \<le> limbs_val (mp_p T1)" using lA by (simp add: T1_def limbs_val_append)
      finally show ?thesis .
    qed
    moreover have "?n \<le> length (mp_p A1)" "?n \<le> length (mp_p T1)" using assms(5) len1 N(3) by simp_all
    ultimately obtain q where q: "shmpi_sub_hlp ?n (mp_p A1) (mp_p T1) = Inr q" "length q = ?t"
      using sub_hlp_ok len1(2) by metis
    have "(limbs_val d * limb_base ^ ?n) mod ?N = (limbs_val (mp_p A) * limbs_val (mp_p B)) mod ?N"
      by (intro mont_mod [OF r(4)]) simp
    then show ?thesis using q lt False vA unfolding run
      by (intro exI [of _ p0] exI [of _ q]) (simp add: A1_def T1_def)
  qed
qed

end
