(* ===== verification/Share_Mpi_Exp.thy ===== *)
theory Share_Mpi_Exp
  imports Share_Mpi_Mont
begin

text \<open>
  Modular exponentiation with a sliding window (HAC 14.85): the table of powers, the loop over the bits of the exponent, and the value
  of the result.
\<close>

section \<open>Definitions\<close>

abbreviation "XRR \<equiv> Loc 4 0"
abbreviation "XT \<equiv> Loc 4 2"
abbreviation "XA \<equiv> Loc 4 3"

text \<open>The element \<open>W[i]\<close> of the table.\<close>

definition XW :: "nat \<Rightarrow> mvar" where
  "XW i = Loc 4 (10 + i)"

definition MPI_WINDOW_SIZE :: nat where "MPI_WINDOW_SIZE = 6"

text \<open>Calls of \<open>shmpi_montmul\<close> and \<open>shmpi_montred\<close>, which write their first argument and the limbs of \<open>T\<close>.\<close>

definition mont_mul :: "mvar \<Rightarrow> mvar \<Rightarrow> mvar \<Rightarrow> u64 \<Rightarrow> mop" where
  "mont_mul a b n mm h = run_bind (shmpi_montmul (h a) (h b) (h n) mm (h XT)) (\<lambda>(A, T). Inr (0, h(a := A, XT := T)))"

definition mont_red :: "mvar \<Rightarrow> mvar \<Rightarrow> u64 \<Rightarrow> mop" where
  "mont_red a n mm h = run_bind (shmpi_montred (h a) (h n) mm (h XT)) (\<lambda>(A, T). Inr (0, h(a := A, XT := T)))"

fun mont_squares :: "nat \<Rightarrow> mvar \<Rightarrow> mvar \<Rightarrow> u64 \<Rightarrow> mop" where
  "mont_squares 0 x n mm = mpi_ret 0"
| "mont_squares (Suc i) x n mm = mpi_chk (mont_mul x x n mm) (mont_squares i x n mm)"

definition window_size :: "nat \<Rightarrow> nat" where
  "window_size i =
     (let w = (if 671 < i then 6 else if 239 < i then 5 else if 79 < i then 4 else if 23 < i then 3 else 1)
      in if MPI_WINDOW_SIZE < w then MPI_WINDOW_SIZE else w)"

definition exp_alloc :: "libc \<Rightarrow> nat \<Rightarrow> mvar \<Rightarrow> mop" where
  "exp_alloc c j x = mpi_seq [mpi_on x (shmpi_grow c j), mpi_on (XW 1) (shmpi_grow c j), mpi_on XT (shmpi_grow c (j * 2))]"

text \<open>\<open>R\<close> squared modulo \<open>N\<close>, computed or taken from the caller's variable.\<close>

definition exp_square :: "libc \<Rightarrow> mvar \<Rightarrow> mop" where
  "exp_square c n = mpi_seq [
     shmpi_lset c XRR 1,
     (\<lambda>h. shmpi_shift_l c XRR (length (mp_p (h n)) * 2 * 64) h),
     shmpi_mod_mpi c XRR XRR n]"

definition exp_rr :: "libc \<Rightarrow> mvar \<Rightarrow> mvar option \<Rightarrow> mop" where
  "exp_rr c n rr h =
     (case rr of None \<Rightarrow> exp_square c n h
      | Some v \<Rightarrow> if mp_p (h v) = [] then mpi_seq [exp_square c n, mpi_do (\<lambda>h. h(v := h XRR))] h
        else mpi_do (\<lambda>h. h(XRR := h v)) h)"

definition exp_base :: "libc \<Rightarrow> mvar \<Rightarrow> mvar \<Rightarrow> u64 \<Rightarrow> mop" where
  "exp_base c a n mm = mpi_seq [
     (\<lambda>h. if 0 \<le> shmpi_cmp_mpi (h a) (h n) then shmpi_mod_mpi c (XW 1) a n h else shmpi_copy c (XW 1) a h),
     mont_mul (XW 1) XRR n mm]"

definition exp_one :: "libc \<Rightarrow> mvar \<Rightarrow> mvar \<Rightarrow> u64 \<Rightarrow> mop" where
  "exp_one c x n mm = mpi_seq [shmpi_copy c x XRR, mont_red x n mm]"

text \<open>The elements \<open>W[i]\<close>, \<open>W[i + 1]\<close>, ... of the table; the first argument is how many.\<close>

fun exp_powers :: "libc \<Rightarrow> nat \<Rightarrow> nat \<Rightarrow> mvar \<Rightarrow> u64 \<Rightarrow> mop" where
  "exp_powers c 0 i n mm = mpi_ret 0"
| "exp_powers c (Suc k) i n mm = mpi_seq [
     (\<lambda>h. mpi_on (XW i) (shmpi_grow c (length (mp_p (h n)) + 1)) h), shmpi_copy c (XW i) (XW (i - 1)), mont_mul (XW i) (XW 1) n mm,
     exp_powers c k (i + 1) n mm]"

definition exp_table :: "libc \<Rightarrow> nat \<Rightarrow> mvar \<Rightarrow> u64 \<Rightarrow> mop" where
  "exp_table c ws n mm =
     (if 1 < ws
      then let j = 2 ^ (ws - 1) in mpi_seq [
        (\<lambda>h. mpi_on (XW j) (shmpi_grow c (length (mp_p (h n)) + 1)) h), shmpi_copy c (XW j) (XW 1), mont_squares (ws - 1) (XW j) n mm,
        exp_powers c (2 ^ ws - (j + 1)) (j + 1) n mm]
      else mpi_ret 0)"

text \<open>The loop over the bits: \<open>nblimbs\<close>, \<open>bufsize\<close>, \<open>nbits\<close>, \<open>wbits\<close> and \<open>state\<close>.  It returns the last \<open>nbits\<close> and \<open>wbits\<close>.\<close>

function exp_loop :: "mvar \<Rightarrow> mvar \<Rightarrow> mvar \<Rightarrow> u64 \<Rightarrow> nat \<Rightarrow> nat \<Rightarrow> nat \<Rightarrow> nat \<Rightarrow> nat \<Rightarrow> nat \<Rightarrow> mpis \<Rightarrow> fault + (nat \<times> nat \<times> mpis)" where
  "exp_loop x e n mm ws nblimbs bufsize nbits wbits state h =
     (if bufsize = 0
      then (if nblimbs = 0 then Inr (nbits, wbits, h) else exp_loop x e n mm ws (nblimbs - 1) 64 nbits wbits state h)
      else if length (mp_p (h e)) \<le> nblimbs then Inl OutOfBounds
      else let bufsize = bufsize - 1; ei = unat (drop_bit bufsize (mp_p (h e) ! nblimbs) AND 1) in
        if ei = 0 \<and> state = 0 then exp_loop x e n mm ws nblimbs bufsize nbits wbits state h
        else if ei = 0 \<and> state = 1
        then run_bind (mont_mul x x n mm h) (\<lambda>(_, h). exp_loop x e n mm ws nblimbs bufsize nbits wbits state h)
        else let nbits = nbits + 1; wbits = wbits OR push_bit (ws - nbits) ei in
          if nbits = ws
          then run_bind (mpi_seq [mont_squares ws x n mm, mont_mul x (XW wbits) n mm] h)
            (\<lambda>(_, h). exp_loop x e n mm ws nblimbs bufsize 0 0 1 h)
          else exp_loop x e n mm ws nblimbs bufsize nbits wbits 2 h)"
  by pat_completeness auto
termination
  by (relation "measure (\<lambda>(x, e, n, mm, ws, nblimbs, bufsize, nbits, wbits, state, h). 65 * nblimbs + bufsize)") auto

declare exp_loop.simps [simp del]

text \<open>The bits that do not fill a window.\<close>

fun exp_rest :: "nat \<Rightarrow> nat \<Rightarrow> nat \<Rightarrow> mvar \<Rightarrow> mvar \<Rightarrow> u64 \<Rightarrow> mop" where
  "exp_rest ws 0 wbits x n mm = mpi_ret 0"
| "exp_rest ws (Suc i) wbits x n mm = mpi_seq [
     mont_mul x x n mm,
     let wbits = push_bit 1 wbits in
       mpi_chk (if wbits AND push_bit ws 1 \<noteq> 0 then mont_mul x (XW 1) n mm else mpi_ret 0) (exp_rest ws i wbits x n mm)]"

definition exp_bits :: "nat \<Rightarrow> mvar \<Rightarrow> mvar \<Rightarrow> mvar \<Rightarrow> u64 \<Rightarrow> mop" where
  "exp_bits ws x e n mm h =
     run_bind (exp_loop x e n mm ws (length (mp_p (h e))) 0 0 0 0 h) (\<lambda>(nbits, wbits, h). exp_rest ws nbits wbits x n mm h)"

definition exp_blank :: "mpis \<Rightarrow> mpis" where
  "exp_blank h v = (case v of Loc j _ \<Rightarrow> if j = 4 then shmpi_init else h v | Arg _ \<Rightarrow> h v)"

text \<open>The variables at the start: the table is cleared with \<open>memset\<close>, which leaves the sign 0.\<close>

definition exp_start :: "mpis \<Rightarrow> mpis" where
  "exp_start h v = (case v of Loc j i \<Rightarrow> if j = 4 then (if 10 \<le> i then \<lparr>mp_s = 0, mp_p = []\<rparr> else shmpi_init) else h v | Arg _ \<Rightarrow> h v)"

text \<open>The part between the initialisation of the variables and \<open>cleanup\<close>.  \<open>A\<close> becomes the variable \<open>Apos\<close> when it is negative.\<close>

definition exp_body :: "libc \<Rightarrow> mvar \<Rightarrow> mvar \<Rightarrow> mvar \<Rightarrow> mvar \<Rightarrow> mvar option \<Rightarrow> u64 \<Rightarrow> mop" where
  "exp_body c x a e n rr mm h =
     (let ws = window_size (shmpi_msb (h e)); j = length (mp_p (h n)) + 1 in
      mpi_chk (exp_alloc c j x) (\<lambda>h1.
        let neg = (mp_s (h1 a) = - 1); a' = (if neg then XA else a) in mpi_seq [
          if neg then mpi_seq [shmpi_copy c XA a, set_sign XA 1] else mpi_ret 0,
          exp_rr c n rr, exp_base c a' n mm, exp_one c x n mm, exp_table c ws n mm, exp_bits ws x e n mm, mont_red x n mm,
          if neg then mpi_seq [set_sign x (- 1), shmpi_add_mpi c x n x] else mpi_ret 0] h1) h)"

definition shmpi_exp_mod :: "libc \<Rightarrow> mvar \<Rightarrow> mvar \<Rightarrow> mvar \<Rightarrow> mvar \<Rightarrow> mvar option \<Rightarrow> mop" where
  "shmpi_exp_mod c x a e n rr h =
     run_bind (shmpi_cmp_int (h n) 0) (\<lambda>sn.
       if sn < 0 then mpi_ret ERR_BAD_INPUT_DATA h
       else if mp_p (h n) = [] then Inl NullDeref
       else if mp_p (h n) ! 0 AND 1 = 0 then mpi_ret ERR_BAD_INPUT_DATA h
       else run_bind (shmpi_cmp_int (h e) 0) (\<lambda>se.
         if se < 0 then mpi_ret ERR_BAD_INPUT_DATA h
         else run_bind (shmpi_montg_init (h n)) (\<lambda>mm.
           mpi_cleanup (exp_body c x a e n rr mm) exp_blank (exp_start h))))"

section \<open>Montgomery representation\<close>

lemma mod_cancel:
  fixes w u r n :: nat
  assumes "coprime r n" "(w * r) mod n = (u * r) mod n" "w < n"
  shows "w = u mod n"
proof -
  have "int ((w * r) mod n) = int ((u * r) mod n)" using assms(2) by simp
  then have "(int w * int r) mod int n = (int u * int r) mod int n" by (simp add: zmod_int)
  then have "int n dvd (int w - int u) * int r" by (simp add: mod_eq_dvd_iff left_diff_distrib)
  then have "int n dvd int w - int u" using assms(1) by (simp add: coprime_dvd_mult_left_iff coprime_commute)
  then have "int w mod int n = int u mod int n" by (simp add: mod_eq_dvd_iff)
  then have "w mod n = u mod n" by (simp only: zmod_int [symmetric] of_nat_eq_iff)
  then show ?thesis using assms(3) by simp
qed

lemma odd_limbs: "odd (limbs_val p) \<longleftrightarrow> p \<noteq> [] \<and> odd (unat (p ! 0))"
proof -
  have "even limb_base" by (simp add: limb_base_def)
  then show ?thesis by (cases p) auto
qed

lemma coprime_base:
  assumes "odd n"
  shows "coprime (limb_base ^ k) n"
proof -
  have "limb_base ^ k = 2 ^ (64 * k)" by (simp only: limb_base_def power_mult)
  then show ?thesis using assms by (simp only:) simp
qed

text \<open>What the calls rely on: the modulus is odd, \<open>mm\<close> belongs to it, and \<open>T\<close> has room.\<close>

definition mont_ctx :: "mvar \<Rightarrow> u64 \<Rightarrow> mpis \<Rightarrow> bool" where
  "mont_ctx n mm h \<longleftrightarrow> odd (limbs_val (mp_p (h n))) \<and> mont_ready (h n) mm (h XT)"

text \<open>A variable that holds \<open>k * R mod N\<close>.\<close>

definition mont_num :: "mvar \<Rightarrow> mpis \<Rightarrow> mvar \<Rightarrow> nat \<Rightarrow> bool" where
  "mont_num n h v k \<longleftrightarrow> mp_p (h v) \<noteq> [] \<and>
     limbs_val (mp_p (h v)) = (k * limb_base ^ length (mp_p (h n))) mod limbs_val (mp_p (h n))"

definition mont_dest :: "mvar \<Rightarrow> mpis \<Rightarrow> mvar \<Rightarrow> bool" where
  "mont_dest n h v \<longleftrightarrow> length (mp_p (h n)) + 1 \<le> length (mp_p (h v)) \<and> limbs_val (mp_p (h v)) < limbs_val (mp_p (h n))"

lemma mont_num_lt: "mont_ctx n mm h \<Longrightarrow> mont_num n h v k \<Longrightarrow> limbs_val (mp_p (h v)) < limbs_val (mp_p (h n))"
  by (auto simp: mont_ctx_def mont_num_def odd_pos)

text \<open>A store after a call: the variable \<open>a\<close> has its sign and its length, the limbs of \<open>T\<close> are new, and all else is as before.\<close>

definition mont_after :: "mvar \<Rightarrow> mpis \<Rightarrow> mpis \<Rightarrow> bool" where
  "mont_after a h h' \<longleftrightarrow> frame {a, XT} h h' \<and> mp_s (h' a) = mp_s (h a) \<and> length (mp_p (h' a)) = length (mp_p (h a)) \<and>
     length (mp_p (h' XT)) = length (mp_p (h XT))"

lemma mont_after_refl [simp]: "mont_after a h h"
  by (simp add: mont_after_def)

lemma mont_after_trans: "mont_after a h h' \<Longrightarrow> mont_after a h' h'' \<Longrightarrow> mont_after a h h''"
  by (auto simp: mont_after_def intro: frame_trans)

lemma mont_after_other: "mont_after a h h' \<Longrightarrow> v \<noteq> a \<Longrightarrow> v \<noteq> XT \<Longrightarrow> h' v = h v"
  by (auto simp: mont_after_def frame_def)

lemma mont_after_ctx: "mont_after a h h' \<Longrightarrow> n \<noteq> a \<Longrightarrow> n \<noteq> XT \<Longrightarrow> mont_ctx n mm h' = mont_ctx n mm h"
  by (simp add: mont_after_other [of a h h' n] mont_ctx_def mont_ready_def) (simp add: mont_after_def)

lemma mont_after_num: "mont_after a h h' \<Longrightarrow> n \<noteq> a \<Longrightarrow> n \<noteq> XT \<Longrightarrow> v \<noteq> a \<Longrightarrow> v \<noteq> XT \<Longrightarrow> mont_num n h' v k = mont_num n h v k"
  by (simp add: mont_after_other mont_num_def)

lemma mont_call:
  assumes "mont_ready (h n) mm (h XT)" "mp_p B \<noteq> []" "limbs_val (mp_p B) \<le> limbs_val (mp_p (h n))" "mont_dest n h a" "a \<noteq> XT"
  shows "\<exists>A T. shmpi_montmul (h a) B (h n) mm (h XT) = Inr (A, T) \<and> mont_after a h (h(a := A, XT := T)) \<and>
    limbs_val (mp_p A) < limbs_val (mp_p (h n)) \<and>
    (limbs_val (mp_p A) * limb_base ^ length (mp_p (h n))) mod limbs_val (mp_p (h n)) = (limbs_val (mp_p (h a)) * limbs_val (mp_p B)) mod limbs_val (mp_p (h n))"
proof -
  have d: "limbs_val (mp_p (h a)) < limbs_val (mp_p (h n))" "length (mp_p (h n)) + 1 \<le> length (mp_p (h a))" using assms(4) by (simp_all add: mont_dest_def)
  obtain p q where m: "shmpi_montmul (h a) B (h n) mm (h XT) = Inr ((h a)\<lparr>mp_p := p\<rparr>, (h XT)\<lparr>mp_p := q\<rparr>)" "length p = length (mp_p (h a))" "length q = length (mp_p (h XT))"
      "limbs_val p < limbs_val (mp_p (h n))"
      "(limbs_val p * limb_base ^ length (mp_p (h n))) mod limbs_val (mp_p (h n)) = (limbs_val (mp_p (h a)) * limbs_val (mp_p B)) mod limbs_val (mp_p (h n))"
    using montmul_ok [OF assms(1-3) d] by blast
  then show ?thesis using assms(5)
    by (intro exI [of _ "(h a)\<lparr>mp_p := p\<rparr>"] exI [of _ "(h XT)\<lparr>mp_p := q\<rparr>"]) (simp add: mont_after_def)
qed

text \<open>The number that a factor \<open>k * R mod N\<close> is multiplied with is multiplied by \<open>k\<close>.\<close>

lemma mont_scale:
  assumes "odd N" "w < (N :: nat)" "(w * R) mod N = (v * u) mod N" "u = (k * R) mod N" "coprime R N"
  shows "w = (v * k) mod N"
proof (rule mod_cancel [OF assms(5) _ assms(2)])
  show "(w * R) mod N = (v * k * R) mod N" unfolding assms(3,4) by (simp add: mod_mult_right_eq mult.assoc)
qed

lemma mont_mul_gen:
  assumes "mont_ctx n mm h" "mont_dest n h a" "mont_num n h b k" "a \<noteq> XT"
  shows "\<exists>h'. mont_mul a b n mm h = Inr (0, h') \<and> mont_after a h h' \<and>
    limbs_val (mp_p (h' a)) = (limbs_val (mp_p (h a)) * k) mod limbs_val (mp_p (h n))"
proof -
  let ?N = "limbs_val (mp_p (h n))" and ?R = "limb_base ^ length (mp_p (h n))"
  have N: "odd ?N" "mont_ready (h n) mm (h XT)" using assms(1) by (simp_all add: mont_ctx_def)
  have b: "mp_p (h b) \<noteq> []" "limbs_val (mp_p (h b)) = (k * ?R) mod ?N" using assms(3) by (simp_all add: mont_num_def)
  have le: "limbs_val (mp_p (h b)) \<le> ?N" using mont_num_lt [OF assms(1,3)] by simp
  obtain A T where m: "shmpi_montmul (h a) (h b) (h n) mm (h XT) = Inr (A, T)" "mont_after a h (h(a := A, XT := T))"
      "limbs_val (mp_p A) < ?N" "(limbs_val (mp_p A) * ?R) mod ?N = (limbs_val (mp_p (h a)) * limbs_val (mp_p (h b))) mod ?N"
    using mont_call [OF N(2) b(1) le assms(2,4)] by blast
  have "limbs_val (mp_p A) = (limbs_val (mp_p (h a)) * k) mod ?N"
    by (rule mont_scale [OF N(1) m(3,4) b(2) coprime_base [OF N(1)]])
  then show ?thesis using m(1,2) assms(4) by (intro exI [of _ "h(a := A, XT := T)"]) (simp add: mont_mul_def)
qed

lemma mont_dest_after:
  assumes "mont_after a h h'" "mont_dest n h a" "n \<noteq> a" "n \<noteq> XT" "limbs_val (mp_p (h' a)) < limbs_val (mp_p (h n))"
  shows "mont_dest n h' a"
  using assms mont_after_other [OF assms(1,3,4)] by (simp add: mont_dest_def mont_after_def)

text \<open>A product of two numbers in the representation.\<close>

lemma mont_mul_num:
  assumes "mont_ctx n mm h" "mont_dest n h a" "mont_num n h a j" "mont_num n h b k" "a \<noteq> XT" "n \<noteq> a" "n \<noteq> XT"
  shows "\<exists>h'. mont_mul a b n mm h = Inr (0, h') \<and> mont_after a h h' \<and> mont_num n h' a (j * k) \<and> mont_dest n h' a"
proof -
  obtain h' where m: "mont_mul a b n mm h = Inr (0, h')" "mont_after a h h'"
      "limbs_val (mp_p (h' a)) = (limbs_val (mp_p (h a)) * k) mod limbs_val (mp_p (h n))"
    using mont_mul_gen [OF assms(1,2,4,5)] by blast
  have n: "h' n = h n" using mont_after_other [OF m(2) assms(6,7)] .
  have "mp_p (h' a) \<noteq> []" using m(2) assms(3) unfolding mont_after_def mont_num_def by (metis length_0_conv)
  moreover have "(j * R mod N) * k mod N = j * k * R mod N" for R N
    using mod_mult_left_eq [of "j * R" N k] by (simp add: mult.assoc mult.commute [of R k])
  ultimately have "mont_num n h' a (j * k)" using m(3) assms(3) by (simp only: mont_num_def n) blast
  moreover have "mont_dest n h' a"
    by (rule mont_dest_after [OF m(2) assms(2,6,7)]) (use m(3) assms(1) in \<open>simp add: mont_ctx_def odd_pos\<close>)
  ultimately show ?thesis using m(1,2) by blast
qed

lemma mont_squares_ok:
  assumes "mont_ctx n mm h" "mont_dest n h x" "mont_num n h x k" "x \<noteq> XT" "n \<noteq> x" "n \<noteq> XT"
  shows "\<exists>h'. mont_squares i x n mm h = Inr (0, h') \<and> mont_after x h h' \<and> mont_num n h' x (k ^ 2 ^ i) \<and> mont_dest n h' x"
  using assms
proof (induction i arbitrary: h k)
  case 0
  then show ?case by (intro exI [of _ h]) (simp add: mpi_ret_def)
next
  case (Suc i)
  obtain h1 where h1: "mont_mul x x n mm h = Inr (0, h1)" "mont_after x h h1" "mont_num n h1 x (k * k)" "mont_dest n h1 x"
    using mont_mul_num [OF Suc.prems(1,2,3,3,4,5,6)] by blast
  have c1: "mont_ctx n mm h1" using mont_after_ctx [OF h1(2) Suc.prems(5,6)] Suc.prems(1) by simp
  obtain h2 where h2: "mont_squares i x n mm h1 = Inr (0, h2)" "mont_after x h1 h2" "mont_num n h2 x ((k * k) ^ 2 ^ i)" "mont_dest n h2 x"
    using Suc.IH [OF c1 h1(4,3) Suc.prems(4,5,6)] by blast
  have "(k * k) ^ 2 ^ i = k ^ 2 ^ Suc i" by (simp add: power_mult flip: power2_eq_square)
  then show ?case using h1(1) h2 mont_after_trans [OF h1(2) h2(2)] by (intro exI [of _ h2]) simp
qed

lemma mont_red_ok:
  assumes "mont_ctx n mm h" "mont_dest n h a" "mont_num n h a k" "a \<noteq> XT" "n \<noteq> a" "n \<noteq> XT"
  shows "\<exists>h'. mont_red a n mm h = Inr (0, h') \<and> mont_after a h h' \<and> limbs_val (mp_p (h' a)) = k mod limbs_val (mp_p (h n))"
proof -
  let ?N = "limbs_val (mp_p (h n))" and ?R = "limb_base ^ length (mp_p (h n))" and ?B = "\<lparr>mp_s = 1, mp_p = [1 :: u64]\<rparr>"
  have N: "odd ?N" "mont_ready (h n) mm (h XT)" using assms(1) by (simp_all add: mont_ctx_def)
  have one: "mp_p ?B \<noteq> []" "limbs_val (mp_p ?B) \<le> ?N" using N(1) by (simp_all add: odd_pos Suc_le_eq)
  obtain A T where m: "shmpi_montmul (h a) ?B (h n) mm (h XT) = Inr (A, T)" "mont_after a h (h(a := A, XT := T))"
      "limbs_val (mp_p A) < ?N" "(limbs_val (mp_p A) * ?R) mod ?N = (limbs_val (mp_p (h a)) * limbs_val (mp_p ?B)) mod ?N"
    using mont_call [OF N(2) one assms(2,4)] by blast
  have "(limbs_val (mp_p A) * ?R) mod ?N = (k * ?R) mod ?N" using m(4) assms(3) by (simp add: mont_num_def)
  then have "limbs_val (mp_p A) = k mod ?N" by (rule mod_cancel [OF coprime_base [OF N(1)] _ m(3)])
  then show ?thesis using m(1,2) assms(4)
    by (intro exI [of _ "h(a := A, XT := T)"]) (simp add: mont_red_def shmpi_montred_def)
qed

section \<open>The bits of the exponent\<close>

lemma limbs_val_drop: "limbs_val (drop i p) = limbs_val p div limb_base ^ i"
proof (cases "i \<le> length p")
  case True
  have "limbs_val (take i p) < limb_base ^ i" using limbs_val_lt [of "take i p"] True by simp
  then show ?thesis using limbs_val_split [OF True] by simp
next
  case False
  have "limb_base ^ length p \<le> limb_base ^ i" using False by (intro power_increasing) simp_all
  then have "limbs_val p < limb_base ^ i" using limbs_val_lt [of p] by (rule less_le_trans [rotated])
  then show ?thesis using False by simp
qed

lemma limb_bit:
  assumes "i < length p" "j < 64"
  shows "limbs_val p div 2 ^ (64 * i + j) mod 2 = unat (drop_bit j (p ! i) AND 1)"
proof -
  have b: "limb_base ^ i = 2 ^ (64 * i)" by (simp only: limb_base_def power_mult)
  have d: "drop i p = p ! i # drop (Suc i) p" using assms(1) by (rule Cons_nth_drop_Suc [symmetric])
  have "limbs_val p div 2 ^ (64 * i + j) = limbs_val p div limb_base ^ i div 2 ^ j" unfolding power_add b by (rule div_mult2_eq)
  also have "\<dots> = (unat (p ! i) + limb_base * limbs_val (drop (Suc i) p)) div 2 ^ j" unfolding limbs_val_drop [symmetric] d by simp
  also have "\<dots> = unat (p ! i) div 2 ^ j + 2 * (2 ^ (63 - j) * limbs_val (drop (Suc i) p))"
  proof -
    have "limb_base = 2 ^ j * (2 * 2 ^ (63 - j))" using assms(2) by (simp add: limb_base_def flip: power_Suc power_add)
    then have e: "limb_base * limbs_val (drop (Suc i) p) = 2 ^ j * (2 * (2 ^ (63 - j) * limbs_val (drop (Suc i) p)))" by (metis mult.assoc)
    have "(a + 2 ^ j * b) div 2 ^ j = a div 2 ^ j + b" for a b :: nat by simp
    then show ?thesis unfolding e .
  qed
  finally have "limbs_val p div 2 ^ (64 * i + j) mod 2 = unat (p ! i) div 2 ^ j mod 2" by simp
  moreover have "unat (w AND 1) = unat w mod 2" for w :: u64 by (simp add: and_one_eq unat_mod)
  ultimately show ?thesis by (simp only: unat_drop_div)
qed

text \<open>A window: the bits read so far are \<open>done\<close> and the \<open>nbits\<close> bits \<open>pend\<close> that are kept in the upper bits of \<open>wbits\<close>.\<close>

definition window :: "nat \<Rightarrow> nat \<Rightarrow> nat \<Rightarrow> nat \<Rightarrow> nat \<Rightarrow> nat \<Rightarrow> nat \<Rightarrow> bool" where
  "window ws nbits wbits state fin pend bits \<longleftrightarrow> nbits < ws \<and> pend < 2 ^ nbits \<and> wbits = pend * 2 ^ (ws - nbits) \<and> bits = fin * 2 ^ nbits + pend \<and>
     (if state = 0 then nbits = 0 \<and> fin = 0 else if state = 1 then nbits = 0 else state = 2 \<and> 0 < nbits \<and> 2 ^ (nbits - 1) \<le> pend)"

lemma or_shifted: "b < 2 \<Longrightarrow> (m * 2 ^ Suc k) OR push_bit k b = (m * 2 + b) * (2 :: nat) ^ k"
proof -
  assume "b < 2"
  then consider "b = 0" | "b = 1" by linarith
  then have "(m * 2) OR b = m * 2 + b"
  proof cases
    case 2
    show ?thesis unfolding 2 or_one_eq by simp
  qed simp
  moreover have "push_bit k (m * 2) OR push_bit k b = push_bit k ((m * 2) OR b)" by (simp add: push_bit_or)
  moreover have "m * 2 ^ Suc k = push_bit k (m * 2)" by (simp add: push_bit_eq_mult)
  ultimately show ?thesis by (simp add: push_bit_eq_mult mult.assoc)
qed

lemma window_start: "0 < ws \<Longrightarrow> window ws 0 0 0 0 0 0"
  by (simp add: window_def)

lemma window_bit:
  assumes "window ws nbits wbits state fin pend bits" "b < 2" "\<not> (b = 0 \<and> state = 0)" "\<not> (b = 0 \<and> state = 1)"
  shows "wbits OR push_bit (ws - (nbits + 1)) b = (2 * pend + b) * 2 ^ (ws - (nbits + 1))" "2 * bits + b = fin * 2 ^ (nbits + 1) + (2 * pend + b)"
    "2 ^ nbits \<le> 2 * pend + b" "2 * pend + b < 2 ^ (nbits + 1)"
proof -
  have "nbits < ws" using assms(1) by (simp add: window_def)
  then have "ws - nbits = Suc (ws - (nbits + 1))" by simp
  then have "wbits = pend * 2 ^ Suc (ws - (nbits + 1))" using assms(1) unfolding window_def by metis
  then show "wbits OR push_bit (ws - (nbits + 1)) b = (2 * pend + b) * 2 ^ (ws - (nbits + 1))"
    using or_shifted [OF assms(2), of pend "ws - (nbits + 1)"] by (simp only: mult.commute)
  show "2 * bits + b = fin * 2 ^ (nbits + 1) + (2 * pend + b)" using assms(1) by (simp add: window_def)
  show "2 * pend + b < 2 ^ (nbits + 1)" using assms(1,2) by (simp add: window_def)
  show "2 ^ nbits \<le> 2 * pend + b"
  proof (cases "state = 0 \<or> state = 1")
    case True
    then show ?thesis using assms by (auto simp: window_def)
  next
    case False
    then have "2 ^ (nbits - 1) \<le> pend" "0 < nbits" using assms(1) by (auto simp: window_def)
    then have "2 * 2 ^ (nbits - 1) \<le> 2 * pend + b" by linarith
    then show ?thesis using \<open>0 < nbits\<close> by (cases nbits) simp_all
  qed
qed

text \<open>The table: \<open>W[1]\<close>, and \<open>W[i]\<close> for the numbers with the highest bit of a window.\<close>

definition exp_ready :: "nat \<Rightarrow> nat \<Rightarrow> mvar \<Rightarrow> mpis \<Rightarrow> bool" where
  "exp_ready ws k n h \<longleftrightarrow> mont_num n h (XW 1) k \<and> (\<forall>i. 2 ^ (ws - 1) \<le> i \<and> i < 2 ^ ws \<longrightarrow> mont_num n h (XW i) (k ^ i))"

lemma XW_neq [simp]: "XW i \<noteq> XT" "XT \<noteq> XW i" "XW i \<noteq> XRR" "XRR \<noteq> XW i" "XW i \<noteq> XA" "XA \<noteq> XW i" "XW i = XW j \<longleftrightarrow> i = j"
  by (auto simp: XW_def)

lemma outer_XW: "outer_var 5 x \<Longrightarrow> x \<noteq> XW i"
  by (auto simp: XW_def)

lemma exp_ready_after:
  assumes "mont_after x h h'" "outer_var 5 x" "outer_var 5 n" "n \<noteq> x"
  shows "exp_ready ws k n h' = exp_ready ws k n h"
proof -
  have "n \<noteq> XT" using assms(3) by auto
  then have "mont_num n h' (XW i) m = mont_num n h (XW i) m" for i m
    using mont_after_num [OF assms(1,4)] outer_XW [OF assms(2)] XW_neq(1) by metis
  then show ?thesis by (simp add: exp_ready_def)
qed

lemma window_idle: "window ws nbits wbits 0 fin pend bits \<Longrightarrow> window ws nbits wbits 0 fin pend (2 * bits)"
  by (auto simp: window_def)

lemma window_square: "window ws nbits wbits 1 fin pend bits \<Longrightarrow> window ws nbits wbits 1 (2 * fin) pend (2 * bits)"
  by (auto simp: window_def)

lemma window_full:
  assumes "window ws nbits wbits state fin pend bits" "b < 2" "\<not> (b = 0 \<and> state = 0)" "\<not> (b = 0 \<and> state = 1)" "nbits + 1 = ws"
  shows "wbits OR push_bit (ws - (nbits + 1)) b = 2 * pend + b" "2 ^ (ws - 1) \<le> 2 * pend + b" "2 * pend + b < 2 ^ ws"
    "window ws 0 0 1 (fin * 2 ^ ws + (2 * pend + b)) 0 (2 * bits + b)"
  using window_bit [OF assms(1-4)] assms(5) by (auto simp: window_def)

lemma window_more:
  assumes "window ws nbits wbits state fin pend bits" "b < 2" "\<not> (b = 0 \<and> state = 0)" "\<not> (b = 0 \<and> state = 1)" "nbits + 1 \<noteq> ws"
  shows "window ws (nbits + 1) (wbits OR push_bit (ws - (nbits + 1)) b) 2 fin (2 * pend + b) (2 * bits + b)"
proof -
  have "nbits + 1 < ws" using assms(1,5) by (simp add: window_def)
  then show ?thesis using window_bit [OF assms(1-4)] by (simp add: window_def)
qed

text \<open>What the loop keeps: the variables of the call, and \<open>X\<close>, which holds the power with the bits of the finished windows.\<close>

definition exp_state :: "mvar \<Rightarrow> mvar \<Rightarrow> u64 \<Rightarrow> nat \<Rightarrow> nat \<Rightarrow> nat \<Rightarrow> mpis \<Rightarrow> bool" where
  "exp_state x n mm ws k fin h \<longleftrightarrow> mont_ctx n mm h \<and> exp_ready ws k n h \<and> mont_dest n h x \<and> mont_num n h x (k ^ fin)"

text \<open>The variables of the caller: the result is neither the exponent nor the modulus.\<close>

definition exp_vars :: "mvar \<Rightarrow> mvar \<Rightarrow> mvar \<Rightarrow> bool" where
  "exp_vars x e n \<longleftrightarrow> outer_var 5 x \<and> outer_var 5 e \<and> outer_var 5 n \<and> x \<noteq> e \<and> x \<noteq> n"

lemma exp_varsD:
  assumes "exp_vars x e n"
  shows "x \<noteq> XT" "n \<noteq> x" "n \<noteq> XT" "e \<noteq> x" "e \<noteq> XT" "outer_var 5 x" "outer_var 5 n" "outer_var 5 e"
  using assms by (auto simp: exp_vars_def)

lemma exp_mul:
  assumes "exp_vars x e n" "exp_state x n mm ws k fin h" "mont_num n h b (k ^ j)"
  shows "\<exists>h'. mont_mul x b n mm h = Inr (0, h') \<and> mont_after x h h' \<and> exp_state x n mm ws k (fin + j) h'"
proof -
  note v = exp_varsD [OF assms(1)]
  have s: "mont_ctx n mm h" "exp_ready ws k n h" "mont_dest n h x" "mont_num n h x (k ^ fin)" using assms(2) by (simp_all add: exp_state_def)
  obtain h' where h': "mont_mul x b n mm h = Inr (0, h')" "mont_after x h h'" "mont_num n h' x (k ^ fin * k ^ j)" "mont_dest n h' x"
    using mont_mul_num [OF s(1,3,4) assms(3) v(1-3)] by blast
  have "mont_ctx n mm h'" "exp_ready ws k n h'" using mont_after_ctx [OF h'(2) v(2,3)] exp_ready_after [OF h'(2) v(6,7,2)] s(1,2) by simp_all
  then show ?thesis using h' by (intro exI [of _ h']) (simp add: exp_state_def power_add)
qed

lemma exp_squares:
  assumes "exp_vars x e n" "exp_state x n mm ws k fin h"
  shows "\<exists>h'. mont_squares i x n mm h = Inr (0, h') \<and> mont_after x h h' \<and> exp_state x n mm ws k (fin * 2 ^ i) h'"
proof -
  note v = exp_varsD [OF assms(1)]
  have s: "mont_ctx n mm h" "exp_ready ws k n h" "mont_dest n h x" "mont_num n h x (k ^ fin)" using assms(2) by (simp_all add: exp_state_def)
  obtain h' where h': "mont_squares i x n mm h = Inr (0, h')" "mont_after x h h'" "mont_num n h' x ((k ^ fin) ^ 2 ^ i)" "mont_dest n h' x"
    using mont_squares_ok [OF s(1,3,4) v(1-3)] by blast
  have "mont_ctx n mm h'" "exp_ready ws k n h'" using mont_after_ctx [OF h'(2) v(2,3)] exp_ready_after [OF h'(2) v(6,7,2)] s(1,2) by simp_all
  then show ?thesis using h' by (intro exI [of _ h']) (simp add: exp_state_def power_mult)
qed

lemma exp_window:
  assumes "exp_vars x e n" "exp_state x n mm ws k fin h" "2 ^ (ws - 1) \<le> i" "i < 2 ^ ws"
  shows "\<exists>h'. mpi_seq [mont_squares ws x n mm, mont_mul x (XW i) n mm] h = Inr (0, h') \<and> mont_after x h h' \<and> exp_state x n mm ws k (fin * 2 ^ ws + i) h'"
proof -
  obtain h1 where h1: "mont_squares ws x n mm h = Inr (0, h1)" "mont_after x h h1" "exp_state x n mm ws k (fin * 2 ^ ws) h1"
    using exp_squares [OF assms(1,2)] by blast
  have "mont_num n h1 (XW i) (k ^ i)" using h1(3) assms(3,4) by (simp add: exp_state_def exp_ready_def)
  then obtain h2 where h2: "mont_mul x (XW i) n mm h1 = Inr (0, h2)" "mont_after x h1 h2" "exp_state x n mm ws k (fin * 2 ^ ws + i) h2"
    using exp_mul [OF assms(1) h1(3)] by blast
  then show ?thesis using h1(1) mont_after_trans [OF h1(2) h2(2)] by (intro exI [of _ h2]) simp
qed

definition exp_result :: "mvar \<Rightarrow> mvar \<Rightarrow> u64 \<Rightarrow> nat \<Rightarrow> nat \<Rightarrow> nat \<Rightarrow> mpis \<Rightarrow> fault + (nat \<times> nat \<times> mpis) \<Rightarrow> bool" where
  "exp_result x n mm ws k E h r \<longleftrightarrow> (\<exists>nbits wbits h' state fin pend. r = Inr (nbits, wbits, h') \<and> mont_after x h h' \<and>
     exp_state x n mm ws k fin h' \<and> window ws nbits wbits state fin pend E)"

lemma exp_result_after: "mont_after x h h1 \<Longrightarrow> exp_result x n mm ws k E h1 r \<Longrightarrow> exp_result x n mm ws k E h r"
  unfolding exp_result_def using mont_after_trans by blast

lemma exp_loop_ok:
  assumes "exp_vars x e n"
  shows "exp_state x n mm ws k fin h \<Longrightarrow> mp_p (h e) = p \<Longrightarrow>
    window ws nbits wbits state fin pend (limbs_val p div 2 ^ (64 * nb + bs)) \<Longrightarrow> bs \<le> 64 \<Longrightarrow> (if bs = 0 then nb \<le> length p else nb < length p) \<Longrightarrow>
    exp_result x n mm ws k (limbs_val p) h (exp_loop x e n mm ws nb bs nbits wbits state h)"
proof (induction "65 * nb + bs" arbitrary: nb bs nbits wbits state fin pend h rule: less_induct)
  case less
  note v = exp_varsD [OF assms]
  have keep: "mp_p (h' e) = p" if "mont_after x h h'" for h' using mont_after_other [OF that v(4,5)] less.prems(2) by simp
  show ?case
  proof (cases "bs = 0")
    case bs0: True
    show ?thesis
    proof (cases "nb = 0")
      case True
      then have "exp_loop x e n mm ws nb bs nbits wbits state h = Inr (nbits, wbits, h)" using bs0 by (subst exp_loop.simps) simp
      then show ?thesis using less.prems(1,3) bs0 True by (auto simp: exp_result_def)
    next
      case False
      then have "exp_loop x e n mm ws nb bs nbits wbits state h = exp_loop x e n mm ws (nb - 1) 64 nbits wbits state h" using bs0 by (subst exp_loop.simps) simp
      moreover have "64 * nb + bs = 64 * (nb - 1) + 64" using False bs0 by simp
      ultimately show ?thesis using less.hyps [of "nb - 1" 64 fin h nbits wbits state pend] less.prems False bs0 by simp
    qed
  next
    case False
    define b where "b = unat (drop_bit (bs - 1) (mp_p (h e) ! nb) AND 1)"
    define D where "D = limbs_val p div 2 ^ (64 * nb + bs)"
    have nb: "nb < length p" and bs: "bs - 1 < 64" "bs - 1 \<le> 64" "65 * nb + (bs - 1) < 65 * nb + bs" using less.prems(4,5) False by simp_all
    have D: "limbs_val p div 2 ^ (64 * nb + (bs - 1)) = 2 * D + b"
    proof -
      have "64 * nb + bs = Suc (64 * nb + (bs - 1))" using False by simp
      then have "2 ^ (64 * nb + bs) = 2 ^ (64 * nb + (bs - 1)) * (2 :: nat)" by (simp only: power_Suc2)
      then have "D = limbs_val p div 2 ^ (64 * nb + (bs - 1)) div 2" unfolding D_def by (simp only: div_mult2_eq)
      moreover have "b = limbs_val p div 2 ^ (64 * nb + (bs - 1)) mod 2" unfolding b_def less.prems(2) by (rule limb_bit [OF nb bs(1), symmetric])
      ultimately show ?thesis by simp
    qed
    have b2: "b < 2" using D unfolding b_def less.prems(2) limb_bit [OF nb bs(1), symmetric] by simp
    have w: "window ws nbits wbits state fin pend D" using less.prems(3) by (simp only: D_def)
    have nx: "if bs - 1 = 0 then nb \<le> length p else nb < length p" using nb by simp
    note IH = less.hyps [OF bs(3) _ _ _ bs(2) nx, unfolded D]
    have nl: "\<not> length (mp_p (h e)) \<le> nb" using nb less.prems(2) by simp
    consider (idle) "b = 0" "state = 0" | (square) "b = 0" "state = 1" | (full) "\<not> (b = 0 \<and> state = 0)" "\<not> (b = 0 \<and> state = 1)" "nbits + 1 = ws"
      | (more) "\<not> (b = 0 \<and> state = 0)" "\<not> (b = 0 \<and> state = 1)" "nbits + 1 \<noteq> ws" by blast
    then show ?thesis
    proof cases
      case idle
      then have "exp_loop x e n mm ws nb bs nbits wbits state h = exp_loop x e n mm ws nb (bs - 1) nbits wbits state h"
        using False nl by (subst exp_loop.simps) (simp only: Let_def if_False if_True b_def [symmetric] simp_thms)
      moreover have "window ws nbits wbits state fin pend (2 * D + b)" using window_idle w idle by simp
      ultimately show ?thesis using IH [OF less.prems(1,2)] by simp
    next
      case square
      obtain h1 where h1: "mont_mul x x n mm h = Inr (0, h1)" "mont_after x h h1" "exp_state x n mm ws k (fin + fin) h1"
        using exp_mul [OF assms less.prems(1)] less.prems(1) by (auto simp: exp_state_def)
      then have "exp_loop x e n mm ws nb bs nbits wbits state h = exp_loop x e n mm ws nb (bs - 1) nbits wbits state h1"
        using False nl square by (subst exp_loop.simps) (simp only: Let_def b_def [symmetric], simp)
      moreover have "window ws nbits wbits state (fin + fin) pend (2 * D + b)" using window_square [of ws nbits wbits fin pend D] w square by (simp add: mult_2)
      ultimately show ?thesis using IH [OF h1(3) keep [OF h1(2)]] exp_result_after [OF h1(2)] by simp
    next
      case full
      note W = window_full [OF w b2 full]
      obtain h1 where h1: "mpi_seq [mont_squares ws x n mm, mont_mul x (XW (2 * pend + b)) n mm] h = Inr (0, h1)" "mont_after x h h1"
          "exp_state x n mm ws k (fin * 2 ^ ws + (2 * pend + b)) h1"
        using exp_window [OF assms less.prems(1) W(2,3)] by blast
      have "exp_loop x e n mm ws nb bs nbits wbits state h = exp_loop x e n mm ws nb (bs - 1) 0 0 1 h1"
        using False nl full(1,2) by (subst exp_loop.simps) (simp only: Let_def if_False if_True b_def [symmetric] simp_thms full(3) W(1) [unfolded full(3)] h1(1) run_simps prod.case)
      then show ?thesis using IH [OF h1(3) keep [OF h1(2)] W(4)] exp_result_after [OF h1(2)] by simp
    next
      case more
      have "exp_loop x e n mm ws nb bs nbits wbits state h = exp_loop x e n mm ws nb (bs - 1) (nbits + 1) (wbits OR push_bit (ws - (nbits + 1)) b) 2 h"
        using False nl more by (subst exp_loop.simps) (simp only: Let_def if_False if_True b_def [symmetric] simp_thms)
      then show ?thesis using IH [OF less.prems(1,2) window_more [OF w b2 more]] by simp
    qed
  qed
qed

section \<open>The remaining bits\<close>

lemma bit_above: "push_bit ws 1 AND (q * 2 ^ ws + r) = (if odd q then push_bit ws 1 else (0 :: nat))" if "r < 2 ^ ws"
proof -
  have "bit (q * 2 ^ ws + r) ws \<longleftrightarrow> odd q" using that by (simp add: bit_iff_odd)
  then show ?thesis by (auto intro!: bit_eqI simp: bit_simps)
qed

text \<open>The bits \<open>pend\<close> below \<open>2 ^ i\<close> are still to come; \<open>wbits\<close> has them just below its bit \<open>ws\<close>, behind those that are done.\<close>

lemma exp_rest_ok:
  assumes "exp_vars x e n"
  shows "exp_state x n mm ws k fin h \<Longrightarrow> i \<le> ws \<Longrightarrow> pend < 2 ^ i \<Longrightarrow> wbits = q * 2 ^ ws + pend * 2 ^ (ws - i) \<Longrightarrow>
    \<exists>h'. exp_rest ws i wbits x n mm h = Inr (0, h') \<and> mont_after x h h' \<and> exp_state x n mm ws k (fin * 2 ^ i + pend) h'"
proof (induction i arbitrary: h fin pend wbits q)
  case 0
  then show ?case by (intro exI [of _ h]) (simp add: mpi_ret_def)
next
  case (Suc i)
  define b where "b = pend div 2 ^ i"
  define r where "r = pend mod 2 ^ i"
  have pend: "pend = b * 2 ^ i + r" "r < 2 ^ i" "b < 2"
    using Suc.prems(3) div_mult_mod_eq [of pend "2 ^ i"] by (simp_all add: b_def r_def less_mult_imp_div_less)
  have ws: "ws - i = Suc (ws - Suc i)" "2 ^ ws = 2 ^ i * (2 :: nat) ^ (ws - i)" using Suc.prems(2) by (simp_all flip: power_add)
  have wb: "push_bit 1 wbits = (2 * q + b) * 2 ^ ws + r * 2 ^ (ws - i)"
  proof -
    have "push_bit 1 wbits = 2 * q * 2 ^ ws + pend * (2 * 2 ^ (ws - Suc i))" unfolding Suc.prems(4) by (simp add: push_bit_eq_mult algebra_simps)
    also have "2 * 2 ^ (ws - Suc i) = (2 :: nat) ^ (ws - i)" unfolding ws(1) by simp
    also have "2 * q * 2 ^ ws + pend * 2 ^ (ws - i) = (2 * q + b) * 2 ^ ws + r * 2 ^ (ws - i)" unfolding pend(1) ws(2) by (simp add: algebra_simps)
    finally show ?thesis .
  qed
  have "r * 2 ^ (ws - i) < 2 ^ ws" unfolding ws(2) using pend(2) by simp
  from bit_above [OF this, of "2 * q + b"] have test: "push_bit 1 wbits AND push_bit ws 1 \<noteq> 0 \<longleftrightarrow> b = 1"
    unfolding wb using pend(3) by (auto simp: and.commute less_2_cases_iff)
  obtain h1 where h1: "mont_mul x x n mm h = Inr (0, h1)" "mont_after x h h1" "exp_state x n mm ws k (fin + fin) h1"
    using exp_mul [OF assms Suc.prems(1)] Suc.prems(1) by (auto simp: exp_state_def)
  have "\<exists>h2. (if push_bit 1 wbits AND push_bit ws 1 \<noteq> 0 then mont_mul x (XW 1) n mm else mpi_ret 0) h1 = Inr (0, h2) \<and> mont_after x h1 h2 \<and>
      exp_state x n mm ws k (2 * fin + b) h2"
  proof (cases "b = 1")
    case True
    have "mont_num n h1 (XW 1) (k ^ 1)" using h1(3) by (simp add: exp_state_def exp_ready_def)
    then show ?thesis using exp_mul [OF assms h1(3), of "XW 1" 1] True unfolding test by (simp add: mult_2)
  next
    case False
    then have "b = 0" using pend(3) by simp
    then show ?thesis using h1(3) False by (intro exI [of _ h1]) (simp only: test if_False mpi_ret_def mont_after_refl add_0_right mult_2 simp_thms)
  qed
  then obtain h2 where h2: "(if push_bit 1 wbits AND push_bit ws 1 \<noteq> 0 then mont_mul x (XW 1) n mm else mpi_ret 0) h1 = Inr (0, h2)" "mont_after x h1 h2"
      "exp_state x n mm ws k (2 * fin + b) h2" by blast
  obtain h3 where h3: "exp_rest ws i (push_bit 1 wbits) x n mm h2 = Inr (0, h3)" "mont_after x h2 h3" "exp_state x n mm ws k ((2 * fin + b) * 2 ^ i + r) h3"
    using Suc.IH [OF h2(3) _ pend(2) wb] Suc.prems(2) by auto
  have "exp_rest ws (Suc i) wbits x n mm h = Inr (0, h3)" using h1(1) h2(1) h3(1) by (simp only: exp_rest.simps mpi_seq.simps Let_def mpi_chk_simps mpi_chk_ret)
  moreover have "(2 * fin + b) * 2 ^ i + r = fin * 2 ^ Suc i + pend" unfolding pend(1) by (simp add: algebra_simps)
  ultimately show ?case using h3(3) mont_after_trans [OF mont_after_trans [OF h1(2) h2(2)] h3(2)] by (intro exI [of _ h3]) simp
qed

lemma exp_bits_ok:
  assumes "exp_vars x e n" "exp_state x n mm ws k 0 h" "0 < ws"
  shows "\<exists>h'. exp_bits ws x e n mm h = Inr (0, h') \<and> mont_after x h h' \<and> exp_state x n mm ws k (limbs_val (mp_p (h e))) h'"
proof -
  let ?p = "mp_p (h e)"
  have z: "limbs_val ?p div 2 ^ (64 * length ?p + 0) = 0"
  proof -
    have "limb_base ^ length ?p = 2 ^ (64 * length ?p)" by (simp only: limb_base_def power_mult)
    then show ?thesis using limbs_val_lt [of ?p] by simp
  qed
  have "window ws 0 0 0 0 0 (limbs_val ?p div 2 ^ (64 * length ?p + 0))" unfolding z using assms(3) by (rule window_start)
  from exp_loop_ok [OF assms(1,2) refl this] have "exp_result x n mm ws k (limbs_val ?p) h (exp_loop x e n mm ws (length ?p) 0 0 0 0 h)" by simp
  then obtain nbits wbits h1 state fin pend where l: "exp_loop x e n mm ws (length ?p) 0 0 0 0 h = Inr (nbits, wbits, h1)" "mont_after x h h1"
      "exp_state x n mm ws k fin h1" "window ws nbits wbits state fin pend (limbs_val ?p)"
    unfolding exp_result_def by blast
  have w: "nbits \<le> ws" "pend < 2 ^ nbits" "wbits = 0 * 2 ^ ws + pend * 2 ^ (ws - nbits)" "limbs_val ?p = fin * 2 ^ nbits + pend"
    using l(4) by (auto simp: window_def)
  obtain h2 where "exp_rest ws nbits wbits x n mm h1 = Inr (0, h2)" "mont_after x h1 h2" "exp_state x n mm ws k (fin * 2 ^ nbits + pend) h2"
    using exp_rest_ok [OF assms(1) l(3) w(1-3)] by blast
  then show ?thesis using l(1) mont_after_trans [OF l(2)] by (intro exI [of _ h2]) (simp add: exp_bits_def w(4))
qed

section \<open>The table\<close>

lemma on_grow: "libc_total c \<Longrightarrow> j \<le> MPI_MAX_LIMBS \<Longrightarrow> mpi_on x (shmpi_grow c j) h = Inr (0, h(x := (h x)\<lparr>mp_p := mp_p (h x) @ replicate (j - length (mp_p (h x))) 0\<rparr>))"
  by (simp add: mpi_on_def grow_ok)

lemma mpi_seq_append: "mpi_seq xs h = Inr (0, h') \<Longrightarrow> mpi_seq (xs @ ys) h = mpi_seq ys h'"
  by (induction xs arbitrary: h) (auto simp: mpi_ret_def mpi_chk_def run_bind_def split: sum.splits if_splits)

text \<open>A variable that gets the value of another one and has room for a product.\<close>

lemma grow_copy:
  assumes "libc_total c" "length (mp_p (h n)) + 1 \<le> MPI_MAX_LIMBS" "mpi_room (h y)" "mpi_ok (h v)" "mp_p (h v) \<noteq> []" "y \<noteq> v"
  shows "\<exists>Y. mpi_seq [(\<lambda>h. mpi_on y (shmpi_grow c (length (mp_p (h n)) + 1)) h), shmpi_copy c y v] h = Inr (0, h(y := Y)) \<and> mpi_ok Y \<and> limbs_val (mp_p Y) = limbs_val (mp_p (h v)) \<and> length (mp_p (h n)) + 1 \<le> length (mp_p Y)"
proof -
  define j where "j = length (mp_p (h n)) + 1"
  have j: "j \<le> MPI_MAX_LIMBS" using assms(2) by (simp add: j_def)
  define Y0 where "Y0 = (h y)\<lparr>mp_p := mp_p (h y) @ replicate (j - length (mp_p (h y))) 0\<rparr>"
  have Y0: "mpi_room ((h(y := Y0)) y)" "j \<le> length (mp_p Y0)" using j assms(3) by (auto simp: Y0_def mpi_room_def)
  have v: "mpi_ok ((h(y := Y0)) v)" "mp_p ((h(y := Y0)) v) \<noteq> []" using assms(4-6) by simp_all
  obtain Y where "shmpi_copy c y v (h(y := Y0)) = Inr (0, (h(y := Y0))(y := Y))" "mpi_ok Y" "limbs_val (mp_p Y) = limbs_val (mp_p (h v))" "length (mp_p Y0) \<le> length (mp_p Y)"
    using copy_room [where h = "h(y := Y0)" and x = y and y = v, OF assms(1) v(1) Y0(1)] v(2) assms(6) by auto
  moreover have "(\<lambda>h. mpi_on y (shmpi_grow c (length (mp_p (h n)) + 1)) h) h = Inr (0, h(y := Y0))" unfolding j_def [symmetric] Y0_def by (rule on_grow [OF assms(1) j])
  ultimately show ?thesis using Y0(2) by (intro exI [of _ Y]) (simp add: j_def)
qed

definition pow_cell :: "mvar \<Rightarrow> nat \<Rightarrow> mpis \<Rightarrow> nat \<Rightarrow> bool" where
  "pow_cell n k h m \<longleftrightarrow> mont_num n h (XW m) (k ^ m) \<and> mpi_ok (h (XW m))"

lemma pow_cell_cong: "h' n = h n \<Longrightarrow> h' (XW m) = h (XW m) \<Longrightarrow> pow_cell n k h' m = pow_cell n k h m"
  by (simp add: pow_cell_def mont_num_def)

lemma mont_after_ok: "mont_after a h h' \<Longrightarrow> mpi_ok (h' a) = mpi_ok (h a)"
  by (simp add: mont_after_def mpi_ok_def)

lemma mont_copy:
  assumes "mont_ctx n mm h" "mont_num n h v k" "limbs_val (mp_p Y) = limbs_val (mp_p (h v))" "length (mp_p (h n)) + 1 \<le> length (mp_p Y)" "n \<noteq> y" "y \<noteq> XT"
  shows "mont_ctx n mm (h(y := Y))" "mont_num n (h(y := Y)) y k" "mont_dest n (h(y := Y)) y"
  using assms mont_num_lt [OF assms(1,2)] by (auto simp: mont_ctx_def mont_num_def mont_dest_def)

lemma exp_power:
  assumes "libc_total c" "mont_ctx n mm h" "outer_var 5 n" "length (mp_p (h n)) + 1 \<le> MPI_MAX_LIMBS" "pow_cell n k h 1" "pow_cell n k h i" "1 \<le> i" "mpi_room (h (XW (i + 1)))"
  shows "\<exists>h'. mpi_seq [(\<lambda>h. mpi_on (XW (i + 1)) (shmpi_grow c (length (mp_p (h n)) + 1)) h), shmpi_copy c (XW (i + 1)) (XW i), mont_mul (XW (i + 1)) (XW 1) n mm] h = Inr (0, h') \<and>
    frame {XT, XW (i + 1)} h h' \<and> mont_ctx n mm h' \<and> pow_cell n k h' (i + 1)"
proof -
  let ?y = "XW (i + 1)"
  have n: "n \<noteq> XT" "n \<noteq> ?y" using assms(3) outer_XW [OF assms(3)] by auto
  have p: "mont_num n h (XW i) (k ^ i)" "mpi_ok (h (XW i))" "mont_num n h (XW 1) k" using assms(5,6) by (simp_all add: pow_cell_def)
  have ne: "mp_p (h (XW i)) \<noteq> []" and nv: "?y \<noteq> XW i" using p(1) by (simp_all add: mont_num_def)
  obtain Y where Y: "mpi_seq [(\<lambda>h. mpi_on ?y (shmpi_grow c (length (mp_p (h n)) + 1)) h), shmpi_copy c ?y (XW i)] h = Inr (0, h(?y := Y))" "mpi_ok Y"
      "limbs_val (mp_p Y) = limbs_val (mp_p (h (XW i)))" "length (mp_p (h n)) + 1 \<le> length (mp_p Y)"
    using grow_copy [where h = h and y = ?y and v = "XW i" and n = n, OF assms(1,4,8) p(2) ne nv] by blast
  define h1 where "h1 = h(?y := Y)"
  note m = mont_copy [OF assms(2) p(1) Y(3,4) n(2) XW_neq(1), folded h1_def]
  have one: "mont_num n h1 (XW 1) k" using p(3) n assms(7) by (simp add: h1_def mont_num_def)
  obtain h2 where h2: "mont_mul ?y (XW 1) n mm h1 = Inr (0, h2)" "mont_after ?y h1 h2" "mont_num n h2 ?y (k ^ i * k)"
    using mont_mul_num [OF m(1,3,2) one XW_neq(1) n(2,1)] by blast
  have "frame {XT, ?y} h h2" using h2(2) by (auto simp: mont_after_def frame_def h1_def)
  moreover have "mont_ctx n mm h2" using mont_after_ctx [OF h2(2) n(2,1)] m(1) by simp
  moreover have "pow_cell n k h2 (i + 1)" using h2(3) mont_after_ok [OF h2(2)] Y(2) by (simp add: pow_cell_def h1_def mult.commute)
  ultimately show ?thesis using h2(1) mpi_seq_append [OF Y(1), of "[mont_mul ?y (XW 1) n mm]"]
    by (intro exI [of _ h2]) (simp add: h1_def)
qed

lemma exp_powers_ok:
  assumes "libc_total c" "outer_var 5 n"
  shows "mont_ctx n mm h \<Longrightarrow> length (mp_p (h n)) + 1 \<le> MPI_MAX_LIMBS \<Longrightarrow> pow_cell n k h 1 \<Longrightarrow> pow_cell n k h i \<Longrightarrow> 1 \<le> i \<Longrightarrow> \<forall>m. mpi_room (h (XW m)) \<Longrightarrow>
    \<exists>h'. exp_powers c cnt (i + 1) n mm h = Inr (0, h') \<and> frame (insert XT (XW ` {i + 1..<i + 1 + cnt})) h h' \<and> mont_ctx n mm h' \<and> (\<forall>m\<in>{i + 1..<i + 1 + cnt}. pow_cell n k h' m)"
proof (induction cnt arbitrary: h i)
  case 0
  then show ?case by (intro exI [of _ h]) (simp add: mpi_ret_def)
next
  case (Suc cnt)
  have n: "n \<noteq> XT" "n \<noteq> XW m" for m using assms(2) outer_XW [OF assms(2)] by auto
  obtain h1 where h1: "mpi_seq [(\<lambda>h. mpi_on (XW (i + 1)) (shmpi_grow c (length (mp_p (h n)) + 1)) h), shmpi_copy c (XW (i + 1)) (XW i), mont_mul (XW (i + 1)) (XW 1) n mm] h = Inr (0, h1)"
      "frame {XT, XW (i + 1)} h h1" "mont_ctx n mm h1" "pow_cell n k h1 (i + 1)"
    using exp_power [OF assms(1) Suc.prems(1) assms(2) Suc.prems(2-5)] Suc.prems(6) by blast
  have same: "h1 n = h n" "h1 (XW m) = h (XW m)" if "m \<noteq> i + 1" for m using frameD [OF h1(2)] n that by auto
  have room: "\<forall>m. mpi_room (h1 (XW m))" using same Suc.prems(6) h1(4) unfolding pow_cell_def by (metis mpi_ok_room)
  have one: "pow_cell n k h1 1" using Suc.prems(3,5) pow_cell_cong [OF same(1) same(2), of 1 1] by simp
  have len: "length (mp_p (h1 n)) + 1 \<le> MPI_MAX_LIMBS" using Suc.prems(2) same(1) [of 0] by simp
  obtain h2 where h2: "exp_powers c cnt (i + 1 + 1) n mm h1 = Inr (0, h2)" "frame (insert XT (XW ` {i + 1 + 1..<i + 1 + 1 + cnt})) h1 h2" "mont_ctx n mm h2"
      "\<forall>m\<in>{i + 1 + 1..<i + 1 + 1 + cnt}. pow_cell n k h2 m"
    using Suc.IH [OF h1(3) len one h1(4) _ room] by auto
  have "frame (insert XT (XW ` {i + 1..<i + 1 + Suc cnt})) h h2"
    by (rule frame_trans [OF frame_mono [OF h1(2)] frame_mono [OF h2(2)]]) auto
  moreover have "pow_cell n k h2 m" if "m \<in> {i + 1..<i + 1 + Suc cnt}" for m
  proof (cases "m = i + 1")
    case True
    have "XW (i + 1) \<notin> insert XT (XW ` {i + 1 + 1..<i + 1 + 1 + cnt})" "n \<notin> insert XT (XW ` {i + 1 + 1..<i + 1 + 1 + cnt})" using n by auto
    then have "h2 n = h1 n" "h2 (XW (i + 1)) = h1 (XW (i + 1))" by (simp_all only: frameD [OF h2(2)] not_False_eq_True)
    then show ?thesis using h1(4) pow_cell_cong [of h2 n h1 "i + 1" k] True by simp
  qed (use h2(4) that in auto)
  moreover have "exp_powers c (Suc cnt) (i + 1) n mm h = Inr (0, h2)"
    using mpi_seq_append [OF h1(1), of "[exp_powers c cnt (i + 1 + 1) n mm]"] h2(1) by simp
  ultimately show ?case using h2(3) by blast
qed

lemma exp_table_ok:
  assumes "libc_total c" "outer_var 5 n" "mont_ctx n mm h" "length (mp_p (h n)) + 1 \<le> MPI_MAX_LIMBS" "pow_cell n k h 1" "\<forall>m. mpi_room (h (XW m))" "0 < ws"
  shows "\<exists>h'. exp_table c ws n mm h = Inr (0, h') \<and> frame (insert XT (range XW)) h h' \<and> mont_ctx n mm h' \<and> exp_ready ws k n h'"
proof (cases "1 < ws")
  case False
  then have "ws = 1" using assms(7) by simp
  then have "exp_ready ws k n h" using assms(5) by (auto simp: exp_ready_def pow_cell_def numeral_2_eq_2 less_Suc_eq)
  then show ?thesis using False assms(3) by (intro exI [of _ h]) (simp add: exp_table_def mpi_ret_def)
next
  case True
  define j where "j = (2 :: nat) ^ (ws - 1)"
  have "1 < j" unfolding j_def by (rule one_less_power) (use True in simp_all)
  moreover have "2 ^ ws = 2 * j" using True by (simp add: j_def flip: power_Suc)
  ultimately have j: "1 < j" "2 ^ ws = 2 * j" by blast+
  have n: "n \<noteq> XT" "n \<noteq> XW m" for m using assms(2) outer_XW [OF assms(2)] by auto
  have p: "mont_num n h (XW 1) k" "mpi_ok (h (XW 1))" "mp_p (h (XW 1)) \<noteq> []" "XW j \<noteq> XW 1" using assms(5) j(1) by (simp_all add: pow_cell_def mont_num_def)
  obtain Y where Y: "mpi_seq [(\<lambda>h. mpi_on (XW j) (shmpi_grow c (length (mp_p (h n)) + 1)) h), shmpi_copy c (XW j) (XW 1)] h = Inr (0, h(XW j := Y))" "mpi_ok Y"
      "limbs_val (mp_p Y) = limbs_val (mp_p (h (XW 1)))" "length (mp_p (h n)) + 1 \<le> length (mp_p Y)"
    using grow_copy [where h = h and y = "XW j" and v = "XW 1" and n = n, OF assms(1,4) _ p(2,3,4)] assms(6) by blast
  define h1 where "h1 = h(XW j := Y)"
  note m = mont_copy [OF assms(3) p(1) Y(3,4) n(2) [of j] XW_neq(1), folded h1_def]
  obtain h2 where h2: "mont_squares (ws - 1) (XW j) n mm h1 = Inr (0, h2)" "mont_after (XW j) h1 h2" "mont_num n h2 (XW j) (k ^ j)"
    using mont_squares_ok [OF m(1,3,2) XW_neq(1) n(2,1), of "ws - 1", folded j_def] by blast
  have c2: "mont_ctx n mm h2" using mont_after_ctx [OF h2(2) n(2,1)] m(1) by simp
  have same: "h2 n = h n" "i \<noteq> j \<Longrightarrow> h2 (XW i) = h (XW i)" for i using mont_after_other [OF h2(2)] n by (simp_all add: h1_def)
  have pj: "pow_cell n k h2 j" using h2(3) mont_after_ok [OF h2(2)] Y(2) by (simp add: pow_cell_def h1_def)
  have p1: "pow_cell n k h2 1" using assms(5) pow_cell_cong [of h2 n h 1 k] same j(1) by simp
  have room: "\<forall>m. mpi_room (h2 (XW m))" using same(2) assms(6) pj unfolding pow_cell_def by (metis mpi_ok_room)
  have len: "length (mp_p (h2 n)) + 1 \<le> MPI_MAX_LIMBS" using assms(4) same(1) by simp
  define S where "S = insert XT (XW ` {j + 1..<j + 1 + (2 ^ ws - (j + 1))})"
  obtain h3 where h3: "exp_powers c (2 ^ ws - (j + 1)) (j + 1) n mm h2 = Inr (0, h3)" "frame S h2 h3" "mont_ctx n mm h3"
      "\<forall>m\<in>{j + 1..<j + 1 + (2 ^ ws - (j + 1))}. pow_cell n k h3 m"
    using exp_powers_ok [OF assms(1,2) c2 len p1 pj _ room] j(1) unfolding S_def by fastforce
  have low: "pow_cell n k h3 i" if "i \<le> j" "pow_cell n k h2 i" for i
  proof -
    have "XW i \<notin> S" "n \<notin> S" using that(1) n by (auto simp: S_def)
    then have "h3 (XW i) = h2 (XW i)" "h3 n = h2 n" by (simp_all only: frameD [OF h3(2)] not_False_eq_True)
    then show ?thesis using that(2) pow_cell_cong [of h3 n h2 i k] by simp
  qed
  have "pow_cell n k h3 i" if "j \<le> i" "i < 2 ^ ws" for i
    using low [OF _ pj] h3(4) that j by (cases "i = j") auto
  then have "exp_ready ws k n h3" using low [OF _ p1] j(1) by (auto simp: exp_ready_def pow_cell_def j_def)
  moreover have "exp_table c ws n mm h = Inr (0, h3)"
    using mpi_seq_append [OF Y(1), of "[mont_squares (ws - 1) (XW j) n mm, exp_powers c (2 ^ ws - (j + 1)) (j + 1) n mm]"] h2(1) h3(1) True
    unfolding exp_table_def Let_def j_def [symmetric] by (simp add: h1_def)
  moreover have "frame (insert XT (range XW)) h h3"
  proof (rule frame_trans)
    show "frame (insert XT (range XW)) h h2" using mont_after_other [OF h2(2)] by (auto simp: frame_def h1_def)
    show "frame (insert XT (range XW)) h2 h3" by (rule frame_mono [OF h3(2)]) (auto simp: S_def)
  qed
  ultimately show ?thesis using h3(3) by blast
qed

section \<open>The first steps\<close>

lemma exp_square_ok:
  assumes "libc_total c" "blank_locals 3 h" "mpi_ok (h n)" "0 < mpi_val (h n)" "2 * length (mp_p (h n)) + 5 < MPI_MAX_LIMBS" "outer_var 5 n" "h XRR = shmpi_init"
  shows "\<exists>Y. exp_square c n h = Inr (0, h(XRR := Y)) \<and> mpi_ok Y \<and> mp_p Y \<noteq> [] \<and> 0 \<le> mpi_val Y \<and>
    limbs_val (mp_p Y) = (limb_base ^ length (mp_p (h n)) * limb_base ^ length (mp_p (h n))) mod limbs_val (mp_p (h n))"
proof -
  let ?n = "length (mp_p (h n))"
  obtain Y1 where Y1: "shmpi_lset c XRR 1 h = Inr (0, h(XRR := Y1))" "mpi_ok Y1" "length (mp_p Y1) = 1" "limbs_val (mp_p Y1) = 1" "mp_s Y1 = 1"
    using lset_room [where h = h and x = XRR and z = 1, OF assms(1)] assms(7) by (auto simp: mpi_room_def shmpi_init_def sint_sign_def)
  define h1 where "h1 = h(XRR := Y1)"
  have h1: "h1 XRR = Y1" "h1 n = h n" using assms(6) by (auto simp: h1_def)
  have msb: "shmpi_msb Y1 \<le> 1" using msb_val [of Y1 1] Y1(4) by simp
  have room: "shmpi_msb (h1 XRR) + ?n * 2 * 64 \<le> 64 * MPI_MAX_LIMBS" using msb assms(5) by (simp add: h1(1))
  have ok1: "mpi_ok (h1 XRR)" using Y1(2) h1(1) by simp
  obtain Y2 where Y2: "shmpi_shift_l c XRR (?n * 2 * 64) h1 = Inr (0, h1(XRR := Y2))" "mpi_ok Y2" "mp_s Y2 = 1" "limbs_val (mp_p Y2) = 2 ^ (?n * 2 * 64)"
      "length (mp_p Y2) \<le> 2 * ?n + 1" "mp_p Y2 \<noteq> []"
  proof (rule shift_l_ok [where h = h1 and x = XRR and count = "?n * 2 * 64", OF assms(1) ok1 room])
    fix Y2 assume Y2: "shmpi_shift_l c XRR (?n * 2 * 64) h1 = Inr (0, h1(XRR := Y2))" "mpi_ok Y2" "mp_s Y2 = mp_s (h1 XRR)"
      "limbs_val (mp_p Y2) = limbs_val (mp_p (h1 XRR)) * 2 ^ (?n * 2 * 64)"
      "length (mp_p Y2) = max (length (mp_p (h1 XRR))) (if length (mp_p (h1 XRR)) * 64 < shmpi_msb (h1 XRR) + ?n * 2 * 64 then (shmpi_msb (h1 XRR) + ?n * 2 * 64 + 63) div 64 else 0)"
    have "(shmpi_msb Y1 + ?n * 2 * 64 + 63) div 64 \<le> (1 + ?n * 2 * 64 + 63) div 64" using msb by (intro div_le_mono) simp
    then have "length (mp_p Y2) \<le> 2 * ?n + 1" unfolding Y2(5) h1(1) Y1(3) by (auto split: if_splits)
    moreover have "mp_p Y2 \<noteq> []" using Y2(4) Y1(4) by (auto simp: h1(1))
    ultimately show thesis using that Y2(1-4) Y1(4,5) by (simp add: h1(1))
  qed
  define h2 where "h2 = h1(XRR := Y2)"
  have h2: "h2 XRR = Y2" "h2 n = h n" "h2 = h(XRR := Y2)" using assms(6) by (auto simp: h2_def h1_def)
  have pre: "blank_locals 3 h2" "outer_var 3 XRR \<and> length (mp_p (h2 XRR)) < MPI_MAX_LIMBS" "mpi_arg 3 h2 XRR" "mpi_arg 3 h2 n" "length (mp_p (h2 XRR)) + 3 < MPI_MAX_LIMBS"
      "XRR \<noteq> n" "0 < mpi_val (h2 n)"
    using assms(2-6) Y2(2,5) outer_var_mono [of 5 n 3] by (auto simp: h2 mpi_arg_def)
  obtain R where R: "shmpi_mod_mpi c XRR XRR n h2 = Inr (0, h2(XRR := R))" "mpi_ok R" "mpi_val R = mpi_val Y2 mod mpi_val (h n)" "length (mp_p Y2) \<le> length (mp_p R)"
    using mod_mpi_ok [OF assms(1) pre(1,2,3,4,5,6,7)] Y2(6) h2(1,2) by metis
  have R0: "0 \<le> mpi_val R" using R(3) assms(4) by simp
  then have "int (limbs_val (mp_p R)) = mpi_val R" using limbs_nonneg [OF R(2)] by simp
  also have "\<dots> = int (limbs_val (mp_p Y2)) mod int (limbs_val (mp_p (h n)))"
  proof -
    have "mpi_val (h n) = int (limbs_val (mp_p (h n)))" "mpi_val Y2 = int (limbs_val (mp_p Y2))" using limbs_nonneg [OF assms(3)] assms(4) Y2(3) by (simp_all add: mpi_val_def)
    then show ?thesis using R(3) by (simp only:)
  qed
  finally have "limbs_val (mp_p R) = limbs_val (mp_p Y2) mod limbs_val (mp_p (h n))" by (simp only: zmod_int [symmetric] of_nat_eq_iff)
  moreover have "2 ^ (?n * 2 * 64) = limb_base ^ ?n * limb_base ^ ?n"
  proof -
    have "?n * 2 * 64 = 64 * (?n + ?n)" by simp
    then show ?thesis by (simp only: limb_base_def power_mult power_add)
  qed
  moreover have "mp_p R \<noteq> []" using R(4) Y2(6) by auto
  moreover have "exp_square c n h = Inr (0, h(XRR := R))" using Y1(1) Y2(1) R(1) pre(6) [symmetric] by (simp add: exp_square_def h1_def h2)
  ultimately show ?thesis using R(2) R0 Y2(4) by auto
qed

text \<open>The variable for \<open>R\<close> squared, if the caller has one: empty, or with the value.\<close>

definition rr_var :: "mvar option \<Rightarrow> mvar \<Rightarrow> mvar \<Rightarrow> mvar \<Rightarrow> mvar \<Rightarrow> mpis \<Rightarrow> bool" where
  "rr_var rr x a e n h \<longleftrightarrow> (\<forall>v. rr = Some v \<longrightarrow> outer_var 5 v \<and> v \<notin> {x, a, e, n} \<and>
     (mp_p (h v) = [] \<or> mpi_ok (h v) \<and> 0 \<le> mpi_val (h v) \<and> mont_num n h v (limb_base ^ length (mp_p (h n)))))"

lemma exp_rr_ok:
  assumes "libc_total c" "blank_locals 3 h" "mpi_ok (h n)" "0 < mpi_val (h n)" "2 * length (mp_p (h n)) + 5 < MPI_MAX_LIMBS" "outer_var 5 n" "h XRR = shmpi_init"
    and "rr_var rr x a e n h"
  shows "\<exists>h'. exp_rr c n rr h = Inr (0, h') \<and> frame (insert XRR (set_option rr)) h h' \<and> mpi_ok (h' XRR) \<and> 0 \<le> mpi_val (h' XRR) \<and> mont_num n h' XRR (limb_base ^ length (mp_p (h n))) \<and>
    (\<forall>v. rr = Some v \<longrightarrow> h' v = h' XRR)"
proof -
  obtain Y where Y: "exp_square c n h = Inr (0, h(XRR := Y))" "mpi_ok Y" "mp_p Y \<noteq> []" "0 \<le> mpi_val Y"
      "limbs_val (mp_p Y) = (limb_base ^ length (mp_p (h n)) * limb_base ^ length (mp_p (h n))) mod limbs_val (mp_p (h n))"
    using exp_square_ok [OF assms(1-7)] by blast
  have n: "n \<noteq> XRR" using assms(6) by auto
  show ?thesis
  proof (cases rr)
    case None
    then show ?thesis using Y n by (intro exI [of _ "h(XRR := Y)"]) (simp add: exp_rr_def mont_num_def)
  next
    case (Some v)
    have v: "v \<noteq> XRR" "v \<noteq> n" "mp_p (h v) = [] \<or> mpi_ok (h v) \<and> 0 \<le> mpi_val (h v) \<and> mont_num n h v (limb_base ^ length (mp_p (h n)))" using assms(8) Some by (auto simp: rr_var_def)
    show ?thesis
    proof (cases "mp_p (h v) = []")
      case True
      then show ?thesis using Y n v Some by (intro exI [of _ "h(XRR := Y, v := Y)"]) (simp add: exp_rr_def mont_num_def mpi_do_def)
    next
      case False
      then show ?thesis using v n Some by (intro exI [of _ "h(XRR := h v)"]) (simp add: exp_rr_def mont_num_def mpi_do_def)
    qed
  qed
qed

text \<open>The base, reduced, in the representation.\<close>

lemma exp_base_ok:
  assumes "libc_total c" "blank_locals 3 h" "mont_ctx n mm h" "mpi_arg 3 h n" "0 < mpi_val (h n)" "outer_var 5 n"
    and "mpi_arg 3 h a" "mp_s (h a) = 1" "mp_p (h a) \<noteq> []" "length (mp_p (h a)) + 3 < MPI_MAX_LIMBS" "a \<noteq> XW 1" "a \<noteq> XT"
    and "length (mp_p (h n)) + 1 \<le> length (mp_p (h (XW 1)))" "length (mp_p (h (XW 1))) < MPI_MAX_LIMBS" "mont_num n h XRR (limb_base ^ length (mp_p (h n)))"
  shows "\<exists>h'. exp_base c a n mm h = Inr (0, h') \<and> frame {XW 1, XT} h h' \<and> mont_ctx n mm h' \<and> pow_cell n (limbs_val (mp_p (h a))) h' 1"
proof -
  let ?N = "limbs_val (mp_p (h n))" and ?A = "limbs_val (mp_p (h a))" and ?n = "length (mp_p (h n))"
  have n: "n \<noteq> XT" "n \<noteq> XW 1" using assms(6) outer_XW by auto
  have ok: "mpi_ok (h n)" "mpi_ok (h a)" "mpi_room (h (XW 1))" using assms(4,7,14) by (simp_all add: mpi_arg_def mpi_room_def)
  have vN: "mpi_val (h n) = int ?N" and vA: "mpi_val (h a) = int ?A" using limbs_nonneg [OF ok(1)] assms(5,8) by (simp_all add: mpi_val_def)
  have "\<exists>Y. (if 0 \<le> shmpi_cmp_mpi (h a) (h n) then shmpi_mod_mpi c (XW 1) a n h else shmpi_copy c (XW 1) a h) = Inr (0, h(XW 1 := Y)) \<and> mpi_ok Y \<and>
      limbs_val (mp_p Y) = ?A mod ?N \<and> ?n + 1 \<le> length (mp_p Y)"
  proof (cases "?N \<le> ?A")
    case True
    have out: "outer_var 3 (XW 1) \<and> length (mp_p (h (XW 1))) < MPI_MAX_LIMBS" using assms(14) by (simp add: XW_def)
    obtain Y where Y: "shmpi_mod_mpi c (XW 1) a n h = Inr (0, h(XW 1 := Y))" "mpi_ok Y" "mpi_val Y = mpi_val (h a) mod mpi_val (h n)" "length (mp_p (h (XW 1))) \<le> length (mp_p Y)"
      using mod_mpi_ok [OF assms(1,2) out assms(7,4,10) n(2) [symmetric] assms(5)] assms(9) by blast
    have "0 \<le> mpi_val Y" using Y(3) assms(5) by simp
    then have "int (limbs_val (mp_p Y)) = int ?A mod int ?N" using limbs_nonneg [OF Y(2)] Y(3) by (simp only: vN vA)
    then have "limbs_val (mp_p Y) = ?A mod ?N" by (simp only: zmod_int [symmetric] of_nat_eq_iff)
    then show ?thesis using Y assms(13) cmp_mpi_ge [OF ok(2,1)] True by (intro exI [of _ Y]) (simp add: vN vA)
  next
    case False
    obtain Y where Y: "shmpi_copy c (XW 1) a h = Inr (0, h(XW 1 := Y))" "mpi_ok Y" "limbs_val (mp_p Y) = ?A" "length (mp_p (h (XW 1))) \<le> length (mp_p Y)"
      using copy_room [where h = h and x = "XW 1" and y = a, OF assms(1) ok(2,3)] assms(9) by blast
    then show ?thesis using assms(13) cmp_mpi_ge [OF ok(2,1)] False by (intro exI [of _ Y]) (simp add: vN vA)
  qed
  then obtain Y where Y: "(if 0 \<le> shmpi_cmp_mpi (h a) (h n) then shmpi_mod_mpi c (XW 1) a n h else shmpi_copy c (XW 1) a h) = Inr (0, h(XW 1 := Y))" "mpi_ok Y"
      "limbs_val (mp_p Y) = ?A mod ?N" "?n + 1 \<le> length (mp_p Y)" by blast
  define h1 where "h1 = h(XW 1 := Y)"
  have h1: "h1 n = h n" "mont_ctx n mm h1" "mont_dest n h1 (XW 1)" "mont_num n h1 XRR (limb_base ^ ?n)"
    using assms(3,15) n Y(3,4) by (auto simp: h1_def mont_ctx_def mont_dest_def mont_num_def odd_pos)
  obtain h2 where h2: "mont_mul (XW 1) XRR n mm h1 = Inr (0, h2)" "mont_after (XW 1) h1 h2" "limbs_val (mp_p (h2 (XW 1))) = (?A mod ?N * limb_base ^ ?n) mod ?N"
    using mont_mul_gen [OF h1(2-4) XW_neq(1)] Y(3) h1(1) by (auto simp: h1_def)
  have "h2 n = h n" using mont_after_other [OF h2(2) n(2,1)] h1(1) by simp
  moreover have "mp_p (h2 (XW 1)) \<noteq> []" using h2(2) Y(4) by (auto simp: mont_after_def h1_def)
  ultimately have "pow_cell n ?A h2 1" using h2(3) mont_after_ok [OF h2(2)] Y(2) by (simp add: pow_cell_def mont_num_def h1_def mod_mult_left_eq)
  moreover have "exp_base c a n mm h = Inr (0, h2)" using Y(1) h2(1) by (simp add: exp_base_def mpi_chk_def h1_def)
  moreover have "frame {XW 1, XT} h h2" using h2(2) by (auto simp: mont_after_def frame_def h1_def)
  moreover have "mont_ctx n mm h2" using mont_after_ctx [OF h2(2) n(2,1)] h1(2) by simp
  ultimately show ?thesis by blast
qed

lemma exp_one_ok:
  assumes "libc_total c" "mont_ctx n mm h" "outer_var 5 x" "outer_var 5 n" "x \<noteq> n" "length (mp_p (h n)) + 1 \<le> length (mp_p (h x))" "mpi_room (h x)"
    and "mont_num n h XRR (limb_base ^ length (mp_p (h n)))" "mpi_ok (h XRR)"
  shows "\<exists>h'. exp_one c x n mm h = Inr (0, h') \<and> frame {x, XT} h h' \<and> mont_ctx n mm h' \<and> mont_dest n h' x \<and> mont_num n h' x 1 \<and> mpi_ok (h' x) \<and> mp_s (h' x) = mp_s (h XRR) \<and>
    length (mp_p (h' x)) \<le> max (length (mp_p (h x))) (max 1 (used_limbs (mp_p (h XRR))))"
proof -
  let ?N = "limbs_val (mp_p (h n))" and ?n = "length (mp_p (h n))"
  have v: "n \<noteq> XT" "n \<noteq> x" "x \<noteq> XT" using assms(3-5) by auto
  have ne: "mp_p (h XRR) \<noteq> []" using assms(8) by (simp add: mont_num_def)
  obtain X where X: "shmpi_copy c x XRR h = Inr (0, h(x := X))" "mpi_ok X" "limbs_val (mp_p X) = limbs_val (mp_p (h XRR))" "length (mp_p (h x)) \<le> length (mp_p X)" "mp_s X = mp_s (h XRR)"
      "length (mp_p X) \<le> max (length (mp_p (h x))) (max 1 (used_limbs (mp_p (h XRR))))"
    using copy_room [where h = h and x = x and y = XRR, OF assms(1,9,7)] ne by blast
  have len: "?n + 1 \<le> length (mp_p X)" using X(4) assms(6) by simp
  define h1 where "h1 = h(x := X)"
  note m = mont_copy [OF assms(2,8) X(3) len v(2,3), folded h1_def]
  have h1n: "h1 n = h n" using v(2) by (simp add: h1_def)
  obtain h2 where h2: "mont_red x n mm h1 = Inr (0, h2)" "mont_after x h1 h2" "limbs_val (mp_p (h2 x)) = limb_base ^ ?n mod ?N"
    using mont_red_ok [OF m(1,3,2) v(3,2,1)] h1n by auto
  have h2n: "h2 n = h n" using mont_after_other [OF h2(2) v(2,1)] h1n by simp
  have "limbs_val (mp_p (h2 x)) < limbs_val (mp_p (h1 n))" using h2(3) assms(2) h1n by (simp add: mont_ctx_def odd_pos)
  then have "mont_dest n h2 x" by (rule mont_dest_after [OF h2(2) m(3) v(2,1)])
  moreover have "mont_num n h2 x 1" using h2 h2n len by (auto simp: mont_num_def mont_after_def h1_def)
  moreover have "mpi_ok (h2 x)" "mp_s (h2 x) = mp_s (h XRR)" "length (mp_p (h2 x)) = length (mp_p X)" using mont_after_ok [OF h2(2)] X(2,5) h2(2) by (simp_all add: h1_def mont_after_def)
  moreover have "frame {x, XT} h h2" using h2(2) by (auto simp: mont_after_def frame_def h1_def)
  moreover have "mont_ctx n mm h2" using mont_after_ctx [OF h2(2) v(2,1)] m(1) by simp
  moreover have "exp_one c x n mm h = Inr (0, h2)" using X(1) h2(1) by (simp add: exp_one_def h1_def)
  ultimately show ?thesis using X(6) by (intro exI [of _ h2]) simp
qed

section \<open>The function\<close>

definition exp_pre :: "mvar \<Rightarrow> mvar \<Rightarrow> mvar \<Rightarrow> mvar \<Rightarrow> mvar option \<Rightarrow> u64 \<Rightarrow> mpis \<Rightarrow> bool" where
  "exp_pre x a e n rr mm h \<longleftrightarrow> blank_locals 4 h \<and> exp_vars x e n \<and> mont_ctx n mm h \<and> mpi_ok (h n) \<and> 0 < mpi_val (h n) \<and> 2 * length (mp_p (h n)) + 5 < MPI_MAX_LIMBS \<and>
     mpi_arg 3 h a \<and> mp_s (h a) = 1 \<and> mp_p (h a) \<noteq> [] \<and> length (mp_p (h a)) + 3 < MPI_MAX_LIMBS \<and> a \<notin> {XT, XRR} \<and> a \<notin> range XW \<and> h XRR = shmpi_init \<and>
     length (mp_p (h n)) + 1 \<le> length (mp_p (h x)) \<and> mpi_room (h x) \<and> length (mp_p (h (XW 1))) = length (mp_p (h n)) + 1 \<and> (\<forall>m. mpi_room (h (XW m))) \<and> rr_var rr x a e n h"

definition loc4 :: "mvar set" where
  "loc4 = range (Loc 4)"

lemma loc4_simps [simp]: "Loc 4 i \<in> loc4" "XW i \<in> loc4" "range XW \<subseteq> loc4" "outer_var 5 v \<Longrightarrow> v \<notin> loc4"
  by (auto simp: loc4_def XW_def)

text \<open>The square of \<open>R\<close> is zero modulo \<open>N\<close> only when \<open>N\<close> is one, so that the sign of the result is right.\<close>

lemma mont_sign:
  assumes "mpi_ok X" "mpi_ok RR" "0 \<le> mpi_val RR" "mp_s X = mp_s RR" "limbs_val (mp_p RR) = (limb_base ^ m * limb_base ^ m) mod N" "odd N" "limbs_val (mp_p X) < N"
  shows "mpi_val X = int (limbs_val (mp_p X))"
proof (cases "limbs_val (mp_p RR) = 0")
  case True
  then have "N dvd limb_base ^ (m + m)" using assms(5) by (simp add: power_add mod_eq_0_iff_dvd)
  moreover have "coprime (limb_base ^ (m + m)) N" using assms(6) by (rule coprime_base)
  ultimately have "N = 1" by (metis coprime_common_divisor dvd_refl nat_dvd_1_iff_1)
  then show ?thesis using assms(7) by (simp add: mpi_val_def)
next
  case False
  then have "mp_s RR = 1" using assms(2,3) by (auto simp: mpi_ok_def mpi_val_def zero_le_mult_iff)
  then show ?thesis using assms(4) by (simp add: mpi_val_def)
qed

lemma exp_setup_ok:
  assumes "libc_total c" "exp_pre x a e n rr mm h" "0 < ws"
  shows "\<exists>h'. mpi_seq [exp_rr c n rr, exp_base c a n mm, exp_one c x n mm, exp_table c ws n mm] h = Inr (0, h') \<and>
    frame (insert x (set_option rr \<union> loc4)) h h' \<and> exp_state x n mm ws (limbs_val (mp_p (h a))) 0 h' \<and> mpi_ok (h' x) \<and>
    length (mp_p (h' x)) \<le> max (length (mp_p (h x))) (length (mp_p (h n)) + 1) \<and>
    (\<exists>RR. mpi_ok RR \<and> 0 \<le> mpi_val RR \<and> mp_s (h' x) = mp_s RR \<and> mp_p RR \<noteq> [] \<and>
      limbs_val (mp_p RR) = (limb_base ^ length (mp_p (h n)) * limb_base ^ length (mp_p (h n))) mod limbs_val (mp_p (h n)) \<and> (\<forall>v. rr = Some v \<longrightarrow> h' v = RR))"
proof -
  have p: "blank_locals 3 h" "exp_vars x e n" "mont_ctx n mm h" "mpi_ok (h n)" "0 < mpi_val (h n)" "2 * length (mp_p (h n)) + 5 < MPI_MAX_LIMBS"
      "mpi_arg 3 h a" "mp_s (h a) = 1" "mp_p (h a) \<noteq> []" "length (mp_p (h a)) + 3 < MPI_MAX_LIMBS" "a \<noteq> XT" "a \<noteq> XRR" "a \<noteq> XW 1" "h XRR = shmpi_init"
      "length (mp_p (h n)) + 1 \<le> length (mp_p (h x))" "mpi_room (h x)" "length (mp_p (h (XW 1))) = length (mp_p (h n)) + 1" "\<forall>m. mpi_room (h (XW m))" "rr_var rr x a e n h"
    using assms(2) blank_locals_mono [of 4 h 3] by (auto simp: exp_pre_def)
  note v = exp_varsD [OF p(2)]
  have rrv: "v \<noteq> n \<and> v \<noteq> a \<and> v \<noteq> x \<and> outer_var 5 v \<and> v \<notin> loc4" if "rr = Some v" for v using p(19) that by (auto simp: rr_var_def)
  obtain h1 where h1: "exp_rr c n rr h = Inr (0, h1)" "frame (insert XRR (set_option rr)) h h1" "mpi_ok (h1 XRR)" "0 \<le> mpi_val (h1 XRR)"
      "mont_num n h1 XRR (limb_base ^ length (mp_p (h n)))" "\<forall>v. rr = Some v \<longrightarrow> h1 v = h1 XRR"
    using exp_rr_ok [OF assms(1) p(1,4,5,6) v(7) p(14,19)] by blast
  have e1: "h1 u = h u" if "u \<noteq> XRR" "\<And>v. rr = Some v \<Longrightarrow> u \<noteq> v" for u using frameD [OF h1(2), of u] that by auto
  have xr: "x \<noteq> XRR" "n \<noteq> XRR" "XT \<noteq> XRR" using v(6,7) by auto
  have n1: "h1 n = h n" "h1 a = h a" "h1 x = h x" "h1 XT = h XT" "h1 (XW i) = h (XW i)" for i
    by (rule e1, use rrv xr p(12) loc4_simps(1,2) XW_neq(3) in \<open>blast+\<close>)+
  have b1: "blank_locals 3 h1" by (rule frame_blank [OF h1(2) _ p(1)]) (use rrv outer_var_mono [of 5 _ 3] in auto)
  have c1: "mont_ctx n mm h1" using p(3) n1 by (simp add: mont_ctx_def)
  have a1: "mpi_arg 3 h1 n" "mpi_arg 3 h1 a" using p(4,6,7) v(7) outer_var_mono [of 5 n 3] n1 by (simp_all add: mpi_arg_def)
  obtain h2 where h2: "exp_base c a n mm h1 = Inr (0, h2)" "frame {XW 1, XT} h1 h2" "mont_ctx n mm h2" "pow_cell n (limbs_val (mp_p (h a))) h2 1"
    using exp_base_ok [OF assms(1) b1 c1 a1(1) _ v(7) a1(2) _ _ _ p(13,11)] p(5,6,8,9,10,17) h1(5) unfolding n1 by auto
  have e2: "h2 u = h1 u" if "u \<noteq> XW 1" "u \<noteq> XT" for u using frameD [OF h2(2), of u] that by auto
  have n2: "h2 n = h n" "h2 x = h x" "h2 XRR = h1 XRR" "i \<noteq> 1 \<Longrightarrow> h2 (XW i) = h (XW i)" for i
    using e2 [of n] e2 [of x] e2 [of XRR] e2 [of "XW i"] n1 v outer_XW [OF v(6)] outer_XW [OF v(7)] by auto
  have rr2: "mont_num n h2 XRR (limb_base ^ length (mp_p (h n)))" using h1(5) by (simp add: mont_num_def n1 n2)
  obtain h3 where h3: "exp_one c x n mm h2 = Inr (0, h3)" "frame {x, XT} h2 h3" "mont_ctx n mm h3" "mont_dest n h3 x" "mont_num n h3 x 1" "mpi_ok (h3 x)" "mp_s (h3 x) = mp_s (h1 XRR)"
      "length (mp_p (h3 x)) \<le> max (length (mp_p (h x))) (max 1 (used_limbs (mp_p (h1 XRR))))"
    using exp_one_ok [OF assms(1) h2(3) v(6,7) v(2) [symmetric]] p(15,16) rr2 h1(3) unfolding n2 by auto
  have e3: "h3 u = h2 u" if "u \<noteq> x" "u \<noteq> XT" for u using frameD [OF h3(2), of u] that by auto
  have n3: "h3 n = h n" "h3 (XW i) = h2 (XW i)" for i using e3 [of n] e3 [of "XW i"] n2 v outer_XW [OF v(6), of i] by auto
  have w3: "pow_cell n (limbs_val (mp_p (h a))) h3 1" using h2(4) pow_cell_cong [of h3 n h2 1] n3 n2(1) by simp
  have r3: "\<forall>m. mpi_room (h3 (XW m))" using p(18) n2(4) n3(2) w3 unfolding pow_cell_def by (metis mpi_ok_room)
  obtain h4 where h4: "exp_table c ws n mm h3 = Inr (0, h4)" "frame (insert XT (range XW)) h3 h4" "mont_ctx n mm h4" "exp_ready ws (limbs_val (mp_p (h a))) n h4"
    using exp_table_ok [OF assms(1) v(7) h3(3) _ w3 r3 assms(3)] p(6) n3(1) by auto
  have n4: "h4 u = h3 u" if "outer_var 5 u" for u
  proof -
    have "u \<notin> insert XT (range XW)" using outer_XW [OF that] that by auto
    then show ?thesis by (rule frameD [OF h4(2)])
  qed
  have used: "max 1 (used_limbs (mp_p (h1 XRR))) \<le> length (mp_p (h n)) + 1"
  proof -
    have "limbs_val (mp_p (h1 XRR)) < limbs_val (mp_p (h1 n))" using mont_num_lt [OF c1] h1(5) by simp
    also have "\<dots> \<le> limb_base ^ (length (mp_p (h n)) + 1)" unfolding n1(1) by (rule order_trans [OF _ mont_room]) simp
    finally have "used_limbs (mp_p (h1 XRR)) \<le> length (mp_p (h n)) + 1" by (simp only: used_limbs_le_iff)
    then show ?thesis by simp
  qed
  have "exp_state x n mm ws (limbs_val (mp_p (h a))) 0 h4"
    using h3(4,5) h4(3,4) by (simp add: exp_state_def mont_dest_def mont_num_def n4 v(6,7))
  moreover have "frame (insert x (set_option rr \<union> loc4)) h h4"
    by (rule frame_trans [OF frame_mono [OF h1(2)] frame_trans [OF frame_mono [OF h2(2)] frame_trans [OF frame_mono [OF h3(2)] frame_mono [OF h4(2)]]]]) auto
  moreover have "limbs_val (mp_p (h1 XRR)) = (limb_base ^ length (mp_p (h n)) * limb_base ^ length (mp_p (h n))) mod limbs_val (mp_p (h n))" "mp_p (h1 XRR) \<noteq> []"
    using h1(5) n1(1) by (simp_all add: mont_num_def)
  moreover have "h4 w = h1 XRR" if "rr = Some w" for w
  proof -
    have "w \<noteq> XT" "w \<noteq> XW 1" "w \<noteq> x" "outer_var 5 w" using rrv [OF that] outer_XW [of w] by auto
    then show ?thesis using h1(6) that n4 [of w] e3 [of w] e2 [of w] by simp
  qed
  moreover have "mpi_seq [exp_rr c n rr, exp_base c a n mm, exp_one c x n mm, exp_table c ws n mm] h = Inr (0, h4)" using h1(1) h2(1) h3(1) h4(1) by simp
  moreover have "mpi_ok (h4 x)" "mp_s (h4 x) = mp_s (h1 XRR)" "length (mp_p (h4 x)) \<le> max (length (mp_p (h x))) (length (mp_p (h n)) + 1)"
    using h3(6,7,8) used n4 [OF v(6)] by auto
  ultimately show ?thesis using h1(3,4) by blast
qed

lemma window_size_pos: "0 < window_size i"
  by (simp add: window_size_def Let_def MPI_WINDOW_SIZE_def)

text \<open>From the allocated variables to the power in \<open>X\<close>.\<close>

lemma exp_middle_ok:
  assumes "libc_total c" "exp_pre x a e n rr mm h" "0 < ws" "e \<notin> set_option rr"
  shows "\<exists>h'. mpi_seq [exp_rr c n rr, exp_base c a n mm, exp_one c x n mm, exp_table c ws n mm, exp_bits ws x e n mm, mont_red x n mm] h = Inr (0, h') \<and>
    frame (insert x (set_option rr \<union> loc4)) h h' \<and> mpi_ok (h' x) \<and>
    mpi_val (h' x) = int (limbs_val (mp_p (h a)) ^ limbs_val (mp_p (h e)) mod limbs_val (mp_p (h n))) \<and>
    length (mp_p (h' x)) \<le> max (length (mp_p (h x))) (length (mp_p (h n)) + 1) \<and>
    (\<forall>v. rr = Some v \<longrightarrow> mpi_ok (h' v) \<and> 0 \<le> mpi_val (h' v) \<and> mont_num n h' v (limb_base ^ length (mp_p (h n))))"
proof -
  let ?N = "limbs_val (mp_p (h n))" and ?k = "limbs_val (mp_p (h a))" and ?E = "limbs_val (mp_p (h e))"
  have ev: "exp_vars x e n" and rrv: "\<And>v. rr = Some v \<Longrightarrow> outer_var 5 v \<and> v \<noteq> x \<and> v \<noteq> n" using assms(2) by (auto simp: exp_pre_def rr_var_def)
  note v = exp_varsD [OF ev]
  obtain h1 RR where h1: "mpi_seq [exp_rr c n rr, exp_base c a n mm, exp_one c x n mm, exp_table c ws n mm] h = Inr (0, h1)"
      "frame (insert x (set_option rr \<union> loc4)) h h1" "exp_state x n mm ws ?k 0 h1" "mpi_ok (h1 x)"
      "length (mp_p (h1 x)) \<le> max (length (mp_p (h x))) (length (mp_p (h n)) + 1)"
      and RR: "mpi_ok RR" "0 \<le> mpi_val RR" "mp_s (h1 x) = mp_s RR" "mp_p RR \<noteq> []" "limbs_val (mp_p RR) = (limb_base ^ length (mp_p (h n)) * limb_base ^ length (mp_p (h n))) mod ?N"
      "\<forall>v. rr = Some v \<longrightarrow> h1 v = RR"
    using exp_setup_ok [OF assms(1-3)] by blast
  have "n \<notin> set_option rr" using rrv by auto
  then have n1: "h1 n = h n" "h1 e = h e" using frameD [OF h1(2)] v assms(4) by simp_all
  obtain h2 where h2: "exp_bits ws x e n mm h1 = Inr (0, h2)" "mont_after x h1 h2" "exp_state x n mm ws ?k ?E h2"
    using exp_bits_ok [OF ev h1(3) assms(3)] n1 by auto
  have s2: "mont_ctx n mm h2" "mont_dest n h2 x" "mont_num n h2 x (?k ^ ?E)" using h2(3) by (simp_all add: exp_state_def)
  obtain h3 where h3: "mont_red x n mm h2 = Inr (0, h3)" "mont_after x h2 h3" "limbs_val (mp_p (h3 x)) = ?k ^ ?E mod limbs_val (mp_p (h2 n))"
    using mont_red_ok [OF s2 v(1-3)] by blast
  have af: "mont_after x h1 h3" by (rule mont_after_trans [OF h2(2) h3(2)])
  have n2: "h2 n = h n" using mont_after_other [OF h2(2) v(2,3)] n1 by simp
  have n3: "h3 n = h n" using mont_after_other [OF af v(2,3)] n1 by simp
  have ok3: "mpi_ok (h3 x)" "mp_s (h3 x) = mp_s RR" "length (mp_p (h3 x)) = length (mp_p (h1 x))" using mont_after_ok [OF af] h1(4) af RR(3) by (simp_all add: mont_after_def)
  have odd: "odd ?N" using s2(1) n2 by (simp add: mont_ctx_def)
  have "limbs_val (mp_p (h3 x)) < ?N" using h3(3) odd n2 by (simp add: odd_pos)
  then have "mpi_val (h3 x) = int (limbs_val (mp_p (h3 x)))" by (rule mont_sign [OF ok3(1) RR(1,2) ok3(2) RR(5) odd])
  then have "mpi_val (h3 x) = int (?k ^ ?E mod ?N)" using h3(3) n2 by simp
  moreover have "frame (insert x (set_option rr \<union> loc4)) h h3"
    using af by (intro frame_trans [OF h1(2)]) (auto simp: mont_after_def elim!: frame_mono)
  moreover have "mpi_ok (h3 w) \<and> 0 \<le> mpi_val (h3 w) \<and> mont_num n h3 w (limb_base ^ length (mp_p (h n)))" if "rr = Some w" for w
  proof -
    have "w \<noteq> x" "w \<noteq> XT" using rrv [OF that] by auto
    then have "h3 w = RR" using mont_after_other [OF af] RR(6) that by simp
    then show ?thesis using RR n3 by (simp add: mont_num_def)
  qed
  moreover have "mpi_seq [exp_rr c n rr, exp_base c a n mm, exp_one c x n mm, exp_table c ws n mm, exp_bits ws x e n mm, mont_red x n mm] h = Inr (0, h3)"
    using mpi_seq_append [OF h1(1), of "[exp_bits ws x e n mm, mont_red x n mm]"] h2(1) h3(1) by simp
  ultimately show ?thesis using ok3 h1(5) by (intro exI [of _ h3]) simp
qed

text \<open>A call: the exponent is not negative, the modulus is odd and positive, the base has limbs, and the sizes leave room.\<close>

definition exp_call :: "mvar \<Rightarrow> mvar \<Rightarrow> mvar \<Rightarrow> mvar \<Rightarrow> mvar option \<Rightarrow> mpis \<Rightarrow> bool" where
  "exp_call x a e n rr h \<longleftrightarrow> blank_locals 5 h \<and> exp_vars x e n \<and> outer_var 5 a \<and> mpi_ok (h a) \<and> mp_p (h a) \<noteq> [] \<and> length (mp_p (h a)) + 3 < MPI_MAX_LIMBS \<and>
     mpi_ok (h e) \<and> 0 \<le> mpi_val (h e) \<and> mpi_ok (h n) \<and> 0 < mpi_val (h n) \<and> odd (mpi_val (h n)) \<and> 2 * length (mp_p (h n)) + 5 < MPI_MAX_LIMBS \<and>
     length (mp_p (h x)) < MPI_MAX_LIMBS \<and> rr_var rr x a e n h"

lemma exp_start_simps:
  "exp_start h (Arg i) = h (Arg i)" "outer_var 5 v \<Longrightarrow> exp_start h v = h v" "exp_start h XRR = shmpi_init" "exp_start h XT = shmpi_init" "exp_start h XA = shmpi_init"
  "exp_start h (XW i) = \<lparr>mp_s = 0, mp_p = []\<rparr>" "blank_locals 5 h \<Longrightarrow> blank_locals 4 (exp_start h)"
  by (auto simp: exp_start_def XW_def outer_var_def blank_locals_def split: mvar.splits)

lemma exp_blank_outer: "outer_var 5 v \<Longrightarrow> exp_blank h v = h v"
  by (auto simp: exp_blank_def outer_var_def split: mvar.splits)

lemma exp_blank_inner:
  assumes "blank_locals 5 h" "blank_locals 4 h2" "\<not> outer_var 5 v"
  shows "exp_blank h2 v = h v"
proof -
  obtain j i where v: "v = Loc j i" "j < 5" using assms(3) by (cases v) auto
  then have "h v = shmpi_init" "j \<noteq> 4 \<Longrightarrow> h2 v = shmpi_init" using assms(1,2) by (auto simp: blank_locals_def)
  then show ?thesis using v by (simp add: exp_blank_def)
qed

text \<open>After the allocation, and with the sign taken off the base.\<close>

lemma exp_alloc_ok:
  assumes "libc_total c" "exp_call x a e n rr h" "mont_ready (h n) mm T" "odd (limbs_val (mp_p (h n)))" "j = length (mp_p (h n)) + 1"
  shows "\<exists>h1. exp_alloc c j x (exp_start h) = Inr (0, h1) \<and> frame {x, XW 1, XT} (exp_start h) h1 \<and> blank_locals 4 h1 \<and> mont_ctx n mm h1 \<and> mp_s (h1 x) = mp_s (h x) \<and> limbs_val (mp_p (h1 x)) = limbs_val (mp_p (h x)) \<and>
    length (mp_p (h1 x)) = max (length (mp_p (h x))) j \<and> length (mp_p (h1 (XW 1))) = j \<and> (\<forall>m. mpi_room (h1 (XW m)))"
proof -
  have ca: "blank_locals 5 h" "exp_vars x e n" "2 * length (mp_p (h n)) + 5 < MPI_MAX_LIMBS" using assms(2) by (auto simp: exp_call_def)
  note v = exp_varsD [OF ca(2)]
  have j: "j \<le> MPI_MAX_LIMBS" "j * 2 \<le> MPI_MAX_LIMBS" "0 < j" using ca(3) assms(5) by simp_all
  have x: "XW 1 \<noteq> x" "x \<noteq> XW i" "XT \<noteq> x" for i using outer_XW [OF v(6)] v(1) by auto
  define X1 where "X1 = (h x)\<lparr>mp_p := mp_p (h x) @ replicate (j - length (mp_p (h x))) 0\<rparr>"
  define h1 where "h1 = (exp_start h)(x := X1, XW 1 := \<lparr>mp_s = 0, mp_p = replicate j 0\<rparr>, XT := \<lparr>mp_s = 1, mp_p = replicate (j * 2) 0\<rparr>)"
  have run: "exp_alloc c j x (exp_start h) = Inr (0, h1)"
    using x v(6) by (simp add: exp_alloc_def on_grow [OF assms(1) j(1)] on_grow [OF assms(1) j(2)] exp_start_simps X1_def h1_def shmpi_init_def)
  have n1: "h1 n = h n" using v outer_XW [OF v(7), of 1] by (simp add: h1_def exp_start_simps)
  have "mont_ctx n mm h1" using assms(3-5) unfolding mont_ctx_def n1 by (simp add: h1_def mont_ready_def)
  moreover have "blank_locals 4 h1" using exp_start_simps(7) [OF ca(1)] v(6) outer_var_mono [of 5 x 4] by (simp add: h1_def XW_def)
  moreover have "mpi_room (h1 (XW m))" for m using x(2) [of m, symmetric] j(1) by (simp add: h1_def mpi_room_def exp_start_simps)
  ultimately show ?thesis using run x by (intro exI [of _ h1]) (auto simp: h1_def X1_def limbs_val_append)
qed

lemma exp_sign_ok:
  assumes "libc_total c" "exp_call x a e n rr h" "mont_ready (h n) mm T" "odd (limbs_val (mp_p (h n)))" "j = length (mp_p (h n)) + 1"
  shows "\<exists>h1 h2. exp_alloc c j x (exp_start h) = Inr (0, h1) \<and> mp_s (h1 a) = mp_s (h a) \<and>
    (if mp_s (h1 a) = - 1 then mpi_seq [shmpi_copy c XA a, set_sign XA 1] else mpi_ret 0) h1 = Inr (0, h2) \<and>
    exp_pre x (if mp_s (h1 a) = - 1 then XA else a) e n rr mm h2 \<and> limbs_val (mp_p (h2 (if mp_s (h1 a) = - 1 then XA else a))) = limbs_val (mp_p (h a)) \<and>
    frame {x} h (exp_blank h2) \<and> length (mp_p (h2 x)) = max (length (mp_p (h x))) j"
proof -
  have ca: "blank_locals 5 h" "exp_vars x e n" "outer_var 5 a" "mpi_ok (h a)" "mp_p (h a) \<noteq> []" "length (mp_p (h a)) + 3 < MPI_MAX_LIMBS" "mpi_ok (h n)" "0 < mpi_val (h n)"
      "2 * length (mp_p (h n)) + 5 < MPI_MAX_LIMBS" "length (mp_p (h x)) < MPI_MAX_LIMBS" "rr_var rr x a e n h" using assms(2) by (auto simp: exp_call_def)
  note v = exp_varsD [OF ca(2)]
  obtain h1 where h1: "exp_alloc c j x (exp_start h) = Inr (0, h1)" "frame {x, XW 1, XT} (exp_start h) h1" "blank_locals 4 h1" "mont_ctx n mm h1" "mp_s (h1 x) = mp_s (h x)"
      "limbs_val (mp_p (h1 x)) = limbs_val (mp_p (h x))" "length (mp_p (h1 x)) = max (length (mp_p (h x))) j" "length (mp_p (h1 (XW 1))) = j" "\<forall>m. mpi_room (h1 (XW m))"
    using exp_alloc_ok [OF assms] by blast
  have e1: "h1 u = h u" if "outer_var 5 u" "u \<noteq> x" for u
  proof -
    have "u \<notin> {x, XW 1, XT}" using outer_XW [OF that(1), of 1] that by auto
    then show ?thesis using frameD [OF h1(2)] exp_start_simps(2) [OF that(1)] by simp
  qed
  have "XRR \<notin> {x, XW 1, XT}" "XA \<notin> {x, XW 1, XT}" using v(6) by auto
  then have l1: "h1 XRR = shmpi_init" "h1 XA = shmpi_init" by (simp_all only: frameD [OF h1(2)] exp_start_simps not_False_eq_True)
  have a1: "mp_s (h1 a) = mp_s (h a)" "limbs_val (mp_p (h1 a)) = limbs_val (mp_p (h a))" "mpi_ok (h1 a)" "mp_p (h1 a) \<noteq> []" "length (mp_p (h1 a)) + 3 < MPI_MAX_LIMBS"
    using h1(5-7) e1 [OF ca(3)] ca(4-6,9) assms(5) by (cases "a = x"; auto simp: mpi_ok_def)+
  define a' where "a' = (if mp_s (h1 a) = - 1 then XA else a)"
  have "\<exists>h2. (if mp_s (h1 a) = - 1 then mpi_seq [shmpi_copy c XA a, set_sign XA 1] else mpi_ret 0) h1 = Inr (0, h2) \<and> frame {XA} h1 h2 \<and>
      mp_s (h2 a') = 1 \<and> limbs_val (mp_p (h2 a')) = limbs_val (mp_p (h a)) \<and> mpi_ok (h2 a') \<and> mp_p (h2 a') \<noteq> [] \<and> length (mp_p (h2 a')) + 3 < MPI_MAX_LIMBS"
  proof (cases "mp_s (h1 a) = - 1")
    case True
    obtain Y where "shmpi_copy c XA a h1 = Inr (0, h1(XA := Y))" "mpi_ok Y" "limbs_val (mp_p Y) = limbs_val (mp_p (h1 a))" "mp_p Y \<noteq> []" "length (mp_p Y) \<le> max 1 (used_limbs (mp_p (h1 a)))"
      using copy_room [where h = h1 and x = XA and y = a, OF assms(1) a1(3)] a1(4) l1(2) by (auto simp: mpi_room_def shmpi_init_def)
    then show ?thesis using True a1(2,5) used_limbs_le [of "mp_p (h1 a)"]
      by (intro exI [of _ "h1(XA := Y\<lparr>mp_s := 1\<rparr>)"]) (auto simp: set_sign_def a'_def mpi_ok_def mpi_do_def MPI_MAX_LIMBS_def)
  next
    case False
    then show ?thesis using a1 by (intro exI [of _ h1]) (auto simp: a'_def mpi_ret_def mpi_ok_def)
  qed
  then obtain h2 where h2: "(if mp_s (h1 a) = - 1 then mpi_seq [shmpi_copy c XA a, set_sign XA 1] else mpi_ret 0) h1 = Inr (0, h2)" "frame {XA} h1 h2"
      "mp_s (h2 a') = 1" "limbs_val (mp_p (h2 a')) = limbs_val (mp_p (h a))" "mpi_ok (h2 a')" "mp_p (h2 a') \<noteq> []" "length (mp_p (h2 a')) + 3 < MPI_MAX_LIMBS" by blast
  have e2: "h2 u = h1 u" if "u \<noteq> XA" for u using frameD [OF h2(2)] that by simp
  have o2: "h2 u = h u" if "outer_var 5 u" "u \<noteq> x" for u
  proof -
    have "u \<noteq> XA" using that(1) by auto
    then show ?thesis using e1 [OF that] e2 [of u] by simp
  qed
  have b2: "blank_locals 4 h2" by (rule frame_blank [OF h2(2) _ h1(3)]) simp
  have "exp_pre x a' e n rr mm h2"
    unfolding exp_pre_def
  proof (intro conjI)
    show "blank_locals 4 h2" by (rule b2)
    have "n \<noteq> XA" using v(7) by auto
    then show "mont_ctx n mm h2" using h1(4) e2 [of n] e2 [of XT] by (simp add: mont_ctx_def)
    show "rr_var rr x a' e n h2" using ca(11) o2 [of n] o2 v by (auto simp: rr_var_def a'_def mont_num_def)
    show "mpi_arg 3 h2 a'" using h2(5,7) ca(3) outer_var_mono [of 5 a 3] by (auto simp: mpi_arg_def a'_def)
    show "a' \<notin> range XW" using outer_XW [OF ca(3)] by (auto simp: a'_def)
    show "a' \<notin> {XT, XRR}" using ca(3) by (auto simp: a'_def)
    show "\<forall>m. mpi_room (h2 (XW m))" using h1(9) e2 by simp
    show "h2 XRR = shmpi_init" using l1(1) e2 [of XRR] by simp
    have "x \<noteq> XA" using v(6) by auto
    then show "mpi_room (h2 x)" "length (mp_p (h2 n)) + 1 \<le> length (mp_p (h2 x))" using e2 [of x] o2 [of n] h1(7) v ca(9,10) assms(5) by (auto simp: mpi_room_def)
    show "length (mp_p (h2 (XW 1))) = length (mp_p (h2 n)) + 1" using e2 [of "XW 1"] o2 [of n] h1(8) v assms(5) by simp
  qed (use ca h2 o2 [of n] v in auto)
  moreover have "frame {x} h (exp_blank h2)"
    unfolding frame_def using o2 exp_blank_outer exp_blank_inner [OF ca(1) b2] by (metis singletonI)
  moreover have "length (mp_p (h2 x)) = max (length (mp_p (h x))) j"
  proof -
    have "x \<noteq> XA" using v(6) by auto
    then show ?thesis using e2 [of x] h1(7) by simp
  qed
  ultimately show ?thesis using h1(1) h2(1,4) a1(1) unfolding a'_def by blast
qed

lemma exp_blank_frame:
  assumes "blank_locals 5 h" "frame {x} h (exp_blank h2)" "frame (insert x (V \<union> loc4)) h2 h3"
  shows "frame (insert x V) h (exp_blank h3)"
  unfolding frame_def
proof (intro allI impI)
  fix u assume u: "u \<notin> insert x V"
  show "exp_blank h3 u = h u"
  proof (cases "u \<in> loc4")
    case True
    then show ?thesis using assms(1) by (auto simp: loc4_def exp_blank_def blank_locals_def)
  next
    case False
    then have "exp_blank g u = g u" for g by (auto simp: loc4_def exp_blank_def split: mvar.splits)
    then show ?thesis using frameD [OF assms(3), of u] frameD [OF assms(2), of u] u False by simp
  qed
qed

text \<open>The value \<open>shmpi_exp_mod\<close> stores: for a negative base it takes the power of the absolute value off the modulus, whatever the exponent.\<close>

definition exp_value :: "shmpi \<Rightarrow> int \<Rightarrow> int \<Rightarrow> int" where
  "exp_value A E N = (if mp_s A = - 1 then N - \<bar>mpi_val A\<bar> ^ nat E mod N else \<bar>mpi_val A\<bar> ^ nat E mod N)"

lemma exp_neg_ok:
  assumes "libc_total c" "blank_locals 1 h" "mpi_arg 1 h x" "mpi_arg 1 h n" "x \<noteq> n" "mpi_val (h x) = int r" "r < limbs_val (mp_p (h n))" "0 < mpi_val (h n)" "mp_p (h n) \<noteq> []"
  shows "\<exists>X. mpi_seq [set_sign x (- 1), shmpi_add_mpi c x n x] h = Inr (0, h(x := X)) \<and> mpi_ok X \<and> mpi_val X = mpi_val (h n) - int r \<and>
    length (mp_p X) \<le> max (max 1 (length (mp_p (h x)))) (length (mp_p (h n)))"
proof -
  define h1 where "h1 = h(x := (h x)\<lparr>mp_s := - 1\<rparr>)"
  have "mpi_arg 1 h1 n" "mpi_arg 1 h1 x" using assms(3-5) by (auto simp: h1_def mpi_arg_def mpi_ok_def)
  moreover have "blank_locals 1 h1" using assms(2,3) by (simp add: h1_def mpi_arg_def)
  ultimately obtain X where X: "shmpi_add_mpi c x n x h1 = Inr (0, h1(x := X))" "mpi_ok X" "mpi_val X = mpi_val (h1 n) + mpi_val (h1 x)" "len_bound h1 x n x X"
    using add_mpi_ex [of c h1 x n x] assms(1,5) by blast
  have ok: "mpi_ok (h x)" "mpi_ok (h n)" using assms(3,4) by (simp_all add: mpi_arg_def)
  have r: "limbs_val (mp_p (h x)) = r" using limbs_abs [OF ok(1)] assms(6) by simp
  have v: "mpi_val X = mpi_val (h n) - int r" using X(3) r assms(5) by (simp add: h1_def mpi_val_def)
  have N: "mpi_val (h n) = int (limbs_val (mp_p (h n)))" using limbs_nonneg [OF ok(2)] assms(8) by simp
  have "limbs_val (mp_p X) \<le> limbs_val (mp_p (h n))" using limbs_abs [OF X(2)] v N assms(7) by linarith
  then have le: "limbs_val (mp_p X) < limb_base ^ length (mp_p (h n))" using limbs_val_lt [of "mp_p (h n)"] by (rule le_less_trans)
  have "length (mp_p X) \<le> max (max 1 (length (mp_p (h x)))) (length (mp_p (h n)))" (is "_ \<le> ?m")
  proof (rule len_boundD [OF X(4)])
    have up: "limb_base ^ length (mp_p (h n)) \<le> limb_base ^ ?m" by (rule power_increasing) simp_all
    have N1: "l < limb_base ^ ?m" if "l \<le> limbs_val (mp_p (h n))" for l using that limbs_val_lt [of "mp_p (h n)"] up by linarith
    show "limbs_val (mp_p X) < limb_base ^ ?m" using le up by (rule less_le_trans)
    show "limbs_val (mp_p (h1 n)) < limb_base ^ ?m" using N1 [of "limbs_val (mp_p (h n))"] assms(5) by (simp add: h1_def)
    show "limbs_val (mp_p (h1 x)) < limb_base ^ ?m" using N1 [of r] r assms(7) by (simp add: h1_def)
  qed (simp_all add: h1_def)
  then show ?thesis using X(1,2) v by (intro exI [of _ X]) (simp add: set_sign_def mpi_do_def h1_def)
qed

lemma exp_mod_ok:
  assumes "libc_total c" "exp_call x a e n rr h"
  shows "\<exists>h'. shmpi_exp_mod c x a e n rr h = Inr (0, h') \<and> frame (insert x (set_option rr)) h h' \<and> mpi_ok (h' x) \<and>
    mpi_val (h' x) = exp_value (h a) (mpi_val (h e)) (mpi_val (h n)) \<and>
    length (mp_p (h' x)) \<le> max (length (mp_p (h x))) (length (mp_p (h n)) + 1) \<and> rr_var rr x a e n h'"
proof -
  have ca: "blank_locals 5 h" "exp_vars x e n" "outer_var 5 a" "mpi_ok (h a)" "mpi_ok (h e)" "0 \<le> mpi_val (h e)" "mpi_ok (h n)" "0 < mpi_val (h n)" "odd (mpi_val (h n))"
      "2 * length (mp_p (h n)) + 5 < MPI_MAX_LIMBS" "length (mp_p (h x)) < MPI_MAX_LIMBS" "rr_var rr x a e n h" using assms(2) by (auto simp: exp_call_def)
  note v = exp_varsD [OF ca(2)]
  let ?N = "limbs_val (mp_p (h n))" and ?A = "limbs_val (mp_p (h a))" and ?E = "limbs_val (mp_p (h e))"
  have vN: "mpi_val (h n) = int ?N" and vE: "mpi_val (h e) = int ?E" using limbs_nonneg [OF ca(7)] limbs_nonneg [OF ca(5)] ca(6,8) by simp_all
  have odd: "odd ?N" using ca(9) vN by simp
  then have n0: "mp_p (h n) \<noteq> []" "odd (unat (mp_p (h n) ! 0))" by (simp_all add: odd_limbs)
  obtain mm where mm: "shmpi_montg_init (h n) = Inr mm" "mp_p (h n) ! 0 * mm = - 1" using montg_init_ok [OF n0] by blast
  define j where "j = length (mp_p (h n)) + 1"
  define ws where "ws = window_size (shmpi_msb (h e))"
  have ws: "0 < ws" by (simp add: ws_def window_size_pos)
  have ready: "mont_ready (h n) mm \<lparr>mp_s = 1, mp_p = replicate (j * 2) 0\<rparr>" using mm(2) n0(1) by (simp add: mont_ready_def j_def)
  obtain h1 h2 where h1: "exp_alloc c j x (exp_start h) = Inr (0, h1)" "mp_s (h1 a) = mp_s (h a)"
      "(if mp_s (h1 a) = - 1 then mpi_seq [shmpi_copy c XA a, set_sign XA 1] else mpi_ret 0) h1 = Inr (0, h2)"
      and h2: "exp_pre x (if mp_s (h1 a) = - 1 then XA else a) e n rr mm h2" "limbs_val (mp_p (h2 (if mp_s (h1 a) = - 1 then XA else a))) = ?A"
      "frame {x} h (exp_blank h2)" "length (mp_p (h2 x)) = max (length (mp_p (h x))) j"
    using exp_sign_ok [OF assms ready odd j_def] by blast
  define a' where "a' = (if mp_s (h1 a) = - 1 then XA else a)"
  have o2: "h2 u = h u" if "outer_var 5 u" "u \<noteq> x" for u using frameD [OF h2(3), of u] that exp_blank_outer [of u h2] by simp
  have en: "h2 e = h e" "h2 n = h n" using o2 v by metis+
  have rre: "e \<notin> set_option rr" "\<And>w. rr = Some w \<Longrightarrow> outer_var 5 w \<and> w \<noteq> x \<and> w \<notin> {x, a, e, n}" using ca(12) by (auto simp: rr_var_def)
  obtain h3 where h3: "mpi_seq [exp_rr c n rr, exp_base c a' n mm, exp_one c x n mm, exp_table c ws n mm, exp_bits ws x e n mm, mont_red x n mm] h2 = Inr (0, h3)"
      "frame (insert x (set_option rr \<union> loc4)) h2 h3" "mpi_ok (h3 x)" "mpi_val (h3 x) = int (?A ^ ?E mod ?N)" "length (mp_p (h3 x)) \<le> max (length (mp_p (h2 x))) (length (mp_p (h n)) + 1)"
      "\<forall>v. rr = Some v \<longrightarrow> mpi_ok (h3 v) \<and> 0 \<le> mpi_val (h3 v) \<and> mont_num n h3 v (limb_base ^ length (mp_p (h n)))"
    using exp_middle_ok [OF assms(1) h2(1) ws rre(1)] h2(2) unfolding a'_def [symmetric] en by auto
  have n3: "h3 n = h n"
  proof -
    have "n \<notin> insert x (set_option rr \<union> loc4)" using rre(2) v by auto
    then show ?thesis using frameD [OF h3(2)] en(2) by simp
  qed
  have b3: "blank_locals 1 h3"
  proof -
    have "blank_locals 4 h2" using h2(1) by (simp add: exp_pre_def)
    moreover have "outer_var 4 u" if "u \<in> insert x (set_option rr \<union> loc4)" for u
      using that v(6) rre(2) outer_var_mono [of 5 u 4] by (auto simp: loc4_def)
    ultimately have "blank_locals 4 h3" using frame_blank [OF h3(2)] by blast
    then show ?thesis by (rule blank_locals_mono) simp
  qed
  have len3: "length (mp_p (h3 x)) \<le> max (length (mp_p (h x))) (length (mp_p (h n)) + 1)" using h3(5) h2(4) by (simp add: j_def)
  have lt: "?A ^ ?E mod ?N < ?N" using odd by (simp add: odd_pos)
  let ?F = "if mp_s (h1 a) = - 1 then mpi_seq [set_sign x (- 1), shmpi_add_mpi c x n x] else mpi_ret 0"
  have "\<exists>X. ?F h3 = Inr (0, h3(x := X)) \<and> mpi_ok X \<and> mpi_val X = (if mp_s (h a) = - 1 then mpi_val (h n) - int (?A ^ ?E mod ?N) else int (?A ^ ?E mod ?N)) \<and>
      length (mp_p X) \<le> max (length (mp_p (h x))) (length (mp_p (h n)) + 1)"
  proof (cases "mp_s (h a) = - 1")
    case True
    have "mpi_arg 1 h3 x" "mpi_arg 1 h3 n" using h3(3) len3 ca(7,10,11) v(6,7) n3 outer_var_mono [of 5 _ 1] by (auto simp: mpi_arg_def)
    then obtain X where "mpi_seq [set_sign x (- 1), shmpi_add_mpi c x n x] h3 = Inr (0, h3(x := X))" "mpi_ok X" "mpi_val X = mpi_val (h3 n) - int (?A ^ ?E mod ?N)"
        "length (mp_p X) \<le> max (max 1 (length (mp_p (h3 x)))) (length (mp_p (h3 n)))"
      using exp_neg_ok [OF assms(1) b3 _ _ v(2) [symmetric] h3(4)] lt ca(8) n0(1) n3 by auto
    then show ?thesis using True len3 n3 h1(2) by (intro exI [of _ X]) auto
  next
    case False
    then show ?thesis using h3(3,4) len3 h1(2) by (intro exI [of _ "h3 x"]) (simp add: mpi_ret_def)
  qed
  then obtain X where X: "?F h3 = Inr (0, h3(x := X))" "mpi_ok X" "mpi_val X = (if mp_s (h a) = - 1 then mpi_val (h n) - int (?A ^ ?E mod ?N) else int (?A ^ ?E mod ?N))"
      "length (mp_p X) \<le> max (length (mp_p (h x))) (length (mp_p (h n)) + 1)" by blast
  have val: "mpi_val X = exp_value (h a) (mpi_val (h e)) (mpi_val (h n))"
    unfolding X(3) exp_value_def vN vE limbs_abs [OF ca(4), symmetric] by (simp add: zmod_int)
  have "exp_body c x a e n rr mm (exp_start h) = Inr (0, h3(x := X))"
  proof -
    have es: "exp_start h e = h e" "exp_start h n = h n" by (simp_all add: exp_start_simps v)
    have "mpi_seq ([exp_rr c n rr, exp_base c a' n mm, exp_one c x n mm, exp_table c ws n mm, exp_bits ws x e n mm, mont_red x n mm] @ [?F]) h2 = Inr (0, h3(x := X))"
      using mpi_seq_append [OF h3(1), of "[?F]"] X(1) by simp
    then show ?thesis using h1(3) unfolding exp_body_def Let_def es ws_def [symmetric] j_def [symmetric] mpi_chk_simps(1) [where m = "exp_alloc c j x", OF h1(1)] a'_def [symmetric] by simp
  qed
  moreover have "mp_p (h n) ! 0 AND 1 \<noteq> 0"
  proof
    assume "mp_p (h n) ! 0 AND 1 = 0"
    moreover have "unat (w AND 1) = unat w mod 2" for w :: u64 by (simp add: and_one_eq unat_mod)
    ultimately have "unat (mp_p (h n) ! 0) mod 2 = 0" by (metis unat_0)
    then show False using n0(2) by presburger
  qed
  moreover have "shmpi_cmp_int (h n) 0 = Inr 1" "\<exists>z. shmpi_cmp_int (h e) 0 = Inr z \<and> 0 \<le> z" using ca(5-8) by (simp_all add: cmp_zero sgn_if)
  ultimately have run: "shmpi_exp_mod c x a e n rr h = Inr (0, exp_blank (h3(x := X)))"
    using n0(1) mm(1) by (auto simp: shmpi_exp_mod_def mpi_cleanup_def)
  have xb: "exp_blank (h3(x := X)) u = (h3(x := X)) u" if "outer_var 5 u" for u using that by (rule exp_blank_outer)
  have "frame (insert x (set_option rr)) h (exp_blank (h3(x := X)))"
    by (rule exp_blank_frame [OF ca(1) h2(3)]) (use h3(2) in \<open>simp add: frame_upd\<close>)
  moreover have "rr_var rr x a e n (exp_blank (h3(x := X)))"
    using h3(6) rre(2) n3 v by (auto simp: rr_var_def xb mont_num_def)
  ultimately show ?thesis using run X(2,4) val by (intro exI [of _ "exp_blank (h3(x := X))"]) (simp add: xb v(6))
qed

end
