(* ===== verification/Share_Mpi_Gcd.thy ===== *)
theory Share_Mpi_Gcd
  imports Share_Mpi_Exp
begin

text \<open>
  The greatest common divisor (HAC 14.54): the binary algorithm, that it returns, and its value.
\<close>

section \<open>Definitions\<close>

abbreviation "GA \<equiv> Loc 4 0"
abbreviation "GB \<equiv> Loc 4 2"

definition shift_lsb :: "libc \<Rightarrow> mvar \<Rightarrow> mop" where
  "shift_lsb c x h = shmpi_shift_r c x (shmpi_lsb (h x)) h"

definition gcd_step :: "libc \<Rightarrow> mop" where
  "gcd_step c = mpi_seq [
     shift_lsb c GA, shift_lsb c GB,
     (\<lambda>h. if 0 \<le> shmpi_cmp_mpi (h GA) (h GB)
       then mpi_seq [shmpi_sub_abs c GA GA GB, shmpi_shift_r c GA 1] h
       else mpi_seq [shmpi_sub_abs c GB GB GA, shmpi_shift_r c GB 1] h)]"

definition gcd_loop :: "libc \<Rightarrow> mop" where
  "gcd_loop c = mpi_while (\<lambda>h. run_bind (shmpi_cmp_int (h GA) 0) (\<lambda>s. Inr (s \<noteq> 0))) (gcd_step c)"

definition gcd_blank :: "mpis \<Rightarrow> mpis" where
  "gcd_blank h = h(GA := shmpi_init, GB := shmpi_init)"

definition shmpi_gcd :: "libc \<Rightarrow> mvar \<Rightarrow> mvar \<Rightarrow> mvar \<Rightarrow> mop" where
  "shmpi_gcd c g a b h =
     mpi_cleanup (mpi_seq [shmpi_copy c GA a, shmpi_copy c GB b,
       (\<lambda>h. let lz = shmpi_lsb (h GA); lzt = shmpi_lsb (h GB); lz = (if lzt < lz then lzt else lz) in
         mpi_seq [shmpi_shift_r c GA lz, shmpi_shift_r c GB lz, set_sign GB 1, set_sign GA 1,
           gcd_loop c, shmpi_shift_l c GB lz, shmpi_copy c g GB] h)])
       gcd_blank (gcd_blank h)"

section \<open>The lowest bit\<close>

lemma limb_lsb_Some: "limb_lsb x = Some j \<Longrightarrow> j < 64 \<and> 2 ^ j dvd unat x \<and> odd (unat x div 2 ^ j)"
proof -
  assume "limb_lsb x = Some j"
  then have j: "j < 64" "bit x j" "\<forall>i<j. \<not> bit x i" by (auto simp: limb_lsb_def find_Some_iff drop_bit_and_1)
  have b: "bit (unat x) i \<longleftrightarrow> bit x i" for i by (simp add: bit_unsigned_iff bit_imp_possible_bit)
  have "take_bit j (unat x) = 0" using j(3) by (intro bit_eqI) (auto simp: bit_take_bit_iff b)
  then have "2 ^ j dvd unat x" by (simp only: take_bit_eq_mod mod_eq_0_iff_dvd)
  moreover have "bit (unat x) j" using j(2) b by blast
  then have "odd (unat x div 2 ^ j)" by (simp add: bit_iff_odd)
  ultimately show ?thesis using j(1) by blast
qed

lemma limb_lsb_None: "limb_lsb x = None \<Longrightarrow> x = 0"
proof -
  assume "limb_lsb x = None"
  then have "\<not> bit x j" if "j < 64" for j using that by (auto simp: limb_lsb_def find_None_iff drop_bit_and_1)
  then show ?thesis by (intro bit_word_eqI) simp
qed

lemma lsb_loop_count: "limbs_val p \<noteq> 0 \<Longrightarrow> lsb_loop n p = n + lsb_loop 0 p"
proof (induction p arbitrary: n)
  case (Cons x xs)
  show ?case
  proof (cases "limb_lsb x")
    case None
    then have "limbs_val xs \<noteq> 0" using Cons.prems limb_lsb_None [of x] by simp
    then show ?thesis using None Cons.IH [of "n + 64"] Cons.IH [of 64] by simp
  qed simp
qed simp

lemma lsb_loop_val: "limbs_val p \<noteq> 0 \<Longrightarrow> 2 ^ lsb_loop 0 p dvd limbs_val p \<and> odd (limbs_val p div 2 ^ lsb_loop 0 p)"
proof (induction p)
  case (Cons x xs)
  show ?case
  proof (cases "limb_lsb x")
    case None
    then have x: "x = 0" and xs: "limbs_val xs \<noteq> 0" using Cons.prems limb_lsb_None [of x] by simp_all
    have "2 ^ lsb_loop 0 (x # xs) = limb_base * 2 ^ lsb_loop 0 xs" using None lsb_loop_count [OF xs, of 64] by (simp add: power_add limb_base_def)
    then show ?thesis using Cons.IH [OF xs] x by simp
  next
    case (Some j)
    note j = limb_lsb_Some [OF Some]
    have b: "limb_base = 2 ^ j * (2 * 2 ^ (63 - j))" using j by (simp add: limb_base_def flip: power_Suc power_add)
    obtain q where q: "unat x = 2 ^ j * q" using j by (auto elim: dvdE)
    have "limbs_val (x # xs) = 2 ^ j * (q + 2 * (2 ^ (63 - j) * limbs_val xs))" unfolding limbs_val.simps q by (subst b) (simp add: algebra_simps)
    moreover have "odd q" using j q by simp
    ultimately show ?thesis using Some by simp
  qed
qed simp

lemma lsb_val: "limbs_val (mp_p X) \<noteq> 0 \<Longrightarrow> 2 ^ shmpi_lsb X dvd limbs_val (mp_p X) \<and> odd (limbs_val (mp_p X) div 2 ^ shmpi_lsb X)"
  unfolding shmpi_lsb_def by (rule lsb_loop_val)

lemma lsb_zero: "limbs_val (mp_p X) = 0 \<Longrightarrow> shmpi_lsb X = 0"
proof -
  have "limbs_val p = 0 \<Longrightarrow> lsb_loop n p = 0" for p n
  proof (induction p arbitrary: n)
    case (Cons x xs)
    then have "unat x = 0" "limbs_val xs = 0" by simp_all
    then have "x = 0" by (simp add: unat_eq_0)
    then have "limb_lsb x = None" by (simp add: limb_lsb_def find_None_iff)
    then show ?case using Cons.IH [OF \<open>limbs_val xs = 0\<close>] by simp
  qed simp
  then show "limbs_val (mp_p X) = 0 \<Longrightarrow> shmpi_lsb X = 0" by (simp add: shmpi_lsb_def)
qed

section \<open>One step\<close>

lemma gcd_odd_part:
  fixes u v u' v' :: nat
  assumes "odd (gcd u v)" "u = 2 ^ k * u'" "v = 2 ^ l * v'"
  shows "gcd u' v' = gcd u v"
proof (rule dvd_antisym)
  have "coprime (gcd u v) (2 ^ k)" "coprime (gcd u v) (2 ^ l)" using assms(1) by simp_all
  moreover have "gcd u v dvd 2 ^ k * u'" "gcd u v dvd 2 ^ l * v'" using assms(2,3) by (metis gcd_dvd1 gcd_dvd2)+
  ultimately have "gcd u v dvd u'" "gcd u v dvd v'" by (simp_all add: coprime_dvd_mult_right_iff)
  then show "gcd u v dvd gcd u' v'" by simp
  show "gcd u' v' dvd gcd u v" unfolding assms(2,3) by (simp add: dvd_mult)
qed

lemma gcd_half_diff:
  fixes u v :: nat
  assumes "odd u" "odd v" "v \<le> u"
  shows "gcd ((u - v) div 2) v = gcd u v"
proof -
  have "u - v = (u - v) div 2 * 2" using assms by simp
  then have "gcd u v = gcd ((u - v) div 2 * 2) v" using gcd_diff1_nat [OF assms(3)] by simp
  also have "\<dots> = gcd ((u - v) div 2) v" using assms(2) by (intro gcd_mult_left_right_cancel) simp
  finally show ?thesis by simp
qed

lemma shift_nat:
  assumes "libc_total c" "mpi_ok (h x)" "mpi_val (h x) = int u"
  shows "\<exists>X. shmpi_shift_r c x k h = Inr (0, h(x := X)) \<and> mpi_ok X \<and> mpi_val X = int (u div 2 ^ k)"
proof -
  have u: "limbs_val (mp_p (h x)) = u" using limbs_abs [OF assms(2)] assms(3) by simp
  obtain X where X: "shmpi_shift_r c x k h = Inr (0, h(x := X))" "mpi_ok X" "limbs_val (mp_p X) = u div 2 ^ k" "limbs_val (mp_p X) \<noteq> 0 \<longrightarrow> mp_s X = mp_s (h x)"
    by (rule shift_r_ok [where h = h and x = x and count = k, OF assms(1,2)]) (use u in blast)
  have "mpi_val X = int (u div 2 ^ k)"
  proof (cases "u div 2 ^ k = 0")
    case False
    then have "mp_s X = mp_s (h x)" "u \<noteq> 0" using X(3,4) by (auto intro: ccontr)
    moreover have "mp_s (h x) = 1" using assms(2,3) \<open>u \<noteq> 0\<close> u by (auto simp: mpi_ok_def mpi_val_def)
    ultimately show ?thesis using X(3) by (simp add: mpi_val_def)
  qed (use X(3) in \<open>simp add: mpi_val_def\<close>)
  then show ?thesis using X(1,2) by blast
qed

lemma shift_lsb_ok:
  assumes "libc_total c" "mpi_ok (h x)" "mpi_val (h x) = int u" "u \<noteq> 0"
  shows "\<exists>X u' k. shift_lsb c x h = Inr (0, h(x := X)) \<and> mpi_ok X \<and> mpi_val X = int u' \<and> odd u' \<and> u = 2 ^ k * u'"
proof -
  have u: "limbs_val (mp_p (h x)) = u" using limbs_abs [OF assms(2)] assms(3) by simp
  have "2 ^ shmpi_lsb (h x) dvd u" "odd (u div 2 ^ shmpi_lsb (h x))" using lsb_val [of "h x"] assms(4) u by simp_all
  then show ?thesis using shift_nat [where h = h and x = x and k = "shmpi_lsb (h x)", OF assms(1-3)]
    by (metis dvd_mult_div_cancel shift_lsb_def)
qed

text \<open>The two numbers of the loop.\<close>

definition gcd_nums :: "mpis \<Rightarrow> nat \<Rightarrow> nat \<Rightarrow> bool" where
  "gcd_nums h u v \<longleftrightarrow> blank_locals 4 h \<and> mpi_ok (h GA) \<and> mpi_ok (h GB) \<and> mpi_val (h GA) = int u \<and> mpi_val (h GB) = int v"

lemma gcd_sub:
  assumes "libc_total c" "blank_locals 4 h" "mpi_ok (h x)" "mpi_ok (h y)" "mpi_val (h x) = int u" "mpi_val (h y) = int v" "v \<le> u" "outer_var 1 x" "outer_var 1 y"
  shows "\<exists>X. mpi_seq [shmpi_sub_abs c x x y, shmpi_shift_r c x 1] h = Inr (0, h(x := X)) \<and> mpi_ok X \<and> mpi_val X = int ((u - v) div 2)"
proof -
  have uv: "limbs_val (mp_p (h x)) = u" "limbs_val (mp_p (h y)) = v" using limbs_abs [OF assms(3)] limbs_abs [OF assms(4)] assms(5,6) by simp_all
  have b1: "blank_locals 1 h" using assms(2) by (rule blank_locals_mono) simp
  have le: "limbs_val (mp_p (h y)) \<le> limbs_val (mp_p (h x))" using uv assms(7) by simp
  obtain X1 where X1: "shmpi_sub_abs c x x y h = Inr (0, h(x := X1))" "mp_s X1 = 1" "mpi_ok X1" "limbs_val (mp_p X1) = u - v"
    by (rule sub_abs_ok [where h = h and x = x and a = x and b = y, OF assms(1,3,3,4) le b1 assms(8,8,9)]) (use uv in blast)
  have "mpi_ok ((h(x := X1)) x)" "mpi_val ((h(x := X1)) x) = int (u - v)" using X1 by (simp_all add: mpi_val_def)
  then obtain X2 where "shmpi_shift_r c x 1 (h(x := X1)) = Inr (0, h(x := X1, x := X2))" "mpi_ok X2" "mpi_val X2 = int ((u - v) div 2 ^ 1)"
    using shift_nat [where h = "h(x := X1)" and x = x and k = 1, OF assms(1)] by blast
  then show ?thesis using X1(1) by (intro exI [of _ X2]) simp
qed

lemma gcd_step_ok:
  assumes "libc_total c" "gcd_nums h u v" "u \<noteq> 0" "v \<noteq> 0" "odd (gcd u v)"
  shows "\<exists>h' u1 v1. gcd_step c h = Inr (0, h') \<and> frame {GA, GB} h h' \<and> gcd_nums h' u1 v1 \<and> gcd u1 v1 = gcd u v \<and> u1 + v1 < u + v \<and> v1 \<noteq> 0"
proof -
  have g: "blank_locals 4 h" "mpi_ok (h GA)" "mpi_ok (h GB)" "mpi_val (h GA) = int u" "mpi_val (h GB) = int v" using assms(2) by (simp_all add: gcd_nums_def)
  obtain X u' k where X: "shift_lsb c GA h = Inr (0, h(GA := X))" "mpi_ok X" "mpi_val X = int u'" "odd u'" "u = 2 ^ k * u'"
    using shift_lsb_ok [where h = h and x = GA, OF assms(1) g(2,4) assms(3)] by blast
  define h1 where "h1 = h(GA := X)"
  have "mpi_ok (h1 GB)" "mpi_val (h1 GB) = int v" using g by (simp_all add: h1_def)
  then obtain Y v' l where Y: "shift_lsb c GB h1 = Inr (0, h1(GB := Y))" "mpi_ok Y" "mpi_val Y = int v'" "odd v'" "v = 2 ^ l * v'"
    using shift_lsb_ok [where h = h1 and x = GB, OF assms(1) _ _ assms(4)] by blast
  define h2 where "h2 = h1(GB := Y)"
  have h2: "mpi_ok (h2 GA)" "mpi_ok (h2 GB)" "mpi_val (h2 GA) = int u'" "mpi_val (h2 GB) = int v'" "blank_locals 4 h2" "frame {GA, GB} h h2"
    using X(2,3) Y(2,3) g(1) by (simp_all add: h2_def h1_def)
  have G: "gcd u' v' = gcd u v" by (rule gcd_odd_part [OF assms(5) X(5) Y(5)])
  have le: "u' \<le> u" "v' \<le> v" "0 < u'" "0 < v'" using X(4,5) Y(4,5) by (simp_all add: odd_pos)
  show ?thesis
  proof (cases "v' \<le> u'")
    case True
    obtain Z where Z: "mpi_seq [shmpi_sub_abs c GA GA GB, shmpi_shift_r c GA 1] h2 = Inr (0, h2(GA := Z))" "mpi_ok Z" "mpi_val Z = int ((u' - v') div 2)"
      using gcd_sub [where h = h2 and x = GA and y = GB, OF assms(1) h2(5,1,2,3,4) True] by auto
    have "gcd_nums (h2(GA := Z)) ((u' - v') div 2) v'" using Z(2,3) h2 by (simp add: gcd_nums_def)
    moreover have "gcd_step c h = Inr (0, h2(GA := Z))"
      using X(1) Y(1) Z(1) cmp_mpi_ge [OF h2(1,2)] True h2(3,4) by (simp add: gcd_step_def h1_def h2_def)
    moreover have "(u' - v') div 2 + v' < u + v" using le by linarith
    ultimately show ?thesis using h2(6) G gcd_half_diff [OF X(4) Y(4) True] le(4)
      by (intro exI [of _ "h2(GA := Z)"] exI [of _ "(u' - v') div 2"] exI [of _ v']) simp
  next
    case False
    then have lt: "u' \<le> v'" "u' < v'" by simp_all
    obtain Z where Z: "mpi_seq [shmpi_sub_abs c GB GB GA, shmpi_shift_r c GB 1] h2 = Inr (0, h2(GB := Z))" "mpi_ok Z" "mpi_val Z = int ((v' - u') div 2)"
      using gcd_sub [where h = h2 and x = GB and y = GA, OF assms(1) h2(5,2,1,4,3) lt(1)] by auto
    have "gcd_nums (h2(GB := Z)) u' ((v' - u') div 2)" using Z(2,3) h2 by (simp add: gcd_nums_def)
    moreover have "gcd_step c h = Inr (0, h2(GB := Z))"
      using X(1) Y(1) Z(1) cmp_mpi_ge [OF h2(1,2)] False h2(3,4) by (simp add: gcd_step_def h1_def h2_def)
    moreover have "(v' - u') div 2 + u' < u + v" "(v' - u') div 2 \<noteq> 0"
    proof -
      show "(v' - u') div 2 + u' < u + v" using le by linarith
      show "(v' - u') div 2 \<noteq> 0" using X(4) Y(4) lt(2) by presburger
    qed
    ultimately show ?thesis using h2(6) G gcd_half_diff [OF Y(4) X(4) lt(1)]
      by (intro exI [of _ "h2(GB := Z)"] exI [of _ u'] exI [of _ "(v' - u') div 2"]) (simp add: gcd.commute)
  qed
qed

lemma gcd_loop_ok:
  assumes "libc_total c"
  shows "gcd_nums h u v \<Longrightarrow> v \<noteq> 0 \<Longrightarrow> u \<noteq> 0 \<longrightarrow> odd (gcd u v) \<Longrightarrow>
    \<exists>h'. gcd_loop c h = Inr (0, h') \<and> frame {GA, GB} h h' \<and> gcd_nums h' 0 (gcd u v)"
proof (induction "u + v" arbitrary: h u v rule: less_induct)
  case less
  have z: "shmpi_cmp_int (h GA) 0 = Inr (sgn (int u))" using less.prems(1) by (simp add: gcd_nums_def cmp_zero)
  show ?case
  proof (cases "u = 0")
    case True
    then show ?thesis using z less.prems(1) unfolding gcd_loop_def by (subst mpi_while_unfold) (intro exI [of _ h], simp)
  next
    case False
    then obtain h1 u1 v1 where s: "gcd_step c h = Inr (0, h1)" "frame {GA, GB} h h1" "gcd_nums h1 u1 v1" "gcd u1 v1 = gcd u v" "u1 + v1 < u + v" "v1 \<noteq> 0"
      using gcd_step_ok [OF assms less.prems(1) False less.prems(2)] less.prems(3) by blast
    have "odd (gcd u1 v1)" using s(4) less.prems(3) False by simp
    then obtain h2 where h2: "gcd_loop c h1 = Inr (0, h2)" "frame {GA, GB} h1 h2" "gcd_nums h2 0 (gcd u1 v1)"
      using less.hyps [OF s(5,3,6)] by blast
    have "gcd_loop c h = Inr (0, h2)"
      using z False s(1) h2(1) unfolding gcd_loop_def by (subst mpi_while_unfold) simp
    then show ?thesis using h2(3) s(4) frame_trans [OF s(2) h2(2)] by auto
  qed
qed

section \<open>The function\<close>

text \<open>Both numbers shifted by the smaller of the two counts of low zero bits: one of the results is odd.\<close>

lemma gcd_common_shift:
  fixes u v k l :: nat
  assumes "u \<noteq> 0 \<longrightarrow> 2 ^ k dvd u \<and> odd (u div 2 ^ k)" "2 ^ l dvd v" "odd (v div 2 ^ l)" "u = 0 \<longrightarrow> k = 0" "m = (if l < k then l else k)"
  shows "gcd (u div 2 ^ m) (v div 2 ^ m) * 2 ^ m = gcd u v" "u div 2 ^ m \<noteq> 0 \<longrightarrow> odd (gcd (u div 2 ^ m) (v div 2 ^ m))" "2 ^ m dvd u" "2 ^ m dvd v"
proof -
  have "2 ^ m dvd (2 :: nat) ^ l" "2 ^ m dvd (2 :: nat) ^ k" using assms(5) by (auto intro: le_imp_power_dvd)
  then show d: "2 ^ m dvd u" "2 ^ m dvd v" using assms(1,2) dvd_trans by (cases "u = 0"; blast)+
  then obtain a b where ab: "u = 2 ^ m * a" "v = 2 ^ m * b" by (auto elim!: dvdE)
  have e: "u div 2 ^ m = a" "v div 2 ^ m = b" using ab by simp_all
  show "gcd (u div 2 ^ m) (v div 2 ^ m) * 2 ^ m = gcd u v" unfolding e unfolding ab gcd_mult_distrib_nat [symmetric] by (rule mult.commute)
  show "u div 2 ^ m \<noteq> 0 \<longrightarrow> odd (gcd (u div 2 ^ m) (v div 2 ^ m))"
  proof
    assume "u div 2 ^ m \<noteq> 0"
    then have "odd (u div 2 ^ m) \<or> odd (v div 2 ^ m)" using assms(1,3,5) by (auto split: if_splits)
    then show "odd (gcd (u div 2 ^ m) (v div 2 ^ m))" by (auto dest: dvd_trans)
  qed
qed

lemma shift_any:
  assumes "libc_total c" "mpi_ok (h x)"
  shows "\<exists>X. shmpi_shift_r c x k h = Inr (0, h(x := X)) \<and> mpi_ok X \<and> limbs_val (mp_p X) = limbs_val (mp_p (h x)) div 2 ^ k"
  by (rule shift_r_ok [where h = h and x = x and count = k, OF assms]) blast

lemma gcd_start_ok:
  assumes "libc_total c" "blank_locals 4 h" "mpi_ok (h GA)" "mpi_ok (h GB)" "limbs_val (mp_p (h GA)) = u" "limbs_val (mp_p (h GB)) = v"
  shows "\<exists>h'. mpi_seq [shmpi_shift_r c GA m, shmpi_shift_r c GB m, set_sign GB 1, set_sign GA 1] h = Inr (0, h') \<and> frame {GA, GB} h h' \<and> gcd_nums h' (u div 2 ^ m) (v div 2 ^ m)"
proof -
  obtain X where X: "shmpi_shift_r c GA m h = Inr (0, h(GA := X))" "mpi_ok X" "limbs_val (mp_p X) = u div 2 ^ m"
    using shift_any [where h = h and x = GA, OF assms(1,3)] assms(5) by blast
  have "mpi_ok ((h(GA := X)) GB)" using assms(4) by simp
  then obtain Y where Y: "shmpi_shift_r c GB m (h(GA := X)) = Inr (0, h(GA := X, GB := Y))" "mpi_ok Y" "limbs_val (mp_p Y) = v div 2 ^ m"
    using shift_any [where h = "h(GA := X)" and x = GB, OF assms(1)] assms(6) by auto
  define h' where "h' = h(GA := X\<lparr>mp_s := 1\<rparr>, GB := Y\<lparr>mp_s := 1\<rparr>)"
  have "mpi_seq [shmpi_shift_r c GA m, shmpi_shift_r c GB m, set_sign GB 1, set_sign GA 1] h = Inr (0, h')"
    using X(1) Y(1) by (simp add: set_sign_def mpi_chk_def mpi_do_def h'_def fun_upd_twist)
  moreover have "gcd_nums h' (u div 2 ^ m) (v div 2 ^ m)" using X Y assms(2) by (simp add: gcd_nums_def h'_def mpi_ok_def mpi_val_def)
  moreover have "frame {GA, GB} h h'" by (simp add: h'_def)
  ultimately show ?thesis by blast
qed

lemma gcd_end_ok:
  assumes "libc_total c" "mpi_ok (h GB)" "mpi_val (h GB) = int w" "w * 2 ^ m < 2 ^ (64 * MPI_MAX_LIMBS)" "w \<noteq> 0" "mpi_room (h g)" "g \<noteq> GB"
  shows "\<exists>Y X. mpi_seq [shmpi_shift_l c GB m, shmpi_copy c g GB] h = Inr (0, h(GB := Y, g := X)) \<and> mpi_ok X \<and> mpi_val X = int (w * 2 ^ m)"
proof -
  have w: "limbs_val (mp_p (h GB)) = w" using limbs_abs [OF assms(2)] assms(3) by simp
  have "m \<le> 64 * MPI_MAX_LIMBS"
  proof (rule ccontr)
    assume "\<not> m \<le> 64 * MPI_MAX_LIMBS"
    then have "(2 :: nat) ^ (64 * MPI_MAX_LIMBS) \<le> 2 ^ m" by (intro power_increasing) simp_all
    also have "\<dots> \<le> w * 2 ^ m" using assms(5) by simp
    finally show False using assms(4) by simp
  qed
  then have "(2 :: nat) ^ (64 * MPI_MAX_LIMBS) = 2 ^ (64 * MPI_MAX_LIMBS - m) * 2 ^ m" by (simp only: power_add [symmetric] le_add_diff_inverse2)
  then have "w < 2 ^ (64 * MPI_MAX_LIMBS - m)" using assms(4) by simp
  then have "shmpi_msb (h GB) \<le> 64 * MPI_MAX_LIMBS - m" using msb_val [of "h GB"] w by simp
  then have room: "shmpi_msb (h GB) + m \<le> 64 * MPI_MAX_LIMBS" using \<open>m \<le> 64 * MPI_MAX_LIMBS\<close> by linarith
  obtain Y where Y: "shmpi_shift_l c GB m h = Inr (0, h(GB := Y))" "mpi_ok Y" "mp_s Y = mp_s (h GB)" "limbs_val (mp_p Y) = w * 2 ^ m"
    by (rule shift_l_ok [where h = h and x = GB and count = m, OF assms(1,2) room]) (use w in blast)
  have "mp_s (h GB) = 1" using assms(2,3,5) w by (auto simp: mpi_ok_def mpi_val_def)
  then have vY: "mpi_val Y = int (w * 2 ^ m)" using Y(3,4) by (simp add: mpi_val_def)
  have "mpi_ok ((h(GB := Y)) GB)" "mpi_room ((h(GB := Y)) g)" using Y(2) assms(6,7) by simp_all
  then obtain X where "shmpi_copy c g GB (h(GB := Y)) = Inr (0, h(GB := Y, g := X))" "mpi_val X = mpi_val Y" "mpi_ok X"
    using copy_room [where h = "h(GB := Y)" and x = g and y = GB, OF assms(1)] by auto
  then show ?thesis using Y(1) vY by (intro exI [of _ Y] exI [of _ X]) simp
qed

lemma gcd_ok:
  assumes "libc_total c" "blank_locals 5 h" "outer_var 5 g" "outer_var 5 a" "outer_var 5 b" "mpi_ok (h a)" "mpi_ok (h b)" "mpi_room (h g)" "mpi_val (h b) \<noteq> 0"
  shows "\<exists>X. shmpi_gcd c g a b h = Inr (0, h(g := X)) \<and> mpi_ok X \<and> mpi_val X = gcd (mpi_val (h a)) (mpi_val (h b))"
proof -
  let ?u = "limbs_val (mp_p (h a))" and ?v = "limbs_val (mp_p (h b))"
  have l: "a \<noteq> GA" "a \<noteq> GB" "b \<noteq> GA" "b \<noteq> GB" "g \<noteq> GA" "g \<noteq> GB" using assms(3-5) by auto
  have init: "h GA = shmpi_init" "h GB = shmpi_init" using assms(2) by (simp_all add: blank_local)
  then have h0: "gcd_blank h = h" by (auto simp: gcd_blank_def)
  have v0: "?v \<noteq> 0" using assms(9) by (simp add: mpi_val_def)
  have ir: "mpi_room shmpi_init" by (simp add: mpi_room_def shmpi_init_def)
  obtain A where A: "shmpi_copy c GA a h = Inr (0, h(GA := A))" "mpi_ok A" "limbs_val (mp_p A) = ?u"
    using copy_room [where h = h and x = GA and y = a, OF assms(1,6)] init ir by auto
  define h1 where "h1 = h(GA := A)"
  have "mpi_ok (h1 b)" "mpi_room (h1 GB)" using assms(7) init ir l by (simp_all add: h1_def)
  then obtain B where B: "shmpi_copy c GB b h1 = Inr (0, h1(GB := B))" "mpi_ok B" "limbs_val (mp_p B) = ?v"
    using copy_room [where h = h1 and x = GB and y = b, OF assms(1)] l by (auto simp: h1_def)
  define h2 where "h2 = h1(GB := B)"
  have h2: "mpi_ok (h2 GA)" "mpi_ok (h2 GB)" "limbs_val (mp_p (h2 GA)) = ?u" "limbs_val (mp_p (h2 GB)) = ?v" "blank_locals 4 h2"
    using A B blank_locals_mono [OF assms(2), of 4] by (simp_all add: h2_def h1_def)
  define k where "k = shmpi_lsb (h2 GA)"
  define kt where "kt = shmpi_lsb (h2 GB)"
  define m where "m = (if kt < k then kt else k)"
  have "?u \<noteq> 0 \<longrightarrow> 2 ^ k dvd ?u \<and> odd (?u div 2 ^ k)" "2 ^ kt dvd ?v" "odd (?v div 2 ^ kt)" "?u = 0 \<longrightarrow> k = 0"
    using lsb_val [of "h2 GA"] lsb_val [of "h2 GB"] lsb_zero [of "h2 GA"] h2(3,4) v0 by (simp_all add: k_def kt_def)
  note sh = gcd_common_shift [OF this m_def]
  obtain h3 where h3: "mpi_seq [shmpi_shift_r c GA m, shmpi_shift_r c GB m, set_sign GB 1, set_sign GA 1] h2 = Inr (0, h3)" "frame {GA, GB} h2 h3" "gcd_nums h3 (?u div 2 ^ m) (?v div 2 ^ m)"
    using gcd_start_ok [OF assms(1) h2(5,1,2,3,4)] by blast
  have "?v div 2 ^ m \<noteq> 0" using sh(4) v0 by (auto elim!: dvdE)
  then obtain h4 where h4: "gcd_loop c h3 = Inr (0, h4)" "frame {GA, GB} h3 h4" "gcd_nums h4 0 (gcd (?u div 2 ^ m) (?v div 2 ^ m))"
    using gcd_loop_ok [OF assms(1) h3(3) _ sh(2)] by blast
  define w where "w = gcd (?u div 2 ^ m) (?v div 2 ^ m)"
  have w0: "w \<noteq> 0" using \<open>?v div 2 ^ m \<noteq> 0\<close> by (simp add: w_def)
  have fr: "frame {GA, GB} h h4" using frame_trans [OF h3(2) h4(2)] by (auto simp: frame_def h2_def h1_def)
  have room: "w * 2 ^ m < 2 ^ (64 * MPI_MAX_LIMBS)"
  proof -
    have "w * 2 ^ m \<le> ?v" unfolding w_def sh(1) using v0 by (simp add: gcd_le2_nat)
    also have "?v < limb_base ^ length (mp_p (h b))" by (rule limbs_val_lt)
    also have "\<dots> \<le> limb_base ^ MPI_MAX_LIMBS" using assms(7) by (intro power_increasing) (simp_all add: mpi_ok_def)
    also have "\<dots> = 2 ^ (64 * MPI_MAX_LIMBS)" by (simp only: limb_base_def power_mult)
    finally show ?thesis .
  qed
  have "h4 g = h g" using frameD [OF fr] l by simp
  then have "mpi_ok (h4 GB)" "mpi_val (h4 GB) = int w" "mpi_room (h4 g)" using h4(3) assms(8) by (simp_all add: gcd_nums_def w_def)
  then obtain Y X where X: "mpi_seq [shmpi_shift_l c GB m, shmpi_copy c g GB] h4 = Inr (0, h4(GB := Y, g := X))" "mpi_ok X" "mpi_val X = int (w * 2 ^ m)"
    using gcd_end_ok [where h = h4, OF assms(1) _ _ room w0 _ l(6)] by blast
  have "mpi_val X = gcd (mpi_val (h a)) (mpi_val (h b))"
    unfolding X(3) w_def sh(1) using limbs_abs [OF assms(6)] limbs_abs [OF assms(7)] by (metis gcd_abs1_int gcd_abs2_int gcd_int_int_eq)
  moreover have "shmpi_gcd c g a b h = Inr (0, gcd_blank (h4(GB := Y, g := X)))"
  proof -
    have "(let lz = shmpi_lsb (h2 GA); lzt = shmpi_lsb (h2 GB); lz = (if lzt < lz then lzt else lz) in
         mpi_seq [shmpi_shift_r c GA lz, shmpi_shift_r c GB lz, set_sign GB 1, set_sign GA 1,
           gcd_loop c, shmpi_shift_l c GB lz, shmpi_copy c g GB] h2) = Inr (0, h4(GB := Y, g := X))"
      unfolding Let_def k_def [symmetric] kt_def [symmetric] m_def [symmetric]
      using h4(1) X(1) mpi_seq_append [OF h3(1), of "[gcd_loop c, shmpi_shift_l c GB m, shmpi_copy c g GB]"] by simp
    then show ?thesis using A(1) B(1) unfolding h1_def [symmetric] h2_def [symmetric] by (simp add: shmpi_gcd_def h0 mpi_cleanup_def)
  qed
  moreover have "gcd_blank (h4(GB := Y, g := X)) = h(g := X)" using fr l init by (auto simp: gcd_blank_def frame_def fun_eq_iff)
  ultimately show ?thesis using X(2) by auto
qed

section \<open>A second operand of zero\<close>

text \<open>The loop halves the first number until it is zero, and the second one stays zero.\<close>

lemma shift_lsb_zero:
  assumes "libc_total c" "mpi_ok (h x)" "mpi_val (h x) = 0"
  shows "\<exists>X. shift_lsb c x h = Inr (0, h(x := X)) \<and> mpi_ok X \<and> mpi_val X = 0"
proof -
  have "shmpi_lsb (h x) = 0" using lsb_zero [of "h x"] limbs_abs [OF assms(2)] assms(3) by simp
  then show ?thesis using shift_nat [where h = h and x = x and k = 0 and u = 0, OF assms(1,2)] assms(3) by (simp add: shift_lsb_def)
qed

lemma gcd_step_zero:
  assumes "libc_total c" "gcd_nums h u 0" "u \<noteq> 0"
  shows "\<exists>h' u1. gcd_step c h = Inr (0, h') \<and> frame {GA, GB} h h' \<and> gcd_nums h' u1 0 \<and> u1 < u"
proof -
  have g: "blank_locals 4 h" "mpi_ok (h GA)" "mpi_ok (h GB)" "mpi_val (h GA) = int u" "mpi_val (h GB) = 0" using assms(2) by (simp_all add: gcd_nums_def)
  obtain X u' k where X: "shift_lsb c GA h = Inr (0, h(GA := X))" "mpi_ok X" "mpi_val X = int u'" "odd u'" "u = 2 ^ k * u'"
    using shift_lsb_ok [where h = h and x = GA, OF assms(1) g(2,4) assms(3)] by blast
  define h1 where "h1 = h(GA := X)"
  have "mpi_ok (h1 GB)" "mpi_val (h1 GB) = 0" using g by (simp_all add: h1_def)
  then obtain Y where Y: "shift_lsb c GB h1 = Inr (0, h1(GB := Y))" "mpi_ok Y" "mpi_val Y = 0" using shift_lsb_zero [where h = h1 and x = GB, OF assms(1)] by blast
  define h2 where "h2 = h1(GB := Y)"
  have h2: "mpi_ok (h2 GA)" "mpi_ok (h2 GB)" "mpi_val (h2 GA) = int u'" "mpi_val (h2 GB) = int 0" "blank_locals 4 h2" "frame {GA, GB} h h2"
    using X(2,3) Y(2,3) g(1) by (simp_all add: h2_def h1_def)
  obtain Z where Z: "mpi_seq [shmpi_sub_abs c GA GA GB, shmpi_shift_r c GA 1] h2 = Inr (0, h2(GA := Z))" "mpi_ok Z" "mpi_val Z = int ((u' - 0) div 2)"
    using gcd_sub [where h = h2 and x = GA and y = GB, OF assms(1) h2(5,1,2,3,4)] by auto
  have "gcd_step c h = Inr (0, h2(GA := Z))"
    using X(1) Y(1) Z(1) cmp_mpi_ge [OF h2(1,2)] h2(3,4) by (simp add: gcd_step_def h1_def h2_def)
  moreover have "gcd_nums (h2(GA := Z)) (u' div 2) 0" using Z(2,3) h2 by (simp add: gcd_nums_def)
  moreover have "u' div 2 < u" using X(4,5) by (cases "u' = 0") (auto intro: less_le_trans [of _ u'])
  ultimately show ?thesis using h2(6) by (intro exI [of _ "h2(GA := Z)"] exI [of _ "u' div 2"]) simp
qed

lemma gcd_loop_zero:
  assumes "libc_total c"
  shows "gcd_nums h u 0 \<Longrightarrow> \<exists>h'. gcd_loop c h = Inr (0, h') \<and> frame {GA, GB} h h' \<and> gcd_nums h' 0 0"
proof (induction u arbitrary: h rule: less_induct)
  case (less u)
  have z: "shmpi_cmp_int (h GA) 0 = Inr (sgn (int u))" using less.prems by (simp add: gcd_nums_def cmp_zero)
  show ?case
  proof (cases "u = 0")
    case True
    then show ?thesis using z less.prems unfolding gcd_loop_def by (subst mpi_while_unfold) (intro exI [of _ h], simp)
  next
    case False
    then obtain h1 u1 where s: "gcd_step c h = Inr (0, h1)" "frame {GA, GB} h h1" "gcd_nums h1 u1 0" "u1 < u" using gcd_step_zero [OF assms less.prems] by blast
    obtain h2 where h2: "gcd_loop c h1 = Inr (0, h2)" "frame {GA, GB} h1 h2" "gcd_nums h2 0 0" using less.IH [OF s(4,3)] by blast
    have "gcd_loop c h = Inr (0, h2)" using z False s(1) h2(1) unfolding gcd_loop_def by (subst mpi_while_unfold) simp
    then show ?thesis using h2(3) frame_trans [OF s(2) h2(2)] by auto
  qed
qed

lemma gcd_zero:
  assumes "libc_total c" "blank_locals 5 h" "outer_var 5 g" "outer_var 5 a" "outer_var 5 b" "mpi_ok (h a)" "mpi_ok (h b)" "mpi_room (h g)" "mpi_val (h b) = 0"
  shows "\<exists>X. shmpi_gcd c g a b h = Inr (0, h(g := X)) \<and> mpi_val X = 0"
proof -
  have l: "a \<noteq> GA" "a \<noteq> GB" "b \<noteq> GA" "b \<noteq> GB" "g \<noteq> GA" "g \<noteq> GB" using assms(3-5) by auto
  have init: "h GA = shmpi_init" "h GB = shmpi_init" using assms(2) by (simp_all add: blank_local)
  then have h0: "gcd_blank h = h" by (auto simp: gcd_blank_def)
  have v0: "limbs_val (mp_p (h b)) = 0" using limbs_abs [OF assms(7)] assms(9) by simp
  have ir: "mpi_room shmpi_init" by (simp add: mpi_room_def shmpi_init_def)
  obtain A where A: "shmpi_copy c GA a h = Inr (0, h(GA := A))" "mpi_ok A" "limbs_val (mp_p A) = limbs_val (mp_p (h a))"
    using copy_room [where h = h and x = GA and y = a, OF assms(1,6)] init ir by auto
  define h1 where "h1 = h(GA := A)"
  have "mpi_ok (h1 b)" "mpi_room (h1 GB)" using assms(7) init ir l by (simp_all add: h1_def)
  then obtain B where B: "shmpi_copy c GB b h1 = Inr (0, h1(GB := B))" "mpi_ok B" "limbs_val (mp_p B) = 0"
    using copy_room [where h = h1 and x = GB and y = b, OF assms(1)] l v0 by (auto simp: h1_def)
  define h2 where "h2 = h1(GB := B)"
  have h2: "mpi_ok (h2 GA)" "mpi_ok (h2 GB)" "limbs_val (mp_p (h2 GB)) = 0" "blank_locals 4 h2"
    using A B blank_locals_mono [OF assms(2), of 4] by (simp_all add: h2_def h1_def)
  have m: "(if shmpi_lsb (h2 GB) < shmpi_lsb (h2 GA) then shmpi_lsb (h2 GB) else shmpi_lsb (h2 GA)) = 0" using lsb_zero [OF h2(3)] by simp
  obtain h3 where h3: "mpi_seq [shmpi_shift_r c GA 0, shmpi_shift_r c GB 0, set_sign GB 1, set_sign GA 1] h2 = Inr (0, h3)" "frame {GA, GB} h2 h3" "gcd_nums h3 (limbs_val (mp_p (h2 GA)) div 2 ^ 0) (0 div 2 ^ 0)"
    using gcd_start_ok [OF assms(1) h2(4,1,2) refl h2(3), of 0] by blast
  obtain h4 where h4: "gcd_loop c h3 = Inr (0, h4)" "frame {GA, GB} h3 h4" "gcd_nums h4 0 0" using gcd_loop_zero [OF assms(1)] h3(3) by fastforce
  have fr: "frame {GA, GB} h h4" using frame_trans [OF h3(2) h4(2)] by (auto simp: frame_def h2_def h1_def)
  have ok4: "mpi_ok (h4 GB)" "limbs_val (mp_p (h4 GB)) = 0" using h4(3) limbs_abs [of "h4 GB"] by (simp_all add: gcd_nums_def)
  have room: "shmpi_msb (h4 GB) + 0 \<le> 64 * MPI_MAX_LIMBS" using msb_val [of "h4 GB" 0] ok4(2) by simp
  obtain Y where Y: "shmpi_shift_l c GB 0 h4 = Inr (0, h4(GB := Y))" "mpi_ok Y" "limbs_val (mp_p Y) = 0"
    by (rule shift_l_ok [where h = h4 and x = GB and count = 0, OF assms(1) ok4(1) room]) (use ok4(2) in auto)
  have "h4 g = h g" using frameD [OF fr] l by simp
  then have "mpi_ok ((h4(GB := Y)) GB)" "mpi_room ((h4(GB := Y)) g)" using Y(2) assms(8) l by simp_all
  then obtain X where X: "shmpi_copy c g GB (h4(GB := Y)) = Inr (0, h4(GB := Y, g := X))" "mpi_val X = mpi_val Y"
    using copy_room [where h = "h4(GB := Y)" and x = g and y = GB, OF assms(1)] by auto
  have "shmpi_gcd c g a b h = Inr (0, gcd_blank (h4(GB := Y, g := X)))"
    using A(1) B(1) h4(1) X(1) Y(1) mpi_seq_append [OF h3(1), of "[gcd_loop c, shmpi_shift_l c GB 0, shmpi_copy c g GB]"] m
    unfolding h1_def [symmetric] h2_def [symmetric] by (simp add: shmpi_gcd_def h0 mpi_cleanup_def Let_def)
  moreover have "gcd_blank (h4(GB := Y, g := X)) = h(g := X)" using fr l init by (auto simp: gcd_blank_def frame_def fun_eq_iff)
  moreover have "mpi_val X = 0" using X(2) Y(3) by (simp add: mpi_val_def)
  ultimately show ?thesis by auto
qed

end
