(* ===== verification/Share_Mpi_Io.thy ===== *)
theory Share_Mpi_Io
  imports Share_Mpi_Gcd
begin

text \<open>
  The external forms of a multi-precision integer: big-endian bytes and texts in a radix from 2 to 16, both ways, and the round trips.
\<close>

section \<open>Definitions\<close>

definition BITS_TO_LIMBS :: "nat \<Rightarrow> nat" where "BITS_TO_LIMBS i = (i + 64 - 1) div 64"
definition CHARS_TO_LIMBS :: "nat \<Rightarrow> nat" where "CHARS_TO_LIMBS i = (i + 8 - 1) div 8"

subsection \<open>Bytes\<close>

text \<open>The loop over the bytes, the last one first: \<open>X->p[j / ciL] |= ((t_uint) buf[i - 1]) << ((j % ciL) << 3)\<close>.\<close>

fun read_bytes :: "nat \<Rightarrow> byte list \<Rightarrow> mvar \<Rightarrow> mop" where
  "read_bytes j [] x = mpi_ret 0"
| "read_bytes j (b # bs) x =
     mpi_chk (limb_upd x (j div 8) (\<lambda>l. l OR push_bit (j mod 8 * 8) (ucast b))) (read_bytes (j + 1) bs x)"

definition shmpi_read_binary :: "libc \<Rightarrow> mvar \<Rightarrow> byte list \<Rightarrow> mop" where
  "shmpi_read_binary c x buf =
     (let n = length (takeWhile (\<lambda>b. b = 0) buf) in
      mpi_seq [mpi_on x (shmpi_grow c (CHARS_TO_LIMBS (length buf - n))), shmpi_lset c x 0, read_bytes 0 (rev (drop n buf)) x])"

definition limb_byte :: "u64 list \<Rightarrow> nat \<Rightarrow> byte" where
  "limb_byte p j = ucast (drop_bit (j mod 8 * 8) (p ! (j div 8)))"

text \<open>The error code, and the content of the buffer when it was written.\<close>

definition shmpi_write_binary :: "shmpi \<Rightarrow> nat \<Rightarrow> int \<times> byte list option" where
  "shmpi_write_binary X buflen =
     (let n = shmpi_size X in
      if buflen < n then (ERR_BUFFER_TOO_SMALL, None)
      else (0, Some (replicate (buflen - n) 0 @ rev (map (limb_byte (mp_p X)) [0..<n]))))"

subsection \<open>Texts\<close>

abbreviation "ST \<equiv> Loc 4 0"

definition shmpi_get_digit :: "nat \<Rightarrow> byte \<Rightarrow> int \<times> nat" where
  "shmpi_get_digit radix ch =
     (let v = unat ch; d = 255;
          d = (if 48 \<le> v \<and> v \<le> 57 then v - 48 else d);
          d = (if 65 \<le> v \<and> v \<le> 70 then v - 55 else d);
          d = (if 97 \<le> v \<and> v \<le> 102 then v - 87 else d)
      in (if radix \<le> d then ERR_INVALID_CHARACTER else 0, d))"

text \<open>The loop for radix 16, over the characters from the last one; \<open>i\<close> is the length of the list.\<close>

fun hex_digits :: "nat \<Rightarrow> byte list \<Rightarrow> mvar \<Rightarrow> mop" where
  "hex_digits j [] x = mpi_ret 0"
| "hex_digits j (ch # chs) x =
     (if chs = [] \<and> ch = 45 then set_sign x (- 1)
      else case shmpi_get_digit 16 ch of (ret, d) \<Rightarrow>
        if ret \<noteq> 0 then mpi_ret ret
        else mpi_chk (limb_upd x (j div 16) (\<lambda>l. l OR push_bit (j mod 16 * 4) (of_nat d))) (hex_digits (j + 1) chs x))"

text \<open>The loop for the other radices; the first character may be a sign.\<close>

fun radix_digits :: "libc \<Rightarrow> nat \<Rightarrow> byte list \<Rightarrow> mvar \<Rightarrow> mop" where
  "radix_digits c radix [] x = mpi_ret 0"
| "radix_digits c radix (ch # chs) x =
     (case shmpi_get_digit radix ch of (ret, d) \<Rightarrow>
        if ret \<noteq> 0 then mpi_ret ret
        else mpi_seq [
          shmpi_mul_int c ST x (int radix),
          (\<lambda>h. if mp_s (h x) = 1 then shmpi_add_int c x ST (int d) h else shmpi_sub_int c x ST (int d) h),
          radix_digits c radix chs x])"

definition shmpi_read_string :: "libc \<Rightarrow> mvar \<Rightarrow> nat \<Rightarrow> byte list \<Rightarrow> mop" where
  "shmpi_read_string c x radix s h =
     (if radix < 2 \<or> 16 < radix then mpi_ret ERR_BAD_INPUT_DATA h
      else mpi_cleanup
        (if radix = 16
         then mpi_seq [mpi_on x (shmpi_grow c (BITS_TO_LIMBS (4 * length s))), shmpi_lset c x 0, hex_digits 0 (rev s) x]
         else mpi_chk (shmpi_lset c x 0)
           (if s \<noteq> [] \<and> hd s = 45 then mpi_chk (set_sign x (- 1)) (radix_digits c radix (tl s) x) else radix_digits c radix s x))
        (\<lambda>h. h(ST := shmpi_init)) (h(ST := shmpi_init)))"

definition digit_char :: "nat \<Rightarrow> byte" where
  "digit_char r = (if r < 10 then of_nat (r + 48) else of_nat (r + 55))"

text \<open>\<open>shmpi_write_hlp\<close>: the error code, the characters it writes, and the store.  The recursion goes on until the quotient is zero.\<close>

partial_function (option) write_hlp :: "libc \<Rightarrow> mvar \<Rightarrow> nat \<Rightarrow> mpis \<Rightarrow> (fault + (int \<times> byte list \<times> mpis)) option" where
  [code]: "write_hlp c x radix h =
     (if radix < 2 \<or> 16 < radix then Some (Inr (ERR_BAD_INPUT_DATA, [], h))
      else case shmpi_mod_int (h x) (int radix) of Inl e \<Rightarrow> Some (Inl e)
        | Inr (ret, r) \<Rightarrow> if ret \<noteq> 0 then Some (Inr (ret, [], h))
          else case shmpi_div_int c (Some x) None x (int radix) h of Inl e \<Rightarrow> Some (Inl e)
            | Inr (ret, h1) \<Rightarrow> if ret \<noteq> 0 then Some (Inr (ret, [], h1))
              else let d = digit_char (unat (the r)) in
                case shmpi_cmp_int (h1 x) 0 of Inl e \<Rightarrow> Some (Inl e)
                | Inr z \<Rightarrow> if z = 0 then Some (Inr (0, [d], h1))
                  else Option.bind (write_hlp c x radix h1) (\<lambda>res. case res of Inl e \<Rightarrow> Some (Inl e)
                    | Inr (ret, cs, h2) \<Rightarrow> if ret \<noteq> 0 then Some (Inr (ret, cs, h2)) else Some (Inr (0, cs @ [d], h2))))"

definition shmpi_write_hlp :: "libc \<Rightarrow> mvar \<Rightarrow> nat \<Rightarrow> mpis \<Rightarrow> fault + (int \<times> byte list \<times> mpis)" where
  "shmpi_write_hlp c x radix h = (case write_hlp c x radix h of None \<Rightarrow> Inl Diverge | Some r \<Rightarrow> r)"

text \<open>The bytes of the number from the highest one; the bytes before the first one that is not zero are left out, but for the last byte.\<close>

definition hex_bytes :: "u64 list \<Rightarrow> byte list" where
  "hex_bytes p =
     (let bs = map (limb_byte p) (rev [0..<8 * length p]) in
      if bs = [] then [] else dropWhile (\<lambda>b. b = 0) (butlast bs) @ [last bs])"

definition byte_hex :: "byte \<Rightarrow> byte list" where
  "byte_hex b = [digit_char (unat b div 16), digit_char (unat b mod 16)]"

text \<open>The length that the caller must provide.\<close>

definition string_size :: "nat \<Rightarrow> shmpi \<Rightarrow> nat" where
  "string_size radix X =
     (let n = shmpi_msb X; n = (if 4 \<le> radix then n div 2 else n); n = (if 16 \<le> radix then n div 2 else n) in n + 3)"

text \<open>The error code, the new value of \<open>*slen\<close>, the text, and the store.  \<open>s\<close> has \<open>*slen\<close> bytes: a longer text is written behind it.\<close>

definition shmpi_write_string :: "libc \<Rightarrow> mvar \<Rightarrow> nat \<Rightarrow> nat \<Rightarrow> mpis \<Rightarrow> fault + (int \<times> nat \<times> byte list \<times> mpis)" where
  "shmpi_write_string c x radix slen h =
     (if radix < 2 \<or> 16 < radix then Inr (ERR_BAD_INPUT_DATA, slen, [], h)
      else let n = string_size radix (h x); sign = (if mp_s (h x) = - 1 then [45] else []) in
        if slen < n then Inr (ERR_BUFFER_TOO_SMALL, n, [], h)
        else run_bind
          (if radix = 16 then Inr (0, concat (map byte_hex (hex_bytes (mp_p (h x)))), h)
           else run_bind (mpi_seq [shmpi_copy c ST x, (\<lambda>h. if mp_s (h ST) = - 1 then set_sign ST 1 h else mpi_ret 0 h)] (h(ST := shmpi_init)))
             (\<lambda>(ret, h1). if ret \<noteq> 0 then Inr (ret, [], h1) else shmpi_write_hlp c ST radix h1))
          (\<lambda>(ret, cs, h1).
            if ret \<noteq> 0 then Inr (ret, slen, sign, h1(ST := shmpi_init))
            else let s = sign @ cs @ [0] in
              if slen < length s then Inl OutOfBounds else Inr (0, length s, s, h1(ST := shmpi_init))))"

section \<open>Digits of a power of two\<close>

text \<open>A digit of \<open>w\<close> bits above all that is set so far.\<close>

lemma put_digit:
  assumes "k * w = 64" "limbs_val p < 2 ^ (w * j)" "j div k < length p" "unat (d :: u64) < 2 ^ w"
  shows "limbs_val (p[j div k := p ! (j div k) OR push_bit (j mod k * w) d]) = limbs_val p + unat d * 2 ^ (w * j)"
proof -
  define i where "i = j div k"
  define t where "t = j mod k * w"
  have k: "0 < k" "0 < w" using assms(1) by (auto intro: Nat.gr0I)
  have "w * j = w * (k * i + j mod k)" by (simp add: i_def)
  also have "\<dots> = 64 * i + t" using assms(1) by (simp add: t_def algebra_simps)
  finally have wj: "w * j = 64 * i + t" .
  have b: "limb_base ^ i = 2 ^ (64 * i)" by (simp only: limb_base_def power_mult)
  have tw: "t + w \<le> 64"
  proof -
    have "(j mod k + 1) * w \<le> k * w" using k by (intro mult_le_mono1) (simp add: Suc_le_eq)
    then show ?thesis using assms(1) by (simp add: t_def)
  qed
  have low: "unat (p ! i) < 2 ^ t"
  proof -
    have "limbs_val (drop i p) < 2 ^ t"
      unfolding limbs_val_drop b using assms(2) unfolding wj power_add by (simp add: less_mult_imp_div_less mult.commute)
    moreover have "drop i p = p ! i # drop (Suc i) p" using assms(3) by (simp add: i_def Cons_nth_drop_Suc)
    ultimately show ?thesis by simp
  qed
  have "unat d * 2 ^ t < 2 ^ w * 2 ^ t" using assms(4) by simp
  also have "\<dots> = 2 ^ (t + w)" by (simp add: power_add mult.commute)
  also have "\<dots> \<le> 2 ^ 64" using tw by (rule power_increasing) simp
  finally have "unat d * 2 ^ t < 2 ^ 64" .
  moreover have "unat (push_bit t d) = unat d * 2 ^ t mod 2 ^ 64"
  proof -
    have "unat (push_bit t d) = take_bit LENGTH(64) (push_bit t (unat d))" by (rule unsigned_push_bit_eq)
    then show ?thesis by (simp only: take_bit_eq_mod push_bit_eq_mult) simp
  qed
  ultimately have "unat (push_bit t d) = unat d * 2 ^ t" by simp
  then have "unat (p ! i OR push_bit t d) = unat d * 2 ^ t + unat (p ! i)" using unat_or_low [OF low, of d] by (simp add: or.commute)
  then show ?thesis using limbs_val_upd [OF assms(3), of "p ! i OR push_bit t d"]
    unfolding i_def [symmetric] t_def [symmetric] wj power_add b by (simp add: algebra_simps)
qed

section \<open>Bytes\<close>

definition be_val :: "byte list \<Rightarrow> nat" where
  "be_val bs = foldr (\<lambda>b v. unat b + 256 * v) (rev bs) 0"

lemma read_bytes_ok:
  assumes "length bs + j \<le> 8 * length (mp_p (h x))" "limbs_val (mp_p (h x)) < 256 ^ j"
  shows "\<exists>p. read_bytes j bs x h = Inr (0, h(x := (h x)\<lparr>mp_p := p\<rparr>)) \<and> length p = length (mp_p (h x)) \<and>
    limbs_val p = limbs_val (mp_p (h x)) + 256 ^ j * foldr (\<lambda>b v. unat b + 256 * v) bs 0"
  using assms
proof (induction bs arbitrary: j h)
  case Nil
  then show ?case by (intro exI [of _ "mp_p (h x)"]) (simp add: mpi_ret_def)
next
  case (Cons b bs)
  let ?p = "mp_p (h x)"
  define q where "q = ?p[j div 8 := ?p ! (j div 8) OR push_bit (j mod 8 * 8) (ucast b)]"
  have i: "j div 8 < length ?p" using Cons.prems(1) by (simp add: less_mult_imp_div_less)
  have pw: "(256 :: nat) ^ j = 2 ^ (8 * j)" by (simp add: power_mult)
  have b: "unat (ucast b :: u64) = unat b" "unat b < 2 ^ 8" using unsigned_less [of b, where 'a = nat] by (simp_all add: unsigned_ucast_eq take_bit_nat_eq_self)
  have q: "limbs_val q = limbs_val ?p + unat b * 256 ^ j" "length q = length ?p"
    using put_digit [of 8 8 ?p j "ucast b"] Cons.prems(2) i b unfolding pw by (simp_all add: q_def)
  define h1 where "h1 = h(x := (h x)\<lparr>mp_p := q\<rparr>)"
  have "limbs_val q < 256 ^ Suc j"
  proof -
    have "limbs_val ?p + unat b * 256 ^ j < 256 ^ j + 255 * 256 ^ j" using Cons.prems(2) b(2) by (intro add_less_le_mono mult_le_mono1) simp_all
    then show ?thesis by (simp add: q(1))
  qed
  then obtain p where p: "read_bytes (j + 1) bs x h1 = Inr (0, h1(x := (h1 x)\<lparr>mp_p := p\<rparr>))" "length p = length q"
      "limbs_val p = limbs_val q + 256 ^ (j + 1) * foldr (\<lambda>b v. unat b + 256 * v) bs 0"
  proof -
    have h1x: "mp_p (h1 x) = q" by (simp add: h1_def)
    have "length bs + (j + 1) \<le> 8 * length (mp_p (h1 x))" using Cons.prems(1) q(2) by (simp add: h1x)
    moreover assume "limbs_val q < 256 ^ Suc j"
    then have "limbs_val (mp_p (h1 x)) < 256 ^ (j + 1)" by (simp add: h1x)
    ultimately show ?thesis using Cons.IH [where j = "j + 1" and h = h1] that unfolding h1x by blast
  qed
  have "read_bytes j (b # bs) x h = Inr (0, h(x := (h x)\<lparr>mp_p := p\<rparr>))"
    using p(1) i by (simp add: limb_upd_def mpi_chk_def h1_def q_def)
  moreover have "limbs_val p = limbs_val ?p + 256 ^ j * foldr (\<lambda>b v. unat b + 256 * v) (b # bs) 0" by (simp add: p(3) q(1) algebra_simps)
  ultimately show ?case using p(2) q(2) by metis
qed

lemma be_lead: "be_val (drop (length (takeWhile (\<lambda>b. b = 0) buf)) buf) = be_val buf"
proof (induction buf)
  case (Cons b bs)
  have "be_val (0 # bs) = be_val bs" by (simp add: be_val_def)
  then show ?case using Cons.IH by simp
qed simp

lemma read_binary_ok:
  assumes "libc_total c" "mpi_room (h x)" "length buf \<le> 8 * MPI_MAX_LIMBS"
  shows "\<exists>X. shmpi_read_binary c x buf h = Inr (0, h(x := X)) \<and> mpi_ok X \<and> mpi_val X = int (be_val buf) \<and>
    mp_p X \<noteq> [] \<and> length (mp_p X) \<le> max 1 (max (length (mp_p (h x))) (CHARS_TO_LIMBS (length buf)))"
proof -
  define n where "n = length (takeWhile (\<lambda>b. b = 0) buf)"
  define m where "m = CHARS_TO_LIMBS (length buf - n)"
  have m: "m \<le> MPI_MAX_LIMBS" "length buf - n \<le> 8 * m" using assms(3) by (simp_all add: m_def CHARS_TO_LIMBS_def)
  define X0 where "X0 = (h x)\<lparr>mp_p := mp_p (h x) @ replicate (m - length (mp_p (h x))) 0\<rparr>"
  have X0: "mpi_on x (shmpi_grow c m) h = Inr (0, h(x := X0))" "mpi_room X0" "m \<le> length (mp_p X0)" "length (mp_p X0) = max (length (mp_p (h x))) m"
    using on_grow [OF assms(1) m(1)] assms(2) m(1) by (simp_all add: X0_def mpi_room_def)
  have "mpi_room ((h(x := X0)) x)" using X0(2) by simp
  then obtain X1 where X1: "shmpi_lset c x 0 (h(x := X0)) = Inr (0, h(x := X1))" "mpi_ok X1" "limbs_val (mp_p X1) = 0" "length (mp_p X1) = max 1 (length (mp_p X0))" "mp_s X1 = 1"
    using lset_room [where h = "h(x := X0)" and x = x and z = 0, OF assms(1)] by (auto simp: sint_sign_def)
  obtain p where p: "read_bytes 0 (rev (drop n buf)) x (h(x := X1)) = Inr (0, h(x := X1\<lparr>mp_p := p\<rparr>))" "length p = length (mp_p X1)"
      "limbs_val p = be_val (drop n buf)"
  proof -
    have "length (rev (drop n buf)) + 0 \<le> 8 * length (mp_p ((h(x := X1)) x))" using X1(4) X0(3) m(2) by simp
    from read_bytes_ok [where h = "h(x := X1)" and x = x, OF this] show ?thesis using that X1(3) by (auto simp: be_val_def)
  qed
  have "shmpi_read_binary c x buf h = Inr (0, h(x := X1\<lparr>mp_p := p\<rparr>))"
    using X0(1) X1(1) p(1) by (simp add: shmpi_read_binary_def Let_def flip: n_def m_def)
  moreover have "m \<le> CHARS_TO_LIMBS (length buf)" unfolding m_def CHARS_TO_LIMBS_def by (intro div_le_mono) simp
  then have "p \<noteq> []" "length p \<le> max 1 (max (length (mp_p (h x))) (CHARS_TO_LIMBS (length buf)))" using p(2) X1(4) X0(4) by auto
  ultimately show ?thesis using X1(2,5) p(2,3) be_lead [of buf] by (intro exI [of _ "X1\<lparr>mp_p := p\<rparr>"]) (auto simp: mpi_ok_def mpi_val_def n_def)
qed

text \<open>The bytes of a number, the lowest first.\<close>

lemma limb_byte_val:
  assumes "j < 8 * length p"
  shows "unat (limb_byte p j) = limbs_val p div 256 ^ j mod 256"
proof -
  let ?i = "j div 8" and ?r = "j mod 8"
  have i: "?i < length p" using assms by (simp add: less_mult_imp_div_less)
  have b: "limb_base ^ ?i = 256 ^ (8 * ?i)" by (simp add: limb_base_def power_mult)
  have "limbs_val p div 256 ^ j = limbs_val p div limb_base ^ ?i div 256 ^ ?r"
    unfolding b by (simp add: div_mult2_eq [symmetric] power_add [symmetric])
  also have "\<dots> = (unat (p ! ?i) + limb_base * limbs_val (drop (Suc ?i) p)) div 256 ^ ?r"
    unfolding limbs_val_drop [symmetric] Cons_nth_drop_Suc [OF i, symmetric] by simp
  also have "\<dots> mod 256 = unat (p ! ?i) div 256 ^ ?r mod 256"
  proof -
    have "limb_base = 256 ^ ?r * (256 * 256 ^ (7 - ?r))"
    proof -
      have "?r + (1 + (7 - ?r)) = 8" using mod_less_divisor [of 8 j] by simp
      then have "256 ^ ?r * (256 ^ 1 * 256 ^ (7 - ?r)) = (256 :: nat) ^ 8" by (simp only: power_add [symmetric])
      then show ?thesis by (simp add: limb_base_def)
    qed
    then have e: "limb_base * limbs_val (drop (Suc ?i) p) = 256 ^ ?r * (256 * (256 ^ (7 - ?r) * limbs_val (drop (Suc ?i) p)))" by (metis mult.assoc)
    have "(a + 256 ^ ?r * (256 * y)) div 256 ^ ?r mod 256 = a div 256 ^ ?r mod 256" for a y :: nat by simp
    then show ?thesis unfolding e .
  qed
  also have "\<dots> = unat (limb_byte p j)"
  proof -
    have "(256 :: nat) ^ ?r = 2 ^ (?r * 8)" by (simp add: power_mult mult.commute)
    then show ?thesis by (simp only: limb_byte_def unsigned_ucast_eq take_bit_eq_mod unat_drop_div) simp
  qed
  finally show ?thesis by simp
qed

lemma le_bytes: "n \<le> 8 * length p \<Longrightarrow> foldr (\<lambda>b v. unat b + 256 * v) (map (limb_byte p) [0..<n]) 0 = limbs_val p mod 256 ^ n"
proof -
  have *: "i + k \<le> 8 * length p \<Longrightarrow> foldr (\<lambda>b v. unat b + 256 * v) (map (limb_byte p) [i..<i + k]) 0 = limbs_val p div 256 ^ i mod 256 ^ k" for i k
  proof (induction k arbitrary: i)
    case (Suc k)
    have "[i..<i + Suc k] = i # [Suc i..<Suc i + k]" by (simp add: upt_conv_Cons)
    moreover have "limbs_val p div 256 ^ i mod 256 ^ Suc k = limbs_val p div 256 ^ i mod 256 + 256 * (limbs_val p div 256 ^ Suc i mod 256 ^ k)"
    proof -
      have "limbs_val p div 256 ^ Suc i = limbs_val p div 256 ^ i div 256" by (simp only: power_Suc2 div_mult2_eq)
      moreover have "a mod 256 ^ Suc k = 256 * (a div 256 mod 256 ^ k) + a mod 256" for a :: nat by (simp only: power_Suc mod_mult2_eq)
      ultimately show ?thesis by (simp only: add.commute)
    qed
    ultimately show ?case using Suc.IH [of "Suc i"] Suc.prems limb_byte_val [of i p] by simp
  qed simp
  show "n \<le> 8 * length p \<Longrightarrow> foldr (\<lambda>b v. unat b + 256 * v) (map (limb_byte p) [0..<n]) 0 = limbs_val p mod 256 ^ n" using * [of 0 n] by simp
qed

lemma size_bounds: "shmpi_size X \<le> 8 * length (mp_p X)" "limbs_val (mp_p X) < 256 ^ shmpi_size X"
proof -
  have "limbs_val (mp_p X) < 2 ^ (64 * length (mp_p X))" using limbs_val_lt [of "mp_p X"] by (simp only: limb_base_def power_mult)
  then have "shmpi_msb X \<le> 64 * length (mp_p X)" by (simp only: msb_val)
  then show "shmpi_size X \<le> 8 * length (mp_p X)" by (simp add: shmpi_size_def)
  have "shmpi_msb X \<le> 8 * shmpi_size X" by (simp add: shmpi_size_def)
  then have "limbs_val (mp_p X) < 2 ^ (8 * shmpi_size X)" by (simp only: msb_val)
  then show "limbs_val (mp_p X) < 256 ^ shmpi_size X" by (simp add: power_mult)
qed

lemma write_binary_ok:
  assumes "shmpi_size X \<le> buflen"
  shows "\<exists>buf. shmpi_write_binary X buflen = (0, Some buf) \<and> length buf = buflen \<and> be_val buf = limbs_val (mp_p X)"
proof -
  let ?n = "shmpi_size X"
  define buf where "buf = replicate (buflen - ?n) 0 @ rev (map (limb_byte (mp_p X)) [0..<?n])"
  have z: "be_val (replicate k 0 @ bs) = be_val bs" for k bs
  proof (induction k)
    case (Suc k)
    have "be_val (0 # bs) = be_val bs" for bs by (simp add: be_val_def)
    then show ?case using Suc by simp
  qed simp
  have "be_val buf = limbs_val (mp_p X)"
    unfolding buf_def z using le_bytes [OF size_bounds(1), of X] size_bounds(2) [of X] by (simp add: be_val_def)
  moreover have "shmpi_write_binary X buflen = (0, Some buf)" using assms by (simp add: shmpi_write_binary_def buf_def Let_def)
  ultimately show ?thesis using assms by (simp add: buf_def)
qed

end
