(* ===== verification/Share_Mpi_Text.thy ===== *)
theory Share_Mpi_Text
  imports Share_Mpi_Io
begin

text \<open>
  The texts of multi-precision integers: what the writer gives, that its size computation is enough for it but for negative numbers in
  radix 16, and that the reader gives the number back.
\<close>

section \<open>Digits\<close>

lemma unat_digit_char:
  assumes "d < 16"
  shows "unat (digit_char d) = (if d < 10 then d + 48 else d + 55)"
proof -
  have u: "unat (of_nat n :: byte) = n" if "n < 256" for n using that by (simp add: unat_of_nat)
  have "unat (of_nat (d + 48) :: byte) = d + 48" by (rule u) (use assms in simp)
  moreover have "unat (of_nat (d + 55) :: byte) = d + 55" by (rule u) (use assms in simp)
  ultimately show ?thesis unfolding digit_char_def by (cases "d < 10") (simp_all only: if_True if_False)
qed

lemma get_digit_char: "d < radix \<Longrightarrow> radix \<le> 16 \<Longrightarrow> shmpi_get_digit radix (digit_char d) = (0, d)"
proof -
  assume d: "d < radix" "radix \<le> 16"
  have u: "unat (digit_char d) = (if d < 10 then d + 48 else d + 55)" using d by (intro unat_digit_char) simp
  show ?thesis using d unfolding shmpi_get_digit_def Let_def u by auto
qed

lemma digit_char_sign: "d < 16 \<Longrightarrow> digit_char d \<noteq> 45"
proof
  assume d: "d < 16" "digit_char d = 45"
  have "unat (digit_char d) = (if d < 10 then d + 48 else d + 55)" using d(1) by (rule unat_digit_char)
  then show False using d(2) by (simp split: if_splits)
qed

text \<open>The number of a list of digits, the highest first.\<close>

definition radix_val :: "nat \<Rightarrow> nat list \<Rightarrow> nat" where
  "radix_val radix ds = foldl (\<lambda>v d. v * radix + d) 0 ds"

lemma radix_val_snoc [simp]: "radix_val r (ds @ [d]) = radix_val r ds * r + d"
  by (simp add: radix_val_def)

lemma radix_val_Nil [simp]: "radix_val r [] = 0"
  by (simp add: radix_val_def)

section \<open>Writing\<close>

text \<open>The digits of a number without a leading zero.\<close>

definition digits_of :: "nat \<Rightarrow> nat \<Rightarrow> nat list \<Rightarrow> bool" where
  "digits_of radix v ds \<longleftrightarrow> (\<forall>d\<in>set ds. d < radix) \<and> radix_val radix ds = v \<and> ds \<noteq> [] \<and> (length ds = 1 \<or> radix ^ (length ds - 1) \<le> v)"

lemma digits_of_one: "v < radix \<Longrightarrow> digits_of radix v [v]"
  by (simp add: digits_of_def radix_val_def)

lemma digits_of_snoc:
  assumes "digits_of radix (v div radix) ds" "v div radix \<noteq> 0" "0 < radix"
  shows "digits_of radix v (ds @ [v mod radix])"
proof -
  have "radix ^ length ds \<le> v"
  proof -
    have "radix ^ (length ds - 1) \<le> v div radix" using assms(1,2) by (auto simp: digits_of_def)
    then have "radix ^ (length ds - 1) * radix \<le> v div radix * radix" by (rule mult_le_mono1)
    also have "\<dots> \<le> v" by simp
    finally show ?thesis using assms(1) by (cases ds) (simp_all add: digits_of_def mult.commute)
  qed
  then show ?thesis using assms(1,3) by (auto simp: digits_of_def)
qed

lemma write_hlp_ok:
  assumes "libc_total c" "2 \<le> radix" "radix \<le> 16" "outer_var 4 x"
  shows "blank_locals 4 h \<Longrightarrow> mpi_ok (h x) \<Longrightarrow> mp_s (h x) = 1 \<Longrightarrow> mp_p (h x) \<noteq> [] \<Longrightarrow> length (mp_p (h x)) + 3 < MPI_MAX_LIMBS \<Longrightarrow> limbs_val (mp_p (h x)) = v \<Longrightarrow>
    \<exists>ds h'. write_hlp c x radix h = Some (Inr (0, map digit_char ds, h')) \<and> frame {x} h h' \<and> digits_of radix v ds"
proof (induction v arbitrary: h rule: less_induct)
  case (less v)
  have val: "mpi_val (h x) = int v" using less.prems(3,6) by (simp add: mpi_val_def)
  have rd: "0 < int radix" "int radix \<le> 2 ^ 32" "int radix \<noteq> 0" "- (2 ^ 63) < int radix" "int radix < 2 ^ 63" using assms(2,3) by simp_all
  obtain r where r: "shmpi_mod_int (h x) (int radix) = Inr (0, Some r)" "uint r = int v mod int radix"
    using mod_int_ok [OF less.prems(2) rd(1,2)] less.prems(4) val by auto
  have ur: "unat r = v mod radix" using r(2) by (metis nat_int of_nat_mod unat_eq_nat_uint)
  have "\<exists>h1. shmpi_div_int c (Some x) None x (int radix) h = Inr (0, h1) \<and> div_int_result (Some x) None x (int radix) h h1"
    by (rule div_int_ok [OF assms(1) less.prems(1) assms(4) less.prems(2,5) rd(3-5)]) (use less.prems(2,3) rd(1) assms(4) in auto)
  then obtain h1 where h1: "shmpi_div_int c (Some x) None x (int radix) h = Inr (0, h1)" "div_int_result (Some x) None x (int radix) h h1" by blast
  have res: "frame {x} h h1" "mpi_ok (h1 x)" "mpi_val (h1 x) = int (v div radix)" "length (mp_p (h1 x)) \<le> max (length (mp_p (h x))) (max 1 (used_limbs (mp_p (h1 x))))"
    using h1(2) val rd(1) by (auto simp: div_int_result_def result_cell_def signed_divide_int_def sgn_if zdiv_int)
  have z: "shmpi_cmp_int (h1 x) 0 = Inr (sgn (int (v div radix)))" using cmp_zero [OF res(2)] res(3) by simp
  have unf: "write_hlp c x radix h = (if v div radix = 0 then Some (Inr (0, [digit_char (v mod radix)], h1))
      else Option.bind (write_hlp c x radix h1) (\<lambda>res. case res of Inl e \<Rightarrow> Some (Inl e)
        | Inr (ret, cs, h2) \<Rightarrow> if ret \<noteq> 0 then Some (Inr (ret, cs, h2)) else Some (Inr (0, cs @ [digit_char (v mod radix)], h2))))"
    using assms(2,3) r(1) h1(1) z ur by (subst write_hlp.simps) (simp add: Let_def cong del: sum.case_cong_weak if_weak_cong)
  show ?case
  proof (cases "v div radix = 0")
    case True
    then have "v < radix" using assms(2) by (simp add: div_eq_0_iff)
    then show ?thesis using unf True res(1) digits_of_one by (intro exI [of _ "[v]"] exI [of _ h1]) simp
  next
    case False
    then have lt: "v div radix < v" using assms(2) by (intro div_less_dividend) (auto intro: ccontr)
    have l1: "limbs_val (mp_p (h1 x)) = v div radix" using limbs_abs [OF res(2)] res(3) by simp
    then have p1: "mp_p (h1 x) \<noteq> []" "mp_s (h1 x) = 1" using False res(2,3) by (auto simp: mpi_ok_def mpi_val_def)
    have b1: "blank_locals 4 h1" by (rule frame_blank [OF res(1) _ less.prems(1)]) (use assms(4) in simp)
    have "used_limbs (mp_p (h1 x)) \<le> length (mp_p (h x))"
    proof -
      have "limbs_val (mp_p (h1 x)) \<le> limbs_val (mp_p (h x))" using l1 lt less.prems(6) by simp
      from le_less_trans [OF this limbs_val_lt] show ?thesis by (simp only: used_limbs_le_iff)
    qed
    then have "length (mp_p (h1 x)) + 3 < MPI_MAX_LIMBS" using res(4) less.prems(4,5) by (cases "mp_p (h x)") auto
    then obtain ds h2 where "write_hlp c x radix h1 = Some (Inr (0, map digit_char ds, h2))" "frame {x} h1 h2" "digits_of radix (v div radix) ds"
      using less.IH [OF lt b1 res(2) p1(2,1) _ l1] by blast
    then show ?thesis using unf False frame_trans [OF res(1)] digits_of_snoc [of radix v ds] assms(2)
      by (intro exI [of _ "ds @ [v mod radix]"] exI [of _ h2]) simp
  qed
qed

lemma digits_length:
  assumes "digits_of radix v ds" "2 \<le> radix" "v < 2 ^ b" "radix < 16"
  shows "length ds \<le> (let n = b; n = (if 4 \<le> radix then n div 2 else n); n = (if 16 \<le> radix then n div 2 else n) in n + 1)"
proof (cases "length ds = 1")
  case False
  define k where "k = length ds - 1"
  have k: "length ds = k + 1" "radix ^ k \<le> v" using assms(1) False by (auto simp: digits_of_def k_def)
  show ?thesis
  proof (cases "4 \<le> radix")
    case True
    have "(2 :: nat) ^ (2 * k) = 4 ^ k" by (simp add: power_mult)
    also have "\<dots> \<le> radix ^ k" using True by (intro power_mono) simp_all
    finally have "(2 :: nat) ^ (2 * k) < 2 ^ b" using k(2) assms(3) by linarith
    then have "2 * k < b" by simp
    then show ?thesis using True assms(4) k(1) by simp
  next
    case False
    have "(2 :: nat) ^ k \<le> radix ^ k" using assms(2) by (intro power_mono) simp_all
    then have "(2 :: nat) ^ k < 2 ^ b" using k(2) assms(3) by linarith
    then have "k < b" by simp
    then show ?thesis using False assms(4) k(1) by simp
  qed
qed (simp add: Let_def)

text \<open>What the writer gives when the buffer is large enough.\<close>

definition sign_text :: "shmpi \<Rightarrow> byte list" where
  "sign_text X = (if mp_s X = - 1 then [45] else [])"

lemma write_radix_ok:
  assumes "libc_total c" "2 \<le> radix" "radix < 16" "blank_locals 5 h" "outer_var 5 x" "mpi_ok (h x)" "mp_p (h x) \<noteq> []" "length (mp_p (h x)) + 3 < MPI_MAX_LIMBS" "string_size radix (h x) \<le> slen"
  shows "\<exists>ds. shmpi_write_string c x radix slen h = Inr (0, length (sign_text (h x)) + length ds + 1, sign_text (h x) @ map digit_char ds @ [0], h) \<and>
    digits_of radix (limbs_val (mp_p (h x))) ds"
proof -
  let ?v = "limbs_val (mp_p (h x))"
  have st: "h ST = shmpi_init" "x \<noteq> ST" using assms(4,5) by (auto simp: blank_local)
  then have h0: "h(ST := shmpi_init) = h" by auto
  have "mpi_room (h ST)" by (simp add: st(1) mpi_room_def shmpi_init_def)
  then obtain T where T: "shmpi_copy c ST x h = Inr (0, h(ST := T))" "mpi_ok T" "limbs_val (mp_p T) = ?v" "mp_p T \<noteq> []" "length (mp_p T) \<le> max (length (mp_p (h ST))) (max 1 (used_limbs (mp_p (h x))))"
    using copy_room [where h = h and x = ST and y = x, OF assms(1,6)] assms(7) by blast
  define h1 where "h1 = h(ST := T\<lparr>mp_s := 1\<rparr>)"
  have c1: "mpi_seq [shmpi_copy c ST x, (\<lambda>h. if mp_s (h ST) = - 1 then set_sign ST 1 h else mpi_ret 0 h)] h = Inr (0, h1)"
    using T(1,2) by (auto simp: set_sign_def mpi_do_def mpi_ret_def h1_def mpi_ok_def)
  have t1: "blank_locals 4 h1" "mpi_ok (h1 ST)" "mp_s (h1 ST) = 1" "mp_p (h1 ST) \<noteq> []" "length (mp_p (h1 ST)) + 3 < MPI_MAX_LIMBS" "limbs_val (mp_p (h1 ST)) = ?v"
    using T(2-5) assms(8) used_limbs_le [of "mp_p (h x)"] blank_locals_mono [OF assms(4), of 4] by (auto simp: h1_def mpi_ok_def st(1) shmpi_init_def MPI_MAX_LIMBS_def)
  have r16: "radix \<le> 16" "outer_var 4 ST" using assms(3) by simp_all
  obtain ds h2 where w: "write_hlp c ST radix h1 = Some (Inr (0, map digit_char ds, h2))" "frame {ST} h1 h2" "digits_of radix ?v ds"
    using write_hlp_ok [OF assms(1,2) r16 t1] by blast
  have h2: "h2(ST := shmpi_init) = h" using frame_one [OF w(2)] st by (auto simp: h1_def fun_eq_iff)
  have "?v < 2 ^ shmpi_msb (h x)" by (simp add: msb_val)
  note len = digits_length [OF w(3) assms(2) this assms(3)]
  have "length (sign_text (h x) @ map digit_char ds @ [0]) \<le> slen" using len assms(9) by (simp add: sign_text_def string_size_def Let_def)
  then have "shmpi_write_string c x radix slen h = Inr (0, length (sign_text (h x) @ map digit_char ds @ [0]), sign_text (h x) @ map digit_char ds @ [0], h)"
    using assms(2,3,9) c1 w(1) h2 unfolding shmpi_write_string_def h0 by (simp add: sign_text_def shmpi_write_hlp_def Let_def not_less)
  then show ?thesis using w(3) by (intro exI [of _ ds]) simp
qed

section \<open>Hexadecimal texts\<close>

lemma be_val_append: "be_val (xs @ ys) = be_val xs * 256 ^ length ys + be_val ys"
proof (induction ys rule: rev_induct)
  case (snoc y ys)
  have "be_val (zs @ [y]) = unat y + 256 * be_val zs" for zs by (simp add: be_val_def)
  then show ?case using snoc by (simp flip: append_assoc add: algebra_simps)
qed (simp add: be_val_def)

lemma be_val_drop: "be_val (dropWhile (\<lambda>b. b = 0) bs) = be_val bs"
proof (induction bs)
  case (Cons b bs)
  have "be_val (0 # bs) = be_val bs" by (simp add: be_val_def)
  then show ?case using Cons by simp
qed simp

lemma be_val_le: "bs \<noteq> [] \<Longrightarrow> hd bs \<noteq> 0 \<Longrightarrow> 256 ^ (length bs - 1) \<le> be_val bs"
proof (cases bs)
  case (Cons b cs)
  assume "hd bs \<noteq> 0"
  then have "1 \<le> unat b" using Cons by (simp add: Suc_le_eq unat_gt_0)
  then have "1 * 256 ^ length cs \<le> unat b * 256 ^ length cs" by (rule mult_le_mono1)
  moreover have "be_val bs = unat b * 256 ^ length cs + be_val cs" using be_val_append [of "[b]" cs] by (simp add: Cons be_val_def)
  ultimately show ?thesis by (simp add: Cons trans_le_add1)
qed simp

lemma be_val_lt: "be_val bs < 256 ^ length bs"
proof (induction bs rule: rev_induct)
  case (snoc b bs)
  have "be_val (bs @ [b]) = unat b + 256 * be_val bs" by (simp add: be_val_def)
  moreover have "unat b < 256" using unsigned_less [of b, where 'a = nat] by simp
  ultimately show ?case using snoc by simp
qed (simp add: be_val_def)

lemma hex_bytes_val:
  assumes "p \<noteq> []"
  shows "be_val (hex_bytes p) = limbs_val p" "hex_bytes p \<noteq> []" "length (hex_bytes p) = 1 \<or> 256 ^ (length (hex_bytes p) - 1) \<le> limbs_val p"
proof -
  define bs where "bs = map (limb_byte p) (rev [0..<8 * length p])"
  have ne: "bs \<noteq> []" using assms by (simp add: bs_def)
  then have hb: "hex_bytes p = dropWhile (\<lambda>b. b = 0) (butlast bs) @ [last bs]" by (simp add: hex_bytes_def Let_def flip: bs_def)
  have "limbs_val p < 256 ^ (8 * length p)"
  proof -
    have "(256 :: nat) ^ (8 * length p) = limb_base ^ length p" by (simp add: limb_base_def power_mult)
    then show ?thesis using limbs_val_lt [of p] by (simp only:)
  qed
  then have "be_val bs = limbs_val p" using le_bytes [of "8 * length p" p] by (simp add: be_val_def bs_def rev_map)
  then have "be_val (butlast bs @ [last bs]) = limbs_val p" using ne by simp
  then show v: "be_val (hex_bytes p) = limbs_val p" unfolding hb be_val_append be_val_drop .
  show "hex_bytes p \<noteq> []" by (simp add: hb)
  show "length (hex_bytes p) = 1 \<or> 256 ^ (length (hex_bytes p) - 1) \<le> limbs_val p"
  proof (cases "dropWhile (\<lambda>b. b = 0) (butlast bs)")
    case Nil
    then show ?thesis by (simp add: hb)
  next
    case (Cons b cs)
    then have "b \<noteq> 0" by (simp add: dropWhile_eq_Cons_conv)
    then show ?thesis using be_val_le [of "hex_bytes p"] Cons v by (simp add: hb)
  qed
qed

text \<open>The text as digits: two for each byte.\<close>

definition byte_digits :: "byte list \<Rightarrow> nat list" where
  "byte_digits bs = concat (map (\<lambda>b. [unat b div 16, unat b mod 16]) bs)"

lemma byte_digits_text: "concat (map byte_hex bs) = map digit_char (byte_digits bs)"
  by (induction bs) (simp_all add: byte_digits_def byte_hex_def)

lemma byte_digits_val: "radix_val 16 (byte_digits bs) = be_val bs" "\<forall>d\<in>set (byte_digits bs). d < 16" "length (byte_digits bs) = 2 * length bs"
proof -
  show "radix_val 16 (byte_digits bs) = be_val bs"
  proof (induction bs rule: rev_induct)
    case (snoc b bs)
    have "byte_digits (bs @ [b]) = (byte_digits bs @ [unat b div 16]) @ [unat b mod 16]" by (simp add: byte_digits_def)
    moreover have "be_val (bs @ [b]) = unat b + 256 * be_val bs" by (simp add: be_val_def)
    moreover have "(be_val bs * 16 + unat b div 16) * 16 + unat b mod 16 = unat b + 256 * be_val bs" using div_mult_mod_eq [of "unat b" 16] by (simp add: algebra_simps)
    ultimately show ?case using snoc by (simp only: radix_val_snoc)
  qed (simp add: byte_digits_def be_val_def)
  show "\<forall>d\<in>set (byte_digits bs). d < 16"
  proof -
    have "unat b div 16 < 16" for b :: byte using unsigned_less [of b, where 'a = nat] by simp
    then show ?thesis by (auto simp: byte_digits_def)
  qed
  show "length (byte_digits bs) = 2 * length bs" by (induction bs) (simp_all add: byte_digits_def)
qed

text \<open>The digits of a text: none is too large, and together they are the number.\<close>

definition text_digits :: "nat \<Rightarrow> nat \<Rightarrow> nat list \<Rightarrow> bool" where
  "text_digits radix v ds \<longleftrightarrow> (\<forall>d\<in>set ds. d < radix) \<and> radix_val radix ds = v \<and> ds \<noteq> [] \<and> (radix \<noteq> 16 \<longrightarrow> digits_of radix v ds)"

lemma hex_length:
  assumes "mp_p X \<noteq> []"
  shows "2 * length (hex_bytes (mp_p X)) + 1 \<le> string_size 16 X"
proof (cases "length (hex_bytes (mp_p X)) = 1")
  case False
  define k where "k = length (hex_bytes (mp_p X)) - 1"
  have k: "length (hex_bytes (mp_p X)) = k + 1" "256 ^ k \<le> limbs_val (mp_p X)" using False hex_bytes_val [OF assms] by (auto simp: k_def)
  have "limbs_val (mp_p X) < 2 ^ shmpi_msb X" by (simp add: msb_val)
  moreover have "(256 :: nat) ^ k = 2 ^ (8 * k)" by (simp add: power_mult)
  ultimately have "(2 :: nat) ^ (8 * k) < 2 ^ shmpi_msb X" using k(2) by linarith
  then have "8 * k < shmpi_msb X" by simp
  then show ?thesis by (simp add: string_size_def k(1))
qed (simp add: string_size_def)

lemma hex_size: "string_size 16 X \<le> 16 * length (mp_p X) + 3"
proof -
  have "limbs_val (mp_p X) < 2 ^ (64 * length (mp_p X))" using limbs_val_lt [of "mp_p X"] by (simp only: limb_base_def power_mult)
  then have "shmpi_msb X \<le> 64 * length (mp_p X)" by (simp only: msb_val)
  then show ?thesis by (simp add: string_size_def)
qed

lemma write_string_ok:
  assumes "libc_total c" "2 \<le> radix" "radix \<le> 16" "blank_locals 5 h" "outer_var 5 x" "mpi_ok (h x)" "mp_p (h x) \<noteq> []" "length (mp_p (h x)) + 3 < MPI_MAX_LIMBS"
    and "string_size radix (h x) + (if radix = 16 then length (sign_text (h x)) else 0) \<le> slen"
  shows "\<exists>ds. shmpi_write_string c x radix slen h = Inr (0, length (sign_text (h x)) + length ds + 1, sign_text (h x) @ map digit_char ds @ [0], h) \<and>
    text_digits radix (limbs_val (mp_p (h x))) ds \<and> (radix = 16 \<longrightarrow> length ds + 1 \<le> string_size 16 (h x))"
proof (cases "radix = 16")
  case True
  let ?ds = "byte_digits (hex_bytes (mp_p (h x)))"
  have h0: "h(ST := shmpi_init) = h" using assms(4) by (auto simp: blank_local)
  have hb: "be_val (hex_bytes (mp_p (h x))) = limbs_val (mp_p (h x))" "hex_bytes (mp_p (h x)) \<noteq> []" using hex_bytes_val [OF assms(7)] by simp_all
  have len: "length (sign_text (h x)) + length ?ds + 1 \<le> slen" using assms(9) True hex_length [OF assms(7)] by (simp add: byte_digits_val(3))
  have "shmpi_write_string c x radix slen h = Inr (0, length (sign_text (h x)) + length ?ds + 1, sign_text (h x) @ map digit_char ?ds @ [0], h)"
    using assms(9) len h0 unfolding True shmpi_write_string_def byte_digits_text by (simp add: sign_text_def Let_def not_less)
  moreover have "?ds \<noteq> []" using hb(2) byte_digits_val(3) [of "hex_bytes (mp_p (h x))"] by auto
  then have "text_digits radix (limbs_val (mp_p (h x))) ?ds" using True hb(1) byte_digits_val(1,2) [of "hex_bytes (mp_p (h x))"] by (simp add: text_digits_def)
  moreover have "length ?ds + 1 \<le> string_size 16 (h x)" using hex_length [OF assms(7)] by (simp add: byte_digits_val(3))
  ultimately show ?thesis by blast
next
  case False
  then have r: "radix < 16" "string_size radix (h x) \<le> slen" using assms(3,9) by simp_all
  show ?thesis using write_radix_ok [OF assms(1,2) r(1) assms(4-8) r(2)] False by (auto simp: text_digits_def digits_of_def)
qed

section \<open>Reading\<close>

lemma hex_digits_ok:
  assumes "\<forall>d\<in>set es. d < 16" "sg = [] \<or> sg = [45]"
  shows "length es + j \<le> 16 * length (mp_p (h x)) \<Longrightarrow> limbs_val (mp_p (h x)) < 16 ^ j \<Longrightarrow>
    \<exists>p. hex_digits j (map digit_char es @ sg) x h = Inr (0, h(x := (h x)\<lparr>mp_s := if sg = [] then mp_s (h x) else - 1, mp_p := p\<rparr>)) \<and>
      length p = length (mp_p (h x)) \<and> limbs_val p = limbs_val (mp_p (h x)) + 16 ^ j * foldr (\<lambda>d v. d + 16 * v) es 0"
  using assms(1)
proof (induction es arbitrary: j h)
  case Nil
  then show ?case using assms(2) by (intro exI [of _ "mp_p (h x)"]) (auto simp: mpi_ret_def set_sign_def mpi_do_def fun_eq_iff)
next
  case (Cons d es)
  let ?p = "mp_p (h x)"
  define q where "q = ?p[j div 16 := ?p ! (j div 16) OR push_bit (j mod 16 * 4) (of_nat d)]"
  have d: "d < 16" using Cons.prems(3) by simp
  then have ud: "unat (of_nat d :: u64) = d" by (simp add: unat_of_nat)
  have i: "j div 16 < length ?p" using Cons.prems(1) by (simp add: less_mult_imp_div_less)
  have pw: "(16 :: nat) ^ j = 2 ^ (4 * j)" by (simp add: power_mult)
  have q: "limbs_val q = limbs_val ?p + d * 16 ^ j" "length q = length ?p"
    using put_digit [of 16 4 ?p j "of_nat d"] Cons.prems(2) i d unfolding pw ud by (simp_all add: q_def)
  define h1 where "h1 = h(x := (h x)\<lparr>mp_p := q\<rparr>)"
  have h1x: "mp_p (h1 x) = q" "mp_s (h1 x) = mp_s (h x)" by (simp_all add: h1_def)
  have "limbs_val ?p + d * 16 ^ j < 16 ^ j + 15 * 16 ^ j" using Cons.prems(2) d by (intro add_less_le_mono mult_le_mono1) simp_all
  then have "limbs_val (mp_p (h1 x)) < 16 ^ (j + 1)" by (simp add: q(1) h1x)
  moreover have "length es + (j + 1) \<le> 16 * length (mp_p (h1 x))" using Cons.prems(1) q(2) by (simp add: h1x)
  moreover have "\<forall>d\<in>set es. d < 16" using Cons.prems(3) by simp
  ultimately obtain p where p: "hex_digits (j + 1) (map digit_char es @ sg) x h1 = Inr (0, h1(x := (h1 x)\<lparr>mp_s := if sg = [] then mp_s (h x) else - 1, mp_p := p\<rparr>))"
      "length p = length q" "limbs_val p = limbs_val q + 16 ^ (j + 1) * foldr (\<lambda>d v. d + 16 * v) es 0"
    using Cons.IH [where j = "j + 1" and h = h1] unfolding h1x by blast
  have g: "shmpi_get_digit 16 (digit_char d) = (0, d)" by (rule get_digit_char) (simp_all add: d)
  have "hex_digits j (map digit_char (d # es) @ sg) x h = hex_digits (j + 1) (map digit_char es @ sg) x h1"
    using digit_char_sign [OF d] g i by (simp add: limb_upd_def mpi_chk_def h1_def q_def)
  then have "hex_digits j (map digit_char (d # es) @ sg) x h = Inr (0, h(x := (h x)\<lparr>mp_s := if sg = [] then mp_s (h x) else - 1, mp_p := p\<rparr>))"
    using p(1) by (simp add: h1_def)
  moreover have "limbs_val p = limbs_val ?p + 16 ^ j * foldr (\<lambda>d v. d + 16 * v) (d # es) 0" by (simp add: p(3) q(1) algebra_simps)
  ultimately show ?case using p(2) q(2) by metis
qed

lemma radix_val_foldr: "radix_val r ds = foldr (\<lambda>d v. d + r * v) (rev ds) 0"
  by (induction ds rule: rev_induct) (simp_all add: ac_simps)

lemma read_hex_ok:
  assumes "libc_total c" "blank_locals 5 h" "outer_var 5 x" "mpi_room (h x)" "\<forall>d\<in>set ds. d < 16" "sg = [] \<or> sg = [45]" "length ds + 1 \<le> 16 * MPI_MAX_LIMBS"
  shows "\<exists>X. shmpi_read_string c x 16 (sg @ map digit_char ds) h = Inr (0, h(x := X)) \<and> mpi_ok X \<and> mpi_val X = (if sg = [] then 1 else - 1) * int (radix_val 16 ds)"
proof -
  let ?s = "sg @ map digit_char ds"
  have st: "h ST = shmpi_init" "x \<noteq> ST" using assms(2,3) by (auto simp: blank_local)
  then have h0: "h(ST := shmpi_init) = h" by auto
  define m where "m = BITS_TO_LIMBS (4 * length ?s)"
  have "length ?s \<le> length ds + 1" "length ds \<le> length ?s" using assms(6) by auto
  then have m: "m \<le> MPI_MAX_LIMBS" "length ds \<le> 16 * m" using assms(7) by (simp_all add: m_def BITS_TO_LIMBS_def)
  define X0 where "X0 = (h x)\<lparr>mp_p := mp_p (h x) @ replicate (m - length (mp_p (h x))) 0\<rparr>"
  have X0: "mpi_on x (shmpi_grow c m) h = Inr (0, h(x := X0))" "mpi_room X0" "m \<le> length (mp_p X0)"
    using on_grow [OF assms(1) m(1)] assms(4) m(1) by (simp_all add: X0_def mpi_room_def)
  have "mpi_room ((h(x := X0)) x)" using X0(2) by simp
  then obtain X1 where X1: "shmpi_lset c x 0 (h(x := X0)) = Inr (0, h(x := X1))" "mpi_ok X1" "limbs_val (mp_p X1) = 0" "length (mp_p X1) = max 1 (length (mp_p X0))" "mp_s X1 = 1"
    using lset_room [where h = "h(x := X0)" and x = x and z = 0, OF assms(1)] by (auto simp: sint_sign_def)
  obtain p where p: "hex_digits 0 (map digit_char (rev ds) @ sg) x (h(x := X1)) = Inr (0, h(x := X1\<lparr>mp_s := if sg = [] then 1 else - 1, mp_p := p\<rparr>))" "length p = length (mp_p X1)"
      "limbs_val p = radix_val 16 ds"
  proof -
    have es: "\<forall>d\<in>set (rev ds). d < 16" using assms(5) by simp
    have "length (rev ds) + 0 \<le> 16 * length (mp_p ((h(x := X1)) x))" using X1(4) X0(3) m(2) by simp
    from hex_digits_ok [where h = "h(x := X1)" and x = x, OF es assms(6) this] show ?thesis using that X1(3,5) by (auto simp: radix_val_foldr cong del: if_weak_cong)
  qed
  define X where "X = X1\<lparr>mp_s := if sg = [] then 1 else - 1, mp_p := p\<rparr>"
  have rs: "rev ?s = map digit_char (rev ds) @ sg" using assms(6) by (auto simp: rev_map)
  have "mpi_seq [mpi_on x (shmpi_grow c m), shmpi_lset c x 0, hex_digits 0 (map digit_char (rev ds) @ sg) x] h = Inr (0, h(x := X))"
    using X0(1) X1(1) p(1) [folded X_def] by simp
  then have "shmpi_read_string c x 16 ?s h = Inr (0, h(x := X))"
    using st unfolding shmpi_read_string_def h0 rs m_def [symmetric] by (simp add: mpi_cleanup_def fun_eq_iff)
  then show ?thesis using X1(2) p(2,3) by (intro exI [of _ X]) (auto simp: X_def mpi_ok_def mpi_val_def)
qed

text \<open>The other radices: the value grows digit by digit, and \<open>T\<close> holds the product with the radix.\<close>

lemma int_digit_ex:
  assumes "libc_total c" "blank_locals 2 h" "mpi_arg 2 h x" "mpi_arg 2 h a" "0 \<le> b" "b < 2 ^ 63"
  shows "\<exists>X. (if s then shmpi_add_int c x a b h else shmpi_sub_int c x a b h) = Inr (0, h(x := X)) \<and> mpi_ok X \<and>
    mpi_val X = mpi_val (h a) + (if s then b else - b) \<and> length (mp_p X) \<le> max (max 1 (length (mp_p (h x)))) (max (used_limbs (mp_p (h a))) (used_limbs (mp_p X)))"
proof -
  let ?m = "\<lambda>h. if s then shmpi_add_mpi c x a (Loc 1 0) h else shmpi_sub_mpi c x a (Loc 1 0) h"
  have b: "- (2 ^ 63) < b" "outer_var 2 x" using assms(3,5) by (auto simp: mpi_arg_def)
  have "\<exists>X. with_local (Loc 1 0) (int_mpi b) ?m h = Inr (0, h(x := X)) \<and> mpi_ok X \<and>
    mpi_val X = mpi_val (h a) + (if s then b else - b) \<and> length (mp_p X) \<le> max (max 1 (length (mp_p (h x)))) (max (used_limbs (mp_p (h a))) (used_limbs (mp_p X)))"
  proof (rule with_int_ex [OF assms(2) b(2,1) assms(6)])
    fix Y h' assume Y: "h' = h(Loc 1 0 := Y)" "mpi_ok Y" "mpi_val Y = b" "length (mp_p Y) = 1"
    note o = int_operand [OF assms(2-4) Y(1,2,4)]
    have hx: "h' x = h x" using b(2) Y(1) by auto
    have u: "used_limbs (mp_p Y) \<le> 1" using used_limbs_le [of "mp_p Y"] Y(4) by simp
    have L: "len_bound h' x a (Loc 1 0) X \<Longrightarrow> length (mp_p X) \<le> max (max 1 (length (mp_p (h x)))) (max (used_limbs (mp_p (h a))) (used_limbs (mp_p X)))" for X
      using u unfolding len_bound_def o(5,6) hx by auto
    show "\<exists>X. ?m h' = Inr (0, h'(x := X)) \<and> mpi_ok X \<and> mpi_val X = mpi_val (h a) + (if s then b else - b) \<and>
        length (mp_p X) \<le> max (max 1 (length (mp_p (h x)))) (max (used_limbs (mp_p (h a))) (used_limbs (mp_p X)))"
      using add_mpi_ex [OF assms(1) o(1-4,7)] sub_mpi_ex [OF assms(1) o(1-4)] L unfolding o(5,6) Y(3) by (cases s) auto
  qed
  then show ?thesis by (cases s) (simp_all add: shmpi_add_int_def shmpi_sub_int_def)
qed

lemma radix_step_ok:
  assumes "libc_total c" "2 \<le> radix" "radix \<le> 16" "d < radix" "outer_var 5 x" "blank_locals 4 h" "mpi_ok (h ST)" "length (mp_p (h ST)) \<le> Suc M"
    and "mpi_ok (h x)" "length (mp_p (h x)) \<le> L" "mp_s (h x) = \<sigma>" "mpi_val (h x) = \<sigma> * int v" "0 < M" "M \<le> L" "Suc M < MPI_MAX_LIMBS" "L < MPI_MAX_LIMBS" "v * radix + d < limb_base ^ M"
  shows "\<exists>T X. mpi_seq [shmpi_mul_int c ST x (int radix), (\<lambda>h. if mp_s (h x) = 1 then shmpi_add_int c x ST (int d) h else shmpi_sub_int c x ST (int d) h)] h = Inr (0, h(ST := T, x := X)) \<and>
    mpi_ok T \<and> length (mp_p T) \<le> Suc M \<and> mpi_ok X \<and> length (mp_p X) \<le> L \<and> mpi_val X = \<sigma> * int (v * radix + d)"
proof -
  have ne: "x \<noteq> ST" "outer_var 2 x" "outer_var 2 ST" using assms(5) outer_var_mono [OF assms(5), of 2] by auto
  have sg: "\<sigma> = 1 \<or> \<sigma> = - 1" using assms(9,11) by (auto simp: mpi_ok_def)
  have b2: "blank_locals 2 h" by (rule blank_locals_mono [OF assms(6)]) simp
  have lv: "limbs_val (mp_p (h x)) = v" using limbs_abs [OF assms(9)] assms(12) sg by (auto simp: abs_mult)
  have "v \<le> v * radix" using assms(2) by simp
  then have v: "v < limb_base ^ M" "v * radix < limb_base ^ M" using assms(17) by linarith+
  have ux: "used_limbs (mp_p (h x)) \<le> M" using v(1) by (simp only: used_limbs_le_iff [symmetric] lv)
  have rad: "int (unat (word_of_int (int radix) :: u64)) = int radix" using assms(3) by (simp add: unat_of_nat)
  obtain T where T: "shmpi_mul_int c ST x (int radix) h = Inr (0, h(ST := T))" "mpi_ok T" "mpi_val T = \<sigma> * int (v * radix)" "length (mp_p T) \<le> Suc M"
    using mul_int_ex [where h = h and x = ST and a = x and b = "int radix", OF assms(1) b2 assms(7,9) ne(3,2)] ux assms(8,12,15) unfolding rad by fastforce
  have "int (limbs_val (mp_p T)) = int (v * radix)" using limbs_abs [OF T(2)] T(3) sg by (auto simp: abs_mult)
  then have "limbs_val (mp_p T) = v * radix" by (simp only: of_nat_eq_iff)
  then have uT: "used_limbs (mp_p T) \<le> M" using v(2) by (simp only: used_limbs_le_iff [symmetric])
  let ?h = "h(ST := T)"
  have a: "blank_locals 2 ?h" "mpi_arg 2 ?h x" "mpi_arg 2 ?h ST"
    using b2 ne assms(9,10,15,16) T(2,4) by (auto simp: mpi_arg_def blank_locals_def)
  have d: "0 \<le> int d" "int d < 2 ^ 63" using assms(3,4) by simp_all
  obtain X where X: "(if \<sigma> = 1 then shmpi_add_int c x ST (int d) ?h else shmpi_sub_int c x ST (int d) ?h) = Inr (0, ?h(x := X))" "mpi_ok X"
      "mpi_val X = mpi_val T + (if \<sigma> = 1 then int d else - int d)" "length (mp_p X) \<le> max (max 1 (length (mp_p (h x)))) (max (used_limbs (mp_p T)) (used_limbs (mp_p X)))"
    using int_digit_ex [where s = "\<sigma> = 1", OF assms(1) a d] ne(1) by auto
  have val: "mpi_val X = \<sigma> * int (v * radix + d)" using X(3) T(3) sg by (auto simp: algebra_simps)
  then have "int (limbs_val (mp_p X)) = int (v * radix + d)" using limbs_abs [OF X(2)] sg by (auto simp: abs_mult)
  then have "limbs_val (mp_p X) = v * radix + d" by (simp only: of_nat_eq_iff)
  then have "used_limbs (mp_p X) \<le> M" using assms(17) by (simp only: used_limbs_le_iff [symmetric])
  then have "length (mp_p X) \<le> L" using X(4) uT assms(10,13,14) by linarith
  then show ?thesis using T X(1,2) val ne(1) assms(11) by (intro exI [of _ T] exI [of _ X]) simp
qed

lemma signed_value:
  assumes "mpi_ok X" "mpi_val X = \<sigma> * int w" "\<sigma> = 1 \<or> \<sigma> = - 1" "w \<noteq> 0"
  shows "mp_s X = \<sigma>"
proof -
  have "int (limbs_val (mp_p X)) = int w" using limbs_abs [OF assms(1)] assms(2,3) by (auto simp: abs_mult)
  then have "mp_s X * int w = \<sigma> * int w" using assms(2) by (simp add: mpi_val_def)
  then show ?thesis using assms(4) by simp
qed

lemma radix_digits_ok:
  assumes "libc_total c" "2 \<le> radix" "radix \<le> 16" "outer_var 5 x" "0 < M" "M \<le> L" "Suc M < MPI_MAX_LIMBS" "L < MPI_MAX_LIMBS" "\<sigma> = 1 \<or> \<sigma> = - 1"
  shows "\<forall>d\<in>set ds. d < radix \<Longrightarrow> blank_locals 4 h \<Longrightarrow> mpi_ok (h ST) \<Longrightarrow> length (mp_p (h ST)) \<le> Suc M \<Longrightarrow> mpi_ok (h x) \<Longrightarrow> length (mp_p (h x)) \<le> L \<Longrightarrow>
    ds \<noteq> [] \<longrightarrow> mp_s (h x) = \<sigma> \<Longrightarrow> mpi_val (h x) = \<sigma> * int v \<Longrightarrow> v = 0 \<longrightarrow> length ds \<le> 1 \<or> hd ds \<noteq> 0 \<Longrightarrow>
    foldl (\<lambda>v d. v * radix + d) v ds < limb_base ^ M \<Longrightarrow>
    \<exists>T X. radix_digits c radix (map digit_char ds) x h = Inr (0, h(ST := T, x := X)) \<and> mpi_ok X \<and> mpi_val X = \<sigma> * int (foldl (\<lambda>v d. v * radix + d) v ds)"
proof (induction ds arbitrary: h v)
  case Nil
  have "h = h(ST := h ST, x := h x)" by auto
  then show ?case using Nil by (metis list.map(1) radix_digits.simps(1) mpi_ret_def foldl_Nil)
next
  case (Cons d ds)
  let ?w = "v * radix + d"
  have d: "d < radix" "\<forall>d\<in>set ds. d < radix" "mp_s (h x) = \<sigma>" using Cons.prems(1,7) by auto
  have grow: "w \<le> foldl (\<lambda>v d. v * radix + d) w ds" for w
  proof (induction ds arbitrary: w)
    case (Cons e ds)
    have "w \<le> w * radix" using assms(2) by simp
    then have "w \<le> w * radix + e" by (rule trans_le_add1)
    then show ?case using Cons [of "w * radix + e"] by (simp only: foldl_Cons)
  qed simp
  have "?w < limb_base ^ M" using grow [of ?w] Cons.prems(10) by simp
  then obtain T X where s: "mpi_seq [shmpi_mul_int c ST x (int radix), (\<lambda>h. if mp_s (h x) = 1 then shmpi_add_int c x ST (int d) h else shmpi_sub_int c x ST (int d) h)] h = Inr (0, h(ST := T, x := X))"
      "mpi_ok T" "length (mp_p T) \<le> Suc M" "mpi_ok X" "length (mp_p X) \<le> L" "mpi_val X = \<sigma> * int ?w"
    using radix_step_ok [OF assms(1-3) d(1) assms(4) Cons.prems(2-6) d(3) Cons.prems(8) assms(5-8)] by blast
  define h1 where "h1 = h(ST := T, x := X)"
  have ne: "x \<noteq> ST" using assms(4) by auto
  have h1: "h1 ST = T" "h1 x = X" using ne by (simp_all add: h1_def)
  have b: "blank_locals 4 h1" using Cons.prems(2) outer_var_mono [OF assms(4), of 4] by (auto simp: h1_def blank_locals_def)
  have nz: "ds \<noteq> [] \<longrightarrow> ?w \<noteq> 0" using Cons.prems(9) assms(2) by (cases ds) auto
  then have sg: "ds \<noteq> [] \<longrightarrow> mp_s (h1 x) = \<sigma>" using signed_value [OF s(4,6) assms(9)] unfolding h1 by blast
  have pre: "mpi_ok (h1 ST)" "length (mp_p (h1 ST)) \<le> Suc M" "mpi_ok (h1 x)" "length (mp_p (h1 x)) \<le> L" "mpi_val (h1 x) = \<sigma> * int ?w"
      "?w = 0 \<longrightarrow> length ds \<le> 1 \<or> hd ds \<noteq> 0" "foldl (\<lambda>v d. v * radix + d) ?w ds < limb_base ^ M"
    using s nz Cons.prems(10) by (auto simp: h1)
  obtain T' X' where r: "radix_digits c radix (map digit_char ds) x h1 = Inr (0, h1(ST := T', x := X'))" "mpi_ok X'" "mpi_val X' = \<sigma> * int (foldl (\<lambda>v d. v * radix + d) ?w ds)"
    using Cons.IH [OF d(2) b pre(1-4) sg pre(5-7)] by blast
  have "h1(ST := T', x := X') = h(ST := T', x := X')" using ne by (auto simp: h1_def)
  moreover have "radix_digits c radix (map digit_char (d # ds)) x h = radix_digits c radix (map digit_char ds) x h1"
    using mpi_seq_append [OF s(1), of "[radix_digits c radix (map digit_char ds) x]"] get_digit_char [OF d(1) assms(3)] by (simp add: h1_def)
  ultimately show ?case using r by (metis foldl_Cons)
qed

lemma read_radix_ok:
  assumes "libc_total c" "2 \<le> radix" "radix < 16" "blank_locals 5 h" "outer_var 5 x" "length (mp_p (h x)) < MPI_MAX_LIMBS" "digits_of radix v ds" "v < limb_base ^ M" "Suc M < MPI_MAX_LIMBS" "sg = [] \<or> sg = [45]"
  shows "\<exists>X. shmpi_read_string c x radix (sg @ map digit_char ds) h = Inr (0, h(x := X)) \<and> mpi_ok X \<and> mpi_val X = (if sg = [] then 1 else - 1) * int v"
proof -
  let ?s = "(if sg = [] then 1 else - 1) :: int" and ?M = "max 1 M"
  have st: "h ST = shmpi_init" "x \<noteq> ST" using assms(4,5) by (auto simp: blank_local)
  then have h0: "h(ST := shmpi_init) = h" by auto
  obtain X1 where X1: "shmpi_lset c x 0 h = Inr (0, h(x := X1))" "mpi_ok X1" "limbs_val (mp_p X1) = 0" "length (mp_p X1) = max 1 (length (mp_p (h x)))" "mp_s X1 = 1"
    using lset_room [where h = h and x = x and z = 0, OF assms(1)] assms(6) by (auto simp: sint_sign_def mpi_room_def)
  define h1 where "h1 = h(x := X1\<lparr>mp_s := ?s\<rparr>)"
  have ds: "\<forall>d\<in>set ds. d < radix" "radix_val radix ds = v" "ds \<noteq> []" "length ds \<le> 1 \<or> hd ds \<noteq> 0"
  proof -
    show "length ds \<le> 1 \<or> hd ds \<noteq> 0"
    proof (rule ccontr)
      assume *: "\<not> (length ds \<le> 1 \<or> hd ds \<noteq> 0)"
      then obtain es where es: "ds = 0 # es" by (cases ds) auto
      have bound: "(\<forall>d\<in>set es. d < radix) \<Longrightarrow> radix_val radix es < radix ^ length es" for es
      proof (induction es rule: rev_induct)
        case (snoc e es)
        then have "radix_val radix es + 1 \<le> radix ^ length es" "e < radix" by simp_all
        then have "(radix_val radix es + 1) * radix \<le> radix ^ length es * radix" by (intro mult_le_mono1)
        then show ?case using \<open>e < radix\<close> by (simp add: algebra_simps)
      qed simp
      have "radix_val radix ds = radix_val radix es" by (simp add: es radix_val_def)
      moreover have "radix_val radix es < radix ^ length es" using assms(7) by (intro bound) (simp add: digits_of_def es)
      ultimately show False using assms(7) * by (simp add: digits_of_def es)
    qed
  qed (use assms(7) in \<open>simp_all add: digits_of_def\<close>)
  have ok: "\<exists>T X. radix_digits c radix (map digit_char ds) x h1 = Inr (0, h1(ST := T, x := X)) \<and> mpi_ok X \<and> mpi_val X = ?s * int (foldl (\<lambda>v d. v * radix + d) 0 ds)"
  proof (rule radix_digits_ok [OF assms(1,2) _ assms(5), where M = ?M and L = "max ?M (max 1 (length (mp_p (h x))))"])
    show "blank_locals 4 h1" using blank_locals_mono [OF assms(4), of 4] outer_var_mono [OF assms(5), of 4] by (auto simp: h1_def blank_locals_def)
    show "foldl (\<lambda>v d. v * radix + d) 0 ds < limb_base ^ ?M"
    proof -
      have "limb_base ^ M \<le> limb_base ^ ?M" by (intro power_increasing) (simp_all add: limb_base_def)
      then show ?thesis using ds(2) less_le_trans [OF assms(8)] by (simp only: radix_val_def)
    qed
  qed (use assms(3,6,9) st X1 ds in \<open>auto simp: h1_def shmpi_init_def mpi_ok_def mpi_val_def MPI_MAX_LIMBS_def\<close>)
  then obtain T X where r: "radix_digits c radix (map digit_char ds) x h1 = Inr (0, h1(ST := T, x := X))" "mpi_ok X" "mpi_val X = ?s * int v"
    using ds(2) by (auto simp: radix_val_def)
  have hd45: "hd (map digit_char ds) \<noteq> 45"
  proof -
    have "hd ds < 16" using ds(1,3) assms(3) by (cases ds) auto
    then show ?thesis using digit_char_sign [of "hd ds"] ds(3) by (simp add: hd_map)
  qed
  have h1e: "sg = [] \<Longrightarrow> h1 = h(x := X1)" using X1(5) by (auto simp: h1_def)
  have fin: "(h1(ST := T, x := X))(ST := shmpi_init) = h(x := X)" using st by (auto simp: h1_def fun_eq_iff)
  have "shmpi_read_string c x radix (sg @ map digit_char ds) h = Inr (0, h(x := X))"
    using assms(10)
  proof
    assume "sg = []"
    then show ?thesis using r(1) X1(1) h1e fin hd45 assms(2,3) unfolding shmpi_read_string_def h0 by (simp add: mpi_cleanup_def mpi_chk_def)
  next
    assume sg: "sg = [45]"
    have "set_sign x (- 1) (h(x := X1)) = Inr (0, h1)" by (simp add: set_sign_def mpi_do_def h1_def sg)
    then show ?thesis using sg r(1) X1(1) fin assms(2,3) unfolding shmpi_read_string_def h0 by (simp add: mpi_cleanup_def mpi_chk_def)
  qed
  then show ?thesis using r(2,3) by blast
qed

end
