(* ===== verification/Share_Mpi_Inv.thy ===== *)
theory Share_Mpi_Inv
  imports Share_Mpi_Text
begin

text \<open>
  The modular inverse (HAC 14.61): the binary extended algorithm, that its loops return, the size of the coefficients, and
  the value of the result.
\<close>

section \<open>Definitions\<close>

abbreviation "IG \<equiv> Loc 5 0"
abbreviation "IA \<equiv> Loc 5 1"
abbreviation "IU \<equiv> Loc 5 2"
abbreviation "IU1 \<equiv> Loc 5 3"
abbreviation "IU2 \<equiv> Loc 5 4"
abbreviation "IB \<equiv> Loc 5 5"
abbreviation "IV \<equiv> Loc 5 6"
abbreviation "IV1 \<equiv> Loc 5 7"
abbreviation "IV2 \<equiv> Loc 5 8"

text \<open>\<open>( X.p[0] & 1 ) != 0\<close>\<close>

definition low_bit :: "mvar \<Rightarrow> mpis \<Rightarrow> fault + bool" where
  "low_bit x h = (if mp_p (h x) = [] then Inl NullDeref else Inr (mp_p (h x) ! 0 AND 1 \<noteq> 0))"

definition inv_fix :: "libc \<Rightarrow> mvar \<Rightarrow> mvar \<Rightarrow> mop" where
  "inv_fix c u1 u2 h =
     run_bind (low_bit u1 h) (\<lambda>b1. run_bind (if b1 then Inr True else low_bit u2 h) (\<lambda>b.
       if b then mpi_seq [shmpi_add_mpi c u1 u1 IB, shmpi_sub_mpi c u2 u2 IA] h else mpi_ret 0 h))"

definition inv_shift :: "libc \<Rightarrow> mvar \<Rightarrow> mvar \<Rightarrow> mvar \<Rightarrow> mop" where
  "inv_shift c t u1 u2 = mpi_seq [shmpi_shift_r c t 1, inv_fix c u1 u2, shmpi_shift_r c u1 1, shmpi_shift_r c u2 1]"

definition inv_halve :: "libc \<Rightarrow> mvar \<Rightarrow> mvar \<Rightarrow> mvar \<Rightarrow> mop" where
  "inv_halve c t u1 u2 = mpi_while (\<lambda>h. run_bind (low_bit t h) (\<lambda>b. Inr (\<not> b))) (inv_shift c t u1 u2)"

definition inv_diff :: "libc \<Rightarrow> mop" where
  "inv_diff c h =
     (if 0 \<le> shmpi_cmp_mpi (h IU) (h IV)
      then mpi_seq [shmpi_sub_mpi c IU IU IV, shmpi_sub_mpi c IU1 IU1 IV1, shmpi_sub_mpi c IU2 IU2 IV2] h
      else mpi_seq [shmpi_sub_mpi c IV IV IU, shmpi_sub_mpi c IV1 IV1 IU1, shmpi_sub_mpi c IV2 IV2 IU2] h)"

definition inv_step :: "libc \<Rightarrow> mop" where
  "inv_step c = mpi_seq [inv_halve c IU IU1 IU2, inv_halve c IV IV1 IV2, inv_diff c]"

text \<open>The loop \<open>do ... while\<close>.\<close>

definition inv_loop :: "libc \<Rightarrow> mop" where
  "inv_loop c = mpi_chk (inv_step c) (mpi_while (\<lambda>h. run_bind (shmpi_cmp_int (h IU) 0) (\<lambda>s. Inr (s \<noteq> 0))) (inv_step c))"

definition inv_reduce :: "libc \<Rightarrow> mvar \<Rightarrow> mop" where
  "inv_reduce c n = mpi_seq [
     mpi_while (\<lambda>h. run_bind (shmpi_cmp_int (h IV1) 0) (\<lambda>s. Inr (s < 0))) (shmpi_add_mpi c IV1 IV1 n),
     mpi_while (\<lambda>h. Inr (0 \<le> shmpi_cmp_mpi (h IV1) (h n))) (shmpi_sub_mpi c IV1 IV1 n)]"

definition inv_blank :: "mpis \<Rightarrow> mpis" where
  "inv_blank h v = (case v of Loc j _ \<Rightarrow> if j = 5 then shmpi_init else h v | Arg _ \<Rightarrow> h v)"

definition inv_init :: "libc \<Rightarrow> mvar \<Rightarrow> mvar \<Rightarrow> mop" where
  "inv_init c a n = mpi_seq [
     shmpi_mod_mpi c IA a n, shmpi_copy c IU IA, shmpi_copy c IB n, shmpi_copy c IV n,
     shmpi_lset c IU1 1, shmpi_lset c IU2 0, shmpi_lset c IV1 0, shmpi_lset c IV2 1]"

definition shmpi_inv_mod :: "libc \<Rightarrow> mvar \<Rightarrow> mvar \<Rightarrow> mvar \<Rightarrow> mop" where
  "shmpi_inv_mod c x a n h =
     run_bind (shmpi_cmp_int (h n) 0) (\<lambda>s.
       if s \<le> 0 then mpi_ret ERR_BAD_INPUT_DATA h
       else mpi_cleanup
         (mpi_chk (shmpi_gcd c IG a n) (\<lambda>h. run_bind (shmpi_cmp_int (h IG) 1) (\<lambda>g.
           if g \<noteq> 0 then mpi_ret ERR_NOT_ACCEPTABLE h
           else mpi_seq [inv_init c a n, inv_loop c, inv_reduce c n, shmpi_copy c x IV1] h)))
         inv_blank (inv_blank h))"

section \<open>Cells\<close>

text \<open>A variable with a value and at most \<open>K\<close> limbs, but at least one.\<close>

definition cell :: "nat \<Rightarrow> mpis \<Rightarrow> mvar \<Rightarrow> int \<Rightarrow> bool" where
  "cell K h x v \<longleftrightarrow> mpi_ok (h x) \<and> mp_p (h x) \<noteq> [] \<and> length (mp_p (h x)) \<le> K \<and> mpi_val (h x) = v"

lemma cell_upd [simp]: "x \<noteq> y \<Longrightarrow> cell K (h(y := Y)) x v = cell K h x v"
  by (simp add: cell_def)

lemma cellD: "cell K h x v \<Longrightarrow> mpi_ok (h x)" "cell K h x v \<Longrightarrow> mpi_val (h x) = v"
  by (simp_all add: cell_def)

lemma cell_used: "mpi_ok X \<Longrightarrow> \<bar>mpi_val X\<bar> < int (limb_base ^ K) \<Longrightarrow> used_limbs (mp_p X) \<le> K"
proof -
  assume "mpi_ok X" "\<bar>mpi_val X\<bar> < int (limb_base ^ K)"
  then have "int (limbs_val (mp_p X)) < int (limb_base ^ K)" by (simp only: limbs_abs)
  then have "limbs_val (mp_p X) < limb_base ^ K" by (simp only: of_nat_less_iff)
  then show ?thesis by (simp only: used_limbs_le_iff)
qed

lemma cell_op:
  assumes "cell K h x u" "cell K h b w" "0 < K" "mpi_ok X" "mpi_val X = v" "len_bound h x x b X" "\<bar>v\<bar> < int (limb_base ^ K)"
  shows "cell K (h(x := X)) x v"
proof -
  have "used_limbs (mp_p X) \<le> K" using cell_used [OF assms(4)] assms(5,7) by blast
  moreover have "used_limbs (mp_p (h x)) \<le> K" "used_limbs (mp_p (h b)) \<le> K"
    using assms(1,2) used_limbs_le [of "mp_p (h x)"] used_limbs_le [of "mp_p (h b)"] by (auto simp: cell_def)
  ultimately have "length (mp_p X) \<le> K" using assms(1,3,6) by (auto simp: len_bound_def cell_def)
  moreover have "length (mp_p (h x)) \<le> length (mp_p X)" using assms(1,2,6) by (auto simp: len_bound_def cell_def)
  ultimately show ?thesis using assms(1,4,5) by (auto simp: cell_def)
qed

lemma cell_add:
  assumes "libc_total c" "blank_locals 1 h" "0 < K" "K < MPI_MAX_LIMBS" "outer_var 1 x" "outer_var 1 b" "x \<noteq> b" "cell K h x u" "cell K h b w" "\<bar>u + w\<bar> < int (limb_base ^ K)"
  shows "\<exists>X. shmpi_add_mpi c x x b h = Inr (0, h(x := X)) \<and> cell K (h(x := X)) x (u + w)"
proof -
  have "mpi_arg 1 h x" "mpi_arg 1 h b" using assms by (auto simp: cell_def mpi_arg_def)
  then obtain X where "shmpi_add_mpi c x x b h = Inr (0, h(x := X))" "mpi_ok X" "mpi_val X = u + w" "len_bound h x x b X"
    using add_mpi_ex [of c h x x b] assms(1,2,7) cellD(2) [OF assms(8)] cellD(2) [OF assms(9)] by auto
  then show ?thesis using cell_op [OF assms(8,9,3) _ _ _ assms(10)] by blast
qed

lemma cell_sub:
  assumes "libc_total c" "blank_locals 1 h" "0 < K" "K < MPI_MAX_LIMBS" "outer_var 1 x" "outer_var 1 b" "cell K h x u" "cell K h b w" "\<bar>u - w\<bar> < int (limb_base ^ K)"
  shows "\<exists>X. shmpi_sub_mpi c x x b h = Inr (0, h(x := X)) \<and> cell K (h(x := X)) x (u - w)"
proof -
  have "mpi_arg 1 h x" "mpi_arg 1 h b" using assms by (auto simp: cell_def mpi_arg_def)
  then obtain X where "shmpi_sub_mpi c x x b h = Inr (0, h(x := X))" "mpi_ok X" "mpi_val X = u - w" "len_bound h x x b X"
    using sub_mpi_ex [of c h x x b] assms(1,2) cellD(2) [OF assms(7)] cellD(2) [OF assms(8)] by auto
  then show ?thesis using cell_op [OF assms(7,8,3) _ _ _ assms(9)] by blast
qed

lemma cell_half:
  assumes "libc_total c" "cell K h x (2 * u)"
  shows "\<exists>X. shmpi_shift_r c x 1 h = Inr (0, h(x := X)) \<and> cell K (h(x := X)) x u"
proof -
  have x: "mpi_ok (h x)" "mp_p (h x) \<noteq> []" "mpi_val (h x) = 2 * u" "length (mp_p (h x)) \<le> K" using assms(2) by (auto simp: cell_def)
  obtain X where X: "shmpi_shift_r c x 1 h = Inr (0, h(x := X))" "mpi_ok X" "limbs_val (mp_p X) = limbs_val (mp_p (h x)) div 2 ^ 1"
      "limbs_val (mp_p X) \<noteq> 0 \<longrightarrow> mp_s X = mp_s (h x)" "length (mp_p X) = length (mp_p (h x))"
    using shift_r_ex [where h = h and x = x and count = 1, OF assms(1) x(1,2)] by blast
  have l: "int (limbs_val (mp_p (h x))) = 2 * \<bar>u\<bar>" using limbs_abs [OF x(1)] x(3) by simp
  then have l2: "int (limbs_val (mp_p X)) = \<bar>u\<bar>" using X(3) by (simp add: zdiv_int)
  have "mpi_val X = u"
  proof (cases "u = 0")
    case False
    then have "limbs_val (mp_p X) \<noteq> 0" using l2 by auto
    then have "mp_s X = mp_s (h x)" using X(4) by blast
    then have "2 * mpi_val X = 2 * u" using x(3) l l2 by (simp add: mpi_val_def)
    then show ?thesis by simp
  qed (use l2 in \<open>simp add: mpi_val_def\<close>)
  then show ?thesis using X(1,2,5) x(2,4) by (intro exI [of _ X]) (auto simp: cell_def)
qed

lemma cell_low_bit: "cell K h x v \<Longrightarrow> low_bit x h = Inr (odd v)"
proof -
  assume x: "cell K h x v"
  have "odd v \<longleftrightarrow> odd (limbs_val (mp_p (h x)))" using x by (auto simp: cell_def mpi_val_def mpi_ok_def)
  also have "\<dots> \<longleftrightarrow> odd (unat (mp_p (h x) ! 0))" using x by (simp add: odd_limbs cell_def)
  also have "\<dots> \<longleftrightarrow> mp_p (h x) ! 0 AND 1 \<noteq> 0"
  proof -
    have "unat (w AND 1) = unat w mod 2" for w :: u64 by (simp add: and_one_eq unat_mod)
    then show ?thesis by (metis odd_iff_mod_2_eq_one even_iff_mod_2_eq_zero unat_eq_0 zero_neq_one)
  qed
  finally show ?thesis using x by (simp add: low_bit_def cell_def)
qed

section \<open>Halving\<close>

text \<open>The variables of the loop hold the values of a function.\<close>

definition inv_vars :: "mvar set" where
  "inv_vars = {IA, IU, IU1, IU2, IB, IV, IV1, IV2}"

definition holds :: "nat \<Rightarrow> (mvar \<Rightarrow> int) \<Rightarrow> mpis \<Rightarrow> bool" where
  "holds K f h \<longleftrightarrow> 0 < K \<and> K < MPI_MAX_LIMBS \<and> blank_locals 5 h \<and> (\<forall>v\<in>inv_vars. cell K h v (f v))"

lemma holds_upd: "holds K f h \<Longrightarrow> x \<in> inv_vars \<Longrightarrow> cell K (h(x := X)) x v \<Longrightarrow> holds K (f(x := v)) (h(x := X))"
  by (auto simp: holds_def inv_vars_def)

lemma inv_vars_outer: "x \<in> inv_vars \<Longrightarrow> outer_var 1 x" "x \<in> inv_vars \<Longrightarrow> outer_var 5 x"
  by (auto simp: inv_vars_def)

lemma holds_add:
  assumes "libc_total c" "holds K f h" "x \<in> inv_vars" "b \<in> inv_vars" "x \<noteq> b" "\<bar>f x + f b\<bar> < int (limb_base ^ K)"
  shows "\<exists>h'. shmpi_add_mpi c x x b h = Inr (0, h') \<and> holds K (f(x := f x + f b)) h' \<and> frame inv_vars h h'"
proof -
  have "blank_locals 1 h" "cell K h x (f x)" "cell K h b (f b)" "0 < K" "K < MPI_MAX_LIMBS"
    using assms(2-4) blank_locals_mono [of 5 h 1] by (auto simp: holds_def)
  then obtain X where "shmpi_add_mpi c x x b h = Inr (0, h(x := X))" "cell K (h(x := X)) x (f x + f b)"
    using cell_add [where h = h and x = x and b = b and K = K, OF assms(1)] inv_vars_outer(1) assms(3-6) by blast
  then show ?thesis using holds_upd [OF assms(2,3)] assms(3) by (intro exI [of _ "h(x := X)"]) auto
qed

lemma holds_sub:
  assumes "libc_total c" "holds K f h" "x \<in> inv_vars" "b \<in> inv_vars" "\<bar>f x - f b\<bar> < int (limb_base ^ K)"
  shows "\<exists>h'. shmpi_sub_mpi c x x b h = Inr (0, h') \<and> holds K (f(x := f x - f b)) h' \<and> frame inv_vars h h'"
proof -
  have "blank_locals 1 h" "cell K h x (f x)" "cell K h b (f b)" "0 < K" "K < MPI_MAX_LIMBS"
    using assms(2-4) blank_locals_mono [of 5 h 1] by (auto simp: holds_def)
  then obtain X where "shmpi_sub_mpi c x x b h = Inr (0, h(x := X))" "cell K (h(x := X)) x (f x - f b)"
    using cell_sub [where h = h and x = x and b = b and K = K, OF assms(1)] inv_vars_outer(1) assms(3-5) by blast
  then show ?thesis using holds_upd [OF assms(2,3)] assms(3) by (intro exI [of _ "h(x := X)"]) auto
qed

lemma holds_half:
  assumes "libc_total c" "holds K f h" "x \<in> inv_vars" "even (f x)"
  shows "\<exists>h'. shmpi_shift_r c x 1 h = Inr (0, h') \<and> holds K (f(x := f x div 2)) h' \<and> frame inv_vars h h'"
proof -
  have "cell K h x (2 * (f x div 2))" using assms(2-4) by (simp add: holds_def)
  then obtain X where "shmpi_shift_r c x 1 h = Inr (0, h(x := X))" "cell K (h(x := X)) x (f x div 2)"
    using cell_half [where h = h and x = x, OF assms(1)] by blast
  then show ?thesis using holds_upd [OF assms(2,3)] assms(3) by (intro exI [of _ "h(x := X)"]) auto
qed

lemma holds_bit: "holds K f h \<Longrightarrow> x \<in> inv_vars \<Longrightarrow> low_bit x h = Inr (odd (f x))"
  by (auto simp: holds_def intro: cell_low_bit)

text \<open>The coefficients before they are halved.\<close>

definition fix1 :: "int \<Rightarrow> int \<Rightarrow> int \<Rightarrow> int \<Rightarrow> int" where
  "fix1 b p q v = (if odd p \<or> odd q then v + b else v)"

lemma fix_even:
  fixes a b p q :: int
  assumes "coprime a b" "even (p * a + q * b)"
  shows "even (fix1 b p q p)" "even (fix1 (- a) p q q)"
proof -
  have "odd a \<or> odd b" using assms(1) by (meson coprime_common_divisor odd_one)
  then show "even (fix1 b p q p)" "even (fix1 (- a) p q q)" using assms(2) by (auto simp: fix1_def)
qed

lemma inv_fix_ok:
  assumes "libc_total c" "holds K f h" "u1 \<in> inv_vars" "u2 \<in> inv_vars" "u1 \<noteq> u2" "u1 \<notin> {IA, IB}" "u2 \<notin> {IA, IB}"
    and "\<bar>f u1 + f IB\<bar> < int (limb_base ^ K)" "\<bar>f u2 - f IA\<bar> < int (limb_base ^ K)"
  shows "\<exists>h'. inv_fix c u1 u2 h = Inr (0, h') \<and> holds K (f(u1 := fix1 (f IB) (f u1) (f u2) (f u1), u2 := fix1 (- f IA) (f u1) (f u2) (f u2))) h' \<and> frame inv_vars h h'"
proof -
  have run: "inv_fix c u1 u2 h = (if odd (f u1) \<or> odd (f u2) then mpi_seq [shmpi_add_mpi c u1 u1 IB, shmpi_sub_mpi c u2 u2 IA] h else mpi_ret 0 h)"
    using holds_bit [OF assms(2,3)] holds_bit [OF assms(2,4)] by (simp add: inv_fix_def)
  show ?thesis
  proof (cases "odd (f u1) \<or> odd (f u2)")
    case True
    have ab: "IA \<in> inv_vars" "IB \<in> inv_vars" by (simp_all add: inv_vars_def)
    obtain h1 where h1: "shmpi_add_mpi c u1 u1 IB h = Inr (0, h1)" "holds K (f(u1 := f u1 + f IB)) h1" "frame inv_vars h h1"
      using holds_add [OF assms(1-3) ab(2)] assms(6,8) by auto
    obtain h2 where h2: "shmpi_sub_mpi c u2 u2 IA h1 = Inr (0, h2)" "holds K (f(u1 := f u1 + f IB, u2 := f u2 - f IA)) h2" "frame inv_vars h1 h2"
      using holds_sub [OF assms(1) h1(2) assms(4) ab(1)] assms(5-7,9) by auto
    show ?thesis using True run h1 h2 frame_trans [OF h1(3) h2(3)] by (intro exI [of _ h2]) (simp add: fix1_def)
  next
    case False
    then show ?thesis using run assms(2) by (intro exI [of _ h]) (simp add: fix1_def mpi_ret_def)
  qed
qed

lemma inv_shift_ok:
  assumes "libc_total c" "holds K f h" "t \<in> inv_vars" "u1 \<in> inv_vars" "u2 \<in> inv_vars" "distinct [t, u1, u2, IA, IB]"
    and "even (f t)" "f u1 * f IA + f u2 * f IB = f t" "coprime (f IA) (f IB)" "\<bar>f u1 + f IB\<bar> < int (limb_base ^ K)" "\<bar>f u2 - f IA\<bar> < int (limb_base ^ K)"
  shows "\<exists>h'. inv_shift c t u1 u2 h = Inr (0, h') \<and> frame inv_vars h h' \<and>
    holds K (f(t := f t div 2, u1 := fix1 (f IB) (f u1) (f u2) (f u1) div 2, u2 := fix1 (- f IA) (f u1) (f u2) (f u2) div 2)) h'"
proof -
  let ?p = "fix1 (f IB) (f u1) (f u2) (f u1)" and ?q = "fix1 (- f IA) (f u1) (f u2) (f u2)"
  have "even (f u1 * f IA + f u2 * f IB)" using assms(7) by (simp only: assms(8))
  note ev = fix_even [OF assms(9) this]
  obtain h1 where h1: "shmpi_shift_r c t 1 h = Inr (0, h1)" "holds K (f(t := f t div 2)) h1" "frame inv_vars h h1"
    using holds_half [OF assms(1-3,7)] by blast
  obtain h2 where h2: "inv_fix c u1 u2 h1 = Inr (0, h2)" "holds K (f(t := f t div 2, u1 := ?p, u2 := ?q)) h2" "frame inv_vars h1 h2"
    using inv_fix_ok [OF assms(1) h1(2) assms(4,5)] assms(6,10,11) by auto
  obtain h3 where h3: "shmpi_shift_r c u1 1 h2 = Inr (0, h3)" "holds K (f(t := f t div 2, u1 := ?p, u2 := ?q, u1 := ?p div 2)) h3" "frame inv_vars h2 h3"
    using holds_half [OF assms(1) h2(2) assms(4)] ev(1) assms(6) by auto
  obtain h4 where h4: "shmpi_shift_r c u2 1 h3 = Inr (0, h4)" "holds K (f(t := f t div 2, u1 := ?p, u2 := ?q, u1 := ?p div 2, u2 := ?q div 2)) h4" "frame inv_vars h3 h4"
    using holds_half [OF assms(1) h3(2) assms(5)] ev(2) assms(6) by auto
  have "f(t := f t div 2, u1 := ?p, u2 := ?q, u1 := ?p div 2, u2 := ?q div 2) = f(t := f t div 2, u1 := ?p div 2, u2 := ?q div 2)" using assms(6) by (auto simp: fun_eq_iff)
  then show ?thesis using h1 h2 h3 h4 frame_trans by (intro exI [of _ h4]) (simp add: inv_shift_def frame_def)
qed

lemma fix_bound:
  fixes p b C :: int
  assumes "\<bar>p\<bar> \<le> 2 * C - d" "\<bar>b\<bar> \<le> d"
  shows "\<bar>fix1 b x y p div 2\<bar> \<le> C"
proof -
  have "\<bar>fix1 b x y p\<bar> \<le> 2 * C" using assms by (auto simp: fix1_def)
  then show ?thesis by linarith
qed

lemma fix_combination:
  fixes a b p q t :: int
  assumes "coprime a b" "p * a + q * b = t" "even t"
  shows "fix1 b p q p div 2 * a + fix1 (- a) p q q div 2 * b = t div 2"
proof -
  have "even (p * a + q * b)" using assms(2,3) by (simp only:)
  note e = fix_even [OF assms(1) this]
  have "2 * (fix1 b p q p div 2 * a + fix1 (- a) p q q div 2 * b) = fix1 b p q p * a + fix1 (- a) p q q * b" using e by (auto elim!: evenE simp: algebra_simps)
  also have "\<dots> = t" using assms(2) by (simp add: fix1_def algebra_simps)
  finally show ?thesis by (metis nonzero_mult_div_cancel_left zero_neq_numeral)
qed

lemma inv_halve_ok:
  assumes "libc_total c" "t \<in> inv_vars" "u1 \<in> inv_vars" "u2 \<in> inv_vars" "distinct [t, u1, u2, IA, IB]" "coprime a b" "0 \<le> a" "a \<le> b" "b \<le> C" "2 * C < int (limb_base ^ K)"
  shows "holds K f h \<Longrightarrow> f IA = a \<Longrightarrow> f IB = b \<Longrightarrow> 0 < f t \<Longrightarrow> f u1 * a + f u2 * b = f t \<Longrightarrow>
    \<bar>f u1\<bar> \<le> (if even (f t) then 2 * C - b else C) \<Longrightarrow> \<bar>f u2\<bar> \<le> (if even (f t) then 2 * C - b else C) \<Longrightarrow>
    \<exists>h' v p q j. inv_halve c t u1 u2 h = Inr (0, h') \<and> frame inv_vars h h' \<and> holds K (f(t := v, u1 := p, u2 := q)) h' \<and> odd v \<and> 0 < v \<and>
      p * a + q * b = v \<and> \<bar>p\<bar> \<le> C \<and> \<bar>q\<bar> \<le> C \<and> f t = 2 ^ j * v"
proof (induction "nat (f t)" arbitrary: f h rule: less_induct)
  case less
  have bit: "low_bit t h = Inr (odd (f t))" by (rule holds_bit [OF less.prems(1) assms(2)])
  show ?case
  proof (cases "even (f t)")
    case False
    have "inv_halve c t u1 u2 h = Inr (0, h)" unfolding inv_halve_def using bit False by (subst mpi_while_unfold) simp
    moreover have "f(t := f t, u1 := f u1, u2 := f u2) = f" by simp
    ultimately show ?thesis using less.prems False by (intro exI [of _ h] exI [of _ "f t"] exI [of _ "f u1"] exI [of _ "f u2"] exI [of _ 0]) auto
  next
    case True
    let ?p = "fix1 b (f u1) (f u2) (f u1) div 2" and ?q = "fix1 (- a) (f u1) (f u2) (f u2) div 2"
    define g where "g = f(t := f t div 2, u1 := ?p, u2 := ?q)"
    have bp: "\<bar>f u1\<bar> \<le> 2 * C - b" "\<bar>f u2\<bar> \<le> 2 * C - b" using less.prems(6,7) True by simp_all
    have room: "\<bar>f u1 + f IB\<bar> < int (limb_base ^ K)" "\<bar>f u2 - f IA\<bar> < int (limb_base ^ K)"
      using bp assms(7,8,10) unfolding less.prems(2,3) by linarith+
    have eq: "f u1 * f IA + f u2 * f IB = f t" "coprime (f IA) (f IB)" using less.prems(5) assms(6) unfolding less.prems(2,3) by simp_all
    obtain h1 where h1: "inv_shift c t u1 u2 h = Inr (0, h1)" "frame inv_vars h h1" "holds K g h1"
      using inv_shift_ok [OF assms(1) less.prems(1) assms(2-5) True eq room] unfolding less.prems(2,3) g_def by blast
    have g: "g t = f t div 2" "g u1 = ?p" "g u2 = ?q" "g IA = a" "g IB = b" using assms(5) less.prems(2,3) by (auto simp: g_def)
    have pos: "0 < g t" "nat (g t) < nat (f t)" using less.prems(4) True unfolding g by (auto elim!: evenE)
    have pq: "\<bar>?p\<bar> \<le> C" "\<bar>?q\<bar> \<le> C" using fix_bound [OF bp(1), of b] fix_bound [OF bp(2), of "- a"] assms(7,8) by simp_all
    then have b1: "\<bar>g u1\<bar> \<le> (if even (g t) then 2 * C - b else C)" "\<bar>g u2\<bar> \<le> (if even (g t) then 2 * C - b else C)" using assms(9) by (simp_all only: g) (auto simp: abs_le_iff)
    have comb: "g u1 * a + g u2 * b = g t" unfolding g by (rule fix_combination [OF assms(6) less.prems(5) True])
    obtain h2 v p q j where r: "inv_halve c t u1 u2 h1 = Inr (0, h2)" "frame inv_vars h1 h2" "holds K (g(t := v, u1 := p, u2 := q)) h2" "odd v" "0 < v"
        "p * a + q * b = v" "\<bar>p\<bar> \<le> C" "\<bar>q\<bar> \<le> C" "g t = 2 ^ j * v"
      using less.hyps [OF pos(2) h1(3) g(4,5) pos(1) comb b1] by blast
    have "inv_halve c t u1 u2 h = Inr (0, h2)"
      using bit True h1(1) r(1) unfolding inv_halve_def by (subst mpi_while_unfold) simp
    moreover have "g(t := v, u1 := p, u2 := q) = f(t := v, u1 := p, u2 := q)" using assms(5) by (auto simp: g_def fun_eq_iff)
    then have "holds K (f(t := v, u1 := p, u2 := q)) h2" using r(3) by simp
    moreover have "f t = 2 ^ Suc j * v" using r(9) True unfolding g by (auto elim!: evenE)
    ultimately show ?thesis using r(4-8) frame_trans [OF h1(2) r(2)] by blast
  qed
qed

section \<open>The loop\<close>

text \<open>One of the two numbers with its coefficients, and the two numbers after \<open>k\<close> rounds.  A round may double a coefficient and adds at most
  the modulus to it when it is halved again; the product of the numbers is halved, which bounds the rounds.\<close>

definition inv_side :: "int \<Rightarrow> int \<Rightarrow> int \<Rightarrow> int \<Rightarrow> int \<Rightarrow> int \<Rightarrow> bool" where
  "inv_side a b C u p q \<longleftrightarrow> 0 < u \<and> u \<le> b \<and> p * a + q * b = u \<and> \<bar>p\<bar> \<le> (if even u then 2 * C - b else C) \<and> \<bar>q\<bar> \<le> (if even u then 2 * C - b else C)"

definition inv_pair :: "int \<Rightarrow> nat \<Rightarrow> int \<Rightarrow> int \<Rightarrow> bool" where
  "inv_pair b k u v \<longleftrightarrow> coprime u v \<and> 2 ^ k * (u * v) \<le> 2 * b\<^sup>2 \<and> (odd u \<and> odd v \<longrightarrow> 2 ^ k * (u * v) \<le> b\<^sup>2)"

definition inv_head :: "int \<Rightarrow> int \<Rightarrow> nat \<Rightarrow> (mvar \<Rightarrow> int) \<Rightarrow> bool" where
  "inv_head a b k f \<longleftrightarrow> f IA = a \<and> f IB = b \<and> inv_side a b (b * (int k + 1)) (f IU) (f IU1) (f IU2) \<and>
     inv_side a b (b * (int k + 1)) (f IV) (f IV1) (f IV2) \<and> inv_pair b k (f IU) (f IV)"

lemma inv_pair_commute: "inv_pair b k u v = inv_pair b k v u"
  by (auto simp: inv_pair_def coprime_commute mult.commute)

lemma inv_pair_halved:
  assumes "inv_pair b k (2 ^ i * u) (2 ^ j * v)" "odd u" "odd v" "0 < u" "0 < v"
  shows "inv_pair b k u v" "2 ^ k * (u * v) \<le> b\<^sup>2"
proof -
  have cop: "coprime u v" using assms(1) by (auto simp: inv_pair_def intro: coprime_divisors)
  show *: "2 ^ k * (u * v) \<le> b\<^sup>2"
  proof (cases "i + j = 0")
    case True
    then show ?thesis using assms(1-3) by (simp add: inv_pair_def)
  next
    case False
    have "(2 :: int) ^ 1 \<le> 2 ^ (i + j)" using False by (intro power_increasing) auto
    then have "2 * (2 ^ k * (u * v)) \<le> 2 ^ (i + j) * (2 ^ k * (u * v))" using assms(4,5) by (intro mult_right_mono) auto
    also have "\<dots> = 2 ^ k * ((2 ^ i * u) * (2 ^ j * v))" by (simp add: power_add algebra_simps)
    also have "\<dots> \<le> 2 * b\<^sup>2" using assms(1) by (simp add: inv_pair_def)
    finally show ?thesis by simp
  qed
  then show "inv_pair b k u v" using cop by (simp add: inv_pair_def) (smt (verit) zero_le_power2)
qed

lemma inv_pair_next:
  assumes "2 ^ k * (u * v) \<le> b\<^sup>2" "coprime u v" "odd u" "odd v" "0 < v" "v < u"
  shows "inv_pair b (Suc k) (u - v) v"
proof -
  have "2 ^ k * ((u - v) * v) \<le> 2 ^ k * (u * v)" using assms(5,6) by (intro mult_left_mono mult_right_mono) auto
  then have "2 ^ k * ((u - v) * v) \<le> b\<^sup>2" using assms(1) by (rule order_trans)
  then have "2 ^ Suc k * ((u - v) * v) \<le> 2 * b\<^sup>2" by simp
  moreover have "coprime (u - v) v" using assms(2) by (metis coprime_iff_gcd_eq_1 gcd_diff1)
  ultimately show ?thesis using assms(3,4) by (simp add: inv_pair_def)
qed

lemma inv_side_next:
  assumes "inv_side a b (b * (int k + 1)) u p q" "inv_side a b (b * (int k + 1)) v r s" "odd u" "odd v" "v < u"
  shows "inv_side a b (b * (int (Suc k) + 1)) (u - v) (p - r) (q - s)" "inv_side a b (b * (int (Suc k) + 1)) v r s"
proof -
  have b: "0 < b" using assms(1) by (auto simp: inv_side_def)
  have e: "b * (int (Suc k) + 1) = b * (int k + 1) + b" by (simp add: algebra_simps)
  have "even (u - v)" using assms(3,4) by simp
  moreover have "(p - r) * a + (q - s) * b = u - v" using assms(1,2) by (auto simp: inv_side_def algebra_simps)
  moreover have "\<bar>p\<bar> \<le> b * (int k + 1)" "\<bar>q\<bar> \<le> b * (int k + 1)" "\<bar>r\<bar> \<le> b * (int k + 1)" "\<bar>s\<bar> \<le> b * (int k + 1)" "u \<le> b" "0 < v"
    using assms(1-4) by (simp_all add: inv_side_def)
  ultimately show "inv_side a b (b * (int (Suc k) + 1)) (u - v) (p - r) (q - s)" using b assms(5) unfolding inv_side_def e by (auto simp: abs_le_iff)
  show "inv_side a b (b * (int (Suc k) + 1)) v r s" using assms(2,4) b unfolding inv_side_def e by auto
qed

lemma inv_diff3:
  assumes "libc_total c" "holds K f h" "{x, x1, x2, y, y1, y2} \<subseteq> inv_vars" "distinct [x, x1, x2, y, y1, y2]"
    and "\<bar>f x - f y\<bar> < int (limb_base ^ K)" "\<bar>f x1 - f y1\<bar> < int (limb_base ^ K)" "\<bar>f x2 - f y2\<bar> < int (limb_base ^ K)"
  shows "\<exists>h'. mpi_seq [shmpi_sub_mpi c x x y, shmpi_sub_mpi c x1 x1 y1, shmpi_sub_mpi c x2 x2 y2] h = Inr (0, h') \<and> frame inv_vars h h' \<and>
    holds K (f(x := f x - f y, x1 := f x1 - f y1, x2 := f x2 - f y2)) h'"
proof -
  have v: "x \<in> inv_vars" "x1 \<in> inv_vars" "x2 \<in> inv_vars" "y \<in> inv_vars" "y1 \<in> inv_vars" "y2 \<in> inv_vars" using assms(3) by simp_all
  obtain h1 where h1: "shmpi_sub_mpi c x x y h = Inr (0, h1)" "holds K (f(x := f x - f y)) h1" "frame inv_vars h h1"
    using holds_sub [OF assms(1,2) v(1,4) assms(5)] by blast
  obtain h2 where h2: "shmpi_sub_mpi c x1 x1 y1 h1 = Inr (0, h2)" "holds K (f(x := f x - f y, x1 := f x1 - f y1)) h2" "frame inv_vars h1 h2"
    using holds_sub [OF assms(1) h1(2) v(2,5)] assms(4,6) by auto
  obtain h3 where h3: "shmpi_sub_mpi c x2 x2 y2 h2 = Inr (0, h3)" "holds K (f(x := f x - f y, x1 := f x1 - f y1, x2 := f x2 - f y2)) h3" "frame inv_vars h2 h3"
    using holds_sub [OF assms(1) h2(2) v(3,6)] assms(4,7) by auto
  show ?thesis using h1 h2 h3 frame_trans [OF frame_trans [OF h1(3) h2(3)] h3(3)] by (intro exI [of _ h3]) simp
qed

text \<open>What a round leaves: the numbers of the next one, or the coefficients of 1.\<close>

definition inv_result :: "int \<Rightarrow> int \<Rightarrow> nat \<Rightarrow> (mvar \<Rightarrow> int) \<Rightarrow> bool" where
  "inv_result a b k f \<longleftrightarrow> f IU = 0 \<and> f IV1 * a + f IV2 * b = 1 \<and> \<bar>f IV1\<bar> \<le> b * (int k + 1)"

lemma inv_halves_ok:
  assumes "libc_total c" "holds K f h" "inv_head a b k f" "coprime a b" "0 \<le> a" "a \<le> b" "2 * (b * (int k + 1)) < int (limb_base ^ K)"
  shows "\<exists>h' g. mpi_seq [inv_halve c IU IU1 IU2, inv_halve c IV IV1 IV2] h = Inr (0, h') \<and> frame inv_vars h h' \<and> holds K g h' \<and> inv_head a b k g \<and> odd (g IU) \<and> odd (g IV) \<and>
    2 ^ k * (g IU * g IV) \<le> b\<^sup>2 \<and> g IU \<le> f IU \<and> g IV \<le> f IV"
proof -
  let ?C = "b * (int k + 1)"
  have b: "0 < b" using assms(3) by (auto simp: inv_head_def inv_side_def)
  have C: "b \<le> ?C" using b by (simp add: algebra_simps)
  have m: "IU \<in> inv_vars" "IU1 \<in> inv_vars" "IU2 \<in> inv_vars" "IV \<in> inv_vars" "IV1 \<in> inv_vars" "IV2 \<in> inv_vars" by (simp_all add: inv_vars_def)
  have d: "distinct [IU, IU1, IU2, IA, IB]" "distinct [IV, IV1, IV2, IA, IB]" by simp_all
  have hd: "f IA = a" "f IB = b" "0 < f IU" "f IU1 * a + f IU2 * b = f IU" "\<bar>f IU1\<bar> \<le> (if even (f IU) then 2 * ?C - b else ?C)" "\<bar>f IU2\<bar> \<le> (if even (f IU) then 2 * ?C - b else ?C)"
    using assms(3) unfolding inv_head_def inv_side_def by blast+
  obtain h1 u p q i where h1: "inv_halve c IU IU1 IU2 h = Inr (0, h1)" "frame inv_vars h h1" "holds K (f(IU := u, IU1 := p, IU2 := q)) h1" "odd u" "0 < u"
      "p * a + q * b = u" "\<bar>p\<bar> \<le> ?C" "\<bar>q\<bar> \<le> ?C" "f IU = 2 ^ i * u"
    using inv_halve_ok [OF assms(1) m(1-3) d(1) assms(4-6) C assms(7) assms(2) hd] by blast
  define f1 where "f1 = f(IU := u, IU1 := p, IU2 := q)"
  have f1: "f1 IA = a" "f1 IB = b" "f1 IV = f IV" "f1 IV1 = f IV1" "f1 IV2 = f IV2" "f1 IU = u" using hd by (simp_all add: f1_def)
  have hd1: "0 < f1 IV" "f1 IV1 * a + f1 IV2 * b = f1 IV" "\<bar>f1 IV1\<bar> \<le> (if even (f1 IV) then 2 * ?C - b else ?C)" "\<bar>f1 IV2\<bar> \<le> (if even (f1 IV) then 2 * ?C - b else ?C)"
    using assms(3) unfolding inv_head_def inv_side_def f1 by blast+
  obtain h2 v r s j where h2: "inv_halve c IV IV1 IV2 h1 = Inr (0, h2)" "frame inv_vars h1 h2" "holds K (f1(IV := v, IV1 := r, IV2 := s)) h2" "odd v" "0 < v"
      "r * a + s * b = v" "\<bar>r\<bar> \<le> ?C" "\<bar>s\<bar> \<le> ?C" "f1 IV = 2 ^ j * v"
    using inv_halve_ok [OF assms(1) m(4-6) d(2) assms(4-6) C assms(7) h1(3) [folded f1_def] f1(1,2) hd1] by blast
  define g where "g = f1(IV := v, IV1 := r, IV2 := s)"
  have g: "g IA = a" "g IB = b" "g IU = u" "g IU1 = p" "g IU2 = q" "g IV = v" "g IV1 = r" "g IV2 = s" using f1 by (simp_all add: g_def) (simp_all add: f1_def)
  have le: "x \<le> 2 ^ n * x" if "0 < x" for x :: int and n using that by (simp add: mult_le_cancel_right1)
  have uv: "u \<le> f IU" "v \<le> f IV" using le [OF h1(5), of i] le [OF h2(5), of j] h1(9) h2(9) f1(3) by simp_all
  have "inv_pair b k (2 ^ i * u) (2 ^ j * v)" using assms(3) h1(9) h2(9) f1(3) by (simp add: inv_head_def)
  note pr = inv_pair_halved [OF this h1(4) h2(4) h1(5) h2(5)]
  have "f IU \<le> b" "f IV \<le> b" using assms(3) by (simp_all add: inv_head_def inv_side_def)
  then have "inv_head a b k g" using pr(1) uv h1(4-8) h2(4-8) unfolding inv_head_def inv_side_def g by auto
  then show ?thesis using h1(1,2,4) h2(1-4) pr(2) uv frame_trans [OF h1(2) h2(2)] unfolding g_def [symmetric] by (intro exI [of _ h2] exI [of _ g]) (simp add: g)
qed

lemma inv_diff_ok:
  assumes "libc_total c" "holds K g h" "inv_head a b k g" "odd (g IU)" "odd (g IV)" "2 ^ k * (g IU * g IV) \<le> b\<^sup>2" "2 * (b * (int k + 1)) < int (limb_base ^ K)"
  shows "\<exists>h' f. inv_diff c h = Inr (0, h') \<and> frame inv_vars h h' \<and> holds K f h' \<and> f IU + f IV < g IU + g IV \<and> 0 \<le> f IU \<and>
    (if f IU = 0 then inv_result a b k f else inv_head a b (Suc k) f)"
proof -
  let ?C = "b * (int k + 1)"
  have hd: "g IA = a" "g IB = b" "inv_side a b ?C (g IU) (g IU1) (g IU2)" "inv_side a b ?C (g IV) (g IV1) (g IV2)" "coprime (g IU) (g IV)"
    using assms(3) by (auto simp: inv_head_def inv_pair_def)
  have sd: "0 < g IU" "g IU \<le> b" "\<bar>g IU1\<bar> \<le> ?C" "\<bar>g IU2\<bar> \<le> ?C" "0 < g IV" "g IV \<le> b" "\<bar>g IV1\<bar> \<le> ?C" "\<bar>g IV2\<bar> \<le> ?C" "g IV1 * a + g IV2 * b = g IV"
    using hd(3,4) assms(4,5) by (auto simp: inv_side_def)
  have "b \<le> ?C" using sd(1,2) by (simp add: algebra_simps)
  then have room: "\<bar>g IU - g IV\<bar> < int (limb_base ^ K)" "\<bar>g IV - g IU\<bar> < int (limb_base ^ K)" "\<bar>g IU1 - g IV1\<bar> < int (limb_base ^ K)" "\<bar>g IU2 - g IV2\<bar> < int (limb_base ^ K)"
      "\<bar>g IV1 - g IU1\<bar> < int (limb_base ^ K)" "\<bar>g IV2 - g IU2\<bar> < int (limb_base ^ K)"
    using sd assms(7) by linarith+
  have cells: "cell K h IU (g IU)" "cell K h IV (g IV)" using assms(2) by (auto simp: holds_def inv_vars_def)
  have cmp: "0 \<le> shmpi_cmp_mpi (h IU) (h IV) \<longleftrightarrow> g IV \<le> g IU" using cells by (simp add: cmp_mpi_ge cell_def)
  have vars: "{IU, IU1, IU2, IV, IV1, IV2} \<subseteq> inv_vars" "{IV, IV1, IV2, IU, IU1, IU2} \<subseteq> inv_vars" by (auto simp: inv_vars_def)
  have dist: "distinct [IU, IU1, IU2, IV, IV1, IV2]" "distinct [IV, IV1, IV2, IU, IU1, IU2]" by simp_all
  show ?thesis
  proof (cases "g IV \<le> g IU")
    case True
    define f where "f = g(IU := g IU - g IV, IU1 := g IU1 - g IV1, IU2 := g IU2 - g IV2)"
    obtain h' where h': "inv_diff c h = Inr (0, h')" "frame inv_vars h h'" "holds K f h'"
      using inv_diff3 [OF assms(1,2) vars(1) dist(1) room(1,3,4)] True cmp by (auto simp: inv_diff_def f_def)
    have f: "f IU = g IU - g IV" "f IV = g IV" "f IU1 = g IU1 - g IV1" "f IU2 = g IU2 - g IV2" "f IV1 = g IV1" "f IV2 = g IV2" "f IA = a" "f IB = b"
      using hd by (simp_all add: f_def)
    have "if f IU = 0 then inv_result a b k f else inv_head a b (Suc k) f"
    proof (cases "g IU = g IV")
      case eq: True
      then have "g IV = 1" using hd(5) sd(5) by simp
      then show ?thesis using eq sd(7,9) by (simp add: f inv_result_def)
    next
      case False
      then have lt: "g IV < g IU" using True by simp
      show ?thesis using False f(7) inv_side_next [OF hd(3,4) assms(4,5) lt] inv_pair_next [OF assms(6) hd(5) assms(4,5) sd(5) lt] by (simp add: f inv_head_def)
    qed
    then show ?thesis using h' True sd(5) f by (intro exI [of _ h'] exI [of _ f]) simp
  next
    case False
    define f where "f = g(IV := g IV - g IU, IV1 := g IV1 - g IU1, IV2 := g IV2 - g IU2)"
    obtain h' where h': "inv_diff c h = Inr (0, h')" "frame inv_vars h h'" "holds K f h'"
      using inv_diff3 [OF assms(1,2) vars(2) dist(2) room(2,5,6)] False cmp by (auto simp: inv_diff_def f_def)
    have f: "f IU = g IU" "f IV = g IV - g IU" "f IU1 = g IU1" "f IU2 = g IU2" "f IV1 = g IV1 - g IU1" "f IV2 = g IV2 - g IU2" "f IA = a" "f IB = b"
      using hd by (simp_all add: f_def)
    have lt: "g IU < g IV" using False by simp
    have "2 ^ k * (g IV * g IU) \<le> b\<^sup>2" "coprime (g IV) (g IU)" using assms(6) hd(5) by (simp_all add: mult.commute coprime_commute)
    then have "inv_pair b (Suc k) (g IU) (g IV - g IU)" using inv_pair_next [OF _ _ assms(5,4) sd(1) lt] inv_pair_commute by blast
    then have "inv_head a b (Suc k) f" using f(7) inv_side_next [OF hd(4,3) assms(5,4) lt] by (simp add: f inv_head_def)
    then show ?thesis using h' sd(1) f by (intro exI [of _ h'] exI [of _ f]) simp
  qed
qed

lemma inv_step_ok:
  assumes "libc_total c" "holds K f h" "inv_head a b k f" "coprime a b" "0 \<le> a" "a \<le> b" "2 * (b * (int k + 1)) < int (limb_base ^ K)"
  shows "\<exists>h' g. inv_step c h = Inr (0, h') \<and> frame inv_vars h h' \<and> holds K g h' \<and> g IU + g IV < f IU + f IV \<and> 0 \<le> g IU \<and>
    (if g IU = 0 then inv_result a b k g else inv_head a b (Suc k) g)"
proof -
  obtain h1 e where h1: "mpi_seq [inv_halve c IU IU1 IU2, inv_halve c IV IV1 IV2] h = Inr (0, h1)" "frame inv_vars h h1" "holds K e h1" "inv_head a b k e" "odd (e IU)" "odd (e IV)"
      "2 ^ k * (e IU * e IV) \<le> b\<^sup>2" "e IU \<le> f IU" "e IV \<le> f IV"
    using inv_halves_ok [OF assms] by blast
  obtain h2 g where h2: "inv_diff c h1 = Inr (0, h2)" "frame inv_vars h1 h2" "holds K g h2" "g IU + g IV < e IU + e IV" "0 \<le> g IU"
      "if g IU = 0 then inv_result a b k g else inv_head a b (Suc k) g"
    using inv_diff_ok [OF assms(1) h1(3-7) assms(7)] by blast
  have "inv_step c h = Inr (0, h2)" using mpi_seq_append [OF h1(1), of "[inv_diff c]"] h2(1) by (simp add: inv_step_def)
  moreover have "g IU + g IV < f IU + f IV" using h1(8,9) h2(4) by linarith
  ultimately show ?thesis using h2(3,5,6) frame_trans [OF h1(2) h2(2)] by blast
qed

lemma inv_loop_ok:
  assumes "libc_total c" "coprime a b" "0 \<le> a" "a \<le> b" and room: "\<And>k. 2 ^ k \<le> 2 * b\<^sup>2 \<Longrightarrow> 2 * (b * (int k + 1)) < int (limb_base ^ K)"
  shows "holds K f h \<Longrightarrow> inv_head a b k f \<Longrightarrow> \<exists>h' g m. inv_loop c h = Inr (0, h') \<and> frame inv_vars h h' \<and> holds K g h' \<and> inv_result a b m g \<and> 2 * (b * (int m + 1)) < int (limb_base ^ K)"
proof (induction "nat (f IU + f IV)" arbitrary: f h k rule: less_induct)
  case less
  have uv: "0 < f IU" "0 < f IV" "2 ^ k * (f IU * f IV) \<le> 2 * b\<^sup>2" using less.prems(2) by (auto simp: inv_head_def inv_side_def inv_pair_def)
  have "2 ^ k * 1 \<le> 2 ^ k * (f IU * f IV)" using uv(1,2) by (intro mult_left_mono) (auto simp: int_one_le_iff_zero_less)
  then have r: "2 * (b * (int k + 1)) < int (limb_base ^ K)" using uv(3) by (intro room) linarith
  obtain h1 g where h1: "inv_step c h = Inr (0, h1)" "frame inv_vars h h1" "holds K g h1" "g IU + g IV < f IU + f IV" "0 \<le> g IU"
      "if g IU = 0 then inv_result a b k g else inv_head a b (Suc k) g"
    using inv_step_ok [OF assms(1) less.prems assms(2-4) r] by blast
  have "mpi_ok (h1 IU)" "mpi_val (h1 IU) = g IU" using h1(3) by (auto simp: holds_def inv_vars_def cell_def)
  then have z: "shmpi_cmp_int (h1 IU) 0 = Inr (sgn (g IU))" using cmp_zero by metis
  let ?w = "mpi_while (\<lambda>h. run_bind (shmpi_cmp_int (h IU) 0) (\<lambda>s. Inr (s \<noteq> 0))) (inv_step c)"
  have L: "inv_loop c h = ?w h1" using h1(1) by (simp add: inv_loop_def)
  show ?case
  proof (cases "g IU = 0")
    case True
    then have "?w h1 = Inr (0, h1)" using z by (subst mpi_while_unfold) simp
    then show ?thesis using L h1(2,3,6) True r by auto
  next
    case False
    then have "?w h1 = inv_loop c h1" using z unfolding inv_loop_def by (subst mpi_while_unfold) (simp add: sgn_if)
    moreover have "nat (g IU + g IV) < nat (f IU + f IV)" using h1(4) uv by linarith
    ultimately show ?thesis using L less.hyps [of g h1 "Suc k"] h1(3,6) False frame_trans [OF h1(2)] by (metis (no_types, lifting))
  qed
qed

section \<open>The result\<close>

lemma reduce_up:
  assumes "libc_total c" "0 < K" "K < MPI_MAX_LIMBS" "outer_var 6 n" "0 < N" "N < int (limb_base ^ K)"
  shows "blank_locals 1 h \<Longrightarrow> cell K h n N \<Longrightarrow> cell K h IV1 v \<Longrightarrow> \<bar>v\<bar> < int (limb_base ^ K) \<Longrightarrow>
    \<exists>X w. mpi_while (\<lambda>h. run_bind (shmpi_cmp_int (h IV1) 0) (\<lambda>s. Inr (s < 0))) (shmpi_add_mpi c IV1 IV1 n) h = Inr (0, h(IV1 := X)) \<and>
      cell K (h(IV1 := X)) IV1 w \<and> 0 \<le> w \<and> w < int (limb_base ^ K) \<and> w mod N = v mod N"
proof (induction "nat (- v)" arbitrary: v h rule: less_induct)
  case less
  let ?w = "mpi_while (\<lambda>h. run_bind (shmpi_cmp_int (h IV1) 0) (\<lambda>s. Inr (s < 0))) (shmpi_add_mpi c IV1 IV1 n)"
  have n: "outer_var 1 n" "n \<noteq> IV1" using outer_var_mono [OF assms(4), of 1] assms(4) by auto
  have z: "shmpi_cmp_int (h IV1) 0 = Inr (sgn v)" using cmp_zero [of "h IV1"] less.prems(3) by (simp add: cell_def)
  show ?case
  proof (cases "v < 0")
    case True
    have "\<bar>v + N\<bar> < int (limb_base ^ K)" using True less.prems(4) assms(5,6) by linarith
    then obtain X where X: "shmpi_add_mpi c IV1 IV1 n h = Inr (0, h(IV1 := X))" "cell K (h(IV1 := X)) IV1 (v + N)"
      using cell_add [OF assms(1) less.prems(1) assms(2,3) _ n(1) _ less.prems(3,2)] n(2) by auto
    have "blank_locals 1 (h(IV1 := X))" "cell K (h(IV1 := X)) n N" "nat (- (v + N)) < nat (- v)" using less.prems(1,2) n(2) True assms(5) by auto
    then obtain Y w where Y: "?w (h(IV1 := X)) = Inr (0, (h(IV1 := X))(IV1 := Y))" "cell K ((h(IV1 := X))(IV1 := Y)) IV1 w" "0 \<le> w" "w < int (limb_base ^ K)" "w mod N = (v + N) mod N"
      using less.hyps [of "v + N" "h(IV1 := X)"] X(2) \<open>\<bar>v + N\<bar> < int (limb_base ^ K)\<close> by blast
    have "?w h = Inr (0, h(IV1 := Y))" using z True X(1) Y(1) by (subst mpi_while_unfold) simp
    then show ?thesis using Y(2-5) by auto
  next
    case False
    then have "?w h = Inr (0, h)" using z by (subst mpi_while_unfold) (simp add: sgn_if)
    then show ?thesis using False less.prems(3,4) by (intro exI [of _ "h IV1"] exI [of _ v]) auto
  qed
qed

lemma reduce_down:
  assumes "libc_total c" "0 < K" "K < MPI_MAX_LIMBS" "outer_var 6 n" "0 < N" "N < int (limb_base ^ K)"
  shows "blank_locals 1 h \<Longrightarrow> cell K h n N \<Longrightarrow> cell K h IV1 v \<Longrightarrow> 0 \<le> v \<Longrightarrow> v < int (limb_base ^ K) \<Longrightarrow>
    \<exists>X. mpi_while (\<lambda>h. Inr (0 \<le> shmpi_cmp_mpi (h IV1) (h n))) (shmpi_sub_mpi c IV1 IV1 n) h = Inr (0, h(IV1 := X)) \<and> cell K (h(IV1 := X)) IV1 (v mod N)"
proof (induction "nat v" arbitrary: v h rule: less_induct)
  case less
  let ?w = "mpi_while (\<lambda>h. Inr (0 \<le> shmpi_cmp_mpi (h IV1) (h n))) (shmpi_sub_mpi c IV1 IV1 n)"
  have n: "outer_var 1 n" "n \<noteq> IV1" using outer_var_mono [OF assms(4), of 1] assms(4) by auto
  have z: "0 \<le> shmpi_cmp_mpi (h IV1) (h n) \<longleftrightarrow> N \<le> v" using less.prems(2,3) by (simp add: cmp_mpi_ge cell_def)
  show ?case
  proof (cases "N \<le> v")
    case True
    have "\<bar>v - N\<bar> < int (limb_base ^ K)" using True less.prems(5) assms(5) by linarith
    then obtain X where X: "shmpi_sub_mpi c IV1 IV1 n h = Inr (0, h(IV1 := X))" "cell K (h(IV1 := X)) IV1 (v - N)"
      using cell_sub [OF assms(1) less.prems(1) assms(2,3) _ n(1) less.prems(3,2)] by auto
    have "blank_locals 1 (h(IV1 := X))" "cell K (h(IV1 := X)) n N" "nat (v - N) < nat v" "0 \<le> v - N" "v - N < int (limb_base ^ K)" using less.prems(1,2,5) n(2) True assms(5) by auto
    then obtain Y where Y: "?w (h(IV1 := X)) = Inr (0, (h(IV1 := X))(IV1 := Y))" "cell K ((h(IV1 := X))(IV1 := Y)) IV1 ((v - N) mod N)"
      using less.hyps [of "v - N" "h(IV1 := X)"] X(2) by blast
    have "?w h = Inr (0, h(IV1 := Y))" using z True X(1) Y(1) by (subst mpi_while_unfold) simp
    then show ?thesis using Y(2) by auto
  next
    case False
    then have "?w h = Inr (0, h)" using z by (subst mpi_while_unfold) simp
    then show ?thesis using False less.prems(3,4) by (intro exI [of _ "h IV1"]) auto
  qed
qed

lemma inv_reduce_ok:
  assumes "libc_total c" "0 < K" "K < MPI_MAX_LIMBS" "outer_var 6 n" "0 < N" "N < int (limb_base ^ K)" "blank_locals 1 h" "cell K h n N" "cell K h IV1 v" "\<bar>v\<bar> < int (limb_base ^ K)"
  shows "\<exists>X. inv_reduce c n h = Inr (0, h(IV1 := X)) \<and> cell K (h(IV1 := X)) IV1 (v mod N)"
proof -
  obtain X w where X: "mpi_while (\<lambda>h. run_bind (shmpi_cmp_int (h IV1) 0) (\<lambda>s. Inr (s < 0))) (shmpi_add_mpi c IV1 IV1 n) h = Inr (0, h(IV1 := X))"
      "cell K (h(IV1 := X)) IV1 w" "0 \<le> w" "w < int (limb_base ^ K)" "w mod N = v mod N"
    using reduce_up [OF assms] by blast
  have "n \<noteq> IV1" using assms(4) by auto
  then have "cell K (h(IV1 := X)) n N" "blank_locals 1 (h(IV1 := X))" using assms(7,8) by simp_all
  then show ?thesis using reduce_down [OF assms(1-6) _ _ X(2-4)] X(1,5) by (auto simp: inv_reduce_def)
qed

section \<open>The function\<close>

lemma copy_cell:
  assumes "libc_total c" "mpi_ok (h y)" "mp_p (h y) \<noteq> []" "length (mp_p (h y)) \<le> K" "h x = shmpi_init" "0 < K"
  shows "\<exists>X. shmpi_copy c x y h = Inr (0, h(x := X)) \<and> cell K (h(x := X)) x (mpi_val (h y))"
proof -
  have "mpi_room (h x)" by (simp add: assms(5) mpi_room_def)
  then obtain X where "shmpi_copy c x y h = Inr (0, h(x := X))" "mpi_val X = mpi_val (h y)" "mpi_ok X" "mp_p X \<noteq> []" "length (mp_p X) \<le> max 0 (max 1 (used_limbs (mp_p (h y))))"
    using copy_room [where h = h and x = x and y = y, OF assms(1,2)] assms(3,5) by auto
  then show ?thesis using assms(4,6) used_limbs_le [of "mp_p (h y)"] by (intro exI [of _ X]) (auto simp: cell_def)
qed

lemma lset_cell:
  assumes "libc_total c" "- (2 ^ 63) < z" "z < 2 ^ 63" "h x = shmpi_init" "0 < K"
  shows "\<exists>X. shmpi_lset c x z h = Inr (0, h(x := X)) \<and> cell K (h(x := X)) x z"
proof -
  have "mpi_room (h x)" by (simp add: assms(4) mpi_room_def)
  then obtain X where X: "shmpi_lset c x z h = Inr (0, h(x := X))" "mpi_val X = z" "mpi_ok X" "length (mp_p X) = max 1 (length (mp_p (h x)))"
    using lset_room [where h = h and x = x, OF assms(1-3)] by blast
  then have "length (mp_p X) = 1" using assms(4) by simp
  then show ?thesis using X(1-3) assms(5) by (intro exI [of _ X]) (auto simp: cell_def)
qed

lemma inv_consts_ok:
  assumes "libc_total c" "\<forall>v\<in>{IU1, IU2, IV1, IV2}. h v = shmpi_init" "0 < K"
  shows "\<exists>h'. mpi_seq [shmpi_lset c IU1 1, shmpi_lset c IU2 0, shmpi_lset c IV1 0, shmpi_lset c IV2 1] h = Inr (0, h') \<and> frame {IU1, IU2, IV1, IV2} h h' \<and>
    cell K h' IU1 1 \<and> cell K h' IU2 0 \<and> cell K h' IV1 0 \<and> cell K h' IV2 1"
proof -
  have step: "\<exists>X. shmpi_lset c x z g = Inr (0, g(x := X)) \<and> cell K (g(x := X)) x z" if "g x = shmpi_init" "z = 0 \<or> z = 1" for g x z
    by (rule lset_cell [where h = g and x = x, OF assms(1) _ _ that(1) assms(3)]) (use that(2) in auto)
  obtain U1 where U1: "shmpi_lset c IU1 1 h = Inr (0, h(IU1 := U1))" "cell K (h(IU1 := U1)) IU1 1" using step [of h IU1 1] assms(2) by auto
  obtain U2 where U2: "shmpi_lset c IU2 0 (h(IU1 := U1)) = Inr (0, h(IU1 := U1, IU2 := U2))" "cell K (h(IU1 := U1, IU2 := U2)) IU2 0"
    using step [of "h(IU1 := U1)" IU2 0] assms(2) by auto
  obtain V1 where V1: "shmpi_lset c IV1 0 (h(IU1 := U1, IU2 := U2)) = Inr (0, h(IU1 := U1, IU2 := U2, IV1 := V1))" "cell K (h(IU1 := U1, IU2 := U2, IV1 := V1)) IV1 0"
    using step [of "h(IU1 := U1, IU2 := U2)" IV1 0] assms(2) by auto
  obtain V2 where V2: "shmpi_lset c IV2 1 (h(IU1 := U1, IU2 := U2, IV1 := V1)) = Inr (0, h(IU1 := U1, IU2 := U2, IV1 := V1, IV2 := V2))"
      "cell K (h(IU1 := U1, IU2 := U2, IV1 := V1, IV2 := V2)) IV2 1"
    using step [of "h(IU1 := U1, IU2 := U2, IV1 := V1)" IV2 1] assms(2) by auto
  show ?thesis using U1 U2 V1 V2 by (intro exI [of _ "h(IU1 := U1, IU2 := U2, IV1 := V1, IV2 := V2)"]) (simp add: frame_def cell_def)
qed

text \<open>The values at the start of the loop.\<close>

definition inv_start :: "int \<Rightarrow> int \<Rightarrow> mvar \<Rightarrow> int" where
  "inv_start a b = (\<lambda>_. 0)(IA := a, IU := a, IB := b, IV := b, IU1 := 1, IU2 := 0, IV1 := 0, IV2 := 1)"

lemma inv_init_ok:
  assumes "libc_total c" "blank_locals 5 h" "\<forall>v\<in>inv_vars. h v = shmpi_init" "outer_var 6 a" "outer_var 6 n" "mpi_ok (h a)" "length (mp_p (h a)) + 3 < MPI_MAX_LIMBS" "mpi_ok (h n)"
    and "length (mp_p (h n)) \<le> K" "K < MPI_MAX_LIMBS" "0 < mpi_val (h n)" "b = mpi_val (h n)" "r = mpi_val (h a) mod b"
  shows "\<exists>h'. inv_init c a n h = Inr (0, h') \<and> frame inv_vars h h' \<and> (mp_p (h' IU) = [] \<and> r = 0 \<or> holds K (inv_start r b) h')"
proof -
  have i: "h IA = shmpi_init" "h IU = shmpi_init" "h IB = shmpi_init" "h IV = shmpi_init" "h IU1 = shmpi_init" "h IU2 = shmpi_init" "h IV1 = shmpi_init" "h IV2 = shmpi_init"
    using assms(3) by (simp_all add: inv_vars_def)
  have ne: "n \<noteq> Loc 5 k" "a \<noteq> Loc 5 k" for k using assms(4,5) by auto
  have pn: "mp_p (h n) \<noteq> []" using assms(11) by (auto simp: mpi_val_def)
  then have K: "0 < K" using assms(9) by (cases "mp_p (h n)") auto
  have "blank_locals 3 h" "mpi_arg 3 h a" "mpi_arg 3 h n" using assms blank_locals_mono [of 5 h 3] outer_var_mono [of 6 _ 3] by (auto simp: mpi_arg_def)
  then obtain R where R: "shmpi_mod_mpi c IA a n h = Inr (0, h(IA := R))" "mpi_ok R" "mpi_val R = r" "length (mp_p R) \<le> max (max 1 (length (mp_p (h IA)))) (used_limbs (mp_p (h n)))"
    using mod_mpi_ok [where h = h and r = IA and a = a and b = n, OF assms(1)] assms(7,11-13) i(1) ne by (auto simp: MPI_MAX_LIMBS_def)
  have RK: "length (mp_p R) \<le> K" using R(4) K assms(9) used_limbs_le [of "mp_p (h n)"] i(1) by auto
  define h1 where "h1 = h(IA := R)"
  obtain U where U: "shmpi_copy c IU IA h1 = Inr (0, h1(IU := U))" "mp_p R = [] \<longrightarrow> mp_p U = []" "mp_p R \<noteq> [] \<longrightarrow> cell K (h1(IU := U)) IU r"
  proof (cases "mp_p R = []")
    case True
    then have "shmpi_copy c IU IA h1 = Inr (0, h1(IU := shmpi_free (h1 IU)))" by (simp add: shmpi_copy_def h1_def)
    then show ?thesis using True that by (auto simp: shmpi_free_def)
  next
    case False
    then show ?thesis using copy_cell [where h = h1 and x = IU and y = IA and K = K, OF assms(1)] R RK K i(2) that by (auto simp: h1_def)
  qed
  define h2 where "h2 = h1(IU := U)"
  have e2: "h2 n = h n" "h2 IB = shmpi_init" using i ne by (simp_all add: h2_def h1_def)
  obtain B where B: "shmpi_copy c IB n h2 = Inr (0, h2(IB := B))" "cell K (h2(IB := B)) IB b"
    using copy_cell [where h = h2 and x = IB and y = n and K = K, OF assms(1)] assms(8,9,12) pn K unfolding e2 by blast
  define h3 where "h3 = h2(IB := B)"
  have e3: "h3 n = h n" "h3 IV = shmpi_init" using i ne by (simp_all add: h3_def h2_def h1_def)
  obtain V where V: "shmpi_copy c IV n h3 = Inr (0, h3(IV := V))" "cell K (h3(IV := V)) IV b"
    using copy_cell [where h = h3 and x = IV and y = n and K = K, OF assms(1)] assms(8,9,12) pn K unfolding e3 by blast
  define h4 where "h4 = h3(IV := V)"
  have "\<forall>v\<in>{IU1, IU2, IV1, IV2}. h4 v = shmpi_init" using i by (simp add: h4_def h3_def h2_def h1_def)
  then obtain h8 where h8: "mpi_seq [shmpi_lset c IU1 1, shmpi_lset c IU2 0, shmpi_lset c IV1 0, shmpi_lset c IV2 1] h4 = Inr (0, h8)" "frame {IU1, IU2, IV1, IV2} h4 h8"
      "cell K h8 IU1 1" "cell K h8 IU2 0" "cell K h8 IV1 0" "cell K h8 IV2 1"
    using inv_consts_ok [OF assms(1) _ K] by blast
  note defs = h4_def h3_def h2_def h1_def
  have "inv_init c a n h = Inr (0, h8)"
    using R(1) U(1) B(1) V(1) h8(1) by (simp add: inv_init_def mpi_chk_def defs)
  moreover have fr: "frame inv_vars h h8" using h8(2) by (auto simp: defs inv_vars_def frame_def)
  moreover have "mp_p (h8 IU) = [] \<and> r = 0 \<or> holds K (inv_start r b) h8"
  proof (cases "mp_p R = []")
    case True
    then show ?thesis using U(2) R(3) h8(2) by (auto simp: defs mpi_val_def frame_def)
  next
    case False
    then have "cell K h8 IA r" "cell K h8 IU r" using R(2,3) RK U(3) h8(2) by (auto simp: defs cell_def frame_def)
    moreover have "cell K h8 IB b" "cell K h8 IV b" using B(2) V(2) h8(2) by (simp_all add: defs cell_def frame_def)
    moreover have "blank_locals 5 h8" by (rule frame_blank [OF fr inv_vars_outer(2) assms(2)])
    ultimately show ?thesis using K assms(10) h8(3-6) by (auto simp: holds_def inv_vars_def inv_start_def)
  qed
  ultimately show ?thesis by blast
qed

lemma inv_start_head:
  assumes "0 < a" "a \<le> b" "coprime a b"
  shows "inv_head a b 0 (inv_start a b)"
proof -
  have "a * b \<le> b * b" using assms(1,2) by (intro mult_right_mono) auto
  moreover have "0 \<le> b * b" by simp
  ultimately have "a * b \<le> 2 * (b * b)" "a * b \<le> b * b" by linarith+
  then have "inv_pair b 0 a b" using assms(3) by (simp add: inv_pair_def power2_eq_square)
  then show ?thesis using assms(1,2) by (simp add: inv_head_def inv_start_def inv_side_def)
qed

lemma inv_room:
  assumes "0 < b" "b < int (limb_base ^ l)" "l < MPI_MAX_LIMBS" "2 ^ k \<le> 2 * b\<^sup>2"
  shows "2 * (b * (int k + 1)) < int (limb_base ^ Suc l)"
proof -
  have B: "int limb_base = 2 ^ 64" by (simp add: limb_base_def)
  have "b\<^sup>2 < (int (limb_base ^ l))\<^sup>2" using assms(1,2) by (intro power_strict_mono) auto
  also have "\<dots> = 2 ^ (64 * l * 2)" unfolding of_nat_power B by (simp only: power_mult)
  finally have "2 ^ k < (2 :: int) ^ Suc (64 * l * 2)" using assms(4) by simp
  then have "k < Suc (64 * l * 2)" by (rule power_less_imp_less_exp [rotated]) simp
  then have k: "2 * (int k + 1) < int limb_base" using assms(3) by (simp add: MPI_MAX_LIMBS_def B)
  have "2 * (b * (int k + 1)) = b * (2 * (int k + 1))" by simp
  also have "\<dots> < int (limb_base ^ l) * int limb_base" using assms(1,2) k by (intro mult_strict_mono) auto
  also have "\<dots> = int (limb_base ^ Suc l)" by simp
  finally show ?thesis .
qed

lemma inv_blank_id: "blank_locals 6 h \<Longrightarrow> inv_blank h = h"
  by (auto simp: inv_blank_def fun_eq_iff blank_local split: mvar.splits)

lemma inv_blank_frame: "blank_locals 6 h \<Longrightarrow> frame (insert IG inv_vars) h h' \<Longrightarrow> inv_blank h' = h"
  by (auto simp: inv_blank_def fun_eq_iff blank_local frame_def inv_vars_def split: mvar.splits)

lemma inv_blank_upd: "outer_var 6 x \<Longrightarrow> inv_blank (h(x := X)) = (inv_blank h)(x := X)"
  by (auto simp: inv_blank_def fun_eq_iff split: mvar.splits)

text \<open>A call: no local variable is in use, and the sizes leave room.\<close>

definition inv_call :: "mvar \<Rightarrow> mvar \<Rightarrow> mvar \<Rightarrow> mpis \<Rightarrow> bool" where
  "inv_call x a n h \<longleftrightarrow> blank_locals 6 h \<and> outer_var 6 x \<and> outer_var 6 a \<and> outer_var 6 n \<and> mpi_room (h x) \<and> mpi_ok (h a) \<and>
     length (mp_p (h a)) + 3 < MPI_MAX_LIMBS \<and> mpi_ok (h n) \<and> length (mp_p (h n)) + 1 < MPI_MAX_LIMBS \<and> 0 < mpi_val (h n)"

lemma inv_gcd:
  assumes "libc_total c" "inv_call x a n h"
  shows "\<exists>G. shmpi_gcd c IG a n h = Inr (0, h(IG := G)) \<and> shmpi_inv_mod c x a n h =
    (if coprime (mpi_val (h a)) (mpi_val (h n)) then mpi_cleanup (mpi_seq [inv_init c a n, inv_loop c, inv_reduce c n, shmpi_copy c x IV1]) inv_blank (h(IG := G))
     else Inr (ERR_NOT_ACCEPTABLE, h))"
proof -
  have ca: "blank_locals 6 h" "outer_var 5 a" "outer_var 5 n" "mpi_ok (h a)" "mpi_ok (h n)" "0 < mpi_val (h n)"
    using assms(2) outer_var_mono [of 6 _ 5] by (auto simp: inv_call_def)
  have "blank_locals 5 h" "mpi_room (h IG)" "mpi_val (h n) \<noteq> 0" using ca(6) blank_locals_mono [OF ca(1), of 5] blank_local [OF ca(1), of 5 0] by (auto simp: mpi_room_def)
  then obtain G where G: "shmpi_gcd c IG a n h = Inr (0, h(IG := G))" "mpi_ok G" "mpi_val G = gcd (mpi_val (h a)) (mpi_val (h n))"
    using gcd_ok [where h = h and g = IG and a = a and b = n, OF assms(1)] ca(2-5) by auto
  have g: "shmpi_cmp_int G 1 = Inr (sgn (mpi_val G - 1))" using G(2) by (intro cmp_int_val) simp_all
  have n: "shmpi_cmp_int (h n) 0 = Inr 1" using cmp_zero [OF ca(5)] ca(6) by simp
  have "inv_blank (h(IG := G)) = h" by (rule inv_blank_frame [OF ca(1)]) (simp add: frame_def)
  then have "shmpi_inv_mod c x a n h =
    (if coprime (mpi_val (h a)) (mpi_val (h n)) then mpi_cleanup (mpi_seq [inv_init c a n, inv_loop c, inv_reduce c n, shmpi_copy c x IV1]) inv_blank (h(IG := G))
     else Inr (ERR_NOT_ACCEPTABLE, h))"
    using G(1,3) g n inv_blank_id [OF ca(1)] by (simp add: shmpi_inv_mod_def mpi_cleanup_def mpi_chk_def mpi_ret_def coprime_iff_gcd_eq_1 sgn_if)
  then show ?thesis using G(1) by blast
qed

lemma inv_mod_ok:
  assumes "libc_total c" "inv_call x a n h" "coprime (mpi_val (h a)) (mpi_val (h n))" "1 < mpi_val (h n)"
  shows "\<exists>X. shmpi_inv_mod c x a n h = Inr (0, h(x := X)) \<and> mpi_ok X \<and> 0 \<le> mpi_val X \<and> mpi_val X < mpi_val (h n) \<and>
    (mpi_val (h a) * mpi_val X) mod mpi_val (h n) = 1"
proof -
  let ?N = "mpi_val (h n)" and ?A = "mpi_val (h a)" and ?l = "length (mp_p (h n))"
  define K where "K = Suc ?l"
  define r where "r = ?A mod ?N"
  have ca: "blank_locals 6 h" "outer_var 6 x" "outer_var 6 a" "outer_var 6 n" "mpi_room (h x)" "mpi_ok (h a)" "length (mp_p (h a)) + 3 < MPI_MAX_LIMBS" "mpi_ok (h n)" "?l + 1 < MPI_MAX_LIMBS"
    using assms(2) by (auto simp: inv_call_def)
  have K: "?l \<le> K" "K < MPI_MAX_LIMBS" "0 < K" using ca(9) by (simp_all add: K_def)
  obtain G where G: "shmpi_inv_mod c x a n h = mpi_cleanup (mpi_seq [inv_init c a n, inv_loop c, inv_reduce c n, shmpi_copy c x IV1]) inv_blank (h(IG := G))"
    using inv_gcd [OF assms(1,2)] assms(3) by auto
  define h0 where "h0 = h(IG := G)"
  have h0: "h0 a = h a" "h0 n = h n" "h0 x = h x" using ca(2-4) by (auto simp: h0_def)
  have cop: "coprime r ?N" using assms(3,4) by (simp add: r_def coprime_iff_gcd_eq_1 gcd_red_int [symmetric] gcd.commute)
  have r: "0 < r" "r \<le> ?N"
  proof -
    have "r \<noteq> 0" using cop assms(4) by auto
    moreover have "0 \<le> r" "r < ?N" using assms(4) by (simp_all add: r_def)
    ultimately show "0 < r" "r \<le> ?N" by linarith+
  qed
  have b0: "blank_locals 5 h0" using blank_locals_mono [OF ca(1), of 5] by (simp add: h0_def)
  have iv: "\<forall>v\<in>inv_vars. h0 v = shmpi_init" using ca(1) by (auto simp: h0_def inv_vars_def blank_local)
  have "\<exists>h'. inv_init c a n h0 = Inr (0, h') \<and> frame inv_vars h0 h' \<and> (mp_p (h' IU) = [] \<and> r = 0 \<or> holds K (inv_start r ?N) h')"
    by (rule inv_init_ok [OF assms(1) b0 iv ca(3,4)]) (use ca K assms(4) in \<open>simp_all add: h0 r_def\<close>)
  then obtain h1 where h1: "inv_init c a n h0 = Inr (0, h1)" "frame inv_vars h0 h1" "holds K (inv_start r ?N) h1" using r(1) by blast
  have N: "0 < ?N" "?N < int (limb_base ^ ?l)" using assms(4) limbs_nonneg [OF ca(8)] limbs_val_lt [of "mp_p (h n)"] by (simp_all del: of_nat_power)
  have room: "2 * (?N * (int k + 1)) < int (limb_base ^ K)" if "2 ^ k \<le> 2 * ?N\<^sup>2" for k
    unfolding K_def by (rule inv_room [OF N _ that]) (use ca(9) in simp)
  obtain h2 g m where h2: "inv_loop c h1 = Inr (0, h2)" "frame inv_vars h1 h2" "holds K g h2" "inv_result r ?N m g" "2 * (?N * (int m + 1)) < int (limb_base ^ K)"
    using inv_loop_ok [OF assms(1) cop _ r(2) room h1(3) inv_start_head [OF r cop]] r(1) by auto
  have fr: "frame inv_vars h0 h2" by (rule frame_trans [OF h1(2) h2(2)])
  have nv: "n \<notin> inv_vars" "x \<notin> inv_vars" "n \<noteq> IG" "x \<noteq> IG" using ca(2,4) by (auto simp: inv_vars_def)
  have e2: "h2 n = h n" "h2 x = h x" using fr nv h0 by (simp_all add: frame_def)
  have "mp_p (h n) \<noteq> []" using N(1) by (auto simp: mpi_val_def)
  then have cn: "cell K h2 n ?N" using ca(8) K(1) e2 by (simp add: cell_def)
  have cv: "cell K h2 IV1 (g IV1)" "blank_locals 1 h2" using h2(3) blank_locals_mono [of 5 h2 1] by (auto simp: holds_def inv_vars_def)
  have bd: "\<bar>g IV1\<bar> < int (limb_base ^ K)" "?N < int (limb_base ^ K)"
  proof -
    have "?N \<le> ?N * (int m + 1)" using N(1) by (simp add: algebra_simps)
    then show "\<bar>g IV1\<bar> < int (limb_base ^ K)" "?N < int (limb_base ^ K)" using h2(4,5) N(1) unfolding inv_result_def by linarith+
  qed
  obtain W where W: "inv_reduce c n h2 = Inr (0, h2(IV1 := W))" "cell K (h2(IV1 := W)) IV1 (g IV1 mod ?N)"
    using inv_reduce_ok [OF assms(1) K(3,2) ca(4) N(1) bd(2) cv(2) cn cv(1) bd(1)] by blast
  define h3 where "h3 = h2(IV1 := W)"
  have h3: "mpi_ok (h3 IV1)" "mpi_val (h3 IV1) = g IV1 mod ?N" "h3 x = h x" using W(2) e2(2) nv(2) by (auto simp: h3_def cell_def inv_vars_def)
  obtain X where X: "shmpi_copy c x IV1 h3 = Inr (0, h3(x := X))" "mpi_ok X" "mpi_val X = g IV1 mod ?N"
    using copy_room [where h = h3 and x = x and y = IV1, OF assms(1) h3(1)] h3(2,3) ca(5) by auto
  have "frame inv_vars h0 h3" using fr by (simp add: h3_def inv_vars_def)
  then have "frame (insert IG inv_vars) h h3" by (simp add: h0_def frame_def)
  then have "inv_blank (h3(x := X)) = h(x := X)" using inv_blank_frame [OF ca(1)] inv_blank_upd [OF ca(2)] by simp
  then have "shmpi_inv_mod c x a n h = Inr (0, h(x := X))"
    using G h1(1) h2(1) W(1) X(1) by (simp add: mpi_cleanup_def h0_def h3_def)
  moreover have "(?A * mpi_val X) mod ?N = 1"
  proof -
    have "(?A * mpi_val X) mod ?N = (r * g IV1) mod ?N" unfolding X(3) r_def by (simp only: mod_mult_left_eq mod_mult_right_eq)
    also have "r * g IV1 = 1 + (- g IV2) * ?N" using h2(4) by (simp add: inv_result_def algebra_simps)
    also have "\<dots> mod ?N = 1" using assms(4) by (subst mod_mult_self1) simp
    finally show ?thesis .
  qed
  ultimately show ?thesis using X(2,3) N(1) by auto
qed

text \<open>A loop that always goes on and whose body succeeds does not return.\<close>

lemma mpi_while_diverges:
  assumes "P h" and step: "\<And>h. P h \<Longrightarrow> b h = Inr True \<and> (\<exists>h'. m h = Inr (0, h') \<and> P h')"
  shows "mpi_while b m h = Inl Diverge"
proof -
  have "mpi_loop b m h = None"
  proof (rule ccontr)
    assume "mpi_loop b m h \<noteq> None"
    then obtain r where r: "mpi_loop b m h = Some r" by blast
    have "b = b \<and> m = m \<longrightarrow> \<not> P h"
      by (rule mpi_loop.raw_induct [where P = "\<lambda>b' m' h r. b' = b \<and> m' = m \<longrightarrow> \<not> P h", OF _ r]) (use step in fastforce)
    then show False using assms(1) by simp
  qed
  then show ?thesis by (simp add: mpi_while_def)
qed

text \<open>With the modulus 1 the first loop halves zero for ever, or reads the limb of a number without limbs.\<close>

lemma inv_mod_one:
  assumes "libc_total c" "inv_call x a n h" "mpi_val (h n) = 1"
  shows "shmpi_inv_mod c x a n h \<in> {Inl Diverge, Inl NullDeref}"
proof -
  let ?l = "length (mp_p (h n))" and ?f = "inv_start 0 1"
  define K where "K = Suc ?l"
  have ca: "blank_locals 6 h" "outer_var 6 a" "outer_var 6 n" "mpi_ok (h a)" "length (mp_p (h a)) + 3 < MPI_MAX_LIMBS" "mpi_ok (h n)" "?l + 1 < MPI_MAX_LIMBS"
    using assms(2) by (auto simp: inv_call_def)
  obtain G where G: "shmpi_inv_mod c x a n h = mpi_cleanup (mpi_seq [inv_init c a n, inv_loop c, inv_reduce c n, shmpi_copy c x IV1]) inv_blank (h(IG := G))"
    using inv_gcd [OF assms(1,2)] assms(3) by auto
  define h0 where "h0 = h(IG := G)"
  have h0: "h0 a = h a" "h0 n = h n" using ca(2,3) by (auto simp: h0_def)
  have b0: "blank_locals 5 h0" using blank_locals_mono [OF ca(1), of 5] by (simp add: h0_def)
  have iv: "\<forall>v\<in>inv_vars. h0 v = shmpi_init" using ca(1) by (auto simp: h0_def inv_vars_def blank_local)
  have "\<exists>h'. inv_init c a n h0 = Inr (0, h') \<and> frame inv_vars h0 h' \<and> (mp_p (h' IU) = [] \<and> (0 :: int) = 0 \<or> holds K ?f h')"
    by (rule inv_init_ok [OF assms(1) b0 iv ca(2,3)]) (use ca assms(3) in \<open>simp_all add: h0 K_def\<close>)
  then obtain h1 where h1: "inv_init c a n h0 = Inr (0, h1)" "mp_p (h1 IU) = [] \<or> holds K ?f h1" by blast
  have "inv_halve c IU IU1 IU2 h1 \<in> {Inl Diverge, Inl NullDeref}"
  proof (cases "mp_p (h1 IU) = []")
    case True
    then show ?thesis unfolding inv_halve_def by (subst mpi_while_unfold) (simp add: low_bit_def)
  next
    case False
    have "inv_halve c IU IU1 IU2 h1 = Inl Diverge" unfolding inv_halve_def
    proof (rule mpi_while_diverges [where P = "holds K ?f"])
      fix h assume h: "holds K ?f h"
      have m: "IU \<in> inv_vars" "IU1 \<in> inv_vars" "IU2 \<in> inv_vars" by (simp_all add: inv_vars_def)
      have two: "(2 :: int) < int (limb_base ^ K)"
      proof -
        have "limb_base ^ 1 \<le> limb_base ^ K" by (intro power_increasing) (simp_all add: K_def)
        moreover have "2 < limb_base" by (simp add: limb_base_def)
        ultimately have "2 < limb_base ^ K" by simp
        then show ?thesis by (simp only: of_nat_less_iff [where 'a = int, symmetric])
      qed
      have "\<exists>h'. inv_shift c IU IU1 IU2 h = Inr (0, h') \<and> frame inv_vars h h' \<and>
        holds K (?f(IU := ?f IU div 2, IU1 := fix1 (?f IB) (?f IU1) (?f IU2) (?f IU1) div 2, IU2 := fix1 (- ?f IA) (?f IU1) (?f IU2) (?f IU2) div 2)) h'"
        by (rule inv_shift_ok [OF assms(1) h m]) (use two in \<open>simp_all add: inv_start_def\<close>)
      moreover have "?f(IU := ?f IU div 2, IU1 := fix1 (?f IB) (?f IU1) (?f IU2) (?f IU1) div 2, IU2 := fix1 (- ?f IA) (?f IU1) (?f IU2) (?f IU2) div 2) = ?f"
        by (simp add: inv_start_def fix1_def fun_eq_iff)
      ultimately show "run_bind (low_bit IU h) (\<lambda>b. Inr (\<not> b)) = Inr True \<and> (\<exists>h'. inv_shift c IU IU1 IU2 h = Inr (0, h') \<and> holds K ?f h')"
        using holds_bit [OF h m(1)] by (auto simp: inv_start_def)
    qed (use h1(2) False in blast)
    then show ?thesis by simp
  qed
  then show ?thesis using G h1(1) by (auto simp: inv_loop_def inv_step_def mpi_cleanup_def mpi_chk_def h0_def)
qed

end
