(* ===== verification/Share_Primes.thy ===== *)
theory Share_Primes
  imports Share_Prelude
begin

text \<open>
  Number theory for the primality test: Fermat's little theorem and the square roots of one modulo a prime.
\<close>

definition prime_nat :: "nat \<Rightarrow> bool" where
  "prime_nat p \<longleftrightarrow> 1 < p \<and> (\<forall>d. d dvd p \<longrightarrow> d = 1 \<or> d = p)"

text \<open>It is enough to look for divisors up to the square root.\<close>

lemma prime_natI:
  assumes "1 < p" "p < (n + 1) * (n + 1)" "\<forall>d\<in>{2..n}. \<not> d dvd p"
  shows "prime_nat p"
proof -
  have *: "n < d" if "d dvd p" "d \<noteq> 1" for d
  proof (rule ccontr)
    assume "\<not> n < d"
    moreover have "d \<noteq> 0" using that(1) assms(1) by (auto intro: ccontr)
    ultimately have "d \<in> {2..n}" using that(2) by auto
    then show False using assms(3) that(1) by blast
  qed
  have "d = 1 \<or> d = p" if d: "d dvd p" for d
  proof (rule ccontr)
    assume no: "\<not> (d = 1 \<or> d = p)"
    obtain e where e: "p = d * e" using d by (auto elim: dvdE)
    have "e \<noteq> 1" using no e by auto
    then have "n < d" "n < e" using * [OF d] * [of e] no e by auto
    then have "(n + 1) * (n + 1) \<le> d * e" by (intro mult_le_mono) simp_all
    then show False using assms(2) e by simp
  qed
  then show ?thesis using assms(1) by (simp add: prime_nat_def)
qed

lemma prime_coprime: "prime_nat p \<Longrightarrow> \<not> p dvd a \<Longrightarrow> coprime p a"
proof -
  assume p: "prime_nat p" "\<not> p dvd a"
  have "gcd p a = 1 \<or> gcd p a = p" using p(1) by (auto simp: prime_nat_def)
  then show ?thesis using p(2) by (metis coprime_iff_gcd_eq_1 gcd_dvd2)
qed

lemma prime_dvd_mult: "prime_nat p \<Longrightarrow> p dvd a * b \<Longrightarrow> p dvd a \<or> p dvd b"
  using prime_coprime coprime_dvd_mult_right_iff by blast

lemma prime_fact: "prime_nat p \<Longrightarrow> n < p \<Longrightarrow> coprime p (\<Prod>{1..n})"
proof (induction n)
  case (Suc n)
  have "\<not> p dvd Suc n" using Suc.prems(2) by (simp add: nat_dvd_not_less)
  then have "coprime p (Suc n)" by (rule prime_coprime [OF Suc.prems(1)])
  moreover have "\<Prod>{1..Suc n} = \<Prod>{1..n} * Suc n" by simp
  ultimately show ?case using Suc by (simp only: coprime_mult_right_iff)
qed simp

lemma mod_mult_cancel:
  fixes a p x y :: nat
  assumes "coprime a p" "a * x mod p = a * y mod p"
  shows "x mod p = y mod p"
proof -
  have *: "x mod p = y mod p" if "x \<le> y" "a * y mod p = a * x mod p" for x y
  proof -
    have "p dvd a * y - a * x" using that by (simp add: mod_eq_dvd_iff_nat)
    then have "p dvd a * (y - x)" by (simp add: diff_mult_distrib2)
    then have "p dvd y - x" using coprime_dvd_mult_right_iff [of p a] assms(1) coprime_commute [of a p] by blast
    then have "y mod p = x mod p" using that(1) by (simp add: mod_eq_dvd_iff_nat)
    then show ?thesis by simp
  qed
  show ?thesis
  proof (cases "x \<le> y")
    case True
    then show ?thesis by (rule * [OF _ assms(2) [symmetric]])
  next
    case False
    then show ?thesis by (intro * [OF _ assms(2), symmetric]) simp
  qed
qed

text \<open>Multiplication by a number that is not zero permutes the residues.\<close>

lemma mult_permutes:
  assumes "prime_nat p" "\<not> p dvd a"
  shows "(\<lambda>x. a * x mod p) ` {1..p - 1} = {1..p - 1}" "inj_on (\<lambda>x. a * x mod p) {1..p - 1}"
proof -
  have p: "1 < p" using assms(1) by (simp add: prime_nat_def)
  have cop: "coprime a p" using prime_coprime [OF assms] by (simp add: coprime_commute)
  show inj: "inj_on (\<lambda>x. a * x mod p) {1..p - 1}"
  proof (rule inj_onI)
    fix x y assume xy: "x \<in> {1..p - 1}" "y \<in> {1..p - 1}" "a * x mod p = a * y mod p"
    then have "x mod p = y mod p" using mod_mult_cancel [OF cop] by blast
    moreover have "x < p" "y < p" using xy(1,2) p by auto
    ultimately show "x = y" by simp
  qed
  have "(\<lambda>x. a * x mod p) ` {1..p - 1} \<subseteq> {1..p - 1}"
  proof
    fix y assume "y \<in> (\<lambda>x. a * x mod p) ` {1..p - 1}"
    then obtain x where x: "1 \<le> x" "x < p" "y = a * x mod p" using p by fastforce
    have "\<not> p dvd x" using x(1,2) by (simp add: nat_dvd_not_less)
    then have "\<not> p dvd a * x" using prime_dvd_mult [OF assms(1)] assms(2) by blast
    then have "0 < y" using x(3) by (simp add: dvd_eq_mod_eq_0)
    moreover have "y < p" using x(3) p by simp
    ultimately show "y \<in> {1..p - 1}" by simp
  qed
  from endo_inj_surj [OF _ this inj] show "(\<lambda>x. a * x mod p) ` {1..p - 1} = {1..p - 1}" by simp
qed

lemma fermat_little:
  assumes "prime_nat p" "\<not> p dvd a"
  shows "a ^ (p - 1) mod p = 1"
proof -
  let ?S = "{1..p - 1}"
  have p: "1 < p" using assms(1) by (simp add: prime_nat_def)
  have "(\<Prod>x\<in>?S. a * x mod p) = \<Prod>?S" using prod.reindex [OF mult_permutes(2) [OF assms], of id] mult_permutes(1) [OF assms] by simp
  then have "\<Prod>?S mod p = (\<Prod>x\<in>?S. a * x) mod p" by (metis mod_prod_eq)
  also have "(\<Prod>x\<in>?S. a * x) = \<Prod>?S * a ^ (p - 1)" by (simp add: prod.distrib)
  finally have "(\<Prod>?S * a ^ (p - 1)) mod p = (\<Prod>?S * 1) mod p" by simp
  moreover have "coprime p (\<Prod>?S)" by (rule prime_fact [OF assms(1)]) (use p in simp)
  ultimately have "a ^ (p - 1) mod p = 1 mod p" using mod_mult_cancel by (metis coprime_commute)
  then show ?thesis using p by simp
qed

lemma sqrt_one:
  assumes "prime_nat p" "y < p" "y * y mod p = 1"
  shows "y = 1 \<or> y = p - 1"
proof -
  have p: "1 < p" using assms(1) by (simp add: prime_nat_def)
  have y0: "0 < y" using assms(3) by (cases y) auto
  have "(y * y) mod p = 1 mod p" using assms(3) p by simp
  then have "p dvd y * y - 1" by (simp add: mod_eq_dvd_iff_nat [symmetric] Suc_le_eq y0)
  also have "y * y - 1 = (y + 1) * (y - 1)" using y0 by (simp add: algebra_simps)
  finally have "p dvd y + 1 \<or> p dvd y - 1" by (rule prime_dvd_mult [OF assms(1)])
  then show ?thesis
  proof
    assume "p dvd y + 1"
    then have "p \<le> y + 1" by (rule dvd_imp_le) simp
    then have "y = p - 1" using assms(2) by linarith
    then show ?thesis by simp
  next
    assume "p dvd y - 1"
    then have "y - 1 = 0" using assms(2) by (cases "y - 1") (auto dest: dvd_imp_le)
    then show ?thesis using y0 by simp
  qed
qed

text \<open>The squares of a residue whose last one is 1: before the first 1 there is minus 1.\<close>

lemma square_chain:
  assumes "prime_nat p" "y 0 \<noteq> (1 :: nat)" "y 0 \<noteq> p - 1" "y s = 1" "\<And>i. y i < p" "\<And>i. y (Suc i) = y i * y i mod p"
  shows "\<exists>m. 0 < m \<and> m < s \<and> y m = p - 1 \<and> (\<forall>i\<le>m. y i \<noteq> 1)"
proof -
  define k where "k = (LEAST i. y i = 1)"
  have k: "y k = 1" "k \<le> s" unfolding k_def using assms(4) by (auto intro: LeastI Least_le)
  have lt: "i < k \<Longrightarrow> y i \<noteq> 1" for i unfolding k_def by (rule not_less_Least)
  have k0: "k \<noteq> 0" using k(1) assms(2) by (metis)
  then obtain m where m: "k = Suc m" by (cases k) auto
  have "y m * y m mod p = 1" using k(1) assms(6) [of m] m by simp
  then have "y m = p - 1" using sqrt_one [OF assms(1) assms(5)] lt [of m] m by auto
  moreover have "m \<noteq> 0" using \<open>y m = p - 1\<close> assms(3) by metis
  ultimately show ?thesis using k(2) m lt by (intro exI [of _ m]) auto
qed

end
