(* ===== verification/Share_Mpi_Prime.thy ===== *)
theory Share_Mpi_Prime
  imports Share_Mpi_Inv Share_Primes
begin

text \<open>
  Primality tests and the generation of primes: small factors, Miller-Rabin (HAC 4.24), and that no prime is rejected as long as the
  random numbers are usable.  The random number generator is an argument: a function from its state and the number of bytes to its return
  value, the bytes that the buffer then holds and the next state.
\<close>

section \<open>Definitions\<close>

type_synonym 'r rng = "'r \<Rightarrow> nat \<Rightarrow> int \<times> byte list \<times> 'r"

type_synonym 'r rop = "mpis \<times> 'r \<Rightarrow> fault + (int \<times> mpis \<times> 'r)"

definition MPI_MAX_SIZE :: nat where "MPI_MAX_SIZE = 1024"
definition MPI_MAX_BITS :: nat where "MPI_MAX_BITS = 8 * MPI_MAX_SIZE"

text \<open>An operation on numbers that draws nothing, and \<open>MPI_CHK\<close> of operations that may.\<close>

definition rng_lift :: "mop \<Rightarrow> 'r rop" where
  "rng_lift m = (\<lambda>(h, r). run_bind (m h) (\<lambda>(ret, h'). Inr (ret, h', r)))"

definition rng_chk :: "'r rop \<Rightarrow> 'r rop \<Rightarrow> 'r rop" where
  "rng_chk m k = (\<lambda>hr. run_bind (m hr) (\<lambda>(ret, hr'). if ret \<noteq> 0 then Inr (ret, hr') else k hr'))"

definition shmpi_fill_random :: "libc \<Rightarrow> mvar \<Rightarrow> nat \<Rightarrow> 'r rng \<Rightarrow> 'r rop" where
  "shmpi_fill_random c x sz f = (\<lambda>(h, r).
     if MPI_MAX_SIZE < sz then Inr (ERR_BAD_INPUT_DATA, h, r)
     else case f r sz of (ret, buf, r') \<Rightarrow>
       if ret \<noteq> 0 then Inr (ret, h, r') else rng_lift (shmpi_read_binary c x buf) (h, r'))"

subsection \<open>Small factors\<close>

definition small_prime :: "int list" where
  "small_prime = [
    3, 5, 7, 11, 13, 17, 19, 23, 29, 31, 37, 41, 43, 47, 53, 59, 61, 67, 71, 73, 79, 83, 89, 97,
    101, 103, 107, 109, 113, 127, 131, 137, 139, 149, 151, 157, 163, 167, 173, 179, 181, 191, 193, 197, 199, 211, 223, 227,
    229, 233, 239, 241, 251, 257, 263, 269, 271, 277, 281, 283, 293, 307, 311, 313, 317, 331, 337, 347, 349, 353, 359, 367,
    373, 379, 383, 389, 397, 401, 409, 419, 421, 431, 433, 439, 443, 449, 457, 461, 463, 467, 479, 487, 491, 499, 503, 509,
    521, 523, 541, 547, 557, 563, 569, 571, 577, 587, 593, 599, 601, 607, 613, 617, 619, 631, 641, 643, 647, 653, 659, 661,
    673, 677, 683, 691, 701, 709, 719, 727, 733, 739, 743, 751, 757, 761, 769, 773, 787, 797, 809, 811, 821, 823, 827, 829,
    839, 853, 857, 859, 863, 877, 881, 883, 887, 907, 911, 919, 929, 937, 941, 947, 953, 967, 971, 977, 983, 991, 997, - 103]"

fun small_loop :: "int list \<Rightarrow> shmpi \<Rightarrow> fault + int" where
  "small_loop [] X = Inl OutOfBounds"
| "small_loop (p # ps) X =
     (if p \<le> 0 then Inr 0
      else run_bind (shmpi_cmp_int X p) (\<lambda>s.
        if s \<le> 0 then Inr 1
        else run_bind (shmpi_mod_int X p) (\<lambda>(ret, r).
          if ret \<noteq> 0 then Inr ret else if r = Some 0 then Inr ERR_NOT_ACCEPTABLE else small_loop ps X)))"

definition shmpi_check_small_factors :: "shmpi \<Rightarrow> fault + int" where
  "shmpi_check_small_factors X =
     (if mp_p X = [] then Inl NullDeref
      else if mp_p X ! 0 AND 1 = 0 then Inr ERR_NOT_ACCEPTABLE else small_loop small_prime X)"

subsection \<open>Miller-Rabin\<close>

abbreviation "MW \<equiv> Loc 5 0"
abbreviation "MR \<equiv> Loc 5 1"
abbreviation "MT \<equiv> Loc 5 2"
abbreviation "MA \<equiv> Loc 5 3"
abbreviation "MRR \<equiv> Loc 5 4"

text \<open>How a part of the function ends: it goes on, jumps to \<open>cleanup\<close> with an error, or returns without freeing its variables.\<close>

datatype mr_flow = MR_Go | MR_Fail int | MR_Leave int

type_synonym 'r mrop = "mpis \<times> 'r \<Rightarrow> fault + (mr_flow \<times> mpis \<times> 'r)"

definition mr_op :: "'r rop \<Rightarrow> 'r mrop" where
  "mr_op m hr = run_bind (m hr) (\<lambda>(ret, hr'). Inr (if ret \<noteq> 0 then MR_Fail ret else MR_Go, hr'))"

definition mr_then :: "'r mrop \<Rightarrow> 'r mrop \<Rightarrow> 'r mrop" where
  "mr_then m k hr = run_bind (m hr) (\<lambda>(fl, hr'). if fl = MR_Go then k hr' else Inr (fl, hr'))"

text \<open>A draw of \<open>A\<close>, shifted down to the length of \<open>W\<close>.\<close>

definition mr_draw :: "libc \<Rightarrow> mvar \<Rightarrow> 'r rng \<Rightarrow> 'r mrop" where
  "mr_draw c x f = mr_op (\<lambda>(h, r). rng_chk (shmpi_fill_random c MA (length (mp_p (h x)) * 8) f)
     (rng_lift (\<lambda>h. let j = shmpi_msb (h MA); k = shmpi_msb (h MW) in if k < j then shmpi_shift_r c MA (j - k) h else mpi_ret 0 h)) (h, r))"

definition mr_again :: "mpis \<Rightarrow> fault + bool" where
  "mr_again h = (if 0 \<le> shmpi_cmp_mpi (h MA) (h MW) then Inr True else run_bind (shmpi_cmp_int (h MA) 1) (\<lambda>s. Inr (s \<le> 0)))"

text \<open>The loop \<open>do ... while\<close> over the draws; the number is \<open>31 - count\<close>.\<close>

primrec mr_pick :: "libc \<Rightarrow> mvar \<Rightarrow> 'r rng \<Rightarrow> nat \<Rightarrow> 'r mrop" where
  "mr_pick c x f 0 = mr_then (mr_draw c x f) (\<lambda>hr. Inr (MR_Leave ERR_NOT_ACCEPTABLE, hr))"
| "mr_pick c x f (Suc k) = mr_then (mr_draw c x f) (\<lambda>(h, r).
     run_bind (mr_again h) (\<lambda>again. if again then mr_pick c x f k (h, r) else Inr (MR_Go, h, r)))"

text \<open>The loop of squares; the number is \<open>s - j\<close>.\<close>

primrec mr_squares :: "libc \<Rightarrow> mvar \<Rightarrow> nat \<Rightarrow> mop" where
  "mr_squares c x 0 = mpi_ret 0"
| "mr_squares c x (Suc k) = (\<lambda>h.
     if shmpi_cmp_mpi (h MA) (h MW) \<noteq> 0
     then mpi_seq [shmpi_mul_mpi c MT MA MA, shmpi_mod_mpi c MA MT x,
       (\<lambda>h. run_bind (shmpi_cmp_int (h MA) 1) (\<lambda>s. if s = 0 then mpi_ret 0 h else mr_squares c x k h))] h
     else mpi_ret 0 h)"

definition mr_test :: "libc \<Rightarrow> mvar \<Rightarrow> nat \<Rightarrow> 'r mrop" where
  "mr_test c x s = mr_then (mr_op (rng_lift (shmpi_exp_mod c MA MA MR x (Some MRR)))) (\<lambda>(h, r).
     run_bind (shmpi_cmp_int (h MA) 1) (\<lambda>one.
       if shmpi_cmp_mpi (h MA) (h MW) = 0 \<or> one = 0 then Inr (MR_Go, h, r)
       else mr_then (mr_op (rng_lift (mr_squares c x (s - 1)))) (\<lambda>(h, r).
         run_bind (shmpi_cmp_int (h MA) 1) (\<lambda>one.
           Inr (if shmpi_cmp_mpi (h MA) (h MW) \<noteq> 0 \<or> one = 0 then MR_Fail ERR_NOT_ACCEPTABLE else MR_Go, h, r))) (h, r)))"

primrec mr_rounds :: "libc \<Rightarrow> mvar \<Rightarrow> 'r rng \<Rightarrow> nat \<Rightarrow> nat \<Rightarrow> 'r mrop" where
  "mr_rounds c x f s 0 = (\<lambda>hr. Inr (MR_Go, hr))"
| "mr_rounds c x f s (Suc n) = mr_then (mr_pick c x f 31) (mr_then (mr_test c x s) (mr_rounds c x f s n))"

text \<open>The number of rounds (HAC, table 4.4).\<close>

definition mr_count :: "nat \<Rightarrow> nat" where
  "mr_count i = (if 1300 \<le> i then 2 else if 850 \<le> i then 3 else if 650 \<le> i then 4 else if 350 \<le> i then 8
     else if 250 \<le> i then 12 else if 150 \<le> i then 18 else 27)"

definition mr_blank :: "mpis \<Rightarrow> mpis" where
  "mr_blank h v = (case v of Loc j _ \<Rightarrow> if j = 5 then shmpi_init else h v | Arg _ \<Rightarrow> h v)"

definition mr_body :: "libc \<Rightarrow> mvar \<Rightarrow> 'r rng \<Rightarrow> 'r mrop" where
  "mr_body c x f = mr_then (mr_op (rng_lift (shmpi_sub_int c MW x 1))) (\<lambda>(h, r).
     let s = shmpi_lsb (h MW) in
     mr_then (mr_op (rng_lift (mpi_seq [shmpi_copy c MR MW, shmpi_shift_r c MR s])))
       (mr_rounds c x f s (mr_count (shmpi_msb (h x)))) (h, r))"

definition shmpi_miller_rabin :: "libc \<Rightarrow> mvar \<Rightarrow> 'r rng \<Rightarrow> 'r rop" where
  "shmpi_miller_rabin c x f = (\<lambda>(h, r).
     run_bind (mr_body c x f (mr_blank h, r)) (\<lambda>(fl, h', r').
       Inr (case fl of MR_Go \<Rightarrow> (0, mr_blank h', r') | MR_Fail e \<Rightarrow> (e, mr_blank h', r') | MR_Leave e \<Rightarrow> (e, h', r'))))"

text \<open>\<open>XX\<close> is a second struct for the limbs of \<open>X\<close>, which nothing writes.\<close>

abbreviation "PX \<equiv> Loc 6 0"

definition shmpi_is_prime :: "libc \<Rightarrow> mvar \<Rightarrow> 'r rng \<Rightarrow> 'r rop" where
  "shmpi_is_prime c x f = (\<lambda>(h, r).
     let XX = (h x)\<lparr>mp_s := 1\<rparr> in
     run_bind (shmpi_cmp_int XX 0) (\<lambda>s0. run_bind (shmpi_cmp_int XX 1) (\<lambda>s1.
       if s0 = 0 \<or> s1 = 0 then Inr (ERR_NOT_ACCEPTABLE, h, r)
       else run_bind (shmpi_cmp_int XX 2) (\<lambda>s2.
         if s2 = 0 then Inr (0, h, r)
         else run_bind (shmpi_check_small_factors XX) (\<lambda>ret.
           if ret \<noteq> 0 then Inr (if ret = 1 then 0 else ret, h, r)
           else run_bind (shmpi_miller_rabin c PX f (h(PX := XX), r)) (\<lambda>(ret, h', r'). Inr (ret, h'(PX := shmpi_init), r')))))))"

subsection \<open>Generation\<close>

abbreviation "PY \<equiv> Loc 7 0"

text \<open>The search for a prime from an odd number upwards, which may go on for ever.\<close>

partial_function (option) gp_search :: "libc \<Rightarrow> mvar \<Rightarrow> 'r rng \<Rightarrow> mpis \<times> 'r \<Rightarrow> (fault + (int \<times> mpis \<times> 'r)) option" where
  [code]: "gp_search c x f hr =
     (case shmpi_is_prime c x f hr of Inl e \<Rightarrow> Some (Inl e)
      | Inr (ret, h, r) \<Rightarrow>
        if ret = 0 \<or> ret \<noteq> ERR_NOT_ACCEPTABLE then Some (Inr (ret, h, r))
        else case shmpi_add_int c x x 2 h of Inl e \<Rightarrow> Some (Inl e)
          | Inr (ret, h') \<Rightarrow> if ret \<noteq> 0 then Some (Inr (ret, h', r)) else gp_search c x f (h', r))"

text \<open>The search for \<open>X = 2 Y + 1\<close> with both numbers prime.\<close>

definition gp_small :: "mvar \<Rightarrow> 'r rop" where
  "gp_small x = (\<lambda>(h, r). run_bind (shmpi_check_small_factors (h x)) (\<lambda>ret. Inr (ret, h, r)))"

definition gp_tests :: "libc \<Rightarrow> mvar \<Rightarrow> 'r rng \<Rightarrow> 'r rop" where
  "gp_tests c x f = rng_chk (gp_small x) (rng_chk (gp_small PY) (rng_chk (shmpi_miller_rabin c x f) (shmpi_miller_rabin c PY f)))"

partial_function (option) gp_safe :: "libc \<Rightarrow> mvar \<Rightarrow> 'r rng \<Rightarrow> mpis \<times> 'r \<Rightarrow> (fault + (int \<times> mpis \<times> 'r)) option" where
  [code]: "gp_safe c x f hr =
     (case gp_tests c x f hr of Inl e \<Rightarrow> Some (Inl e)
      | Inr (ret, h, r) \<Rightarrow>
        if ret = 0 \<or> ret \<noteq> ERR_NOT_ACCEPTABLE then Some (Inr (ret, h, r))
        else case mpi_seq [shmpi_add_int c x x 12, shmpi_add_int c PY PY 6] h of Inl e \<Rightarrow> Some (Inl e)
          | Inr (ret, h') \<Rightarrow> if ret \<noteq> 0 then Some (Inr (ret, h', r)) else gp_safe c x f (h', r))"

definition gp_run :: "(mpis \<times> 'r \<Rightarrow> (fault + (int \<times> mpis \<times> 'r)) option) \<Rightarrow> 'r rop" where
  "gp_run m hr = (case m hr of None \<Rightarrow> Inl Diverge | Some res \<Rightarrow> res)"

text \<open>\<open>X\<close> is made 3 modulo 4 and 2 modulo 3, and \<open>Y\<close> is half of it.\<close>

definition gp_align :: "libc \<Rightarrow> mvar \<Rightarrow> mop" where
  "gp_align c x = mpi_seq [
     limb_upd x 0 (\<lambda>l. l OR 2),
     (\<lambda>h. run_bind (shmpi_mod_int (h x) 3) (\<lambda>(ret, r).
       if ret \<noteq> 0 then mpi_ret ret h
       else if r = Some 0 then shmpi_add_int c x x 8 h else if r = Some 1 then shmpi_add_int c x x 4 h else mpi_ret 0 h)),
     shmpi_copy c PY x, shmpi_shift_r c PY 1]"

definition gp_body :: "libc \<Rightarrow> mvar \<Rightarrow> nat \<Rightarrow> bool \<Rightarrow> 'r rng \<Rightarrow> 'r rop" where
  "gp_body c x nbits dh f =
     rng_chk (shmpi_fill_random c x (BITS_TO_LIMBS nbits * 8) f)
       (rng_chk (rng_lift (\<lambda>h. let k = shmpi_msb (h x) in if nbits < k then shmpi_shift_r c x (k - nbits + 1) h else mpi_ret 0 h))
         (\<lambda>(h, r). run_bind (shmpi_set_bit c x (nbits - 1) 1 h) (\<lambda>(_, h).
           rng_chk (rng_lift (limb_upd x 0 (\<lambda>l. l OR 1)))
             (if \<not> dh then gp_run (gp_search c x f) else rng_chk (rng_lift (gp_align c x)) (gp_run (gp_safe c x f))) (h, r))))"

definition shmpi_gen_prime :: "libc \<Rightarrow> mvar \<Rightarrow> nat \<Rightarrow> bool \<Rightarrow> 'r rng \<Rightarrow> 'r rop" where
  "shmpi_gen_prime c x nbits dh f = (\<lambda>(h, r).
     if nbits < 3 \<or> MPI_MAX_BITS < nbits then Inr (ERR_BAD_INPUT_DATA, h, r)
     else run_bind (gp_body c x nbits dh f (h(PY := shmpi_init), r)) (\<lambda>(ret, h', r'). Inr (ret, h'(PY := shmpi_init), r')))"

section \<open>Small factors\<close>

lemma small_loop_prime:
  assumes "mpi_ok X" "mpi_val X = int p" "prime_nat p"
  shows "\<forall>q\<in>set ps. q \<le> 0 \<or> 2 < q \<and> q < 2 ^ 31 \<Longrightarrow> \<exists>q\<in>set ps. q \<le> 0 \<Longrightarrow> small_loop ps X = Inr 0 \<or> small_loop ps X = Inr 1"
proof (induction ps)
  case (Cons q ps)
  show ?case
  proof (cases "q \<le> 0")
    case False
    then have q: "2 < q" "q < 2 ^ 31" using Cons.prems(1) by simp_all
    have cmp: "shmpi_cmp_int X q = Inr (sgn (int p - q))" using cmp_int_val [OF assms(1), of q] q assms(2) by simp
    obtain r where r: "shmpi_mod_int X q = Inr (0, Some r)" "uint r = int p mod q" using mod_int_ok [OF assms(1), of q] q assms(2) by auto
    have "r \<noteq> 0" if "q < int p"
    proof
      assume "r = 0"
      then have "q dvd int p" using r(2) by (simp add: dvd_eq_mod_eq_0)
      then have "int (nat q) dvd int p" using q(1) by simp
      then have "nat q dvd p" by (simp only: int_dvd_int_iff)
      then have "nat q = 1 \<or> nat q = p" using assms(3) by (auto simp: prime_nat_def)
      then show False using q(1) that by auto
    qed
    then show ?thesis using False cmp r(1) Cons by (auto simp: sgn_if)
  qed simp
qed simp

lemma small_primes_ok: "\<forall>q\<in>set small_prime. q \<le> 0 \<or> 2 < q \<and> q < 2 ^ 31" "\<exists>q\<in>set small_prime. q \<le> 0"
  by (simp_all add: small_prime_def)

lemma small_factors_prime:
  assumes "mpi_ok X" "mpi_val X = int p" "prime_nat p" "p \<noteq> 2"
  shows "shmpi_check_small_factors X = Inr 0 \<or> shmpi_check_small_factors X = Inr 1"
proof -
  have p: "1 < p" using assms(3) by (simp add: prime_nat_def)
  then have ne: "mp_p X \<noteq> []" using assms(2) by (auto simp: mpi_val_def)
  have "odd p" using assms(3,4) unfolding prime_nat_def by (metis dvd_refl numeral_eq_one_iff semiring_norm(85) even_iff_mod_2_eq_zero)
  moreover have "cell (length (mp_p X)) (\<lambda>_. X) (Arg 0) (int p)" using assms(1,2) ne by (simp add: cell_def)
  ultimately have "mp_p X ! 0 AND 1 \<noteq> 0" using cell_low_bit [of "length (mp_p X)" "\<lambda>_. X" "Arg 0" "int p"] ne by (simp add: low_bit_def split: if_splits)
  then show ?thesis using ne small_loop_prime [OF assms(1-3) small_primes_ok] by (simp add: shmpi_check_small_factors_def)
qed

section \<open>A draw\<close>

text \<open>The number of bits, and a number shifted down to the bits of another one.\<close>

fun nbits :: "nat \<Rightarrow> nat" where
  "nbits v = (if v = 0 then 0 else Suc (nbits (v div 2)))"

declare nbits.simps [simp del]

lemma nbits_le: "nbits v \<le> n \<longleftrightarrow> v < 2 ^ n"
proof (induction v arbitrary: n rule: nbits.induct)
  case (1 v)
  show ?case
  proof (cases "v = 0")
    case False
    show ?thesis
    proof (cases n)
      case (Suc k)
      have "v < 2 ^ Suc k \<longleftrightarrow> v div 2 < 2 ^ k" by (simp add: div_less_iff_less_mult mult.commute)
      then show ?thesis using 1 [OF False, of k] False Suc by (simp add: nbits.simps [of v])
    qed (use False in \<open>simp add: nbits.simps [of v]\<close>)
  qed (simp add: nbits.simps)
qed

lemma msb_nbits: "shmpi_msb X = nbits (limbs_val (mp_p X))"
  using msb_val [of X] nbits_le [of "limbs_val (mp_p X)"] by (metis dual_order.refl le_antisym)

definition mr_value :: "nat \<Rightarrow> nat \<Rightarrow> nat" where
  "mr_value w v = v div 2 ^ (nbits v - nbits w)"

lemma shift_nat_len:
  assumes "libc_total c" "mpi_ok (h x)" "mpi_val (h x) = int u" "mp_p (h x) \<noteq> []"
  shows "\<exists>X. shmpi_shift_r c x k h = Inr (0, h(x := X)) \<and> mpi_ok X \<and> mpi_val X = int (u div 2 ^ k) \<and> length (mp_p X) = length (mp_p (h x))"
proof -
  obtain X where X: "shmpi_shift_r c x k h = Inr (0, h(x := X))" "mpi_ok X" "mpi_val X = int (u div 2 ^ k)" using shift_nat [where h = h and x = x, OF assms(1-3)] by blast
  obtain Y where "shmpi_shift_r c x k h = Inr (0, h(x := Y))" "length (mp_p Y) = length (mp_p (h x))"
    using shift_r_ex [where h = h and x = x and count = k, OF assms(1,2,4)] by blast
  then have "X = Y" using X(1) by (metis Pair_inject fun_upd_same sum.inject(2))
  then show ?thesis using X \<open>length (mp_p Y) = length (mp_p (h x))\<close> by blast
qed

text \<open>A generator that succeeds.\<close>

definition rng_total :: "'r rng \<Rightarrow> bool" where
  "rng_total f \<longleftrightarrow> (\<forall>r n. fst (f r n) = 0 \<and> length (fst (snd (f r n))) = n)"

definition rng_bytes :: "'r rng \<Rightarrow> 'r \<Rightarrow> nat \<Rightarrow> byte list" where
  "rng_bytes f r n = fst (snd (f r n))"

definition rng_next :: "'r rng \<Rightarrow> nat \<Rightarrow> 'r \<Rightarrow> 'r" where
  "rng_next f n r = snd (snd (f r n))"

lemma rng_call: "rng_total f \<Longrightarrow> f r n = (0, rng_bytes f r n, rng_next f n r)" "rng_total f \<Longrightarrow> length (rng_bytes f r n) = n"
  by (simp_all add: rng_total_def rng_bytes_def rng_next_def prod_eq_iff)

text \<open>The variables of the test for a prime \<open>p\<close>, with \<open>t\<close> in \<open>R\<close>.\<close>

definition mr_inv :: "mvar \<Rightarrow> nat \<Rightarrow> nat \<Rightarrow> mpis \<Rightarrow> bool" where
  "mr_inv x p t h \<longleftrightarrow> outer_var 6 x \<and> blank_locals 5 h \<and> mpi_ok (h x) \<and> mpi_val (h x) = int p \<and> length (mp_p (h x)) * 8 \<le> MPI_MAX_SIZE \<and>
     mpi_ok (h MW) \<and> mpi_val (h MW) = int (p - 1) \<and> mpi_ok (h MR) \<and> mpi_val (h MR) = int t \<and>
     mpi_ok (h MA) \<and> length (mp_p (h MA)) \<le> 129 \<and> mpi_ok (h MT) \<and> length (mp_p (h MT)) \<le> 256 \<and> rr_var (Some MRR) MA MA MR x h"

lemma mr_inv_A: "mr_inv x p t h \<Longrightarrow> mpi_ok A \<Longrightarrow> length (mp_p A) \<le> 129 \<Longrightarrow> mr_inv x p t (h(MA := A))"
  by (auto simp: mr_inv_def rr_var_def mont_num_def)

lemma mr_draw_ok:
  assumes "libc_total c" "rng_total f" "mr_inv x p t h" "1 < p"
  shows "\<exists>A. mr_draw c x f (h, r) = Inr (MR_Go, h(MA := A), rng_next f (length (mp_p (h x)) * 8) r) \<and> mr_inv x p t (h(MA := A)) \<and>
    mpi_val A = int (mr_value (p - 1) (be_val (rng_bytes f r (length (mp_p (h x)) * 8))))"
proof -
  let ?n = "length (mp_p (h x)) * 8"
  let ?buf = "rng_bytes f r ?n"
  have iv: "mpi_ok (h MA)" "length (mp_p (h MA)) \<le> 129" "?n \<le> MPI_MAX_SIZE" "mpi_ok (h MW)" "mpi_val (h MW) = int (p - 1)" "outer_var 6 x" using assms(3) by (auto simp: mr_inv_def)
  have x0: "0 < ?n" using assms(3,4) by (auto simp: mr_inv_def mpi_val_def)
  have len: "length ?buf = ?n" by (rule rng_call(2) [OF assms(2)])
  have "mpi_room (h MA)" "length ?buf \<le> 8 * MPI_MAX_LIMBS" using iv len by (auto simp: MPI_MAX_SIZE_def MPI_MAX_LIMBS_def)
  then obtain B where B: "shmpi_read_binary c MA ?buf h = Inr (0, h(MA := B))" "mpi_ok B" "mpi_val B = int (be_val ?buf)" "mp_p B \<noteq> []"
      "length (mp_p B) \<le> max 1 (max (length (mp_p (h MA))) (CHARS_TO_LIMBS ?n))"
    using read_binary_ok [where h = h and x = MA and buf = ?buf, OF assms(1)] len by auto
  have "CHARS_TO_LIMBS ?n \<le> 128" using iv(3) by (simp add: CHARS_TO_LIMBS_def MPI_MAX_SIZE_def)
  then have lB: "length (mp_p B) \<le> 129" using B(5) iv(2) by simp
  define k where "k = nbits (be_val ?buf) - nbits (p - 1)"
  have lv: "limbs_val (mp_p B) = be_val ?buf" "limbs_val (mp_p (h MW)) = p - 1" using limbs_abs [OF B(2)] limbs_abs [OF iv(4)] B(3) iv(5) by simp_all
  let ?h = "h(MA := B)"
  have "\<exists>A. (let j = shmpi_msb (?h MA); k = shmpi_msb (?h MW) in if k < j then shmpi_shift_r c MA (j - k) ?h else mpi_ret 0 ?h) = Inr (0, h(MA := A)) \<and>
      mpi_ok A \<and> mpi_val A = int (be_val ?buf div 2 ^ k) \<and> length (mp_p A) \<le> 129"
  proof (cases "nbits (p - 1) < nbits (be_val ?buf)")
    case True
    then show ?thesis using shift_nat_len [where h = ?h and x = MA and u = "be_val ?buf" and k = k, OF assms(1)] B(2-4) lB by (auto simp: msb_nbits lv k_def Let_def)
  next
    case False
    then show ?thesis using B(2,3) lB by (intro exI [of _ B]) (simp add: msb_nbits lv k_def Let_def mpi_ret_def)
  qed
  then obtain A where A: "(let j = shmpi_msb (?h MA); k = shmpi_msb (?h MW) in if k < j then shmpi_shift_r c MA (j - k) ?h else mpi_ret 0 ?h) = Inr (0, h(MA := A))"
      "mpi_ok A" "mpi_val A = int (be_val ?buf div 2 ^ k)" "length (mp_p A) \<le> 129" by blast
  have "mr_draw c x f (h, r) = Inr (MR_Go, h(MA := A), rng_next f ?n r)"
    using iv(3) rng_call(1) [OF assms(2), of r ?n] B(1) A(1) by (simp add: mr_draw_def mr_op_def rng_chk_def rng_lift_def shmpi_fill_random_def)
  then show ?thesis using A(2-4) mr_inv_A [OF assms(3)] by (intro exI [of _ A]) (simp add: mr_value_def k_def)
qed

section \<open>Picking a base\<close>

text \<open>A draw that the loop repeats: the number is not between 2 and \<open>w - 1\<close>.\<close>

definition bad_draw :: "'r rng \<Rightarrow> nat \<Rightarrow> nat \<Rightarrow> 'r \<Rightarrow> bool" where
  "bad_draw f n w r \<longleftrightarrow> (let v = mr_value w (be_val (rng_bytes f r n)) in v \<le> 1 \<or> w \<le> v)"

text \<open>From the state \<open>r\<close> on, the generator gives 31 such draws in a row at some time.\<close>

definition bad_run :: "'r rng \<Rightarrow> nat \<Rightarrow> nat \<Rightarrow> 'r \<Rightarrow> bool" where
  "bad_run f n w r \<longleftrightarrow> (\<exists>j. \<forall>i<31. bad_draw f n w ((rng_next f n ^^ (j + i)) r))"

lemma bad_run_now: "\<forall>i<31. bad_draw f n w ((rng_next f n ^^ i) r) \<Longrightarrow> bad_run f n w r"
  unfolding bad_run_def by (rule exI [of _ 0]) simp

lemma bad_run_later: "bad_run f n w ((rng_next f n ^^ k) r) \<Longrightarrow> bad_run f n w r"
proof -
  assume "bad_run f n w ((rng_next f n ^^ k) r)"
  then obtain j where "bad_draw f n w ((rng_next f n ^^ (j + k + i)) r)" if "i < 31" for i
    by (auto simp: bad_run_def funpow_add add.commute [of k] add.assoc)
  then show ?thesis unfolding bad_run_def by blast
qed

lemma mr_again_val: "mpi_ok (h MA) \<Longrightarrow> mpi_ok (h MW) \<Longrightarrow> mr_again h = Inr (mpi_val (h MW) \<le> mpi_val (h MA) \<or> mpi_val (h MA) \<le> 1)"
  using cmp_int_val [of "h MA" 1] by (auto simp: mr_again_def cmp_mpi_ge sgn_if)

lemma mr_pick_ok:
  assumes "libc_total c" "rng_total f" "1 < p"
  shows "mr_inv x p t h \<Longrightarrow> n = length (mp_p (h x)) * 8 \<Longrightarrow> \<exists>fl A r'. mr_pick c x f k (h, r) = Inr (fl, h(MA := A), r') \<and> mr_inv x p t (h(MA := A)) \<and> (\<exists>j. r' = (rng_next f n ^^ j) r) \<and>
    (fl = MR_Go \<and> 1 < mpi_val A \<and> mpi_val A < int (p - 1) \<or> fl = MR_Leave ERR_NOT_ACCEPTABLE \<and> (\<forall>i<k. bad_draw f n (p - 1) ((rng_next f n ^^ i) r)))"
proof (induction k arbitrary: h r)
  case 0
  obtain A where "mr_draw c x f (h, r) = Inr (MR_Go, h(MA := A), rng_next f n r)" "mr_inv x p t (h(MA := A))"
    using mr_draw_ok [OF assms(1,2) 0(1) assms(3), of r] 0(2) by blast
  then have "mr_pick c x f 0 (h, r) = Inr (MR_Leave ERR_NOT_ACCEPTABLE, h(MA := A), (rng_next f n ^^ 1) r)" by (simp add: mr_then_def)
  then show ?case using \<open>mr_inv x p t (h(MA := A))\<close> by blast
next
  case (Suc k)
  obtain A where A: "mr_draw c x f (h, r) = Inr (MR_Go, h(MA := A), rng_next f n r)" "mr_inv x p t (h(MA := A))"
      "mpi_val A = int (mr_value (p - 1) (be_val (rng_bytes f r n)))"
    using mr_draw_ok [OF assms(1,2) Suc.prems(1) assms(3), of r] Suc.prems(2) by blast
  let ?h = "h(MA := A)"
  have "mpi_ok (?h MA)" "mpi_ok (?h MW)" "mpi_val (?h MW) = int (p - 1)" "x \<noteq> MA" using A(2) by (auto simp: mr_inv_def)
  then have ag: "mr_again ?h = Inr (bad_draw f n (p - 1) r)" using mr_again_val [of ?h] A(3) by (auto simp: bad_draw_def Let_def)
  show ?case
  proof (cases "bad_draw f n (p - 1) r")
    case True
    have "n = length (mp_p (?h x)) * 8" using Suc.prems(2) \<open>x \<noteq> MA\<close> by simp
    then obtain fl B r' where B: "mr_pick c x f k (?h, rng_next f n r) = Inr (fl, h(MA := B), r')" "mr_inv x p t (h(MA := B))" "\<exists>j. r' = (rng_next f n ^^ j) (rng_next f n r)"
        "fl = MR_Go \<and> 1 < mpi_val B \<and> mpi_val B < int (p - 1) \<or> fl = MR_Leave ERR_NOT_ACCEPTABLE \<and> (\<forall>i<k. bad_draw f n (p - 1) ((rng_next f n ^^ i) (rng_next f n r)))"
      using Suc.IH [OF A(2), of "rng_next f n r"] unfolding fun_upd_upd by blast
    have "\<forall>i<k. bad_draw f n (p - 1) ((rng_next f n ^^ i) (rng_next f n r)) \<Longrightarrow> \<forall>i<Suc k. bad_draw f n (p - 1) ((rng_next f n ^^ i) r)"
      using True by (auto simp: less_Suc_eq_0_disj funpow_swap1)
    moreover have "mr_pick c x f (Suc k) (h, r) = Inr (fl, h(MA := B), r')" using A(1) ag True B(1) by (simp add: mr_then_def)
    moreover have "\<exists>j. r' = (rng_next f n ^^ j) r" using B(3) by (metis comp_apply funpow_Suc_right)
    ultimately show ?thesis using B(2,4) by blast
  next
    case False
    then have "mr_pick c x f (Suc k) (h, r) = Inr (MR_Go, ?h, (rng_next f n ^^ 1) r)" using A(1) ag by (simp add: mr_then_def)
    moreover have "1 < mpi_val A" "mpi_val A < int (p - 1)" using False A(3) by (auto simp: bad_draw_def Let_def)
    ultimately show ?thesis using A(2) by blast
  qed
qed

section \<open>Squares\<close>

lemma mr_square_step:
  assumes "libc_total c" "mr_inv x p t h" "mpi_val (h MA) = int y" "y < p"
  shows "\<exists>T A. mpi_seq [shmpi_mul_mpi c MT MA MA, shmpi_mod_mpi c MA MT x] h = Inr (0, h(MT := T, MA := A)) \<and> mr_inv x p t (h(MT := T, MA := A)) \<and> mpi_val A = int (y * y mod p)"
proof -
  have iv: "outer_var 6 x" "blank_locals 5 h" "mpi_ok (h x)" "mpi_val (h x) = int p" "length (mp_p (h x)) * 8 \<le> MPI_MAX_SIZE" "mpi_ok (h MA)" "length (mp_p (h MA)) \<le> 129" "mpi_ok (h MT)" "length (mp_p (h MT)) \<le> 256"
    using assms(2) by (auto simp: mr_inv_def)
  have lx: "length (mp_p (h x)) \<le> 128" using iv(5) by (simp add: MPI_MAX_SIZE_def)
  have uA: "used_limbs (mp_p (h MA)) \<le> 128"
  proof -
    have "limbs_val (mp_p (h MA)) = y" "limbs_val (mp_p (h x)) = p" using limbs_abs [OF iv(6)] limbs_abs [OF iv(3)] assms(3) iv(4) by simp_all
    then have "limbs_val (mp_p (h MA)) < limb_base ^ length (mp_p (h x))" using assms(4) limbs_val_lt [of "mp_p (h x)"] by linarith
    then have "used_limbs (mp_p (h MA)) \<le> length (mp_p (h x))" by (simp only: used_limbs_le_iff)
    then show ?thesis using lx by simp
  qed
  have b1: "blank_locals 1 h" "blank_locals 3 h" using blank_locals_mono [OF iv(2)] by simp_all
  obtain T where T: "shmpi_mul_mpi c MT MA MA h = Inr (0, h(MT := T))" "mpi_ok T" "mpi_val T = int y * int y"
      "length (mp_p T) = max 1 (max (length (mp_p (h MT))) (used_limbs (mp_p (h MA)) + used_limbs (mp_p (h MA))))"
    using mul_mpi_ex [where h = h and x = MT and a = MA and b = MA, OF assms(1) b1(1) iv(8,6,6)] uA assms(3) by (auto simp: MPI_MAX_LIMBS_def)
  have lT: "length (mp_p T) \<le> 256" using T(4) uA iv(9) by simp
  let ?h = "h(MT := T)"
  have xM: "x \<noteq> MT" "x \<noteq> MA" "outer_var 3 x" using iv(1) outer_var_mono [OF iv(1), of 3] by auto
  have "blank_locals 3 ?h" "mpi_arg 3 ?h MT" "mpi_arg 3 ?h x" "0 < mpi_val (?h x)" "length (mp_p (?h MA)) < MPI_MAX_LIMBS" "length (mp_p (?h MT)) + 3 < MPI_MAX_LIMBS"
    using b1(2) T(2) lT iv xM lx assms(4) by (auto simp: mpi_arg_def MPI_MAX_LIMBS_def)
  then obtain A where A: "shmpi_mod_mpi c MA MT x ?h = Inr (0, ?h(MA := A))" "mpi_ok A" "mpi_val A = mpi_val (?h MT) mod mpi_val (?h x)"
      "length (mp_p A) \<le> max (max 1 (length (mp_p (?h MA)))) (used_limbs (mp_p (?h x)))"
    using mod_mpi_ok [where h = ?h and r = MA and a = MT and b = x, OF assms(1)] xM by auto
  have "length (mp_p A) \<le> 129" using A(4) iv(7) lx xM used_limbs_le [of "mp_p (h x)"] by simp
  moreover have "mr_inv x p t ?h" using assms(2) T(2) lT by (auto simp: mr_inv_def rr_var_def mont_num_def)
  ultimately have "mr_inv x p t (?h(MA := A))" using mr_inv_A A(2) by blast
  moreover have "mpi_val A = int (y * y mod p)" using A(3) T(3) xM iv(4) by (simp add: zmod_int)
  ultimately show ?thesis using T(1) A(1) by (intro exI [of _ T] exI [of _ A]) simp
qed

lemma mr_squares_ok:
  assumes "libc_total c" "\<And>i. y (Suc i) = y i * y i mod p" "\<And>i. y i < p" "\<forall>i\<le>m. y i \<noteq> (1 :: nat)" "y m = p - 1"
  shows "mr_inv x p t h \<Longrightarrow> mpi_val (h MA) = int (y i) \<Longrightarrow> i \<le> m \<Longrightarrow> m \<le> i + k \<Longrightarrow>
    \<exists>T A. mr_squares c x k h = Inr (0, h(MT := T, MA := A)) \<and> mr_inv x p t (h(MT := T, MA := A)) \<and> mpi_val A = int (p - 1)"
proof (induction k arbitrary: h i)
  case 0
  then have "i = m" by simp
  then show ?case using 0 assms(5) by (intro exI [of _ "h MT"] exI [of _ "h MA"]) (auto simp: mpi_ret_def)
next
  case (Suc k)
  have iv: "mpi_ok (h MA)" "mpi_ok (h MW)" "mpi_val (h MW) = int (p - 1)" using Suc.prems(1) by (auto simp: mr_inv_def)
  have cmp: "shmpi_cmp_mpi (h MA) (h MW) = 0 \<longleftrightarrow> y i = p - 1" using cmp_mpi_val [OF iv(1,2)] Suc.prems(2) iv(3) by (auto simp: sgn_if)
  show ?case
  proof (cases "y i = p - 1")
    case True
    have "h = h(MT := h MT, MA := h MA)" by simp
    moreover have "mr_squares c x (Suc k) h = Inr (0, h)" using True cmp by (simp add: mpi_ret_def)
    ultimately show ?thesis using Suc.prems(1,2) True by metis
  next
    case False
    then have im: "i < m" using Suc.prems(3) assms(5) by (cases "i = m") auto
    obtain T A where TA: "mpi_seq [shmpi_mul_mpi c MT MA MA, shmpi_mod_mpi c MA MT x] h = Inr (0, h(MT := T, MA := A))" "mr_inv x p t (h(MT := T, MA := A))" "mpi_val A = int (y (Suc i))"
      using mr_square_step [OF assms(1) Suc.prems(1,2) assms(3)] assms(2) [of i] by auto
    let ?h = "h(MT := T, MA := A)"
    have "y (Suc i) \<noteq> 1" using assms(4) im by simp
    moreover have "mpi_ok A" using TA(2) by (simp add: mr_inv_def)
    ultimately have one: "shmpi_cmp_int A 1 = Inr (sgn (int (y (Suc i)) - 1))" "sgn (int (y (Suc i)) - 1) \<noteq> 0" using cmp_int_val [of A 1] TA(3) by (auto simp: sgn_if)
    have "\<exists>T A. mr_squares c x k ?h = Inr (0, ?h(MT := T, MA := A)) \<and> mr_inv x p t (?h(MT := T, MA := A)) \<and> mpi_val A = int (p - 1)"
      by (rule Suc.IH [OF TA(2), of "Suc i"]) (use TA(3) im Suc.prems(4) in auto)
    then obtain T' A' where r: "mr_squares c x k ?h = Inr (0, ?h(MT := T', MA := A'))" "mr_inv x p t (?h(MT := T', MA := A'))" "mpi_val A' = int (p - 1)" by blast
    have e: "?h(MT := T', MA := A') = h(MT := T', MA := A')" by (auto simp: fun_eq_iff)
    define K where "K = (\<lambda>h. run_bind (shmpi_cmp_int (h MA) 1) (\<lambda>s. if s = 0 then mpi_ret 0 h else mr_squares c x k h))"
    have "mr_squares c x (Suc k) h = K ?h" using False cmp mpi_seq_append [OF TA(1), of "[K]"] by (simp add: K_def)
    also have "\<dots> = Inr (0, h(MT := T', MA := A'))" using one r(1) unfolding e by (simp add: K_def)
    finally show ?thesis using r(2,3) unfolding e by blast
  qed
qed

section \<open>A prime passes\<close>

lemma mr_then_go: "m hr = Inr (MR_Go, hr') \<Longrightarrow> mr_then m k hr = k hr'"
  by (simp add: mr_then_def)

lemma mr_op_lift: "m h = Inr (0, h') \<Longrightarrow> mr_op (rng_lift m) (h, r) = Inr (MR_Go, h', r)"
  by (simp add: mr_op_def rng_lift_def)

lemma mr_exp_ok:
  assumes "libc_total c" "mr_inv x p t h" "mpi_val (h MA) = int a" "0 < a" "odd p" "1 < p"
  shows "\<exists>h'. shmpi_exp_mod c MA MA MR x (Some MRR) h = Inr (0, h') \<and> frame {MA, MRR} h h' \<and> mr_inv x p t h' \<and> mpi_val (h' MA) = int (a ^ t mod p)"
proof -
  have iv: "outer_var 6 x" "blank_locals 5 h" "mpi_ok (h x)" "mpi_val (h x) = int p" "length (mp_p (h x)) * 8 \<le> MPI_MAX_SIZE" "mpi_ok (h MA)" "length (mp_p (h MA)) \<le> 129" "mpi_ok (h MR)" "mpi_val (h MR) = int t" "rr_var (Some MRR) MA MA MR x h"
    using assms(2) by (auto simp: mr_inv_def)
  have lx: "length (mp_p (h x)) \<le> 128" using iv(5) by (simp add: MPI_MAX_SIZE_def)
  have pA: "mp_p (h MA) \<noteq> []" using assms(3,4) by (auto simp: mpi_val_def)
  have "outer_var 5 x" "x \<noteq> MA" "x \<noteq> MRR" "x \<noteq> MW" "x \<noteq> MR" "x \<noteq> MT" using iv(1) outer_var_mono [OF iv(1), of 5] by auto
  then have call: "exp_call MA MA MR x (Some MRR) h"
    unfolding exp_call_def exp_vars_def using iv lx pA assms(5,6) by (auto simp: MPI_MAX_LIMBS_def)
  obtain h' where h': "shmpi_exp_mod c MA MA MR x (Some MRR) h = Inr (0, h')" "frame {MA, MRR} h h'" "mpi_ok (h' MA)" "mpi_val (h' MA) = exp_value (h MA) (int t) (int p)"
      "length (mp_p (h' MA)) \<le> max (length (mp_p (h MA))) (length (mp_p (h x)) + 1)" "rr_var (Some MRR) MA MA MR x h'"
    using exp_mod_ok [OF assms(1) call] iv(4,9) by auto
  have "mp_s (h MA) \<noteq> - 1" using assms(3,4) by (auto simp: mpi_val_def)
  then have "mpi_val (h' MA) = int (a ^ t mod p)" using h'(4) assms(3) by (simp add: exp_value_def zmod_int)
  moreover have "blank_locals 5 h'" by (rule frame_blank [OF h'(2) _ iv(2)]) auto
  then have "mr_inv x p t h'" using assms(2) h'(2,3,5,6) iv(7) lx \<open>x \<noteq> MA\<close> \<open>x \<noteq> MRR\<close> by (auto simp: mr_inv_def frame_def)
  ultimately show ?thesis using h'(1,2) by blast
qed

lemma mr_test_ok:
  assumes "libc_total c" "mr_inv x p t h" "1 < mpi_val (h MA)" "mpi_val (h MA) < int (p - 1)" "prime_nat p" "odd p" "p - 1 = t * 2 ^ s"
  shows "\<exists>h'. mr_test c x s (h, r) = Inr (MR_Go, h', r) \<and> frame {MA, MRR, MT} h h' \<and> mr_inv x p t h'"
proof -
  define a where "a = nat (mpi_val (h MA))"
  have a: "mpi_val (h MA) = int a" "1 < a" "a < p - 1" using assms(3,4) by (simp_all add: a_def nat_less_iff zless_nat_eq_int_zless)
  have p: "1 < p" "0 < a" using assms(5) a(2) by (simp_all add: prime_nat_def)
  obtain h1 where h1: "shmpi_exp_mod c MA MA MR x (Some MRR) h = Inr (0, h1)" "frame {MA, MRR} h h1" "mr_inv x p t h1" "mpi_val (h1 MA) = int (a ^ t mod p)"
    using mr_exp_ok [OF assms(1,2) a(1) p(2) assms(6) p(1)] by blast
  define y where "y i = a ^ (t * 2 ^ i) mod p" for i
  have y: "y (Suc i) = y i * y i mod p" "y i < p" for i
  proof -
    have "t * 2 ^ Suc i = t * 2 ^ i + t * 2 ^ i" by simp
    then have "a ^ (t * 2 ^ Suc i) = a ^ (t * 2 ^ i) * a ^ (t * 2 ^ i)" by (simp only: power_add)
    then show "y (Suc i) = y i * y i mod p" by (simp add: y_def mod_mult_eq)
    show "y i < p" using p(1) by (simp add: y_def)
  qed
  have iv: "mpi_ok (h1 MA)" "mpi_ok (h1 MW)" "mpi_val (h1 MW) = int (p - 1)" using h1(3) by (auto simp: mr_inv_def)
  have one: "shmpi_cmp_int (h1 MA) 1 = Inr (sgn (int (y 0) - 1))" using cmp_int_val [OF iv(1), of 1] h1(4) by (simp add: y_def)
  have w: "shmpi_cmp_mpi (h1 MA) (h1 MW) = sgn (int (y 0) - int (p - 1))" using cmp_mpi_val [OF iv(1,2)] h1(4) iv(3) by (simp add: y_def)
  have run: "mr_test c x s (h, r) = (if y 0 = p - 1 \<or> y 0 = 1 then Inr (MR_Go, h1, r)
      else mr_then (mr_op (rng_lift (mr_squares c x (s - 1)))) (\<lambda>(h, r). run_bind (shmpi_cmp_int (h MA) 1) (\<lambda>one.
        Inr (if shmpi_cmp_mpi (h MA) (h MW) \<noteq> 0 \<or> one = 0 then MR_Fail ERR_NOT_ACCEPTABLE else MR_Go, h, r))) (h1, r))"
  proof -
    have z: "sgn (int (y 0) - 1) = 0 \<longleftrightarrow> y 0 = 1" "sgn (int (y 0) - int (p - 1)) = 0 \<longleftrightarrow> y 0 = p - 1" by (auto simp: sgn_if)
    show ?thesis unfolding mr_test_def mr_then_go [where m = "mr_op (rng_lift (shmpi_exp_mod c MA MA MR x (Some MRR)))", OF mr_op_lift [where m = "shmpi_exp_mod c MA MA MR x (Some MRR)" and h = h, OF h1(1)]]
      by (simp only: prod.case one w z run_bind_Inr)
  qed
  show ?thesis
  proof (cases "y 0 = p - 1 \<or> y 0 = 1")
    case True
    then show ?thesis using run h1(2,3) by (intro exI [of _ h1]) (auto simp: frame_def)
  next
    case False
    have "\<not> p dvd a" using a(3) p(2) by (auto dest: dvd_imp_le)
    then have "y s = 1" using fermat_little [OF assms(5)] assms(7) by (simp add: y_def)
    then obtain m where m: "m < s" "y m = p - 1" "\<forall>i\<le>m. y i \<noteq> 1" using square_chain [of p y s, OF assms(5) _ _ _ y(2,1)] False by blast
    have "\<exists>T A. mr_squares c x (s - 1) h1 = Inr (0, h1(MT := T, MA := A)) \<and> mr_inv x p t (h1(MT := T, MA := A)) \<and> mpi_val A = int (p - 1)"
      by (rule mr_squares_ok [where y = y and i = 0, OF assms(1) y m(3,2) h1(3)]) (use h1(4) m(1) in \<open>simp_all add: y_def\<close>)
    then obtain T A where TA: "mr_squares c x (s - 1) h1 = Inr (0, h1(MT := T, MA := A))" "mr_inv x p t (h1(MT := T, MA := A))" "mpi_val A = int (p - 1)" by blast
    let ?h = "h1(MT := T, MA := A)"
    have ok: "mpi_ok A" "mpi_ok (h1 MW)" using TA(2) iv(2) by (auto simp: mr_inv_def)
    have "shmpi_cmp_mpi A (h1 MW) = 0" using cmp_mpi_val [OF ok] TA(3) iv(3) by simp
    moreover have "shmpi_cmp_int A 1 = Inr (sgn (int (p - 1) - 1))" "sgn (int (p - 1) - 1) \<noteq> 0" using cmp_int_val [OF ok(1), of 1] TA(3) a(2,3) by (auto simp: sgn_if)
    ultimately have "mr_test c x s (h, r) = Inr (MR_Go, ?h, r)" using run False TA(1) by (simp add: mr_then_def mr_op_def rng_lift_def)
    moreover have "frame {MA, MRR, MT} h ?h" using h1(2) by (simp add: frame_def)
    ultimately show ?thesis using TA(2) by blast
  qed
qed

lemma mr_rounds_ok:
  assumes "libc_total c" "rng_total f" "prime_nat p" "odd p" "p - 1 = t * 2 ^ s"
  shows "mr_inv x p t h \<Longrightarrow> n = length (mp_p (h x)) * 8 \<Longrightarrow> \<exists>fl h' r'. mr_rounds c x f s k (h, r) = Inr (fl, h', r') \<and> frame {MA, MRR, MT} h h' \<and>
    (fl = MR_Go \<or> fl = MR_Leave ERR_NOT_ACCEPTABLE \<and> bad_run f n (p - 1) r)"
proof (induction k arbitrary: h r)
  case (Suc k)
  have p: "1 < p" using assms(3) by (simp add: prime_nat_def)
  obtain fl A r1 where A: "mr_pick c x f 31 (h, r) = Inr (fl, h(MA := A), r1)" "mr_inv x p t (h(MA := A))" "\<exists>j. r1 = (rng_next f n ^^ j) r"
      "fl = MR_Go \<and> 1 < mpi_val A \<and> mpi_val A < int (p - 1) \<or> fl = MR_Leave ERR_NOT_ACCEPTABLE \<and> (\<forall>i<31. bad_draw f n (p - 1) ((rng_next f n ^^ i) r))"
    using mr_pick_ok [OF assms(1,2) p Suc.prems, of 31 r] by blast
  have fA: "frame {MA, MRR, MT} h (h(MA := A))" by (simp add: frame_def)
  show ?case
  proof (cases "fl = MR_Go")
    case True
    then obtain h2 where h2: "mr_test c x s (h(MA := A), r1) = Inr (MR_Go, h2, r1)" "frame {MA, MRR, MT} (h(MA := A)) h2" "mr_inv x p t h2"
      using mr_test_ok [OF assms(1) A(2) _ _ assms(3-5), of r1] A(4) by (metis fun_upd_same mr_flow.distinct(3))
    have f2: "frame {MA, MRR, MT} h h2" by (rule frame_trans [OF fA h2(2)])
    have "x \<notin> {MA, MRR, MT}" using h2(3) by (auto simp: mr_inv_def)
    then have "n = length (mp_p (h2 x)) * 8" using f2 Suc.prems(2) by (simp add: frame_def)
    then obtain fl' h' r' where r: "mr_rounds c x f s k (h2, r1) = Inr (fl', h', r')" "frame {MA, MRR, MT} h2 h'"
        "fl' = MR_Go \<or> fl' = MR_Leave ERR_NOT_ACCEPTABLE \<and> bad_run f n (p - 1) r1"
      using Suc.IH [OF h2(3), of r1] by auto
    have "mr_rounds c x f s (Suc k) (h, r) = Inr (fl', h', r')" using A(1) True h2(1) r(1) by (simp add: mr_then_def)
    moreover have "bad_run f n (p - 1) r1 \<Longrightarrow> bad_run f n (p - 1) r" using A(3) bad_run_later [of f n "p - 1" _ r] by fast
    ultimately show ?thesis using r(3) frame_trans [OF f2 r(2)] by blast
  next
    case False
    then have "mr_rounds c x f s (Suc k) (h, r) = Inr (fl, h(MA := A), r1)" using A(1) by (simp add: mr_then_def)
    moreover have "fl = MR_Leave ERR_NOT_ACCEPTABLE \<and> bad_run f n (p - 1) r" using A(4) False bad_run_now [of f n "p - 1" r] by simp
    ultimately show ?thesis using fA by blast
  qed
qed simp

lemma mr_blank_id: "blank_locals 6 h \<Longrightarrow> mr_blank h = h"
  by (auto simp: mr_blank_def fun_eq_iff blank_local split: mvar.splits)

lemma miller_rabin_ok:
  assumes "libc_total c" "rng_total f" "prime_nat p" "odd p" "blank_locals 6 h" "outer_var 6 x" "mpi_ok (h x)" "mpi_val (h x) = int p" "length (mp_p (h x)) * 8 \<le> MPI_MAX_SIZE" "n = length (mp_p (h x)) * 8"
  shows "\<exists>ret h' r'. shmpi_miller_rabin c x f (h, r) = Inr (ret, h', r') \<and> frame {v. \<not> outer_var 6 v} h h' \<and>
    (ret = 0 \<or> ret = ERR_NOT_ACCEPTABLE \<and> bad_run f n (p - 1) r)"
proof -
  have p: "2 < p" using assms(3,4) by (auto simp: prime_nat_def intro: Nat.le_neq_implies_less)
  have lx: "length (mp_p (h x)) \<le> 128" using assms(9) by (simp add: MPI_MAX_SIZE_def)
  have ne: "x \<noteq> Loc 5 k" for k using assms(6) by auto
  have init: "h (Loc 5 k) = shmpi_init" for k using assms(5) by (simp add: blank_local)
  have b2: "blank_locals 2 h" using blank_locals_mono [OF assms(5), of 2] by simp
  have "mpi_arg 2 h MW" "mpi_arg 2 h x" using assms(6,7) lx outer_var_mono [OF assms(6), of 2] by (auto simp: mpi_arg_def init MPI_MAX_LIMBS_def)
  then obtain W where W: "shmpi_sub_int c MW x 1 h = Inr (0, h(MW := W))" "mpi_ok W" "mpi_val W = int (p - 1)"
    using sub_int_ex [OF assms(1) b2, of MW x 1] assms(8) p by auto
  let ?w = "p - 1"
  have lW: "limbs_val (mp_p W) = ?w" using limbs_abs [OF W(2)] W(3) by simp
  define s where "s = shmpi_lsb W"
  define t where "t = ?w div 2 ^ s"
  have st: "?w = t * 2 ^ s" using lsb_val [of W] lW p unfolding t_def s_def by simp
  define h1 where "h1 = h(MW := W)"
  have h1: "h1 MW = W" "h1 MR = shmpi_init" "h1 x = h x" using init ne by (auto simp: h1_def)
  obtain R0 where R0: "shmpi_copy c MR MW h1 = Inr (0, h1(MR := R0))" "mpi_ok R0" "mpi_val R0 = int ?w"
    using copy_room [where h = h1 and x = MR and y = MW, OF assms(1)] W h1 by (auto simp: mpi_room_def)
  obtain R where R: "shmpi_shift_r c MR s (h1(MR := R0)) = Inr (0, h1(MR := R))" "mpi_ok R" "mpi_val R = int t"
    using shift_nat [where h = "h1(MR := R0)" and x = MR and u = ?w and k = s, OF assms(1)] R0 by (auto simp: t_def)
  define h2 where "h2 = h1(MR := R)"
  have b5: "blank_locals 5 h2" using blank_locals_mono [OF assms(5), of 5] by (simp add: h2_def h1_def)
  have h2: "h2 x = h x" "h2 MW = W" "h2 MR = R" "h2 MA = shmpi_init" "h2 MT = shmpi_init" "h2 MRR = shmpi_init" using init ne by (auto simp: h2_def h1_def)
  have "rr_var (Some MRR) MA MA MR x h2" using ne h2(6) by (auto simp: rr_var_def)
  then have inv: "mr_inv x p t h2" using b5 W(2,3) R(2,3) assms(6-9) unfolding mr_inv_def h2 by simp
  obtain fl h' r' where r: "mr_rounds c x f s (mr_count (shmpi_msb (h x))) (h2, r) = Inr (fl, h', r')" "frame {MA, MRR, MT} h2 h'"
      "fl = MR_Go \<or> fl = MR_Leave ERR_NOT_ACCEPTABLE \<and> bad_run f n (p - 1) r"
    using mr_rounds_ok [OF assms(1-4) st inv] assms(10) h2(1) by metis
  have body: "mr_body c x f (h, r) = Inr (fl, h', r')"
    using W(1) R0(1) R(1) r(1) h1 by (simp add: mr_body_def mr_then_def mr_op_def rng_lift_def Let_def h2_def flip: h1_def s_def)
  have fr: "frame {v. \<not> outer_var 6 v} h h'"
  proof -
    have "h2 v = h v" "v \<notin> {MA, MRR, MT}" if "outer_var 6 v" for v using that by (auto simp: h2_def h1_def)
    then show ?thesis using r(2) unfolding frame_def by (metis mem_Collect_eq)
  qed
  then have fb: "frame {v. \<not> outer_var 6 v} h (mr_blank h')" by (auto simp: frame_def mr_blank_def outer_var_def split: mvar.splits)
  show ?thesis using r(3)
  proof
    assume "fl = MR_Go"
    then have "shmpi_miller_rabin c x f (h, r) = Inr (0, mr_blank h', r')" using body mr_blank_id [OF assms(5)] by (simp add: shmpi_miller_rabin_def)
    then show ?thesis using fb by blast
  next
    assume fl: "fl = MR_Leave ERR_NOT_ACCEPTABLE \<and> bad_run f n (p - 1) r"
    then have "shmpi_miller_rabin c x f (h, r) = Inr (ERR_NOT_ACCEPTABLE, h', r')" using body mr_blank_id [OF assms(5)] by (simp add: shmpi_miller_rabin_def)
    then show ?thesis using fr fl by blast
  qed
qed

lemma is_prime_ok:
  assumes "libc_total c" "rng_total f" "prime_nat (limbs_val (mp_p (h x)))" "blank_locals 7 h" "outer_var 7 x" "length (mp_p (h x)) * 8 \<le> MPI_MAX_SIZE"
    and "n = length (mp_p (h x)) * 8" "p = limbs_val (mp_p (h x))"
  shows "\<exists>ret h' r'. shmpi_is_prime c x f (h, r) = Inr (ret, h', r') \<and> frame {v. \<not> outer_var 7 v} h h' \<and>
    (ret = 0 \<or> ret = ERR_NOT_ACCEPTABLE \<and> bad_run f n (p - 1) r)"
proof -
  define XX where "XX = (h x)\<lparr>mp_s := 1\<rparr>"
  have XX: "mpi_ok XX" "mpi_val XX = int p" "mp_p XX = mp_p (h x)" using assms(6,8) by (auto simp: XX_def mpi_ok_def mpi_val_def MPI_MAX_SIZE_def MPI_MAX_LIMBS_def)
  have pr: "prime_nat p" "1 < p" using assms(3,8) by (simp_all add: prime_nat_def)
  have c: "shmpi_cmp_int XX z = Inr (sgn (int p - z))" if "z \<in> {0, 1, 2}" for z using cmp_int_val [OF XX(1), of z] XX(2) that by auto
  have run: "shmpi_is_prime c x f (h, r) = (if p = 2 then Inr (0, h, r)
     else run_bind (shmpi_check_small_factors XX) (\<lambda>ret. if ret \<noteq> 0 then Inr (if ret = 1 then 0 else ret, h, r)
       else run_bind (shmpi_miller_rabin c PX f (h(PX := XX), r)) (\<lambda>(ret, h', r'). Inr (ret, h'(PX := shmpi_init), r'))))"
  proof -
    have z: "sgn (int p - 0) \<noteq> 0" "sgn (int p - 1) \<noteq> 0" "sgn (int p - 2) = 0 \<longleftrightarrow> p = 2" using pr(2) by (auto simp: sgn_if)
    have c: "shmpi_cmp_int XX 0 = Inr (sgn (int p - 0))" "shmpi_cmp_int XX 1 = Inr (sgn (int p - 1))" "shmpi_cmp_int XX 2 = Inr (sgn (int p - 2))" using c by blast+
    show ?thesis unfolding shmpi_is_prime_def Let_def prod.case XX_def [symmetric] c run_bind_Inr by (simp only: z simp_thms if_False)
  qed
  show ?thesis
  proof (cases "p = 2")
    case True
    then show ?thesis using run by (intro exI [of _ 0] exI [of _ h]) simp
  next
    case False
    then have odd: "odd p" using pr unfolding prime_nat_def by (metis even_numeral one_dvd dvd_refl nat_neq_iff numeral_eq_one_iff semiring_norm(85))
    show ?thesis
    proof (cases "shmpi_check_small_factors XX = Inr 0")
      case True
      let ?h = "h(PX := XX)"
      have "blank_locals 6 ?h" using blank_locals_mono [OF assms(4), of 6] by simp
      then obtain ret h' r' where m: "shmpi_miller_rabin c PX f (?h, r) = Inr (ret, h', r')" "frame {v. \<not> outer_var 6 v} ?h h'"
          "ret = 0 \<or> ret = ERR_NOT_ACCEPTABLE \<and> bad_run f n (p - 1) r"
        using miller_rabin_ok [where h = ?h and x = PX and n = n, OF assms(1,2) pr(1) odd, of r] XX assms(6,7) by (metis fun_upd_same order_refl outer_var_simps(2))
      have "frame {v. \<not> outer_var 7 v} h (h'(PX := shmpi_init))"
      proof -
        have "outer_var 7 v \<Longrightarrow> outer_var 6 v \<and> v \<noteq> PX" for v using outer_var_mono [of 7 v 6] by auto
        then show ?thesis using m(2) by (auto simp: frame_def)
      qed
      moreover have "shmpi_is_prime c x f (h, r) = Inr (ret, h'(PX := shmpi_init), r')" using run False True m(1) by simp
      ultimately show ?thesis using m(3) by blast
    next
      case no: False
      then have "shmpi_check_small_factors XX = Inr 1" using small_factors_prime [OF XX(1,2) pr(1) False] by blast
      then show ?thesis using run False by (intro exI [of _ 0] exI [of _ h]) simp
    qed
  qed
qed

end
