(* ===== verification/Share_Mpi_Laws.thy ===== *)
theory Share_Mpi_Laws
  imports Share_Mpi_Mod
begin

text \<open>
  The multi-precision integers as a caller sees them: no function of the library is active, the operands and the result
  are variables of the caller, possibly the same one.
\<close>

section \<open>Callers\<close>

definition idle :: "mpis \<Rightarrow> bool" where
  "idle h \<longleftrightarrow> (\<forall>j n. h (Loc j n) = shmpi_init)"

text \<open>A number with a few limbs to spare below the limit of 10000.\<close>

definition mpi_fits :: "shmpi \<Rightarrow> bool" where
  "mpi_fits X \<longleftrightarrow> mpi_ok X \<and> length (mp_p X) + 3 < MPI_MAX_LIMBS"

lemma idle_blank: "idle h \<Longrightarrow> blank_locals k h"
  by (auto simp: idle_def blank_locals_def outer_var_def split: mvar.splits)

lemma fits_arg: "mpi_fits (h (Arg i)) \<Longrightarrow> mpi_arg k h (Arg i)"
  by (simp add: mpi_fits_def mpi_arg_def)

text \<open>Stores and an allocator for examples.\<close>

definition libc_ok :: libc where
  "libc_ok = \<lparr>calloc_ok = (\<lambda>_. True), realloc_ok = (\<lambda>_. True), fresh = (\<lambda>_. 0)\<rparr>"

definition args :: "shmpi list \<Rightarrow> mpis" where
  "args xs v = (case v of Arg i \<Rightarrow> if i < length xs then xs ! i else shmpi_init | Loc _ _ \<Rightarrow> shmpi_init)"

lemma libc_ok_total [simp]: "libc_total libc_ok"
  by (simp add: libc_total_def libc_ok_def)

lemma idle_args [simp]: "idle (args xs)"
  by (simp add: idle_def args_def)

lemma args_Arg [simp]: "args xs (Arg i) = (if i < length xs then xs ! i else shmpi_init)"
  by (simp add: args_def)

section \<open>Theorems\<close>

text \<open>C16: \<open>shmpi_add_mpi\<close> and \<open>shmpi_sub_mpi\<close> are exact: with room for the result they return success, the result variable holds the sum
  or the difference of the two values, signs included, and no other variable changes.  The result may be an operand, except for a sum of a
  variable with itself into itself.\<close>

theorem shmpi_add_sub_exact:
  assumes "libc_total c" "idle h" "mpi_fits (h (Arg x))" "mpi_fits (h (Arg a))" "mpi_fits (h (Arg b))"
  shows "(\<not> (x = a \<and> x = b) \<longrightarrow> (\<exists>X. shmpi_add_mpi c (Arg x) (Arg a) (Arg b) h = Inr (0, h(Arg x := X)) \<and> mpi_ok X \<and> mpi_val X = mpi_val (h (Arg a)) + mpi_val (h (Arg b)))) \<and>
    (\<exists>X. shmpi_sub_mpi c (Arg x) (Arg a) (Arg b) h = Inr (0, h(Arg x := X)) \<and> mpi_ok X \<and> mpi_val X = mpi_val (h (Arg a)) - mpi_val (h (Arg b)))"
proof -
  note args = fits_arg [where h = h and k = 1, OF assms(3)] fits_arg [where h = h and k = 1, OF assms(4)] fits_arg [where h = h and k = 1, OF assms(5)]
  show ?thesis
    using add_mpi_ex [OF assms(1) idle_blank [OF assms(2)] args] sub_mpi_ex [OF assms(1) idle_blank [OF assms(2)] args] by auto
qed

theorem shmpi_add_sub_exact_witness:
  "\<exists>X. shmpi_sub_mpi libc_ok (Arg 0) (Arg 0) (Arg 1) (args [\<lparr>mp_s = 1, mp_p = [1, 1]\<rparr>, \<lparr>mp_s = 1, mp_p = [2]\<rparr>]) =
     Inr (0, (args [\<lparr>mp_s = 1, mp_p = [1, 1]\<rparr>, \<lparr>mp_s = 1, mp_p = [2]\<rparr>])(Arg 0 := X)) \<and> mpi_ok X \<and> mpi_val X = 2 ^ 64 - 1"
  using shmpi_add_sub_exact [of libc_ok "args [\<lparr>mp_s = 1, mp_p = [1, 1]\<rparr>, \<lparr>mp_s = 1, mp_p = [2]\<rparr>]" 0 0 1]
  by (simp add: mpi_fits_def mpi_ok_def MPI_MAX_LIMBS_def mpi_val_def limb_base_def)

text \<open>C14: \<open>shmpi_mul_mpi\<close> is exact: when the limbs in use of both operands fit together below the limit, the result variable holds the product,
  also when it is one of the operands or both.\<close>

theorem shmpi_mul_exact:
  assumes "libc_total c" "idle h" "mpi_ok (h (Arg x))" "mpi_ok (h (Arg a))" "mpi_ok (h (Arg b))"
    and "used_limbs (mp_p (h (Arg a))) + used_limbs (mp_p (h (Arg b))) \<le> MPI_MAX_LIMBS"
  shows "\<exists>X. shmpi_mul_mpi c (Arg x) (Arg a) (Arg b) h = Inr (0, h(Arg x := X)) \<and> mpi_ok X \<and> mpi_val X = mpi_val (h (Arg a)) * mpi_val (h (Arg b))"
  using mul_mpi_ex [where h = h and x = "Arg x" and a = "Arg a" and b = "Arg b", OF assms(1) idle_blank [OF assms(2)] assms(3-5)] assms(6) by auto

theorem shmpi_mul_exact_witness:
  "\<exists>X. shmpi_mul_mpi libc_ok (Arg 0) (Arg 0) (Arg 0) (args [\<lparr>mp_s = - 1, mp_p = [0, 5]\<rparr>]) =
     Inr (0, (args [\<lparr>mp_s = - 1, mp_p = [0, 5]\<rparr>])(Arg 0 := X)) \<and> mpi_ok X \<and> mpi_val X = 25 * 2 ^ 128"
  using shmpi_mul_exact [of libc_ok "args [\<lparr>mp_s = - 1, mp_p = [0, 5]\<rparr>]" 0 0 0] used_limbs_le [of "[0, 5]"]
  by (simp add: mpi_ok_def MPI_MAX_LIMBS_def mpi_val_def limb_base_def)

text \<open>C8: \<open>shmpi_div_mpi\<close> divides: for a divisor that is not zero it returns, the quotient is rounded towards zero, the remainder has the sign of the
  dividend, and nothing else changes.  A zero divisor gives its error code.\<close>

theorem shmpi_div_exact:
  assumes "libc_total c" "idle h" "mpi_fits (h (Arg a))" "mpi_ok (h (Arg b))" "mpi_ok (h (Arg q))" "mpi_ok (h (Arg r))"
    and "q \<noteq> a" "q \<noteq> b" "r \<noteq> q"
  shows "if mpi_val (h (Arg b)) = 0 then shmpi_div_mpi c (Some (Arg q)) (Some (Arg r)) (Arg a) (Arg b) h = Inr (ERR_DIVISION_BY_ZERO, h)
    else \<exists>Q R. shmpi_div_mpi c (Some (Arg q)) (Some (Arg r)) (Arg a) (Arg b) h = Inr (0, h(Arg q := Q, Arg r := R)) \<and> mpi_ok Q \<and> mpi_ok R \<and>
      mpi_val (h (Arg a)) = mpi_val Q * mpi_val (h (Arg b)) + mpi_val R \<and> \<bar>mpi_val R\<bar> < \<bar>mpi_val (h (Arg b))\<bar> \<and>
      (mpi_val R = 0 \<or> sgn (mpi_val R) = sgn (mpi_val (h (Arg a))))"
proof (cases "mpi_val (h (Arg b)) = 0")
  case True
  then show ?thesis using div_by_zero [of h "Arg b"] assms(4) by simp
next
  case False
  have "div_call 3 (Some (Arg q)) (Some (Arg r)) (Arg a) (Arg b) h"
    using assms by (auto simp: div_call_def idle_blank mpi_fits_def)
  then obtain h' where h': "shmpi_div_mpi c (Some (Arg q)) (Some (Arg r)) (Arg a) (Arg b) h = Inr (0, h')"
      "div_result (Some (Arg q)) (Some (Arg r)) (Arg a) (Arg b) h h'"
    using div_mpi_ok [OF assms(1)] False by blast
  have fr: "frame {Arg q, Arg r} h h'" using h'(2) by (auto simp: div_result_def insert_commute)
  have eq: "h' = h(Arg q := h' (Arg q), Arg r := h' (Arg r))" using fr assms(9) by (auto simp: frame_def fun_eq_iff)
  have v: "mpi_ok (h' (Arg q))" "mpi_ok (h' (Arg r))" "mpi_val (h' (Arg q)) = mpi_val (h (Arg a)) sdiv mpi_val (h (Arg b))"
      "mpi_val (h' (Arg r)) = mpi_val (h (Arg a)) smod mpi_val (h (Arg b))"
    using h'(2) by (auto simp: div_result_def result_cell_def)
  have "\<bar>mpi_val (h' (Arg r))\<bar> < \<bar>mpi_val (h (Arg b))\<bar>" using False unfolding v(4) by (simp add: smod_int_alt_def abs_mult sgn_if)
  moreover have "mpi_val (h' (Arg r)) = 0 \<or> sgn (mpi_val (h' (Arg r))) = sgn (mpi_val (h (Arg a)))"
  proof -
    have *: "sgn a * M = 0 \<or> sgn (sgn a * M) = sgn a" if "0 \<le> M" for a M :: int using that by (auto simp: sgn_mult)
    show ?thesis unfolding v(4) smod_int_alt_def by (rule *) (use False in simp)
  qed
  ultimately show ?thesis
    using False h'(1) v sdiv_mult_smod_eq [of "mpi_val (h (Arg a))" "mpi_val (h (Arg b))"] by (subst (asm) eq) fastforce
qed

theorem shmpi_div_exact_witness:
  "\<exists>Q R. shmpi_div_mpi libc_ok (Some (Arg 2)) (Some (Arg 0)) (Arg 0) (Arg 1) (args [\<lparr>mp_s = - 1, mp_p = [7, 1]\<rparr>, \<lparr>mp_s = 1, mp_p = [5]\<rparr>]) =
     Inr (0, (args [\<lparr>mp_s = - 1, mp_p = [7, 1]\<rparr>, \<lparr>mp_s = 1, mp_p = [5]\<rparr>])(Arg 2 := Q, Arg 0 := R)) \<and> - (7 + 2 ^ 64) = mpi_val Q * 5 + mpi_val R"
  using shmpi_div_exact [of libc_ok "args [\<lparr>mp_s = - 1, mp_p = [7, 1]\<rparr>, \<lparr>mp_s = 1, mp_p = [5]\<rparr>]" 0 1 2 0]
  by (auto simp: mpi_fits_def mpi_ok_def MPI_MAX_LIMBS_def mpi_val_def limb_base_def)

text \<open>C15: \<open>shmpi_mod_mpi\<close> returns the remainder of the mathematical modulus, between zero and the modulus, for every sign of the first operand,
  also into the first operand; a negative modulus gives its error code.\<close>

theorem shmpi_mod_exact:
  assumes "libc_total c" "idle h" "mpi_fits (h (Arg r))" "mpi_fits (h (Arg a))" "mpi_fits (h (Arg b))" "r \<noteq> b" "mpi_val (h (Arg b)) \<noteq> 0"
  shows "if mpi_val (h (Arg b)) < 0 then shmpi_mod_mpi c (Arg r) (Arg a) (Arg b) h = Inr (ERR_NEGATIVE_VALUE, h)
    else \<exists>R. shmpi_mod_mpi c (Arg r) (Arg a) (Arg b) h = Inr (0, h(Arg r := R)) \<and> mpi_ok R \<and> mpi_val R = mpi_val (h (Arg a)) mod mpi_val (h (Arg b))"
proof (cases "mpi_val (h (Arg b)) < 0")
  case True
  then show ?thesis using mod_mpi_negative [of h "Arg b"] assms(5) by (simp add: mpi_fits_def)
next
  case False
  then have "0 < mpi_val (h (Arg b))" using assms(7) by simp
  moreover have "mpi_arg 3 h (Arg a)" "mpi_arg 3 h (Arg b)" "length (mp_p (h (Arg r))) < MPI_MAX_LIMBS" using assms(3-5) by (simp_all add: fits_arg) (simp add: mpi_fits_def)
  moreover have "length (mp_p (h (Arg a))) + 3 < MPI_MAX_LIMBS" using assms(4) by (simp add: mpi_fits_def)
  ultimately show ?thesis using False mod_mpi_ok [OF assms(1) idle_blank [OF assms(2)], of "Arg r" "Arg a" "Arg b"] assms(6) by auto
qed

theorem shmpi_mod_exact_witness:
  "\<exists>R. shmpi_mod_mpi libc_ok (Arg 0) (Arg 0) (Arg 1) (args [\<lparr>mp_s = - 1, mp_p = [7, 1]\<rparr>, \<lparr>mp_s = 1, mp_p = [5]\<rparr>]) =
     Inr (0, (args [\<lparr>mp_s = - 1, mp_p = [7, 1]\<rparr>, \<lparr>mp_s = 1, mp_p = [5]\<rparr>])(Arg 0 := R)) \<and> mpi_ok R \<and> mpi_val R = - (7 + 2 ^ 64) mod 5"
  using shmpi_mod_exact [of libc_ok "args [\<lparr>mp_s = - 1, mp_p = [7, 1]\<rparr>, \<lparr>mp_s = 1, mp_p = [5]\<rparr>]" 0 0 1]
  by (simp add: mpi_fits_def mpi_ok_def MPI_MAX_LIMBS_def mpi_val_def limb_base_def)

text \<open>The sum of a variable with itself into itself loses its carry: \<open>shmpi_add_abs\<close> compares the new limb with itself.  A number of one limb with the
  highest bit set is doubled to 2 to the 64 less than it should be, and the function reports success.\<close>

theorem shmpi_add_self_loses_carry:
  assumes "libc_total c" "h (Arg x) = \<lparr>mp_s = 1, mp_p = [l]\<rparr>" "2 ^ 63 \<le> unat l"
  shows "\<exists>X. shmpi_add_mpi c (Arg x) (Arg x) (Arg x) h = Inr (0, h(Arg x := X)) \<and> mpi_val X = 2 * mpi_val (h (Arg x)) - 2 ^ 64"
proof -
  have l0: "l \<noteq> 0" using assms(3) by auto
  then have u: "used_limbs [l] = 1" by (simp add: used_limbs_def numeral_2_eq_2)
  have g: "shmpi_grow c (Suc 0) \<lparr>mp_s = 1, mp_p = [l]\<rparr> = (0, \<lparr>mp_s = 1, mp_p = [l]\<rparr>)"
    using grow_ok [OF assms(1), of "Suc 0"] by (simp add: MPI_MAX_LIMBS_def)
  have "shmpi_add_mpi c (Arg x) (Arg x) (Arg x) h = Inr (0, h(Arg x := \<lparr>mp_s = 1, mp_p = [l + l]\<rparr>))"
    using g u by (simp add: shmpi_add_mpi_def shmpi_add_abs_def add_into_def set_sign_def mpi_chk_def mpi_on_def assms(2) Let_def)
  moreover have "mpi_val \<lparr>mp_s = 1, mp_p = [l + l]\<rparr> = 2 * mpi_val (h (Arg x)) - 2 ^ 64"
  proof -
    have "l + l < l" using word_add_carry [of l l] limb_lt [of "l + l"] assms(3) by (cases "l + l < l") (auto simp: limb_base_def)
    then have "unat (l + l) + limb_base = 2 * unat l" using word_add_carry [of l l] by simp
    then have "int (unat (l + l)) + int limb_base = 2 * int (unat l)" by presburger
    then show ?thesis by (simp add: mpi_val_def assms(2) limb_base_def)
  qed
  ultimately show ?thesis by blast
qed

theorem shmpi_add_self_loses_carry_witness:
  "\<exists>X. shmpi_add_mpi libc_ok (Arg 0) (Arg 0) (Arg 0) (args [\<lparr>mp_s = 1, mp_p = [9223372036854775808]\<rparr>]) =
     Inr (0, (args [\<lparr>mp_s = 1, mp_p = [9223372036854775808]\<rparr>])(Arg 0 := X)) \<and> mpi_val X = 0"
  using shmpi_add_self_loses_carry [of libc_ok "args [\<lparr>mp_s = 1, mp_p = [9223372036854775808]\<rparr>]" 0 9223372036854775808]
  by (simp add: mpi_val_def)

end
