(* ===== verification/Share_Mpi_Rules.thy ===== *)
theory Share_Mpi_Rules
  imports Share_Mpi_Prime Share_Mpi_Laws
begin

text \<open>
  What a caller gets from the modular power, the greatest common divisor, the inverse, the primality test and the external forms of
  multi-precision integers.
\<close>

section \<open>Modular power\<close>

text \<open>C9: \<open>shmpi_exp_mod\<close>, the sliding-window exponentiation in Montgomery form, is exact: for an odd positive modulus and an exponent that is not
  negative it returns success, the result is the power of the base modulo the modulus, no other variable changes, and the result may be the base.
  For a negative base the code takes the power of the absolute value off the modulus.\<close>

theorem shmpi_exp_mod_exact:
  assumes "libc_total c" "idle h" "mpi_fits (h (Arg a))" "mp_p (h (Arg a)) \<noteq> []" "mpi_ok (h (Arg e))" "0 \<le> mpi_val (h (Arg e))" "mpi_ok (h (Arg n))"
    and "0 < mpi_val (h (Arg n))" "odd (mpi_val (h (Arg n)))" "2 * length (mp_p (h (Arg n))) + 5 < MPI_MAX_LIMBS" "length (mp_p (h (Arg x))) < MPI_MAX_LIMBS" "x \<noteq> e" "x \<noteq> n"
  shows "\<exists>X. shmpi_exp_mod c (Arg x) (Arg a) (Arg e) (Arg n) None h = Inr (0, h(Arg x := X)) \<and> mpi_ok X \<and>
    mpi_val X = (if mp_s (h (Arg a)) = 1 then mpi_val (h (Arg a)) ^ nat (mpi_val (h (Arg e))) mod mpi_val (h (Arg n))
      else mpi_val (h (Arg n)) - \<bar>mpi_val (h (Arg a))\<bar> ^ nat (mpi_val (h (Arg e))) mod mpi_val (h (Arg n)))"
proof -
  have "exp_call (Arg x) (Arg a) (Arg e) (Arg n) None h"
    using assms by (simp add: exp_call_def exp_vars_def rr_var_def idle_blank mpi_fits_def)
  then obtain h' where h': "shmpi_exp_mod c (Arg x) (Arg a) (Arg e) (Arg n) None h = Inr (0, h')" "frame {Arg x} h h'" "mpi_ok (h' (Arg x))"
      "mpi_val (h' (Arg x)) = exp_value (h (Arg a)) (mpi_val (h (Arg e))) (mpi_val (h (Arg n)))"
    using exp_mod_ok [OF assms(1)] by (metis option.set(1))
  have "mp_s (h (Arg a)) = 1 \<or> mp_s (h (Arg a)) = - 1" using assms(3) by (auto simp: mpi_fits_def mpi_ok_def)
  then have "exp_value (h (Arg a)) E N = (if mp_s (h (Arg a)) = 1 then mpi_val (h (Arg a)) ^ nat E mod N else N - \<bar>mpi_val (h (Arg a))\<bar> ^ nat E mod N)" for E N
    by (auto simp: exp_value_def mpi_val_def)
  moreover have "h' = h(Arg x := h' (Arg x))" using h'(2) by (auto simp: frame_def fun_eq_iff)
  ultimately show ?thesis using h' by metis
qed

theorem shmpi_exp_mod_exact_witness:
  "\<exists>X. shmpi_exp_mod libc_ok (Arg 3) (Arg 0) (Arg 1) (Arg 2) None (args [\<lparr>mp_s = 1, mp_p = [3, 1]\<rparr>, \<lparr>mp_s = 1, mp_p = [5]\<rparr>, \<lparr>mp_s = 1, mp_p = [7]\<rparr>]) =
     Inr (0, (args [\<lparr>mp_s = 1, mp_p = [3, 1]\<rparr>, \<lparr>mp_s = 1, mp_p = [5]\<rparr>, \<lparr>mp_s = 1, mp_p = [7]\<rparr>])(Arg 3 := X)) \<and> mpi_ok X \<and> mpi_val X = (2 ^ 64 + 3) ^ 5 mod 7"
  using shmpi_exp_mod_exact [of libc_ok "args [\<lparr>mp_s = 1, mp_p = [3, 1]\<rparr>, \<lparr>mp_s = 1, mp_p = [5]\<rparr>, \<lparr>mp_s = 1, mp_p = [7]\<rparr>]" 0 1 2 3]
  by (simp add: mpi_fits_def mpi_ok_def MPI_MAX_LIMBS_def mpi_val_def limb_base_def shmpi_init_def)

section \<open>Greatest common divisor\<close>

text \<open>C12: \<open>shmpi_gcd\<close>, the binary algorithm, returns the greatest common divisor of its operands when the second one is not zero, with any signs
  and also into one of the operands; a zero second operand gives zero instead of the absolute value of the first one.\<close>

theorem shmpi_gcd_exact:
  assumes "libc_total c" "idle h" "mpi_ok (h (Arg a))" "mpi_ok (h (Arg b))" "mpi_ok (h (Arg g))"
  shows "\<exists>X. shmpi_gcd c (Arg g) (Arg a) (Arg b) h = Inr (0, h(Arg g := X)) \<and>
    mpi_val X = (if mpi_val (h (Arg b)) = 0 then 0 else gcd (mpi_val (h (Arg a))) (mpi_val (h (Arg b))))"
proof (cases "mpi_val (h (Arg b)) = 0")
  case True
  then show ?thesis using gcd_zero [where h = h and g = "Arg g" and a = "Arg a" and b = "Arg b", OF assms(1) idle_blank [OF assms(2)]] assms(3-5) by simp
next
  case False
  then show ?thesis using gcd_ok [where h = h and g = "Arg g" and a = "Arg a" and b = "Arg b", OF assms(1) idle_blank [OF assms(2)]] assms(3-5) by auto
qed

theorem shmpi_gcd_exact_witness:
  "\<exists>X. shmpi_gcd libc_ok (Arg 0) (Arg 0) (Arg 1) (args [\<lparr>mp_s = 1, mp_p = [12]\<rparr>, \<lparr>mp_s = - 1, mp_p = [18]\<rparr>]) =
     Inr (0, (args [\<lparr>mp_s = 1, mp_p = [12]\<rparr>, \<lparr>mp_s = - 1, mp_p = [18]\<rparr>])(Arg 0 := X)) \<and> mpi_val X = gcd 12 (- 18)"
  using shmpi_gcd_exact [of libc_ok "args [\<lparr>mp_s = 1, mp_p = [12]\<rparr>, \<lparr>mp_s = - 1, mp_p = [18]\<rparr>]" 0 1 0]
  by (simp add: mpi_ok_def MPI_MAX_LIMBS_def mpi_val_def)

section \<open>Modular inverse\<close>

text \<open>C11: \<open>shmpi_inv_mod\<close>, the binary extended algorithm, on every branch: a modulus that is not positive is refused, numbers with a common factor
  give their error code, and for a modulus above 1 the function returns the inverse between zero and the modulus, also into an operand.  For
  the modulus 1 the call never returns.\<close>

theorem shmpi_inv_mod_exact:
  assumes "libc_total c" "idle h" "mpi_fits (h (Arg a))" "mpi_fits (h (Arg n))" "mpi_ok (h (Arg x))"
  shows "if mpi_val (h (Arg n)) \<le> 0 then shmpi_inv_mod c (Arg x) (Arg a) (Arg n) h = Inr (ERR_BAD_INPUT_DATA, h)
    else if gcd (mpi_val (h (Arg a))) (mpi_val (h (Arg n))) \<noteq> 1 then shmpi_inv_mod c (Arg x) (Arg a) (Arg n) h = Inr (ERR_NOT_ACCEPTABLE, h)
    else if mpi_val (h (Arg n)) = 1 then shmpi_inv_mod c (Arg x) (Arg a) (Arg n) h \<in> {Inl Diverge, Inl NullDeref}
    else \<exists>X. shmpi_inv_mod c (Arg x) (Arg a) (Arg n) h = Inr (0, h(Arg x := X)) \<and> mpi_ok X \<and> 0 \<le> mpi_val X \<and> mpi_val X < mpi_val (h (Arg n)) \<and>
      (mpi_val (h (Arg a)) * mpi_val X) mod mpi_val (h (Arg n)) = 1"
proof (cases "mpi_val (h (Arg n)) \<le> 0")
  case True
  then have "shmpi_cmp_int (h (Arg n)) 0 = Inr (sgn (mpi_val (h (Arg n))))" "sgn (mpi_val (h (Arg n))) \<le> 0" using assms(4) cmp_zero by (auto simp: mpi_fits_def sgn_if)
  then show ?thesis using True by (simp add: shmpi_inv_mod_def mpi_ret_def)
next
  case False
  then have call: "inv_call (Arg x) (Arg a) (Arg n) h" using assms(2-5) by (simp add: inv_call_def idle_blank mpi_fits_def)
  have "gcd (mpi_val (h (Arg a))) (mpi_val (h (Arg n))) \<noteq> 1 \<longrightarrow> shmpi_inv_mod c (Arg x) (Arg a) (Arg n) h = Inr (ERR_NOT_ACCEPTABLE, h)"
    using inv_gcd [OF assms(1) call] by (auto simp: coprime_iff_gcd_eq_1)
  moreover have "mpi_val (h (Arg n)) = 1 \<longrightarrow> shmpi_inv_mod c (Arg x) (Arg a) (Arg n) h \<in> {Inl Diverge, Inl NullDeref}" using inv_mod_one [OF assms(1) call] by blast
  ultimately show ?thesis using False inv_mod_ok [OF assms(1) call] by (simp add: coprime_iff_gcd_eq_1)
qed

theorem shmpi_inv_mod_exact_witness:
  "\<exists>X. shmpi_inv_mod libc_ok (Arg 0) (Arg 0) (Arg 1) (args [\<lparr>mp_s = 1, mp_p = [3]\<rparr>, \<lparr>mp_s = 1, mp_p = [7]\<rparr>]) =
     Inr (0, (args [\<lparr>mp_s = 1, mp_p = [3]\<rparr>, \<lparr>mp_s = 1, mp_p = [7]\<rparr>])(Arg 0 := X)) \<and> 3 * mpi_val X mod 7 = 1"
proof -
  have "gcd 3 7 = (1 :: int)" by code_simp
  then show ?thesis
    using shmpi_inv_mod_exact [of libc_ok "args [\<lparr>mp_s = 1, mp_p = [3]\<rparr>, \<lparr>mp_s = 1, mp_p = [7]\<rparr>]" 0 1 0]
    by (auto simp: mpi_fits_def mpi_ok_def MPI_MAX_LIMBS_def mpi_val_def)
qed

section \<open>Primality\<close>

text \<open>C37: \<open>shmpi_is_prime\<close> accepts primes: for a variable whose absolute value is a prime of at most 1024 bytes and a generator that succeeds it returns,
  leaves the variables of the caller as they are, and reports success, whatever the generator draws, unless from its state at the call on 31 draws
  in a row are outside of the range of a base.\<close>

theorem shmpi_is_prime_accepts:
  assumes "libc_total c" "rng_total f" "idle h" "prime_nat (limbs_val (mp_p (h (Arg x))))" "length (mp_p (h (Arg x))) * 8 \<le> MPI_MAX_SIZE"
  shows "\<exists>ret h' r'. shmpi_is_prime c (Arg x) f (h, r) = Inr (ret, h', r') \<and> (\<forall>i. h' (Arg i) = h (Arg i)) \<and>
    (ret = 0 \<or> ret = ERR_NOT_ACCEPTABLE \<and> bad_run f (length (mp_p (h (Arg x))) * 8) (limbs_val (mp_p (h (Arg x))) - 1) r)"
proof -
  obtain ret h' r' where m: "shmpi_is_prime c (Arg x) f (h, r) = Inr (ret, h', r')" "frame {v. \<not> outer_var 7 v} h h'"
      "ret = 0 \<or> ret = ERR_NOT_ACCEPTABLE \<and> bad_run f (length (mp_p (h (Arg x))) * 8) (limbs_val (mp_p (h (Arg x))) - 1) r"
    using is_prime_ok [where h = h and x = "Arg x", OF assms(1,2,4) idle_blank [OF assms(3)] _ assms(5) refl refl, of r] by auto
  moreover have "h' (Arg i) = h (Arg i)" for i using m(2) by (simp add: frame_def)
  ultimately show ?thesis by blast
qed

theorem shmpi_is_prime_accepts_witness:
  "\<exists>h' r'. shmpi_is_prime libc_ok (Arg 0) (\<lambda>r n. (0, rev (take n (5 # replicate n 0)), r)) (args [\<lparr>mp_s = 1, mp_p = [1009]\<rparr>], 0 :: nat) =
     Inr (0, h', r')"
proof -
  let ?f = "\<lambda>(r :: nat) n. (0 :: int, rev (take n (5 # replicate n 0)) :: byte list, r)" and ?h = "args [\<lparr>mp_s = 1, mp_p = [1009]\<rparr>]"
  have t: "rng_total ?f" by (auto simp: rng_total_def)
  have p: "prime_nat 1009" by (rule prime_natI [where n = 31]) (simp_all add: atLeastAtMost_upt upt_rec)
  have "take 8 (5 # replicate 8 0) = [5, 0, 0, 0, 0, 0, 0, 0 :: byte]" by code_simp
  then have v: "be_val (rng_bytes ?f r 8) = 5" for r by (simp add: be_val_def rng_bytes_def)
  have "nbits 5 \<le> nbits 1008" by (simp add: nbits.simps)
  then have b: "\<not> bad_draw ?f 8 1008 r" for r by (simp add: bad_draw_def mr_value_def v)
  have l: "limbs_val (mp_p (?h (Arg 0))) = 1009" "length (mp_p (?h (Arg 0))) * 8 = 8" by simp_all
  obtain ret h' r' where m: "shmpi_is_prime libc_ok (Arg 0) ?f (?h, 0) = Inr (ret, h', r')"
    "ret = 0 \<or> ret = ERR_NOT_ACCEPTABLE \<and> bad_run ?f 8 (1009 - 1) 0"
    using shmpi_is_prime_accepts [where c = libc_ok and f = ?f and h = ?h and x = 0 and r = 0] t p unfolding l
    by (auto simp: MPI_MAX_SIZE_def)
  then have "ret = 0" using b by (fastforce simp: bad_run_def)
  then show ?thesis using m(1) by blast
qed

section \<open>External forms\<close>

text \<open>C13: Round trip of the binary form: \<open>shmpi_write_binary\<close> fails exactly when the buffer is shorter than \<open>shmpi_size\<close>, otherwise it fills the buffer, and
  \<open>shmpi_read_binary\<close> of the buffer into any variable gives the absolute value back.\<close>

theorem shmpi_binary_roundtrip:
  assumes "libc_total c" "mpi_ok (h (Arg y))" "buflen \<le> 8 * MPI_MAX_LIMBS"
  shows "if buflen < shmpi_size X then shmpi_write_binary X buflen = (ERR_BUFFER_TOO_SMALL, None)
    else \<exists>buf Y. shmpi_write_binary X buflen = (0, Some buf) \<and> length buf = buflen \<and> shmpi_read_binary c (Arg y) buf h = Inr (0, h(Arg y := Y)) \<and>
      mpi_ok Y \<and> mpi_val Y = int (limbs_val (mp_p X))"
proof (cases "buflen < shmpi_size X")
  case True
  then show ?thesis by (simp add: shmpi_write_binary_def Let_def)
next
  case False
  then obtain buf where buf: "shmpi_write_binary X buflen = (0, Some buf)" "length buf = buflen" "be_val buf = limbs_val (mp_p X)" using write_binary_ok [of X buflen] by auto
  have "mpi_room (h (Arg y))" "length buf \<le> 8 * MPI_MAX_LIMBS" using assms(2,3) buf(2) by simp_all
  from read_binary_ok [where h = h and x = "Arg y", OF assms(1) this] show ?thesis using False buf by auto
qed

theorem shmpi_binary_roundtrip_witness:
  "\<exists>buf Y. shmpi_write_binary \<lparr>mp_s = 1, mp_p = [258, 3]\<rparr> 20 = (0, Some buf) \<and> length buf = 20 \<and>
     shmpi_read_binary libc_ok (Arg 0) buf (args []) = Inr (0, (args [])(Arg 0 := Y)) \<and> mpi_ok Y \<and> mpi_val Y = 258 + 3 * 2 ^ 64"
proof -
  have "shmpi_size \<lparr>mp_s = 1, mp_p = [258, 3]\<rparr> \<le> 20" using size_bounds(1) [of "\<lparr>mp_s = 1, mp_p = [258, 3]\<rparr>"] by simp
  then show ?thesis using shmpi_binary_roundtrip [of libc_ok "args []" 0 20 "\<lparr>mp_s = 1, mp_p = [258, 3]\<rparr>"]
    by (simp add: mpi_ok_def shmpi_init_def MPI_MAX_LIMBS_def limb_base_def)
qed

text \<open>C10: Round trip of the text form in every radix from 2 to 16: with a buffer of the length the function asks for (one more for a negative number in radix
  16) \<open>shmpi_write_string\<close> writes a terminated text and reports its length, and \<open>shmpi_read_string\<close> of the text gives the number back, sign included.\<close>

theorem shmpi_string_roundtrip:
  assumes "libc_total c" "idle h" "2 \<le> radix" "radix \<le> 16" "mpi_fits (h (Arg x))" "mp_p (h (Arg x)) \<noteq> []" "mpi_fits (h (Arg y))"
    and "string_size radix (h (Arg x)) + (if radix = 16 \<and> mp_s (h (Arg x)) = - 1 then 1 else 0) \<le> slen"
  shows "\<exists>s Y. shmpi_write_string c (Arg x) radix slen h = Inr (0, length s + 1, s @ [0], h) \<and> 0 \<notin> set s \<and>
    shmpi_read_string c (Arg y) radix s h = Inr (0, h(Arg y := Y)) \<and> mpi_ok Y \<and> mpi_val Y = mpi_val (h (Arg x))"
proof -
  let ?X = "h (Arg x)"
  let ?v = "limbs_val (mp_p ?X)"
  have X: "mpi_ok ?X" "length (mp_p ?X) + 3 < MPI_MAX_LIMBS" "mpi_ok (h (Arg y))" "length (mp_p (h (Arg y))) < MPI_MAX_LIMBS"
    using assms(5,7) by (simp_all add: mpi_fits_def)
  have o: "outer_var 5 (Arg x)" "outer_var 5 (Arg y)" by simp_all
  note b = idle_blank [OF assms(2), of 5]
  have size: "string_size radix ?X + (if radix = 16 then length (sign_text ?X) else 0) \<le> slen" using assms(8) by (auto simp: sign_text_def split: if_splits)
  obtain ds where ds: "shmpi_write_string c (Arg x) radix slen h = Inr (0, length (sign_text ?X) + length ds + 1, sign_text ?X @ map digit_char ds @ [0], h)"
      "text_digits radix ?v ds" "radix = 16 \<longrightarrow> length ds + 1 \<le> string_size 16 ?X"
    using write_string_ok [OF assms(1,3,4) b o(1) X(1) assms(6) X(2) size] by blast
  define s where "s = sign_text ?X @ map digit_char ds"
  have sg: "sign_text ?X = [] \<or> sign_text ?X = [45]" by (simp add: sign_text_def)
  have sgn: "mpi_val ?X = (if sign_text ?X = [] then 1 else - 1) * int ?v" using X(1) by (auto simp: sign_text_def mpi_val_def mpi_ok_def)
  have d16: "\<forall>d\<in>set ds. d < 16" using ds(2) assms(4) by (auto simp: text_digits_def)
  have "\<exists>Y. shmpi_read_string c (Arg y) radix s h = Inr (0, h(Arg y := Y)) \<and> mpi_ok Y \<and> mpi_val Y = mpi_val ?X"
  proof (cases "radix = 16")
    case True
    then have "length ds + 1 \<le> 16 * MPI_MAX_LIMBS" using ds(3) hex_size [of ?X] X(2) by simp
    moreover have "mpi_room (h (Arg y))" using X(3) by simp
    ultimately show ?thesis using read_hex_ok [OF assms(1) b o(2) _ d16 sg] ds(2) True unfolding s_def sgn by (auto simp: text_digits_def)
  next
    case False
    then have "digits_of radix ?v ds" "radix < 16" "Suc (length (mp_p ?X)) < MPI_MAX_LIMBS" using ds(2) assms(4) X(2) by (simp_all add: text_digits_def)
    then show ?thesis using read_radix_ok [OF assms(1,3) _ b o(2) X(4) _ limbs_val_lt _ sg] unfolding s_def sgn by blast
  qed
  moreover have "0 \<notin> set s"
  proof -
    have "digit_char d \<noteq> 0" if "d < 16" for d
    proof
      assume "digit_char d = 0"
      then have "unat (digit_char d) = 0" by simp
      then show False using unat_digit_char [OF that] by (simp split: if_splits)
    qed
    then show ?thesis using d16 sg by (auto simp: s_def)
  qed
  moreover have "shmpi_write_string c (Arg x) radix slen h = Inr (0, length s + 1, s @ [0], h)" using ds(1) by (simp add: s_def)
  ultimately show ?thesis by blast
qed

theorem shmpi_string_roundtrip_witness:
  "\<exists>s Y. shmpi_write_string libc_ok (Arg 0) 16 40 (args [\<lparr>mp_s = - 1, mp_p = [5, 1]\<rparr>]) = Inr (0, length s + 1, s @ [0], args [\<lparr>mp_s = - 1, mp_p = [5, 1]\<rparr>]) \<and> 0 \<notin> set s \<and>
     shmpi_read_string libc_ok (Arg 1) 16 s (args [\<lparr>mp_s = - 1, mp_p = [5, 1]\<rparr>]) = Inr (0, (args [\<lparr>mp_s = - 1, mp_p = [5, 1]\<rparr>])(Arg 1 := Y)) \<and> mpi_ok Y \<and> mpi_val Y = - (2 ^ 64 + 5)"
  using shmpi_string_roundtrip [of libc_ok "args [\<lparr>mp_s = - 1, mp_p = [5, 1]\<rparr>]" 16 0 1 40] hex_size [of "\<lparr>mp_s = - 1, mp_p = [5, 1]\<rparr>"]
  by (simp add: mpi_fits_def mpi_ok_def MPI_MAX_LIMBS_def mpi_val_def limb_base_def shmpi_init_def)

text \<open>C38: \<open>shmpi_write_string\<close> writes behind the buffer: for a negative number in radix 16 the length it computes has no room for the sign, and a call with a
  buffer of exactly that length overruns it when the highest byte of the number has at most three bits.\<close>

theorem shmpi_write_string_overrun:
  assumes "mp_s (h x) = - 1" "mp_p (h x) \<noteq> []" "shmpi_msb (h x) mod 8 \<in> {1, 2, 3}"
  shows "shmpi_write_string c x 16 (string_size 16 (h x)) h = Inl OutOfBounds"
proof -
  let ?bs = "hex_bytes (mp_p (h x))"
  have "limbs_val (mp_p (h x)) < 256 ^ length ?bs" using be_val_lt [of ?bs] hex_bytes_val(1) [OF assms(2)] by simp
  moreover have "(256 :: nat) ^ length ?bs = 2 ^ (8 * length ?bs)" by (simp add: power_mult)
  ultimately have "limbs_val (mp_p (h x)) < 2 ^ (8 * length ?bs)" by simp
  then have "shmpi_msb (h x) \<le> 8 * length ?bs" by (simp only: msb_val)
  moreover define q r where "q = shmpi_msb (h x) div 8" and "r = shmpi_msb (h x) mod 8"
  then have m: "shmpi_msb (h x) = 8 * q + r" "0 < r" "r < 4" using assms(3) by auto
  ultimately have "q < length ?bs" by linarith
  moreover have "shmpi_msb (h x) div 2 div 2 = 2 * q" using m by (simp only: div_mult2_eq [symmetric]) simp
  ultimately have "string_size 16 (h x) < 2 * length ?bs + 2" by (simp add: string_size_def)
  then show ?thesis using assms(1) by (simp add: shmpi_write_string_def byte_digits_text byte_digits_val(3))
qed

theorem shmpi_write_string_overrun_witness:
  "shmpi_write_string libc_ok (Arg 0) 16 3 (args [\<lparr>mp_s = - 1, mp_p = [1]\<rparr>]) = Inl OutOfBounds"
proof -
  have "shmpi_msb \<lparr>mp_s = - 1, mp_p = [1]\<rparr> = 1" by code_simp
  then show ?thesis using shmpi_write_string_overrun [of "args [\<lparr>mp_s = - 1, mp_p = [1]\<rparr>]" "Arg 0" libc_ok] by (simp add: string_size_def)
qed

end
