(* ===== verification/Spec2Isabelle.thy ===== *)
theory Spec2Isabelle
  imports Share_Vectors Share_Map_Io Share_Pool Share_Lock_Race Share_Base64 Share_Base58 Share_Base32
    Share_Tree Share_Crc32 Share_Csum Share_Sha_Constants Share_Hmac Share_Pin Share_Json_Laws
    Share_Mpi_Rules
begin

text \<open>
  A verification library for \<^verbatim>\<open>libshare\<close>, the C runtime library under
  \<^verbatim>\<open>src/src/share-lib\<close>.  This root theory imports the component theories; each of them holds the
  definitions of one component in the order of the source, its invariant, its lemmas and its
  theorems.

  \<^bold>\<open>The program.\<close>  The library consists of the memory components (\<^verbatim>\<open>mem/\<close>): byte buffers, keys, hash maps,
  trees, pools, locks, checksums, hash functions, text encodings, JSON; a file system on top of them
  (\<^verbatim>\<open>fs/\<close>), sockets (\<^verbatim>\<open>net/\<close>) and system services (\<^verbatim>\<open>sys/\<close>).  The memory components carry the program's
  own algorithms and data structures, and the other parts call them.  They interact as follows: a key
  is derived from data by SHA-256 and a checksum; a hash map is indexed by keys, is printed into a
  buffer and loaded from one; a lock is an entry of a hash map; a pool holds buffers; a base 58 text
  with checksum and an HMAC rest on the hash functions; a one-time code is an HMAC over a secret
  that was decoded from base 32 and was made from random numbers of the key component.

  \<^bold>\<open>How C is modelled\<close> (\<open>Share_Prelude\<close>).  A struct is a \<^theory_text>\<open>record\<close>, a pointer that may be \<open>NULL\<close> an option
  (\<open>'a ptr\<close>), a block of memory its list of bytes.  An operation that can run into undefined
  behaviour, an endless loop or an invalid free returns \<open>fault + 'a\<close>; the library's own error codes
  are integers of the result.  Unsigned integers are words, or natural numbers with the reduction
  written out; a signed \<open>int\<close> that overflows is a fault.  What the code gets from outside is an argument: the outcome of \<open>malloc\<close> and
  \<open>realloc\<close> and the content of fresh memory (record \<open>libc\<close>, or a function \<open>junk\<close> for stack memory),
  the clock, thread identifiers, the system calls of a file mapping, random bytes.  Loops are
  structural recursion, or recursion with a measure; the loops whose end is a theorem about the code
  (\<open>decode_loop\<close>, \<open>verify_loop\<close>) are partial functions into \<open>option\<close>, and the theorems show that
  they return.

  \<^bold>\<open>Theories, sources and results.\<close>

  \<^item> \<open>Share_Buf\<close>: \<^verbatim>\<open>mem/shmem_buf.c\<close>.  Record \<open>shbuf\<close>; creation, growth, append, trim, truncate,
    clear, pad, positions, comparison, growth of a file mapping, disposal.  Invariant
    \<open>shbuf_ok\<close>.  Any sequence of operations refines the same operations on byte lists; the exact
    condition under which \<open>shbuf_cat\<close> faults; a bound on the growth of file mappings.
  \<^item> \<open>Share_Crc\<close>, \<open>Share_Vectors\<close>: \<open>shcrc\<close>, \<open>shcrcstr\<close>, \<open>shcrcgen\<close> of \<^verbatim>\<open>share.c\<close>.  Round trip of the text
    form, detection of any change of one aligned word, the test vector of the sources.
  \<^item> \<open>Share_Key\<close>: \<^verbatim>\<open>mem/shmem_key.c\<close>.  Derivation over the modelled SHA-256, comparison, two text
    forms with their parsers, certificates, random keys.  Round trips of both text forms, \<open>shkey_cmp\<close>
    against \<open>memcmp\<close>, exactness of \<open>shkey_verify\<close>, the collisions of \<open>ashkey_num\<close>.
  \<^item> \<open>Share_Map\<close>, \<open>Share_Map_Io\<close>: \<^verbatim>\<open>mem/shmem_map.c\<close>.  Bucket array with chains and recycled entries,
    growth, lookup, insertion, removal, iteration, disposal; the flat form and its loader.
    Every allocation may be refused: a value that cannot be copied leaves the map as it was, while a map,
    an entry, a key copy or a bucket array that cannot be allocated is written to through \<open>NULL\<close>, so the theorems
    on insertions assume these (\<open>map_libc\<close>).
    Invariant \<open>shmap_inv\<close>.  Any sequence of insertions and removals refines a finite map;
    growth keeps everything; iteration visits each entry once; disposal frees every block of the map once
    and no value of the caller; printing and loading is the identity on sized entries; forged records make the loader
    run away.
  \<^item> \<open>Share_Pool\<close>: \<^verbatim>\<open>mem/shmem_pool.c\<close>.  Rotation, retirement, and what \<open>shpool_pull\<close> loses.
  \<^item> \<open>Share_Lock\<close>, \<open>Share_Lock_Race\<close>: \<^verbatim>\<open>mem/shmem_lock.c\<close>.  The lock table in both builds, from the first call of the
    process on, refines a table of holders (build without mutexes; a held lock is refused, nobody waits).  The steps \<open>lnext\<close> and
    the reachable worlds \<open>lreach\<close> interleave threads access by access inside \<open>shlock_open\<close> and \<open>shlock_close\<close>, from the lookup
    and creation of the lock to the updates of its fields: two threads that create the lock of one key both hold one, and the
    first is never released; on a lock that exists no access is undefined and acquiring is exclusive; an acquisition during
    a close is erased from the lock.
  \<^item> \<open>Share_Tree\<close>: \<^verbatim>\<open>mem/shmem_tree.c\<close> on an explicit heap.  Exact disposal (a datum that two nodes
    share is freed twice), replacement of branches, what the traversals visit in which order.
  \<^item> \<open>Share_Csum\<close>, \<open>Share_Crc32\<close>: \<^verbatim>\<open>mem/shmem_csum.c\<close>.  Adler-32 with deferred reductions, table-driven
    CRC-32, and the combination of checksums, against their definitions.
  \<^item> \<open>Share_Base64\<close>, \<open>Share_Base58\<close>, \<open>Share_Base32\<close>: \<^verbatim>\<open>mem/shmem_base64.c\<close>, \<^verbatim>\<open>mem/shmem_base58.c\<close>,
    \<^verbatim>\<open>mem/shmem_base32.c\<close>.  Round trips, the reference encoding of base 64, texts with a checksum,
    termination and memory safety of the base 32 decoder with contexts; \<open>shbase32_adecode\<close> stores a pointer
    in its byte buffer.
  \<^item> \<open>Share_Sha_Block\<close>, \<open>Share_Sha\<close>, \<open>Share_Sha_Fips\<close>, \<open>Share_Sha_Constants\<close>: the SHA-1 and SHA-2 part of
    \<^verbatim>\<open>mem/shmem_alg_sha.c\<close>.  Buffering, padding and result once for both word sizes, the three block
    functions, contexts and dispatch; FIPS 180 as definitions of its own and the proof that every
    session of writes computes it; the constant tables derived from primes, and the pattern of
    the initial value of SHA-1.
  \<^item> \<open>Share_Hmac\<close>: HMAC and HKDF of the same file against RFC 2104 and RFC 5869; the extraction step
    that swaps its arguments.
  \<^item> \<open>Share_Pin\<close>: the one-time codes of the same file; a code is accepted exactly within one step of
    the clock, and the generated secrets are at most 256.

  \<^item> \<open>Share_Json\<close>, \<open>Share_Json_Text\<close>, \<open>Share_Json_Tree\<close>, \<open>Share_Json_Laws\<close>: \<^verbatim>\<open>mem/shmem_json.c\<close>.  Items as a
    datatype with the fields of the struct, the parser with its error pointer, the printer in two
    layouts, the operations on trees.  Parsing returns on every text, gives well-formed items and
    inverts printing; minified text is the unformatted text; an object with distinct names is a
    table for the functions that add and read; a string stored in an object survives the way through
    the text; malformed escapes make the parser write behind its buffer.  The recursion of the parser is
    counted (\<open>json_fuel\<close>, twice the length of the text and one), which the first of these theorems shows to be
    enough.  The lengths of strings and texts are \<open>int\<close>s in the code and in the model;
    \<open>json_bound\<close> bounds all of them for an item, and the theorems on printing ask for less than \<open>2 ^ 31\<close>.  Arithmetic on \<open>double\<close> is the record \<open>fpu\<close>, and \<open>exact_ints\<close> states what the theorems on
    numbers use of it.

  \<^item> \<open>Share_Mpi\<close>, \<open>Share_Mpi_Bits\<close>, \<open>Share_Mpi_Arith\<close>, \<open>Share_Mpi_Mul\<close>, \<open>Share_Mpi_Div\<close>, \<open>Share_Mpi_Digit\<close>, \<open>Share_Mpi_Quot\<close>,
    \<open>Share_Mpi_Mod\<close>, \<open>Share_Mpi_Laws\<close> (arithmetic), \<open>Share_Mpi_Mont\<close>, \<open>Share_Mpi_Exp\<close> (modular power), \<open>Share_Mpi_Gcd\<close>, \<open>Share_Mpi_Inv\<close>, \<open>Share_Mpi_Io\<close>,
    \<open>Share_Mpi_Text\<close> (bytes and texts), \<open>Share_Primes\<close>, \<open>Share_Mpi_Prime\<close> (primes), \<open>Share_Mpi_Rules\<close>: \<^verbatim>\<open>mem/shmem_mpi.c\<close> with 64-bit limbs and the 128-bit division of the compiler.
    Numbers are cells of a store, so that arguments may be the same variable.  Sum, difference, product, quotient
    and remainder are exact.  The product may be stored over its operands; the sum and the difference too, but for the sum of a
    variable with itself into itself, which loses its carries; the variable of the quotient must not be an operand (the sign of the
    operand would be read after it was overwritten), and that of a remainder must not be the modulus.  The loop that
    corrects a digit of the quotient returns; Montgomery multiplication divides by the base modulo the modulus, and the sliding-window
    power is the power (of a negative base: the modulus less the power of the absolute value); the binary algorithm returns the greatest common
    divisor (and zero when the second number is zero) and the binary extended algorithm the inverse (but it never returns for the
    modulus 1); bytes and texts in every radix read back, and the length computed for a
    text in radix 16 is one short for a negative number whose highest byte has at most three bits.  The test of small factors and of Miller and Rabin accepts every
    prime unless the generator draws no usable base 31 times in a row (\<open>Share_Primes\<close> proves Fermat's theorem and what
    else this needs); the search for a prime is a partial function, of which no theorem is stated.

  \<^bold>\<open>Interfaces.\<close>  \<open>byte_sink\<close> (prelude) is what a writer relies on of a buffer it appends to; it is
  interpreted on \<open>shbuf_cat\<close> and used by the printing of maps.  \<open>key_table\<close> (prelude) is a table indexed by
  keys; it is interpreted on the pointer entries of \<open>shmap\<close> while memory is found (\<open>map_libc\<close>), where the locks use it, and on the string members of a
  JSON object.  \<open>block_hash\<close>
  (\<open>Share_Sha_Block\<close>) is a block function that processes full buffers; it is interpreted on the
  three block functions, and the results on writing, padding and digests are proved once in it.

  \<^bold>\<open>Bounds.\<close>  Sizes are bounded where the code's own arithmetic needs it: buffers stay below
  \<open>SHBUF_LIMIT\<close>, messages below \<open>2 ^ 61\<close> bytes (the bit counter of SHA-1 and SHA-256), pieces of a message
  below \<open>2 ^ 32\<close> (\<open>unsigned int\<close>), keys and texts of an HMAC below \<open>2 ^ 31\<close> (\<open>int\<close>),
  bytes for base 64 below \<open>2 ^ 30 - 1\<close> and the texts of JSON items below \<open>2 ^ 31\<close> (\<open>int\<close>).  The clock of a
  one-time code has reached one step and is below \<open>2 ^ 63\<close>.

  \<^bold>\<open>Not modelled.\<close>  The text formats, signatures and public-key operations of \<^verbatim>\<open>mem/shmem_alg*.c\<close> and
  \<^verbatim>\<open>mem/shmem_crypto.c\<close> over vendored big-number code; vendored code (SQLite, zlib, xdelta, gnulib,
  x509); the file system, network and system services, which are operating-system calls around
  the components above.  Next in the plan: the SHR
  and RIPEMD-160 hashes with the dispatch \<open>shkey\<close>/\<open>ashkey\<close>, and the journal of the file system.
\<close>

end
